(* ===== verification/Prelude.thy ===== *)
theory Prelude
  imports Main "HOL-Library.Word"
begin

text \<open>
  Shared vocabulary of the development: the machine integer types of the
  32-bit kernel (\<^verbatim>\<open>src/src/include/types.h\<close>), the error numbers the modelled
  code returns (\<^verbatim>\<open>src/src/include/errno.h\<close>), copying a block of bytes into a
  buffer, and the lemmas on lists and words that the component theories use.
  An assertion of the kernel that fails stops the machine
  (\<^verbatim>\<open>assert\<close> calls \<^verbatim>\<open>hang\<close>); the model writes such an outcome as \<^term>\<open>None\<close>.
\<close>

unbundle bit_operations_syntax

type_synonym u8 = "8 word"
type_synonym u16 = "16 word"
type_synonym u32 = "32 word"
type_synonym u64 = "64 word"

section \<open>Error numbers\<close>

text \<open>The error numbers that the modelled functions return, as one datatype and
  the numeric values that \<^verbatim>\<open>errno.h\<close> gives them.\<close>

datatype errno =
    EPERM | ENOENT | ESRCH | EINTR | EIO | ENXIO | EBADF | EAGAIN | ENOMEM
  | EACCES | EFAULT | EBUSY | EEXIST | ENODEV | ENOTDIR | EISDIR | EINVAL
  | ENFILE | EMFILE | ENOTTY | EFBIG | ENOSPC | ESPIPE | EROFS | EPIPE
  | ENAMETOOLONG | ENOTEMPTY | ENOTSUP | ERESTARTSYS

section \<open>Collections of facts\<close>

named_theorems nat_word "facts that move a word expression to natural numbers"
named_theorems copy_simps "facts on copying blocks of bytes"

section \<open>Words\<close>

text \<open>Every capacity in the kernel that is used with an AND mask is a power of two.\<close>

definition pow2 :: "u32 \<Rightarrow> bool" where
  "pow2 s \<longleftrightarrow> (\<exists>k<32. s = 2 ^ k)"

lemma unat_pow2_mod: "unat ((2::u32) ^ k) = 2 ^ k mod 2 ^ 32"
  by (induction k) (simp_all add: unat_word_ariths mod_mult_right_eq)

lemma unat_pow2 [nat_word]: "k < 32 \<Longrightarrow> unat ((2::u32) ^ k) = 2 ^ k"
  using power_strict_increasing [of k 32 "2::nat"] by (simp add: unat_pow2_mod)

lemma pow2_pos: "pow2 s \<Longrightarrow> 0 < unat s"
  by (auto simp: pow2_def nat_word)

lemma pow2_le: "pow2 s \<Longrightarrow> unat s \<le> 2 ^ 31"
  using power_increasing [of _ 31 "2::nat"] by (auto simp: pow2_def nat_word)

lemma and_pow2_minus_one [nat_word]:
  assumes "pow2 s"
  shows "unat (x AND (s - 1)) = unat x mod unat s"
proof -
  obtain k where k: "k < 32" "s = 2 ^ k"
    using assms by (auto simp: pow2_def)
  have "x AND (s - 1) = take_bit k x"
    by (simp add: k take_bit_eq_mask mask_eq_exp_minus_1)
  then show ?thesis
    using k by (simp only: unsigned_take_bit_eq) (simp add: take_bit_eq_mod nat_word)
qed

lemma and_not_mask_push: "x AND NOT (mask n) = push_bit n (drop_bit n x)" for x :: "'a::len word"
  by (rule bit_word_eqI) (auto simp: bit_simps)

lemma unat_and_not_mask: "unat (x AND NOT (mask n)) = unat x div 2 ^ n * 2 ^ n" for x :: "'a::len word"
proof -
  have "unat x div 2 ^ n * 2 ^ n < 2 ^ LENGTH('a)"
    using unsigned_less [of x] div_times_less_eq_dividend le_less_trans by blast
  then show ?thesis
    unfolding and_not_mask_push unsigned_push_bit_eq unsigned_drop_bit_eq
    by (simp add: push_bit_eq_mult drop_bit_eq_div take_bit_eq_mod)
qed

lemma unat_add_no_wrap [nat_word]:
  "unat (a::u32) + unat b < 2 ^ 32 \<Longrightarrow> unat (a + b) = unat a + unat b"
  by (simp add: unat_word_ariths)

lemma unat_of_nat_small: "n < 2 ^ 32 \<Longrightarrow> unat (of_nat n :: u32) = n"
  by (simp add: unsigned_of_nat take_bit_eq_mod)

lemma of_nat_u32_eq_iff: "n < 2 ^ 32 \<Longrightarrow> m < 2 ^ 32 \<Longrightarrow> (of_nat n :: u32) = of_nat m \<longleftrightarrow> n = m"
  by (metis unat_of_nat_small)

lemma unat_min [nat_word]: "unat (min a b) = min (unat a) (unat b)"
  by (simp add: min_def word_le_nat_alt)

lemma unat_less_2_32 [simp]: "unat (a::u32) < 4294967296"
  using unsigned_less [of a, where ?'a = nat] by simp

section \<open>Blocks of bytes\<close>

text \<open>\<open>copy_at i ys xs\<close> is the buffer \<open>xs\<close> after \<^verbatim>\<open>memcpy(xs + i, ys, length ys)\<close>.\<close>

definition copy_at :: "nat \<Rightarrow> 'a list \<Rightarrow> 'a list \<Rightarrow> 'a list" where
  "copy_at i ys xs = take i xs @ ys @ drop (i + length ys) xs"

lemma length_copy_at [copy_simps]:
  "i + length ys \<le> length xs \<Longrightarrow> length (copy_at i ys xs) = length xs"
  by (simp add: copy_at_def)

lemma nth_copy_at [copy_simps]:
  "i + length ys \<le> length xs \<Longrightarrow> j < length xs \<Longrightarrow>
   copy_at i ys xs ! j = (if i \<le> j \<and> j < i + length ys then ys ! (j - i) else xs ! j)"
  by (auto simp: copy_at_def nth_append)

lemma copy_at_Nil [simp]: "copy_at i [] xs = xs"
  by (simp add: copy_at_def)

lemma take_drop_copy_at [copy_simps]:
  "i + length ys \<le> length xs \<Longrightarrow> take (length ys) (drop i (copy_at i ys xs)) = ys"
  by (simp add: copy_at_def)

section \<open>Circular buffers\<close>

text \<open>
  A block that is written at an offset of a circular buffer is copied in two
  chunks, up to the end of the buffer and from its start; reading is the same.
  \<open>put_wrapped\<close> is that write, \<open>get_wrapped\<close> reads a block index by index.
  The kernel has this pattern twice, in \<^verbatim>\<open>lib/ring_buffer.c\<close> and in
  \<^verbatim>\<open>kernel/logbuf.c\<close>.
\<close>

definition put_wrapped :: "nat \<Rightarrow> 'a list \<Rightarrow> 'a list \<Rightarrow> 'a list" where
  "put_wrapped off xs d =
     (let c = min (length d - off) (length xs)
      in copy_at 0 (drop c xs) (copy_at off (take c xs) d))"

definition get_wrapped :: "nat \<Rightarrow> nat \<Rightarrow> 'a list \<Rightarrow> 'a list" where
  "get_wrapped off n d = map (\<lambda>k. d ! ((off + k) mod length d)) [0..<n]"

lemma length_get_wrapped [simp]: "length (get_wrapped off n d) = n"
  by (simp add: get_wrapped_def)

lemma nth_get_wrapped [simp]: "k < n \<Longrightarrow> get_wrapped off n d ! k = d ! ((off + k) mod length d)"
  by (simp add: get_wrapped_def)

lemma get_wrapped_0 [simp]: "get_wrapped off 0 d = []"
  by (simp add: get_wrapped_def)

lemma length_put_wrapped [copy_simps]:
  "off < length d \<Longrightarrow> length xs \<le> length d \<Longrightarrow> length (put_wrapped off xs d) = length d"
  by (simp add: put_wrapped_def Let_def copy_simps)

lemma put_wrapped_chunks:
  "c = min (length d - off) (length xs) \<Longrightarrow>
   (if c < length xs then copy_at 0 (drop c xs) (copy_at off (take c xs) d)
    else copy_at off (take c xs) d) = put_wrapped off xs d"
  by (simp add: put_wrapped_def Let_def)

lemma ring_distance:
  "off < S \<Longrightarrow> j < S \<Longrightarrow> (j + S - off) mod S = (if off \<le> j then j - off else j + S - off)"
  for off j S :: nat
  by (auto simp: mod_if)

lemma ring_distance_add: "off < S \<Longrightarrow> i < S \<Longrightarrow> ((off + i) mod S + S - off) mod S = i"
  for off i S :: nat
  by (auto simp: mod_if)

lemma nth_put_wrapped:
  assumes "off < length d" "length xs \<le> length d" "j < length d"
  shows "put_wrapped off xs d ! j =
    (let k = (j + length d - off) mod length d in if k < length xs then xs ! k else d ! j)"
  using assms
  by (auto simp: put_wrapped_def Let_def copy_simps ring_distance nth_append min_def add.commute)

lemma get_put_wrapped [copy_simps]:
  assumes "off < length d" "length xs \<le> length d"
  shows "get_wrapped off (length xs) (put_wrapped off xs d) = xs"
proof (rule nth_equalityI)
  fix k assume "k < length (get_wrapped off (length xs) (put_wrapped off xs d))"
  then have k: "k < length xs" by simp
  moreover have "(off + k) mod length d < length d"
    using assms by (auto intro: mod_less_divisor)
  ultimately show "get_wrapped off (length xs) (put_wrapped off xs d) ! k = xs ! k"
    using assms by (simp add: copy_simps nth_put_wrapped ring_distance_add)
qed simp

lemma get_put_wrapped_other:
  assumes "tail < length d" "n + length xs \<le> length d"
  shows "get_wrapped tail n (put_wrapped ((tail + n) mod length d) xs d) = get_wrapped tail n d"
proof (rule nth_equalityI)
  let ?S = "length d" and ?off = "(tail + n) mod length d"
  have off: "?off < ?S" using assms by (auto intro: mod_less_divisor)
  fix k assume "k < length (get_wrapped tail n (put_wrapped ?off xs d))"
  then have k: "k < n" by simp
  have "(?off + (?S - n + k)) mod ?S = (tail + n + (?S - n + k)) mod ?S"
    by (simp add: mod_add_left_eq)
  also have "tail + n + (?S - n + k) = tail + k + ?S"
    using assms k by simp
  finally have pos: "(tail + k) mod ?S = (?off + (?S - n + k)) mod ?S" by simp
  have "?S - n + k < ?S" using assms k by simp
  then have "((tail + k) mod ?S + ?S - ?off) mod ?S = ?S - n + k"
    using off by (simp only: pos ring_distance_add)
  moreover have "(tail + k) mod ?S < ?S"
    using assms by (auto intro: mod_less_divisor)
  moreover have "\<not> ?S - n + k < length xs"
    using assms by simp
  ultimately show "get_wrapped tail n (put_wrapped ?off xs d) ! k = get_wrapped tail n d ! k"
    using assms off k by (simp only: nth_put_wrapped length_put_wrapped nth_get_wrapped) simp
qed simp

lemma get_wrapped_append:
  "get_wrapped off (m + n) d = get_wrapped off m d @ get_wrapped ((off + m) mod length d) n d"
proof (rule nth_equalityI)
  fix i assume "i < length (get_wrapped off (m + n) d)"
  then have i: "i < m + n" by simp
  have "((off + m) mod length d + (i - m)) mod length d = (off + i) mod length d" if "\<not> i < m"
    using that by (subst mod_add_left_eq) simp
  then show "get_wrapped off (m + n) d ! i =
      (get_wrapped off m d @ get_wrapped ((off + m) mod length d) n d) ! i"
    using i by (simp add: nth_append)
qed simp

lemma get_wrapped_two_chunks:
  assumes "off < length d" "n \<le> length d"
  shows "get_wrapped off n d =
    (let c = min (length d - off) n in take c (drop off d) @ take (n - c) d)"
proof (rule nth_equalityI)
  fix k assume "k < length (get_wrapped off n d)"
  then have k: "k < n" by simp
  have "(off + k) mod length d = (if off + k < length d then off + k else off + k - length d)"
    using assms k by (simp add: mod_if)
  then show "get_wrapped off n d ! k =
      (let c = min (length d - off) n in take c (drop off d) @ take (n - c) d) ! k"
    using assms k by (auto simp: Let_def nth_append min_def add.commute)
qed (use assms in \<open>auto simp: Let_def min_def\<close>)

lemma get_wrapped_chunks:
  assumes "c = min (length d - off) n" "off < length d" "n \<le> length d"
  shows "(if c < n then take c (drop off d) @ take (n - c) d else take c (drop off d)) = get_wrapped off n d"
  using assms by (simp add: get_wrapped_two_chunks Let_def)

section \<open>Little-endian encoding\<close>

text \<open>The processor stores a word with its least significant byte first.\<close>

primrec le_bytes :: "nat \<Rightarrow> 'a::len word \<Rightarrow> u8 list" where
  "le_bytes 0 w = []"
| "le_bytes (Suc n) w = ucast w # le_bytes n (drop_bit 8 w)"

primrec le_word :: "u8 list \<Rightarrow> 'a::len word" where
  "le_word [] = 0"
| "le_word (b # bs) = ucast b OR push_bit 8 (le_word bs)"

lemma length_le_bytes [simp]: "length (le_bytes n w) = n"
  by (induction n arbitrary: w) simp_all

lemma le_word_le_bytes: "le_word (le_bytes n w) = take_bit (8 * n) w"
proof (induction n arbitrary: w)
  case (Suc n)
  then show ?case
    by (auto intro!: bit_word_eqI simp: bit_simps)
qed simp

lemma le_word_le_bytes_id [simp]: "LENGTH('a) \<le> 8 * n \<Longrightarrow> le_word (le_bytes n w) = (w :: 'a::len word)"
  by (auto intro!: bit_word_eqI simp: le_word_le_bytes bit_simps dest: bit_imp_le_length)

end
