(* ===== verification/Ring_Buffer.thy ===== *)
theory Ring_Buffer
  imports Prelude
begin

text \<open>
  The byte ring of \<^verbatim>\<open>src/src/lib/ring_buffer.c\<close>, which pipes, terminals and
  sockets use. \<open>rb_data\<close> is \<^term>\<open>None\<close> for the null pointer. Reading returns the bytes
  that the code copies to the caller's buffer; the flag \<^verbatim>\<open>u\<close>, which selects the
  user or the kernel copy routine, does not change the bytes copied. The page that
  \<^verbatim>\<open>ring_buffer_init\<close> gets from the page allocator is an argument.
\<close>

section \<open>Model\<close>

record ring_buffer =
  rb_data :: "u8 list option"
  rb_size :: u32
  rb_head :: u32
  rb_tail :: u32
  rb_len :: u32

definition ring_buffer_init :: "u8 list option \<Rightarrow> ring_buffer \<Rightarrow> (errno + unit) \<times> ring_buffer" where
  "ring_buffer_init page rb =
     (let rb = rb\<lparr>rb_data := page\<rparr>
      in case page of
           None \<Rightarrow> (Inl ENOMEM, rb)
         | Some _ \<Rightarrow> (Inr (), rb\<lparr>rb_size := 4096, rb_head := 0, rb_tail := 0, rb_len := 0\<rparr>))"

definition ring_buffer_clear :: "ring_buffer \<Rightarrow> ring_buffer" where
  "ring_buffer_clear rb = rb\<lparr>rb_head := 0, rb_tail := 0, rb_len := 0\<rparr>"

definition ring_buffer_destroy :: "ring_buffer \<Rightarrow> ring_buffer" where
  "ring_buffer_destroy rb = (case rb_data rb of None \<Rightarrow> rb | Some _ \<Rightarrow> rb\<lparr>rb_data := None\<rparr>)"

definition ring_buffer_space :: "ring_buffer \<Rightarrow> u32" where
  "ring_buffer_space rb = rb_size rb - rb_len rb"

definition ring_buffer_avail :: "ring_buffer \<Rightarrow> u32" where
  "ring_buffer_avail rb = rb_len rb"

definition ring_buffer_write :: "ring_buffer \<Rightarrow> u8 list \<Rightarrow> u32 \<Rightarrow> ring_buffer \<times> u32" where
  "ring_buffer_write rb buf count =
     (case rb_data rb of
        None \<Rightarrow> (rb, 0)
      | Some data \<Rightarrow>
          if count = 0 then (rb, 0)
          else
            let can_write = min count (ring_buffer_space rb)
            in if can_write = 0 then (rb, 0)
               else
                 let msk = rb_size rb - 1;
                     chunk1 = (if rb_head rb + can_write \<le> rb_size rb then can_write
                               else rb_size rb - rb_head rb);
                     data = copy_at (unat (rb_head rb)) (take (unat chunk1) buf) data;
                     data = (if can_write > chunk1
                             then copy_at 0 (take (unat (can_write - chunk1)) (drop (unat chunk1) buf)) data
                             else data)
                 in (rb\<lparr>rb_data := Some data,
                        rb_head := (rb_head rb + can_write) AND msk,
                        rb_len := rb_len rb + can_write\<rparr>, can_write))"

definition ring_buffer_read :: "ring_buffer \<Rightarrow> u32 \<Rightarrow> ring_buffer \<times> u8 list \<times> u32" where
  "ring_buffer_read rb count =
     (case rb_data rb of
        None \<Rightarrow> (rb, [], 0)
      | Some data \<Rightarrow>
          if count = 0 then (rb, [], 0)
          else
            let can_read = min count (ring_buffer_avail rb)
            in if can_read = 0 then (rb, [], 0)
               else
                 let msk = rb_size rb - 1;
                     chunk1 = (if rb_tail rb + can_read \<le> rb_size rb then can_read
                               else rb_size rb - rb_tail rb);
                     dst = take (unat chunk1) (drop (unat (rb_tail rb)) data);
                     dst = (if can_read > chunk1
                            then dst @ take (unat (can_read - chunk1)) data else dst)
                 in (rb\<lparr>rb_tail := (rb_tail rb + can_read) AND msk,
                        rb_len := rb_len rb - can_read\<rparr>, dst, can_read))"

definition ring_buffer_empty :: "ring_buffer \<Rightarrow> bool" where
  "ring_buffer_empty rb \<longleftrightarrow> rb_len rb = 0"

definition ring_buffer_full :: "ring_buffer \<Rightarrow> bool" where
  "ring_buffer_full rb \<longleftrightarrow> rb_len rb = rb_size rb"

text \<open>\<^verbatim>\<open>ring_buffer_pop\<close> returns the byte as a non-negative integer or -1; a read
  through the null pointer is \<^term>\<open>None\<close>.\<close>

definition ring_buffer_pop :: "ring_buffer \<Rightarrow> (ring_buffer \<times> int) option" where
  "ring_buffer_pop rb =
     (if \<not> ring_buffer_empty rb
      then let msk = rb_size rb - 1;
               rb = rb\<lparr>rb_head := (rb_head rb - 1) AND msk, rb_len := rb_len rb - 1\<rparr>
           in case rb_data rb of
                None \<Rightarrow> None
              | Some data \<Rightarrow> Some (rb, uint (data ! unat (rb_head rb)))
      else Some (rb, -1))"

section \<open>Invariant and abstraction\<close>

definition rb_inv :: "ring_buffer \<Rightarrow> bool" where
  "rb_inv rb \<longleftrightarrow>
     (case rb_data rb of None \<Rightarrow> False | Some d \<Rightarrow> length d = unat (rb_size rb)) \<and>
     pow2 (rb_size rb) \<and>
     rb_tail rb < rb_size rb \<and>
     rb_len rb \<le> rb_size rb \<and>
     unat (rb_head rb) = (unat (rb_tail rb) + unat (rb_len rb)) mod unat (rb_size rb)"

text \<open>The bytes in the ring, oldest first.\<close>

definition rb_list :: "ring_buffer \<Rightarrow> u8 list" where
  "rb_list rb = (case rb_data rb of None \<Rightarrow> []
     | Some d \<Rightarrow> get_wrapped (unat (rb_tail rb)) (unat (rb_len rb)) d)"

lemmas rb_defs = ring_buffer_space_def ring_buffer_avail_def ring_buffer_empty_def
  ring_buffer_full_def

lemma length_rb_list [simp]: "rb_inv rb \<Longrightarrow> length (rb_list rb) = unat (rb_len rb)"
  by (auto simp: rb_inv_def rb_list_def split: option.splits)

text \<open>The facts about a well-formed ring that every operation's proof starts from.\<close>

lemma rb_invE:
  assumes "rb_inv rb"
  obtains d where "rb_data rb = Some d" "length d = unat (rb_size rb)" "pow2 (rb_size rb)"
    "0 < length d" "length d \<le> 2 ^ 31" "unat (rb_tail rb) < length d" "unat (rb_len rb) \<le> length d"
    "unat (rb_head rb) = (unat (rb_tail rb) + unat (rb_len rb)) mod length d"
    "unat (rb_head rb) < length d"
proof -
  obtain d where d: "rb_data rb = Some d" "length d = unat (rb_size rb)"
    using assms by (auto simp: rb_inv_def split: option.splits)
  moreover have "pow2 (rb_size rb)" "unat (rb_tail rb) < length d" "unat (rb_len rb) \<le> length d"
    "unat (rb_head rb) = (unat (rb_tail rb) + unat (rb_len rb)) mod length d"
    using assms d by (auto simp: rb_inv_def word_less_nat_alt word_le_nat_alt)
  moreover from this have "0 < length d" "length d \<le> 2 ^ 31"
    using pow2_pos pow2_le d by auto
  ultimately show thesis
    using that by (metis mod_less_divisor)
qed

lemma ring_buffer_write_put:
  assumes "rb_inv rb" "rb_data rb = Some d" and n: "n = min count (ring_buffer_space rb)"
    and "n \<noteq> 0" and len: "unat count \<le> length buf"
  shows "ring_buffer_write rb buf count =
    (rb\<lparr>rb_data := Some (put_wrapped (unat (rb_head rb)) (take (unat n) buf) d),
        rb_head := (rb_head rb + n) AND (rb_size rb - 1), rb_len := rb_len rb + n\<rparr>, n)"
proof -
  from assms(1) obtain d' where d: "rb_data rb = Some d'" "length d' = unat (rb_size rb)"
    "length d' \<le> 2 ^ 31" "unat (rb_len rb) \<le> length d'" "unat (rb_head rb) < length d'"
    by (auto elim!: rb_invE)
  have count: "count \<noteq> 0" using n \<open>n \<noteq> 0\<close> by (auto simp: min_def)
  have space: "unat (ring_buffer_space rb) = length d - unat (rb_len rb)"
    using d assms(2) by (simp add: ring_buffer_space_def unat_sub word_le_nat_alt)
  have nn: "unat n = min (unat count) (length d - unat (rb_len rb))"
    by (simp add: n nat_word space)
  have sum: "unat (rb_head rb + n) = unat (rb_head rb) + unat n"
    using d assms(2) nn by (simp add: nat_word)
  define c where "c = (if rb_head rb + n \<le> rb_size rb then n else rb_size rb - rb_head rb)"
  have c: "unat c = min (length d - unat (rb_head rb)) (unat n)"
    using d assms(2) sum by (auto simp: c_def word_le_nat_alt unat_sub)
  have rest: "unat (n - c) = unat n - unat c"
    using c by (simp add: unat_sub word_le_nat_alt)
  have "take (unat (n - c)) (drop (unat c) buf) = drop (unat c) (take (unat n) buf)"
    "take (unat c) buf = take (unat c) (take (unat n) buf)"
    "length (take (unat n) buf) = unat n"
    using len nn c by (simp_all add: rest drop_take)
  then have "(if c < n
      then copy_at 0 (take (unat (n - c)) (drop (unat c) buf)) (copy_at (unat (rb_head rb)) (take (unat c) buf) d)
      else copy_at (unat (rb_head rb)) (take (unat c) buf) d) =
      put_wrapped (unat (rb_head rb)) (take (unat n) buf) d"
    using put_wrapped_chunks [of "unat c" d "unat (rb_head rb)" "take (unat n) buf"] c
    by (simp only: word_less_nat_alt)
  then show ?thesis
    using assms(2) count \<open>n \<noteq> 0\<close>
    by (simp add: ring_buffer_write_def Let_def flip: n c_def)
qed

lemma ring_buffer_read_get:
  assumes "rb_inv rb" "rb_data rb = Some d" and n: "n = min count (ring_buffer_avail rb)" and "n \<noteq> 0"
  shows "ring_buffer_read rb count =
    (rb\<lparr>rb_tail := (rb_tail rb + n) AND (rb_size rb - 1), rb_len := rb_len rb - n\<rparr>,
     get_wrapped (unat (rb_tail rb)) (unat n) d, n)"
proof -
  from assms(1,2) have d: "length d = unat (rb_size rb)"
    "length d \<le> 2 ^ 31" "unat (rb_len rb) \<le> length d" "unat (rb_tail rb) < length d"
    by (auto elim!: rb_invE)
  have count: "count \<noteq> 0" using n \<open>n \<noteq> 0\<close> by (auto simp: min_def)
  have nn: "unat n \<le> length d"
    using d by (simp add: n nat_word ring_buffer_avail_def)
  have sum: "unat (rb_tail rb + n) = unat (rb_tail rb) + unat n"
    using d nn by (simp add: nat_word)
  define c where "c = (if rb_tail rb + n \<le> rb_size rb then n else rb_size rb - rb_tail rb)"
  have c: "unat c = min (length d - unat (rb_tail rb)) (unat n)"
    using d sum by (auto simp: c_def word_le_nat_alt unat_sub)
  have rest: "unat (n - c) = unat n - unat c"
    using c by (simp add: unat_sub word_le_nat_alt)
  have "(if c < n then take (unat c) (drop (unat (rb_tail rb)) d) @ take (unat (n - c)) d
      else take (unat c) (drop (unat (rb_tail rb)) d)) = get_wrapped (unat (rb_tail rb)) (unat n) d"
    using get_wrapped_chunks [OF c] d nn by (simp only: rest word_less_nat_alt)
  then show ?thesis
    using assms(2) count \<open>n \<noteq> 0\<close>
    by (simp add: ring_buffer_read_def Let_def flip: n c_def)
qed

section \<open>The interface its clients use\<close>

text \<open>
  A bounded byte queue: \<open>put q buf n\<close> offers the first \<open>n\<close> bytes of \<open>buf\<close> and returns how many
  were taken, \<open>get q n\<close> takes at most \<open>n\<close> bytes out.
\<close>

datatype queue_op = Put "u8 list" | Get u32

text \<open>A sequence of operations, with the bytes that went in and the bytes that came out.\<close>

fun queue_run :: "('q \<Rightarrow> u8 list \<Rightarrow> u32 \<Rightarrow> 'q \<times> u32) \<Rightarrow> ('q \<Rightarrow> u32 \<Rightarrow> 'q \<times> u8 list \<times> u32) \<Rightarrow>
    'q \<Rightarrow> queue_op list \<Rightarrow> 'q \<times> u8 list \<times> u8 list" where
  "queue_run put get q [] = (q, [], [])"
| "queue_run put get q (Put bs # ops) =
     (let (q', k) = put q bs (of_nat (length bs)); (q'', ins, outs) = queue_run put get q' ops
      in (q'', take (unat k) bs @ ins, outs))"
| "queue_run put get q (Get n # ops) =
     (let (q', bs, k) = get q n; (q'', ins, outs) = queue_run put get q' ops
      in (q'', ins, bs @ outs))"

fun queue_op_ok :: "queue_op \<Rightarrow> bool" where
  "queue_op_ok (Put bs) \<longleftrightarrow> length bs < 2 ^ 32"
| "queue_op_ok (Get n) \<longleftrightarrow> True"

locale byte_queue =
  fixes inv :: "'q \<Rightarrow> bool"
    and content :: "'q \<Rightarrow> u8 list"
    and capacity :: "'q \<Rightarrow> nat"
    and put :: "'q \<Rightarrow> u8 list \<Rightarrow> u32 \<Rightarrow> 'q \<times> u32"
    and get :: "'q \<Rightarrow> u32 \<Rightarrow> 'q \<times> u8 list \<times> u32"
  assumes bounded: "inv q \<Longrightarrow> length (content q) \<le> capacity q"
    and put_inv: "inv q \<Longrightarrow> unat n \<le> length buf \<Longrightarrow> inv (fst (put q buf n))"
    and put_capacity: "inv q \<Longrightarrow> unat n \<le> length buf \<Longrightarrow> capacity (fst (put q buf n)) = capacity q"
    and put_count: "inv q \<Longrightarrow> unat n \<le> length buf \<Longrightarrow>
      unat (snd (put q buf n)) = min (unat n) (capacity q - length (content q))"
    and put_content: "inv q \<Longrightarrow> unat n \<le> length buf \<Longrightarrow>
      content (fst (put q buf n)) = content q @ take (unat (snd (put q buf n))) buf"
    and get_inv: "inv q \<Longrightarrow> inv (fst (get q n))"
    and get_capacity: "inv q \<Longrightarrow> capacity (fst (get q n)) = capacity q"
    and get_count: "inv q \<Longrightarrow> unat (snd (snd (get q n))) = min (unat n) (length (content q))"
    and get_bytes: "inv q \<Longrightarrow> fst (snd (get q n)) = take (unat n) (content q)"
    and get_content: "inv q \<Longrightarrow> content (fst (get q n)) = drop (unat n) (content q)"
begin

lemma put_all_if_space:
  "inv q \<Longrightarrow> unat n \<le> length buf \<Longrightarrow> unat n \<le> capacity q - length (content q) \<Longrightarrow>
   unat (snd (put q buf n)) = unat n"
  by (simp add: put_count)

lemma put_then_get:
  assumes "inv q" "content q = []" "unat n \<le> length buf" "unat n \<le> capacity q"
  shows "fst (snd (get (fst (put q buf n)) n)) = take (unat n) buf"
  using assms by (simp add: get_bytes put_inv put_content put_count)

text \<open>Bytes come out in the order they went in, none lost and none twice, whatever
  the order of the operations.\<close>

lemma run_fifo:
  assumes "inv q" "\<forall>op \<in> set ops. queue_op_ok op" "queue_run put get q ops = (q', ins, outs)"
  shows "inv q' \<and> capacity q' = capacity q \<and> content q @ ins = outs @ content q'"
  using assms
proof (induction ops arbitrary: q ins outs)
  case Nil
  then show ?case by simp
next
  case (Cons op ops)
  show ?case
  proof (cases op)
    case (Put bs)
    obtain q1 k where put: "put q bs (of_nat (length bs)) = (q1, k)" by fastforce
    have len: "unat (of_nat (length bs) :: u32) \<le> length bs"
      using Cons.prems(2) Put by (simp add: unsigned_of_nat take_bit_eq_mod)
    have q1: "inv q1" "capacity q1 = capacity q" "content q1 = content q @ take (unat k) bs"
      using put_inv [OF Cons.prems(1) len] put_capacity [OF Cons.prems(1) len]
        put_content [OF Cons.prems(1) len] put by simp_all
    obtain ins1 where "queue_run put get q1 ops = (q', ins1, outs)" "ins = take (unat k) bs @ ins1"
      using Cons.prems(3) Put put by (auto split: prod.splits)
    with Cons.IH [of q1 ins1 outs] Cons.prems(2) q1 show ?thesis by simp
  next
    case (Get n)
    obtain q1 bs k where get: "get q n = (q1, bs, k)" by (metis prod_cases3)
    have q1: "inv q1" "capacity q1 = capacity q" "bs = take (unat n) (content q)"
      "content q1 = drop (unat n) (content q)"
      using get_inv [OF Cons.prems(1), of n] get_capacity [OF Cons.prems(1), of n]
        get_bytes [OF Cons.prems(1), of n] get_content [OF Cons.prems(1), of n] get by simp_all
    obtain outs1 where "queue_run put get q1 ops = (q', ins, outs1)" "outs = bs @ outs1"
      using Cons.prems(3) Get get by (auto split: prod.splits)
    with Cons.IH [of q1 ins outs1] Cons.prems(2) q1 show ?thesis
      by (metis append.assoc append_take_drop_id list.set_intros(2))
  qed
qed

end

section \<open>The ring buffer is a byte queue\<close>

lemma rb_inv_advance_head:
  assumes "rb_inv rb" "unat (rb_len rb) + unat n \<le> unat (rb_size rb)" "length d = unat (rb_size rb)"
  shows "rb_inv (rb\<lparr>rb_data := Some d, rb_head := (rb_head rb + n) AND (rb_size rb - 1),
     rb_len := rb_len rb + n\<rparr>)"
proof -
  from assms(1) obtain d' where d: "rb_data rb = Some d'" "length d' = unat (rb_size rb)"
    "pow2 (rb_size rb)" "length d' \<le> 2 ^ 31" "unat (rb_tail rb) < length d'" "unat (rb_head rb) < length d'"
    "unat (rb_head rb) = (unat (rb_tail rb) + unat (rb_len rb)) mod length d'"
    by (auto elim!: rb_invE)
  have "unat (rb_head rb) + unat n < 2 ^ 32" "unat (rb_len rb) + unat n < 2 ^ 32"
    using d(2,4,6) assms(2) by simp_all
  then have "unat (rb_head rb + n) = unat (rb_head rb) + unat n" "unat (rb_len rb + n) = unat (rb_len rb) + unat n"
    by (simp_all only: unat_add_no_wrap)
  then show ?thesis
    using d assms by (auto simp: rb_inv_def nat_word word_less_nat_alt word_le_nat_alt mod_add_left_eq add.assoc)
qed

lemma rb_inv_advance_tail:
  assumes "rb_inv rb" "n \<le> rb_len rb"
  shows "rb_inv (rb\<lparr>rb_tail := (rb_tail rb + n) AND (rb_size rb - 1), rb_len := rb_len rb - n\<rparr>)"
proof -
  from assms(1) obtain d where d: "rb_data rb = Some d" "length d = unat (rb_size rb)" "pow2 (rb_size rb)"
    "0 < length d" "length d \<le> 2 ^ 31" "unat (rb_tail rb) < length d" "unat (rb_len rb) \<le> length d"
    "unat (rb_head rb) = (unat (rb_tail rb) + unat (rb_len rb)) mod length d"
    by (auto elim!: rb_invE)
  have n: "unat n \<le> unat (rb_len rb)" using assms(2) by (simp add: word_le_nat_alt)
  have "unat (rb_tail rb + n) = unat (rb_tail rb) + unat n" "unat (rb_len rb - n) = unat (rb_len rb) - unat n"
    using d n assms(2) by (auto simp: nat_word unat_sub)
  moreover have "((unat (rb_tail rb) + unat n) mod length d + (unat (rb_len rb) - unat n)) mod length d =
      (unat (rb_tail rb) + unat (rb_len rb)) mod length d"
    using n by (subst mod_add_left_eq) simp
  moreover have "(unat (rb_tail rb) + unat n) mod length d < length d"
    using d by (intro mod_less_divisor)
  ultimately show ?thesis
    using d n by (simp add: rb_inv_def nat_word word_less_nat_alt word_le_nat_alt)
qed

lemma ring_buffer_write_law:
  assumes inv: "rb_inv rb" and len: "unat count \<le> length buf"
    and res: "ring_buffer_write rb buf count = (rb', n)"
  shows "rb_inv rb'" "rb_size rb' = rb_size rb"
    "unat n = min (unat count) (unat (rb_size rb) - length (rb_list rb))"
    "rb_list rb' = rb_list rb @ take (unat n) buf"
proof -
  from inv obtain d where d: "rb_data rb = Some d" "length d = unat (rb_size rb)"
    "0 < length d" "length d \<le> 2 ^ 31" "unat (rb_tail rb) < length d" "unat (rb_len rb) \<le> length d"
    "unat (rb_head rb) = (unat (rb_tail rb) + unat (rb_len rb)) mod length d"
    "unat (rb_head rb) < length d"
    by (auto elim!: rb_invE)
  define m where "m = min count (ring_buffer_space rb)"
  have m: "unat m = min (unat count) (unat (rb_size rb) - unat (rb_len rb))"
    using d by (simp add: m_def nat_word ring_buffer_space_def unat_sub word_le_nat_alt)
  have "rb_inv rb' \<and> rb_size rb' = rb_size rb \<and> n = m \<and> rb_list rb' = rb_list rb @ take (unat m) buf"
  proof (cases "m = 0")
    case True
    then have "(rb', n) = (rb, 0)"
      using res d by (auto simp: ring_buffer_write_def m_def split: if_splits)
    with True inv show ?thesis by simp
  next
    case False
    let ?d = "put_wrapped (unat (rb_head rb)) (take (unat m) buf) d"
    have fit: "length (take (unat m) buf) = unat m" "unat (rb_len rb) + unat m \<le> length d"
      using m len d by auto
    have rb': "rb' = rb\<lparr>rb_data := Some ?d, rb_head := (rb_head rb + m) AND (rb_size rb - 1),
        rb_len := rb_len rb + m\<rparr>" "n = m"
      using res ring_buffer_write_put [OF inv d(1) m_def False len] by auto
    have ld: "length ?d = length d" using d fit by (simp add: length_put_wrapped)
    have "rb_list rb' = get_wrapped (unat (rb_tail rb)) (unat (rb_len rb) + unat m) ?d"
      using d fit by (simp add: rb'(1) rb_list_def nat_word)
    also have "\<dots> = get_wrapped (unat (rb_tail rb)) (unat (rb_len rb)) ?d @ get_wrapped (unat (rb_head rb)) (unat m) ?d"
      by (simp only: get_wrapped_append ld flip: d(7))
    also have "\<dots> = rb_list rb @ take (unat m) buf"
      using get_put_wrapped [of "unat (rb_head rb)" d "take (unat m) buf"]
        get_put_wrapped_other [of "unat (rb_tail rb)" d "unat (rb_len rb)" "take (unat m) buf"] d fit
      by (simp add: rb_list_def)
    finally show ?thesis
      using rb_inv_advance_head [OF inv _ ld [unfolded d(2)], of m] d fit rb' by simp
  qed
  then show "rb_inv rb'" "rb_size rb' = rb_size rb" "rb_list rb' = rb_list rb @ take (unat n) buf"
    "unat n = min (unat count) (unat (rb_size rb) - length (rb_list rb))"
    using m inv by simp_all
qed

lemma ring_buffer_read_law:
  assumes inv: "rb_inv rb" and res: "ring_buffer_read rb count = (rb', bs, n)"
  shows "rb_inv rb'" "rb_size rb' = rb_size rb"
    "unat n = min (unat count) (length (rb_list rb))"
    "bs = take (unat count) (rb_list rb)" "rb_list rb' = drop (unat count) (rb_list rb)"
proof -
  from inv obtain d where d: "rb_data rb = Some d" "length d = unat (rb_size rb)"
    "unat (rb_tail rb) < length d" "unat (rb_len rb) \<le> length d" "length d \<le> 2 ^ 31"
    by (auto elim!: rb_invE)
  define m where "m = min count (ring_buffer_avail rb)"
  have m: "unat m = min (unat count) (unat (rb_len rb))" "m \<le> rb_len rb"
    by (simp_all add: m_def nat_word ring_buffer_avail_def)
  have split: "rb_list rb = get_wrapped (unat (rb_tail rb)) (unat m) d @
      get_wrapped ((unat (rb_tail rb) + unat m) mod length d) (unat (rb_len rb) - unat m) d"
    using get_wrapped_append [of "unat (rb_tail rb)" "unat m" "unat (rb_len rb) - unat m" d] m d
    by (simp add: rb_list_def)
  have "rb_inv rb' \<and> rb_size rb' = rb_size rb \<and> n = m \<and>
      bs = take (unat m) (rb_list rb) \<and> rb_list rb' = drop (unat m) (rb_list rb)"
  proof (cases "m = 0")
    case True
    then have "(rb', bs, n) = (rb, [], 0)"
      using res d by (auto simp: ring_buffer_read_def m_def split: if_splits)
    with True inv show ?thesis by simp
  next
    case False
    have rb': "rb' = rb\<lparr>rb_tail := (rb_tail rb + m) AND (rb_size rb - 1), rb_len := rb_len rb - m\<rparr>"
      "bs = get_wrapped (unat (rb_tail rb)) (unat m) d" "n = m"
      using res ring_buffer_read_get [OF inv d(1) m_def False] by auto
    have "pow2 (rb_size rb)" using inv by (simp add: rb_inv_def)
    then have "rb_list rb' = get_wrapped ((unat (rb_tail rb) + unat m) mod length d) (unat (rb_len rb) - unat m) d"
      using d m by (simp add: rb' rb_list_def nat_word unat_sub)
    then show ?thesis
      using split rb' rb_inv_advance_tail [OF inv m(2)] by simp
  qed
  then show "rb_inv rb'" "rb_size rb' = rb_size rb" "unat n = min (unat count) (length (rb_list rb))"
    "bs = take (unat count) (rb_list rb)" "rb_list rb' = drop (unat count) (rb_list rb)"
    using m inv by (auto simp: min_def)
qed

interpretation rb: byte_queue rb_inv rb_list "\<lambda>rb. unat (rb_size rb)" ring_buffer_write ring_buffer_read
proof unfold_locales
  fix rb :: ring_buffer and n :: u32 and buf :: "u8 list"
  assume inv: "rb_inv rb"
  show "length (rb_list rb) \<le> unat (rb_size rb)"
    using inv by (auto elim!: rb_invE)
  show "rb_inv (fst (ring_buffer_read rb n))" "unat (rb_size (fst (ring_buffer_read rb n))) = unat (rb_size rb)"
    "unat (snd (snd (ring_buffer_read rb n))) = min (unat n) (length (rb_list rb))"
    "fst (snd (ring_buffer_read rb n)) = take (unat n) (rb_list rb)"
    "rb_list (fst (ring_buffer_read rb n)) = drop (unat n) (rb_list rb)"
    using ring_buffer_read_law [OF inv, of n] by (metis prod.collapse)+
  assume len: "unat n \<le> length buf"
  show "rb_inv (fst (ring_buffer_write rb buf n))"
    "unat (rb_size (fst (ring_buffer_write rb buf n))) = unat (rb_size rb)"
    "unat (snd (ring_buffer_write rb buf n)) = min (unat n) (unat (rb_size rb) - length (rb_list rb))"
    "rb_list (fst (ring_buffer_write rb buf n)) = rb_list rb @ take (unat (snd (ring_buffer_write rb buf n))) buf"
    using ring_buffer_write_law [OF inv len] by (metis prod.collapse)+
qed

section \<open>Removing the last byte written\<close>

lemma unat_dec_mask:
  assumes "pow2 s"
  shows "unat ((h - 1) AND (s - 1)) = (if h = 0 then unat s - 1 else (unat h - 1) mod unat s)"
proof (cases "h = 0")
  case True
  have "s \<noteq> 0" using pow2_pos [OF assms] by auto
  with True show ?thesis by (simp add: unat_minus_one)
next
  case False
  then show ?thesis using assms by (simp add: nat_word unat_minus_one)
qed

lemma ring_buffer_pop_law:
  assumes inv: "rb_inv rb" and ne: "rb_list rb \<noteq> []"
  shows "\<exists>rb'. ring_buffer_pop rb = Some (rb', uint (last (rb_list rb))) \<and>
    rb_inv rb' \<and> rb_size rb' = rb_size rb \<and> rb_list rb' = butlast (rb_list rb)"
proof -
  from inv obtain d where d: "rb_data rb = Some d" "length d = unat (rb_size rb)" "pow2 (rb_size rb)"
    "0 < length d" "length d \<le> 2 ^ 31" "unat (rb_tail rb) < length d" "unat (rb_len rb) \<le> length d"
    "unat (rb_head rb) = (unat (rb_tail rb) + unat (rb_len rb)) mod length d"
    by (auto elim!: rb_invE)
  obtain n where n: "unat (rb_len rb) = Suc n"
    using ne inv by (metis length_rb_list length_0_conv not0_implies_Suc)
  have ne0: "rb_len rb \<noteq> 0" using n by (metis nat.distinct(1) unsigned_0)
  with n have len: "rb_len rb \<noteq> 0" "unat (rb_len rb - 1) = n"
    by (simp_all add: unat_minus_one)
  let ?h = "(rb_head rb - 1) AND (rb_size rb - 1)"
  have "unat (rb_head rb) = Suc (unat (rb_tail rb) + n) mod length d"
    using d n by simp
  then have h: "unat ?h = (unat (rb_tail rb) + n) mod length d"
    using d by (auto simp: unat_dec_mask mod_Suc unat_eq_0 split: if_splits)
  have list: "rb_list rb = get_wrapped (unat (rb_tail rb)) n d @ [d ! unat ?h]"
    using get_wrapped_append [of "unat (rb_tail rb)" n 1 d] d n
    by (simp add: rb_list_def h) (simp add: get_wrapped_def)
  let ?rb = "rb\<lparr>rb_head := ?h, rb_len := rb_len rb - 1\<rparr>"
  have "ring_buffer_pop rb = Some (?rb, uint (last (rb_list rb)))"
    using d len list by (simp add: ring_buffer_pop_def ring_buffer_empty_def Let_def)
  moreover have "rb_inv ?rb"
    using d len n h by (simp add: rb_inv_def word_less_nat_alt word_le_nat_alt)
  moreover have "rb_list ?rb = butlast (rb_list rb)"
    using d len list by (simp add: rb_list_def)
  ultimately show ?thesis by auto
qed

lemma ring_buffer_init_inv:
  "length page = 4096 \<Longrightarrow> ring_buffer_init (Some page) rb = (r, rb') \<Longrightarrow>
   r = Inr () \<and> rb_inv rb' \<and> rb_list rb' = [] \<and> rb_size rb' = 4096"
proof -
  have "pow2 4096" unfolding pow2_def by (rule exI [of _ 12]) simp
  then show "length page = 4096 \<Longrightarrow> ring_buffer_init (Some page) rb = (r, rb') \<Longrightarrow>
   r = Inr () \<and> rb_inv rb' \<and> rb_list rb' = [] \<and> rb_size rb' = 4096"
    by (auto simp: ring_buffer_init_def rb_inv_def rb_list_def)
qed

lemma ring_buffer_clear_inv: "rb_inv rb \<Longrightarrow> rb_inv (ring_buffer_clear rb) \<and> rb_list (ring_buffer_clear rb) = []"
  by (auto simp: ring_buffer_clear_def rb_inv_def rb_list_def word_less_nat_alt word_le_nat_alt dest: pow2_pos
      split: option.splits)

lemma ring_buffer_empty_iff: "rb_inv rb \<Longrightarrow> ring_buffer_empty rb \<longleftrightarrow> rb_list rb = []"
  by (metis length_0_conv length_rb_list ring_buffer_empty_def unat_eq_0)

lemma ring_buffer_full_iff: "rb_inv rb \<Longrightarrow> ring_buffer_full rb \<longleftrightarrow> length (rb_list rb) = unat (rb_size rb)"
  by (simp add: ring_buffer_full_def word_unat_eq_iff)

section \<open>Properties\<close>

text \<open>C1: Whatever sequence of writes and reads a well-formed ring goes through, it stays
  well formed, keeps its capacity, and its content together with the bytes accepted by
  the writes is exactly the bytes delivered by the reads followed by the final content:
  bytes leave in the order they entered, none lost, invented or duplicated.\<close>

theorem ring_buffer_fifo:
  assumes "rb_inv rb" and "\<forall>op \<in> set ops. queue_op_ok op"
    and "queue_run ring_buffer_write ring_buffer_read rb ops = (rb', ins, outs)"
  shows "rb_inv rb' \<and> unat (rb_size rb') = unat (rb_size rb) \<and> rb_list rb @ ins = outs @ rb_list rb'"
  using assms by (rule rb.run_fifo)

definition rb_example :: ring_buffer where
  "rb_example = \<lparr>rb_data = Some [10, 20, 30, 40], rb_size = 4, rb_head = 1, rb_tail = 3, rb_len = 2\<rparr>"

lemma rb_example_inv: "rb_inv rb_example"
proof -
  have "pow2 4" unfolding pow2_def by (rule exI [of _ 2]) simp
  then show ?thesis by (simp add: rb_example_def rb_inv_def)
qed

theorem ring_buffer_fifo_witness:
  "\<exists>rb'. queue_run ring_buffer_write ring_buffer_read rb_example [Put [1, 2, 3], Get 3] = (rb', [1, 2], [40, 10, 1]) \<and>
    rb_list rb_example @ [1, 2] = [40, 10, 1] @ rb_list rb'"
proof -
  let ?r = "queue_run ring_buffer_write ring_buffer_read rb_example [Put [1, 2, 3], Get 3]"
  have r: "snd ?r = ([1, 2], [40, 10, 1])"
    by code_simp
  then have "?r = (fst ?r, [1, 2], [40, 10, 1])" by (metis prod.collapse)
  from ring_buffer_fifo [OF rb_example_inv _ this] this show ?thesis by auto
qed

text \<open>Popping a non-empty ring returns the byte that was written last, as a
  non-negative integer, and removes exactly that byte.\<close>

theorem ring_buffer_pop_last:
  assumes "rb_inv rb" and "rb_list rb \<noteq> []"
  shows "\<exists>rb'. ring_buffer_pop rb = Some (rb', uint (last (rb_list rb))) \<and>
    rb_inv rb' \<and> rb_list rb' = butlast (rb_list rb)"
  using ring_buffer_pop_law [OF assms] by blast

theorem ring_buffer_pop_last_witness:
  "\<exists>rb'. ring_buffer_pop rb_example = Some (rb', 10) \<and> rb_list rb' = [40]"
proof -
  have "rb_list rb_example = [40, 10]" by code_simp
  with ring_buffer_pop_last [OF rb_example_inv] show ?thesis by auto
qed

end
