(* ===== verification/Page_Alloc.thy ===== *)
theory Page_Alloc
  imports Prelude
begin

text \<open>
  The buddy allocator of \<^verbatim>\<open>src/src/mm/page_alloc.c\<close> as the default build compiles it
  (\<^verbatim>\<open>CONFIG_PAGE_ALLOC_DEBUG\<close>). A page is its frame number (\<^verbatim>\<open>PAGE_TO_PFN\<close>), the
  circular list of a \<^verbatim>\<open>free_area\<close> is the list of the frame numbers on it, first
  entry first, its bitmap is a predicate on bit numbers. Frame numbers are natural
  numbers: physical memory ends below \<^verbatim>\<open>KERNEL_BASE\<close>, so none exceeds \<open>2 ^ 19\<close> and no
  sum of a frame number and a block size wraps. A failed assertion is \<^term>\<open>None\<close>.
  The bytes of the pages (poisoning, zeroing) are not part of this state.
\<close>

section \<open>Model\<close>

text \<open>\<open>PG_UNSET\<close> is the zero that the boot-time memory starts with.\<close>

datatype page_state = PG_UNSET | PG_FREE | PG_ALLOC

record buddy =
  free_list :: "nat \<Rightarrow> nat list"
  area_map :: "nat \<Rightarrow> nat \<Rightarrow> bool"
  map_size :: "nat \<Rightarrow> nat"
  max_pfn :: nat
  pg_count :: "nat \<Rightarrow> u32"
  pg_state :: "nat \<Rightarrow> page_state"
  pg_owner :: "nat \<Rightarrow> int"

definition MAX_ORDER :: nat where
  "MAX_ORDER = 11"

definition free_area_bitmap_bits :: "buddy \<Rightarrow> nat \<Rightarrow> nat" where
  "free_area_bitmap_bits s order = ((map_size s order + 31) div 32) * 32"

definition change_area_bit :: "buddy \<Rightarrow> nat \<Rightarrow> nat \<Rightarrow> buddy" where
  "change_area_bit s order nr =
     s\<lparr>area_map := (area_map s)(order := (area_map s order)(nr := \<not> area_map s order nr))\<rparr>"

text \<open>
  \<^verbatim>\<open>__free_list_del\<close> unlinks the page from the list it is on. Its assertions check
  that the neighbours point back at the page, which fails for a page on no list.
\<close>

definition free_list_del :: "buddy \<Rightarrow> nat \<Rightarrow> buddy option" where
  "free_list_del s pfn =
     (if list_ex (\<lambda>order. pfn \<in> set (free_list s order)) [0..<MAX_ORDER]
      then Some (s\<lparr>free_list := (\<lambda>order. remove1 pfn (free_list s order))\<rparr>)
      else None)"

definition free_list_add :: "buddy \<Rightarrow> nat \<Rightarrow> nat \<Rightarrow> buddy option" where
  "free_list_add s pfn order =
     (if order < MAX_ORDER \<and> pfn < max_pfn s \<and> pfn mod 2 ^ order = 0
      then Some (s\<lparr>free_list := (free_list s)(order := free_list s order @ [pfn])\<rparr>)
      else None)"

definition get_free_area_size :: "buddy \<Rightarrow> nat" where
  "get_free_area_size s = (\<Sum>order\<leftarrow>[0..<MAX_ORDER]. length (free_list s order) * 2 ^ order)"

text \<open>The search of \<^verbatim>\<open>alloc_pages\<close> for the first order from \<open>n\<close> up with a free block.\<close>

function find_area :: "buddy \<Rightarrow> nat \<Rightarrow> nat option" where
  "find_area s n =
     (if free_list s n = [] then
        (if MAX_ORDER - 1 \<le> n then None else find_area s (n + 1))
      else Some n)"
  by pat_completeness auto
termination
  by (relation "measure (\<lambda>(s, n). MAX_ORDER - n)") (auto simp: MAX_ORDER_def)

declare find_area.simps [simp del]

text \<open>The splitting loop of \<^verbatim>\<open>alloc_pages\<close>: the block at \<open>pfn\<close> has order \<open>n\<close>, the upper
  half goes back to the next lower list until the order asked for is reached. The
  loop starts with \<open>order \<le> n\<close>, so the branch that would decrement zero is not taken.\<close>

fun alloc_split :: "buddy \<Rightarrow> nat \<Rightarrow> nat \<Rightarrow> nat \<Rightarrow> buddy option" where
  "alloc_split s pfn n order =
     (if pfn div 2 ^ (n + 1) < free_area_bitmap_bits s n then
        let s = change_area_bit s n (pfn div 2 ^ (n + 1))
        in if n = order then Some s
           else (case n of 0 \<Rightarrow> None
                 | Suc m \<Rightarrow> (case free_list_add s (pfn + 2 ^ m) m of
                     None \<Rightarrow> None
                   | Some s \<Rightarrow> alloc_split s pfn m order))
      else None)"

declare alloc_split.simps [simp del]

definition alloc_pages :: "int \<Rightarrow> buddy \<Rightarrow> nat \<Rightarrow> (nat option \<times> buddy) option" where
  "alloc_pages pid s order =
     (if \<not> order < MAX_ORDER then None
      else case find_area s order of
        None \<Rightarrow> Some (None, s)
      | Some n \<Rightarrow>
          let pfn = hd (free_list s n)
          in if \<not> (pfn < max_pfn s \<and> pfn mod 2 ^ n = 0) then None
             else case free_list_del s pfn of
               None \<Rightarrow> None
             | Some s \<Rightarrow>
                 if pg_state s pfn \<noteq> PG_FREE then None
                 else
                   let s = s\<lparr>pg_state := (pg_state s)(pfn := PG_ALLOC),
                             pg_owner := (pg_owner s)(pfn := pid)\<rparr>
                   in map_option (\<lambda>s. (Some pfn, s)) (alloc_split s pfn n order))"

definition alloc_page :: "int \<Rightarrow> buddy \<Rightarrow> (nat option \<times> buddy) option" where
  "alloc_page pid s = alloc_pages pid s 0"

text \<open>\<^verbatim>\<open>expand\<close> takes the buddy of a block off its list and returns the lower of the two.\<close>

definition expand :: "buddy \<Rightarrow> nat \<Rightarrow> nat \<Rightarrow> (nat \<times> buddy) option" where
  "expand s page order =
     (if \<not> (order < MAX_ORDER - 1 \<and> page < max_pfn s \<and> page mod 2 ^ order = 0) then None
      else
        let res = page div 2 ^ (order + 1) * 2 ^ (order + 1)
        in if \<not> (page = res \<or> page = res + 2 ^ order) then None
           else map_option (\<lambda>s. (res, s))
             (free_list_del s (if page = res then page + 2 ^ order else page - 2 ^ order)))"

function free_merge :: "buddy \<Rightarrow> nat \<Rightarrow> nat \<Rightarrow> buddy option" where
  "free_merge s page order =
     (let nr = page div 2 ^ (order + 1)
      in if \<not> nr < free_area_bitmap_bits s order then None
         else
           let oldbit = area_map s order nr;
               s = change_area_bit s order nr
           in if \<not> oldbit then free_list_add s page order
              else if order = MAX_ORDER - 1 then free_list_add s page order
              else if \<not> order < MAX_ORDER - 1 then None
              else case expand s page order of
                     None \<Rightarrow> None
                   | Some (page, s) \<Rightarrow> free_merge s page (order + 1))"
  by pat_completeness auto
termination
  by (relation "measure (\<lambda>(s, page, order). MAX_ORDER - order)") auto

declare free_merge.simps [simp del]

definition free_pages :: "int \<Rightarrow> buddy \<Rightarrow> nat \<Rightarrow> nat \<Rightarrow> buddy option" where
  "free_pages pid s page order =
     (if \<not> (order < MAX_ORDER \<and> page < max_pfn s \<and> page mod 2 ^ order = 0) then None
      else if pg_state s page \<noteq> PG_ALLOC then None
      else free_merge (s\<lparr>pg_state := (pg_state s)(page := PG_FREE),
                         pg_owner := (pg_owner s)(page := pid)\<rparr>) page order)"

definition free_page :: "int \<Rightarrow> buddy \<Rightarrow> nat \<Rightarrow> buddy option" where
  "free_page pid s page = free_pages pid s page 0"

subsection \<open>Addresses and reference counts\<close>

definition PAGE_TO_VIR :: "nat \<Rightarrow> u32" where
  "PAGE_TO_VIR pfn = push_bit 12 (of_nat pfn) + 0x80000000"

definition VIR_TO_PAGE :: "u32 \<Rightarrow> nat" where
  "VIR_TO_PAGE vir = unat (drop_bit 12 (vir - 0x80000000))"

definition pages_alloc :: "int \<Rightarrow> buddy \<Rightarrow> nat \<Rightarrow> (u32 \<times> buddy) option" where
  "pages_alloc pid s order =
     map_option (\<lambda>(page, s). (case page of None \<Rightarrow> 0 | Some pfn \<Rightarrow> PAGE_TO_VIR pfn, s)) (alloc_pages pid s order)"

definition page_alloc :: "int \<Rightarrow> buddy \<Rightarrow> (u32 \<times> buddy) option" where
  "page_alloc pid s = pages_alloc pid s 0"

definition pages_free :: "int \<Rightarrow> buddy \<Rightarrow> u32 \<Rightarrow> nat \<Rightarrow> buddy option" where
  "pages_free pid s vir order = free_pages pid s (VIR_TO_PAGE vir) order"

definition PAGE_ALIGN :: "u32 \<Rightarrow> u32" where
  "PAGE_ALIGN x = (x + 4095) AND NOT 4095"

definition page_free :: "int \<Rightarrow> buddy \<Rightarrow> u32 \<Rightarrow> buddy option" where
  "page_free pid s vir =
     (if PAGE_ALIGN vir = vir then free_page pid s (VIR_TO_PAGE vir) else None)"

definition get_page :: "int \<Rightarrow> buddy \<Rightarrow> (nat option \<times> buddy) option" where
  "get_page pid s =
     (case alloc_page pid s of
        None \<Rightarrow> None
      | Some (None, s) \<Rightarrow> Some (None, s)
      | Some (Some page, s) \<Rightarrow> Some (Some page, s\<lparr>pg_count := (pg_count s)(page := 1)\<rparr>))"

definition put_page :: "int \<Rightarrow> buddy \<Rightarrow> nat \<Rightarrow> buddy option" where
  "put_page pid s page =
     (let s = s\<lparr>pg_count := (pg_count s)(page := pg_count s page - 1)\<rparr>
      in if pg_count s page = 0 then free_page pid s page else Some s)"

definition ref_page :: "buddy \<Rightarrow> nat \<Rightarrow> buddy" where
  "ref_page s page = s\<lparr>pg_count := (pg_count s)(page := pg_count s page + 1)\<rparr>"

section \<open>Invariant\<close>

text \<open>The pages of a block, the free blocks of the state, the free pages.\<close>

definition block :: "nat \<Rightarrow> nat \<Rightarrow> nat set" where
  "block order pfn = {pfn ..< pfn + 2 ^ order}"

definition free_blocks :: "buddy \<Rightarrow> (nat \<times> nat) set" where
  "free_blocks s = {(order, pfn). order < MAX_ORDER \<and> pfn \<in> set (free_list s order)}"

definition free_pfns :: "buddy \<Rightarrow> nat set" where
  "free_pfns s = (\<Union>(order, pfn) \<in> free_blocks s. block order pfn)"

definition block_ok :: "buddy \<Rightarrow> nat \<Rightarrow> nat \<Rightarrow> bool" where
  "block_ok s order pfn \<longleftrightarrow> order < MAX_ORDER \<and> 2 ^ order dvd pfn \<and> pfn + 2 ^ order \<le> max_pfn s"

text \<open>The bitmaps have a bit for every pair of buddies that lies in memory at least in part.\<close>

definition geometry_ok :: "buddy \<Rightarrow> bool" where
  "geometry_ok s \<longleftrightarrow>
     (\<forall>order < MAX_ORDER. 2 ^ order \<le> max_pfn s \<longrightarrow>
        (max_pfn s - 2 ^ order) div 2 ^ (order + 1) < free_area_bitmap_bits s order)"

text \<open>
  A bit of the bitmap of an order is set when exactly one of the two buddies is on
  the free list of that order. While an operation runs, the bits in \<open>X\<close> are wrong.
\<close>

definition bits_ok :: "buddy \<Rightarrow> (nat \<times> nat) set \<Rightarrow> bool" where
  "bits_ok s X \<longleftrightarrow>
     (\<forall>order < MAX_ORDER. \<forall>k.
        area_map s order k =
        ((((order, 2 * k * 2 ^ order) \<in> free_blocks s) \<noteq> ((order, (2 * k + 1) * 2 ^ order) \<in> free_blocks s))
          \<noteq> ((order, k) \<in> X)))"

definition binv :: "buddy \<Rightarrow> (nat \<times> nat) set \<Rightarrow> bool" where
  "binv s X \<longleftrightarrow>
     (\<forall>order < MAX_ORDER. distinct (free_list s order)) \<and>
     (\<forall>(order, pfn) \<in> free_blocks s. block_ok s order pfn) \<and>
     (\<forall>b \<in> free_blocks s. \<forall>b' \<in> free_blocks s. b \<noteq> b' \<longrightarrow> block (fst b) (snd b) \<inter> block (fst b') (snd b') = {}) \<and>
     (\<forall>pfn \<in> free_pfns s. pg_state s pfn = PG_FREE) \<and>
     geometry_ok s \<and> bits_ok s X"

definition buddy_inv :: "buddy \<Rightarrow> bool" where
  "buddy_inv s \<longleftrightarrow> binv s {}"

text \<open>No two buddies below the largest order are both free: free memory is merged.\<close>

definition merged :: "buddy \<Rightarrow> bool" where
  "merged s \<longleftrightarrow> (\<forall>order < MAX_ORDER - 1. \<forall>k.
     \<not> ((order, 2 * k * 2 ^ order) \<in> free_blocks s \<and> (order, (2 * k + 1) * 2 ^ order) \<in> free_blocks s))"

text \<open>A block that a client holds: its pages are not free, its first page is marked.\<close>

definition held :: "buddy \<Rightarrow> nat \<Rightarrow> nat \<Rightarrow> bool" where
  "held s order pfn \<longleftrightarrow> block_ok s order pfn \<and> block order pfn \<inter> free_pfns s = {} \<and>
     pg_state s pfn = PG_ALLOC \<and> (\<forall>q \<in> block order pfn - {pfn}. pg_state s q = PG_FREE)"

subsection \<open>Arithmetic of buddies\<close>

lemma dvd_block_cases:
  fixes p :: nat
  assumes "2 ^ n dvd p"
  shows "p = 2 * (p div 2 ^ (n + 1)) * 2 ^ n \<or> p = (2 * (p div 2 ^ (n + 1)) + 1) * 2 ^ n"
proof -
  obtain m where m: "p = 2 ^ n * m" using assms by (auto elim: dvdE)
  have "p div 2 ^ (n + 1) = m div 2"
    unfolding m power_add using div_mult2_eq [of "2 ^ n * m" "2 ^ n" 2] by simp
  moreover have "m = 2 * (m div 2) \<or> m = 2 * (m div 2) + 1" by presburger
  ultimately show ?thesis using m by (metis mult.commute)
qed

lemma buddy_index_eq:
  fixes p :: nat
  assumes "2 ^ n dvd p"
  shows "(p = 2 * k * 2 ^ n \<or> p = (2 * k + 1) * 2 ^ n) \<longleftrightarrow> k = p div 2 ^ (n + 1)"
proof
  assume "p = 2 * k * 2 ^ n \<or> p = (2 * k + 1) * 2 ^ n"
  then have "p = (2 * k) * 2 ^ n + 0 * 2 ^ n \<or> p = k * 2 ^ (n + 1) + 2 ^ n" by auto
  then show "k = p div 2 ^ (n + 1)" by auto
qed (use dvd_block_cases [OF assms] in blast)

lemma buddies_distinct: "2 * (k::nat) * 2 ^ n \<noteq> (2 * k + 1) * 2 ^ n"
  by simp

subsection \<open>What the primitive operations do to the invariant\<close>

lemma free_blocks_frame [simp]:
  "free_blocks (change_area_bit s order nr) = free_blocks s"
  "free_blocks (s\<lparr>pg_state := st\<rparr>) = free_blocks s"
  "free_blocks (s\<lparr>pg_owner := ow\<rparr>) = free_blocks s"
  "free_blocks (s\<lparr>pg_count := c\<rparr>) = free_blocks s"
  by (simp_all add: free_blocks_def change_area_bit_def)

lemma change_area_bit_frame [simp]:
  "free_list (change_area_bit s order nr) = free_list s"
  "max_pfn (change_area_bit s order nr) = max_pfn s"
  "map_size (change_area_bit s order nr) = map_size s"
  "pg_state (change_area_bit s order nr) = pg_state s"
  "pg_count (change_area_bit s order nr) = pg_count s"
  "pg_owner (change_area_bit s order nr) = pg_owner s"
  by (simp_all add: change_area_bit_def)

lemma binv_change_bit:
  assumes "binv s X" "order < MAX_ORDER"
  shows "binv (change_area_bit s order k) (if (order, k) \<in> X then X - {(order, k)} else insert (order, k) X)"
  using assms
  by (auto simp: binv_def free_pfns_def bits_ok_def block_ok_def geometry_ok_def free_area_bitmap_bits_def
      change_area_bit_def free_blocks_def)

text \<open>Adding or removing one free block flips the expected value of exactly the bit of
  its pair.\<close>

lemma bits_ok_flip:
  assumes bits: "bits_ok s X" and dvd: "2 ^ order dvd pfn"
    and map: "area_map s' = area_map s"
    and diff: "\<And>b. (b \<in> free_blocks s') \<noteq> (b \<in> free_blocks s) \<longleftrightarrow> b = (order, pfn)"
    and k: "k = pfn div 2 ^ (order + 1)"
  shows "bits_ok s' (if (order, k) \<in> X then X - {(order, k)} else insert (order, k) X)"
  unfolding bits_ok_def
proof (intro allI impI)
  fix order' k' :: nat assume o': "order' < MAX_ORDER"
  let ?a = "(order', 2 * k' * 2 ^ order')" and ?b = "(order', (2 * k' + 1) * 2 ^ order')"
  let ?X = "if (order, k) \<in> X then X - {(order, k)} else insert (order, k) X"
  have old: "area_map s order' k' = (((?a \<in> free_blocks s) \<noteq> (?b \<in> free_blocks s)) \<noteq> ((order', k') \<in> X))"
    using bits o' by (simp add: bits_ok_def)
  have sel: "(?a = (order, pfn) \<or> ?b = (order, pfn)) \<longleftrightarrow> (order', k') = (order, k)"
    using buddy_index_eq [OF dvd, of k'] k by auto
  have "?a \<noteq> ?b" by simp
  then have "((?a \<in> free_blocks s') \<noteq> (?b \<in> free_blocks s')) =
      (((?a \<in> free_blocks s) \<noteq> (?b \<in> free_blocks s)) \<noteq> ((order', k') = (order, k)))"
    using diff [of ?a] diff [of ?b] sel by metis
  moreover have "((order', k') \<in> ?X) = (((order', k') \<in> X) \<noteq> ((order', k') = (order, k)))"
    by auto
  ultimately show "area_map s' order' k' =
      (((?a \<in> free_blocks s') \<noteq> (?b \<in> free_blocks s')) \<noteq> ((order', k') \<in> ?X))"
    using old unfolding map by argo
qed

lemma free_blocks_add:
  "order < MAX_ORDER \<Longrightarrow> free_blocks (s\<lparr>free_list := (free_list s)(order := free_list s order @ [pfn])\<rparr>) =
   insert (order, pfn) (free_blocks s)"
  by (auto simp: free_blocks_def split: if_splits)

lemma block_nonempty [simp]: "pfn \<in> block order pfn"
  by (simp add: block_def)

lemma block_subset_free: "(order, pfn) \<in> free_blocks s \<Longrightarrow> block order pfn \<subseteq> free_pfns s"
  by (auto simp: free_pfns_def)

lemma block_ok_less: "block_ok s order pfn \<Longrightarrow> pfn < max_pfn s"
  unfolding block_ok_def using less_le_trans [of pfn "pfn + 2 ^ order"] by simp

lemma binv_add:
  assumes inv: "binv s X" and ok: "block_ok s order pfn"
    and free: "\<forall>q \<in> block order pfn. pg_state s q = PG_FREE"
    and disj: "block order pfn \<inter> free_pfns s = {}" and k: "k = pfn div 2 ^ (order + 1)"
  obtains s' where "free_list_add s pfn order = Some s'"
    "binv s' (if (order, k) \<in> X then X - {(order, k)} else insert (order, k) X)"
    "free_blocks s' = insert (order, pfn) (free_blocks s)"
    "free_pfns s' = free_pfns s \<union> block order pfn"
    "pg_state s' = pg_state s" "max_pfn s' = max_pfn s" "map_size s' = map_size s"
proof -
  define s' where "s' = s\<lparr>free_list := (free_list s)(order := free_list s order @ [pfn])\<rparr>"
  from ok have o: "order < MAX_ORDER" "2 ^ order dvd pfn" by (auto simp: block_ok_def)
  have "pfn < max_pfn s" using ok by (rule block_ok_less)
  then have res: "free_list_add s pfn order = Some s'"
    using o by (simp add: free_list_add_def s'_def dvd_eq_mod_eq_0)
  have blocks: "free_blocks s' = insert (order, pfn) (free_blocks s)"
    using o by (simp add: s'_def free_blocks_add)
  then have pfns: "free_pfns s' = free_pfns s \<union> block order pfn"
    by (auto simp: free_pfns_def)
  have new: "(order, pfn) \<notin> free_blocks s"
    using disj block_nonempty [of pfn order] block_subset_free [of order pfn s] by blast
  then have "pfn \<notin> set (free_list s order)" using o by (simp add: free_blocks_def)
  then have dist: "\<forall>order < MAX_ORDER. distinct (free_list s' order)"
    using inv by (auto simp: binv_def s'_def)
  have apart: "block order pfn \<inter> block (fst b) (snd b) = {}" if "b \<in> free_blocks s" for b
    using disj that by (cases b) (auto simp: free_pfns_def)
  have "bits_ok s' (if (order, k) \<in> X then X - {(order, k)} else insert (order, k) X)"
    using new blocks o k by (intro bits_ok_flip [of s]) (use inv in \<open>auto simp: binv_def s'_def\<close>)
  moreover have "geometry_ok s'" "\<forall>(order, pfn) \<in> free_blocks s'. block_ok s' order pfn"
    using inv ok by (auto simp: binv_def blocks) (auto simp: s'_def geometry_ok_def free_area_bitmap_bits_def block_ok_def)
  moreover have "\<forall>q \<in> free_pfns s'. pg_state s' q = PG_FREE"
    using inv free by (auto simp: binv_def pfns) (auto simp: s'_def)
  moreover have "\<forall>b \<in> free_blocks s'. \<forall>b' \<in> free_blocks s'. b \<noteq> b' \<longrightarrow>
      block (fst b) (snd b) \<inter> block (fst b') (snd b') = {}"
    using inv apart by (auto simp: binv_def blocks Int_commute)
  ultimately have "binv s' (if (order, k) \<in> X then X - {(order, k)} else insert (order, k) X)"
    using dist unfolding binv_def by blast
  with res blocks pfns show thesis
    by (intro that [of s']) (simp_all add: s'_def)
qed

lemma binv_del:
  assumes inv: "binv s X" and mem: "(order, pfn) \<in> free_blocks s" and k: "k = pfn div 2 ^ (order + 1)"
  obtains s' where "free_list_del s pfn = Some s'"
    "binv s' (if (order, k) \<in> X then X - {(order, k)} else insert (order, k) X)"
    "free_blocks s' = free_blocks s - {(order, pfn)}"
    "free_pfns s' = free_pfns s - block order pfn"
    "pg_state s' = pg_state s" "max_pfn s' = max_pfn s" "map_size s' = map_size s"
proof -
  define s' where "s' = s\<lparr>free_list := (\<lambda>order. remove1 pfn (free_list s order))\<rparr>"
  from mem have o: "order < MAX_ORDER" "pfn \<in> set (free_list s order)" by (auto simp: free_blocks_def)
  have dvd: "2 ^ order dvd pfn" using inv mem by (auto simp: binv_def block_ok_def)
  have apart: "block (fst b) (snd b) \<inter> block order pfn = {}" if "b \<in> free_blocks s" "b \<noteq> (order, pfn)" for b
    using inv mem that unfolding binv_def by (metis fst_conv snd_conv)
  have res: "free_list_del s pfn = Some s'"
    using o by (auto simp: free_list_del_def s'_def list_ex_iff)
  have only: "order' = order" if "(order', pfn) \<in> free_blocks s" for order'
    using apart [OF that] by (metis block_nonempty disjoint_iff fst_conv snd_conv)
  have dist: "distinct (free_list s order')" if "order' < MAX_ORDER" for order'
    using inv that by (simp add: binv_def)
  have blocks: "free_blocks s' = free_blocks s - {(order, pfn)}"
    using only dist by (auto simp: free_blocks_def s'_def)
  have pfns: "free_pfns s' = free_pfns s - block order pfn"
    using apart by (auto simp: free_pfns_def blocks) (metis IntI empty_iff fst_conv snd_conv)+
  have "bits_ok s' (if (order, k) \<in> X then X - {(order, k)} else insert (order, k) X)"
    using mem blocks dvd k by (intro bits_ok_flip [of s]) (use inv in \<open>auto simp: binv_def s'_def\<close>)
  moreover have "geometry_ok s'" "\<forall>(order, pfn) \<in> free_blocks s'. block_ok s' order pfn"
    using inv by (auto simp: binv_def blocks) (auto simp: s'_def geometry_ok_def free_area_bitmap_bits_def block_ok_def)
  moreover have "\<forall>q \<in> free_pfns s'. pg_state s' q = PG_FREE"
    using inv by (auto simp: binv_def pfns) (auto simp: s'_def)
  moreover have "\<forall>b \<in> free_blocks s'. \<forall>b' \<in> free_blocks s'. b \<noteq> b' \<longrightarrow>
      block (fst b) (snd b) \<inter> block (fst b') (snd b') = {}"
    using inv by (auto simp: binv_def blocks)
  moreover have "\<forall>order < MAX_ORDER. distinct (free_list s' order)"
    using dist by (simp add: s'_def distinct_remove1)
  ultimately have "binv s' (if (order, k) \<in> X then X - {(order, k)} else insert (order, k) X)"
    unfolding binv_def by blast
  with res blocks pfns show thesis
    by (intro that [of s']) (simp_all add: s'_def)
qed

subsection \<open>Splitting and merging\<close>

lemma block_halves:
  "block (Suc n) pfn = block n pfn \<union> block n (pfn + 2 ^ n)" "block n pfn \<inter> block n (pfn + 2 ^ n) = {}"
  by (auto simp: block_def)

lemma index_in_map:
  assumes "binv s X" "block_ok s order pfn"
  shows "pfn div 2 ^ (order + 1) < free_area_bitmap_bits s order"
proof -
  have "pfn \<le> max_pfn s - 2 ^ order" "2 ^ order \<le> max_pfn s" "order < MAX_ORDER"
    using assms(2) by (auto simp: block_ok_def)
  then have "(max_pfn s - 2 ^ order) div 2 ^ (order + 1) < free_area_bitmap_bits s order"
    using assms(1) unfolding binv_def geometry_ok_def by blast
  moreover have "pfn div 2 ^ (order + 1) \<le> (max_pfn s - 2 ^ order) div 2 ^ (order + 1)"
    using \<open>pfn \<le> _\<close> by (rule div_le_mono)
  ultimately show ?thesis by simp
qed

text \<open>The buddy of a block and the block they make together.\<close>

definition buddy_of :: "nat \<Rightarrow> nat \<Rightarrow> nat" where
  "buddy_of order p = (if p = p div 2 ^ (order + 1) * 2 ^ (order + 1) then p + 2 ^ order else p - 2 ^ order)"

lemma buddy_cases:
  assumes "2 ^ order dvd p" "r = p div 2 ^ (order + 1) * 2 ^ (order + 1)"
  shows "p = r \<and> buddy_of order p = r + 2 ^ order \<or> p = r + 2 ^ order \<and> buddy_of order p = r"
  using dvd_block_cases [OF assms(1)] assms(2) by (auto simp: buddy_of_def algebra_simps)

lemma merged_insert:
  assumes "merged s" "free_blocks s' = insert (order, p) (free_blocks s)" "2 ^ order dvd p"
    "order < MAX_ORDER - 1 \<Longrightarrow> (order, buddy_of order p) \<notin> free_blocks s"
  shows "merged s'"
  unfolding merged_def
proof (intro allI impI notI)
  fix n k assume n: "n < MAX_ORDER - 1"
    and both: "(n, 2 * k * 2 ^ n) \<in> free_blocks s' \<and> (n, (2 * k + 1) * 2 ^ n) \<in> free_blocks s'"
  have old: "\<not> ((n, 2 * k * 2 ^ n) \<in> free_blocks s \<and> (n, (2 * k + 1) * 2 ^ n) \<in> free_blocks s)"
    using assms(1) n by (simp add: merged_def)
  then have sel: "n = order" "p = 2 * k * 2 ^ n \<or> p = (2 * k + 1) * 2 ^ n"
    using both assms(2) by auto
  then have "k = p div 2 ^ (order + 1)" using buddy_index_eq [OF assms(3)] by simp
  then have "2 * k * 2 ^ order = p div 2 ^ (order + 1) * 2 ^ (order + 1)"
    "(2 * k + 1) * 2 ^ order = p div 2 ^ (order + 1) * 2 ^ (order + 1) + 2 ^ order"
    by (simp_all add: algebra_simps)
  with both sel have "(order, buddy_of order p) \<in> free_blocks s'" "buddy_of order p \<noteq> p"
    using buddy_cases [OF assms(3) refl] by (auto simp: add.commute)
  then show False
    using n sel assms(2,4) by simp
qed

lemma merged_subset: "merged s \<Longrightarrow> free_blocks s' \<subseteq> free_blocks s \<Longrightarrow> merged s'"
  by (auto simp: merged_def)

lemma alloc_split_law:
  assumes "binv s {(n, pfn div 2 ^ (n + 1))}" "block_ok s n pfn" "block n pfn \<inter> free_pfns s = {}"
    "\<forall>q \<in> block n pfn - {pfn}. pg_state s q = PG_FREE" "order \<le> n" "merged s"
  shows "\<exists>s'. alloc_split s pfn n order = Some s' \<and> buddy_inv s' \<and> merged s' \<and> pg_state s' = pg_state s \<and>
    max_pfn s' = max_pfn s \<and> map_size s' = map_size s \<and>
    free_pfns s' = free_pfns s \<union> (block n pfn - block order pfn)"
  using assms
proof (induction n arbitrary: s)
  case 0
  let ?k = "pfn div 2 ^ (0 + 1)"
  have "pfn div 2 ^ (0 + 1) < free_area_bitmap_bits s 0"
    using 0 by (intro index_in_map)
  moreover have "binv (change_area_bit s 0 ?k) {}"
    using binv_change_bit [OF 0(1), of 0 ?k] by (simp add: MAX_ORDER_def)
  ultimately show ?case
    using 0 by (subst alloc_split.simps) (simp add: buddy_inv_def free_pfns_def merged_def)
next
  case (Suc n)
  let ?k = "pfn div 2 ^ (Suc n + 1)" and ?s1 = "change_area_bit s (Suc n) (pfn div 2 ^ (Suc n + 1))"
  have map: "?k < free_area_bitmap_bits s (Suc n)"
    using Suc.prems by (intro index_in_map)
  have n: "Suc n < MAX_ORDER" using Suc.prems by (simp add: block_ok_def)
  have inv1: "binv ?s1 {}"
    using binv_change_bit [OF Suc.prems(1), of "Suc n" ?k] n by simp
  have pf1: "free_pfns ?s1 = free_pfns s" by (simp add: free_pfns_def)
  show ?case
  proof (cases "Suc n = order")
    case True
    then show ?thesis
      using map inv1 pf1 Suc.prems(6) by (subst alloc_split.simps) (auto simp: buddy_inv_def merged_def)
  next
    case False
    have ok: "block_ok ?s1 n (pfn + 2 ^ n)" "block_ok s n pfn"
      using Suc.prems(2) by (auto simp: block_ok_def elim: dvd_mult_left)
    have free: "\<forall>q \<in> block n (pfn + 2 ^ n). pg_state ?s1 q = PG_FREE"
      using Suc.prems(4) by (auto simp: block_def)
    have disj: "block n (pfn + 2 ^ n) \<inter> free_pfns ?s1 = {}"
      using Suc.prems(3) pf1 by (auto simp: block_halves)
    have dvd: "2 ^ Suc n dvd pfn" using Suc.prems(2) by (simp add: block_ok_def)
    then have k: "pfn div 2 ^ (n + 1) = (pfn + 2 ^ n) div 2 ^ (n + 1)"
      by (auto elim!: dvdE simp: div_mult_self1_is_m)
    obtain s2 where s2: "free_list_add ?s1 (pfn + 2 ^ n) n = Some s2"
      "binv s2 {(n, pfn div 2 ^ (n + 1))}" "free_pfns s2 = free_pfns s \<union> block n (pfn + 2 ^ n)"
      "free_blocks s2 = insert (n, pfn + 2 ^ n) (free_blocks s)"
      "pg_state s2 = pg_state s" "max_pfn s2 = max_pfn s" "map_size s2 = map_size s"
      by (rule binv_add [OF inv1 ok(1) free disj k]) (use pf1 in \<open>simp add: that\<close>)
    have "buddy_of n (pfn + 2 ^ n) = pfn"
      using dvd by (auto simp: buddy_of_def elim!: dvdE)
    moreover have "block n pfn \<inter> free_pfns s = {}" using Suc.prems(3) by (auto simp: block_halves)
    then have "(n, pfn) \<notin> free_blocks s"
      using block_subset_free [of n pfn s] block_nonempty [of pfn n] by blast
    ultimately have mrg: "merged s2"
      using Suc.prems(6) s2(4) ok(1) by (intro merged_insert [of s s2 n "pfn + 2 ^ n"]) (auto simp: block_ok_def)
    have "\<exists>s'. alloc_split s2 pfn n order = Some s' \<and> buddy_inv s' \<and> merged s' \<and> pg_state s' = pg_state s2 \<and>
        max_pfn s' = max_pfn s2 \<and> map_size s' = map_size s2 \<and>
        free_pfns s' = free_pfns s2 \<union> (block n pfn - block order pfn)"
    proof (rule Suc.IH [OF s2(2) _ _ _ _ mrg])
      show "block_ok s2 n pfn" using ok(2) s2(6) by (simp add: block_ok_def)
      show "block n pfn \<inter> free_pfns s2 = {}"
        using Suc.prems(3) s2(3) block_halves [of n pfn] by auto
      show "\<forall>q \<in> block n pfn - {pfn}. pg_state s2 q = PG_FREE"
        using Suc.prems(4) s2(5) by (auto simp: block_halves)
      show "order \<le> n" using Suc.prems(5) False by simp
    qed
    moreover have "block order pfn \<subseteq> block n pfn"
      using Suc.prems(5) False by (auto simp: block_def intro: less_le_trans power_increasing)
    then have "free_pfns s2 \<union> (block n pfn - block order pfn) = free_pfns s \<union> (block (Suc n) pfn - block order pfn)"
      using s2(3) block_halves [of n pfn] by auto
    ultimately show ?thesis
      using map False s2 by (subst alloc_split.simps) auto
  qed
qed

lemma block_with_buddy:
  assumes "2 ^ order dvd p"
  shows "block (Suc order) (p div 2 ^ (order + 1) * 2 ^ (order + 1)) = block order p \<union> block order (buddy_of order p)"
  using buddy_cases [OF assms refl] by (auto simp: block_halves)

lemma buddy_bit:
  assumes inv: "binv s {}" and ok: "block_ok s order p" and nf: "(order, p) \<notin> free_blocks s"
  shows "area_map s order (p div 2 ^ (order + 1)) \<longleftrightarrow> (order, buddy_of order p) \<in> free_blocks s"
proof -
  let ?k = "p div 2 ^ (order + 1)"
  have o: "order < MAX_ORDER" "2 ^ order dvd p" using ok by (auto simp: block_ok_def)
  have "area_map s order ?k \<longleftrightarrow>
      ((order, 2 * ?k * 2 ^ order) \<in> free_blocks s) \<noteq> ((order, (2 * ?k + 1) * 2 ^ order) \<in> free_blocks s)"
    using inv o by (simp add: binv_def bits_ok_def)
  moreover have "2 * ?k * 2 ^ order = ?k * 2 ^ (order + 1)" "(2 * ?k + 1) * 2 ^ order = ?k * 2 ^ (order + 1) + 2 ^ order"
    by (simp_all add: algebra_simps)
  ultimately show ?thesis
    using buddy_cases [OF o(2) refl] nf by metis
qed

lemma expand_law:
  assumes inv: "binv s X" and ok: "block_ok s order p" and o: "order < MAX_ORDER - 1"
    and mem: "(order, buddy_of order p) \<in> free_blocks s" and k: "k = p div 2 ^ (order + 1)"
  obtains s' where "expand s p order = Some (k * 2 ^ (order + 1), s')"
    "binv s' (if (order, k) \<in> X then X - {(order, k)} else insert (order, k) X)"
    "free_blocks s' = free_blocks s - {(order, buddy_of order p)}"
    "free_pfns s' = free_pfns s - block order (buddy_of order p)"
    "pg_state s' = pg_state s" "max_pfn s' = max_pfn s" "map_size s' = map_size s"
proof -
  have dvd: "2 ^ order dvd p" using ok by (simp add: block_ok_def)
  have "k = buddy_of order p div 2 ^ (order + 1)"
  proof -
    have "(k * 2 ^ (order + 1) + 2 ^ order) div 2 ^ (order + 1) = k" "k * 2 ^ (order + 1) div 2 ^ (order + 1) = k"
      by simp_all
    then show ?thesis using buddy_cases [OF dvd refl] by (metis k)
  qed
  from inv mem this obtain s' where s': "free_list_del s (buddy_of order p) = Some s'"
    "binv s' (if (order, k) \<in> X then X - {(order, k)} else insert (order, k) X)"
    "free_blocks s' = free_blocks s - {(order, buddy_of order p)}"
    "free_pfns s' = free_pfns s - block order (buddy_of order p)"
    "pg_state s' = pg_state s" "max_pfn s' = max_pfn s" "map_size s' = map_size s"
    by (rule binv_del)
  have "expand s p order = Some (k * 2 ^ (order + 1), s')"
    using s'(1) o block_ok_less [OF ok] dvd buddy_cases [OF dvd refl]
    by (auto simp: expand_def Let_def k buddy_of_def dvd_eq_mod_eq_0)
  with s' show thesis by (intro that)
qed

lemma free_merge_law:
  assumes "binv s {}" "merged s" "block_ok s order p" "block order p \<inter> free_pfns s = {}"
    "\<forall>q \<in> block order p. pg_state s q = PG_FREE"
  shows "\<exists>s'. free_merge s p order = Some s' \<and> buddy_inv s' \<and> merged s' \<and> pg_state s' = pg_state s \<and>
    max_pfn s' = max_pfn s \<and> map_size s' = map_size s \<and> free_pfns s' = free_pfns s \<union> block order p"
  using assms
proof (induction "MAX_ORDER - order" arbitrary: s order p)
  case 0
  then show ?case by (simp add: block_ok_def)
next
  case (Suc m)
  let ?k = "p div 2 ^ (order + 1)"
  let ?s1 = "change_area_bit s order ?k"
  note inv = Suc.prems(1) and mrg = Suc.prems(2) and ok = Suc.prems(3) and disj = Suc.prems(4)
  have o: "order < MAX_ORDER" "2 ^ order dvd p" using ok by (auto simp: block_ok_def)
  have map: "?k < free_area_bitmap_bits s order" using inv ok by (rule index_in_map)
  have nf: "(order, p) \<notin> free_blocks s"
    using disj block_subset_free [of order p s] block_nonempty [of p order] by blast
  have inv1: "binv ?s1 {(order, ?k)}" using binv_change_bit [OF inv o(1), of ?k] by simp
  have ok1: "block_ok ?s1 order p" using ok by (simp add: block_ok_def)
  have pf1: "free_pfns ?s1 = free_pfns s" by (simp add: free_pfns_def)
  have bit: "area_map s order ?k \<longleftrightarrow> (order, buddy_of order p) \<in> free_blocks s"
    using inv ok nf by (rule buddy_bit)
  show ?case
  proof (cases "area_map s order ?k \<and> order \<noteq> MAX_ORDER - 1")
    case False
    have f1: "\<forall>q \<in> block order p. pg_state ?s1 q = PG_FREE" using Suc.prems(5) by simp
    have d1: "block order p \<inter> free_pfns ?s1 = {}" using disj pf1 by simp
    obtain s' where s': "free_list_add ?s1 p order = Some s'" "binv s' {}"
      "free_blocks s' = insert (order, p) (free_blocks s)" "free_pfns s' = free_pfns s \<union> block order p"
      "pg_state s' = pg_state s" "max_pfn s' = max_pfn s" "map_size s' = map_size s"
      by (rule binv_add [OF inv1 ok1 f1 d1 refl]) (use pf1 in \<open>simp add: that\<close>)
    have "free_merge s p order = Some s'"
      using map False s'(1) by (subst free_merge.simps) (auto simp: Let_def)
    moreover have "merged s'"
      using mrg s'(3) o(2) False bit by (intro merged_insert [of s s' order p]) auto
    ultimately show ?thesis using s' by (simp add: buddy_inv_def)
  next
    case True
    then have o': "order < MAX_ORDER - 1" using o(1) by (simp add: MAX_ORDER_def)
    have mem: "(order, buddy_of order p) \<in> free_blocks ?s1" using bit True by simp
    obtain s2 where s2: "expand ?s1 p order = Some (?k * 2 ^ (order + 1), s2)" "binv s2 {}"
      "free_blocks s2 = free_blocks s - {(order, buddy_of order p)}"
      "free_pfns s2 = free_pfns s - block order (buddy_of order p)"
      "pg_state s2 = pg_state s" "max_pfn s2 = max_pfn s" "map_size s2 = map_size s"
      by (rule expand_law [OF inv1 ok1 o' mem refl]) (use pf1 in \<open>simp add: that\<close>)
    let ?r = "?k * 2 ^ (order + 1)"
    have blk: "block (order + 1) ?r = block order p \<union> block order (buddy_of order p)"
      using block_with_buddy [OF o(2)] by simp
    have sub: "block order (buddy_of order p) \<subseteq> free_pfns s"
      using block_subset_free bit True by blast
    have okb: "block_ok s order (buddy_of order p)" using inv bit True by (auto simp: binv_def)
    have "block_ok s2 (order + 1) ?r"
      using ok okb o' s2(6) buddy_cases [OF o(2) refl] by (auto simp: block_ok_def)
    moreover have "block (order + 1) ?r \<inter> free_pfns s2 = {}"
      using disj s2(4) blk by auto
    moreover have "\<forall>q \<in> block (order + 1) ?r. pg_state s2 q = PG_FREE"
      using Suc.prems(5) inv sub s2(5) blk by (auto simp: binv_def)
    moreover have "merged s2" using mrg s2(3) by (auto intro: merged_subset)
    moreover have "m = MAX_ORDER - (order + 1)" using Suc.hyps(2) by linarith
    ultimately obtain s' where "free_merge s2 ?r (order + 1) = Some s'" "buddy_inv s'" "merged s'"
      "pg_state s' = pg_state s2" "max_pfn s' = max_pfn s2" "map_size s' = map_size s2"
      "free_pfns s' = free_pfns s2 \<union> block (order + 1) ?r"
      using Suc.hyps(1) [of "order + 1" s2 ?r] s2(2) by auto
    moreover have "free_merge s p order = free_merge s2 ?r (order + 1)"
      using map True o' s2(1) by (subst free_merge.simps) (simp add: Let_def)
    moreover have "free_pfns s2 \<union> block (order + 1) ?r = free_pfns s \<union> block order p"
      using s2(4) blk sub by auto
    ultimately show ?thesis using s2 by auto
  qed
qed

subsection \<open>The operations\<close>

lemma find_area_SomeD:
  "find_area s n = Some m \<Longrightarrow> n < MAX_ORDER \<Longrightarrow> n \<le> m \<and> m < MAX_ORDER \<and> free_list s m \<noteq> []"
proof (induction s n rule: find_area.induct)
  case (1 s n)
  then show ?case
    by (subst (asm) (2) find_area.simps) (fastforce split: if_splits simp: MAX_ORDER_def)
qed

lemma find_area_NoneD:
  "find_area s n = None \<Longrightarrow> n \<le> m \<Longrightarrow> m < MAX_ORDER \<Longrightarrow> free_list s m = []"
proof (induction s n rule: find_area.induct)
  case (1 s n)
  then show ?case
    by (subst (asm) (2) find_area.simps) (cases "m = n"; fastforce split: if_splits)
qed

text \<open>Allocation: no assertion fails; the block returned was free and is not free
  any more, and nothing else changes.\<close>

lemma alloc_pages_law:
  assumes inv: "buddy_inv s" and mrg: "merged s" and o: "order < MAX_ORDER"
  obtains (fail) "alloc_pages pid s order = Some (None, s)"
      "\<forall>n p. (n, p) \<in> free_blocks s \<longrightarrow> n < order"
  | (succ) pfn s' where "alloc_pages pid s order = Some (Some pfn, s')" "buddy_inv s'" "merged s'"
      "held s' order pfn" "block order pfn \<subseteq> free_pfns s"
      "free_pfns s' = free_pfns s - block order pfn"
      "pg_state s' = (pg_state s)(pfn := PG_ALLOC)" "max_pfn s' = max_pfn s" "map_size s' = map_size s"
proof (cases "find_area s order")
  case None
  then have "\<forall>n p. (n, p) \<in> free_blocks s \<longrightarrow> n < order"
    using find_area_NoneD [OF None] unfolding free_blocks_def
    by clarsimp (metis empty_iff list.set(1) not_less)
  then show thesis using None o by (intro fail) (simp_all add: alloc_pages_def)
next
  case (Some n)
  let ?pfn = "hd (free_list s n)" and ?k = "hd (free_list s n) div 2 ^ (n + 1)"
  have n: "order \<le> n" "n < MAX_ORDER" "free_list s n \<noteq> []"
    using find_area_SomeD [OF Some o] by auto
  then have mem: "(n, ?pfn) \<in> free_blocks s" by (simp add: free_blocks_def)
  have ok: "block_ok s n ?pfn" using inv mem by (auto simp: buddy_inv_def binv_def)
  obtain s1 where s1: "free_list_del s ?pfn = Some s1" "binv s1 {(n, ?k)}"
    "free_blocks s1 = free_blocks s - {(n, ?pfn)}" "free_pfns s1 = free_pfns s - block n ?pfn"
    "pg_state s1 = pg_state s" "max_pfn s1 = max_pfn s" "map_size s1 = map_size s"
    by (rule binv_del [OF inv [unfolded buddy_inv_def] mem refl]) (simp add: that)
  have free: "\<forall>q \<in> block n ?pfn. pg_state s q = PG_FREE"
    using inv block_subset_free [OF mem] by (auto simp: buddy_inv_def binv_def)
  define s2 where "s2 = s1\<lparr>pg_state := (pg_state s1)(?pfn := PG_ALLOC), pg_owner := (pg_owner s1)(?pfn := pid)\<rparr>"
  have fr2: "free_blocks s2 = free_blocks s1" "free_pfns s2 = free_pfns s1" "max_pfn s2 = max_pfn s1"
    "map_size s2 = map_size s1" "pg_state s2 = (pg_state s)(?pfn := PG_ALLOC)" "free_list s2 = free_list s1"
    "area_map s2 = area_map s1"
    by (simp_all add: s2_def free_pfns_def s1(5))
  have "?pfn \<notin> free_pfns s1" using s1(4) by simp
  then have "binv s2 {(n, ?k)}"
    using s1(2,5) by (auto simp: binv_def fr2 block_ok_def geometry_ok_def free_area_bitmap_bits_def bits_ok_def)
  moreover have "block_ok s2 n ?pfn" using ok s1(6) by (simp add: block_ok_def fr2)
  moreover have "block n ?pfn \<inter> free_pfns s2 = {}" using s1(4) by (auto simp: fr2)
  moreover have "merged s2" using mrg s1(3) fr2(1) by (auto intro: merged_subset)
  ultimately obtain s' where s': "alloc_split s2 ?pfn n order = Some s'" "buddy_inv s'" "merged s'"
    "pg_state s' = pg_state s2" "max_pfn s' = max_pfn s" "map_size s' = map_size s"
    "free_pfns s' = free_pfns s1 \<union> (block n ?pfn - block order ?pfn)"
    using alloc_split_law [of s2 n ?pfn order] n(1) free fr2 s1(6,7) by auto
  have sub: "block order ?pfn \<subseteq> block n ?pfn"
    using n(1) by (auto simp: block_def intro: less_le_trans power_increasing)
  have pf: "free_pfns s' = free_pfns s - block order ?pfn"
    using s'(7) s1(4) sub block_subset_free [OF mem] by auto
  have "block_ok s' order ?pfn"
  proof -
    have "(2::nat) ^ order dvd 2 ^ n" "?pfn + 2 ^ order \<le> ?pfn + 2 ^ n"
      using n(1) by (auto intro: le_imp_power_dvd)
    then show ?thesis
      using ok o s'(5) unfolding block_ok_def by (metis dvd_trans order_trans)
  qed
  then have "held s' order ?pfn"
    using s'(4) fr2(5) free sub pf by (auto simp: held_def)
  moreover have "alloc_pages pid s order = Some (Some ?pfn, s')"
    using Some o s1 s'(1) block_ok_less [OF ok] ok free
    by (simp add: alloc_pages_def Let_def block_ok_def s2_def dvd_eq_mod_eq_0)
  ultimately show thesis
    using s' pf fr2 sub block_subset_free [OF mem] by (intro succ [of ?pfn s']) auto
qed

lemma free_pages_law:
  assumes inv: "buddy_inv s" and mrg: "merged s" and held: "held s order pfn"
  obtains s' where "free_pages pid s pfn order = Some s'" "buddy_inv s'" "merged s'"
    "free_pfns s' = free_pfns s \<union> block order pfn" "pg_state s' = (pg_state s)(pfn := PG_FREE)"
    "max_pfn s' = max_pfn s" "map_size s' = map_size s"
proof -
  define s1 where "s1 = s\<lparr>pg_state := (pg_state s)(pfn := PG_FREE), pg_owner := (pg_owner s)(pfn := pid)\<rparr>"
  have fr: "free_blocks s1 = free_blocks s" "free_pfns s1 = free_pfns s" "max_pfn s1 = max_pfn s"
    "map_size s1 = map_size s" "pg_state s1 = (pg_state s)(pfn := PG_FREE)" "free_list s1 = free_list s"
    "area_map s1 = area_map s"
    by (simp_all add: s1_def free_pfns_def)
  have "binv s1 {}"
    using inv by (auto simp: buddy_inv_def binv_def fr block_ok_def geometry_ok_def free_area_bitmap_bits_def bits_ok_def)
  moreover have "merged s1" using mrg by (simp add: merged_def fr)
  moreover have "block_ok s1 order pfn" "block order pfn \<inter> free_pfns s1 = {}"
    "\<forall>q \<in> block order pfn. pg_state s1 q = PG_FREE"
    using held by (auto simp: held_def fr block_ok_def)
  ultimately obtain s' where s': "free_merge s1 pfn order = Some s'" "buddy_inv s'" "merged s'" "pg_state s' = pg_state s1"
    "max_pfn s' = max_pfn s" "map_size s' = map_size s" "free_pfns s' = free_pfns s \<union> block order pfn"
    using free_merge_law [of s1 order pfn] fr by auto
  have "block_ok s order pfn" "pg_state s pfn = PG_ALLOC" using held by (auto simp: held_def)
  then have "free_pages pid s pfn order = Some s'"
    using s'(1) block_ok_less [of s order pfn]
    by (simp add: free_pages_def block_ok_def s1_def dvd_eq_mod_eq_0)
  with s' fr show thesis by (intro that [of s']) auto
qed

section \<open>The interface of a page allocator\<close>

text \<open>
  Clients hold blocks and return them. \<open>holds s order pfn\<close> says that a client may
  return the block; the laws say that a block handed out was free, that handing out or
  returning one block does not disturb the others, and that no call stops the machine.
\<close>

locale page_allocator =
  fixes inv :: "'s \<Rightarrow> bool"
    and free_set :: "'s \<Rightarrow> nat set"
    and holds :: "'s \<Rightarrow> nat \<Rightarrow> nat \<Rightarrow> bool"
    and alloc :: "'s \<Rightarrow> nat \<Rightarrow> (nat option \<times> 's) option"
    and release :: "'s \<Rightarrow> nat \<Rightarrow> nat \<Rightarrow> 's option"
    and orders :: nat
  assumes alloc_total: "inv s \<Longrightarrow> order < orders \<Longrightarrow> \<exists>r s'. alloc s order = Some (r, s') \<and> inv s'"
    and alloc_none: "inv s \<Longrightarrow> order < orders \<Longrightarrow> alloc s order = Some (None, s') \<Longrightarrow> s' = s"
    and alloc_holds: "inv s \<Longrightarrow> order < orders \<Longrightarrow> alloc s order = Some (Some p, s') \<Longrightarrow> holds s' order p"
    and alloc_was_free: "inv s \<Longrightarrow> order < orders \<Longrightarrow> alloc s order = Some (Some p, s') \<Longrightarrow> block order p \<subseteq> free_set s"
    and alloc_free_set: "inv s \<Longrightarrow> order < orders \<Longrightarrow> alloc s order = Some (Some p, s') \<Longrightarrow>
      free_set s' = free_set s - block order p"
    and alloc_frame: "inv s \<Longrightarrow> order < orders \<Longrightarrow> alloc s order = Some (Some p, s') \<Longrightarrow>
      holds s order' p' \<Longrightarrow> holds s' order' p'"
    and holds_not_free: "holds s order p \<Longrightarrow> block order p \<inter> free_set s = {}"
    and release_total: "inv s \<Longrightarrow> holds s order p \<Longrightarrow> \<exists>s'. release s p order = Some s' \<and> inv s'"
    and release_free_set: "inv s \<Longrightarrow> holds s order p \<Longrightarrow> release s p order = Some s' \<Longrightarrow>
      free_set s' = free_set s \<union> block order p"
    and release_frame: "inv s \<Longrightarrow> holds s order p \<Longrightarrow> release s p order = Some s' \<Longrightarrow>
      holds s order' p' \<Longrightarrow> block order p \<inter> block order' p' = {} \<Longrightarrow> holds s' order' p'"

text \<open>The blocks that clients hold, next to the allocator's state, and what a client may do.\<close>

inductive client_step ::
  "('s \<Rightarrow> nat \<Rightarrow> (nat option \<times> 's) option) \<Rightarrow> ('s \<Rightarrow> nat \<Rightarrow> nat \<Rightarrow> 's option) \<Rightarrow> nat \<Rightarrow>
   's \<times> (nat \<times> nat) set \<Rightarrow> 's \<times> (nat \<times> nat) set \<Rightarrow> bool"
  for alloc :: "'s \<Rightarrow> nat \<Rightarrow> (nat option \<times> 's) option" and release :: "'s \<Rightarrow> nat \<Rightarrow> nat \<Rightarrow> 's option" and orders :: nat where
  take: "order < orders \<Longrightarrow> alloc s order = Some (Some p, s') \<Longrightarrow>
    client_step alloc release orders (s, H) (s', insert (order, p) H)"
| fail: "order < orders \<Longrightarrow> alloc s order = Some (None, s') \<Longrightarrow>
    client_step alloc release orders (s, H) (s', H)"
| give: "(order, p) \<in> H \<Longrightarrow> release s p order = Some s' \<Longrightarrow>
    client_step alloc release orders (s, H) (s', H - {(order, p)})"

inductive_cases client_stepE: "client_step alloc release orders (s, H) (s', H')"

context page_allocator begin

definition ownership :: "nat set \<Rightarrow> 's \<times> (nat \<times> nat) set \<Rightarrow> bool" where
  "ownership pool sH \<longleftrightarrow> inv (fst sH) \<and> (\<forall>(order, p) \<in> snd sH. holds (fst sH) order p) \<and>
     (\<forall>b \<in> snd sH. \<forall>b' \<in> snd sH. b \<noteq> b' \<longrightarrow> block (fst b) (snd b) \<inter> block (fst b') (snd b') = {}) \<and>
     free_set (fst sH) \<union> (\<Union>(order, p) \<in> snd sH. block order p) = pool"

lemma ownership_step:
  assumes "client_step alloc release orders sH sH'" "ownership pool sH"
  shows "ownership pool sH'"
  using assms
proof (induction rule: client_step.induct)
  case (take order s p s' H)
  then have inv: "inv s" and H: "\<forall>(order, p) \<in> H. holds s order p" by (auto simp: ownership_def)
  note law = inv take(1,2)
  have "inv s'" using alloc_total [OF inv take(1)] take(2) by auto
  moreover have "block order p \<inter> block (fst b) (snd b) = {}" if "b \<in> H" for b
    using that H holds_not_free [of s "fst b" "snd b"] alloc_was_free [OF law] by fastforce
  ultimately show ?case
    using take.prems alloc_holds [OF law] alloc_frame [OF law] alloc_was_free [OF law] alloc_free_set [OF law]
    by (auto simp: ownership_def Int_commute)
next
  case (fail order s s' H)
  then have "s' = s" using alloc_none by (auto simp: ownership_def)
  with fail show ?case by simp
next
  case (give order p H s s')
  then have inv: "inv s" and h: "holds s order p" by (auto simp: ownership_def)
  note law = inv h give(2)
  have inv': "inv s'" using release_total [OF inv h] give(2) by auto
  have apart: "block order p \<inter> block (fst b) (snd b) = {}" if "b \<in> H" "b \<noteq> (order, p)" for b
    using that give unfolding ownership_def by (metis fst_conv snd_conv)
  have "\<forall>(order', p') \<in> H - {(order, p)}. holds s' order' p'"
  proof
    fix b assume b: "b \<in> H - {(order, p)}"
    then have "holds s (fst b) (snd b)" using give.prems by (auto simp: ownership_def)
    then have "holds s' (fst b) (snd b)" using release_frame [OF law] apart b by blast
    then show "case b of (order', p') \<Rightarrow> holds s' order' p'" by (cases b) simp
  qed
  moreover have "(\<Union>(order, p) \<in> H. block order p) = block order p \<union> (\<Union>(order, p) \<in> H - {(order, p)}. block order p)"
    using give.hyps(1) by auto
  then have "free_set s' \<union> (\<Union>(order, p) \<in> H - {(order, p)}. block order p) = pool"
    using give.prems release_free_set [OF law] by (simp add: ownership_def Un_assoc)
  ultimately show ?case
    using give.prems inv' by (simp add: ownership_def)
qed

lemma ownership_reachable:
  assumes "(client_step alloc release orders)\<^sup>*\<^sup>* sH sH'" "ownership pool sH"
  shows "ownership pool sH'"
  using assms by (induction rule: rtranclp_induct) (auto intro: ownership_step)

lemma ownership_start: "inv s \<Longrightarrow> ownership (free_set s) (s, {})"
  by (simp add: ownership_def)

lemma give_progress: "ownership pool (s, H) \<Longrightarrow> (order, p) \<in> H \<Longrightarrow> \<exists>s'. release s p order = Some s'"
  using release_total by (fastforce simp: ownership_def)

end

lemma held_alloc_frame:
  assumes "held s order' p'" "block order p \<subseteq> free_pfns s" "free_pfns s' = free_pfns s - block order p"
    "pg_state s' = (pg_state s)(p := PG_ALLOC)" "max_pfn s' = max_pfn s"
  shows "held s' order' p'"
proof -
  have "p \<notin> block order' p'" using assms(1,2) block_nonempty [of p order] unfolding held_def by blast
  then show ?thesis using assms block_nonempty [of p' order'] by (auto simp: held_def block_ok_def)
qed

lemma held_release_frame:
  assumes "held s order' p'" "block order p \<inter> block order' p' = {}" "free_pfns s' = free_pfns s \<union> block order p"
    "pg_state s' = (pg_state s)(p := PG_FREE)" "max_pfn s' = max_pfn s"
  shows "held s' order' p'"
proof -
  have "p \<notin> block order' p'" using assms(2) block_nonempty [of p order] by blast
  then show ?thesis using assms block_nonempty [of p' order'] by (auto simp: held_def block_ok_def)
qed

interpretation pa: page_allocator "\<lambda>s. buddy_inv s \<and> merged s" free_pfns held "alloc_pages pid" "free_pages pid" MAX_ORDER
  for pid
proof unfold_locales
  fix s s' :: buddy and order order' p p' :: nat
  show "held s order p \<Longrightarrow> block order p \<inter> free_pfns s = {}" by (simp add: held_def)
  assume inv: "buddy_inv s \<and> merged s"
  { assume o: "order < MAX_ORDER"
    show "\<exists>r s'. alloc_pages pid s order = Some (r, s') \<and> buddy_inv s' \<and> merged s'"
      by (rule alloc_pages_law [of s order pid]) (use inv o in auto)
    { assume "alloc_pages pid s order = Some (None, s')"
      then show "s' = s" by (rule_tac alloc_pages_law [of s order pid]) (use inv o in auto) }
    assume res: "alloc_pages pid s order = Some (Some p, s')"
    have law: "held s' order p \<and> block order p \<subseteq> free_pfns s \<and> free_pfns s' = free_pfns s - block order p \<and>
        pg_state s' = (pg_state s)(p := PG_ALLOC) \<and> max_pfn s' = max_pfn s"
      by (rule alloc_pages_law [of s order pid]) (use inv o res in auto)
    then show "held s' order p" "block order p \<subseteq> free_pfns s" "free_pfns s' = free_pfns s - block order p"
      by simp_all
    assume "held s order' p'"
    then show "held s' order' p'" using law by (blast intro: held_alloc_frame) }
  assume h: "held s order p"
  show "\<exists>s'. free_pages pid s p order = Some s' \<and> buddy_inv s' \<and> merged s'"
    by (rule free_pages_law [of s order p pid]) (use inv h in auto)
  assume res: "free_pages pid s p order = Some s'"
  have law: "free_pfns s' = free_pfns s \<union> block order p \<and> pg_state s' = (pg_state s)(p := PG_FREE) \<and> max_pfn s' = max_pfn s"
    by (rule free_pages_law [of s order p pid]) (use inv h res in auto)
  then show "free_pfns s' = free_pfns s \<union> block order p" by simp
  assume "held s order' p'" "block order p \<inter> block order' p' = {}"
  then show "held s' order' p'" using law by (blast intro: held_release_frame)
qed

section \<open>Completeness of allocation\<close>

lemma aligned_blocks_nest:
  assumes "2 ^ m dvd a" "2 ^ n dvd b" "n \<le> m" "block m a \<inter> block n b \<noteq> {}"
  shows "block n b \<subseteq> block m a"
proof -
  obtain x where "x \<in> block m a" "x \<in> block n b" using assms(4) by blast
  then have x: "a \<le> x" "x < a + 2 ^ m" "b \<le> x" "x < b + 2 ^ n" by (auto simp: block_def)
  have nm: "(2::nat) ^ n dvd 2 ^ m" using assms(3) by (rule le_imp_power_dvd)
  obtain b' where b': "b = 2 ^ n * b'" using assms(2) by (auto elim: dvdE)
  obtain a' where a': "a = 2 ^ n * a'" using dvd_trans [OF nm assms(1)] by (auto elim: dvdE)
  obtain c where c: "a + 2 ^ m = 2 ^ n * c" using dvd_add [OF dvd_trans [OF nm assms(1)] nm] by (auto elim: dvdE)
  have "2 ^ n * a' < 2 ^ n * (b' + 1)" using le_less_trans [OF x(1,4)] a' b' by simp
  then have "a' < b' + 1" by (simp only: mult_less_cancel1)
  moreover have "2 ^ n * b' < 2 ^ n * c" using le_less_trans [OF x(3,2)] b' c by simp
  then have "b' < c" by (simp only: mult_less_cancel1)
  ultimately have "a' \<le> b'" "b' + 1 \<le> c" by simp_all
  then have "2 ^ n * a' \<le> 2 ^ n * b'" "2 ^ n * (b' + 1) \<le> 2 ^ n * c" by (simp_all only: mult_le_mono2)
  then have "a \<le> b" "b + 2 ^ n \<le> a + 2 ^ m"
    using a' b' c by simp_all
  then show ?thesis by (auto simp: block_def)
qed

lemma merged_complete:
  assumes inv: "buddy_inv s" and mrg: "merged s" and o: "order < MAX_ORDER"
    and dvd: "2 ^ order dvd p" and sub: "block order p \<subseteq> free_pfns s"
  shows "\<exists>n q. (n, q) \<in> free_blocks s \<and> order \<le> n"
proof (rule ccontr)
  assume "\<not> ?thesis"
  then have small: "n < order" if "(n, q) \<in> free_blocks s" for n q
    using that by (meson not_less)
  let ?in = "\<lambda>n. \<exists>q. (n, q) \<in> free_blocks s \<and> block order p \<inter> block n q \<noteq> {}"
  have hit: "\<exists>n q. (n, q) \<in> free_blocks s \<and> x \<in> block n q" if "x \<in> block order p" for x
    using subsetD [OF sub that] by (auto simp: free_pfns_def)
  then have ex: "\<exists>n. ?in n" using block_nonempty [of p order] by blast
  define n where "n = (LEAST n. ?in n)"
  obtain q where q: "(n, q) \<in> free_blocks s" "block order p \<inter> block n q \<noteq> {}"
    using LeastI_ex [OF ex] by (auto simp: n_def)
  have least: "n \<le> n'" if "(n', q') \<in> free_blocks s" "block order p \<inter> block n' q' \<noteq> {}" for n' q'
    using that unfolding n_def by (auto intro!: Least_le)
  have al: "2 ^ n' dvd q'" if "(n', q') \<in> free_blocks s" for n' q'
    using inv that by (auto simp: buddy_inv_def binv_def block_ok_def)
  have apart: "block n' q' \<inter> block n q = {}" if "(n', q') \<in> free_blocks s" "(n', q') \<noteq> (n, q)" for n' q'
    using inv q(1) that unfolding buddy_inv_def binv_def by (metis fst_conv snd_conv)
  let ?r = "q div 2 ^ (n + 1) * 2 ^ (n + 1)" and ?b = "buddy_of n q"
  note bc = buddy_cases [OF al [OF q(1)] refl]
  have pair: "block (Suc n) ?r = block n q \<union> block n ?b"
    using block_with_buddy [OF al [OF q(1)]] .
  have "block (Suc n) ?r \<subseteq> block order p"
    using small [OF q(1)] q(2) pair dvd by (intro aligned_blocks_nest) auto
  then have b: "?b \<in> block order p" using pair block_nonempty [of ?b n] by blast
  obtain n' q' where b': "(n', q') \<in> free_blocks s" "?b \<in> block n' q'" using hit [OF b] by auto
  have "n \<le> n'" using least [OF b'(1)] b b'(2) by blast
  have dvdb: "2 ^ n dvd ?b" using bc al [OF q(1)] by auto
  have "q \<in> block n q" "?b \<in> block n ?b" by simp_all
  show False
  proof (cases "n' = n")
    case True
    have "block n ?b \<subseteq> block n q'" "block n q' \<subseteq> block n ?b"
      using aligned_blocks_nest [of n q' n ?b] aligned_blocks_nest [of n ?b n q'] al [OF b'(1)] dvdb b'(2) True
        block_nonempty [of ?b n] by blast+
    then have "q' = ?b" by (auto simp: block_def)
    then have both: "(n, ?r) \<in> free_blocks s" "(n, ?r + 2 ^ n) \<in> free_blocks s"
      using bc q(1) b'(1) True by auto
    have "2 * (q div 2 ^ (n + 1)) * 2 ^ n = ?r" "(2 * (q div 2 ^ (n + 1)) + 1) * 2 ^ n = ?r + 2 ^ n"
      by (simp_all add: algebra_simps)
    moreover have "n < MAX_ORDER - 1" using small [OF q(1)] o by simp
    ultimately show False using mrg both unfolding merged_def by metis
  next
    case False
    then have "Suc n \<le> n'" using \<open>n \<le> n'\<close> by simp
    then have "block (Suc n) ?r \<subseteq> block n' q'"
      using al [OF b'(1)] b'(2) pair block_nonempty [of ?b n] by (intro aligned_blocks_nest) auto
    then show False using apart [OF b'(1)] False pair block_nonempty [of q n] by blast
  qed
qed

section \<open>Addresses\<close>

lemma VIR_TO_PAGE_inverse: "pfn < 2 ^ 19 \<Longrightarrow> VIR_TO_PAGE (PAGE_TO_VIR pfn) = pfn"
proof -
  assume p: "pfn < 2 ^ 19"
  have u: "unat (push_bit 12 (of_nat pfn :: u32)) = pfn * 4096"
    using p by (simp add: push_bit_eq_mult unat_word_ariths unsigned_of_nat take_bit_eq_mod)
  have "VIR_TO_PAGE (PAGE_TO_VIR pfn) = unat (drop_bit 12 (push_bit 12 (of_nat pfn :: u32)))"
    by (simp add: VIR_TO_PAGE_def PAGE_TO_VIR_def)
  also have "\<dots> = drop_bit 12 (unat (push_bit 12 (of_nat pfn :: u32)))"
    by (simp only: unsigned_drop_bit_eq) (simp add: take_bit_eq_mod)
  also have "\<dots> = pfn" by (simp add: u drop_bit_eq_div)
  finally show ?thesis .
qed

lemma PAGE_TO_VIR_bounds:
  "pfn < 2 ^ 19 \<Longrightarrow> unat (PAGE_TO_VIR pfn) = 2147483648 + pfn * 4096"
proof -
  assume p: "pfn < 2 ^ 19"
  have u: "unat (push_bit 12 (of_nat pfn :: u32)) = pfn * 4096"
    using p by (simp add: push_bit_eq_mult unat_word_ariths unsigned_of_nat take_bit_eq_mod)
  then show ?thesis using p by (simp add: PAGE_TO_VIR_def unat_word_ariths)
qed

section \<open>Properties\<close>

text \<open>C2: Whatever blocks of whatever sizes tasks allocate and give back, in any order,
  the allocator's invariant holds, two blocks in use never share a page, no block in use
  shares a page with a free block, every page is either free or in use as at the start,
  and neither an allocation nor the return of a block in use can trip an assertion.\<close>

theorem buddy_clients_safe:
  assumes "buddy_inv s" and "merged s"
    and "(client_step (alloc_pages pid) (free_pages pid) MAX_ORDER)\<^sup>*\<^sup>* (s, {}) (s', H)"
  shows "buddy_inv s' \<and> merged s' \<and>
    (\<forall>b \<in> H. \<forall>b' \<in> H. b \<noteq> b' \<longrightarrow> block (fst b) (snd b) \<inter> block (fst b') (snd b') = {}) \<and>
    (\<forall>b \<in> H. block (fst b) (snd b) \<inter> free_pfns s' = {}) \<and>
    free_pfns s' \<union> (\<Union>(order, p) \<in> H. block order p) = free_pfns s \<and>
    (\<forall>order < MAX_ORDER. alloc_pages pid s' order \<noteq> None) \<and>
    (\<forall>b \<in> H. free_pages pid s' (snd b) (fst b) \<noteq> None)"
proof -
  have own: "pa.ownership (free_pfns s) (s', H)"
    using pa.ownership_reachable [OF assms(3) pa.ownership_start] assms by simp
  then have inv: "buddy_inv s' \<and> merged s'" by (simp add: pa.ownership_def)
  have "alloc_pages pid s' order \<noteq> None" if "order < MAX_ORDER" for order
    using pa.alloc_total [OF inv that, of pid] by auto
  moreover have "free_pages pid s' (snd b) (fst b) \<noteq> None" if "b \<in> H" for b
    using pa.give_progress [OF own, of "fst b" "snd b" pid] that by auto
  moreover have "block (fst b) (snd b) \<inter> free_pfns s' = {}" if "b \<in> H" for b
  proof -
    have "held s' (fst b) (snd b)" using own that by (auto simp: pa.ownership_def)
    then show ?thesis by (rule pa.holds_not_free)
  qed
  ultimately show ?thesis
    using own by (simp add: pa.ownership_def)
qed

text \<open>C3: An allocation fails only when no aligned run of the requested number of free
  pages exists: freed blocks are always merged with their free buddies.\<close>

theorem alloc_pages_complete:
  assumes "buddy_inv s" and "merged s" and "order < MAX_ORDER"
    and "2 ^ order dvd p" and "block order p \<subseteq> free_pfns s"
  shows "\<exists>q s'. alloc_pages pid s order = Some (Some q, s')"
  by (rule alloc_pages_law [OF assms(1-3), of pid]) (use merged_complete [OF assms] in \<open>auto simp: not_le\<close>)

text \<open>Giving back a block right after it was allocated leaves exactly the free pages
  there were before, and never stops the machine.\<close>

theorem alloc_free_roundtrip:
  assumes "buddy_inv s" and "merged s" and "order < MAX_ORDER"
    and "alloc_pages pid s order = Some (Some p, s1)"
  shows "\<exists>s2. free_pages pid s1 p order = Some s2 \<and> buddy_inv s2 \<and> merged s2 \<and> free_pfns s2 = free_pfns s"
proof -
  have inv: "buddy_inv s \<and> merged s" using assms by simp
  note law = inv assms(3,4)
  have "buddy_inv s1 \<and> merged s1" using pa.alloc_total [OF inv assms(3), of pid] assms(4) by auto
  note law' = this pa.alloc_holds [OF law]
  then obtain s2 where "free_pages pid s1 p order = Some s2" "buddy_inv s2 \<and> merged s2"
    using pa.release_total by blast
  then show ?thesis
    using pa.release_free_set [OF law'] pa.alloc_free_set [OF law] pa.alloc_was_free [OF law] by auto
qed

subsection \<open>A concrete machine\<close>

text \<open>Thirty-two megabytes, of which the second block of four megabytes is free.\<close>

definition buddy_example :: buddy where
  "buddy_example = \<lparr>free_list = (\<lambda>order. if order = 10 then [1024] else []),
     area_map = (\<lambda>order k. order = 10 \<and> k = 0), map_size = (\<lambda>order. 8192 div 2 ^ (order + 1)),
     max_pfn = 8192, pg_count = (\<lambda>_. 0), pg_state = (\<lambda>_. PG_FREE), pg_owner = (\<lambda>_. 0)\<rparr>"

lemma less_MAX_ORDER: "order < MAX_ORDER \<longleftrightarrow> order \<in> {0, 1, 2, 3, 4, 5, 6, 7, 8, 9, 10}"
  by (simp add: MAX_ORDER_def) presburger

lemma buddy_example_blocks: "free_blocks buddy_example = {(10, 1024)}"
  by (auto simp: free_blocks_def buddy_example_def MAX_ORDER_def split: if_splits)

lemma buddy_example_pfns: "free_pfns buddy_example = {1024 ..< 2048}"
  by (simp add: free_pfns_def buddy_example_blocks block_def)

lemma buddy_example_inv: "buddy_inv buddy_example" "merged buddy_example"
proof -
  have "geometry_ok buddy_example"
    unfolding geometry_ok_def less_MAX_ORDER by (simp add: buddy_example_def free_area_bitmap_bits_def)
  moreover have "bits_ok buddy_example {}"
    unfolding bits_ok_def buddy_example_blocks by (auto simp: buddy_example_def)
  moreover have "block_ok buddy_example 10 1024"
    by (simp add: block_ok_def buddy_example_def MAX_ORDER_def)
  ultimately show "buddy_inv buddy_example"
    by (auto simp: buddy_inv_def binv_def buddy_example_blocks) (auto simp: buddy_example_def)
  show "merged buddy_example" by (auto simp: merged_def buddy_example_blocks MAX_ORDER_def)
qed

lemma buddy_example_alloc: "\<exists>s. alloc_pages 1 buddy_example 3 = Some (Some 1024, s)"
  unfolding alloc_pages_def
  by (simp add: find_area.simps alloc_split.simps buddy_example_def free_list_del_def free_list_add_def
      change_area_bit_def free_area_bitmap_bits_def MAX_ORDER_def list_ex_iff)

theorem alloc_free_roundtrip_witness:
  "\<exists>s1 s2. alloc_pages 1 buddy_example 3 = Some (Some 1024, s1) \<and> free_pages 1 s1 1024 3 = Some s2 \<and>
    free_pfns s2 = {1024 ..< 2048}"
  using buddy_example_alloc alloc_free_roundtrip [OF buddy_example_inv, of 3 1 1024]
  by (fastforce simp: MAX_ORDER_def buddy_example_pfns)

theorem alloc_pages_complete_witness: "\<exists>q s'. alloc_pages 1 buddy_example 5 = Some (Some q, s')"
  by (rule alloc_pages_complete [OF buddy_example_inv, of 5 1056])
    (auto simp: MAX_ORDER_def block_def buddy_example_pfns)

theorem buddy_clients_safe_witness:
  "\<exists>s. alloc_pages 1 buddy_example 3 = Some (Some 1024, s) \<and> free_pfns s \<union> block 3 1024 = {1024 ..< 2048} \<and>
    block 3 1024 \<inter> free_pfns s = {}"
proof -
  obtain s where s: "alloc_pages 1 buddy_example 3 = Some (Some 1024, s)"
    using buddy_example_alloc by blast
  then have "client_step (alloc_pages 1) (free_pages 1) MAX_ORDER (buddy_example, {}) (s, {(3, 1024)})"
    using client_step.take [of 3 MAX_ORDER "alloc_pages 1" buddy_example 1024 s _ "{}"] by (simp add: MAX_ORDER_def)
  then have "(client_step (alloc_pages 1) (free_pages 1) MAX_ORDER)\<^sup>*\<^sup>* (buddy_example, {}) (s, {(3, 1024)})" by blast
  from buddy_clients_safe [OF buddy_example_inv this] s show ?thesis by (auto simp: buddy_example_pfns)
qed

end
