(* ===== verification/Mem_Init.thy ===== *)
theory Mem_Init
  imports Page_Alloc
begin

text \<open>
  Boot-time memory: the bump allocator of \<^verbatim>\<open>src/src/mm/bootmem.c\<close>, the memory map of
  \<^verbatim>\<open>src/src/mm/e820.c\<close> and the initialisation of the buddy allocator
  (\<^verbatim>\<open>page_alloc_init\<close>). The multiboot memory map is the list of entries that the boot
  loader placed at \<^verbatim>\<open>mmap_addr\<close>; reading past its last entry is \<^term>\<open>None\<close>, as is a call
  of \<^verbatim>\<open>hang\<close>. The global \<^verbatim>\<open>e820\<close> is the list of its first \<^verbatim>\<open>nr_map\<close> entries.
\<close>

section \<open>Model\<close>

record bootmem =
  bootmem_j :: u32
  bootmem_end :: u32

definition alloc_bootmem_aligned :: "bootmem \<Rightarrow> u32 \<Rightarrow> nat \<Rightarrow> (u32 \<times> bootmem) option" where
  "alloc_bootmem_aligned b sz p2align =
     (let tmp = push_bit p2align 1 - 1;
          j = (bootmem_j b + tmp) AND NOT tmp;
          b = b\<lparr>bootmem_j := j + sz\<rparr>
      in if bootmem_end b < bootmem_j b then None else Some (j, b))"

definition alloc_bootmem :: "bootmem \<Rightarrow> u32 \<Rightarrow> (u32 \<times> bootmem) option" where
  "alloc_bootmem b sz = alloc_bootmem_aligned b sz 0"

definition alloc_page_bootmem :: "bootmem \<Rightarrow> (u32 \<times> bootmem) option" where
  "alloc_page_bootmem b = alloc_bootmem_aligned b 4096 12"

record e820entry =
  e_addr :: u64
  e_len :: u64
  e_type :: u32

definition MAX_MEMORY :: u64 where
  "MAX_MEMORY = 0x80000000"

definition E820MAX :: nat where
  "E820MAX = 32"

definition add_memory_region :: "e820entry list \<Rightarrow> u64 \<Rightarrow> u64 \<Rightarrow> u32 \<Rightarrow> e820entry list" where
  "add_memory_region mp addr len type =
     (let start = addr; endd = addr + len
      in if type \<noteq> 1 \<or> endd \<le> start \<or> MAX_MEMORY \<le> start then mp
         else if MAX_MEMORY \<le> addr then mp
         else if endd \<le> addr then mp
         else
           let len = (if MAX_MEMORY < endd then MAX_MEMORY - addr else len)
           in if E820MAX \<le> length mp then mp
              else mp @ [\<lparr>e_addr = addr, e_len = len, e_type = type\<rparr>])"

record mmap_entry =
  m_size :: u32
  m_addr :: u64
  m_len :: u64
  m_type :: u32

record multiboot_info =
  mb_flag_mem :: bool
  mb_flag_mmap :: bool
  mem_lower :: u32
  mem_upper :: u32
  mmap_length :: u32
  mmap_entries :: "mmap_entry list"

fun walk_mmap :: "mmap_entry list \<Rightarrow> u32 \<Rightarrow> e820entry list \<Rightarrow> e820entry list option" where
  "walk_mmap es left mp =
     (if left = 0 then Some mp
      else case es of
             [] \<Rightarrow> None
           | e # es \<Rightarrow>
               walk_mmap es (left - (m_size e + 4)) (add_memory_region mp (m_addr e) (m_len e) (m_type e)))"

declare walk_mmap.simps [simp del]

definition make_e820_map :: "multiboot_info \<Rightarrow> e820entry list option" where
  "make_e820_map m =
     (case (if mb_flag_mmap m then walk_mmap (mmap_entries m) (mmap_length m) [] else Some []) of
        None \<Rightarrow> None
      | Some mp \<Rightarrow>
          if 2 \<le> length mp then Some mp
          else
            let mp = (if mb_flag_mem m
                       then add_memory_region (add_memory_region [] 0 (ucast (mem_lower m)) 1)
                              0x100000 (ucast (mem_upper m)) 1
                       else [])
            in if length mp = 2 then Some mp
               else Some (add_memory_region (add_memory_region [] 0 0x080000 1) 0x100000 0xe00000 1))"

definition PFN_UP :: "u32 \<Rightarrow> u32" where
  "PFN_UP x = drop_bit 12 (x + 4095)"

definition PFN_DOWN :: "u32 \<Rightarrow> u32" where
  "PFN_DOWN x = drop_bit 12 x"

fun highest_pfn :: "e820entry list \<Rightarrow> u32 \<Rightarrow> u32" where
  "highest_pfn [] mx = mx"
| "highest_pfn (e # es) mx =
     (let j = PFN_UP (ucast (e_addr e)); k = PFN_DOWN (ucast (e_addr e + e_len e))
      in highest_pfn es (if k \<le> j then mx else if mx < k then k else mx))"

definition setup_memory_region :: "multiboot_info \<Rightarrow> (e820entry list \<times> u32) option" where
  "setup_memory_region m =
     (case make_e820_map m of
        None \<Rightarrow> None
      | Some mp \<Rightarrow>
          let mx = highest_pfn mp 0
          in if mx < PFN_DOWN 0x2000000 then None else Some (mp, mx))"

subsection \<open>Initialising the buddy allocator\<close>

text \<open>The size of \<^verbatim>\<open>struct page\<close> with the debug fields: a counter, two list pointers,
  the state and the owner, of four bytes each.\<close>

definition sizeof_page :: u32 where
  "sizeof_page = 20"

text \<open>The bitmaps: order \<open>i\<close> takes boot memory when it has a bit at all.\<close>

fun alloc_maps :: "nat list \<Rightarrow> u32 \<Rightarrow> bootmem \<Rightarrow> buddy \<Rightarrow> (bootmem \<times> buddy) option" where
  "alloc_maps [] mx b s = Some (b, s)"
| "alloc_maps (i # is) mx b s =
     (let msize = drop_bit (i + 1) mx;
          s = s\<lparr>map_size := (map_size s)(i := unat msize)\<rparr>;
          words = drop_bit 5 (msize + 31);
          init = (\<lambda>s. s\<lparr>free_list := (free_list s)(i := [])\<rparr>)
      in if words \<noteq> 0
         then (case alloc_bootmem_aligned b (words * 4) 2 of
                 None \<Rightarrow> None
               | Some (_, b) \<Rightarrow> alloc_maps is mx b (init (s\<lparr>area_map := (area_map s)(i := (\<lambda>_. False))\<rparr>)))
         else alloc_maps is mx b (init s))"

text \<open>Freeing the pages \<open>j\<close> to \<open>n - 1\<close> one by one.\<close>

function free_range :: "int \<Rightarrow> buddy \<Rightarrow> nat \<Rightarrow> nat \<Rightarrow> buddy option" where
  "free_range pid s j n =
     (if j < n
      then (case free_page pid (s\<lparr>pg_state := (pg_state s)(j := PG_ALLOC)\<rparr>) j of
              None \<Rightarrow> None
            | Some s \<Rightarrow> free_range pid s (j + 1) n)
      else Some s)"
  by pat_completeness auto
termination
  by (relation "measure (\<lambda>(pid, s, j, n). n - j)") auto

declare free_range.simps [simp del]

text \<open>The page range of one memory map entry: page zero and the ramdisks, which start at
  one megabyte, are skipped.\<close>

definition region_range :: "u32 \<Rightarrow> e820entry \<Rightarrow> nat \<times> nat" where
  "region_range last_rd_end e =
     (let addr = ucast (e_addr e); len = ucast (e_len e);
          addr = (if addr = 0 then 1 else addr);
          (addr, len) = (if addr = 0x100000
                         then let addr = last_rd_end - 0x80000000 in (addr, 0x100000 + len - addr)
                         else (addr, len))
      in (unat (PFN_UP addr), unat (PFN_DOWN (addr + len))))"

fun free_ranges :: "int \<Rightarrow> buddy \<Rightarrow> (nat \<times> nat) list \<Rightarrow> buddy option" where
  "free_ranges pid s [] = Some s"
| "free_ranges pid s ((j, n) # rs) =
     (case free_range pid s j n of None \<Rightarrow> None | Some s \<Rightarrow> free_ranges pid s rs)"

definition page_alloc_init ::
  "int \<Rightarrow> e820entry list \<Rightarrow> u32 \<Rightarrow> u32 \<Rightarrow> bootmem \<Rightarrow> buddy \<Rightarrow> (bootmem \<times> buddy) option" where
  "page_alloc_init pid mp mx last_rd_end b s =
     (case alloc_bootmem_aligned b (mx * sizeof_page) 2 of
        None \<Rightarrow> None
      | Some (_, b) \<Rightarrow>
          (case alloc_maps [0..<MAX_ORDER] mx b (s\<lparr>max_pfn := unat mx\<rparr>) of
             None \<Rightarrow> None
           | Some (b, s) \<Rightarrow>
               (case free_ranges pid s (List.map (region_range last_rd_end) mp) of
                  None \<Rightarrow> None
                | Some s \<Rightarrow>
                    map_option (\<lambda>s. (b, s))
                      (free_range pid s (unat (PFN_UP (bootmem_j b - 0x80000000)))
                        (unat (PFN_DOWN (bootmem_end b - 0x80000000)))))))"

section \<open>The memory map\<close>

definition entry_ok :: "e820entry \<Rightarrow> bool" where
  "entry_ok e \<longleftrightarrow> e_type e = 1 \<and> 0 < e_len e \<and> unat (e_addr e) + unat (e_len e) \<le> 2 ^ 31"

lemma add_memory_region_ok:
  assumes "list_all entry_ok mp" "length mp \<le> E820MAX"
  shows "list_all entry_ok (add_memory_region mp addr len type) \<and>
    length (add_memory_region mp addr len type) \<le> E820MAX"
proof -
  have ok: "entry_ok \<lparr>e_addr = addr, e_len = l, e_type = 1\<rparr>"
    if "addr < addr + len" "addr < MAX_MEMORY" "l = (if MAX_MEMORY < addr + len then MAX_MEMORY - addr else len)" for l
  proof (cases "MAX_MEMORY < addr + len")
    case True
    then show ?thesis
      using that by (auto simp: entry_ok_def MAX_MEMORY_def word_less_nat_alt unat_sub word_le_nat_alt)
  next
    case False
    have "unat (addr + len) = unat addr + unat len"
      by (rule unat_plus_simple [THEN iffD1, OF less_imp_le [OF that(1)]])
    then show ?thesis
      using False that by (auto simp: entry_ok_def MAX_MEMORY_def word_less_nat_alt word_le_nat_alt not_less)
  qed
  show ?thesis
    using assms by (auto simp: add_memory_region_def Let_def not_le intro: ok)
qed

lemma walk_mmap_ok:
  "walk_mmap es left mp = Some mp' \<Longrightarrow> list_all entry_ok mp \<Longrightarrow> length mp \<le> E820MAX \<Longrightarrow>
   list_all entry_ok mp' \<and> length mp' \<le> E820MAX"
proof (induction es arbitrary: left mp)
  case Nil
  then show ?case by (simp add: walk_mmap.simps split: if_splits)
next
  case (Cons e es)
  then show ?case
    using add_memory_region_ok [OF Cons.prems(2,3)]
    by (subst (asm) walk_mmap.simps) (auto split: if_splits)
qed

lemma make_e820_map_ok:
  "make_e820_map m = Some mp \<Longrightarrow> list_all entry_ok mp \<and> length mp \<le> E820MAX"
proof -
  assume "make_e820_map m = Some mp"
  moreover have "list_all entry_ok []" "length [] \<le> E820MAX" "2 \<le> E820MAX" by (simp_all add: E820MAX_def)
  ultimately show ?thesis
    using add_memory_region_ok walk_mmap_ok
    by (auto simp: make_e820_map_def Let_def split: option.splits if_splits)
qed

lemma unat_PFN_DOWN: "unat (PFN_DOWN x) = unat x div 4096"
  by (simp add: PFN_DOWN_def drop_bit_eq_div unat_div)

lemma entry_end:
  assumes "entry_ok e"
  shows "unat (ucast (e_addr e + e_len e) :: u32) = unat (e_addr e) + unat (e_len e)"
proof -
  have u: "unat (e_addr e + e_len e) = unat (e_addr e) + unat (e_len e)"
    using assms by (simp add: entry_ok_def unat_word_ariths)
  then show ?thesis
    using assms by (simp add: entry_ok_def unsigned_ucast_eq take_bit_eq_mod u)
qed

lemma highest_pfn_bounds:
  "list_all entry_ok mp \<Longrightarrow> unat mx \<le> 2 ^ 19 \<Longrightarrow>
   unat mx \<le> unat (highest_pfn mp mx) \<and> unat (highest_pfn mp mx) \<le> 2 ^ 19 \<and>
   (\<forall>e \<in> set mp. PFN_DOWN (ucast (e_addr e + e_len e)) \<le> PFN_UP (ucast (e_addr e)) \<or>
      PFN_DOWN (ucast (e_addr e + e_len e)) \<le> highest_pfn mp mx)"
proof (induction mp arbitrary: mx)
  case Nil
  then show ?case by simp
next
  case (Cons e mp)
  let ?k = "PFN_DOWN (ucast (e_addr e + e_len e))" and ?j = "PFN_UP (ucast (e_addr e))"
  let ?mx = "if ?k \<le> ?j then mx else if mx < ?k then ?k else mx"
  have ok: "entry_ok e" "list_all entry_ok mp" using Cons.prems by auto
  have "unat ?k \<le> 2 ^ 19"
    using ok(1) div_le_mono [of "unat (e_addr e) + unat (e_len e)" "2 ^ 31" 4096]
    by (simp add: unat_PFN_DOWN entry_end) (simp add: entry_ok_def)
  then have mx: "unat ?mx \<le> 2 ^ 19" "unat mx \<le> unat ?mx" "?k \<le> ?j \<or> unat ?k \<le> unat ?mx"
    using Cons.prems(2) by (auto simp: word_less_nat_alt)
  have "highest_pfn (e # mp) mx = highest_pfn mp ?mx" by (simp add: Let_def)
  with Cons.IH [OF ok(2) mx(1)] mx show ?case
    by (auto simp: word_le_nat_alt simp del: highest_pfn.simps)
qed

text \<open>C11: When the memory map is accepted, it has at most 32 entries, all of them memory
  below two gigabytes, at least 32 megabytes are counted, no page number exceeds
  \<open>2 ^ 19\<close>, and every whole page of every region is below the page count.\<close>

theorem setup_memory_region_bounds:
  assumes "setup_memory_region m = Some (mp, mx)"
  shows "length mp \<le> E820MAX \<and> list_all entry_ok mp \<and> 8192 \<le> unat mx \<and> unat mx \<le> 2 ^ 19 \<and>
    (\<forall>e \<in> set mp. PFN_DOWN (ucast (e_addr e + e_len e)) \<le> PFN_UP (ucast (e_addr e)) \<or>
       PFN_DOWN (ucast (e_addr e + e_len e)) \<le> mx)"
proof -
  have mp: "make_e820_map m = Some mp" "mx = highest_pfn mp 0" "\<not> mx < PFN_DOWN 0x2000000"
    using assms by (auto simp: setup_memory_region_def Let_def split: option.splits if_splits)
  have "8192 \<le> unat mx" using mp(3) by (simp add: word_less_nat_alt unat_PFN_DOWN)
  with make_e820_map_ok [OF mp(1)] highest_pfn_bounds [of mp 0] mp(2) show ?thesis by auto
qed

definition mb_example :: multiboot_info where
  "mb_example = \<lparr>mb_flag_mem = True, mb_flag_mmap = True, mem_lower = 0, mem_upper = 0, mmap_length = 72,
     mmap_entries = [\<lparr>m_size = 20, m_addr = 0, m_len = 0x9fc00, m_type = 1\<rparr>,
                     \<lparr>m_size = 20, m_addr = 0xf0000, m_len = 0x10000, m_type = 2\<rparr>,
                     \<lparr>m_size = 20, m_addr = 0x100000, m_len = 0x3f00000, m_type = 1\<rparr>]\<rparr>"

theorem setup_memory_region_bounds_witness:
  "\<exists>mp. setup_memory_region mb_example = Some (mp, 16384) \<and> length mp = 2 \<and> list_all entry_ok mp"
proof -
  let ?mp = "[\<lparr>e_addr = 0, e_len = 0x9fc00, e_type = 1\<rparr>, \<lparr>e_addr = 0x100000, e_len = 0x3f00000, e_type = 1\<rparr>]"
  have "setup_memory_region mb_example = Some (?mp, 16384)" by code_simp
  from setup_memory_region_bounds [OF this] this show ?thesis by auto
qed

section \<open>The initial free pages\<close>

lemma free_range_law:
  assumes "buddy_inv s" "merged s" "n \<le> max_pfn s \<or> n \<le> j" "{j ..< n} \<inter> free_pfns s = {}"
  shows "\<exists>s'. free_range pid s j n = Some s' \<and> buddy_inv s' \<and> merged s' \<and>
    max_pfn s' = max_pfn s \<and> free_pfns s' = free_pfns s \<union> {j ..< n}"
  using assms
proof (induction "n - j" arbitrary: s j)
  case 0
  then show ?case by (subst free_range.simps) simp
next
  case (Suc m)
  then have j: "j < n" "n \<le> max_pfn s" by auto
  let ?s = "s\<lparr>pg_state := (pg_state s)(j := PG_ALLOC)\<rparr>"
  have pf: "free_pfns ?s = free_pfns s" by (simp add: free_pfns_def)
  have nf: "j \<notin> free_pfns s" using Suc.prems(4) j by auto
  have inv: "buddy_inv ?s" "merged ?s"
    using Suc.prems(1,2) nf
    by (auto simp: buddy_inv_def binv_def merged_def block_ok_def geometry_ok_def free_area_bitmap_bits_def
        bits_ok_def pf)
  have held: "held ?s 0 j"
    using j nf by (auto simp: held_def block_ok_def block_def pf MAX_ORDER_def)
  obtain s1 where s1: "free_pages pid ?s j 0 = Some s1" "buddy_inv s1" "merged s1"
    "free_pfns s1 = free_pfns s \<union> {j}" "max_pfn s1 = max_pfn s"
    by (rule free_pages_law [OF inv held, of pid]) (use pf in \<open>auto simp: block_def intro!: that\<close>)
  have "{j + 1 ..< n} \<subseteq> {j ..< n}" "j \<notin> {j + 1 ..< n}" by auto
  then have "{j + 1 ..< n} \<inter> free_pfns s1 = {}" unfolding s1(4) using Suc.prems(4) by blast
  moreover have "m = n - (j + 1)" using Suc.hyps(2) by simp
  ultimately obtain s' where
    "free_range pid s1 (j + 1) n = Some s'" "buddy_inv s'" "merged s'" "max_pfn s' = max_pfn s1"
    "free_pfns s' = free_pfns s1 \<union> {j + 1 ..< n}"
    using Suc.hyps(1) [of "j + 1" s1] s1 j by auto
  moreover have "free_range pid s j n = free_range pid s1 (j + 1) n"
    using j s1(1) by (subst free_range.simps) (simp add: free_page_def)
  moreover have "{j ..< n} = insert j {j + 1 ..< n}"
    using j by (simp add: set_eq_iff) presburger
  ultimately have "free_range pid s j n = Some s'" "free_pfns s' = free_pfns s \<union> {j ..< n}"
    "buddy_inv s'" "merged s'" "max_pfn s' = max_pfn s"
    using s1(4,5) by simp_all
  then show ?case by blast
qed

lemma free_ranges_law:
  assumes "buddy_inv s" "merged s" "\<forall>r \<in> set rs. snd r \<le> max_pfn s"
    "\<forall>r \<in> set rs. {fst r ..< snd r} \<inter> free_pfns s = {}"
    "sorted_wrt (\<lambda>r r'. {fst r ..< snd r} \<inter> {fst r' ..< snd r'} = {}) rs"
  shows "\<exists>s'. free_ranges pid s rs = Some s' \<and> buddy_inv s' \<and> merged s' \<and>
    max_pfn s' = max_pfn s \<and> free_pfns s' = free_pfns s \<union> (\<Union>r \<in> set rs. {fst r ..< snd r})"
  using assms
proof (induction rs arbitrary: s)
  case Nil
  then show ?case by simp
next
  case (Cons r rs)
  obtain s1 where s1: "free_range pid s (fst r) (snd r) = Some s1" "buddy_inv s1" "merged s1"
    "max_pfn s1 = max_pfn s" "free_pfns s1 = free_pfns s \<union> {fst r ..< snd r}"
    using free_range_law [of s "snd r" "fst r" pid] Cons.prems by auto
  moreover have "\<forall>r' \<in> set rs. {fst r' ..< snd r'} \<inter> free_pfns s1 = {}"
    using Cons.prems(4,5) s1(5) by (auto simp: Int_Un_distrib Int_commute)
  ultimately obtain s' where "free_ranges pid s1 rs = Some s'" "buddy_inv s'" "merged s'" "max_pfn s' = max_pfn s"
    "free_pfns s' = free_pfns s1 \<union> (\<Union>r \<in> set rs. {fst r ..< snd r})"
    using Cons.IH [of s1] Cons.prems by auto
  then show ?case
    using s1 by (cases r) auto
qed

lemma free_ranges_append:
  "free_ranges pid s (rs @ rs') = (case free_ranges pid s rs of None \<Rightarrow> None | Some s \<Rightarrow> free_ranges pid s rs')"
  by (induction pid s rs rule: free_ranges.induct) (auto split: option.splits)

text \<open>What the allocation of the bitmaps leaves behind.\<close>

lemma alloc_maps_state:
  assumes "alloc_maps is mx b s = Some (b', s')" "area_map s = (\<lambda>_ _. False)"
  shows "area_map s' = (\<lambda>_ _. False) \<and> max_pfn s' = max_pfn s \<and> pg_state s' = pg_state s \<and>
    (\<forall>i. free_list s' i = (if i \<in> set is then [] else free_list s i)) \<and>
    (\<forall>i. map_size s' i = (if i \<in> set is then unat mx div 2 ^ (i + 1) else map_size s i))"
  using assms
proof (induction "is" arbitrary: b s)
  case Nil
  then show ?case by simp
next
  case (Cons i "is")
  have size: "unat (drop_bit (Suc i) mx) = unat mx div 2 ^ Suc i"
    by (simp only: unsigned_drop_bit_eq) (simp add: drop_bit_eq_div take_bit_eq_mod)
  have fix_map: "(area_map s)(i := \<lambda>_. False) = (\<lambda>_ _. False)"
    using Cons.prems(2) by auto
  show ?case
    using Cons.prems Cons.IH
    by (auto simp: Let_def size fix_map split: if_splits option.splits prod.splits)
qed

definition pfn_geometry :: "nat \<Rightarrow> bool" where
  "pfn_geometry n \<longleftrightarrow> (\<forall>order < MAX_ORDER. 2 ^ order \<le> n \<longrightarrow>
     (n - 2 ^ order) div 2 ^ (order + 1) < ((n div 2 ^ (order + 1) + 31) div 32) * 32)"

lemma alloc_maps_inv:
  assumes "alloc_maps [0..<MAX_ORDER] mx b s = Some (b', s')" "area_map s = (\<lambda>_ _. False)"
    "max_pfn s = unat mx" "pfn_geometry (unat mx)"
  shows "buddy_inv s' \<and> merged s' \<and> free_pfns s' = {} \<and> max_pfn s' = unat mx"
proof -
  note st = alloc_maps_state [OF assms(1,2)]
  have blocks: "free_blocks s' = {}" using st by (auto simp: free_blocks_def)
  then have "free_pfns s' = {}" by (simp add: free_pfns_def)
  moreover have "geometry_ok s'"
    using assms(3,4) st by (simp add: geometry_ok_def pfn_geometry_def free_area_bitmap_bits_def)
  ultimately show ?thesis
    using st blocks assms(3) by (auto simp: buddy_inv_def binv_def bits_ok_def merged_def)
qed


definition buddy_zero :: buddy where
  "buddy_zero = \<lparr>free_list = (\<lambda>_. []), area_map = (\<lambda>_ _. False), map_size = (\<lambda>_. 0), max_pfn = 0,
     pg_count = (\<lambda>_. 0), pg_state = (\<lambda>_. PG_UNSET), pg_owner = (\<lambda>_. 0)\<rparr>"

definition bootmem_example :: bootmem where
  "bootmem_example = \<lparr>bootmem_j = 0x80100000, bootmem_end = 0x8012a000\<rparr>"

lemma MAX_ORDER_list: "[0..<MAX_ORDER] = [0, 1, 2, 3, 4, 5, 6, 7, 8, 9, 10]"
  by (simp add: MAX_ORDER_def upt_conv_Cons)


section \<open>Two limits of the code\<close>

text \<open>The initial state of the boot-time allocator for a \<^verbatim>\<open>bootmem\<close> array at \<open>base\<close>.\<close>

definition bootmem_start :: "u32 \<Rightarrow> bootmem" where
  "bootmem_start base = \<lparr>bootmem_j = base, bootmem_end = base + 8 * 1024 * 1024\<rparr>"

text \<open>With the debug fields, the page descriptors of the two gigabytes that
  \<^verbatim>\<open>MAX_MEMORY\<close> admits exceed the boot-time memory: the kernel hangs in
  \<^verbatim>\<open>page_alloc_init\<close>. The kernel image lies in the first sixteen megabytes.\<close>

lemma max_memory_exhausts_bootmem:
  assumes "base \<le> 0x80000000 + 0x1000000 - 0x800000" "0x80000000 \<le> base"
  shows "page_alloc_init pid mp 0x80000 last_rd_end (bootmem_start base) s = None"
proof -
  have len: "(0x80000::u32) * sizeof_page = 0xa00000" by (simp add: sizeof_page_def)
  have "unat (base + 3) = unat base + 3"
    using assms by (simp add: unat_word_ariths word_le_nat_alt)
  then have al: "unat ((base + 3) AND NOT 3) = (unat base + 3) div 4 * 4"
    using unat_and_not_mask [of "base + 3" 2] by (simp add: mask_eq_exp_minus_1)
  have "unat (((base + 3) AND NOT 3) + 0xa00000) = (unat base + 3) div 4 * 4 + 0xa00000"
    "unat (base + 0x800000) = unat base + 0x800000"
    using assms al by (simp_all add: unat_word_ariths word_le_nat_alt)
  then have "base + 0x800000 < ((base + 3) AND NOT 3) + 0xa00000"
    using assms by (simp add: word_less_nat_alt)
  then show ?thesis
    by (simp add: page_alloc_init_def alloc_bootmem_aligned_def bootmem_start_def len)
qed

text \<open>A bitmap has no bit for an unpaired last page when the pairs fill its last word:
  freeing the last page of a machine with 8193 pages trips an assertion.\<close>

lemma odd_memory_panics:
  assumes "max_pfn s = 8193" "map_size s 0 = 8193 div 2"
  shows "free_page pid s 8192 = None"
  using assms
  by (simp add: free_page_def free_pages_def free_merge.simps free_area_bitmap_bits_def)

end
