(* ===== verification/Kmalloc.thy ===== *)
theory Kmalloc
  imports Page_Alloc
begin

text \<open>
  The bucket allocator of \<^verbatim>\<open>src/src/mm/kmalloc.c\<close> as the default build compiles it
  (\<^verbatim>\<open>CONFIG_KMALLOC_DEBUG\<close>), on top of the buddy allocator. The headers that the
  allocator keeps inside its pages are maps from their addresses: board headers,
  block headers and the red zone words. The field \<open>next\<close> of a block header overlaps the
  first bytes of the caller's memory, so it has a meaning only while the block is free.
  The fields of \<^verbatim>\<open>buckets[]\<close> that never change are a constant table, the heads of the
  board chains are part of the state; a pointer to a bucket is its index. A failed
  assertion is \<^term>\<open>None\<close>.
\<close>

section \<open>Model\<close>

record block_header =
  bk_magic :: u32
  bk_owner :: int
  bk_size :: u32
  bk_board :: u32
  bk_next :: u32

record board_header =
  bd_nfree :: u32
  bd_firstfree :: u32
  bd_bucket :: nat
  bd_next :: u32

record kheap =
  firstfree :: "nat \<Rightarrow> u32"
  boards :: "u32 \<Rightarrow> board_header"
  blocks :: "u32 \<Rightarrow> block_header"
  redzone :: "u32 \<Rightarrow> u32"
  bud :: buddy

definition KMALLOC_USER_OFFSET :: u32 where
  "KMALLOC_USER_OFFSET = 16"

definition KMALLOC_REDZONE_SIZE :: u32 where
  "KMALLOC_REDZONE_SIZE = 4"

definition KMALLOC_MAGIC_ALLOC :: u32 where
  "KMALLOC_MAGIC_ALLOC = 0x6d6b616c"

definition KMALLOC_MAGIC_FREED :: u32 where
  "KMALLOC_MAGIC_FREED = 0x6d6b6672"

definition KMALLOC_REDZONE_VALUE :: u32 where
  "KMALLOC_REDZONE_VALUE = 0x7265647a"

text \<open>Order, block size and number of blocks of each bucket.\<close>

definition buckets :: "(nat \<times> u32 \<times> nat) list" where
  "buckets =
     [(0, 34, 120), (0, 60, 68), (0, 120, 34), (0, 255, 16), (0, 510, 8), (0, 1020, 4), (0, 2040, 2),
      (0, 4096 - 16, 1), (1, 8192 - 16, 1), (2, 16384 - 16, 1), (3, 32768 - 16, 1), (4, 65536 - 16, 1),
      (5, 131072 - 16, 1), (6, 262144 - 16, 1), (0, 0, 0)]"

definition bucket_order :: "nat \<Rightarrow> nat" where
  "bucket_order i = fst (buckets ! i)"

definition block_size :: "nat \<Rightarrow> u32" where
  "block_size i = fst (snd (buckets ! i))"

definition nblocks :: "nat \<Rightarrow> nat" where
  "nblocks i = snd (snd (buckets ! i))"

text \<open>The loop of \<^verbatim>\<open>alloc_board\<close> that links the blocks of a new board.\<close>

fun link_blocks :: "nat \<Rightarrow> u32 \<Rightarrow> u32 \<Rightarrow> u32 \<Rightarrow> (u32 \<Rightarrow> block_header) \<Rightarrow> u32 \<Rightarrow> block_header" where
  "link_blocks 0 bs board blk h = h(blk := (h blk)\<lparr>bk_board := board, bk_next := 0\<rparr>)"
| "link_blocks (Suc n) bs board blk h =
     link_blocks n bs board (blk + bs) (h(blk := (h blk)\<lparr>bk_board := board, bk_next := blk + bs\<rparr>))"

definition alloc_board :: "int \<Rightarrow> kheap \<Rightarrow> nat \<Rightarrow> (u32 \<times> kheap) option" where
  "alloc_board pid k bucket =
     (case pages_alloc pid (bud k) (bucket_order bucket) of
        None \<Rightarrow> None
      | Some (board, s) \<Rightarrow>
          let k = k\<lparr>bud := s\<rparr>
          in if board = 0 then Some (0, k)
             else Some (board, k\<lparr>
               blocks := link_blocks (nblocks bucket - 1) (block_size bucket) board (board + 16) (blocks k),
               boards := (boards k)(board := \<lparr>bd_nfree = of_nat (nblocks bucket), bd_firstfree = board + 16,
                 bd_bucket = bucket, bd_next = firstfree k bucket\<rparr>)\<rparr>))"

text \<open>Freeing the pages of a board fills them with the poison byte; the poisoned pointer
  to a bucket points to no entry of the table.\<close>

definition poison_word :: u32 where
  "poison_word = 0xcccccccc"

definition poison :: "u32 \<Rightarrow> u32 \<Rightarrow> kheap \<Rightarrow> kheap" where
  "poison vir len k =
     (let hit = (\<lambda>a. a - vir < len)
      in k\<lparr>boards := (\<lambda>a. if hit a then \<lparr>bd_nfree = poison_word, bd_firstfree = poison_word,
               bd_bucket = length buckets, bd_next = poison_word\<rparr> else boards k a),
           blocks := (\<lambda>a. if hit a then \<lparr>bk_magic = poison_word, bk_owner = sint poison_word, bk_size = poison_word,
               bk_board = poison_word, bk_next = poison_word\<rparr> else blocks k a),
           redzone := (\<lambda>a. if hit a then poison_word else redzone k a)\<rparr>)"

definition free_board :: "int \<Rightarrow> kheap \<Rightarrow> u32 \<Rightarrow> kheap option" where
  "free_board pid k board =
     (let order = bucket_order (bd_bucket (boards k board))
      in map_option (\<lambda>s. poison board (push_bit order 4096) (k\<lparr>bud := s\<rparr>)) (pages_free pid (bud k) board order))"

text \<open>The search for a bucket stops at the entry with block size zero, the fifteenth.\<close>

fun find_bucket :: "(nat \<times> u32 \<times> nat) list \<Rightarrow> nat \<Rightarrow> u32 \<Rightarrow> nat option" where
  "find_bucket [] i sz = None"
| "find_bucket ((ord, bs, nb) # bkts) i sz =
     (if bs = 0 then None
      else if sz + KMALLOC_REDZONE_SIZE \<le> bs - KMALLOC_USER_OFFSET then Some i else find_bucket bkts (i + 1) sz)"

text \<open>Taking the first free block of the first board of a bucket.\<close>

definition take_block :: "int \<Rightarrow> kheap \<Rightarrow> nat \<Rightarrow> u32 \<Rightarrow> u32 \<times> kheap" where
  "take_block pid k bucket sz =
     (let board = firstfree k bucket;
          blk = bd_firstfree (boards k board);
          k = k\<lparr>blocks := (blocks k)(blk := (blocks k blk)
            \<lparr>bk_magic := KMALLOC_MAGIC_ALLOC, bk_owner := pid, bk_size := sz\<rparr>)\<rparr>;
          nfree = bd_nfree (boards k board) - 1;
          k = k\<lparr>boards := (boards k)(board := (boards k board)\<lparr>bd_nfree := nfree\<rparr>)\<rparr>;
          k = (if nfree = 0 then k\<lparr>firstfree := (firstfree k)(bucket := bd_next (boards k board))\<rparr> else k);
          k = k\<lparr>boards := (boards k)(board := (boards k board)\<lparr>bd_firstfree := bk_next (blocks k blk)\<rparr>)\<rparr>;
          ptr = blk + KMALLOC_USER_OFFSET
      in (ptr, k\<lparr>redzone := (redzone k)(ptr + sz := KMALLOC_REDZONE_VALUE)\<rparr>))"

definition kmalloc :: "int \<Rightarrow> kheap \<Rightarrow> u32 \<Rightarrow> (u32 \<times> kheap) option" where
  "kmalloc pid k sz =
     (if sz = 0 then Some (0, k)
      else case find_bucket buckets 0 sz of
        None \<Rightarrow> Some (0, k)
      | Some bucket \<Rightarrow>
          (case (if firstfree k bucket = 0
                 then map_option (\<lambda>(board, k). k\<lparr>firstfree := (firstfree k)(bucket := board)\<rparr>) (alloc_board pid k bucket)
                 else Some k) of
             None \<Rightarrow> None
           | Some k \<Rightarrow> Some (if firstfree k bucket = 0 then (0, k) else take_block pid k bucket sz)))"

text \<open>Putting a block back on its board, and the board on the chain of its bucket.\<close>

definition put_block :: "kheap \<Rightarrow> u32 \<Rightarrow> kheap" where
  "put_block k blk =
     (let k = k\<lparr>blocks := (blocks k)(blk := (blocks k blk)\<lparr>bk_magic := KMALLOC_MAGIC_FREED\<rparr>)\<rparr>;
          board = bk_board (blocks k blk);
          bucket = bd_bucket (boards k board);
          k = k\<lparr>blocks := (blocks k)(blk := (blocks k blk)\<lparr>bk_next := bd_firstfree (boards k board)\<rparr>)\<rparr>;
          k = k\<lparr>boards := (boards k)(board := (boards k board)
                \<lparr>bd_firstfree := blk, bd_nfree := bd_nfree (boards k board) + 1\<rparr>)\<rparr>
      in if bd_nfree (boards k board) = 1
         then k\<lparr>boards := (boards k)(board := (boards k board)\<lparr>bd_next := firstfree k bucket\<rparr>),
                firstfree := (firstfree k)(bucket := board)\<rparr>
         else k)"

text \<open>A pointer to no entry of \<^verbatim>\<open>buckets[]\<close> is a fault.\<close>

definition kfree :: "int \<Rightarrow> kheap \<Rightarrow> u32 \<Rightarrow> kheap option" where
  "kfree pid k ptr =
     (let blk = ptr - KMALLOC_USER_OFFSET
      in if ptr = 0 \<or> bk_magic (blocks k blk) \<noteq> KMALLOC_MAGIC_ALLOC \<or>
            redzone k (ptr + bk_size (blocks k blk)) \<noteq> KMALLOC_REDZONE_VALUE then None
         else
           let board = bk_board (blocks k blk);
               bucket = bd_bucket (boards k board)
           in if length buckets \<le> bucket then None
              else
                let k = put_block k blk
                in if bd_nfree (boards k board) = of_nat (nblocks bucket)
                   then free_board pid (k\<lparr>firstfree := (firstfree k)(bucket := bd_next (boards k board))\<rparr>) board
                   else Some k)"

section \<open>The layout of a board\<close>

lemma less_14: "(i::nat) < 14 \<longleftrightarrow> i \<in> {0,1,2,3,4,5,6,7,8,9,10,11,12,13}"
  by (simp only: insert_iff empty_iff) presburger

lemma bucket_bounds:
  assumes "i < 14"
  shows "20 < unat (block_size i)" "0 < nblocks i" "nblocks i \<le> 120"
    "16 + nblocks i * unat (block_size i) \<le> 4096 * 2 ^ bucket_order i" "bucket_order i \<le> 6"
  using assms unfolding less_14 by (auto simp: block_size_def nblocks_def bucket_order_def buckets_def)

text \<open>The address of block \<open>n\<close> of the board at \<open>b\<close>.\<close>

definition baddr :: "nat \<Rightarrow> u32 \<Rightarrow> nat \<Rightarrow> u32" where
  "baddr i b n = b + 16 + of_nat n * block_size i"

definition block_addrs :: "nat \<Rightarrow> u32 \<Rightarrow> u32 set" where
  "block_addrs i b = baddr i b ` {..< nblocks i}"

definition span :: "nat \<Rightarrow> u32 \<Rightarrow> nat set" where
  "span i b = {unat b ..< unat b + 4096 * 2 ^ bucket_order i}"

text \<open>A board fits below the end of the address space.\<close>

definition board_fits :: "nat \<Rightarrow> u32 \<Rightarrow> bool" where
  "board_fits i b \<longleftrightarrow> i < 14 \<and> 0x80000000 \<le> unat b \<and> unat b + 4096 * 2 ^ bucket_order i \<le> 2 ^ 32"

lemma span_hit:
  assumes "board_fits i b" "a - b < push_bit (bucket_order i) 4096"
  shows "unat a \<in> span i b"
proof -
  have i: "i < 14" and top: "0x80000000 \<le> unat b" "unat b + 4096 * 2 ^ bucket_order i \<le> 2 ^ 32"
    using assms(1) by (auto simp: board_fits_def)
  have "unat (push_bit (bucket_order i) 4096 :: u32) = 4096 * 2 ^ bucket_order i"
    using i unfolding less_14 by (auto simp: bucket_order_def buckets_def)
  then have lt: "unat (a - b) < 4096 * 2 ^ bucket_order i" using assms(2) by (simp add: word_less_nat_alt)
  show ?thesis
  proof (cases "unat b \<le> unat a")
    case True
    then show ?thesis using lt by (simp add: span_def unat_sub word_le_nat_alt)
  next
    case False
    then have "unat (a - b) = 2 ^ 32 + unat a - unat b"
      by (simp add: unat_sub_if')
    then show ?thesis using lt top unsigned_less [of b] by simp
  qed
qed

lemma unat_baddr:
  assumes "board_fits i b" "n < nblocks i"
  shows "unat (baddr i b n) = unat b + 16 + n * unat (block_size i)"
    "unat (baddr i b n) + unat (block_size i) \<le> unat b + 4096 * 2 ^ bucket_order i"
proof -
  have i: "i < 14" and top: "unat b + 4096 * 2 ^ bucket_order i \<le> 2 ^ 32" using assms(1) by (auto simp: board_fits_def)
  have "Suc n * unat (block_size i) \<le> nblocks i * unat (block_size i)"
    using assms(2) by (intro mult_le_mono1) simp
  then have le: "16 + (n * unat (block_size i) + unat (block_size i)) \<le> 4096 * 2 ^ bucket_order i"
    using bucket_bounds(4) [OF i] by simp
  have small: "n < 2 ^ 32" using assms(2) bucket_bounds(3) [OF i] by simp
  have "unat (of_nat n * block_size i) = n * unat (block_size i)"
    using le top small bucket_bounds(1) [OF i]
    by (simp add: unat_word_ariths unsigned_of_nat take_bit_eq_mod)
  then show eq: "unat (baddr i b n) = unat b + 16 + n * unat (block_size i)"
    using le top bucket_bounds(1) [OF i] unfolding baddr_def by (simp add: unat_word_ariths)
  show "unat (baddr i b n) + unat (block_size i) \<le> unat b + 4096 * 2 ^ bucket_order i"
    using le unfolding eq by simp
qed

lemma baddr_Suc: "baddr i b (Suc n) = baddr i b n + block_size i"
  by (simp add: baddr_def algebra_simps)

lemma baddr_inj:
  assumes "board_fits i b"
  shows "inj_on (baddr i b) {..< nblocks i}"
proof (rule inj_onI)
  fix n m assume nm: "n \<in> {..< nblocks i}" "m \<in> {..< nblocks i}" "baddr i b n = baddr i b m"
  then have "n * unat (block_size i) = m * unat (block_size i)"
    using unat_baddr(1) [OF assms, of n] unat_baddr(1) [OF assms, of m] by auto
  then show "n = m" using bucket_bounds(1) [of i] assms by (simp add: board_fits_def)
qed

lemma block_addrs_span:
  assumes "board_fits i b" "a \<in> block_addrs i b"
  shows "unat a \<in> span i b" "a \<noteq> 0" "a \<noteq> b" "unat a + unat (block_size i) \<le> unat b + 4096 * 2 ^ bucket_order i"
    "unat b + 16 \<le> unat a"
proof -
  obtain n where n: "n < nblocks i" "a = baddr i b n" using assms(2) by (auto simp: block_addrs_def)
  note u = unat_baddr [OF assms(1) n(1), folded n(2)]
  have bs: "20 < unat (block_size i)" "0x80000000 \<le> unat b"
    using assms(1) bucket_bounds(1) by (auto simp: board_fits_def)
  show "unat a \<in> span i b" "unat a + unat (block_size i) \<le> unat b + 4096 * 2 ^ bucket_order i" "unat b + 16 \<le> unat a"
    using u bs by (auto simp: span_def)
  show "a \<noteq> b" "a \<noteq> 0" using u(1) bs by auto
qed

text \<open>Two blocks of a board do not overlap.\<close>

lemma block_addrs_apart:
  assumes "board_fits i b" "a \<in> block_addrs i b" "a' \<in> block_addrs i b" "a \<noteq> a'"
  shows "unat a + unat (block_size i) \<le> unat a' \<or> unat a' + unat (block_size i) \<le> unat a"
proof -
  obtain n m where n: "n < nblocks i" "a = baddr i b n" and m: "m < nblocks i" "a' = baddr i b m"
    using assms(2,3) by (auto simp: block_addrs_def)
  have gap: "x < y \<Longrightarrow> x * unat (block_size i) + unat (block_size i) \<le> y * unat (block_size i)" for x y :: nat
    using mult_le_mono1 [of "Suc x" y "unat (block_size i)"] by simp
  have "n \<noteq> m" using assms(4) n m by auto
  then have "n < m \<or> m < n" by auto
  then show ?thesis
    using gap [of n m] gap [of m n] unat_baddr(1) [OF assms(1) n(1)] unat_baddr(1) [OF assms(1) m(1)] n m by auto
qed

text \<open>Linked lists: following \<open>nxt\<close> from \<open>p\<close> visits \<open>xs\<close> and ends at the null pointer.\<close>

fun lpath :: "(u32 \<Rightarrow> u32) \<Rightarrow> u32 \<Rightarrow> u32 list \<Rightarrow> bool" where
  "lpath nxt p [] \<longleftrightarrow> p = 0"
| "lpath nxt p (x # xs) \<longleftrightarrow> p = x \<and> x \<noteq> 0 \<and> lpath nxt (nxt x) xs"

lemma lpath_cong:
  "(\<And>x. x \<in> set xs \<Longrightarrow> nxt x = nxt' x) \<Longrightarrow> lpath nxt p xs \<longleftrightarrow> lpath nxt' p xs"
  by (induction nxt p xs rule: lpath.induct) auto

lemma lpath_frame:
  "lpath nxt p xs \<Longrightarrow> (\<And>x. x \<in> set xs \<Longrightarrow> nxt' x = nxt x) \<Longrightarrow> lpath nxt' p xs"
  using lpath_cong [of xs nxt nxt' p] by simp

lemma lpath_head: "lpath nxt p xs \<Longrightarrow> p \<noteq> 0 \<Longrightarrow> \<exists>ys. xs = p # ys"
  by (cases xs) auto

lemma lpath_null: "lpath nxt 0 xs \<longleftrightarrow> xs = []"
  by (cases xs) auto

lemma lpath_map:
  assumes "\<And>m. m < n \<Longrightarrow> f m \<noteq> 0" "\<And>m. Suc m < n \<Longrightarrow> nxt (f m) = f (Suc m)" "0 < n \<Longrightarrow> nxt (f (n - 1)) = 0"
  shows "j < n \<Longrightarrow> lpath nxt (f j) (map f [j ..< n])"
proof (induction "n - j" arbitrary: j)
  case (Suc d)
  show ?case
  proof (cases "Suc j < n")
    case True
    then show ?thesis using Suc assms(1,2) by (simp add: upt_conv_Cons)
  next
    case False
    then have "j = n - 1" "0 < n" using Suc.prems by auto
    then show ?thesis using assms(1) [of j] assms(3) Suc.prems by (simp add: upt_conv_Cons)
  qed
qed simp

lemma unat_step:
  assumes "unat (a::u32) + n * unat bs < 2 ^ 32" "m \<le> n" "bs \<noteq> 0"
  shows "unat (a + of_nat m * bs) = unat a + m * unat bs"
proof -
  have "0 < unat bs" using assms(3) by (simp add: unat_gt_0)
  then have "m \<le> m * unat bs" by simp
  moreover have "m * unat bs \<le> n * unat bs" using assms(2) by simp
  ultimately have "m * unat bs < 2 ^ 32" "m < 2 ^ 32"
    using assms(1) by linarith+
  moreover have "unat a + m * unat bs < 2 ^ 32"
    using assms(1) \<open>m * unat bs \<le> n * unat bs\<close> by linarith
  ultimately show ?thesis by (simp add: unat_word_ariths unsigned_of_nat take_bit_eq_mod)
qed

lemma link_blocks_eq:
  assumes "unat a + n * unat bs < 2 ^ 32" "bs \<noteq> 0"
  shows "link_blocks n bs b a h x =
    (if \<exists>m \<le> n. x = a + of_nat m * bs
     then (h x)\<lparr>bk_board := b, bk_next := if x = a + of_nat n * bs then 0 else x + bs\<rparr> else h x)"
  using assms
proof (induction n arbitrary: a h)
  case 0
  then show ?case by auto
next
  case (Suc n)
  have pos: "0 < unat bs" using assms(2) by (simp add: unat_gt_0)
  have ua: "unat (a + bs) = unat a + unat bs"
    using Suc.prems(1) by (simp add: unat_word_ariths)
  have shift: "a + bs + of_nat m * bs = a + of_nat (Suc m) * bs" for m by (simp add: algebra_simps)
  have away: "a + of_nat (Suc m) * bs \<noteq> a" if "m \<le> n" for m
    using unat_step [OF Suc.prems(1) _ Suc.prems(2), of "Suc m"] that pos by auto
  have ex: "(\<exists>m \<le> Suc n. x = a + of_nat m * bs) \<longleftrightarrow> x = a \<or> (\<exists>m \<le> n. x = a + of_nat (Suc m) * bs)"
    by (metis Suc_le_mono add.right_neutral le0 mult_zero_left not0_implies_Suc of_nat_0)
  show ?case
    using Suc.IH [of "a + bs"] Suc.prems ua ex away unfolding link_blocks.simps shift
    by (auto simp: shift)
qed

section \<open>Invariant\<close>

text \<open>\<open>L\<close> gives the bucket of each board the allocator owns. The boards are held in the
  buddy allocator and do not overlap.\<close>

definition live_ok :: "(u32 \<Rightarrow> nat option) \<Rightarrow> buddy \<Rightarrow> bool" where
  "live_ok L s \<longleftrightarrow> buddy_inv s \<and> merged s \<and> max_pfn s \<le> 2 ^ 19 \<and>
     (\<forall>b i. L b = Some i \<longrightarrow> i < 14 \<and> PAGE_TO_VIR (VIR_TO_PAGE b) = b \<and> held s (bucket_order i) (VIR_TO_PAGE b)) \<and>
     (\<forall>b i b' i'. L b = Some i \<longrightarrow> L b' = Some i' \<longrightarrow> b \<noteq> b' \<longrightarrow>
        block (bucket_order i) (VIR_TO_PAGE b) \<inter> block (bucket_order i') (VIR_TO_PAGE b') = {})"

lemma live_page:
  assumes "live_ok L s" "L b = Some i"
  shows "unat b = 2147483648 + VIR_TO_PAGE b * 4096" "VIR_TO_PAGE b + 2 ^ bucket_order i \<le> 2 ^ 19" "i < 14"
proof -
  have *: "i < 14" "PAGE_TO_VIR (VIR_TO_PAGE b) = b" "held s (bucket_order i) (VIR_TO_PAGE b)" "max_pfn s \<le> 2 ^ 19"
    using assms by (auto simp: live_ok_def)
  then show le: "VIR_TO_PAGE b + 2 ^ bucket_order i \<le> 2 ^ 19" by (auto simp: held_def block_ok_def)
  then have "VIR_TO_PAGE b < 2 ^ 19" by (meson less_le_trans less_add_same_cancel1 zero_less_numeral zero_less_power)
  then show "unat b = 2147483648 + VIR_TO_PAGE b * 4096" "i < 14"
    using PAGE_TO_VIR_bounds [of "VIR_TO_PAGE b"] * by auto
qed

lemma live_fits: "live_ok L s \<Longrightarrow> L b = Some i \<Longrightarrow> board_fits i b"
  using live_page [of L s b i] by (auto simp: board_fits_def)

lemma block_disjointD:
  assumes "block n p \<inter> block m q = {}"
  shows "p + 2 ^ n \<le> q \<or> q + 2 ^ m \<le> p"
proof (rule ccontr)
  assume "\<not> ?thesis"
  then have "max p q \<in> block n p \<inter> block m q" by (auto simp: block_def)
  with assms show False by simp
qed

lemma live_spans:
  assumes "live_ok L s" "L b = Some i" "L b' = Some i'" "b \<noteq> b'"
  shows "span i b \<inter> span i' b' = {}"
proof -
  have "block (bucket_order i) (VIR_TO_PAGE b) \<inter> block (bucket_order i') (VIR_TO_PAGE b') = {}"
    using assms unfolding live_ok_def by blast
  then have "VIR_TO_PAGE b + 2 ^ bucket_order i \<le> VIR_TO_PAGE b' \<or> VIR_TO_PAGE b' + 2 ^ bucket_order i' \<le> VIR_TO_PAGE b"
    by (rule block_disjointD)
  then show ?thesis
    using live_page(1) [OF assms(1,2)] live_page(1) [OF assms(1,3)] by (auto simp: span_def)
qed

lemma live_alloc:
  assumes "live_ok L s" "i < 14"
  obtains (fail) "pages_alloc pid s (bucket_order i) = Some (0, s)"
  | (succ) b s' where "pages_alloc pid s (bucket_order i) = Some (b, s')" "b \<noteq> 0" "L b = None" "live_ok (L(b \<mapsto> i)) s'"
proof -
  have o: "bucket_order i < MAX_ORDER" using bucket_bounds(5) [OF assms(2)] by (simp add: MAX_ORDER_def)
  have inv: "buddy_inv s" "merged s" using assms(1) by (auto simp: live_ok_def)
  from inv o show thesis
  proof (cases rule: alloc_pages_law [of s "bucket_order i" pid])
    case fail
    then show ?thesis by (intro that(1)) (simp add: pages_alloc_def)
  next
    case (succ p s')
    note law = pa.alloc_frame [of s "bucket_order i" pid p s', OF _ o succ(1)]
    have pm: "p + 2 ^ bucket_order i \<le> max_pfn s" using succ(4,8) by (auto simp: held_def block_ok_def)
    moreover have mx: "max_pfn s \<le> 2 ^ 19" using assms(1) by (simp add: live_ok_def)
    ultimately have p: "p < 2 ^ 19" by (meson less_le_trans less_add_same_cancel1 zero_less_numeral zero_less_power)
    have vp: "VIR_TO_PAGE (PAGE_TO_VIR p) = p" by (rule VIR_TO_PAGE_inverse [OF p])
    have apart: "block (bucket_order i) p \<inter> block (bucket_order i') (VIR_TO_PAGE b) = {}" if "L b = Some i'" for b i'
      using that assms(1) succ(5) by (fastforce simp: live_ok_def held_def)
    have "p \<in> block (bucket_order i) p" by (simp add: block_def)
    then have fresh: "L (PAGE_TO_VIR p) = None"
      using apart [of "PAGE_TO_VIR p"] vp by (cases "L (PAGE_TO_VIR p)") (auto simp: block_def)
    have "live_ok (L(PAGE_TO_VIR p \<mapsto> i)) s'"
      using assms succ law inv apart vp mx unfolding live_ok_def by (auto simp: Int_commute)
    moreover have "PAGE_TO_VIR p \<noteq> 0" using PAGE_TO_VIR_bounds [OF p] by (metis add_is_0 unat_0 zero_neq_numeral)
    ultimately show ?thesis
      using succ(1) fresh by (intro that(2) [of "PAGE_TO_VIR p" s']) (simp_all add: pages_alloc_def)
  qed
qed

lemma live_free:
  assumes "live_ok L s" "L b = Some i"
  obtains s' where "pages_free pid s b (bucket_order i) = Some s'" "live_ok (L(b := None)) s'"
proof -
  have inv: "buddy_inv s" "merged s" and h: "held s (bucket_order i) (VIR_TO_PAGE b)"
    using assms by (auto simp: live_ok_def)
  obtain s' where s': "free_pages pid s (VIR_TO_PAGE b) (bucket_order i) = Some s'" "buddy_inv s'" "merged s'"
    "max_pfn s' = max_pfn s"
    by (rule free_pages_law [OF inv h])
  note law = pa.release_frame [of s "bucket_order i" "VIR_TO_PAGE b" pid s', OF _ h s'(1)]
  have "live_ok (L(b := None)) s'"
    using assms s' inv law unfolding live_ok_def by (auto split: if_splits)
  with s'(1) show thesis by (intro that) (simp_all add: pages_free_def)
qed

text \<open>\<open>A\<close> is the set of the blocks in use. A board knows its bucket, its blocks know their
  board, its free list holds exactly its blocks that are not in use.\<close>

definition board_ok :: "kheap \<Rightarrow> u32 set \<Rightarrow> nat \<Rightarrow> u32 \<Rightarrow> bool" where
  "board_ok k A i b \<longleftrightarrow> bd_bucket (boards k b) = i \<and> (\<forall>a \<in> block_addrs i b. bk_board (blocks k a) = b) \<and>
     (\<exists>fl. lpath (\<lambda>a. bk_next (blocks k a)) (bd_firstfree (boards k b)) fl \<and> distinct fl \<and>
        set fl = block_addrs i b - A \<and> bd_nfree (boards k b) = of_nat (length fl))"

definition used_ok :: "kheap \<Rightarrow> nat \<Rightarrow> u32 \<Rightarrow> bool" where
  "used_ok k i a \<longleftrightarrow> bk_magic (blocks k a) = KMALLOC_MAGIC_ALLOC \<and> 0 < unat (bk_size (blocks k a)) \<and>
     unat (bk_size (blocks k a)) + 20 \<le> unat (block_size i) \<and>
     redzone k (a + 16 + bk_size (blocks k a)) = KMALLOC_REDZONE_VALUE"

text \<open>The chain of a bucket holds exactly its boards with a free block.\<close>

definition chain_ok :: "kheap \<Rightarrow> (u32 \<Rightarrow> nat option) \<Rightarrow> nat \<Rightarrow> bool" where
  "chain_ok k L i \<longleftrightarrow> (\<exists>ch. lpath (\<lambda>b. bd_next (boards k b)) (firstfree k i) ch \<and> distinct ch \<and>
     set ch = {b. L b = Some i \<and> bd_nfree (boards k b) \<noteq> 0})"

text \<open>The invariant but for the boards \<open>X\<close>, which may have no block in use.\<close>

definition kcore :: "kheap \<Rightarrow> (u32 \<Rightarrow> nat option) \<Rightarrow> u32 set \<Rightarrow> u32 set \<Rightarrow> bool" where
  "kcore k L A X \<longleftrightarrow> live_ok L (bud k) \<and>
     (\<forall>b i. L b = Some i \<longrightarrow> board_ok k A i b) \<and>
     (\<forall>b i. L b = Some i \<longrightarrow> b \<notin> X \<longrightarrow> block_addrs i b \<inter> A \<noteq> {}) \<and>
     (\<forall>a \<in> A. \<exists>b i. L b = Some i \<and> a \<in> block_addrs i b \<and> used_ok k i a) \<and>
     (\<forall>i < 14. chain_ok k L i)"

definition kinv :: "kheap \<Rightarrow> (u32 \<Rightarrow> nat option) \<Rightarrow> u32 set \<Rightarrow> bool" where
  "kinv k L A \<longleftrightarrow> kcore k L A {}"

lemma kcoreD:
  assumes "kcore k L A X"
  shows "live_ok L (bud k)" "L b = Some i \<Longrightarrow> board_ok k A i b"
    "L b = Some i \<Longrightarrow> b \<notin> X \<Longrightarrow> block_addrs i b \<inter> A \<noteq> {}"
    "a \<in> A \<Longrightarrow> \<exists>b i. L b = Some i \<and> a \<in> block_addrs i b \<and> used_ok k i a"
    "i < 14 \<Longrightarrow> chain_ok k L i"
  using assms by (auto simp: kcore_def)

lemma kcoreI:
  assumes "live_ok L (bud k)" "\<And>b i. L b = Some i \<Longrightarrow> board_ok k A i b"
    "\<And>b i. L b = Some i \<Longrightarrow> b \<notin> X \<Longrightarrow> block_addrs i b \<inter> A \<noteq> {}"
    "\<And>a. a \<in> A \<Longrightarrow> \<exists>b i. L b = Some i \<and> a \<in> block_addrs i b \<and> used_ok k i a"
    "\<And>i. i < 14 \<Longrightarrow> chain_ok k L i"
  shows "kcore k L A X"
  using assms by (auto simp: kcore_def)

lemma kcore_busy:
  assumes core: "kcore k L A {b}" and busy: "\<And>i. L b = Some i \<Longrightarrow> block_addrs i b \<inter> A \<noteq> {}"
  shows "kcore k L A {}"
proof (rule kcoreI [OF kcoreD(1) [OF core] kcoreD(2) [OF core]])
  show "block_addrs i b' \<inter> A \<noteq> {}" if "L b' = Some i" for b' i
    using kcoreD(3) [OF core that] busy that by (cases "b' = b") simp_all
qed (use kcoreD(4,5) [OF core] in blast)+

lemma blocks_disjoint:
  assumes "live_ok L s" "L b = Some i" "L b' = Some i'" "a \<in> block_addrs i b" "a \<in> block_addrs i' b'"
  shows "b = b'" "i = i'"
proof -
  show "b = b'"
    using live_spans [OF assms(1-3)] block_addrs_span(1) [OF live_fits [OF assms(1,2)] assms(4)]
      block_addrs_span(1) [OF live_fits [OF assms(1,3)] assms(5)] by blast
  then show "i = i'" using assms(2,3) by simp
qed

lemma card_block_addrs: "board_fits i b \<Longrightarrow> card (block_addrs i b) = nblocks i" "finite (block_addrs i b)"
  unfolding block_addrs_def by (simp_all add: card_image baddr_inj)

lemma find_bucket_law:
  assumes "find_bucket buckets 0 sz = Some i" "unat sz < 2 ^ 32 - 4"
  shows "i < 14" "unat sz + 20 \<le> unat (block_size i)"
proof -
  have u: "unat (sz + 4) = unat sz + 4" using assms(2) by (simp add: unat_word_ariths)
  show "i < 14" "unat sz + 20 \<le> unat (block_size i)"
    using assms(1) u
    by (auto simp: buckets_def KMALLOC_REDZONE_SIZE_def KMALLOC_USER_OFFSET_def block_size_def word_le_nat_alt split: if_splits)
qed

lemma board_ok_frame:
  assumes "board_ok k A i b" "boards k' b = boards k b"
    "\<And>a. a \<in> block_addrs i b \<Longrightarrow> bk_board (blocks k' a) = bk_board (blocks k a) \<and> bk_next (blocks k' a) = bk_next (blocks k a)"
    "A' \<inter> block_addrs i b = A \<inter> block_addrs i b"
  shows "board_ok k' A' i b"
proof -
  obtain fl where fl: "lpath (\<lambda>a. bk_next (blocks k a)) (bd_firstfree (boards k b)) fl" "distinct fl"
    "set fl = block_addrs i b - A" "bd_nfree (boards k b) = of_nat (length fl)"
    using assms(1) by (auto simp: board_ok_def)
  have "lpath (\<lambda>a. bk_next (blocks k' a)) (bd_firstfree (boards k b)) fl"
    using fl(1) lpath_cong [of fl "\<lambda>a. bk_next (blocks k' a)" "\<lambda>a. bk_next (blocks k a)"] assms(3) fl(3) by auto
  moreover have "set fl = block_addrs i b - A'" using fl(3) assms(4) by blast
  ultimately show ?thesis using fl(2,4) assms(1,2,3) unfolding board_ok_def by auto
qed

lemma chain_ok_frame:
  assumes "chain_ok k L i" "firstfree k' i = firstfree k i"
    "\<And>b. L b = Some i \<Longrightarrow> bd_next (boards k' b) = bd_next (boards k b) \<and> (bd_nfree (boards k' b) = 0 \<longleftrightarrow> bd_nfree (boards k b) = 0)"
    "\<And>b. L' b = Some i \<longleftrightarrow> L b = Some i"
  shows "chain_ok k' L' i"
proof -
  obtain ch where ch: "lpath (\<lambda>b. bd_next (boards k b)) (firstfree k i) ch" "distinct ch"
     "set ch = {b. L b = Some i \<and> bd_nfree (boards k b) \<noteq> 0}"
    using assms(1) by (auto simp: chain_ok_def)
  have "lpath (\<lambda>b. bd_next (boards k' b)) (firstfree k' i) ch"
    using ch(1) lpath_cong [of ch "\<lambda>b. bd_next (boards k' b)" "\<lambda>b. bd_next (boards k b)"] assms(2,3) ch(3) by auto
  moreover have "set ch = {b. L' b = Some i \<and> bd_nfree (boards k' b) \<noteq> 0}" using ch(3) assms(3,4) by auto
  ultimately show ?thesis using ch(2) unfolding chain_ok_def by blast
qed

text \<open>The blocks of a new board are linked in order and all free.\<close>

lemma link_board:
  fixes h :: "u32 \<Rightarrow> block_header"
  assumes fits: "board_fits i b"
  defines "h' \<equiv> link_blocks (nblocks i - 1) (block_size i) b (b + 16) h"
  shows "a \<notin> block_addrs i b \<Longrightarrow> h' a = h a"
    "a \<in> block_addrs i b \<Longrightarrow> bk_board (h' a) = b"
    "lpath (\<lambda>a. bk_next (h' a)) (b + 16) (map (baddr i b) [0 ..< nblocks i])"
proof -
  have i: "i < 14" using fits by (simp add: board_fits_def)
  have n: "0 < nblocks i" "20 < unat (block_size i)" using bucket_bounds [OF i] by auto
  have bs: "block_size i \<noteq> 0" using n(2) by auto
  have ub: "unat (b + 16) = unat b + 16"
    using unat_baddr(1) [OF fits n(1)] by (simp add: baddr_def)
  have lim: "unat (b + 16) + (nblocks i - 1) * unat (block_size i) < 2 ^ 32"
    using unat_baddr [OF fits, of "nblocks i - 1"] n fits ub unfolding board_fits_def by simp
  have "m \<le> nblocks i - 1 \<longleftrightarrow> m < nblocks i" for m using n(1) by auto
  then have mem: "(\<exists>m \<le> nblocks i - 1. x = b + 16 + of_nat m * block_size i) \<longleftrightarrow> x \<in> block_addrs i b" for x
    by (simp add: block_addrs_def baddr_def image_iff Bex_def)
  note eq = link_blocks_eq [OF lim bs, of b h, folded h'_def, unfolded mem]
  show "a \<notin> block_addrs i b \<Longrightarrow> h' a = h a" "a \<in> block_addrs i b \<Longrightarrow> bk_board (h' a) = b"
    by (simp_all add: eq)
  have inb: "baddr i b m \<in> block_addrs i b" if "m < nblocks i" for m using that by (simp add: block_addrs_def)
  have last: "baddr i b m = b + 16 + of_nat (nblocks i - 1) * block_size i \<longleftrightarrow> m = nblocks i - 1" if "m < nblocks i" for m
    using that n(1) inj_onD [OF baddr_inj [OF fits], of m "nblocks i - 1"] by (auto simp: baddr_def)
  have "lpath (\<lambda>a. bk_next (h' a)) (baddr i b 0) (map (baddr i b) [0 ..< nblocks i])"
  proof (rule lpath_map)
    show "baddr i b m \<noteq> 0" if "m < nblocks i" for m
      using block_addrs_span(2) [OF fits] that by (auto simp: block_addrs_def)
    show "bk_next (h' (baddr i b m)) = baddr i b (Suc m)" if "Suc m < nblocks i" for m
      using that last [of m] eq [of "baddr i b m"] inb [of m] by (auto simp: baddr_Suc)
    show "bk_next (h' (baddr i b (nblocks i - 1))) = 0"
      using n(1) last [of "nblocks i - 1"] eq [of "baddr i b (nblocks i - 1)"] inb [of "nblocks i - 1"] by simp
  qed (rule n(1))
  then show "lpath (\<lambda>a. bk_next (h' a)) (b + 16) (map (baddr i b) [0 ..< nblocks i])"
    by (simp add: baddr_def)
qed

lemma alloc_board_law:
  assumes inv: "kcore k L A {}" and i: "i < 14" and none: "firstfree k i = 0"
  obtains (fail) "alloc_board pid k i = Some (0, k)"
  | (succ) b k' where "alloc_board pid k i = Some (b, k')" "b \<noteq> 0"
     "kcore (k'\<lparr>firstfree := (firstfree k')(i := b)\<rparr>) (L(b \<mapsto> i)) A {b}"
proof -
  have live: "live_ok L (bud k)" using inv by (rule kcoreD)
  from live i show thesis
  proof (cases rule: live_alloc [of L "bud k" i pid])
    case fail
    then show ?thesis by (intro that(1)) (simp add: alloc_board_def)
  next
    case (succ b s)
    define h where "h = link_blocks (nblocks i - 1) (block_size i) b (b + 16) (blocks k)"
    define k' where "k' = k\<lparr>bud := s, blocks := h,
      boards := (boards k)(b := \<lparr>bd_nfree = of_nat (nblocks i), bd_firstfree = b + 16,
                 bd_bucket = i, bd_next = firstfree k i\<rparr>)\<rparr>"
    let ?k = "k'\<lparr>firstfree := (firstfree k')(i := b)\<rparr>"
    note live' = succ(4)
    have fits: "board_fits i b" using live_fits [OF live', of b i] by simp
    note link = link_board [where h = "blocks k", OF fits, folded h_def]
    have apart: "block_addrs i b \<inter> block_addrs i' b' = {}" if "L b' = Some i'" for b' i'
    proof -
      have "b \<noteq> b'" "(L(b \<mapsto> i)) b' = Some i'" using that succ(3) by auto
      then show ?thesis using blocks_disjoint(1) [OF live', of b i b' i'] by auto
    qed
    have noA: "a \<notin> A" if "a \<in> block_addrs i b" for a
      using that kcoreD(4) [OF inv, of a] apart by blast
    have nb: "(of_nat (nblocks i) :: u32) \<noteq> 0"
      using bucket_bounds(2,3) [OF i] of_nat_u32_eq_iff [of "nblocks i" 0] by simp
    have others: "board_ok ?k A i' b'" if "L b' = Some i'" for b' i'
    proof (rule board_ok_frame [of k A])
      show "board_ok k A i' b'" using inv that by (rule kcoreD(2))
      show "boards ?k b' = boards k b'" using that succ(3) by (auto simp: k'_def)
      fix a assume "a \<in> block_addrs i' b'"
      then have "a \<notin> block_addrs i b" using apart [OF that] by blast
      then show "bk_board (blocks ?k a) = bk_board (blocks k a) \<and> bk_next (blocks ?k a) = bk_next (blocks k a)"
        by (simp add: k'_def link(1))
    qed simp
    have "board_ok ?k A i b"
      unfolding board_ok_def using link(2,3) baddr_inj [OF fits] noA
      by (auto simp: k'_def distinct_map atLeast0LessThan block_addrs_def intro!: exI [of _ "map (baddr i b) [0..<nblocks i]"])
    moreover have "chain_ok ?k (L(b \<mapsto> i)) i" unfolding chain_ok_def
      using kcoreD(5) [OF inv i] none succ(2) nb
      by (intro exI [of _ "[b]"]) (auto simp: k'_def chain_ok_def lpath_null)
    moreover have "chain_ok ?k (L(b \<mapsto> i)) i'" if "i' < 14" "i' \<noteq> i" for i'
      by (rule chain_ok_frame [OF kcoreD(5) [OF inv that(1)]]) (use that succ(3) in \<open>auto simp: k'_def\<close>)
    moreover have "\<exists>b' i'. (L(b \<mapsto> i)) b' = Some i' \<and> a \<in> block_addrs i' b' \<and> used_ok ?k i' a" if a: "a \<in> A" for a
    proof -
      obtain b' i' where "L b' = Some i'" "a \<in> block_addrs i' b'" "used_ok k i' a"
        using kcoreD(4) [OF inv a] by blast
      moreover have "a \<notin> block_addrs i b" using a noA by blast
      ultimately show ?thesis
        using succ(3) by (intro exI [of _ b'] exI [of _ i']) (auto simp: used_ok_def k'_def link(1))
    qed
    moreover have "live_ok (L(b \<mapsto> i)) (bud ?k)" using live' by (simp add: k'_def)
    ultimately have "kcore ?k (L(b \<mapsto> i)) A {b}"
      using others kcoreD(3) [OF inv] by (intro kcoreI) (auto split: if_splits)
    with succ show ?thesis by (intro that(2) [of b k']) (simp_all add: alloc_board_def k'_def h_def Let_def)
  qed
qed

lemma board_nfree:
  assumes fits: "board_fits i b" and ok: "board_ok k A i b"
  shows "bd_nfree (boards k b) = of_nat (card (block_addrs i b - A))" "card (block_addrs i b - A) \<le> nblocks i"
    "nblocks i < 2 ^ 32"
proof -
  obtain fl where fl: "distinct fl" "set fl = block_addrs i b - A" "bd_nfree (boards k b) = of_nat (length fl)"
    using ok by (auto simp: board_ok_def)
  then show "bd_nfree (boards k b) = of_nat (card (block_addrs i b - A))" using distinct_card [of fl] by simp
  show "card (block_addrs i b - A) \<le> nblocks i"
    using card_mono [of "block_addrs i b" "block_addrs i b - A"] card_block_addrs(1) [OF fits] card_block_addrs(2) by auto
  show "nblocks i < 2 ^ 32" using bucket_bounds(3) [of i] fits by (simp add: board_fits_def)
qed

text \<open>When \<^verbatim>\<open>kfree\<close> empties a board of several blocks, the board must be the first of its
  chain: the code removes the head.\<close>

definition kfree_safe :: "kheap \<Rightarrow> u32 \<Rightarrow> bool" where
  "kfree_safe k ptr \<longleftrightarrow>
     (let board = bk_board (blocks k (ptr - 16)); bucket = bd_bucket (boards k board)
      in bd_nfree (boards k board) + 1 = of_nat (nblocks bucket) \<longrightarrow> nblocks bucket = 1 \<or> firstfree k bucket = board)"

lemma take_block_law:
  assumes core: "kcore k L A X" and i: "i < 14" and head: "firstfree k i \<noteq> 0" and X: "X \<subseteq> {firstfree k i}"
    and sz: "unat sz + 20 \<le> unat (block_size i)" "sz \<noteq> 0"
  obtains k' a where "take_block pid k i sz = (a + 16, k')" "a \<in> block_addrs i (firstfree k i)" "L (firstfree k i) = Some i"
    "a \<notin> A" "kcore k' L (insert a A) {}" "bk_size (blocks k' a) = sz" "kfree_safe k' (a + 16)"
proof -
  define b where "b = firstfree k i"
  obtain ch where ch: "lpath (\<lambda>b. bd_next (boards k b)) b ch" "distinct ch" "set ch = {b. L b = Some i \<and> bd_nfree (boards k b) \<noteq> 0}"
    using kcoreD(5) [OF core i] unfolding chain_ok_def b_def by blast
  obtain rest where rest: "ch = b # rest" using lpath_head [OF ch(1)] head by (auto simp: b_def)
  then have Lb: "L b = Some i" and nf: "bd_nfree (boards k b) \<noteq> 0" using ch(3) by auto
  have live: "live_ok L (bud k)" by (rule kcoreD(1) [OF core])
  note fits = live_fits [OF live Lb]
  obtain fl where fl: "lpath (\<lambda>a. bk_next (blocks k a)) (bd_firstfree (boards k b)) fl" "distinct fl"
     "set fl = block_addrs i b - A" "bd_nfree (boards k b) = of_nat (length fl)" and bo: "bd_bucket (boards k b) = i"
    "\<forall>a \<in> block_addrs i b. bk_board (blocks k a) = b"
    using kcoreD(2) [OF core Lb] by (auto simp: board_ok_def)
  obtain a fl' where fl': "fl = a # fl'" using fl(4) nf by (cases fl) auto
  have a: "bd_firstfree (boards k b) = a" "a \<in> block_addrs i b" "a \<notin> A" using fl fl' by auto
  have len: "length fl' < 2 ^ 32"
    using board_nfree(2,3) [OF fits kcoreD(2) [OF core Lb]] distinct_card [OF fl(2)] fl(3) fl' by simp
  have nfree: "bd_nfree (boards k b) - 1 = of_nat (length fl')" using fl(4) fl' by simp
  have nz: "(of_nat (length fl') :: u32) = 0 \<longleftrightarrow> fl' = []" using of_nat_u32_eq_iff [OF len, of 0] by simp
  define k' where "k' = k\<lparr>
    firstfree := if fl' = [] then (firstfree k)(i := bd_next (boards k b)) else firstfree k,
    blocks := (blocks k)(a := (blocks k a)\<lparr>bk_magic := KMALLOC_MAGIC_ALLOC, bk_owner := pid, bk_size := sz\<rparr>),
    boards := (boards k)(b := (boards k b)\<lparr>bd_nfree := of_nat (length fl'), bd_firstfree := bk_next (blocks k a)\<rparr>),
    redzone := (redzone k)(a + 16 + sz := KMALLOC_REDZONE_VALUE)\<rparr>"
  have res: "take_block pid k i sz = (a + 16, k')"
    unfolding take_block_def Let_def b_def [symmetric] a(1)
    by (simp add: nfree nz k'_def KMALLOC_USER_OFFSET_def)
  have nexts: "bk_next (blocks k' x) = bk_next (blocks k x)" "bk_board (blocks k' x) = bk_board (blocks k x)" for x
    by (simp_all add: k'_def)
  have others: "board_ok k' (insert a A) i' b'" if "L b' = Some i'" "b' \<noteq> b" for b' i'
    by (rule board_ok_frame [OF kcoreD(2) [OF core that(1)]])
      (use that blocks_disjoint(1) [OF live Lb that(1) a(2)] in \<open>auto simp: nexts\<close>, simp add: k'_def)
  have "lpath (\<lambda>x. bk_next (blocks k' x)) (bd_firstfree (boards k' b)) fl'"
    using fl(1) fl' unfolding nexts by (simp add: k'_def)
  then have own: "board_ok k' (insert a A) i b"
    using fl fl' bo unfolding board_ok_def nexts by (auto simp: k'_def intro!: exI [of _ fl'])
  have chain: "chain_ok k' L i"
  proof -
    have "lpath (\<lambda>b. bd_next (boards k' b)) p xs = lpath (\<lambda>b. bd_next (boards k b)) p xs" for p xs
      by (rule lpath_cong) (simp add: k'_def)
    then show ?thesis unfolding chain_ok_def
      using ch rest nz Lb by (intro exI [of _ "if fl' = [] then rest else ch"]) (auto simp: k'_def b_def)
  qed
  have chains: "chain_ok k' L i'" if "i' < 14" "i' \<noteq> i" for i'
    by (rule chain_ok_frame [OF kcoreD(5) [OF core that(1)]]) (use that Lb in \<open>auto simp: k'_def\<close>)
  have usedA: "used_ok k' i a"
    using sz by (simp add: used_ok_def k'_def unat_gt_0)
  have used: "\<exists>b i. L b = Some i \<and> x \<in> block_addrs i b \<and> used_ok k' i x" if "x \<in> A" for x
    using kcoreD(4) [OF core that] a(3) that by (fastforce simp: used_ok_def k'_def)
  have live': "live_ok L (bud k')" using live by (simp add: k'_def)
  have busy: "block_addrs i' b' \<inter> insert a A \<noteq> {}" if "L b' = Some i'" for b' i'
    using kcoreD(3) [OF core that] that X Lb a(2) by (cases "b' = b") (auto simp: b_def)
  have "kcore k' L (insert a A) {}"
  proof (rule kcoreI [OF live'])
    show "board_ok k' (insert a A) i' b'" if "L b' = Some i'" for b' i'
      using others [OF that] own that Lb by (cases "b' = b") simp_all
    show "\<exists>b i. L b = Some i \<and> x \<in> block_addrs i b \<and> used_ok k' i x" if "x \<in> insert a A" for x
      using that used [of x] usedA Lb a(2) by blast
    show "chain_ok k' L i'" if "i' < 14" for i' using that chain chains by (cases "i' = i") simp_all
  qed (rule busy)
  moreover have "kfree_safe k' (a + 16)"
    using bo a(2) nz bucket_bounds(3) [OF i] of_nat_u32_eq_iff [of 1 "nblocks i"]
    by (auto simp: kfree_safe_def k'_def b_def)
  ultimately show thesis
    using res a Lb by (intro that [of a k']) (simp_all add: b_def k'_def)
qed

lemma put_block_law:
  assumes core: "kcore k L A {}" and Lb: "L b = Some i" and a: "a \<in> block_addrs i b" "a \<in> A"
  defines "k' \<equiv> put_block k a"
  shows "kcore k' L (A - {a}) {b}" "bd_next (boards k' b) = (if bd_nfree (boards k b) = 0 then firstfree k i else bd_next (boards k b))"
    "firstfree k' = (if bd_nfree (boards k b) = 0 then (firstfree k)(i := b) else firstfree k)"
proof -
  have live: "live_ok L (bud k)" by (rule kcoreD(1) [OF core])
  note fits = live_fits [OF live Lb]
  have i: "i < 14" using fits by (simp add: board_fits_def)
  have a0: "a \<noteq> 0" by (rule block_addrs_span(2) [OF fits a(1)])
  have b0: "b \<noteq> 0" using fits by (auto simp: board_fits_def)
  obtain fl where fl: "lpath (\<lambda>a. bk_next (blocks k a)) (bd_firstfree (boards k b)) fl" "distinct fl"
     "set fl = block_addrs i b - A" "bd_nfree (boards k b) = of_nat (length fl)" and bo: "bd_bucket (boards k b) = i"
    "\<forall>a \<in> block_addrs i b. bk_board (blocks k a) = b"
    using kcoreD(2) [OF core Lb] by (auto simp: board_ok_def)
  obtain ch where ch: "lpath (\<lambda>b. bd_next (boards k b)) (firstfree k i) ch" "distinct ch" "set ch = {b. L b = Some i \<and> bd_nfree (boards k b) \<noteq> 0}"
    using kcoreD(5) [OF core i] unfolding chain_ok_def by blast
  let ?z = "bd_nfree (boards k b) = 0"
  have k': "k' = k\<lparr>
    firstfree := if ?z then (firstfree k)(i := b) else firstfree k,
    blocks := (blocks k)(a := (blocks k a)\<lparr>bk_magic := KMALLOC_MAGIC_FREED, bk_next := bd_firstfree (boards k b)\<rparr>),
    boards := (boards k)(b := (boards k b)\<lparr>bd_firstfree := a, bd_nfree := bd_nfree (boards k b) + 1,
       bd_next := if ?z then firstfree k i else bd_next (boards k b)\<rparr>)\<rparr>"
    using bo a unfolding k'_def put_block_def Let_def by auto
  show "bd_next (boards k' b) = (if ?z then firstfree k i else bd_next (boards k b))"
    "firstfree k' = (if ?z then (firstfree k)(i := b) else firstfree k)" by (simp_all add: k')
  have others: "board_ok k' (A - {a}) i' b'" if "L b' = Some i'" "b' \<noteq> b" for b' i'
    by (rule board_ok_frame [OF kcoreD(2) [OF core that(1)]])
      (use that blocks_disjoint(1) [OF live Lb that(1) a(1)] in \<open>auto simp: k'\<close>)
  have "lpath (\<lambda>x. bk_next (blocks k' x)) (bd_firstfree (boards k b)) fl"
    by (rule lpath_frame [OF fl(1)]) (use fl(3) a(2) in \<open>auto simp: k'\<close>)
  then have own: "board_ok k' (A - {a}) i b"
    unfolding board_ok_def using fl(2-4) a a0 bo
    by (intro conjI exI [of _ "a # fl"]) (auto simp: k')
  have nf: "(bd_nfree (boards k' x) = 0) = (bd_nfree (boards k x) = 0)" if "x \<noteq> b" for x using that by (simp add: k')
  have nfb: "bd_nfree (boards k' b) \<noteq> 0"
  proof -
    have "finite (block_addrs i b)" by (rule card_block_addrs)
    then have "card (block_addrs i b - (A - {a})) \<noteq> 0" using a by auto
    then show ?thesis
      using board_nfree [OF fits own] of_nat_u32_eq_iff [of "card (block_addrs i b - (A - {a}))" 0] by simp
  qed
  have chain: "chain_ok k' L i"
  proof -
    have "lpath (\<lambda>x. bd_next (boards k' x)) (firstfree k i) ch"
      by (rule lpath_frame [OF ch(1)]) (use ch(3) in \<open>auto simp: k'\<close>)
    then have "lpath (\<lambda>x. bd_next (boards k' x)) (firstfree k' i) (if ?z then b # ch else ch)"
      using b0 by (simp add: k')
    moreover have "set (if ?z then b # ch else ch) = {x. L x = Some i \<and> bd_nfree (boards k' x) \<noteq> 0}"
      using ch(3) Lb nf nfb by auto metis+
    ultimately show ?thesis
      using ch(2,3) unfolding chain_ok_def by (intro exI [of _ "if ?z then b # ch else ch"]) auto
  qed
  have chains: "chain_ok k' L i'" if "i' < 14" "i' \<noteq> i" for i'
    by (rule chain_ok_frame [OF kcoreD(5) [OF core that(1)]]) (use that Lb in \<open>auto simp: k'\<close>)
  have used: "\<exists>b i. L b = Some i \<and> x \<in> block_addrs i b \<and> used_ok k' i x" if "x \<in> A - {a}" for x
    using kcoreD(4) [OF core, of x] that by (fastforce simp: used_ok_def k')
  have live': "live_ok L (bud k')" using live by (simp add: k')
  show "kcore k' L (A - {a}) {b}"
  proof (rule kcoreI [OF live'])
    show "board_ok k' (A - {a}) i' b'" if "L b' = Some i'" for b' i'
      using others [OF that] own that Lb by (cases "b' = b") simp_all
    show "block_addrs i' b' \<inter> (A - {a}) \<noteq> {}" if "L b' = Some i'" "b' \<notin> {b}" for b' i'
      using kcoreD(3) [OF core that(1)] that blocks_disjoint(1) [OF live Lb that(1) a(1)] by blast
    show "chain_ok k' L i'" if "i' < 14" for i' using that chain chains by (cases "i' = i") simp_all
  qed (rule used)
qed

lemma free_board_law:
  assumes core: "kcore k L A {b}" and Lb: "L b = Some i" and empty: "block_addrs i b \<inter> A = {}" and head: "firstfree k i = b"
  obtains k' where "free_board pid (k\<lparr>firstfree := (firstfree k)(i := bd_next (boards k b))\<rparr>) b = Some k'"
    "kcore k' (L(b := None)) A {}"
proof -
  have live: "live_ok L (bud k)" by (rule kcoreD(1) [OF core])
  note fits = live_fits [OF live Lb]
  have i: "i < 14" and b0: "b \<noteq> 0" using fits by (auto simp: board_fits_def)
  have bi: "bd_bucket (boards k b) = i" using kcoreD(2) [OF core Lb] by (simp add: board_ok_def)
  obtain s' where s': "pages_free pid (bud k) b (bucket_order i) = Some s'" "live_ok (L(b := None)) s'"
    by (rule live_free [OF live Lb])
  define k' where "k' = poison b (push_bit (bucket_order i) 4096)
    (k\<lparr>firstfree := (firstfree k)(i := bd_next (boards k b)), bud := s'\<rparr>)"
  have res: "free_board pid (k\<lparr>firstfree := (firstfree k)(i := bd_next (boards k b))\<rparr>) b = Some k'"
    using s'(1) by (simp add: free_board_def bi k'_def Let_def)
  have same: "boards k' x = boards k x" "blocks k' x = blocks k x" "redzone k' x = redzone k x" if "unat x \<notin> span i b" for x
    using that span_hit [OF fits, of x] by (auto simp: k'_def poison_def Let_def)
  have away: "unat x \<notin> span i b" if "L b' = Some i'" "b' \<noteq> b" "unat x \<in> span i' b'" for x b' i'
    using live_spans [OF live Lb that(1)] that(2,3) by blast
  have self: "unat b' \<in> span i' b'" for b' i' by (simp add: span_def)
  have others: "board_ok k' A i' b'" if b': "L b' = Some i'" "b' \<noteq> b" for b' i'
  proof (rule board_ok_frame [OF kcoreD(2) [OF core b'(1)]])
    show "boards k' b' = boards k b'" by (rule same(1) [OF away [OF b' self]])
    show "bk_board (blocks k' x) = bk_board (blocks k x) \<and> bk_next (blocks k' x) = bk_next (blocks k x)"
      if x: "x \<in> block_addrs i' b'" for x
      using same(2) [OF away [OF b' block_addrs_span(1) [OF live_fits [OF live b'(1)] x]]] by simp
  qed simp
  have chain: "chain_ok k' (L(b := None)) i"
  proof -
    obtain ch where ch: "lpath (\<lambda>b. bd_next (boards k b)) b ch" "distinct ch" "set ch = {b. L b = Some i \<and> bd_nfree (boards k b) \<noteq> 0}"
      using kcoreD(5) [OF core i] head unfolding chain_ok_def by blast
    obtain rest where rest: "ch = b # rest" using lpath_head [OF ch(1) b0] by blast
    have eq: "boards k' x = boards k x" if "L x = Some i" "x \<noteq> b" for x using same(1) away [OF that self] by blast
    have in_rest: "x \<in> set rest \<longleftrightarrow> L x = Some i \<and> bd_nfree (boards k x) \<noteq> 0 \<and> x \<noteq> b" for x
      using ch(2,3) rest by auto
    have "firstfree k' i = bd_next (boards k b)" by (simp add: k'_def poison_def Let_def)
    then have "lpath (\<lambda>x. bd_next (boards k x)) (firstfree k' i) rest" using ch(1) rest by simp
    then have "lpath (\<lambda>x. bd_next (boards k' x)) (firstfree k' i) rest"
      by (rule lpath_frame) (simp add: eq in_rest)
    moreover have "set rest = {x. (L(b := None)) x = Some i \<and> bd_nfree (boards k' x) \<noteq> 0}"
      using in_rest eq by auto
    ultimately show ?thesis unfolding chain_ok_def using ch(2) rest by auto
  qed
  have chains: "chain_ok k' (L(b := None)) i'" if "i' < 14" "i' \<noteq> i" for i'
  proof (rule chain_ok_frame [OF kcoreD(5) [OF core that(1)]])
    show "firstfree k' i' = firstfree k i'" using that by (simp add: k'_def poison_def Let_def)
    show "(L(b := None)) b' = Some i' \<longleftrightarrow> L b' = Some i'" for b' using that Lb by auto
    show "bd_next (boards k' b') = bd_next (boards k b') \<and> (bd_nfree (boards k' b') = 0 \<longleftrightarrow> bd_nfree (boards k b') = 0)"
      if "L b' = Some i'" for b'
    proof -
      have "b' \<noteq> b" using that \<open>i' \<noteq> i\<close> Lb by auto
      then show ?thesis using same(1) [OF away [OF that _ self]] by simp
    qed
  qed
  have used: "\<exists>b' i'. (L(b := None)) b' = Some i' \<and> x \<in> block_addrs i' b' \<and> used_ok k' i' x" if x: "x \<in> A" for x
  proof -
    obtain b' i' where b': "L b' = Some i'" "x \<in> block_addrs i' b'" "used_ok k i' x" using kcoreD(4) [OF core x] by blast
    have ne: "b' \<noteq> b" using b'(1,2) Lb empty x by auto
    note fits' = live_fits [OF live b'(1)]
    note sp = block_addrs_span [OF fits' b'(2)]
    have "unat (x + 16 + bk_size (blocks k x)) = unat x + 16 + unat (bk_size (blocks k x))"
      using b'(3) sp(4) fits' by (simp add: used_ok_def board_fits_def unat_word_ariths)
    then have "unat (x + 16 + bk_size (blocks k x)) \<in> span i' b'"
      using b'(3) sp by (auto simp: used_ok_def span_def)
    then have "redzone k' (x + 16 + bk_size (blocks k x)) = redzone k (x + 16 + bk_size (blocks k x))" "blocks k' x = blocks k x"
      using same(2,3) away [OF b'(1) ne] sp(1) by blast+
    then have "used_ok k' i' x" using b'(3) unfolding used_ok_def by simp
    then show ?thesis using b' ne by (intro exI [of _ b'] exI [of _ i']) simp
  qed
  have "kcore k' (L(b := None)) A {}"
  proof (rule kcoreI)
    show "live_ok (L(b := None)) (bud k')" using s'(2) by (simp add: k'_def poison_def Let_def)
    show "board_ok k' A i' b'" if "(L(b := None)) b' = Some i'" for b' i' using others that by (auto split: if_splits)
    show "block_addrs i' b' \<inter> A \<noteq> {}" if "(L(b := None)) b' = Some i'" for b' i'
      using kcoreD(3) [OF core, of b' i'] that by (auto split: if_splits)
    show "chain_ok k' (L(b := None)) i'" if "i' < 14" for i' using that chain chains by (cases "i' = i") simp_all
  qed (rule used)
  with res show thesis by (rule that)
qed

section \<open>The operations\<close>

lemma find_bucket_None:
  assumes "unat sz < 2 ^ 32 - 4"
  shows "find_bucket buckets 0 sz = None \<longleftrightarrow> 262108 < unat sz"
proof -
  have "unat (sz + 4) = unat sz + 4" using assms by (simp add: unat_word_ariths)
  then show ?thesis
    by (auto simp: buckets_def KMALLOC_REDZONE_SIZE_def KMALLOC_USER_OFFSET_def word_le_nat_alt)
qed

lemma kmalloc_law:
  assumes inv: "kinv k L A" and sz: "unat sz < 2 ^ 32 - 4"
  obtains (fail) "kmalloc pid k sz = Some (0, k)"
      "sz = 0 \<or> 262108 < unat sz \<or> (\<exists>i < 14. pages_alloc pid (bud k) (bucket_order i) = Some (0, bud k))"
  | (succ) a k' L' where "kmalloc pid k sz = Some (a + 16, k')" "a + 16 \<noteq> 0" "a \<notin> A" "kinv k' L' (insert a A)"
      "bk_size (blocks k' a) = sz" "kfree_safe k' (a + 16)" "0 < unat sz" "unat sz \<le> 262108"
proof (cases "sz = 0 \<or> find_bucket buckets 0 sz = None")
  case True
  then show thesis using find_bucket_None [OF sz] by (intro fail) (auto simp: kmalloc_def)
next
  case False
  then obtain i where i: "find_bucket buckets 0 sz = Some i" and nz: "sz \<noteq> 0" by auto
  note bk = find_bucket_law [OF i sz]
  have lim: "0 < unat sz" "unat sz \<le> 262108"
    using nz False find_bucket_None [OF sz] by (auto simp: unat_gt_0)
  have finish: thesis if core: "kcore k1 L1 A X" "firstfree k1 i \<noteq> 0" "X \<subseteq> {firstfree k1 i}"
    and res: "kmalloc pid k sz = Some (take_block pid k1 i sz)" for k1 L1 X
  proof -
    obtain k' a where k': "take_block pid k1 i sz = (a + 16, k')" "a \<in> block_addrs i (firstfree k1 i)"
      "L1 (firstfree k1 i) = Some i" "a \<notin> A" "kcore k' L1 (insert a A) {}" "bk_size (blocks k' a) = sz"
      "kfree_safe k' (a + 16)"
      by (rule take_block_law [OF core(1) bk(1) core(2,3) bk(2) nz])
    note fits = live_fits [OF kcoreD(1) [OF core(1)] k'(3)]
    have "unat (a + 16) = unat a + 16"
      using block_addrs_span(4) [OF fits k'(2)] fits bucket_bounds(1) [OF bk(1)]
      by (simp add: board_fits_def unat_word_ariths)
    then have "a + 16 \<noteq> 0" by auto
    then show thesis using res k' lim by (intro succ [of a k' L1]) (simp_all add: kinv_def)
  qed
  show thesis
  proof (cases "firstfree k i = 0")
    case False
    then show ?thesis using inv i nz by (intro finish [of k L "{}"]) (simp_all add: kinv_def kmalloc_def)
  next
    case True
    have core: "kcore k L A {}" using inv by (simp add: kinv_def)
    from core bk(1) True show ?thesis
    proof (cases rule: alloc_board_law [of k L A i pid])
      case fail
      have "pages_alloc pid (bud k) (bucket_order i) = Some (0, bud k)"
        using fail by (auto simp: alloc_board_def Let_def split: option.splits if_splits) (metis kheap.select_convs(5) kheap.surjective kheap.update_convs(5))
      moreover have "k\<lparr>firstfree := (firstfree k)(i := 0)\<rparr> = k" using True by (simp add: fun_upd_idem)
      ultimately show ?thesis using fail i nz True bk(1) by (intro that(1)) (auto simp: kmalloc_def)
    next
      case (succ b k1)
      then show ?thesis using i nz True
        by (intro finish [OF succ(3)]) (simp_all add: kmalloc_def)
    qed
  qed
qed

lemma kfree_law:
  assumes inv: "kinv k L A" and a: "a \<in> A" and safe: "kfree_safe k (a + 16)"
  obtains k' L' where "kfree pid k (a + 16) = Some k'" "kinv k' L' (A - {a})"
proof -
  have core: "kcore k L A {}" using inv by (simp add: kinv_def)
  obtain b i where Lb: "L b = Some i" "a \<in> block_addrs i b" "used_ok k i a" using kcoreD(4) [OF core a] by blast
  note fits = live_fits [OF kcoreD(1) [OF core] Lb(1)]
  have i: "i < 14" using fits by (simp add: board_fits_def)
  have bb: "bk_board (blocks k a) = b" "bd_bucket (boards k b) = i"
    using kcoreD(2) [OF core Lb(1)] Lb(2) by (auto simp: board_ok_def)
  have "unat (a + 16) = unat a + 16"
    using block_addrs_span(4) [OF fits Lb(2)] fits bucket_bounds(1) [OF i] by (simp add: board_fits_def unat_word_ariths)
  then have nn: "a + 16 \<noteq> 0" by auto
  let ?k = "put_block k a"
  note put = put_block_law [OF core Lb(1,2) a]
  have res: "kfree pid k (a + 16) =
      (if bd_nfree (boards ?k b) = of_nat (nblocks i)
       then free_board pid (?k\<lparr>firstfree := (firstfree ?k)(i := bd_next (boards ?k b))\<rparr>) b else Some ?k)"
    using Lb(3) nn i bb by (simp add: kfree_def used_ok_def KMALLOC_USER_OFFSET_def buckets_def Let_def)
  have ok: "board_ok ?k (A - {a}) i b" by (rule kcoreD(2) [OF put(1) Lb(1)])
  note nf = board_nfree [OF fits ok]
  have full: "bd_nfree (boards ?k b) = of_nat (nblocks i) \<longleftrightarrow> block_addrs i b \<inter> (A - {a}) = {}"
  proof -
    have "bd_nfree (boards ?k b) = of_nat (nblocks i) \<longleftrightarrow> card (block_addrs i b - (A - {a})) = nblocks i"
      using nf by (simp add: of_nat_u32_eq_iff)
    also have "\<dots> \<longleftrightarrow> block_addrs i b - (A - {a}) = block_addrs i b"
      using card_block_addrs(1) [OF fits] card_block_addrs(2) [of i b]
      by (metis Diff_subset card_subset_eq)
    finally show ?thesis by blast
  qed
  show thesis
  proof (cases "bd_nfree (boards ?k b) = of_nat (nblocks i)")
    case False
    then have "kcore ?k L (A - {a}) {}"
      using full Lb(1) by (intro kcore_busy [OF put(1)]) simp
    then show ?thesis using False res by (intro that) (simp_all add: kinv_def)
  next
    case True
    have inc: "bd_nfree (boards ?k b) = bd_nfree (boards k b) + 1"
      using bb by (simp add: put_block_def Let_def)
    have "firstfree ?k i = b"
    proof (cases "bd_nfree (boards k b) = 0")
      case True
      then show ?thesis using put(3) by simp
    next
      case nz: False
      have "nblocks i \<noteq> 1" using True inc nz by auto
      then show ?thesis
        using safe True inc nz put(3) bb by (simp add: kfree_safe_def)
    qed
    then obtain k' where "free_board pid (?k\<lparr>firstfree := (firstfree ?k)(i := bd_next (boards ?k b))\<rparr>) b = Some k'"
      "kcore k' (L(b := None)) (A - {a}) {}"
      using free_board_law [OF put(1) Lb(1)] full True by blast
    then show ?thesis using res True by (intro that) (simp_all add: kinv_def)
  qed
qed

text \<open>The bytes that belong to a block in use: header, caller's bytes and red zone.\<close>

definition extent :: "kheap \<Rightarrow> u32 \<Rightarrow> nat set" where
  "extent k ptr = {unat ptr - 16 ..< unat ptr + unat (bk_size (blocks k (ptr - 16))) + 4}"

lemma extent_disjoint:
  assumes inv: "kinv k L A" and a: "a \<in> A" and a': "a' \<in> A" and ne: "a \<noteq> a'"
  shows "extent k (a + 16) \<inter> extent k (a' + 16) = {}"
proof -
  have core: "kcore k L A {}" using inv by (simp add: kinv_def)
  note live = kcoreD(1) [OF core]
  have ext: "\<exists>b i. L b = Some i \<and> x \<in> block_addrs i b \<and> extent k (x + 16) \<subseteq> {unat x ..< unat x + unat (block_size i)} \<and>
      extent k (x + 16) \<subseteq> span i b" if x: "x \<in> A" for x
  proof -
    obtain b i where b: "L b = Some i" "x \<in> block_addrs i b" "used_ok k i x" using kcoreD(4) [OF core x] by blast
    note fits = live_fits [OF live b(1)]
    note sp = block_addrs_span(4,5) [OF fits b(2)]
    have "unat (x + 16) = unat x + 16"
      using sp b(3) fits by (simp add: used_ok_def board_fits_def unat_word_ariths)
    then show ?thesis using b sp by (intro exI [of _ b] exI [of _ i]) (auto simp: extent_def used_ok_def span_def)
  qed
  obtain b i where b: "L b = Some i" "a \<in> block_addrs i b" "extent k (a + 16) \<subseteq> {unat a ..< unat a + unat (block_size i)}"
      "extent k (a + 16) \<subseteq> span i b" using ext [OF a] by blast
  obtain b' i' where b': "L b' = Some i'" "a' \<in> block_addrs i' b'" "extent k (a' + 16) \<subseteq> {unat a' ..< unat a' + unat (block_size i')}"
      "extent k (a' + 16) \<subseteq> span i' b'" using ext [OF a'] by blast
  show ?thesis
  proof (cases "b = b'")
    case True
    then have "i = i'" using b(1) b'(1) by simp
    then show ?thesis using block_addrs_apart [OF live_fits [OF live b(1)] b(2) _ ne] b(3) b'(2,3) True by fastforce
  next
    case False
    then show ?thesis using live_spans [OF live b(1) b'(1)] b(4) b'(4) by blast
  qed
qed

section \<open>Clients of the allocator\<close>

text \<open>The contract of a heap allocator: what a client may rely on as long as it only
  returns pointers it was given and the allocator admits the release.\<close>

locale heap_allocator =
  fixes inv :: "'s \<Rightarrow> 'p set \<Rightarrow> bool"
    and ext :: "'s \<Rightarrow> 'p \<Rightarrow> nat set"
    and valid :: "'n \<Rightarrow> bool"
    and may_release :: "'s \<Rightarrow> 'p \<Rightarrow> bool"
    and alloc :: "'s \<Rightarrow> 'n \<Rightarrow> ('p option \<times> 's) option"
    and release :: "'s \<Rightarrow> 'p \<Rightarrow> 's option"
  assumes alloc_total: "inv s P \<Longrightarrow> valid n \<Longrightarrow> \<exists>r s'. alloc s n = Some (r, s')"
    and alloc_none: "inv s P \<Longrightarrow> valid n \<Longrightarrow> alloc s n = Some (None, s') \<Longrightarrow> s' = s"
    and alloc_some: "inv s P \<Longrightarrow> valid n \<Longrightarrow> alloc s n = Some (Some p, s') \<Longrightarrow> p \<notin> P \<and> inv s' (insert p P)"
    and release_ok: "inv s P \<Longrightarrow> p \<in> P \<Longrightarrow> may_release s p \<Longrightarrow> \<exists>s'. release s p = Some s' \<and> inv s' (P - {p})"
    and apart: "inv s P \<Longrightarrow> p \<in> P \<Longrightarrow> q \<in> P \<Longrightarrow> p \<noteq> q \<Longrightarrow> ext s p \<inter> ext s q = {}"

inductive heap_step ::
  "('n \<Rightarrow> bool) \<Rightarrow> ('s \<Rightarrow> 'p \<Rightarrow> bool) \<Rightarrow> ('s \<Rightarrow> 'n \<Rightarrow> ('p option \<times> 's) option) \<Rightarrow> ('s \<Rightarrow> 'p \<Rightarrow> 's option) \<Rightarrow>
   's \<times> 'p set \<Rightarrow> 's \<times> 'p set \<Rightarrow> bool"
  for valid :: "'n \<Rightarrow> bool" and may_release :: "'s \<Rightarrow> 'p \<Rightarrow> bool" and alloc :: "'s \<Rightarrow> 'n \<Rightarrow> ('p option \<times> 's) option"
    and release :: "'s \<Rightarrow> 'p \<Rightarrow> 's option" where
  got: "valid n \<Longrightarrow> alloc s n = Some (Some p, s') \<Longrightarrow> heap_step valid may_release alloc release (s, P) (s', insert p P)"
| nothing: "valid n \<Longrightarrow> alloc s n = Some (None, s') \<Longrightarrow> heap_step valid may_release alloc release (s, P) (s', P)"
| freed: "p \<in> P \<Longrightarrow> may_release s p \<Longrightarrow> release s p = Some s' \<Longrightarrow> heap_step valid may_release alloc release (s, P) (s', P - {p})"

context heap_allocator begin

lemma step_inv:
  assumes "heap_step valid may_release alloc release sP sP'" "inv (fst sP) (snd sP)"
  shows "inv (fst sP') (snd sP')"
  using assms
proof (induction rule: heap_step.induct)
  case (freed p P s s')
  then show ?case using release_ok [of s P p] by auto
qed (use alloc_none alloc_some in fastforce)+

lemma run_inv:
  assumes "(heap_step valid may_release alloc release)\<^sup>*\<^sup>* sP sP'" "inv (fst sP) (snd sP)"
  shows "inv (fst sP') (snd sP')"
  using assms by (induction rule: rtranclp_induct) (auto dest: step_inv)

text \<open>No run gets stuck, and the blocks that clients hold never overlap.\<close>

lemma run_safe:
  assumes "(heap_step valid may_release alloc release)\<^sup>*\<^sup>* (s, P) (s', P')" "inv s P"
  shows "valid n \<Longrightarrow> alloc s' n \<noteq> None" "p \<in> P' \<Longrightarrow> may_release s' p \<Longrightarrow> release s' p \<noteq> None"
    "p \<in> P' \<Longrightarrow> q \<in> P' \<Longrightarrow> p \<noteq> q \<Longrightarrow> ext s' p \<inter> ext s' q = {}"
proof -
  have inv': "inv s' P'" using run_inv [OF assms(1)] assms(2) by simp
  show "valid n \<Longrightarrow> alloc s' n \<noteq> None" using alloc_total [OF inv'] by auto
  show "p \<in> P' \<Longrightarrow> may_release s' p \<Longrightarrow> release s' p \<noteq> None" using release_ok [OF inv'] by auto
  show "p \<in> P' \<Longrightarrow> q \<in> P' \<Longrightarrow> p \<noteq> q \<Longrightarrow> ext s' p \<inter> ext s' q = {}" using apart [OF inv'] by blast
qed

end

definition kheap_inv :: "kheap \<Rightarrow> u32 set \<Rightarrow> bool" where
  "kheap_inv k P \<longleftrightarrow> (\<exists>L. kinv k L ((\<lambda>p. p - 16) ` P))"

definition kmalloc_opt :: "int \<Rightarrow> kheap \<Rightarrow> u32 \<Rightarrow> (u32 option \<times> kheap) option" where
  "kmalloc_opt pid k sz = map_option (\<lambda>(p, k). (if p = 0 then None else Some p, k)) (kmalloc pid k sz)"

definition no_wrap :: "u32 \<Rightarrow> bool" where
  "no_wrap sz \<longleftrightarrow> unat sz < 2 ^ 32 - 4"

lemma image_minus_16: "(\<lambda>p. p - 16) ` (P - {p}) = (\<lambda>p. p - 16) ` P - {p - 16}" for p :: u32
  by auto

interpretation km: heap_allocator kheap_inv extent no_wrap kfree_safe "kmalloc_opt pid" "kfree pid" for pid
proof unfold_locales
  fix s s' :: kheap and P :: "u32 set" and n p q :: u32
  assume "kheap_inv s P"
  then obtain L where L: "kinv s L ((\<lambda>p. p - 16) ` P)" by (auto simp: kheap_inv_def)
  { assume n: "no_wrap n"
    then have sz: "unat n < 2 ^ 32 - 4" by (simp add: no_wrap_def)
    show "\<exists>r s'. kmalloc_opt pid s n = Some (r, s')"
      by (rule kmalloc_law [OF L sz, of pid]) (simp_all add: kmalloc_opt_def)
    { assume "kmalloc_opt pid s n = Some (None, s')"
      then show "s' = s"
        by (rule_tac kmalloc_law [OF L sz, of pid]) (auto simp: kmalloc_opt_def) }
    { assume r: "kmalloc_opt pid s n = Some (Some p, s')"
      show "p \<notin> P \<and> kheap_inv s' (insert p P)"
        by (rule kmalloc_law [OF L sz, of pid]) (use r in \<open>auto simp: kmalloc_opt_def kheap_inv_def image_iff\<close>) } }
  { assume p: "p \<in> P" "kfree_safe s p"
    then have "p - 16 \<in> (\<lambda>p. p - 16) ` P" "kfree_safe s (p - 16 + 16)" by auto
    then show "\<exists>s'. kfree pid s p = Some s' \<and> kheap_inv s' (P - {p})"
      using kfree_law [OF L, of "p - 16" pid] unfolding kheap_inv_def image_minus_16 by (metis diff_add_cancel) }
  { assume "p \<in> P" "q \<in> P" "p \<noteq> q"
    then show "extent s p \<inter> extent s q = {}"
      using extent_disjoint [OF L, of "p - 16" "q - 16"] by auto }
qed

text \<open>The allocator before its first call.\<close>

definition kheap_init :: "buddy \<Rightarrow> kheap" where
  "kheap_init s = \<lparr>firstfree = (\<lambda>_. 0),
     boards = (\<lambda>_. \<lparr>bd_nfree = 0, bd_firstfree = 0, bd_bucket = 0, bd_next = 0\<rparr>),
     blocks = (\<lambda>_. \<lparr>bk_magic = 0, bk_owner = 0, bk_size = 0, bk_board = 0, bk_next = 0\<rparr>),
     redzone = (\<lambda>_. 0), bud = s\<rparr>"

lemma kheap_init_inv:
  assumes "buddy_inv s" "merged s" "max_pfn s \<le> 2 ^ 19"
  shows "kheap_inv (kheap_init s) {}"
proof -
  have "kinv (kheap_init s) Map.empty {}"
    unfolding kinv_def
    by (rule kcoreI) (use assms in \<open>auto simp: live_ok_def kheap_init_def chain_ok_def lpath_null\<close>)
  then show ?thesis by (auto simp: kheap_inv_def)
qed


definition buddy_two :: buddy where
  "buddy_two = \<lparr>free_list = (\<lambda>n. if n = 0 then [1, 2] else []), area_map = (\<lambda>n m. n = 0 \<and> m < 2),
     map_size = (\<lambda>n. 1), max_pfn = 4, pg_count = (\<lambda>_. 0), pg_state = (\<lambda>_. PG_FREE), pg_owner = (\<lambda>_. 0)\<rparr>"

text \<open>Requests and releases in order; the pointers returned so far are numbered.\<close>

datatype request = Kmalloc u32 | Kfree nat

fun kheap_run :: "int \<Rightarrow> request list \<Rightarrow> u32 list \<Rightarrow> kheap \<Rightarrow> (u32 list \<times> kheap) option" where
  "kheap_run pid [] ps k = Some (ps, k)"
| "kheap_run pid (Kmalloc sz # rs) ps k =
     (case kmalloc pid k sz of None \<Rightarrow> None | Some (p, k) \<Rightarrow> kheap_run pid rs (ps @ [p]) k)"
| "kheap_run pid (Kfree n # rs) ps k =
     (case kfree pid k (ps ! n) of None \<Rightarrow> None | Some k \<Rightarrow> kheap_run pid rs ps k)"

lemma buddy_two_blocks: "free_blocks buddy_two = {(0, 1), (0, 2)}"
  by (auto simp: free_blocks_def buddy_two_def MAX_ORDER_def split: if_splits)

lemma buddy_two_inv: "buddy_inv buddy_two" "merged buddy_two" "max_pfn buddy_two \<le> 2 ^ 19"
proof -
  have "geometry_ok buddy_two"
    unfolding geometry_ok_def less_MAX_ORDER by (simp add: buddy_two_def free_area_bitmap_bits_def)
  moreover have "bits_ok buddy_two {}"
    unfolding bits_ok_def buddy_two_blocks by (auto simp: buddy_two_def)
  moreover have "block_ok buddy_two 0 1" "block_ok buddy_two 0 2"
    by (simp_all add: block_ok_def buddy_two_def MAX_ORDER_def)
  ultimately show "buddy_inv buddy_two"
    by (auto simp: buddy_inv_def binv_def buddy_two_blocks block_def free_pfns_def) (auto simp: buddy_two_def)
  show "merged buddy_two" by (auto simp: merged_def buddy_two_blocks MAX_ORDER_def)
qed (simp add: buddy_two_def)

lemma kmalloc_opt_eqI: "map_option fst (kmalloc pid k sz) = Some p \<Longrightarrow> p \<noteq> 0 \<Longrightarrow>
    kmalloc_opt pid k sz = Some (Some p, snd (the (kmalloc pid k sz)))"
  by (cases "kmalloc pid k sz") (simp_all add: kmalloc_opt_def split_beta)

definition kheap_one :: kheap where
  "kheap_one = snd (the (kmalloc 7 (kheap_init buddy_two) 2000))"

definition kheap_both :: kheap where
  "kheap_both = snd (the (kmalloc 7 kheap_one 1000))"


text \<open>A block that was just allocated can be released at once, and the release gives
  back a heap in which the other blocks are in use as before.\<close>

theorem kmalloc_kfree_roundtrip:
  assumes "kheap_inv k P" "no_wrap sz" "kmalloc pid k sz = Some (p, k')" "p \<noteq> 0"
  shows "p \<notin> P \<and> bk_size (blocks k' (p - 16)) = sz \<and> (\<exists>k''. kfree pid k' p = Some k'' \<and> kheap_inv k'' P)"
proof -
  obtain L where L: "kinv k L ((\<lambda>p. p - 16) ` P)" using assms(1) by (auto simp: kheap_inv_def)
  have "unat sz < 2 ^ 32 - 4" using assms(2) by (simp add: no_wrap_def)
  with L show ?thesis
  proof (cases rule: kmalloc_law [of k L _ sz pid])
    case fail
    then show ?thesis using assms(3,4) by simp
  next
    case (succ a k1 L')
    then have eq: "k1 = k'" "p = a + 16" using assms(3) by auto
    have fresh: "a \<notin> (\<lambda>p. p - 16) ` P" by (rule succ(3))
    obtain k'' L'' where "kfree pid k' (a + 16) = Some k''" "kinv k'' L'' (insert a ((\<lambda>p. p - 16) ` P) - {a})"
      by (rule kfree_law [OF succ(4) _ succ(6)]) (auto simp: eq)
    then show ?thesis
      using fresh succ(5) eq by (auto simp: kheap_inv_def image_iff)
  qed
qed

theorem kmalloc_kfree_roundtrip_witness:
  "\<exists>k. kfree 7 kheap_one 0x80001020 = Some k \<and> kheap_inv k {}"
proof -
  have "kmalloc_opt 7 (kheap_init buddy_two) 2000 = Some (Some 0x80001020, kheap_one)"
    unfolding kheap_one_def by (rule kmalloc_opt_eqI; code_simp)
  then have "kmalloc 7 (kheap_init buddy_two) 2000 = Some (0x80001020, kheap_one)"
    by (auto simp: kmalloc_opt_def split: if_splits)
  then show ?thesis
    using kmalloc_kfree_roundtrip [OF kheap_init_inv [OF buddy_two_inv], of 2000 7] by (simp add: no_wrap_def)
qed

section \<open>Where the code fails\<close>

text \<open>Two boards of a bucket, then the second is emptied while the first is at the head
  of the chain: \<^verbatim>\<open>kfree\<close> drops the head, and when the dropped board is emptied too, the
  chain starts with the board that was freed before. The next allocation follows a
  poisoned pointer and returns an address outside memory.\<close>

theorem kfree_leaves_freed_board:
  "map_option fst (kheap_run 7 [Kmalloc 2000, Kmalloc 2000, Kmalloc 2000, Kfree 0, Kfree 2, Kfree 1, Kmalloc 2000] []
     (kheap_init buddy_two)) = Some [0x80001020, 0x80001818, 0x80002020, 0xccccccdc]"
  by code_simp

text \<open>A size that wraps with the red zone is served from the smallest bucket.\<close>

lemma kmalloc_size_wraps: "find_bucket buckets 0 0xfffffffc = Some 0"
  by code_simp

end
