(* ===== verification/Page_Table.thy ===== *)
theory Page_Table
  imports Page_Alloc
begin

text \<open>
  The two-level page tables that \<^verbatim>\<open>src/src/mm/mm.c\<close> edits (\<^verbatim>\<open>unmap_page_range\<close>,
  \<^verbatim>\<open>protect_page_range\<close>) with the macros of \<^verbatim>\<open>src/src/include/mm/pagetable.h\<close>. The state
  holds the entries of the page directory, the words of the page frames that serve as
  page tables, by frame number and word index, and the buddy allocator, to which
  dropped pages return. Addresses in loops are natural numbers: user addresses end at
  \<open>2 ^ 31\<close>, so no sum wraps. \<^verbatim>\<open>flush_tlb\<close> has no effect on this state.
\<close>

section \<open>Model\<close>

record pgt =
  pd_ents :: "nat \<Rightarrow> u32"
  frames :: "nat \<Rightarrow> nat \<Rightarrow> u32"
  pt_pages :: buddy
  empty_bad_page :: u32

definition PAGE_MASK :: u32 where
  "PAGE_MASK = NOT 4095"

definition pe_present :: "u32 \<Rightarrow> bool" where
  "pe_present e \<longleftrightarrow> e AND 1 \<noteq> 0"

definition pte_bad :: "pgt \<Rightarrow> u32 \<Rightarrow> bool" where
  "pte_bad t e \<longleftrightarrow> e AND PAGE_MASK = empty_bad_page t"

text \<open>\<^verbatim>\<open>PHY_TO_PAGE\<close> of an entry: the frame it refers to.\<close>

definition pe_frame :: "u32 \<Rightarrow> nat" where
  "pe_frame e = unat (drop_bit 12 e)"

definition pde_offset :: "nat \<Rightarrow> nat" where
  "pde_offset vir = vir div 2 ^ 22 mod 1024"

definition pte_offset :: "nat \<Rightarrow> nat" where
  "pte_offset vir = vir div 2 ^ 12 mod 1024"

definition set_pte :: "nat \<Rightarrow> nat \<Rightarrow> u32 \<Rightarrow> pgt \<Rightarrow> pgt" where
  "set_pte fr j v t = t\<lparr>frames := (frames t)(fr := (frames t fr)(j := v))\<rparr>"

text \<open>The loop of \<^verbatim>\<open>unmap_pte_range\<close>: entry \<open>j\<close> of the table in frame \<open>fr\<close> maps the address
  \<open>addr\<close> of its four-megabyte region.\<close>

function unmap_ptes :: "int \<Rightarrow> pgt \<Rightarrow> nat \<Rightarrow> nat \<Rightarrow> nat \<Rightarrow> nat \<Rightarrow> pgt option" where
  "unmap_ptes pid t fr j addr endd =
     (let tmp = frames t fr j;
          t = set_pte fr j 0 t
      in case (if pe_present tmp \<and> \<not> pte_bad t tmp
               then map_option (\<lambda>s. t\<lparr>pt_pages := s\<rparr>) (put_page pid (pt_pages t) (pe_frame tmp))
               else Some t) of
           None \<Rightarrow> None
         | Some t \<Rightarrow> if addr + 4096 < endd then unmap_ptes pid t fr (j + 1) (addr + 4096) endd else Some t)"
  by pat_completeness auto
termination
  by (relation "measure (\<lambda>(pid, t, fr, j, addr, endd). endd - addr)") auto

declare unmap_ptes.simps [simp del]

definition unmap_pte_range :: "int \<Rightarrow> pgt \<Rightarrow> nat \<Rightarrow> nat \<Rightarrow> nat \<Rightarrow> pgt option" where
  "unmap_pte_range pid t pd addr len =
     (if \<not> pe_present (pd_ents t pd) then Some t
      else
        let addr' = addr mod 2 ^ 22;
            endd = addr' + len;
            endd = (if 2 ^ 22 \<le> endd then 2 ^ 22 else endd)
        in unmap_ptes pid t (pe_frame (pd_ents t pd)) (pte_offset addr) addr' endd)"

function unmap_pds :: "int \<Rightarrow> pgt \<Rightarrow> nat \<Rightarrow> nat \<Rightarrow> nat \<Rightarrow> pgt option" where
  "unmap_pds pid t pd addr endd =
     (if addr < endd
      then (case unmap_pte_range pid t pd addr (endd - addr) of
              None \<Rightarrow> None
            | Some t \<Rightarrow> unmap_pds pid t (pd + 1) ((addr + 2 ^ 22) div 2 ^ 22 * 2 ^ 22) endd)
      else Some t)"
  by pat_completeness auto
termination
proof (relation "measure (\<lambda>(pid, t, pd, addr, endd). endd - addr)", goal_cases)
  case (2 pid t pd addr endd t')
  have "addr < (addr + 2 ^ 22) div 2 ^ 22 * 2 ^ 22"
    using dividend_less_times_div [of "2 ^ 22 :: nat" addr] by simp
  then show ?case using 2 by simp
qed simp

declare unmap_pds.simps [simp del]

definition unmap_page_range :: "int \<Rightarrow> pgt \<Rightarrow> nat \<Rightarrow> nat \<Rightarrow> pgt option" where
  "unmap_page_range pid t addr len = unmap_pds pid t (pde_offset addr) addr (addr + len)"

definition PG_PRESENT :: u32 where
  "PG_PRESENT = 1"

definition PG_RW :: u32 where
  "PG_RW = 2"

definition PG_USER :: u32 where
  "PG_USER = 4"

definition VM_READ :: u32 where
  "VM_READ = 1"

definition VM_WRITE :: u32 where
  "VM_WRITE = 2"

definition VM_EXEC :: u32 where
  "VM_EXEC = 4"

definition VM_SHARED :: u32 where
  "VM_SHARED = 8"

definition VM_GROWSDOWN :: u32 where
  "VM_GROWSDOWN = 0x100"

definition get_page_prot :: "u32 \<Rightarrow> u32" where
  "get_page_prot flags =
     (if flags AND VM_WRITE \<noteq> 0 then PG_PRESENT OR PG_USER OR PG_RW
      else if flags AND VM_READ \<noteq> 0 \<or> flags AND VM_EXEC \<noteq> 0 then PG_PRESENT OR PG_USER
      else PG_PRESENT)"

function protect_ptes :: "pgt \<Rightarrow> nat \<Rightarrow> nat \<Rightarrow> nat \<Rightarrow> nat \<Rightarrow> u32 \<Rightarrow> pgt" where
  "protect_ptes t fr j a pde_end rw_user =
     (if a < pde_end
      then let e = frames t fr j;
               t = (if pe_present e \<and> \<not> pte_bad t e
                    then set_pte fr j ((e AND NOT (PG_RW OR PG_USER)) OR rw_user) t else t)
           in protect_ptes t fr (j + 1) (a + 4096) pde_end rw_user
      else t)"
  by pat_completeness auto
termination
  by (relation "measure (\<lambda>(t, fr, j, a, pde_end, rw_user). pde_end - a)") auto

declare protect_ptes.simps [simp del]

function protect_pds :: "pgt \<Rightarrow> nat \<Rightarrow> nat \<Rightarrow> u32 \<Rightarrow> pgt" where
  "protect_pds t addr endd rw_user =
     (if addr < endd
      then let pd = pde_offset addr;
               pde_end = (addr + 2 ^ 22) div 2 ^ 22 * 2 ^ 22;
               pde_end = (if endd < pde_end then endd else pde_end);
               t = (if pe_present (pd_ents t pd)
                    then protect_ptes t (pe_frame (pd_ents t pd)) (pte_offset addr) addr pde_end rw_user else t)
           in protect_pds t pde_end endd rw_user
      else t)"
  by pat_completeness auto
termination
proof (relation "measure (\<lambda>(t, addr, endd, rw_user). endd - addr)", goal_cases)
  case (2 t addr endd rw_user x xa xb xc)
  have "addr < (addr + 2 ^ 22) div 2 ^ 22 * 2 ^ 22"
    using dividend_less_times_div [of "2 ^ 22 :: nat" addr] by simp
  then show ?case using 2 by (simp, linarith)
qed simp

declare protect_pds.simps [simp del]

definition protect_page_range :: "pgt \<Rightarrow> nat \<Rightarrow> nat \<Rightarrow> u32 \<Rightarrow> pgt" where
  "protect_page_range t addr len prot =
     (let attr = get_page_prot (prot AND (VM_READ OR VM_WRITE OR VM_EXEC))
      in protect_pds t addr (addr + len) (attr AND (PG_RW OR PG_USER)))"

section \<open>Unmapping\<close>

text \<open>The entry that maps virtual page \<open>p\<close>, zero when it has no page table.\<close>

definition vpde :: "pgt \<Rightarrow> nat \<Rightarrow> u32" where
  "vpde t p = pd_ents t (p div 1024 mod 1024)"

definition vpte :: "pgt \<Rightarrow> nat \<Rightarrow> u32" where
  "vpte t p = (if pe_present (vpde t p) then frames t (pe_frame (vpde t p)) (p mod 1024) else 0)"

text \<open>No two directory entries share a page table.\<close>

definition pt_wf :: "pgt \<Rightarrow> bool" where
  "pt_wf t \<longleftrightarrow> (\<forall>i < 1024. \<forall>k < 1024. i \<noteq> k \<longrightarrow> pe_present (pd_ents t i) \<longrightarrow> pe_present (pd_ents t k) \<longrightarrow>
     pe_frame (pd_ents t i) \<noteq> pe_frame (pd_ents t k))"

text \<open>The reference: clear the entries of the pages in \<open>P\<close>, drop the mapped pages in order.\<close>

definition clear_pages :: "nat set \<Rightarrow> pgt \<Rightarrow> pgt" where
  "clear_pages P t = t\<lparr>frames := (\<lambda>fr j.
     if \<exists>p \<in> P. pe_present (vpde t p) \<and> pe_frame (vpde t p) = fr \<and> p mod 1024 = j then 0 else frames t fr j)\<rparr>"

definition mapped :: "pgt \<Rightarrow> u32 \<Rightarrow> nat list" where
  "mapped t e = (if pe_present e \<and> \<not> pte_bad t e then [pe_frame e] else [])"

fun put_pages :: "int \<Rightarrow> buddy \<Rightarrow> nat list \<Rightarrow> buddy option" where
  "put_pages pid s [] = Some s"
| "put_pages pid s (p # ps) = (case put_page pid s p of None \<Rightarrow> None | Some s \<Rightarrow> put_pages pid s ps)"

lemma put_pages_append:
  "put_pages pid s (ps @ qs) = (case put_pages pid s ps of None \<Rightarrow> None | Some s \<Rightarrow> put_pages pid s qs)"
  by (induction pid s ps rule: put_pages.induct) (auto split: option.splits)

lemma pe_present_0 [simp]: "\<not> pe_present 0" "mapped t 0 = []"
  by (simp_all add: pe_present_def mapped_def)

lemma mapped_cong: "empty_bad_page t = empty_bad_page t' \<Longrightarrow> mapped t = mapped t'"
  by (simp add: mapped_def pte_bad_def fun_eq_iff)

lemma unmap_ptes_eq:
  "unmap_ptes pid t fr j addr (addr + 4096 * Suc n) =
     map_option (\<lambda>s. t\<lparr>frames := (frames t)(fr := (\<lambda>i. if j \<le> i \<and> i < j + Suc n then 0 else frames t fr i)), pt_pages := s\<rparr>)
       (put_pages pid (pt_pages t) (concat (map (\<lambda>i. mapped t (frames t fr i)) [j ..< j + Suc n])))"
proof (induction n arbitrary: t j addr)
  case 0
  have "(\<lambda>i. if j \<le> i \<and> i < Suc j then 0 else frames t fr i) = (frames t fr)(j := 0)" by auto
  then show ?case
    by (subst unmap_ptes.simps)
      (auto simp: mapped_def set_pte_def pte_bad_def Let_def split: option.splits)
next
  case (Suc n)
  have cl: "(\<lambda>i. if Suc j \<le> i \<and> i < Suc j + Suc n then 0 else ((frames t fr)(j := 0)) i) =
      (\<lambda>i. if j \<le> i \<and> i < j + Suc (Suc n) then 0 else frames t fr i)" by auto
  have later: "map (\<lambda>i. mapped t (((frames t fr)(j := 0)) i)) [Suc j ..< Suc j + Suc n] =
      map (\<lambda>i. mapped t (frames t fr i)) [Suc j ..< Suc j + Suc n]" by auto
  have list: "[j ..< j + Suc (Suc n)] = j # [Suc j ..< Suc j + Suc n]" by (simp add: upt_conv_Cons del: upt_Suc)
  have IH: "unmap_ptes pid (set_pte fr j 0 t\<lparr>pt_pages := s\<rparr>) fr (Suc j) (addr + 4096) (addr + 4096 * Suc (Suc n)) =
      map_option (\<lambda>s. t\<lparr>frames := (frames t)(fr := (\<lambda>i. if j \<le> i \<and> i < j + Suc (Suc n) then 0 else frames t fr i)), pt_pages := s\<rparr>)
       (put_pages pid s (concat (map (\<lambda>i. mapped t (frames t fr i)) [Suc j ..< Suc j + Suc n])))" for s
  proof -
    let ?t = "set_pte fr j 0 t\<lparr>pt_pages := s\<rparr>"
    have "frames ?t fr = (frames t fr)(j := 0)" "pt_pages ?t = s" "mapped ?t = mapped t"
      "(frames ?t)(fr := F) = (frames t)(fr := F)" "?t\<lparr>frames := G, pt_pages := s'\<rparr> = t\<lparr>frames := G, pt_pages := s'\<rparr>" for F G s'
      using mapped_cong [of ?t t] by (simp_all add: set_pte_def)
    note t1 = this
    have e: "addr + 4096 * Suc (Suc n) = addr + 4096 + 4096 * Suc n" by simp
    show ?thesis using Suc.IH [of ?t "Suc j" "addr + 4096"] unfolding t1 cl later e by assumption
  qed
  have self: "set_pte fr j 0 t\<lparr>pt_pages := pt_pages t\<rparr> = set_pte fr j 0 t" by (simp add: set_pte_def)
  show ?case
    using IH [of "pt_pages t"] IH unfolding list
    by (subst unmap_ptes.simps)
      (auto simp: self mapped_def pte_bad_def set_pte_def Let_def simp del: upt_Suc split: option.splits)
qed

definition region_end :: "nat \<Rightarrow> nat \<Rightarrow> nat" where
  "region_end p q = min q ((p div 1024 + 1) * 1024)"

lemma region_end_bounds: "p < q \<Longrightarrow> p < region_end p q" "region_end p q \<le> q"
  "region_end p q \<le> (p div 1024 + 1) * 1024"
  using dividend_less_times_div [of 1024 p] by (auto simp: region_end_def)

lemma in_region: "p \<le> x \<Longrightarrow> x < region_end p q \<Longrightarrow> x div 1024 = p div 1024"
  "p \<le> x \<Longrightarrow> x < region_end p q \<Longrightarrow> x mod 1024 = x - p div 1024 * 1024"
proof -
  assume x: "p \<le> x" "x < region_end p q"
  then have lt: "x < (p div 1024 + 1) * 1024" using region_end_bounds(3) [of p q] by simp
  have "p div 1024 \<le> x div 1024" using x(1) by (rule div_le_mono)
  moreover have "x div 1024 < p div 1024 + 1" using lt by (simp add: less_mult_imp_div_less)
  ultimately show "x div 1024 = p div 1024" by simp
  then show "x mod 1024 = x - p div 1024 * 1024" by (metis minus_div_mult_eq_mod)
qed

lemma vpde_region: "p \<le> x \<Longrightarrow> x < region_end p q \<Longrightarrow> vpde t x = vpde t p"
  by (simp add: vpde_def in_region)

lemma region_bytes:
  assumes "p = b + m" "p < q" "p + Suc n = min q (b + 1024)"
  shows "(if 2 ^ 22 \<le> 4096 * m + 4096 * (q - p) then 2 ^ 22 else 4096 * m + 4096 * (q - p)) = 4096 * m + 4096 * Suc n"
  using assms by (auto simp: min_def split: if_splits)

lemma unmap_pte_range_eq:
  assumes "p < q"
  shows "unmap_pte_range pid t (p div 1024 mod 1024) (4096 * p) (4096 * (q - p)) =
    map_option (\<lambda>s. (clear_pages {p ..< region_end p q} t)\<lparr>pt_pages := s\<rparr>)
      (put_pages pid (pt_pages t) (concat (map (\<lambda>x. mapped t (vpte t x)) [p ..< region_end p q])))"
proof (cases "pe_present (vpde t p)")
  case False
  then have "\<not> pe_present (vpde t x)" if "x \<in> {p ..< region_end p q}" for x
    using that vpde_region [of p x q t] by simp
  then have none: "(\<exists>x \<in> {p ..< region_end p q}. pe_present (vpde t x) \<and> pe_frame (vpde t x) = fr \<and> x mod 1024 = j) = False" for fr j
    by blast
  have "clear_pages {p ..< region_end p q} t = t" unfolding clear_pages_def none by simp
  moreover have nothing: "concat (map (\<lambda>x. mapped t (vpte t x)) [p ..< region_end p q]) = []"
    using False by (auto simp: vpte_def vpde_region)
  ultimately show ?thesis using False by (simp only: nothing put_pages.simps) (simp add: unmap_pte_range_def vpde_def)
next
  case True
  let ?e = "region_end p q" and ?fr = "pe_frame (vpde t p)"
  define b m where "b = p div 1024 * 1024" and "m = p mod 1024"
  obtain n where n: "?e = p + Suc n" using region_end_bounds(1) [OF assms] less_imp_Suc_add by fastforce
  have pb: "p = b + m" by (simp add: b_def m_def)
  have addr: "4096 * p mod 2 ^ 22 = 4096 * m" using mult_mod_right [of 4096 p 1024] by (simp add: m_def)
  have off: "pte_offset (4096 * p) = m" by (simp add: pte_offset_def m_def)
  have endd: "(if 2 ^ 22 \<le> 4096 * (m) + 4096 * (q - p) then 2 ^ 22 else 4096 * (m) + 4096 * (q - p)) =
      4096 * (m) + 4096 * Suc n"
    using region_bytes [OF pb assms, of n] n by (simp add: region_end_def b_def)
  have upt: "[p ..< ?e] = map (\<lambda>i. i + b) [m ..< m + Suc n]"
    using n pb by (intro nth_equalityI) (simp_all del: upt_Suc)
  have ent: "vpte t (i + b) = frames t ?fr i" if "i \<in> set [m ..< m + Suc n]" for i
  proof -
    have "p \<le> i + b" "i + b < ?e" using that n pb by (auto simp del: upt_Suc)
    then show ?thesis using in_region(2) [of p "i + b" q, folded b_def] True by (simp add: vpte_def vpde_region)
  qed
  have list: "map (\<lambda>x. mapped t (vpte t x)) [p ..< ?e] = map (\<lambda>i. mapped t (frames t ?fr i)) [m ..< m + Suc n]"
    unfolding upt using ent by (simp del: upt_Suc)
  have mem: "(\<exists>x \<in> {p ..< ?e}. pe_present (vpde t x) \<and> pe_frame (vpde t x) = fr \<and> x mod 1024 = j) \<longleftrightarrow>
      fr = ?fr \<and> m \<le> j \<and> j < m + Suc n" for fr j
  proof
    assume "\<exists>x \<in> {p ..< ?e}. pe_present (vpde t x) \<and> pe_frame (vpde t x) = fr \<and> x mod 1024 = j"
    then obtain x where x: "p \<le> x" "x < ?e" "pe_frame (vpde t x) = fr" "x mod 1024 = j" by auto
    have "j = x - b" using in_region(2) [OF x(1,2)] x(4) by (simp add: b_def)
    then show "fr = ?fr \<and> m \<le> j \<and> j < m + Suc n"
      using x n pb vpde_region [OF x(1,2), of t] by auto
  next
    assume a: "fr = ?fr \<and> m \<le> j \<and> j < m + Suc n"
    then have "p \<le> j + b" "j + b < ?e" using n pb by auto
    then show "\<exists>x \<in> {p ..< ?e}. pe_present (vpde t x) \<and> pe_frame (vpde t x) = fr \<and> x mod 1024 = j"
      using a True in_region(2) [of p "j + b" q, folded b_def] by (intro bexI [of _ "j + b"]) (auto simp: vpde_region)
  qed
  have cl: "clear_pages {p ..< ?e} t = t\<lparr>frames := (frames t)(?fr := (\<lambda>i. if m \<le> i \<and> i < m + Suc n then 0 else frames t ?fr i))\<rparr>"
    unfolding clear_pages_def mem by (rule arg_cong [of _ _ "\<lambda>f. t\<lparr>frames := f\<rparr>"]) (auto simp: fun_eq_iff)
  show ?thesis
    using True unmap_ptes_eq [of pid t ?fr "m" "4096 * (m)" n]
    unfolding unmap_pte_range_def Let_def addr off endd list cl by (simp add: vpde_def del: upt_Suc)
qed

lemma vpte_clear:
  assumes "pt_wf t" "x \<notin> P" "x < 2 ^ 20" "\<forall>p \<in> P. p < 2 ^ 20"
  shows "vpte ((clear_pages P t)\<lparr>pt_pages := s\<rparr>) x = vpte t x"
proof -
  have "False" if p: "p \<in> P" "pe_present (vpde t p)" "pe_present (vpde t x)" "pe_frame (vpde t p) = pe_frame (vpde t x)"
    "p mod 1024 = x mod 1024" for p
  proof -
    have lt: "p div 1024 < 1024" "x div 1024 < 1024" using assms(3,4) p(1) by auto
    have "p div 1024 \<noteq> x div 1024" using p(1,5) assms(2) by (metis div_mult_mod_eq)
    then show False using assms(1) lt p(2-4) unfolding pt_wf_def vpde_def by simp
  qed
  then show ?thesis unfolding vpte_def vpde_def clear_pages_def by auto
qed

lemma clear_pages_clear: "clear_pages Q ((clear_pages P t)\<lparr>pt_pages := s\<rparr>) = (clear_pages (P \<union> Q) t)\<lparr>pt_pages := s\<rparr>"
  by (rule pgt.equality) (auto simp: clear_pages_def vpde_def fun_eq_iff)

lemma clear_pages_frames: "pt_wf ((clear_pages P t)\<lparr>pt_pages := s\<rparr>) = pt_wf t" "mapped ((clear_pages P t)\<lparr>pt_pages := s\<rparr>) = mapped t"
  "pt_pages (t\<lparr>pt_pages := s\<rparr>) = s"
  by (auto simp: pt_wf_def clear_pages_def intro!: mapped_cong)

lemma unmap_pds_eq:
  assumes "pt_wf t" "q \<le> 2 ^ 20"
  shows "p \<le> q \<Longrightarrow> unmap_pds pid t (p div 1024 mod 1024) (4096 * p) (4096 * q) =
    map_option (\<lambda>s. (clear_pages {p ..< q} t)\<lparr>pt_pages := s\<rparr>)
      (put_pages pid (pt_pages t) (concat (map (\<lambda>x. mapped t (vpte t x)) [p ..< q])))"
  using assms
proof (induction "q - p" arbitrary: p t rule: less_induct)
  case less
  show ?case
  proof (cases "p < q")
    case False
    then have "clear_pages {p ..< q} t = t" by (simp add: clear_pages_def)
    then show ?thesis using False by (subst unmap_pds.simps) simp
  next
    case True
    let ?e = "region_end p q" and ?n = "(p div 1024 + 1) * 1024"
    let ?list = "\<lambda>xs. concat (map (\<lambda>x. mapped t (vpte t x)) xs)"
    note b = region_end_bounds [of p q]
    have nxt: "(4096 * p + 2 ^ 22) div 2 ^ 22 * 2 ^ 22 = 4096 * ?n"
    proof -
      have "4096 * p div 4194304 = p div 1024" using div_mult2_eq [of "4096 * p" 4096 1024] by simp
      moreover have "(4096 * p + 4194304) div 4194304 = 4096 * p div 4194304 + 1" by (rule div_add_self2) simp
      ultimately show ?thesis by simp
    qed
    have split: "[p ..< q] = [p ..< ?e] @ [?e ..< q]" using upt_add_eq_append [of p ?e "q - ?e"] b(1) [OF True] b(2) by simp
    have "unmap_pds pid t (p div 1024 mod 1024) (4096 * p) (4096 * q) =
      (case unmap_pte_range pid t (p div 1024 mod 1024) (4096 * p) (4096 * (q - p)) of None \<Rightarrow> None
       | Some t \<Rightarrow> unmap_pds pid t (p div 1024 mod 1024 + 1) (4096 * ?n) (4096 * q))"
      using True by (subst unmap_pds.simps, subst nxt) (simp add: diff_mult_distrib2)
    also have "\<dots> = (case put_pages pid (pt_pages t) (?list [p ..< ?e]) of None \<Rightarrow> None
       | Some s \<Rightarrow> unmap_pds pid ((clear_pages {p ..< ?e} t)\<lparr>pt_pages := s\<rparr>) (p div 1024 mod 1024 + 1) (4096 * ?n) (4096 * q))"
      by (simp add: unmap_pte_range_eq [OF True] split: option.splits)
    also have "\<dots> = (case put_pages pid (pt_pages t) (?list [p ..< ?e]) of None \<Rightarrow> None
       | Some s \<Rightarrow> map_option (\<lambda>s. (clear_pages {p ..< q} t)\<lparr>pt_pages := s\<rparr>) (put_pages pid s (?list [?e ..< q])))"
    proof (cases "?n < q")
      case False
      then have "?e = q" by (simp add: region_end_def)
      moreover have "unmap_pds pid t' i (4096 * ?n) (4096 * q) = Some t'" for t' i
        using False by (subst unmap_pds.simps) simp
      ultimately show ?thesis by (simp split: option.splits)
    next
      case True
      then have e: "?e = ?n" by (simp add: region_end_def)
      have "(p div 1024 + 1) * 1024 < 2 ^ 20" using True less.prems(3) by simp
      then have "p div 1024 + 1 < 1024" by simp
      then have i: "p div 1024 mod 1024 + 1 = ?n div 1024 mod 1024" by simp
      have un: "{p ..< ?n} \<union> {?n ..< q} = {p ..< q}" using b(1) \<open>p < q\<close> True unfolding e by (auto simp: ivl_disj_un)
      have rd: "map (\<lambda>x. mapped t (vpte ((clear_pages {p ..< ?n} t)\<lparr>pt_pages := s\<rparr>) x)) [?n ..< q] =
          map (\<lambda>x. mapped t (vpte t x)) [?n ..< q]" for s
        using less.prems True by (intro map_cong refl arg_cong [of _ _ "mapped t"] vpte_clear) auto
      have step: "unmap_pds pid ((clear_pages {p ..< ?n} t)\<lparr>pt_pages := s\<rparr>) (?n div 1024 mod 1024) (4096 * ?n) (4096 * q) =
         map_option (\<lambda>s'. (clear_pages {p ..< q} t)\<lparr>pt_pages := s, pt_pages := s'\<rparr>) (put_pages pid s (?list [?n ..< q]))" for s
        using less.hyps [of ?n "(clear_pages {p ..< ?n} t)\<lparr>pt_pages := s\<rparr>"] True b(1) [OF \<open>p < q\<close>] less.prems
        unfolding e clear_pages_frames rd clear_pages_clear un by linarith
      show ?thesis unfolding e i step by (simp split: option.split)
    qed
    finally show ?thesis unfolding split by (simp add: put_pages_append split: option.splits)
  qed
qed

text \<open>C9: Unmapping a range of pages, region by region, is the same as clearing exactly the
  entries of its pages and dropping, in address order, a reference to every page that
  was mapped there; it fails only when dropping one of them trips an assertion.\<close>

theorem unmap_page_range_exact:
  assumes "pt_wf t" "p + n \<le> 2 ^ 19"
  shows "unmap_page_range pid t (4096 * p) (4096 * n) =
    map_option (\<lambda>s. (clear_pages {p ..< p + n} t)\<lparr>pt_pages := s\<rparr>)
      (put_pages pid (pt_pages t) (concat (map (\<lambda>x. mapped t (vpte t x)) [p ..< p + n])))"
proof -
  have "p div 1024 mod 1024 = pde_offset (4096 * p)"
    using div_mult2_eq [of "4096 * p" 4096 1024] by (simp add: pde_offset_def)
  then show ?thesis
    using unmap_pds_eq [OF assms(1), of "p + n" p pid] assms(2)
    by (simp add: unmap_page_range_def distrib_left)
qed

definition pgt_example :: pgt where
  "pgt_example = \<lparr>pd_ents = (\<lambda>i. if i = 0 then 0x5007 else 0), frames = (\<lambda>fr j. if fr = 5 \<and> j = 3 then 0x7007 else 0),
     pt_pages = buddy_example\<lparr>pg_count := (\<lambda>_. 2)\<rparr>, empty_bad_page = 0x80009000\<rparr>"

theorem unmap_page_range_exact_witness:
  "\<exists>t. unmap_page_range 1 pgt_example 0x2000 0x4000 = Some t \<and> vpte pgt_example 3 = 0x7007 \<and> vpte t 3 = 0 \<and>
     pg_count (pt_pages t) 7 = 1"
proof -
  have "pt_wf pgt_example" by (auto simp: pt_wf_def pgt_example_def pe_present_def)
  note ex = unmap_page_range_exact [OF this, of 2 4 1]
  have "[2 ..< 2 + 4] = [2, 3, 4, 5 :: nat]" by (simp add: upt_rec)
  with ex show ?thesis
    by (simp add: pgt_example_def mapped_def vpte_def vpde_def pe_present_def pte_bad_def pe_frame_def PAGE_MASK_def
        put_page_def clear_pages_def)
qed

section \<open>The page of failed faults\<close>

text \<open>The address of the page that \<^verbatim>\<open>__bad_page\<close> puts into an entry is physical, the check
  of \<^verbatim>\<open>__pte_bad\<close> compares with the virtual address: it never holds.\<close>

definition mk_pte :: "u32 \<Rightarrow> u32 \<Rightarrow> u32" where
  "mk_pte vir attr = (vir - 0x80000000) OR attr"

definition bad_page :: "pgt \<Rightarrow> u32" where
  "bad_page t = mk_pte (empty_bad_page t) (PG_RW OR PG_USER OR PG_PRESENT)"

lemma pe_present_odd: "pe_present e \<longleftrightarrow> odd e"
  by (simp add: pe_present_def and_one_eq mod2_eq_if)

lemma bad_page_not_recognised: "pe_present (bad_page t) \<and> \<not> pte_bad t (bad_page t)"
proof -
  have ne: "((v - 0x80000000) OR 7) AND NOT 4095 \<noteq> v" for v :: u32
  proof
    assume eq: "((v - 0x80000000) OR 7) AND NOT 4095 = v"
    have "drop_bit 31 ((x OR mask 3) AND NOT (mask 12)) = drop_bit 31 x" for x :: u32
      by (rule bit_word_eqI) (auto simp: bit_simps dest: bit_imp_le_length)
    moreover have "mask 3 = (7 :: u32)" "mask 12 = (4095 :: u32)" by (simp_all add: mask_eq_exp_minus_1)
    ultimately have "drop_bit 31 (v - 0x80000000) = drop_bit 31 v" using eq by metis
    then have "unat (drop_bit 31 (v - 0x80000000)) = unat (drop_bit 31 v)" by simp
    then have "unat (v - 0x80000000) div 2 ^ 31 = unat v div 2 ^ 31"
      unfolding unsigned_drop_bit_eq using unsigned_less [of v] unsigned_less [of "v - 0x80000000"]
      by (simp add: drop_bit_eq_div take_bit_nat_eq_self)
    then show False
      using unsigned_less [of v] unat_sub_if' [of v "0x80000000"] by (auto split: if_splits)
  qed
  have "pe_present (bad_page t)"
    by (simp add: pe_present_odd bad_page_def mk_pte_def PG_RW_def PG_USER_def PG_PRESENT_def even_or_iff)
  then show ?thesis
    using ne [of "empty_bad_page t"]
    by (simp add: pte_bad_def bad_page_def mk_pte_def PG_RW_def PG_USER_def PG_PRESENT_def PAGE_MASK_def)
qed

end
