(* ===== verification/Vma.thy ===== *)
theory Vma
  imports Page_Table "HOL-Library.Multiset"
begin

text \<open>
  The memory areas of a process: \<^verbatim>\<open>src/src/mm/mm.c\<close>, \<^verbatim>\<open>verify_area\<close> of
  \<^verbatim>\<open>src/src/mm/uaccess.c\<close> and \<^verbatim>\<open>generic_file_mmap\<close> of \<^verbatim>\<open>src/src/mm/filemap.c\<close>, the only
  \<^verbatim>\<open>mmap\<close> operation of a file. The list of areas that \<^verbatim>\<open>mm->mmap\<close> heads is a list.
  Reference counts of files and inodes are counters, the calls through \<^verbatim>\<open>vm_ops\<close> are
  recorded in order, whether a \<^verbatim>\<open>kmalloc\<close> succeeds is read from a list of outcomes (an
  exhausted list means success). The share rings of \<^verbatim>\<open>VM_SHARED\<close> areas and the locks
  are left out. A failed assertion is \<^term>\<open>None\<close>.
\<close>

section \<open>Model\<close>

text \<open>The two tables of area operations and the members each has.\<close>

datatype vm_operations = File_shared_mmap | File_private_mmap

record vma =
  vm_start :: u32
  vm_end :: u32
  vm_flags :: u32
  vm_page_prot :: u32
  vm_file :: "nat option"
  vm_inode :: "nat option"
  vm_offset :: u32
  vm_ops :: "vm_operations option"

definition has_open :: "vma \<Rightarrow> bool" where
  "has_open v \<longleftrightarrow> False"

definition has_close :: "vma \<Rightarrow> bool" where
  "has_close v \<longleftrightarrow> vm_ops v = Some File_shared_mmap"

definition has_sync :: "vma \<Rightarrow> bool" where
  "has_sync v \<longleftrightarrow> vm_ops v = Some File_shared_mmap"

definition has_unmap :: "vma \<Rightarrow> bool" where
  "has_unmap v \<longleftrightarrow> vm_ops v = Some File_shared_mmap"

datatype vm_call = VmOpen vma | VmClose vma | VmUnmap vma u32 u32 | VmSync vma u32 u32 u32

record mmst =
  mmap :: "vma list"
  brk :: u32
  start_brk :: u32
  end_code :: u32
  frefs :: "nat \<Rightarrow> int"
  irefs :: "nat \<Rightarrow> int"
  calls :: "vm_call list"
  kmallocs :: "bool list"
  pt :: pgt

definition KERNEL_BASE :: u32 where
  "KERNEL_BASE = 0x80000000"

definition MAP_SHARED :: u32 where "MAP_SHARED = 1"
definition MAP_PRIVATE :: u32 where "MAP_PRIVATE = 2"
definition MAP_TYPE :: u32 where "MAP_TYPE = 0xf"
definition MAP_FIXED :: u32 where "MAP_FIXED = 0x10"
definition MAP_ANONYMOUS :: u32 where "MAP_ANONYMOUS = 0x20"

definition vma_kmalloc :: "mmst \<Rightarrow> bool \<times> mmst" where
  "vma_kmalloc m = (case kmallocs m of [] \<Rightarrow> (True, m) | b # bs \<Rightarrow> (b, m\<lparr>kmallocs := bs\<rparr>))"

definition call :: "vm_call \<Rightarrow> mmst \<Rightarrow> mmst" where
  "call c m = m\<lparr>calls := calls m @ [c]\<rparr>"

text \<open>Taking and dropping the reference an area has on its file or else its inode.\<close>

definition ref_backing :: "vma \<Rightarrow> mmst \<Rightarrow> mmst" where
  "ref_backing v m =
     (case vm_file v of
        Some f \<Rightarrow> m\<lparr>frefs := (frefs m)(f := frefs m f + 1)\<rparr>
      | None \<Rightarrow> (case vm_inode v of Some i \<Rightarrow> m\<lparr>irefs := (irefs m)(i := irefs m i + 1)\<rparr> | None \<Rightarrow> m))"

definition put_backing :: "vma \<Rightarrow> mmst \<Rightarrow> mmst" where
  "put_backing v m =
     (case vm_file v of
        Some f \<Rightarrow> m\<lparr>frefs := (frefs m)(f := frefs m f - 1)\<rparr>
      | None \<Rightarrow> (case vm_inode v of Some i \<Rightarrow> m\<lparr>irefs := (irefs m)(i := irefs m i - 1)\<rparr> | None \<Rightarrow> m))"

fun merge_vmas :: "vma list \<Rightarrow> vma list" where
  "merge_vmas (p1 # p2 # vs) =
     (if vm_end p1 = vm_start p2 \<and> vm_flags p1 = vm_flags p2 \<and> vm_flags p1 AND VM_SHARED = 0 \<and>
         vm_file p1 = None \<and> vm_file p2 = None \<and> vm_inode p1 = None \<and> vm_inode p2 = None
      then merge_vmas (p1\<lparr>vm_end := vm_end p2\<rparr> # vs)
      else p1 # merge_vmas (p2 # vs))"
| "merge_vmas vs = vs"

definition merge_mmap :: "mmst \<Rightarrow> mmst" where
  "merge_mmap m = m\<lparr>mmap := merge_vmas (mmap m)\<rparr>"

fun get_vm_size :: "vma list \<Rightarrow> u32" where
  "get_vm_size [] = 0"
| "get_vm_size (v # vs) = vm_end v - vm_start v + get_vm_size vs"

fun verify_vm :: "vma list \<Rightarrow> bool" where
  "verify_vm [] = True"
| "verify_vm (v # vs) =
     (vm_start v < vm_end v \<and> PAGE_ALIGN (vm_start v) = vm_start v \<and> PAGE_ALIGN (vm_end v) = vm_end v \<and>
      (case vs of [] \<Rightarrow> True | w # _ \<Rightarrow> vm_end v \<le> vm_start w) \<and> verify_vm vs)"

text \<open>The area and those after it, as a pointer into the list gives access to them.\<close>

fun find_vma :: "vma list \<Rightarrow> u32 \<Rightarrow> vma list" where
  "find_vma [] addr = []"
| "find_vma (v # vs) addr = (if addr < vm_end v then v # vs else find_vma vs addr)"

definition find_vma_intersection :: "vma list \<Rightarrow> u32 \<Rightarrow> u32 \<Rightarrow> vma option" where
  "find_vma_intersection vs start_addr end_addr =
     (case find_vma vs start_addr of
        [] \<Rightarrow> None
      | v # _ \<Rightarrow> if end_addr \<le> vm_start v then None else Some v)"

fun insert_vma :: "vma list \<Rightarrow> vma \<Rightarrow> vma list option" where
  "insert_vma [] v = Some [v]"
| "insert_vma (w # ws) v =
     (if vm_start v < vm_start w
      then (if vm_end v \<le> vm_start w then Some (v # w # ws) else None)
      else if vm_end w \<le> vm_start v then map_option (Cons w) (insert_vma ws v) else None)"

definition insert_vm_struct :: "mmst \<Rightarrow> vma \<Rightarrow> mmst option" where
  "insert_vm_struct m v =
     (case insert_vma (mmap m) v of
        None \<Rightarrow> None
      | Some vs \<Rightarrow> if verify_vm vs then Some (m\<lparr>mmap := vs\<rparr>) else None)"

text \<open>Closing an area: the call of its operation, then its backing.\<close>

fun exit_vmas :: "vma list \<Rightarrow> mmst \<Rightarrow> mmst" where
  "exit_vmas [] m = m"
| "exit_vmas (v # vs) m = exit_vmas vs (put_backing v (if has_close v then call (VmClose v) m else m))"

definition exit_mmap :: "mmst \<Rightarrow> mmst" where
  "exit_mmap m = exit_vmas (mmap m) (m\<lparr>mmap := []\<rparr>)"

text \<open>\<^verbatim>\<open>dup_mmap\<close> copies the areas of the parent \<open>vs\<close> into the child.\<close>

fun dup_vmas :: "vma list \<Rightarrow> mmst \<Rightarrow> bool \<times> mmst" where
  "dup_vmas [] m = (True, m)"
| "dup_vmas (v # vs) m =
     (let (ok, m) = vma_kmalloc m
      in if \<not> ok then (False, m)
         else
           let m = ref_backing v m;
               m = (if has_open v then call (VmOpen v) m else m)
           in dup_vmas vs (m\<lparr>mmap := mmap m @ [v]\<rparr>))"

definition dup_mmap :: "vma list \<Rightarrow> mmst \<Rightarrow> (errno + unit) \<times> mmst" where
  "dup_mmap vs m =
     (let (ok, m) = dup_vmas vs (m\<lparr>mmap := []\<rparr>)
      in if ok then (Inr (), m) else (Inl ENOMEM, exit_mmap m))"

text \<open>The last part of \<^verbatim>\<open>unmap_fixup\<close>: a copy of what is left of the area replaces it.\<close>

definition replace_vma :: "mmst \<Rightarrow> vma \<Rightarrow> mmst option" where
  "replace_vma m v =
     (let (ok, m) = vma_kmalloc m;
          m = ref_backing v m;
          m = (if has_open v then call (VmOpen v) m else m);
          m = (if has_close v then call (VmClose (v\<lparr>vm_end := vm_start v\<rparr>)) m else m)
      in if \<not> ok then None else map_option (put_backing v) (insert_vm_struct m v))"

definition unmap_fixup :: "mmst \<Rightarrow> vma \<Rightarrow> u32 \<Rightarrow> u32 \<Rightarrow> mmst option" where
  "unmap_fixup m v addr len =
     (let endd = addr + len
      in if addr = vm_start v \<and> endd = vm_end v
         then Some (put_backing v (if has_close v then call (VmClose v) m else m))
         else if endd = vm_end v then replace_vma m (v\<lparr>vm_end := addr\<rparr>)
         else if addr = vm_start v
         then replace_vma m (v\<lparr>vm_offset := vm_offset v + (endd - vm_start v), vm_start := endd\<rparr>)
         else
           let (ok, m) = vma_kmalloc m;
               mpnt = v\<lparr>vm_offset := vm_offset v + (endd - vm_start v), vm_start := endd\<rparr>;
               m = ref_backing mpnt m;
               m = (if has_open mpnt then call (VmOpen mpnt) m else m)
           in if \<not> ok then None
              else (case insert_vm_struct m mpnt of
                      None \<Rightarrow> None
                    | Some m \<Rightarrow> replace_vma m (v\<lparr>vm_end := addr\<rparr>)))"

text \<open>The first loop of \<^verbatim>\<open>do_munmap\<close>: the areas kept and the overlapping ones, the last
  found first.\<close>

fun munmap_collect :: "u32 \<Rightarrow> u32 \<Rightarrow> vma list \<Rightarrow> vma list \<Rightarrow> vma list \<times> vma list" where
  "munmap_collect addr endd [] fr = ([], fr)"
| "munmap_collect addr endd (v # vs) fr =
     (if endd \<le> vm_start v then (v # vs, fr)
      else if vm_end v \<le> addr then let (ks, fr) = munmap_collect addr endd vs fr in (v # ks, fr)
      else munmap_collect addr endd vs (v # fr))"

fun munmap_free :: "mmst \<Rightarrow> u32 \<Rightarrow> u32 \<Rightarrow> vma list \<Rightarrow> mmst option" where
  "munmap_free m addr endd [] = Some m"
| "munmap_free m addr endd (v # fr) =
     (let start = max addr (vm_start v);
          stop = min endd (vm_end v);
          m = (if has_unmap v then call (VmUnmap v start (stop - start)) m else m)
      in case unmap_fixup m v start (stop - start) of
           None \<Rightarrow> None
         | Some m \<Rightarrow> munmap_free m addr endd fr)"

definition do_munmap :: "int \<Rightarrow> mmst \<Rightarrow> u32 \<Rightarrow> u32 \<Rightarrow> ((errno + u32) \<times> mmst) option" where
  "do_munmap pid m addr len =
     (if addr AND NOT PAGE_MASK \<noteq> 0 \<or> KERNEL_BASE < addr \<or> KERNEL_BASE - addr < len then Some (Inl EINVAL, m)
      else
        let len = PAGE_ALIGN len
        in if len = 0 then Some (Inr 0, m)
           else
             let (ks, fr) = munmap_collect addr (addr + len) (mmap m) [];
                 m = m\<lparr>mmap := ks\<rparr>
             in if fr = [] then Some (Inr 0, m)
                else (case munmap_free m addr (addr + len) fr of
                        None \<Rightarrow> None
                      | Some m \<Rightarrow> map_option (\<lambda>t. (Inr 0, m\<lparr>pt := t\<rparr>))
                          (unmap_page_range pid (pt m) (unat addr) (unat len))))"

text \<open>\<^verbatim>\<open>sys_msync\<close>: the areas from the first that ends above the start on.\<close>

fun msync_vmas :: "vma list \<Rightarrow> u32 \<Rightarrow> u32 \<Rightarrow> u32 \<Rightarrow> mmst \<Rightarrow> (errno + u32) \<times> mmst" where
  "msync_vmas [] cursor endd flags m = (if cursor < endd then Inl ENOMEM else Inr 0, m)"
| "msync_vmas (v # vs) cursor endd flags m =
     (if endd \<le> vm_start v then (if cursor < endd then Inl ENOMEM else Inr 0, m)
      else if cursor < vm_start v then (Inl ENOMEM, m)
      else
        let start = max cursor (vm_start v);
            stop = min endd (vm_end v);
            m = (if has_sync v \<and> vm_flags v AND VM_SHARED \<noteq> 0 \<and> vm_flags v AND VM_WRITE \<noteq> 0
                 then call (VmSync v start (stop - start) flags) m else m)
        in msync_vmas vs (max cursor (vm_end v)) endd flags m)"

definition sys_msync :: "mmst \<Rightarrow> u32 \<Rightarrow> u32 \<Rightarrow> u32 \<Rightarrow> (errno + u32) \<times> mmst" where
  "sys_msync m addr len flags =
     (if addr AND NOT PAGE_MASK \<noteq> 0 then (Inl EINVAL, m)
      else if KERNEL_BASE < addr \<or> KERNEL_BASE - addr < len then (Inl EINVAL, m)
      else if flags AND NOT 7 \<noteq> 0 \<or> flags AND 4 \<noteq> 0 \<and> flags AND 1 \<noteq> 0 then (Inl EINVAL, m)
      else if len = 0 then (Inr 0, m)
      else
        let len = PAGE_ALIGN len
        in msync_vmas (find_vma (mmap m) addr) addr (addr + len) flags m)"

fun get_unmapped_area :: "vma list \<Rightarrow> u32 \<Rightarrow> u32 \<Rightarrow> u32" where
  "get_unmapped_area vs addr len =
     (if KERNEL_BASE - len < addr then 0
      else case vs of
             [] \<Rightarrow> addr
           | v # vs \<Rightarrow>
               if vm_end v < addr then get_unmapped_area vs addr len
               else if vm_start v < addr + len then get_unmapped_area vs (vm_end v) len
               else addr)"

declare get_unmapped_area.simps [simp del]

definition get_unmapped_area_locked :: "vma list \<Rightarrow> u32 \<Rightarrow> u32 \<Rightarrow> u32" where
  "get_unmapped_area_locked vs addr len =
     (if KERNEL_BASE < len then 0
      else
        let addr = (if addr = 0 then KERNEL_BASE div 2 else addr)
        in get_unmapped_area vs (PAGE_ALIGN addr) len)"

text \<open>What \<^verbatim>\<open>mmap\<close> and \<^verbatim>\<open>generic_file_mmap\<close> look at in an open file.\<close>

record file_info =
  f_id :: nat
  f_inode :: nat
  f_has_mmap :: bool
  f_mode :: u32
  f_regular :: bool
  f_read_page :: bool
  f_write :: bool
  s_rdonly :: bool

definition alloc_vma :: "mmst \<Rightarrow> u32 \<Rightarrow> u32 \<Rightarrow> u32 \<Rightarrow> u32 \<Rightarrow> u32 \<Rightarrow> bool \<Rightarrow> vma option \<times> mmst" where
  "alloc_vma m addr len prot flags off has_file =
     (let (ok, m) = vma_kmalloc m;
          vflags = prot AND (VM_READ OR VM_WRITE OR VM_EXEC);
          vflags = (if flags AND VM_GROWSDOWN \<noteq> 0 then vflags OR VM_GROWSDOWN else vflags);
          vflags = (if flags AND MAP_TYPE = MAP_SHARED then vflags OR VM_SHARED else vflags)
      in (if ok then Some \<lparr>vm_start = addr, vm_end = addr + len, vm_flags = vflags, vm_page_prot = get_page_prot vflags,
            vm_file = None, vm_inode = None, vm_offset = (if has_file then off else 0), vm_ops = None\<rparr> else None, m))"

definition generic_file_mmap :: "file_info \<Rightarrow> vma \<Rightarrow> mmst \<Rightarrow> (errno + vma) \<times> mmst" where
  "generic_file_mmap f v m =
     (if \<not> f_regular f then (Inl EACCES, m)
      else if \<not> f_read_page f then (Inl EACCES, m)
      else if vm_flags v AND VM_SHARED \<noteq> 0 \<and> vm_flags v AND VM_WRITE \<noteq> 0 \<and> \<not> f_write f then (Inl EACCES, m)
      else if vm_flags v AND VM_SHARED \<noteq> 0 \<and> vm_flags v AND VM_WRITE \<noteq> 0 \<and> s_rdonly f then (Inl EROFS, m)
      else
        let ops = (if vm_flags v AND VM_SHARED \<noteq> 0 then File_shared_mmap else File_private_mmap)
        in (Inr (v\<lparr>vm_file := Some (f_id f), vm_inode := Some (f_inode f), vm_ops := Some ops\<rparr>),
            m\<lparr>frefs := (frefs m)(f_id f := frefs m (f_id f) + 1)\<rparr>))"

text \<open>Asking the file to set the area up, inserting and merging it. On an error the file
  reference of the area is dropped, which \<^verbatim>\<open>generic_file_mmap\<close> has not taken then.\<close>

definition install_vma :: "file_info option \<Rightarrow> vma \<Rightarrow> mmst \<Rightarrow> ((errno + u32) \<times> mmst) option" where
  "install_vma file v m =
     (case file of
        None \<Rightarrow> map_option (\<lambda>m. (Inr (vm_start v), merge_mmap m)) (insert_vm_struct m v)
      | Some f \<Rightarrow>
          (case generic_file_mmap f v m of
             (Inl e, m) \<Rightarrow> Some (Inl e, if vm_file v \<noteq> None then put_backing v m else m)
           | (Inr v, m) \<Rightarrow> map_option (\<lambda>m. (Inr (vm_start v), merge_mmap m)) (insert_vm_struct m v)))"

text \<open>The checks of \<^verbatim>\<open>do_mmap\<close> before it changes anything, with the length rounded up;
  \<open>fds\<close> is the table of open files with its \<^verbatim>\<open>NR_OPEN\<close> entries.\<close>

definition mmap_checks :: "u32 \<Rightarrow> u32 \<Rightarrow> u32 \<Rightarrow> u32 \<Rightarrow> file_info option \<Rightarrow> u32 \<Rightarrow> errno option" where
  "mmap_checks addr len prot flags file off =
     (if len = 0 then Some EINVAL
      else if KERNEL_BASE < addr \<or> KERNEL_BASE < len \<or> KERNEL_BASE - len < addr then Some EINVAL
      else if flags AND MAP_FIXED \<noteq> 0 \<and> addr AND NOT PAGE_MASK \<noteq> 0 then Some EINVAL
      else
        case (case file of
                None \<Rightarrow> None
              | Some f \<Rightarrow>
                  if \<not> f_has_mmap f then Some ENODEV
                  else if off AND NOT PAGE_MASK \<noteq> 0 then Some EINVAL
                  else if off + len < off then Some EINVAL else None) of
          Some e \<Rightarrow> Some e
        | None \<Rightarrow>
            if flags AND MAP_TYPE = MAP_SHARED \<and> (case file of None \<Rightarrow> False | Some f \<Rightarrow> prot AND 2 \<noteq> 0 \<and> f_mode f AND 2 = 0)
            then Some EACCES
            else if flags AND MAP_TYPE = MAP_SHARED \<or> flags AND MAP_TYPE = MAP_PRIVATE
            then (case file of None \<Rightarrow> None | Some f \<Rightarrow> if f_mode f AND 1 = 0 then Some EACCES else None)
            else Some EINVAL)"

definition mmap_lookup :: "file_info option list \<Rightarrow> u32 \<Rightarrow> u32 \<Rightarrow> errno + file_info option" where
  "mmap_lookup fds flags fd =
     (if flags AND MAP_ANONYMOUS \<noteq> 0
      then (if fd \<noteq> -1 then Inl EINVAL else Inr None)
      else if unat fd < length fds \<and> fds ! unat fd \<noteq> None then Inr (fds ! unat fd) else Inl EBADF)"

definition do_mmap ::
  "int \<Rightarrow> file_info option list \<Rightarrow> mmst \<Rightarrow> u32 \<Rightarrow> u32 \<Rightarrow> u32 \<Rightarrow> u32 \<Rightarrow> u32 \<Rightarrow> u32 \<Rightarrow> ((errno + u32) \<times> mmst) option" where
  "do_mmap pid fds m addr len prot flags fd off =
     (case mmap_lookup fds flags fd of
        Inl e \<Rightarrow> Some (Inl e, m)
      | Inr file \<Rightarrow>
          let len = PAGE_ALIGN len
          in case mmap_checks addr len prot flags file off of
               Some e \<Rightarrow> Some (Inl e, m)
             | None \<Rightarrow>
                 if flags AND MAP_FIXED = 0 then
                   let addr = get_unmapped_area_locked (mmap m) addr len
                   in if addr = 0 then Some (Inl ENOMEM, m)
                      else
                        (case alloc_vma m addr len prot flags off (file \<noteq> None) of
                           (None, m) \<Rightarrow> Some (Inl ENOMEM, m)
                         | (Some v, m) \<Rightarrow> install_vma file v m)
                 else
                   (case alloc_vma m addr len prot flags off (file \<noteq> None) of
                      (None, m) \<Rightarrow> Some (Inl ENOMEM, m)
                    | (Some v, m) \<Rightarrow>
                        (case do_munmap pid m addr len of
                           None \<Rightarrow> None
                         | Some (_, m) \<Rightarrow> install_vma file v m)))"

definition sys_brk :: "int \<Rightarrow> u32 \<Rightarrow> mmst \<Rightarrow> u32 \<Rightarrow> ((errno + u32) \<times> mmst) option" where
  "sys_brk pid rlim m b =
     (if b = 0 then Some (Inr (brk m), m)
      else if b < start_brk m then None
      else
        let newbrk = PAGE_ALIGN b; oldbrk = PAGE_ALIGN (brk m)
        in if oldbrk = newbrk then Some (Inr b, m\<lparr>brk := b\<rparr>)
           else if b < brk m then
             (case do_munmap pid m newbrk (oldbrk - newbrk) of
                None \<Rightarrow> None
              | Some (Inl e, m) \<Rightarrow> Some (Inl e, m)
              | Some (Inr _, m) \<Rightarrow> Some (Inr b, m\<lparr>brk := b\<rparr>))
           else if rlim < b - end_code m then Some (Inl ENOMEM, m)
           else if find_vma_intersection (mmap m) oldbrk (newbrk + 4096) \<noteq> None then Some (Inl ENOMEM, m)
           else
             (case do_mmap pid [] m oldbrk (newbrk - oldbrk) 7 (MAP_FIXED OR MAP_PRIVATE OR MAP_ANONYMOUS) (-1) 0 of
                None \<Rightarrow> None
              | Some (Inl e, m) \<Rightarrow> Some (Inl e, m)
              | Some (Inr _, m) \<Rightarrow> Some (Inr b, m\<lparr>brk := b\<rparr>)))"

fun mprotect_vmas :: "vma list \<Rightarrow> u32 \<Rightarrow> u32 \<Rightarrow> u32 \<Rightarrow> vma list" where
  "mprotect_vmas [] start endd prot = []"
| "mprotect_vmas (v # vs) start endd prot =
     (if endd \<le> vm_start v then v # vs
      else if vm_end v \<le> start then v # mprotect_vmas vs start endd prot
      else
        let flags = (vm_flags v AND NOT (VM_READ OR VM_WRITE OR VM_EXEC)) OR prot
        in v\<lparr>vm_flags := flags, vm_page_prot := get_page_prot flags\<rparr> # mprotect_vmas vs start endd prot)"

definition sys_mprotect :: "mmst \<Rightarrow> u32 \<Rightarrow> u32 \<Rightarrow> u32 \<Rightarrow> (errno + u32) \<times> mmst" where
  "sys_mprotect m start len prot =
     (let vma_prot = prot AND (VM_READ OR VM_WRITE OR VM_EXEC)
      in if KERNEL_BASE < start \<or> KERNEL_BASE - start < len then (Inl EINVAL, m)
         else
           let start = start AND PAGE_MASK; len = PAGE_ALIGN len
           in if len = 0 then (Inr 0, m)
              else (Inr 0, m\<lparr>mmap := mprotect_vmas (mmap m) start (start + len) vma_prot,
                             pt := protect_page_range (pt m) (unat start) (unat len) vma_prot\<rparr>))"

subsection \<open>Access checks\<close>

fun verify_vmas :: "u32 \<Rightarrow> u32 \<Rightarrow> u32 \<Rightarrow> vma list \<Rightarrow> bool" where
  "verify_vmas right start sz [] = False"
| "verify_vmas right start sz (v # vs) =
     (if vm_flags v AND right = 0 then False
      else if sz \<le> vm_end v - start then True
      else case vs of
             [] \<Rightarrow> False
           | w # _ \<Rightarrow> if vm_end v \<noteq> vm_start w then False else verify_vmas right start sz vs)"

text \<open>\<open>kernel_fs\<close> tells that the segment registers name kernel memory.\<close>

definition verify_area :: "mmst \<Rightarrow> bool \<Rightarrow> u32 \<Rightarrow> bool \<Rightarrow> u32 \<Rightarrow> u32 \<Rightarrow> errno + unit" where
  "verify_area m kernel_fs rlim_stack verify_write start sz =
     (if kernel_fs then Inr ()
      else
        case find_vma (mmap m) start of
          [] \<Rightarrow> Inl EFAULT
        | v # vs \<Rightarrow>
            if \<not> vm_start v \<le> start \<and> (vm_flags v AND VM_GROWSDOWN = 0 \<or> rlim_stack < vm_end v - start)
            then Inl EFAULT
            else if verify_vmas (if verify_write then VM_WRITE else VM_READ) start sz (v # vs) then Inr () else Inl EFAULT)"

section \<open>Well-formed lists of areas\<close>

definition page_aligned :: "u32 \<Rightarrow> bool" where
  "page_aligned a \<longleftrightarrow> 4096 dvd unat a"

lemma unat_PAGE_ALIGN:
  assumes "unat x \<le> 2 ^ 32 - 4096"
  shows "unat (PAGE_ALIGN x) = (unat x + 4095) div 4096 * 4096"
proof -
  have "unat (x + 4095) = unat x + 4095" using assms by (simp add: unat_word_ariths)
  then show ?thesis
    using unat_and_not_mask [of "x + 4095" 12] by (simp add: PAGE_ALIGN_def mask_eq_exp_minus_1)
qed

lemma round_up_eq: "(x + 4095) div 4096 * 4096 = x \<longleftrightarrow> 4096 dvd x" for x :: nat
proof
  assume "(x + 4095) div 4096 * 4096 = x"
  then show "4096 dvd x" by (metis dvd_triv_right)
next
  assume "4096 dvd x"
  then obtain k where "x = 4096 * k" by (rule dvdE)
  then show "(x + 4095) div 4096 * 4096 = x" by simp
qed

lemma PAGE_ALIGN_eq_iff: "unat x \<le> 2 ^ 31 \<Longrightarrow> PAGE_ALIGN x = x \<longleftrightarrow> page_aligned x"
proof -
  assume x: "unat x \<le> 2 ^ 31"
  then have "PAGE_ALIGN x = x \<longleftrightarrow> (unat x + 4095) div 4096 * 4096 = unat x"
    using unat_PAGE_ALIGN [of x] by (simp add: word_unat_eq_iff)
  also have "\<dots> \<longleftrightarrow> 4096 dvd unat x" by (rule round_up_eq)
  finally show ?thesis by (simp add: page_aligned_def)
qed

lemma and_not_PAGE_MASK: "addr AND NOT PAGE_MASK = 0 \<longleftrightarrow> page_aligned addr"
proof -
  have "addr AND NOT PAGE_MASK = take_bit 12 addr"
    by (simp add: PAGE_MASK_def take_bit_eq_mask mask_eq_exp_minus_1)
  moreover have "unat (take_bit 12 addr) = unat addr mod 4096"
    by (simp only: unsigned_take_bit_eq) (simp add: take_bit_eq_mod)
  ultimately show ?thesis by (simp add: word_unat_eq_iff page_aligned_def dvd_eq_mod_eq_0)
qed

definition vma_ok :: "vma \<Rightarrow> bool" where
  "vma_ok v \<longleftrightarrow> vm_start v < vm_end v \<and> page_aligned (vm_start v) \<and> page_aligned (vm_end v) \<and> vm_end v \<le> KERNEL_BASE"

definition vmas_ok :: "vma list \<Rightarrow> bool" where
  "vmas_ok vs \<longleftrightarrow> (\<forall>v \<in> set vs. vma_ok v) \<and> sorted_wrt (\<lambda>v w. vm_end v \<le> vm_start w) vs"

lemma vmas_ok_Cons: "vmas_ok (v # vs) \<longleftrightarrow> vma_ok v \<and> (\<forall>w \<in> set vs. vm_end v \<le> vm_start w) \<and> vmas_ok vs"
  by (auto simp: vmas_ok_def)

lemma vmas_ok_Nil [simp]: "vmas_ok []"
  by (simp add: vmas_ok_def)

lemma KERNEL_BASE_le: "x \<le> KERNEL_BASE \<longleftrightarrow> unat x \<le> 2 ^ 31"
  by (simp add: KERNEL_BASE_def word_le_nat_alt)

lemma vma_ok_verify: "vma_ok v \<Longrightarrow> PAGE_ALIGN (vm_start v) = vm_start v \<and> PAGE_ALIGN (vm_end v) = vm_end v"
  using PAGE_ALIGN_eq_iff by (auto simp: vma_ok_def KERNEL_BASE_le word_less_nat_alt)

lemma vmas_ok_verify: "vmas_ok vs \<Longrightarrow> verify_vm vs"
proof (induction vs rule: verify_vm.induct)
  case (2 v vs)
  then show ?case using vma_ok_verify [of v]
    by (cases vs) (auto simp: vmas_ok_Cons vma_ok_def)
qed simp

text \<open>Two areas that do not overlap.\<close>

definition apart :: "vma \<Rightarrow> vma \<Rightarrow> bool" where
  "apart v w \<longleftrightarrow> vm_end v \<le> vm_start w \<or> vm_end w \<le> vm_start v"

lemma insert_vma_law:
  assumes "vmas_ok vs" "vma_ok v" "\<forall>w \<in> set vs. apart v w"
  shows "\<exists>vs'. insert_vma vs v = Some vs' \<and> vmas_ok vs' \<and> mset vs' = add_mset v (mset vs)"
  using assms
proof (induction vs)
  case Nil
  then show ?case by (simp add: vmas_ok_Cons)
next
  case (Cons w ws)
  then have w: "vma_ok w" "vmas_ok ws" "apart v w" "\<forall>u \<in> set ws. vm_end w \<le> vm_start u" by (auto simp: vmas_ok_Cons)
  show ?case
  proof (cases "vm_start v < vm_start w")
    case True
    then have le: "vm_end v \<le> vm_start w" using w(1,3) Cons.prems(2) by (auto simp: apart_def vma_ok_def)
    moreover have "vm_end v \<le> vm_start u" if "u \<in> set ws" for u
      using le w(1,4) that unfolding vma_ok_def by (meson order.trans order_less_imp_le)
    ultimately show ?thesis using True Cons.prems w by (auto simp: vmas_ok_Cons)
  next
    case False
    then have le: "vm_end w \<le> vm_start v" using w(1,3) Cons.prems(2) by (auto simp: apart_def vma_ok_def)
    obtain vs' where "insert_vma ws v = Some vs'" "vmas_ok vs'" "mset vs' = add_mset v (mset ws)"
      using Cons.IH w(2) Cons.prems by auto
    moreover have "set vs' = insert v (set ws)" using calculation(3) by (metis set_mset_add_mset_insert set_mset_mset)
    ultimately show ?thesis using False le w by (auto simp: vmas_ok_Cons)
  qed
qed

lemma insert_vm_struct_law:
  assumes "vmas_ok (mmap m)" "vma_ok v" "\<forall>w \<in> set (mmap m). apart v w"
  obtains vs' where "insert_vm_struct m v = Some (m\<lparr>mmap := vs'\<rparr>)" "vmas_ok vs'" "mset vs' = add_mset v (mset (mmap m))"
  using insert_vma_law [OF assms] vmas_ok_verify by (auto simp: insert_vm_struct_def)

subsection \<open>What is mapped where\<close>

text \<open>The attributes of an address in an area: flags, backing and, for a backed area, the
  offset in the backing.\<close>

type_synonym attributes = "u32 \<times> nat option \<times> nat option \<times> u32"

definition attr :: "vma \<Rightarrow> u32 \<Rightarrow> attributes" where
  "attr v a = (vm_flags v, vm_file v, vm_inode v,
     if vm_file v = None \<and> vm_inode v = None then 0 else vm_offset v + (a - vm_start v))"

definition covers :: "vma \<Rightarrow> u32 set" where
  "covers v = {vm_start v ..< vm_end v}"

definition view :: "vma list \<Rightarrow> (u32 \<times> attributes) set" where
  "view vs = {(a, attr v a) |v a. v \<in> set vs \<and> a \<in> covers v}"

lemma view_Cons: "view (v # vs) = (\<lambda>a. (a, attr v a)) ` covers v \<union> view vs"
  by (auto simp: view_def)

lemma view_mset: "mset vs = mset ws \<Longrightarrow> view vs = view ws"
  using mset_eq_setD [of vs ws] by (simp add: view_def)

lemma merge_vmas_view:
  assumes "vmas_ok vs"
  shows "vmas_ok (merge_vmas vs) \<and> view (merge_vmas vs) = view vs \<and>
    (\<forall>a. (\<forall>v \<in> set vs. a \<le> vm_start v) \<longrightarrow> (\<forall>v \<in> set (merge_vmas vs). a \<le> vm_start v))"
  using assms
proof (induction vs rule: merge_vmas.induct)
  case (1 p1 p2 vs)
  show ?case
  proof (cases "vm_end p1 = vm_start p2 \<and> vm_flags p1 = vm_flags p2 \<and> vm_flags p1 AND VM_SHARED = 0 \<and>
         vm_file p1 = None \<and> vm_file p2 = None \<and> vm_inode p1 = None \<and> vm_inode p2 = None")
    case True
    let ?p = "p1\<lparr>vm_end := vm_end p2\<rparr>"
    have ok: "vmas_ok (?p # vs)"
      using "1.prems" True by (auto simp: vmas_ok_Cons vma_ok_def)
    have "vm_start p1 \<le> vm_end p1" "vm_start p2 \<le> vm_end p2"
      using "1.prems" by (auto simp: vmas_ok_Cons vma_ok_def)
    then have "covers ?p = covers p1 \<union> covers p2"
      using True ivl_disj_un_two(3) [of "vm_start p1" "vm_end p1" "vm_end p2"] by (simp add: covers_def)
    moreover have "attr ?p = attr p1" "attr p2 = attr p1" using True by (auto simp: attr_def fun_eq_iff)
    ultimately have "view (?p # vs) = view (p1 # p2 # vs)" by (auto simp: view_Cons)
    moreover have "merge_vmas (p1 # p2 # vs) = merge_vmas (?p # vs)" 
      by (rule trans [OF merge_vmas.simps(1) if_P [OF True]])
    moreover have "\<forall>v \<in> set (?p # vs). a \<le> vm_start v" if "\<forall>v \<in> set (p1 # p2 # vs). a \<le> vm_start v" for a
      using that by simp
    ultimately show ?thesis using "1.IH"(1) [OF True ok] by metis
  next
    case False
    then have eq: "merge_vmas (p1 # p2 # vs) = p1 # merge_vmas (p2 # vs)"
      by (rule trans [OF merge_vmas.simps(1) if_not_P])
    have ok: "vmas_ok (p2 # vs)" using "1.prems" by (simp add: vmas_ok_Cons)
    have p1: "vma_ok p1" "\<forall>v \<in> set (p2 # vs). vm_end p1 \<le> vm_start v" using "1.prems" by (simp_all add: vmas_ok_Cons)
    define ws where "ws = merge_vmas (p2 # vs)"
    have IH: "vmas_ok ws" "view ws = view (p2 # vs)"
      "(\<forall>v \<in> set (p2 # vs). a \<le> vm_start v) \<Longrightarrow> (\<forall>v \<in> set ws. a \<le> vm_start v)" for a
      using "1.IH"(2) [OF False ok] unfolding ws_def by blast+
    have A: "vmas_ok (p1 # ws)" using p1(1) IH(1) IH(3) [OF p1(2)] by (simp add: vmas_ok_Cons)
    have B: "view (p1 # ws) = view (p1 # p2 # vs)" unfolding view_Cons [of p1] IH(2) ..
    have "\<forall>v \<in> set (p1 # ws). a \<le> vm_start v" if "\<forall>v \<in> set (p1 # p2 # vs). a \<le> vm_start v" for a
      using that IH(3) [of a] unfolding list.set by blast
    then show ?thesis unfolding eq ws_def [symmetric] using A B by (intro conjI allI impI)
  qed
qed simp_all

section \<open>Unmapping\<close>

definition keeps :: "u32 \<Rightarrow> u32 \<Rightarrow> vma \<Rightarrow> bool" where
  "keeps addr endd v \<longleftrightarrow> endd \<le> vm_start v \<or> vm_end v \<le> addr"

lemma munmap_collect_eq:
  assumes "vmas_ok vs" "addr < endd"
  shows "munmap_collect addr endd vs fr = (filter (keeps addr endd) vs, rev (filter (\<lambda>v. \<not> keeps addr endd v) vs) @ fr)"
  using assms(1)
proof (induction addr endd vs fr rule: munmap_collect.induct)
  case (2 addr endd v vs fr)
  have later: "endd \<le> vm_start w" if "endd \<le> vm_start v" "w \<in> set vs" for w
  proof -
    have "vm_start v < vm_end v" "vm_end v \<le> vm_start w" using 2(3) that(2) by (auto simp: vmas_ok_Cons vma_ok_def)
    then show ?thesis using that(1) by simp
  qed
  show ?case
  proof (cases "endd \<le> vm_start v")
    case True
    then have "filter (keeps addr endd) vs = vs" "filter (\<lambda>v. \<not> keeps addr endd v) vs = []"
      using later by (auto simp: keeps_def filter_id_conv filter_empty_conv)
    moreover have "keeps addr endd v" using True by (simp add: keeps_def)
    ultimately show ?thesis using True by simp
  next
    case False
    then show ?thesis using 2 by (auto simp: keeps_def vmas_ok_Cons)
  qed
qed simp

text \<open>What is left of an area that the range overlaps.\<close>

definition pieces :: "u32 \<Rightarrow> u32 \<Rightarrow> vma \<Rightarrow> vma list" where
  "pieces addr endd v =
     (if vm_start v < addr then [v\<lparr>vm_end := addr\<rparr>] else []) @
     (if endd < vm_end v then [v\<lparr>vm_offset := vm_offset v + (endd - vm_start v), vm_start := endd\<rparr>] else [])"

lemma pieces_view:
  assumes "addr < endd" "\<not> keeps addr endd v"
  shows "view (pieces addr endd v) = {(a, x) \<in> view [v]. a \<notin> {addr ..< endd}}"
proof -
  have "attr (v\<lparr>vm_offset := vm_offset v + (endd - vm_start v), vm_start := endd\<rparr>) = attr v"
    "attr (v\<lparr>vm_end := addr\<rparr>) = attr v"
    by (auto simp: attr_def fun_eq_iff)
  then have "view (pieces addr endd v) = (\<lambda>a. (a, attr v a)) ` ({vm_start v ..< addr} \<union> {endd ..< vm_end v})"
    by (simp add: pieces_def view_Cons covers_def image_Un) (simp add: view_def)
  also have "{vm_start v ..< addr} \<union> {endd ..< vm_end v} = covers v - {addr ..< endd}"
    using assms by (auto simp: covers_def keeps_def)
  finally show ?thesis by (auto simp: view_def)
qed

lemma pieces_ok:
  assumes "vma_ok v" "page_aligned addr" "page_aligned endd" "endd \<le> KERNEL_BASE" "\<not> keeps addr endd v" "addr < endd"
  shows "\<forall>w \<in> set (pieces addr endd v). vma_ok w \<and> vm_start v \<le> vm_start w \<and> vm_end w \<le> vm_end v \<and> keeps addr endd w"
  using assms by (auto simp: pieces_def vma_ok_def keeps_def)

text \<open>The references areas have on files and inodes.\<close>

definition fcount :: "nat \<Rightarrow> vma multiset \<Rightarrow> int" where
  "fcount f V = int (size (filter_mset (\<lambda>v. vm_file v = Some f) V))"

definition icount :: "nat \<Rightarrow> vma multiset \<Rightarrow> int" where
  "icount i V = int (size (filter_mset (\<lambda>v. vm_file v = None \<and> vm_inode v = Some i) V))"

lemma count_add [simp]:
  "fcount f (V + W) = fcount f V + fcount f W" "icount i (V + W) = icount i V + icount i W"
  "fcount f {#} = 0" "icount i {#} = 0"
  by (simp_all add: fcount_def icount_def)

lemma count_add_mset:
  "fcount f (add_mset v V) = fcount f {#v#} + fcount f V" "icount i (add_mset v V) = icount i {#v#} + icount i V"
  by (simp_all add: fcount_def icount_def)

lemma count_two [simp]:
  "fcount f (add_mset v (add_mset w V)) = fcount f {#v#} + fcount f (add_mset w V)"
  "icount i (add_mset v (add_mset w V)) = icount i {#v#} + icount i (add_mset w V)"
  by (rule count_add_mset)+

lemma backing_counts:
  "frefs (ref_backing v m) f = frefs m f + fcount f {#v#}" "irefs (ref_backing v m) i = irefs m i + icount i {#v#}"
  "frefs (put_backing v m) f = frefs m f - fcount f {#v#}" "irefs (put_backing v m) i = irefs m i - icount i {#v#}"
  by (auto simp: ref_backing_def put_backing_def fcount_def icount_def split: option.splits)

lemma backing_frame [simp]:
  "mmap (ref_backing v m) = mmap m" "pt (ref_backing v m) = pt m" "kmallocs (ref_backing v m) = kmallocs m"
  "brk (ref_backing v m) = brk m" "start_brk (ref_backing v m) = start_brk m"
  "mmap (put_backing v m) = mmap m" "pt (put_backing v m) = pt m" "kmallocs (put_backing v m) = kmallocs m"
  "brk (put_backing v m) = brk m" "start_brk (put_backing v m) = start_brk m"
  by (auto simp: ref_backing_def put_backing_def split: option.splits)

lemma call_frame [simp]:
  "mmap (call c m) = mmap m" "pt (call c m) = pt m" "kmallocs (call c m) = kmallocs m"
  "frefs (call c m) = frefs m" "irefs (call c m) = irefs m" "brk (call c m) = brk m" "start_brk (call c m) = start_brk m"
  by (simp_all add: call_def)

lemma vma_kmalloc_ok:
  assumes "False \<notin> set (kmallocs m)"
  obtains m' where "vma_kmalloc m = (True, m')" "False \<notin> set (kmallocs m')" "mmap m' = mmap m" "pt m' = pt m"
    "frefs m' = frefs m" "irefs m' = irefs m" "brk m' = brk m" "start_brk m' = start_brk m"
  using assms by (cases "kmallocs m") (auto simp: vma_kmalloc_def)

text \<open>An area whose copy takes over its references: the files and inodes keep their counts.\<close>

definition same_refs :: "mmst \<Rightarrow> vma multiset \<Rightarrow> mmst \<Rightarrow> vma multiset \<Rightarrow> bool" where
  "same_refs m V m' V' \<longleftrightarrow>
     (\<forall>f. frefs m' f - fcount f V' = frefs m f - fcount f V) \<and> (\<forall>i. irefs m' i - icount i V' = irefs m i - icount i V)"

definition frame :: "mmst \<Rightarrow> mmst \<Rightarrow> bool" where
  "frame m m' \<longleftrightarrow> False \<notin> set (kmallocs m') \<and> pt m' = pt m \<and> brk m' = brk m \<and> start_brk m' = start_brk m"

lemma piece_apart:
  assumes "vma_ok v" "apart v u"
    "w \<in> set (pieces addr endd v)" "\<not> keeps addr endd v" "addr < endd"
  shows "apart w u"
  using assms by (auto simp: pieces_def apart_def keeps_def vma_ok_def split: if_splits)

lemma replace_vma_law:
  assumes "vmas_ok (mmap m)" "vma_ok v" "\<forall>w \<in> set (mmap m). apart v w" "False \<notin> set (kmallocs m)"
  obtains m' where "replace_vma m v = Some m'" "vmas_ok (mmap m')" "mset (mmap m') = add_mset v (mset (mmap m))"
    "frame m m'" "frefs m' = frefs m" "irefs m' = irefs m"
proof -
  obtain m1 where m1: "vma_kmalloc m = (True, m1)" "False \<notin> set (kmallocs m1)" "mmap m1 = mmap m" "pt m1 = pt m"
    "frefs m1 = frefs m" "irefs m1 = irefs m" "brk m1 = brk m" "start_brk m1 = start_brk m"
    by (rule vma_kmalloc_ok [OF assms(4)])
  define m2 where "m2 = (let m = ref_backing v m1; m = (if has_open v then call (VmOpen v) m else m)
    in if has_close v then call (VmClose (v\<lparr>vm_end := vm_start v\<rparr>)) m else m)"
  have m2: "mmap m2 = mmap m" "pt m2 = pt m" "kmallocs m2 = kmallocs m1" "brk m2 = brk m" "start_brk m2 = start_brk m"
    "frefs m2 f = frefs m f + fcount f {#v#}" "irefs m2 i = irefs m i + icount i {#v#}" for f i
    using m1 by (simp_all add: m2_def Let_def backing_counts)
  obtain vs where vs: "insert_vm_struct m2 v = Some (m2\<lparr>mmap := vs\<rparr>)" "vmas_ok vs" "mset vs = add_mset v (mset (mmap m))"
    using insert_vm_struct_law [of m2 v] assms m2(1) by auto
  let ?m = "put_backing v (m2\<lparr>mmap := vs\<rparr>)"
  have "replace_vma m v = Some ?m" using vs(1) m1(1) by (simp add: replace_vma_def m2_def Let_def)
  moreover have "frefs ?m = frefs m" "irefs ?m = irefs m" using m2(6,7) by (simp_all add: backing_counts fun_eq_iff)
  ultimately show thesis
    using vs m1 m2 by (intro that [of ?m]) (simp_all add: frame_def)
qed

lemma same_backing:
  "vm_file v = vm_file w \<Longrightarrow> vm_inode v = vm_inode w \<Longrightarrow> fcount f {#v#} = fcount f {#w#} \<and> icount i {#v#} = icount i {#w#}"
  by (simp add: fcount_def icount_def)

lemma unmap_fixup_law:
  assumes ok: "vmas_ok (mmap m)" "vma_ok v" "\<forall>w \<in> set (mmap m). apart v w" and km: "False \<notin> set (kmallocs m)"
    and rng: "page_aligned addr" "page_aligned endd" "endd \<le> KERNEL_BASE" "\<not> keeps addr endd v" "addr < endd"
  defines "start \<equiv> max addr (vm_start v)" and "stop \<equiv> min endd (vm_end v)"
  obtains m' where "unmap_fixup m v start (stop - start) = Some m'" "vmas_ok (mmap m')" "frame m m'"
    "mset (mmap m') = mset (mmap m) + mset (pieces addr endd v)"
    "same_refs m {#v#} m' (mset (pieces addr endd v))"
proof -
  note done_with = that
  let ?lo = "v\<lparr>vm_end := addr\<rparr>" and ?hi = "v\<lparr>vm_offset := vm_offset v + (endd - vm_start v), vm_start := endd\<rparr>"
  note pok = pieces_ok [OF ok(2) rng]
  have pap: "\<forall>u \<in> set (mmap m). apart w u" if "w \<in> set (pieces addr endd v)" for w
    using ok(3) piece_apart [OF ok(2) _ that rng(4,5)] by blast
  have one: "fcount f {#?lo#} = fcount f {#v#}" "icount i {#?lo#} = icount i {#v#}"
    "fcount f {#?hi#} = fcount f {#v#}" "icount i {#?hi#} = icount i {#v#}" for f i
    using same_backing [of ?lo v] same_backing [of ?hi v] by simp_all
  have finish: thesis if res: "unmap_fixup m v start (stop - start) = replace_vma m w" and w: "pieces addr endd v = [w]"
    and cnt: "\<And>f i. fcount f {#w#} = fcount f {#v#} \<and> icount i {#w#} = icount i {#v#}" for w
  proof -
    have "vma_ok w" using pok w by simp
    moreover have "\<forall>u \<in> set (mmap m). apart w u" using pap w by simp
    ultimately obtain m' where "replace_vma m w = Some m'" "vmas_ok (mmap m')" "mset (mmap m') = add_mset w (mset (mmap m))"
      "frame m m'" "frefs m' = frefs m" "irefs m' = irefs m"
      by (rule replace_vma_law [OF ok(1) _ _ km])
    then show thesis using res w cnt by (intro done_with [of m']) (auto simp: same_refs_def)
  qed
  consider (all) "\<not> vm_start v < addr" "\<not> endd < vm_end v" | (low) "vm_start v < addr" "\<not> endd < vm_end v"
    | (high) "\<not> vm_start v < addr" "endd < vm_end v" | (both) "vm_start v < addr" "endd < vm_end v" by blast
  then show thesis
  proof cases
    case all
    then have "start = vm_start v" "stop = vm_end v" by (auto simp: start_def stop_def)
    then have "unmap_fixup m v start (stop - start) = Some (put_backing v (if has_close v then call (VmClose v) m else m))"
      by (simp add: unmap_fixup_def)
    then show ?thesis
      using all ok km by (intro that [of "put_backing v (if has_close v then call (VmClose v) m else m)"])
        (auto simp: pieces_def same_refs_def backing_counts frame_def)
  next
    case low
    then have "start = addr" "stop = vm_end v" by (auto simp: start_def stop_def)
    then have "unmap_fixup m v start (stop - start) = replace_vma m ?lo" using low by (auto simp: unmap_fixup_def Let_def)
    then show ?thesis by (rule finish) (use low one in \<open>simp_all add: pieces_def\<close>)
  next
    case high
    then have "start = vm_start v" "stop = endd" by (auto simp: start_def stop_def)
    then have "unmap_fixup m v start (stop - start) = replace_vma m ?hi" using high by (auto simp: unmap_fixup_def Let_def)
    then show ?thesis by (rule finish) (use high one in \<open>simp_all add: pieces_def\<close>)
  next
    case both
    then have ps: "pieces addr endd v = [?lo, ?hi]" by (simp add: pieces_def)
    obtain m1 where m1: "vma_kmalloc m = (True, m1)" "False \<notin> set (kmallocs m1)" "mmap m1 = mmap m" "pt m1 = pt m"
      "frefs m1 = frefs m" "irefs m1 = irefs m" "brk m1 = brk m" "start_brk m1 = start_brk m"
      by (rule vma_kmalloc_ok [OF km])
    define m2 where "m2 = (let m = ref_backing ?hi m1 in if has_open ?hi then call (VmOpen ?hi) m else m)"
    have m2: "mmap m2 = mmap m" "pt m2 = pt m" "kmallocs m2 = kmallocs m1" "brk m2 = brk m" "start_brk m2 = start_brk m"
      "frefs m2 f = frefs m f + fcount f {#?hi#}" "irefs m2 i = irefs m i + icount i {#?hi#}" for f i
      using m1 by (simp_all add: m2_def Let_def backing_counts)
    obtain vs where vs: "insert_vm_struct m2 ?hi = Some (m2\<lparr>mmap := vs\<rparr>)" "vmas_ok vs" "mset vs = add_mset ?hi (mset (mmap m))"
      using insert_vm_struct_law [of m2 ?hi] ok(1) pok pap m2(1) ps by auto
    have "apart ?lo ?hi" using rng(5) by (auto simp: apart_def)
    moreover have "set vs = insert ?hi (set (mmap m))" using vs(3) by (metis set_mset_add_mset_insert set_mset_mset)
    ultimately have "\<forall>u \<in> set vs. apart ?lo u" using pap [of ?lo] ps by simp
    then obtain m' where m': "replace_vma (m2\<lparr>mmap := vs\<rparr>) ?lo = Some m'" "vmas_ok (mmap m')" "mset (mmap m') = add_mset ?lo (mset vs)"
      "frame (m2\<lparr>mmap := vs\<rparr>) m'" "frefs m' = frefs m2" "irefs m' = irefs m2"
      using replace_vma_law [of "m2\<lparr>mmap := vs\<rparr>" ?lo] vs(2) pok ps m1(2) m2(3) by auto
    have "start = addr" "stop = endd" using both by (auto simp: start_def stop_def)
    then have "unmap_fixup m v start (stop - start) = Some m'"
      using both m1(1) vs(1) m'(1) by (auto simp: unmap_fixup_def m2_def Let_def)
    then show ?thesis
      using m' vs m2 one m1 by (intro that [of m']) (auto simp: ps frame_def same_refs_def)
  qed
qed

lemma same_refs_add:
  assumes "same_refs m V m1 V1" "same_refs m1 W m2 W1"
  shows "same_refs m (V + W) m2 (V1 + W1)"
proof -
  have "frefs m1 f - fcount f V1 = frefs m f - fcount f V" "frefs m2 f - fcount f W1 = frefs m1 f - fcount f W"
    "irefs m1 i - icount i V1 = irefs m i - icount i V" "irefs m2 i - icount i W1 = irefs m1 i - icount i W" for f i
    using assms unfolding same_refs_def by blast+
  then show ?thesis unfolding same_refs_def count_add by (metis add_diff_eq diff_add_cancel diff_diff_add)
qed

lemma same_refs_refl: "frefs m = frefs m' \<Longrightarrow> irefs m = irefs m' \<Longrightarrow> same_refs m V m' V"
  by (simp add: same_refs_def)

lemma frame_comp: "frame m m' \<Longrightarrow> frame m' m'' \<Longrightarrow> frame m m''"
  by (simp add: frame_def)

lemma munmap_free_law:
  assumes rng: "page_aligned addr" "page_aligned endd" "endd \<le> KERNEL_BASE" "addr < endd"
    and "vmas_ok (mmap m)" "\<forall>v \<in> set fr. vma_ok v \<and> \<not> keeps addr endd v \<and> (\<forall>w \<in> set (mmap m). apart v w)"
    "sorted_wrt apart fr" "False \<notin> set (kmallocs m)"
  shows "\<exists>m'. munmap_free m addr endd fr = Some m' \<and> vmas_ok (mmap m') \<and> frame m m' \<and>
    mset (mmap m') = mset (mmap m) + mset (concat (map (pieces addr endd) fr)) \<and>
    same_refs m (mset fr) m' (mset (concat (map (pieces addr endd) fr)))"
  using assms(5-)
proof (induction fr arbitrary: m)
  case Nil
  then show ?case by (simp add: frame_def same_refs_def)
next
  case (Cons v fr)
  let ?start = "max addr (vm_start v)" and ?stop = "min endd (vm_end v)"
  define m1 where "m1 = (if has_unmap v then call (VmUnmap v ?start (?stop - ?start)) m else m)"
  have m1: "mmap m1 = mmap m" "kmallocs m1 = kmallocs m" "frame m m1" "frefs m1 = frefs m" "irefs m1 = irefs m"
    using Cons.prems(4) by (simp_all add: m1_def frame_def)
  have v: "vma_ok v" "\<not> keeps addr endd v" "\<forall>w \<in> set (mmap m1). apart v w" using Cons.prems(2) m1(1) by auto
  obtain m2 where m2: "unmap_fixup m1 v ?start (?stop - ?start) = Some m2" "vmas_ok (mmap m2)" "frame m1 m2"
    "mset (mmap m2) = mset (mmap m1) + mset (pieces addr endd v)" "same_refs m1 {#v#} m2 (mset (pieces addr endd v))"
    using unmap_fixup_law [of m1 v addr endd] Cons.prems(1,4) v m1 rng by metis
  have set2: "set (mmap m2) = set (mmap m) \<union> set (pieces addr endd v)"
    using m2(4) m1(1) by (metis set_mset_mset set_mset_union)
  have "apart u w" if "u \<in> set fr" "w \<in> set (mmap m2)" for u w
  proof (cases "w \<in> set (mmap m)")
    case False
    then have w: "w \<in> set (pieces addr endd v)" using that(2) set2 by auto
    have "apart v u" using Cons.prems(3) that(1) by simp
    then have "apart w u" using piece_apart [OF v(1) _ w v(2) rng(4)] by blast
    then show ?thesis by (auto simp: apart_def)
  qed (use that(1) Cons.prems(2) in auto)
  then obtain m3 where m3: "munmap_free m2 addr endd fr = Some m3" "vmas_ok (mmap m3)" "frame m2 m3"
    "mset (mmap m3) = mset (mmap m2) + mset (concat (map (pieces addr endd) fr))"
    "same_refs m2 (mset fr) m3 (mset (concat (map (pieces addr endd) fr)))"
    using Cons.IH [of m2] m2(2,3) Cons.prems by (auto simp: frame_def)
  have "munmap_free m addr endd (v # fr) = Some m3"
    using m2(1) m3(1) by (simp add: m1_def Let_def)
  moreover have "frame m m3" using m1(3) m2(3) m3(3) by (simp add: frame_def)
  moreover have "same_refs m (mset (v # fr)) m3 (mset (concat (map (pieces addr endd) (v # fr))))"
    using same_refs_add [of m "{#v#}" m2 _ "mset fr" m3, OF _ m3(5)] m2(5) m1(4,5) by (simp add: same_refs_def)
  ultimately show ?case using m3 m2(4) m1(1) by auto
qed

lemma round_up_le:
  fixes a l :: nat
  assumes "4096 dvd a" "a + l \<le> 2 ^ 31"
  shows "a + (l + 4095) div 4096 * 4096 \<le> 2 ^ 31"
proof -
  obtain k where k: "a = 4096 * k" using assms(1) by (rule dvdE)
  have "l + 4095 < (524288 - k + 1) * 4096" using assms(2) k by simp
  then have "(l + 4095) div 4096 < 524288 - k + 1" by (rule less_mult_imp_div_less)
  then have "(l + 4095) div 4096 \<le> 524288 - k" by simp
  then show ?thesis using assms(2) k by simp
qed

lemma user_range:
  assumes "page_aligned addr" "addr \<le> KERNEL_BASE" "len \<le> KERNEL_BASE - addr"
  defines "l \<equiv> PAGE_ALIGN len"
  shows "unat addr + unat l \<le> 2 ^ 31" "addr + l \<le> KERNEL_BASE" "page_aligned (addr + l)" "l \<noteq> 0 \<Longrightarrow> addr < addr + l"
    "unat (addr + l) = unat addr + unat l" "page_aligned l" "unat len \<le> unat l"
proof -
  have ua: "unat addr \<le> 2 ^ 31" using assms(2) by (simp add: KERNEL_BASE_le)
  have "unat (KERNEL_BASE - addr) = 2 ^ 31 - unat addr"
    using assms(2) by (simp add: KERNEL_BASE_def unat_sub)
  then have ul: "unat addr + unat len \<le> 2 ^ 31" using assms(3) ua by (simp add: word_le_nat_alt)
  have l: "unat l = (unat len + 4095) div 4096 * 4096" using unat_PAGE_ALIGN [of len] ul unfolding l_def by simp
  show le: "unat addr + unat l \<le> 2 ^ 31"
    using round_up_le [OF _ ul] assms(1) by (simp add: l page_aligned_def)
  then show s: "unat (addr + l) = unat addr + unat l" by (simp add: unat_word_ariths)
  show "page_aligned l" by (simp add: page_aligned_def l)
  show "addr + l \<le> KERNEL_BASE" using le by (simp add: KERNEL_BASE_le s)
  show "page_aligned (addr + l)" using assms(1) by (simp add: page_aligned_def s l)
  show "addr < addr + l" if "l \<noteq> 0" using that by (simp add: word_less_nat_alt s unat_gt_0)
  show "unat len \<le> unat l" unfolding l using div_mult_mod_eq [of "unat len + 4095" 4096] mod_less_divisor [of 4096 "unat len + 4095"] by linarith
qed

lemma sorted_apart: "vmas_ok vs \<Longrightarrow> sorted_wrt apart (rev vs)"
  unfolding sorted_wrt_rev vmas_ok_def by (auto simp: apart_def elim!: sorted_wrt_mono_rel [rotated])

lemma mset_filter_split: "mset vs = mset (filter P vs) + mset (rev (filter (\<lambda>x. \<not> P x) vs))"
  by (simp add: union_filter_mset_complement)

lemma view_append: "view (vs @ ws) = view vs \<union> view ws"
  by (auto simp: view_def)

lemma vmas_ok_apart:
  assumes "vmas_ok vs" "v \<in> set vs" "w \<in> set vs" "v \<noteq> w"
  shows "apart v w"
  using assms by (induction vs) (auto simp: vmas_ok_Cons apart_def)

lemma vmas_ok_filter: "vmas_ok vs \<Longrightarrow> vmas_ok (filter P vs)"
  by (auto simp: vmas_ok_def sorted_wrt_filter)

lemma keep_view: "keeps addr endd v \<Longrightarrow> a \<in> covers v \<Longrightarrow> a \<notin> {addr ..< endd}"
  by (auto simp: keeps_def covers_def)

lemma do_munmap_law:
  assumes ok: "vmas_ok (mmap m)" and km: "False \<notin> set (kmallocs m)"
    and rng: "page_aligned addr" "addr \<le> KERNEL_BASE" "len \<le> KERNEL_BASE - addr"
    and pts: "unmap_page_range pid (pt m) (unat addr) (unat (PAGE_ALIGN len)) = Some t"
  shows "\<exists>m'. do_munmap pid m addr len = Some (Inr 0, m') \<and> vmas_ok (mmap m') \<and>
    view (mmap m') = {(a, x) \<in> view (mmap m). a \<notin> {addr ..< addr + PAGE_ALIGN len}} \<and>
    same_refs m (mset (mmap m)) m' (mset (mmap m')) \<and> False \<notin> set (kmallocs m') \<and>
    brk m' = brk m \<and> start_brk m' = start_brk m"
proof -
  define l where "l = PAGE_ALIGN len"
  define e where "e = addr + l"
  have guard: "\<not> (addr AND NOT PAGE_MASK \<noteq> 0 \<or> KERNEL_BASE < addr \<or> KERNEL_BASE - addr < len)"
    using rng and_not_PAGE_MASK by auto
  note ur = user_range [OF rng, folded l_def, folded e_def]
  show ?thesis
  proof (cases "l = 0")
    case True
    then have "do_munmap pid m addr len = Some (Inr 0, m)" using guard by (simp add: do_munmap_def l_def [symmetric])
    then show ?thesis using True ok km by (auto simp: l_def same_refs_def)
  next
    case False
    let ?ks = "filter (keeps addr e) (mmap m)" and ?fr = "rev (filter (\<lambda>v. \<not> keeps addr e v) (mmap m))"
    note ae = ur(4) [OF False]
    have col: "munmap_collect addr e (mmap m) [] = (?ks, ?fr)" using munmap_collect_eq [OF ok ae] by simp
    have vks: "view ?ks = {(a, x) \<in> view ?ks. a \<notin> {addr ..< e}}" using keep_view by (auto simp: view_def)
    have split: "view (mmap m) = view ?ks \<union> view ?fr"
      unfolding view_append [symmetric] by (rule view_mset) (simp only: mset_append mset_filter_split [of "mmap m" "keeps addr e", symmetric])
    have start: "do_munmap pid m addr len = (if ?fr = [] then Some (Inr 0, m\<lparr>mmap := ?ks\<rparr>)
       else (case munmap_free (m\<lparr>mmap := ?ks\<rparr>) addr e ?fr of None \<Rightarrow> None
             | Some m \<Rightarrow> map_option (\<lambda>t. (Inr 0, m\<lparr>pt := t\<rparr>)) (unmap_page_range pid (pt m) (unat addr) (unat l))))"
      using guard False col unfolding do_munmap_def l_def [symmetric] e_def [symmetric] Let_def by simp
    show ?thesis
    proof (cases "?fr = []")
      case True
      then have "?ks = mmap m" by (simp add: filter_empty_conv filter_id_conv)
      then show ?thesis using start True ok km vks by (auto simp: same_refs_def e_def l_def)
    next
      case fr: False
      have each: "\<forall>v \<in> set ?fr. vma_ok v \<and> \<not> keeps addr e v \<and> (\<forall>w \<in> set (mmap (m\<lparr>mmap := ?ks\<rparr>)). apart v w)"
        using ok vmas_ok_apart [OF ok] by (auto simp: vmas_ok_def)
      have srt: "sorted_wrt apart ?fr" by (rule sorted_apart [OF vmas_ok_filter [OF ok]])
      obtain m' where m': "munmap_free (m\<lparr>mmap := ?ks\<rparr>) addr e ?fr = Some m'" "vmas_ok (mmap m')" "frame (m\<lparr>mmap := ?ks\<rparr>) m'"
        "mset (mmap m') = mset ?ks + mset (concat (map (pieces addr e) ?fr))"
        "same_refs (m\<lparr>mmap := ?ks\<rparr>) (mset ?fr) m' (mset (concat (map (pieces addr e) ?fr)))"
        using munmap_free_law [OF rng(1) ur(3,2) ae _ each srt] vmas_ok_filter [OF ok] km by auto
      have "view (concat (map (pieces addr e) fr)) = {(a, x) \<in> view fr. a \<notin> {addr ..< e}}" if "\<forall>v \<in> set fr. \<not> keeps addr e v" for fr
        using that
      proof (induction fr)
        case (Cons v fr)
        then show ?case using pieces_view [OF ae, of v] view_append [of "[v]" fr] by (auto simp: view_append)
      qed (simp add: view_def)
      then have vfr: "view (concat (map (pieces addr e) ?fr)) = {(a, x) \<in> view ?fr. a \<notin> {addr ..< e}}" by simp
      have "view (mmap m') = view (?ks @ concat (map (pieces addr e) ?fr))" by (rule view_mset) (simp add: m'(4))
      then have v': "view (mmap m') = {(a, x) \<in> view (mmap m). a \<notin> {addr ..< e}}"
        unfolding view_append vfr split using vks by blast
      have "same_refs m (mset (mmap m)) m' (mset (mmap m'))"
        unfolding m'(4) mset_filter_split [of "mmap m" "keeps addr e"]
        by (rule same_refs_add [OF same_refs_refl m'(5)]) simp_all
      then show ?thesis
        using start fr m' pts v' by (auto simp: frame_def e_def l_def same_refs_def)
    qed
  qed
qed

text \<open>C5: \<^verbatim>\<open>munmap\<close> removes exactly the addresses of the page-aligned range: every other
  address keeps its flags, its backing and its offset in the backing, also when an
  area is cut at one end or in the middle. The list of areas stays sorted and the file
  and inode references stay equal to the areas that hold them.\<close>

theorem do_munmap_exact:
  assumes "vmas_ok (mmap m)" "False \<notin> set (kmallocs m)"
    and "page_aligned addr" "addr \<le> KERNEL_BASE" "len \<le> KERNEL_BASE - addr"
    and "unmap_page_range pid (pt m) (unat addr) (unat (PAGE_ALIGN len)) = Some t"
  shows "\<exists>m'. do_munmap pid m addr len = Some (Inr 0, m') \<and> vmas_ok (mmap m') \<and>
    view (mmap m') = {(a, x) \<in> view (mmap m). a \<notin> {addr ..< addr + PAGE_ALIGN len}} \<and>
    same_refs m (mset (mmap m)) m' (mset (mmap m'))"
  using do_munmap_law [OF assms] by blast

section \<open>Mapping\<close>

text \<open>An address where an area of the given length fits.\<close>

definition fits_at :: "vma list \<Rightarrow> u32 \<Rightarrow> u32 \<Rightarrow> bool" where
  "fits_at vs len x \<longleftrightarrow> x \<le> KERNEL_BASE - len \<and> (\<forall>v \<in> set vs. vm_end v \<le> x \<or> x + len \<le> vm_start v)"

lemma add_user: "len \<le> KERNEL_BASE \<Longrightarrow> x \<le> KERNEL_BASE - len \<Longrightarrow> unat (x + len) = unat x + unat len"
  by (simp add: KERNEL_BASE_def word_le_nat_alt unat_sub unat_word_ariths)

lemma get_unmapped_area_sound:
  assumes "vmas_ok vs" "page_aligned addr" "get_unmapped_area vs addr len \<noteq> 0" "len \<le> KERNEL_BASE"
  shows "addr \<le> get_unmapped_area vs addr len \<and> page_aligned (get_unmapped_area vs addr len) \<and>
    fits_at vs len (get_unmapped_area vs addr len)"
  using assms
proof (induction vs arbitrary: addr)
  case Nil
  then show ?case by (auto simp: get_unmapped_area.simps fits_at_def split: if_splits)
next
  case (Cons v vs)
  have lim': "\<not> KERNEL_BASE - len < addr" using Cons.prems(3) by (auto simp: get_unmapped_area.simps [of "v # vs"] split: if_splits)
  then have lim: "addr \<le> KERNEL_BASE - len" by (simp add: not_less)
  have v: "vma_ok v" "vmas_ok vs" "\<forall>w \<in> set vs. vm_end v \<le> vm_start w" using Cons.prems(1) by (simp_all add: vmas_ok_Cons)
  consider (past) "vm_end v < addr" | (hit) "\<not> vm_end v < addr" "vm_start v < addr + len" | (gap) "\<not> vm_end v < addr" "\<not> vm_start v < addr + len"
    by blast
  then show ?case
  proof cases
    case past
    then have eq: "get_unmapped_area (v # vs) addr len = get_unmapped_area vs addr len"
      using lim' by (simp add: get_unmapped_area.simps [of "v # vs"])
    then show ?thesis using Cons.IH [OF v(2) Cons.prems(2)] Cons.prems(3,4) past by (auto simp: fits_at_def)
  next
    case hit
    then have eq: "get_unmapped_area (v # vs) addr len = get_unmapped_area vs (vm_end v) len"
      using lim' by (simp add: get_unmapped_area.simps [of "v # vs"])
    then show ?thesis using Cons.IH [OF v(2), of "vm_end v"] Cons.prems(3,4) hit v(1) by (auto simp: fits_at_def vma_ok_def)
  next
    case gap
    then have eq: "get_unmapped_area (v # vs) addr len = addr"
      using lim' by (simp add: get_unmapped_area.simps [of "v # vs"])
    have "addr + len \<le> vm_start w" if "w \<in> set vs" for w
      using gap v that unfolding vma_ok_def by (meson not_less order.trans order_less_imp_le)
    then show ?thesis unfolding eq using lim gap Cons.prems(2) by (auto simp: fits_at_def not_less)
  qed
qed

lemma get_unmapped_area_complete:
  assumes "vmas_ok vs" "fits_at vs len x" "addr \<le> x" "addr \<noteq> 0" "len \<le> KERNEL_BASE"
  shows "get_unmapped_area vs addr len \<noteq> 0 \<and> get_unmapped_area vs addr len \<le> x"
  using assms
proof (induction vs arbitrary: addr)
  case Nil
  then show ?case by (auto simp: get_unmapped_area.simps fits_at_def)
next
  case (Cons v vs)
  have lim: "addr \<le> KERNEL_BASE - len" using Cons.prems by (auto simp: fits_at_def)
  then have lim': "\<not> KERNEL_BASE - len < addr" by (simp add: not_less)
  have v: "vma_ok v" "vmas_ok vs" "fits_at vs len x" using Cons.prems(1,2) by (auto simp: vmas_ok_Cons fits_at_def)
  consider (past) "vm_end v < addr" | (hit) "\<not> vm_end v < addr" "vm_start v < addr + len" | (gap) "\<not> vm_end v < addr" "\<not> vm_start v < addr + len"
    by blast
  then show ?case
  proof cases
    case past
    then show ?thesis using Cons.IH [OF v(2,3)] Cons.prems lim' by (simp add: get_unmapped_area.simps [of "v # vs"])
  next
    case hit
    have "\<not> x + len \<le> vm_start v"
    proof
      assume "x + len \<le> vm_start v"
      then have "x + len < addr + len" using hit(2) by simp
      then show False
        using add_user [OF Cons.prems(5) lim] add_user [OF Cons.prems(5), of x] Cons.prems(2,3)
        by (simp add: fits_at_def word_less_nat_alt word_le_nat_alt)
    qed
    then have "vm_end v \<le> x" using Cons.prems(2) by (auto simp: fits_at_def)
    moreover have "vm_end v \<noteq> 0" using v(1) by (auto simp: vma_ok_def)
    ultimately show ?thesis using Cons.IH [OF v(2,3), of "vm_end v"] Cons.prems hit lim' by (simp add: get_unmapped_area.simps [of "v # vs"])
  next
    case gap
    then show ?thesis using Cons.prems lim' by (simp add: get_unmapped_area.simps [of "v # vs"])
  qed
qed

lemma unmapped_base:
  assumes "hint \<le> KERNEL_BASE" "len \<le> KERNEL_BASE"
  defines "base \<equiv> PAGE_ALIGN (if hint = 0 then KERNEL_BASE div 2 else hint)"
  shows "page_aligned base" "base \<noteq> 0" "get_unmapped_area_locked vs hint len = get_unmapped_area vs base len"
proof -
  let ?h = "if hint = 0 then KERNEL_BASE div 2 else hint"
  have h: "unat ?h \<le> 2 ^ 31" "?h \<noteq> 0" using assms(1) by (auto simp: KERNEL_BASE_def word_le_nat_alt)
  have ub: "unat base = (unat ?h + 4095) div 4096 * 4096" unfolding base_def using h(1) by (intro unat_PAGE_ALIGN) simp
  have "unat ?h \<noteq> 0" using h(2) unfolding unat_eq_0 .
  then have "unat base \<noteq> 0" unfolding ub by (simp add: div_eq_0_iff)
  then show "base \<noteq> 0" by auto
  show "page_aligned base" by (simp add: page_aligned_def ub)
  show "get_unmapped_area_locked vs hint len = get_unmapped_area vs base len"
    using assms(2) by (auto simp: get_unmapped_area_locked_def base_def Let_def)
qed

lemma first_fit_sound:
  assumes "vmas_ok vs" "hint \<le> KERNEL_BASE" "len \<le> KERNEL_BASE" "get_unmapped_area_locked vs hint len \<noteq> 0"
  shows "page_aligned (get_unmapped_area_locked vs hint len)" "fits_at vs len (get_unmapped_area_locked vs hint len)"
    "PAGE_ALIGN (if hint = 0 then KERNEL_BASE div 2 else hint) \<le> get_unmapped_area_locked vs hint len"
  using get_unmapped_area_sound [OF assms(1) unmapped_base(1) [OF assms(2,3)]] assms(3,4)
  unfolding unmapped_base(3) [OF assms(2,3)] by blast+

text \<open>C7: The search for an unmapped area is first fit: a result is page aligned, not below
  the hint, leaves the whole range free and below the kernel; and whenever some
  address from the hint on fits, the search succeeds with one that is not higher.\<close>

theorem get_unmapped_area_first_fit:
  assumes "vmas_ok vs" "hint \<le> KERNEL_BASE" "len \<le> KERNEL_BASE"
  defines "base \<equiv> PAGE_ALIGN (if hint = 0 then KERNEL_BASE div 2 else hint)"
    and "r \<equiv> get_unmapped_area_locked vs hint len"
  shows "(r \<noteq> 0 \<longrightarrow> page_aligned r \<and> base \<le> r \<and> fits_at vs len r) \<and>
    (\<forall>x. fits_at vs len x \<longrightarrow> base \<le> x \<longrightarrow> r \<noteq> 0 \<and> r \<le> x)"
  using first_fit_sound [OF assms(1-3)]
    get_unmapped_area_complete [OF assms(1) _ _ unmapped_base(2) [OF assms(2,3)] assms(3)]
  unfolding r_def base_def unmapped_base(3) [OF assms(2,3)] by blast

lemma count_Cons:
  "fcount f (mset (v # vs)) = fcount f {#v#} + fcount f (mset vs)" "icount i (mset (v # vs)) = icount i {#v#} + icount i (mset vs)"
  by (simp_all add: fcount_def icount_def)

lemma merge_counts: "fcount f (mset (merge_vmas vs)) = fcount f (mset vs) \<and> icount i (mset (merge_vmas vs)) = icount i (mset vs)"
proof (induction vs rule: merge_vmas.induct)
  case (1 p1 p2 vs)
  let ?C = "vm_end p1 = vm_start p2 \<and> vm_flags p1 = vm_flags p2 \<and> vm_flags p1 AND VM_SHARED = 0 \<and>
         vm_file p1 = None \<and> vm_file p2 = None \<and> vm_inode p1 = None \<and> vm_inode p2 = None"
  show ?case
  proof (cases ?C)
    case True
    then have "merge_vmas (p1 # p2 # vs) = merge_vmas (p1\<lparr>vm_end := vm_end p2\<rparr> # vs)"
      by (rule trans [OF merge_vmas.simps(1) if_P])
    then show ?thesis using "1.IH"(1) [OF True] True by (simp add: fcount_def icount_def)
  next
    case False
    then have "merge_vmas (p1 # p2 # vs) = p1 # merge_vmas (p2 # vs)" by (rule trans [OF merge_vmas.simps(1) if_not_P])
    then show ?thesis using "1.IH"(2) [OF False] by (simp only: count_Cons [of _ p1] simp_thms)
  qed
qed simp_all

text \<open>The area that a call of \<^verbatim>\<open>mmap\<close> asks for.\<close>

definition asked_area :: "u32 \<Rightarrow> u32 \<Rightarrow> u32 \<Rightarrow> u32 \<Rightarrow> u32 \<Rightarrow> file_info option \<Rightarrow> vma \<Rightarrow> bool" where
  "asked_area r len prot flags off file v \<longleftrightarrow> vm_start v = r \<and> vm_end v = r + len \<and>
     vm_flags v AND 7 = prot AND 7 \<and> (vm_flags v AND VM_SHARED \<noteq> 0 \<longleftrightarrow> flags AND MAP_TYPE = MAP_SHARED) \<and>
     vm_file v = map_option f_id file \<and> vm_inode v = map_option f_inode file \<and>
     vm_offset v = (if file = None then 0 else off)"

lemma alloc_vma_asked:
  assumes "alloc_vma m r len prot flags off (file \<noteq> None) = (Some v, m')"
  shows "asked_area r len prot flags off None (v\<lparr>vm_offset := 0\<rparr>)" "vm_offset v = (if file = None then 0 else off)"
    "vm_file v = None" "vm_inode v = None"
proof -
  have flags: "((prot AND 7) OR b) AND 7 = prot AND 7" if "b AND 7 = 0" for b :: u32
    using that by (simp add: bit.conj_disj_distrib2 and.assoc)
  show "asked_area r len prot flags off None (v\<lparr>vm_offset := 0\<rparr>)" "vm_offset v = (if file = None then 0 else off)"
    "vm_file v = None" "vm_inode v = None"
    using assms
    by (auto simp: alloc_vma_def asked_area_def Let_def VM_READ_def VM_WRITE_def VM_EXEC_def VM_SHARED_def VM_GROWSDOWN_def
        bit.conj_disj_distrib2 and.assoc split: prod.splits if_splits)
qed

lemma install_vma_law:
  assumes pre: "vmas_ok (mmap m)" "vma_ok v" "\<forall>w \<in> set (mmap m). apart v w" and anon: "vm_file v = None" "vm_inode v = None"
  obtains (err) e where "install_vma file v m = Some (Inl e, m)"
  | (ok) v' m' where "install_vma file v m = Some (Inr (vm_start v), m')" "vmas_ok (mmap m')"
      "view (mmap m') = view (mmap m) \<union> view [v']" "same_refs m (mset (mmap m)) m' (mset (mmap m'))"
      "vm_start v' = vm_start v" "vm_end v' = vm_end v" "vm_flags v' = vm_flags v" "vm_offset v' = vm_offset v"
      "vm_file v' = map_option f_id file" "vm_inode v' = map_option f_inode file"
proof -
  note finish = that(2)
  have ins: thesis if res: "install_vma file v m = map_option (\<lambda>m. (Inr (vm_start v'), merge_mmap m)) (insert_vm_struct m1 v')"
    and m1: "mmap m1 = mmap m" "\<forall>f. frefs m1 f = frefs m f + fcount f {#v'#}" "\<forall>i. irefs m1 i = irefs m i + icount i {#v'#}"
    and v': "vm_start v' = vm_start v" "vm_end v' = vm_end v" "vm_flags v' = vm_flags v" "vm_offset v' = vm_offset v"
      "vm_file v' = map_option f_id file" "vm_inode v' = map_option f_inode file" for v' m1
  proof -
    have "vma_ok v'" "\<forall>w \<in> set (mmap m1). apart v' w"
      using pre(2,3) v' m1(1) by (simp_all add: vma_ok_def apart_def)
    then obtain vs where vs: "insert_vm_struct m1 v' = Some (m1\<lparr>mmap := vs\<rparr>)" "vmas_ok vs" "mset vs = add_mset v' (mset (mmap m))"
      using insert_vm_struct_law [of m1 v'] pre(1) m1(1) by metis
    let ?m = "merge_mmap (m1\<lparr>mmap := vs\<rparr>)"
    have view: "view (mmap ?m) = view (mmap m) \<union> view [v']"
      using merge_vmas_view [OF vs(2)] view_mset [of vs "v' # mmap m"] vs(3) view_append [of "[v']" "mmap m"]
      by (auto simp: merge_mmap_def)
    have "same_refs m (mset (mmap m)) ?m (mset (mmap ?m))"
      unfolding same_refs_def merge_mmap_def using m1 merge_counts [of _ vs] count_add_mset [of _ v' "mset (mmap m)"] vs(3)
      by simp
    then show thesis
      using res vs merge_vmas_view [OF vs(2)] view v' by (intro finish [of ?m v']) (simp_all add: merge_mmap_def)
  qed
  show thesis
  proof (cases "file")
    case None
    then show ?thesis
      by (intro ins [of v m]) (simp_all add: install_vma_def fcount_def icount_def anon)
  next
    case (Some f)
    show ?thesis
    proof (cases "generic_file_mmap f v m")
      case (Pair r m1)
      show ?thesis
      proof (cases r)
        case (Inl e)
        then have "m1 = m" using Pair by (auto simp: generic_file_mmap_def Let_def split: if_splits)
        then show ?thesis using Inl Pair Some anon by (intro that(1)) (simp add: install_vma_def)
      next
        case (Inr v')
        then have "v' = v\<lparr>vm_file := Some (f_id f), vm_inode := Some (f_inode f), vm_ops := vm_ops v'\<rparr>"
          "m1 = m\<lparr>frefs := (frefs m)(f_id f := frefs m (f_id f) + 1)\<rparr>"
          using Pair by (auto simp: generic_file_mmap_def Let_def split: if_splits)
        note v' = this
        have fields: "vm_file v' = Some (f_id f)" "vm_inode v' = Some (f_inode f)" "vm_start v' = vm_start v"
          "vm_end v' = vm_end v" "vm_flags v' = vm_flags v" "vm_offset v' = vm_offset v" by (subst v'(1); simp)+
        show ?thesis
          by (rule ins [of v' m1]) (use Some Inr Pair v'(2) fields in \<open>simp_all add: install_vma_def fcount_def icount_def\<close>)
      qed
    qed
  qed
qed

lemma PAGE_ALIGN_aligned: "page_aligned (PAGE_ALIGN x)"
  using unat_and_not_mask [of "x + 4095" 12] by (simp add: page_aligned_def PAGE_ALIGN_def mask_eq_exp_minus_1)

lemma mmap_checksD:
  assumes "mmap_checks addr len prot flags file off = None"
  shows "len \<noteq> 0" "addr \<le> KERNEL_BASE" "len \<le> KERNEL_BASE" "addr \<le> KERNEL_BASE - len"
    "flags AND MAP_FIXED \<noteq> 0 \<Longrightarrow> page_aligned addr"
  using assms and_not_PAGE_MASK [of addr] by (auto simp: mmap_checks_def not_less split: if_splits)

lemma asked_vma_ok:
  assumes "vm_start v = r" "vm_end v = r + len" "page_aligned r" "page_aligned len" "len \<noteq> 0" "len \<le> KERNEL_BASE" "r \<le> KERNEL_BASE - len"
  shows "vma_ok v"
proof -
  have s: "unat (r + len) = unat r + unat len" by (rule add_user [OF assms(6,7)])
  have "unat r + unat len \<le> 2 ^ 31"
    using assms(6,7) by (simp add: KERNEL_BASE_def word_le_nat_alt unat_sub)
  moreover have "0 < unat len" using assms(5) by (simp add: unat_gt_0)
  ultimately show ?thesis
    using assms s by (simp add: vma_ok_def KERNEL_BASE_le word_less_nat_alt page_aligned_def)
qed

lemma covers_apart:
  assumes "vma_ok w" "vma_ok v" "covers w \<inter> covers v = {}"
  shows "apart v w"
proof (rule ccontr)
  assume "\<not> apart v w"
  then have "max (vm_start v) (vm_start w) \<in> covers w \<inter> covers v"
    using assms(1,2) by (auto simp: apart_def covers_def vma_ok_def not_le max_def)
  with assms(3) show False by simp
qed

lemma alloc_vma_ok:
  assumes "False \<notin> set (kmallocs m)"
  obtains v m' where "alloc_vma m addr len prot flags off hf = (Some v, m')" "mmap m' = mmap m" "pt m' = pt m"
    "frefs m' = frefs m" "irefs m' = irefs m" "False \<notin> set (kmallocs m')" "vm_start v = addr" "vm_end v = addr + len"
proof -
  obtain m' where "vma_kmalloc m = (True, m')" "False \<notin> set (kmallocs m')" "mmap m' = mmap m" "pt m' = pt m"
    "frefs m' = frefs m" "irefs m' = irefs m" "brk m' = brk m" "start_brk m' = start_brk m"
    by (rule vma_kmalloc_ok [OF assms])
  then show thesis by (intro that [of _ m']) (simp_all add: alloc_vma_def Let_def, simp_all)
qed

lemma install_asked:
  assumes ok: "vmas_ok (mmap m)" and al: "alloc_vma m0 r len prot flags off (file \<noteq> None) = (Some v, m1)"
    and rng: "page_aligned r" "page_aligned len" "len \<noteq> 0" "len \<le> KERNEL_BASE" "fits_at (mmap m) len r"
  shows "\<exists>res m'. install_vma file v m = Some (res, m') \<and> vmas_ok (mmap m') \<and>
    same_refs m (mset (mmap m)) m' (mset (mmap m')) \<and>
    (case res of Inl e \<Rightarrow> m' = m
     | Inr r' \<Rightarrow> r' = r \<and> (\<exists>v'. asked_area r len prot flags off file v' \<and> view (mmap m') = view (mmap m) \<union> view [v']))"
proof -
  note v = alloc_vma_asked [OF al]
  have se: "vm_start v = r" "vm_end v = r + len" using v(1) by (simp_all add: asked_area_def)
  have vok: "vma_ok v" using asked_vma_ok [OF se rng(1-4)] rng(5) by (simp add: fits_at_def)
  have ap: "\<forall>w \<in> set (mmap m). apart v w" using rng(5) se by (auto simp: fits_at_def apart_def)
  from ok vok ap v(3,4) show ?thesis
  proof (cases rule: install_vma_law [of m v "file"])
    case (err e)
    then show ?thesis using ok by (auto simp: same_refs_def)
  next
    case (ok v' m')
    have "asked_area r len prot flags off file v'"
      using v ok(5-10) by (simp add: asked_area_def)
    then show ?thesis using ok se by auto
  qed
qed

lemma view_fits:
  assumes "vmas_ok vs" "vma_ok v" "\<forall>a x. (a, x) \<in> view vs \<longrightarrow> a \<notin> covers v" "w \<in> set vs"
  shows "vm_end w \<le> vm_start v \<or> vm_end v \<le> vm_start w"
proof -
  have "(a, attr w a) \<in> view vs" if "a \<in> covers w" for a using that assms(4) by (auto simp: view_def)
  then have "covers w \<inter> covers v = {}" using assms(3) by blast
  then show ?thesis using covers_apart [of w v] assms(1,2,4) by (auto simp: vmas_ok_def apart_def)
qed

lemma fits_view: "fits_at vs len r \<Longrightarrow> {(a, x) \<in> view vs. a \<notin> {r ..< r + len}} = view vs"
  by (auto simp: fits_at_def view_def covers_def)


section \<open>Access checks\<close>

definition permitted :: "vma list \<Rightarrow> u32 \<Rightarrow> u32 \<Rightarrow> bool" where
  "permitted vs right a \<longleftrightarrow> (\<exists>v \<in> set vs. a \<in> covers v \<and> vm_flags v AND right \<noteq> 0)"

lemma verify_vmas_sound:
  assumes "vmas_ok (v # vs)" "start \<le> vm_end v" "verify_vmas right start sz (v # vs)"
  shows "unat start + unat sz \<le> 2 ^ 31 \<and>
    (\<forall>a. unat (vm_start v) \<le> unat a \<and> unat start \<le> unat a \<and> unat a < unat start + unat sz \<longrightarrow> permitted (v # vs) right a)"
  using assms
proof (induction vs arbitrary: v)
  case Nil
  then have v: "vma_ok v" "vm_flags v AND right \<noteq> 0" "sz \<le> vm_end v - start"
    by (auto simp: vmas_ok_Cons split: if_splits)
  then have "unat start + unat sz \<le> unat (vm_end v)" using Nil.prems(2) by (simp add: word_le_nat_alt unat_sub)
  moreover have "unat (vm_end v) \<le> 2 ^ 31" using v(1) by (simp add: vma_ok_def KERNEL_BASE_le)
  ultimately show ?case using v(2) by (auto simp: permitted_def covers_def word_less_nat_alt word_le_nat_alt)
next
  case (Cons w vs)
  have v: "vma_ok v" "vmas_ok (w # vs)" "vm_flags v AND right \<noteq> 0"
    using Cons.prems by (auto simp: vmas_ok_Cons split: if_splits)
  have inv: "permitted (v # w # vs) right a" if "unat (vm_start v) \<le> unat a" "unat a < unat (vm_end v)" for a
    using that v(3) by (auto simp: permitted_def covers_def word_less_nat_alt word_le_nat_alt)
  show ?case
  proof (cases "sz \<le> vm_end v - start")
    case True
    then have "unat start + unat sz \<le> unat (vm_end v)" using Cons.prems(2) by (simp add: word_le_nat_alt unat_sub)
    then show ?thesis using inv v(1) by (auto simp: vma_ok_def KERNEL_BASE_le)
  next
    case False
    then have next_w: "vm_end v = vm_start w" "verify_vmas right start sz (w # vs)"
      using Cons.prems(3) v(3) by (auto split: if_splits)
    have "start \<le> vm_end w" using Cons.prems(2) next_w(1) v(2) by (auto simp: vmas_ok_Cons vma_ok_def)
    then have IH: "unat start + unat sz \<le> 2 ^ 31"
      "\<forall>a. unat (vm_start w) \<le> unat a \<and> unat start \<le> unat a \<and> unat a < unat start + unat sz \<longrightarrow> permitted (w # vs) right a"
      using Cons.IH [OF v(2) _ next_w(2)] by blast+
    have "permitted (v # w # vs) right a"
      if "unat (vm_start v) \<le> unat a" "unat start \<le> unat a" "unat a < unat start + unat sz" for a
    proof (cases "unat a < unat (vm_end v)")
      case True
      then show ?thesis using inv that(1) by blast
    next
      case False
      then have "permitted (w # vs) right a" using IH(2) that next_w(1) by auto
      then show ?thesis by (auto simp: permitted_def)
    qed
    then show ?thesis using IH(1) by blast
  qed
qed

lemma find_vma_suffix:
  assumes "vmas_ok vs" "find_vma vs addr = v # ws"
  shows "set (v # ws) \<subseteq> set vs" "vmas_ok (v # ws)" "addr < vm_end v"
  using assms by (induction vs) (auto simp: vmas_ok_Cons split: if_splits)


section \<open>A process\<close>

definition mm_example :: mmst where
  "mm_example = \<lparr>mmap = [\<lparr>vm_start = 0x1000, vm_end = 0x5000, vm_flags = 3, vm_page_prot = 7, vm_file = Some 1,
       vm_inode = Some 2, vm_offset = 0x2000, vm_ops = Some File_private_mmap\<rparr>],
     brk = 0x10000, start_brk = 0x8000, end_code = 0x1000, frefs = (\<lambda>_. 1), irefs = (\<lambda>_. 1), calls = [], kmallocs = [],
     pt = pgt_example\<lparr>pd_ents := (\<lambda>_. 0)\<rparr>\<rparr>"

lemma mm_example_ok: "vmas_ok (mmap mm_example)" "False \<notin> set (kmallocs mm_example)"
  by (simp_all add: mm_example_def vmas_ok_def vma_ok_def page_aligned_def KERNEL_BASE_def)

lemma mm_example_unmap: "unmap_page_range 1 (pt mm_example) 0x2000 0x1000 = Some (pt mm_example)"
  by (simp add: mm_example_def unmap_page_range_def unmap_pds.simps unmap_pte_range_def pe_present_def)

theorem do_munmap_exact_witness:
  "\<exists>m'. do_munmap 1 mm_example 0x2000 0x800 = Some (Inr 0, m') \<and> (0x2800, attr (hd (mmap mm_example)) 0x2800) \<notin> view (mmap m') \<and>
     (0x3800, 3, Some 1, Some 2, 0x4800) \<in> view (mmap m')"
proof -
  have al: "page_aligned 0x2000" "PAGE_ALIGN 0x800 = 0x1000" by (simp_all add: page_aligned_def PAGE_ALIGN_def)
  have "(0x3800, 3, Some 1, Some 2, 0x4800) \<in> view (mmap mm_example)"
    by (auto simp: view_def mm_example_def attr_def covers_def intro!: exI [of _ "hd (mmap mm_example)"])
  moreover obtain m' where "do_munmap 1 mm_example 0x2000 0x800 = Some (Inr 0, m')"
     "view (mmap m') = {(a, x) \<in> view (mmap mm_example). a \<notin> {0x2000 ..< 0x3000}}"
    using do_munmap_exact [OF mm_example_ok al(1), of "0x800" 1] mm_example_unmap by (auto simp: KERNEL_BASE_def al)
  ultimately show ?thesis by auto
qed

theorem get_unmapped_area_first_fit_witness:
  "fits_at (mmap mm_example) 0x2000 0x5000 \<and> get_unmapped_area_locked (mmap mm_example) 0x3000 0x2000 \<le> 0x5000"
proof -
  have f: "fits_at (mmap mm_example) 0x2000 0x5000" by (simp add: fits_at_def mm_example_def KERNEL_BASE_def)
  show ?thesis
    using get_unmapped_area_first_fit [OF mm_example_ok(1), of "0x3000" "0x2000"] f
    by (auto simp: KERNEL_BASE_def PAGE_ALIGN_def)
qed



text \<open>A request below the start of the heap, which any program can make, trips an assertion
  in \<^verbatim>\<open>sys_brk\<close>.\<close>

lemma sys_brk_hangs: "b \<noteq> 0 \<Longrightarrow> b < start_brk m \<Longrightarrow> sys_brk pid rlim m b = None"
  by (simp add: sys_brk_def)

text \<open>A protection change of a range that starts inside a page leaves out the last page it
  touches: the start is rounded down but the length is not extended.\<close>

lemma mprotect_misses_last_page:
  "sys_mprotect mm_example 0x1ffe 4 1 = (Inr 0, m') \<Longrightarrow>
     pt m' = protect_page_range (pt mm_example) 0x1000 0x1000 1"
  by (auto simp: sys_mprotect_def KERNEL_BASE_def PAGE_MASK_def PAGE_ALIGN_def VM_READ_def VM_WRITE_def VM_EXEC_def)

end
