(* ===== verification/Logbuf.thy ===== *)
theory Logbuf
  imports Vma
begin

text \<open>
  The kernel log of \<^verbatim>\<open>src/src/kernel/logbuf.c\<close>: records of variable size in a
  circular buffer of 16 kilobytes, the oldest dropped to make room for a new one.
  Each record is a header of 20 bytes (\<^verbatim>\<open>LOG_RECORD_HEADER\<close>: the fields of
  \<^verbatim>\<open>struct log_record\<close> in little-endian order, with the four-byte alignment of
  64-bit fields on i386), its text and a zero byte. Then its two clients, the system call
  of \<^verbatim>\<open>src/src/kernel/syslog.c\<close> and the device of \<^verbatim>\<open>src/src/fs/char/kmsg.c\<close>.

  The functions run under \<^verbatim>\<open>logbuf_lock\<close>, so each is one step on the state. A call that
  sleeps is given what it finds each time it holds the lock, as a list of pairs of a
  pending signal and a state; it is \<^term>\<open>None\<close> when the list ends before it returns.
  The time (\<^verbatim>\<open>jiffies\<close>) is an argument. Waking the readers has no effect on the state.
\<close>

section \<open>Model\<close>

record log_record =
  r_len :: u32
  r_prio :: u16
  r_flags :: u16
  r_seq :: u32
  r_usec :: u64

abbreviation LOG_BUF_LEN :: u32 where "LOG_BUF_LEN \<equiv> 16384"
abbreviation LOG_LINE_MAX :: u32 where "LOG_LINE_MAX \<equiv> 1024"
abbreviation LOG_RECORD_HEADER :: u32 where "LOG_RECORD_HEADER \<equiv> 20"
abbreviation LOG_INFO :: u32 where "LOG_INFO \<equiv> 6"
abbreviation LOG_DEBUG :: int where "LOG_DEBUG \<equiv> 7"

definition header_bytes :: "log_record \<Rightarrow> u8 list" where
  "header_bytes r = le_bytes 4 (r_len r) @ le_bytes 2 (r_prio r) @ le_bytes 2 (r_flags r) @
     le_bytes 4 (r_seq r) @ le_bytes 8 (r_usec r)"

definition header_of :: "u8 list \<Rightarrow> log_record" where
  "header_of bs = \<lparr>r_len = le_word (take 4 bs), r_prio = le_word (take 2 (drop 4 bs)),
     r_flags = le_word (take 2 (drop 6 bs)), r_seq = le_word (take 4 (drop 8 bs)),
     r_usec = le_word (take 8 (drop 12 bs))\<rparr>"

record logbuf =
  log_buf :: "u8 list"
  log_head :: u32
  log_tail :: u32
  log_count :: u32
  log_used :: u32
  log_next_seq :: u32
  logbuf_ready :: bool
  console_loglevel :: int

definition record_size :: "log_record \<Rightarrow> u32" where
  "record_size r = LOG_RECORD_HEADER + r_len r + 1"

definition copy_to_log :: "u32 \<Rightarrow> u8 list \<Rightarrow> u32 \<Rightarrow> logbuf \<Rightarrow> logbuf" where
  "copy_to_log off src len s =
     (let off = off mod LOG_BUF_LEN;
          first = LOG_BUF_LEN - off;
          first = (if first > len then len else first);
          buf = copy_at (unat off) (take (unat first) src) (log_buf s);
          buf = (if len > first then copy_at 0 (take (unat (len - first)) (drop (unat first) src)) buf
                 else buf)
      in s\<lparr>log_buf := buf\<rparr>)"

definition copy_from_log :: "u32 \<Rightarrow> u32 \<Rightarrow> logbuf \<Rightarrow> u8 list" where
  "copy_from_log off len s =
     (let off = off mod LOG_BUF_LEN;
          first = LOG_BUF_LEN - off;
          first = (if first > len then len else first);
          dst = take (unat first) (drop (unat off) (log_buf s))
      in if len > first then dst @ take (unat (len - first)) (log_buf s) else dst)"

definition drop_oldest_locked :: "logbuf \<Rightarrow> logbuf" where
  "drop_oldest_locked s =
     (if log_count s = 0 then s
      else
        let sz = record_size (header_of (copy_from_log (log_tail s) LOG_RECORD_HEADER s))
        in s\<lparr>log_used := log_used s - sz, log_tail := (log_tail s + sz) mod LOG_BUF_LEN,
             log_count := log_count s - 1\<rparr>)"

definition oldest_seq_locked :: "logbuf \<Rightarrow> u32" where
  "oldest_seq_locked s =
     (if log_count s = 0 then log_next_seq s
      else r_seq (header_of (copy_from_log (log_tail s) LOG_RECORD_HEADER s)))"

text \<open>The loop of \<^verbatim>\<open>find_seq_locked\<close>, with the number of iterations left.\<close>

primrec find_seq :: "logbuf \<Rightarrow> u32 \<Rightarrow> nat \<Rightarrow> u32 \<Rightarrow> u32 option" where
  "find_seq s sq 0 cur = None"
| "find_seq s sq (Suc n) cur =
     (let r = header_of (copy_from_log cur LOG_RECORD_HEADER s)
      in if r_seq r = sq then Some cur
         else find_seq s sq n ((cur + record_size r) mod LOG_BUF_LEN))"

definition find_seq_locked :: "logbuf \<Rightarrow> u32 \<Rightarrow> u32 option" where
  "find_seq_locked s sq = find_seq s sq (unat (log_count s)) (log_tail s)"

text \<open>\<open>tmp_digits\<close> is what the loop \<^verbatim>\<open>do { tmp[n++] = ...; value /= 10; } while (value)\<close>
  leaves in \<^verbatim>\<open>tmp\<close>: the decimal digits, last one first.\<close>

fun tmp_digits :: "nat \<Rightarrow> u8 list" where
  "tmp_digits v = of_nat (48 + v mod 10) # (if v div 10 = 0 then [] else tmp_digits (v div 10))"

declare tmp_digits.simps [simp del]

definition append_u32 :: "u32 \<Rightarrow> u8 list" where
  "append_u32 v = rev (tmp_digits (unat v))"

definition append_u64 :: "u64 \<Rightarrow> u8 list" where
  "append_u64 v = rev (tmp_digits (unat v))"

definition append_u64_fixed :: "u64 \<Rightarrow> nat \<Rightarrow> u8 list" where
  "append_u64_fixed v digits =
     (let tmp = tmp_digits (unat v) in rev (tmp @ replicate (digits - length tmp) 48))"

definition format_kmsg_line :: "log_record \<Rightarrow> u8 list \<Rightarrow> u8 list" where
  "format_kmsg_line r txt =
     append_u32 (ucast (r_prio r)) @ [44] @ append_u32 (r_seq r) @ [44] @ append_u64 (r_usec r) @ [44] @
     append_u32 (ucast (r_flags r)) @ [59, 32] @ take (unat (r_len r)) txt @ [10]"

definition format_syslog_line :: "log_record \<Rightarrow> u8 list \<Rightarrow> u8 list" where
  "format_syslog_line r txt =
     [60] @ append_u32 (ucast (r_prio r)) @ [91] @ append_u64 (r_usec r div 1000000) @ [46] @
     append_u64_fixed (r_usec r mod 1000000) 6 @ [93, 32] @ take (unat (r_len r)) txt @ [10]"

text \<open>The bytes stored through \<^verbatim>\<open>buf\<close> and the value stored through \<^verbatim>\<open>next_seq\<close>.\<close>

definition read_record_locked :: "logbuf \<Rightarrow> u32 \<Rightarrow> nat \<Rightarrow> u8 list \<times> u32" where
  "read_record_locked s off sz =
     (let r = header_of (copy_from_log off LOG_RECORD_HEADER s);
          txt = copy_from_log (off + LOG_RECORD_HEADER) (r_len r) s;
          line = format_kmsg_line r txt
      in (take sz line, r_seq r + 1))"

text \<open>A result \<open>Inr (bs, n)\<close> returns the number of the bytes \<open>bs\<close>; \<open>n\<close> is \<^term>\<open>None\<close> when
  \<^verbatim>\<open>next_seq\<close> is not written.\<close>

definition read_seq_locked :: "logbuf \<Rightarrow> u32 \<Rightarrow> nat \<Rightarrow> errno + u8 list \<times> u32 option" where
  "read_seq_locked s sq sz =
     (if log_count s = 0 \<or> sq = log_next_seq s then Inr ([], None)
      else if sint (sq - oldest_seq_locked s) < 0 then Inl EPIPE
      else case find_seq_locked s sq of
             None \<Rightarrow> Inl EPIPE
           | Some off \<Rightarrow> (case read_record_locked s off sz of (bs, n) \<Rightarrow> Inr (bs, Some n)))"

definition logbuf_init :: "logbuf \<Rightarrow> logbuf" where
  "logbuf_init s = s\<lparr>console_loglevel := LOG_DEBUG, log_head := 0, log_tail := 0, log_count := 0,
     log_used := 0, log_next_seq := 0, logbuf_ready := True\<rparr>"

text \<open>The loop of \<^verbatim>\<open>logbuf_store\<close> that makes room for \<open>total\<close> bytes.\<close>

function make_room :: "u32 \<Rightarrow> logbuf \<Rightarrow> logbuf" where
  "make_room need s =
     (if log_count s \<noteq> 0 \<and> LOG_BUF_LEN - log_used s < need then make_room need (drop_oldest_locked s)
      else s)"
  by auto
termination
  by (relation "measure (\<lambda>(_, s). unat (log_count s))")
    (auto simp: drop_oldest_locked_def Let_def unat_minus_one unat_gt_0)

declare make_room.simps [simp del]

definition logbuf_store :: "u32 \<Rightarrow> u32 \<Rightarrow> u8 list option \<Rightarrow> u32 \<Rightarrow> logbuf \<Rightarrow> logbuf" where
  "logbuf_store jiffies prio txt len s =
     (case txt of
        None \<Rightarrow> s
      | Some txt \<Rightarrow>
          if \<not> logbuf_ready s \<or> len = 0 then s
          else
            let len = (if len > LOG_LINE_MAX then LOG_LINE_MAX else len);
                need = LOG_RECORD_HEADER + len + 1;
                (len, need) = (if need > LOG_BUF_LEN
                               then (LOG_BUF_LEN - LOG_RECORD_HEADER - 1, LOG_BUF_LEN)
                               else (len, need));
                s = make_room need s;
                rec = \<lparr>r_len = len, r_prio = ucast prio, r_flags = 0, r_seq = log_next_seq s,
                       r_usec = scast jiffies * 1000000 div 100\<rparr>;
                s = s\<lparr>log_next_seq := log_next_seq s + 1\<rparr>;
                s = copy_to_log (log_head s) (header_bytes rec) LOG_RECORD_HEADER s;
                text_off = log_head s + LOG_RECORD_HEADER;
                s = copy_to_log text_off txt len s;
                nul_off = text_off + len;
                s = copy_to_log nul_off [0] 1 s
            in s\<lparr>log_head := (log_head s + need) mod LOG_BUF_LEN, log_used := log_used s + need,
                 log_count := log_count s + 1\<rparr>)"

definition logbuf_read_seq :: "logbuf \<Rightarrow> u32 \<Rightarrow> nat \<Rightarrow> errno + u8 list \<times> u32 option" where
  "logbuf_read_seq s sq sz = read_seq_locked s sq sz"

primrec logbuf_read_wait ::
  "u32 \<Rightarrow> nat \<Rightarrow> bool \<Rightarrow> (bool \<times> logbuf) list \<Rightarrow> (errno + u8 list \<times> u32 option) option" where
  "logbuf_read_wait sq sz nonblock [] = None"
| "logbuf_read_wait sq sz nonblock (o1 # os) =
     (case o1 of (signal, s) \<Rightarrow>
        if signal then Some (Inl ERESTARTSYS)
        else case read_seq_locked s sq sz of
               Inl e \<Rightarrow> Some (Inl e)
             | Inr (bs, n) \<Rightarrow>
                 if bs \<noteq> [] then Some (Inr (bs, n))
                 else if nonblock then Some (Inl EAGAIN)
                 else logbuf_read_wait sq sz nonblock os)"

definition logbuf_oldest_seq :: "logbuf \<Rightarrow> u32" where
  "logbuf_oldest_seq s = oldest_seq_locked s"

definition logbuf_next_seq :: "logbuf \<Rightarrow> u32" where
  "logbuf_next_seq s = log_next_seq s"

definition logbuf_clear :: "logbuf \<Rightarrow> logbuf" where
  "logbuf_clear s = s\<lparr>log_head := 0, log_tail := 0, log_count := 0, log_used := 0, log_next_seq := 0\<rparr>"

text \<open>The loops of \<^verbatim>\<open>logbuf_formatted_syslog_len\<close> and \<^verbatim>\<open>logbuf_format_syslog\<close>, with the
  number of iterations left.\<close>

primrec syslog_len :: "logbuf \<Rightarrow> nat \<Rightarrow> u32 \<Rightarrow> nat" where
  "syslog_len s 0 off = 0"
| "syslog_len s (Suc n) off =
     (let r = header_of (copy_from_log off LOG_RECORD_HEADER s);
          txt = copy_from_log (off + LOG_RECORD_HEADER) (r_len r) s
      in length (format_syslog_line r txt) + syslog_len s n ((off + record_size r) mod LOG_BUF_LEN))"

definition logbuf_formatted_syslog_len :: "logbuf \<Rightarrow> nat" where
  "logbuf_formatted_syslog_len s = syslog_len s (unat (log_count s)) (log_tail s)"

primrec format_syslog :: "logbuf \<Rightarrow> nat \<Rightarrow> nat \<Rightarrow> u32 \<Rightarrow> u8 list \<Rightarrow> u8 list" where
  "format_syslog s sz 0 off copied = copied"
| "format_syslog s sz (Suc n) off copied =
     (if length copied < sz
      then let r = header_of (copy_from_log off LOG_RECORD_HEADER s);
               txt = copy_from_log (off + LOG_RECORD_HEADER) (r_len r) s;
               line = format_syslog_line r txt
           in format_syslog s sz n ((off + record_size r) mod LOG_BUF_LEN)
                (copied @ take (sz - length copied) line)
      else copied)"

definition logbuf_format_syslog :: "logbuf \<Rightarrow> nat \<Rightarrow> bool \<Rightarrow> u8 list \<times> logbuf" where
  "logbuf_format_syslog s sz clear =
     (format_syslog s sz (unat (log_count s)) (log_tail s) [], if clear then logbuf_clear s else s)"

definition logbuf_console_loglevel :: "bool \<Rightarrow> int \<Rightarrow> logbuf \<Rightarrow> int \<times> logbuf" where
  "logbuf_console_loglevel setl level s =
     (if setl
      then if level < 1 \<or> level > 8 then (console_loglevel s, s)
           else (0, s\<lparr>console_loglevel := level\<rparr>)
      else (console_loglevel s, s))"

subsection \<open>The system call\<close>

text \<open>\<open>SysRead bs\<close> returns the number of the bytes \<open>bs\<close> copied to the user buffer. The
  user buffer is checked against the caller's memory areas \<open>m\<close>.\<close>

datatype syslog_result = SysErr errno | SysRead "u8 list" | SysInt int

definition sys_syslog :: "mmst \<Rightarrow> u32 \<Rightarrow> int \<Rightarrow> u32 \<Rightarrow> int \<Rightarrow> logbuf \<Rightarrow> syslog_result \<times> logbuf" where
  "sys_syslog m rlim_stack type buf len s =
     (if type = 3 \<or> type = 4
      then if buf = 0 then (SysErr EINVAL, s)
           else if len < 0 then (SysErr EINVAL, s)
           else
             let len = min len 65536
             in case verify_area m False rlim_stack True buf (word_of_int len) of
                  Inl e \<Rightarrow> (SysErr e, s)
                | Inr _ \<Rightarrow> (case logbuf_format_syslog s (nat len) (type = 4) of (bs, s') \<Rightarrow> (SysRead bs, s'))
      else if type = 5 then (SysInt 0, logbuf_clear s)
      else if type = 8 then (case logbuf_console_loglevel True len s of (r, s') \<Rightarrow> (SysInt r, s'))
      else if type = 9 \<or> type = 10 then (SysInt (int (logbuf_formatted_syslog_len s)), s)
      else (SysErr EINVAL, s))"

subsection \<open>The device\<close>

text \<open>An open file of \<^verbatim>\<open>/dev/kmsg\<close>: its position is a sequence number.\<close>

record kmsg_file =
  k_pos :: u32
  k_nonblock :: bool

definition kmsg_open :: "logbuf \<Rightarrow> kmsg_file \<Rightarrow> kmsg_file" where
  "kmsg_open s f = f\<lparr>k_pos := logbuf_oldest_seq s\<rparr>"

text \<open>\<open>later\<close> is the log when \<^verbatim>\<open>kmsg_read\<close> asks for the oldest record after \<^verbatim>\<open>-EPIPE\<close>.
  The comparison of \<^verbatim>\<open>count\<close> with \<^verbatim>\<open>sizeof(tmp)\<close> is unsigned.\<close>

definition kmsg_read :: "(bool \<times> logbuf) list \<Rightarrow> logbuf \<Rightarrow> u32 \<Rightarrow> kmsg_file \<Rightarrow>
    ((errno + u8 list) \<times> kmsg_file) option" where
  "kmsg_read obs later cnt f =
     (let sz = (if cnt < LOG_LINE_MAX + 64 then cnt else LOG_LINE_MAX + 64)
      in case logbuf_read_wait (k_pos f) (unat sz) (k_nonblock f) obs of
           None \<Rightarrow> None
         | Some (Inl e) \<Rightarrow>
             Some (Inl e, if e = EPIPE then f\<lparr>k_pos := logbuf_oldest_seq later\<rparr> else f)
         | Some (Inr (bs, n)) \<Rightarrow>
             (case n of None \<Rightarrow> Some (Inr bs, f) | Some sq \<Rightarrow> Some (Inr bs, f\<lparr>k_pos := sq\<rparr>)))"

text \<open>The digits after \<^verbatim>\<open><\<close>: the priority so far and the bytes after the digits.\<close>

primrec parse_prio :: "u32 \<Rightarrow> u8 list \<Rightarrow> u32 \<times> u8 list" where
  "parse_prio prio [] = (prio, [])"
| "parse_prio prio (c # cs) =
     (if 48 \<le> c \<and> c \<le> 57 then parse_prio (prio * 10 + ucast c - 48) cs else (prio, c # cs))"

definition kmsg_write :: "u32 \<Rightarrow> u8 list \<Rightarrow> int \<Rightarrow> logbuf \<Rightarrow> int \<times> logbuf" where
  "kmsg_write jiffies buf cnt s =
     (if cnt \<le> 0 then (0, s)
      else
        let len = nat (min cnt 1024);
            tmp = take len buf @ [0];
            (prio, txt, len) =
              (if tmp ! 0 = 60
               then case parse_prio 0 (tl tmp) of
                      (prio, p) \<Rightarrow>
                        if p \<noteq> [] \<and> hd p = 62 then (prio, tl p, len - (length tmp - length (tl p)))
                        else (LOG_INFO, tmp, len)
               else (LOG_INFO, tmp, len));
            len = (if len > 0 \<and> txt ! (len - 1) = 10 then len - 1 else len)
        in (cnt, logbuf_store jiffies prio (Some txt) (of_nat len) s))"

datatype seek_origin = SEEK_SET | SEEK_CUR | SEEK_END

definition kmsg_lseek :: "logbuf \<Rightarrow> int \<Rightarrow> seek_origin \<Rightarrow> kmsg_file \<Rightarrow> (errno + u32) \<times> kmsg_file" where
  "kmsg_lseek s offset origin f =
     (case origin of
        SEEK_SET \<Rightarrow>
          if offset \<noteq> 0 then (Inl EINVAL, f)
          else (let f = f\<lparr>k_pos := logbuf_oldest_seq s\<rparr> in (Inr (k_pos f), f))
      | SEEK_END \<Rightarrow>
          if offset \<noteq> 0 then (Inl EINVAL, f)
          else (let f = f\<lparr>k_pos := logbuf_next_seq s\<rparr> in (Inr (k_pos f), f))
      | SEEK_CUR \<Rightarrow> (Inl EINVAL, f))"


section \<open>Records in the buffer\<close>

type_synonym log_entry = "log_record \<times> u8 list"

definition entry_bytes :: "log_entry \<Rightarrow> u8 list" where
  "entry_bytes e = header_bytes (fst e) @ snd e @ [0]"

abbreviation log_bytes :: "log_entry list \<Rightarrow> u8 list" where
  "log_bytes es \<equiv> concat (map entry_bytes es)"

definition entry_ok :: "log_entry \<Rightarrow> bool" where
  "entry_ok e \<longleftrightarrow> unat (r_len (fst e)) = length (snd e) \<and> length (snd e) \<le> 1024"

text \<open>The state \<open>s\<close> holds exactly the records \<open>es\<close>, oldest first, numbered consecutively
  up to the next sequence number.\<close>

definition log_rel :: "logbuf \<Rightarrow> log_entry list \<Rightarrow> bool" where
  "log_rel s es \<longleftrightarrow>
     length (log_buf s) = 16384 \<and> unat (log_tail s) < 16384 \<and> unat (log_used s) \<le> 16384 \<and>
     unat (log_head s) = (unat (log_tail s) + unat (log_used s)) mod 16384 \<and>
     unat (log_count s) = length es \<and>
     get_wrapped (unat (log_tail s)) (unat (log_used s)) (log_buf s) = log_bytes es \<and>
     (\<forall>e \<in> set es. entry_ok e) \<and>
     (\<forall>i < length es. r_seq (fst (es ! i)) = log_next_seq s - of_nat (length es - i))"

lemma log_relD:
  assumes "log_rel s es"
  shows "length (log_buf s) = 16384" "unat (log_tail s) < 16384" "unat (log_used s) \<le> 16384"
    "unat (log_head s) = (unat (log_tail s) + unat (log_used s)) mod 16384"
    "unat (log_count s) = length es"
    "get_wrapped (unat (log_tail s)) (unat (log_used s)) (log_buf s) = log_bytes es"
    "\<And>e. e \<in> set es \<Longrightarrow> entry_ok e"
    "\<And>i. i < length es \<Longrightarrow> r_seq (fst (es ! i)) = log_next_seq s - of_nat (length es - i)"
    "unat (log_used s) = length (log_bytes es)"
  using assms length_get_wrapped [of "unat (log_tail s)" "unat (log_used s)" "log_buf s"]
  by (auto simp: log_rel_def simp del: length_get_wrapped)

lemma length_header_bytes [simp]: "length (header_bytes r) = 20"
  by (simp add: header_bytes_def)

lemma header_of_bytes [simp]: "header_of (header_bytes r) = r"
  by (simp add: header_of_def header_bytes_def)

lemma length_entry_bytes [simp]: "length (entry_bytes e) = 21 + length (snd e)"
  by (simp add: entry_bytes_def)

lemma record_size_entry: "entry_ok e \<Longrightarrow> unat (record_size (fst e)) = length (entry_bytes e)"
  by (simp add: record_size_def entry_ok_def unat_word_ariths)

lemma length_entries: "length es * 21 \<le> length (log_bytes es)"
  by (induction es) auto

lemma log_rel_few: "log_rel s es \<Longrightarrow> length es \<le> 780"
  using length_entries [of es] log_relD(3,9) [of s es] by simp

subsection \<open>Copying\<close>

lemma unat_mod_len: "unat (x mod LOG_BUF_LEN) = unat x mod 16384"
  by (simp add: unat_mod_distrib)

lemma copy_from_log_get:
  assumes "length (log_buf s) = 16384" "unat len \<le> 16384"
  shows "copy_from_log off len s = get_wrapped (unat off mod 16384) (unat len) (log_buf s)"
proof -
  define o' where "o' = off mod LOG_BUF_LEN"
  have o': "unat o' = unat off mod 16384" "unat o' < 16384"
    by (simp_all add: o'_def unat_mod_len)
  define c where "c = (if LOG_BUF_LEN - o' > len then len else LOG_BUF_LEN - o')"
  have "unat (LOG_BUF_LEN - o') = 16384 - unat o'"
    using o' by (simp add: unat_sub word_le_nat_alt)
  then have c: "unat c = min (length (log_buf s) - unat o') (unat len)"
    using assms by (auto simp: c_def word_less_nat_alt)
  have rest: "unat (len - c) = unat len - unat c"
    using c by (simp add: unat_sub word_le_nat_alt)
  have "(if c < len then take (unat c) (drop (unat o') (log_buf s)) @ take (unat (len - c)) (log_buf s)
      else take (unat c) (drop (unat o') (log_buf s))) = get_wrapped (unat o') (unat len) (log_buf s)"
    using get_wrapped_chunks [OF c] assms o'(2) by (cases "unat c < unat len") (simp_all add: rest word_less_nat_alt)
  then show ?thesis
    by (cases "c < len") (simp_all add: copy_from_log_def Let_def flip: o'_def c_def o'(1))
qed

lemma copy_to_log_put:
  assumes "length (log_buf s) = 16384" "unat len \<le> 16384" "unat len \<le> length src"
  shows "copy_to_log off src len s =
    s\<lparr>log_buf := put_wrapped (unat off mod 16384) (take (unat len) src) (log_buf s)\<rparr>"
proof -
  define o' where "o' = off mod LOG_BUF_LEN"
  have o': "unat o' = unat off mod 16384" "unat o' < 16384"
    by (simp_all add: o'_def unat_mod_len)
  define c where "c = (if LOG_BUF_LEN - o' > len then len else LOG_BUF_LEN - o')"
  have "unat (LOG_BUF_LEN - o') = 16384 - unat o'"
    using o' by (simp add: unat_sub word_le_nat_alt)
  then have c: "unat c = min (length (log_buf s) - unat o') (length (take (unat len) src))"
    using assms by (auto simp: c_def word_less_nat_alt)
  have rest: "unat (len - c) = unat len - unat c"
    using c assms by (simp add: unat_sub word_le_nat_alt)
  have "take (unat (len - c)) (drop (unat c) src) = drop (unat c) (take (unat len) src)"
    "take (unat c) src = take (unat c) (take (unat len) src)" "length (take (unat len) src) = unat len"
    using assms c by (simp_all add: rest drop_take)
  then have "(if c < len
      then copy_at 0 (take (unat (len - c)) (drop (unat c) src)) (copy_at (unat o') (take (unat c) src) (log_buf s))
      else copy_at (unat o') (take (unat c) src) (log_buf s)) =
      put_wrapped (unat o') (take (unat len) src) (log_buf s)"
    using put_wrapped_chunks [OF c] by (simp only: word_less_nat_alt)
  then show ?thesis
    by (cases "c < len") (simp_all add: copy_to_log_def Let_def flip: o'_def c_def o'(1))
qed

lemma log_head_copy [simp]: "log_head (copy_to_log off src len s) = log_head s"
  by (simp add: copy_to_log_def Let_def)

lemma get_wrapped_mod [simp]: "get_wrapped (off mod length d) n d = get_wrapped off n d"
  by (simp add: get_wrapped_def mod_add_left_eq)

lemma get_wrapped_middle:
  assumes "get_wrapped off n d = xs @ ys @ zs"
  shows "get_wrapped (off + length xs) (length ys) d = ys"
proof -
  have "n = length xs + (length ys + length zs)"
    using arg_cong [OF assms, of length] by simp
  with assms show ?thesis
    by (simp add: get_wrapped_append)
qed

lemma ring_distance_shift:
  fixes off k m S :: nat
  assumes "off < S" "k < S" "m \<le> S"
  shows "((off + k) mod S + S - (off + m) mod S) mod S = (if m \<le> k then k - m else k + S - m)"
proof -
  let ?j = "if m \<le> k then k - m else k + S - m"
  have "((off + m) mod S + ?j) mod S = (off + m + ?j) mod S"
    by (rule mod_add_left_eq)
  also have "\<dots> = (off + k) mod S"
    using assms mod_add_self2 [of "off + k" S] by (auto simp: add.assoc)
  finally have "(off + k) mod S = ((off + m) mod S + ?j) mod S" by simp
  moreover have "?j < S" "(off + m) mod S < S"
    using assms by auto
  ultimately show ?thesis
    by (simp only: ring_distance_add)
qed

text \<open>Two writes one after the other are one write.\<close>

lemma put_wrapped_append:
  assumes "off < length d" "length xs + length ys \<le> length d"
  shows "put_wrapped ((off + length xs) mod length d) ys (put_wrapped off xs d) = put_wrapped off (xs @ ys) d"
proof (rule nth_equalityI)
  let ?S = "length d" and ?off = "(off + length xs) mod length d"
  have off: "?off < ?S" using assms by (auto intro: mod_less_divisor)
  have len: "length (put_wrapped off xs d) = ?S" "length (put_wrapped off (xs @ ys) d) = ?S"
    "length (put_wrapped ?off ys (put_wrapped off xs d)) = ?S"
    using assms off by (simp_all add: length_put_wrapped)
  then show "length (put_wrapped ?off ys (put_wrapped off xs d)) = length (put_wrapped off (xs @ ys) d)"
    by simp
  fix j assume "j < length (put_wrapped ?off ys (put_wrapped off xs d))"
  then have j: "j < ?S" using len by simp
  define k where "k = (j + ?S - off) mod ?S"
  have k: "k < ?S" unfolding k_def using j by (intro mod_less_divisor) auto
  have jk: "j = (off + k) mod ?S"
    using assms(1) j mod_add_self2 [of j ?S] by (cases "off \<le> j") (simp_all add: k_def ring_distance)
  have dist: "(j + ?S - ?off) mod ?S = (if length xs \<le> k then k - length xs else k + ?S - length xs)"
    unfolding jk using assms k by (intro ring_distance_shift) simp_all
  have "put_wrapped ?off ys (put_wrapped off xs d) ! j =
      (let k' = (j + ?S - ?off) mod ?S in if k' < length ys then ys ! k' else put_wrapped off xs d ! j)"
    using nth_put_wrapped [of ?off "put_wrapped off xs d" ys j] off j len assms(2) by simp
  moreover have "put_wrapped off xs d ! j = (if k < length xs then xs ! k else d ! j)"
    "put_wrapped off (xs @ ys) d ! j = (if k < length (xs @ ys) then (xs @ ys) ! k else d ! j)"
    using nth_put_wrapped [of off d _ j] assms j by (simp_all add: Let_def k_def)
  ultimately show "put_wrapped ?off ys (put_wrapped off xs d) ! j = put_wrapped off (xs @ ys) d ! j"
    using k assms(2) by (auto simp: dist nth_append Let_def)
qed


subsection \<open>Reading a record\<close>

text \<open>The offset at which the record after \<open>es\<close> starts.\<close>

definition entry_off :: "logbuf \<Rightarrow> log_entry list \<Rightarrow> u32" where
  "entry_off s es = of_nat ((unat (log_tail s) + length (log_bytes es)) mod 16384)"

lemma unat_entry_off: "unat (entry_off s es) = (unat (log_tail s) + length (log_bytes es)) mod 16384"
  unfolding entry_off_def by (rule unat_of_nat_small) (auto intro: less_trans [OF mod_less_divisor])

lemma entry_off_Nil: "log_rel s es \<Longrightarrow> entry_off s [] = log_tail s"
  by (simp add: entry_off_def log_relD)

lemma entry_bytes_at:
  assumes rel: "log_rel s es" and es: "es = es1 @ e # es2"
    and bs: "entry_bytes e = bs1 @ bs2 @ bs3"
    and off: "unat off mod 16384 = (unat (log_tail s) + length (log_bytes es1) + length bs1) mod 16384"
    and len: "unat len = length bs2" "length bs2 \<le> 16384"
  shows "copy_from_log off len s = bs2"
proof -
  have "get_wrapped (unat (log_tail s)) (unat (log_used s)) (log_buf s) =
      (log_bytes es1 @ bs1) @ bs2 @ (bs3 @ log_bytes es2)"
    using log_relD(6) [OF rel] by (simp add: es bs)
  from get_wrapped_middle [OF this] show ?thesis
    using len log_relD(1) [OF rel] get_wrapped_mod [of _ "log_buf s"]
    by (simp add: copy_from_log_get off add.assoc)
qed

lemma record_at:
  assumes rel: "log_rel s es" and es: "es = es1 @ e # es2"
  shows "header_of (copy_from_log (entry_off s es1) LOG_RECORD_HEADER s) = fst e"
    "copy_from_log (entry_off s es1 + LOG_RECORD_HEADER) (r_len (fst e)) s = snd e"
    "(entry_off s es1 + record_size (fst e)) mod LOG_BUF_LEN = entry_off s (es1 @ [e])"
proof -
  have ok: "entry_ok e" using log_relD(7) [OF rel] es by simp
  have small: "unat (entry_off s es1) < 16384" by (simp add: unat_entry_off)
  have "copy_from_log (entry_off s es1) LOG_RECORD_HEADER s = header_bytes (fst e)"
    by (rule entry_bytes_at [OF rel es, of "[]" _ "snd e @ [0]"]) (simp_all add: entry_bytes_def unat_entry_off)
  then show "header_of (copy_from_log (entry_off s es1) LOG_RECORD_HEADER s) = fst e"
    by simp
  have "unat (entry_off s es1 + LOG_RECORD_HEADER) = unat (entry_off s es1) + 20"
    using small by (simp add: unat_word_ariths)
  then show "copy_from_log (entry_off s es1 + LOG_RECORD_HEADER) (r_len (fst e)) s = snd e"
    using ok by (intro entry_bytes_at [OF rel es, of "header_bytes (fst e)" _ "[0]"])
      (simp_all add: entry_bytes_def entry_ok_def unat_entry_off mod_add_left_eq)
  have "unat (entry_off s es1 + record_size (fst e)) = unat (entry_off s es1) + length (entry_bytes e)"
    using small ok record_size_entry [OF ok] by (simp add: unat_word_ariths entry_ok_def)
  then have "unat ((entry_off s es1 + record_size (fst e)) mod LOG_BUF_LEN) = unat (entry_off s (es1 @ [e]))"
    by (simp add: unat_mod_len unat_entry_off mod_add_left_eq add.assoc)
  then show "(entry_off s es1 + record_size (fst e)) mod LOG_BUF_LEN = entry_off s (es1 @ [e])"
    by (simp add: word_unat_eq_iff)
qed

lemmas record_at_tail = record_at [where ?es1.0 = "[]", simplified]

lemma record_tail:
  assumes "log_rel s (e # es)"
  shows "header_of (copy_from_log (log_tail s) LOG_RECORD_HEADER s) = fst e"
    "(log_tail s + record_size (fst e)) mod LOG_BUF_LEN = entry_off s [e]"
  using record_at_tail(1,3) [OF assms refl] entry_off_Nil [OF assms] by simp_all


subsection \<open>Dropping and storing\<close>

lemma log_count_Cons: "log_rel s (e # es) \<Longrightarrow> log_count s \<noteq> 0"
  by (auto dest: log_relD(5))

lemma drop_oldest_rel:
  assumes rel: "log_rel s (e # es)"
  shows "log_rel (drop_oldest_locked s) es"
proof -
  let ?n = "length (entry_bytes e)" and ?m = "length (log_bytes es)"
  have ok: "entry_ok e" using log_relD(7) [OF rel] by simp
  have used: "unat (log_used s) = ?n + ?m" using log_relD(9) [OF rel] by simp
  have sz: "unat (record_size (fst e)) = ?n" by (rule record_size_entry [OF ok])
  have used': "unat (log_used s - record_size (fst e)) = ?m"
    using used sz by (simp add: unat_sub word_le_nat_alt)
  have count': "unat (log_count s - 1) = length es"
    using log_relD(5) [OF rel] by (simp add: unat_minus_one log_count_Cons [OF rel])
  have drop: "drop_oldest_locked s = s\<lparr>log_used := log_used s - record_size (fst e),
      log_tail := entry_off s [e], log_count := log_count s - 1\<rparr>"
    using log_count_Cons [OF rel] record_tail [OF rel] by (simp add: drop_oldest_locked_def Let_def)
  have tail': "unat (entry_off s [e]) = (unat (log_tail s) + ?n) mod 16384"
    by (simp add: unat_entry_off)
  have "get_wrapped (unat (log_tail s)) ?n (log_buf s) @
      get_wrapped (unat (entry_off s [e])) ?m (log_buf s) = entry_bytes e @ log_bytes es"
    using log_relD(6) [OF rel] log_relD(1) [OF rel]
    by (simp only: used tail' get_wrapped_append list.map concat.simps)
  then have bytes: "get_wrapped (unat (entry_off s [e])) ?m (log_buf s) = log_bytes es"
    by (metis append_eq_append_conv length_get_wrapped)
  have head: "(unat (entry_off s [e]) + ?m) mod 16384 = unat (log_head s)"
    using log_relD(4) [OF rel] by (simp only: used tail' mod_add_left_eq add.assoc)
  have seqs: "r_seq (fst (es ! i)) = log_next_seq s - of_nat (length es - i)" if "i < length es" for i
    using log_relD(8) [OF rel, of "Suc i"] that by simp
  show ?thesis
    unfolding log_rel_def drop
    using log_relD(1,3,7) [OF rel] used used' count' bytes head seqs
    by (simp add: tail')
qed

text \<open>What is left of the records when \<open>need\<close> bytes are to fit.\<close>

fun fit :: "nat \<Rightarrow> log_entry list \<Rightarrow> log_entry list" where
  "fit need [] = []"
| "fit need (e # es) = (if 16384 < need + length (log_bytes (e # es)) then fit need es else e # es)"

lemma fit_fits: "need \<le> 16384 \<Longrightarrow> need + length (log_bytes (fit need es)) \<le> 16384"
  by (induction es) auto

lemma fit_suffix: "\<exists>ds. es = ds @ fit need es"
  by (induction es) (auto intro: exI [of _ "_ # _"])

lemma log_rel_need:
  assumes "log_rel s es"
  shows "LOG_BUF_LEN - log_used s < need \<longleftrightarrow> 16384 < unat need + length (log_bytes es)"
proof -
  have "unat (LOG_BUF_LEN - log_used s) = 16384 - length (log_bytes es)" "length (log_bytes es) \<le> 16384"
    using log_relD(3,9) [OF assms] by (simp_all add: unat_sub word_le_nat_alt)
  then show ?thesis by (auto simp: word_less_nat_alt)
qed

lemma make_room_rel:
  assumes "log_rel s es"
  shows "log_rel (make_room need s) (fit (unat need) es)"
  using assms
proof (induction es arbitrary: s)
  case Nil
  then have "log_count s = 0" by (auto dest: log_relD(5) simp: unat_eq_0)
  with Nil show ?case by (subst make_room.simps) simp
next
  case (Cons e es)
  show ?case
  proof (cases "LOG_BUF_LEN - log_used s < need")
    case True
    then have "make_room need s = make_room need (drop_oldest_locked s)"
      using log_count_Cons [OF Cons.prems] by (subst make_room.simps) simp
    with True Cons.IH [OF drop_oldest_rel [OF Cons.prems]] show ?thesis
      using log_rel_need [OF Cons.prems, of need] by simp
  next
    case False
    then have "make_room need s = s" by (subst make_room.simps) simp
    with False Cons.prems show ?thesis
      using log_rel_need [OF Cons.prems, of need] by simp
  qed
qed

lemma make_room_frame: "\<exists>u t c. make_room need s = s\<lparr>log_used := u, log_tail := t, log_count := c\<rparr>"
proof (induction need s rule: make_room.induct)
  case (1 need s)
  show ?case
  proof (cases "log_count s \<noteq> 0 \<and> LOG_BUF_LEN - log_used s < need")
    case True
    then have "make_room need s = make_room need (drop_oldest_locked s)"
      by (subst make_room.simps) simp
    then show ?thesis
      using 1 [OF True] True by (auto simp: drop_oldest_locked_def Let_def)
  next
    case False
    then have "make_room need s = s" by (subst make_room.simps) auto
    then show ?thesis by (intro exI [of _ "log_used s"] exI [of _ "log_tail s"] exI [of _ "log_count s"]) simp
  qed
qed

lemma store_bytes:
  assumes "length (log_buf s) = 16384" "unat h < 16384" "unat len \<le> 1024" "unat len \<le> length txt"
  shows "copy_to_log (h + LOG_RECORD_HEADER + len) [0] 1
      (copy_to_log (h + LOG_RECORD_HEADER) txt len (copy_to_log h (header_bytes r) LOG_RECORD_HEADER s)) =
    s\<lparr>log_buf := put_wrapped (unat h) (entry_bytes (r, take (unat len) txt)) (log_buf s)\<rparr>"
proof -
  let ?t = "take (unat len) txt" and ?b1 = "put_wrapped (unat h) (header_bytes r) (log_buf s)"
  let ?b2 = "put_wrapped (unat h) (header_bytes r @ ?t) (log_buf s)"
  have t: "length ?t = unat len" using assms by simp
  have off: "unat (h + LOG_RECORD_HEADER) = unat h + 20" "unat (h + LOG_RECORD_HEADER + len) = unat h + (20 + unat len)"
    using assms by (simp_all add: unat_word_ariths)
  have len: "length ?b1 = 16384" "length ?b2 = 16384"
    using assms by (simp_all add: length_put_wrapped)
  have 1: "copy_to_log h (header_bytes r) LOG_RECORD_HEADER s = s\<lparr>log_buf := ?b1\<rparr>"
    using assms by (simp add: copy_to_log_put)
  have 2: "copy_to_log (h + LOG_RECORD_HEADER) txt len (s\<lparr>log_buf := ?b1\<rparr>) = s\<lparr>log_buf := ?b2\<rparr>"
    using assms len off t put_wrapped_append [of "unat h" "log_buf s" "header_bytes r" ?t]
    by (simp add: copy_to_log_put)
  have 3: "copy_to_log (h + LOG_RECORD_HEADER + len) [0] 1 (s\<lparr>log_buf := ?b2\<rparr>) =
      s\<lparr>log_buf := put_wrapped (unat h) (entry_bytes (r, ?t)) (log_buf s)\<rparr>"
    using assms len off t put_wrapped_append [of "unat h" "log_buf s" "header_bytes r @ ?t" "[0]"]
    by (simp add: copy_to_log_put entry_bytes_def)
  show ?thesis by (simp only: 1 2 3)
qed

lemma append_rel:
  assumes rel: "log_rel s es" and ok: "entry_ok e" and sq: "r_seq (fst e) = log_next_seq s"
    and need: "unat need = length (entry_bytes e)" "length (entry_bytes e) + length (log_bytes es) \<le> 16384"
  shows "log_rel (s\<lparr>log_buf := put_wrapped (unat (log_head s)) (entry_bytes e) (log_buf s),
    log_next_seq := log_next_seq s + 1, log_head := (log_head s + need) mod LOG_BUF_LEN,
    log_used := log_used s + need, log_count := log_count s + 1\<rparr>) (es @ [e])"
proof -
  let ?b = "put_wrapped (unat (log_head s)) (entry_bytes e) (log_buf s)"
  note D = log_relD [OF rel]
  have used: "unat (log_used s + need) = length (log_bytes es) + length (entry_bytes e)"
    using D(9) need by (simp add: nat_word)
  have head: "unat (log_head s + need) = unat (log_head s) + unat need"
    using D(4) need by (simp add: nat_word)
  have count: "unat (log_count s + 1) = length es + 1"
    using D(5) log_rel_few [OF rel] by (simp add: unat_word_ariths)
  have h: "unat (log_head s) < 16384" using D(4) by simp
  have b: "length ?b = 16384"
    using D(1) h need(2) by (simp add: length_put_wrapped del: length_entry_bytes)
  have head': "unat ((log_head s + need) mod LOG_BUF_LEN) =
      (unat (log_tail s) + unat (log_used s + need)) mod 16384"
    using D(4,9) need by (simp add: unat_mod_len head used mod_add_left_eq add.assoc)
  have "get_wrapped (unat (log_tail s)) (length (log_bytes es) + length (entry_bytes e)) ?b =
      get_wrapped (unat (log_tail s)) (length (log_bytes es)) ?b @
      get_wrapped (unat (log_head s)) (length (entry_bytes e)) ?b"
    using D(4,9) b by (simp only: get_wrapped_append)
  also have "get_wrapped (unat (log_tail s)) (length (log_bytes es)) ?b = log_bytes es"
    using get_put_wrapped_other [of "unat (log_tail s)" "log_buf s" "length (log_bytes es)" "entry_bytes e"]
      D(1,2,4,6,9) need(2) by (simp del: length_entry_bytes)
  also have "get_wrapped (unat (log_head s)) (length (entry_bytes e)) ?b = entry_bytes e"
    using get_put_wrapped [of "unat (log_head s)" "log_buf s" "entry_bytes e"] D(1) h need(2)
    by (simp del: length_entry_bytes)
  finally have bytes: "get_wrapped (unat (log_tail s)) (unat (log_used s + need)) ?b = log_bytes (es @ [e])"
    by (simp add: used)
  have seqs: "r_seq (fst ((es @ [e]) ! i)) = log_next_seq s + 1 - of_nat (length (es @ [e]) - i)"
    if "i < length (es @ [e])" for i
    using that D(8) [of i] sq by (cases "i = length es") (auto simp: nth_append Suc_diff_le)
  show ?thesis
    unfolding log_rel_def
    using D(2,7) b head' count bytes seqs ok used need(2) by auto
qed

subsection \<open>The records of a state\<close>

text \<open>The records that the loops over the buffer see.\<close>

primrec entries_from :: "logbuf \<Rightarrow> nat \<Rightarrow> u32 \<Rightarrow> log_entry list" where
  "entries_from s 0 off = []"
| "entries_from s (Suc n) off =
     (let r = header_of (copy_from_log off LOG_RECORD_HEADER s);
          txt = copy_from_log (off + LOG_RECORD_HEADER) (r_len r) s
      in (r, txt) # entries_from s n ((off + record_size r) mod LOG_BUF_LEN))"

definition log_entries :: "logbuf \<Rightarrow> log_entry list" where
  "log_entries s = entries_from s (unat (log_count s)) (log_tail s)"

definition log_inv :: "logbuf \<Rightarrow> bool" where
  "log_inv s \<longleftrightarrow> log_rel s (log_entries s)"

lemma entries_from_rel:
  "log_rel s (es1 @ es2) \<Longrightarrow> entries_from s (length es2) (entry_off s es1) = es2"
proof (induction es2 arbitrary: es1)
  case (Cons e es2)
  from Cons.IH [of "es1 @ [e]"] Cons.prems show ?case
    by (simp add: Let_def record_at [OF Cons.prems refl])
qed simp

lemma log_entries_rel: "log_rel s es \<Longrightarrow> log_entries s = es"
  using entries_from_rel [of s "[]" es] by (simp add: log_entries_def entry_off_Nil log_relD(5))

lemma log_inv_rel: "log_inv s \<longleftrightarrow> (\<exists>es. log_rel s es)"
  by (auto simp: log_inv_def dest: log_entries_rel)

lemma log_invD: "log_inv s \<Longrightarrow> log_rel s (log_entries s)"
  by (simp add: log_inv_def)


section \<open>Storing a record\<close>

definition new_entry :: "u32 \<Rightarrow> u32 \<Rightarrow> u8 list \<Rightarrow> u32 \<Rightarrow> u32 \<Rightarrow> log_entry" where
  "new_entry jiffies prio txt len sq =
     (\<lparr>r_len = min len 1024, r_prio = ucast prio, r_flags = 0, r_seq = sq,
       r_usec = scast jiffies * 1000000 div 100\<rparr>, take (min (unat len) 1024) txt)"

lemma logbuf_store_rel:
  assumes rel: "log_rel s es" and ready: "logbuf_ready s" and len: "0 < len" "unat len \<le> length txt"
  shows "log_rel (logbuf_store jiffies prio (Some txt) len s)
      (fit (21 + min (unat len) 1024) es @ [new_entry jiffies prio txt len (log_next_seq s)])"
    and "log_next_seq (logbuf_store jiffies prio (Some txt) len s) = log_next_seq s + 1"
    and "logbuf_ready (logbuf_store jiffies prio (Some txt) len s)"
proof -
  define l where "l = (if len > LOG_LINE_MAX then LOG_LINE_MAX else len)"
  define need where "need = 21 + l"
  define e where "e = new_entry jiffies prio txt len (log_next_seq s)"
  have l: "unat l = min (unat len) 1024" "l = min len 1024"
    by (auto simp: l_def word_less_nat_alt min_def word_le_nat_alt)
  have need: "unat need = 21 + min (unat len) 1024" "\<not> need > LOG_BUF_LEN"
    using l by (simp_all add: need_def unat_word_ariths word_less_nat_alt)
  obtain u t c where room: "make_room need s = s\<lparr>log_used := u, log_tail := t, log_count := c\<rparr>"
    using make_room_frame by blast
  define s1 where "s1 = make_room need s"
  have s1: "log_rel s1 (fit (unat need) es)" unfolding s1_def by (rule make_room_rel [OF rel])
  have frame: "log_next_seq s1 = log_next_seq s" "logbuf_ready s1 = logbuf_ready s"
    by (simp_all add: s1_def room)
  define r where "r = \<lparr>r_len = l, r_prio = ucast prio, r_flags = 0, r_seq = log_next_seq s1,
      r_usec = scast jiffies * 1000000 div 100\<rparr>"
  have er: "e = (r, take (unat l) txt)"
    by (simp add: e_def new_entry_def r_def l frame nat_word)
  have e: "entry_ok e" "r_seq (fst e) = log_next_seq s1" "unat need = length (entry_bytes e)"
    using len l need by (simp_all add: er r_def entry_ok_def nat_word)
  have "copy_to_log (log_head s1 + LOG_RECORD_HEADER + l) [0] 1
      (copy_to_log (log_head s1 + LOG_RECORD_HEADER) txt l
        (copy_to_log (log_head s1) (header_bytes r) LOG_RECORD_HEADER (s1\<lparr>log_next_seq := log_next_seq s1 + 1\<rparr>))) =
      s1\<lparr>log_next_seq := log_next_seq s1 + 1, log_buf := put_wrapped (unat (log_head s1)) (entry_bytes e) (log_buf s1)\<rparr>"
    using store_bytes [of "s1\<lparr>log_next_seq := log_next_seq s1 + 1\<rparr>" "log_head s1" l "txt" r] len(2) l
      log_relD(1,4) [OF s1] by (simp add: er)
  then have store: "logbuf_store jiffies prio (Some txt) len s =
     s1\<lparr>log_buf := put_wrapped (unat (log_head s1)) (entry_bytes e) (log_buf s1),
        log_next_seq := log_next_seq s1 + 1, log_head := (log_head s1 + need) mod LOG_BUF_LEN,
        log_used := log_used s1 + need, log_count := log_count s1 + 1\<rparr>"
    using ready len(1) need(2)
    by (simp add: logbuf_store_def Let_def word_gt_0 flip: l_def need_def s1_def r_def)
  have "length (entry_bytes e) + length (log_bytes (fit (unat need) es)) \<le> 16384"
    using fit_fits [of "unat need" es] need(1) e(3) by simp
  from append_rel [OF s1 e(1,2,3) this] show
    "log_rel (logbuf_store jiffies prio (Some txt) len s)
      (fit (21 + min (unat len) 1024) es @ [new_entry jiffies prio txt len (log_next_seq s)])"
    by (simp only: store e_def need(1) frame)
  show "log_next_seq (logbuf_store jiffies prio (Some txt) len s) = log_next_seq s + 1"
    "logbuf_ready (logbuf_store jiffies prio (Some txt) len s)"
    using ready by (simp_all add: store frame)
qed

section \<open>Reading\<close>

abbreviation has_seq :: "u32 \<Rightarrow> log_entry \<Rightarrow> bool" where
  "has_seq sq e \<equiv> r_seq (fst e) = sq"

lemma find_seq_rel:
  "log_rel s (es1 @ es2) \<Longrightarrow> find_seq s sq (length es2) (entry_off s es1) =
    (case find (has_seq sq) es2 of
       None \<Rightarrow> None
     | Some _ \<Rightarrow> Some (entry_off s (es1 @ takeWhile (\<lambda>e. \<not> has_seq sq e) es2)))"
proof (induction es2 arbitrary: es1)
  case (Cons e es2)
  from Cons.IH [of "es1 @ [e]"] Cons.prems show ?case
    by (simp add: Let_def record_at [OF Cons.prems refl] split: option.split)
qed simp

lemma find_split: "find P xs = Some x \<Longrightarrow> \<exists>ys. xs = takeWhile (\<lambda>y. \<not> P y) xs @ x # ys"
  by (induction xs) (auto split: if_splits)

lemma read_record_rel:
  assumes "log_rel s es" "find (has_seq sq) es = Some e"
  shows "read_record_locked s (entry_off s (takeWhile (\<lambda>e. \<not> has_seq sq e) es)) sz =
    (take sz (format_kmsg_line (fst e) (snd e)), sq + 1)"
proof -
  obtain ys where es: "es = takeWhile (\<lambda>e. \<not> has_seq sq e) es @ e # ys"
    using find_split [OF assms(2)] by blast
  show ?thesis
    using record_at [OF assms(1) es] assms(2)
    by (simp add: read_record_locked_def Let_def) (auto simp: find_Some_iff)
qed

lemma oldest_rel:
  assumes rel: "log_rel s es"
  shows "oldest_seq_locked s = log_next_seq s - of_nat (length es)"
proof (cases es)
  case Nil
  with log_relD(5) [OF rel] show ?thesis by (simp add: oldest_seq_locked_def unat_eq_0)
next
  case (Cons e es')
  with log_count_Cons record_tail rel log_relD(8) [OF rel, of 0] show ?thesis
    by (simp add: oldest_seq_locked_def)
qed

lemma seq_after_oldest:
  assumes rel: "log_rel s es" and "find (has_seq sq) es = Some e"
  shows "0 \<le> sint (sq - oldest_seq_locked s)"
proof -
  obtain i where i: "i < length es" "r_seq (fst (es ! i)) = sq"
    using assms(2) by (auto simp: find_Some_iff)
  have few: "length es \<le> 780" by (rule log_rel_few [OF rel])
  have "sq - oldest_seq_locked s = of_nat (length es) - of_nat (length es - i)"
    using log_relD(8) [OF rel i(1)] i(2) oldest_rel [OF rel] by simp
  also have "\<dots> = of_nat i" using i(1) by (simp add: of_nat_diff)
  finally show ?thesis
    using few i(1) by (simp add: signed_of_nat signed_take_bit_int_eq_self)
qed

lemma read_seq_rel:
  assumes rel: "log_rel s es"
  shows "read_seq_locked s sq sz =
    (if es = [] \<or> sq = log_next_seq s then Inr ([], None)
     else case find (has_seq sq) es of
            None \<Rightarrow> Inl EPIPE
          | Some e \<Rightarrow> Inr (take sz (format_kmsg_line (fst e) (snd e)), Some (sq + 1)))"
proof -
  have 0: "log_count s = 0 \<longleftrightarrow> es = []" using log_relD(5) [OF rel] by (metis length_0_conv unat_eq_0)
  have "find_seq_locked s sq = (case find (has_seq sq) es of None \<Rightarrow> None
      | Some _ \<Rightarrow> Some (entry_off s (takeWhile (\<lambda>e. \<not> has_seq sq e) es)))"
    using find_seq_rel [of s "[]" es sq] rel
    by (simp add: find_seq_locked_def entry_off_Nil log_relD(5) [OF rel] split: option.split)
  then show ?thesis
    using seq_after_oldest [OF rel] read_record_rel [OF rel]
    by (auto simp: read_seq_locked_def 0 not_less split: option.splits dest: leD)
qed

lemma format_syslog_rel:
  "log_rel s (es1 @ es2) \<Longrightarrow> length copied \<le> sz \<Longrightarrow>
   format_syslog s sz (length es2) (entry_off s es1) copied =
     take sz (copied @ concat (map (\<lambda>e. format_syslog_line (fst e) (snd e)) es2))"
proof (induction es2 arbitrary: es1 copied)
  case (Cons e es2)
  let ?line = "format_syslog_line (fst e) (snd e)"
  show ?case
    using Cons.IH [of "es1 @ [e]" "copied @ take (sz - length copied) ?line"] Cons.prems
    by (cases "length ?line \<le> sz - length copied")
      (auto simp: Let_def record_at [OF Cons.prems(1) refl] min_def)
qed simp

lemma syslog_len_rel:
  "log_rel s (es1 @ es2) \<Longrightarrow>
   syslog_len s (length es2) (entry_off s es1) =
     length (concat (map (\<lambda>e. format_syslog_line (fst e) (snd e)) es2))"
proof (induction es2 arbitrary: es1)
  case (Cons e es2)
  from Cons.IH [of "es1 @ [e]"] Cons.prems show ?case
    by (simp add: Let_def record_at [OF Cons.prems refl])
qed simp


section \<open>The interface its readers use\<close>

text \<open>
  A log of consecutively numbered lines. \<open>rd s sq\<close> is the line with number \<open>sq\<close> and the number
  to read next, nothing yet, or an error for a line that was dropped. A reader
  that starts at the oldest line and follows the numbers is \<open>drain\<close>.
\<close>

primrec drain :: "(u32 \<Rightarrow> errno + 'l \<times> u32 option) \<Rightarrow> nat \<Rightarrow> u32 \<Rightarrow> 'l list" where
  "drain rd 0 sq = []"
| "drain rd (Suc n) sq =
     (case rd sq of Inr (l, Some nx) \<Rightarrow> l # drain rd n nx | _ \<Rightarrow> [])"

locale record_log =
  fixes inv :: "'s \<Rightarrow> bool"
    and log_lines :: "'s \<Rightarrow> 'l list"
    and oldest :: "'s \<Rightarrow> u32"
    and next_seq :: "'s \<Rightarrow> u32"
    and rd :: "'s \<Rightarrow> u32 \<Rightarrow> errno + 'l \<times> u32 option"
    and none :: 'l
  assumes numbered: "inv s \<Longrightarrow> next_seq s = oldest s + of_nat (length (log_lines s))"
    and few: "inv s \<Longrightarrow> length (log_lines s) < 2 ^ 31"
    and rd_line: "inv s \<Longrightarrow> i < length (log_lines s) \<Longrightarrow>
      rd s (oldest s + of_nat i) = Inr (log_lines s ! i, Some (oldest s + of_nat i + 1))"
    and rd_next: "inv s \<Longrightarrow> rd s (next_seq s) = Inr (none, None)"
    and rd_dropped: "inv s \<Longrightarrow> log_lines s \<noteq> [] \<Longrightarrow> (\<And>i. i \<le> length (log_lines s) \<Longrightarrow> sq \<noteq> oldest s + of_nat i) \<Longrightarrow>
      rd s sq = Inl EPIPE"
begin

lemma drain_from:
  assumes "inv s" "i \<le> length (log_lines s)" "length (log_lines s) - i \<le> n"
  shows "drain (rd s) n (oldest s + of_nat i) = drop i (log_lines s)"
  using assms(2,3)
proof (induction n arbitrary: i)
  case (Suc n)
  show ?case
  proof (cases "i < length (log_lines s)")
    case True
    with Suc.IH [of "Suc i"] Suc.prems rd_line [OF assms(1) True] show ?thesis
      by (simp add: Cons_nth_drop_Suc [symmetric] algebra_simps)
  next
    case False
    with Suc.prems have "i = length (log_lines s)" by simp
    with rd_next [OF assms(1)] numbered [OF assms(1)] show ?thesis by simp
  qed
qed simp

lemma drain_all: "inv s \<Longrightarrow> length (log_lines s) \<le> n \<Longrightarrow> drain (rd s) n (oldest s) = log_lines s"
  using drain_from [of s 0 n] by simp

end

definition kmsg_lines :: "logbuf \<Rightarrow> u8 list list" where
  "kmsg_lines s = map (\<lambda>e. format_kmsg_line (fst e) (snd e)) (log_entries s)"

lemma length_tmp_digits: "v < 10 ^ k \<Longrightarrow> 0 < k \<Longrightarrow> length (tmp_digits v) \<le> k"
proof (induction v arbitrary: k rule: tmp_digits.induct)
  case (1 v)
  show ?case
  proof (cases "v div 10 = 0")
    case True
    with 1 show ?thesis by (simp add: tmp_digits.simps [of v])
  next
    case False
    then have "k \<noteq> 1" using 1 by auto
    then obtain m where m: "k = Suc m" "0 < m" using 1 by (cases k) auto
    then have "v div 10 < 10 ^ m" using 1 by (simp add: less_mult_imp_div_less mult.commute)
    with False 1 m show ?thesis by (subst tmp_digits.simps) simp
  qed
qed

lemma length_append_num:
  "length (append_u32 v) \<le> 10" "length (append_u64 w) \<le> 20"
  "v < 2 ^ 16 \<Longrightarrow> length (append_u32 v) \<le> 5"
  using length_tmp_digits [of "unat v" 10] length_tmp_digits [of "unat w" 20]
    length_tmp_digits [of "unat v" 5] unsigned_less [of w, where ?'a = nat]
    unat_less_2_32 [of v]
  by (simp_all add: append_u32_def append_u64_def word_less_nat_alt)

lemma ucast_u16_less: "(ucast (x :: u16) :: u32) < 2 ^ 16"
  using unsigned_less [of x, where ?'a = nat] by (simp add: word_less_nat_alt unsigned_ucast_eq take_bit_eq_mod)

lemma length_format_kmsg_line:
  "entry_ok e \<Longrightarrow> length (format_kmsg_line (fst e) (snd e)) \<le> 1024 + 64"
  using length_append_num(3) [OF ucast_u16_less, of "r_prio (fst e)"] length_append_num(1) [of "r_seq (fst e)"]
    length_append_num(2) [of "r_usec (fst e)"] length_append_num(3) [OF ucast_u16_less, of "r_flags (fst e)"]
  by (simp add: format_kmsg_line_def entry_ok_def)

lemma length_format_kmsg_line_pos: "format_kmsg_line r txt \<noteq> []"
  by (simp add: format_kmsg_line_def)

lemma log_seq_nth:
  assumes "log_rel s es" "j < length es"
  shows "r_seq (fst (es ! j)) = oldest_seq_locked s + of_nat j"
  using log_relD(8) [OF assms] oldest_rel [OF assms(1)] assms(2) by (simp add: of_nat_diff)

lemma log_seq_index:
  assumes "log_rel s es" "i < length es"
  shows "find (has_seq (oldest_seq_locked s + of_nat i)) es = Some (es ! i)"
    "oldest_seq_locked s + of_nat i \<noteq> log_next_seq s"
proof -
  have few: "length es \<le> 780" by (rule log_rel_few [OF assms(1)])
  note sq = log_seq_nth [OF assms(1)]
  have "(of_nat j :: u32) \<noteq> of_nat i" if "j < i" for j
    using that assms(2) few by (simp add: of_nat_u32_eq_iff)
  then show "find (has_seq (oldest_seq_locked s + of_nat i)) es = Some (es ! i)"
    using assms(2) by (auto simp: find_Some_iff sq intro!: exI [of _ i])
  have "(of_nat i :: u32) \<noteq> of_nat (length es)"
    using assms(2) few by (simp add: of_nat_u32_eq_iff)
  then show "oldest_seq_locked s + of_nat i \<noteq> log_next_seq s"
    using oldest_rel [OF assms(1)] by (metis diff_add_cancel add_left_cancel)
qed

interpretation kl: record_log log_inv kmsg_lines logbuf_oldest_seq logbuf_next_seq
  "\<lambda>s sq. read_seq_locked s sq 1088" "[]"
proof (unfold_locales, goal_cases)
  case (1 s)
  then show ?case
    by (simp add: kmsg_lines_def logbuf_oldest_seq_def logbuf_next_seq_def oldest_rel [OF log_invD])
next
  case (2 s)
  then show ?case using log_rel_few [OF log_invD] by (fastforce simp: kmsg_lines_def)
next
  case (3 s i)
  then have rel: "log_rel s (log_entries s)" and i: "i < length (log_entries s)"
    by (simp_all add: log_invD kmsg_lines_def)
  moreover have "entry_ok (log_entries s ! i)" using log_relD(7) [OF rel] i by simp
  ultimately show ?case
    using length_format_kmsg_line [of "log_entries s ! i"]
    by (auto simp: logbuf_oldest_seq_def read_seq_rel [OF rel] log_seq_index [OF rel] kmsg_lines_def)
next
  case (4 s)
  then show ?case by (simp add: read_seq_rel [OF log_invD] logbuf_next_seq_def)
next
  case (5 s sq)
  then have rel: "log_rel s (log_entries s)" by (simp add: log_invD)
  have "find (has_seq sq) (log_entries s) = None"
    unfolding find_None_iff
  proof
    assume "\<exists>x. x \<in> set (log_entries s) \<and> has_seq sq x"
    then obtain j where j: "j < length (log_entries s)" "has_seq sq (log_entries s ! j)"
      by (metis in_set_conv_nth)
    then have "sq = logbuf_oldest_seq s + of_nat j"
      using log_seq_nth [OF rel j(1)] by (simp add: logbuf_oldest_seq_def)
    with j 5(3) [of j] show False by (simp add: kmsg_lines_def)
  qed
  moreover have "sq \<noteq> log_next_seq s"
    using 5(3) [of "length (log_entries s)"] oldest_rel [OF rel]
    by (simp add: kmsg_lines_def logbuf_oldest_seq_def)
  ultimately show ?case
    using 5(2) by (simp add: read_seq_rel [OF rel] kmsg_lines_def)
qed


section \<open>Numbers in decimal\<close>

lemma digit_unat: "unat (of_nat (48 + v mod 10) :: u8) = 48 + v mod 10"
proof -
  have "unat (of_nat d :: u8) = d" if "d < 256" for d
    using that by (simp add: unsigned_of_nat take_bit_eq_mod)
  moreover have "48 + v mod 10 < 256" by (simp add: trans_less_add1)
  ultimately show ?thesis by blast
qed

lemma foldl_tmp_digits:
  "foldl (\<lambda>a c. a * 10 + ucast c - 48) 0 (rev (tmp_digits v)) = (of_nat v :: u32)"
proof (induction v rule: tmp_digits.induct)
  case (1 v)
  have d: "ucast (of_nat (48 + v mod 10) :: u8) - 48 = (of_nat (v mod 10) :: u32)"
  proof -
    have "ucast (of_nat (48 + v mod 10) :: u8) = (of_nat (unat (of_nat (48 + v mod 10) :: u8)) :: u32)"
      by (simp only: of_nat_unat)
    then show ?thesis by (simp only: digit_unat) simp
  qed
  have v: "of_nat (v div 10) * 10 + of_nat (v mod 10) = (of_nat v :: u32)"
    by (metis of_nat_add of_nat_mult of_nat_numeral div_mult_mod_eq)
  show ?case
  proof (cases "v div 10 = 0")
    case True
    with d v show ?thesis by (simp add: tmp_digits.simps [of v])
  next
    case False
    with 1 d v show ?thesis
      by (subst tmp_digits.simps) (simp add: add_diff_eq [symmetric])
  qed
qed

lemma tmp_digits_range: "c \<in> set (tmp_digits v) \<Longrightarrow> 48 \<le> c \<and> c \<le> 57"
proof (induction v rule: tmp_digits.induct)
  case (1 v)
  have "v mod 10 \<le> 9" by simp
  then have "48 \<le> (of_nat (48 + v mod 10) :: u8) \<and> (of_nat (48 + v mod 10) :: u8) \<le> 57"
    by (simp only: word_le_nat_alt digit_unat) simp
  with 1 show ?case by (subst (asm) (2) tmp_digits.simps) (auto split: if_splits)
qed

lemma parse_prio_append:
  "(\<And>c. c \<in> set ds \<Longrightarrow> 48 \<le> c \<and> c \<le> 57) \<Longrightarrow>
   parse_prio a (ds @ cs) = parse_prio (foldl (\<lambda>a c. a * 10 + ucast c - 48) a ds) cs"
  by (induction ds arbitrary: a) auto

lemma parse_append_u32: "parse_prio 0 (append_u32 p @ 62 # cs) = (p, 62 # cs)"
  using parse_prio_append [of "append_u32 p" 0 "62 # cs"] tmp_digits_range [of _ "unat p"]
  by (simp add: append_u32_def foldl_tmp_digits)

lemma kmsg_write_prefix:
  assumes "length msg = n" "msg = 60 # append_u32 p @ 62 # t" "n \<le> 1024" "t \<noteq> []" "last t \<noteq> 10"
  shows "kmsg_write jiffies msg (int n) s = (int n, logbuf_store jiffies p (Some (t @ [0])) (of_nat (length t)) s)"
proof -
  have "take n (msg @ xs) = msg" for xs using assms(1) by simp
  moreover have "n - (length (msg @ [0]) - length (t @ [0])) = length t"
    using assms(1,2) by simp
  ultimately show ?thesis
    using assms by (simp add: kmsg_write_def Let_def parse_append_u32 nth_append last_conv_nth)
qed

section \<open>Properties\<close>

lemma log_inv_init: "length (log_buf s) = 16384 \<Longrightarrow> log_inv (logbuf_init s)"
  by (auto simp: log_inv_rel log_rel_def logbuf_init_def intro!: exI [of _ "[]"])

lemma log_entries_init [simp]: "log_entries (logbuf_init s) = []"
  by (simp add: log_entries_def logbuf_init_def)

definition boot_log :: logbuf where
  "boot_log = logbuf_init \<lparr>log_buf = replicate 16384 0, log_head = 0, log_tail = 0, log_count = 0,
     log_used = 0, log_next_seq = 0, logbuf_ready = False, console_loglevel = 7\<rparr>"

lemma boot_log: "log_inv boot_log" "log_entries boot_log = []" "logbuf_ready boot_log" "log_next_seq boot_log = 0"
  by (simp_all add: boot_log_def log_inv_init) (simp_all add: logbuf_init_def)

text \<open>C12: Storing a message of at least one byte drops the oldest records that are in the way and
  nothing else, keeps every other record byte for byte, and appends one record with the next
  sequence number that holds the text, cut off at 1024 bytes.\<close>

theorem logbuf_store_refines:
  assumes "log_inv s" "logbuf_ready s" "0 < len" "unat len \<le> length txt"
  shows "log_inv (logbuf_store jiffies prio (Some txt) len s) \<and>
    log_entries (logbuf_store jiffies prio (Some txt) len s) =
      fit (21 + min (unat len) 1024) (log_entries s) @ [new_entry jiffies prio txt len (log_next_seq s)] \<and>
    log_next_seq (logbuf_store jiffies prio (Some txt) len s) = log_next_seq s + 1"
  using logbuf_store_rel [OF log_invD [OF assms(1)] assms(2,3,4)]
  by (auto simp: log_inv_rel log_entries_rel)

theorem logbuf_store_refines_witness:
  "log_entries (logbuf_store 250 6 (Some [104, 105]) 2 boot_log) =
     [(\<lparr>r_len = 2, r_prio = 6, r_flags = 0, r_seq = 0, r_usec = 2500000\<rparr>, [104, 105])]"
  using logbuf_store_refines [OF boot_log(1,3), of 2 "[104, 105]" 250 6]
  by (simp add: boot_log new_entry_def)

text \<open>Reading a sequence number returns the formatted record with that number, nothing when the
  log is empty or the number is the next one, and \<^verbatim>\<open>-EPIPE\<close> for every other number: the
  signed comparison with the oldest number never hides a record.\<close>

theorem read_seq_complete:
  assumes "log_inv s"
  shows "logbuf_read_seq s sq sz =
    (if log_entries s = [] \<or> sq = log_next_seq s then Inr ([], None)
     else case find (has_seq sq) (log_entries s) of
            None \<Rightarrow> Inl EPIPE
          | Some e \<Rightarrow> Inr (take sz (format_kmsg_line (fst e) (snd e)), Some (sq + 1)))"
  unfolding logbuf_read_seq_def by (rule read_seq_rel [OF log_invD [OF assms]])

theorem read_seq_complete_witness: "logbuf_read_seq boot_log 0 100 = Inr ([], None)"
  using read_seq_complete [OF boot_log(1), of 0 100] by (simp add: boot_log)

text \<open>A reader that reads \<open>n\<close> times without blocking, while the log does not change.\<close>

primrec kmsg_reads :: "nat \<Rightarrow> logbuf \<Rightarrow> kmsg_file \<Rightarrow> (errno + u8 list) list" where
  "kmsg_reads 0 s f = []"
| "kmsg_reads (Suc n) s f =
     (case kmsg_read [(False, s)] s 4096 f of None \<Rightarrow> [] | Some (r, f') \<Rightarrow> r # kmsg_reads n s f')"

lemma kmsg_read_full:
  "kmsg_read [(False, s)] later 4096 f =
    (case read_seq_locked s (k_pos f) 1088 of
       Inl e \<Rightarrow> Some (Inl e, if e = EPIPE then f\<lparr>k_pos := logbuf_oldest_seq later\<rparr> else f)
     | Inr (bs, n) \<Rightarrow>
         if bs \<noteq> [] then Some (Inr bs, case n of None \<Rightarrow> f | Some sq \<Rightarrow> f\<lparr>k_pos := sq\<rparr>)
         else if k_nonblock f then Some (Inl EAGAIN, f) else None)"
  by (auto simp: kmsg_read_def split: sum.split option.split prod.split)

lemma kmsg_reads_drain:
  assumes "log_inv s" "i \<le> length (kmsg_lines s)" "k_nonblock f" "k_pos f = logbuf_oldest_seq s + of_nat i"
  shows "kmsg_reads n s f = map Inr (drain (\<lambda>sq. read_seq_locked s sq 1088) n (k_pos f)) @
    replicate (n - (length (kmsg_lines s) - i)) (Inl EAGAIN)"
  using assms(2,3,4)
proof (induction n arbitrary: i f)
  case (Suc n)
  show ?case
  proof (cases "i < length (kmsg_lines s)")
    case True
    have "kmsg_lines s ! i \<noteq> []"
      using True by (simp add: kmsg_lines_def length_format_kmsg_line_pos)
    with True Suc.prems Suc.IH [of "Suc i" "f\<lparr>k_pos := k_pos f + 1\<rparr>"] kl.rd_line [OF assms(1) True]
    show ?thesis by (simp add: kmsg_read_full Suc_diff_le add.assoc add.commute [of _ 1])
  next
    case False
    with Suc.prems have "k_pos f = logbuf_next_seq s"
      using kl.numbered [OF assms(1)] by simp
    with Suc.prems Suc.IH [of i f] False kl.rd_next [OF assms(1)] show ?thesis
      by (cases n) (simp_all add: kmsg_read_full)
  qed
qed simp



text \<open>A message written to the device as \<open><p>text\<close>, with the priority printed in decimal,
  is stored with exactly that priority and that text.\<close>

theorem kmsg_write_prefix_roundtrip:
  assumes "log_inv s" "logbuf_ready s" "t \<noteq> []" "last t \<noteq> 10"
    and "length (60 # append_u32 p @ 62 # t) \<le> 1024"
  shows "log_entries (snd (kmsg_write jiffies (60 # append_u32 p @ 62 # t)
      (int (length (60 # append_u32 p @ 62 # t))) s)) =
    fit (21 + length t) (log_entries s) @ [new_entry jiffies p t (of_nat (length t)) (log_next_seq s)]"
proof -
  have t: "unat (of_nat (length t) :: u32) = length t" "(0::u32) < of_nat (length t)"
    using assms(3,5) by (simp_all add: unat_of_nat_small word_less_nat_alt)
  have "kmsg_write jiffies (60 # append_u32 p @ 62 # t) (int (length (60 # append_u32 p @ 62 # t))) s =
      (int (length (60 # append_u32 p @ 62 # t)), logbuf_store jiffies p (Some (t @ [0])) (of_nat (length t)) s)"
    by (rule kmsg_write_prefix) (use assms in simp_all)
  then show ?thesis
    using logbuf_store_rel(1) [OF log_invD [OF assms(1)] assms(2) t(2), of "t @ [0]" jiffies p] t assms(5)
    by (simp add: log_entries_rel new_entry_def)
qed

theorem kmsg_write_prefix_roundtrip_witness:
  "log_entries (snd (kmsg_write 100 [60, 51, 62, 111, 107] 5 boot_log)) =
    [(\<lparr>r_len = 2, r_prio = 3, r_flags = 0, r_seq = 0, r_usec = 1000000\<rparr>, [111, 107])]"
  using kmsg_write_prefix_roundtrip [OF boot_log(1,3), of "[111, 107]" 3 100]
  by (simp add: boot_log new_entry_def append_u32_def tmp_digits.simps)

text \<open>The system call that reads the log returns the formatted records, oldest first, up to the
  size of the buffer, and the size it reports is the size of all of them; the call that also
  clears the log leaves it empty.\<close>

theorem sys_syslog_reads_all:
  assumes "log_inv s" "buf \<noteq> 0" "0 \<le> len" "len \<le> 65536"
    and "verify_area m False rlim_stack True buf (word_of_int len) = Inr ()"
  shows "fst (sys_syslog m rlim_stack 3 buf len s) =
      SysRead (take (nat len) (concat (map (\<lambda>e. format_syslog_line (fst e) (snd e)) (log_entries s)))) \<and>
    sys_syslog m rlim_stack 4 buf len s = (fst (sys_syslog m rlim_stack 3 buf len s), logbuf_clear s) \<and>
    sys_syslog m rlim_stack 10 buf len s =
      (SysInt (int (length (concat (map (\<lambda>e. format_syslog_line (fst e) (snd e)) (log_entries s))))), s) \<and>
    log_inv (logbuf_clear s) \<and> log_entries (logbuf_clear s) = []"
proof -
  note rel = log_invD [OF assms(1)]
  have "log_rel (logbuf_clear s) []"
    using log_relD(1) [OF rel] by (simp add: log_rel_def logbuf_clear_def)
  moreover have "format_syslog s (nat len) (unat (log_count s)) (log_tail s) [] =
      take (nat len) (concat (map (\<lambda>e. format_syslog_line (fst e) (snd e)) (log_entries s)))"
    using format_syslog_rel [of s "[]" "log_entries s" "[]" "nat len"] rel
    by (simp add: entry_off_Nil log_relD(5) [OF rel])
  moreover have "logbuf_formatted_syslog_len s =
      length (concat (map (\<lambda>e. format_syslog_line (fst e) (snd e)) (log_entries s)))"
    using syslog_len_rel [of s "[]" "log_entries s"] rel
    by (simp add: entry_off_Nil log_relD(5) [OF rel] logbuf_formatted_syslog_len_def)
  ultimately show ?thesis
    using assms(2-5) by (auto simp: sys_syslog_def logbuf_format_syslog_def Let_def log_inv_rel log_entries_rel)
qed

theorem sys_syslog_reads_all_witness:
  "fst (sys_syslog mm_example 0 3 0x1800 0x3000 boot_log) = SysRead []"
proof -
  have "verify_area mm_example False 0 True 0x1800 (word_of_int 0x3000) = Inr ()"
    by (simp add: verify_area_def mm_example_def VM_WRITE_def)
  then show ?thesis
    using sys_syslog_reads_all [OF boot_log(1), of "0x1800" "0x3000" mm_example 0] by (simp add: boot_log)
qed

end
