(* ===== verification/Printk.thy ===== *)
theory Printk
  imports Logbuf
begin

text \<open>
  The formatted output of \<^verbatim>\<open>src/src/kernel/printk.c\<close>. A C string is the list of its bytes;
  its end stands for the terminating zero, which may also occur in the list. The output so far is
  the list of the bytes written, and \<open>cap\<close> is the distance from the start of the buffer to
  \<^verbatim>\<open>end\<close>, or \<^term>\<open>None\<close> when \<^verbatim>\<open>end\<close> is null. The variable arguments are a list; formatting is
  \<^term>\<open>None\<close> when it reads an argument that is not there or runs past the end of the format.
\<close>

section \<open>Model\<close>

definition sput_c :: "nat option \<Rightarrow> u8 list \<Rightarrow> u8 \<Rightarrow> u8 list" where
  "sput_c cap out c =
     (case cap of None \<Rightarrow> out @ [c] | Some n \<Rightarrow> if n \<le> length out then out else out @ [c])"

primrec sput_s :: "nat option \<Rightarrow> u8 list \<Rightarrow> u8 list \<Rightarrow> u8 list" where
  "sput_s cap out [] = out"
| "sput_s cap out (c # cs) = (if c = 0 then out else sput_s cap (sput_c cap out c) cs)"

text \<open>The loop of \<^verbatim>\<open>sput_x\<close>: the digits of \<open>n\<close> go to the places \<open>i\<close> down to 2.\<close>

fun hex_loop :: "nat \<Rightarrow> u32 \<Rightarrow> u8 list \<Rightarrow> u8 list" where
  "hex_loop i n s =
     (if 1 < i
      then if n \<noteq> 0
           then let j = n; n = drop_bit 4 n; j = j - push_bit 4 n
                in hex_loop (i - 1) n (s[i := ucast (j + (if j < 10 then 48 else - 10 + 97))])
           else hex_loop (i - 1) n (s[i := 48])
      else s)"

declare hex_loop.simps [simp del]

definition sput_x :: "nat option \<Rightarrow> u8 list \<Rightarrow> u32 \<Rightarrow> u8 list" where
  "sput_x cap out n = sput_s cap out (hex_loop 9 n ([48, 120] @ replicate 9 0))"

text \<open>The loop of \<^verbatim>\<open>sput_u\<close>; \<open>k\<close> is \<^verbatim>\<open>i + 1\<close>.\<close>

fun dec_loop :: "nat \<Rightarrow> u32 \<Rightarrow> u8 list \<Rightarrow> nat \<times> u8 list" where
  "dec_loop k n s =
     (if 0 < k \<and> n \<noteq> 0
      then let j = n; n = n div 10 in dec_loop (k - 1) n (s[k - 1 := ucast (j - n * 10 + 48)])
      else (k, s))"

declare dec_loop.simps [simp del]

definition sput_u :: "nat option \<Rightarrow> u8 list \<Rightarrow> u32 \<Rightarrow> u8 list" where
  "sput_u cap out n =
     (if n = 0 then sput_s cap out [48]
      else case dec_loop 10 n (replicate 11 0) of (k, s) \<Rightarrow> sput_s cap out (drop k s))"

definition sput_d :: "nat option \<Rightarrow> u8 list \<Rightarrow> u32 \<Rightarrow> u8 list" where
  "sput_d cap out n =
     (if 0 \<le> sint n then sput_u cap out n else sput_u cap (sput_s cap out [45]) (- n))"

datatype va_arg = Arg u32 | ArgStr "u8 list"

fun vformat :: "nat option \<Rightarrow> u8 list \<Rightarrow> u8 list \<Rightarrow> va_arg list \<Rightarrow> u8 list option" where
  "vformat cap out [] ap = Some out"
| "vformat cap out (c # fmt) ap =
     (if c = 0 then Some out
      else if c = 37
      then case fmt of
             [] \<Rightarrow> None
           | d # fmt \<Rightarrow>
               if d = 0 then None
               else if d = 117
               then (case ap of Arg n # ap \<Rightarrow> vformat cap (sput_u cap out n) fmt ap | _ \<Rightarrow> None)
               else if d = 100
               then (case ap of Arg n # ap \<Rightarrow> vformat cap (sput_d cap out n) fmt ap | _ \<Rightarrow> None)
               else if d = 120
               then (case ap of Arg n # ap \<Rightarrow> vformat cap (sput_x cap out n) fmt ap | _ \<Rightarrow> None)
               else if d = 99
               then (case ap of Arg n # ap \<Rightarrow> vformat cap (sput_c cap out (ucast n)) fmt ap | _ \<Rightarrow> None)
               else if d = 115
               then (case ap of ArgStr s # ap \<Rightarrow> vformat cap (sput_s cap out s) fmt ap | _ \<Rightarrow> None)
               else vformat cap out fmt ap
      else vformat cap (sput_c cap out c) fmt ap)"

text \<open>The formatted bytes, whose number is returned, without the terminating zero.\<close>

definition vsprintk :: "u8 list \<Rightarrow> va_arg list \<Rightarrow> u8 list option" where
  "vsprintk fmt ap = vformat None [] fmt ap"

definition sprintk :: "u8 list \<Rightarrow> va_arg list \<Rightarrow> u8 list option" where
  "sprintk fmt ap = vsprintk fmt ap"

text \<open>\<open>buf\<close> tells whether the buffer is not null; the result is \<open>Some None\<close> when nothing is written.\<close>

definition vsprintkn :: "bool \<Rightarrow> nat \<Rightarrow> u8 list \<Rightarrow> va_arg list \<Rightarrow> u8 list option option" where
  "vsprintkn buf sz fmt ap =
     (if \<not> buf \<or> sz = 0 then Some None else map_option Some (vformat (Some (sz - 1)) [] fmt ap))"

definition sprintkn :: "bool \<Rightarrow> nat \<Rightarrow> u8 list \<Rightarrow> va_arg list \<Rightarrow> u8 list option option" where
  "sprintkn buf sz fmt ap = vsprintkn buf sz fmt ap"

definition putchar :: "u8 \<Rightarrow> u8 list" where
  "putchar c = (if c = 10 then [13, c] else [c])"

text \<open>\<open>printk_prefix\<close> is the priority and the rest of the format.\<close>

primrec prefix_value :: "u32 \<Rightarrow> u8 list \<Rightarrow> u32 \<times> u8 list" where
  "prefix_value v [] = (v, [])"
| "prefix_value v (c # cs) = (if 48 \<le> c \<and> c \<le> 57 then prefix_value (v * 10 + (ucast c - 48)) cs else (v, c # cs))"

definition printk_prefix :: "u8 list \<Rightarrow> u32 \<times> u8 list" where
  "printk_prefix fmt =
     (case fmt of
        [] \<Rightarrow> (LOG_INFO, fmt)
      | c # rest \<Rightarrow>
          if c = 60
          then case prefix_value 0 rest of
                 (v, q) \<Rightarrow> (case q of
                     [] \<Rightarrow> (LOG_INFO, fmt)
                   | d # q' \<Rightarrow> if q \<noteq> rest \<and> d = 62 then (v AND 7, q') else (LOG_INFO, fmt))
          else (LOG_INFO, fmt))"

text \<open>The bytes sent to the console, the number returned and the log.\<close>

definition printk :: "u32 \<Rightarrow> u8 list \<Rightarrow> va_arg list \<Rightarrow> logbuf \<Rightarrow> (u8 list \<times> nat \<times> logbuf) option" where
  "printk jiffies fmt ap s =
     (case printk_prefix fmt of
        (prio, fmt) \<Rightarrow>
          (case vsprintkn True 1024 fmt ap of
             None \<Rightarrow> None
           | Some None \<Rightarrow> None
           | Some (Some buf) \<Rightarrow>
               let n = length buf;
                   s = logbuf_store jiffies prio (Some buf) (of_nat n) s;
                   con = (if sint prio < fst (logbuf_console_loglevel False 0 s)
                          then concat (map putchar (takeWhile (\<lambda>c. c \<noteq> 0) buf)) else [])
               in Some (con, n, s)))"


section \<open>Bounded output is the start of the unbounded one\<close>

lemma sput_c_take: "sput_c (Some n) (take n out) c = take n (sput_c None out c)"
  by (simp add: sput_c_def)

lemma sput_s_take: "sput_s (Some n) (take n out) cs = take n (sput_s None out cs)"
  by (induction cs arbitrary: out) (simp_all add: sput_c_take)

lemma sput_x_take: "sput_x (Some n) (take n out) v = take n (sput_x None out v)"
  by (simp add: sput_x_def sput_s_take)

lemma sput_u_take: "sput_u (Some n) (take n out) v = take n (sput_u None out v)"
  by (simp add: sput_u_def sput_s_take sput_c_take split: prod.split)

lemma sput_d_take: "sput_d (Some n) (take n out) v = take n (sput_d None out v)"
  by (simp add: sput_d_def sput_c_take sput_u_take)

lemmas sput_take = sput_c_take sput_s_take sput_x_take sput_u_take sput_d_take

lemma vformat_take:
  "cap = None \<Longrightarrow> vformat (Some n) (take n out) fmt ap = map_option (take n) (vformat cap out fmt ap)"
  by (induction cap out fmt ap rule: vformat.induct)
    (auto simp: sput_take split: list.split va_arg.split)

section \<open>Numerals\<close>

lemma sput_s_None: "0 \<notin> set cs \<Longrightarrow> sput_s None out (cs @ 0 # ds) = out @ cs"
  by (induction cs arbitrary: out) (auto simp: sput_c_def)

lemma sput_s_None': "0 \<notin> set cs \<Longrightarrow> sput_s None out cs = out @ cs"
  by (induction cs arbitrary: out) (auto simp: sput_c_def)

lemmas word_mod_of_nat = word_arith_nat_mod [where ?'a = 32]

lemma ucast_of_nat_u8: "ucast (of_nat n :: u32) = (of_nat n :: u8)"
  by (rule bit_word_eqI) (auto simp: bit_simps)

lemma dec_digit: "(ucast (n - n div 10 * 10 + 48 :: u32) :: u8) = of_nat (48 + unat n mod 10)"
proof -
  have m: "n - n div 10 * 10 = n mod 10" by (rule minus_div_mult_eq_mod)
  have "n mod 10 + 48 = (of_nat (48 + unat n mod 10) :: u32)"
    by (simp add: word_mod_of_nat)
  then show ?thesis
    by (simp only: m ucast_of_nat_u8)
qed

lemma dec_loop_digits:
  "n \<noteq> 0 \<Longrightarrow> unat n < 10 ^ k \<Longrightarrow> k < length s \<Longrightarrow> dec_loop k n s = (k', s') \<Longrightarrow>
   drop k' s' = rev (tmp_digits (unat n)) @ drop k s"
proof (induction k arbitrary: n s)
  case 0
  then show ?case by (simp add: unat_eq_0)
next
  case (Suc k)
  let ?s = "s[k := ucast (n - n div 10 * 10 + 48)]"
  have loop: "dec_loop k (n div 10) ?s = (k', s')"
    using Suc.prems by (simp add: dec_loop.simps [of "Suc k"] Let_def)
  have drop_k: "drop k ?s = of_nat (48 + unat n mod 10) # drop (Suc k) s"
    using Suc.prems(3) by (simp add: dec_digit drop_update_swap Cons_nth_drop_Suc [symmetric])
  have ten: "unat (n div 10) = unat n div 10" by (simp add: unat_div_distrib)
  show ?case
  proof (cases "n div 10 = 0")
    case True
    then have "unat n div 10 = 0" using ten by simp
    moreover have "dec_loop k (n div 10) ?s = (k, ?s)"
      by (subst dec_loop.simps) (simp add: True)
    then have "k' = k" "s' = ?s" using loop by (metis prod.inject)+
    ultimately show ?thesis using drop_k by (simp add: tmp_digits.simps [of "unat n"])
  next
    case False
    then have "unat n div 10 \<noteq> 0" by (metis ten unat_eq_0)
    moreover have "unat (n div 10) < 10 ^ k"
      using Suc.prems(2) by (simp add: ten less_mult_imp_div_less mult.commute)
    ultimately show ?thesis
      using Suc.IH [OF False _ _ loop] Suc.prems(3) drop_k
      by (simp add: tmp_digits.simps [of "unat n"] ten)
  qed
qed

lemma digits_nonzero: "0 \<notin> set (tmp_digits v)"
  using tmp_digits_range [of 0 v] by auto

lemma sput_u_decimal: "sput_u None out n = out @ append_u32 n"
proof (cases "n = 0")
  case True
  then show ?thesis by (simp add: sput_u_def append_u32_def tmp_digits.simps sput_c_def)
next
  case False
  obtain k s where loop: "dec_loop 10 n (replicate 11 0) = (k, s)" by fastforce
  have "drop k s = rev (tmp_digits (unat n)) @ drop 10 (replicate 11 0)"
    by (rule dec_loop_digits [OF False _ _ loop]) (simp_all add: less_trans [OF unat_less_2_32])
  also have "drop 10 (replicate 11 0) = [0 :: u8]" by (simp add: numeral_eq_Suc)
  finally show ?thesis
    using False loop sput_s_None [of "rev (tmp_digits (unat n))" out "[]"] digits_nonzero
    by (simp add: sput_u_def append_u32_def)
qed

definition hex_digit :: "nat \<Rightarrow> u8" where
  "hex_digit d = of_nat (if d < 10 then 48 + d else 87 + d)"

lemma hex_nibble:
  "(ucast (n - push_bit 4 (drop_bit 4 n) + (if n - push_bit 4 (drop_bit 4 n) < (10::u32) then 48 else - 10 + 97)) :: u8) =
    hex_digit (unat n mod 16)"
proof -
  define m where "m = unat n mod 16"
  have "n - push_bit 4 (drop_bit 4 n) = n mod 16"
    by (simp add: push_bit_eq_mult drop_bit_eq_div minus_div_mult_eq_mod)
  also have "\<dots> = of_nat m" by (simp add: m_def word_mod_of_nat)
  finally have n: "n - push_bit 4 (drop_bit 4 n) = of_nat m" .
  have m: "m < 16" by (simp add: m_def)
  then have less: "(of_nat m :: u32) < 10 \<longleftrightarrow> m < 10"
    by (simp add: word_less_nat_alt unat_of_nat_small)
  have "of_nat m + (if m < 10 then 48 else - 10 + 97) = (of_nat (if m < 10 then 48 + m else 87 + m) :: u32)"
    by simp
  then show ?thesis
    unfolding n less by (simp only: hex_digit_def ucast_of_nat_u8 flip: m_def)
qed

text \<open>The last \<open>k\<close> hexadecimal digits.\<close>

definition hex_digits :: "nat \<Rightarrow> nat \<Rightarrow> u8 list" where
  "hex_digits k v = map (\<lambda>i. hex_digit (v div 16 ^ i mod 16)) (rev [0..<k])"

lemma hex_digits_Suc: "hex_digits (Suc k) v = hex_digits k (v div 16) @ [hex_digit (v mod 16)]"
proof -
  have "[0..<Suc k] = 0 # map Suc [0..<k]"
    by (simp add: map_Suc_upt upt_conv_Cons del: upt_Suc)
  then have "rev [0..<Suc k] = map Suc (rev [0..<k]) @ [0]"
    by (simp add: rev_map del: upt_Suc)
  then show ?thesis
    by (simp add: hex_digits_def div_mult2_eq)
qed

lemma hex_loop_digits:
  "k + 2 \<le> length s \<Longrightarrow> hex_loop (Suc k) n s = take 2 s @ hex_digits k (unat n) @ drop (k + 2) s"
proof (induction k arbitrary: n s)
  case 0
  then show ?case by (simp add: hex_loop.simps hex_digits_def flip: numeral_2_eq_2)
next
  case (Suc k)
  let ?s = "s[Suc (Suc k) := hex_digit (unat n mod 16)]"
  have zero: "hex_digit 0 = 48" by (simp add: hex_digit_def)
  have "hex_loop (Suc (Suc k)) n s = hex_loop (Suc k) (drop_bit 4 n) ?s"
    by (subst hex_loop.simps) (simp add: Let_def hex_nibble zero)
  also have "\<dots> = take 2 ?s @ hex_digits k (unat n div 16) @ drop (k + 2) ?s"
    using Suc.IH [of ?s "drop_bit 4 n"] Suc.prems by (simp add: unat_div_distrib drop_bit_eq_div)
  also have "drop (k + 2) ?s = hex_digit (unat n mod 16) # drop (Suc k + 2) s"
    using Suc.prems by (simp add: Cons_nth_drop_Suc [symmetric])
  finally show ?case by (simp add: hex_digits_Suc)
qed

lemma hex_digit_nonzero: "d < 16 \<Longrightarrow> hex_digit d \<noteq> 0"
proof -
  assume "d < 16"
  then have "d \<in> set [0..<16]" by simp
  moreover have "list_all (\<lambda>d. hex_digit d \<noteq> 0) [0..<16]" by code_simp
  ultimately show ?thesis by (auto simp: list_all_iff)
qed

lemma sput_x_hex: "sput_x None out n = out @ [48, 120] @ hex_digits 8 (unat n)"
proof -
  have "hex_loop 9 n ([48, 120] @ replicate 9 0) = [48, 120] @ hex_digits 8 (unat n) @ [0]"
    using hex_loop_digits [of 8 "[48, 120] @ replicate 9 0" n] by (simp add: numeral_eq_Suc)
  moreover have "0 \<notin> set ([48, 120] @ hex_digits 8 (unat n))"
    using hex_digit_nonzero [of "unat n div 16 ^ _ mod 16"] by (auto simp: hex_digits_def)
  ultimately show ?thesis
    using sput_s_None [of "[48, 120] @ hex_digits 8 (unat n)" out "[]"] by (simp add: sput_x_def)
qed


section \<open>Properties\<close>

text \<open>The bounded variant writes the first \<^verbatim>\<open>size - 1\<close> bytes of what the unbounded one would
  write, whatever the format and the arguments, so with the terminating zero it stays within the
  buffer.\<close>

theorem vsprintkn_truncates:
  assumes "0 < sz"
  shows "vsprintkn True sz fmt ap = map_option (\<lambda>b. Some (take (sz - 1) b)) (vsprintk fmt ap)"
  using assms vformat_take [of None "sz - 1" "[]" fmt ap]
  by (simp add: vsprintkn_def vsprintk_def option.map_comp comp_def)

theorem vsprintkn_truncates_witness:
  "vsprintkn True 5 [37, 117, 33] [Arg 31415] = Some (Some [51, 49, 52, 49])"
  using vsprintkn_truncates [of 5 "[37, 117, 33]" "[Arg 31415]"]
  by (simp add: vsprintk_def sput_u_decimal append_u32_def tmp_digits.simps sput_c_def)

text \<open>Numbers are printed exactly: unsigned ones as the decimal numeral that the log also
  uses, signed ones with a minus sign before the magnitude, and hexadecimal ones as \<^verbatim>\<open>0x\<close> and
  eight digits.\<close>

theorem numerals_printed:
  "sput_u None out n = out @ append_u32 n \<and>
   sput_d None out n = out @ (if 0 \<le> sint n then append_u32 n else 45 # append_u32 (- n)) \<and>
   sput_x None out n = out @ [48, 120] @ hex_digits 8 (unat n)"
  by (simp add: sput_u_decimal sput_d_def sput_x_hex sput_c_def)

lemma logbuf_store_loglevel [simp]:
  "console_loglevel (logbuf_store jiffies prio txt len s) = console_loglevel s"
proof -
  have "console_loglevel (copy_to_log off src l t) = console_loglevel t" for off src l t
    by (simp add: copy_to_log_def Let_def)
  moreover have "console_loglevel (make_room need s) = console_loglevel s" for need
    using make_room_frame [of need s] by auto
  ultimately show ?thesis
    by (simp add: logbuf_store_def Let_def split: option.split)
qed

text \<open>Printing a message that formats to at least one byte stores it in the log with the priority
  of its prefix, cut off at 1023 bytes, and writes it to the console exactly when that priority is
  below the console level.\<close>

theorem printk_logged:
  assumes "log_inv s" "logbuf_ready s" "printk_prefix fmt = (prio, body)"
    and "vsprintk body ap = Some b" "b \<noteq> []"
  shows "\<exists>s'. printk jiffies fmt ap s =
      Some (if sint prio < console_loglevel s
            then concat (map putchar (takeWhile (\<lambda>c. c \<noteq> 0) (take 1023 b))) else [],
            length (take 1023 b), s') \<and>
    log_inv s' \<and>
    log_entries s' = fit (21 + length (take 1023 b)) (log_entries s) @
      [new_entry jiffies prio b (of_nat (length (take 1023 b))) (log_next_seq s)]"
proof -
  let ?b = "take 1023 b"
  let ?s = "logbuf_store jiffies prio (Some ?b) (of_nat (length ?b)) s"
  have len: "unat (of_nat (length ?b) :: u32) = length ?b" "(0::u32) < of_nat (length ?b)"
    using assms(5) by (simp_all add: unat_of_nat_small word_less_nat_alt)
  have buf: "vsprintkn True 1024 body ap = Some (Some ?b)"
    using vformat_take [of None 1023 "[]" body ap] assms(4) by (simp add: vsprintkn_def vsprintk_def)
  note rel = logbuf_store_rel(1) [OF log_invD [OF assms(1)] assms(2) len(2), of ?b jiffies prio]
  have "new_entry jiffies prio ?b (of_nat (length ?b)) q = new_entry jiffies prio b (of_nat (length ?b)) q" for q
    using len(1) by (simp add: new_entry_def)
  then have "log_inv ?s \<and> log_entries ?s = fit (21 + length ?b) (log_entries s) @
      [new_entry jiffies prio b (of_nat (length ?b)) (log_next_seq s)]"
    using rel len(1) by (auto simp: log_inv_rel log_entries_rel)
  then show ?thesis
    using assms(3) buf by (simp add: printk_def Let_def logbuf_console_loglevel_def)
qed

theorem printk_logged_witness:
  "\<exists>s'. printk 100 [60, 52, 62, 37, 100, 10] [Arg (- 7)] boot_log = Some ([45, 55, 13, 10], 3, s') \<and>
     log_entries s' = [(\<lparr>r_len = 3, r_prio = 4, r_flags = 0, r_seq = 0, r_usec = 1000000\<rparr>, [45, 55, 10])]"
proof -
  have "vsprintk [37, 100, 10] [Arg (- 7)] = Some [45, 55, 10]"
    by (simp add: vsprintk_def sput_d_def sput_u_decimal append_u32_def tmp_digits.simps sput_c_def)
  moreover have "printk_prefix [60, 52, 62, 37, 100, 10] = (4, [37, 100, 10])"
    by (simp add: printk_prefix_def)
  moreover have "console_loglevel boot_log = 7"
    by (simp add: boot_log_def logbuf_init_def)
  ultimately show ?thesis
    using printk_logged [OF boot_log(1,3), of "[60, 52, 62, 37, 100, 10]" 4 "[37, 100, 10]" "[Arg (- 7)]" "[45, 55, 10]" 100]
    by (auto simp: boot_log new_entry_def putchar_def)
qed

end
