(* ===== verification/Pipe.thy ===== *)
theory Pipe
  imports Ring_Buffer
begin

text \<open>
  The pipe of \<^verbatim>\<open>src/src/fs/pipe.c\<close>: a byte ring with the numbers of its open read and write
  ends. \<open>pipe_write_try\<close> and \<open>pipe_read_try\<close> are the code from the label \<^verbatim>\<open>try\<close> on, which runs under
  the lock of the pipe: an attempt returns or goes to sleep on one of the two wait
  queues. \<open>pipe_write\<close> and \<open>pipe_read\<close> are the loops, given what each attempt finds (whether a
  signal is pending, and the state). The last part puts attempts of several tasks together: a
  step relation with the two wait queues, on which waking empties a queue.
\<close>

section \<open>Model\<close>

record pipe =
  p_rb :: ring_buffer
  n_reader :: u32
  n_writer :: u32

definition init_pipe_inode_info :: "u8 list option \<Rightarrow> pipe \<Rightarrow> (errno + unit) \<times> pipe" where
  "init_pipe_inode_info page p =
     (case ring_buffer_init page (p_rb p) of
        (Inl e, rb) \<Rightarrow> (Inl e, p\<lparr>p_rb := rb\<rparr>)
      | (Inr _, rb) \<Rightarrow> (Inr (), p\<lparr>p_rb := rb, n_reader := 1, n_writer := 1\<rparr>))"

definition destroy_pipe_inode_info :: "pipe \<Rightarrow> pipe" where
  "destroy_pipe_inode_info p = p\<lparr>p_rb := ring_buffer_destroy (p_rb p), n_reader := 0, n_writer := 0\<rparr>"

text \<open>The release methods: \<^term>\<open>None\<close> when the assertion fails.\<close>

definition pipe_read_release :: "pipe \<Rightarrow> pipe option" where
  "pipe_read_release p = (if n_reader p > 0 then Some (p\<lparr>n_reader := n_reader p - 1\<rparr>) else None)"

definition pipe_write_release :: "pipe \<Rightarrow> pipe option" where
  "pipe_write_release p = (if n_writer p > 0 then Some (p\<lparr>n_writer := n_writer p - 1\<rparr>) else None)"

text \<open>The outcome of an attempt: the value returned, or sleep. \<^verbatim>\<open>SIGPIPE\<close> is sent exactly with the
  result \<^const>\<open>EPIPE\<close>.\<close>

datatype 'r attempt = Ret 'r | Sleep

definition pipe_write_try :: "bool \<Rightarrow> bool \<Rightarrow> u8 list \<Rightarrow> u32 \<Rightarrow> pipe \<Rightarrow> (errno + u32) attempt \<times> pipe" where
  "pipe_write_try signal nonblock buf cnt p =
     (if signal then (Ret (Inl ERESTARTSYS), p)
      else if n_reader p = 0 then (Ret (Inl EPIPE), p)
      else if ring_buffer_full (p_rb p)
      then if nonblock then (Ret (Inl EAGAIN), p) else (Sleep, p)
      else case ring_buffer_write (p_rb p) buf cnt of (rb, n) \<Rightarrow> (Ret (Inr n), p\<lparr>p_rb := rb\<rparr>))"

definition pipe_read_try :: "bool \<Rightarrow> bool \<Rightarrow> u32 \<Rightarrow> pipe \<Rightarrow> (errno + u8 list) attempt \<times> pipe" where
  "pipe_read_try signal nonblock cnt p =
     (if signal then (Ret (Inl ERESTARTSYS), p)
      else if ring_buffer_empty (p_rb p)
      then if n_writer p = 0 then (Ret (Inr []), p)
           else if nonblock then (Ret (Inl EAGAIN), p)
           else (Sleep, p)
      else case ring_buffer_read (p_rb p) cnt of (rb, bs, n) \<Rightarrow> (Ret (Inr bs), p\<lparr>p_rb := rb\<rparr>))"

primrec pipe_write :: "bool \<Rightarrow> u8 list \<Rightarrow> u32 \<Rightarrow> (bool \<times> pipe) list \<Rightarrow> ((errno + u32) \<times> pipe) option" where
  "pipe_write nonblock buf cnt [] = None"
| "pipe_write nonblock buf cnt (o1 # os) =
     (case pipe_write_try (fst o1) nonblock buf cnt (snd o1) of
        (Ret r, p) \<Rightarrow> Some (r, p)
      | (Sleep, p) \<Rightarrow> pipe_write nonblock buf cnt os)"

primrec pipe_read :: "bool \<Rightarrow> u32 \<Rightarrow> (bool \<times> pipe) list \<Rightarrow> ((errno + u8 list) \<times> pipe) option" where
  "pipe_read nonblock cnt [] = None"
| "pipe_read nonblock cnt (o1 # os) =
     (case pipe_read_try (fst o1) nonblock cnt (snd o1) of
        (Ret r, p) \<Rightarrow> Some (r, p)
      | (Sleep, p) \<Rightarrow> pipe_read nonblock cnt os)"

definition pipe_lseek :: "errno + u32" where
  "pipe_lseek = Inl ESPIPE"

definition bad_pipe_rw :: "errno + u32" where
  "bad_pipe_rw = Inl EBADF"

abbreviation POLLIN :: u32 where "POLLIN \<equiv> 1"
abbreviation POLLOUT :: u32 where "POLLOUT \<equiv> 4"
abbreviation POLLHUP :: u32 where "POLLHUP \<equiv> 16"

definition pipe_read_poll :: "pipe \<Rightarrow> u32" where
  "pipe_read_poll p =
     (if \<not> ring_buffer_empty (p_rb p) then POLLIN else if n_writer p = 0 then POLLHUP else 0)"

definition pipe_write_poll :: "pipe \<Rightarrow> u32" where
  "pipe_write_poll p =
     (if n_reader p = 0 then POLLHUP else if \<not> ring_buffer_full (p_rb p) then POLLOUT else 0)"

definition fifo_rdwr_release :: "pipe \<Rightarrow> pipe" where
  "fifo_rdwr_release p =
     (let p = (if n_reader p \<noteq> 0 then p\<lparr>n_reader := n_reader p - 1\<rparr> else p)
      in if n_writer p \<noteq> 0 then p\<lparr>n_writer := n_writer p - 1\<rparr> else p)"

text \<open>The operations of an open file: the tables \<^verbatim>\<open>read_pipe_fops\<close>, \<^verbatim>\<open>write_pipe_fops\<close>,
  \<^verbatim>\<open>rdwr_pipe_fops\<close> and \<^verbatim>\<open>fifo_fops\<close>; \<open>OtherOps\<close> stands for the files of the other subsystems.\<close>

datatype fops = ReadPipe | WritePipe | RdwrPipe | FifoOps | OtherOps nat

fun pipe_release :: "fops \<Rightarrow> pipe \<Rightarrow> pipe option" where
  "pipe_release ReadPipe p = pipe_read_release p"
| "pipe_release WritePipe p = pipe_write_release p"
| "pipe_release RdwrPipe p = Some (fifo_rdwr_release p)"
| "pipe_release FifoOps p = Some p"
| "pipe_release (OtherOps _) p = Some p"

text \<open>
  Opening a named pipe with mode bits \<open>mode\<close>. \<open>is_pipe\<close> is the bit \<^verbatim>\<open>I_Pipe\<close> of the inode, \<open>page\<close> the
  page for the ring of the first opener, and \<open>wake\<close> gives, for the state in which the caller goes
  to sleep, whether a signal is pending when it runs again and the state it finds. The
  result is the return value, the pipe, the bit, and the new operations of the file.
\<close>

definition fifo_open :: "u32 \<Rightarrow> bool \<Rightarrow> u8 list option \<Rightarrow> (pipe \<Rightarrow> bool \<times> pipe) \<Rightarrow> bool \<Rightarrow> pipe \<Rightarrow>
    (errno + unit) \<times> pipe \<times> bool \<times> fops" where
  "fifo_open mode nonblock page wake is_pipe p =
     (case (if is_pipe then (Inr (), p)
            else case init_pipe_inode_info page p of
                   (Inl e, p) \<Rightarrow> (Inl e, p)
                 | (Inr _, p) \<Rightarrow> (Inr (), p\<lparr>n_reader := 0, n_writer := 0\<rparr>)) of
        (Inl e, p) \<Rightarrow> (Inl e, p, is_pipe, FifoOps)
      | (Inr _, p) \<Rightarrow>
          if mode AND 1 \<noteq> 0 \<and> mode AND 2 \<noteq> 0
          then (Inr (), p\<lparr>n_reader := n_reader p + 1, n_writer := n_writer p + 1\<rparr>, True, RdwrPipe)
          else if mode AND 1 \<noteq> 0
          then let p = p\<lparr>n_reader := n_reader p + 1\<rparr>
               in if n_writer p = 0 \<and> \<not> nonblock
                  then case wake p of
                         (signal, p) \<Rightarrow>
                           if signal then (Inl ERESTARTSYS, p\<lparr>n_reader := n_reader p - 1\<rparr>, True, ReadPipe)
                           else (Inr (), p, True, ReadPipe)
                  else (Inr (), p, True, ReadPipe)
          else let p = p\<lparr>n_writer := n_writer p + 1\<rparr>
               in if n_reader p = 0
                  then if nonblock then (Inl ENXIO, p\<lparr>n_writer := n_writer p - 1\<rparr>, True, WritePipe)
                       else case wake p of
                              (signal, p) \<Rightarrow>
                                if signal then (Inl ERESTARTSYS, p\<lparr>n_writer := n_writer p - 1\<rparr>, True, WritePipe)
                                else (Inr (), p, True, WritePipe)
                  else (Inr (), p, True, WritePipe))"

section \<open>The bytes of a pipe\<close>

definition pipe_inv :: "pipe \<Rightarrow> bool" where
  "pipe_inv p \<longleftrightarrow> rb_inv (p_rb p)"

definition pipe_bytes :: "pipe \<Rightarrow> u8 list" where
  "pipe_bytes p = rb_list (p_rb p)"

text \<open>Writes and reads that do not block, as operations of a byte queue: an error transfers
  nothing.\<close>

definition pipe_put :: "pipe \<Rightarrow> u8 list \<Rightarrow> u32 \<Rightarrow> pipe \<times> u32" where
  "pipe_put p buf n = (case pipe_write_try False True buf n p of
     (Ret (Inr k), p') \<Rightarrow> (p', k) | (_, p') \<Rightarrow> (p', 0))"

definition pipe_get :: "pipe \<Rightarrow> u32 \<Rightarrow> pipe \<times> u8 list \<times> u32" where
  "pipe_get p n = (case pipe_read_try False True n p of
     (Ret (Inr bs), p') \<Rightarrow> (p', bs, of_nat (length bs)) | (_, p') \<Rightarrow> (p', [], 0))"

lemma pipe_put_eq:
  assumes "n_reader p \<noteq> 0"
  shows "pipe_put p buf n =
    (if ring_buffer_full (p_rb p) then (p, 0)
     else case ring_buffer_write (p_rb p) buf n of (rb, k) \<Rightarrow> (p\<lparr>p_rb := rb\<rparr>, k))"
  using assms by (simp add: pipe_put_def pipe_write_try_def split: prod.split)

lemma pipe_get_eq:
  "pipe_get p n =
    (if ring_buffer_empty (p_rb p) then (p, [], 0)
     else case ring_buffer_read (p_rb p) n of (rb, bs, k) \<Rightarrow> (p\<lparr>p_rb := rb\<rparr>, bs, of_nat (length bs)))"
  by (auto simp: pipe_get_def pipe_read_try_def split: prod.split)

lemma put_fst_snd:
  assumes "pipe_inv p" "n_reader p \<noteq> 0" "unat n \<le> length buf" "pipe_put p buf n = (p', k)"
  shows "pipe_inv p'" "n_reader p' = n_reader p" "n_writer p' = n_writer p" "rb_size (p_rb p') = rb_size (p_rb p)"
    "unat k = min (unat n) (unat (rb_size (p_rb p)) - length (pipe_bytes p))"
    "pipe_bytes p' = pipe_bytes p @ take (unat k) buf"
proof -
  have inv: "rb_inv (p_rb p)" using assms(1) by (simp add: pipe_inv_def)
  show "pipe_inv p'" "n_reader p' = n_reader p" "n_writer p' = n_writer p" "rb_size (p_rb p') = rb_size (p_rb p)"
    "unat k = min (unat n) (unat (rb_size (p_rb p)) - length (pipe_bytes p))"
    "pipe_bytes p' = pipe_bytes p @ take (unat k) buf"
    using assms(4) ring_buffer_write_law [OF inv assms(3)] assms(1)
    by (auto simp: pipe_put_eq [OF assms(2)] pipe_inv_def pipe_bytes_def ring_buffer_full_iff [OF inv]
        simp del: length_rb_list split: if_splits prod.splits)
qed

lemma get_fst_snd:
  assumes "pipe_inv p" "pipe_get p n = (p', bs, k)"
  shows "pipe_inv p'" "n_reader p' = n_reader p" "n_writer p' = n_writer p" "rb_size (p_rb p') = rb_size (p_rb p)"
    "unat k = min (unat n) (length (pipe_bytes p))"
    "bs = take (unat n) (pipe_bytes p)" "pipe_bytes p' = drop (unat n) (pipe_bytes p)"
proof -
  have inv: "rb_inv (p_rb p)" using assms(1) by (simp add: pipe_inv_def)
  have len: "length (rb_list (p_rb p)) < 2 ^ 32"
    using inv by (simp add: length_rb_list)
  have k: "unat (of_nat (length (take (unat n) (rb_list (p_rb p)))) :: u32) = min (unat n) (length (rb_list (p_rb p)))"
    using len by (simp add: unat_of_nat_small min.commute)
  show "pipe_inv p'" "n_reader p' = n_reader p" "n_writer p' = n_writer p" "rb_size (p_rb p') = rb_size (p_rb p)"
    "unat k = min (unat n) (length (pipe_bytes p))"
    "bs = take (unat n) (pipe_bytes p)" "pipe_bytes p' = drop (unat n) (pipe_bytes p)"
    using assms ring_buffer_read_law [OF inv, of n] k
    by (auto simp: pipe_get_eq pipe_inv_def pipe_bytes_def ring_buffer_empty_iff [OF inv]
        simp del: length_rb_list split: if_splits prod.splits)
qed

interpretation pp: byte_queue "\<lambda>p. pipe_inv p \<and> n_reader p \<noteq> 0" pipe_bytes "\<lambda>p. unat (rb_size (p_rb p))"
  pipe_put pipe_get
proof (unfold_locales, goal_cases)
  case (1 q) then show ?case using rb.bounded [of "p_rb q"] by (simp add: pipe_inv_def pipe_bytes_def)
next
  case (2 q n buf) then show ?case using put_fst_snd(1,2) by (metis prod.collapse)
next
  case (3 q n buf) then show ?case using put_fst_snd(4) by (metis prod.collapse)
next
  case (4 q n buf) then show ?case using put_fst_snd(5) by (metis prod.collapse)
next
  case (5 q n buf) then show ?case using put_fst_snd(6) by (metis prod.collapse)
next
  case (6 q n) then show ?case using get_fst_snd(1,2) by (metis prod.collapse)
next
  case (7 q n) then show ?case using get_fst_snd(4) by (metis prod.collapse)
next
  case (8 q n) then show ?case using get_fst_snd(5) by (metis prod.collapse)
next
  case (9 q n) then show ?case using get_fst_snd(6) by (metis prod.collapse)
next
  case (10 q n) then show ?case using get_fst_snd(7) by (metis prod.collapse)
qed


section \<open>Tasks that share a pipe\<close>

record pipe_sys =
  the_pipe :: pipe
  wait_read :: "nat set"
  wait_write :: "nat set"

text \<open>One step of a task: an attempt to write or read, with the waking that the code does after
  it; closing or duplicating an end; a signal, which takes a task off the queues. There are
  at most 1024 open files (\<^verbatim>\<open>NR_FILE\<close>).\<close>

inductive pipe_step :: "pipe_sys \<Rightarrow> pipe_sys \<Rightarrow> bool" where
  write_data: "pipe_write_try sig nb buf cnt (the_pipe s) = (Ret (Inr n), p') \<Longrightarrow> 0 < cnt \<Longrightarrow> unat cnt \<le> length buf \<Longrightarrow>
    pipe_step s (s\<lparr>the_pipe := p', wait_read := {}\<rparr>)"
| write_error: "pipe_write_try sig nb buf cnt (the_pipe s) = (Ret (Inl e), p') \<Longrightarrow>
    pipe_step s (s\<lparr>the_pipe := p'\<rparr>)"
| write_sleep: "pipe_write_try sig nb buf cnt (the_pipe s) = (Sleep, p') \<Longrightarrow>
    pipe_step s (s\<lparr>the_pipe := p', wait_write := insert t (wait_write s)\<rparr>)"
| read_data: "pipe_read_try sig nb cnt (the_pipe s) = (Ret (Inr bs), p') \<Longrightarrow> \<not> ring_buffer_empty (p_rb (the_pipe s)) \<Longrightarrow>
    pipe_step s (s\<lparr>the_pipe := p', wait_write := {}\<rparr>)"
| read_eof: "pipe_read_try sig nb cnt (the_pipe s) = (Ret r, p') \<Longrightarrow> sig \<or> ring_buffer_empty (p_rb (the_pipe s)) \<Longrightarrow>
    pipe_step s (s\<lparr>the_pipe := p'\<rparr>)"
| read_sleep: "pipe_read_try sig nb cnt (the_pipe s) = (Sleep, p') \<Longrightarrow>
    pipe_step s (s\<lparr>the_pipe := p', wait_read := insert t (wait_read s)\<rparr>)"
| close_read: "pipe_read_release (the_pipe s) = Some p' \<Longrightarrow>
    pipe_step s (s\<lparr>the_pipe := p', wait_write := {}\<rparr>)"
| close_write: "pipe_write_release (the_pipe s) = Some p' \<Longrightarrow>
    pipe_step s (s\<lparr>the_pipe := p', wait_read := {}\<rparr>)"
| dup_read: "n_reader (the_pipe s) < 1024 \<Longrightarrow>
    pipe_step s (s\<lparr>the_pipe := (the_pipe s)\<lparr>n_reader := n_reader (the_pipe s) + 1\<rparr>\<rparr>)"
| dup_write: "n_writer (the_pipe s) < 1024 \<Longrightarrow>
    pipe_step s (s\<lparr>the_pipe := (the_pipe s)\<lparr>n_writer := n_writer (the_pipe s) + 1\<rparr>\<rparr>)"
| signal: "pipe_step s (s\<lparr>wait_read := wait_read s - {t}, wait_write := wait_write s - {t}\<rparr>)"

inductive_cases pipe_stepE: "pipe_step s s'"

text \<open>Who sleeps has a reason to.\<close>

definition wakeful :: "pipe_sys \<Rightarrow> bool" where
  "wakeful s \<longleftrightarrow> pipe_inv (the_pipe s) \<and>
     (wait_read s \<noteq> {} \<longrightarrow> ring_buffer_empty (p_rb (the_pipe s)) \<and> n_writer (the_pipe s) \<noteq> 0) \<and>
     (wait_write s \<noteq> {} \<longrightarrow> ring_buffer_full (p_rb (the_pipe s)) \<and> n_reader (the_pipe s) \<noteq> 0)"

lemma write_try_RetD:
  assumes "pipe_write_try sig nb buf cnt p = (Ret (Inr n), p')"
  shows "n_reader p \<noteq> 0" "\<not> ring_buffer_full (p_rb p)" "pipe_put p buf cnt = (p', n)"
  using assms by (auto simp: pipe_write_try_def pipe_put_def split: if_splits prod.splits)

lemma write_try_same:
  "pipe_write_try sig nb buf cnt p = (Ret (Inl e), p') \<Longrightarrow> p' = p"
  "pipe_write_try sig nb buf cnt p = (Sleep, p') \<Longrightarrow> p' = p \<and> ring_buffer_full (p_rb p) \<and> n_reader p \<noteq> 0"
  by (auto simp: pipe_write_try_def split: if_splits prod.splits)

lemma read_try_same:
  "pipe_read_try sig nb cnt p = (Ret r, p') \<Longrightarrow> sig \<or> ring_buffer_empty (p_rb p) \<Longrightarrow> p' = p"
  "pipe_read_try sig nb cnt p = (Sleep, p') \<Longrightarrow> p' = p \<and> ring_buffer_empty (p_rb p) \<and> n_writer p \<noteq> 0"
  by (auto simp: pipe_read_try_def split: if_splits prod.splits)

lemma read_try_dataD:
  assumes "pipe_read_try sig nb cnt p = (Ret (Inr bs), p')" "\<not> ring_buffer_empty (p_rb p)"
  shows "pipe_get p cnt = (p', bs, of_nat (length bs))"
  using assms by (auto simp: pipe_read_try_def pipe_get_def split: if_splits prod.splits)

lemma small_inc: "(a::u32) < 1024 \<Longrightarrow> a + 1 \<noteq> 0"
  by (auto simp: word_less_nat_alt unat_word_ariths word_unat_eq_iff)

lemma wakeful_step:
  assumes "pipe_step s s'" "wakeful s"
  shows "wakeful s'"
  using assms
proof (induction rule: pipe_step.induct)
  case (write_data sig nb buf cnt s n p')
  note put = write_try_RetD [OF write_data(1)]
  have inv: "pipe_inv (the_pipe s)" using write_data by (simp add: wakeful_def)
  have "wait_write s = {}" using write_data put(2) by (auto simp: wakeful_def)
  moreover have "pipe_inv p'" by (rule put_fst_snd(1) [OF inv put(1) write_data(3) put(3)])
  ultimately show ?case by (simp add: wakeful_def)
next
  case (read_data sig nb cnt s bs p')
  note get = read_try_dataD [OF read_data(1,2)]
  have "wait_read s = {}" using read_data by (auto simp: wakeful_def)
  moreover have "pipe_inv p'" using get_fst_snd(1) [OF _ get] read_data by (simp add: wakeful_def)
  ultimately show ?case by (simp add: wakeful_def)
qed (auto simp: wakeful_def pipe_read_release_def pipe_write_release_def pipe_inv_def small_inc
    dest!: write_try_same read_try_same split: if_splits)

section \<open>Properties\<close>

definition pipe_example :: pipe where
  "pipe_example = \<lparr>p_rb = rb_example, n_reader = 1, n_writer = 2\<rparr>"

lemma pipe_example_inv: "pipe_inv pipe_example" "n_reader pipe_example \<noteq> 0"
  using rb_example_inv by (simp_all add: pipe_inv_def pipe_example_def)

text \<open>C14: Whatever tasks do with a pipe, in any order, no task sleeps without a reason: while a
  reader sleeps the pipe is empty and has a writer, while a writer sleeps it is full and has a
  reader, so no wake-up is lost.\<close>

theorem pipe_no_lost_wakeup:
  assumes "pipe_step\<^sup>*\<^sup>* s s'" "wakeful s"
  shows "wakeful s' \<and>
    (wait_read s' \<noteq> {} \<longrightarrow> fst (pipe_read_try False False cnt (the_pipe s')) = Sleep) \<and>
    (wait_write s' \<noteq> {} \<longrightarrow> fst (pipe_write_try False False buf cnt (the_pipe s')) = Sleep)"
proof -
  have "wakeful s'" using assms by induction (auto intro: wakeful_step)
  then show ?thesis by (auto simp: wakeful_def pipe_read_try_def pipe_write_try_def)
qed

theorem pipe_no_lost_wakeup_witness:
  "pipe_step \<lparr>the_pipe = pipe_example, wait_read = {}, wait_write = {}\<rparr>
      \<lparr>the_pipe = pipe_example\<lparr>n_reader := 0\<rparr>, wait_read = {}, wait_write = {}\<rparr> \<and>
   wakeful \<lparr>the_pipe = pipe_example\<lparr>n_reader := 0\<rparr>, wait_read = {}, wait_write = {}\<rparr>"
proof -
  let ?s = "\<lparr>the_pipe = pipe_example, wait_read = {}, wait_write = {}\<rparr>"
  let ?p = "pipe_example\<lparr>n_reader := 0\<rparr>"
  have "pipe_read_release pipe_example = Some ?p"
    by (simp add: pipe_read_release_def pipe_example_def)
  then have "pipe_step ?s (?s\<lparr>the_pipe := ?p, wait_write := {}\<rparr>)"
    by (intro close_read) simp
  then have step: "pipe_step ?s \<lparr>the_pipe = ?p, wait_read = {}, wait_write = {}\<rparr>" by simp
  have "wakeful ?s" using pipe_example_inv by (simp add: wakeful_def)
  with step pipe_no_lost_wakeup [OF r_into_rtranclp [of pipe_step, OF step]] show ?thesis by simp
qed



text \<open>Polling an end reports an event exactly when a blocking call on that end would
  return at once.\<close>

theorem pipe_poll_exact:
  "(pipe_read_poll p \<noteq> 0 \<longleftrightarrow> fst (pipe_read_try False False cnt p) \<noteq> Sleep) \<and>
   (pipe_write_poll p \<noteq> 0 \<longleftrightarrow> fst (pipe_write_try False False buf cnt p) \<noteq> Sleep)"
  by (auto simp: pipe_read_poll_def pipe_write_poll_def pipe_read_try_def pipe_write_try_def split: prod.split)

text \<open>Opening a named pipe that is in use counts the ends of the new file, and an open that fails
  leaves the counts as they were, if nothing else happens meanwhile.\<close>

theorem fifo_open_counts:
  assumes "fifo_open mode nonblock page (\<lambda>q. (sig, q)) True p = (r, p', b, ops)" "mode AND 3 \<noteq> 0"
  shows "case r of
      Inl e \<Rightarrow> (e = ERESTARTSYS \<and> sig \<or> e = ENXIO \<and> nonblock) \<and> p' = p
    | Inr _ \<Rightarrow> n_reader p' = n_reader p + (if mode AND 1 \<noteq> 0 then 1 else 0) \<and>
        n_writer p' = n_writer p + (if mode AND 2 \<noteq> 0 then 1 else 0) \<and> p_rb p' = p_rb p"
proof -
  have "mode AND 1 \<noteq> 0 \<or> mode AND 2 \<noteq> 0"
  proof (rule ccontr)
    assume "\<not> ?thesis"
    then have "mode AND (1 OR 2) = 0" by (simp only: bit.conj_disj_distrib) simp
    with assms(2) show False by simp
  qed
  with assms(1) show ?thesis
    by (auto simp: fifo_open_def Let_def split: if_splits)
qed

theorem fifo_open_counts_witness:
  "fifo_open 2 True None (\<lambda>q. (False, q)) True (pipe_example\<lparr>n_reader := 0\<rparr>) =
     (Inl ENXIO, pipe_example\<lparr>n_reader := 0\<rparr>, True, WritePipe)"
proof -
  obtain r p' b ops where open_r: "fifo_open 2 True None (\<lambda>q. (False, q)) True (pipe_example\<lparr>n_reader := 0\<rparr>) = (r, p', b, ops)"
    by (metis prod_cases4)
  then have "r = Inl ENXIO" "b = True" "ops = WritePipe"
    by (simp_all add: fifo_open_def Let_def pipe_example_def)
  with fifo_open_counts [OF open_r] open_r show ?thesis by simp
qed

end
