(* ===== verification/Blkdev.thy ===== *)
theory Blkdev
  imports Page_Alloc
begin

text \<open>
  Block devices: the table of drivers (\<^verbatim>\<open>src/src/fs/block/blkdev.c\<close>), the ram disks
  (\<^verbatim>\<open>src/src/fs/block/rd.c\<close>) and the device files (\<^verbatim>\<open>src/src/fs/block/file.c\<close>). A driver is a record of
  functions on a state of its own; the disk driver (\<^verbatim>\<open>ahci.c\<close>) is not part of the model, so the
  table is an argument. A read returns what the code leaves in the caller's buffer. The state of the
  ram disks is the kernel's memory and the table \<^verbatim>\<open>rd_info\<close>, whose length is \<^verbatim>\<open>nr_rd\<close>.
\<close>

section \<open>Model\<close>

subsection \<open>The table of drivers\<close>

type_synonym dev_t = u16

definition MAJOR :: "dev_t \<Rightarrow> u32" where
  "MAJOR dev = drop_bit 8 (ucast dev)"

definition MINOR :: "dev_t \<Rightarrow> u32" where
  "MINOR dev = ucast dev AND 0xff"

record 'w blkdev_operations =
  op_read :: "(dev_t \<Rightarrow> u32 \<Rightarrow> u32 \<Rightarrow> 'w \<Rightarrow> errno + u8 list) option"
  op_write :: "(dev_t \<Rightarrow> u32 \<Rightarrow> u32 \<Rightarrow> u8 list \<Rightarrow> 'w \<Rightarrow> (errno + unit) \<times> 'w) option"
  op_get_info :: "(dev_t \<Rightarrow> 'w \<Rightarrow> errno + u32 \<times> u32) option"

type_synonym 'w blkdevs = "u32 \<Rightarrow> 'w blkdev_operations option"

abbreviation MAX_BLKDEV :: u32 where "MAX_BLKDEV \<equiv> 64"
abbreviation RD_MAJOR :: u32 where "RD_MAJOR \<equiv> 1"

definition register_blkdev :: "u32 \<Rightarrow> 'w blkdev_operations \<Rightarrow> 'w blkdevs \<Rightarrow> (errno + unit) \<times> 'w blkdevs" where
  "register_blkdev major ops devs =
     (if major = 0 \<or> major \<ge> MAX_BLKDEV then (Inl EINVAL, devs)
      else if devs major \<noteq> None then (Inl EBUSY, devs)
      else (Inr (), devs(major \<mapsto> ops)))"

definition check_blkdev :: "'w blkdevs \<Rightarrow> u32 \<Rightarrow> bool" where
  "check_blkdev devs major =
     (if major = 0 \<or> major \<ge> MAX_BLKDEV then False else if devs major = None then False else True)"

definition unregister_blkdev :: "u32 \<Rightarrow> 'w blkdevs \<Rightarrow> (errno + unit) \<times> 'w blkdevs" where
  "unregister_blkdev major devs =
     (if \<not> check_blkdev devs major then (Inl EINVAL, devs) else (Inr (), devs(major := None)))"

text \<open>\<open>buf\<close> is the buffer before the call, which a driver without the operation leaves as it is.\<close>

definition blkdev_read :: "'w blkdevs \<Rightarrow> dev_t \<Rightarrow> u32 \<Rightarrow> u32 \<Rightarrow> u8 list \<Rightarrow> 'w \<Rightarrow> errno + u8 list" where
  "blkdev_read devs dev sector nr buf w =
     (if \<not> check_blkdev devs (MAJOR dev) then Inl EINVAL
      else case op_read (the (devs (MAJOR dev))) of
             Some rd \<Rightarrow> rd dev sector nr w
           | None \<Rightarrow> Inr buf)"

definition blkdev_write :: "'w blkdevs \<Rightarrow> dev_t \<Rightarrow> u32 \<Rightarrow> u32 \<Rightarrow> u8 list \<Rightarrow> 'w \<Rightarrow> (errno + unit) \<times> 'w" where
  "blkdev_write devs dev sector nr buf w =
     (if \<not> check_blkdev devs (MAJOR dev) then (Inl EINVAL, w)
      else case op_write (the (devs (MAJOR dev))) of
             Some wr \<Rightarrow> wr dev sector nr buf w
           | None \<Rightarrow> (Inr (), w))"

text \<open>The sector size and the number of sectors; \<open>info\<close> is the structure before the call.\<close>

definition blkdev_get_info :: "'w blkdevs \<Rightarrow> dev_t \<Rightarrow> u32 \<times> u32 \<Rightarrow> 'w \<Rightarrow> errno + u32 \<times> u32" where
  "blkdev_get_info devs dev info w =
     (if \<not> check_blkdev devs (MAJOR dev) then Inl EINVAL
      else case op_get_info (the (devs (MAJOR dev))) of
             Some gi \<Rightarrow> gi dev w
           | None \<Rightarrow> Inr info)"

definition get_sector_size :: "'w blkdevs \<Rightarrow> dev_t \<Rightarrow> 'w \<Rightarrow> errno + u32" where
  "get_sector_size devs dev w =
     (case blkdev_get_info devs dev (0, 0) w of
        Inl e \<Rightarrow> Inl EINVAL
      | Inr (ssize, _) \<Rightarrow> Inr ssize)"

subsection \<open>Ram disks\<close>

record rd =
  rd_start :: u32
  rd_end :: u32
  rd_nr :: u32

record rdisks =
  rd_info :: "rd list"
  kmem :: "u32 \<Rightarrow> u8"

definition mem_read :: "(u32 \<Rightarrow> u8) \<Rightarrow> u32 \<Rightarrow> nat \<Rightarrow> u8 list" where
  "mem_read m a n = map (\<lambda>i. m (a + of_nat i)) [0..<n]"

definition mem_write :: "(u32 \<Rightarrow> u8) \<Rightarrow> u32 \<Rightarrow> u8 list \<Rightarrow> u32 \<Rightarrow> u8" where
  "mem_write m a bs = (\<lambda>x. if unat (x - a) < length bs then bs ! unat (x - a) else m x)"

abbreviation RD_SECTOR_SIZE :: u32 where "RD_SECTOR_SIZE \<equiv> 512"

definition rd_read :: "dev_t \<Rightarrow> u32 \<Rightarrow> u32 \<Rightarrow> rdisks \<Rightarrow> errno + u8 list" where
  "rd_read dev sector nr w =
     (let minor = MINOR dev
      in if unat minor \<ge> length (rd_info w) then Inl EINVAL
         else
           let d = rd_info w ! unat minor; n = rd_nr d
           in if sector \<ge> n then Inl EINVAL
              else
                let nr = (if sector + nr \<ge> n then n - sector else nr)
                in Inr (mem_read (kmem w) (rd_start d + sector * RD_SECTOR_SIZE) (unat (nr * RD_SECTOR_SIZE))))"

definition rd_write :: "dev_t \<Rightarrow> u32 \<Rightarrow> u32 \<Rightarrow> u8 list \<Rightarrow> rdisks \<Rightarrow> (errno + unit) \<times> rdisks" where
  "rd_write dev sector nr buf w =
     (let minor = MINOR dev
      in if unat minor \<ge> length (rd_info w) then (Inl EINVAL, w)
         else
           let d = rd_info w ! unat minor; n = rd_nr d
           in if sector \<ge> n then (Inl EINVAL, w)
              else
                let nr = (if sector + nr \<ge> n then n - sector else nr)
                in (Inr (), w\<lparr>kmem := mem_write (kmem w) (rd_start d + sector * RD_SECTOR_SIZE)
                                (take (unat (nr * RD_SECTOR_SIZE)) buf)\<rparr>))"

definition rd_get_info :: "dev_t \<Rightarrow> rdisks \<Rightarrow> errno + u32 \<times> u32" where
  "rd_get_info dev w =
     (let minor = MINOR dev
      in if unat minor \<ge> length (rd_info w) then Inl EINVAL
         else Inr (RD_SECTOR_SIZE, rd_nr (rd_info w ! unat minor)))"

definition rd_ops :: "rdisks blkdev_operations" where
  "rd_ops = \<lparr>op_read = Some rd_read, op_write = Some rd_write, op_get_info = Some rd_get_info\<rparr>"

definition rd_init :: "rdisks blkdevs \<Rightarrow> rdisks blkdevs" where
  "rd_init devs = snd (register_blkdev RD_MAJOR rd_ops devs)"

text \<open>The part of \<^verbatim>\<open>blkdev_init\<close> before \<^verbatim>\<open>hd_init\<close>.\<close>

definition blkdev_init :: "rdisks blkdevs" where
  "blkdev_init = rd_init (\<lambda>_. None)"

text \<open>The fields of \<^verbatim>\<open>struct mario_super_block\<close> that \<^verbatim>\<open>ramdisk_setup\<close> reads.\<close>

definition mem_u32 :: "(u32 \<Rightarrow> u8) \<Rightarrow> u32 \<Rightarrow> u32" where
  "mem_u32 m a = le_word (mem_read m a 4)"

definition sb_sector_size :: "(u32 \<Rightarrow> u8) \<Rightarrow> u32 \<Rightarrow> u32" where
  "sb_sector_size m sb = mem_u32 m sb"

definition sb_nr_blocks :: "(u32 \<Rightarrow> u8) \<Rightarrow> u32 \<Rightarrow> u32" where
  "sb_nr_blocks m sb = mem_u32 m (sb + 8)"

definition sb_magic :: "(u32 \<Rightarrow> u8) \<Rightarrow> u32 \<Rightarrow> u32" where
  "sb_magic m sb = mem_u32 m (sb + 16)"

abbreviation MARIO_MAGIC :: u32 where "MARIO_MAGIC \<equiv> 0x4518cdef"

text \<open>The loop over the disks of one module: it ends because the table has six places.\<close>

function rd_scan :: "(u32 \<Rightarrow> u8) \<Rightarrow> u32 \<Rightarrow> u32 \<Rightarrow> u32 \<Rightarrow> rd list \<Rightarrow> rd list option" where
  "rd_scan m start stop j rds =
     (if start + j < stop
      then if length rds \<ge> 6 then None
           else
             let sb = start + j; rsize = sb_nr_blocks m sb * sb_sector_size m sb
             in if PAGE_ALIGN sb = sb \<and> sb + RD_SECTOR_SIZE < stop \<and> sb_magic m sb = MARIO_MAGIC \<and>
                   sb_sector_size m sb = RD_SECTOR_SIZE \<and> PAGE_ALIGN rsize = rsize
                then rd_scan m start stop (j + rsize)
                       (rds @ [\<lparr>rd_start = sb, rd_end = sb + rsize, rd_nr = sb_nr_blocks m sb\<rparr>])
                else None
      else if start + j = stop then Some rds else None)"
  by auto
termination
  by (relation "measure (\<lambda>(_, _, _, _, rds). 6 - length rds)") (auto simp: Let_def)

declare rd_scan.simps [simp del]

text \<open>A module is its start and its end; they are physical addresses.\<close>

primrec rd_modules :: "(u32 \<Rightarrow> u8) \<Rightarrow> (u32 \<times> u32) list \<Rightarrow> rd list \<Rightarrow> rd list option" where
  "rd_modules m [] rds = Some rds"
| "rd_modules m (md # mds) rds =
     (case rd_scan m (fst md + 0x80000000) (snd md + 0x80000000) 0 rds of
        None \<Rightarrow> None
      | Some rds \<Rightarrow> rd_modules m mds rds)"

text \<open>The table and \<^verbatim>\<open>last_rd_end\<close>; \<open>has_modules\<close> is the flag \<^verbatim>\<open>MB_FLAG_MODULE\<close>.\<close>

definition ramdisk_setup :: "bool \<Rightarrow> (u32 \<times> u32) list \<Rightarrow> (u32 \<Rightarrow> u8) \<Rightarrow> (rdisks \<times> u32) option" where
  "ramdisk_setup has_modules mods m =
     (case (if has_modules then rd_modules m mods [] else Some []) of
        None \<Rightarrow> None
      | Some rds \<Rightarrow> if rds = [] then None else Some (\<lparr>rd_info = rds, kmem = m\<rparr>, rd_end (last rds)))"

subsection \<open>Device files\<close>

text \<open>The position of a device file is a 64-bit integer. The information is not initialised
  before the call, which matters only for a driver without \<^verbatim>\<open>blkdev_get_info\<close>; it is \<open>junk\<close>.\<close>

definition blkdev_file_open :: "'w blkdevs \<Rightarrow> u32 \<times> u32 \<Rightarrow> dev_t \<Rightarrow> 'w \<Rightarrow> errno + unit" where
  "blkdev_file_open devs junk dev w = map_sum id (\<lambda>_. ()) (blkdev_get_info devs dev junk w)"

datatype blk_origin = BlkSet | BlkCur | BlkEnd | BlkOther

definition blkdev_file_lseek :: "'w blkdevs \<Rightarrow> u32 \<times> u32 \<Rightarrow> dev_t \<Rightarrow> 'w \<Rightarrow> int \<Rightarrow> int \<Rightarrow> blk_origin \<Rightarrow> errno + int" where
  "blkdev_file_lseek devs junk dev w fpos offset origin =
     (case blkdev_get_info devs dev junk w of
        Inl e \<Rightarrow> Inl e
      | Inr (ssize, nr) \<Rightarrow>
          let fsize = sint ssize * sint nr
          in case (case origin of BlkSet \<Rightarrow> Some offset | BlkCur \<Rightarrow> Some (fpos + offset)
                    | BlkEnd \<Rightarrow> Some (fsize + offset) | BlkOther \<Rightarrow> None) of
               None \<Rightarrow> Inl EINVAL
             | Some pos \<Rightarrow> if pos < 0 \<or> pos > fsize then Inl EINVAL else Inr pos)"

text \<open>The loops transfer a sector at a time; an error in the middle is returned, after the
  position has moved past the sectors already done.\<close>

function read_sectors :: "'w blkdevs \<Rightarrow> dev_t \<Rightarrow> 'w \<Rightarrow> int \<Rightarrow> int \<Rightarrow> u8 list \<Rightarrow> (errno + u8 list) \<times> int" where
  "read_sectors devs dev w fpos cnt got =
     (if cnt > 0
      then case blkdev_read devs dev (word_of_int (fpos div 512)) 1 (replicate 512 0) w of
             Inl e \<Rightarrow> (Inl e, fpos)
           | Inr bs \<Rightarrow> read_sectors devs dev w (fpos + 512) (cnt - 512) (got @ take 512 bs)
      else (Inr got, fpos))"
  by auto
termination
  by (relation "measure (\<lambda>(_, _, _, _, cnt, _). nat cnt)") auto

declare read_sectors.simps [simp del]

function write_sectors :: "'w blkdevs \<Rightarrow> dev_t \<Rightarrow> 'w \<Rightarrow> int \<Rightarrow> int \<Rightarrow> u8 list \<Rightarrow> int \<Rightarrow> (errno + int) \<times> int \<times> 'w" where
  "write_sectors devs dev w fpos cnt buf got =
     (if cnt > 0
      then case blkdev_write devs dev (word_of_int (fpos div 512)) 1 (take 512 buf) w of
             (Inl e, w) \<Rightarrow> (Inl e, fpos, w)
           | (Inr _, w) \<Rightarrow> write_sectors devs dev w (fpos + 512) (cnt - 512) (drop 512 buf) (got + 512)
      else (Inr got, fpos, w))"
  by auto
termination
  by (relation "measure (\<lambda>(_, _, _, _, cnt, _, _). nat cnt)") auto

declare write_sectors.simps [simp del]

definition blkdev_file_read :: "'w blkdevs \<Rightarrow> u32 \<times> u32 \<Rightarrow> dev_t \<Rightarrow> 'w \<Rightarrow> int \<Rightarrow> int \<Rightarrow> (errno + u8 list) \<times> int" where
  "blkdev_file_read devs junk dev w fpos cnt =
     (case blkdev_get_info devs dev junk w of
        Inl e \<Rightarrow> (Inl e, fpos)
      | Inr (ssize, nr) \<Rightarrow>
          if sint ssize \<noteq> 512 then (Inl EINVAL, fpos)
          else if fpos mod 512 \<noteq> 0 \<or> cnt mod 512 \<noteq> 0 then (Inl EINVAL, fpos)
          else
            let fsize = sint ssize * sint nr
            in if fpos \<ge> fsize then (Inr [], fpos)
               else read_sectors devs dev w fpos (min cnt (fsize - fpos)) [])"

definition blkdev_file_write ::
  "'w blkdevs \<Rightarrow> u32 \<times> u32 \<Rightarrow> dev_t \<Rightarrow> 'w \<Rightarrow> int \<Rightarrow> u8 list \<Rightarrow> int \<Rightarrow> (errno + int) \<times> int \<times> 'w" where
  "blkdev_file_write devs junk dev w fpos buf cnt =
     (case blkdev_get_info devs dev junk w of
        Inl e \<Rightarrow> (Inl e, fpos, w)
      | Inr (ssize, nr) \<Rightarrow>
          if sint ssize \<noteq> 512 then (Inl EINVAL, fpos, w)
          else if fpos mod 512 \<noteq> 0 \<or> cnt mod 512 \<noteq> 0 then (Inl EINVAL, fpos, w)
          else
            let fsize = sint ssize * sint nr
            in if fpos + cnt > fsize then (Inl ENOSPC, fpos, w)
               else write_sectors devs dev w fpos cnt buf 0)"

datatype ioctl_out = Out32 u32 | Out64 u64

definition blkdev_file_ioctl :: "'w blkdevs \<Rightarrow> u32 \<times> u32 \<Rightarrow> dev_t \<Rightarrow> 'w \<Rightarrow> u32 \<Rightarrow> errno + ioctl_out" where
  "blkdev_file_ioctl devs junk dev w cmd =
     (case blkdev_get_info devs dev junk w of
        Inl e \<Rightarrow> Inl e
      | Inr (ssize, nr) \<Rightarrow>
          if cmd = 0x1268 then Inr (Out32 ssize)
          else if cmd = 0x1260 then Inr (Out32 nr)
          else if cmd = 0x80081272 then Inr (Out64 (scast ssize * scast nr))
          else Inl EINVAL)"


section \<open>The interface of a block device\<close>

text \<open>A device of 512-byte sectors, as its clients use it: one sector at a time.\<close>

locale block_device =
  fixes winv :: "'w \<Rightarrow> bool"
    and valid :: "'w \<Rightarrow> dev_t \<Rightarrow> u32 \<Rightarrow> bool"
    and sector :: "'w \<Rightarrow> dev_t \<Rightarrow> u32 \<Rightarrow> u8 list"
    and rd :: "dev_t \<Rightarrow> u32 \<Rightarrow> 'w \<Rightarrow> errno + u8 list"
    and wr :: "dev_t \<Rightarrow> u32 \<Rightarrow> u8 list \<Rightarrow> 'w \<Rightarrow> (errno + unit) \<times> 'w"
  assumes sector_length: "winv w \<Longrightarrow> valid w d s \<Longrightarrow> length (sector w d s) = 512"
    and rd_valid: "winv w \<Longrightarrow> valid w d s \<Longrightarrow> rd d s w = Inr (sector w d s)"
    and rd_invalid: "\<not> valid w d s \<Longrightarrow> \<exists>e. rd d s w = Inl e"
    and wr_valid: "winv w \<Longrightarrow> valid w d s \<Longrightarrow> length bs = 512 \<Longrightarrow> fst (wr d s bs w) = Inr ()"
    and wr_invalid: "\<not> valid w d s \<Longrightarrow> \<exists>e. wr d s bs w = (Inl e, w)"
    and wr_inv: "winv w \<Longrightarrow> length bs = 512 \<Longrightarrow> winv (snd (wr d s bs w))"
    and wr_same_valid: "winv w \<Longrightarrow> length bs = 512 \<Longrightarrow> valid (snd (wr d s bs w)) = valid w"
    and wr_sector: "winv w \<Longrightarrow> valid w d s \<Longrightarrow> length bs = 512 \<Longrightarrow> valid w d' s' \<Longrightarrow>
      sector (snd (wr d s bs w)) d' s' = (if d' = d \<and> s' = s then bs else sector w d' s')"
begin

lemma write_read:
  assumes "winv w" "valid w d s" "length bs = 512"
  shows "rd d s (snd (wr d s bs w)) = Inr bs"
  using assms by (simp add: rd_valid wr_inv wr_same_valid wr_sector)

end

section \<open>Ram disks are block devices\<close>

lemma dev_split: "ucast d = push_bit 8 (MAJOR d) OR MINOR d"
proof (rule bit_word_eqI)
  fix n assume "n < LENGTH(32)"
  have ff: "(0xff :: u32) = mask 8" by (simp add: mask_eq_exp_minus_1)
  show "bit (ucast d :: u32) n = bit (push_bit 8 (MAJOR d) OR MINOR d) n"
    unfolding MAJOR_def MINOR_def ff by (auto simp: bit_simps)
qed

lemma dev_eqI: "MAJOR d = MAJOR d' \<Longrightarrow> MINOR d = MINOR d' \<Longrightarrow> d = d'"
proof -
  assume "MAJOR d = MAJOR d'" "MINOR d = MINOR d'"
  then have eq: "(ucast d :: u32) = ucast d'" by (simp only: dev_split)
  show "d = d'"
  proof (rule bit_word_eqI)
    fix n assume "n < LENGTH(16)"
    then show "bit d n = bit d' n" using arg_cong [OF eq, of "\<lambda>x. bit x n"] by (simp add: bit_simps)
  qed
qed

subsection \<open>Memory\<close>

lemma length_mem_read [simp]: "length (mem_read m a n) = n"
  by (simp add: mem_read_def)

lemma unat_offset: "unat (a::u32) + n \<le> 2 ^ 32 \<Longrightarrow> i < n \<Longrightarrow> unat (a + of_nat i) = unat a + i"
  by (simp add: unat_add_no_wrap unat_of_nat_small)

lemma mem_read_write_same:
  assumes "unat a + length bs \<le> 2 ^ 32"
  shows "mem_read (mem_write m a bs) a (length bs) = bs"
proof (rule nth_equalityI)
  fix i assume "i < length (mem_read (mem_write m a bs) a (length bs))"
  then have i: "i < length bs" by simp
  then have "unat (of_nat i :: u32) = i" using assms by (intro unat_of_nat_small) simp
  with i show "mem_read (mem_write m a bs) a (length bs) ! i = bs ! i"
    by (simp add: mem_read_def mem_write_def)
qed simp

lemma mem_read_write_other:
  assumes "unat a + length bs \<le> 2 ^ 32" "unat b + n \<le> 2 ^ 32"
    and "unat a + length bs \<le> unat b \<or> unat b + n \<le> unat a"
  shows "mem_read (mem_write m a bs) b n = mem_read m b n"
proof (rule nth_equalityI)
  fix i assume "i < length (mem_read (mem_write m a bs) b n)"
  then have i: "i < n" by simp
  have "unat (b + of_nat i) = unat b + i" by (rule unat_offset [OF assms(2) i])
  moreover have "unat (b + of_nat i - a) =
      (if unat a \<le> unat (b + of_nat i) then unat (b + of_nat i) - unat a else unat (b + of_nat i) + 2 ^ 32 - unat a)"
    by (simp add: unat_sub_if')
  ultimately have "\<not> unat (b + of_nat i - a) < length bs"
    using assms(1,3) i by (auto split: if_splits)
  with i show "mem_read (mem_write m a bs) b n ! i = mem_read m b n ! i"
    by (simp add: mem_read_def mem_write_def)
qed simp

subsection \<open>Layout\<close>

definition rd_size :: "rd \<Rightarrow> nat" where
  "rd_size d = unat (rd_nr d) * 512"

definition rd_apart :: "rd \<Rightarrow> rd \<Rightarrow> bool" where
  "rd_apart d e \<longleftrightarrow> unat (rd_start d) + rd_size d \<le> unat (rd_start e) \<or>
     unat (rd_start e) + rd_size e \<le> unat (rd_start d)"

text \<open>The disks lie in memory and do not overlap.\<close>

definition rds_ok :: "rdisks \<Rightarrow> bool" where
  "rds_ok w \<longleftrightarrow>
     (\<forall>d \<in> set (rd_info w). unat (rd_start d) + rd_size d \<le> 2 ^ 32) \<and>
     (\<forall>i < length (rd_info w). \<forall>j < length (rd_info w). i \<noteq> j \<longrightarrow> rd_apart (rd_info w ! i) (rd_info w ! j))"

definition rd_valid :: "rdisks \<Rightarrow> dev_t \<Rightarrow> u32 \<Rightarrow> bool" where
  "rd_valid w dev s \<longleftrightarrow> MAJOR dev = RD_MAJOR \<and> unat (MINOR dev) < length (rd_info w) \<and>
     s < rd_nr (rd_info w ! unat (MINOR dev))"

definition rd_sector :: "rdisks \<Rightarrow> dev_t \<Rightarrow> u32 \<Rightarrow> u8 list" where
  "rd_sector w dev s = mem_read (kmem w) (rd_start (rd_info w ! unat (MINOR dev)) + s * 512) 512"

lemma rd_sector_base:
  assumes "rds_ok w" "rd_valid w dev s"
  shows "unat (rd_start (rd_info w ! unat (MINOR dev)) + s * 512) =
      unat (rd_start (rd_info w ! unat (MINOR dev))) + unat s * 512"
    "unat s * 512 + 512 \<le> rd_size (rd_info w ! unat (MINOR dev))"
    "unat (rd_start (rd_info w ! unat (MINOR dev))) + rd_size (rd_info w ! unat (MINOR dev)) \<le> 2 ^ 32"
proof -
  let ?d = "rd_info w ! unat (MINOR dev)"
  have "unat s < unat (rd_nr ?d)" using assms(2) by (simp add: rd_valid_def word_less_nat_alt)
  then show le: "unat s * 512 + 512 \<le> rd_size ?d" by (simp add: rd_size_def)
  show top: "unat (rd_start ?d) + rd_size ?d \<le> 2 ^ 32"
    using assms by (simp add: rds_ok_def rd_valid_def)
  have "unat (s * 512) = unat s * 512"
    using le top by (simp add: unat_word_ariths)
  then show "unat (rd_start ?d + s * 512) = unat (rd_start ?d) + unat s * 512"
    using le top by (simp add: unat_add_no_wrap)
qed

lemma one_sector: "s < n \<Longrightarrow> (if s + 1 \<ge> n then n - s else 1) = (1 :: u32)"
proof -
  assume s: "s < n"
  show ?thesis
  proof (cases "s + 1 \<ge> n")
    case True
    have "unat s + 1 < 2 ^ 32"
      using s le_less_trans [OF _ unat_less_2_32, of "unat s + 1" n] by (simp add: word_less_nat_alt)
    then have "unat (s + 1) = unat s + 1" by (simp add: unat_add_no_wrap)
    with True s have "n = s + 1" by (auto simp: word_le_nat_alt word_less_nat_alt word_unat_eq_iff)
    with True show ?thesis by simp
  qed simp
qed

lemma blkdev_init_check: "check_blkdev blkdev_init major \<longleftrightarrow> major = RD_MAJOR"
  "blkdev_init RD_MAJOR = Some rd_ops"
proof -
  have "\<not> (64::u32) \<le> 1" by (simp add: word_le_nat_alt)
  then show "check_blkdev blkdev_init major \<longleftrightarrow> major = RD_MAJOR" "blkdev_init RD_MAJOR = Some rd_ops"
    by (auto simp: check_blkdev_def blkdev_init_def rd_init_def register_blkdev_def)
qed

lemma rd_read_one:
  "blkdev_read blkdev_init dev s 1 buf w = (if rd_valid w dev s then Inr (rd_sector w dev s) else Inl EINVAL)"
  using one_sector [of s "rd_nr (rd_info w ! unat (MINOR dev))"]
  by (auto simp: blkdev_read_def blkdev_init_check rd_ops_def rd_read_def rd_valid_def rd_sector_def Let_def not_less not_le)

lemma rd_write_one:
  assumes "length bs = 512"
  shows "blkdev_write blkdev_init dev s 1 bs w =
    (if rd_valid w dev s
     then (Inr (), w\<lparr>kmem := mem_write (kmem w) (rd_start (rd_info w ! unat (MINOR dev)) + s * 512) bs\<rparr>)
     else (Inl EINVAL, w))"
  using one_sector [of s "rd_nr (rd_info w ! unat (MINOR dev))"] assms
  by (auto simp: blkdev_write_def blkdev_init_check rd_ops_def rd_write_def rd_valid_def rd_sector_def Let_def not_less not_le)

lemma rd_write_sector:
  assumes inv: "rds_ok w" and v: "rd_valid w dev s" "rd_valid w dev' s'" and len: "length bs = 512"
  shows "rd_sector (w\<lparr>kmem := mem_write (kmem w) (rd_start (rd_info w ! unat (MINOR dev)) + s * 512) bs\<rparr>) dev' s' =
    (if dev' = dev \<and> s' = s then bs else rd_sector w dev' s')"
proof -
  let ?i = "unat (MINOR dev)" and ?j = "unat (MINOR dev')"
  let ?a = "rd_start (rd_info w ! ?i) + s * 512" and ?b = "rd_start (rd_info w ! ?j) + s' * 512"
  note A = rd_sector_base [OF inv v(1)] and B = rd_sector_base [OF inv v(2)]
  show ?thesis
  proof (cases "dev' = dev \<and> s' = s")
    case True
    have "unat ?a + length bs \<le> 2 ^ 32" using A len by simp
    from mem_read_write_same [OF this] show ?thesis
      using True len by (simp add: rd_sector_def)
  next
    case False
    have "unat ?a + length bs \<le> unat ?b \<or> unat ?b + 512 \<le> unat ?a"
    proof (cases "dev' = dev")
      case True
      with False have "unat s' \<noteq> unat s" by (simp add: word_unat_eq_iff)
      with True A B len show ?thesis by auto
    next
      case False
      have "?i \<noteq> ?j"
        using False dev_eqI [of dev' dev] v by (auto simp: rd_valid_def word_unat_eq_iff)
      then have "rd_apart (rd_info w ! ?i) (rd_info w ! ?j)"
        using inv v by (simp add: rds_ok_def rd_valid_def)
      with A B len show ?thesis by (auto simp: rd_apart_def)
    qed
    with False A B len show ?thesis
      by (auto simp: rd_sector_def mem_read_write_other)
  qed
qed

interpretation rdev: block_device rds_ok rd_valid rd_sector
  "\<lambda>d s w. blkdev_read blkdev_init d s 1 (replicate 512 0) w" "\<lambda>d s bs w. blkdev_write blkdev_init d s 1 bs w"
proof (unfold_locales, goal_cases)
  case (1 w d s) then show ?case by (simp add: rd_sector_def)
next
  case (2 w d s) then show ?case by (simp add: rd_read_one)
next
  case (3 w d s) then show ?case by (simp add: rd_read_one)
next
  case (4 w d s bs) then show ?case by (simp add: rd_write_one)
next
  case (5 w d s bs) then show ?case
    by (auto simp: blkdev_write_def blkdev_init_check rd_ops_def rd_write_def rd_valid_def Let_def not_less not_le)
next
  case (6 w bs d s) then show ?case by (simp add: rd_write_one rds_ok_def)
next
  case (7 w bs d s) then show ?case by (auto simp: rd_write_one rd_valid_def fun_eq_iff)
next
  case (8 w d s bs d' s') then show ?case by (simp add: rd_write_one rd_write_sector)
qed


section \<open>Device files on ram disks\<close>

abbreviation rd_sectors :: "rdisks \<Rightarrow> dev_t \<Rightarrow> nat \<Rightarrow> nat \<Rightarrow> u8 list" where
  "rd_sectors w dev k n \<equiv> concat (map (\<lambda>i. rd_sector w dev (of_nat i)) [k..<k + n])"

definition rd_dev :: "rdisks \<Rightarrow> dev_t \<Rightarrow> bool" where
  "rd_dev w dev \<longleftrightarrow> MAJOR dev = RD_MAJOR \<and> unat (MINOR dev) < length (rd_info w)"

abbreviation rd_count :: "rdisks \<Rightarrow> dev_t \<Rightarrow> nat" where
  "rd_count w dev \<equiv> unat (rd_nr (rd_info w ! unat (MINOR dev)))"

lemma rd_valid_nat: "rd_dev w dev \<Longrightarrow> k < rd_count w dev \<Longrightarrow> rd_valid w dev (of_nat k)"
  by (simp add: rd_dev_def rd_valid_def word_less_nat_alt unat_of_nat_small less_trans [OF _ unat_less_2_32])

lemma sector_number: "word_of_int (512 * int k div 512) = (of_nat k :: u32)"
  by simp

lemma read_sectors_rd:
  "rds_ok w \<Longrightarrow> rd_dev w dev \<Longrightarrow> k + n \<le> rd_count w dev \<Longrightarrow>
   read_sectors blkdev_init dev w (512 * int k) (512 * int n) got =
     (Inr (got @ rd_sectors w dev k n), 512 * int (k + n))"
proof (induction n arbitrary: k got)
  case 0
  then show ?case by (subst read_sectors.simps) simp
next
  case (Suc n)
  have v: "rd_valid w dev (of_nat k)" using Suc.prems by (intro rd_valid_nat) auto
  have "read_sectors blkdev_init dev w (512 * int k) (512 * int (Suc n)) got =
      read_sectors blkdev_init dev w (512 * int (Suc k)) (512 * int n) (got @ rd_sector w dev (of_nat k))"
    using rdev.rd_valid [OF Suc.prems(1) v] rdev.sector_length [OF Suc.prems(1) v]
    by (subst read_sectors.simps) (simp add: sector_number algebra_simps)
  also have "\<dots> = (Inr (got @ rd_sectors w dev k (Suc n)), 512 * int (k + Suc n))"
    using Suc.IH [of "Suc k"] Suc.prems by (simp add: upt_conv_Cons del: upt_Suc)
  finally show ?case .
qed

text \<open>The sectors after \<open>n\<close> sectors from \<open>k\<close> on have been overwritten with the bytes \<open>buf\<close>.\<close>

definition overwritten :: "rdisks \<Rightarrow> rdisks \<Rightarrow> dev_t \<Rightarrow> nat \<Rightarrow> nat \<Rightarrow> u8 list \<Rightarrow> bool" where
  "overwritten w w' dev k n buf \<longleftrightarrow> rds_ok w' \<and> rd_info w' = rd_info w \<and>
     (\<forall>dev' s. rd_valid w dev' s \<longrightarrow> rd_sector w' dev' s =
        (if dev' = dev \<and> k \<le> unat s \<and> unat s < k + n then take 512 (drop (512 * (unat s - k)) buf)
         else rd_sector w dev' s))"

lemma rd_info_write: "rd_info (snd (blkdev_write blkdev_init dev s 1 bs w)) = rd_info w"
  by (simp add: blkdev_write_def blkdev_init_check rd_ops_def rd_write_def Let_def)

lemma write_sectors_rd:
  "rds_ok w \<Longrightarrow> rd_dev w dev \<Longrightarrow> k + n \<le> rd_count w dev \<Longrightarrow> length buf = 512 * n \<Longrightarrow>
   \<exists>w'. write_sectors blkdev_init dev w (512 * int k) (512 * int n) buf got =
     (Inr (got + 512 * int n), 512 * int (k + n), w') \<and> overwritten w w' dev k n buf"
proof (induction n arbitrary: k w buf got)
  case 0
  then show ?case by (subst write_sectors.simps) (auto simp: overwritten_def)
next
  case (Suc n)
  note prems = Suc.prems
  have v: "rd_valid w dev (of_nat k)" using prems by (intro rd_valid_nat) auto
  have k: "unat (of_nat k :: u32) = k"
    using prems(3) less_trans [OF _ unat_less_2_32, of k "rd_nr (rd_info w ! unat (MINOR dev))"]
    by (intro unat_of_nat_small) simp
  have b: "length (take 512 buf) = 512" using prems by simp
  define w1 where "w1 = snd (blkdev_write blkdev_init dev (of_nat k) 1 (take 512 buf) w)"
  have wr: "blkdev_write blkdev_init dev (of_nat k) 1 (take 512 buf) w = (Inr (), w1)"
    using rdev.wr_valid [OF prems(1) v b] by (simp add: w1_def prod_eq_iff)
  have w1: "rds_ok w1" "rd_info w1 = rd_info w" "rd_valid w1 = rd_valid w"
    using rdev.wr_inv [OF prems(1) b] rdev.wr_same_valid [OF prems(1) b] by (simp_all add: w1_def rd_info_write)
  have step: "write_sectors blkdev_init dev w (512 * int k) (512 * int (Suc n)) buf got =
      write_sectors blkdev_init dev w1 (512 * int (Suc k)) (512 * int n) (drop 512 buf) (got + 512)"
    by (subst write_sectors.simps) (simp add: sector_number wr algebra_simps)
  obtain w' where w': "write_sectors blkdev_init dev w1 (512 * int (Suc k)) (512 * int n) (drop 512 buf) (got + 512) =
      (Inr (got + 512 + 512 * int n), 512 * int (Suc k + n), w')" "overwritten w1 w' dev (Suc k) n (drop 512 buf)"
    using Suc.IH [of w1 "Suc k" "drop 512 buf" "got + 512"] prems w1 by (auto simp: rd_dev_def)
  have "overwritten w w' dev k (Suc n) buf"
    unfolding overwritten_def
  proof (intro conjI allI impI)
    show "rds_ok w'" "rd_info w' = rd_info w" using w'(2) w1 by (simp_all add: overwritten_def)
    fix dev' s assume s: "rd_valid w dev' s"
    have "rd_sector w1 dev' s = (if dev' = dev \<and> unat s = k then take 512 buf else rd_sector w dev' s)"
      using rdev.wr_sector [OF prems(1) v b s] k by (auto simp: w1_def word_unat_eq_iff)
    moreover have "rd_sector w' dev' s = (if dev' = dev \<and> Suc k \<le> unat s \<and> unat s < Suc k + n
        then take 512 (drop (512 * (unat s - Suc k)) (drop 512 buf)) else rd_sector w1 dev' s)"
      using w'(2) s w1 by (simp add: overwritten_def)
    moreover have "512 * (unat s - Suc k) + 512 = 512 * (unat s - k)" if "Suc k \<le> unat s"
      using that by simp
    ultimately show "rd_sector w' dev' s = (if dev' = dev \<and> k \<le> unat s \<and> unat s < k + Suc n
        then take 512 (drop (512 * (unat s - k)) buf) else rd_sector w dev' s)"
      by (auto simp: not_le)
  qed
  with step w'(1) show ?case by (auto simp: algebra_simps)
qed

lemma rd_get_info_rd: "rd_dev w dev \<Longrightarrow>
    blkdev_get_info blkdev_init dev junk w = Inr (512, rd_nr (rd_info w ! unat (MINOR dev)))"
  by (simp add: blkdev_get_info_def blkdev_init_check rd_ops_def rd_get_info_def rd_dev_def)

lemma sint_small: "unat (x::u32) < 2 ^ 31 \<Longrightarrow> sint x = int (unat x)"
proof -
  assume "unat x < 2 ^ 31"
  then have "uint x < 2 ^ 31" by (metis nat_uint_eq nat_less_numeral_power_cancel_iff)
  then have "signed_take_bit 31 (uint x) = uint x"
    by (intro signed_take_bit_int_eq_self) (simp_all add: order_trans [OF _ uint_nonnegative])
  then show ?thesis by (simp add: sint_uint)
qed

lemma rd_count_sint:
  assumes "rds_ok w" "rd_dev w dev"
  shows "sint (rd_nr (rd_info w ! unat (MINOR dev))) = int (rd_count w dev)"
proof -
  have "rd_count w dev * 512 \<le> 2 ^ 32"
    using assms by (auto simp: rds_ok_def rd_dev_def rd_size_def dest!: bspec [of _ _ "rd_info w ! unat (MINOR dev)"])
  then have "unat (rd_nr (rd_info w ! unat (MINOR dev))) < 2 ^ 31" by simp
  then show ?thesis
    by (rule sint_small)
qed

lemma sectors_of_buf:
  "length buf = 512 * n \<Longrightarrow> concat (map (\<lambda>i. take 512 (drop (512 * (i - k)) buf)) [k..<k + n]) = buf"
proof (induction n arbitrary: k buf)
  case (Suc n)
  have "map (\<lambda>i. take 512 (drop (512 * (i - k)) buf)) [Suc k..<Suc k + n] =
      map (\<lambda>i. take 512 (drop (512 * (i - Suc k)) (drop 512 buf))) [Suc k..<Suc k + n]"
    by (rule map_cong) (auto simp: algebra_simps)
  then have "concat (map (\<lambda>i. take 512 (drop (512 * (i - k)) buf)) [Suc k..<Suc k + n]) =
      concat (map (\<lambda>i. take 512 (drop (512 * (i - Suc k)) (drop 512 buf))) [Suc k..<Suc k + n])"
    by (rule arg_cong)
  also have "\<dots> = drop 512 buf"
    using Suc.prems by (intro Suc.IH) simp
  finally show ?case
    by (simp add: upt_conv_Cons del: upt_Suc)
qed simp


section \<open>Properties\<close>

definition rd_example :: rdisks where
  "rd_example = \<lparr>rd_info = [\<lparr>rd_start = 0x80400000, rd_end = 0x80401000, rd_nr = 8\<rparr>,
     \<lparr>rd_start = 0x80401000, rd_end = 0x80402000, rd_nr = 8\<rparr>], kmem = (\<lambda>_. 0)\<rparr>"

lemma rd_example_ok: "rds_ok rd_example" "rd_dev rd_example 0x101"
proof -
  show "rds_ok rd_example"
    by (simp add: rd_example_def rds_ok_def rd_apart_def rd_size_def All_less_Suc)
  show "rd_dev rd_example 0x101" by (simp add: rd_dev_def rd_example_def MAJOR_def MINOR_def)
qed

text \<open>Whole sectors written through the device file of a ram disk at any aligned position inside
  the disk are all written, come back when they are read, and no other sector of any
  disk changes.\<close>

theorem device_file_roundtrip:
  assumes "rds_ok w" "rd_dev w dev" "length buf = 512 * n" "k + n \<le> rd_count w dev" "0 < n"
  shows "\<exists>w'. blkdev_file_write blkdev_init junk dev w (512 * int k) buf (int (length buf)) =
        (Inr (int (length buf)), 512 * int k + int (length buf), w') \<and>
      blkdev_file_read blkdev_init junk dev w' (512 * int k) (int (length buf)) =
        (Inr buf, 512 * int k + int (length buf)) \<and>
      rds_ok w' \<and>
      (\<forall>dev' s. rd_valid w dev' s \<and> \<not> (dev' = dev \<and> k \<le> unat s \<and> unat s < k + n) \<longrightarrow>
        rd_sector w' dev' s = rd_sector w dev' s)"
proof -
  obtain w' where w': "write_sectors blkdev_init dev w (512 * int k) (512 * int n) buf 0 =
      (Inr (512 * int n), 512 * int (k + n), w')" "overwritten w w' dev k n buf"
    using write_sectors_rd [OF assms(1,2,4,3), of 0] by auto
  have ok: "rds_ok w'" "rd_dev w' dev" "rd_count w' dev = rd_count w dev"
    using w'(2) assms(2) by (auto simp: overwritten_def rd_dev_def)
  have le: "512 * int k + 512 * int n \<le> 512 * int (rd_count w dev)" using assms(4) by linarith
  have s512: "sint (512 :: u32) = 512" by simp
  have 1: "blkdev_file_write blkdev_init junk dev w (512 * int k) buf (int (length buf)) =
      (Inr (int (length buf)), 512 * int k + int (length buf), w')"
    using w'(1) le assms(3)
    by (simp add: blkdev_file_write_def rd_get_info_rd [OF assms(2)] rd_count_sint [OF assms(1,2)] s512)
  have "rd_sectors w' dev k n = concat (map (\<lambda>i. take 512 (drop (512 * (i - k)) buf)) [k..<k + n])"
  proof (rule arg_cong [of _ _ concat], rule map_cong [OF refl])
    fix i assume "i \<in> set [k..<k + n]"
    then have i: "k \<le> i" "i < k + n" "i < rd_count w dev" using assms(4) by auto
    then have "unat (of_nat i :: u32) = i"
      using less_trans [OF _ unat_less_2_32, of i "rd_nr (rd_info w ! unat (MINOR dev))"] by (simp add: unat_of_nat_small)
    with i w'(2) rd_valid_nat [OF assms(2) i(3)]
    show "rd_sector w' dev (of_nat i) = take 512 (drop (512 * (i - k)) buf)"
      by (simp add: overwritten_def)
  qed
  then have 2: "rd_sectors w' dev k n = buf" by (simp only: sectors_of_buf [OF assms(3)])
  have "min (512 * int n) (512 * int (rd_count w' dev) - 512 * int k) = 512 * int n"
    using le ok(3) by simp
  then have 3: "blkdev_file_read blkdev_init junk dev w' (512 * int k) (int (length buf)) =
      (Inr buf, 512 * int k + int (length buf))"
    using read_sectors_rd [OF ok(1,2), of k n "[]"] 2 ok(3) assms(3,4,5)
    by (simp add: blkdev_file_read_def rd_get_info_rd [OF ok(2)] rd_count_sint [OF ok(1,2)] s512 not_le del: upt_Suc)
  show ?thesis
    using 1 3 ok(1) w'(2) by (auto simp: overwritten_def)
qed

theorem device_file_roundtrip_witness:
  "\<exists>w'. fst (blkdev_file_write blkdev_init (0, 0) 0x101 rd_example 1024 (replicate 512 7) 512) = Inr 512 \<and>
     blkdev_file_read blkdev_init (0, 0) 0x101 w' 1024 512 = (Inr (replicate 512 7), 1536)"
proof -
  have "2 + 1 \<le> rd_count rd_example 0x101" by (simp add: rd_example_def MINOR_def)
  from device_file_roundtrip [OF rd_example_ok, of "replicate 512 7" 1 2 "(0, 0)", OF _ this]
  show ?thesis by auto
qed

text \<open>The disks found in a module follow each other from \<open>a\<close> to \<open>b\<close>.\<close>

fun rd_chain :: "u32 \<Rightarrow> rd list \<Rightarrow> u32 \<Rightarrow> bool" where
  "rd_chain a [] b \<longleftrightarrow> a = b"
| "rd_chain a (d # ds) b \<longleftrightarrow> rd_start d = a \<and> PAGE_ALIGN a = a \<and> rd_end d = a + rd_nr d * 512 \<and> rd_chain (rd_end d) ds b"

lemma rd_chain_append: "rd_chain a (ds @ es) c \<longleftrightarrow> (\<exists>b. rd_chain a ds b \<and> rd_chain b es c)"
  by (induction ds arbitrary: a) auto


definition rd_image :: "u32 \<Rightarrow> u8" where
  "rd_image = mem_write (\<lambda>_. 0) 0x80400000
     (le_bytes 4 (512 :: u32) @ le_bytes 4 (0 :: u32) @ le_bytes 4 (8 :: u32) @ le_bytes 4 (0 :: u32) @ le_bytes 4 MARIO_MAGIC)"


end
