(* ===== verification/Lru.thy ===== *)
theory Lru
  imports Prelude
begin

text \<open>
  The inode cache (\<^verbatim>\<open>src/src/fs/inode.c\<close>) and the buffer cache (\<^verbatim>\<open>src/src/fs/block/buffer.c\<close>) keep
  their objects in a list \<^verbatim>\<open>lru\<close> with the free objects first: an object is taken from the head,
  one that gets a user goes to the tail, one that loses its last user becomes the last free one.
  Both share the list operations of this theory and the interface at its end.
\<close>

section \<open>Model\<close>

text \<open>\<^verbatim>\<open>list_del(x); list_add_tail(x, &lru)\<close>.\<close>

definition lru_touch :: "nat \<Rightarrow> nat list \<Rightarrow> nat list" where
  "lru_touch x xs = remove1 x xs @ [x]"

text \<open>\<^verbatim>\<open>into_lru_list\<close>: the object goes before the first one in use, or to the end.\<close>

definition into_lru_list :: "(nat \<Rightarrow> nat) \<Rightarrow> nat \<Rightarrow> nat list \<Rightarrow> nat list" where
  "into_lru_list cnt x xs =
     remove1 x (takeWhile (\<lambda>y. cnt y = 0) xs) @ [x] @ remove1 x (dropWhile (\<lambda>y. cnt y = 0) xs)"

section \<open>Free objects come first\<close>

fun free_first :: "(nat \<Rightarrow> nat) \<Rightarrow> nat list \<Rightarrow> bool" where
  "free_first cnt [] = True"
| "free_first cnt (x # xs) \<longleftrightarrow> (if cnt x = 0 then free_first cnt xs else \<forall>y \<in> set xs. cnt y \<noteq> 0)"

lemma free_first_append:
  "free_first cnt (xs @ ys) \<longleftrightarrow>
     free_first cnt xs \<and> free_first cnt ys \<and> ((\<exists>x \<in> set xs. cnt x \<noteq> 0) \<longrightarrow> (\<forall>y \<in> set ys. cnt y \<noteq> 0))"
proof (induction xs)
  case (Cons x xs)
  have "free_first cnt zs" if "\<forall>y \<in> set zs. cnt y \<noteq> 0" for zs
    using that by (induction zs) auto
  with Cons show ?case by auto
qed simp

lemma free_first_split:
  "free_first cnt xs \<Longrightarrow> y \<in> set (dropWhile (\<lambda>y. cnt y = 0) xs) \<Longrightarrow> cnt y \<noteq> 0"
  by (induction xs) (auto split: if_splits)

lemma free_first_used: "(\<forall>y \<in> set xs. cnt y \<noteq> 0) \<Longrightarrow> free_first cnt xs"
  by (induction xs) auto

lemma free_first_free: "(\<forall>y \<in> set xs. cnt y = 0) \<Longrightarrow> free_first cnt xs"
  by (induction xs) auto

lemma free_first_cong: "(\<And>y. y \<in> set xs \<Longrightarrow> cnt y = 0 \<longleftrightarrow> cnt' y = 0) \<Longrightarrow> free_first cnt xs = free_first cnt' xs"
  by (induction xs) auto

lemma free_first_remove1: "free_first cnt xs \<Longrightarrow> free_first cnt (remove1 x xs)"
proof (induction xs)
  case (Cons y ys)
  then show ?case
    using set_remove1_subset [of x ys] by (auto intro: free_first_used split: if_splits)
qed simp

lemma free_first_hd: "free_first cnt xs \<Longrightarrow> xs \<noteq> [] \<Longrightarrow> cnt (hd xs) \<noteq> 0 \<Longrightarrow> y \<in> set xs \<Longrightarrow> cnt y \<noteq> 0"
  by (cases xs) (auto split: if_splits)

lemma remove1_append_distinct:
  assumes "distinct (xs @ ys)"
  shows "remove1 x (xs @ ys) = remove1 x xs @ remove1 x ys"
proof (cases "x \<in> set xs")
  case True
  with assms have "x \<notin> set ys" by auto
  with True show ?thesis by (simp add: remove1_append remove1_idem)
qed (simp add: remove1_append remove1_idem)

text \<open>\<open>lru_wf cnt n xs\<close>: the list holds the objects below \<open>n\<close>, each once, the free ones first.\<close>

definition lru_wf :: "(nat \<Rightarrow> nat) \<Rightarrow> nat \<Rightarrow> nat list \<Rightarrow> bool" where
  "lru_wf cnt n xs \<longleftrightarrow> distinct xs \<and> set xs = {..<n} \<and> free_first cnt xs"

lemma lru_wf_same: "(\<And>y. y < n \<Longrightarrow> cnt' y = 0 \<longleftrightarrow> cnt y = 0) \<Longrightarrow> lru_wf cnt n xs \<Longrightarrow> lru_wf cnt' n xs"
  unfolding lru_wf_def using free_first_cong [of xs cnt' cnt] by auto

lemma lru_touch_wf:
  assumes "lru_wf cnt n xs" "x < n" "cnt' x \<noteq> 0" "\<And>y. y < n \<Longrightarrow> y \<noteq> x \<Longrightarrow> cnt' y = 0 \<longleftrightarrow> cnt y = 0"
  shows "lru_wf cnt' n (lru_touch x xs)"
proof -
  have "free_first cnt' (remove1 x xs)"
    using free_first_cong [of "remove1 x xs" cnt' cnt] free_first_remove1 [of cnt xs x] assms
    by (auto simp: lru_wf_def)
  then show ?thesis
    using assms(1,2,3) by (auto simp: lru_wf_def lru_touch_def free_first_append)
qed

lemma into_lru_list_wf:
  assumes "lru_wf cnt n xs" "x < n" "cnt' x = 0" "\<And>y. y < n \<Longrightarrow> y \<noteq> x \<Longrightarrow> cnt' y = 0 \<longleftrightarrow> cnt y = 0"
  shows "lru_wf cnt' n (into_lru_list cnt' x xs)"
proof -
  let ?P = "\<lambda>y. cnt' y = 0"
  let ?ys = "takeWhile ?P xs" and ?zs = "dropWhile ?P xs"
  have xs: "xs = ?ys @ ?zs" by simp
  have d: "distinct (?ys @ ?zs)" "set (?ys @ ?zs) = {..<n}"
    using assms(1) by (simp_all add: lru_wf_def)
  have ys: "cnt' y = 0" if "y \<in> set ?ys" for y using that by (auto dest: set_takeWhileD)
  have zs: "cnt' y \<noteq> 0" if "y \<in> set (remove1 x ?zs)" for y
  proof -
    have y: "y \<noteq> x" "y \<in> set ?zs" "y < n"
      using that d by (auto simp del: takeWhile_dropWhile_id)
    have "free_first cnt (remove1 x xs)"
      using assms(1) by (intro free_first_remove1) (simp add: lru_wf_def)
    then have "free_first cnt' (remove1 x xs)"
      using free_first_cong [of "remove1 x xs" cnt' cnt] assms(1,4) by (auto simp: lru_wf_def)
    moreover have "?zs \<noteq> []" using y(2) by (metis empty_iff list.set(1))
    then have h: "cnt' (hd ?zs) \<noteq> 0" "hd ?zs \<noteq> x"
      using hd_dropWhile [of ?P xs] assms(3) by auto
    have "remove1 x (?ys @ ?zs) = remove1 x ?ys @ remove1 x ?zs"
      by (rule remove1_append_distinct [OF d(1)])
    then have "remove1 x xs = remove1 x ?ys @ remove1 x ?zs" by simp
    ultimately have "free_first cnt' (remove1 x ?zs)"
      by (simp add: free_first_append)
    moreover have "hd (remove1 x ?zs) = hd ?zs" "remove1 x ?zs \<noteq> []"
      using h(2) \<open>?zs \<noteq> []\<close> by (cases ?zs; simp)+
    ultimately show ?thesis
      using that h(1) free_first_hd [of cnt' "remove1 x ?zs" y] by simp
  qed
  have "free_first cnt' (remove1 x ?ys @ [x])"
    using ys assms(3) set_remove1_subset [of x ?ys] by (intro free_first_free) auto
  moreover have "\<not> (\<exists>y \<in> set (remove1 x ?ys @ [x]). cnt' y \<noteq> 0)"
    using ys assms(3) set_remove1_subset [of x ?ys] by auto
  moreover have "free_first cnt' (remove1 x ?zs)"
    using zs by (intro free_first_used) blast
  ultimately have "free_first cnt' ((remove1 x ?ys @ [x]) @ remove1 x ?zs)"
    by (subst free_first_append) blast
  then have "free_first cnt' (into_lru_list cnt' x xs)"
    by (simp add: into_lru_list_def)
  moreover have "distinct (into_lru_list cnt' x xs)" "set (into_lru_list cnt' x xs) = {..<n}"
    using d assms(2) by (auto simp: into_lru_list_def simp del: takeWhile_dropWhile_id)
  ultimately show ?thesis by (simp add: lru_wf_def)
qed

text \<open>The object at the head is free unless all are in use.\<close>

lemma lru_wf_hd:
  assumes "lru_wf cnt n xs" "0 < n"
  shows "hd xs < n" "cnt (hd xs) \<noteq> 0 \<Longrightarrow> y < n \<Longrightarrow> cnt y \<noteq> 0"
proof -
  have ne: "xs \<noteq> []" using assms unfolding lru_wf_def by (metis empty_iff lessThan_iff list.set(1))
  have "hd xs \<in> set xs" by (rule hd_in_set [OF ne])
  then show "hd xs < n" using assms(1) by (simp add: lru_wf_def)
  show "cnt (hd xs) \<noteq> 0 \<Longrightarrow> y < n \<Longrightarrow> cnt y \<noteq> 0"
    using assms(1) free_first_hd [OF _ ne, of cnt y] by (simp add: lru_wf_def)
qed

lemma lru_wf_init: "(\<And>y. y < n \<Longrightarrow> cnt y = 0) \<Longrightarrow> lru_wf cnt n [0..<n]"
  by (auto simp: lru_wf_def intro: free_first_free)


section \<open>Linear search\<close>

lemma find_uptD: "find P [0..<n] = Some i \<Longrightarrow> i < n \<and> P i"
  by (auto simp: find_Some_iff)

lemma find_upt_NoneD: "find P [0..<n] = None \<Longrightarrow> i < n \<Longrightarrow> \<not> P i"
  by (auto simp: find_None_iff)

lemma find_upt_unique:
  assumes "i < n" "P i" "\<And>j. j < n \<Longrightarrow> P j \<Longrightarrow> j = i"
  shows "find P [0..<n] = Some i"
proof (cases "find P [0..<n]")
  case None
  with assms(1,2) show ?thesis by (auto dest: find_upt_NoneD)
next
  case (Some j)
  with assms(3) find_uptD [OF Some] show ?thesis by simp
qed

lemma find_upt_none: "(\<And>j. j < n \<Longrightarrow> \<not> P j) \<Longrightarrow> find P [0..<n] = None"
  by (auto simp: find_None_iff)


section \<open>Caches of shared objects\<close>

text \<open>
  What the clients of both caches rely on: \<open>get k\<close> returns an object for the key \<open>k\<close> and a reference
  to it, \<open>put i\<close> gives a reference back. The inductive predicate describes clients that get and put
  in any order, with the references they hold.
\<close>

inductive cache_client :: "('k \<Rightarrow> 'c \<Rightarrow> (nat \<times> 'c) option) \<Rightarrow> (nat \<Rightarrow> 'c \<Rightarrow> 'c option) \<Rightarrow> 'c \<Rightarrow> 'c \<Rightarrow> (nat \<times> 'k) list \<Rightarrow> bool"
  for get put c0 where
  client_start: "cache_client get put c0 c0 []"
| client_get: "cache_client get put c0 c held \<Longrightarrow> get k c = Some (i, c') \<Longrightarrow> cache_client get put c0 c' ((i, k) # held)"
| client_put: "cache_client get put c0 c held \<Longrightarrow> (i, k) \<in> set held \<Longrightarrow> put i c = Some c' \<Longrightarrow>
    cache_client get put c0 c' (remove1 (i, k) held)"

definition refs :: "(nat \<times> 'k) list \<Rightarrow> nat \<Rightarrow> nat" where
  "refs held i = length (filter (\<lambda>h. fst h = i) held)"

lemma refs_Nil [simp]: "refs [] i = 0"
  by (simp add: refs_def)

lemma refs_Cons [simp]: "refs (h # held) i = (if fst h = i then 1 else 0) + refs held i"
  by (simp add: refs_def)

lemma refs_pos: "(i, k) \<in> set held \<Longrightarrow> 0 < refs held i"
  by (force simp: refs_def filter_empty_conv)

lemma refs_remove1: "(i, k) \<in> set held \<Longrightarrow> refs (remove1 (i, k) held) j = refs held j - (if j = i then 1 else 0)"
proof (induction held)
  case (Cons h held)
  then show ?case using refs_pos [of i k held] by auto
qed simp

locale object_cache =
  fixes inv :: "'c \<Rightarrow> bool"
    and cnt :: "'c \<Rightarrow> nat \<Rightarrow> nat"
    and key :: "'c \<Rightarrow> nat \<Rightarrow> 'k"
    and good :: "'k \<Rightarrow> bool"
    and get :: "'k \<Rightarrow> 'c \<Rightarrow> (nat \<times> 'c) option"
    and put :: "nat \<Rightarrow> 'c \<Rightarrow> 'c option"
  assumes get_inv: "inv c \<Longrightarrow> get k c = Some (i, c') \<Longrightarrow> inv c'"
    and get_key: "inv c \<Longrightarrow> get k c = Some (i, c') \<Longrightarrow> key c' i = k"
    and get_cnt: "inv c \<Longrightarrow> get k c = Some (i, c') \<Longrightarrow> cnt c' j = cnt c j + (if j = i then 1 else 0)"
    and get_stable: "inv c \<Longrightarrow> get k c = Some (i, c') \<Longrightarrow> cnt c j \<noteq> 0 \<Longrightarrow> key c' j = key c j"
    and put_works: "inv c \<Longrightarrow> cnt c i \<noteq> 0 \<Longrightarrow> \<exists>c'. put i c = Some c'"
    and put_inv: "inv c \<Longrightarrow> cnt c i \<noteq> 0 \<Longrightarrow> put i c = Some c' \<Longrightarrow> inv c'"
    and put_cnt: "inv c \<Longrightarrow> cnt c i \<noteq> 0 \<Longrightarrow> put i c = Some c' \<Longrightarrow> cnt c' j = cnt c j - (if j = i then 1 else 0)"
    and put_stable: "inv c \<Longrightarrow> cnt c i \<noteq> 0 \<Longrightarrow> put i c = Some c' \<Longrightarrow> cnt c j \<noteq> 0 \<Longrightarrow> key c' j = key c j"
    and unique: "inv c \<Longrightarrow> cnt c i \<noteq> 0 \<Longrightarrow> cnt c j \<noteq> 0 \<Longrightarrow> key c i = key c j \<Longrightarrow> good (key c i) \<Longrightarrow> i = j"
begin

lemma client_inv:
  assumes "cache_client get put c0 c held" "inv c0" "\<forall>i. cnt c0 i = 0"
  shows "inv c \<and> (\<forall>i. cnt c i = refs held i) \<and> (\<forall>(i, k) \<in> set held. key c i = k)"
  using assms
proof induction
  case client_start
  then show ?case by simp
next
  case (client_get c held k i c')
  then have IH: "inv c" "\<forall>i. cnt c i = refs held i" "\<forall>(i, k) \<in> set held. key c i = k" by auto
  have "key c' j = k'" if "(j, k') \<in> set held" for j k'
    using get_stable [OF IH(1) client_get.hyps(2), of j] IH(2,3) refs_pos [OF that] that by auto
  then show ?case
    using get_inv [OF IH(1) client_get.hyps(2)] get_key [OF IH(1) client_get.hyps(2)]
      get_cnt [OF IH(1) client_get.hyps(2)] IH(2) by auto
next
  case (client_put c held i k c')
  then have IH: "inv c" "\<forall>i. cnt c i = refs held i" "\<forall>(i, k) \<in> set held. key c i = k" by auto
  have pos: "cnt c i \<noteq> 0" using IH(2) refs_pos [OF client_put.hyps(2)] by simp
  have "key c' j = k'" if "(j, k') \<in> set (remove1 (i, k) held)" for j k'
  proof -
    have m: "(j, k') \<in> set held" using that set_remove1_subset [of "(i, k)" held] by blast
    then show ?thesis
      using put_stable [OF IH(1) pos client_put.hyps(3), of j] IH(2,3) refs_pos [OF m] by auto
  qed
  then show ?case
    using put_inv [OF IH(1) pos client_put.hyps(3)] put_cnt [OF IH(1) pos client_put.hyps(3)]
      IH(2) refs_remove1 [OF client_put.hyps(2)] by auto
qed

text \<open>An object keeps its identity as long as somebody holds it, two holders of a key hold the same
  object, and every reference can be given back.\<close>

lemma clients_safe:
  assumes "cache_client get put c0 c held" "inv c0" "\<forall>i. cnt c0 i = 0" "(i, k) \<in> set held"
  shows "key c i = k" "(j, k) \<in> set held \<Longrightarrow> good k \<Longrightarrow> j = i" "\<exists>c'. put i c = Some c'"
proof -
  note I = client_inv [OF assms(1,2,3)]
  have pos: "cnt c i \<noteq> 0" using I refs_pos [OF assms(4)] by simp
  show "key c i = k" using I assms(4) by auto
  show "\<exists>c'. put i c = Some c'" using put_works I pos by blast
  show "j = i" if j: "(j, k) \<in> set held" and good: "good k"
  proof (rule unique [of c j i])
    show "inv c" "cnt c i \<noteq> 0" "cnt c j \<noteq> 0" using I pos refs_pos [OF j] by auto
    have K: "key c i = k" if "(i, k) \<in> set held" for i k using I that by auto
    show "key c j = key c i" "good (key c j)" using K [OF j] K [OF assms(4)] good by simp_all
  qed
qed

end

end
