(* ===== verification/Buffer_Cache.thy ===== *)
theory Buffer_Cache
  imports Blkdev Lru
begin

text \<open>
  The buffer cache of \<^verbatim>\<open>src/src/fs/block/buffer.c\<close>: 128 buffers of one sector each, found by device
  and sector, reused in the order of the list \<^verbatim>\<open>lru\<close>, written back when their last user
  releases them. A result \<^term>\<open>None\<close> means that the caller sleeps because every buffer is in
  use. The semaphore of a buffer, which makes its users wait for each other, is not
  part of the state. Reference counts are natural numbers: there are never \<open>2\<^sup>3\<^sup>2\<close> users.
\<close>

section \<open>Model\<close>

record buffer_head =
  b_dev :: dev_t
  b_sector :: u32
  b_count :: nat
  b_dirty :: bool
  b_up2date :: bool
  b_data :: "u8 list"

record 'w bcache =
  bufs :: "nat \<Rightarrow> buffer_head"
  b_lru :: "nat list"
  bdisk :: 'w

abbreviation NR_BH :: nat where "NR_BH \<equiv> 128"

definition upd_buf :: "nat \<Rightarrow> (buffer_head \<Rightarrow> buffer_head) \<Rightarrow> 'w bcache \<Rightarrow> 'w bcache" where
  "upd_buf i f c = c\<lparr>bufs := (bufs c)(i := f (bufs c i))\<rparr>"

text \<open>\<open>mem\<close> is the memory that \<^verbatim>\<open>pages_alloc\<close> returned, cut into the data of the buffers.\<close>

definition buffer_init :: "u8 list option \<Rightarrow> 'w bcache \<Rightarrow> 'w bcache option" where
  "buffer_init mem c =
     (case mem of
        None \<Rightarrow> None
      | Some m \<Rightarrow> Some (c\<lparr>bufs := (\<lambda>i. (bufs c i)\<lparr>b_dev := 0, b_dirty := False, b_up2date := False, b_count := 0,
            b_data := take 512 (drop (i * 512) m)\<rparr>),
          b_lru := [0..<NR_BH]\<rparr>))"

definition find_buffer :: "dev_t \<Rightarrow> u32 \<Rightarrow> 'w bcache \<Rightarrow> nat option \<times> 'w bcache" where
  "find_buffer dev sec c =
     (case find (\<lambda>i. b_dev (bufs c i) = dev \<and> b_sector (bufs c i) = sec) [0..<NR_BH] of
        None \<Rightarrow> (None, c)
      | Some i \<Rightarrow> (Some i, upd_buf i (\<lambda>b. b\<lparr>b_count := b_count b + 1\<rparr>) c))"

definition get_buffer :: "'w blkdevs \<Rightarrow> dev_t \<Rightarrow> u32 \<Rightarrow> 'w bcache \<Rightarrow> (nat option \<times> 'w bcache) option" where
  "get_buffer devs dev sec c =
     (case get_sector_size devs dev (bdisk c) of
        Inl e \<Rightarrow> Some (None, c)
      | Inr sz \<Rightarrow>
          if sz \<noteq> 512 then Some (None, c)
          else case find_buffer dev sec c of
                 (Some i, c) \<Rightarrow> Some (Some i, c\<lparr>b_lru := lru_touch i (b_lru c)\<rparr>)
               | (None, c) \<Rightarrow>
                   let i = hd (b_lru c)
                   in if b_count (bufs c i) \<noteq> 0 then None
                      else
                        let c = upd_buf i (\<lambda>b. b\<lparr>b_count := b_count b + 1, b_dev := dev, b_sector := sec,
                                  b_dirty := False, b_up2date := False\<rparr>) c
                        in Some (Some i, c\<lparr>b_lru := lru_touch i (b_lru c)\<rparr>))"

definition bsync :: "'w blkdevs \<Rightarrow> nat \<Rightarrow> 'w bcache \<Rightarrow> (errno + unit) \<times> 'w bcache" where
  "bsync devs i c =
     (if b_up2date (bufs c i) \<and> b_dirty (bufs c i)
      then let c = upd_buf i (\<lambda>b. b\<lparr>b_dirty := False\<rparr>) c
           in case blkdev_write devs (b_dev (bufs c i)) (b_sector (bufs c i)) 1 (b_data (bufs c i)) (bdisk c) of
                (r, w) \<Rightarrow> (r, c\<lparr>bdisk := w\<rparr>)
      else (Inr (), c))"

definition brelse :: "'w blkdevs \<Rightarrow> nat \<Rightarrow> 'w bcache \<Rightarrow> (errno + unit) \<times> 'w bcache" where
  "brelse devs i c =
     (let c = upd_buf i (\<lambda>b. b\<lparr>b_count := b_count b - 1\<rparr>) c
      in if b_count (bufs c i) = 0
         then let c = upd_buf i (\<lambda>b. b\<lparr>b_count := 1\<rparr>) c
              in case bsync devs i c of
                   (r, c) \<Rightarrow>
                     let c = upd_buf i (\<lambda>b. b\<lparr>b_count := b_count b - 1\<rparr>) c
                     in (r, if b_count (bufs c i) = 0
                            then c\<lparr>b_lru := into_lru_list (\<lambda>j. b_count (bufs c j)) i (b_lru c)\<rparr> else c)
         else (Inr (), c))"

definition bread :: "'w blkdevs \<Rightarrow> dev_t \<Rightarrow> u32 \<Rightarrow> 'w bcache \<Rightarrow> (nat option \<times> 'w bcache) option" where
  "bread devs dev sec c =
     (case get_buffer devs dev sec c of
        None \<Rightarrow> None
      | Some (None, c) \<Rightarrow> Some (None, c)
      | Some (Some i, c) \<Rightarrow>
          if b_up2date (bufs c i) then Some (Some i, c)
          else case blkdev_read devs (b_dev (bufs c i)) (b_sector (bufs c i)) 1 (b_data (bufs c i)) (bdisk c) of
                 Inl e \<Rightarrow> Some (None, snd (brelse devs i c))
               | Inr bs \<Rightarrow> Some (Some i, upd_buf i (\<lambda>b. b\<lparr>b_data := bs, b_up2date := True, b_dirty := False\<rparr>) c))"

text \<open>What a file system does with a buffer that it holds: change its bytes and \<^verbatim>\<open>set_dirty\<close>.\<close>

definition buffer_write :: "nat \<Rightarrow> u8 list \<Rightarrow> 'w bcache \<Rightarrow> 'w bcache" where
  "buffer_write i bs = upd_buf i (\<lambda>b. b\<lparr>b_data := bs, b_dirty := True\<rparr>)"

section \<open>The cache implements the disk\<close>

text \<open>A block layer whose drivers are those of a block device.\<close>

locale block_layer = block_device winv valid sector
    "\<lambda>d s w. blkdev_read devs d s 1 (replicate 512 0) w" "\<lambda>d s bs w. blkdev_write devs d s 1 bs w"
  for winv :: "'w \<Rightarrow> bool" and valid sector and devs :: "'w blkdevs" +
  assumes rd_buffer: "blkdev_read devs d s 1 buf w = blkdev_read devs d s 1 (replicate 512 0) w"
    and no_device: "get_sector_size devs 0 w \<noteq> Inr 512"
    and sector_size: "valid w d s \<Longrightarrow> get_sector_size devs d w = Inr 512"

text \<open>The cache is well formed: the list is, no sector is in two buffers, and a buffer with valid data that is
  clean agrees with the disk; a dirty buffer is in use.\<close>

definition cache_ok :: "('w \<Rightarrow> bool) \<Rightarrow> ('w \<Rightarrow> dev_t \<Rightarrow> u32 \<Rightarrow> bool) \<Rightarrow> ('w \<Rightarrow> dev_t \<Rightarrow> u32 \<Rightarrow> u8 list) \<Rightarrow> 'w bcache \<Rightarrow> bool" where
  "cache_ok winv valid sector c \<longleftrightarrow> winv (bdisk c) \<and> lru_wf (\<lambda>i. b_count (bufs c i)) NR_BH (b_lru c) \<and>
     (\<forall>i < NR_BH. \<forall>j < NR_BH. b_dev (bufs c i) = b_dev (bufs c j) \<and> b_sector (bufs c i) = b_sector (bufs c j) \<and>
        b_dev (bufs c i) \<noteq> 0 \<longrightarrow> i = j) \<and>
     (\<forall>i < NR_BH. b_up2date (bufs c i) \<longrightarrow> b_dev (bufs c i) \<noteq> 0 \<and> valid (bdisk c) (b_dev (bufs c i)) (b_sector (bufs c i)) \<and>
        length (b_data (bufs c i)) = 512) \<and>
     (\<forall>i < NR_BH. b_up2date (bufs c i) \<and> \<not> b_dirty (bufs c i) \<longrightarrow>
        b_data (bufs c i) = sector (bdisk c) (b_dev (bufs c i)) (b_sector (bufs c i))) \<and>
     (\<forall>i < NR_BH. b_dirty (bufs c i) \<longrightarrow> b_up2date (bufs c i) \<and> b_count (bufs c i) \<noteq> 0)"

text \<open>The buffer that holds a sector, and the content of a sector as the file systems see it.\<close>

definition holds :: "'w bcache \<Rightarrow> dev_t \<Rightarrow> u32 \<Rightarrow> nat \<Rightarrow> bool" where
  "holds c d s i \<longleftrightarrow> b_dev (bufs c i) = d \<and> b_sector (bufs c i) = s \<and> b_up2date (bufs c i)"

definition cached :: "('w \<Rightarrow> dev_t \<Rightarrow> u32 \<Rightarrow> u8 list) \<Rightarrow> 'w bcache \<Rightarrow> dev_t \<Rightarrow> u32 \<Rightarrow> u8 list" where
  "cached sector c d s =
     (case find (holds c d s) [0..<NR_BH] of Some i \<Rightarrow> b_data (bufs c i) | None \<Rightarrow> sector (bdisk c) d s)"


text \<open>A client that reads or writes whole sectors, one after the other, through the cache, and
  the same on an array of sectors.\<close>

datatype tx = TxRead dev_t u32 | TxWrite dev_t u32 "u8 list"

fun cache_tx :: "'w blkdevs \<Rightarrow> tx \<Rightarrow> 'w bcache \<Rightarrow> u8 list option \<times> 'w bcache" where
  "cache_tx devs (TxRead d s) c =
     (case bread devs d s c of
        Some (Some i, c) \<Rightarrow> (Some (b_data (bufs c i)), snd (brelse devs i c))
      | Some (None, c) \<Rightarrow> (None, c)
      | None \<Rightarrow> (None, c))"
| "cache_tx devs (TxWrite d s bs) c =
     (case bread devs d s c of
        Some (Some i, c) \<Rightarrow> (Some [], snd (brelse devs i (buffer_write i bs c)))
      | Some (None, c) \<Rightarrow> (None, c)
      | None \<Rightarrow> (None, c))"

fun cache_run :: "'w blkdevs \<Rightarrow> tx list \<Rightarrow> 'w bcache \<Rightarrow> u8 list option list \<times> 'w bcache" where
  "cache_run devs [] c = ([], c)"
| "cache_run devs (t # ts) c =
     (case cache_tx devs t c of (r, c) \<Rightarrow> case cache_run devs ts c of (rs, c) \<Rightarrow> (r # rs, c))"

type_synonym sectors = "dev_t \<Rightarrow> u32 \<Rightarrow> u8 list"

fun disk_run :: "tx list \<Rightarrow> sectors \<Rightarrow> u8 list option list \<times> sectors" where
  "disk_run [] f = ([], f)"
| "disk_run (TxRead d s # ts) f = (case disk_run ts f of (rs, f') \<Rightarrow> (Some (f d s) # rs, f'))"
| "disk_run (TxWrite d s bs # ts) f =
     (case disk_run ts (\<lambda>d' s'. if d' = d \<and> s' = s then bs else f d' s') of (rs, f') \<Rightarrow> (Some [] # rs, f'))"

fun tx_ok :: "(dev_t \<Rightarrow> u32 \<Rightarrow> bool) \<Rightarrow> tx \<Rightarrow> bool" where
  "tx_ok v (TxRead d s) \<longleftrightarrow> v d s"
| "tx_ok v (TxWrite d s bs) \<longleftrightarrow> v d s \<and> length bs = 512"

lemma bufs_upd [simp]: "bufs (upd_buf i f c) j = (if j = i then f (bufs c i) else bufs c j)"
  by (simp add: upd_buf_def)

lemma upd_buf_frame [simp]: "b_lru (upd_buf i f c) = b_lru c" "bdisk (upd_buf i f c) = bdisk c"
  by (simp_all add: upd_buf_def)

lemma cache_okD:
  assumes "cache_ok winv valid sector c"
  shows "winv (bdisk c)" "lru_wf (\<lambda>i. b_count (bufs c i)) NR_BH (b_lru c)"
    "\<And>i j. i < NR_BH \<Longrightarrow> j < NR_BH \<Longrightarrow> b_dev (bufs c i) = b_dev (bufs c j) \<Longrightarrow> b_sector (bufs c i) = b_sector (bufs c j) \<Longrightarrow>
       b_dev (bufs c i) \<noteq> 0 \<Longrightarrow> i = j"
    "\<And>i. i < NR_BH \<Longrightarrow> b_up2date (bufs c i) \<Longrightarrow> b_dev (bufs c i) \<noteq> 0"
    "\<And>i. i < NR_BH \<Longrightarrow> b_up2date (bufs c i) \<Longrightarrow> valid (bdisk c) (b_dev (bufs c i)) (b_sector (bufs c i))"
    "\<And>i. i < NR_BH \<Longrightarrow> b_up2date (bufs c i) \<Longrightarrow> length (b_data (bufs c i)) = 512"
    "\<And>i. i < NR_BH \<Longrightarrow> b_up2date (bufs c i) \<Longrightarrow> \<not> b_dirty (bufs c i) \<Longrightarrow>
       b_data (bufs c i) = sector (bdisk c) (b_dev (bufs c i)) (b_sector (bufs c i))"
    "\<And>i. i < NR_BH \<Longrightarrow> b_dirty (bufs c i) \<Longrightarrow> b_up2date (bufs c i) \<and> b_count (bufs c i) \<noteq> 0"
  using assms unfolding cache_ok_def by blast+

lemma cache_okI:
  assumes "winv (bdisk c)" "lru_wf (\<lambda>i. b_count (bufs c i)) NR_BH (b_lru c)"
    "\<And>i j. i < NR_BH \<Longrightarrow> j < NR_BH \<Longrightarrow> b_dev (bufs c i) = b_dev (bufs c j) \<Longrightarrow> b_sector (bufs c i) = b_sector (bufs c j) \<Longrightarrow>
       b_dev (bufs c i) \<noteq> 0 \<Longrightarrow> i = j"
    "\<And>i. i < NR_BH \<Longrightarrow> b_up2date (bufs c i) \<Longrightarrow> b_dev (bufs c i) \<noteq> 0"
    "\<And>i. i < NR_BH \<Longrightarrow> b_up2date (bufs c i) \<Longrightarrow> valid (bdisk c) (b_dev (bufs c i)) (b_sector (bufs c i))"
    "\<And>i. i < NR_BH \<Longrightarrow> b_up2date (bufs c i) \<Longrightarrow> length (b_data (bufs c i)) = 512"
    "\<And>i. i < NR_BH \<Longrightarrow> b_up2date (bufs c i) \<Longrightarrow> \<not> b_dirty (bufs c i) \<Longrightarrow>
       b_data (bufs c i) = sector (bdisk c) (b_dev (bufs c i)) (b_sector (bufs c i))"
    "\<And>i. i < NR_BH \<Longrightarrow> b_dirty (bufs c i) \<Longrightarrow> b_up2date (bufs c i) \<and> b_count (bufs c i) \<noteq> 0"
  shows "cache_ok winv valid sector c"
  unfolding cache_ok_def using assms by blast

lemma cached_holder:
  assumes "cache_ok winv valid sector c" "i < NR_BH" "holds c d s i"
  shows "cached sector c d s = b_data (bufs c i)"
proof -
  have uniq: "j = i" if "j < NR_BH" "holds c d s j" for j
    using that assms cache_okD(3) [OF assms(1), of j i] cache_okD(4) [OF assms(1), of i]
    by (auto simp: holds_def)
  have "find (holds c d s) [0..<NR_BH] = Some i"
    by (rule find_upt_unique [of i NR_BH "holds c d s", OF assms(2,3) uniq])
  then show ?thesis by (simp add: cached_def)
qed

lemma cached_none:
  "(\<And>i. i < NR_BH \<Longrightarrow> \<not> holds c d s i) \<Longrightarrow> cached sector c d s = sector (bdisk c) d s"
  using find_upt_none [of NR_BH "holds c d s"] by (simp add: cached_def)

lemma cached_cases [consumes 1, case_names hit miss]:
  assumes "cache_ok winv valid sector c"
  obtains (hit) i where "i < NR_BH" "holds c d s i" "cached sector c d s = b_data (bufs c i)"
    | (miss) "\<And>i. i < NR_BH \<Longrightarrow> \<not> holds c d s i" "cached sector c d s = sector (bdisk c) d s"
  using cached_holder [OF assms] cached_none by metis

text \<open>Two caches that hold the same sectors, up to the reference counts.\<close>

lemma cached_same:
  assumes "\<And>i. i < NR_BH \<Longrightarrow> holds c' d s i = holds c d s i" "\<And>i. i < NR_BH \<Longrightarrow> b_data (bufs c' i) = b_data (bufs c i)"
    "bdisk c' = bdisk c"
  shows "cached sector c' d s = cached sector c d s"
proof -
  have "find (holds c' d s) [0..<NR_BH] = find (holds c d s) [0..<NR_BH]"
    using assms(1) by (intro find_cong) auto
  then show ?thesis
    using assms(2,3) find_uptD [of "holds c d s" NR_BH] by (simp add: cached_def split: option.split)
qed

context block_layer
begin

abbreviation ok :: "'w bcache \<Rightarrow> bool" where "ok \<equiv> cache_ok winv valid sector"

lemma get_hit:
  assumes ok: "ok c" and f: "find (\<lambda>i. b_dev (bufs c i) = d \<and> b_sector (bufs c i) = s) [0..<NR_BH] = Some i"
    and c': "c' = (upd_buf i (\<lambda>b. b\<lparr>b_count := b_count b + 1\<rparr>) c)\<lparr>b_lru := lru_touch i (b_lru c)\<rparr>"
  shows "ok c'" "i < NR_BH" "b_dev (bufs c' i) = d" "b_sector (bufs c' i) = s" "\<And>j. b_count (bufs c' j) = b_count (bufs c j) + (if j = i then 1 else 0)"
    "bdisk c' = bdisk c" "\<And>d' s'. cached sector c' d' s' = cached sector c d' s'"
proof -
  show i: "i < NR_BH" using find_uptD [OF f] by simp
  show "b_dev (bufs c' i) = d" "b_sector (bufs c' i) = s" using find_uptD [OF f] by (simp_all add: c')
  show "b_count (bufs c' j) = b_count (bufs c j) + (if j = i then 1 else 0)" "bdisk c' = bdisk c" for j
    by (simp_all add: c')
  show "cached sector c' d' s' = cached sector c d' s'" for d' s'
    by (rule cached_same) (auto simp: c' holds_def)
  have "lru_wf (\<lambda>j. b_count (bufs c' j)) NR_BH (b_lru c')"
    unfolding c' by (simp, rule lru_touch_wf [OF cache_okD(2) [OF ok] i]) auto
  then show "ok c'"
    using cache_okD [OF ok] by (intro cache_okI) (auto simp: c' split: if_splits)
qed

lemma get_miss:
  assumes ok: "ok c" and d0: "d \<noteq> 0"
    and f: "find (\<lambda>i. b_dev (bufs c i) = d \<and> b_sector (bufs c i) = s) [0..<NR_BH] = None"
    and i: "i = hd (b_lru c)" "b_count (bufs c i) = 0"
    and c': "c' = (upd_buf i (\<lambda>b. b\<lparr>b_count := b_count b + 1, b_dev := d, b_sector := s, b_dirty := False, b_up2date := False\<rparr>) c)
      \<lparr>b_lru := lru_touch i (b_lru c)\<rparr>"
  shows "ok c'" "i < NR_BH" "b_dev (bufs c' i) = d" "b_sector (bufs c' i) = s"
    "\<And>j. b_count (bufs c' j) = b_count (bufs c j) + (if j = i then 1 else 0)"
    "bdisk c' = bdisk c" "\<And>d' s'. cached sector c' d' s' = cached sector c d' s'"
proof -
  have fresh: False if "j < NR_BH" "b_dev (bufs c j) = d" "b_sector (bufs c j) = s" for j
    using find_upt_NoneD [OF f that(1)] that(2,3) by simp
  show l: "i < NR_BH" unfolding i(1) by (rule lru_wf_hd(1) [OF cache_okD(2) [OF ok]]) simp
  show "b_dev (bufs c' i) = d" "b_sector (bufs c' i) = s"
    "b_count (bufs c' j) = b_count (bufs c j) + (if j = i then 1 else 0)" "bdisk c' = bdisk c" for j
    by (simp_all add: c' i(2))
  have clean: "\<not> b_dirty (bufs c i)" using cache_okD(8) [OF ok l] i(2) by auto
  have "lru_wf (\<lambda>j. b_count (bufs c' j)) NR_BH (b_lru c')"
    unfolding c' by (simp, rule lru_touch_wf [OF cache_okD(2) [OF ok] l]) auto
  then show ok': "ok c'"
    using cache_okD [OF ok] by (intro cache_okI) (auto simp: c' split: if_splits intro: fresh)
  fix d' s'
  show "cached sector c' d' s' = cached sector c d' s'"
    using ok
  proof (cases rule: cached_cases [where d = d' and s = s'])
    case (hit j)
    show ?thesis
    proof (cases "j = i")
      case True
      have "\<not> holds c' d' s' k" if "k < NR_BH" for k
      proof
        assume h: "holds c' d' s' k"
        then have "k \<noteq> i" by (auto simp: holds_def c')
        with h have "holds c d' s' k" by (simp add: holds_def c')
        with hit True have "k = i"
          using cache_okD(3) [OF ok that l] cache_okD(4) [OF ok that] by (simp add: holds_def)
        with \<open>k \<noteq> i\<close> show False ..
      qed
      from cached_none [OF this] show ?thesis
        using hit True cache_okD(7) [OF ok l _ clean] by (auto simp: holds_def c')
    next
      case False
      then have "holds c' d' s' j" using hit by (simp add: holds_def c')
      from cached_holder [OF ok' hit(1) this] show ?thesis using hit False by (simp add: c')
    qed
  next
    case miss
    have "\<not> holds c' d' s' k" if "k < NR_BH" for k
      using miss(1) [OF that] by (auto simp: holds_def c' split: if_splits)
    from cached_none [OF this] show ?thesis using miss by (simp add: c')
  qed
qed

lemma get_buffer_ok:
  assumes "ok c" "get_buffer devs d s c = Some (Some i, c')"
  shows "ok c'" "i < NR_BH" "b_dev (bufs c' i) = d" "b_sector (bufs c' i) = s" "\<And>j. b_count (bufs c' j) = b_count (bufs c j) + (if j = i then 1 else 0)"
    "bdisk c' = bdisk c" "\<And>d' s'. cached sector c' d' s' = cached sector c d' s'" "d \<noteq> 0"
proof -
  have sz: "get_sector_size devs d (bdisk c) = Inr 512"
    using assms(2) by (auto simp: get_buffer_def split: sum.splits if_splits)
  then show d0: "d \<noteq> 0" using no_device by metis
  have "ok c' \<and> i < NR_BH \<and> b_dev (bufs c' i) = d \<and> b_sector (bufs c' i) = s \<and> (\<forall>j. b_count (bufs c' j) = b_count (bufs c j) + (if j = i then 1 else 0)) \<and>
      bdisk c' = bdisk c \<and> (\<forall>d' s'. cached sector c' d' s' = cached sector c d' s')"
  proof (cases "find (\<lambda>i. b_dev (bufs c i) = d \<and> b_sector (bufs c i) = s) [0..<NR_BH]")
    case None
    with assms(2) sz show ?thesis
      using get_miss [OF assms(1) d0 None refl]
      by (auto simp: get_buffer_def find_buffer_def Let_def split: if_splits)
  next
    case (Some j)
    with assms(2) sz show ?thesis
      using get_hit [OF assms(1) Some]
      by (auto simp: get_buffer_def find_buffer_def)
  qed
  then show "ok c'" "i < NR_BH" "b_dev (bufs c' i) = d" "b_sector (bufs c' i) = s" "\<And>j. b_count (bufs c' j) = b_count (bufs c j) + (if j = i then 1 else 0)"
    "bdisk c' = bdisk c" "\<And>d' s'. cached sector c' d' s' = cached sector c d' s'" by blast+
qed


lemma bsync_ok:
  assumes ok: "ok c" and i: "i < NR_BH" "b_count (bufs c i) \<noteq> 0"
  obtains w where "bsync devs i c = (Inr (), (upd_buf i (\<lambda>b. b\<lparr>b_dirty := False\<rparr>) c)\<lparr>bdisk := w\<rparr>)"
    "ok ((upd_buf i (\<lambda>b. b\<lparr>b_dirty := False\<rparr>) c)\<lparr>bdisk := w\<rparr>)" "valid w = valid (bdisk c)"
    "\<And>d s. valid (bdisk c) d s \<Longrightarrow> cached sector ((upd_buf i (\<lambda>b. b\<lparr>b_dirty := False\<rparr>) c)\<lparr>bdisk := w\<rparr>) d s = cached sector c d s"
proof (cases "b_up2date (bufs c i) \<and> b_dirty (bufs c i)")
  case False
  then have clean: "\<not> b_dirty (bufs c i)" using cache_okD(8) [OF ok i(1)] by auto
  then have same: "(upd_buf i (\<lambda>b. b\<lparr>b_dirty := False\<rparr>) c)\<lparr>bdisk := bdisk c\<rparr> = c"
    by (cases c) (auto simp: upd_buf_def fun_eq_iff)
  show ?thesis
    by (rule that [of "bdisk c"]) (use False ok same in \<open>auto simp: bsync_def\<close>)
next
  case True
  let ?d = "b_dev (bufs c i)" and ?s = "b_sector (bufs c i)" and ?b = "b_data (bufs c i)"
  let ?w = "snd (blkdev_write devs ?d ?s 1 ?b (bdisk c))"
  let ?c = "(upd_buf i (\<lambda>b. b\<lparr>b_dirty := False\<rparr>) c)\<lparr>bdisk := ?w\<rparr>"
  have v: "valid (bdisk c) ?d ?s" and b: "length ?b = 512" and w: "winv (bdisk c)"
    using cache_okD(1) [OF ok] cache_okD(5,6) [OF ok i(1)] True by auto
  note wr = wr_valid [OF w v b] wr_inv [OF w b, of ?d ?s] wr_same_valid [OF w b, of ?d ?s]
  have sec: "sector ?w d s = (if d = ?d \<and> s = ?s then ?b else sector (bdisk c) d s)" if "valid (bdisk c) d s" for d s
    using wr_sector [OF w v b that] .
  have sync: "bsync devs i c = (Inr (), ?c)"
    using True wr(1) by (simp add: bsync_def Let_def prod.case_eq_if)
  have other: "\<not> (b_dev (bufs c j) = ?d \<and> b_sector (bufs c j) = ?s)" if "j < NR_BH" "j \<noteq> i" for j
    using cache_okD(3) [OF ok that(1) i(1)] cache_okD(4) [OF ok i(1)] that True by auto
  have okc: "ok ?c"
  proof (rule cache_okI)
    have "lru_wf (\<lambda>i. b_count (bufs ?c i)) NR_BH (b_lru c)"
      by (rule lru_wf_same [OF _ cache_okD(2) [OF ok]]) auto
    then show "lru_wf (\<lambda>i. b_count (bufs ?c i)) NR_BH (b_lru ?c)" by simp
  next
    fix j assume j: "j < NR_BH" "b_up2date (bufs ?c j)" "\<not> b_dirty (bufs ?c j)"
    show "b_data (bufs ?c j) = sector (bdisk ?c) (b_dev (bufs ?c j)) (b_sector (bufs ?c j))"
    proof (cases "j = i")
      case True
      with sec [OF v] show ?thesis by simp
    next
      case False
      with j other [OF j(1) False] cache_okD(5,7) [OF ok j(1)] sec show ?thesis by auto
    qed
  qed (use wr cache_okD [OF ok] in \<open>auto split: if_splits\<close>)
  have view: "cached sector ?c d s = cached sector c d s" if vd: "valid (bdisk c) d s" for d s
  proof -
    have h: "holds ?c d s j = holds c d s j" for j by (simp add: holds_def)
    show ?thesis
      using ok
    proof (cases rule: cached_cases [where d = d and s = s])
      case (hit j)
      with cached_holder [OF okc, of j d s] h show ?thesis by simp
    next
      case miss
      have "\<not> (d = ?d \<and> s = ?s)" using miss(1) [OF i(1)] True by (auto simp: holds_def)
      with miss cached_none [of ?c d s sector] h sec [OF vd] show ?thesis by simp
    qed
  qed
  show ?thesis by (rule that [OF sync okc wr(3) view])
qed

lemma brelse_ok:
  assumes ok: "ok c" and i: "i < NR_BH" "b_count (bufs c i) \<noteq> 0"
  shows "fst (brelse devs i c) = Inr ()" "ok (snd (brelse devs i c))"
    "valid (bdisk (snd (brelse devs i c))) = valid (bdisk c)"
    "\<And>d s. valid (bdisk c) d s \<Longrightarrow> cached sector (snd (brelse devs i c)) d s = cached sector c d s"
    "b_count (bufs (snd (brelse devs i c)) j) = b_count (bufs c j) - (if j = i then 1 else 0)"
proof -
  have "fst (brelse devs i c) = Inr () \<and> ok (snd (brelse devs i c)) \<and>
    valid (bdisk (snd (brelse devs i c))) = valid (bdisk c) \<and>
    (\<forall>d s. valid (bdisk c) d s \<longrightarrow> cached sector (snd (brelse devs i c)) d s = cached sector c d s) \<and>
    (\<forall>j. b_count (bufs (snd (brelse devs i c)) j) = b_count (bufs c j) - (if j = i then 1 else 0))"
  proof (cases "b_count (bufs c i) = 1")
    case False
    let ?c = "upd_buf i (\<lambda>b. b\<lparr>b_count := b_count b - 1\<rparr>) c"
    have rel: "brelse devs i c = (Inr (), ?c)" using False i(2) by (simp add: brelse_def Let_def)
    have "lru_wf (\<lambda>j. b_count (bufs ?c j)) NR_BH (b_lru c)"
      by (rule lru_wf_same [OF _ cache_okD(2) [OF ok]]) (use i(2) False in auto)
    then have "ok ?c"
      using cache_okD [OF ok] i(2) False by (intro cache_okI) (auto split: if_splits)
    moreover have "cached sector ?c d s = cached sector c d s" for d s
      by (rule cached_same) (auto simp: holds_def)
    ultimately show ?thesis by (simp add: rel)
  next
    case True
    have c1: "upd_buf i (b_count_update (\<lambda>_. Suc 0)) (upd_buf i (\<lambda>b. b\<lparr>b_count := b_count b - Suc 0\<rparr>) c) = c"
      using True by (cases c) (auto simp: upd_buf_def fun_eq_iff)
    obtain w where sync: "bsync devs i c = (Inr (), (upd_buf i (\<lambda>b. b\<lparr>b_dirty := False\<rparr>) c)\<lparr>bdisk := w\<rparr>)"
      and ok2: "ok ((upd_buf i (\<lambda>b. b\<lparr>b_dirty := False\<rparr>) c)\<lparr>bdisk := w\<rparr>)" and vw: "valid w = valid (bdisk c)"
      and view: "\<And>d s. valid (bdisk c) d s \<Longrightarrow> cached sector ((upd_buf i (\<lambda>b. b\<lparr>b_dirty := False\<rparr>) c)\<lparr>bdisk := w\<rparr>) d s = cached sector c d s"
      by (rule bsync_ok [OF ok i]) auto
    define c2 where "c2 = (upd_buf i (\<lambda>b. b\<lparr>b_dirty := False\<rparr>) c)\<lparr>bdisk := w\<rparr>"
    define c3 where "c3 = upd_buf i (\<lambda>b. b\<lparr>b_count := b_count b - 1\<rparr>) c2"
    define c4 where "c4 = c3\<lparr>b_lru := into_lru_list (\<lambda>j. b_count (bufs c3 j)) i (b_lru c3)\<rparr>"
    have rel: "brelse devs i c = (Inr (), c4)"
      using True sync by (simp add: brelse_def Let_def c1 c4_def c3_def c2_def)
    have ok2: "ok c2" using ok2 by (simp add: c2_def)
    have i0: "b_count (bufs c4 i) = 0" "\<not> b_dirty (bufs c4 i)" "b_count (bufs c3 i) = 0"
      by (simp_all add: c4_def c3_def c2_def True)
    have "lru_wf (\<lambda>j. b_count (bufs c3 j)) NR_BH (into_lru_list (\<lambda>j. b_count (bufs c3 j)) i (b_lru c2))"
      by (rule into_lru_list_wf [where cnt = "\<lambda>j. b_count (bufs c2 j)"])
        (use cache_okD(2) [OF ok2] i(1) i0(3) in \<open>auto simp: c3_def\<close>)
    then have "lru_wf (\<lambda>j. b_count (bufs c4 j)) NR_BH (b_lru c4)"
      by (simp add: c4_def) (simp add: c3_def)
    then have "ok c4"
      using cache_okD [OF ok2] i0 sector_length [OF cache_okD(1) [OF ok2]]
      by (intro cache_okI) (auto simp: c4_def c3_def split: if_splits)
    moreover have "cached sector c4 d s = cached sector c2 d s" for d s
      by (rule cached_same) (auto simp: holds_def c4_def c3_def)
    ultimately show ?thesis
      using view vw by (auto simp: rel c2_def [symmetric]) (simp_all add: c4_def c3_def c2_def)
  qed
  then show "fst (brelse devs i c) = Inr ()" "ok (snd (brelse devs i c))"
    "valid (bdisk (snd (brelse devs i c))) = valid (bdisk c)"
    "\<And>d s. valid (bdisk c) d s \<Longrightarrow> cached sector (snd (brelse devs i c)) d s = cached sector c d s"
    "b_count (bufs (snd (brelse devs i c)) j) = b_count (bufs c j) - (if j = i then 1 else 0)"
    by simp_all
qed


lemma bread_ok:
  assumes ok: "ok c" and r: "bread devs d s c = Some (Some i, c')"
  shows "ok c'" "i < NR_BH" "holds c' d s i" "b_data (bufs c' i) = cached sector c d s"
    "bdisk c' = bdisk c" "\<And>d' s'. cached sector c' d' s' = cached sector c d' s'"
    "\<And>j. b_count (bufs c' j) = b_count (bufs c j) + (if j = i then 1 else 0)"
proof -
  obtain c1 where g: "get_buffer devs d s c = Some (Some i, c1)"
    using r by (auto simp: bread_def split: option.splits if_splits sum.splits)
  note G = get_buffer_ok [OF ok g]
  have "ok c' \<and> holds c' d s i \<and> b_data (bufs c' i) = cached sector c d s \<and> bdisk c' = bdisk c \<and>
    (\<forall>d' s'. cached sector c' d' s' = cached sector c d' s') \<and>
    (\<forall>j. b_count (bufs c' j) = b_count (bufs c j) + (if j = i then 1 else 0))"
  proof (cases "b_up2date (bufs c1 i)")
    case True
    then have "c' = c1" using r g by (simp add: bread_def)
    moreover have "holds c1 d s i" using G True by (simp add: holds_def)
    ultimately show ?thesis using G cached_holder [OF G(1,2), of d s] by simp
  next
    case False
    have w: "winv (bdisk c1)" by (rule cache_okD(1) [OF G(1)])
    obtain bs where rd: "blkdev_read devs d s 1 (replicate 512 0) (bdisk c1) = Inr bs"
      and c': "c' = upd_buf i (\<lambda>b. b\<lparr>b_data := bs, b_up2date := True, b_dirty := False\<rparr>) c1"
      using r g False G(3,4) rd_buffer [of d s "b_data (bufs c1 i)" "bdisk c1"]
      by (auto simp: bread_def split: sum.splits)
    have v: "valid (bdisk c1) d s" using rd rd_invalid [of "bdisk c1" d s] by fastforce
    have bs: "bs = sector (bdisk c1) d s" using rd rd_valid [OF w v] by simp
    have none: "\<not> holds c1 d s j" if "j < NR_BH" for j
      using cache_okD(3) [OF G(1) that G(2)] G(3,4,8) False by (auto simp: holds_def)
    have "lru_wf (\<lambda>j. b_count (bufs c' j)) NR_BH (b_lru c1)"
      by (rule lru_wf_same [OF _ cache_okD(2) [OF G(1)]]) (auto simp: c')
    then have okc: "ok c'"
      using cache_okD [OF G(1)] v bs sector_length [OF w v] G(3,4,8)
      by (intro cache_okI) (auto simp: c' split: if_splits)
    have hold: "holds c' d s i" by (simp add: holds_def c' G)
    have "cached sector c' d' s' = cached sector c1 d' s'" for d' s'
    proof (cases "d' = d \<and> s' = s")
      case True
      then show ?thesis
        using cached_holder [OF okc G(2) hold] cached_none [of c1 d s sector] none by (simp add: c' bs)
    next
      case False
      have h: "holds c' d' s' j = holds c1 d' s' j" for j
        using False G(3,4) \<open>\<not> b_up2date (bufs c1 i)\<close> by (auto simp: holds_def c')
      from G(1) show ?thesis
      proof (cases rule: cached_cases [where d = d' and s = s'])
        case (hit j)
        with h have "j \<noteq> i" using \<open>\<not> b_up2date (bufs c1 i)\<close> by (auto simp: holds_def)
        with hit h cached_holder [OF okc hit(1), of d' s'] show ?thesis by (simp add: c')
      next
        case miss
        with h cached_none [of c' d' s' sector] show ?thesis by (simp add: c')
      qed
    qed
    then show ?thesis
      using okc hold G cached_none [of c1 d s sector] none by (auto simp: c' bs)
  qed
  then show "ok c'" "holds c' d s i" "b_data (bufs c' i) = cached sector c d s" "bdisk c' = bdisk c"
    "\<And>d' s'. cached sector c' d' s' = cached sector c d' s'"
    "\<And>j. b_count (bufs c' j) = b_count (bufs c j) + (if j = i then 1 else 0)" by blast+
  show "i < NR_BH" by (rule G(2))
qed

lemma bread_progress:
  assumes ok: "ok c" and v: "valid (bdisk c) d s" and free: "k < NR_BH" "b_count (bufs c k) = 0"
  shows "\<exists>i c'. bread devs d s c = Some (Some i, c')"
proof -
  have sz: "get_sector_size devs d (bdisk c) = Inr 512" by (rule sector_size [OF v])
  have "b_count (bufs c (hd (b_lru c))) = 0"
    using lru_wf_hd(2) [OF cache_okD(2) [OF ok], of k] free by auto
  then have "\<exists>i c1. get_buffer devs d s c = Some (Some i, c1)"
    using sz by (cases "find (\<lambda>i. b_dev (bufs c i) = d \<and> b_sector (bufs c i) = s) [0..<NR_BH]")
      (simp_all add: get_buffer_def find_buffer_def Let_def)
  then obtain i c1 where g: "get_buffer devs d s c = Some (Some i, c1)" by blast
  note G = get_buffer_ok [OF ok g]
  have "blkdev_read devs d s 1 buf (bdisk c1) = Inr (sector (bdisk c1) d s)" for buf
    using rd_buffer [of d s buf] rd_valid [OF cache_okD(1) [OF G(1)]] v G(6) by metis
  then show ?thesis
    using g G(3,4) by (auto simp: bread_def)
qed

lemma buffer_write_ok:
  assumes ok: "ok c" and i: "i < NR_BH" "holds c d s i" "b_count (bufs c i) \<noteq> 0" and bs: "length bs = 512"
  shows "ok (buffer_write i bs c)"
    "cached sector (buffer_write i bs c) d' s' = (if d' = d \<and> s' = s then bs else cached sector c d' s')"
    "bdisk (buffer_write i bs c) = bdisk c" "b_count (bufs (buffer_write i bs c) j) = b_count (bufs c j)"
proof -
  let ?c = "buffer_write i bs c"
  show "bdisk ?c = bdisk c" "b_count (bufs ?c j) = b_count (bufs c j)" by (simp_all add: buffer_write_def)
  have "lru_wf (\<lambda>j. b_count (bufs ?c j)) NR_BH (b_lru c)"
    by (rule lru_wf_same [OF _ cache_okD(2) [OF ok]]) (auto simp: buffer_write_def)
  then show okc: "ok ?c"
    using cache_okD [OF ok] i bs by (intro cache_okI) (auto simp: buffer_write_def holds_def split: if_splits)
  have h: "holds ?c d' s' j = holds c d' s' j" for d' s' j by (simp add: buffer_write_def holds_def)
  show "cached sector ?c d' s' = (if d' = d \<and> s' = s then bs else cached sector c d' s')"
  proof (cases "d' = d \<and> s' = s")
    case True
    with cached_holder [OF okc i(1), of d s] h i(2) show ?thesis by (simp add: buffer_write_def)
  next
    case False
    from ok show ?thesis
    proof (cases rule: cached_cases [where d = d' and s = s'])
      case (hit j)
      then have "j \<noteq> i" using False i(2) by (auto simp: holds_def)
      with hit h False cached_holder [OF okc hit(1), of d' s'] show ?thesis by (auto simp: buffer_write_def)
    next
      case miss
      with h False cached_none [of ?c d' s' sector] show ?thesis by (auto simp: buffer_write_def)
    qed
  qed
qed


text \<open>No buffer is in use.\<close>

abbreviation idle :: "'w bcache \<Rightarrow> bool" where "idle c \<equiv> \<forall>i. b_count (bufs c i) = 0"

lemma tx_read:
  assumes "ok c" "idle c" "valid (bdisk c) d s"
  obtains c' where "cache_tx devs (TxRead d s) c = (Some (cached sector c d s), c')" "ok c'" "idle c'"
    "valid (bdisk c') = valid (bdisk c)" "\<And>d' s'. valid (bdisk c) d' s' \<Longrightarrow> cached sector c' d' s' = cached sector c d' s'"
proof -
  obtain i c1 where r: "bread devs d s c = Some (Some i, c1)"
    using bread_progress [OF assms(1,3), of 0] assms(2) by auto
  note R = bread_ok [OF assms(1) r]
  have n: "b_count (bufs c1 i) \<noteq> 0" using R(7) by simp
  note B = brelse_ok [OF R(1,2) n]
  have "idle (snd (brelse devs i c1))" using B(5) R(7) assms(2) by simp
  then show thesis
    using that [of "snd (brelse devs i c1)"] r R B by simp
qed

lemma tx_write:
  assumes "ok c" "idle c" "valid (bdisk c) d s" "length bs = 512"
  obtains c' where "cache_tx devs (TxWrite d s bs) c = (Some [], c')" "ok c'" "idle c'"
    "valid (bdisk c') = valid (bdisk c)"
    "\<And>d' s'. valid (bdisk c) d' s' \<Longrightarrow> cached sector c' d' s' = (if d' = d \<and> s' = s then bs else cached sector c d' s')"
proof -
  obtain i c1 where r: "bread devs d s c = Some (Some i, c1)"
    using bread_progress [OF assms(1,3), of 0] assms(2) by auto
  note R = bread_ok [OF assms(1) r]
  have n: "b_count (bufs c1 i) \<noteq> 0" using R(7) by simp
  define c2 where "c2 = buffer_write i bs c1"
  note W = buffer_write_ok [OF R(1,2,3) n assms(4), folded c2_def]
  have n2: "b_count (bufs c2 i) \<noteq> 0" using W(4) n by simp
  note B = brelse_ok [OF W(1) R(2) n2]
  have "idle (snd (brelse devs i c2))" using B(5) W(4) R(7) assms(2) by simp
  then show thesis
    using that [of "snd (brelse devs i c2)"] r R W B by (simp flip: c2_def)
qed

lemma idle_synced:
  assumes "ok c" "idle c"
  shows "cached sector c d s = sector (bdisk c) d s"
  using assms(1)
proof (cases rule: cached_cases [where d = d and s = s])
  case (hit i)
  then show ?thesis
    using cache_okD(7,8) [OF assms(1) hit(1)] assms(2) by (auto simp: holds_def)
qed

lemma cache_run_disk:
  assumes "ok c" "idle c" "\<forall>t \<in> set ts. tx_ok (valid (bdisk c)) t"
    and "\<And>d s. valid (bdisk c) d s \<Longrightarrow> f d s = cached sector c d s"
    and "cache_run devs ts c = (rs, c')" "disk_run ts f = (rs', f')"
  shows "rs = rs' \<and> ok c' \<and> idle c' \<and> (\<forall>d s. valid (bdisk c) d s \<longrightarrow> sector (bdisk c') d s = f' d s)"
  using assms
proof (induction ts arbitrary: c f rs rs')
  case Nil
  then show ?case using idle_synced [of c] by simp
next
  case (Cons t ts)
  show ?case
  proof (cases t)
    case (TxRead d s)
    have v: "valid (bdisk c) d s" using Cons.prems(3) TxRead by simp
    obtain c1 where c1: "cache_tx devs (TxRead d s) c = (Some (cached sector c d s), c1)" "ok c1" "idle c1"
      "valid (bdisk c1) = valid (bdisk c)" "\<And>d' s'. valid (bdisk c) d' s' \<Longrightarrow> cached sector c1 d' s' = cached sector c d' s'"
      using tx_read [OF Cons.prems(1,2) v] by metis
    obtain rs1 where r1: "cache_run devs ts c1 = (rs1, c')" "rs = Some (cached sector c d s) # rs1"
      using Cons.prems(5) TxRead c1(1) by (auto split: prod.splits)
    obtain rs2 where r2: "disk_run ts f = (rs2, f')" "rs' = Some (f d s) # rs2"
      using Cons.prems(6) TxRead by (auto split: prod.splits)
    have "rs1 = rs2 \<and> ok c' \<and> idle c' \<and> (\<forall>d s. valid (bdisk c1) d s \<longrightarrow> sector (bdisk c') d s = f' d s)"
      by (rule Cons.IH [OF c1(2,3) _ _ r1(1) r2(1)]) (use c1 Cons.prems in auto)
    with r1 r2 c1(4) Cons.prems(4) [OF v] show ?thesis by simp
  next
    case (TxWrite d s bs)
    have v: "valid (bdisk c) d s" "length bs = 512" using Cons.prems(3) TxWrite by simp_all
    let ?f = "\<lambda>d' s'. if d' = d \<and> s' = s then bs else f d' s'"
    obtain c1 where c1: "cache_tx devs (TxWrite d s bs) c = (Some [], c1)" "ok c1" "idle c1"
      "valid (bdisk c1) = valid (bdisk c)"
      "\<And>d' s'. valid (bdisk c) d' s' \<Longrightarrow> cached sector c1 d' s' = (if d' = d \<and> s' = s then bs else cached sector c d' s')"
      using tx_write [OF Cons.prems(1,2) v] by metis
    obtain rs1 where r1: "cache_run devs ts c1 = (rs1, c')" "rs = Some [] # rs1"
      using Cons.prems(5) TxWrite c1(1) by (auto split: prod.splits)
    obtain rs2 where r2: "disk_run ts ?f = (rs2, f')" "rs' = Some [] # rs2"
      using Cons.prems(6) TxWrite by (auto split: prod.splits)
    have "rs1 = rs2 \<and> ok c' \<and> idle c' \<and> (\<forall>d s. valid (bdisk c1) d s \<longrightarrow> sector (bdisk c') d s = f' d s)"
      by (rule Cons.IH [OF c1(2,3) _ _ r1(1) r2(1)]) (use c1 Cons.prems in auto)
    with r1 r2 c1(4) show ?thesis by simp
  qed
qed

end

section \<open>On ram disks\<close>

interpretation rdl: block_layer rds_ok rd_valid rd_sector blkdev_init
proof (unfold_locales, goal_cases)
  case (1 d s buf w) then show ?case by (simp add: rd_read_one)
next
  case (2 w) then show ?case by (simp add: get_sector_size_def blkdev_get_info_def blkdev_init_check MAJOR_def)
next
  case (3 w d s)
  then have "rd_dev w d" by (simp add: rd_valid_def rd_dev_def)
  then show ?case by (simp add: get_sector_size_def rd_get_info_rd)
qed

section \<open>Properties\<close>

lemma buffer_init_ok:
  assumes "rds_ok (bdisk c)" "length m = 65536" "buffer_init (Some m) c = Some c'"
  shows "cache_ok rds_ok rd_valid rd_sector c'" "\<forall>i. b_count (bufs c' i) = 0"
    "bdisk c' = bdisk c" "cached rd_sector c' d s = rd_sector (bdisk c) d s"
proof -
  have c': "c' = c\<lparr>bufs := (\<lambda>i. (bufs c i)\<lparr>b_dev := 0, b_dirty := False, b_up2date := False, b_count := 0,
      b_data := take 512 (drop (i * 512) m)\<rparr>), b_lru := [0..<NR_BH]\<rparr>"
    using assms(3) by (simp add: buffer_init_def del: upt_Suc)
  show "\<forall>i. b_count (bufs c' i) = 0" "bdisk c' = bdisk c" by (simp_all add: c')
  have "cached rd_sector c' d s = rd_sector (bdisk c') d s"
    by (rule cached_none) (simp add: holds_def c')
  then show "cached rd_sector c' d s = rd_sector (bdisk c) d s" by (simp add: c')
  have "lru_wf (\<lambda>i. b_count (bufs c' i)) NR_BH (b_lru c')"
    using lru_wf_init [of NR_BH "\<lambda>i. b_count (bufs c' i)"] by (simp add: c' del: upt_Suc)
  then show "cache_ok rds_ok rd_valid rd_sector c'"
    using assms(1) by (intro cache_okI) (auto simp: c' simp del: upt_Suc)
qed

text \<open>C17: Reading and writing sectors of ram disks through the freshly initialised cache, in any order
  and however many sectors, gives exactly the results of an array of sectors; no
  request fails or waits, and at the end the disks hold every byte that was written.\<close>

theorem buffer_cache_transparent:
  assumes "rds_ok (bdisk c)" "length m = 65536" "buffer_init (Some m) c = Some c0"
    and "\<forall>t \<in> set ts. tx_ok (rd_valid (bdisk c)) t"
    and "cache_run blkdev_init ts c0 = (rs, c')" "disk_run ts (rd_sector (bdisk c)) = (rs', f')"
  shows "rs = rs' \<and> (\<forall>d s. rd_valid (bdisk c) d s \<longrightarrow> rd_sector (bdisk c') d s = f' d s)"
proof -
  note I = buffer_init_ok [OF assms(1,2,3)]
  have "rs = rs' \<and> cache_ok rds_ok rd_valid rd_sector c' \<and> (\<forall>i. b_count (bufs c' i) = 0) \<and>
      (\<forall>d s. rd_valid (bdisk c0) d s \<longrightarrow> rd_sector (bdisk c') d s = f' d s)"
    by (rule rdl.cache_run_disk [OF I(1,2) _ _ assms(5,6)]) (use assms(4) I(3,4) in auto)
  then show ?thesis using I(3) by simp
qed

definition cache_example :: "rdisks bcache" where
  "cache_example = \<lparr>bufs = (\<lambda>_. \<lparr>b_dev = 0, b_sector = 0, b_count = 0, b_dirty = False, b_up2date = False, b_data = []\<rparr>),
     b_lru = [], bdisk = rd_example\<rparr>"

theorem buffer_cache_transparent_witness:
  "\<exists>c0. buffer_init (Some (replicate 65536 0)) cache_example = Some c0 \<and>
     fst (cache_run blkdev_init [TxWrite 0x101 3 (replicate 512 7), TxRead 0x101 3] c0) = [Some [], Some (replicate 512 7)]"
proof -
  let ?ts = "[TxWrite 0x101 3 (replicate 512 7), TxRead 0x101 3]"
  have disk: "bdisk cache_example = rd_example" by (simp add: cache_example_def)
  obtain c0 where c0: "buffer_init (Some (replicate 65536 0)) cache_example = Some c0"
    by (simp add: buffer_init_def del: upt_Suc)
  obtain rs c' where run: "cache_run blkdev_init ?ts c0 = (rs, c')" by fastforce
  obtain f' where d: "disk_run ?ts (rd_sector (bdisk cache_example)) = ([Some [], Some (replicate 512 7)], f')"
    by simp
  have ok: "rds_ok (bdisk cache_example)" using rd_example_ok disk by simp
  have "\<forall>t \<in> set ?ts. tx_ok (rd_valid (bdisk cache_example)) t"
    by (simp add: disk rd_valid_def rd_example_def MAJOR_def MINOR_def)
  from buffer_cache_transparent [OF ok _ c0 this run d] c0 run show ?thesis by simp
qed

section \<open>Sharing buffers\<close>

definition buffer_get :: "dev_t \<times> u32 \<Rightarrow> rdisks bcache \<Rightarrow> (nat \<times> rdisks bcache) option" where
  "buffer_get k c = (case get_buffer blkdev_init (fst k) (snd k) c of Some (Some i, c') \<Rightarrow> Some (i, c') | _ \<Rightarrow> None)"

definition buffer_put :: "nat \<Rightarrow> rdisks bcache \<Rightarrow> rdisks bcache option" where
  "buffer_put i c = (case brelse blkdev_init i c of (Inr _, c') \<Rightarrow> Some c' | _ \<Rightarrow> None)"

lemma buffer_get_ok:
  assumes "cache_ok rds_ok rd_valid rd_sector c" "buffer_get k c = Some (i, c')"
  shows "get_buffer blkdev_init (fst k) (snd k) c = Some (Some i, c')"
  using assms by (auto simp: buffer_get_def split: option.splits)

lemma get_buffer_stable:
  assumes "get_buffer devs d s c = Some (Some i, c')" "b_count (bufs c j) \<noteq> 0"
  shows "b_dev (bufs c' j) = b_dev (bufs c j)" "b_sector (bufs c' j) = b_sector (bufs c j)"
  using assms
  by (auto simp: get_buffer_def find_buffer_def Let_def upd_buf_def simp del: upt_Suc split: sum.splits if_splits option.splits prod.splits)

lemma brelse_stable:
  "b_dev (bufs (snd (brelse devs i c)) j) = b_dev (bufs c j)" "b_sector (bufs (snd (brelse devs i c)) j) = b_sector (bufs c j)"
  by (auto simp: brelse_def bsync_def Let_def upd_buf_def prod.case_eq_if)

definition bcache_inv :: "rdisks bcache \<Rightarrow> bool" where
  "bcache_inv c \<longleftrightarrow> cache_ok rds_ok rd_valid rd_sector c \<and> (\<forall>i. b_count (bufs c i) \<noteq> 0 \<longrightarrow> i < NR_BH)"

lemma bcache_invD:
  assumes "bcache_inv c"
  shows "cache_ok rds_ok rd_valid rd_sector c" "b_count (bufs c i) \<noteq> 0 \<Longrightarrow> i < NR_BH"
  using assms by (auto simp: bcache_inv_def)

lemma buffer_put_ok:
  assumes "bcache_inv c" "b_count (bufs c i) \<noteq> 0"
  shows "buffer_put i c = Some (snd (brelse blkdev_init i c))" "bcache_inv (snd (brelse blkdev_init i c))"
    "b_count (bufs (snd (brelse blkdev_init i c)) j) = b_count (bufs c j) - (if j = i then 1 else 0)"
proof -
  note B = rdl.brelse_ok [OF bcache_invD(1) [OF assms(1)] bcache_invD(2) [OF assms] assms(2)]
  show "buffer_put i c = Some (snd (brelse blkdev_init i c))"
    using B(1) by (simp add: buffer_put_def prod.case_eq_if)
  show "b_count (bufs (snd (brelse blkdev_init i c)) j) = b_count (bufs c j) - (if j = i then 1 else 0)" by (rule B(5))
  show "bcache_inv (snd (brelse blkdev_init i c))" using assms(1) B(2,5) by (auto simp: bcache_inv_def)
qed

interpretation bc: object_cache bcache_inv "\<lambda>c i. b_count (bufs c i)" "\<lambda>c i. (b_dev (bufs c i), b_sector (bufs c i))"
  "\<lambda>k. fst k \<noteq> 0" buffer_get buffer_put
proof (unfold_locales, goal_cases)
  case (1 c k i c')
  note G = rdl.get_buffer_ok [OF bcache_invD(1) [OF 1(1)] buffer_get_ok [OF bcache_invD(1) [OF 1(1)] 1(2)]]
  then show ?case using 1(1) by (auto simp: bcache_inv_def split: if_splits)
next
  case (2 c k i c')
  then show ?case using rdl.get_buffer_ok(3,4) [OF bcache_invD(1) buffer_get_ok [OF bcache_invD(1)]] by (metis prod.collapse)
next
  case (3 c k i c' j)
  then show ?case using rdl.get_buffer_ok(5) [OF bcache_invD(1) buffer_get_ok [OF bcache_invD(1)]] by metis
next
  case (4 c k i c' j)
  then show ?case using get_buffer_stable [OF buffer_get_ok [OF bcache_invD(1)]] by metis
next
  case (5 c i) then show ?case using buffer_put_ok(1) by blast
next
  case (6 c i c') then show ?case using buffer_put_ok(1,2) by fastforce
next
  case (7 c i c' j) then show ?case using buffer_put_ok(1,3) by fastforce
next
  case (8 c i c' j) then show ?case using buffer_put_ok(1) brelse_stable by (metis option.inject)
next
  case (9 c i j) then show ?case using cache_okD(3) [OF bcache_invD(1)] bcache_invD(2) by (metis fst_conv prod.inject)
qed

text \<open>C19: A buffer that somebody holds keeps its device and sector whatever the other holders do, there is
  only one buffer for a sector, and every buffer can be released without an error.\<close>

theorem buffer_clients_safe:
  assumes "rds_ok (bdisk c)" "length m = 65536" "buffer_init (Some m) c = Some c0" "cache_client buffer_get buffer_put c0 c' hs"
    and "(i, (d, s)) \<in> set hs"
  shows "b_dev (bufs c' i) = d \<and> b_sector (bufs c' i) = s \<and> ((j, (d, s)) \<in> set hs \<and> d \<noteq> 0 \<longrightarrow> j = i) \<and>
    fst (brelse blkdev_init i c') = Inr ()"
proof -
  note I = buffer_init_ok [OF assms(1,2,3)]
  have inv: "bcache_inv c0" using I(1,2) by (simp add: bcache_inv_def)
  note S = bc.clients_safe [OF assms(4) inv I(2) assms(5)]
  have V: "bcache_inv c'" "b_count (bufs c' i) = refs hs i"
    using bc.client_inv [OF assms(4) inv I(2)] by auto
  then have "b_count (bufs c' i) \<noteq> 0" using refs_pos [OF assms(5)] by simp
  then show ?thesis
    using S rdl.brelse_ok(1) [OF bcache_invD(1) [OF V(1)] bcache_invD(2) [OF V(1)]] by auto
qed

theorem buffer_clients_safe_witness:
  "\<exists>c0 i c1. buffer_init (Some (replicate 65536 0)) cache_example = Some c0 \<and> buffer_get (0x101, 3) c0 = Some (i, c1) \<and>
     b_dev (bufs c1 i) = 0x101 \<and> b_sector (bufs c1 i) = 3 \<and> fst (brelse blkdev_init i c1) = Inr ()"
proof -
  have ok: "rds_ok (bdisk cache_example)" using rd_example_ok by (simp add: cache_example_def)
  obtain c0 where c0: "buffer_init (Some (replicate 65536 0)) cache_example = Some c0"
    by (simp add: buffer_init_def del: upt_Suc)
  note I = buffer_init_ok [OF ok _ c0]
  have v: "rd_valid (bdisk c0) 0x101 3"
    using I(3) by (simp add: cache_example_def rd_valid_def rd_example_def MAJOR_def MINOR_def)
  obtain i c1 where g: "get_buffer blkdev_init 0x101 3 c0 = Some (Some i, c1)"
    using rdl.bread_progress [OF I(1) v, of 0] I(2)
    by (auto simp: bread_def split: option.splits prod.splits)
  then have g': "buffer_get (0x101, 3) c0 = Some (i, c1)" by (simp add: buffer_get_def)
  have "cache_client buffer_get buffer_put c0 c1 [(i, (0x101, 3))]" by (rule client_get [OF client_start, where get = buffer_get, OF g'])
  from buffer_clients_safe [OF ok _ c0 this, of i "0x101" 3] c0 g' show ?thesis by simp
qed

end
