(* ===== verification/Inode_Cache.thy ===== *)
theory Inode_Cache
  imports Lru Pipe Blkdev
begin

text \<open>
  The inode cache of \<^verbatim>\<open>src/src/fs/inode.c\<close>: 2048 inodes in an array, found by device and inode number
  through 256 hash lists, reused in the order of the list \<^verbatim>\<open>lru\<close>. Inodes are named by their index.
  The bits of \<^verbatim>\<open>i_state\<close> are boolean fields, and \<open>i_rest\<close> stands for the fields that only the
  file systems use. The operations of a file system are part of the table of super blocks: reading an inode is a
  function on it; writing, clearing and dropping cached pages are recorded as calls.
  A result \<^term>\<open>None\<close> means that the caller sleeps because every inode is in use, or that an assertion
  fails. Counts are natural numbers; the semaphores of inodes are not part of the state.
\<close>

section \<open>Model\<close>

record inode =
  i_dev :: dev_t
  i_ino :: u32
  i_sb :: "nat option"
  i_mount :: "nat option"
  i_count :: nat
  i_mode :: u16
  i_block_size :: u32
  i_dirty :: bool
  i_up2date :: bool
  i_pipe :: bool
  i_hashed :: bool
  i_socket :: bool
  pipe_i :: pipe
  i_rest :: "u8 list"

definition zero_pipe :: pipe where
  "zero_pipe = \<lparr>p_rb = \<lparr>rb_data = None, rb_size = 0, rb_head = 0, rb_tail = 0, rb_len = 0\<rparr>, n_reader = 0, n_writer = 0\<rparr>"

definition zero_inode :: inode where
  "zero_inode = \<lparr>i_dev = 0, i_ino = 0, i_sb = None, i_mount = None, i_count = 0, i_mode = 0, i_block_size = 0,
     i_dirty = False, i_up2date = False, i_pipe = False, i_hashed = False, i_socket = False,
     pipe_i = zero_pipe, i_rest = []\<rparr>"

record super_block =
  s_dev :: dev_t
  s_read_inode :: "(inode \<Rightarrow> inode) option"
  s_write_inode :: bool
  s_clear_inode :: bool

datatype icall = WriteInode nat | ClearInode nat | DropPages nat

record icache =
  inodes :: "nat \<Rightarrow> inode"
  i_lru :: "nat list"
  inode_hash :: "nat \<Rightarrow> nat list"
  icalls :: "icall list"

abbreviation NR_INODE :: nat where "NR_INODE \<equiv> 2048"

definition upd_inode :: "nat \<Rightarrow> (inode \<Rightarrow> inode) \<Rightarrow> icache \<Rightarrow> icache" where
  "upd_inode i f c = c\<lparr>inodes := (inodes c)(i := f (inodes c i))\<rparr>"

definition log_icall :: "icall \<Rightarrow> icache \<Rightarrow> icache" where
  "log_icall x c = c\<lparr>icalls := icalls c @ [x]\<rparr>"

definition hash_inode :: "dev_t \<Rightarrow> u32 \<Rightarrow> nat" where
  "hash_inode dev ino = unat ((ucast dev * 31 + ino :: u32) AND 255)"

definition inode_init :: "icache \<Rightarrow> icache" where
  "inode_init c = c\<lparr>inodes := (\<lambda>_. zero_inode), i_lru := [0..<NR_INODE], inode_hash := (\<lambda>_. [])\<rparr>"

definition find_inode :: "icache \<Rightarrow> super_block \<Rightarrow> u32 \<Rightarrow> nat option" where
  "find_inode c sb ino =
     find (\<lambda>i. i_dev (inodes c i) = s_dev sb \<and> i_ino (inodes c i) = ino) (inode_hash c (hash_inode (s_dev sb) ino))"

definition inode_invalidate :: "super_block \<Rightarrow> u32 \<Rightarrow> icache \<Rightarrow> icache" where
  "inode_invalidate sb ino c =
     (case find_inode c sb ino of
        None \<Rightarrow> c
      | Some i \<Rightarrow> log_icall (DropPages i) (upd_inode i (\<lambda>n. n\<lparr>i_up2date := False, i_dirty := False\<rparr>) c))"

definition inode_is_busy :: "icache \<Rightarrow> super_block \<Rightarrow> u32 \<Rightarrow> bool" where
  "inode_is_busy c sb ino = (case find_inode c sb ino of None \<Rightarrow> False | Some i \<Rightarrow> 0 < i_count (inodes c i))"

definition read_inode :: "(nat \<Rightarrow> super_block) \<Rightarrow> nat \<Rightarrow> icache \<Rightarrow> icache" where
  "read_inode sbs i c =
     (if i_up2date (inodes c i) then c
      else
        let c = (case i_sb (inodes c i) of
                   None \<Rightarrow> c
                 | Some b \<Rightarrow> (case s_read_inode (sbs b) of None \<Rightarrow> c | Some rd \<Rightarrow> upd_inode i rd c))
        in upd_inode i (\<lambda>n. n\<lparr>i_up2date := True, i_dirty := False\<rparr>) c)"

definition write_inode :: "(nat \<Rightarrow> super_block) \<Rightarrow> nat \<Rightarrow> icache \<Rightarrow> icache" where
  "write_inode sbs i c =
     (if \<not> i_up2date (inodes c i) \<or> \<not> i_dirty (inodes c i) then c
      else
        let c = (case i_sb (inodes c i) of
                   None \<Rightarrow> c
                 | Some b \<Rightarrow> if s_write_inode (sbs b) then log_icall (WriteInode i) c else c)
        in upd_inode i (\<lambda>n. n\<lparr>i_dirty := False\<rparr>) c)"

definition clear_inode :: "(nat \<Rightarrow> super_block) \<Rightarrow> nat \<Rightarrow> icache \<Rightarrow> icache" where
  "clear_inode sbs i c =
     (let c = log_icall (DropPages i) c;
          c = (case i_sb (inodes c i) of
                 None \<Rightarrow> c
               | Some b \<Rightarrow> if s_clear_inode (sbs b) then log_icall (ClearInode i) c else c);
          c = (if i_hashed (inodes c i) then c\<lparr>inode_hash := (\<lambda>h. remove1 i (inode_hash c h))\<rparr> else c)
      in upd_inode i (\<lambda>_. zero_inode) c)"

definition touch_inode :: "nat \<Rightarrow> icache \<Rightarrow> icache" where
  "touch_inode i c = c\<lparr>i_lru := lru_touch i (i_lru c)\<rparr>"

definition get_empty_inode :: "(nat \<Rightarrow> super_block) \<Rightarrow> icache \<Rightarrow> (nat \<times> icache) option" where
  "get_empty_inode sbs c =
     (let i = hd (i_lru c)
      in if i_count (inodes c i) \<noteq> 0 then None
         else
           let c = clear_inode sbs i c;
               c = upd_inode i (\<lambda>n. n\<lparr>i_count := 1\<rparr>) c
           in Some (i, touch_inode i c))"

definition get_pipe_inode :: "(nat \<Rightarrow> super_block) \<Rightarrow> icache \<Rightarrow> (nat \<times> icache) option" where
  "get_pipe_inode sbs c =
     (case get_empty_inode sbs c of
        None \<Rightarrow> None
      | Some (i, c) \<Rightarrow> Some (i, upd_inode i (\<lambda>n. n\<lparr>i_pipe := True, i_mode := 0x1000, i_block_size := 4096\<rparr>) c))"

definition get_socket_inode :: "(nat \<Rightarrow> super_block) \<Rightarrow> icache \<Rightarrow> (nat \<times> icache) option" where
  "get_socket_inode sbs c =
     (case get_empty_inode sbs c of
        None \<Rightarrow> None
      | Some (i, c) \<Rightarrow> Some (i, upd_inode i (\<lambda>n. n\<lparr>i_socket := True, i_mode := 0xc000, i_block_size := 4096\<rparr>) c))"

definition iref :: "nat \<Rightarrow> icache \<Rightarrow> icache" where
  "iref i = upd_inode i (\<lambda>n. n\<lparr>i_count := i_count n + 1\<rparr>)"

definition iput :: "(nat \<Rightarrow> super_block) \<Rightarrow> nat \<Rightarrow> icache \<Rightarrow> icache option" where
  "iput sbs i c =
     (if i_count (inodes c i) = 0 then None
      else
        let c = upd_inode i (\<lambda>n. n\<lparr>i_count := i_count n - 1\<rparr>) c
        in if i_count (inodes c i) = 0
           then let c = write_inode sbs i c;
                    c = c\<lparr>i_lru := into_lru_list (\<lambda>j. i_count (inodes c j)) i (i_lru c)\<rparr>
                in Some (if i_pipe (inodes c i)
                         then upd_inode i (\<lambda>n. n\<lparr>pipe_i := destroy_pipe_inode_info (pipe_i n), i_pipe := False,
                                i_up2date := False\<rparr>) c
                         else c)
           else Some c)"

text \<open>Finding or making the inode, under the lock.\<close>

definition iget_locked :: "(nat \<Rightarrow> super_block) \<Rightarrow> nat \<Rightarrow> u32 \<Rightarrow> icache \<Rightarrow> (nat \<times> icache) option" where
  "iget_locked sbs b ino c =
     (let sb = sbs b
      in case (case find_inode c sb ino of
                 Some i \<Rightarrow> Some (i, c)
               | None \<Rightarrow>
                   let i = hd (i_lru c)
                   in if i_count (inodes c i) \<noteq> 0 then None
                      else
                        let c = clear_inode sbs i c;
                            c = upd_inode i (\<lambda>n. n\<lparr>i_sb := Some b, i_dev := s_dev sb, i_ino := ino, i_mount := None\<rparr>) c;
                            h = hash_inode (s_dev sb) ino;
                            c = c\<lparr>inode_hash := (inode_hash c)(h := i # inode_hash c h)\<rparr>
                        in Some (i, upd_inode i (\<lambda>n. n\<lparr>i_hashed := True\<rparr>) c)) of
           None \<Rightarrow> None
         | Some (i, c) \<Rightarrow> Some (i, touch_inode i (upd_inode i (\<lambda>n. n\<lparr>i_count := i_count n + 1\<rparr>) c)))"

definition iget_from :: "(nat \<Rightarrow> super_block) \<Rightarrow> nat \<Rightarrow> u32 \<Rightarrow> bool \<Rightarrow> icache \<Rightarrow> (nat \<times> icache) option" where
  "iget_from sbs b ino crossmnt c =
     (case iget_locked sbs b ino c of
        None \<Rightarrow> None
      | Some (i, c) \<Rightarrow>
          let c = read_inode sbs i (write_inode sbs i c)
          in case (if crossmnt then i_mount (inodes c i) else None) of
               None \<Rightarrow> Some (i, c)
             | Some tmp \<Rightarrow> map_option (\<lambda>c. (tmp, c)) (iput sbs i (iref tmp c)))"

definition iget :: "(nat \<Rightarrow> super_block) \<Rightarrow> nat \<Rightarrow> u32 \<Rightarrow> icache \<Rightarrow> (nat \<times> icache) option" where
  "iget sbs b ino c = iget_from sbs b ino True c"

definition fs_may_mount :: "dev_t \<Rightarrow> icache \<Rightarrow> bool" where
  "fs_may_mount dev c =
     list_all (\<lambda>i. i_dev (inodes c i) \<noteq> dev \<or>
       \<not> (i_count (inodes c i) \<noteq> 0 \<or> i_up2date (inodes c i) \<and> i_dirty (inodes c i))) (i_lru c)"

definition fs_may_umount :: "nat \<Rightarrow> nat \<Rightarrow> icache \<Rightarrow> bool" where
  "fs_may_umount b mount_root c =
     list_all (\<lambda>i. i_sb (inodes c i) \<noteq> Some b \<or> i_count (inodes c i) = 0 \<or>
       i = mount_root \<and> i_count (inodes c i) = 1) (i_lru c)"


section \<open>Invariant\<close>

text \<open>A super block in use for a device. The devices differ, because mounting looks for the device
  first; the file systems without a device do not use the hash lists.\<close>

abbreviation NR_SUPER :: nat where "NR_SUPER \<equiv> 32"

definition sb_used :: "(nat \<Rightarrow> super_block) \<Rightarrow> nat \<Rightarrow> bool" where
  "sb_used sbs b \<longleftrightarrow> b < NR_SUPER \<and> s_dev (sbs b) \<noteq> 0"

text \<open>Reading an inode fills in only what the file system keeps in it.\<close>

definition sbs_ok :: "(nat \<Rightarrow> super_block) \<Rightarrow> bool" where
  "sbs_ok sbs \<longleftrightarrow> inj_on (\<lambda>b. s_dev (sbs b)) {b. sb_used sbs b} \<and>
     (\<forall>b rd n. s_read_inode (sbs b) = Some rd \<longrightarrow> i_dev (rd n) = i_dev n \<and> i_ino (rd n) = i_ino n \<and>
        i_sb (rd n) = i_sb n \<and> i_count (rd n) = i_count n \<and> i_hashed (rd n) = i_hashed n \<and> i_mount (rd n) = i_mount n)"

text \<open>The identity of an inode.\<close>

definition ident :: "inode \<Rightarrow> dev_t \<times> u32 \<times> nat option \<times> bool" where
  "ident n = (i_dev n, i_ino n, i_sb n, i_hashed n)"

definition hashed_at :: "icache \<Rightarrow> nat \<Rightarrow> nat \<Rightarrow> bool" where
  "hashed_at c h i \<longleftrightarrow> i < NR_INODE \<and> i_hashed (inodes c i) \<and> hash_inode (i_dev (inodes c i)) (i_ino (inodes c i)) = h"

definition icache_ok :: "(nat \<Rightarrow> super_block) \<Rightarrow> icache \<Rightarrow> bool" where
  "icache_ok sbs c \<longleftrightarrow>
     lru_wf (\<lambda>i. i_count (inodes c i)) NR_INODE (i_lru c) \<and>
     (\<forall>h. distinct (inode_hash c h) \<and> set (inode_hash c h) = {i. hashed_at c h i}) \<and>
     (\<forall>i < NR_INODE. \<forall>j < NR_INODE. i_hashed (inodes c i) \<and> i_hashed (inodes c j) \<and>
        i_dev (inodes c i) = i_dev (inodes c j) \<and> i_ino (inodes c i) = i_ino (inodes c j) \<longrightarrow> i = j) \<and>
     (\<forall>i < NR_INODE. i_hashed (inodes c i) \<longrightarrow>
        (\<exists>b. i_sb (inodes c i) = Some b \<and> sb_used sbs b \<and> s_dev (sbs b) = i_dev (inodes c i)))"

lemma icache_okD:
  assumes "icache_ok sbs c"
  shows "lru_wf (\<lambda>i. i_count (inodes c i)) NR_INODE (i_lru c)"
    "distinct (inode_hash c h)" "set (inode_hash c h) = {i. hashed_at c h i}"
    "i < NR_INODE \<Longrightarrow> j < NR_INODE \<Longrightarrow> i_hashed (inodes c i) \<Longrightarrow> i_hashed (inodes c j) \<Longrightarrow>
      i_dev (inodes c i) = i_dev (inodes c j) \<Longrightarrow> i_ino (inodes c i) = i_ino (inodes c j) \<Longrightarrow> i = j"
    "i < NR_INODE \<Longrightarrow> i_hashed (inodes c i) \<Longrightarrow> \<exists>b. i_sb (inodes c i) = Some b \<and> sb_used sbs b \<and> s_dev (sbs b) = i_dev (inodes c i)"
  using assms unfolding icache_ok_def by blast+

lemma icache_okI:
  assumes "lru_wf (\<lambda>i. i_count (inodes c i)) NR_INODE (i_lru c)"
    "\<And>h. distinct (inode_hash c h)" "\<And>h. set (inode_hash c h) = {i. hashed_at c h i}"
    "\<And>i j. i < NR_INODE \<Longrightarrow> j < NR_INODE \<Longrightarrow> i_hashed (inodes c i) \<Longrightarrow> i_hashed (inodes c j) \<Longrightarrow>
      i_dev (inodes c i) = i_dev (inodes c j) \<Longrightarrow> i_ino (inodes c i) = i_ino (inodes c j) \<Longrightarrow> i = j"
    "\<And>i. i < NR_INODE \<Longrightarrow> i_hashed (inodes c i) \<Longrightarrow> \<exists>b. i_sb (inodes c i) = Some b \<and> sb_used sbs b \<and> s_dev (sbs b) = i_dev (inodes c i)"
  shows "icache_ok sbs c"
  unfolding icache_ok_def using assms by blast

text \<open>A change that leaves the identities and the hash lists alone.\<close>

lemma icache_ok_same:
  assumes ok: "icache_ok sbs c" and same: "\<And>i. ident (inodes c' i) = ident (inodes c i)"
    and hash: "inode_hash c' = inode_hash c" and lru: "lru_wf (\<lambda>i. i_count (inodes c' i)) NR_INODE (i_lru c')"
  shows "icache_ok sbs c'"
proof -
  have eq: "i_dev (inodes c' i) = i_dev (inodes c i)" "i_ino (inodes c' i) = i_ino (inodes c i)"
    "i_sb (inodes c' i) = i_sb (inodes c i)" "i_hashed (inodes c' i) = i_hashed (inodes c i)" for i
    using same [of i] by (simp_all add: ident_def)
  have "hashed_at c' = hashed_at c" by (simp add: hashed_at_def fun_eq_iff eq)
  then show ?thesis
    using icache_okD [OF ok] lru by (intro icache_okI) (auto simp: eq hash)
qed

lemma inodes_upd [simp]: "inodes (upd_inode i f c) j = (if j = i then f (inodes c i) else inodes c j)"
  "i_lru (upd_inode i f c) = i_lru c" "inode_hash (upd_inode i f c) = inode_hash c"
  by (simp_all add: upd_inode_def)

lemma log_icall_frame [simp]: "inodes (log_icall x c) = inodes c" "i_lru (log_icall x c) = i_lru c"
  "inode_hash (log_icall x c) = inode_hash c"
  by (simp_all add: log_icall_def)

lemma write_inode_frame:
  "inodes (write_inode sbs i c) j = (inodes c j)\<lparr>i_dirty := i_dirty (inodes (write_inode sbs i c) j)\<rparr>"
  "i_lru (write_inode sbs i c) = i_lru c" "inode_hash (write_inode sbs i c) = inode_hash c"
  by (auto simp: write_inode_def Let_def split: option.split)

lemma read_inode_frame:
  assumes "sbs_ok sbs"
  shows "ident (inodes (read_inode sbs i c) j) = ident (inodes c j)"
    "i_count (inodes (read_inode sbs i c) j) = i_count (inodes c j)"
    "i_mount (inodes (read_inode sbs i c) j) = i_mount (inodes c j)"
    "i_lru (read_inode sbs i c) = i_lru c" "inode_hash (read_inode sbs i c) = inode_hash c"
  using assms by (auto simp: read_inode_def Let_def sbs_ok_def ident_def split: option.split)

lemma clear_inode_eqs [simp]:
  "inodes (clear_inode sbs i c) j = (if j = i then zero_inode else inodes c j)"
  "i_lru (clear_inode sbs i c) = i_lru c"
  "inode_hash (clear_inode sbs i c) h = (if i_hashed (inodes c i) then remove1 i (inode_hash c h) else inode_hash c h)"
  by (auto simp: clear_inode_def Let_def split: option.split)

lemma clear_inode_ok:
  assumes ok: "icache_ok sbs c" and i: "i < NR_INODE" "i_count (inodes c i) = 0"
  shows "icache_ok sbs (clear_inode sbs i c)"
proof (rule icache_okI)
  let ?c = "clear_inode sbs i c"
  have "lru_wf (\<lambda>j. i_count (inodes ?c j)) NR_INODE (i_lru c)"
    by (rule lru_wf_same [OF _ icache_okD(1) [OF ok]]) (auto simp: i zero_inode_def)
  then show "lru_wf (\<lambda>j. i_count (inodes ?c j)) NR_INODE (i_lru ?c)" by simp
  show "distinct (inode_hash ?c h)" for h using icache_okD(2) [OF ok] by simp
  show "set (inode_hash ?c h) = {i. hashed_at ?c h i}" for h
    using icache_okD(2,3) [OF ok, of h] by (auto simp: hashed_at_def zero_inode_def)
qed (use icache_okD(4,5) [OF ok] in \<open>auto simp: zero_inode_def split: if_splits\<close>)

lemma lru_hd_free:
  assumes "icache_ok sbs c"
  shows "hd (i_lru c) < NR_INODE"
  by (rule lru_wf_hd(1) [OF icache_okD(1) [OF assms]]) simp

lemma touch_ok:
  assumes ok: "icache_ok sbs c" and i: "i < NR_INODE" "i_count (inodes c' i) \<noteq> 0"
    and c': "\<And>j. ident (inodes c' j) = ident (inodes c j)" "\<And>j. j \<noteq> i \<Longrightarrow> i_count (inodes c' j) = i_count (inodes c j)"
    "inode_hash c' = inode_hash c" "i_lru c' = i_lru c"
  shows "icache_ok sbs (touch_inode i c')"
proof (rule icache_ok_same [OF ok])
  have "lru_wf (\<lambda>j. i_count (inodes c' j)) NR_INODE (lru_touch i (i_lru c))"
    by (rule lru_touch_wf [where cnt = "\<lambda>j. i_count (inodes c j)"]) (use icache_okD(1) [OF ok] i c' in auto)
  then show "lru_wf (\<lambda>j. i_count (inodes (touch_inode i c') j)) NR_INODE (i_lru (touch_inode i c'))"
    by (simp add: touch_inode_def c'(4))
qed (simp_all add: touch_inode_def c')


section \<open>Getting and putting inodes\<close>

definition icache_inv :: "(nat \<Rightarrow> super_block) \<Rightarrow> icache \<Rightarrow> bool" where
  "icache_inv sbs c \<longleftrightarrow> sbs_ok sbs \<and> icache_ok sbs c \<and> (\<forall>i. i_count (inodes c i) \<noteq> 0 \<longrightarrow> i < NR_INODE)"

lemma icache_invD:
  assumes "icache_inv sbs c"
  shows "sbs_ok sbs" "icache_ok sbs c" "i_count (inodes c i) \<noteq> 0 \<Longrightarrow> i < NR_INODE"
  using assms by (auto simp: icache_inv_def)

text \<open>The key under which an inode is found.\<close>

definition inode_key :: "icache \<Rightarrow> nat \<Rightarrow> (nat \<times> u32) option" where
  "inode_key c i =
     (if i_hashed (inodes c i) then map_option (\<lambda>b. (b, i_ino (inodes c i))) (i_sb (inodes c i)) else None)"

lemma inode_key_ident: "ident (inodes c' i) = ident (inodes c i) \<Longrightarrow> inode_key c' i = inode_key c i"
  by (simp add: inode_key_def ident_def)

lemma find_inodeD:
  assumes ok: "icache_ok sbs c" "sbs_ok sbs" "sb_used sbs b" and f: "find_inode c (sbs b) ino = Some i"
  shows "i < NR_INODE" "i_hashed (inodes c i)" "i_sb (inodes c i) = Some b" "i_ino (inodes c i) = ino"
proof -
  let ?h = "hash_inode (s_dev (sbs b)) ino"
  have "i \<in> set (inode_hash c ?h)" and d: "i_dev (inodes c i) = s_dev (sbs b)" "i_ino (inodes c i) = ino"
    using f by (auto simp: find_inode_def find_Some_iff)
  then have "hashed_at c ?h i" using icache_okD(3) [OF ok(1)] by simp
  then show i: "i < NR_INODE" "i_hashed (inodes c i)" by (simp_all add: hashed_at_def)
  obtain b' where "i_sb (inodes c i) = Some b'" "sb_used sbs b'" "s_dev (sbs b') = s_dev (sbs b)"
    using icache_okD(5) [OF ok(1) i] d by auto
  then show "i_sb (inodes c i) = Some b"
    using ok(2,3) by (auto simp: sbs_ok_def dest: inj_onD)
  show "i_ino (inodes c i) = ino" by (rule d)
qed

lemma find_inode_NoneD:
  assumes ok: "icache_ok sbs c" and f: "find_inode c (sbs b) ino = None"
    and j: "j < NR_INODE" "i_hashed (inodes c j)" "i_dev (inodes c j) = s_dev (sbs b)"
  shows "i_ino (inodes c j) \<noteq> ino"
proof
  assume ino: "i_ino (inodes c j) = ino"
  then have "j \<in> set (inode_hash c (hash_inode (s_dev (sbs b)) ino))"
    using j icache_okD(3) [OF ok] by (simp add: hashed_at_def)
  with f j(3) ino show False by (auto simp: find_inode_def find_None_iff)
qed

text \<open>Entering a cleared inode under a new key.\<close>

definition enter_inode :: "(nat \<Rightarrow> super_block) \<Rightarrow> nat \<Rightarrow> nat \<Rightarrow> u32 \<Rightarrow> icache \<Rightarrow> icache" where
  "enter_inode sbs i b ino c =
     (let sb = sbs b;
          c = upd_inode i (\<lambda>n. n\<lparr>i_sb := Some b, i_dev := s_dev sb, i_ino := ino, i_mount := None\<rparr>) c;
          h = hash_inode (s_dev sb) ino;
          c = c\<lparr>inode_hash := (inode_hash c)(h := i # inode_hash c h)\<rparr>
      in upd_inode i (\<lambda>n. n\<lparr>i_hashed := True\<rparr>) c)"

lemma enter_inode_eqs [simp]:
  "inodes (enter_inode sbs i b ino c) j = (if j = i then (inodes c i)\<lparr>i_sb := Some b, i_dev := s_dev (sbs b),
     i_ino := ino, i_mount := None, i_hashed := True\<rparr> else inodes c j)"
  "i_lru (enter_inode sbs i b ino c) = i_lru c"
  "inode_hash (enter_inode sbs i b ino c) h =
     (if h = hash_inode (s_dev (sbs b)) ino then i # inode_hash c h else inode_hash c h)"
  by (simp_all add: enter_inode_def Let_def upd_inode_def)

lemma enter_inode_ok:
  assumes ok: "icache_ok sbs c" and i: "i < NR_INODE" "\<not> i_hashed (inodes c i)" and b: "sb_used sbs b"
    and new: "\<And>j. j < NR_INODE \<Longrightarrow> i_hashed (inodes c j) \<Longrightarrow> i_dev (inodes c j) = s_dev (sbs b) \<Longrightarrow> i_ino (inodes c j) \<noteq> ino"
  shows "icache_ok sbs (enter_inode sbs i b ino c)"
proof (rule icache_okI)
  let ?c = "enter_inode sbs i b ino c"
  show "lru_wf (\<lambda>j. i_count (inodes ?c j)) NR_INODE (i_lru ?c)"
    by (rule lru_wf_same [where cnt = "\<lambda>j. i_count (inodes c j)"]) (use icache_okD(1) [OF ok] in auto)
  have "i \<notin> set (inode_hash c h)" for h
    using i icache_okD(3) [OF ok] by (simp add: hashed_at_def)
  then show "distinct (inode_hash ?c h)" for h using icache_okD(2) [OF ok] by simp
  show "set (inode_hash ?c h) = {j. hashed_at ?c h j}" for h
    using icache_okD(3) [OF ok, of h] i by (auto simp: hashed_at_def)
qed (use new b icache_okD(4,5) [OF ok] in \<open>auto split: if_splits\<close>)

lemma iget_locked_cases:
  assumes "iget_locked sbs b ino c = Some (i, c')"
  obtains (hit) "find_inode c (sbs b) ino = Some i"
      "c' = touch_inode i (upd_inode i (\<lambda>n. n\<lparr>i_count := i_count n + 1\<rparr>) c)"
  | (miss) "find_inode c (sbs b) ino = None" "i = hd (i_lru c)" "i_count (inodes c i) = 0"
      "c' = touch_inode i (upd_inode i (\<lambda>n. n\<lparr>i_count := i_count n + 1\<rparr>) (enter_inode sbs i b ino (clear_inode sbs i c)))"
  using assms unfolding iget_locked_def Let_def enter_inode_def
  by (auto split: option.splits if_splits)

lemma touch_inode_eqs [simp]: "inodes (touch_inode i c) = inodes c" "inode_hash (touch_inode i c) = inode_hash c"
  by (simp_all add: touch_inode_def)

lemma iget_locked_ok:
  assumes inv: "icache_inv sbs c" and b: "sb_used sbs b" and g: "iget_locked sbs b ino c = Some (i, c')"
  shows "icache_inv sbs c'" "inode_key c' i = Some (b, ino)"
    "i_count (inodes c' j) = i_count (inodes c j) + (if j = i then 1 else 0)"
    "i_count (inodes c j) \<noteq> 0 \<Longrightarrow> ident (inodes c' j) = ident (inodes c j)"
proof -
  note ok = icache_invD(2) [OF inv] and sok = icache_invD(1) [OF inv]
  have "icache_ok sbs c' \<and> i < NR_INODE \<and> inode_key c' i = Some (b, ino) \<and>
      (\<forall>j. i_count (inodes c' j) = i_count (inodes c j) + (if j = i then 1 else 0)) \<and>
      (\<forall>j. i_count (inodes c j) \<noteq> 0 \<longrightarrow> ident (inodes c' j) = ident (inodes c j))"
    using g
  proof (cases rule: iget_locked_cases)
    case hit
    note F = find_inodeD [OF ok sok b hit(1)]
    have "icache_ok sbs c'" unfolding hit(2) by (rule touch_ok [OF ok F(1)]) (simp_all add: ident_def)
    then show ?thesis using F by (simp add: hit(2) inode_key_def ident_def)
  next
    case miss
    let ?c = "enter_inode sbs i b ino (clear_inode sbs i c)"
    have i: "i < NR_INODE" using lru_hd_free [OF ok] miss(2) by simp
    have "icache_ok sbs ?c"
      by (rule enter_inode_ok [OF clear_inode_ok [OF ok i miss(3)] i _ b])
        (use find_inode_NoneD [OF ok miss(1)] in \<open>auto simp: zero_inode_def split: if_splits\<close>)
    then have "icache_ok sbs c'" unfolding miss(4) by (rule touch_ok [OF _ i]) (simp_all add: ident_def)
    then show ?thesis using i miss(3) by (simp add: miss(4) inode_key_def ident_def zero_inode_def)
  qed
  then show "icache_inv sbs c'" "inode_key c' i = Some (b, ino)"
    "i_count (inodes c' j) = i_count (inodes c j) + (if j = i then 1 else 0)"
    "i_count (inodes c j) \<noteq> 0 \<Longrightarrow> ident (inodes c' j) = ident (inodes c j)"
    using inv by (auto simp: icache_inv_def split: if_splits)
qed

lemma same_inv:
  assumes inv: "icache_inv sbs c" and c': "\<And>j. ident (inodes c' j) = ident (inodes c j)"
    "\<And>j. i_count (inodes c' j) = i_count (inodes c j)" "inode_hash c' = inode_hash c" "i_lru c' = i_lru c"
  shows "icache_inv sbs c'"
  using icache_ok_same [OF icache_invD(2) [OF inv], of c'] icache_okD(1) [OF icache_invD(2) [OF inv]] inv c'
  by (simp add: icache_inv_def)

lemma write_inode_same:
  "ident (inodes (write_inode sbs i c) j) = ident (inodes c j)"
  "i_count (inodes (write_inode sbs i c) j) = i_count (inodes c j)"
  by (subst write_inode_frame(1), simp add: ident_def)+

lemma iget_from_ok:
  assumes inv: "icache_inv sbs c" and b: "sb_used sbs b" and g: "iget_from sbs b ino False c = Some (i, c')"
  shows "icache_inv sbs c'" "inode_key c' i = Some (b, ino)"
    "i_count (inodes c' j) = i_count (inodes c j) + (if j = i then 1 else 0)"
    "i_count (inodes c j) \<noteq> 0 \<Longrightarrow> inode_key c' j = inode_key c j"
proof -
  obtain c1 where l: "iget_locked sbs b ino c = Some (i, c1)" and c': "c' = read_inode sbs i (write_inode sbs i c1)"
    using g by (auto simp: iget_from_def Let_def split: option.splits)
  note L = iget_locked_ok [OF inv b l]
  note R = read_inode_frame [OF icache_invD(1) [OF inv]] write_inode_same write_inode_frame(2,3)
  show "icache_inv sbs c'" by (rule same_inv [OF L(1)]) (simp_all add: c' R)
  have id: "ident (inodes c' j) = ident (inodes c1 j)" for j by (simp add: c' R)
  show "inode_key c' i = Some (b, ino)" using inode_key_ident [OF id] L(2) by simp
  show "i_count (inodes c' j) = i_count (inodes c j) + (if j = i then 1 else 0)" using L(3) by (simp add: c' R)
  show "inode_key c' j = inode_key c j" if "i_count (inodes c j) \<noteq> 0"
    using inode_key_ident [of c' j c] id L(4) [OF that] by simp
qed

lemma iput_eq:
  assumes "i_count (inodes c i) \<noteq> 0"
  obtains c' where "iput sbs i c = Some c'" "\<And>j. ident (inodes c' j) = ident (inodes c j)"
    "\<And>j. i_count (inodes c' j) = i_count (inodes c j) - (if j = i then 1 else 0)" "inode_hash c' = inode_hash c"
    "i_lru c' = (if i_count (inodes c i) = 1 then into_lru_list (\<lambda>j. i_count (inodes c' j)) i (i_lru c) else i_lru c)"
proof (cases "i_count (inodes c i) = 1")
  case False
  let ?c1 = "upd_inode i (\<lambda>n. n\<lparr>i_count := i_count n - 1\<rparr>) c"
  have "iput sbs i c = Some ?c1" using assms False by (simp add: iput_def Let_def)
  then show thesis by (rule that) (use False in \<open>auto simp: ident_def\<close>)
next
  case True
  let ?c1 = "upd_inode i (\<lambda>n. n\<lparr>i_count := i_count n - 1\<rparr>) c"
  define c2 where "c2 = write_inode sbs i ?c1"
  let ?cnt = "\<lambda>j. i_count (inodes c2 j)"
  let ?f = "\<lambda>n. n\<lparr>pipe_i := destroy_pipe_inode_info (pipe_i n), i_pipe := False, i_up2date := False\<rparr>"
  define c3 where "c3 = c2\<lparr>i_lru := into_lru_list ?cnt i (i_lru c2)\<rparr>"
  define c4 where "c4 = (if i_pipe (inodes c3 i) then upd_inode i ?f c3 else c3)"
  have 2: "ident (inodes c2 j) = ident (inodes c j)" "i_count (inodes c2 j) = i_count (inodes c j) - (if j = i then 1 else 0)"
    "inode_hash c2 = inode_hash c" "i_lru c2 = i_lru c" for j
    unfolding c2_def by (simp_all add: write_inode_same write_inode_frame(2,3)) (simp add: ident_def)
  have 3: "inodes c3 = inodes c2" "inode_hash c3 = inode_hash c2" "i_lru c3 = into_lru_list ?cnt i (i_lru c)"
    by (simp_all add: c3_def 2)
  have 4: "ident (inodes c4 j) = ident (inodes c3 j)" "i_count (inodes c4 j) = i_count (inodes c3 j)"
    "inode_hash c4 = inode_hash c3" "i_lru c4 = i_lru c3" for j
    by (simp_all add: c4_def ident_def)
  have "iput sbs i c = Some c4"
    using True by (simp add: iput_def Let_def c4_def c3_def c2_def)
  then show thesis by (rule that) (use True in \<open>simp_all add: 2 3 4\<close>)
qed

lemma iput_ok:
  assumes inv: "icache_inv sbs c" and n: "i_count (inodes c i) \<noteq> 0"
  obtains c' where "iput sbs i c = Some c'" "icache_inv sbs c'"
    "\<And>j. i_count (inodes c' j) = i_count (inodes c j) - (if j = i then 1 else 0)"
    "\<And>j. ident (inodes c' j) = ident (inodes c j)"
proof -
  note ok = icache_invD(2) [OF inv] and i = icache_invD(3) [OF inv n]
  obtain c' where c': "iput sbs i c = Some c'" "\<And>j. ident (inodes c' j) = ident (inodes c j)"
    "\<And>j. i_count (inodes c' j) = i_count (inodes c j) - (if j = i then 1 else 0)" "inode_hash c' = inode_hash c"
    "i_lru c' = (if i_count (inodes c i) = 1 then into_lru_list (\<lambda>j. i_count (inodes c' j)) i (i_lru c) else i_lru c)"
    using iput_eq [OF n, of sbs thesis] by blast
  have "lru_wf (\<lambda>j. i_count (inodes c' j)) NR_INODE (i_lru c')"
  proof (cases "i_count (inodes c i) = 1")
    case True
    have "lru_wf (\<lambda>j. i_count (inodes c' j)) NR_INODE (into_lru_list (\<lambda>j. i_count (inodes c' j)) i (i_lru c))"
      by (rule into_lru_list_wf [OF icache_okD(1) [OF ok] i]) (simp_all add: c'(3) True)
    then show ?thesis by (simp add: c'(5) True)
  next
    case False
    then show ?thesis using n c'(3) icache_okD(1) [OF ok]
      by (auto simp: c'(5) intro!: lru_wf_same [OF _ icache_okD(1) [OF ok]] split: if_splits)
  qed
  then have "icache_ok sbs c'" by (rule icache_ok_same [OF ok c'(2,4)])
  then have "icache_inv sbs c'" using inv c'(3) by (auto simp: icache_inv_def)
  with c' that show thesis by blast
qed

lemma get_pipe_inode_ok:
  assumes inv: "icache_inv sbs c" and g: "get_pipe_inode sbs c = Some (i, c')"
  shows "icache_inv sbs c'" "inode_key c' i = None"
    "i_count (inodes c' j) = i_count (inodes c j) + (if j = i then 1 else 0)"
    "i_count (inodes c j) \<noteq> 0 \<Longrightarrow> inode_key c' j = inode_key c j"
proof -
  note ok = icache_invD(2) [OF inv]
  have i: "i = hd (i_lru c)" "i_count (inodes c i) = 0"
    using g by (auto simp: get_pipe_inode_def get_empty_inode_def Let_def split: option.splits if_splits)
  then have lt: "i < NR_INODE" using lru_hd_free [OF ok] by simp
  let ?c = "upd_inode i (\<lambda>n. n\<lparr>i_count := 1, i_pipe := True, i_mode := 0x1000, i_block_size := 4096\<rparr>) (clear_inode sbs i c)"
  have c': "c' = touch_inode i ?c"
    using g i by (auto simp: get_pipe_inode_def get_empty_inode_def Let_def touch_inode_def upd_inode_def)
  have "icache_ok sbs c'"
    unfolding c' by (rule touch_ok [OF clear_inode_ok [OF ok lt i(2)] lt]) (simp_all add: ident_def)
  then show "icache_inv sbs c'" using inv lt by (auto simp: icache_inv_def c' split: if_splits)
  show "inode_key c' i = None" by (simp add: c' inode_key_def zero_inode_def)
  show "i_count (inodes c' j) = i_count (inodes c j) + (if j = i then 1 else 0)" using i by (simp add: c')
  show "i_count (inodes c j) \<noteq> 0 \<Longrightarrow> inode_key c' j = inode_key c j" using i by (auto simp: c' inode_key_def)
qed

text \<open>What a client asks for: a numbered inode of a file system, or a new pipe.\<close>

definition inode_get :: "(nat \<Rightarrow> super_block) \<Rightarrow> (nat \<times> u32) option \<Rightarrow> icache \<Rightarrow> (nat \<times> icache) option" where
  "inode_get sbs k c = (case k of Some (b, ino) \<Rightarrow> if sb_used sbs b then iget_from sbs b ino False c else None | None \<Rightarrow> get_pipe_inode sbs c)"

lemma inode_get_ok:
  assumes "icache_inv sbs c" "inode_get sbs k c = Some (i, c')"
  shows "icache_inv sbs c' \<and> inode_key c' i = k \<and>
    i_count (inodes c' j) = i_count (inodes c j) + (if j = i then 1 else 0) \<and>
    (i_count (inodes c j) \<noteq> 0 \<longrightarrow> inode_key c' j = inode_key c j)"
proof (cases k)
  case None
  with assms(2) have "get_pipe_inode sbs c = Some (i, c')" by (simp add: inode_get_def)
  from get_pipe_inode_ok [OF assms(1) this] None show ?thesis by simp
next
  case (Some bi)
  with assms(2) have "sb_used sbs (fst bi)" "iget_from sbs (fst bi) (snd bi) False c = Some (i, c')"
    by (auto simp: inode_get_def prod.case_eq_if split: if_splits)
  from iget_from_ok [OF assms(1) this] Some show ?thesis by simp
qed

interpretation ic: object_cache "icache_inv sbs" "\<lambda>c i. i_count (inodes c i)" inode_key "\<lambda>k. k \<noteq> None"
  "inode_get sbs" "iput sbs" for sbs
proof (unfold_locales, goal_cases)
  case (1 c k i c') then show ?case using inode_get_ok by blast
next
  case (2 c k i c') then show ?case using inode_get_ok by blast
next
  case (3 c k i c' j) then show ?case using inode_get_ok by blast
next
  case (4 c k i c' j) then show ?case using inode_get_ok by blast
next
  case (5 c i) then show ?case using iput_ok by metis
next
  case (6 c i c') then show ?case using iput_ok by (metis option.inject)
next
  case (7 c i c' j) then show ?case using iput_ok by (metis option.inject)
next
  case (8 c i c' j) then show ?case using iput_ok inode_key_ident by (metis option.inject)
next
  case (9 c i j)
  note ok = icache_invD(2) [OF 9(1)] and lt = icache_invD(3) [OF 9(1) 9(2)] icache_invD(3) [OF 9(1) 9(3)]
  obtain b where h: "i_hashed (inodes c i)" "i_hashed (inodes c j)" "i_sb (inodes c i) = Some b" "i_sb (inodes c j) = Some b"
    "i_ino (inodes c i) = i_ino (inodes c j)"
    using 9(4,5) by (auto simp: inode_key_def split: if_splits)
  show ?case
    by (rule icache_okD(4) [OF ok lt h(1,2) _ h(5)]) (use icache_okD(5) [OF ok lt(1) h(1)] icache_okD(5) [OF ok lt(2) h(2)] h in auto)
qed

section \<open>Properties\<close>

lemma inode_init_inv:
  assumes "sbs_ok sbs"
  shows "icache_inv sbs (inode_init c)" "i_count (inodes (inode_init c) i) = 0"
proof -
  have "lru_wf (\<lambda>i. i_count (inodes (inode_init c) i)) NR_INODE [0..<NR_INODE]"
    by (rule lru_wf_init) (simp add: inode_init_def zero_inode_def)
  then have "icache_ok sbs (inode_init c)"
    by (intro icache_okI) (simp_all add: inode_init_def hashed_at_def zero_inode_def del: upt_Suc)
  with assms show "icache_inv sbs (inode_init c)"
    by (simp add: icache_inv_def inode_init_def zero_inode_def del: upt_Suc)
  show "i_count (inodes (inode_init c) i) = 0" by (simp add: inode_init_def zero_inode_def)
qed

text \<open>C18: Whatever a set of clients gets from the cache and puts back, an inode that somebody holds
  keeps its file system and number; all who hold the same numbered inode hold the same object;
  every reference can be put back; and a request waits only when the inode is
  not cached and all 2048 inodes are held.\<close>

theorem inode_clients_safe:
  assumes "sbs_ok sbs" "cache_client (inode_get sbs) (iput sbs) (inode_init c0) c hs"
  shows "((i, k) \<in> set hs \<longrightarrow> inode_key c i = k \<and> (\<exists>c'. iput sbs i c = Some c') \<and>
      (k \<noteq> None \<and> (j, k) \<in> set hs \<longrightarrow> j = i)) \<and>
    (inode_get sbs k c = None \<and> (\<forall>b ino. k = Some (b, ino) \<longrightarrow> sb_used sbs b) \<longrightarrow> (\<forall>i < NR_INODE. i \<in> fst ` set hs))"
proof -
  note I = inode_init_inv [OF assms(1)]
  have zero: "\<forall>i. i_count (inodes (inode_init c0) i) = 0" using I(2) by blast
  note S = ic.clients_safe [OF assms(2) I(1) zero] and V = ic.client_inv [OF assms(2) I(1) zero]
  have inv: "icache_inv sbs c" and cn: "i_count (inodes c i) = refs hs i" for i using V by auto
  have "i \<in> fst ` set hs" if n: "inode_get sbs k c = None" "\<forall>b ino. k = Some (b, ino) \<longrightarrow> sb_used sbs b" and i: "i < NR_INODE" for i
  proof -
    have "i_count (inodes c (hd (i_lru c))) \<noteq> 0"
      using n by (auto simp: inode_get_def get_pipe_inode_def get_empty_inode_def iget_from_def iget_locked_def
        Let_def split: option.splits if_splits)
    then have "i_count (inodes c i) \<noteq> 0"
      using lru_wf_hd(2) [OF icache_okD(1) [OF icache_invD(2) [OF inv]] _ _ i] by simp
    then have "refs hs i \<noteq> 0" using cn by simp
    then show ?thesis by (auto simp: refs_def filter_empty_conv image_iff)
  qed
  moreover have "(i, k) \<in> set hs \<longrightarrow> inode_key c i = k \<and> (\<exists>c'. iput sbs i c = Some c') \<and> (k \<noteq> None \<and> (j, k) \<in> set hs \<longrightarrow> j = i)"
    using S by blast
  ultimately show ?thesis by blast
qed

definition ramfs_example :: "nat \<Rightarrow> super_block" where
  "ramfs_example b = \<lparr>s_dev = (if b = 0 then 0x100 else if b = 1 then 0x301 else 0), s_read_inode = Some (\<lambda>n. n\<lparr>i_mode := 0x81a4\<rparr>), s_write_inode = True,
     s_clear_inode = False\<rparr>"

definition icache_example :: icache where
  "icache_example = \<lparr>inodes = (\<lambda>_. zero_inode), i_lru = [], inode_hash = (\<lambda>_. []), icalls = []\<rparr>"

lemma ramfs_example_ok: "sbs_ok ramfs_example"
  by (auto simp: sbs_ok_def ramfs_example_def inj_on_def sb_used_def split: if_splits)

theorem inode_clients_safe_witness:
  "\<exists>i c1 c2 c3. inode_get ramfs_example (Some (0, 7)) (inode_init icache_example) = Some (i, c1) \<and>
     inode_get ramfs_example (Some (0, 7)) c1 = Some (i, c2) \<and> inode_key c2 i = Some (0, 7) \<and>
     iput ramfs_example i c2 = Some c3"
proof -
  let ?get = "inode_get ramfs_example" and ?k = "Some (0, 7) :: (nat \<times> u32) option"
  let ?client = "cache_client ?get (iput ramfs_example) (inode_init icache_example)"
  have used: "sb_used ramfs_example 0" by (simp add: sb_used_def ramfs_example_def)
  note S = inode_clients_safe [OF ramfs_example_ok]
  have works: "?get ?k c \<noteq> None" if "?client c hs" "fst ` set hs \<subseteq> {i0}" for c hs i0
  proof
    assume "?get ?k c = None"
    with S [OF that(1), of _ ?k] used have all: "\<forall>i < NR_INODE. i \<in> fst ` set hs" by blast
    have "0 \<in> fst ` set hs" "1 \<in> fst ` set hs" using all by simp_all
    with that(2) show False by auto
  qed
  have c0: "?client (inode_init icache_example) []" by (rule client_start)
  obtain i c1 where g1: "?get ?k (inode_init icache_example) = Some (i, c1)"
    using works [OF c0, of 0] by auto
  have c1: "?client c1 [(i, ?k)]" by (rule client_get [OF c0 g1])
  obtain j c2 where g2: "?get ?k c1 = Some (j, c2)" using works [OF c1, of i] by auto
  have c2: "?client c2 [(j, ?k), (i, ?k)]" by (rule client_get [OF c1 g2])
  have "j = i" "inode_key c2 i = ?k" "\<exists>c'. iput ramfs_example i c2 = Some c'"
    using S [OF c2, of i ?k j] by simp_all
  with g1 g2 show ?thesis by blast
qed

end
