(* ===== verification/Files.thy ===== *)
theory Files
  imports Inode_Cache
begin

text \<open>
  Open files and descriptors: \<^verbatim>\<open>src/src/fs/file.c\<close>, \<^verbatim>\<open>src/src/fs/fcntl.c\<close>, \<^verbatim>\<open>sys_close\<close> of
  \<^verbatim>\<open>src/src/fs/open.c\<close>, and the creation of pipes in \<^verbatim>\<open>src/src/fs/pipe.c\<close>. The state has the table
  of 1024 open files, the inode cache, and the descriptor table of every task. Reference counts
  are natural numbers; the invariant bounds the count of a file by the 256 descriptors of a task, so that the
  sixteen bits it has in the code suffice. A result \<^term>\<open>None\<close> means a failed assertion, or
  waiting for a free inode. The release methods of the other subsystems do not touch this state.
\<close>

section \<open>Model\<close>

record fileobj =
  f_pos :: u64
  f_mode :: u16
  f_flags :: u16
  f_count :: nat
  f_inode :: "nat option"
  f_op :: "fops option"
  private_data :: u32

record files_struct =
  fds :: "nat \<Rightarrow> nat option"
  close_on_exec :: "nat set"

record fsys =
  ftable :: "nat \<Rightarrow> fileobj"
  icache :: icache
  tasks :: "nat \<Rightarrow> files_struct"

abbreviation NR_FILE :: nat where "NR_FILE \<equiv> 1024"
abbreviation NR_OPEN :: nat where "NR_OPEN \<equiv> 256"

definition upd_file :: "nat \<Rightarrow> (fileobj \<Rightarrow> fileobj) \<Rightarrow> fsys \<Rightarrow> fsys" where
  "upd_file f g s = s\<lparr>ftable := (ftable s)(f := g (ftable s f))\<rparr>"

definition upd_pipe :: "nat \<Rightarrow> (pipe \<Rightarrow> pipe) \<Rightarrow> fsys \<Rightarrow> fsys" where
  "upd_pipe i g s = s\<lparr>icache := upd_inode i (\<lambda>n. n\<lparr>pipe_i := g (pipe_i n)\<rparr>) (icache s)\<rparr>"

definition set_fd :: "nat \<Rightarrow> nat \<Rightarrow> nat option \<Rightarrow> fsys \<Rightarrow> fsys" where
  "set_fd t n v s = s\<lparr>tasks := (tasks s)(t := (tasks s t)\<lparr>fds := (fds (tasks s t))(n := v)\<rparr>)\<rparr>"

definition set_cloexec :: "nat \<Rightarrow> nat \<Rightarrow> bool \<Rightarrow> fsys \<Rightarrow> fsys" where
  "set_cloexec t n b s = s\<lparr>tasks := (tasks s)(t := (tasks s t)\<lparr>close_on_exec :=
     (if b then insert n (close_on_exec (tasks s t)) else close_on_exec (tasks s t) - {n})\<rparr>)\<rparr>"

definition S_ISFIFO :: "u16 \<Rightarrow> bool" where
  "S_ISFIFO mode \<longleftrightarrow> mode AND 0xf000 = 0x1000"

definition fresh_file :: "fileobj \<Rightarrow> fileobj" where
  "fresh_file f = f\<lparr>f_pos := 0, f_count := 1, f_inode := None, f_op := None, private_data := 0\<rparr>"

definition get_empty_file :: "fsys \<Rightarrow> (nat \<times> fsys) option" where
  "get_empty_file s =
     (case find (\<lambda>i. f_count (ftable s i) = 0) [0..<NR_FILE] of
        None \<Rightarrow> None
      | Some i \<Rightarrow> Some (i, upd_file i fresh_file s))"

definition get_two_empty_files :: "fsys \<Rightarrow> (nat \<times> nat \<times> fsys) option" where
  "get_two_empty_files s =
     (case filter (\<lambda>i. f_count (ftable s i) = 0) [0..<NR_FILE] of
        a # b # _ \<Rightarrow> Some (a, b, upd_file b fresh_file (upd_file a fresh_file s))
      | _ \<Rightarrow> None)"

definition put_inode :: "(nat \<Rightarrow> super_block) \<Rightarrow> nat option \<Rightarrow> fsys \<Rightarrow> fsys option" where
  "put_inode sbs i s = (case i of None \<Rightarrow> Some s | Some i \<Rightarrow> map_option (\<lambda>c. s\<lparr>icache := c\<rparr>) (iput sbs i (icache s)))"

text \<open>\<^verbatim>\<open>f->f_op->release(i, f)\<close>, when there is one.\<close>

definition release_method :: "bool \<Rightarrow> fops option \<Rightarrow> nat option \<Rightarrow> fsys \<Rightarrow> fsys option" where
  "release_method release op i s =
     (case (op, i) of
        (Some op, Some j) \<Rightarrow>
          if release
          then (case pipe_release op (pipe_i (inodes (icache s) j)) of
                  None \<Rightarrow> None
                | Some p \<Rightarrow> Some (if op \<in> {ReadPipe, WritePipe, RdwrPipe} then upd_pipe j (\<lambda>_. p) s else s))
          else Some s
      | _ \<Rightarrow> Some s)"

definition release_file :: "(nat \<Rightarrow> super_block) \<Rightarrow> nat \<Rightarrow> bool \<Rightarrow> fsys \<Rightarrow> fsys option" where
  "release_file sbs f release s =
     (if f_count (ftable s f) = 0 then None
      else if f_count (ftable s f) > 1 then Some (upd_file f (\<lambda>x. x\<lparr>f_count := f_count x - 1\<rparr>) s)
      else
        let i = f_inode (ftable s f)
        in case release_method release (f_op (ftable s f)) i s of
             None \<Rightarrow> None
           | Some s \<Rightarrow> put_inode sbs i (upd_file f (\<lambda>x. x\<lparr>f_count := f_count x - 1, f_inode := None\<rparr>) s))"

definition put_file :: "(nat \<Rightarrow> super_block) \<Rightarrow> nat \<Rightarrow> fsys \<Rightarrow> fsys option" where
  "put_file sbs f s = release_file sbs f False s"

definition fref :: "nat \<Rightarrow> fsys \<Rightarrow> fsys" where
  "fref f = upd_file f (\<lambda>x. x\<lparr>f_count := f_count x + 1\<rparr>)"

text \<open>
  Duplicating an open file for a child. \<open>opens k\<close> says whether the open method of another subsystem
  succeeds; the tables of the pipes have none, and no descriptor refers to a file with
  \<^verbatim>\<open>fifo_fops\<close>, because opening a named pipe replaces the table.
\<close>

definition share_inode :: "nat \<Rightarrow> fsys \<Rightarrow> fsys" where
  "share_inode new s =
     (case f_inode (ftable s new) of
        None \<Rightarrow> s
      | Some i \<Rightarrow>
          let s = s\<lparr>icache := iref i (icache s)\<rparr>
          in if S_ISFIFO (i_mode (inodes (icache s) i))
             then upd_pipe i (\<lambda>p. p\<lparr>n_reader := n_reader p + (if f_mode (ftable s new) AND 1 \<noteq> 0 then 1 else 0),
                    n_writer := n_writer p + (if f_mode (ftable s new) AND 2 \<noteq> 0 then 1 else 0)\<rparr>) s
             else s)"

definition copy_fd :: "(nat \<Rightarrow> super_block) \<Rightarrow> (nat \<Rightarrow> bool) \<Rightarrow> nat \<Rightarrow> fsys \<Rightarrow> (nat option \<times> fsys) option" where
  "copy_fd sbs opens old s =
     (case get_empty_file s of
        None \<Rightarrow> Some (None, s)
      | Some (new, s) \<Rightarrow>
          let s = upd_file new (\<lambda>_. (ftable s old)\<lparr>f_count := 1\<rparr>) s;
              s = share_inode new s
          in case f_op (ftable s new) of
               Some (OtherOps k) \<Rightarrow>
                 if opens k then Some (Some new, s) else map_option (\<lambda>s. (None, s)) (put_file sbs new s)
             | _ \<Rightarrow> Some (Some new, s))"

primrec copy_fds :: "(nat \<Rightarrow> super_block) \<Rightarrow> (nat \<Rightarrow> bool) \<Rightarrow> nat \<Rightarrow> nat list \<Rightarrow> fsys \<Rightarrow> fsys option" where
  "copy_fds sbs opens p [] s = Some s"
| "copy_fds sbs opens p (i # is) s =
     (case fds (tasks s p) i of
        None \<Rightarrow> copy_fds sbs opens p is s
      | Some f \<Rightarrow>
          (case copy_fd sbs opens f s of
             None \<Rightarrow> None
           | Some (r, s) \<Rightarrow> copy_fds sbs opens p is (set_fd p i r s)))"

definition copy_files :: "(nat \<Rightarrow> super_block) \<Rightarrow> (nat \<Rightarrow> bool) \<Rightarrow> nat \<Rightarrow> nat \<Rightarrow> fsys \<Rightarrow> fsys option" where
  "copy_files sbs opens current p s =
     copy_fds sbs opens p [0..<NR_OPEN] (s\<lparr>tasks := (tasks s)(p := tasks s current)\<rparr>)"

definition sys_close :: "(nat \<Rightarrow> super_block) \<Rightarrow> nat \<Rightarrow> u32 \<Rightarrow> fsys \<Rightarrow> ((errno + u32) \<times> fsys) option" where
  "sys_close sbs current fd s =
     (if unat fd \<ge> NR_OPEN then Some (Inl EBADF, s)
      else
        let s = set_cloexec current (unat fd) False s
        in case fds (tasks s current) (unat fd) of
             None \<Rightarrow> Some (Inl EBADF, s)
           | Some f \<Rightarrow> map_option (\<lambda>s. (Inr 0, s)) (release_file sbs f True (set_fd current (unat fd) None s)))"

primrec close_fds :: "(nat \<Rightarrow> super_block) \<Rightarrow> nat \<Rightarrow> nat list \<Rightarrow> fsys \<Rightarrow> fsys option" where
  "close_fds sbs current [] s = Some s"
| "close_fds sbs current (i # is) s =
     (if fds (tasks s current) i = None then close_fds sbs current is s
      else case sys_close sbs current (of_nat i) s of
             None \<Rightarrow> None
           | Some (_, s) \<Rightarrow> close_fds sbs current is s)"

definition exit_files :: "(nat \<Rightarrow> super_block) \<Rightarrow> nat \<Rightarrow> fsys \<Rightarrow> fsys option" where
  "exit_files sbs current s = close_fds sbs current [0..<NR_OPEN] s"

text \<open>\<^verbatim>\<open>fcntl.c\<close>.\<close>

definition dupfd :: "nat \<Rightarrow> u32 \<Rightarrow> u32 \<Rightarrow> fsys \<Rightarrow> (errno + u32) \<times> fsys" where
  "dupfd current fd arg s =
     (if unat fd \<ge> NR_OPEN then (Inl EBADF, s)
      else case fds (tasks s current) (unat fd) of
        None \<Rightarrow> (Inl EBADF, s)
      | Some f \<Rightarrow>
          if unat arg \<ge> NR_OPEN then (Inl EINVAL, s)
          else case find (\<lambda>n. fds (tasks s current) n = None) [unat arg..<NR_OPEN] of
                 None \<Rightarrow> (Inl EMFILE, s)
               | Some n \<Rightarrow> (Inr (of_nat n), set_fd current n (Some f) (fref f (set_cloexec current n False s))))"

definition sys_dup2 :: "(nat \<Rightarrow> super_block) \<Rightarrow> nat \<Rightarrow> u32 \<Rightarrow> u32 \<Rightarrow> fsys \<Rightarrow> ((errno + u32) \<times> fsys) option" where
  "sys_dup2 sbs current old_fd new_fd s =
     (if unat old_fd \<ge> NR_OPEN \<or> fds (tasks s current) (unat old_fd) = None then Some (Inl EBADF, s)
      else if new_fd = old_fd then Some (Inr new_fd, s)
      else if unat new_fd \<ge> NR_OPEN then Some (Inl EBADF, s)
      else case sys_close sbs current new_fd s of
             None \<Rightarrow> None
           | Some (_, s) \<Rightarrow> Some (dupfd current old_fd new_fd s))"

definition sys_dup :: "nat \<Rightarrow> u32 \<Rightarrow> fsys \<Rightarrow> (errno + u32) \<times> fsys" where
  "sys_dup current old_fd s = dupfd current old_fd 0 s"

abbreviation O_APPEND :: u32 where "O_APPEND \<equiv> 0x400"
abbreviation O_NONBLOCK :: u32 where "O_NONBLOCK \<equiv> 0x800"
abbreviation O_CLOEXEC :: u32 where "O_CLOEXEC \<equiv> 0x80000"

definition sys_fcntl :: "nat \<Rightarrow> u32 \<Rightarrow> u32 \<Rightarrow> u32 \<Rightarrow> fsys \<Rightarrow> (errno + u32) \<times> fsys" where
  "sys_fcntl current fd cmd arg s =
     (if unat fd \<ge> NR_OPEN then (Inl EBADF, s)
      else case fds (tasks s current) (unat fd) of
        None \<Rightarrow> (Inl EBADF, s)
      | Some f \<Rightarrow>
          if cmd = 0 then dupfd current fd arg s
          else if cmd = 1 then (Inr (if unat fd \<in> close_on_exec (tasks s current) then 1 else 0), s)
          else if cmd = 2 then (Inr 0, set_cloexec current (unat fd) (arg AND 1 \<noteq> 0) s)
          else if cmd = 3 then (Inr (ucast (f_flags (ftable s f))), s)
          else if cmd = 4
          then (Inr 0, upd_file f (\<lambda>x. x\<lparr>f_flags := ucast ((ucast (f_flags x) AND NOT (O_APPEND OR O_NONBLOCK)) OR
                 (arg AND (O_APPEND OR O_NONBLOCK)) :: u32)\<rparr>) s)
          else (Inl EINVAL, s))"

text \<open>Creating a pipe; \<open>page\<close> is the page for the ring. When fewer than two descriptors are free the code
  returns without giving the inode and the files back.\<close>

definition do_pipe :: "(nat \<Rightarrow> super_block) \<Rightarrow> u8 list option \<Rightarrow> nat \<Rightarrow> fsys \<Rightarrow> ((errno + nat \<times> nat) \<times> fsys) option" where
  "do_pipe sbs page current s =
     (case get_pipe_inode sbs (icache s) of
        None \<Rightarrow> None
      | Some (i, c) \<Rightarrow>
          (case init_pipe_inode_info page (pipe_i (inodes c i)) of
             (Inl e, p) \<Rightarrow> map_option (\<lambda>s. (Inl e, s)) (put_inode sbs (Some i) (upd_pipe i (\<lambda>_. p) (s\<lparr>icache := c\<rparr>)))
           | (Inr _, p) \<Rightarrow>
               let s = upd_pipe i (\<lambda>_. p) (s\<lparr>icache := c\<rparr>)
               in case get_two_empty_files s of
                    None \<Rightarrow> map_option (\<lambda>s. (Inl ENFILE, s)) (put_inode sbs (Some i) s)
                  | Some (f0, f1, s) \<Rightarrow>
                      (case filter (\<lambda>n. fds (tasks s current) n = None) [0..<NR_OPEN] of
                         d0 # d1 # _ \<Rightarrow>
                           let s = set_fd current d1 (Some f1) (set_fd current d0 (Some f0) s);
                               s = upd_file f0 (\<lambda>x. x\<lparr>f_inode := Some i, f_pos := 0, f_flags := 0, f_op := Some ReadPipe, f_mode := 1\<rparr>) s;
                               s = upd_file f1 (\<lambda>x. x\<lparr>f_inode := Some i, f_pos := 0, f_flags := 1, f_op := Some WritePipe, f_mode := 2\<rparr>) s
                           in Some (Inr (d0, d1), s\<lparr>icache := upd_inode i (\<lambda>n. n\<lparr>i_count := 2\<rparr>) (icache s)\<rparr>)
                       | _ \<Rightarrow> Some (Inl EMFILE, s))))"


section \<open>Counting references\<close>

definition cnt_files :: "(fileobj \<Rightarrow> bool) \<Rightarrow> (nat \<Rightarrow> fileobj) \<Rightarrow> nat" where
  "cnt_files P ft = card {f. f < NR_FILE \<and> P (ft f)}"

definition cnt_fds :: "nat \<Rightarrow> (nat \<Rightarrow> files_struct) \<Rightarrow> nat" where
  "cnt_fds f T = card {d. fds (T (fst d)) (snd d) = Some f}"

definition open_fds :: "(nat \<Rightarrow> files_struct) \<Rightarrow> (nat \<times> nat) set" where
  "open_fds T = {d. fds (T (fst d)) (snd d) \<noteq> None}"

lemma card_upd:
  assumes "finite A" "A - {x} = B - {x}" "x \<in> A \<longleftrightarrow> p" "x \<in> B \<longleftrightarrow> q"
  shows "card B + (if p then 1 else 0) = card A + (if q then 1 else (0::nat))"
proof -
  have "finite (B - {x})" using assms(1,2) by (metis finite_Diff)
  then have fB: "finite B" by simp
  have "card A = card (A - {x}) + (if p then 1 else 0)"
    using card.remove [OF assms(1), of x] assms(3) by auto
  moreover have "card B = card (B - {x}) + (if q then 1 else 0)"
    using card.remove [OF fB, of x] assms(4) by auto
  ultimately show ?thesis using assms(2) by simp
qed

lemma cnt_files_upd:
  assumes "f < NR_FILE"
  shows "cnt_files P (ft(f := x)) + (if P (ft f) then 1 else 0) = cnt_files P ft + (if P x then 1 else 0)"
  unfolding cnt_files_def by (rule card_upd [where x = f]) (use assms in auto)

lemma cnt_files_le: "cnt_files P ft \<le> NR_FILE"
  unfolding cnt_files_def using card_mono [of "{..<NR_FILE}" "{f. f < NR_FILE \<and> P (ft f)}"] by auto

lemma cnt_files_mono: "(\<And>x. P x \<Longrightarrow> Q x) \<Longrightarrow> cnt_files P ft \<le> cnt_files Q ft"
  unfolding cnt_files_def by (rule card_mono) auto

lemma cnt_files_pos: "f < NR_FILE \<Longrightarrow> P (ft f) \<Longrightarrow> 0 < cnt_files P ft"
  unfolding cnt_files_def by (rule iffD2 [OF card_gt_0_iff]) auto

lemma cnt_files_zero: "(\<And>f. f < NR_FILE \<Longrightarrow> \<not> P (ft f)) \<Longrightarrow> cnt_files P ft = 0"
  unfolding cnt_files_def by auto

lemma finite_fds: "finite (open_fds T) \<Longrightarrow> finite {d. fds (T (fst d)) (snd d) = Some f}"
  by (rule finite_subset [of _ "open_fds T"]) (auto simp: open_fds_def)

definition fd_upd :: "nat \<Rightarrow> nat \<Rightarrow> nat option \<Rightarrow> (nat \<Rightarrow> files_struct) \<Rightarrow> (nat \<Rightarrow> files_struct)" where
  "fd_upd t n v T = T(t := (T t)\<lparr>fds := (fds (T t))(n := v)\<rparr>)"

lemma fds_fd_upd [simp]:
  "fds (fd_upd t n v T t') n' = (if t' = t \<and> n' = n then v else fds (T t') n')"
  by (simp add: fd_upd_def)

lemma cnt_fds_upd:
  assumes "finite (open_fds T)"
  shows "cnt_fds f (fd_upd t n v T) + (if fds (T t) n = Some f then 1 else 0) = cnt_fds f T + (if v = Some f then 1 else 0)"
  unfolding cnt_fds_def by (rule card_upd [where x = "(t, n)"]) (auto intro: finite_fds [OF assms])

lemma open_fds_upd: "finite (open_fds T) \<Longrightarrow> finite (open_fds (fd_upd t n v T))"
  by (rule finite_subset [of _ "insert (t, n) (open_fds T)"]) (auto simp: open_fds_def split: if_splits)

lemma cnt_fds_pos: "finite (open_fds T) \<Longrightarrow> fds (T t) n = Some f \<Longrightarrow> 0 < cnt_fds f T"
  unfolding cnt_fds_def by (rule iffD2 [OF card_gt_0_iff]) (auto intro: finite_fds)

text \<open>What operations an open file has on a pipe.\<close>

definition reads :: "fileobj \<Rightarrow> bool" where
  "reads x \<longleftrightarrow> f_op x \<in> {Some ReadPipe, Some RdwrPipe}"

definition writes :: "fileobj \<Rightarrow> bool" where
  "writes x \<longleftrightarrow> f_op x \<in> {Some WritePipe, Some RdwrPipe}"

lemma reads_writes_upd [simp]:
  "reads (x\<lparr>f_count := k\<rparr>) = reads x" "writes (x\<lparr>f_count := k\<rparr>) = writes x"
  "reads (x\<lparr>f_flags := v\<rparr>) = reads x" "writes (x\<lparr>f_flags := v\<rparr>) = writes x"
  by (simp_all add: reads_def writes_def)

definition n_readers :: "nat \<Rightarrow> (nat \<Rightarrow> fileobj) \<Rightarrow> nat" where
  "n_readers i = cnt_files (\<lambda>x. f_inode x = Some i \<and> reads x)"

definition n_writers :: "nat \<Rightarrow> (nat \<Rightarrow> fileobj) \<Rightarrow> nat" where
  "n_writers i = cnt_files (\<lambda>x. f_inode x = Some i \<and> writes x)"

definition n_files :: "nat \<Rightarrow> (nat \<Rightarrow> fileobj) \<Rightarrow> nat" where
  "n_files i = cnt_files (\<lambda>x. f_inode x = Some i)"

section \<open>Invariant\<close>

text \<open>An open file has an inode; on a pipe its mode bits and its operations agree.\<close>

definition file_ok :: "nat \<Rightarrow> fileobj \<Rightarrow> (nat \<Rightarrow> inode) \<Rightarrow> bool" where
  "file_ok r x ino \<longleftrightarrow> f_count x = r \<and> (r = 0 \<longrightarrow> f_inode x = None) \<and>
     (r \<noteq> 0 \<longrightarrow> (\<exists>i < NR_INODE. f_inode x = Some i \<and> f_op x \<noteq> Some FifoOps \<and>
        (reads x \<or> writes x \<longleftrightarrow> S_ISFIFO (i_mode (ino i))) \<and>
        (S_ISFIFO (i_mode (ino i)) \<longrightarrow> i_pipe (ino i) \<and>
           (reads x \<longleftrightarrow> f_mode x AND 1 \<noteq> 0) \<and> (writes x \<longleftrightarrow> f_mode x AND 2 \<noteq> 0))))"

text \<open>The counts of an inode: every open file has a reference, the pipe knows its open ends, and an
  anonymous pipe has no other references.\<close>

definition inode_ok :: "nat \<Rightarrow> (nat \<Rightarrow> fileobj) \<Rightarrow> inode \<Rightarrow> bool" where
  "inode_ok i ft n \<longleftrightarrow> n_files i ft \<le> i_count n \<and>
     (i_pipe n \<longrightarrow> n_reader (pipe_i n) = of_nat (n_readers i ft) \<and> n_writer (pipe_i n) = of_nat (n_writers i ft)) \<and>
     (i_pipe n \<and> \<not> i_hashed n \<longrightarrow> i_count n = n_files i ft)"

definition fsys_ok :: "(nat \<Rightarrow> super_block) \<Rightarrow> fsys \<Rightarrow> bool" where
  "fsys_ok sbs s \<longleftrightarrow> icache_inv sbs (icache s) \<and> finite (open_fds (tasks s)) \<and>
     (\<forall>t n f. fds (tasks s t) n = Some f \<longrightarrow> n < NR_OPEN \<and> f < NR_FILE) \<and>
     (\<forall>t t' n n' f. fds (tasks s t) n = Some f \<and> fds (tasks s t') n' = Some f \<longrightarrow> t = t') \<and>
     (\<forall>f < NR_FILE. file_ok (cnt_fds f (tasks s)) (ftable s f) (inodes (icache s))) \<and>
     (\<forall>i < NR_INODE. inode_ok i (ftable s) (inodes (icache s) i))"

lemma fsys_okD:
  assumes "fsys_ok sbs s"
  shows "icache_inv sbs (icache s)" "finite (open_fds (tasks s))"
    "fds (tasks s t) n = Some f \<Longrightarrow> n < NR_OPEN" "fds (tasks s t) n = Some f \<Longrightarrow> f < NR_FILE"
    "fds (tasks s t) n = Some f \<Longrightarrow> fds (tasks s t') n' = Some f \<Longrightarrow> t = t'"
    "f < NR_FILE \<Longrightarrow> file_ok (cnt_fds f (tasks s)) (ftable s f) (inodes (icache s))"
    "i < NR_INODE \<Longrightarrow> inode_ok i (ftable s) (inodes (icache s) i)"
  using assms unfolding fsys_ok_def by blast+

lemma fsys_okI:
  assumes "icache_inv sbs (icache s)" "finite (open_fds (tasks s))"
    "\<And>t n f. fds (tasks s t) n = Some f \<Longrightarrow> n < NR_OPEN" "\<And>t n f. fds (tasks s t) n = Some f \<Longrightarrow> f < NR_FILE"
    "\<And>t t' n n' f. fds (tasks s t) n = Some f \<Longrightarrow> fds (tasks s t') n' = Some f \<Longrightarrow> t = t'"
    "\<And>f. f < NR_FILE \<Longrightarrow> file_ok (cnt_fds f (tasks s)) (ftable s f) (inodes (icache s))"
    "\<And>i. i < NR_INODE \<Longrightarrow> inode_ok i (ftable s) (inodes (icache s) i)"
  shows "fsys_ok sbs s"
  unfolding fsys_ok_def using assms by blast

lemma fsys_okI2:
  assumes "icache s = c" "ftable s = ft" "tasks s = T" "icache_inv sbs c" "finite (open_fds T)"
    "\<And>t n f. fds (T t) n = Some f \<Longrightarrow> n < NR_OPEN" "\<And>t n f. fds (T t) n = Some f \<Longrightarrow> f < NR_FILE"
    "\<And>t t' n n' f. fds (T t) n = Some f \<Longrightarrow> fds (T t') n' = Some f \<Longrightarrow> t = t'"
    "\<And>f. f < NR_FILE \<Longrightarrow> file_ok (cnt_fds f T) (ft f) (inodes c)"
    "\<And>i. i < NR_INODE \<Longrightarrow> inode_ok i ft (inodes c i)"
  shows "fsys_ok sbs s"
  unfolding fsys_ok_def assms(1-3) using assms(4-) by blast

lemma upd_simps [simp]:
  "ftable (upd_file f g s) = (ftable s)(f := g (ftable s f))" "icache (upd_file f g s) = icache s" "tasks (upd_file f g s) = tasks s"
  "ftable (upd_pipe i h s) = ftable s" "tasks (upd_pipe i h s) = tasks s"
  "icache (upd_pipe i h s) = upd_inode i (\<lambda>n. n\<lparr>pipe_i := h (pipe_i n)\<rparr>) (icache s)"
  "ftable (set_fd t n v s) = ftable s" "icache (set_fd t n v s) = icache s" "tasks (set_fd t n v s) = fd_upd t n v (tasks s)"
  "ftable (set_cloexec t n b s) = ftable s" "icache (set_cloexec t n b s) = icache s"
  "fds (tasks (set_cloexec t n b s) t') = fds (tasks s t')"
  by (simp_all add: upd_file_def upd_pipe_def set_fd_def set_cloexec_def fd_upd_def)

lemma cloexec_frame [simp]:
  "open_fds (tasks (set_cloexec t n b s)) = open_fds (tasks s)" "cnt_fds f (tasks (set_cloexec t n b s)) = cnt_fds f (tasks s)"
  by (simp_all add: open_fds_def cnt_fds_def)

lemma set_cloexec_ok [simp]: "fsys_ok sbs (set_cloexec t n b s) = fsys_ok sbs s"
  by (simp add: fsys_ok_def)


lemma n_upd:
  assumes "f < NR_FILE"
  shows "n_files i (ft(f := y)) + (if f_inode (ft f) = Some i then 1 else 0) = n_files i ft + (if f_inode y = Some i then 1 else 0)"
    "n_readers i (ft(f := y)) + (if f_inode (ft f) = Some i \<and> reads (ft f) then 1 else 0) =
      n_readers i ft + (if f_inode y = Some i \<and> reads y then 1 else 0)"
    "n_writers i (ft(f := y)) + (if f_inode (ft f) = Some i \<and> writes (ft f) then 1 else 0) =
      n_writers i ft + (if f_inode y = Some i \<and> writes y then 1 else 0)"
  using assms unfolding n_files_def n_readers_def n_writers_def by (rule cnt_files_upd)+

lemma n_le: "n_readers i ft \<le> NR_FILE" "n_writers i ft \<le> NR_FILE"
  by (simp_all add: n_readers_def n_writers_def cnt_files_le)

lemma n_pos:
  assumes "f < NR_FILE" "f_inode (ft f) = Some i"
  shows "0 < n_files i ft" "reads (ft f) \<Longrightarrow> 0 < n_readers i ft" "writes (ft f) \<Longrightarrow> 0 < n_writers i ft"
  using assms cnt_files_pos [of f _ ft] by (simp_all add: n_files_def n_readers_def n_writers_def)

lemma file_ok_cong:
  assumes "file_ok r x ino" "\<And>i. f_inode x = Some i \<Longrightarrow> i_mode (ino' i) = i_mode (ino i) \<and> (i_pipe (ino i) \<longrightarrow> i_pipe (ino' i))"
  shows "file_ok r x ino'"
  using assms by (auto simp: file_ok_def)

lemma file_okD:
  assumes "file_ok r x ino" "r \<noteq> 0"
  obtains i where "i < NR_INODE" "f_inode x = Some i" "f_count x = r"
  using assms by (auto simp: file_ok_def)

lemma inode_ok_same_file:
  assumes "inode_ok i ft n" "f < NR_FILE" "f_inode y = f_inode (ft f)" "f_op y = f_op (ft f)"
  shows "inode_ok i (ft(f := y)) n"
  using assms n_upd [OF assms(2), of i ft y] by (simp add: inode_ok_def reads_def writes_def split: if_splits)

lemma iput_frame:
  assumes "i_count (inodes c i) \<noteq> 0" "iput sbs i c = Some c'"
  shows "j \<noteq> i \<Longrightarrow> inodes c' j = inodes c j" "i_mode (inodes c' i) = i_mode (inodes c i)"
    "i_count (inodes c i) \<noteq> 1 \<Longrightarrow> inodes c' i = (inodes c i)\<lparr>i_count := i_count (inodes c i) - 1\<rparr>"
    "i_count (inodes c i) = 1 \<Longrightarrow> \<not> i_pipe (inodes c' i) \<and> i_count (inodes c' i) = 0"
proof -
  let ?c1 = "upd_inode i (\<lambda>n. n\<lparr>i_count := i_count n - 1\<rparr>) c"
  have w: "inodes (write_inode sbs i ?c1) j = inodes ?c1 j" if "j \<noteq> i" for j
    using that by (auto simp: write_inode_def Let_def split: option.split)
  have w2: "i_mode (inodes (write_inode sbs i ?c1) i) = i_mode (inodes c i)" "i_count (inodes (write_inode sbs i ?c1) i) = i_count (inodes c i) - 1"
    by (subst write_inode_frame(1), simp)+
  show "j \<noteq> i \<Longrightarrow> inodes c' j = inodes c j"
    using assms w [of j] by (auto simp: iput_def Let_def split: if_splits)
  show "i_mode (inodes c' i) = i_mode (inodes c i)"
    using assms w2 by (auto simp: iput_def Let_def split: if_splits)
  show "i_count (inodes c i) \<noteq> 1 \<Longrightarrow> inodes c' i = (inodes c i)\<lparr>i_count := i_count (inodes c i) - 1\<rparr>"
    using assms by (auto simp: iput_def Let_def split: if_splits)
  show "i_count (inodes c i) = 1 \<Longrightarrow> \<not> i_pipe (inodes c' i) \<and> i_count (inodes c' i) = 0"
    using assms w2 by (auto simp: iput_def Let_def split: if_splits)
qed

text \<open>Changes of the pipe in an inode do not matter to the cache.\<close>

lemma upd_pipe_inv [simp]: "icache_inv sbs (upd_inode i (\<lambda>n. n\<lparr>pipe_i := h (pipe_i n)\<rparr>) c) = icache_inv sbs c"
proof
  let ?c = "upd_inode i (\<lambda>n. n\<lparr>pipe_i := h (pipe_i n)\<rparr>) c"
  show "icache_inv sbs ?c" if "icache_inv sbs c" by (rule same_inv [OF that]) (auto simp: ident_def)
  show "icache_inv sbs c" if "icache_inv sbs ?c" by (rule same_inv [OF that]) (auto simp: ident_def)
qed

lemma dec_word: "0 < k \<Longrightarrow> k \<le> NR_FILE \<Longrightarrow> (of_nat k :: u32) > 0 \<and> (of_nat k :: u32) - 1 = of_nat (k - 1)"
  by (auto simp: word_less_nat_alt unat_of_nat of_nat_diff)

text \<open>What the release method does to the counts of a pipe.\<close>

lemma pipe_release_counts:
  assumes r: "n_reader p = of_nat nr" "nr \<le> NR_FILE" "reads x \<Longrightarrow> 0 < nr"
    and w: "n_writer p = of_nat nw" "nw \<le> NR_FILE" "writes x \<Longrightarrow> 0 < nw"
    and op: "f_op x = Some op"
  obtains p' where "pipe_release op p = Some p'" "n_reader p' = of_nat (nr - (if reads x then 1 else 0))"
    "n_writer p' = of_nat (nw - (if writes x then 1 else 0))"
proof (cases op)
  case ReadPipe
  then show thesis
    using that dec_word [OF r(3) r(2)] r w op by (auto simp: reads_def writes_def pipe_read_release_def)
next
  case WritePipe
  then show thesis
    using that dec_word [OF w(3) w(2)] r w op by (auto simp: reads_def writes_def pipe_write_release_def)
next
  case RdwrPipe
  then have x: "reads x" "writes x" using op by (simp_all add: reads_def writes_def)
  have "n_reader p \<noteq> 0 \<and> n_reader p - 1 = of_nat (nr - 1)" "n_writer p \<noteq> 0 \<and> n_writer p - 1 = of_nat (nw - 1)"
    using dec_word [OF r(3) r(2), OF x(1)] dec_word [OF w(3) w(2), OF x(2)] r(1) w(1) by (auto simp: word_gt_0)
  then have "n_reader (fifo_rdwr_release p) = of_nat (nr - 1)" "n_writer (fifo_rdwr_release p) = of_nat (nw - 1)"
    by (simp_all add: fifo_rdwr_release_def Let_def)
  then show thesis using that [of "fifo_rdwr_release p"] RdwrPipe x by simp
qed (use that [of p] r w op in \<open>auto simp: reads_def writes_def\<close>)


section \<open>Closing\<close>

text \<open>A file with its last reference gone.\<close>

definition dead_file :: "fileobj \<Rightarrow> fileobj" where
  "dead_file x = x\<lparr>f_count := f_count x - 1, f_inode := None\<rparr>"

lemma n_dead:
  assumes "f < NR_FILE" "f_inode (ft f) = Some i"
  shows "n_files j (ft(f := dead_file (ft f))) = n_files j ft - (if j = i then 1 else 0)"
    "n_readers j (ft(f := dead_file (ft f))) = n_readers j ft - (if j = i \<and> reads (ft f) then 1 else 0)"
    "n_writers j (ft(f := dead_file (ft f))) = n_writers j ft - (if j = i \<and> writes (ft f) then 1 else 0)"
  using n_upd [OF assms(1), of j ft "dead_file (ft f)"] assms(2) by (auto simp: dead_file_def split: if_splits)

lemma fd_upd_ok:
  assumes "fsys_ok sbs s" "T = fd_upd t n None (tasks s)"
  shows "finite (open_fds T)" "fds (T t1) n1 = Some g \<Longrightarrow> n1 < NR_OPEN" "fds (T t1) n1 = Some g \<Longrightarrow> g < NR_FILE"
    "fds (T t1) n1 = Some g \<Longrightarrow> fds (T t2) n2 = Some g \<Longrightarrow> t1 = t2"
    "cnt_fds g T = cnt_fds g (tasks s) - (if fds (tasks s t) n = Some g then 1 else 0)"
  using assms open_fds_upd [OF fsys_okD(2) [OF assms(1)]] fsys_okD(3,4,5) [OF assms(1)]
    cnt_fds_upd [OF fsys_okD(2) [OF assms(1)], of g t n None]
  by (auto split: if_splits)

lemma closed_ok:
  assumes ok: "fsys_ok sbs s0" and fd: "fds (tasks s0 t) n = Some f" and last: "cnt_fds f (tasks s0) = 1"
    and i: "i < NR_INODE" "f_inode (ftable s0 f) = Some i"
    and T: "T = fd_upd t n None (tasks s0)" and ft: "ft = (ftable s0)(f := dead_file (ftable s0 f))"
    and c1: "c1 = upd_inode i (\<lambda>m. m\<lparr>pipe_i := p\<rparr>) (icache s0)"
    and p: "i_pipe (inodes (icache s0) i) \<Longrightarrow> n_reader p = of_nat (n_readers i ft) \<and> n_writer p = of_nat (n_writers i ft)"
    and c': "iput sbs i c1 = Some c'" and s': "icache s' = c'" "ftable s' = ft" "tasks s' = T"
  shows "fsys_ok sbs s'"
proof (rule fsys_okI2 [OF s'])
  note f = fsys_okD(4) [OF ok fd] and U = fd_upd_ok [OF ok T]
  note pos = n_pos(1) [where ft = "ftable s0", OF f i(2)]
  have inv: "icache_inv sbs c1" using fsys_okD(1) [OF ok] upd_pipe_inv [of sbs i "\<lambda>_. p" "icache s0"] c1 by simp
  have iok: "inode_ok i (ftable s0) (inodes (icache s0) i)" by (rule fsys_okD(7) [OF ok i(1)])
  have cnt: "i_count (inodes c1 i) \<noteq> 0" using iok pos by (simp add: inode_ok_def c1)
  note F = iput_frame [OF cnt c'] and N = n_dead [where ft = "ftable s0", OF f i(2)]
  obtain c'' where "iput sbs i c1 = Some c''" "icache_inv sbs c''" using iput_ok [OF inv cnt] by metis
  with c' show "icache_inv sbs c'" by simp
  show "finite (open_fds T)" by (rule U(1))
  show "\<And>t n f. fds (T t) n = Some f \<Longrightarrow> n < NR_OPEN" by (rule U(2))
  show "\<And>t n f. fds (T t) n = Some f \<Longrightarrow> f < NR_FILE" by (rule U(3))
  show "\<And>t t' n n' f. fds (T t) n = Some f \<Longrightarrow> fds (T t') n' = Some f \<Longrightarrow> t = t'" by (rule U(4))
  show iok': "inode_ok j ft (inodes c' j)" if j: "j < NR_INODE" for j
  proof (cases "j = i")
    case False
    then show ?thesis using fsys_okD(7) [OF ok j] F(1) [OF False] N by (simp add: inode_ok_def c1 ft)
  next
    case True
    show ?thesis
    proof (cases "i_count (inodes c1 i) = 1")
      case one: True
      then have "n_files i ft = 0" using iok N(1) [of i] pos by (simp add: inode_ok_def c1 ft)
      then show ?thesis using F(4) [OF one] True by (simp add: inode_ok_def)
    next
      case more: False
      then show ?thesis using F(3) [OF more] True iok N(1) [of i] pos p
        by (auto simp: inode_ok_def c1 ft)
    qed
  qed
  show "file_ok (cnt_fds g T) (ft g) (inodes c')" if g: "g < NR_FILE" for g
  proof (cases "g = f")
    case True
    then show ?thesis using U(5) [of f] last fd fsys_okD(6) [OF ok f] by (simp add: file_ok_def ft dead_file_def)
  next
    case False
    have old: "file_ok (cnt_fds g T) (ft g) (inodes (icache s0))"
      using fsys_okD(6) [OF ok g] U(5) [of g] False fd by (simp add: ft)
    show ?thesis
    proof (rule file_ok_cong [OF old])
      fix j assume j: "f_inode (ft g) = Some j"
      have "i_count (inodes c1 i) \<noteq> 1" if "j = i"
        using iok N(1) [of i] n_pos(1) [OF g, of ft i] j that by (auto simp: inode_ok_def c1 ft)
      then show "i_mode (inodes c' j) = i_mode (inodes (icache s0) j) \<and> (i_pipe (inodes (icache s0) j) \<longrightarrow> i_pipe (inodes c' j))"
        using F(1) [of j] F(2,3) by (cases "j = i") (auto simp: c1)
    qed
  qed
qed

text \<open>The release method never fails its assertion, and its pipe has the counts of the files left.\<close>

lemma release_last:
  assumes ok: "fsys_ok sbs s0" and fd: "fds (tasks s0 t) n = Some f" and last: "cnt_fds f (tasks s0) = 1"
  obtains s' where "release_file sbs f True (set_fd t n None s0) = Some s'" "fsys_ok sbs s'" "tasks s' = fd_upd t n None (tasks s0)"
proof -
  let ?x = "ftable s0 f"
  define ft where "ft = (ftable s0)(f := dead_file ?x)"
  note f = fsys_okD(4) [OF ok fd] and inv = fsys_okD(1) [OF ok]
  have fok: "file_ok 1 ?x (inodes (icache s0))" using fsys_okD(6) [OF ok f] last by simp
  then obtain i where i: "i < NR_INODE" "f_inode ?x = Some i" "f_count ?x = 1" by (auto elim: file_okD)
  let ?n = "inodes (icache s0) i"
  have iok: "inode_ok i (ftable s0) ?n" by (rule fsys_okD(7) [OF ok i(1)])
  have pipe: "reads ?x \<or> writes ?x \<Longrightarrow> i_pipe ?n" using fok i by (auto simp: file_ok_def)
  note N = n_dead [where ft = "ftable s0", OF f i(2), folded ft_def] and P = n_pos [where ft = "ftable s0", OF f i(2)]
  have "\<exists>s1 p. release_method True (f_op ?x) (Some i) (set_fd t n None s0) = Some s1 \<and>
      icache s1 = upd_inode i (\<lambda>m. m\<lparr>pipe_i := p\<rparr>) (icache s0) \<and>
      ftable s1 = ftable s0 \<and> tasks s1 = fd_upd t n None (tasks s0) \<and>
      (i_pipe ?n \<longrightarrow> n_reader p = of_nat (n_readers i ft) \<and> n_writer p = of_nat (n_writers i ft))"
  proof (cases "reads ?x \<or> writes ?x")
    case True
    then obtain op where op: "f_op ?x = Some op" "op \<in> {ReadPipe, WritePipe, RdwrPipe}" by (auto simp: reads_def writes_def)
    have cnts: "n_reader (pipe_i ?n) = of_nat (n_readers i (ftable s0))" "n_writer (pipe_i ?n) = of_nat (n_writers i (ftable s0))"
      using iok pipe [OF True] by (simp_all add: inode_ok_def)
    obtain p where "pipe_release op (pipe_i ?n) = Some p" "n_reader p = of_nat (n_readers i ft)" "n_writer p = of_nat (n_writers i ft)"
      using pipe_release_counts [OF cnts(1) n_le(1) P(2) cnts(2) n_le(2) P(3) op(1)] N(2,3) [of i] by auto
    then show ?thesis using op by (intro exI [of _ "upd_pipe i (\<lambda>_. p) (set_fd t n None s0)"] exI [of _ p]) (simp add: release_method_def)
  next
    case False
    then have "pipe_release op q = Some q" if "f_op ?x = Some op" for op q
      using that fok by (cases op) (auto simp: reads_def writes_def file_ok_def)
    moreover have "op \<notin> {ReadPipe, WritePipe, RdwrPipe}" if "f_op ?x = Some op" for op
      using that False by (auto simp: reads_def writes_def)
    moreover have "upd_inode i (\<lambda>m. m\<lparr>pipe_i := pipe_i ?n\<rparr>) (icache s0) = icache s0"
      by (simp add: upd_inode_def)
    ultimately show ?thesis using False iok N(2,3) [of i]
      by (intro exI [of _ "set_fd t n None s0"] exI [of _ "pipe_i ?n"]) (auto simp: inode_ok_def release_method_def split: option.split)
  qed
  then obtain s1 p where m: "release_method True (f_op ?x) (Some i) (set_fd t n None s0) = Some s1" and s1: "icache s1 = upd_inode i (\<lambda>m. m\<lparr>pipe_i := p\<rparr>) (icache s0)" "ftable s1 = ftable s0"
      "tasks s1 = fd_upd t n None (tasks s0)"
    and p: "i_pipe ?n \<Longrightarrow> n_reader p = of_nat (n_readers i ft) \<and> n_writer p = of_nat (n_writers i ft)"
    by blast
  have rel: "release_file sbs f True (set_fd t n None s0) = put_inode sbs (Some i) (upd_file f dead_file s1)"
    using i m by (simp add: release_file_def Let_def dead_file_def [abs_def])
  have cnt: "i_count (inodes (icache s1) i) \<noteq> 0" using iok P(1) by (simp add: inode_ok_def s1)
  have inv1: "icache_inv sbs (icache s1)" using inv upd_pipe_inv [of sbs i "\<lambda>_. p"] s1 by simp
  obtain c' where c': "iput sbs i (icache s1) = Some c'" using iput_ok [OF inv1 cnt] by metis
  let ?s' = "(upd_file f dead_file s1)\<lparr>icache := c'\<rparr>"
  have "fsys_ok sbs ?s'"
    by (rule closed_ok [OF ok fd last i(1,2) refl ft_def s1(1) p c']) (simp_all add: s1 ft_def)
  then show thesis using that [of ?s'] rel c' s1 by (simp add: put_inode_def)
qed

lemma release_more:
  assumes ok: "fsys_ok sbs s0" and fd: "fds (tasks s0 t) n = Some f" and more: "cnt_fds f (tasks s0) \<noteq> 1"
  obtains s' where "release_file sbs f True (set_fd t n None s0) = Some s'" "fsys_ok sbs s'" "tasks s' = fd_upd t n None (tasks s0)"
proof -
  let ?x = "ftable s0 f" and ?T = "fd_upd t n None (tasks s0)"
  note f = fsys_okD(4) [OF ok fd] and U = fd_upd_ok [OF ok refl]
  have r: "1 < cnt_fds f (tasks s0)" using more cnt_fds_pos [OF fsys_okD(2) [OF ok] fd] by simp
  have cx: "f_count ?x = cnt_fds f (tasks s0)" using fsys_okD(6) [OF ok f] by (simp add: file_ok_def)
  let ?s' = "upd_file f (\<lambda>x. x\<lparr>f_count := f_count x - 1\<rparr>) (set_fd t n None s0)"
  have "fsys_ok sbs ?s'"
  proof (rule fsys_okI2 [where T = ?T])
    show "file_ok (cnt_fds g ?T) (((ftable s0)(f := ?x\<lparr>f_count := f_count ?x - 1\<rparr>)) g) (inodes (icache s0))" if "g < NR_FILE" for g
      using fsys_okD(6) [OF ok that] U(5) [of g t n] fd r by (auto simp: file_ok_def reads_def writes_def)
    show "inode_ok i ((ftable s0)(f := ?x\<lparr>f_count := f_count ?x - 1\<rparr>)) (inodes (icache s0) i)" if "i < NR_INODE" for i
      by (rule inode_ok_same_file [OF fsys_okD(7) [OF ok that] f]) simp_all
  qed (use U fsys_okD(1) [OF ok] in \<open>auto simp del: fds_fd_upd\<close>)
  then show thesis using that [of ?s'] cx r by (simp add: release_file_def)
qed

lemma release_ok:
  assumes "fsys_ok sbs s0" "fds (tasks s0 t) n = Some f"
  obtains s' where "release_file sbs f True (set_fd t n None s0) = Some s'" "fsys_ok sbs s'" "tasks s' = fd_upd t n None (tasks s0)"
  using release_last [OF assms] release_more [OF assms] by metis

lemma sys_close_ok:
  assumes ok: "fsys_ok sbs s"
  obtains r s' where "sys_close sbs t fd s = Some (r, s')" "fsys_ok sbs s'"
    "\<And>u k. fds (tasks s' u) k = (if u = t \<and> k = unat fd then None else fds (tasks s u) k)"
proof (cases "unat fd < NR_OPEN")
  case False
  have none: "fds (tasks s t) (unat fd) = None" using fsys_okD(3) [OF ok, of t "unat fd"] False by (cases "fds (tasks s t) (unat fd)") auto
  show thesis by (rule that [of "Inl EBADF" s]) (use False ok none in \<open>auto simp: sys_close_def\<close>)
next
  case True
  let ?s = "set_cloexec t (unat fd) False s"
  have oks: "fsys_ok sbs ?s" using ok by simp
  show thesis
  proof (cases "fds (tasks s t) (unat fd)")
    case None
    then show thesis using that [of "Inl EBADF" ?s] True oks by (auto simp: sys_close_def Let_def)
  next
    case (Some f)
    obtain s' where "release_file sbs f True (set_fd t (unat fd) None ?s) = Some s'" "fsys_ok sbs s'"
      "tasks s' = fd_upd t (unat fd) None (tasks ?s)"
      using release_ok [OF oks, of t "unat fd" f] Some by auto
    then show thesis using that [of "Inr 0" s'] True Some by (auto simp: sys_close_def Let_def)
  qed
qed

lemma close_fds_ok:
  assumes "fsys_ok sbs s" "\<And>k. k \<in> set ks \<Longrightarrow> k < NR_OPEN"
  obtains s' where "close_fds sbs t ks s = Some s'" "fsys_ok sbs s'"
    "\<And>u k. fds (tasks s' u) k = (if u = t \<and> k \<in> set ks then None else fds (tasks s u) k)"
  using assms
proof (induction ks arbitrary: s thesis)
  case Nil
  then show ?case by simp
next
  case (Cons k ks)
  have k: "unat (of_nat k :: u32) = k" using Cons.prems(3) [of k] by (simp add: unat_of_nat)
  obtain r s1 where c: "sys_close sbs t (of_nat k) s = Some (r, s1)" "fsys_ok sbs s1"
    "\<And>u j. fds (tasks s1 u) j = (if u = t \<and> j = k then None else fds (tasks s u) j)"
    using sys_close_ok [OF Cons.prems(2), of t "of_nat k"] unfolding k by metis
  define s2 where "s2 = (if fds (tasks s t) k = None then s else s1)"
  have s2: "fsys_ok sbs s2" "\<And>u j. fds (tasks s2 u) j = (if u = t \<and> j = k then None else fds (tasks s u) j)"
    using c Cons.prems(2) by (auto simp: s2_def)
  obtain s' where s': "close_fds sbs t ks s2 = Some s'" "fsys_ok sbs s'"
    "\<And>u j. fds (tasks s' u) j = (if u = t \<and> j \<in> set ks then None else fds (tasks s2 u) j)"
    using Cons.IH [OF _ s2(1)] Cons.prems(3) by auto
  have "close_fds sbs t (k # ks) s = Some s'" using c(1) s'(1) by (auto simp: s2_def)
  then show ?case by (rule Cons.prems(1) [OF _ s'(2)]) (auto simp: s'(3) s2(2))
qed

lemma exit_files_ok:
  assumes "fsys_ok sbs s"
  obtains s' where "exit_files sbs t s = Some s'" "fsys_ok sbs s'"
    "\<And>u k. fds (tasks s' u) k = (if u = t then None else fds (tasks s u) k)"
proof -
  obtain s' where s': "exit_files sbs t s = Some s'" "fsys_ok sbs s'"
    "\<And>u k. fds (tasks s' u) k = (if u = t \<and> k \<in> set [0..<NR_OPEN] then None else fds (tasks s u) k)"
    unfolding exit_files_def by (rule close_fds_ok [OF assms, of "[0..<NR_OPEN]" t]) (auto simp del: upt_Suc)
  have "fds (tasks s u) k = None" if "\<not> k < NR_OPEN" for u k
    using fsys_okD(3) [OF assms, of u k] that by (cases "fds (tasks s u) k") auto
  then show thesis using that [OF s'(1,2)] s'(3) by auto
qed

section \<open>Duplicating descriptors\<close>

lemma add_fd_upd:
  assumes ok: "fsys_ok sbs s" and n: "n < NR_OPEN" "fds (tasks s t) n = None" and f: "f < NR_FILE"
    and own: "\<forall>u k. fds (tasks s u) k = Some f \<longrightarrow> u = t" and T: "T = fd_upd t n (Some f) (tasks s)"
  shows "finite (open_fds T)" "\<And>u k g. fds (T u) k = Some g \<Longrightarrow> k < NR_OPEN" "\<And>u k g. fds (T u) k = Some g \<Longrightarrow> g < NR_FILE"
    "\<And>u u' k k' g. fds (T u) k = Some g \<Longrightarrow> fds (T u') k' = Some g \<Longrightarrow> u = u'"
    "\<And>g. cnt_fds g T = cnt_fds g (tasks s) + (if g = f then 1 else 0)"
proof -
  show "finite (open_fds T)" using T open_fds_upd [OF fsys_okD(2) [OF ok]] by simp
  show "k < NR_OPEN" "g < NR_FILE" if "fds (T u) k = Some g" for u k g
    using that fsys_okD(3,4) [OF ok, of u k g] n f by (auto simp: T split: if_splits)
  show "u = u'" if "fds (T u) k = Some g" "fds (T u') k' = Some g" for u u' k k' g
    using that fsys_okD(5) [OF ok, of u k g u' k'] own by (auto simp: T split: if_splits)
  show "cnt_fds g T = cnt_fds g (tasks s) + (if g = f then 1 else 0)" for g
    using cnt_fds_upd [OF fsys_okD(2) [OF ok], of g t n "Some f"] n by (auto simp: T split: if_splits)
qed

lemma add_fd_ok:
  assumes ok: "fsys_ok sbs s" and fd: "fds (tasks s t) k = Some f" and n: "n < NR_OPEN" "fds (tasks s t) n = None"
  shows "fsys_ok sbs (set_fd t n (Some f) (fref f s))"
proof (rule fsys_okI2 [where T = "fd_upd t n (Some f) (tasks s)"])
  note f = fsys_okD(4) [OF ok fd]
  have own: "\<forall>u k. fds (tasks s u) k = Some f \<longrightarrow> u = t" using fsys_okD(5) [OF ok _ fd] by blast
  note A = add_fd_upd [OF ok n f own refl]
  let ?x = "ftable s f" and ?T = "fd_upd t n (Some f) (tasks s)"
  let ?ft = "(ftable s)(f := ?x\<lparr>f_count := f_count ?x + 1\<rparr>)"
  have "cnt_fds f (tasks s) \<noteq> 0" using cnt_fds_pos [OF fsys_okD(2) [OF ok] fd] by simp
  then show "file_ok (cnt_fds g ?T) (?ft g) (inodes (icache s))" if "g < NR_FILE" for g
    using fsys_okD(6) [OF ok that] A(5) by (auto simp: file_ok_def reads_def writes_def)
  show "inode_ok i ?ft (inodes (icache s) i)" if "i < NR_INODE" for i
    by (rule inode_ok_same_file [OF fsys_okD(7) [OF ok that] f]) simp_all
  show "finite (open_fds ?T)" "\<And>u k g. fds (?T u) k = Some g \<Longrightarrow> k < NR_OPEN" "\<And>u k g. fds (?T u) k = Some g \<Longrightarrow> g < NR_FILE"
    "\<And>u u' k k' g. fds (?T u) k = Some g \<Longrightarrow> fds (?T u') k' = Some g \<Longrightarrow> u = u'"
    by (fact A)+
qed (use fsys_okD(1) [OF ok] in \<open>simp_all add: fref_def fun_eq_iff\<close>)

lemma find_upt_first:
  assumes "find P [a..<b] = Some n"
  shows "a \<le> n" "n < b" "P n" "a \<le> m \<Longrightarrow> m < n \<Longrightarrow> \<not> P m"
proof -
  obtain k where k: "k < b - a" "n = a + k" "P n" "\<forall>j < k. \<not> P ([a..<b] ! j)"
    using assms by (auto simp: find_Some_iff)
  then show "a \<le> n" "n < b" "P n" by simp_all
  show "\<not> P m" if "a \<le> m" "m < n" using k(4) [rule_format, of "m - a"] k that by simp
qed

lemma dupfd_cases:
  assumes ok: "fsys_ok sbs s" and d: "dupfd t fd arg s = (r, s')"
  obtains (err) e where "r = Inl e" "s' = s"
  | (dup) n f where "r = Inr (of_nat n)" "unat arg \<le> n" "n < NR_OPEN" "fds (tasks s t) n = None" "fds (tasks s t) (unat fd) = Some f"
      "s' = set_fd t n (Some f) (fref f (set_cloexec t n False s))" "\<And>m. unat arg \<le> m \<Longrightarrow> m < n \<Longrightarrow> fds (tasks s t) m \<noteq> None"
proof (cases "fds (tasks s t) (unat fd)")
  case None
  with d err show thesis by (auto simp: dupfd_def split: if_splits)
next
  case (Some f)
  define q where "q = find (\<lambda>n. fds (tasks s t) n = None) [unat arg..<NR_OPEN]"
  have "(r, s') = (if unat fd \<ge> NR_OPEN then (Inl EBADF, s) else if unat arg \<ge> NR_OPEN then (Inl EINVAL, s)
      else case q of None \<Rightarrow> (Inl EMFILE, s)
        | Some n \<Rightarrow> (Inr (of_nat n), set_fd t n (Some f) (fref f (set_cloexec t n False s))))"
    unfolding d [symmetric] dupfd_def q_def Some by simp
  then consider e where "r = Inl e" "s' = s"
    | n where "q = Some n" "r = Inr (of_nat n)" "s' = set_fd t n (Some f) (fref f (set_cloexec t n False s))"
    by (auto split: if_splits option.splits)
  then show thesis
  proof cases
    case (2 n)
    note F = find_upt_first [OF 2(1) [unfolded q_def]]
    show thesis by (rule dup [OF 2(2) F(1,2,3) Some 2(3) F(4)])
  qed (rule err)
qed

lemma dupfd_ok:
  assumes ok: "fsys_ok sbs s" and d: "dupfd t fd arg s = (r, s')"
  shows "fsys_ok sbs s'"
  using ok d
proof (cases rule: dupfd_cases)
  case (dup n f)
  then show ?thesis using add_fd_ok [of sbs "set_cloexec t n False s" t "unat fd" f n] ok by simp
qed (use ok in simp)

lemma sys_dup2_ok:
  assumes ok: "fsys_ok sbs s"
  obtains r s' where "sys_dup2 sbs t fd1 fd2 s = Some (r, s')" "fsys_ok sbs s'"
proof -
  obtain r1 s1 where c: "sys_close sbs t fd2 s = Some (r1, s1)" "fsys_ok sbs s1" using sys_close_ok [OF ok] by metis
  obtain r2 s2 where d: "dupfd t fd1 fd2 s1 = (r2, s2)" by fastforce
  have "\<exists>r s'. sys_dup2 sbs t fd1 fd2 s = Some (r, s') \<and> fsys_ok sbs s'"
    using ok c d dupfd_ok [OF c(2) d] by (auto simp: sys_dup2_def)
  then show thesis using that by blast
qed

lemma set_flags_ok:
  assumes ok: "fsys_ok sbs s" and f: "f < NR_FILE"
  shows "fsys_ok sbs (upd_file f (\<lambda>x. x\<lparr>f_flags := v x\<rparr>) s)"
proof (rule fsys_okI2 [OF refl refl refl])
  let ?ft = "ftable (upd_file f (\<lambda>x. x\<lparr>f_flags := v x\<rparr>) s)"
  show "file_ok (cnt_fds g (tasks (upd_file f (\<lambda>x. x\<lparr>f_flags := v x\<rparr>) s))) (?ft g) (inodes (icache (upd_file f (\<lambda>x. x\<lparr>f_flags := v x\<rparr>) s)))"
    if "g < NR_FILE" for g
    using fsys_okD(6) [OF ok that] by (cases "g = f") (simp_all add: file_ok_def reads_def writes_def)
  show "inode_ok i ?ft (inodes (icache (upd_file f (\<lambda>x. x\<lparr>f_flags := v x\<rparr>) s)) i)" if "i < NR_INODE" for i
    using inode_ok_same_file [OF fsys_okD(7) [OF ok that] f, of "(ftable s f)\<lparr>f_flags := v (ftable s f)\<rparr>"] by simp
qed (use fsys_okD(1,2) [OF ok] in simp_all, (blast dest: fsys_okD(3,4,5) [OF ok])+)

lemma sys_fcntl_ok:
  assumes ok: "fsys_ok sbs s" and r: "sys_fcntl t fd cmd arg s = (r, s')"
  shows "fsys_ok sbs s'"
proof (cases "fds (tasks s t) (unat fd)")
  case None
  with r ok show ?thesis by (auto simp: sys_fcntl_def split: if_splits)
next
  case (Some f)
  note f = fsys_okD(4) [OF ok Some]
  from r Some ok dupfd_ok [OF ok, of t fd arg r s'] set_flags_ok [OF ok f]
  show ?thesis by (auto simp: sys_fcntl_def split: if_splits)
qed

section \<open>New files\<close>

lemma iref_inv:
  assumes inv: "icache_inv sbs c" and n: "i_count (inodes c i) \<noteq> 0"
  shows "icache_inv sbs (iref i c)"
proof -
  note ok = icache_invD(2) [OF inv]
  have "icache_ok sbs (iref i c)"
  proof (rule icache_ok_same [OF ok])
    show "lru_wf (\<lambda>j. i_count (inodes (iref i c) j)) NR_INODE (i_lru (iref i c))"
      using lru_wf_same [OF _ icache_okD(1) [OF ok], of "\<lambda>j. i_count (inodes (iref i c) j)"] n by (simp add: iref_def)
  qed (simp_all add: iref_def ident_def)
  then show ?thesis using inv n by (auto simp: icache_inv_def iref_def)
qed

text \<open>A free slot gets a file on inode \<open>i\<close>, which a descriptor refers to from now on.\<close>

lemma new_file_ok:
  assumes ok: "fsys_ok sbs s" and new: "new < NR_FILE" "f_count (ftable s new) = 0"
    and n: "n < NR_OPEN" "fds (tasks s t) n = None" and x: "f_inode x = Some i" "file_ok 1 x (inodes (icache s))"
    and inv: "icache_inv sbs c'" and c': "\<And>j. j \<noteq> i \<Longrightarrow> inodes c' j = inodes (icache s) j"
      "inodes c' i = (inodes (icache s) i)\<lparr>i_count := i_count (inodes (icache s) i) + 1, pipe_i := p\<rparr>"
    and p: "i_pipe (inodes (icache s) i) \<Longrightarrow> n_reader p = n_reader (pipe_i (inodes (icache s) i)) + (if reads x then 1 else 0) \<and>
      n_writer p = n_writer (pipe_i (inodes (icache s) i)) + (if writes x then 1 else 0)"
    and s': "icache s' = c'" "ftable s' = (ftable s)(new := x)" "tasks s' = fd_upd t n (Some new) (tasks s)"
  shows "fsys_ok sbs s'"
proof (rule fsys_okI2 [OF s'])
  have zero: "cnt_fds new (tasks s) = 0" and none: "f_inode (ftable s new) = None"
    using fsys_okD(6) [OF ok new(1)] new(2) by (auto simp: file_ok_def)
  have own: "\<forall>u k. fds (tasks s u) k = Some new \<longrightarrow> u = t"
    using zero cnt_fds_pos [OF fsys_okD(2) [OF ok]] by (metis less_irrefl)
  note A = add_fd_upd [OF ok n new(1) own refl]
  let ?T = "fd_upd t n (Some new) (tasks s)"
  show "icache_inv sbs c'" by (rule inv)
  show "finite (open_fds ?T)" "\<And>u k g. fds (?T u) k = Some g \<Longrightarrow> k < NR_OPEN" "\<And>u k g. fds (?T u) k = Some g \<Longrightarrow> g < NR_FILE"
    "\<And>u u' k k' g. fds (?T u) k = Some g \<Longrightarrow> fds (?T u') k' = Some g \<Longrightarrow> u = u'"
    by (fact A)+
  have same: "i_mode (inodes c' j) = i_mode (inodes (icache s) j) \<and> i_pipe (inodes c' j) = i_pipe (inodes (icache s) j)" for j
    using c' by (cases "j = i") auto
  show "file_ok (cnt_fds g ?T) (((ftable s)(new := x)) g) (inodes c')" if g: "g < NR_FILE" for g
    using file_ok_cong [OF fsys_okD(6) [OF ok g], of "inodes c'"] file_ok_cong [OF x(2), of "inodes c'"] same A(5) zero by auto
  note N = n_upd [where ft = "ftable s", OF new(1)]
  show "inode_ok j ((ftable s)(new := x)) (inodes c' j)" if j: "j < NR_INODE" for j
    using N [of j x] none x(1) fsys_okD(7) [OF ok j] c' p by (cases "j = i") (auto simp: inode_ok_def)
qed

lemma get_empty_fileD:
  assumes "get_empty_file s = Some (new, s')"
  shows "new < NR_FILE" "f_count (ftable s new) = 0" "s' = upd_file new fresh_file s"
  using assms find_uptD [of "\<lambda>i. f_count (ftable s i) = 0" NR_FILE new]
  by (simp_all add: get_empty_file_def split: option.splits)

lemma free_slot_ok:
  assumes ok: "fsys_ok sbs s" and new: "new < NR_FILE" "f_count (ftable s new) = 0" and y: "f_count y = 0" "f_inode y = None"
    and s': "icache s' = icache s" "ftable s' = (ftable s)(new := y)" "tasks s' = tasks s"
  shows "fsys_ok sbs s'"
proof (rule fsys_okI2 [OF s'])
  have z: "cnt_fds new (tasks s) = 0" "f_inode (ftable s new) = None"
    using fsys_okD(6) [OF ok new(1)] new(2) by (auto simp: file_ok_def)
  show "file_ok (cnt_fds g (tasks s)) (((ftable s)(new := y)) g) (inodes (icache s))" if "g < NR_FILE" for g
    using fsys_okD(6) [OF ok that] z y by (cases "g = new") (simp_all add: file_ok_def)
  show "inode_ok i ((ftable s)(new := y)) (inodes (icache s) i)" if "i < NR_INODE" for i
    using fsys_okD(7) [OF ok that] n_upd [where ft = "ftable s", OF new(1), of i y] z y by (simp add: inode_ok_def)
qed (use fsys_okD(1,2) [OF ok] in simp_all, (blast dest: fsys_okD(3,4,5) [OF ok])+)

lemma fd_upd_same: "fds (T t) n = v \<Longrightarrow> fd_upd t n v T = T"
  by (simp add: fd_upd_def fun_upd_idem)

lemma upd_inode_twice [simp]: "upd_inode i f (upd_inode i g c) = upd_inode i (\<lambda>n. f (g n)) c"
  by (simp add: upd_inode_def)

lemma upd_inode_id [simp]: "upd_inode i (\<lambda>n. n) c = c"
  by (simp add: upd_inode_def)

text \<open>The state of \<open>copy_fd\<close> before the open method.\<close>

definition shared_file :: "nat \<Rightarrow> nat \<Rightarrow> fsys \<Rightarrow> fsys" where
  "shared_file old new s = share_inode new (upd_file new (\<lambda>_. (ftable s old)\<lparr>f_count := 1\<rparr>) s)"

lemma shared_file_frame [simp]:
  "ftable (shared_file old new s) = (ftable s)(new := (ftable s old)\<lparr>f_count := 1\<rparr>)"
  "tasks (shared_file old new s) = tasks s"
  by (simp_all add: shared_file_def share_inode_def Let_def split: option.split)

lemma copy_fd_eq:
  assumes "get_empty_file s = Some (new, s1)" "new \<noteq> old"
  shows "copy_fd sbs opens old s =
    (case f_op (ftable s old) of
       Some (OtherOps k) \<Rightarrow> if opens k then Some (Some new, shared_file old new s)
                            else map_option (\<lambda>s. (None, s)) (put_file sbs new (shared_file old new s))
     | _ \<Rightarrow> Some (Some new, shared_file old new s))"
proof -
  have "s1 = upd_file new fresh_file s" by (rule get_empty_fileD(3) [OF assms(1)])
  then have eq: "share_inode new (upd_file new (\<lambda>_. (ftable s1 old)\<lparr>f_count := 1\<rparr>) s1) = shared_file old new s"
    using assms(2) by (simp add: upd_file_def shared_file_def)
  show ?thesis unfolding copy_fd_def assms(1) option.case prod.case Let_def eq by simp
qed

lemma shared_file_ok:
  assumes ok: "fsys_ok sbs s" and old: "old < NR_FILE" "cnt_fds old (tasks s) \<noteq> 0" and new: "new < NR_FILE" "f_count (ftable s new) = 0"
    and n: "n < NR_OPEN" "fds (tasks s t) n = None" and i: "f_inode (ftable s old) = Some i" "i < NR_INODE"
  shows "fsys_ok sbs (set_fd t n (Some new) (shared_file old new s))"
proof -
  let ?x = "ftable s old" and ?n = "inodes (icache s) i" and ?s = "shared_file old new s"
  let ?y = "?x\<lparr>f_count := 1\<rparr>"
  have fok: "file_ok (cnt_fds old (tasks s)) ?x (inodes (icache s))" by (rule fsys_okD(6) [OF ok old(1)])
  have cnt: "i_count ?n \<noteq> 0"
    using fsys_okD(7) [OF ok i(2)] n_pos(1) [where ft = "ftable s", OF old(1) i(1)] by (simp add: inode_ok_def)
  define p where "p = (if S_ISFIFO (i_mode ?n) then (pipe_i ?n)\<lparr>n_reader := n_reader (pipe_i ?n) + (if f_mode ?x AND 1 \<noteq> 0 then 1 else 0),
      n_writer := n_writer (pipe_i ?n) + (if f_mode ?x AND 2 \<noteq> 0 then 1 else 0)\<rparr> else pipe_i ?n)"
  have ic: "icache ?s = upd_inode i (\<lambda>m. m\<lparr>i_count := i_count m + 1, pipe_i := p\<rparr>) (icache s)"
    using i(1) by (simp add: shared_file_def share_inode_def p_def Let_def iref_def upd_inode_def)
  have "icache ?s = upd_inode i (\<lambda>m. m\<lparr>pipe_i := p\<rparr>) (iref i (icache s))"
    by (simp add: ic iref_def upd_inode_def)
  then have inv: "icache_inv sbs (icache ?s)"
    using upd_pipe_inv [of sbs i "\<lambda>_. p"] iref_inv [OF fsys_okD(1) [OF ok] cnt] by simp
  have y: "file_ok 1 ?y (inodes (icache s))" using fok old(2) by (auto simp: file_ok_def)
  have p: "i_pipe ?n \<Longrightarrow> n_reader p = n_reader (pipe_i ?n) + (if reads ?y then 1 else 0) \<and>
      n_writer p = n_writer (pipe_i ?n) + (if writes ?y then 1 else 0)"
    using fok old(2) i(1) by (auto simp: p_def file_ok_def)
  show ?thesis
    by (rule new_file_ok [OF ok new n, where x = ?y and p = p, OF _ y inv _ _ p]) (simp_all add: i ic)
qed

lemma copy_fd_ok:
  assumes ok: "fsys_ok sbs s" and old: "fds (tasks s u) k = Some old" and n: "n < NR_OPEN" "fds (tasks s t) n = None"
  obtains r s' where "copy_fd sbs opens old s = Some (r, s')" "tasks s' = tasks s" "fsys_ok sbs (set_fd t n r s')"
proof (cases "get_empty_file s")
  case None
  then show thesis using that [of None s] ok n by (simp add: copy_fd_def set_fd_def fun_upd_idem)
next
  case (Some ns)
  obtain new s1 where g: "get_empty_file s = Some (new, s1)" using Some by (cases ns) simp
  note G = get_empty_fileD [OF g]
  have lt: "old < NR_FILE" and cnt: "cnt_fds old (tasks s) \<noteq> 0"
    using fsys_okD(4) [OF ok old] cnt_fds_pos [OF fsys_okD(2) [OF ok] old] by simp_all
  have fok: "file_ok (cnt_fds old (tasks s)) (ftable s old) (inodes (icache s))" by (rule fsys_okD(6) [OF ok lt])
  obtain i where i: "i < NR_INODE" "f_inode (ftable s old) = Some i" "f_count (ftable s old) \<noteq> 0"
    using file_okD [OF fok cnt] cnt by metis
  have ne: "new \<noteq> old" using G(2) i(3) by auto
  note eq = copy_fd_eq [OF g ne, of sbs opens] and shared = shared_file_ok [OF ok lt cnt G(1,2) n i(2,1)]
  show thesis
  proof (cases "\<exists>m. f_op (ftable s old) = Some (OtherOps m) \<and> \<not> opens m")
    case False
    then have "copy_fd sbs opens old s = Some (Some new, shared_file old new s)"
      unfolding eq by (auto split: option.split fops.split)
    then show thesis using that shared by simp
  next
    case True
    then obtain m where m: "f_op (ftable s old) = Some (OtherOps m)" "\<not> opens m" by blast
    have nf: "\<not> S_ISFIFO (i_mode (inodes (icache s) i))"
      using fok cnt i(2) m by (auto simp: file_ok_def reads_def writes_def)
    let ?s = "shared_file old new s"
    have ic: "icache ?s = iref i (icache s)"
      using nf i(2) by (simp add: shared_file_def share_inode_def Let_def iref_def)
    have c: "i_count (inodes (icache s) i) \<noteq> 0"
      using fsys_okD(7) [OF ok i(1)] n_pos(1) [where ft = "ftable s", OF lt i(2)] by (simp add: inode_ok_def)
    have "iput sbs i (iref i (icache s)) = Some (icache s)"
      using c by (simp add: iput_def iref_def Let_def)
    then have "copy_fd sbs opens old s =
        Some (None, (upd_file new (\<lambda>x. x\<lparr>f_count := f_count x - 1, f_inode := None\<rparr>) ?s)\<lparr>icache := icache s\<rparr>)" (is "_ = Some (None, ?s')")
      unfolding eq using m i(2) by (simp add: put_file_def release_file_def release_method_def put_inode_def ic)
    moreover have "fsys_ok sbs (set_fd t n None ?s')"
      by (rule free_slot_ok [OF ok G(1,2), of "(ftable s old)\<lparr>f_count := 0, f_inode := None\<rparr>"])
        (use n in \<open>simp_all add: fd_upd_same\<close>)
    ultimately show thesis using that by simp
  qed
qed

text \<open>Copying a file does not look at the descriptors.\<close>

lemma copy_fd_tasks:
  "copy_fd sbs opens old (s\<lparr>tasks := T\<rparr>) = map_option (\<lambda>(r, s). (r, s\<lparr>tasks := T\<rparr>)) (copy_fd sbs opens old s)"
proof (cases "get_empty_file s")
  case None
  moreover have "get_empty_file (s\<lparr>tasks := T\<rparr>) = None" using None by (simp add: get_empty_file_def split: option.splits)
  ultimately show ?thesis by (simp add: copy_fd_def)
next
  case (Some ns)
  obtain new s1 where g: "get_empty_file s = Some (new, s1)" using Some by (cases ns) simp
  have g': "get_empty_file (s\<lparr>tasks := T\<rparr>) = Some (new, s1\<lparr>tasks := T\<rparr>)"
    using g by (auto simp: get_empty_file_def upd_file_def split: option.splits)
  have sh: "share_inode new (s\<lparr>tasks := T\<rparr>) = (share_inode new s)\<lparr>tasks := T\<rparr>" for s
    by (simp add: share_inode_def Let_def upd_pipe_def split: option.split)
  have up: "upd_file new h (s\<lparr>tasks := T\<rparr>) = (upd_file new h s)\<lparr>tasks := T\<rparr>" for h s
    by (simp add: upd_file_def)
  have pi: "put_inode sbs i (s\<lparr>tasks := T\<rparr>) = map_option (\<lambda>s. s\<lparr>tasks := T\<rparr>) (put_inode sbs i s)" for i s
    by (cases i; cases "iput sbs (the i) (icache s)") (auto simp: put_inode_def)
  have pt: "put_file sbs new (s\<lparr>tasks := T\<rparr>) = map_option (\<lambda>s. s\<lparr>tasks := T\<rparr>) (put_file sbs new s)" for s
    by (auto simp: put_file_def release_file_def release_method_def pi Let_def up split: option.split)
  show ?thesis
    by (auto simp: copy_fd_def g g' Let_def up sh pt option.map_comp comp_def split: option.split fops.split)
qed

text \<open>The descriptors of task \<open>p\<close> from \<open>k\<close> on, which still are the pointers of the parent, left out.\<close>

definition masked :: "nat \<Rightarrow> nat \<Rightarrow> fsys \<Rightarrow> fsys" where
  "masked p k s = s\<lparr>tasks := (tasks s)(p := (tasks s p)\<lparr>fds := (\<lambda>n. if n < k then fds (tasks s p) n else None)\<rparr>)\<rparr>"

lemma masked_step: "masked p (Suc k) (set_fd p k r s) = set_fd p k r (masked p k s)"
  by (auto simp: masked_def set_fd_def fun_eq_iff)

lemma masked_none: "fds (tasks s p) k = None \<Longrightarrow> masked p (Suc k) s = masked p k s"
proof -
  assume "fds (tasks s p) k = None"
  then have "(\<lambda>n. if n < Suc k then fds (tasks s p) n else None) = (\<lambda>n. if n < k then fds (tasks s p) n else None)"
    by (auto simp: fun_eq_iff less_Suc_eq)
  then show ?thesis by (simp add: masked_def)
qed

lemma copy_fds_ok:
  assumes "fsys_ok sbs (masked p k s)" "\<forall>n \<ge> k. fds (tasks s p) n = fds (tasks s cur) n" "cur \<noteq> p" "k \<le> NR_OPEN"
  shows "\<exists>s'. copy_fds sbs opens p [k..<NR_OPEN] s = Some s' \<and> fsys_ok sbs s' \<and> (\<forall>u. u \<noteq> p \<longrightarrow> tasks s' u = tasks s u)"
  using assms
proof (induction "NR_OPEN - k" arbitrary: k s)
  case 0
  then have k: "k = NR_OPEN" by simp
  have "fds (tasks (masked p k s) cur) n = fds (tasks s cur) n" for n using 0(4) by (simp add: masked_def)
  then have "fds (tasks s p) n = None" if "n \<ge> NR_OPEN" for n
    using fsys_okD(3) [OF 0(2), of cur n] 0(3) that k by (cases "fds (tasks s cur) n") auto
  then have "(\<lambda>n. if n < k then fds (tasks s p) n else None) = fds (tasks s p)" using k by (auto simp: fun_eq_iff)
  then have "masked p k s = s" by (simp add: masked_def)
  with 0(2) k show ?case by simp
next
  case (Suc d)
  have k: "k < NR_OPEN" using Suc(2) by simp
  have up: "[k..<NR_OPEN] = k # [Suc k..<NR_OPEN]" using k by (rule upt_conv_Cons)
  show ?case
  proof (cases "fds (tasks s p) k")
    case None
    have "\<exists>s'. copy_fds sbs opens p [Suc k..<NR_OPEN] s = Some s' \<and> fsys_ok sbs s' \<and> (\<forall>u. u \<noteq> p \<longrightarrow> tasks s' u = tasks s u)"
      by (rule Suc(1)) (use Suc(2-) k masked_none [of s p k] None in auto)
    with None show ?thesis unfolding up by simp
  next
    case (Some f)
    let ?M = "masked p k s"
    have "fds (tasks s cur) k = Some f" using Some Suc.prems(2) by simp
    then have par: "fds (tasks ?M cur) k = Some f" using Suc.prems(3) by (simp add: masked_def)
    obtain r M' where M: "copy_fd sbs opens f ?M = Some (r, M')" "tasks M' = tasks ?M" "fsys_ok sbs (set_fd p k r M')"
      using copy_fd_ok [OF Suc.prems(1) par k, of p opens] by (auto simp: masked_def)
    obtain s1 where s1: "copy_fd sbs opens f s = Some (r, s1)" "M' = s1\<lparr>tasks := tasks ?M\<rparr>"
      using M(1) copy_fd_tasks [where T = "tasks ?M" and s = s] by (auto simp: masked_def)
    have t1: "tasks s1 = tasks s"
      using copy_fd_tasks [where T = "tasks s" and s = s, of sbs opens f] s1(1) by (auto dest: arg_cong [where f = tasks])
    let ?s2 = "set_fd p k r s1"
    have "M' = masked p k s1" unfolding s1(2) masked_def t1 by simp
    then have ok2: "fsys_ok sbs (masked p (Suc k) ?s2)" using M(3) masked_step [of p k r s1] by simp
    have "\<exists>s'. copy_fds sbs opens p [Suc k..<NR_OPEN] ?s2 = Some s' \<and> fsys_ok sbs s' \<and> (\<forall>u. u \<noteq> p \<longrightarrow> tasks s' u = tasks ?s2 u)"
      by (rule Suc(1)) (use Suc(2-) k ok2 t1 in auto)
    moreover have "tasks ?s2 u = tasks s u" if "u \<noteq> p" for u using that t1 by (simp add: fd_upd_def)
    ultimately show ?thesis using Some s1(1) unfolding up by auto
  qed
qed

lemma copy_files_ok:
  assumes ok: "fsys_ok sbs s" and p: "p \<noteq> cur" "\<And>n. fds (tasks s p) n = None"
  obtains s' where "copy_files sbs opens cur p s = Some s'" "fsys_ok sbs s'" "\<And>u. u \<noteq> p \<Longrightarrow> tasks s' u = tasks s u"
proof -
  let ?s = "s\<lparr>tasks := (tasks s)(p := tasks s cur)\<rparr>"
  have eqv: "fds (tasks (masked p 0 ?s) u) n = fds (tasks s u) n" for u n using p by (simp add: masked_def)
  then have "open_fds (tasks (masked p 0 ?s)) = open_fds (tasks s)" "cnt_fds f (tasks (masked p 0 ?s)) = cnt_fds f (tasks s)" for f
    by (simp_all add: open_fds_def cnt_fds_def)
  then have "fsys_ok sbs (masked p 0 ?s)"
    using ok eqv unfolding fsys_ok_def by (simp add: masked_def)
  then have "\<exists>s'. copy_fds sbs opens p [0..<NR_OPEN] ?s = Some s' \<and> fsys_ok sbs s' \<and> (\<forall>u. u \<noteq> p \<longrightarrow> tasks s' u = tasks ?s u)"
    by (rule copy_fds_ok [where cur = cur]) (use p in auto)
  then show thesis using that by (auto simp: copy_files_def)
qed

section \<open>Creating pipes\<close>

lemma filter_two:
  assumes "filter P [0..<n] = a # b # r"
  shows "a < n" "b < n" "P a" "P b" "a \<noteq> b"
proof -
  have "set (a # b # r) \<subseteq> {x. x < n \<and> P x}" unfolding assms [symmetric] by auto
  then show "a < n" "b < n" "P a" "P b" by auto
  have "distinct (a # b # r)" unfolding assms [symmetric] by simp
  then show "a \<noteq> b" by simp
qed

lemma get_pipe_inodeD:
  assumes inv: "icache_inv sbs c" and g: "get_pipe_inode sbs c = Some (i, c')"
  shows "icache_inv sbs c'" "i < NR_INODE" "i_count (inodes c i) = 0" "\<And>j. j \<noteq> i \<Longrightarrow> inodes c' j = inodes c j"
    "inodes c' i = zero_inode\<lparr>i_count := 1, i_pipe := True, i_mode := 0x1000, i_block_size := 4096\<rparr>"
proof -
  show "icache_inv sbs c'" by (rule get_pipe_inode_ok(1) [OF assms])
  have i: "i = hd (i_lru c)" "i_count (inodes c i) = 0"
    using g by (auto simp: get_pipe_inode_def get_empty_inode_def Let_def split: option.splits if_splits)
  then show "i < NR_INODE" "i_count (inodes c i) = 0" using lru_hd_free [OF icache_invD(2) [OF inv]] by simp_all
  show "\<And>j. j \<noteq> i \<Longrightarrow> inodes c' j = inodes c j"
    "inodes c' i = zero_inode\<lparr>i_count := 1, i_pipe := True, i_mode := 0x1000, i_block_size := 4096\<rparr>"
    using g i by (auto simp: get_pipe_inode_def get_empty_inode_def Let_def split: option.splits if_splits)
qed

lemma unused_inode:
  assumes ok: "fsys_ok sbs s" and i: "i < NR_INODE" "i_count (inodes (icache s) i) = 0"
  shows "n_files i (ftable s) = 0" "n_readers i (ftable s) = 0" "n_writers i (ftable s) = 0" "f < NR_FILE \<Longrightarrow> f_inode (ftable s f) \<noteq> Some i"
proof -
  show n: "n_files i (ftable s) = 0" using fsys_okD(7) [OF ok i(1)] i(2) by (simp add: inode_ok_def)
  then show "n_readers i (ftable s) = 0" "n_writers i (ftable s) = 0"
    using cnt_files_mono [of "\<lambda>x. f_inode x = Some i \<and> reads x" "\<lambda>x. f_inode x = Some i" "ftable s"]
      cnt_files_mono [of "\<lambda>x. f_inode x = Some i \<and> writes x" "\<lambda>x. f_inode x = Some i" "ftable s"]
    by (simp_all add: n_files_def n_readers_def n_writers_def)
  show "f_inode (ftable s f) \<noteq> Some i" if "f < NR_FILE" using n n_pos(1) [of f "ftable s" i] that by auto
qed

lemma idle_inode_ok:
  assumes ok: "fsys_ok sbs s" and i: "i < NR_INODE" "i_count (inodes (icache s) i) = 0"
    and c': "icache_inv sbs c'" "\<And>j. j \<noteq> i \<Longrightarrow> inodes c' j = inodes (icache s) j" "\<not> i_pipe (inodes c' i)"
    and s': "icache s' = c'" "ftable s' = ftable s" "tasks s' = tasks s"
  shows "fsys_ok sbs s'"
proof (rule fsys_okI2 [OF s'])
  note U = unused_inode [OF ok i]
  show "file_ok (cnt_fds g (tasks s)) (ftable s g) (inodes c')" if "g < NR_FILE" for g
    by (rule file_ok_cong [OF fsys_okD(6) [OF ok that]]) (use U(4) [OF that] c'(2) in metis)
  show "inode_ok j (ftable s) (inodes c' j)" if "j < NR_INODE" for j
    using fsys_okD(7) [OF ok that] c' U(1) by (cases "j = i") (simp_all add: inode_ok_def)
qed (use c'(1) fsys_okD(2) [OF ok] in simp_all, (blast dest: fsys_okD(3,4,5) [OF ok])+)

text \<open>A new inode whose only references are those of two new files.\<close>

lemma two_files_ok:
  assumes ok: "fsys_ok sbs s" and i: "i < NR_INODE" "i_count (inodes (icache s) i) = 0"
    and f: "f0 < NR_FILE" "f1 < NR_FILE" "f0 \<noteq> f1" "f_count (ftable s f0) = 0" "f_count (ftable s f1) = 0"
    and d: "d0 < NR_OPEN" "d1 < NR_OPEN" "d0 \<noteq> d1" "fds (tasks s t) d0 = None" "fds (tasks s t) d1 = None"
    and c': "icache_inv sbs c'" "\<And>j. j \<noteq> i \<Longrightarrow> inodes c' j = inodes (icache s) j"
      "inodes c' i = n" "i_count n = 2" "i_pipe n" "S_ISFIFO (i_mode n)" "n_reader (pipe_i n) = 1" "n_writer (pipe_i n) = 1"
    and x: "x0 = ya\<lparr>f_count := 1, f_inode := Some i, f_op := Some ReadPipe, f_mode := 1\<rparr>"
      "x1 = yb\<lparr>f_count := 1, f_inode := Some i, f_op := Some WritePipe, f_mode := 2\<rparr>"
    and s': "icache s' = c'" "ftable s' = (ftable s)(f0 := x0, f1 := x1)"
      "tasks s' = fd_upd t d1 (Some f1) (fd_upd t d0 (Some f0) (tasks s))"
  shows "fsys_ok sbs s'"
proof (rule fsys_okI2 [OF s'])
  note U = unused_inode [OF ok i] and fin = fsys_okD(2) [OF ok]
  let ?Ta = "fd_upd t d0 (Some f0) (tasks s)" and ?fta = "(ftable s)(f0 := x0)"
  let ?T = "fd_upd t d1 (Some f1) ?Ta" and ?ft = "?fta(f1 := x1)"
  have free: "cnt_fds g (tasks s) = 0 \<and> f_inode (ftable s g) = None \<and> (\<forall>u k. fds (tasks s u) k \<noteq> Some g)"
    if "g \<in> {f0, f1}" for g
    using fsys_okD(6) [OF ok, of g] that f cnt_fds_pos [OF fin] by (fastforce simp: file_ok_def)
  show "icache_inv sbs c'" by (rule c'(1))
  show "finite (open_fds ?T)" by (intro open_fds_upd fin)
  show "k < NR_OPEN" "g < NR_FILE" if "fds (?T u) k = Some g" for u k g
    using that fsys_okD(3,4) [OF ok, of u k g] d f by (auto split: if_splits)
  show "u = u'" if "fds (?T u) k = Some g" "fds (?T u') k' = Some g" for u u' k k' g
    using that fsys_okD(5) [OF ok, of u k g u' k'] free f(3) by (auto split: if_splits)
  have cnt: "cnt_fds g ?T = cnt_fds g (tasks s) + (if g \<in> {f0, f1} then 1 else 0)" for g
    using cnt_fds_upd [OF fin, of g t d0 "Some f0"] cnt_fds_upd [OF open_fds_upd [OF fin], of g t d1 "Some f1" t d0 "Some f0"] d f(3)
    by (auto split: if_splits)
  have rw: "reads x0" "\<not> writes x0" "\<not> reads x1" "writes x1" "f_inode x0 = Some i" "f_inode x1 = Some i" "f_count x0 = 1" "f_count x1 = 1"
    by (simp_all add: x reads_def writes_def)
  have xok: "file_ok 1 x0 (inodes c')" "file_ok 1 x1 (inodes c')"
    using i(1) c' rw by (auto simp: file_ok_def) (simp_all add: x)
  show "file_ok (cnt_fds g ?T) (?ft g) (inodes c')" if g: "g < NR_FILE" for g
  proof (cases "g \<in> {f0, f1}")
    case True
    then show ?thesis using xok cnt [of g] free [of g] f(3) by auto
  next
    case False
    have "file_ok (cnt_fds g (tasks s)) (ftable s g) (inodes c')"
      by (rule file_ok_cong [OF fsys_okD(6) [OF ok g]]) (use U(4) [OF g] c'(2) in metis)
    then show ?thesis using False cnt [of g] by simp
  qed
  show "inode_ok j ?ft (inodes c' j)" if j: "j < NR_INODE" for j
  proof -
    have z: "f_inode (ftable s f0) = None" "f_inode (?fta f1) = None" using free f(3) by simp_all
    have "n_files j ?ft = n_files j (ftable s) + (if j = i then 2 else 0)"
      "n_readers j ?ft = n_readers j (ftable s) + (if j = i then 1 else 0)"
      "n_writers j ?ft = n_writers j (ftable s) + (if j = i then 1 else 0)"
      using n_upd [where ft = "ftable s", OF f(1), of j x0] n_upd [where ft = ?fta, OF f(2), of j x1] z rw
      by (simp_all split: if_splits)
    then show ?thesis
      using U(1,2,3) fsys_okD(7) [OF ok j] c' by (cases "j = i") (simp_all add: inode_ok_def)
  qed
qed

lemma do_pipe_ok:
  assumes ok: "fsys_ok sbs s" and r: "do_pipe sbs page t s = Some (r, s')" "r \<noteq> Inl EMFILE"
  shows "fsys_ok sbs s'"
proof -
  obtain i c where g: "get_pipe_inode sbs (icache s) = Some (i, c)"
    using r(1) by (auto simp: do_pipe_def split: option.splits)
  note G = get_pipe_inodeD [OF fsys_okD(1) [OF ok] g]
  obtain q p where q: "init_pipe_inode_info page (pipe_i (inodes c i)) = (q, p)" by fastforce
  define c1 where "c1 = upd_inode i (\<lambda>m. m\<lparr>pipe_i := p\<rparr>) c"
  have c1: "icache_inv sbs c1" "i_count (inodes c1 i) = 1" "\<And>j. j \<noteq> i \<Longrightarrow> inodes c1 j = inodes (icache s) j"
    using G upd_pipe_inv [of sbs i "\<lambda>_. p" c] by (simp_all add: c1_def)
  obtain c2 where c2: "iput sbs i c1 = Some c2" "icache_inv sbs c2" using iput_ok [OF c1(1), of i] c1(2) by (metis one_neq_zero)
  have nz: "i_count (inodes c1 i) \<noteq> 0" using c1(2) by simp
  note F = iput_frame [OF nz c2(1)]
  have put: "put_inode sbs (Some i) (s\<lparr>icache := c1\<rparr>) = Some (s\<lparr>icache := c2\<rparr>)" by (simp add: put_inode_def c2)
  have undone: "fsys_ok sbs (s\<lparr>icache := c2\<rparr>)"
    by (rule idle_inode_ok [OF ok G(2,3) c2(2)]) (use F c1 in auto)
  have st: "upd_pipe i (\<lambda>_. p) (s\<lparr>icache := c\<rparr>) = s\<lparr>icache := c1\<rparr>" by (simp add: upd_pipe_def c1_def)
  show ?thesis
  proof (cases q)
    case (Inl e)
    then show ?thesis using r(1) g q put undone st by (auto simp: do_pipe_def)
  next
    case (Inr u)
    have p: "n_reader p = 1" "n_writer p = 1"
      using q Inr by (auto simp: init_pipe_inode_info_def split: prod.splits sum.splits)
    show ?thesis
    proof (cases "get_two_empty_files (s\<lparr>icache := c1\<rparr>)")
      case None
      then show ?thesis using r(1) g q Inr put undone st by (auto simp: do_pipe_def Let_def)
    next
      case (Some fs)
      obtain f0 f1 rest where f: "filter (\<lambda>i. f_count (ftable s i) = 0) [0..<NR_FILE] = f0 # f1 # rest"
        and fs: "fs = (f0, f1, upd_file f1 fresh_file (upd_file f0 fresh_file (s\<lparr>icache := c1\<rparr>)))"
        using Some by (auto simp: get_two_empty_files_def split: list.splits)
      obtain d0 d1 rest' where d: "filter (\<lambda>n. fds (tasks s t) n = None) [0..<NR_OPEN] = d0 # d1 # rest'"
        using r g q Inr st Some fs by (auto simp: do_pipe_def Let_def split: list.splits)
      note f' = filter_two [OF f] and d' = filter_two [OF d]
      have s': "icache s' = upd_inode i (\<lambda>n. n\<lparr>i_count := 2\<rparr>) c1"
        "ftable s' = (ftable s)(f0 := (fresh_file (ftable s f0))\<lparr>f_count := 1, f_inode := Some i, f_op := Some ReadPipe, f_mode := 1, f_pos := 0, f_flags := 0\<rparr>,
           f1 := (fresh_file (ftable s f1))\<lparr>f_count := 1, f_inode := Some i, f_op := Some WritePipe, f_mode := 2, f_pos := 0, f_flags := 1\<rparr>)"
        "tasks s' = fd_upd t d1 (Some f1) (fd_upd t d0 (Some f0) (tasks s))"
        using r(1) g q Inr st Some fs d f'(5) by (auto simp: do_pipe_def Let_def fresh_file_def fun_upd_twist)
      have two: "upd_inode i (\<lambda>n. n\<lparr>i_count := 2\<rparr>) c1 = iref i c1"
        using c1(2) by (simp add: iref_def upd_inode_def numeral_2_eq_2)
      have inv: "icache_inv sbs (upd_inode i (\<lambda>n. n\<lparr>i_count := 2\<rparr>) c1)" unfolding two by (rule iref_inv [OF c1(1) nz])
      show ?thesis
        by (rule two_files_ok [OF ok G(2,3) f'(1,2,5,3,4) d'(1,2,5,3,4) inv _ refl _ _ _ _ _ _ _ s',
              where ya = "(ftable s f0)\<lparr>f_pos := 0, f_flags := 0, private_data := 0\<rparr>" and yb = "(ftable s f1)\<lparr>f_pos := 0, f_flags := 1, private_data := 0\<rparr>"])
          (simp_all add: c1 c1_def G p fresh_file_def S_ISFIFO_def)
    qed
  qed
qed

section \<open>Tasks at work\<close>

text \<open>The calls that change descriptors, each with the task that makes it; \<open>Fork t p\<close> gives task \<open>p\<close> a
  copy of the descriptors of \<open>t\<close>.\<close>

datatype fcall =
    Close nat u32
  | Dup nat u32
  | Dup2 nat u32 u32
  | Fcntl nat u32 u32 u32
  | MakePipe nat "u8 list option"
  | Fork nat nat
  | Exit nat

fun fcall_exec :: "(nat \<Rightarrow> super_block) \<Rightarrow> (nat \<Rightarrow> bool) \<Rightarrow> fcall \<Rightarrow> fsys \<Rightarrow> ((errno + u32) \<times> fsys) option" where
  "fcall_exec sbs opens (Close t fd) s = sys_close sbs t fd s"
| "fcall_exec sbs opens (Dup t fd) s = Some (sys_dup t fd s)"
| "fcall_exec sbs opens (Dup2 t fd fd') s = sys_dup2 sbs t fd fd' s"
| "fcall_exec sbs opens (Fcntl t fd cmd arg) s = Some (sys_fcntl t fd cmd arg s)"
| "fcall_exec sbs opens (MakePipe t page) s =
     (case do_pipe sbs page t s of
        None \<Rightarrow> None
      | Some (Inl e, s) \<Rightarrow> Some (Inl e, s)
      | Some (Inr (a, b), s) \<Rightarrow> Some (Inr 0, s))"
| "fcall_exec sbs opens (Fork t p) s = map_option (\<lambda>s. (Inr 0, s)) (copy_files sbs opens t p s)"
| "fcall_exec sbs opens (Exit t) s = map_option (\<lambda>s. (Inr 0, s)) (exit_files sbs t s)"

text \<open>A new task has no descriptors, and a pipe is made only when the task has two free descriptors.\<close>

fun fcall_ok :: "fcall \<Rightarrow> fsys \<Rightarrow> bool" where
  "fcall_ok (Fork t p) s \<longleftrightarrow> p \<noteq> t \<and> list_all (\<lambda>n. fds (tasks s p) n = None) [0..<NR_OPEN]"
| "fcall_ok (MakePipe t page) s \<longleftrightarrow> 2 \<le> length (filter (\<lambda>n. fds (tasks s t) n = None) [0..<NR_OPEN])"
| "fcall_ok _ s \<longleftrightarrow> True"

inductive fs_reach :: "(nat \<Rightarrow> super_block) \<Rightarrow> (nat \<Rightarrow> bool) \<Rightarrow> fsys \<Rightarrow> fsys \<Rightarrow> bool" for sbs opens s0 where
  reach_start: "fs_reach sbs opens s0 s0"
| reach_call: "fs_reach sbs opens s0 s \<Longrightarrow> fcall_ok c s \<Longrightarrow> fcall_exec sbs opens c s = Some (r, s') \<Longrightarrow> fs_reach sbs opens s0 s'"

lemma two_free:
  assumes "2 \<le> length (filter P xs)"
  obtains a b r where "filter P xs = a # b # r"
  using assms by (cases "filter P xs"; cases "tl (filter P xs)") auto

lemma do_pipe_no_emfile:
  assumes "2 \<le> length (filter (\<lambda>n. fds (tasks s t) n = None) [0..<NR_OPEN])" "do_pipe sbs page t s = Some (r, s')"
  shows "r \<noteq> Inl EMFILE"
proof -
  obtain a b l where f: "filter (\<lambda>n. fds (tasks s t) n = None) [0..<NR_OPEN] = a # b # l" using two_free [OF assms(1)] by metis
  have rb: "ring_buffer_init page rb \<noteq> (Inl EMFILE, rb')" for rb rb'
    by (simp add: ring_buffer_init_def Let_def split: option.split)
  show ?thesis using assms(2) f rb
    by (auto simp: do_pipe_def Let_def init_pipe_inode_info_def get_two_empty_files_def simp del: upt_Suc
        split: option.splits prod.splits sum.splits list.splits)
qed

lemma new_task_fds:
  assumes "fsys_ok sbs s" "list_all (\<lambda>n. fds (tasks s p) n = None) [0..<NR_OPEN]"
  shows "fds (tasks s p) n = None"
  using fsys_okD(3) [OF assms(1), of p n] assms(2) by (cases "fds (tasks s p) n") (auto simp: list_all_iff simp del: upt_Suc)

lemma fcall_exec_ok:
  assumes ok: "fsys_ok sbs s" and c: "fcall_ok c s" and r: "fcall_exec sbs opens c s = Some (r, s')"
  shows "fsys_ok sbs s'"
proof (cases c)
  case (Close t fd)
  then show ?thesis using r sys_close_ok [OF ok, of t fd] by auto
next
  case (Dup t fd)
  then show ?thesis using r dupfd_ok [OF ok] by (auto simp: sys_dup_def)
next
  case (Dup2 t fd fd')
  then show ?thesis using r sys_dup2_ok [OF ok, of t fd fd'] by auto
next
  case (Fcntl t fd cmd arg)
  then show ?thesis using r sys_fcntl_ok [OF ok] by auto
next
  case (MakePipe t page)
  then obtain q where q: "do_pipe sbs page t s = Some (q, s')"
    using r by (auto split: option.splits prod.splits sum.splits)
  show ?thesis using do_pipe_ok [OF ok q do_pipe_no_emfile [OF _ q]] c MakePipe by simp
next
  case (Fork t p)
  then have "p \<noteq> t" "\<And>n. fds (tasks s p) n = None" using c new_task_fds [OF ok] by auto
  from copy_files_ok [OF ok this, of opens] r Fork show ?thesis by auto
next
  case (Exit t)
  then show ?thesis using r exit_files_ok [OF ok, of t] by auto
qed

lemma fs_reach_ok: "fs_reach sbs opens s0 s \<Longrightarrow> fsys_ok sbs s0 \<Longrightarrow> fsys_ok sbs s"
  by (induction rule: fs_reach.induct) (auto intro: fcall_exec_ok)

lemma cnt_fds_le:
  assumes "fsys_ok sbs s"
  shows "cnt_fds f (tasks s) \<le> NR_OPEN"
proof (cases "\<exists>t n. fds (tasks s t) n = Some f")
  case True
  then obtain t n where tn: "fds (tasks s t) n = Some f" by blast
  have "{d. fds (tasks s (fst d)) (snd d) = Some f} \<subseteq> {t} \<times> {..<NR_OPEN}"
    using fsys_okD(3) [OF assms] fsys_okD(5) [OF assms tn] by fastforce
  from card_mono [OF _ this] show ?thesis by (simp add: cnt_fds_def)
next
  case False
  then have "{d. fds (tasks s (fst d)) (snd d) = Some f} = {}" by auto
  then show ?thesis by (simp add: cnt_fds_def)
qed

text \<open>An open end has a descriptor.\<close>

lemma open_end_fd:
  assumes ok: "fsys_ok sbs s" and f: "f < NR_FILE" "f_inode (ftable s f) = Some i"
  obtains t n where "fds (tasks s t) n = Some f"
proof -
  have "cnt_fds f (tasks s) \<noteq> 0" using fsys_okD(6) [OF ok f(1)] f(2) by (auto simp: file_ok_def)
  then have "{d. fds (tasks s (fst d)) (snd d) = Some f} \<noteq> {}" by (metis card.empty cnt_fds_def)
  then show thesis using that by auto
qed

lemma no_end:
  assumes ok: "fsys_ok sbs s"
  shows "(of_nat (cnt_files (\<lambda>x. f_inode x = Some i \<and> P x) (ftable s)) :: u32) = 0 \<longleftrightarrow>
    \<not> (\<exists>t n f. fds (tasks s t) n = Some f \<and> f_inode (ftable s f) = Some i \<and> P (ftable s f))"
proof -
  let ?k = "cnt_files (\<lambda>x. f_inode x = Some i \<and> P x) (ftable s)"
  have "(of_nat ?k :: u32) = 0 \<longleftrightarrow> ?k = 0"
    using cnt_files_le [of "\<lambda>x. f_inode x = Some i \<and> P x" "ftable s"] by (auto simp: unat_eq_0 [symmetric] unat_of_nat)
  also have "\<dots> \<longleftrightarrow> \<not> (\<exists>f < NR_FILE. f_inode (ftable s f) = Some i \<and> P (ftable s f))"
    using cnt_files_pos [of _ "\<lambda>x. f_inode x = Some i \<and> P x" "ftable s"] cnt_files_zero [of "\<lambda>x. f_inode x = Some i \<and> P x" "ftable s"]
    by fastforce
  also have "(\<exists>f < NR_FILE. f_inode (ftable s f) = Some i \<and> P (ftable s f)) \<longleftrightarrow>
      (\<exists>t n f. fds (tasks s t) n = Some f \<and> f_inode (ftable s f) = Some i \<and> P (ftable s f))"
    using fsys_okD(4) [OF ok] open_end_fd [OF ok] by metis
  finally show ?thesis .
qed

section \<open>Properties\<close>


text \<open>Closing, duplicating, forking and exiting never fail an assertion of the file table, the inode cache
  or the pipes: every such call returns.\<close>

theorem descriptor_calls_return:
  assumes "fsys_ok sbs s0" "fs_reach sbs opens s0 s" "fcall_ok c s" "\<forall>t page. c \<noteq> MakePipe t page"
  shows "\<exists>r s'. fcall_exec sbs opens c s = Some (r, s')"
proof -
  have ok: "fsys_ok sbs s" by (rule fs_reach_ok [OF assms(2,1)])
  show ?thesis
  proof (cases c)
    case (Fork t p)
    then have "p \<noteq> t" "\<And>n. fds (tasks s p) n = None" using assms(3) new_task_fds [OF ok] by auto
    from copy_files_ok [OF ok this, of opens] Fork show ?thesis by auto
  qed (use assms(4) sys_close_ok [OF ok] sys_dup2_ok [OF ok] exit_files_ok [OF ok] in \<open>auto, metis+\<close>)
qed

text \<open>C21: Reading an empty pipe returns end of file exactly when no task has a descriptor open for writing it, and
  writing fails with a broken pipe exactly when none has one open for reading.\<close>

theorem pipe_eof_exact:
  assumes "fsys_ok sbs s0" "fs_reach sbs opens s0 s" "i < NR_INODE" "i_pipe (inodes (icache s) i)"
    and "p = pipe_i (inodes (icache s) i)" "ring_buffer_empty (p_rb p)"
  shows "(fst (pipe_read_try False nb n p) = Ret (Inr []) \<longleftrightarrow>
      \<not> (\<exists>t k f. fds (tasks s t) k = Some f \<and> f_inode (ftable s f) = Some i \<and> writes (ftable s f))) \<and>
    (fst (pipe_write_try False nb buf n p) = Ret (Inl EPIPE) \<longleftrightarrow>
      \<not> (\<exists>t k f. fds (tasks s t) k = Some f \<and> f_inode (ftable s f) = Some i \<and> reads (ftable s f)))"
proof -
  have ok: "fsys_ok sbs s" by (rule fs_reach_ok [OF assms(2,1)])
  have n: "n_reader p = of_nat (n_readers i (ftable s))" "n_writer p = of_nat (n_writers i (ftable s))"
    using fsys_okD(7) [OF ok assms(3)] assms(4,5) by (simp_all add: inode_ok_def)
  have "fst (pipe_read_try False nb n p) = Ret (Inr []) \<longleftrightarrow> n_writer p = 0"
    using assms(6) by (simp add: pipe_read_try_def)
  moreover have "fst (pipe_write_try False nb buf n p) = Ret (Inl EPIPE) \<longleftrightarrow> n_reader p = 0"
    by (simp add: pipe_write_try_def prod.case_eq_if)
  ultimately show ?thesis
    using no_end [OF ok, of i writes] no_end [OF ok, of i reads] by (simp add: n n_readers_def n_writers_def)
qed

text \<open>Without two free descriptors the new inode and two files stay allocated, and no descriptor can
  ever give them back.\<close>

lemma do_pipe_emfile_leaks:
  assumes ok: "fsys_ok sbs s" and g: "get_pipe_inode sbs (icache s) = Some (i, c)"
    and two: "filter (\<lambda>k. f_count (ftable s k) = 0) [0..<NR_FILE] = f0 # f1 # rest"
    and few: "length (filter (\<lambda>n. fds (tasks s t) n = None) [0..<NR_OPEN]) < 2"
  obtains s' where "do_pipe sbs (Some page) t s = Some (Inl EMFILE, s')" "i_count (inodes (icache s') i) = 1"
    "f_count (ftable s' f0) = 1" "f_count (ftable s' f1) = 1" "cnt_fds f0 (tasks s') = 0" "cnt_fds f1 (tasks s') = 0"
proof -
  note G = get_pipe_inodeD [OF fsys_okD(1) [OF ok] g] and F = filter_two [OF two]
  have z: "cnt_fds f0 (tasks s) = 0" "cnt_fds f1 (tasks s) = 0"
    using fsys_okD(6) [OF ok F(1)] fsys_okD(6) [OF ok F(2)] F by (simp_all add: file_ok_def)
  have "case filter (\<lambda>n. fds (tasks s t) n = None) [0..<NR_OPEN] of a # b # _ \<Rightarrow> False | _ \<Rightarrow> True"
    using few by (auto split: list.split)
  then show thesis
    using that z G two g F(5)
    by (auto simp: do_pipe_def init_pipe_inode_info_def ring_buffer_init_def Let_def get_two_empty_files_def fresh_file_def simp del: upt_Suc
        split: list.splits)
qed

section \<open>An example\<close>

definition fs_boot :: fsys where
  "fs_boot = \<lparr>ftable = (\<lambda>_. \<lparr>f_pos = 0, f_mode = 0, f_flags = 0, f_count = 0, f_inode = None, f_op = None, private_data = 0\<rparr>),
     icache = inode_init icache_example, tasks = (\<lambda>_. \<lparr>fds = (\<lambda>_. None), close_on_exec = {}\<rparr>)\<rparr>"

lemma fs_boot_ok: "sbs_ok sbs \<Longrightarrow> fsys_ok sbs fs_boot"
  using inode_init_inv [of sbs icache_example]
  by (auto simp: fsys_ok_def fs_boot_def open_fds_def cnt_fds_def file_ok_def inode_ok_def n_files_def n_readers_def n_writers_def
      cnt_files_def inode_init_def zero_inode_def simp del: upt_Suc)

lemma upt_two: "2 \<le> n \<Longrightarrow> [0..<n] = 0 # 1 # [2..<n]"
  by (simp add: upt_conv_Cons numeral_2_eq_2)

text \<open>After task 0 made a pipe.\<close>

lemma boot_pipe:
  obtains s where "fs_reach ramfs_example opens fs_boot s" "i_pipe (inodes (icache s) 0)"
    "ring_buffer_empty (p_rb (pipe_i (inodes (icache s) 0)))" "fds (tasks s 0) 1 = Some 1"
    "f_inode (ftable s 1) = Some 0" "writes (ftable s 1)"
proof -
  have up: "[0..<NR_FILE] = 0 # 1 # [2..<NR_FILE]" "[0..<NR_OPEN] = 0 # 1 # [2..<NR_OPEN]" "hd [0..<NR_INODE] = 0"
    by (rule upt_two, simp)+ (rule hd_upt, simp)
  define c where "c = inode_init icache_example"
  obtain c' where g: "get_pipe_inode ramfs_example c = Some (0, c')"
    by (simp add: c_def get_pipe_inode_def get_empty_inode_def inode_init_def up(3) zero_inode_def Let_def del: upt_Suc upt_rec_numeral)
  note G = get_pipe_inodeD [OF inode_init_inv(1) [OF ramfs_example_ok] g [unfolded c_def]]
  have "\<exists>s. fcall_exec ramfs_example opens (MakePipe 0 (Some [])) fs_boot = Some (Inr 0, s) \<and> i_pipe (inodes (icache s) 0) \<and>
    ring_buffer_empty (p_rb (pipe_i (inodes (icache s) 0))) \<and> fds (tasks s 0) 1 = Some 1 \<and> f_inode (ftable s 1) = Some 0 \<and> writes (ftable s 1)"
    using g by (simp add: do_pipe_def fs_boot_def flip: c_def)
      (simp add: G(5) up(1,2) zero_inode_def Let_def init_pipe_inode_info_def ring_buffer_init_def
        get_two_empty_files_def fresh_file_def ring_buffer_empty_def writes_def del: upt_Suc upt_rec_numeral)
  moreover have "fcall_ok (MakePipe 0 (Some [])) fs_boot" by (simp add: fs_boot_def up(2) del: upt_Suc upt_rec_numeral)
  ultimately show thesis using that reach_call [OF reach_start] by blast
qed


theorem descriptor_calls_return_witness:
  "\<exists>s. fs_reach ramfs_example (\<lambda>_. True) fs_boot s \<and> i_pipe (inodes (icache s) 0) \<and>
     (\<exists>r s'. fcall_exec ramfs_example (\<lambda>_. True) (Close 0 1) s = Some (r, s'))"
proof -
  obtain s where s: "fs_reach ramfs_example (\<lambda>_. True) fs_boot s" "i_pipe (inodes (icache s) 0)" by (rule boot_pipe)
  have "\<exists>r s'. fcall_exec ramfs_example (\<lambda>_. True) (Close 0 1) s = Some (r, s')"
    by (rule descriptor_calls_return [OF fs_boot_ok [OF ramfs_example_ok] s(1)]) simp_all
  with s show ?thesis by blast
qed

theorem pipe_eof_exact_witness:
  "\<exists>s. fs_reach ramfs_example (\<lambda>_. True) fs_boot s \<and> fst (pipe_read_try False True 1 (pipe_i (inodes (icache s) 0))) \<noteq> Ret (Inr [])"
proof -
  obtain s where s: "fs_reach ramfs_example (\<lambda>_. True) fs_boot s" "i_pipe (inodes (icache s) 0)"
    "ring_buffer_empty (p_rb (pipe_i (inodes (icache s) 0)))" "fds (tasks s 0) 1 = Some 1"
    "f_inode (ftable s 1) = Some 0" "writes (ftable s 1)"
    by (rule boot_pipe)
  from pipe_eof_exact [OF fs_boot_ok [OF ramfs_example_ok] s(1) _ s(2) refl s(3), of True 1] s show ?thesis by auto
qed

end
