(* ===== verification/Bitops.thy ===== *)
theory Bitops
  imports Prelude
begin

text \<open>
  Bit maps: \<^verbatim>\<open>src/src/lib/bitops.c\<close> and \<^verbatim>\<open>src/src/include/lib/bitops.h\<close>. A bit map is the list of 32 bit
  words from its address on, which may go on beyond the bits the caller asks for. The
  instruction \<^verbatim>\<open>bsf\<close> is a search for the lowest set bit; \<^verbatim>\<open>repe scasl\<close> compares word by word. With a
  count of zero \<^verbatim>\<open>scas\<close> leaves the flags of the shift that computed it, so no zero bit is found.
\<close>

section \<open>Model\<close>

definition bsf :: "u32 \<Rightarrow> nat option" where
  "bsf w = find (bit w) [0..<32]"

definition set_bit :: "nat \<Rightarrow> u32 list \<Rightarrow> u32 list" where
  "set_bit nr ws = ws[nr div 32 := Bit_Operations.set_bit (nr mod 32) (ws ! (nr div 32))]"

definition clear_bit :: "nat \<Rightarrow> u32 list \<Rightarrow> u32 list" where
  "clear_bit nr ws = ws[nr div 32 := unset_bit (nr mod 32) (ws ! (nr div 32))]"

definition change_bit :: "nat \<Rightarrow> u32 list \<Rightarrow> u32 list" where
  "change_bit nr ws = ws[nr div 32 := flip_bit (nr mod 32) (ws ! (nr div 32))]"

definition test_bit :: "nat \<Rightarrow> u32 list \<Rightarrow> bool" where
  "test_bit nr ws = bit (ws ! (nr div 32)) (nr mod 32)"

definition test_and_set_bit :: "nat \<Rightarrow> u32 list \<Rightarrow> bool \<times> u32 list" where
  "test_and_set_bit nr ws = (test_bit nr ws, set_bit nr ws)"

definition test_and_clear_bit :: "nat \<Rightarrow> u32 list \<Rightarrow> bool \<times> u32 list" where
  "test_and_clear_bit nr ws = (test_bit nr ws, clear_bit nr ws)"

definition test_and_change_bit :: "nat \<Rightarrow> u32 list \<Rightarrow> bool \<times> u32 list" where
  "test_and_change_bit nr ws = (test_bit nr ws, change_bit nr ws)"

definition ffz :: "u32 \<Rightarrow> u32" where
  "ffz w = (case bsf (NOT w) of Some n \<Rightarrow> of_nat n | None \<Rightarrow> -1)"

definition ffs :: "u32 \<Rightarrow> u32" where
  "ffs w = ffz (NOT w)"

definition find_first_zero_bit :: "u32 list \<Rightarrow> u32 \<Rightarrow> u32" where
  "find_first_zero_bit ws sz =
     (case find (\<lambda>k. ws ! k \<noteq> -1) [0..<unat (drop_bit 5 (sz + 31))] of
        None \<Rightarrow> -1
      | Some k \<Rightarrow>
          (case bsf (ws ! k XOR -1) of
             None \<Rightarrow> -1
           | Some n \<Rightarrow> let edx = of_nat n + of_nat (4 * k) * 8 in if edx \<ge> sz then -1 else edx))"

definition find_next_zero_bit :: "u32 list \<Rightarrow> u32 \<Rightarrow> u32 \<Rightarrow> u32" where
  "find_next_zero_bit ws sz offset =
     (let offset = offset + 1
      in if sz \<le> offset then -1
         else
           let p = unat (drop_bit 5 offset); b = unat (offset AND 31)
           in case (if b \<noteq> 0
                    then let s = (case bsf (NOT (drop_bit b (ws ! p))) of Some n \<Rightarrow> n | None \<Rightarrow> 32)
                         in if s + b < 32
                            then Inl (if offset + of_nat s < sz then offset + of_nat s else -1)
                            else Inr (32 - b, p + 1)
                    else Inr (0, p)) of
                Inl r \<Rightarrow> r
              | Inr (s, p) \<Rightarrow>
                  let res = find_first_zero_bit (drop p ws) (sz - 32 * of_nat p)
                  in if res = -1 then -1 else offset + of_nat s + res)"

section \<open>Reference\<close>

text \<open>The lowest clear bit in a range, or none.\<close>

definition first_zero :: "u32 list \<Rightarrow> nat \<Rightarrow> nat \<Rightarrow> nat option" where
  "first_zero ws lo hi = find (\<lambda>i. \<not> test_bit i ws) [lo..<hi]"

definition bit_result :: "nat option \<Rightarrow> u32" where
  "bit_result r = (case r of None \<Rightarrow> -1 | Some i \<Rightarrow> of_nat i)"

lemma find_upt_iff: "find P [a..<b] = Some n \<longleftrightarrow> a \<le> n \<and> n < b \<and> P n \<and> (\<forall>m. a \<le> m \<and> m < n \<longrightarrow> \<not> P m)"
proof
  assume "find P [a..<b] = Some n"
  then obtain k where k: "k < b - a" "n = a + k" "P n" "\<forall>j < k. \<not> P ([a..<b] ! j)"
    by (auto simp: find_Some_iff)
  have "\<not> P m" if "a \<le> m" "m < n" for m using k(4) [rule_format, of "m - a"] k that by simp
  with k show "a \<le> n \<and> n < b \<and> P n \<and> (\<forall>m. a \<le> m \<and> m < n \<longrightarrow> \<not> P m)" by auto
next
  assume r: "a \<le> n \<and> n < b \<and> P n \<and> (\<forall>m. a \<le> m \<and> m < n \<longrightarrow> \<not> P m)"
  then show "find P [a..<b] = Some n"
    by (auto simp: find_Some_iff intro!: exI [of _ "n - a"])
qed

lemma find_upt_None_iff: "find P [a..<b] = None \<longleftrightarrow> (\<forall>m. a \<le> m \<and> m < b \<longrightarrow> \<not> P m)"
  by (auto simp: find_None_iff)

lemma bsf_Some: "bsf w = Some n \<longleftrightarrow> n < 32 \<and> bit w n \<and> (\<forall>m < n. \<not> bit w m)"
  unfolding bsf_def find_upt_iff by auto

lemma bsf_None: "bsf w = None \<longleftrightarrow> w = 0"
proof -
  have "bsf w = None \<longleftrightarrow> (\<forall>m < 32. \<not> bit w m)" unfolding bsf_def find_upt_None_iff by auto
  also have "\<dots> \<longleftrightarrow> w = 0" by (auto intro: bit_word_eqI)
  finally show ?thesis .
qed

lemma not_all_ones: "w \<noteq> -1 \<longleftrightarrow> (\<exists>m < 32. \<not> bit (w :: u32) m)"
  by (auto intro!: bit_word_eqI simp: bit_simps)

lemma unat_minus_1: "unat (-1 :: u32) = 4294967295"
  unfolding unsigned_minus_1_eq_mask by (simp add: mask_eq_exp_minus_1)

lemma word_count:
  assumes "unat (sz :: u32) \<le> 2 ^ 32 - 32"
  shows "unat (drop_bit 5 (sz + 31)) = (unat sz + 31) div 32"
proof -
  have "unat (sz + 31 :: u32) = unat sz + 31" using assms by (subst unat_plus_if') simp
  then show ?thesis by (simp add: drop_bit_eq_div unat_div)
qed

lemma first_zeroI:
  assumes "lo \<le> i" "\<not> test_bit i ws" "\<And>m. lo \<le> m \<Longrightarrow> m < i \<Longrightarrow> test_bit m ws"
  shows "first_zero ws lo hi = (if i < hi then Some i else None)"
  using assms by (auto simp: first_zero_def find_upt_iff find_upt_None_iff)

lemma first_zero_NoneI: "(\<And>m. lo \<le> m \<Longrightarrow> m < hi \<Longrightarrow> test_bit m ws) \<Longrightarrow> first_zero ws lo hi = None"
  by (auto simp: first_zero_def find_upt_None_iff)

lemma first_zero_range: "first_zero ws lo hi = Some i \<Longrightarrow> i < hi \<and> \<not> test_bit i ws"
  by (simp add: first_zero_def find_upt_iff)

lemma scan_correct:
  assumes sz: "unat sz \<le> 2 ^ 32 - 32"
  shows "find_first_zero_bit ws sz = bit_result (first_zero ws 0 (unat sz))"
proof -
  define n where "n = (unat sz + 31) div 32"
  have n: "unat (drop_bit 5 (sz + 31)) = n" using word_count [OF sz] by (simp add: n_def)
  have ones: "test_bit m ws" if "\<And>j. j < k \<Longrightarrow> ws ! j = -1" "m < 32 * k" for m k
    using that(1) [of "m div 32"] that(2) by (auto simp: test_bit_def bit_simps)
  show ?thesis
  proof (cases "find (\<lambda>k. ws ! k \<noteq> -1) [0..<n]")
    case None
    then have "ws ! j = -1" if "j < n" for j using that by (auto simp: find_upt_None_iff)
    then have "first_zero ws 0 (unat sz) = None"
      by (intro first_zero_NoneI ones [of n]) (auto simp: n_def)
    then show ?thesis using None by (simp add: find_first_zero_bit_def n bit_result_def)
  next
    case (Some k)
    then have k: "k < n" "ws ! k \<noteq> -1" "\<And>j. j < k \<Longrightarrow> ws ! j = -1" by (auto simp: find_upt_iff)
    obtain b where b: "bsf (ws ! k XOR -1) = Some b"
      using k(2) bsf_None [of "ws ! k XOR -1"] by (metis bit.compl_zero bit.double_compl bit.xor_one_right not_Some_eq)
    then have b': "b < 32" "\<not> bit (ws ! k) b" "\<And>m. m < b \<Longrightarrow> bit (ws ! k) m"
      by (auto simp: bsf_Some bit_simps)
    let ?i = "32 * k + b"
    have zero: "\<not> test_bit ?i ws" using b' by (simp add: test_bit_def)
    have below: "test_bit m ws" if "m < ?i" for m
    proof (cases "m < 32 * k")
      case True
      then show ?thesis using ones [of k m] k(3) by simp
    next
      case False
      then obtain j where "m = 32 * k + j" by (metis le_Suc_ex not_less)
      moreover from this have "j < b" using that by simp
      ultimately have "m div 32 = k" "m mod 32 = j" "j < b" using b'(1) by simp_all
      then show ?thesis using b'(1,3) by (simp add: test_bit_def)
    qed
    have fz: "first_zero ws 0 (unat sz) = (if ?i < unat sz then Some ?i else None)"
      by (rule first_zeroI) (use zero below in auto)
    have lt: "?i < 2 ^ 32" using k(1) b'(1) sz by (simp add: n_def)
    have edx: "of_nat b + of_nat (4 * k) * 8 = (of_nat ?i :: u32)" by simp
    have "(of_nat ?i :: u32) \<ge> sz \<longleftrightarrow> \<not> ?i < unat sz"
      using lt by (simp add: word_le_nat_alt unat_of_nat not_less del: of_nat_add of_nat_mult)
    then show ?thesis
      unfolding find_first_zero_bit_def n Some option.case b Let_def edx fz by (simp add: bit_result_def)
  qed
qed

text \<open>Searching from the start of word \<open>p\<close>.\<close>

lemma first_zero_drop:
  assumes "32 * p \<le> hi" "p \<le> length ws"
  shows "first_zero ws (32 * p) hi = map_option (\<lambda>i. 32 * p + i) (first_zero (drop p ws) 0 (hi - 32 * p))"
proof -
  have b: "test_bit i (drop p ws) = test_bit (32 * p + i) ws" for i
    using assms(2) by (simp add: test_bit_def)
  show ?thesis
  proof (cases "first_zero (drop p ws) 0 (hi - 32 * p)")
    case None
    then have n: "test_bit (32 * p + i) ws" if "i < hi - 32 * p" for i
      using that b by (auto simp: first_zero_def find_upt_None_iff)
    have "test_bit m ws" if "32 * p \<le> m" "m < hi" for m using n [of "m - 32 * p"] that by simp
    then show ?thesis using None first_zero_NoneI by auto
  next
    case (Some i)
    then have i: "i < hi - 32 * p" "\<not> test_bit (32 * p + i) ws" "\<And>m. m < i \<Longrightarrow> test_bit (32 * p + m) ws"
      by (auto simp: first_zero_def find_upt_iff b)
    have "test_bit m ws" if "32 * p \<le> m" "m < 32 * p + i" for m using i(3) [of "m - 32 * p"] that by simp
    then have "first_zero ws (32 * p) hi = (if 32 * p + i < hi then Some (32 * p + i) else None)"
      using i(2) by (intro first_zeroI) auto
    then show ?thesis using Some i(1) by simp
  qed
qed

lemma first_zero_skip:
  assumes "lo \<le> mid" "mid \<le> hi" "\<And>m. lo \<le> m \<Longrightarrow> m < mid \<Longrightarrow> test_bit m ws"
  shows "first_zero ws lo hi = first_zero ws mid hi"
proof -
  have "[lo..<hi] = [lo..<mid] @ [mid..<hi]" using assms(1,2) by (metis le_Suc_ex upt_add_eq_append)
  moreover have "find (\<lambda>i. \<not> test_bit i ws) ([lo..<mid] @ ys) = find (\<lambda>i. \<not> test_bit i ws) ys" for ys
  proof -
    have "find P (xs @ ys) = find P ys" if "\<forall>x \<in> set xs. \<not> P x" for P :: "nat \<Rightarrow> bool" and xs
      using that by (induction xs) auto
    then show ?thesis using assms(3) by simp
  qed
  ultimately show ?thesis by (simp add: first_zero_def)
qed

lemma next_word:
  assumes sz: "unat sz \<le> 2 ^ 32 - 32" "32 * p \<le> unat sz" "p \<le> length ws"
  shows "(let res = find_first_zero_bit (drop p ws) (sz - 32 * of_nat p) in if res = -1 then -1 else 32 * of_nat p + res) =
    bit_result (first_zero ws (32 * p) (unat sz))"
proof -
  have p: "(32 * of_nat p :: u32) = of_nat (32 * p)" by simp
  have u: "unat (of_nat (32 * p) :: u32) = 32 * p" using sz by (simp add: unat_of_nat del: of_nat_mult)
  have s: "unat (sz - 32 * of_nat p) = unat sz - 32 * p"
    unfolding p using sz u by (subst unat_sub) (simp_all add: word_le_nat_alt del: of_nat_mult)
  have f: "find_first_zero_bit (drop p ws) (sz - 32 * of_nat p) = bit_result (first_zero (drop p ws) 0 (unat sz - 32 * p))"
    using scan_correct [of "sz - 32 * of_nat p" "drop p ws"] sz s by simp
  show ?thesis
  proof (cases "first_zero (drop p ws) 0 (unat sz - 32 * p)")
    case None
    then show ?thesis using f first_zero_drop [OF sz(2,3)] by (simp add: bit_result_def)
  next
    case (Some i)
    then have "i < unat sz" using first_zero_range by fastforce
    then have "unat (of_nat i :: u32) = i" "i < 2 ^ 32 - 32" using sz(1) by (simp_all add: unat_of_nat)
    then have "(of_nat i :: u32) \<noteq> -1" by (auto dest!: arg_cong [where f = unat] simp: unat_minus_1)
    then show ?thesis using f first_zero_drop [OF sz(2,3)] Some by (simp add: bit_result_def)
  qed
qed

text \<open>Behind the last word the size is negative, and rounding it up to words gives none.\<close>

lemma scan_none:
  assumes "unat sz < 32 * q" "32 * q \<le> unat sz + 31"
  shows "find_first_zero_bit ws (sz - 32 * of_nat q) = -1"
proof -
  have "sz - 32 * of_nat q + 31 = (of_nat (unat sz + 31 - 32 * q) :: u32)"
    using assms(2) by (simp add: of_nat_diff algebra_simps)
  moreover have "unat sz + 31 - 32 * q < 32" using assms(1) by linarith
  ultimately have "unat (drop_bit 5 (sz - 32 * of_nat q + 31)) = 0"
    by (simp add: drop_bit_eq_div unat_div unat_of_nat)
  then show ?thesis by (simp add: find_first_zero_bit_def)
qed

text \<open>Starting inside a word: the rest of the word first.\<close>

lemma bsf_rest:
  assumes "b \<noteq> 0" "b < 32"
  obtains n where "bsf (NOT (drop_bit b (w :: u32))) = Some n" "n + b \<le> 32" "\<And>j. j < n \<Longrightarrow> bit w (b + j)"
    "n + b < 32 \<Longrightarrow> \<not> bit w (b + n)"
proof -
  let ?v = "NOT (drop_bit b w)"
  have bv: "bit ?v j \<longleftrightarrow> j < 32 \<and> (b + j < 32 \<longrightarrow> \<not> bit w (b + j))" for j
    by (auto simp: bit_simps dest: bit_imp_le_length)
  have top: "bit ?v (32 - b)" using assms by (auto simp: bv)
  then obtain n where n: "bsf ?v = Some n" using bsf_None [of ?v] by (cases "bsf ?v") auto
  then have n': "n < 32" "bit ?v n" "\<And>m. m < n \<Longrightarrow> \<not> bit ?v m" by (auto simp: bsf_Some)
  have "\<not> 32 - b < n" using n'(3) top by blast
  then have nb: "n + b \<le> 32" using assms(2) by linarith
  have "bit w (b + j)" if "j < n" for j using n'(1) n'(3) [OF that] that nb by (simp add: bv)
  then show thesis using that [OF n nb] n'(2) by (auto simp: bv add.commute)
qed

lemma next_correct:
  assumes sz: "unat sz \<le> 2 ^ 32 - 32" and d: "unat sz \<le> 32 * length ws" and o1: "unat offset + 1 < 2 ^ 32"
  shows "find_next_zero_bit ws sz offset = bit_result (first_zero ws (unat offset + 1) (unat sz))"
proof -
  define lo where "lo = unat offset + 1"
  have u: "unat (offset + 1) = lo" using o1 by (subst unat_plus_if') (simp add: lo_def)
  then have eq: "offset + 1 = (of_nat lo :: u32)" by (simp flip: u)
  have "find_next_zero_bit ws sz offset = bit_result (first_zero ws lo (unat sz))" (is ?thesis)
  proof (cases "unat sz \<le> lo")
    case True
    then have "first_zero ws lo (unat sz) = None" by (intro first_zero_NoneI) auto
    then show ?thesis using True u
      by (simp add: find_next_zero_bit_def Let_def word_le_nat_alt bit_result_def)
  next
    case False
    define p b where "p = lo div 32" and "b = lo mod 32"
    have lo: "lo = 32 * p + b" "b < 32" by (simp_all add: p_def b_def)
    have m31: "(x AND 31) = take_bit 5 x" for x :: u32 by (simp add: take_bit_eq_mask mask_eq_exp_minus_1)
    have pb: "unat (drop_bit 5 (offset + 1)) = p" "unat ((offset + 1) AND 31) = b"
      using u by (simp_all add: drop_bit_eq_div unat_div p_def b_def m31 take_bit_eq_mod unat_mod)
    have le: "32 * p \<le> unat sz" "p + 1 \<le> length ws" using False lo d by linarith+
    show ?thesis
    proof (cases "b = 0")
      case True
      then show ?thesis
        using next_word [OF sz, of p ws, symmetric] le False lo pb u eq
        by (simp add: find_next_zero_bit_def Let_def word_le_nat_alt)
    next
      case b0: False
      obtain n where n: "bsf (NOT (drop_bit b (ws ! p))) = Some n" "n + b \<le> 32" "\<And>j. j < n \<Longrightarrow> bit (ws ! p) (b + j)"
        "n + b < 32 \<Longrightarrow> \<not> bit (ws ! p) (b + n)"
        using bsf_rest [OF b0 lo(2), of "ws ! p"] by blast
      have set: "test_bit m ws" if m: "lo \<le> m" "m < lo + n" for m
      proof -
        obtain j where j: "m = lo + j" using le_Suc_ex [OF m(1)] by blast
        have jn: "j < n" using m(2) j by simp
        have "b + j < 32" using n(2) jn by simp
        then have "m div 32 = p" "m mod 32 = b + j" using j lo by (simp_all add: add.assoc)
        then show ?thesis using n(3) [OF jn] by (simp add: test_bit_def)
      qed
      show ?thesis
      proof (cases "n + b < 32")
        case True
        have "b + n < 32" using True by simp
        then have "(lo + n) div 32 = p" "(lo + n) mod 32 = b + n" using lo(1) by (simp_all add: add.assoc)
        then have "\<not> test_bit (lo + n) ws" using n(4) True by (simp add: test_bit_def)
        then have "first_zero ws lo (unat sz) = (if lo + n < unat sz then Some (lo + n) else None)"
          using set by (intro first_zeroI) auto
        moreover have "lo + n < 2 ^ 32" using True lo False sz by linarith
        then have "unat (of_nat (lo + n) :: u32) = lo + n" by (simp add: unat_of_nat del: of_nat_add)
        ultimately show ?thesis using True False n(1) pb u eq b0
          by (simp add: find_next_zero_bit_def Let_def word_le_nat_alt word_less_nat_alt bit_result_def)
      next
        case end_of_word: False
        then have mid: "lo + (32 - b) = 32 * (p + 1)" "n = 32 - b" using n(2) lo by simp_all
        show ?thesis
        proof (cases "32 * (p + 1) \<le> unat sz")
          case past: False
          have "first_zero ws lo (unat sz) = None" by (rule first_zero_NoneI) (use set mid past in auto)
          moreover have "find_first_zero_bit (drop (p + 1) ws) (sz - 32 * of_nat (p + 1)) = -1"
            by (rule scan_none) (use past lo False in auto)
          ultimately show ?thesis
            using False end_of_word n(1) pb u b0 unfolding find_next_zero_bit_def Let_def
            by (simp add: word_le_nat_alt bit_result_def del: of_nat_Suc)
        next
          case in_map: True
          have "first_zero ws lo (unat sz) = first_zero ws (32 * (p + 1)) (unat sz)"
            by (rule first_zero_skip) (use set mid in_map lo in auto)
          moreover have "of_nat lo + of_nat (32 - b) = (32 * of_nat (p + 1) :: u32)"
            using arg_cong [OF mid(1), of "of_nat :: nat \<Rightarrow> u32"] by simp
          ultimately show ?thesis
            using next_word [OF sz, of "p + 1" ws, symmetric] in_map le False end_of_word n(1) pb u eq b0
          unfolding find_next_zero_bit_def Let_def
          by (simp add: word_le_nat_alt del: of_nat_Suc)
        qed
      qed
    qed
  qed
  then show ?thesis by (simp add: lo_def)
qed

section \<open>Changing bits\<close>

lemma test_set_bit: "nr < 32 * length ws \<Longrightarrow> test_bit i (set_bit nr ws) \<longleftrightarrow> i = nr \<or> test_bit i ws"
proof -
  assume "nr < 32 * length ws"
  then have "nr div 32 < length ws" by simp
  then show ?thesis
    by (cases "i div 32 = nr div 32") (auto simp: test_bit_def set_bit_def bit_simps, (metis div_mult_mod_eq)+)
qed

lemma test_clear_bit: "nr < 32 * length ws \<Longrightarrow> test_bit i (clear_bit nr ws) \<longleftrightarrow> i \<noteq> nr \<and> test_bit i ws"
proof -
  assume "nr < 32 * length ws"
  then have "nr div 32 < length ws" by simp
  then show ?thesis
    by (cases "i div 32 = nr div 32") (auto simp: test_bit_def clear_bit_def bit_simps, (metis div_mult_mod_eq)+)
qed

lemma length_set_bit [simp]: "length (set_bit nr ws) = length ws" "length (clear_bit nr ws) = length ws"
  by (simp_all add: set_bit_def clear_bit_def)

section \<open>Properties\<close>

text \<open>C22: The search for the first zero bit returns the lowest clear bit below the size, or -1 when all are
  set, although it works on whole words; and the search for the next zero bit returns the lowest clear bit after the
  given one, also when the map ends inside a word.\<close>

theorem zero_bit_search_correct:
  assumes "unat sz \<le> 2 ^ 32 - 32"
  shows "find_first_zero_bit ws sz = bit_result (first_zero ws 0 (unat sz)) \<and>
    (unat sz \<le> 32 * length ws \<and> unat offset + 1 < 2 ^ 32 \<longrightarrow>
       find_next_zero_bit ws sz offset = bit_result (first_zero ws (unat offset + 1) (unat sz)))"
  using scan_correct [OF assms] next_correct [OF assms] by blast

theorem zero_bit_search_correct_witness:
  "find_first_zero_bit [-1, 7] 61 = 35 \<and> find_next_zero_bit [-1, 7] 61 35 = 36"
proof -
  have "first_zero [-1, 7] 0 61 = Some 35" "first_zero [-1, 7] 36 61 = Some 36" by code_simp+
  then show ?thesis using zero_bit_search_correct [of 61 "[-1, 7]" 35] by (simp add: bit_result_def)
qed

end
