(* ===== verification/Ext2.thy ===== *)
theory Ext2
  imports Bitops Blkdev
begin

text \<open>
  The block allocator of the ext2 file system: \<^verbatim>\<open>src/src/fs/ext2/balloc.c\<close> over the block I/O of
  \<^verbatim>\<open>src/src/fs/ext2/buffer.c\<close>. The mount state has the
  numbers of \<^verbatim>\<open>struct ext2_sb_info\<close>, the table of group descriptors in memory, and the disk. A bit map is
  read from its block as little-endian words. The flags \<open>mem\<close> say whether \<^verbatim>\<open>kmalloc\<close> succeeds.
\<close>

section \<open>Model\<close>

record group_desc =
  bg_block_bitmap :: u32
  bg_inode_bitmap :: u32
  bg_inode_table :: u32
  bg_free_blocks_count :: u16
  bg_free_inodes_count :: u16
  bg_used_dirs_count :: u16
  bg_pad :: u16
  bg_reserved :: "u32 \<times> u32 \<times> u32"

record 'w ext2 =
  e_dev :: dev_t
  block_size :: u32
  first_data_block :: u32
  blocks_count :: u32
  inodes_count :: u32
  free_blocks_count :: u32
  free_inodes_count :: u32
  blocks_per_group :: u32
  inodes_per_group :: u32
  nr_groups :: u32
  inode_size :: u32
  desc_per_block :: u32
  hash_seed :: "u32 list"
  hash_version :: u32
  group_desc :: "nat \<Rightarrow> group_desc"
  readonly :: bool
  e_dirty :: bool
  e_disk :: 'w

text \<open>Blocks of bytes as words and back.\<close>

fun bytes_words :: "u8 list \<Rightarrow> u32 list" where
  "bytes_words (a # b # c # d # r) = le_word [a, b, c, d] # bytes_words r"
| "bytes_words _ = []"

definition words_bytes :: "u32 list \<Rightarrow> u8 list" where
  "words_bytes ws = concat (map (le_bytes 4) ws)"

text \<open>The 32 bytes of a descriptor on disk.\<close>

definition desc_bytes :: "group_desc \<Rightarrow> u8 list" where
  "desc_bytes d =
     le_bytes 4 (bg_block_bitmap d) @ le_bytes 4 (bg_inode_bitmap d) @ le_bytes 4 (bg_inode_table d) @
     le_bytes 2 (bg_free_blocks_count d) @ le_bytes 2 (bg_free_inodes_count d) @ le_bytes 2 (bg_used_dirs_count d) @
     le_bytes 2 (bg_pad d) @
     (case bg_reserved d of (a, b, c) \<Rightarrow> le_bytes 4 a @ le_bytes 4 b @ le_bytes 4 c)"

definition ext2_read_block :: "'w blkdevs \<Rightarrow> u32 \<Rightarrow> u8 list \<Rightarrow> 'w ext2 \<Rightarrow> errno + u8 list" where
  "ext2_read_block devs blkno buf e =
     (if block_size e = 0 then Inl EINVAL
      else if blkno \<ge> blocks_count e then Inl EINVAL
      else let sec_per_block = block_size e div 512
           in blkdev_read devs (e_dev e) (blkno * sec_per_block) sec_per_block buf (e_disk e))"

definition ext2_write_block :: "'w blkdevs \<Rightarrow> u32 \<Rightarrow> u8 list \<Rightarrow> 'w ext2 \<Rightarrow> (errno + unit) \<times> 'w ext2" where
  "ext2_write_block devs blkno buf e =
     (if block_size e = 0 then (Inl EINVAL, e)
      else if blkno \<ge> blocks_count e then (Inl EINVAL, e)
      else let sec_per_block = block_size e div 512
           in case blkdev_write devs (e_dev e) (blkno * sec_per_block) sec_per_block buf (e_disk e) of
                (Inl x, w) \<Rightarrow> (Inl x, e\<lparr>e_disk := w\<rparr>)
              | (Inr _, w) \<Rightarrow> (Inr (), e\<lparr>e_disk := w, e_dirty := True\<rparr>))"

definition ext2_group_start :: "'w ext2 \<Rightarrow> u32 \<Rightarrow> u32" where
  "ext2_group_start e grp = first_data_block e + grp * blocks_per_group e"

definition ext2_group_blocks :: "'w ext2 \<Rightarrow> u32 \<Rightarrow> u32" where
  "ext2_group_blocks e grp =
     (let start = ext2_group_start e grp
      in if start \<ge> blocks_count e then 0 else min (blocks_count e - start) (blocks_per_group e))"

definition ext2_write_group_desc :: "'w blkdevs \<Rightarrow> bool \<Rightarrow> u32 \<Rightarrow> 'w ext2 \<Rightarrow> (errno + unit) \<times> 'w ext2" where
  "ext2_write_group_desc devs mem grp e =
     (if grp \<ge> nr_groups e then (Inl EINVAL, e)
      else
        let index = grp mod desc_per_block e;
            desc_block = first_data_block e + 1 + grp div desc_per_block e
        in if \<not> mem then (Inl ENOMEM, e)
           else case ext2_read_block devs desc_block (replicate (unat (block_size e)) 0) e of
                  Inl x \<Rightarrow> (Inl x, e)
                | Inr buf \<Rightarrow>
                    ext2_write_block devs desc_block
                      (take (unat index * 32) buf @ desc_bytes (group_desc e (unat grp)) @ drop (unat index * 32 + 32) buf) e)"

definition upd_desc :: "u32 \<Rightarrow> (group_desc \<Rightarrow> group_desc) \<Rightarrow> 'w ext2 \<Rightarrow> 'w ext2" where
  "upd_desc g f e = e\<lparr>group_desc := (group_desc e)(unat g := f (group_desc e (unat g)))\<rparr>"

text \<open>Taking bit \<open>b\<close> of the bit map \<open>ws\<close> of group \<open>g\<close>.\<close>

definition take_bit_block :: "'w blkdevs \<Rightarrow> bool \<Rightarrow> u32 \<Rightarrow> u32 list \<Rightarrow> u32 \<Rightarrow> 'w ext2 \<Rightarrow> (errno + u32) \<times> 'w ext2" where
  "take_bit_block devs mem g ws b e =
     (let bitmap_block = bg_block_bitmap (group_desc e (unat g)); ws = set_bit (unat b) ws
      in case ext2_write_block devs bitmap_block (words_bytes ws) e of
           (Inl x, e) \<Rightarrow> (Inl x, snd (ext2_write_block devs bitmap_block (words_bytes (clear_bit (unat b) ws)) e))
         | (Inr _, e) \<Rightarrow>
             let start = ext2_group_start e g;
                 e = upd_desc g (\<lambda>d. d\<lparr>bg_free_blocks_count := bg_free_blocks_count d - 1\<rparr>) e;
                 e = e\<lparr>free_blocks_count := free_blocks_count e - 1, e_dirty := True\<rparr>
             in case ext2_write_group_desc devs mem g e of
                  (Inl x, e) \<Rightarrow> (Inl x, e)
                | (Inr _, e) \<Rightarrow> (Inr (start + b), e))"

primrec alloc_scan :: "'w blkdevs \<Rightarrow> bool \<Rightarrow> u32 list \<Rightarrow> 'w ext2 \<Rightarrow> (errno + u32) \<times> 'w ext2" where
  "alloc_scan devs mem [] e = (Inl ENOSPC, e)"
| "alloc_scan devs mem (g # gs) e =
     (let count = ext2_group_blocks e g; desc = group_desc e (unat g)
      in if count = 0 then alloc_scan devs mem gs e
         else if bg_free_blocks_count desc = 0 then alloc_scan devs mem gs e
         else case ext2_read_block devs (bg_block_bitmap desc) (replicate (unat (block_size e)) 0) e of
                Inl x \<Rightarrow> (Inl x, e)
              | Inr bs \<Rightarrow>
                  let ws = bytes_words bs; b = find_first_zero_bit ws count
                  in if sint b < 0 then alloc_scan devs mem gs e else take_bit_block devs mem g ws b e)"

definition ext2_alloc_block :: "'w blkdevs \<Rightarrow> bool \<Rightarrow> bool \<Rightarrow> u32 \<Rightarrow> 'w ext2 \<Rightarrow> (errno + u32) \<times> 'w ext2" where
  "ext2_alloc_block devs mem mem2 goal e =
     (if readonly e then (Inl EROFS, e)
      else if free_blocks_count e = 0 then (Inl ENOSPC, e)
      else
        let first_group = (if goal \<ge> first_data_block e then (goal - first_data_block e) div blocks_per_group e else 0);
            first_group = (if first_group \<ge> nr_groups e then 0 else first_group)
        in if \<not> mem then (Inl ENOMEM, e)
           else alloc_scan devs mem2 (map (\<lambda>i. (first_group + of_nat i) mod nr_groups e) [0..<unat (nr_groups e)]) e)"

text \<open>Giving a block back: the bit map \<open>ws\<close> with bit \<open>b\<close> cleared is written.\<close>

definition give_bit_block :: "'w blkdevs \<Rightarrow> bool \<Rightarrow> u32 \<Rightarrow> u32 list \<Rightarrow> u32 \<Rightarrow> 'w ext2 \<Rightarrow> (errno + unit) \<times> 'w ext2" where
  "give_bit_block devs mem g ws b e =
     (let bitmap_block = bg_block_bitmap (group_desc e (unat g))
      in case ext2_write_block devs bitmap_block (words_bytes ws) e of
           (Inl x, e) \<Rightarrow> (Inl x, snd (ext2_write_block devs bitmap_block (words_bytes (set_bit (unat b) ws)) e))
         | (Inr _, e) \<Rightarrow>
             let e = upd_desc g (\<lambda>d. d\<lparr>bg_free_blocks_count := bg_free_blocks_count d + 1\<rparr>) e;
                 e = e\<lparr>free_blocks_count := free_blocks_count e + 1, e_dirty := True\<rparr>
             in ext2_write_group_desc devs mem g e)"

definition ext2_free_block :: "'w blkdevs \<Rightarrow> bool \<Rightarrow> bool \<Rightarrow> u32 \<Rightarrow> 'w ext2 \<Rightarrow> (errno + unit) \<times> 'w ext2" where
  "ext2_free_block devs mem mem2 blkno e =
     (if readonly e then (Inl EROFS, e)
      else if blkno < first_data_block e \<or> blkno \<ge> blocks_count e then (Inl EINVAL, e)
      else
        let grp = (blkno - first_data_block e) div blocks_per_group e
        in if grp \<ge> nr_groups e then (Inl EINVAL, e)
           else
             let start = ext2_group_start e grp; b = blkno - start
             in if \<not> mem then (Inl ENOMEM, e)
                else
                  let bitmap_block = bg_block_bitmap (group_desc e (unat grp))
                  in case ext2_read_block devs bitmap_block (replicate (unat (block_size e)) 0) e of
                       Inl x \<Rightarrow> (Inl x, e)
                     | Inr bs \<Rightarrow>
                         (case test_and_clear_bit (unat b) (bytes_words bs) of
                            (False, ws) \<Rightarrow> (Inl EIO, e)
                          | (True, ws) \<Rightarrow> give_bit_block devs mem2 grp ws b e))"

section \<open>Layout and contents of a volume\<close>

lemma bytes_words_bytes [simp]: "bytes_words (words_bytes ws) = ws"
proof (induction ws)
  case (Cons w ws)
  have "le_bytes 4 w = [ucast w, ucast (drop_bit 8 w), ucast (drop_bit 16 w), ucast (drop_bit 24 w)]"
    by (simp add: numeral_eq_Suc)
  moreover have "le_word (le_bytes 4 w) = w" by simp
  ultimately show ?case using Cons by (simp add: words_bytes_def)
qed (simp add: words_bytes_def)

lemma length_bytes_words [simp]: "length (bytes_words bs) = length bs div 4"
  by (induction bs rule: bytes_words.induct) auto

lemma length_words_bytes [simp]: "length (words_bytes ws) = 4 * length ws"
  by (induction ws) (simp_all add: words_bytes_def)

lemma bits_of_words: "(n::nat) mod 32 = 0 \<Longrightarrow> 8 * n = 32 * (n div 4)"
proof -
  assume "n mod 32 = 0"
  then obtain k where "n = 32 * k" by (auto simp: mod_eq_0_iff_dvd elim: dvdE)
  then show ?thesis by simp
qed

lemma length_desc_bytes [simp]: "length (desc_bytes d) = 32"
  by (simp add: desc_bytes_def split: prod.split)

definition gblocks :: "'w ext2 \<Rightarrow> nat \<Rightarrow> nat" where
  "gblocks e g = min (unat (blocks_per_group e)) (unat (blocks_count e) - (unat (first_data_block e) + g * unat (blocks_per_group e)))"

definition desc_block :: "'w ext2 \<Rightarrow> nat \<Rightarrow> nat" where
  "desc_block e g = unat (first_data_block e) + 1 + g div unat (desc_per_block e)"

definition bitmap_at :: "'w ext2 \<Rightarrow> nat \<Rightarrow> u32" where
  "bitmap_at e g = bg_block_bitmap (group_desc e g)"

text \<open>The groups cover the volume; the bit maps lie in it, in different blocks that are not those of the
  descriptors; bit maps and descriptors fit their blocks.\<close>

definition layout_ok :: "'w ext2 \<Rightarrow> bool" where
  "layout_ok e \<longleftrightarrow>
     (let bs = unat (block_size e); n = unat (nr_groups e); per = unat (blocks_per_group e);
          first = unat (first_data_block e); total = unat (blocks_count e); dpb = unat (desc_per_block e)
      in 0 < bs \<and> bs mod 32 = 0 \<and> 0 < per \<and> per \<le> 32768 \<and> per \<le> 8 * bs \<and> 0 < n \<and>
         first + (n - 1) * per < total \<and> total \<le> first + n * per \<and> first + n * per < 2 ^ 31 \<and>
         0 < dpb \<and> 32 * dpb \<le> bs \<and> desc_block e (n - 1) < total \<and>
         (\<forall>g < n. bitmap_at e g < blocks_count e \<and>
            (\<forall>h < n. (h \<noteq> g \<longrightarrow> bitmap_at e h \<noteq> bitmap_at e g) \<and> unat (bitmap_at e g) \<noteq> desc_block e h)))"

definition free_bits :: "u32 list \<Rightarrow> nat \<Rightarrow> nat set" where
  "free_bits ws n = {i. i < n \<and> \<not> test_bit i ws}"

text \<open>The bit map of a group, given what the blocks hold, and the free blocks of the volume.\<close>

definition bmap_of :: "('w ext2 \<Rightarrow> u32 \<Rightarrow> u8 list) \<Rightarrow> 'w ext2 \<Rightarrow> nat \<Rightarrow> u32 list" where
  "bmap_of blk e g = bytes_words (blk e (bitmap_at e g))"

definition gfree :: "('w ext2 \<Rightarrow> u32 \<Rightarrow> u8 list) \<Rightarrow> 'w ext2 \<Rightarrow> nat \<Rightarrow> nat set" where
  "gfree blk e g = free_bits (bmap_of blk e g) (gblocks e g)"

definition blockno :: "'w ext2 \<Rightarrow> nat \<Rightarrow> nat \<Rightarrow> nat" where
  "blockno e g i = unat (first_data_block e) + g * unat (blocks_per_group e) + i"

definition free_set :: "('w ext2 \<Rightarrow> u32 \<Rightarrow> u8 list) \<Rightarrow> 'w ext2 \<Rightarrow> nat set" where
  "free_set blk e = (\<Union>g < unat (nr_groups e). blockno e g ` gfree blk e g)"

text \<open>The counts in the descriptors and the super block are exact.\<close>

definition counts_ok :: "('w ext2 \<Rightarrow> u32 \<Rightarrow> u8 list) \<Rightarrow> 'w ext2 \<Rightarrow> bool" where
  "counts_ok blk e \<longleftrightarrow>
     (\<forall>g < unat (nr_groups e). unat (bg_free_blocks_count (group_desc e g)) = card (gfree blk e g)) \<and>
     unat (free_blocks_count e) = (\<Sum>g < unat (nr_groups e). card (gfree blk e g))"

lemma layout_okD:
  assumes "layout_ok e"
  shows "0 < unat (block_size e)" "unat (block_size e) mod 32 = 0" "0 < unat (blocks_per_group e)" "unat (blocks_per_group e) \<le> 32768"
    "unat (blocks_per_group e) \<le> 8 * unat (block_size e)" "0 < unat (nr_groups e)"
    "unat (first_data_block e) + (unat (nr_groups e) - 1) * unat (blocks_per_group e) < unat (blocks_count e)"
    "unat (blocks_count e) \<le> unat (first_data_block e) + unat (nr_groups e) * unat (blocks_per_group e)"
    "unat (first_data_block e) + unat (nr_groups e) * unat (blocks_per_group e) < 2 ^ 31"
    "0 < unat (desc_per_block e)" "32 * unat (desc_per_block e) \<le> unat (block_size e)"
    "desc_block e (unat (nr_groups e) - 1) < unat (blocks_count e)"
    "g < unat (nr_groups e) \<Longrightarrow> bitmap_at e g < blocks_count e"
    "g < unat (nr_groups e) \<Longrightarrow> h < unat (nr_groups e) \<Longrightarrow> bitmap_at e h = bitmap_at e g \<Longrightarrow> h = g"
    "g < unat (nr_groups e) \<Longrightarrow> h < unat (nr_groups e) \<Longrightarrow> unat (bitmap_at e g) \<noteq> desc_block e h"
  using assms unfolding layout_ok_def Let_def by blast+

lemma group_bound:
  assumes "layout_ok e" "g < unat (nr_groups e)"
  shows "unat (first_data_block e) + g * unat (blocks_per_group e) + unat (blocks_per_group e) < 2 ^ 31"
    "unat (first_data_block e) + g * unat (blocks_per_group e) < unat (blocks_count e)"
proof -
  note L = layout_okD [OF assms(1)]
  have "(g + 1) * unat (blocks_per_group e) \<le> unat (nr_groups e) * unat (blocks_per_group e)"
    using assms(2) by (intro mult_le_mono1) simp
  then show "unat (first_data_block e) + g * unat (blocks_per_group e) + unat (blocks_per_group e) < 2 ^ 31"
    using L(9) by simp
  have "g * unat (blocks_per_group e) \<le> (unat (nr_groups e) - 1) * unat (blocks_per_group e)"
    using assms(2) by (intro mult_le_mono1) simp
  then show "unat (first_data_block e) + g * unat (blocks_per_group e) < unat (blocks_count e)" using L(7) by linarith
qed

lemma group_numbers:
  assumes "layout_ok e" "unat g < unat (nr_groups e)"
  shows "unat (ext2_group_start e g) = unat (first_data_block e) + unat g * unat (blocks_per_group e)"
    "unat (ext2_group_blocks e g) = gblocks e (unat g)" "0 < gblocks e (unat g)" "gblocks e (unat g) \<le> unat (blocks_per_group e)"
proof -
  note B = group_bound [OF assms] and L = layout_okD [OF assms(1)]
  have m: "unat (g * blocks_per_group e) = unat g * unat (blocks_per_group e)"
    using B by (subst unat_mult_lem [THEN iffD1]) simp_all
  show st: "unat (ext2_group_start e g) = unat (first_data_block e) + unat g * unat (blocks_per_group e)"
    using B m by (simp add: ext2_group_start_def unat_add_no_wrap)
  have lt: "ext2_group_start e g < blocks_count e" using st B(2) by (simp add: word_less_nat_alt)
  then show "unat (ext2_group_blocks e g) = gblocks e (unat g)"
    using st by (simp add: ext2_group_blocks_def Let_def gblocks_def not_le min_def word_le_nat_alt unat_sub_if' word_less_nat_alt)
  show "0 < gblocks e (unat g)" "gblocks e (unat g) \<le> unat (blocks_per_group e)"
    using B(2) L(3) by (simp_all add: gblocks_def)
qed

text \<open>Changes of the counters, the disk and the dirty flag keep the layout.\<close>

definition same_tables :: "(nat \<Rightarrow> group_desc) \<Rightarrow> (nat \<Rightarrow> group_desc) \<Rightarrow> bool" where
  "same_tables gd gd' \<longleftrightarrow> (\<forall>h. bg_block_bitmap (gd h) = bg_block_bitmap (gd' h) \<and> bg_inode_bitmap (gd h) = bg_inode_bitmap (gd' h) \<and>
     bg_inode_table (gd h) = bg_inode_table (gd' h))"

definition same_layout :: "'w ext2 \<Rightarrow> 'w ext2 \<Rightarrow> bool" where
  "same_layout e e' \<longleftrightarrow> (\<exists>gd n m d w. e' = e\<lparr>group_desc := gd, free_blocks_count := n, free_inodes_count := m, e_dirty := d, e_disk := w\<rparr> \<and>
     same_tables gd (group_desc e))"

lemma same_layoutI2:
  "e' = e\<lparr>group_desc := gd, free_blocks_count := n, free_inodes_count := m, e_dirty := d, e_disk := w\<rparr> \<Longrightarrow>
   same_tables gd (group_desc e) \<Longrightarrow> same_layout e e'"
  unfolding same_layout_def by blast

lemma same_layoutI:
  "e' = e\<lparr>group_desc := gd, free_blocks_count := n, e_dirty := d, e_disk := w\<rparr> \<Longrightarrow>
   same_tables gd (group_desc e) \<Longrightarrow> same_layout e e'"
  by (rule same_layoutI2 [where m = "free_inodes_count e"]) simp_all

lemma same_layoutD:
  assumes "same_layout e e'"
  shows "bitmap_at e' = bitmap_at e" "gblocks e' = gblocks e" "desc_block e' = desc_block e" "blockno e' = blockno e"
    "nr_groups e' = nr_groups e" "blocks_count e' = blocks_count e" "block_size e' = block_size e" "readonly e' = readonly e"
    "first_data_block e' = first_data_block e" "blocks_per_group e' = blocks_per_group e" "layout_ok e' = layout_ok e"
    "desc_per_block e' = desc_per_block e" "inodes_count e' = inodes_count e" "inodes_per_group e' = inodes_per_group e" "inode_size e' = inode_size e"
    "bg_inode_bitmap (group_desc e' h) = bg_inode_bitmap (group_desc e h)" "bg_inode_table (group_desc e' h) = bg_inode_table (group_desc e h)"
proof -
  show a: "bitmap_at e' = bitmap_at e" "gblocks e' = gblocks e" "desc_block e' = desc_block e" "blockno e' = blockno e"
    "nr_groups e' = nr_groups e" "blocks_count e' = blocks_count e" "block_size e' = block_size e" "readonly e' = readonly e"
    "first_data_block e' = first_data_block e" "blocks_per_group e' = blocks_per_group e"
    and d: "desc_per_block e' = desc_per_block e" "inodes_count e' = inodes_count e" "inodes_per_group e' = inodes_per_group e" "inode_size e' = inode_size e"
    "bg_inode_bitmap (group_desc e' h) = bg_inode_bitmap (group_desc e h)" "bg_inode_table (group_desc e' h) = bg_inode_table (group_desc e h)"
    using assms by (auto simp: same_layout_def same_tables_def fun_eq_iff bitmap_at_def gblocks_def desc_block_def blockno_def)
  show "layout_ok e' = layout_ok e" unfolding layout_ok_def a d(1) ..
qed

text \<open>The blocks that hold bit maps or descriptors, and changes that touch no other block.\<close>

definition meta :: "'w ext2 \<Rightarrow> u32 \<Rightarrow> bool" where
  "meta e b \<longleftrightarrow> (\<exists>g < unat (nr_groups e). b = bitmap_at e g \<or> unat b = desc_block e g)"

definition kept :: "('w ext2 \<Rightarrow> u32 \<Rightarrow> u8 list) \<Rightarrow> 'w ext2 \<Rightarrow> 'w ext2 \<Rightarrow> bool" where
  "kept blk e e' \<longleftrightarrow> same_layout e e' \<and> (\<forall>b < blocks_count e. \<not> meta e b \<longrightarrow> blk e' b = blk e b)"

lemma keptD:
  assumes "kept blk e e'"
  shows "same_layout e e'" "b < blocks_count e \<Longrightarrow> \<not> meta e b \<Longrightarrow> blk e' b = blk e b"
  using assms by (simp_all add: kept_def)

lemma same_layout_meta: "same_layout e e' \<Longrightarrow> meta e' = meta e"
  by (simp add: fun_eq_iff meta_def same_layoutD)

text \<open>What one bit changes.\<close>

lemma free_bits_set: "i < 32 * length ws \<Longrightarrow> free_bits (set_bit i ws) n = free_bits ws n - {i}"
  by (auto simp: free_bits_def test_set_bit)

lemma free_bits_clear: "i < 32 * length ws \<Longrightarrow> i < n \<Longrightarrow> free_bits (clear_bit i ws) n = insert i (free_bits ws n)"
  by (auto simp: free_bits_def test_clear_bit)

lemma finite_gfree [simp]: "finite (gfree blk e g)"
  by (simp add: gfree_def free_bits_def)

lemma gfree_less: "i \<in> gfree blk e g \<Longrightarrow> i < gblocks e g"
  by (simp add: gfree_def free_bits_def)

lemma blockno_inj:
  assumes "i < unat (blocks_per_group e)" "j < unat (blocks_per_group e)" "blockno e g i = blockno e h j"
  shows "g = h \<and> i = j"
proof -
  have eq: "g * unat (blocks_per_group e) + i = h * unat (blocks_per_group e) + j" using assms(3) by (simp add: blockno_def)
  have "g = (g * unat (blocks_per_group e) + i) div unat (blocks_per_group e)" using assms(1) by simp
  also have "\<dots> = h" unfolding eq using assms(2) by simp
  finally show ?thesis using eq by simp
qed

lemma blockno_split:
  assumes "layout_ok e" "b < unat (blocks_count e)" "unat (first_data_block e) \<le> b"
  obtains g i where "g < unat (nr_groups e)" "i < gblocks e g" "b = blockno e g i"
    "g = (b - unat (first_data_block e)) div unat (blocks_per_group e)"
proof
  let ?per = "unat (blocks_per_group e)" and ?f = "unat (first_data_block e)"
  let ?g = "(b - ?f) div ?per" and ?i = "(b - ?f) mod ?per"
  note L = layout_okD [OF assms(1)]
  show "b = blockno e ?g ?i" using assms(3) by (simp add: blockno_def)
  have "b - ?f < unat (nr_groups e) * ?per" using assms(2,3) L(8) by linarith
  then show "?g < unat (nr_groups e)" using L(3) by (simp add: less_mult_imp_div_less)
  have "?g * ?per + ?i = b - ?f" by simp
  then have "?i < unat (blocks_count e) - (?f + ?g * ?per)" using assms(2,3) by linarith
  then show "?i < gblocks e ?g" using L(3) by (simp add: gblocks_def)
qed (rule refl)

text \<open>The free blocks after a change in group \<open>g\<close>.\<close>

lemma free_set_change:
  assumes sl: "same_layout e e'" and gf: "\<And>h. h < unat (nr_groups e) \<Longrightarrow> gfree blk e' h = (if h = g then A else gfree blk e h)"
    and g: "g < unat (nr_groups e)" and per: "\<And>h. gblocks e h \<le> unat (blocks_per_group e)" and A: "\<And>i. i \<in> A \<Longrightarrow> i < unat (blocks_per_group e)"
  shows "A = gfree blk e g - {i} \<Longrightarrow> i \<in> gfree blk e g \<Longrightarrow> free_set blk e' = free_set blk e - {blockno e g i}"
    "A = insert i (gfree blk e g) \<Longrightarrow> free_set blk e' = insert (blockno e g i) (free_set blk e)"
proof -
  note S = same_layoutD [OF sl]
  have lt: "j < unat (blocks_per_group e)" if "j \<in> gfree blk e h" for j h
    using gfree_less [OF that] per [of h] by linarith
  let ?rest = "\<Union>h \<in> {..<unat (nr_groups e)} - {g}. blockno e h ` gfree blk e h"
  have split: "(\<Union>h < unat (nr_groups e). F h) = F g \<union> (\<Union>h \<in> {..<unat (nr_groups e)} - {g}. F h)" for F :: "nat \<Rightarrow> nat set"
    using g by auto
  have fs: "free_set blk e = blockno e g ` gfree blk e g \<union> ?rest" "free_set blk e' = blockno e g ` A \<union> ?rest"
    unfolding free_set_def S(4,5) split using gf g by auto
  show "free_set blk e' = free_set blk e - {blockno e g i}" if a: "A = gfree blk e g - {i}" and i: "i \<in> gfree blk e g"
  proof -
    have ne: "blockno e g i \<noteq> blockno e h j" if "j \<in> gfree blk e h" "h \<noteq> g \<or> j \<noteq> i" for h j
      using blockno_inj [OF lt lt, of i g j h] that i by blast
    have "blockno e g i \<notin> ?rest"
    proof
      assume "blockno e g i \<in> ?rest"
      then obtain h j where "h \<noteq> g" "j \<in> gfree blk e h" "blockno e g i = blockno e h j" by auto
      with ne show False by blast
    qed
    moreover have "inj (blockno e g)" by (simp add: blockno_def inj_def)
    then have "blockno e g ` A = blockno e g ` gfree blk e g - {blockno e g i}" unfolding a by (simp add: image_set_diff)
    ultimately show ?thesis unfolding fs by (simp add: Un_Diff)
  qed
  show "free_set blk e' = insert (blockno e g i) (free_set blk e)" if "A = insert i (gfree blk e g)"
    unfolding fs that by blast
qed

lemma counts_change:
  assumes c: "counts_ok blk e" and sl: "same_layout e e'" and g: "g < unat (nr_groups e)"
    and gf: "\<And>h. h < unat (nr_groups e) \<Longrightarrow> gfree blk e' h = (if h = g then A else gfree blk e h)"
    and d: "unat (bg_free_blocks_count (group_desc e' g)) = card A" "\<And>h. h \<noteq> g \<Longrightarrow> group_desc e' h = group_desc e h"
    and f: "unat (free_blocks_count e') + card (gfree blk e g) = unat (free_blocks_count e) + card A"
  shows "counts_ok blk e'"
proof -
  let ?n = "unat (nr_groups e)"
  have "(\<Sum>h < ?n. card (gfree blk e' h)) = card A + (\<Sum>h \<in> {..<?n} - {g}. card (gfree blk e h))"
    using g gf by (subst sum.remove [of _ g]) (auto intro!: sum.cong)
  moreover have "(\<Sum>h < ?n. card (gfree blk e h)) = card (gfree blk e g) + (\<Sum>h \<in> {..<?n} - {g}. card (gfree blk e h))"
    using g by (subst sum.remove [of _ g]) auto
  ultimately have "unat (free_blocks_count e') = (\<Sum>h < ?n. card (gfree blk e' h))"
    using f c by (simp add: counts_ok_def)
  then show ?thesis
    using c d gf unfolding counts_ok_def same_layoutD(5) [OF sl] by auto
qed

text \<open>Starting at any group, the loop visits every group.\<close>

lemma group_cycle:
  assumes "fg < nr" "unat nr < 2 ^ 31"
  shows "set (map (\<lambda>i. (fg + of_nat i) mod nr) [0..<unat nr]) = {g :: u32. g < nr}"
proof -
  let ?n = "unat nr" and ?f = "unat fg"
  have f: "?f < ?n" using assms(1) by (simp add: word_less_nat_alt)
  have val: "unat ((fg + of_nat i) mod nr) = (?f + i) mod ?n" if "i < ?n" for i
    using that f assms(2) by (simp add: unat_mod unat_add_no_wrap unat_of_nat_small)
  have "g \<in> (\<lambda>i. (fg + of_nat i) mod nr) ` {0..<?n}" if "g < nr" for g
  proof -
    have g: "unat g < ?n" using that by (simp add: word_less_nat_alt)
    define i where "i = (if ?f \<le> unat g then unat g - ?f else unat g + ?n - ?f)"
    have i: "i < ?n" "(?f + i) mod ?n = unat g" using g f by (auto simp: i_def)
    then have "(fg + of_nat i) mod nr = g" using val [of i] by (simp add: word_unat_eq_iff)
    with i(1) show ?thesis by force
  qed
  moreover have "(fg + of_nat i) mod nr < nr" if "i < ?n" for i
    using val [OF that] f by (simp add: word_less_nat_alt)
  ultimately show ?thesis by auto
qed

lemma free_set_empty: "free_set blk e = {} \<longleftrightarrow> (\<forall>g < unat (nr_groups e). gfree blk e g = {})"
  by (auto simp: free_set_def)

lemma counts_zero: "counts_ok blk e \<Longrightarrow> free_blocks_count e = 0 \<longleftrightarrow> free_set blk e = {}"
  by (auto simp: counts_ok_def free_set_empty unat_eq_0 [symmetric])

lemma free_bound:
  assumes l: "layout_ok e" and c: "counts_ok blk e"
  shows "unat (free_blocks_count e) < 2 ^ 31"
proof -
  have le: "card (gfree blk e g) \<le> unat (blocks_per_group e)" for g
  proof -
    have "card (gfree blk e g) \<le> card {..<gblocks e g}" by (rule card_mono) (auto dest: gfree_less)
    then show ?thesis by (simp add: gblocks_def)
  qed
  have "(\<Sum>g < unat (nr_groups e). card (gfree blk e g)) \<le> unat (nr_groups e) * unat (blocks_per_group e)"
    using sum_bounded_above [of "{..<unat (nr_groups e)}" "\<lambda>g. card (gfree blk e g)"] le by simp
  then show ?thesis using c layout_okD(9) [OF l] by (simp add: counts_ok_def)
qed

locale block_store =
  fixes devs :: "'w blkdevs" and vinv :: "'w ext2 \<Rightarrow> bool" and blk :: "'w ext2 \<Rightarrow> u32 \<Rightarrow> u8 list"
  assumes read_block: "vinv e \<Longrightarrow> b < blocks_count e \<Longrightarrow> ext2_read_block devs b buf e = Inr (blk e b)"
    and block_length: "vinv e \<Longrightarrow> b < blocks_count e \<Longrightarrow> length (blk e b) = unat (block_size e)"
    and write_block: "vinv e \<Longrightarrow> b < blocks_count e \<Longrightarrow> length bs = unat (block_size e) \<Longrightarrow>
      \<exists>w. ext2_write_block devs b bs e = (Inr (), e\<lparr>e_disk := w, e_dirty := True\<rparr>) \<and> vinv (e\<lparr>e_disk := w, e_dirty := True\<rparr>) \<and>
        (\<forall>b' < blocks_count e. blk (e\<lparr>e_disk := w, e_dirty := True\<rparr>) b' = (if b' = b then bs else blk e b'))"
    and counters_inv: "vinv (e\<lparr>group_desc := gd, free_blocks_count := n, e_dirty := d\<rparr>) = vinv e"
    and counters_blk: "blk (e\<lparr>group_desc := gd, free_blocks_count := n, e_dirty := d\<rparr>) = blk e"
    and inodes_inv: "vinv (e\<lparr>free_inodes_count := m\<rparr>) = vinv e"
    and inodes_blk: "blk (e\<lparr>free_inodes_count := m\<rparr>) = blk e"
begin

lemma write_desc_ok:
  assumes v: "vinv e" and l: "layout_ok e" and g: "g < nr_groups e"
  obtains w where "ext2_write_group_desc devs True g e = (Inr (), e\<lparr>e_disk := w, e_dirty := True\<rparr>)" "vinv (e\<lparr>e_disk := w, e_dirty := True\<rparr>)"
    "\<And>h. h < unat (nr_groups e) \<Longrightarrow> blk (e\<lparr>e_disk := w, e_dirty := True\<rparr>) (bitmap_at e h) = blk e (bitmap_at e h)"
    "\<And>b. b < blocks_count e \<Longrightarrow> \<not> meta e b \<Longrightarrow> blk (e\<lparr>e_disk := w, e_dirty := True\<rparr>) b = blk e b"
proof -
  note L = layout_okD [OF l]
  let ?d = "first_data_block e + 1 + g div desc_per_block e"
  have gn: "unat g < unat (nr_groups e)" using g by (simp add: word_less_nat_alt)
  have "unat g div unat (desc_per_block e) \<le> (unat (nr_groups e) - 1) div unat (desc_per_block e)"
    using gn by (intro div_le_mono) simp
  then have lt: "desc_block e (unat g) < unat (blocks_count e)" using L(12) by (simp add: desc_block_def)
  then have d: "unat ?d = desc_block e (unat g)"
    using less_trans [OF lt unat_less_2_32] by (simp add: desc_block_def unat_add_no_wrap unat_div)
  then have dv: "?d < blocks_count e" using lt by (simp add: word_less_nat_alt)
  let ?i = "unat (g mod desc_per_block e)"
  have "?i < unat (desc_per_block e)" using L(10) by (simp add: unat_mod)
  then have i: "?i * 32 + 32 \<le> unat (block_size e)" using L(11) by linarith
  let ?buf = "take (?i * 32) (blk e ?d) @ desc_bytes (group_desc e (unat g)) @ drop (?i * 32 + 32) (blk e ?d)"
  have "length ?buf = unat (block_size e)" using i block_length [OF v dv] by simp
  from write_block [OF v dv this] obtain w where w: "ext2_write_block devs ?d ?buf e = (Inr (), e\<lparr>e_disk := w, e_dirty := True\<rparr>)"
    "vinv (e\<lparr>e_disk := w, e_dirty := True\<rparr>)"
    "\<forall>b' < blocks_count e. blk (e\<lparr>e_disk := w, e_dirty := True\<rparr>) b' = (if b' = ?d then ?buf else blk e b')"
    by blast
  show thesis
  proof (rule that [OF _ w(2)])
    show "ext2_write_group_desc devs True g e = (Inr (), e\<lparr>e_disk := w, e_dirty := True\<rparr>)"
      using g w(1) read_block [OF v dv] by (simp add: ext2_write_group_desc_def Let_def not_le)
    show "blk (e\<lparr>e_disk := w, e_dirty := True\<rparr>) (bitmap_at e h) = blk e (bitmap_at e h)" if "h < unat (nr_groups e)" for h
      using w(3) L(13,15) [OF that] gn d by (auto simp: word_unat_eq_iff)
    show "blk (e\<lparr>e_disk := w, e_dirty := True\<rparr>) b = blk e b" if "b < blocks_count e" "\<not> meta e b" for b
      using w(3) that gn d by (auto simp: meta_def)
  qed
qed

text \<open>Writing a changed bit map, and then the descriptor with new counts.\<close>

lemma commit:
  assumes v: "vinv e" and l: "layout_ok e" and g: "g < nr_groups e" and len: "length ws = unat (block_size e) div 4"
  obtains w where "ext2_write_block devs (bitmap_at e (unat g)) (words_bytes ws) e = (Inr (), e\<lparr>e_disk := w, e_dirty := True\<rparr>)"
    "\<And>(gd :: nat \<Rightarrow> group_desc) n. same_tables gd (group_desc e) \<Longrightarrow>
       \<exists>e'. ext2_write_group_desc devs True g (e\<lparr>e_disk := w, group_desc := gd, free_blocks_count := n, e_dirty := True\<rparr>) = (Inr (), e') \<and>
         vinv e' \<and> kept blk e e' \<and> group_desc e' = gd \<and> free_blocks_count e' = n \<and>
         (\<forall>h < unat (nr_groups e). bmap_of blk e' h = (if h = unat g then ws else bmap_of blk e h))"
proof -
  note L = layout_okD [OF l]
  have gn: "unat g < unat (nr_groups e)" using g by (simp add: word_less_nat_alt)
  have "4 * (unat (block_size e) div 4) = unat (block_size e)" using L(2) by presburger
  then have "length (words_bytes ws) = unat (block_size e)" using len by simp
  from write_block [OF v L(13) [OF gn] this] obtain w where
    w: "ext2_write_block devs (bitmap_at e (unat g)) (words_bytes ws) e = (Inr (), e\<lparr>e_disk := w, e_dirty := True\<rparr>)"
      "vinv (e\<lparr>e_disk := w, e_dirty := True\<rparr>)"
      "\<forall>b' < blocks_count e. blk (e\<lparr>e_disk := w, e_dirty := True\<rparr>) b' = (if b' = bitmap_at e (unat g) then words_bytes ws else blk e b')"
    by blast
  show thesis
  proof (rule that [OF w(1)])
    fix gd :: "nat \<Rightarrow> group_desc" and n assume gd: "same_tables gd (group_desc e)"
    let ?e = "e\<lparr>e_disk := w, group_desc := gd, free_blocks_count := n, e_dirty := True\<rparr>"
    have eq: "?e = e\<lparr>e_disk := w, e_dirty := True\<rparr>\<lparr>group_desc := gd, free_blocks_count := n, e_dirty := True\<rparr>" by simp
    have sl: "same_layout e ?e" by (rule same_layoutI [where n = n and d = True and w = w, OF _ gd]) simp
    note S = same_layoutD [OF sl]
    have v1: "vinv ?e" unfolding eq counters_inv by (rule w(2))
    have b1: "blk ?e = blk (e\<lparr>e_disk := w, e_dirty := True\<rparr>)" unfolding eq by (rule counters_blk)
    have "layout_ok ?e" "g < nr_groups ?e" using l g S(5,11) by simp_all
    from write_desc_ok [OF v1 this] obtain w2 where
      w2: "ext2_write_group_desc devs True g ?e = (Inr (), ?e\<lparr>e_disk := w2, e_dirty := True\<rparr>)" "vinv (?e\<lparr>e_disk := w2, e_dirty := True\<rparr>)"
        "\<And>h. h < unat (nr_groups ?e) \<Longrightarrow> blk (?e\<lparr>e_disk := w2, e_dirty := True\<rparr>) (bitmap_at ?e h) = blk ?e (bitmap_at ?e h)"
        "\<And>b. b < blocks_count ?e \<Longrightarrow> \<not> meta ?e b \<Longrightarrow> blk (?e\<lparr>e_disk := w2, e_dirty := True\<rparr>) b = blk ?e b"
      by blast
    let ?e' = "?e\<lparr>e_disk := w2, e_dirty := True\<rparr>"
    have sl': "same_layout e ?e'" by (rule same_layoutI [where n = n and d = True and w = w2, OF _ gd]) simp
    have "bmap_of blk ?e' h = (if h = unat g then ws else bmap_of blk e h)" if h: "h < unat (nr_groups e)" for h
      using w2(3) [of h] w(3) L(13) [OF h] L(14) [OF gn h] h S(1,5) same_layoutD(1) [OF sl'] b1 by (auto simp: bmap_of_def)
    moreover have "kept blk e ?e'"
      using sl' w2(4) w(3) gn b1 same_layout_meta [OF sl] unfolding kept_def by (auto simp: meta_def)
    ultimately show "\<exists>e'. ext2_write_group_desc devs True g ?e = (Inr (), e') \<and> vinv e' \<and> kept blk e e' \<and> group_desc e' = gd \<and>
        free_blocks_count e' = n \<and> (\<forall>h < unat (nr_groups e). bmap_of blk e' h = (if h = unat g then ws else bmap_of blk e h))"
      using w2(1,2) by (intro exI [of _ ?e']) simp
  qed
qed

text \<open>The common part of taking and giving back: group \<open>g\<close> gets the bit map \<open>ws\<close> and new counts.\<close>

lemma change_ok:
  fixes bg :: u16
  assumes v: "vinv e" and l: "layout_ok e" and c: "counts_ok blk e" and g: "g < nr_groups e"
    and len: "length ws = unat (block_size e) div 4" and A: "A = free_bits ws (gblocks e (unat g))"
    and bg: "unat bg = card A" and n: "unat n + card (gfree blk e (unat g)) = unat (free_blocks_count e) + card A"
    and gd: "gd = (group_desc e)(unat g := (group_desc e (unat g))\<lparr>bg_free_blocks_count := bg\<rparr>)"
  obtains w e' where "ext2_write_block devs (bitmap_at e (unat g)) (words_bytes ws) e = (Inr (), e\<lparr>e_disk := w, e_dirty := True\<rparr>)"
    "ext2_write_group_desc devs True g (e\<lparr>e_disk := w, group_desc := gd, free_blocks_count := n, e_dirty := True\<rparr>) = (Inr (), e')"
    "vinv e'" "layout_ok e'" "counts_ok blk e'" "kept blk e e'"
    "\<And>h. h < unat (nr_groups e) \<Longrightarrow> gfree blk e' h = (if h = unat g then A else gfree blk e h)"
proof -
  have gn: "unat g < unat (nr_groups e)" using g by (simp add: word_less_nat_alt)
  have same: "same_tables gd (group_desc e)" by (simp add: gd same_tables_def)
  obtain w e' where w: "ext2_write_block devs (bitmap_at e (unat g)) (words_bytes ws) e = (Inr (), e\<lparr>e_disk := w, e_dirty := True\<rparr>)"
    and e': "ext2_write_group_desc devs True g (e\<lparr>e_disk := w, group_desc := gd, free_blocks_count := n, e_dirty := True\<rparr>) = (Inr (), e')"
      "vinv e'" "kept blk e e'" "group_desc e' = gd" "free_blocks_count e' = n"
      "\<forall>h < unat (nr_groups e). bmap_of blk e' h = (if h = unat g then ws else bmap_of blk e h)"
  proof (rule commit [OF v l g len])
    fix w assume "ext2_write_block devs (bitmap_at e (unat g)) (words_bytes ws) e = (Inr (), e\<lparr>e_disk := w, e_dirty := True\<rparr>)"
      and "\<And>(gd :: nat \<Rightarrow> group_desc) n. same_tables gd (group_desc e) \<Longrightarrow>
       \<exists>e'. ext2_write_group_desc devs True g (e\<lparr>e_disk := w, group_desc := gd, free_blocks_count := n, e_dirty := True\<rparr>) = (Inr (), e') \<and>
         vinv e' \<and> kept blk e e' \<and> group_desc e' = gd \<and> free_blocks_count e' = n \<and>
         (\<forall>h < unat (nr_groups e). bmap_of blk e' h = (if h = unat g then ws else bmap_of blk e h))"
    from this(1) this(2) [OF same] that show thesis by blast
  qed
  note K = keptD(1) [OF e'(3)]
  note S = same_layoutD [OF K]
  have gf: "gfree blk e' h = (if h = unat g then A else gfree blk e h)" if "h < unat (nr_groups e)" for h
    using e'(6) that by (simp add: gfree_def S A)
  have "counts_ok blk e'"
    by (rule counts_change [OF c K gn gf]) (use bg n in \<open>simp_all add: e' gd\<close>)
  then show thesis using that [OF w e'(1,2) _ _ e'(3) gf] S(11) l by blast
qed

lemma bit_in_map:
  assumes "vinv e" "layout_ok e" "g < unat (nr_groups e)" "i < gblocks e g"
  shows "length (bmap_of blk e g) = unat (block_size e) div 4" "i < 32 * length (bmap_of blk e g)" "unat (of_nat i :: u32) = i" "i < 32768"
proof -
  note L = layout_okD [OF assms(2)]
  show len: "length (bmap_of blk e g) = unat (block_size e) div 4"
    using block_length [OF assms(1) L(13) [OF assms(3)]] by (simp add: bmap_of_def)
  have "gblocks e g \<le> unat (blocks_per_group e)" by (simp add: gblocks_def)
  then show i: "i < 32768" using assms(4) L(4) by linarith
  have "i < 8 * unat (block_size e)" using \<open>gblocks e g \<le> _\<close> assms(4) L(5) by linarith
  moreover have "8 * unat (block_size e) = 32 * (unat (block_size e) div 4)" by (rule bits_of_words [OF L(2)])
  ultimately show "i < 32 * length (bmap_of blk e g)" using len by simp
  show "unat (of_nat i :: u32) = i" using i by (simp add: unat_of_nat_small)
qed

lemma take_ok:
  assumes v: "vinv e" and l: "layout_ok e" and c: "counts_ok blk e" and g: "g < nr_groups e" and i: "i \<in> gfree blk e (unat g)"
  obtains e' where "take_bit_block devs True g (bmap_of blk e (unat g)) (of_nat i) e = (Inr (of_nat (blockno e (unat g) i)), e')"
    "vinv e'" "layout_ok e'" "counts_ok blk e'" "free_set blk e' = free_set blk e - {blockno e (unat g) i}" "kept blk e e'"
proof -
  have gn: "unat g < unat (nr_groups e)" using g by (simp add: word_less_nat_alt)
  let ?g = "unat g" and ?ws = "bmap_of blk e (unat g)"
  let ?A = "gfree blk e ?g - {i}"
  note G = group_numbers [OF l gn] and B = bit_in_map [OF v l gn gfree_less [OF i]]
  have A: "?A = free_bits (set_bit i ?ws) (gblocks e ?g)" using B(2) by (simp add: free_bits_set gfree_def)
  have cA: "card (gfree blk e ?g) = Suc (card ?A)" by (rule card.remove [OF finite_gfree i])
  have c1: "unat (bg_free_blocks_count (group_desc e ?g)) = Suc (card ?A)" using c gn cA by (simp add: counts_ok_def)
  have "card (gfree blk e ?g) \<le> (\<Sum>h < unat (nr_groups e). card (gfree blk e h))"
    by (rule member_le_sum) (use gn in auto)
  then have c2: "Suc (card ?A) \<le> unat (free_blocks_count e)" using c cA by (simp add: counts_ok_def)
  obtain w e' where w: "ext2_write_block devs (bitmap_at e ?g) (words_bytes (set_bit i ?ws)) e = (Inr (), e\<lparr>e_disk := w, e_dirty := True\<rparr>)"
    and e': "ext2_write_group_desc devs True g (e\<lparr>e_disk := w,
        group_desc := (group_desc e)(?g := (group_desc e ?g)\<lparr>bg_free_blocks_count := bg_free_blocks_count (group_desc e ?g) - 1\<rparr>),
        free_blocks_count := free_blocks_count e - 1, e_dirty := True\<rparr>) = (Inr (), e')"
      "vinv e'" "layout_ok e'" "counts_ok blk e'" "kept blk e e'"
    and gf: "\<And>h. h < unat (nr_groups e) \<Longrightarrow> gfree blk e' h = (if h = ?g then ?A else gfree blk e h)"
    by (rule change_ok [OF v l c g _ A _ _ refl, where n = "free_blocks_count e - 1" and bg = "bg_free_blocks_count (group_desc e ?g) - 1"])
      (use B(1) c1 c2 cA in \<open>simp_all add: unat_sub_if' word_le_nat_alt\<close>)
  have "free_set blk e' = free_set blk e - {blockno e ?g i}"
    by (rule free_set_change(1) [OF keptD(1) [OF e'(5)] gf gn _ _ refl i]) (auto simp: gblocks_def dest: gfree_less)
  moreover have "take_bit_block devs True g ?ws (of_nat i) e = (Inr (of_nat (blockno e ?g i)), e')"
  proof -
    have "ext2_group_start e g = of_nat (unat (ext2_group_start e g))" by simp
    then have "ext2_group_start e g + of_nat i = of_nat (blockno e ?g i)" unfolding G(1) by (simp add: blockno_def)
    moreover have "ext2_group_start (e\<lparr>e_disk := w, e_dirty := True\<rparr>) g = ext2_group_start e g" by (simp add: ext2_group_start_def)
    ultimately show ?thesis
      using w e'(1) unfolding take_bit_block_def B(3) bitmap_at_def Let_def upd_desc_def by simp
  qed
  ultimately show thesis using that e' by blast
qed

lemma give_ok:
  assumes v: "vinv e" and l: "layout_ok e" and c: "counts_ok blk e" and g: "g < nr_groups e"
    and i: "i < gblocks e (unat g)" "i \<notin> gfree blk e (unat g)" and b: "unat b = i"
  obtains e' where "give_bit_block devs True g (clear_bit i (bmap_of blk e (unat g))) b e = (Inr (), e')"
    "vinv e'" "layout_ok e'" "counts_ok blk e'" "free_set blk e' = insert (blockno e (unat g) i) (free_set blk e)" "kept blk e e'"
proof -
  have gn: "unat g < unat (nr_groups e)" using g by (simp add: word_less_nat_alt)
  let ?g = "unat g" and ?ws = "bmap_of blk e (unat g)"
  let ?A = "insert i (gfree blk e ?g)"
  note B = bit_in_map [OF v l gn i(1)]
  have A: "?A = free_bits (clear_bit i ?ws) (gblocks e ?g)" using B(2) i(1) by (simp add: free_bits_clear gfree_def)
  have cA: "card ?A = Suc (card (gfree blk e ?g))" using i(2) by simp
  have "card ?A \<le> card {..<gblocks e ?g}" by (rule card_mono) (use i(1) gfree_less in auto)
  moreover have "gblocks e ?g \<le> 32768" using layout_okD(4) [OF l] by (simp add: gblocks_def)
  ultimately have le: "card ?A \<le> 32768" by simp
  have c1: "unat (bg_free_blocks_count (group_desc e ?g)) = card (gfree blk e ?g)" using c gn by (simp add: counts_ok_def)
  have c2: "unat (free_blocks_count e) < 2 ^ 31" by (rule free_bound [OF l c])
  obtain w e' where w: "ext2_write_block devs (bitmap_at e ?g) (words_bytes (clear_bit i ?ws)) e = (Inr (), e\<lparr>e_disk := w, e_dirty := True\<rparr>)"
    and e': "ext2_write_group_desc devs True g (e\<lparr>e_disk := w,
        group_desc := (group_desc e)(?g := (group_desc e ?g)\<lparr>bg_free_blocks_count := bg_free_blocks_count (group_desc e ?g) + 1\<rparr>),
        free_blocks_count := free_blocks_count e + 1, e_dirty := True\<rparr>) = (Inr (), e')"
      "vinv e'" "layout_ok e'" "counts_ok blk e'" "kept blk e e'"
    and gf: "\<And>h. h < unat (nr_groups e) \<Longrightarrow> gfree blk e' h = (if h = ?g then ?A else gfree blk e h)"
    by (rule change_ok [OF v l c g _ A _ _ refl, where n = "free_blocks_count e + 1" and bg = "bg_free_blocks_count (group_desc e ?g) + 1"])
      (use B(1) c1 c2 cA le in \<open>simp_all add: unat_add_no_wrap unat_word_ariths(1)\<close>)
  have "free_set blk e' = insert (blockno e ?g i) (free_set blk e)"
    by (rule free_set_change(2) [OF keptD(1) [OF e'(5)] gf gn _ _ refl]) (use i(1) in \<open>auto simp: gblocks_def dest: gfree_less\<close>)
  moreover have "give_bit_block devs True g (clear_bit i ?ws) b e = (Inr (), e')"
    using w e'(1) unfolding give_bit_block_def b bitmap_at_def Let_def upd_desc_def by simp
  ultimately show thesis using that e' by blast
qed

lemma scan_group:
  assumes v: "vinv e" and l: "layout_ok e" and c: "counts_ok blk e" and g: "g < nr_groups e"
  shows "gfree blk e (unat g) = {} \<Longrightarrow> alloc_scan devs mem (g # gs) e = alloc_scan devs mem gs e"
    "gfree blk e (unat g) \<noteq> {} \<Longrightarrow> \<exists>i \<in> gfree blk e (unat g). alloc_scan devs mem (g # gs) e = take_bit_block devs mem g (bmap_of blk e (unat g)) (of_nat i) e"
proof -
  have gn: "unat g < unat (nr_groups e)" using g by (simp add: word_less_nat_alt)
  note G = group_numbers [OF l gn] and L = layout_okD [OF l]
  have free: "bg_free_blocks_count (group_desc e (unat g)) = 0 \<longleftrightarrow> gfree blk e (unat g) = {}"
    using c gn by (auto simp: counts_ok_def unat_eq_0 [symmetric])
  have cnt: "ext2_group_blocks e g \<noteq> 0" using G(2,3) by auto
  have rd: "ext2_read_block devs (bg_block_bitmap (group_desc e (unat g))) buf e = Inr (blk e (bitmap_at e (unat g)))" for buf
    using read_block [OF v L(13) [OF gn]] by (simp add: bitmap_at_def)
  show "gfree blk e (unat g) = {} \<Longrightarrow> alloc_scan devs mem (g # gs) e = alloc_scan devs mem gs e"
    using free cnt by simp
  assume ne: "gfree blk e (unat g) \<noteq> {}"
  let ?ws = "bmap_of blk e (unat g)"
  have sz: "unat (ext2_group_blocks e g) \<le> 2 ^ 32 - 32" using G(2,4) L(4) by simp
  obtain i where i: "first_zero ?ws 0 (gblocks e (unat g)) = Some i" "i \<in> gfree blk e (unat g)"
  proof (cases "first_zero ?ws 0 (gblocks e (unat g))")
    case None
    with ne show thesis by (auto simp: first_zero_def find_upt_None_iff gfree_def free_bits_def)
  next
    case (Some i)
    with that show thesis by (auto simp: gfree_def free_bits_def dest: first_zero_range)
  qed
  have "i < 32768" using gfree_less [OF i(2)] G(4) L(4) by linarith
  then have nn: "\<not> sint (of_nat i :: u32) < 0" by (subst sint_small) (simp_all add: unat_of_nat_small)
  have "find_first_zero_bit ?ws (ext2_group_blocks e g) = of_nat i"
    using scan_correct [OF sz] G(2) i(1) by (simp add: bit_result_def)
  then have "alloc_scan devs mem (g # gs) e = take_bit_block devs mem g ?ws (of_nat i) e"
    using free ne cnt rd nn by (simp add: Let_def bmap_of_def)
  with i(2) show "\<exists>i \<in> gfree blk e (unat g). alloc_scan devs mem (g # gs) e = take_bit_block devs mem g ?ws (of_nat i) e" by blast
qed

lemma alloc_scan_ok:
  assumes v: "vinv e" and l: "layout_ok e" and c: "counts_ok blk e" and gs: "\<forall>g \<in> set gs. g < nr_groups e"
  shows "if \<exists>g \<in> set gs. gfree blk e (unat g) \<noteq> {}
    then \<exists>b e'. alloc_scan devs True gs e = (Inr (of_nat b), e') \<and> b \<in> free_set blk e \<and> vinv e' \<and> layout_ok e' \<and> counts_ok blk e' \<and>
      free_set blk e' = free_set blk e - {b} \<and> kept blk e e'
    else alloc_scan devs True gs e = (Inl ENOSPC, e)"
  using gs
proof (induction gs)
  case (Cons g gs)
  then have g: "g < nr_groups e" by simp
  note S = scan_group [OF v l c g]
  show ?case
  proof (cases "gfree blk e (unat g) = {}")
    case True
    then show ?thesis using S(1) [OF True, of True gs] Cons by auto
  next
    case False
    then obtain i where i: "i \<in> gfree blk e (unat g)"
      "alloc_scan devs True (g # gs) e = take_bit_block devs True g (bmap_of blk e (unat g)) (of_nat i) e" using S(2) by blast
    from take_ok [OF v l c g i(1)] obtain e' where
      "take_bit_block devs True g (bmap_of blk e (unat g)) (of_nat i) e = (Inr (of_nat (blockno e (unat g) i)), e')"
      "vinv e'" "layout_ok e'" "counts_ok blk e'" "free_set blk e' = free_set blk e - {blockno e (unat g) i}" "kept blk e e'"
      by blast
    moreover have "blockno e (unat g) i \<in> free_set blk e" using g i(1) by (auto simp: free_set_def word_less_nat_alt)
    ultimately show ?thesis using False i(2) by auto
  qed
qed simp

lemma alloc_ok:
  assumes v: "vinv e" and l: "layout_ok e" and c: "counts_ok blk e" and ro: "\<not> readonly e"
  shows "if free_set blk e = {} then ext2_alloc_block devs True True goal e = (Inl ENOSPC, e)
    else \<exists>b e'. ext2_alloc_block devs True True goal e = (Inr (of_nat b), e') \<and> b \<in> free_set blk e \<and> vinv e' \<and> layout_ok e' \<and>
      counts_ok blk e' \<and> free_set blk e' = free_set blk e - {b} \<and> kept blk e e'"
proof (cases "free_blocks_count e = 0")
  case True
  then show ?thesis using ro counts_zero [OF c] by (simp add: ext2_alloc_block_def)
next
  case False
  note L = layout_okD [OF l]
  define fg where "fg = (let fg = (if goal \<ge> first_data_block e then (goal - first_data_block e) div blocks_per_group e else 0)
    in if fg \<ge> nr_groups e then 0 else fg)"
  define gs where "gs = map (\<lambda>i. (fg + of_nat i) mod nr_groups e) [0..<unat (nr_groups e)]"
  have "0 < nr_groups e" using L(6) by (simp add: word_less_nat_alt)
  then have fg: "fg < nr_groups e" by (simp add: fg_def Let_def not_le)
  have "unat (nr_groups e) \<le> unat (nr_groups e) * unat (blocks_per_group e)" using L(3) by simp
  then have n: "unat (nr_groups e) < 2 ^ 31" using L(9) by linarith
  have set_gs: "set gs = {g. g < nr_groups e}" unfolding gs_def by (rule group_cycle [OF fg n])
  have eq: "ext2_alloc_block devs True True goal e = alloc_scan devs True gs e"
    using ro False by (simp add: ext2_alloc_block_def Let_def fg_def gs_def)
  have "free_set blk e \<noteq> {}" using False counts_zero [OF c] by simp
  then obtain g where "g < unat (nr_groups e)" "gfree blk e g \<noteq> {}" by (auto simp: free_set_empty)
  moreover have "unat (of_nat g :: u32) = g" using calculation(1) by (simp add: unat_of_nat_small less_trans [OF _ unat_less_2_32])
  ultimately have "\<exists>g \<in> set gs. gfree blk e (unat g) \<noteq> {}"
    unfolding set_gs by (intro bexI [of _ "of_nat g"]) (simp_all add: word_less_nat_alt)
  with alloc_scan_ok [OF v l c, of gs] set_gs \<open>free_set blk e \<noteq> {}\<close> show ?thesis unfolding eq by simp
qed

text \<open>A block of the volume that is not free is freed; a block that is free is refused.\<close>

lemma free_ok:
  assumes v: "vinv e" and l: "layout_ok e" and c: "counts_ok blk e" and ro: "\<not> readonly e"
    and b: "first_data_block e \<le> b" "b < blocks_count e"
  shows "if unat b \<in> free_set blk e then ext2_free_block devs True True b e = (Inl EIO, e)
    else \<exists>e'. ext2_free_block devs True True b e = (Inr (), e') \<and> vinv e' \<and> layout_ok e' \<and> counts_ok blk e' \<and>
      free_set blk e' = insert (unat b) (free_set blk e) \<and> kept blk e e'"
proof -
  note L = layout_okD [OF l]
  let ?f = "unat (first_data_block e)" and ?per = "unat (blocks_per_group e)"
  have bn: "unat b < unat (blocks_count e)" "?f \<le> unat b" using b by (simp_all add: word_less_nat_alt word_le_nat_alt)
  define g where "g = (b - first_data_block e) div blocks_per_group e"
  have ug: "unat g = (unat b - ?f) div ?per" using bn by (simp add: g_def unat_div unat_sub_if' word_le_nat_alt)
  obtain i where gn: "unat g < unat (nr_groups e)" and i: "i < gblocks e (unat g)" and bi: "unat b = blockno e (unat g) i"
    using blockno_split [OF l bn] ug by metis
  have g: "g < nr_groups e" using gn by (simp add: word_less_nat_alt)
  note G = group_numbers [OF l gn]
  have ub: "unat (b - ext2_group_start e g) = i" using bi G(1) by (simp add: blockno_def unat_sub_if' word_le_nat_alt)
  let ?g = "unat g" and ?ws = "bmap_of blk e (unat g)"
  have rd: "ext2_read_block devs (bg_block_bitmap (group_desc e ?g)) buf e = Inr (blk e (bitmap_at e ?g))" for buf
    using read_block [OF v L(13) [OF gn]] by (simp add: bitmap_at_def)
  have per: "gblocks e h \<le> ?per" for h by (simp add: gblocks_def)
  have mem: "unat b \<in> free_set blk e \<longleftrightarrow> \<not> test_bit i ?ws"
  proof -
    have "blockno e ?g i \<in> free_set blk e \<longleftrightarrow> i \<in> gfree blk e ?g"
    proof
      assume "blockno e ?g i \<in> free_set blk e"
      then obtain h j where "j \<in> gfree blk e h" "blockno e ?g i = blockno e h j" by (auto simp: free_set_def)
      then show "i \<in> gfree blk e ?g"
        using blockno_inj [of i e j ?g h] i per [of ?g] per [of h] gfree_less [of j blk e h] by auto
    qed (use gn in \<open>auto simp: free_set_def\<close>)
    then show ?thesis using bi i by (simp add: gfree_def free_bits_def)
  qed
  have nb: "\<not> (b < first_data_block e \<or> b \<ge> blocks_count e)" "\<not> g \<ge> nr_groups e" using b g by (auto simp: not_less not_le)
  have eq: "ext2_free_block devs True True b e =
      (case test_and_clear_bit i ?ws of (False, ws) \<Rightarrow> (Inl EIO, e) | (True, ws) \<Rightarrow> give_bit_block devs True g ws (b - ext2_group_start e g) e)"
    using nb ro unfolding ext2_free_block_def Let_def g_def [symmetric] rd bmap_of_def ub by simp
  show ?thesis
  proof (cases "test_bit i ?ws")
    case False
    then show ?thesis using mem unfolding eq by (simp add: test_and_clear_bit_def)
  next
    case True
    then have "i \<notin> gfree blk e ?g" by (simp add: gfree_def free_bits_def)
    from give_ok [OF v l c g i this ub] True mem show ?thesis
      unfolding eq bi by (auto simp: test_and_clear_bit_def)
  qed
qed

end

section \<open>Volumes on ram disks\<close>

abbreviation rd_of :: "rdisks ext2 \<Rightarrow> rd" where
  "rd_of e \<equiv> rd_info (e_disk e) ! unat (MINOR (e_dev e))"

text \<open>The blocks are whole sectors and the volume fits the disk.\<close>

definition rd_volume :: "rdisks ext2 \<Rightarrow> bool" where
  "rd_volume e \<longleftrightarrow> rds_ok (e_disk e) \<and> rd_dev (e_disk e) (e_dev e) \<and> 0 < unat (block_size e) \<and> unat (block_size e) mod 512 = 0 \<and>
     unat (blocks_count e) * unat (block_size e) \<le> rd_size (rd_of e)"

definition rd_block :: "rdisks ext2 \<Rightarrow> u32 \<Rightarrow> u8 list" where
  "rd_block e b = mem_read (kmem (e_disk e)) (rd_start (rd_of e) + b * block_size e) (unat (block_size e))"

lemma rd_block_place:
  assumes v: "rd_volume e" and b: "b < blocks_count e"
  shows "unat (rd_start (rd_of e) + b * block_size e) = unat (rd_start (rd_of e)) + unat b * unat (block_size e)"
    "unat b * unat (block_size e) + unat (block_size e) \<le> rd_size (rd_of e)"
    "unat (rd_start (rd_of e)) + rd_size (rd_of e) \<le> 2 ^ 32"
proof -
  have "unat b + 1 \<le> unat (blocks_count e)" using b by (simp add: word_less_nat_alt)
  then have "(unat b + 1) * unat (block_size e) \<le> unat (blocks_count e) * unat (block_size e)" by (rule mult_le_mono1)
  then show le: "unat b * unat (block_size e) + unat (block_size e) \<le> rd_size (rd_of e)"
    using v by (simp add: rd_volume_def)
  show top: "unat (rd_start (rd_of e)) + rd_size (rd_of e) \<le> 2 ^ 32"
    using v by (simp add: rd_volume_def rds_ok_def rd_dev_def)
  have "0 < unat (block_size e)" using v by (simp add: rd_volume_def)
  then have lt: "unat b * unat (block_size e) < 2 ^ 32" using le top by linarith
  then have "unat (b * block_size e) = unat b * unat (block_size e)" by (simp add: unat_word_ariths)
  then show "unat (rd_start (rd_of e) + b * block_size e) = unat (rd_start (rd_of e)) + unat b * unat (block_size e)"
    using le top \<open>0 < unat (block_size e)\<close> by (simp add: unat_add_no_wrap)
qed

text \<open>A block is a run of sectors of the disk that the driver does not cut.\<close>

lemma rd_block_sectors:
  assumes v: "rd_volume e" and b: "b < blocks_count e"
  defines "spb \<equiv> block_size e div 512"
  shows "b * spb < rd_nr (rd_of e)" "(if b * spb + spb \<ge> rd_nr (rd_of e) then rd_nr (rd_of e) - b * spb else spb) = spb"
    "b * spb * 512 = b * block_size e" "unat (spb * 512) = unat (block_size e)"
proof -
  let ?n = "unat (rd_nr (rd_of e))" and ?k = "unat (block_size e) div 512"
  have m: "unat (block_size e) = ?k * 512" "0 < unat (block_size e)" using v by (auto simp: rd_volume_def)
  have k: "unat spb = ?k" by (simp add: spb_def unat_div)
  show bs: "unat (spb * 512) = unat (block_size e)"
    using m(1) k unat_less_2_32 [of "block_size e"] by (simp add: unat_word_ariths)
  then have bs': "spb * 512 = block_size e" by (simp add: word_unat_eq_iff)
  then show "b * spb * 512 = b * block_size e" by (simp add: mult.assoc)
  have "(unat b * ?k + ?k) * 512 \<le> ?n * 512"
    using rd_block_place(2) [OF v b] m(1) by (simp add: rd_size_def algebra_simps)
  then have le: "unat b * ?k + ?k \<le> ?n" by simp
  then have lt: "unat b * ?k + ?k < 2 ^ 32" using le_less_trans [OF le unat_less_2_32] by simp
  then have bk: "unat (b * spb) = unat b * ?k" using k by (simp add: unat_word_ariths)
  then have sum: "unat (b * spb + spb) = unat b * ?k + ?k" using lt k by (simp add: unat_add_no_wrap)
  have "0 < ?k" using m by linarith
  with le bk show "b * spb < rd_nr (rd_of e)" by (simp add: word_less_nat_alt)
  show "(if b * spb + spb \<ge> rd_nr (rd_of e) then rd_nr (rd_of e) - b * spb else spb) = spb"
  proof (cases "b * spb + spb \<ge> rd_nr (rd_of e)")
    case True
    with le sum have "rd_nr (rd_of e) = b * spb + spb" by (simp add: word_unat_eq_iff word_le_nat_alt)
    then show ?thesis by simp
  qed simp
qed

lemma rd_ext2_read:
  assumes "rd_volume e" "b < blocks_count e"
  shows "ext2_read_block blkdev_init b buf e = Inr (rd_block e b)"
proof -
  have "block_size e \<noteq> 0" "rd_dev (e_disk e) (e_dev e)" using assms(1) by (auto simp: rd_volume_def)
  with rd_block_sectors [OF assms] assms(2) show ?thesis
    by (simp add: ext2_read_block_def blkdev_read_def blkdev_init_check rd_ops_def rd_read_def rd_dev_def Let_def rd_block_def not_le not_less)
qed

lemma rd_ext2_write:
  assumes "rd_volume e" "b < blocks_count e" "length bs = unat (block_size e)"
  shows "ext2_write_block blkdev_init b bs e = (Inr (), e\<lparr>e_disk := (e_disk e)\<lparr>kmem :=
    mem_write (kmem (e_disk e)) (rd_start (rd_of e) + b * block_size e) bs\<rparr>, e_dirty := True\<rparr>)"
proof -
  have "block_size e \<noteq> 0" "rd_dev (e_disk e) (e_dev e)" using assms(1) by (auto simp: rd_volume_def)
  with rd_block_sectors [OF assms(1,2)] assms(2,3) show ?thesis
    by (simp add: ext2_write_block_def blkdev_write_def blkdev_init_check rd_ops_def rd_write_def rd_dev_def Let_def not_le not_less)
qed

lemma rd_block_write:
  assumes v: "rd_volume e" and b: "b < blocks_count e" "b' < blocks_count e" and len: "length bs = unat (block_size e)"
  shows "mem_read (mem_write (kmem (e_disk e)) (rd_start (rd_of e) + b * block_size e) bs)
      (rd_start (rd_of e) + b' * block_size e) (unat (block_size e)) = (if b' = b then bs else rd_block e b')"
proof (cases "b' = b")
  case True
  have "unat (rd_start (rd_of e) + b * block_size e) + length bs \<le> 2 ^ 32"
    using rd_block_place [OF v b(1)] len by linarith
  from mem_read_write_same [OF this] True len show ?thesis by simp
next
  case False
  note A = rd_block_place [OF v b(1)] and B = rd_block_place [OF v b(2)]
  have "unat b' < unat b \<or> unat b < unat b'" using False by (auto simp: word_unat_eq_iff)
  then have "unat b' * unat (block_size e) + unat (block_size e) \<le> unat b * unat (block_size e) \<or>
      unat b * unat (block_size e) + unat (block_size e) \<le> unat b' * unat (block_size e)"
    using mult_le_mono1 [of "Suc (unat b')" "unat b" "unat (block_size e)"] mult_le_mono1 [of "Suc (unat b)" "unat b'" "unat (block_size e)"] by auto
  then show ?thesis using False A B len by (subst mem_read_write_other) (auto simp: rd_block_def)
qed

interpretation rdvol: block_store blkdev_init rd_volume rd_block
proof (unfold_locales, goal_cases)
  case (1 e b buf) then show ?case by (rule rd_ext2_read)
next
  case (2 e b) then show ?case by (simp add: rd_block_def)
next
  case (3 e b bs)
  let ?w = "(e_disk e)\<lparr>kmem := mem_write (kmem (e_disk e)) (rd_start (rd_of e) + b * block_size e) bs\<rparr>"
  have "rd_volume (e\<lparr>e_disk := ?w, e_dirty := True\<rparr>)"
    using 3(1) by (simp add: rd_volume_def rds_ok_def rd_dev_def)
  with rd_ext2_write [OF 3] rd_block_write [OF 3(1,2) _ 3(3)] show ?case
    by (intro exI [of _ ?w]) (simp add: rd_block_def)
next
  case 4 then show ?case by (simp add: rd_volume_def)
next
  case 5 then show ?case by (simp add: rd_block_def fun_eq_iff)
next
  case 6 then show ?case by (simp add: rd_volume_def)
next
  case 7 then show ?case by (simp add: rd_block_def fun_eq_iff)
qed


section \<open>Properties\<close>

text \<open>An example: eight blocks of 1024 bytes in one group, with the bit maps in blocks 3 and 4, two blocks and five inodes free.\<close>

definition vol_example :: "rdisks ext2" where
  "vol_example = \<lparr>e_dev = 0x100, block_size = 1024, first_data_block = 1, blocks_count = 8, inodes_count = 8, free_blocks_count = 2,
     free_inodes_count = 5, blocks_per_group = 8192, inodes_per_group = 8, nr_groups = 1, inode_size = 128, desc_per_block = 32,
     hash_seed = [0, 0, 0, 0], hash_version = 1,
     group_desc = (\<lambda>_. \<lparr>bg_block_bitmap = 3, bg_inode_bitmap = 4, bg_inode_table = 5, bg_free_blocks_count = 2, bg_free_inodes_count = 5,
       bg_used_dirs_count = 1, bg_pad = 0, bg_reserved = (0, 0, 0)\<rparr>),
     readonly = False, e_dirty = False,
     e_disk = \<lparr>rd_info = [\<lparr>rd_start = 0x80400000, rd_end = 0x80402000, rd_nr = 16\<rparr>],
       kmem = (\<lambda>x. if x = 0x80400c00 then 0x1f else if x = 0x80401000 then 7 else 0)\<rparr>\<rparr>"

lemma bytes_words_nth: "4 * i + 3 < length bs \<Longrightarrow>
  bytes_words bs ! i = le_word [bs ! (4 * i), bs ! (4 * i + 1), bs ! (4 * i + 2), bs ! (4 * i + 3)]"
proof (induction bs arbitrary: i rule: bytes_words.induct)
  case (1 a b c d r)
  then show ?case by (cases i) (simp_all add: add.commute)
qed simp_all

lemma vol_example_bits: "gfree rd_block vol_example 0 = {5, 6}"
proof -
  have g: "gblocks vol_example 0 = 7" by (simp add: gblocks_def vol_example_def)
  have "bmap_of rd_block vol_example 0 ! 0 = 0x1f"
    by (simp add: bmap_of_def bitmap_at_def rd_block_def vol_example_def bytes_words_nth mem_read_def MINOR_def del: upt_rec_numeral)
  then have "test_bit i (bmap_of rd_block vol_example 0) \<longleftrightarrow> bit (0x1f :: u32) i" if "i < 7" for i
    using that by (simp add: test_bit_def)
  then have "gfree rd_block vol_example 0 = {i. i < 7 \<and> \<not> bit (0x1f :: u32) i}"
    unfolding gfree_def free_bits_def g by blast
  also have "\<dots> = set (filter (\<lambda>i. \<not> bit (0x1f :: u32) i) [0..<7])" by auto
  also have "\<dots> = {5, 6}" by code_simp
  finally show ?thesis .
qed

lemma vol_example_ok: "rd_volume vol_example" "layout_ok vol_example" "counts_ok rd_block vol_example" "free_set rd_block vol_example = {6, 7}"
proof -
  have n: "unat (nr_groups vol_example) = 1" by (simp add: vol_example_def)
  show "rd_volume vol_example"
    by (simp add: rd_volume_def vol_example_def rds_ok_def rd_dev_def rd_size_def MINOR_def MAJOR_def)
  show "layout_ok vol_example"
    by (simp add: layout_ok_def vol_example_def desc_block_def bitmap_at_def)
  show "counts_ok rd_block vol_example"
    using n by (simp add: counts_ok_def vol_example_bits) (simp add: vol_example_def)
  show "free_set rd_block vol_example = {6, 7}"
    by (simp add: free_set_def n lessThan_Suc vol_example_bits) (simp add: blockno_def vol_example_def)
qed

text \<open>C23: Allocating a block of an ext2 volume on a ram disk implements taking an element out of the set of
  free blocks that the bit maps on disk describe: with no free block the call fails with \<^verbatim>\<open>ENOSPC\<close> and
  changes nothing; otherwise, whatever the goal, it returns a block that was free, which afterwards is the
  only block that left the set, the bit maps, the group counts and the total stay consistent, and only
  blocks with bit maps or descriptors are written.\<close>

theorem ext2_alloc_refines:
  assumes "rd_volume e" and "layout_ok e" and "counts_ok rd_block e" and "\<not> readonly e"
  shows "if free_set rd_block e = {} then ext2_alloc_block blkdev_init True True goal e = (Inl ENOSPC, e)
    else \<exists>b e'. ext2_alloc_block blkdev_init True True goal e = (Inr (of_nat b), e') \<and> b \<in> free_set rd_block e \<and> rd_volume e' \<and>
      layout_ok e' \<and> counts_ok rd_block e' \<and> free_set rd_block e' = free_set rd_block e - {b} \<and> kept rd_block e e'"
  by (rule rdvol.alloc_ok [OF assms])

theorem ext2_alloc_refines_witness:
  "\<exists>b e'. ext2_alloc_block blkdev_init True True 1 vol_example = (Inr (of_nat b), e') \<and> b \<in> {6, 7} \<and>
     free_set rd_block e' = {6, 7} - {b}"
proof -
  have "\<not> readonly vol_example" by (simp add: vol_example_def)
  from ext2_alloc_refines [OF vol_example_ok(1,2,3) this, of 1] show ?thesis
    unfolding vol_example_ok(4) by auto
qed

text \<open>C24: Freeing a block of the volume that is in use succeeds and adds exactly that block to the free set,
  with every count consistent; freeing a block that is already free is refused with \<^verbatim>\<open>EIO\<close>, a block
  outside the volume with \<^verbatim>\<open>EINVAL\<close> and any block of a read-only volume with \<^verbatim>\<open>EROFS\<close>, and a refused
  call changes nothing.\<close>

theorem ext2_free_exact:
  assumes "rd_volume e" and "layout_ok e" and "counts_ok rd_block e"
  shows "if readonly e then ext2_free_block blkdev_init True True b e = (Inl EROFS, e)
    else if b < first_data_block e \<or> blocks_count e \<le> b then ext2_free_block blkdev_init True True b e = (Inl EINVAL, e)
    else if unat b \<in> free_set rd_block e then ext2_free_block blkdev_init True True b e = (Inl EIO, e)
    else \<exists>e'. ext2_free_block blkdev_init True True b e = (Inr (), e') \<and> rd_volume e' \<and> layout_ok e' \<and> counts_ok rd_block e' \<and>
      free_set rd_block e' = insert (unat b) (free_set rd_block e) \<and> kept rd_block e e'"
proof -
  have "ext2_free_block blkdev_init True True b e = (Inl EROFS, e)" if "readonly e" using that by (simp add: ext2_free_block_def)
  moreover have "ext2_free_block blkdev_init True True b e = (Inl EINVAL, e)"
    if "\<not> readonly e" "b < first_data_block e \<or> blocks_count e \<le> b" using that by (simp add: ext2_free_block_def)
  ultimately show ?thesis using rdvol.free_ok [OF assms, of b] by (simp add: not_less not_le)
qed

theorem ext2_free_exact_witness:
  "ext2_free_block blkdev_init True True 6 vol_example = (Inl EIO, vol_example) \<and>
   (\<exists>e'. ext2_free_block blkdev_init True True 4 vol_example = (Inr (), e') \<and> free_set rd_block e' = {4, 6, 7})"
proof -
  have v: "\<not> readonly vol_example" "first_data_block vol_example = 1" "blocks_count vol_example = 8" by (simp_all add: vol_example_def)
  note F = ext2_free_exact [OF vol_example_ok(1,2,3), unfolded v(2,3) vol_example_ok(4)]
  from F [of 6] F [of 4] v(1) show ?thesis by auto
qed

end
