(* ===== verification/Ext2_Inode.thy ===== *)
theory Ext2_Inode
  imports Ext2
begin

text \<open>
  Inodes of ext2 on disk and in memory: \<^verbatim>\<open>src/src/fs/ext2/inode.c\<close>. The raw inode is the packed structure
  \<^verbatim>\<open>struct ext2_inode\<close> of 116 bytes; the node has the fields of \<^verbatim>\<open>struct inode\<close> that the driver sets and
  the raw inode beside them. Writing past the end of a buffer is the outcome \<^term>\<open>None\<close>.
\<close>

section \<open>Model\<close>

record ext2_raw =
  raw_mode :: u16
  raw_uid :: u16
  raw_size :: u32
  raw_atime :: u32
  raw_ctime :: u32
  raw_mtime :: u32
  raw_dtime :: u32
  raw_gid :: u16
  raw_links_count :: u16
  raw_blocks :: u32
  raw_flags :: u32
  raw_osd1 :: u32
  raw_block :: "u32 list"
  raw_generation :: u32
  raw_file_acl :: u32
  raw_dir_acl :: u32
  raw_faddr :: u32

datatype node_iops = No_iops | Ext2_file_iops | Ext2_dir_iops | Ext2_link_iops
datatype node_fops = No_fops | Ext2_file_fops | Ext2_dir_fops | Blkdev_fops | Chrdev_fops | Fifo_fops

record ext2_node =
  n_ino :: u32
  n_mode :: u16
  n_size :: u32
  n_nr_block :: u32
  n_block_size :: u32
  n_nlink :: u16
  n_atime :: u64
  n_mtime :: u64
  n_ctime :: u64
  n_rdev :: u32
  n_op :: node_iops
  n_fop :: node_fops
  n_dirty :: bool
  n_raw :: ext2_raw

text \<open>The bytes of a raw inode, and a raw inode from its bytes.\<close>

definition raw_bytes :: "ext2_raw \<Rightarrow> u8 list" where
  "raw_bytes r =
     le_bytes 2 (raw_mode r) @ le_bytes 2 (raw_uid r) @ le_bytes 4 (raw_size r) @ le_bytes 4 (raw_atime r) @
     le_bytes 4 (raw_ctime r) @ le_bytes 4 (raw_mtime r) @ le_bytes 4 (raw_dtime r) @ le_bytes 2 (raw_gid r) @
     le_bytes 2 (raw_links_count r) @ le_bytes 4 (raw_blocks r) @ le_bytes 4 (raw_flags r) @ le_bytes 4 (raw_osd1 r) @
     words_bytes (raw_block r) @ le_bytes 4 (raw_generation r) @ le_bytes 4 (raw_file_acl r) @ le_bytes 4 (raw_dir_acl r) @
     le_bytes 4 (raw_faddr r)"

definition raw_of :: "u8 list \<Rightarrow> ext2_raw" where
  "raw_of bs = (let at = (\<lambda>k n. take n (drop k bs)) in
     \<lparr>raw_mode = le_word (at 0 2), raw_uid = le_word (at 2 2), raw_size = le_word (at 4 4), raw_atime = le_word (at 8 4),
      raw_ctime = le_word (at 12 4), raw_mtime = le_word (at 16 4), raw_dtime = le_word (at 20 4), raw_gid = le_word (at 24 2),
      raw_links_count = le_word (at 26 2), raw_blocks = le_word (at 28 4), raw_flags = le_word (at 32 4), raw_osd1 = le_word (at 36 4),
      raw_block = bytes_words (at 40 60), raw_generation = le_word (at 100 4), raw_file_acl = le_word (at 104 4),
      raw_dir_acl = le_word (at 108 4), raw_faddr = le_word (at 112 4)\<rparr>)"

abbreviation RAW_SIZE :: nat where "RAW_SIZE \<equiv> 116"

definition ext2_set_ops :: "ext2_node \<Rightarrow> ext2_node" where
  "ext2_set_ops n =
     (let fmt = n_mode n AND 0xf000
      in if fmt = 0x8000 then n\<lparr>n_op := Ext2_file_iops, n_fop := Ext2_file_fops\<rparr>
         else if fmt = 0x4000 then n\<lparr>n_op := Ext2_dir_iops, n_fop := Ext2_dir_fops\<rparr>
         else if fmt = 0xa000 then n\<lparr>n_op := Ext2_link_iops, n_fop := No_fops\<rparr>
         else if fmt = 0x6000 then n\<lparr>n_op := No_iops, n_fop := Blkdev_fops\<rparr>
         else if fmt = 0x2000 then n\<lparr>n_op := No_iops, n_fop := Chrdev_fops\<rparr>
         else if fmt = 0x1000 then n\<lparr>n_op := No_iops, n_fop := Fifo_fops\<rparr>
         else n\<lparr>n_op := No_iops, n_fop := No_fops\<rparr>)"

text \<open>The block of the inode table with inode \<open>ino\<close> of group \<open>grp\<close>, and the offset in it.\<close>

definition inode_place :: "'w ext2 \<Rightarrow> u32 \<Rightarrow> u32 \<Rightarrow> u32 \<times> u32" where
  "inode_place e grp ino =
     (let index = (ino - 1) mod inodes_per_group e; byte_offset = index * inode_size e
      in (bg_inode_table (group_desc e (unat grp)) + byte_offset div block_size e, byte_offset mod block_size e))"

text \<open>The fields of \<^verbatim>\<open>struct inode\<close> that \<^verbatim>\<open>ext2_read_inode\<close> takes from the raw inode.\<close>

definition node_of_raw :: "u32 \<Rightarrow> ext2_raw \<Rightarrow> ext2_node \<Rightarrow> ext2_node" where
  "node_of_raw bsize r n =
     ext2_set_ops (n\<lparr>n_raw := r, n_mode := raw_mode r, n_size := raw_size r, n_nr_block := raw_blocks r, n_block_size := bsize,
       n_nlink := raw_links_count r, n_atime := ucast (raw_atime r), n_mtime := ucast (raw_mtime r), n_ctime := ucast (raw_ctime r),
       n_rdev := (if raw_mode r AND 0xf000 = 0x6000 \<or> raw_mode r AND 0xf000 = 0x2000 then raw_block r ! 0 else 0)\<rparr>)"

definition ext2_read_inode :: "'w blkdevs \<Rightarrow> bool \<Rightarrow> 'w ext2 \<Rightarrow> ext2_node \<Rightarrow> errno + ext2_node" where
  "ext2_read_inode devs mem e n =
     (if n_ino n = 0 then Inl EINVAL
      else
        let grp = (n_ino n - 1) div inodes_per_group e
        in if grp \<ge> nr_groups e then Inl EINVAL
           else if \<not> mem then Inl ENOMEM
           else let (blkno, offset) = inode_place e grp (n_ino n)
             in case ext2_read_block devs blkno (replicate (unat (block_size e)) 0) e of
                  Inl x \<Rightarrow> Inl x
                | Inr buf \<Rightarrow>
                    let cnt = 116; cnt = (if cnt > block_size e - offset then block_size e - offset else cnt);
                        cnt = (if cnt > inode_size e then inode_size e else cnt)
                    in Inr (node_of_raw (block_size e)
                         (raw_of (copy_at 0 (take (unat cnt) (drop (unat offset) buf)) (replicate RAW_SIZE 0))) n))"

definition raw_of_node :: "ext2_node \<Rightarrow> ext2_raw" where
  "raw_of_node n = (n_raw n)\<lparr>raw_mode := n_mode n, raw_size := n_size n, raw_atime := ucast (n_atime n), raw_ctime := ucast (n_ctime n),
     raw_mtime := ucast (n_mtime n), raw_links_count := n_nlink n, raw_blocks := n_nr_block n\<rparr>"

definition ext2_write_inode :: "'w blkdevs \<Rightarrow> bool \<Rightarrow> 'w ext2 \<Rightarrow> ext2_node \<Rightarrow> ((errno + unit) \<times> ext2_node \<times> 'w ext2) option" where
  "ext2_write_inode devs mem e n =
     (if readonly e then Some (Inl EROFS, n, e)
      else if n_ino n = 0 then Some (Inl EINVAL, n, e)
      else
        let grp = (n_ino n - 1) div inodes_per_group e
        in if grp \<ge> nr_groups e then Some (Inl EINVAL, n, e)
           else
             let n = n\<lparr>n_raw := raw_of_node n\<rparr>; (blkno, offset) = inode_place e grp (n_ino n)
             in if \<not> mem then Some (Inl ENOMEM, n, e)
                else case ext2_read_block devs blkno (replicate (unat (block_size e)) 0) e of
                       Inl x \<Rightarrow> Some (Inl x, n, e)
                     | Inr buf \<Rightarrow>
                         if unat offset + RAW_SIZE > length buf then None
                         else case ext2_write_block devs blkno (copy_at (unat offset) (raw_bytes (n_raw n)) buf) e of
                                (r, e) \<Rightarrow> Some (r, n, e))"

section \<open>Raw inodes and bytes\<close>

definition raw_ok :: "ext2_raw \<Rightarrow> bool" where
  "raw_ok r \<longleftrightarrow> length (raw_block r) = 15"

lemma length_raw_bytes: "raw_ok r \<Longrightarrow> length (raw_bytes r) = RAW_SIZE"
  by (simp add: raw_ok_def raw_bytes_def)

lemma raw_of_bytes: "raw_ok r \<Longrightarrow> raw_of (raw_bytes r) = r"
  by (simp add: raw_ok_def raw_of_def raw_bytes_def Let_def)

lemma set_ops_fields [simp]:
  "n_raw (ext2_set_ops n) = n_raw n" "n_mode (ext2_set_ops n) = n_mode n" "n_size (ext2_set_ops n) = n_size n"
  "n_nlink (ext2_set_ops n) = n_nlink n" "n_nr_block (ext2_set_ops n) = n_nr_block n" "n_atime (ext2_set_ops n) = n_atime n"
  "n_mtime (ext2_set_ops n) = n_mtime n" "n_ctime (ext2_set_ops n) = n_ctime n"
  by (simp_all add: ext2_set_ops_def Let_def)

section \<open>The inode tables\<close>

text \<open>Inodes do not cross blocks, the tables lie in the volume and tables of different groups are apart.\<close>

definition table_blocks :: "'w ext2 \<Rightarrow> nat" where
  "table_blocks e = unat (inodes_per_group e) * unat (inode_size e) div unat (block_size e)"

definition table_at :: "'w ext2 \<Rightarrow> nat \<Rightarrow> nat" where
  "table_at e g = unat (bg_inode_table (group_desc e g))"

definition tables_ok :: "'w ext2 \<Rightarrow> bool" where
  "tables_ok e \<longleftrightarrow>
     (let bs = unat (block_size e); isz = unat (inode_size e); per = unat (inodes_per_group e); n = unat (nr_groups e)
      in RAW_SIZE \<le> isz \<and> 0 < bs \<and> isz dvd bs \<and> 0 < per \<and> bs dvd per * isz \<and> per * isz < 2 ^ 32 \<and>
         unat (inodes_count e) = n * per \<and>
         (\<forall>g < n. table_at e g + table_blocks e \<le> unat (blocks_count e) \<and>
            (\<forall>h < n. g \<noteq> h \<longrightarrow> table_at e g + table_blocks e \<le> table_at e h \<or> table_at e h + table_blocks e \<le> table_at e g)))"

definition ino_ok :: "'w ext2 \<Rightarrow> u32 \<Rightarrow> bool" where
  "ino_ok e ino \<longleftrightarrow> ino \<noteq> 0 \<and> ino \<le> inodes_count e"

lemma tables_okD:
  assumes "tables_ok e"
  shows "RAW_SIZE \<le> unat (inode_size e)" "0 < unat (block_size e)" "unat (inode_size e) dvd unat (block_size e)" "0 < unat (inodes_per_group e)"
    "unat (block_size e) dvd unat (inodes_per_group e) * unat (inode_size e)"
    "unat (inodes_per_group e) * unat (inode_size e) < 2 ^ 32" "unat (inodes_count e) = unat (nr_groups e) * unat (inodes_per_group e)"
    "g < unat (nr_groups e) \<Longrightarrow> table_at e g + table_blocks e \<le> unat (blocks_count e)"
    "g < unat (nr_groups e) \<Longrightarrow> h < unat (nr_groups e) \<Longrightarrow> g \<noteq> h \<Longrightarrow>
      table_at e g + table_blocks e \<le> table_at e h \<or> table_at e h + table_blocks e \<le> table_at e g"
  using assms unfolding tables_ok_def Let_def by blast+

lemma unat_mult_no_wrap: "unat (a::u32) * unat b < 2 ^ 32 \<Longrightarrow> unat (a * b) = unat a * unat b"
  by (simp add: unat_word_ariths)

text \<open>The group of an inode and its place in numbers.\<close>

abbreviation igroup :: "'w ext2 \<Rightarrow> u32 \<Rightarrow> nat" where
  "igroup e ino \<equiv> (unat ino - 1) div unat (inodes_per_group e)"

abbreviation ibyte :: "'w ext2 \<Rightarrow> u32 \<Rightarrow> nat" where
  "ibyte e ino \<equiv> (unat ino - 1) mod unat (inodes_per_group e) * unat (inode_size e)"

lemma inode_place_ok:
  assumes t: "tables_ok e" and i: "ino_ok e ino"
  shows "unat ((ino - 1) div inodes_per_group e) = igroup e ino" "(ino - 1) div inodes_per_group e < nr_groups e"
    "\<exists>b off. inode_place e ((ino - 1) div inodes_per_group e) ino = (b, off) \<and> b < blocks_count e \<and>
      unat b = table_at e (igroup e ino) + ibyte e ino div unat (block_size e) \<and> unat off = ibyte e ino mod unat (block_size e) \<and>
      ibyte e ino div unat (block_size e) < table_blocks e \<and> unat off + unat (inode_size e) \<le> unat (block_size e)"
proof -
  note T = tables_okD [OF t]
  let ?per = "unat (inodes_per_group e)" and ?isz = "unat (inode_size e)" and ?bs = "unat (block_size e)"
  have "0 < unat ino" "unat ino \<le> unat (inodes_count e)" using i by (auto simp: ino_ok_def word_le_nat_alt unat_gt_0)
  then have lt: "unat ino - 1 < unat (nr_groups e) * ?per" using T(7) by linarith
  have um: "unat (ino - 1) = unat ino - 1" using i by (simp add: ino_ok_def unat_minus_one)
  show ug: "unat ((ino - 1) div inodes_per_group e) = igroup e ino" by (simp add: unat_div um)
  have gn: "igroup e ino < unat (nr_groups e)" using lt T(4) by (simp add: div_less_iff_less_mult)
  then show "(ino - 1) div inodes_per_group e < nr_groups e" using ug by (simp add: word_less_nat_alt)
  have idx: "(unat ino - 1) mod ?per < ?per" using T(4) by simp
  have "(unat ino - 1) mod ?per * ?isz + ?isz = (Suc ((unat ino - 1) mod ?per)) * ?isz" by simp
  also have "\<dots> \<le> ?per * ?isz" using idx by (intro mult_le_mono1) simp
  finally have end_le: "ibyte e ino + ?isz \<le> ?per * ?isz" .
  have "unat ((ino - 1) mod inodes_per_group e * inode_size e) = ibyte e ino"
    using end_le T(6) by (subst unat_mult_no_wrap) (simp_all add: unat_mod um)
  moreover define off where "off = (ino - 1) mod inodes_per_group e * inode_size e mod block_size e"
  ultimately have off: "unat off = ibyte e ino mod ?bs"
    and dv: "unat ((ino - 1) mod inodes_per_group e * inode_size e div block_size e) = ibyte e ino div ?bs" by (simp_all add: unat_mod unat_div)
  have "ibyte e ino < ?per * ?isz" using end_le T(1) by linarith
  then have q: "ibyte e ino div ?bs < table_blocks e"
    using T(2,5) by (simp add: table_blocks_def div_less_iff_less_mult)
  then have bl: "table_at e (igroup e ino) + ibyte e ino div ?bs < unat (blocks_count e)" using T(8) [OF gn] by linarith
  define b where "b = bg_inode_table (group_desc e (igroup e ino)) + (ino - 1) mod inodes_per_group e * inode_size e div block_size e"
  have ub: "unat b = table_at e (igroup e ino) + ibyte e ino div ?bs"
    using less_trans [OF bl unat_less_2_32] by (simp add: b_def unat_add_no_wrap dv table_at_def)
  obtain k where k: "?bs = ?isz * k" using T(3) by (auto elim: dvdE)
  have "ibyte e ino mod ?bs = ?isz * ((unat ino - 1) mod ?per mod k)" unfolding k by (simp add: mult.commute mod_mult_mult1)
  moreover have "0 < k" using T(2) k by (cases k) auto
  then have "Suc ((unat ino - 1) mod ?per mod k) \<le> k" by (simp add: Suc_leI)
  then have "?isz * Suc ((unat ino - 1) mod ?per mod k) \<le> ?isz * k" by (rule mult_le_mono2)
  ultimately have "ibyte e ino mod ?bs + ?isz \<le> ?bs" using k by simp
  then show "\<exists>b off. inode_place e ((ino - 1) div inodes_per_group e) ino = (b, off) \<and> b < blocks_count e \<and>
      unat b = table_at e (igroup e ino) + ibyte e ino div ?bs \<and> unat off = ibyte e ino mod ?bs \<and> ibyte e ino div ?bs < table_blocks e \<and> unat off + ?isz \<le> ?bs"
    using ub bl off q ug unfolding inode_place_def Let_def b_def off_def by (auto simp: word_less_nat_alt)
qed

text \<open>Inodes with different numbers are in different blocks or apart in one.\<close>

lemma inode_places_apart:
  assumes t: "tables_ok e" and i: "ino_ok e ino" "ino_ok e ino'" "ino \<noteq> ino'"
    and p: "inode_place e ((ino - 1) div inodes_per_group e) ino = (b, off)" "inode_place e ((ino' - 1) div inodes_per_group e) ino' = (b, off')"
  shows "unat off + unat (inode_size e) \<le> unat off' \<or> unat off' + unat (inode_size e) \<le> unat off"
proof -
  note T = tables_okD [OF t] and P = inode_place_ok [OF t i(1)] and P' = inode_place_ok [OF t i(2)]
  let ?per = "unat (inodes_per_group e)" and ?isz = "unat (inode_size e)" and ?bs = "unat (block_size e)"
  let ?x = "(unat ino - 1) mod ?per" and ?y = "(unat ino' - 1) mod ?per"
  have B: "unat b = table_at e (igroup e ino) + ibyte e ino div ?bs" "unat off = ibyte e ino mod ?bs" "ibyte e ino div ?bs < table_blocks e"
    using P(3) p(1) by auto
  have B': "unat b = table_at e (igroup e ino') + ibyte e ino' div ?bs" "unat off' = ibyte e ino' mod ?bs" "ibyte e ino' div ?bs < table_blocks e"
    using P'(3) p(2) by auto
  have gn: "igroup e ino < unat (nr_groups e)" "igroup e ino' < unat (nr_groups e)"
    using P(1,2) P'(1,2) by (simp_all add: word_less_nat_alt)
  have g: "igroup e ino = igroup e ino'"
    using T(9) [OF gn] B(1,3) B'(1,3) by linarith
  have "unat ino - 1 \<noteq> unat ino' - 1" using i by (auto simp: ino_ok_def word_unat_eq_iff unat_eq_0 [symmetric])
  then have xy: "?x \<noteq> ?y" using g by (metis div_mult_mod_eq)
  have q: "ibyte e ino div ?bs = ibyte e ino' div ?bs" using B(1) B'(1) g by simp
  have apart: "ibyte e u + ?isz \<le> ibyte e w" if "(unat u - 1) mod ?per < (unat w - 1) mod ?per" for u w
    using mult_le_mono1 [of "Suc ((unat u - 1) mod ?per)" "(unat w - 1) mod ?per" ?isz] that by simp
  have "ibyte e ino + ?isz \<le> ibyte e ino' \<or> ibyte e ino' + ?isz \<le> ibyte e ino"
    using apart [of ino ino'] apart [of ino' ino] xy by linarith
  moreover have "ibyte e ino = ibyte e ino div ?bs * ?bs + unat off" "ibyte e ino' = ibyte e ino' div ?bs * ?bs + unat off'"
    unfolding B(2) B'(2) by (simp_all add: div_mult_mod_eq)
  moreover have "ibyte e ino div ?bs * ?bs = ibyte e ino' div ?bs * ?bs" using q by simp
  ultimately show ?thesis by linarith
qed

section \<open>Writing and reading inodes\<close>

text \<open>The raw inode in a block of the table.\<close>

definition raw_at :: "('w ext2 \<Rightarrow> u32 \<Rightarrow> u8 list) \<Rightarrow> 'w ext2 \<Rightarrow> u32 \<Rightarrow> ext2_raw" where
  "raw_at blk e ino = (case inode_place e ((ino - 1) div inodes_per_group e) ino of
     (b, off) \<Rightarrow> raw_of (take RAW_SIZE (drop (unat off) (blk e b))))"

lemma copy_at_apart:
  assumes "off + length xs \<le> length buf" "off' + n \<le> length buf" "off + length xs \<le> off' \<or> off' + n \<le> off"
  shows "take n (drop off' (copy_at off xs buf)) = take n (drop off' buf)"
  by (rule nth_equalityI) (use assms in \<open>auto simp: copy_simps\<close>)

context block_store
begin

lemma read_inode_ok:
  assumes v: "vinv e" and t: "tables_ok e" and i: "ino_ok e (n_ino n)"
  shows "ext2_read_inode devs True e n = Inr (node_of_raw (block_size e) (raw_at blk e (n_ino n)) n)"
proof -
  note P = inode_place_ok [OF t i] and T = tables_okD [OF t]
  obtain b off where p: "inode_place e ((n_ino n - 1) div inodes_per_group e) (n_ino n) = (b, off)" "b < blocks_count e"
    "unat off + unat (inode_size e) \<le> unat (block_size e)" using P(3) by blast
  have len: "length (blk e b) = unat (block_size e)" by (rule block_length [OF v p(2)])
  have "unat (block_size e - off) = unat (block_size e) - unat off" using p(3) by (simp add: unat_sub_if' word_le_nat_alt)
  then have cnt: "\<not> 116 > block_size e - off" "\<not> 116 > inode_size e" using p(3) T(1) by (simp_all add: word_less_nat_alt)
  have "copy_at 0 (take RAW_SIZE (drop (unat off) (blk e b))) (replicate RAW_SIZE 0) = take RAW_SIZE (drop (unat off) (blk e b))"
    using len p(3) T(1) by (simp add: copy_at_def)
  then show ?thesis
    using i P(2) p(1) cnt read_block [OF v p(2)]
    by (simp add: ext2_read_inode_def ino_ok_def Let_def not_le raw_at_def)
qed

lemma write_inode_ok:
  assumes v: "vinv e" and t: "tables_ok e" and i: "ino_ok e (n_ino n)" and r: "raw_ok (n_raw n)" and ro: "\<not> readonly e"
  obtains w where "ext2_write_inode devs True e n = Some (Inr (), n\<lparr>n_raw := raw_of_node n\<rparr>, e\<lparr>e_disk := w, e_dirty := True\<rparr>)"
    "vinv (e\<lparr>e_disk := w, e_dirty := True\<rparr>)"
    "\<And>ino. ino_ok e ino \<Longrightarrow> raw_at blk (e\<lparr>e_disk := w, e_dirty := True\<rparr>) ino = (if ino = n_ino n then raw_of_node n else raw_at blk e ino)"
    "\<And>b. b < blocks_count e \<Longrightarrow> unat b \<noteq> table_at e (igroup e (n_ino n)) + ibyte e (n_ino n) div unat (block_size e) \<Longrightarrow>
       blk (e\<lparr>e_disk := w, e_dirty := True\<rparr>) b = blk e b"
proof -
  note P = inode_place_ok [OF t i] and T = tables_okD [OF t]
  obtain b off where p: "inode_place e ((n_ino n - 1) div inodes_per_group e) (n_ino n) = (b, off)" "b < blocks_count e"
    "unat off + unat (inode_size e) \<le> unat (block_size e)" "unat b = table_at e (igroup e (n_ino n)) + ibyte e (n_ino n) div unat (block_size e)"
    using P(3) by blast
  let ?r = "raw_of_node n"
  have rk: "raw_ok ?r" using r by (simp add: raw_ok_def raw_of_node_def)
  note lr = length_raw_bytes [OF rk]
  have len: "length (blk e b) = unat (block_size e)" by (rule block_length [OF v p(2)])
  then have fit: "unat off + length (raw_bytes ?r) \<le> length (blk e b)" using p(3) T(1) lr by simp
  let ?buf = "copy_at (unat off) (raw_bytes ?r) (blk e b)"
  have lb: "length ?buf = unat (block_size e)" using fit len by (simp add: copy_simps)
  from write_block [OF v p(2) lb] obtain w where w: "ext2_write_block devs b ?buf e = (Inr (), e\<lparr>e_disk := w, e_dirty := True\<rparr>)"
    "vinv (e\<lparr>e_disk := w, e_dirty := True\<rparr>)"
    "\<forall>b' < blocks_count e. blk (e\<lparr>e_disk := w, e_dirty := True\<rparr>) b' = (if b' = b then ?buf else blk e b')" by blast
  let ?e = "e\<lparr>e_disk := w, e_dirty := True\<rparr>"
  have same: "inode_place ?e g ino = inode_place e g ino" for g ino by (simp add: inode_place_def)
  have "ext2_write_inode devs True e n = Some (Inr (), n\<lparr>n_raw := ?r\<rparr>, ?e)"
    using i P(2) p(1) ro fit lr w(1) read_block [OF v p(2)] by (simp add: ext2_write_inode_def ino_ok_def Let_def not_le not_less)
  moreover have "raw_at blk ?e ino = (if ino = n_ino n then ?r else raw_at blk e ino)" if j: "ino_ok e ino" for ino
  proof -
    obtain b' off' where p': "inode_place e ((ino - 1) div inodes_per_group e) ino = (b', off')" "b' < blocks_count e"
      "unat off' + unat (inode_size e) \<le> unat (block_size e)" using inode_place_ok(3) [OF t j] by blast
    have "take RAW_SIZE (drop (unat off) ?buf) = raw_bytes ?r" using take_drop_copy_at [OF fit] lr by simp
    then have "raw_at blk ?e (n_ino n) = ?r" using p(1,2) w(3) raw_of_bytes [OF rk] by (simp add: raw_at_def same)
    moreover have "raw_at blk ?e ino = raw_at blk e ino" if ne: "ino \<noteq> n_ino n"
    proof (cases "b' = b")
      case True
      have "unat off + unat (inode_size e) \<le> unat off' \<or> unat off' + unat (inode_size e) \<le> unat off"
        by (rule inode_places_apart [OF t i j]) (use ne p(1) p'(1) True in auto)
      then have "take RAW_SIZE (drop (unat off') ?buf) = take RAW_SIZE (drop (unat off') (blk e b))"
        using fit lr len p'(3) T(1) by (intro copy_at_apart) auto
      then show ?thesis using p' True w(3) by (simp add: raw_at_def same)
    qed (use p' w(3) in \<open>simp add: raw_at_def same\<close>)
    ultimately show ?thesis by simp
  qed
  ultimately show thesis using that w p(4) by (metis (no_types, lifting))
qed

end

section \<open>Properties\<close>

definition node_example :: ext2_node where
  "node_example = \<lparr>n_ino = 2, n_mode = 0x81a4, n_size = 10, n_nr_block = 2, n_block_size = 1024, n_nlink = 1, n_atime = 7, n_mtime = 8, n_ctime = 9,
     n_rdev = 0, n_op = Ext2_file_iops, n_fop = Ext2_file_fops, n_dirty = True,
     n_raw = \<lparr>raw_mode = 0, raw_uid = 0, raw_size = 0, raw_atime = 0, raw_ctime = 0, raw_mtime = 0, raw_dtime = 0, raw_gid = 0,
       raw_links_count = 0, raw_blocks = 0, raw_flags = 0, raw_osd1 = 0, raw_block = replicate 15 0, raw_generation = 0,
       raw_file_acl = 0, raw_dir_acl = 0, raw_faddr = 0\<rparr>\<rparr>"

lemma vol_example_tables: "tables_ok vol_example" "ino_ok vol_example 2" "ino_ok vol_example 3"
  by (simp_all add: tables_ok_def vol_example_def table_at_def table_blocks_def ino_ok_def)

text \<open>C25: Writing an inode of an ext2 volume on a ram disk and reading it back, into any node with its number,
  gives the same mode, size, link count, sector count and block map, and the times reduced to 32 bits; an
  inode with another number reads as it did before the write.\<close>

theorem ext2_inode_roundtrip:
  assumes "rd_volume e" and "tables_ok e" and "ino_ok e (n_ino n)" and "raw_ok (n_raw n)" and "\<not> readonly e"
  shows "\<exists>n' e'. ext2_write_inode blkdev_init True e n = Some (Inr (), n', e') \<and> rd_volume e' \<and> tables_ok e' \<and>
    (\<forall>m. n_ino m = n_ino n \<longrightarrow> (\<exists>m'. ext2_read_inode blkdev_init True e' m = Inr m' \<and> n_raw m' = n_raw n' \<and> raw_block (n_raw m') = raw_block (n_raw n) \<and>
       n_mode m' = n_mode n \<and> n_size m' = n_size n \<and> n_nlink m' = n_nlink n \<and> n_nr_block m' = n_nr_block n \<and>
       n_atime m' = take_bit 32 (n_atime n) \<and> n_mtime m' = take_bit 32 (n_mtime n) \<and> n_ctime m' = take_bit 32 (n_ctime n))) \<and>
    (\<forall>m. ino_ok e (n_ino m) \<and> n_ino m \<noteq> n_ino n \<longrightarrow> ext2_read_inode blkdev_init True e' m = ext2_read_inode blkdev_init True e m)"
proof -
  from rdvol.write_inode_ok [OF assms] obtain w where
    w: "ext2_write_inode blkdev_init True e n = Some (Inr (), n\<lparr>n_raw := raw_of_node n\<rparr>, e\<lparr>e_disk := w, e_dirty := True\<rparr>)"
      "rd_volume (e\<lparr>e_disk := w, e_dirty := True\<rparr>)"
      "\<And>ino. ino_ok e ino \<Longrightarrow> raw_at rd_block (e\<lparr>e_disk := w, e_dirty := True\<rparr>) ino = (if ino = n_ino n then raw_of_node n else raw_at rd_block e ino)"
    by metis
  let ?e = "e\<lparr>e_disk := w, e_dirty := True\<rparr>"
  have t: "tables_ok ?e" using assms(2) by (simp add: tables_ok_def table_at_def table_blocks_def)
  have io: "ino_ok ?e = ino_ok e" by (simp add: ino_ok_def fun_eq_iff)
  have rd: "ext2_read_inode blkdev_init True ?e m = Inr (node_of_raw (block_size e) (if n_ino m = n_ino n then raw_of_node n else raw_at rd_block e (n_ino m)) m)"
    if "ino_ok e (n_ino m)" for m
    using rdvol.read_inode_ok [OF w(2) t, of m] that w(3) [OF that] by (simp add: io)
  have tm: "ucast (ucast x :: u32) = take_bit 32 (x :: u64)" for x by (rule bit_word_eqI) (auto simp: bit_simps)
  show ?thesis
    by (intro exI conjI) (use w(1,2) t rd assms(3) rdvol.read_inode_ok [OF assms(1,2)] in \<open>auto simp: node_of_raw_def raw_of_node_def tm\<close>)
qed

theorem ext2_inode_roundtrip_witness:
  "\<exists>n' e' m'. ext2_write_inode blkdev_init True vol_example node_example = Some (Inr (), n', e') \<and>
     ext2_read_inode blkdev_init True e' node_example = Inr m' \<and> n_size m' = 10 \<and>
     ext2_read_inode blkdev_init True e' (node_example\<lparr>n_ino := 3\<rparr>) = ext2_read_inode blkdev_init True vol_example (node_example\<lparr>n_ino := 3\<rparr>)"
proof -
  have "ino_ok vol_example (n_ino node_example)" "raw_ok (n_raw node_example)" "\<not> readonly vol_example"
    using vol_example_tables by (simp_all add: node_example_def raw_ok_def) (simp add: vol_example_def)
  from ext2_inode_roundtrip [OF vol_example_ok(1) vol_example_tables(1) this] obtain n' e' where
    w: "ext2_write_inode blkdev_init True vol_example node_example = Some (Inr (), n', e')"
      "\<forall>m. n_ino m = n_ino node_example \<longrightarrow> (\<exists>m'. ext2_read_inode blkdev_init True e' m = Inr m' \<and> n_size m' = n_size node_example)"
      "\<forall>m. ino_ok vol_example (n_ino m) \<and> n_ino m \<noteq> n_ino node_example \<longrightarrow>
        ext2_read_inode blkdev_init True e' m = ext2_read_inode blkdev_init True vol_example m" by blast
  have "n_ino (node_example\<lparr>n_ino := 3\<rparr>) = 3" "n_ino node_example = 2" "n_size node_example = 10" by (simp_all add: node_example_def)
  with w(1) w(2) [rule_format, of node_example] w(3) [rule_format, of "node_example\<lparr>n_ino := 3\<rparr>"] vol_example_tables(3) show ?thesis by auto
qed

text \<open>With inodes of 192 bytes, which \<^verbatim>\<open>ext2_read_super\<close> accepts, the sixth inode of a block of 1024 bytes is
  written past the end of the buffer.\<close>

lemma ext2_write_inode_overflows:
  "ext2_write_inode blkdev_init True (vol_example\<lparr>inode_size := 192\<rparr>) (node_example\<lparr>n_ino := 6\<rparr>) = None"
proof -
  let ?e = "vol_example\<lparr>inode_size := 192\<rparr>"
  have "rd_volume ?e" using vol_example_ok(1) by (simp add: rd_volume_def)
  then have "ext2_read_block blkdev_init 5 buf ?e = Inr (rd_block ?e 5)" for buf
    by (rule rd_ext2_read) (simp add: vol_example_def)
  moreover have "inode_place ?e 0 6 = (5, 960)" by (simp add: inode_place_def vol_example_def)
  moreover have "length (rd_block ?e 5) = 1024" by (simp add: rd_block_def vol_example_def)
  ultimately show ?thesis
    by (simp add: ext2_write_inode_def Let_def node_example_def) (simp add: vol_example_def)
qed

end
