(* ===== verification/Ext2_Bmap.thy ===== *)
theory Ext2_Bmap
  imports Ext2_Inode "HOL-Library.Sublist"
begin

text \<open>
  The block map of an ext2 file: \<^verbatim>\<open>src/src/fs/ext2/bmap.c\<close>. The flags \<open>mem\<close> number the calls of \<^verbatim>\<open>kmalloc\<close> and
  say which of them succeed. The branches for single, double and triple indirect blocks repeat the same steps
  per level: load the pointers, make sure that the next block exists, store the pointers; \<open>bmap_walk\<close> is one
  level with the levels below it. Reading a pointer past the end of its block is the outcome \<^term>\<open>None\<close>.
\<close>

section \<open>Model\<close>

definition ext2_double_start :: "'w ext2 \<Rightarrow> u32" where
  "ext2_double_start e = 12 + block_size e div 4"

definition ext2_triple_start :: "'w ext2 \<Rightarrow> u32" where
  "ext2_triple_start e = (let per = block_size e div 4 in ext2_double_start e + per * per)"

definition ext2_load_ptrs :: "'w blkdevs \<Rightarrow> bool \<Rightarrow> u32 \<Rightarrow> 'w ext2 \<Rightarrow> errno + u32 list" where
  "ext2_load_ptrs devs mem blkno e =
     (if \<not> mem then Inl ENOMEM
      else map_sum id bytes_words (ext2_read_block devs blkno (replicate (unat (block_size e)) 0) e))"

definition ext2_store_ptrs :: "'w blkdevs \<Rightarrow> u32 \<Rightarrow> u32 list \<Rightarrow> 'w ext2 \<Rightarrow> (errno + unit) \<times> 'w ext2" where
  "ext2_store_ptrs devs blkno ptrs e = ext2_write_block devs blkno (words_bytes ptrs) e"

definition ext2_new_block :: "'w blkdevs \<Rightarrow> (nat \<Rightarrow> bool) \<Rightarrow> 'w ext2 \<Rightarrow> ext2_node \<Rightarrow> (errno + u32) \<times> 'w ext2 \<times> ext2_node" where
  "ext2_new_block devs mem e n =
     (case ext2_alloc_block devs (mem 0) (mem 1) 0 e of
        (Inl x, e) \<Rightarrow> (Inl x, e, n)
      | (Inr b, e) \<Rightarrow>
          if \<not> mem 2 then (Inl ENOMEM, snd (ext2_free_block devs (mem 3) (mem 4) b e), n)
          else case ext2_write_block devs b (replicate (unat (block_size e)) 0) e of
                 (Inl x, e) \<Rightarrow> (Inl x, snd (ext2_free_block devs (mem 3) (mem 4) b e), n)
               | (Inr _, e) \<Rightarrow>
                   let sectors = block_size e div 512
                   in (Inr b, e, n\<lparr>n_nr_block := n_nr_block n + sectors,
                        n_raw := (n_raw n)\<lparr>raw_blocks := raw_blocks (n_raw n) + sectors\<rparr>, n_dirty := True\<rparr>))"

text \<open>The block a slot names, made when there is none; the caller puts the result in the slot.\<close>

definition ext2_ensure_indirect :: "'w blkdevs \<Rightarrow> (nat \<Rightarrow> bool) \<Rightarrow> u32 \<Rightarrow> 'w ext2 \<Rightarrow> ext2_node \<Rightarrow> (errno + u32) \<times> 'w ext2 \<times> ext2_node" where
  "ext2_ensure_indirect devs mem slot e n = (if slot \<noteq> 0 then (Inr slot, e, n) else ext2_new_block devs mem e n)"

definition ext2_ensure_data ::
    "'w blkdevs \<Rightarrow> (nat \<Rightarrow> bool) \<Rightarrow> u32 list \<Rightarrow> nat \<Rightarrow> 'w ext2 \<Rightarrow> ext2_node \<Rightarrow> (errno + u32) \<times> u32 list \<times> 'w ext2 \<times> ext2_node" where
  "ext2_ensure_data devs mem ptrs index e n =
     (if ptrs ! index \<noteq> 0 then (Inr (ptrs ! index), ptrs, e, n)
      else case ext2_new_block devs mem e n of
             (Inl x, e, n) \<Rightarrow> (Inl x, ptrs, e, n)
           | (Inr b, e, n) \<Rightarrow> (Inr b, ptrs[index := b], e, n))"

text \<open>From the pointer block \<open>b\<close> on, along the indices; the result is \<open>0\<close> for a hole and on an error.\<close>

fun bmap_walk :: "'w blkdevs \<Rightarrow> (nat \<Rightarrow> bool) \<Rightarrow> bool \<Rightarrow> u32 \<Rightarrow> nat list \<Rightarrow> 'w ext2 \<Rightarrow> ext2_node \<Rightarrow> u32 \<times> 'w ext2 \<times> ext2_node" where
  "bmap_walk devs mem create b [] e n = (b, e, n)"
| "bmap_walk devs mem create b [index] e n =
     (case ext2_load_ptrs devs (mem 5) b e of
        Inl x \<Rightarrow> (0, e, n)
      | Inr ptrs \<Rightarrow>
          let result = ptrs ! index
          in if result = 0 \<and> create
             then case ext2_ensure_data devs mem ptrs index e n of
                    (Inl x, ptrs, e, n) \<Rightarrow> (0, e, n)
                  | (Inr result, ptrs, e, n) \<Rightarrow>
                      (case ext2_store_ptrs devs b ptrs e of
                         (Inl x, e) \<Rightarrow> (0, e, n)
                       | (Inr _, e) \<Rightarrow> (result, e, n))
             else (result, e, n))"
| "bmap_walk devs mem create b (first # second # rest) e n =
     (case ext2_load_ptrs devs (mem 5) b e of
        Inl x \<Rightarrow> (0, e, n)
      | Inr ptrs \<Rightarrow>
          (case ext2_ensure_indirect devs mem (ptrs ! first) e n of
             (Inl x, e, n) \<Rightarrow> (0, e, n)
           | (Inr ind_block, e, n) \<Rightarrow>
               (case ext2_store_ptrs devs b (ptrs[first := ind_block]) e of
                  (Inl x, e) \<Rightarrow> (0, e, n)
                | (Inr _, e) \<Rightarrow> bmap_walk devs (\<lambda>k. mem (k + 6)) create ind_block (second # rest) e n)))"

text \<open>From slot \<open>k\<close> of the inode on.\<close>

definition bmap_slot :: "'w blkdevs \<Rightarrow> (nat \<Rightarrow> bool) \<Rightarrow> bool \<Rightarrow> nat \<Rightarrow> nat list \<Rightarrow> 'w ext2 \<Rightarrow> ext2_node \<Rightarrow> u32 \<times> 'w ext2 \<times> ext2_node" where
  "bmap_slot devs mem create k path e n =
     (case ext2_ensure_indirect devs mem (raw_block (n_raw n) ! k) e n of
        (Inl x, e, n) \<Rightarrow> (0, e, n)
      | (Inr b, e, n) \<Rightarrow>
          let n = n\<lparr>n_raw := (n_raw n)\<lparr>raw_block := (raw_block (n_raw n))[k := b]\<rparr>\<rparr>
          in bmap_walk devs (\<lambda>k. mem (k + 6)) create b path e n)"

definition ext2_bmap :: "'w blkdevs \<Rightarrow> (nat \<Rightarrow> bool) \<Rightarrow> 'w ext2 \<Rightarrow> ext2_node \<Rightarrow> u32 \<Rightarrow> bool \<Rightarrow> (u32 \<times> 'w ext2 \<times> ext2_node) option" where
  "ext2_bmap devs mem e n blkno create =
     (let per = block_size e div 4
      in if blkno < 12 then
           let result = raw_block (n_raw n) ! unat blkno
           in if result \<noteq> 0 then Some (result, e, n)
              else if \<not> create then Some (0, e, n)
              else (case ext2_new_block devs mem e n of
                      (Inl x, e, n) \<Rightarrow> Some (0, e, n)
                    | (Inr result, e, n) \<Rightarrow>
                        Some (result, e, n\<lparr>n_raw := (n_raw n)\<lparr>raw_block := (raw_block (n_raw n))[unat blkno := result]\<rparr>\<rparr>))
         else if blkno < ext2_double_start e then
           let index = blkno - 12 in Some (bmap_slot devs mem create 12 [unat index] e n)
         else if blkno < ext2_triple_start e then
           let index = blkno - ext2_double_start e
           in Some (bmap_slot devs mem create 13 [unat (index div per), unat (index mod per)] e n)
         else
           let index = blkno - ext2_triple_start e; first = index div (per * per)
           in if first \<ge> per then None
              else Some (bmap_slot devs mem create 14 [unat first, unat ((index div per) mod per), unat (index mod per)] e n))"

section \<open>Trees of blocks\<close>

text \<open>The block at the end of a path of indices from the pointer \<open>p\<close>; \<open>B\<close> has the pointers in each block.\<close>

fun look :: "(u32 \<Rightarrow> u32 list) \<Rightarrow> u32 \<Rightarrow> nat list \<Rightarrow> u32" where
  "look B p [] = p"
| "look B p (i # is) = (if p = 0 then 0 else look B (B p ! i) is)"

lemma look_0 [simp]: "look B 0 is = 0"
  by (cases "is") simp_all

lemma look_append: "look B p (xs @ ys) = look B (look B p xs) ys"
  by (induction xs arbitrary: p) auto

text \<open>A path keeps its block when the pointer blocks on the way keep their pointers.\<close>

lemma look_cong:
  assumes "\<And>\<rho>. strict_prefix \<rho> is \<Longrightarrow> look B p \<rho> \<noteq> 0 \<Longrightarrow> B' (look B p \<rho>) = B (look B p \<rho>)"
  shows "look B' p is = look B p is"
  using assms
proof (induction "is" arbitrary: p)
  case (Cons i "is")
  show ?case
  proof (cases "p = 0")
    case False
    have "B' p = B p" using Cons.prems [of "[]"] False by simp
    moreover have "look B' (B p ! i) is = look B (B p ! i) is"
      by (rule Cons.IH) (use Cons.prems [of "i # \<rho>" for \<rho>] False in auto)
    ultimately show ?thesis using False by simp
  qed simp
qed simp

text \<open>\<open>grown f f' is N\<close>: the map \<open>f'\<close> of paths to blocks has the blocks of \<open>f\<close> and, on the way along \<open>is\<close>, new
  ones from \<open>N\<close>, all different.\<close>

definition grown :: "('a list \<Rightarrow> bool) \<Rightarrow> ('a list \<Rightarrow> u32) \<Rightarrow> ('a list \<Rightarrow> u32) \<Rightarrow> 'a list \<Rightarrow> nat set \<Rightarrow> bool" where
  "grown ok f f' is N \<longleftrightarrow>
     (\<forall>\<pi>. ok \<pi> \<longrightarrow> (\<not> prefix \<pi> is \<or> f \<pi> \<noteq> 0 \<longrightarrow> f' \<pi> = f \<pi>) \<and> (f \<pi> = 0 \<and> f' \<pi> \<noteq> 0 \<longrightarrow> unat (f' \<pi>) \<in> N)) \<and>
     (\<forall>\<pi> \<pi>'. ok \<pi> \<and> ok \<pi>' \<and> f \<pi> = 0 \<and> f \<pi>' = 0 \<and> f' \<pi> \<noteq> 0 \<and> f' \<pi> = f' \<pi>' \<longrightarrow> \<pi> = \<pi>')"

lemma grown_refl: "grown ok f f is N"
  by (auto simp: grown_def)

lemma grownD:
  assumes "grown ok f f' is N" "ok \<pi>"
  shows "\<not> prefix \<pi> is \<or> f \<pi> \<noteq> 0 \<Longrightarrow> f' \<pi> = f \<pi>" "f \<pi> = 0 \<Longrightarrow> f' \<pi> \<noteq> 0 \<Longrightarrow> unat (f' \<pi>) \<in> N"
    "ok \<pi>' \<Longrightarrow> f \<pi> = 0 \<Longrightarrow> f \<pi>' = 0 \<Longrightarrow> f' \<pi> \<noteq> 0 \<Longrightarrow> f' \<pi> = f' \<pi>' \<Longrightarrow> \<pi> = \<pi>'"
  using assms by (auto simp: grown_def)

section \<open>Volumes with files\<close>

definition vol_ok :: "('w ext2 \<Rightarrow> bool) \<Rightarrow> ('w ext2 \<Rightarrow> u32 \<Rightarrow> u8 list) \<Rightarrow> 'w ext2 \<Rightarrow> bool" where
  "vol_ok vinv blk e \<longleftrightarrow> vinv e \<and> layout_ok e \<and> counts_ok blk e \<and> \<not> readonly e \<and> 0 \<notin> free_set blk e \<and>
     (\<forall>b. meta e b \<longrightarrow> unat b \<notin> free_set blk e)"

lemma vol_okD:
  assumes "vol_ok vinv blk e"
  shows "vinv e" "layout_ok e" "counts_ok blk e" "\<not> readonly e" "0 \<notin> free_set blk e" "meta e b \<Longrightarrow> unat b \<notin> free_set blk e"
  using assms by (auto simp: vol_ok_def)

text \<open>A block that is in use and holds no bit map and no descriptors.\<close>

definition used :: "('w ext2 \<Rightarrow> u32 \<Rightarrow> u8 list) \<Rightarrow> 'w ext2 \<Rightarrow> u32 \<Rightarrow> bool" where
  "used blk e b \<longleftrightarrow> b < blocks_count e \<and> \<not> meta e b \<and> unat b \<notin> free_set blk e"

abbreviation perb :: "'w ext2 \<Rightarrow> nat" where
  "perb e \<equiv> unat (block_size e) div 4"

definition ptrs :: "('w ext2 \<Rightarrow> u32 \<Rightarrow> u8 list) \<Rightarrow> 'w ext2 \<Rightarrow> u32 \<Rightarrow> u32 list" where
  "ptrs blk e b = bytes_words (blk e b)"

text \<open>Paths of at most \<open>d\<close> indices.\<close>

definition okp :: "nat \<Rightarrow> nat \<Rightarrow> nat list \<Rightarrow> bool" where
  "okp per d \<pi> \<longleftrightarrow> length \<pi> \<le> d \<and> (\<forall>i \<in> set \<pi>. i < per)"

lemma okp_Nil [simp]: "okp per d []"
  by (simp add: okp_def)

lemma okp_Cons [simp]: "okp per (Suc d) (i # \<pi>) \<longleftrightarrow> i < per \<and> okp per d \<pi>"
  by (auto simp: okp_def)

lemma okp_prefix: "okp per d \<pi> \<Longrightarrow> strict_prefix \<rho> \<pi> \<Longrightarrow> okp per d \<rho>"
  by (auto simp: okp_def strict_prefix_def prefix_def)

lemma okp_0 [simp]: "okp per 0 \<pi> \<longleftrightarrow> \<pi> = []"
  by (auto simp: okp_def)

text \<open>The blocks of a tree of depth \<open>d\<close> are in use and different.\<close>

definition tree_ok :: "('w ext2 \<Rightarrow> u32 \<Rightarrow> u8 list) \<Rightarrow> 'w ext2 \<Rightarrow> nat \<Rightarrow> u32 \<Rightarrow> bool" where
  "tree_ok blk e d p \<longleftrightarrow> (\<forall>\<pi>. okp (perb e) d \<pi> \<and> look (ptrs blk e) p \<pi> \<noteq> 0 \<longrightarrow> used blk e (look (ptrs blk e) p \<pi>) \<and>
     (\<forall>\<pi>'. okp (perb e) d \<pi>' \<and> look (ptrs blk e) p \<pi>' = look (ptrs blk e) p \<pi> \<longrightarrow> \<pi>' = \<pi>))"

lemma tree_okD:
  assumes "tree_ok blk e d p" "okp (perb e) d \<pi>" "look (ptrs blk e) p \<pi> \<noteq> 0"
  shows "used blk e (look (ptrs blk e) p \<pi>)" "okp (perb e) d \<pi>' \<Longrightarrow> look (ptrs blk e) p \<pi>' = look (ptrs blk e) p \<pi> \<Longrightarrow> \<pi>' = \<pi>"
  using assms by (auto simp: tree_ok_def)

text \<open>A change of the volume that takes free blocks and writes only those, metadata and the blocks in \<open>M\<close>.\<close>

definition changed :: "('w ext2 \<Rightarrow> u32 \<Rightarrow> u8 list) \<Rightarrow> 'w ext2 \<Rightarrow> 'w ext2 \<Rightarrow> u32 set \<Rightarrow> bool" where
  "changed blk e e' M \<longleftrightarrow> same_layout e e' \<and> free_set blk e' \<subseteq> free_set blk e \<and>
     (\<forall>b < blocks_count e. \<not> meta e b \<and> b \<notin> M \<and> unat b \<notin> free_set blk e - free_set blk e' \<longrightarrow> blk e' b = blk e b)"

lemma changedD:
  assumes "changed blk e e' M"
  shows "same_layout e e'" "free_set blk e' \<subseteq> free_set blk e"
    "b < blocks_count e \<Longrightarrow> \<not> meta e b \<Longrightarrow> b \<notin> M \<Longrightarrow> unat b \<notin> free_set blk e - free_set blk e' \<Longrightarrow> blk e' b = blk e b"
  using assms by (auto simp: changed_def)

lemma same_layout_refl: "same_layout e e"
  by (rule same_layoutI [where gd = "group_desc e" and n = "free_blocks_count e" and d = "e_dirty e" and w = "e_disk e"])
    (simp_all add: same_tables_def)

lemma same_layout_trans: "same_layout e e' \<Longrightarrow> same_layout e' e'' \<Longrightarrow> same_layout e e''"
  unfolding same_layout_def same_tables_def by fastforce

lemma changed_refl: "changed blk e e M"
  by (simp add: changed_def same_layout_refl)

lemma changed_trans:
  assumes a: "changed blk e e' M" and b: "changed blk e' e'' M'"
  shows "changed blk e e'' (M \<union> M')"
proof -
  note A = changedD [OF a] and B = changedD [OF b]
  have "blk e'' x = blk e x"
    if x: "x < blocks_count e" "\<not> meta e x" "x \<notin> M \<union> M'" "unat x \<notin> free_set blk e - free_set blk e''" for x
  proof -
    have "blk e' x = blk e x" by (rule A(3)) (use x B(2) in auto)
    moreover have "blk e'' x = blk e' x"
      by (rule B(3)) (use x A(2) in \<open>auto simp: same_layout_meta [OF A(1)] same_layoutD(6) [OF A(1)]\<close>)
    ultimately show ?thesis by simp
  qed
  then show ?thesis using A B same_layout_trans unfolding changed_def by blast
qed

lemma used_mono: "changed blk e e' M \<Longrightarrow> used blk e b \<Longrightarrow> used blk e' b"
  unfolding used_def using changedD(1,2) [of blk e e' M] same_layout_meta [of e e'] same_layoutD(6) [of e e'] by auto

lemma changed_used: "changed blk e e' M \<Longrightarrow> used blk e b \<Longrightarrow> b \<notin> M \<Longrightarrow> ptrs blk e' b = ptrs blk e b"
  by (auto simp: used_def ptrs_def changedD(3))

lemma free_set_range:
  assumes "layout_ok e" "b \<in> free_set blk e"
  shows "b < unat (blocks_count e)"
proof -
  obtain g i where g: "g < unat (nr_groups e)" "i \<in> gfree blk e g" "b = blockno e g i" using assms(2) by (auto simp: free_set_def)
  then show ?thesis using gfree_less [OF g(2)] by (auto simp: blockno_def gblocks_def)
qed

lemma bytes_words_zero: "bytes_words (replicate (4 * k) 0) = replicate k 0"
  by (induction k) (simp_all add: numeral_eq_Suc)

section \<open>One step along a path\<close>

text \<open>What a walk along \<open>is\<close> does to the tree at a pointer, which is \<open>p\<close> before and \<open>q\<close> after, with result \<open>r\<close>: it
  writes pointer blocks on the way and new blocks only, and the map of paths grows along \<open>is\<close>.\<close>

definition walked :: "('w ext2 \<Rightarrow> u32 \<Rightarrow> u8 list) \<Rightarrow> bool \<Rightarrow> 'w ext2 \<Rightarrow> u32 \<Rightarrow> 'w ext2 \<Rightarrow> u32 \<Rightarrow> nat list \<Rightarrow> u32 \<Rightarrow> bool" where
  "walked blk create e p e' q is r \<longleftrightarrow>
     changed blk e e' ({look (ptrs blk e) p \<rho> |\<rho>. strict_prefix \<rho> is} - {0}) \<and>
     grown (okp (perb e) (length is)) (look (ptrs blk e) p) (look (ptrs blk e') q) is (free_set blk e - free_set blk e') \<and>
     r = look (ptrs blk e') q is \<and>
     (\<not> create \<longrightarrow> r = look (ptrs blk e) p is) \<and>
     (create \<and> r = 0 \<longrightarrow> free_set blk e' = {}) \<and>
     (look (ptrs blk e) p is \<noteq> 0 \<longrightarrow> free_set blk e' = free_set blk e) \<and>
     (look (ptrs blk e) p is = 0 \<and> r \<noteq> 0 \<longrightarrow> ptrs blk e' r = replicate (perb e) 0)"

lemma changed_weaken:
  assumes "changed blk e e' M" "\<And>b. b \<in> M \<Longrightarrow> b \<in> M' \<or> unat b \<in> free_set blk e - free_set blk e'"
  shows "changed blk e e' M'"
  using assms unfolding changed_def by blast

text \<open>Slot \<open>i\<close> of the pointer block \<open>p\<close> has \<open>c\<close> after the step from \<open>e\<close> to \<open>e1\<close>, as before or newly taken.\<close>

definition entered :: "('w ext2 \<Rightarrow> u32 \<Rightarrow> u8 list) \<Rightarrow> 'w ext2 \<Rightarrow> u32 \<Rightarrow> 'w ext2 \<Rightarrow> u32 \<Rightarrow> bool" where
  "entered blk e old e1 c \<longleftrightarrow> c \<noteq> 0 \<and>
     (old = c \<and> free_set blk e1 = free_set blk e \<or>
      old = 0 \<and> unat c \<in> free_set blk e \<and> free_set blk e1 = free_set blk e - {unat c} \<and> ptrs blk e1 c = replicate (perb e) 0 \<and> used blk e1 c)"

lemma entered_look:
  assumes t: "tree_ok blk e (Suc d) p" and p: "p \<noteq> 0" and i: "i < perb e"
    and ch: "changed blk e e1 {p}" and en: "entered blk e (ptrs blk e p ! i) e1 c" and \<pi>: "okp (perb e) d \<pi>"
  shows "look (ptrs blk e1) c \<pi> = (if ptrs blk e p ! i = 0 then (if \<pi> = [] then c else 0) else look (ptrs blk e) p (i # \<pi>))"
proof (cases "ptrs blk e p ! i = 0")
  case True
  with en have z: "ptrs blk e1 c = replicate (perb e) 0" "c \<noteq> 0" by (auto simp: entered_def)
  show ?thesis using True z \<pi> by (cases \<pi>) (auto simp: okp_def)
next
  case False
  with en have c: "ptrs blk e p ! i = c" "c \<noteq> 0" by (auto simp: entered_def)
  have "look (ptrs blk e1) c \<pi> = look (ptrs blk e) c \<pi>"
  proof (rule look_cong)
    fix \<rho> assume \<rho>: "strict_prefix \<rho> \<pi>" "look (ptrs blk e) c \<rho> \<noteq> 0"
    let ?x = "look (ptrs blk e) p (i # \<rho>)"
    have x: "?x = look (ptrs blk e) c \<rho>" using p c by simp
    have ok: "okp (perb e) (Suc d) (i # \<rho>)" using okp_prefix [OF \<pi> \<rho>(1)] i by simp
    have "used blk e ?x" by (rule tree_okD(1) [OF t ok]) (use \<rho> x in auto)
    moreover have "?x \<noteq> p" using tree_okD(2) [OF t ok, of "[]"] \<rho>(2) x by auto
    ultimately show "ptrs blk e1 (look (ptrs blk e) c \<rho>) = ptrs blk e (look (ptrs blk e) c \<rho>)"
      using changed_used [OF ch, of ?x] x by simp
  qed
  then show ?thesis using p c by simp
qed

lemma entered_tree:
  assumes t: "tree_ok blk e (Suc d) p" and p: "p \<noteq> 0" and i: "i < perb e"
    and ch: "changed blk e e1 {p}" and en: "entered blk e (ptrs blk e p ! i) e1 c"
  shows "tree_ok blk e1 d c"
proof -
  note L = entered_look [OF t p i ch en]
  have per: "perb e1 = perb e" by (simp add: same_layoutD(7) [OF changedD(1) [OF ch]])
  show ?thesis
  proof (cases "ptrs blk e p ! i = 0")
    case True
    then have "used blk e1 c" using en by (auto simp: entered_def)
    with True show ?thesis unfolding tree_ok_def per by (auto simp: L split: if_splits)
  next
    case False
    show ?thesis unfolding tree_ok_def per
    proof (intro allI impI conjI; elim conjE)
      fix \<pi> assume a: "okp (perb e) d \<pi>" "look (ptrs blk e1) c \<pi> \<noteq> 0"
      have ok: "okp (perb e) (Suc d) (i # \<pi>)" "look (ptrs blk e) p (i # \<pi>) \<noteq> 0" using a False i by (auto simp: L simp del: look.simps)
      show "used blk e1 (look (ptrs blk e1) c \<pi>)"
        using used_mono [OF ch tree_okD(1) [OF t ok]] False by (simp add: L a(1) del: look.simps)
      fix \<pi>' assume b: "okp (perb e) d \<pi>'" "look (ptrs blk e1) c \<pi>' = look (ptrs blk e1) c \<pi>"
      then show "\<pi>' = \<pi>" using tree_okD(2) [OF t ok, of "i # \<pi>'"] a(1) i False by (auto simp: L simp del: look.simps)
    qed
  qed
qed

text \<open>The blocks that the walk below \<open>c\<close> may write are below \<open>p\<close> or new.\<close>

lemma step_changed:
  assumes t: "tree_ok blk e (Suc (length is)) p" and p: "p \<noteq> 0" and i: "okp (perb e) (Suc (length is)) (i # is)"
    and ch: "changed blk e e1 {p}" and en: "entered blk e (ptrs blk e p ! i) e1 c" and w: "walked blk create e1 c e' c is r"
  shows "changed blk e e' ({look (ptrs blk e) p \<rho> |\<rho>. strict_prefix \<rho> (i # is)} - {0})" "ptrs blk e' p = ptrs blk e1 p"
proof -
  let ?M1 = "{look (ptrs blk e1) c \<rho> |\<rho>. strict_prefix \<rho> is} - {0}"
  have i': "i < perb e" "okp (perb e) (length is) is" using i by simp_all
  note L = entered_look [OF t p i'(1) ch en]
  have w1: "changed blk e1 e' ?M1" using w by (simp add: walked_def)
  have sp: "okp (perb e) (length is) \<rho>" if "strict_prefix \<rho> is" for \<rho>
    by (rule okp_prefix [OF i'(2) that])
  have M1: "\<exists>\<rho>. strict_prefix \<rho> is \<and> (if ptrs blk e p ! i = 0 then b = c else b = look (ptrs blk e) p (i # \<rho>))" if "b \<in> ?M1" for b
    using that sp L by (auto split: if_splits simp del: look.simps)
  have up: "used blk e p" using tree_okD(1) [OF t, of "[]"] p by simp
  have "p \<notin> ?M1"
  proof
    assume "p \<in> ?M1"
    then obtain \<rho> where \<rho>: "strict_prefix \<rho> is" "if ptrs blk e p ! i = 0 then p = c else p = look (ptrs blk e) p (i # \<rho>)" using M1 by blast
    have "i # \<rho> = []" if "p = look (ptrs blk e) p (i # \<rho>)"
      by (rule tree_okD(2) [OF t, of "[]"]) (use that p i' sp [OF \<rho>(1)] in auto)
    moreover have "ptrs blk e p ! i = 0 \<Longrightarrow> p \<noteq> c" using up en by (auto simp: entered_def used_def)
    ultimately show False using \<rho>(2) by (auto split: if_splits)
  qed
  then show "ptrs blk e' p = ptrs blk e1 p" using changed_used [OF w1 used_mono [OF ch up]] by simp
  have sub: "free_set blk e' \<subseteq> free_set blk e1" by (rule changedD(2) [OF w1])
  show "changed blk e e' ({look (ptrs blk e) p \<rho> |\<rho>. strict_prefix \<rho> (i # is)} - {0})"
  proof (rule changed_weaken [OF changed_trans [OF ch w1]])
    fix b assume "b \<in> {p} \<union> ?M1"
    then consider "b = p" | "b \<in> ?M1" by blast
    then show "b \<in> {look (ptrs blk e) p \<rho> |\<rho>. strict_prefix \<rho> (i # is)} - {0} \<or> unat b \<in> free_set blk e - free_set blk e'"
    proof cases
      case 1
      have "p = look (ptrs blk e) p []" "strict_prefix [] (i # is)" by simp_all
      with 1 p show ?thesis by blast
    next
      case 2
      then obtain \<rho> where \<rho>: "strict_prefix \<rho> is" "if ptrs blk e p ! i = 0 then b = c else b = look (ptrs blk e) p (i # \<rho>)" using M1 by blast
      show ?thesis
      proof (cases "ptrs blk e p ! i = 0")
        case True
        then show ?thesis using \<rho>(2) en sub by (auto simp: entered_def)
      next
        case False
        have "strict_prefix (i # \<rho>) (i # is)" using \<rho>(1) by simp
        moreover have "b = look (ptrs blk e) p (i # \<rho>)" "b \<noteq> 0" using False \<rho>(2) 2 by (simp_all del: look.simps)
        ultimately show ?thesis by blast
      qed
    qed
  qed
qed

lemma step_look:
  assumes t: "tree_ok blk e (Suc (length is)) p" and p: "p \<noteq> 0" and i: "okp (perb e) (Suc (length is)) (i # is)"
    and ch: "changed blk e e1 {p}" and en: "entered blk e (ptrs blk e p ! i) e1 c" and w: "walked blk create e1 c e' c is r"
    and up: "ptrs blk e1 p = (ptrs blk e p)[i := c]" and len: "length (ptrs blk e p) = perb e" and \<pi>: "okp (perb e) (length is) \<pi>" "j < perb e"
  shows "look (ptrs blk e') p (j # \<pi>) = (if j = i then look (ptrs blk e') c \<pi> else look (ptrs blk e) p (j # \<pi>))"
proof (cases "j = i")
  case True
  then show ?thesis using p up len \<pi>(2) step_changed(2) [OF t p i ch en w] by simp
next
  case False
  note C = step_changed [OF t p i ch en w]
  have "look (ptrs blk e') (ptrs blk e p ! j) \<pi> = look (ptrs blk e) (ptrs blk e p ! j) \<pi>"
  proof (rule look_cong)
    fix \<rho> assume \<rho>: "strict_prefix \<rho> \<pi>" "look (ptrs blk e) (ptrs blk e p ! j) \<rho> \<noteq> 0"
    let ?x = "look (ptrs blk e) p (j # \<rho>)"
    have x: "?x = look (ptrs blk e) (ptrs blk e p ! j) \<rho>" using p by simp
    have ok: "okp (perb e) (Suc (length is)) (j # \<rho>)" using okp_prefix [OF \<pi>(1) \<rho>(1)] \<pi>(2) by simp
    have "used blk e ?x" by (rule tree_okD(1) [OF t ok]) (use \<rho> x in auto)
    moreover have "?x \<noteq> look (ptrs blk e) p \<sigma>" if \<sigma>: "strict_prefix \<sigma> (i # is)" for \<sigma>
    proof
      assume eq: "?x = look (ptrs blk e) p \<sigma>"
      have "okp (perb e) (Suc (length is)) \<sigma>" by (rule okp_prefix [OF i \<sigma>])
      moreover have "?x \<noteq> 0" using \<rho>(2) x by simp
      ultimately have "\<sigma> = j # \<rho>" using tree_okD(2) [OF t ok _ _ eq [symmetric]] by blast
      then show False using \<sigma> False by simp
    qed
    then have "?x \<notin> {look (ptrs blk e) p \<rho> |\<rho>. strict_prefix \<rho> (i # is)} - {0}" by blast
    ultimately show "ptrs blk e' (look (ptrs blk e) (ptrs blk e p ! j) \<rho>) = ptrs blk e (look (ptrs blk e) (ptrs blk e p ! j) \<rho>)"
      using changed_used [OF C(1), of ?x] x by simp
  qed
  then show ?thesis using False p up C(2) by simp
qed

lemma walked_step:
  assumes t: "tree_ok blk e (Suc (length is)) p" and p: "p \<noteq> 0" and i: "okp (perb e) (Suc (length is)) (i # is)"
    and ch: "changed blk e e1 {p}" and en: "entered blk e (ptrs blk e p ! i) e1 c" and w: "walked blk create e1 c e' c is r"
    and up: "ptrs blk e1 p = (ptrs blk e p)[i := c]" and len: "length (ptrs blk e p) = perb e" and nn: "create \<or> is \<noteq> []"
  shows "walked blk create e p e' p (i # is) r"
proof -
  have i': "i < perb e" "okp (perb e) (length is) is" using i by simp_all
  note C = step_changed [OF t p i ch en w] and K = step_look [OF t p i ch en w up len] and L = entered_look [OF t p i'(1) ch en]
  have per: "perb e1 = perb e" by (simp add: same_layoutD(7) [OF changedD(1) [OF ch]])
  let ?f = "look (ptrs blk e) p" and ?f' = "look (ptrs blk e') p" and ?g = "look (ptrs blk e1) c" and ?g' = "look (ptrs blk e') c"
  let ?ok = "okp (perb e) (length is)" and ?N = "free_set blk e - free_set blk e'"
  have W: "grown ?ok ?g ?g' is (free_set blk e1 - free_set blk e')" "r = ?g' is" "\<not> create \<longrightarrow> r = ?g is" "create \<and> r = 0 \<longrightarrow> free_set blk e' = {}"
    "?g is \<noteq> 0 \<longrightarrow> free_set blk e' = free_set blk e1" "?g is = 0 \<and> r \<noteq> 0 \<longrightarrow> ptrs blk e' r = replicate (perb e) 0"
    using w unfolding walked_def per by blast+
  note G = grownD [OF W(1)]
  have sub: "free_set blk e' \<subseteq> free_set blk e1" "free_set blk e1 \<subseteq> free_set blk e"
    using w changedD(2) [OF ch] by (auto simp: walked_def dest: changedD(2))
  have fi: "?f (i # \<pi>) = (if ptrs blk e p ! i = 0 then 0 else ?g \<pi>)" if "?ok \<pi>" for \<pi> using L [OF that] p by auto
  have fi': "?f' (i # \<pi>) = ?g' \<pi>" if "?ok \<pi>" for \<pi> using K [OF that i'(1)] by (simp del: look.simps)
  have fj: "?f' (j # \<pi>) = ?f (j # \<pi>)" if "?ok \<pi>" "j < perb e" "j \<noteq> i" for j \<pi> using K [OF that(1,2)] that(3) by (simp del: look.simps)
  have fresh: "?g [] = c" "?g' [] = c" "c \<noteq> 0" using en by (simp_all add: entered_def)
  have newc: "unat c \<in> ?N" "unat c \<notin> free_set blk e1" "?ok \<pi> \<Longrightarrow> \<pi> \<noteq> [] \<Longrightarrow> ?g \<pi> = 0" if "ptrs blk e p ! i = 0" for \<pi>
    using en that sub(1) L by (auto simp: entered_def)
  have new: "unat (?f' (i # \<pi>)) \<in> ?N" if "?ok \<pi>" "?f (i # \<pi>) = 0" "?f' (i # \<pi>) \<noteq> 0" for \<pi>
  proof (cases "ptrs blk e p ! i = 0 \<and> \<pi> = []")
    case True then show ?thesis using newc(1) fi' [of "[]"] fresh by (simp del: look.simps) 
  next
    case False
    then have "?g \<pi> = 0" using newc(3) that fi [OF that(1)] by (auto simp del: look.simps split: if_splits)
    then show ?thesis using G(2) [OF that(1)] that fi' [OF that(1)] sub by (auto simp del: look.simps)
  qed
  have keep: "?f' (i # \<pi>) = ?f (i # \<pi>)" if "?ok \<pi>" "\<not> prefix \<pi> is \<or> ?f (i # \<pi>) \<noteq> 0" for \<pi>
  proof (cases "ptrs blk e p ! i = 0")
    case True
    then have "?f (i # \<pi>) = 0" using fi that(1) by (simp del: look.simps)
    then have "\<not> prefix \<pi> is" "\<pi> \<noteq> []" using that(2) by auto
    then show ?thesis using True newc(3) G(1) [OF that(1)] that(1) fi fi' by (simp del: look.simps)
  next
    case False
    then show ?thesis using G(1) [OF that(1)] that fi fi' by (auto simp del: look.simps)
  qed
  have inj: "\<pi> = \<sigma>" if "?ok \<pi>" "?ok \<sigma>" "?f (i # \<pi>) = 0" "?f (i # \<sigma>) = 0" "?f' (i # \<pi>) \<noteq> 0" "?f' (i # \<pi>) = ?f' (i # \<sigma>)" for \<pi> \<sigma>
  proof (cases "ptrs blk e p ! i = 0")
    case True
    have ne: "?g' \<tau> \<noteq> c" if "?ok \<tau>" "\<tau> \<noteq> []" for \<tau>
      using G(2) [OF that(1)] newc(2) [OF True] newc(3) [OF True, of \<tau>] that fresh(3) by auto
    show ?thesis
      using that True ne [of \<pi>] ne [of \<sigma>] newc(3) G(3) [OF that(1), of \<sigma>] fi' fresh
      by (cases "\<pi> = []"; cases "\<sigma> = []") (auto simp del: look.simps)
  next
    case False
    then show ?thesis using that fi fi' G(3) [OF that(1), of \<sigma>] by (auto simp del: look.simps)
  qed
  have shape: "\<exists>\<pi>'. \<pi> = i # \<pi>' \<and> ?ok \<pi>'" if "okp (perb e) (Suc (length is)) \<pi>" "?f \<pi> = 0" "?f' \<pi> \<noteq> 0" for \<pi>
  proof (cases \<pi>)
    case (Cons j \<pi>')
    then show ?thesis using that fj [of \<pi>' j] by (cases "j = i") (auto simp del: look.simps)
  qed (use that p in simp)
  have "grown (okp (perb e) (Suc (length is))) ?f ?f' (i # is) ?N"
    unfolding grown_def
  proof (intro conjI allI impI; (elim conjE)?)
    fix \<pi> assume ok: "okp (perb e) (Suc (length is)) \<pi>"
    { assume "\<not> prefix \<pi> (i # is) \<or> ?f \<pi> \<noteq> 0"
      with ok p keep fj show "?f' \<pi> = ?f \<pi>" by (cases \<pi>) (auto simp del: look.simps(2)) }
    { assume "?f \<pi> = 0" "?f' \<pi> \<noteq> 0"
      with shape [OF ok] new show "unat (?f' \<pi>) \<in> ?N" by metis }
    fix \<sigma> assume "okp (perb e) (Suc (length is)) \<sigma>" "?f \<pi> = 0" "?f \<sigma> = 0" "?f' \<pi> \<noteq> 0" "?f' \<pi> = ?f' \<sigma>"
    with shape [OF ok] shape [of \<sigma>] inj show "\<pi> = \<sigma>" by metis
  qed
  moreover have "r = ?f' (i # is)" using fi' [OF i'(2)] W(2) by simp
  moreover have "\<not> create \<longrightarrow> r = ?f (i # is)" using W(3) fi [OF i'(2)] newc(3) nn i'(2) by (auto simp del: look.simps)
  moreover have "?f (i # is) \<noteq> 0 \<longrightarrow> free_set blk e' = free_set blk e"
    using W(5) fi [OF i'(2)] en by (auto simp: entered_def simp del: look.simps split: if_splits)
  moreover have "ptrs blk e' r = replicate (perb e) 0" if z: "?f (i # is) = 0" "r \<noteq> 0"
  proof (cases "is = []")
    case True
    have "changed blk e1 e' {}" using w True by (simp add: walked_def)
    moreover have "ptrs blk e p ! i = 0" using fi [OF i'(2)] z(1) True fresh by (auto simp del: look.simps split: if_splits)
    then have "ptrs blk e1 c = replicate (perb e) 0" "used blk e1 c" using en by (auto simp: entered_def)
    ultimately show ?thesis using changed_used [of blk e1 e' "{}" c] W(2) True fresh(2) by simp
  next
    case False
    have "?g is = 0" using fi [OF i'(2)] z(1) newc(3) [OF _ i'(2) False] by (auto simp del: look.simps split: if_splits)
    then show ?thesis using W(6) z(2) by simp
  qed
  ultimately show ?thesis using C(1) W(4) by (simp add: walked_def del: look.simps)
qed

context block_store
begin

text \<open>Writing a block that holds no metadata.\<close>

lemma vol_ok_same:
  assumes v: "vol_ok vinv blk e" and v': "vinv e'" and sl: "same_layout e e'" and n: "free_blocks_count e' = free_blocks_count e"
    and d: "\<And>g. bg_free_blocks_count (group_desc e' g) = bg_free_blocks_count (group_desc e g)"
    and m: "\<And>g. g < unat (nr_groups e) \<Longrightarrow> blk e' (bitmap_at e g) = blk e (bitmap_at e g)"
  shows "vol_ok vinv blk e'" "free_set blk e' = free_set blk e"
proof -
  note V = vol_okD [OF v] and S = same_layoutD [OF sl]
  have gf: "gfree blk e' g = gfree blk e g" if "g < unat (nr_groups e)" for g using m [OF that] by (simp add: gfree_def bmap_of_def S)
  show fs: "free_set blk e' = free_set blk e" using gf S by (auto simp: free_set_def)
  have "counts_ok blk e'" using V(3) gf by (simp add: counts_ok_def S n d)
  then show "vol_ok vinv blk e'" using V v' S(8,11) fs same_layout_meta [OF sl] by (simp add: vol_ok_def)
qed

lemma put_ok:
  assumes v: "vol_ok vinv blk e" and b: "b < blocks_count e" "\<not> meta e b" and len: "length buf = unat (block_size e)"
  obtains e' where "ext2_write_block devs b buf e = (Inr (), e')" "vol_ok vinv blk e'" "changed blk e e' {b}"
    "free_set blk e' = free_set blk e" "blk e' b = buf" "group_desc e' = group_desc e" "free_inodes_count e' = free_inodes_count e"
proof -
  note V = vol_okD [OF v]
  from write_block [OF V(1) b(1) len] obtain w where w: "ext2_write_block devs b buf e = (Inr (), e\<lparr>e_disk := w, e_dirty := True\<rparr>)"
    "vinv (e\<lparr>e_disk := w, e_dirty := True\<rparr>)"
    "\<forall>b' < blocks_count e. blk (e\<lparr>e_disk := w, e_dirty := True\<rparr>) b' = (if b' = b then buf else blk e b')" by blast
  let ?e = "e\<lparr>e_disk := w, e_dirty := True\<rparr>"
  have sl: "same_layout e ?e"
    by (rule same_layoutI [where gd = "group_desc e" and n = "free_blocks_count e" and d = True and w = w]) (simp_all add: same_tables_def)
  have "blk ?e (bitmap_at e g) = blk e (bitmap_at e g)" if "g < unat (nr_groups e)" for g
    using w(3) layout_okD(13) [OF V(2) that] b(2) that by (auto simp: meta_def)
  note vs = vol_ok_same [OF v w(2) sl _ _ this]
  have "changed blk e ?e {b}" using sl vs(2) w(3) by (simp add: changed_def)
  then show thesis using that w vs b by simp
qed

lemma new_ok:
  assumes v: "vol_ok vinv blk e"
  shows "if free_set blk e = {} then ext2_new_block devs (\<lambda>_. True) e n = (Inl ENOSPC, e, n)
    else \<exists>b e' n'. ext2_new_block devs (\<lambda>_. True) e n = (Inr b, e', n') \<and> vol_ok vinv blk e' \<and> changed blk e e' {} \<and> unat b \<in> free_set blk e \<and>
      free_set blk e' = free_set blk e - {unat b} \<and> ptrs blk e' b = replicate (perb e) 0 \<and> b \<noteq> 0 \<and> used blk e' b \<and>
      n' = n\<lparr>n_nr_block := n_nr_block n + block_size e div 512,
        n_raw := (n_raw n)\<lparr>raw_blocks := raw_blocks (n_raw n) + block_size e div 512\<rparr>, n_dirty := True\<rparr>"
proof (cases "free_set blk e = {}")
  case True
  then show ?thesis using alloc_ok [of e 0] vol_okD [OF v] by (simp add: ext2_new_block_def)
next
  case False
  note V = vol_okD [OF v]
  obtain k e1 where a: "ext2_alloc_block devs True True 0 e = (Inr (of_nat k), e1)" "k \<in> free_set blk e" "vinv e1" "layout_ok e1"
    "counts_ok blk e1" "free_set blk e1 = free_set blk e - {k}" "kept blk e e1" using alloc_ok [OF V(1,2,3,4), of 0] False by auto
  define b :: u32 where "b = of_nat k"
  have sl: "same_layout e e1" by (rule keptD(1) [OF a(7)])
  note S = same_layoutD [OF sl] and m = same_layout_meta [OF sl]
  have k: "k < unat (blocks_count e)" by (rule free_set_range [OF V(2) a(2)])
  then have b: "unat b = k" by (simp add: b_def unat_of_nat_small less_trans [OF _ unat_less_2_32])
  have bv: "b < blocks_count e1" "\<not> meta e1 b" "b \<noteq> 0" using k b a(2) V(5,6) S m by (auto simp: word_less_nat_alt)
  have v1: "vol_ok vinv blk e1" using a V S(8) m by (auto simp: vol_ok_def)
  obtain e2 where e2: "ext2_write_block devs b (replicate (unat (block_size e1)) 0) e1 = (Inr (), e2)" "vol_ok vinv blk e2" "changed blk e1 e2 {b}"
    "free_set blk e2 = free_set blk e1" "blk e2 b = replicate (unat (block_size e1)) 0"
    by (rule put_ok [OF v1 bv(1,2), where buf = "replicate (unat (block_size e1)) 0"]) simp_all
  have c1: "changed blk e e1 {}" using a(6) keptD [OF a(7)] by (auto simp: changed_def)
  have "changed blk e e2 {b}" using changed_trans [OF c1 e2(3)] by simp
  then have "changed blk e e2 {}" using e2(4) a(2,6) b by (auto simp: changed_def)
  moreover have "unat (block_size e) = 4 * perb e" using layout_okD(2) [OF V(2)] by presburger
  then have "ptrs blk e2 b = replicate (perb e) 0" using e2(5) bytes_words_zero [of "perb e"] by (simp add: ptrs_def S)
  moreover have "used blk e2 b"
    using bv a(6) e2(4) b changedD(1) [OF e2(3)] by (auto simp: used_def same_layout_meta same_layoutD)
  moreover have "ext2_new_block devs (\<lambda>_. True) e n = (Inr b, e2, n\<lparr>n_nr_block := n_nr_block n + block_size e div 512,
        n_raw := (n_raw n)\<lparr>raw_blocks := raw_blocks (n_raw n) + block_size e div 512\<rparr>, n_dirty := True\<rparr>)"
    using a(1) e2(1) S same_layoutD(7) [OF changedD(1) [OF e2(3)]] by (simp add: ext2_new_block_def b_def Let_def)
  ultimately show ?thesis using False e2 a bv b by auto
qed

lemma load_ok: "vol_ok vinv blk e \<Longrightarrow> used blk e b \<Longrightarrow> ext2_load_ptrs devs True b e = Inr (ptrs blk e b)"
  by (simp add: ext2_load_ptrs_def ptrs_def used_def vol_ok_def read_block)

lemma length_ptrs: "vol_ok vinv blk e \<Longrightarrow> used blk e b \<Longrightarrow> length (ptrs blk e b) = perb e"
  by (simp add: ptrs_def used_def vol_ok_def block_length)

lemma store_ok:
  assumes v: "vol_ok vinv blk e" and u: "used blk e b" and len: "length xs = perb e"
  obtains e' where "ext2_store_ptrs devs b xs e = (Inr (), e')" "vol_ok vinv blk e'" "changed blk e e' {b}"
    "free_set blk e' = free_set blk e" "ptrs blk e' b = xs"
proof -
  have "unat (block_size e) = 4 * perb e" using layout_okD(2) [OF vol_okD(2) [OF v]] by presburger
  then have "length (words_bytes xs) = unat (block_size e)" using len by simp
  then obtain e' where "ext2_write_block devs b (words_bytes xs) e = (Inr (), e')" "vol_ok vinv blk e'" "changed blk e e' {b}"
    "free_set blk e' = free_set blk e" "blk e' b = words_bytes xs"
    by (rule_tac put_ok [OF v]) (use u in \<open>auto simp: used_def\<close>)
  then show thesis using that by (simp add: ext2_store_ptrs_def ptrs_def)
qed

lemma walk_ok:
  assumes "vol_ok vinv blk e" "p \<noteq> 0" "tree_ok blk e (length is) p" "is \<noteq> []" "okp (perb e) (length is) is"
  shows "\<exists>r e' n'. bmap_walk devs (\<lambda>_. True) create p is e n = (r, e', n') \<and> vol_ok vinv blk e' \<and> walked blk create e p e' p is r \<and>
    raw_block (n_raw n') = raw_block (n_raw n) \<and> (look (ptrs blk e) p is \<noteq> 0 \<longrightarrow> n' = n)"
  using assms
proof (induction "is" arbitrary: p e n rule: induct_list012)
  case 1 then show ?case by simp
next
  case (2 i)
  note v = 2(1) and p = 2(2) and t = 2(3)
  have u: "used blk e p" using tree_okD(1) [OF t, of "[]"] p by simp
  note ld = load_ok [OF v u] and len = length_ptrs [OF v u]
  have i: "i < perb e" using 2(5) by simp
  let ?c = "ptrs blk e p ! i"
  have refl: "walked blk create e p e p [i] ?c" if "?c = 0 \<longrightarrow> \<not> create \<or> free_set blk e = {}"
    using that p by (auto simp: walked_def changed_refl grown_refl)
  show ?case
  proof (cases "?c = 0 \<and> create")
    case False
    then show ?thesis using v refl p ld by (auto simp: Let_def)
  next
    case True
    show ?thesis
    proof (cases "free_set blk e = {}")
      case True
      then show ?thesis using \<open>?c = 0 \<and> create\<close> v refl p ld new_ok [OF v, of n] by (auto simp: Let_def ext2_ensure_data_def)
    next
      case False
      with new_ok [OF v, of n] obtain b e1 n1 where b: "ext2_new_block devs (\<lambda>_. True) e n = (Inr b, e1, n1)" "vol_ok vinv blk e1" "changed blk e e1 {}"
        "unat b \<in> free_set blk e" "free_set blk e1 = free_set blk e - {unat b}" "ptrs blk e1 b = replicate (perb e) 0" "b \<noteq> 0" "used blk e1 b"
        "raw_block (n_raw n1) = raw_block (n_raw n)" by auto
      have per: "perb e1 = perb e" by (simp add: same_layoutD(7) [OF changedD(1) [OF b(3)]])
      have u1: "used blk e1 p" by (rule used_mono [OF b(3) u])
      have pb: "p \<noteq> b" using b(4) u by (auto simp: used_def)
      obtain e2 where e2: "ext2_store_ptrs devs p ((ptrs blk e p)[i := b]) e1 = (Inr (), e2)" "vol_ok vinv blk e2" "changed blk e1 e2 {p}"
        "free_set blk e2 = free_set blk e1" "ptrs blk e2 p = (ptrs blk e p)[i := b]"
        by (rule store_ok [OF b(2) u1, where xs = "(ptrs blk e p)[i := b]"]) (simp_all add: len per)
      have ch: "changed blk e e2 {p}" using changed_trans [OF b(3) e2(3)] by simp
      have en: "entered blk e ?c e2 b"
        using True b e2(4) changed_used [OF e2(3) b(8)] used_mono [OF e2(3) b(8)] pb by (auto simp: entered_def)
      have w: "walked blk create e2 b e2 b [] b" using b(7) by (simp add: walked_def changed_refl grown_refl)
      have "walked blk create e p e2 p [i] b"
        by (rule walked_step [OF _ p _ ch en w e2(5) len]) (use t i True in auto)
      then show ?thesis using True ld b(1,9) e2(1,2) p by (auto simp: Let_def ext2_ensure_data_def)
    qed
  qed
next
  case (3 i j "is")
  note v = 3(3) and p = 3(4) and t = 3(5)
  have u: "used blk e p" using tree_okD(1) [OF t, of "[]"] p by simp
  note ld = load_ok [OF v u] and len = length_ptrs [OF v u]
  have ok: "okp (perb e) (Suc (length (j # is))) (i # j # is)" "i < perb e" using 3(7) by simp_all
  have t': "tree_ok blk e (Suc (length (j # is))) p" using t by simp
  let ?c = "ptrs blk e p ! i"
  show ?case
  proof (cases "?c = 0 \<and> free_set blk e = {}")
    case True
    have "walked blk create e p e p (i # j # is) 0"
      using True p by (auto simp: walked_def changed_refl grown_refl)
    then show ?thesis using True v p ld new_ok [OF v, of n] by (auto simp: Let_def ext2_ensure_indirect_def)
  next
    case False
    obtain c e1 n1 where c: "ext2_ensure_indirect devs (\<lambda>_. True) ?c e n = (Inr c, e1, n1)" "vol_ok vinv blk e1" "changed blk e e1 {}"
      "entered blk e ?c e1 c" "c \<noteq> p" "used blk e1 c" "raw_block (n_raw n1) = raw_block (n_raw n)" "?c \<noteq> 0 \<longrightarrow> n1 = n"
    proof (cases "?c = 0")
      case True
      with False have "free_set blk e \<noteq> {}" by simp
      with new_ok [OF v, of n] obtain b e1 n1 where b: "ext2_new_block devs (\<lambda>_. True) e n = (Inr b, e1, n1)" "vol_ok vinv blk e1" "changed blk e e1 {}"
        "unat b \<in> free_set blk e" "free_set blk e1 = free_set blk e - {unat b}" "ptrs blk e1 b = replicate (perb e) 0" "b \<noteq> 0" "used blk e1 b"
        "raw_block (n_raw n1) = raw_block (n_raw n)" by auto
      moreover have "b \<noteq> p" using b(4) u by (auto simp: used_def)
      ultimately show thesis using that [of b e1 n1] True by (auto simp: ext2_ensure_indirect_def entered_def)
    next
      case False
      have okc: "okp (perb e) (length (i # j # is)) [i]" "look (ptrs blk e) p [i] = ?c" using ok(2) p by (simp_all add: okp_def)
      have "used blk e ?c" using tree_okD(1) [OF t okc(1)] False okc(2) by simp
      moreover have "?c \<noteq> p" using tree_okD(2) [OF t okc(1), of "[]"] False okc(2) by auto
      ultimately show thesis using that [of ?c e n] False v changed_refl by (auto simp: ext2_ensure_indirect_def entered_def)
    qed
    have per: "perb e1 = perb e" by (simp add: same_layoutD(7) [OF changedD(1) [OF c(3)]])
    have u1: "used blk e1 p" by (rule used_mono [OF c(3) u])
    obtain e2 where e2: "ext2_store_ptrs devs p ((ptrs blk e p)[i := c]) e1 = (Inr (), e2)" "vol_ok vinv blk e2" "changed blk e1 e2 {p}"
      "free_set blk e2 = free_set blk e1" "ptrs blk e2 p = (ptrs blk e p)[i := c]"
      by (rule store_ok [OF c(2) u1, where xs = "(ptrs blk e p)[i := c]"]) (simp_all add: len per)
    have ch: "changed blk e e2 {p}" using changed_trans [OF c(3) e2(3)] by simp
    have per2: "perb e2 = perb e" by (simp add: same_layoutD(7) [OF changedD(1) [OF ch]])
    have en: "entered blk e ?c e2 c"
      using c(4,5) e2(4) changed_used [OF e2(3) c(6)] used_mono [OF e2(3) c(6)] by (auto simp: entered_def)
    have tc: "tree_ok blk e2 (length (j # is)) c" by (rule entered_tree [OF t' p ok(2) ch en])
    have "c \<noteq> 0" using en by (simp add: entered_def)
    then obtain r e' n' where r: "bmap_walk devs (\<lambda>_. True) create c (j # is) e2 n1 = (r, e', n')" "vol_ok vinv blk e'"
      "walked blk create e2 c e' c (j # is) r" "raw_block (n_raw n') = raw_block (n_raw n1)" "look (ptrs blk e2) c (j # is) \<noteq> 0 \<longrightarrow> n' = n1"
      using 3(2) [OF e2(2) _ tc] ok per2 by fastforce
    have "walked blk create e p e' p (i # j # is) r"
      by (rule walked_step [OF t' p ok(1) ch en r(3) e2(5) len]) simp
    moreover have "look (ptrs blk e) p (i # j # is) \<noteq> 0 \<longrightarrow> n' = n"
      using r(5) c(8) entered_look [OF t' p ok(2) ch en, of "j # is"] ok p by auto
    ultimately show ?thesis using ld c(1,7) e2(1) r(1,2,4) by auto
  qed
qed

end

section \<open>The blocks of a file\<close>

text \<open>Entering a slot that had no block.\<close>

lemma walked_enter:
  assumes en: "unat c \<in> free_set blk e" "free_set blk e1 = free_set blk e - {unat c}" "ptrs blk e1 c = replicate (perb e) 0" "c \<noteq> 0"
    and ch: "changed blk e e1 {}" and w: "walked blk create e1 c e' c is r" and nn: "is \<noteq> []" and ok: "okp (perb e) (length is) is"
  shows "walked blk create e 0 e' c is r"
proof -
  have per: "perb e1 = perb e" by (simp add: same_layoutD(7) [OF changedD(1) [OF ch]])
  let ?ok = "okp (perb e) (length is)" and ?g = "look (ptrs blk e1) c" and ?g' = "look (ptrs blk e') c"
  have W: "changed blk e1 e' ({?g \<rho> |\<rho>. strict_prefix \<rho> is} - {0})" "grown ?ok ?g ?g' is (free_set blk e1 - free_set blk e')" "r = ?g' is"
    "\<not> create \<longrightarrow> r = ?g is" "create \<and> r = 0 \<longrightarrow> free_set blk e' = {}" "?g is = 0 \<and> r \<noteq> 0 \<longrightarrow> ptrs blk e' r = replicate (perb e) 0"
    using w unfolding walked_def per by blast+
  note G = grownD [OF W(2)]
  have g: "?g \<pi> = (if \<pi> = [] then c else 0)" if "?ok \<pi>" for \<pi> using that en(3,4) by (cases \<pi>) (auto simp: okp_def)
  have sub: "free_set blk e' \<subseteq> free_set blk e1" by (rule changedD(2) [OF W(1)])
  have c: "?g' [] = c" "unat c \<in> free_set blk e - free_set blk e'" using en sub by auto
  have new: "unat (?g' \<pi>) \<in> free_set blk e1 - free_set blk e'" if "?ok \<pi>" "\<pi> \<noteq> []" "?g' \<pi> \<noteq> 0" for \<pi>
    using G(2) [OF that(1)] g [OF that(1)] that by auto
  have nc: "?g' \<pi> \<noteq> c" if "?ok \<pi>" "\<pi> \<noteq> []" for \<pi>
  proof
    assume "?g' \<pi> = c"
    then have "unat c \<in> free_set blk e1" using new [OF that] en(4) by simp
    then show False using en(2) by simp
  qed
  have "grown ?ok (look (ptrs blk e) 0) ?g' is (free_set blk e - free_set blk e')"
    unfolding grown_def
  proof (intro conjI allI impI; (elim conjE)?)
    fix \<pi> assume \<pi>: "?ok \<pi>"
    show "?g' \<pi> = look (ptrs blk e) 0 \<pi>" if "\<not> prefix \<pi> is \<or> look (ptrs blk e) 0 \<pi> \<noteq> 0"
      using G(1) [OF \<pi>] g [OF \<pi>] that by auto
    show "unat (?g' \<pi>) \<in> free_set blk e - free_set blk e'" if "?g' \<pi> \<noteq> 0"
      using new [OF \<pi>] c that en(2) by (cases "\<pi> = []") auto
    show "\<pi> = \<sigma>" if "?ok \<sigma>" "?g' \<pi> \<noteq> 0" "?g' \<pi> = ?g' \<sigma>" for \<sigma>
      using that nc [OF \<pi>] nc [of \<sigma>] g [OF \<pi>] g [of \<sigma>] G(3) [OF \<pi>, of \<sigma>] c(1) by (cases "\<pi> = []"; cases "\<sigma> = []") auto
  qed
  moreover have "changed blk e e' ({look (ptrs blk e) 0 \<rho> |\<rho>. strict_prefix \<rho> is} - {0})"
  proof (rule changed_weaken [OF changed_trans [OF ch W(1)]])
    fix b assume "b \<in> {} \<union> ({?g \<rho> |\<rho>. strict_prefix \<rho> is} - {0})"
    then have "b = c" using g okp_prefix [OF ok] by (auto split: if_splits)
    with c(2) show "b \<in> {look (ptrs blk e) 0 \<rho> |\<rho>. strict_prefix \<rho> is} - {0} \<or> unat b \<in> free_set blk e - free_set blk e'" by simp
  qed
  moreover have "\<not> create \<longrightarrow> r = 0" using W(4) g [OF ok] nn by auto
  moreover have "r \<noteq> 0 \<longrightarrow> ptrs blk e' r = replicate (perb e) 0" using W(6) g [OF ok] nn by simp
  ultimately show ?thesis using W(3,5) by (simp add: walked_def)
qed

text \<open>Paths from the inode: a slot and indices below it.\<close>

definition okf :: "nat \<Rightarrow> nat list \<Rightarrow> bool" where
  "okf per \<pi> \<longleftrightarrow> (case \<pi> of [] \<Rightarrow> False | k # \<rho> \<Rightarrow> k < 15 \<and> okp per (k - 11) \<rho>)"

definition flook :: "('w ext2 \<Rightarrow> u32 \<Rightarrow> u8 list) \<Rightarrow> 'w ext2 \<Rightarrow> ext2_node \<Rightarrow> nat list \<Rightarrow> u32" where
  "flook blk e n \<pi> = (case \<pi> of [] \<Rightarrow> 0 | k # \<rho> \<Rightarrow> look (ptrs blk e) (raw_block (n_raw n) ! k) \<rho>)"

lemma okf_simps [simp]: "\<not> okf per []" "okf per (k # \<rho>) \<longleftrightarrow> k < 15 \<and> okp per (k - 11) \<rho>"
  by (simp_all add: okf_def)

lemma flook_simps [simp]: "flook blk e n [] = 0" "flook blk e n (k # \<rho>) = look (ptrs blk e) (raw_block (n_raw n) ! k) \<rho>"
  by (simp_all add: flook_def)

text \<open>All blocks of the file are in use and different.\<close>

definition fmap_ok :: "('w ext2 \<Rightarrow> u32 \<Rightarrow> u8 list) \<Rightarrow> 'w ext2 \<Rightarrow> ext2_node \<Rightarrow> bool" where
  "fmap_ok blk e n \<longleftrightarrow> raw_ok (n_raw n) \<and> (\<forall>\<pi>. okf (perb e) \<pi> \<and> flook blk e n \<pi> \<noteq> 0 \<longrightarrow> used blk e (flook blk e n \<pi>) \<and>
     (\<forall>\<pi>'. okf (perb e) \<pi>' \<and> flook blk e n \<pi>' = flook blk e n \<pi> \<longrightarrow> \<pi>' = \<pi>))"

lemma fmap_okD:
  assumes "fmap_ok blk e n"
  shows "raw_ok (n_raw n)" "okf (perb e) \<pi> \<Longrightarrow> flook blk e n \<pi> \<noteq> 0 \<Longrightarrow> used blk e (flook blk e n \<pi>)"
    "okf (perb e) \<pi> \<Longrightarrow> flook blk e n \<pi> \<noteq> 0 \<Longrightarrow> okf (perb e) \<pi>' \<Longrightarrow> flook blk e n \<pi>' = flook blk e n \<pi> \<Longrightarrow> \<pi>' = \<pi>"
  using assms by (auto simp: fmap_ok_def)

lemma file_tree: "fmap_ok blk e n \<Longrightarrow> k < 15 \<Longrightarrow> tree_ok blk e (k - 11) (raw_block (n_raw n) ! k)"
  unfolding tree_ok_def using fmap_okD(2) [of blk e n "k # \<pi>" for \<pi>] fmap_okD(3) [of blk e n "k # \<pi>" "k # \<pi>'" for \<pi> \<pi>'] by auto

text \<open>A grown map of paths is the map of a file again.\<close>

lemma file_grown:
  assumes f: "fmap_ok blk e n" and v: "vol_ok vinv blk e" and r: "raw_ok (n_raw n')" and ch: "changed blk e e' M"
    and g: "grown (okf (perb e)) (flook blk e n) (flook blk e' n') is (free_set blk e - free_set blk e')"
  shows "fmap_ok blk e' n'"
proof -
  note V = vol_okD [OF v] and F = fmap_okD [OF f] and G = grownD [OF g] and S = same_layoutD [OF changedD(1) [OF ch]]
  have per: "perb e' = perb e" by (simp add: S)
  have new: "used blk e' b" if "unat b \<in> free_set blk e - free_set blk e'" for b
    using that V(6) [of b] free_set_range [OF V(2), of "unat b"] same_layout_meta [OF changedD(1) [OF ch]]
    by (auto simp: used_def S word_less_nat_alt)
  have old: "flook blk e' n' \<pi> = flook blk e n \<pi>" if "okf (perb e) \<pi>" "flook blk e n \<pi> \<noteq> 0" for \<pi> using G(1) [OF that(1)] that(2) by blast
  have nu: "\<not> used blk e b" if "unat b \<in> free_set blk e - free_set blk e'" for b using that by (simp add: used_def)
  show ?thesis unfolding fmap_ok_def per
  proof (intro conjI allI impI r; elim conjE)
    fix \<pi> assume \<pi>: "okf (perb e) \<pi>" "flook blk e' n' \<pi> \<noteq> 0"
    show "used blk e' (flook blk e' n' \<pi>)"
    proof (cases "flook blk e n \<pi> = 0")
      case True
      then show ?thesis using new G(2) [OF \<pi>(1)] \<pi>(2) by blast
    next
      case False
      then show ?thesis using old [OF \<pi>(1) False] used_mono [OF ch F(2) [OF \<pi>(1) False]] by simp
    qed
    fix \<sigma> assume \<sigma>: "okf (perb e) \<sigma>" "flook blk e' n' \<sigma> = flook blk e' n' \<pi>"
    consider "flook blk e n \<pi> = 0" "flook blk e n \<sigma> = 0" | "flook blk e n \<pi> \<noteq> 0" "flook blk e n \<sigma> \<noteq> 0"
      | "flook blk e n \<pi> = 0" "flook blk e n \<sigma> \<noteq> 0" | "flook blk e n \<pi> \<noteq> 0" "flook blk e n \<sigma> = 0" by blast
    then show "\<sigma> = \<pi>"
    proof cases
      case 1 then show ?thesis using G(3) [OF \<pi>(1) \<sigma>(1) 1 \<pi>(2) \<sigma>(2) [symmetric]] by simp
    next
      case 2 then show ?thesis using F(3) [OF \<pi>(1) 2(1) \<sigma>(1)] old [OF \<pi>(1) 2(1)] old [OF \<sigma>(1) 2(2)] \<sigma>(2) by metis
    next
      case 3 then show ?thesis using G(2) [OF \<pi>(1) 3(1) \<pi>(2)] F(2) [OF \<sigma>(1) 3(2)] old [OF \<sigma>(1) 3(2)] nu \<sigma>(2) by metis
    next
      case 4
      have "flook blk e' n' \<sigma> \<noteq> 0" using \<sigma>(2) \<pi>(2) by simp
      then show ?thesis using G(2) [OF \<sigma>(1) 4(2)] F(2) [OF \<pi>(1) 4(1)] old [OF \<pi>(1) 4(1)] nu \<sigma>(2) by metis
    qed
  qed
qed

text \<open>A walk below one slot leaves the other slots.\<close>

lemma slot_grown:
  assumes f: "fmap_ok blk e n" and k: "k < 15" "length is = k - 11" "okp (perb e) (length is) is"
    and w: "walked blk create e (raw_block (n_raw n) ! k) e' c is r"
    and n': "raw_block (n_raw n') = (raw_block (n_raw n))[k := c]"
  shows "grown (okf (perb e)) (flook blk e n) (flook blk e' n') (k # is) (free_set blk e - free_set blk e')"
proof -
  note F = fmap_okD [OF f]
  have len: "length (raw_block (n_raw n)) = 15" using F(1) by (simp add: raw_ok_def)
  have same: "flook blk e' n' (j # \<pi>) = flook blk e n (j # \<pi>)" if j: "j \<noteq> k" "okf (perb e) (j # \<pi>)" for j \<pi>
  proof -
    have "look (ptrs blk e') (raw_block (n_raw n) ! j) \<pi> = look (ptrs blk e) (raw_block (n_raw n) ! j) \<pi>"
    proof (rule look_cong)
      fix \<rho> assume \<rho>: "strict_prefix \<rho> \<pi>" "look (ptrs blk e) (raw_block (n_raw n) ! j) \<rho> \<noteq> 0"
      let ?x = "flook blk e n (j # \<rho>)"
      have ok: "okf (perb e) (j # \<rho>)" using okp_prefix [OF _ \<rho>(1)] j(2) by auto
      have nz: "?x \<noteq> 0" using \<rho>(2) by simp
      have "?x \<noteq> look (ptrs blk e) (raw_block (n_raw n) ! k) \<sigma>" if "strict_prefix \<sigma> is" for \<sigma>
        using F(3) [OF ok nz, of "k # \<sigma>"] okp_prefix [OF k(3) that] k(1,2) j(1) by auto
      then have "?x \<notin> {look (ptrs blk e) (raw_block (n_raw n) ! k) \<sigma> |\<sigma>. strict_prefix \<sigma> is} - {0}" by blast
      moreover have "changed blk e e' ({look (ptrs blk e) (raw_block (n_raw n) ! k) \<sigma> |\<sigma>. strict_prefix \<sigma> is} - {0})"
        using w by (simp add: walked_def)
      ultimately have "ptrs blk e' ?x = ptrs blk e ?x" using changed_used F(2) [OF ok nz] by blast
      then show "ptrs blk e' (look (ptrs blk e) (raw_block (n_raw n) ! j) \<rho>) = ptrs blk e (look (ptrs blk e) (raw_block (n_raw n) ! j) \<rho>)" by simp
    qed
    then show ?thesis using j(1) n' by simp
  qed
  have "grown (okp (perb e) (length is)) (look (ptrs blk e) (raw_block (n_raw n) ! k)) (look (ptrs blk e') c) is (free_set blk e - free_set blk e')"
    using w by (simp add: walked_def)
  note G = grownD [OF this]
  have fk: "flook blk e' n' (k # \<pi>) = look (ptrs blk e') c \<pi>" for \<pi> using n' k(1) len by simp
  have shape: "\<exists>\<pi>'. \<pi> = k # \<pi>' \<and> okp (perb e) (length is) \<pi>'" if "okf (perb e) \<pi>" "flook blk e n \<pi> = 0" "flook blk e' n' \<pi> \<noteq> 0" for \<pi>
  proof (cases \<pi>)
    case (Cons j \<pi>')
    have "j = k" using that same [of j \<pi>'] Cons by metis
    then show ?thesis using that(1) Cons k(2) by simp
  qed (use that in simp)
  show ?thesis unfolding grown_def
  proof (intro conjI allI impI; (elim conjE)?)
    fix \<pi> assume \<pi>: "okf (perb e) \<pi>"
    show "flook blk e' n' \<pi> = flook blk e n \<pi>" if "\<not> prefix \<pi> (k # is) \<or> flook blk e n \<pi> \<noteq> 0"
    proof (cases \<pi>)
      case (Cons j \<pi>')
      show ?thesis
      proof (cases "j = k")
        case True
        then show ?thesis using that Cons G(1) [of \<pi>'] \<pi> k(2) fk by auto
      qed (use same Cons \<pi> in blast)
    qed simp
    { assume "flook blk e n \<pi> = 0" "flook blk e' n' \<pi> \<noteq> 0"
      with shape [OF \<pi>] G(2) fk show "unat (flook blk e' n' \<pi>) \<in> free_set blk e - free_set blk e'" by (metis flook_simps(2)) }
    fix \<sigma> assume "okf (perb e) \<sigma>" "flook blk e n \<pi> = 0" "flook blk e n \<sigma> = 0" "flook blk e' n' \<pi> \<noteq> 0" "flook blk e' n' \<pi> = flook blk e' n' \<sigma>"
    with shape [OF \<pi>] shape [of \<sigma>] G(3) fk show "\<pi> = \<sigma>" by (metis flook_simps(2))
  qed
qed

text \<open>What mapping the end of \<open>path\<close> does to a file.\<close>

definition bmapped :: "('w ext2 \<Rightarrow> u32 \<Rightarrow> u8 list) \<Rightarrow> bool \<Rightarrow> 'w ext2 \<Rightarrow> ext2_node \<Rightarrow> 'w ext2 \<Rightarrow> ext2_node \<Rightarrow> nat list \<Rightarrow> u32 \<Rightarrow> bool" where
  "bmapped blk create e n e' n' path r \<longleftrightarrow>
     fmap_ok blk e' n' \<and>
     grown (okf (perb e)) (flook blk e n) (flook blk e' n') path (free_set blk e - free_set blk e') \<and>
     changed blk e e' ({flook blk e n \<rho> |\<rho>. strict_prefix \<rho> path} - {0}) \<and>
     r = flook blk e' n' path \<and>
     (\<not> create \<longrightarrow> r = flook blk e n path) \<and>
     (create \<and> r = 0 \<longrightarrow> free_set blk e' = {}) \<and>
     (flook blk e n path \<noteq> 0 \<longrightarrow> free_set blk e' = free_set blk e \<and> n' = n) \<and>
     (flook blk e n path = 0 \<and> r \<noteq> 0 \<longrightarrow> ptrs blk e' r = replicate (perb e) 0)"

lemma bmapped_refl:
  assumes "fmap_ok blk e n" "flook blk e n path = 0 \<Longrightarrow> create \<Longrightarrow> free_set blk e = {}"
  shows "bmapped blk create e n e n path (flook blk e n path)"
  using assms by (auto simp: bmapped_def grown_refl changed_refl)

lemma slot_prefixes: "{flook blk e n \<rho> |\<rho>. strict_prefix \<rho> (k # is)} - {0} =
  {look (ptrs blk e) (raw_block (n_raw n) ! k) \<rho> |\<rho>. strict_prefix \<rho> is} - {0}" (is "?A = ?B")
proof
  show "?A \<subseteq> ?B"
  proof
    fix x assume "x \<in> ?A"
    then obtain \<rho> where \<rho>: "x = flook blk e n \<rho>" "strict_prefix \<rho> (k # is)" "x \<noteq> 0" by blast
    then obtain \<rho>' where "\<rho> = k # \<rho>'" "strict_prefix \<rho>' is" by (cases \<rho>) auto
    with \<rho> show "x \<in> ?B" by auto
  qed
  show "?B \<subseteq> ?A"
  proof
    fix x assume "x \<in> ?B"
    then obtain \<rho> where "x = flook blk e n (k # \<rho>)" "strict_prefix (k # \<rho>) (k # is)" "x \<noteq> 0" by auto
    then show "x \<in> ?A" by blast
  qed
qed

lemma bmapped_slot:
  assumes f: "fmap_ok blk e n" and v: "vol_ok vinv blk e" and k: "k < 15" "length is = k - 11" "okp (perb e) (length is) is"
    and w: "walked blk create e (raw_block (n_raw n) ! k) e' c is r"
    and n': "raw_block (n_raw n') = (raw_block (n_raw n))[k := c]" and nn: "flook blk e n (k # is) \<noteq> 0 \<Longrightarrow> n' = n"
  shows "bmapped blk create e n e' n' (k # is) r"
proof -
  have len: "length (raw_block (n_raw n)) = 15" using fmap_okD(1) [OF f] by (simp add: raw_ok_def)
  have g: "grown (okf (perb e)) (flook blk e n) (flook blk e' n') (k # is) (free_set blk e - free_set blk e')"
    by (rule slot_grown [OF f k w n'])
  have W: "changed blk e e' ({look (ptrs blk e) (raw_block (n_raw n) ! k) \<rho> |\<rho>. strict_prefix \<rho> is} - {0})"
    "r = look (ptrs blk e') c is" "\<not> create \<longrightarrow> r = look (ptrs blk e) (raw_block (n_raw n) ! k) is" "create \<and> r = 0 \<longrightarrow> free_set blk e' = {}"
    "look (ptrs blk e) (raw_block (n_raw n) ! k) is \<noteq> 0 \<longrightarrow> free_set blk e' = free_set blk e"
    "look (ptrs blk e) (raw_block (n_raw n) ! k) is = 0 \<and> r \<noteq> 0 \<longrightarrow> ptrs blk e' r = replicate (perb e) 0" using w unfolding walked_def by blast+
  have "fmap_ok blk e' n'" by (rule file_grown [OF f v _ W(1) g]) (use n' len in \<open>simp add: raw_ok_def\<close>)
  moreover have "r = flook blk e' n' (k # is)" using W(2) n' k(1) len by simp
  ultimately show ?thesis using g W nn by (simp add: bmapped_def slot_prefixes)
qed

lemma zero_tree:
  assumes "ptrs blk e b = replicate (perb e) 0" "used blk e b"
  shows "tree_ok blk e d b"
proof -
  have "look (ptrs blk e) b \<pi> = (if \<pi> = [] then b else 0)" if "okp (perb e) d \<pi>" for \<pi>
    using that assms(1) by (cases \<pi>) (auto simp: okp_def)
  then show ?thesis using assms(2) by (auto simp: tree_ok_def split: if_splits)
qed

context block_store
begin

lemma slot_ok:
  assumes v: "vol_ok vinv blk e" and f: "fmap_ok blk e n" and k: "k < 15" "length is = k - 11" "okp (perb e) (length is) is" and nn: "is \<noteq> []"
  shows "\<exists>r e' n'. bmap_slot devs (\<lambda>_. True) create k is e n = (r, e', n') \<and> vol_ok vinv blk e' \<and> bmapped blk create e n e' n' (k # is) r"
proof -
  let ?p = "raw_block (n_raw n) ! k"
  have len: "length (raw_block (n_raw n)) = 15" using fmap_okD(1) [OF f] by (simp add: raw_ok_def)
  consider "?p \<noteq> 0" | "?p = 0" "free_set blk e = {}" | "?p = 0" "free_set blk e \<noteq> {}" by blast
  then show ?thesis
  proof cases
    case 1
    have t: "tree_ok blk e (length is) ?p" using file_tree [OF f k(1)] k(2) by simp
    from walk_ok [OF v 1 t nn k(3), of create n] obtain r e' n' where
      w: "bmap_walk devs (\<lambda>_. True) create ?p is e n = (r, e', n')" "vol_ok vinv blk e'" "walked blk create e ?p e' ?p is r"
        "raw_block (n_raw n') = raw_block (n_raw n)" "look (ptrs blk e) ?p is \<noteq> 0 \<longrightarrow> n' = n" by blast
    have "bmapped blk create e n e' n' (k # is) r" by (rule bmapped_slot [OF f v k w(3)]) (use w in simp_all)
    with w 1 show ?thesis by (simp add: bmap_slot_def ext2_ensure_indirect_def)
  next
    case 2
    then have "flook blk e n (k # is) = 0" by simp
    then have "bmapped blk create e n e n (k # is) 0" using bmapped_refl [OF f, of "k # is" create] 2 by simp
    then show ?thesis using 2 v new_ok [OF v, of n] by (simp add: bmap_slot_def ext2_ensure_indirect_def)
  next
    case 3
    with new_ok [OF v, of n] obtain b e1 n1 where b: "ext2_new_block devs (\<lambda>_. True) e n = (Inr b, e1, n1)" "vol_ok vinv blk e1" "changed blk e e1 {}"
      "unat b \<in> free_set blk e" "free_set blk e1 = free_set blk e - {unat b}" "ptrs blk e1 b = replicate (perb e) 0" "b \<noteq> 0" "used blk e1 b"
      "raw_block (n_raw n1) = raw_block (n_raw n)" by auto
    have per: "perb e1 = perb e" by (simp add: same_layoutD(7) [OF changedD(1) [OF b(3)]])
    have t: "tree_ok blk e1 (length is) b" by (rule zero_tree) (use b per in simp_all)
    define n2 where "n2 = n1\<lparr>n_raw := (n_raw n1)\<lparr>raw_block := (raw_block (n_raw n1))[k := b]\<rparr>\<rparr>"
    from walk_ok [OF b(2,7) t nn, of create n2] k(3) per obtain r e' n' where
      w: "bmap_walk devs (\<lambda>_. True) create b is e1 n2 = (r, e', n')" "vol_ok vinv blk e'" "walked blk create e1 b e' b is r"
        "raw_block (n_raw n') = raw_block (n_raw n2)" by auto
    have "walked blk create e 0 e' b is r" by (rule walked_enter [OF b(4,5,6,7,3) w(3) nn k(3)])
    then have "bmapped blk create e n e' n' (k # is) r"
      using 3 w(4) b(9) by (intro bmapped_slot [OF f v k, where c = b]) (simp_all add: n2_def)
    with w 3 b(1) show ?thesis by (simp add: bmap_slot_def ext2_ensure_indirect_def n2_def Let_def)
  qed
qed

lemma direct_ok:
  assumes v: "vol_ok vinv blk e" and f: "fmap_ok blk e n" and k: "unat m < 12"
  shows "\<exists>r e' n'. ext2_bmap devs (\<lambda>_. True) e n m create = Some (r, e', n') \<and> vol_ok vinv blk e' \<and> bmapped blk create e n e' n' [unat m] r"
proof -
  let ?p = "raw_block (n_raw n) ! unat m"
  have len: "length (raw_block (n_raw n)) = 15" using fmap_okD(1) [OF f] by (simp add: raw_ok_def)
  have m: "m < 12" using k by (simp add: word_less_nat_alt)
  show ?thesis
  proof (cases "?p \<noteq> 0 \<or> \<not> create \<or> free_set blk e = {}")
    case True
    then have "bmapped blk create e n e n [unat m] ?p" using bmapped_refl [OF f, of "[unat m]" create] by auto
    then show ?thesis using True v m new_ok [OF v, of n] by (auto simp: ext2_bmap_def Let_def)
  next
    case False
    with new_ok [OF v, of n] obtain b e1 n1 where b: "ext2_new_block devs (\<lambda>_. True) e n = (Inr b, e1, n1)" "vol_ok vinv blk e1" "changed blk e e1 {}"
      "unat b \<in> free_set blk e" "free_set blk e1 = free_set blk e - {unat b}" "b \<noteq> 0" "raw_block (n_raw n1) = raw_block (n_raw n)"
      "ptrs blk e1 b = replicate (perb e) 0" by auto
    let ?n = "n1\<lparr>n_raw := (n_raw n1)\<lparr>raw_block := (raw_block (n_raw n1))[unat m := b]\<rparr>\<rparr>"
    have w: "walked blk create e 0 e1 b [] b" using b False by (auto simp: walked_def grown_def)
    have "bmapped blk create e n e1 ?n [unat m] b"
      by (rule bmapped_slot [OF f v, where c = b]) (use k False w b in simp_all)
    then show ?thesis using False b m by (simp add: ext2_bmap_def Let_def)
  qed
qed

end

section \<open>Logical blocks\<close>

text \<open>The path of each logical block, and the number of blocks a file can have.\<close>

definition fpath :: "nat \<Rightarrow> nat \<Rightarrow> nat list" where
  "fpath per m =
     (if m < 12 then [m]
      else if m < 12 + per then [12, m - 12]
      else if m < 12 + per + per * per then let i = m - (12 + per) in [13, i div per, i mod per]
      else let i = m - (12 + per + per * per) in [14, i div (per * per), (i div per) mod per, i mod per])"

definition capacity :: "nat \<Rightarrow> nat" where
  "capacity per = 12 + per + per * per + per * per * per"

definition mapped :: "('w ext2 \<Rightarrow> u32 \<Rightarrow> u8 list) \<Rightarrow> 'w ext2 \<Rightarrow> ext2_node \<Rightarrow> nat \<Rightarrow> u32" where
  "mapped blk e n m = flook blk e n (fpath (perb e) m)"

lemma triple_split: "i = i div (per * per) * (per * per) + (i div per) mod per * per + i mod per" for i per :: nat
proof -
  have "i div per = i div (per * per) * per + i div per mod per" by (simp add: div_mult2_eq)
  then show ?thesis by (metis add_mult_distrib div_mult_mod_eq mult.assoc)
qed

lemma fpath_ok:
  assumes "0 < per" "m < capacity per"
  shows "okf per (fpath per m)" "length (fpath per m) = Suc (hd (fpath per m) - 11)"
proof -
  have "m - (12 + per) < per * per" if "m < 12 + per + per * per" "\<not> m < 12 + per" using that by linarith
  moreover have "m - (12 + per + per * per) < per * (per * per)" if "\<not> m < 12 + per + per * per"
    using that assms(2) by (simp add: capacity_def mult.assoc)
  ultimately show "okf per (fpath per m)"
    using assms(1) by (auto simp: fpath_def Let_def okp_def div_less_iff_less_mult)
  show "length (fpath per m) = Suc (hd (fpath per m) - 11)" by (simp add: fpath_def Let_def)
qed

lemma fpath_inj:
  assumes "0 < per" "fpath per m = fpath per k"
  shows "m = k"
proof -
  let ?a = "12 + per" and ?b = "12 + per + per * per"
  have split2: "i = j" if "i div per = j div per" "i mod per = j mod per" for i j using that by (metis div_mult_mod_eq)
  have split3: "i = j" if "i div (per * per) = j div (per * per)" "i div per mod per = j div per mod per" "i mod per = j mod per" for i j
    using that triple_split [of i per] triple_split [of j per] by simp
  have "m < 12 \<longleftrightarrow> k < 12" "m < ?a \<longleftrightarrow> k < ?a" "m < ?b \<longleftrightarrow> k < ?b"
    using assms(2) by (auto simp: fpath_def Let_def split: if_splits)
  with assms(2) show ?thesis
    using split2 [of "m - ?a" "k - ?a"] split3 [of "m - ?b" "k - ?b"] by (auto simp: fpath_def Let_def split: if_splits)
qed

lemma fpath_prefix:
  assumes "0 < per" "m < capacity per" "k < capacity per" "prefix (fpath per m) (fpath per k)"
  shows "m = k"
proof -
  have ne: "fpath per m \<noteq> []" "fpath per k \<noteq> []" using fpath_ok(1) [OF assms(1,2)] fpath_ok(1) [OF assms(1,3)] by auto
  then have "hd (fpath per m) = hd (fpath per k)" using assms(4) by (auto simp: prefix_def hd_append)
  then have "length (fpath per m) = length (fpath per k)" using fpath_ok(2) assms by metis
  then have "fpath per m = fpath per k" using assms(4) by (auto simp: prefix_def)
  then show ?thesis by (rule fpath_inj [OF assms(1)])
qed

text \<open>The supported block sizes keep the starts of the ranges in 32 bits.\<close>

lemma bmap_starts:
  assumes "unat (block_size e) \<le> 4096"
  shows "unat (block_size e div 4) = perb e" "unat (ext2_double_start e) = 12 + perb e" "unat (ext2_triple_start e) = 12 + perb e + perb e * perb e"
    "unat (block_size e div 4 * (block_size e div 4)) = perb e * perb e" "perb e * perb e \<le> 1048576"
proof -
  show per: "unat (block_size e div 4) = perb e" by (simp add: unat_div)
  have le: "perb e \<le> 1024" using assms by simp
  then show sq: "perb e * perb e \<le> 1048576" using mult_le_mono [OF le le] by simp
  then show sq': "unat (block_size e div 4 * (block_size e div 4)) = perb e * perb e"
    by (subst unat_mult_no_wrap) (simp_all add: per)
  show ds: "unat (ext2_double_start e) = 12 + perb e" using le by (simp add: ext2_double_start_def unat_add_no_wrap per)
  show "unat (ext2_triple_start e) = 12 + perb e + perb e * perb e"
    using le sq by (simp add: ext2_triple_start_def Let_def unat_add_no_wrap ds sq')
qed

context block_store
begin

lemma bmap_ok:
  assumes v: "vol_ok vinv blk e" and f: "fmap_ok blk e n" and bs: "unat (block_size e) \<le> 4096" and m: "unat m < capacity (perb e)"
  shows "\<exists>r e' n'. ext2_bmap devs (\<lambda>_. True) e n m create = Some (r, e', n') \<and> vol_ok vinv blk e' \<and>
    bmapped blk create e n e' n' (fpath (perb e) (unat m)) r"
proof -
  note B = bmap_starts [OF bs]
  let ?per = "perb e"
  have "0 < unat (block_size e)" "unat (block_size e) mod 32 = 0" using layout_okD [OF vol_okD(2) [OF v]] by auto
  then have per: "0 < ?per" by presburger
  note P = fpath_ok [OF per m]
  consider "unat m < 12" | "\<not> unat m < 12" "unat m < 12 + ?per" | "\<not> unat m < 12 + ?per" "unat m < 12 + ?per + ?per * ?per" | "\<not> unat m < 12 + ?per + ?per * ?per"
    by linarith
  then show ?thesis
  proof cases
    case 1
    then show ?thesis using direct_ok [OF v f 1, of create] by (simp add: fpath_def)
  next
    case 2
    then have eq: "ext2_bmap devs (\<lambda>_. True) e n m create = Some (bmap_slot devs (\<lambda>_. True) create 12 [unat m - 12] e n)"
      by (simp add: ext2_bmap_def Let_def word_less_nat_alt B unat_sub_if' word_le_nat_alt)
    have "fpath ?per (unat m) = [12, unat m - 12]" using 2 by (simp add: fpath_def)
    then show ?thesis using slot_ok [OF v f, of 12 "[unat m - 12]" create] P(1) unfolding eq by simp
  next
    case 3
    let ?i = "unat m - (12 + ?per)"
    have ui: "unat (m - ext2_double_start e) = ?i" using 3 by (simp add: unat_sub_if' word_le_nat_alt B)
    have eq: "ext2_bmap devs (\<lambda>_. True) e n m create = Some (bmap_slot devs (\<lambda>_. True) create 13 [?i div ?per, ?i mod ?per] e n)"
      using 3 by (simp add: ext2_bmap_def Let_def word_less_nat_alt B unat_div unat_mod ui)
    have "fpath ?per (unat m) = [13, ?i div ?per, ?i mod ?per]" using 3 by (simp add: fpath_def Let_def)
    then show ?thesis using slot_ok [OF v f, of 13 "[?i div ?per, ?i mod ?per]" create] P(1) unfolding eq by (simp add: okp_def del: okp_Cons)
  next
    case 4
    let ?i = "unat m - (12 + ?per + ?per * ?per)"
    have ui: "unat (m - ext2_triple_start e) = ?i" using 4 by (simp add: unat_sub_if' word_le_nat_alt B)
    define x y z where "x = ?i div (?per * ?per)" and "y = ?i div ?per mod ?per" and "z = ?i mod ?per"
    have path: "fpath ?per (unat m) = [14, x, y, z]" using 4 by (simp add: fpath_def Let_def x_def y_def z_def)
    have lt: "x < ?per" "okp ?per 3 [x, y, z]" using P(1) unfolding path by (simp_all add: okp_def)
    have eq: "ext2_bmap devs (\<lambda>_. True) e n m create = Some (bmap_slot devs (\<lambda>_. True) create 14 [x, y, z] e n)"
      using 4 lt(1) unfolding x_def y_def z_def
      by (simp add: ext2_bmap_def Let_def word_less_nat_alt word_le_nat_alt B unat_div unat_mod ui not_le)
    show ?thesis unfolding path eq using slot_ok [OF v f, of 14 "[x, y, z]" create] lt(2) by (simp del: okp_Cons add: numeral_3_eq_3)
  qed
qed

end

section \<open>Properties\<close>

lemma vol_example_vol_ok: "vol_ok rd_volume rd_block vol_example" "fmap_ok rd_block vol_example node_example"
proof -
  have "unat b \<notin> {6, 7}" if "meta vol_example b" for b
    using that by (auto simp: meta_def vol_example_def bitmap_at_def desc_block_def)
  then show "vol_ok rd_volume rd_block vol_example"
    using vol_example_ok unfolding vol_ok_def vol_example_ok(4) by (simp add: vol_example_def)
  have "flook rd_block vol_example node_example \<pi> = 0" if "okf (perb vol_example) \<pi>" for \<pi>
    using that by (cases \<pi>) (simp_all add: node_example_def)
  then show "fmap_ok rd_block vol_example node_example" by (auto simp: fmap_ok_def raw_ok_def node_example_def)
qed



text \<open>Reading a hole behind a missing pointer block takes a free block, although \<^verbatim>\<open>create\<close> is clear.\<close>

lemma ext2_bmap_hole_allocates:
  "\<exists>e' n'. ext2_bmap blkdev_init (\<lambda>_. True) vol_example node_example 12 False = Some (0, e', n') \<and>
     free_set rd_block e' \<subset> free_set rd_block vol_example \<and> n_nr_block n' = n_nr_block node_example + 2"
proof -
  let ?e = vol_example and ?n = node_example
  have bs: "block_size ?e = 1024" by (simp add: vol_example_def)
  have "free_set rd_block ?e \<noteq> {}" using vol_example_ok(4) by simp
  with rdvol.new_ok [OF vol_example_vol_ok(1), of ?n] obtain b e1 n1 where
    b: "ext2_new_block blkdev_init (\<lambda>_. True) ?e ?n = (Inr b, e1, n1)" "vol_ok rd_volume rd_block e1" "unat b \<in> free_set rd_block ?e"
      "free_set rd_block e1 = free_set rd_block ?e - {unat b}" "ptrs rd_block e1 b = replicate 256 0" "used rd_block e1 b" "n_nr_block n1 = n_nr_block ?n + 2"
    by (auto simp: bs)
  have z: "raw_block (n_raw ?n) ! 12 = 0" by (simp add: node_example_def)
  have "\<not> (12::u32) < 12" "(12::u32) < ext2_double_start ?e" by (simp_all add: ext2_double_start_def bs)
  then have "ext2_bmap blkdev_init (\<lambda>_. True) ?e ?n 12 False = Some (bmap_slot blkdev_init (\<lambda>_. True) False 12 [0] ?e ?n)"
    by (simp add: ext2_bmap_def Let_def)
  also have "bmap_slot blkdev_init (\<lambda>_. True) False 12 [0] ?e ?n =
      (0, e1, n1\<lparr>n_raw := (n_raw n1)\<lparr>raw_block := (raw_block (n_raw n1))[12 := b]\<rparr>\<rparr>)"
    using b(1) z rdvol.load_ok [OF b(2,6)] b(5) by (simp add: bmap_slot_def ext2_ensure_indirect_def)
  finally show ?thesis using b(3,4,7) by auto
qed

end
