(* ===== verification/Ext2_Ialloc.thy ===== *)
theory Ext2_Ialloc
  imports Ext2_Bmap
begin

text \<open>
  The inode allocator of ext2: \<^verbatim>\<open>src/src/fs/ext2/ialloc.c\<close>. The flags \<open>mem\<close> number the calls of \<^verbatim>\<open>kmalloc\<close>. The loop
  that clears an inode ends only when it makes progress; not returning is the outcome \<^term>\<open>None\<close>.
\<close>

section \<open>Model\<close>

definition ext2_inode_location :: "'w ext2 \<Rightarrow> u32 \<Rightarrow> errno + u32 \<times> u32" where
  "ext2_inode_location e ino =
     (if ino = 0 \<or> ino > inodes_count e then Inl EINVAL
      else let grp = (ino - 1) div inodes_per_group e
           in if grp \<ge> nr_groups e then Inl EINVAL else Inr (inode_place e grp ino))"

partial_function (option) zero_loop :: "'w blkdevs \<Rightarrow> u32 \<Rightarrow> u32 \<Rightarrow> u32 \<Rightarrow> 'w ext2 \<Rightarrow> ((errno + unit) \<times> 'w ext2) option" where
  "zero_loop devs left blkno offset e =
     (if left = 0 then Some (Inr (), e)
      else
        let chunk = min left (block_size e - offset)
        in case ext2_read_block devs blkno (replicate (unat (block_size e)) 0) e of
             Inl x \<Rightarrow> Some (Inl x, e)
           | Inr buf \<Rightarrow>
               (case ext2_write_block devs blkno (copy_at (unat offset) (replicate (unat chunk) 0) buf) e of
                  (Inl x, e) \<Rightarrow> Some (Inl x, e)
                | (Inr _, e) \<Rightarrow> zero_loop devs (left - chunk) (blkno + 1) 0 e))"

definition ext2_zero_inode :: "'w blkdevs \<Rightarrow> bool \<Rightarrow> 'w ext2 \<Rightarrow> u32 \<Rightarrow> ((errno + unit) \<times> 'w ext2) option" where
  "ext2_zero_inode devs mem e ino =
     (case ext2_inode_location e ino of
        Inl x \<Rightarrow> Some (Inl x, e)
      | Inr (blkno, offset) \<Rightarrow> if \<not> mem then Some (Inl ENOMEM, e) else zero_loop devs (inode_size e) blkno offset e)"

definition ext2_set_inode_mode :: "'w blkdevs \<Rightarrow> bool \<Rightarrow> 'w ext2 \<Rightarrow> u32 \<Rightarrow> u16 \<Rightarrow> (errno + unit) \<times> 'w ext2" where
  "ext2_set_inode_mode devs mem e ino mode =
     (case ext2_inode_location e ino of
        Inl x \<Rightarrow> (Inl x, e)
      | Inr (blkno, offset) \<Rightarrow>
          if \<not> mem then (Inl ENOMEM, e)
          else case ext2_read_block devs blkno (replicate (unat (block_size e)) 0) e of
                 Inl x \<Rightarrow> (Inl x, e)
               | Inr buf \<Rightarrow> ext2_write_block devs blkno (copy_at (unat offset) (le_bytes 2 mode) buf) e)"

text \<open>Taking bit \<open>b\<close> of the inode bit map \<open>ws\<close> of group \<open>g\<close>; an error after the bit map is written puts the old one back.\<close>

definition take_inode :: "'w blkdevs \<Rightarrow> (nat \<Rightarrow> bool) \<Rightarrow> u16 \<Rightarrow> u32 \<Rightarrow> u32 list \<Rightarrow> u32 \<Rightarrow> 'w ext2 \<Rightarrow> ((errno + u32) \<times> 'w ext2) option" where
  "take_inode devs mem mode g ws b e =
     (let bitmap_block = bg_inode_bitmap (group_desc e (unat g));
          ws = set_bit (unat b) ws;
          undo = (\<lambda>x e. Some (Inl x, snd (ext2_write_block devs bitmap_block (words_bytes (clear_bit (unat b) ws)) e)))
      in case ext2_write_block devs bitmap_block (words_bytes ws) e of
           (Inl x, e) \<Rightarrow> undo x e
         | (Inr _, e) \<Rightarrow>
             let ino = g * inodes_per_group e + b + 1
             in if ino > inodes_count e then undo ENOSPC e
                else case ext2_zero_inode devs (mem 1) e ino of
                       None \<Rightarrow> None
                     | Some (Inl x, e) \<Rightarrow> undo x e
                     | Some (Inr _, e) \<Rightarrow>
                         (case ext2_set_inode_mode devs (mem 2) e ino mode of
                            (Inl x, e) \<Rightarrow> undo x e
                          | (Inr _, e) \<Rightarrow>
                              let e = upd_desc g (\<lambda>d. d\<lparr>bg_free_inodes_count := bg_free_inodes_count d - 1\<rparr>) e;
                                  e = e\<lparr>free_inodes_count := free_inodes_count e - 1, e_dirty := True\<rparr>
                              in (case ext2_write_group_desc devs (mem 3) g e of
                                    (Inl x, e) \<Rightarrow> Some (Inl x, e)
                                  | (Inr _, e) \<Rightarrow> Some (Inr ino, e))))"

primrec inode_scan :: "'w blkdevs \<Rightarrow> (nat \<Rightarrow> bool) \<Rightarrow> u16 \<Rightarrow> u32 list \<Rightarrow> 'w ext2 \<Rightarrow> ((errno + u32) \<times> 'w ext2) option" where
  "inode_scan devs mem mode [] e = Some (Inl ENOSPC, e)"
| "inode_scan devs mem mode (g # gs) e =
     (let desc = group_desc e (unat g)
      in if bg_free_inodes_count desc = 0 then inode_scan devs mem mode gs e
         else case ext2_read_block devs (bg_inode_bitmap desc) (replicate (unat (block_size e)) 0) e of
                Inl x \<Rightarrow> Some (Inl x, e)
              | Inr bs \<Rightarrow>
                  let ws = bytes_words bs; b = find_first_zero_bit ws (inodes_per_group e)
                  in if sint b < 0 then inode_scan devs mem mode gs e else take_inode devs mem mode g ws b e)"

definition ext2_alloc_inode :: "'w blkdevs \<Rightarrow> (nat \<Rightarrow> bool) \<Rightarrow> u16 \<Rightarrow> 'w ext2 \<Rightarrow> ((errno + u32) \<times> 'w ext2) option" where
  "ext2_alloc_inode devs mem mode e =
     (if readonly e then Some (Inl EROFS, e)
      else if free_inodes_count e = 0 then Some (Inl ENOSPC, e)
      else if \<not> mem 0 then Some (Inl ENOMEM, e)
      else inode_scan devs mem mode (map of_nat [0..<unat (nr_groups e)]) e)"

definition ext2_free_inode :: "'w blkdevs \<Rightarrow> (nat \<Rightarrow> bool) \<Rightarrow> u32 \<Rightarrow> 'w ext2 \<Rightarrow> (errno + unit) \<times> 'w ext2" where
  "ext2_free_inode devs mem ino e =
     (if readonly e \<or> ino = 0 \<or> ino > inodes_count e then (Inl EINVAL, e)
      else
        let grp = (ino - 1) div inodes_per_group e
        in if grp \<ge> nr_groups e then (Inl EINVAL, e)
           else
             let b = (ino - 1) mod inodes_per_group e
             in if \<not> mem 0 then (Inl ENOMEM, e)
                else
                  let bitmap_block = bg_inode_bitmap (group_desc e (unat grp))
                  in case ext2_read_block devs bitmap_block (replicate (unat (block_size e)) 0) e of
                       Inl x \<Rightarrow> (Inl x, e)
                     | Inr bs \<Rightarrow>
                         (case test_and_clear_bit (unat b) (bytes_words bs) of
                            (False, ws) \<Rightarrow> (Inl EIO, e)
                          | (True, ws) \<Rightarrow>
                              (case ext2_write_block devs bitmap_block (words_bytes ws) e of
                                 (Inl x, e) \<Rightarrow> (Inl x, snd (ext2_write_block devs bitmap_block (words_bytes (set_bit (unat b) ws)) e))
                               | (Inr _, e) \<Rightarrow>
                                   let e = upd_desc grp (\<lambda>d. d\<lparr>bg_free_inodes_count := bg_free_inodes_count d + 1\<rparr>) e;
                                       e = e\<lparr>free_inodes_count := free_inodes_count e + 1, e_dirty := True\<rparr>
                                   in ext2_write_group_desc devs (mem 1) grp e)))"

section \<open>Free inodes\<close>

definition ibm :: "'w ext2 \<Rightarrow> nat \<Rightarrow> u32" where
  "ibm e g = bg_inode_bitmap (group_desc e g)"

definition in_table :: "'w ext2 \<Rightarrow> nat \<Rightarrow> nat \<Rightarrow> bool" where
  "in_table e g b \<longleftrightarrow> table_at e g \<le> b \<and> b < table_at e g + table_blocks e"

text \<open>The inode bit maps lie in the volume, in different blocks that hold neither block bit maps or descriptors
  nor inodes; the tables hold no metadata; a bit map fits its block and its count fits 16 bits.\<close>

definition itab_ok :: "'w ext2 \<Rightarrow> bool" where
  "itab_ok e \<longleftrightarrow> tables_ok e \<and> unat (inodes_per_group e) \<le> 32768 \<and> unat (inodes_per_group e) \<le> 8 * unat (block_size e) \<and>
     (\<forall>g < unat (nr_groups e). ibm e g < blocks_count e \<and> \<not> meta e (ibm e g) \<and>
        (\<forall>h < unat (nr_groups e). (h \<noteq> g \<longrightarrow> ibm e h \<noteq> ibm e g) \<and> \<not> in_table e h (unat (ibm e g))) \<and>
        (\<forall>b. in_table e g (unat b) \<longrightarrow> \<not> meta e b))"

lemma itab_okD:
  assumes "itab_ok e"
  shows "tables_ok e" "unat (inodes_per_group e) \<le> 32768" "unat (inodes_per_group e) \<le> 8 * unat (block_size e)"
    "g < unat (nr_groups e) \<Longrightarrow> ibm e g < blocks_count e" "g < unat (nr_groups e) \<Longrightarrow> \<not> meta e (ibm e g)"
    "g < unat (nr_groups e) \<Longrightarrow> h < unat (nr_groups e) \<Longrightarrow> ibm e h = ibm e g \<Longrightarrow> h = g"
    "g < unat (nr_groups e) \<Longrightarrow> h < unat (nr_groups e) \<Longrightarrow> \<not> in_table e h (unat (ibm e g))"
    "g < unat (nr_groups e) \<Longrightarrow> in_table e g (unat b) \<Longrightarrow> \<not> meta e b"
  using assms unfolding itab_ok_def by blast+

definition ifree :: "('w ext2 \<Rightarrow> u32 \<Rightarrow> u8 list) \<Rightarrow> 'w ext2 \<Rightarrow> nat \<Rightarrow> nat set" where
  "ifree blk e g = free_bits (bytes_words (blk e (ibm e g))) (unat (inodes_per_group e))"

definition inode_no :: "'w ext2 \<Rightarrow> nat \<Rightarrow> nat \<Rightarrow> nat" where
  "inode_no e g i = g * unat (inodes_per_group e) + i + 1"

definition ifree_set :: "('w ext2 \<Rightarrow> u32 \<Rightarrow> u8 list) \<Rightarrow> 'w ext2 \<Rightarrow> nat set" where
  "ifree_set blk e = (\<Union>g < unat (nr_groups e). inode_no e g ` ifree blk e g)"

definition icounts_ok :: "('w ext2 \<Rightarrow> u32 \<Rightarrow> u8 list) \<Rightarrow> 'w ext2 \<Rightarrow> bool" where
  "icounts_ok blk e \<longleftrightarrow>
     (\<forall>g < unat (nr_groups e). unat (bg_free_inodes_count (group_desc e g)) = card (ifree blk e g)) \<and>
     unat (free_inodes_count e) = (\<Sum>g < unat (nr_groups e). card (ifree blk e g))"

lemma finite_ifree [simp]: "finite (ifree blk e g)"
  by (simp add: ifree_def free_bits_def)

lemma ifree_less: "i \<in> ifree blk e g \<Longrightarrow> i < unat (inodes_per_group e)"
  by (simp add: ifree_def free_bits_def)

lemma card_ifree: "card (ifree blk e g) \<le> unat (inodes_per_group e)"
proof -
  have "ifree blk e g \<subseteq> {..<unat (inodes_per_group e)}" by (auto dest: ifree_less)
  from card_mono [OF _ this] show ?thesis by simp
qed

lemma inode_no_inj:
  assumes "i < unat (inodes_per_group e)" "j < unat (inodes_per_group e)" "inode_no e g i = inode_no e h j"
  shows "g = h \<and> i = j"
proof -
  have eq: "g * unat (inodes_per_group e) + i = h * unat (inodes_per_group e) + j" using assms(3) by (simp add: inode_no_def)
  have "g = (g * unat (inodes_per_group e) + i) div unat (inodes_per_group e)" using assms(1) by simp
  also have "\<dots> = h" unfolding eq using assms(2) by simp
  finally show ?thesis using eq by simp
qed

lemma same_layout_itab: "same_layout e e' \<Longrightarrow> itab_ok e' = itab_ok e"
  by (simp add: itab_ok_def tables_ok_def ibm_def in_table_def table_at_def table_blocks_def same_layoutD same_layout_meta)

lemma same_layout_inode_place: "same_layout e e' \<Longrightarrow> inode_place e' g ino = inode_place e g ino" "same_layout e e' \<Longrightarrow> ino_ok e' ino = ino_ok e ino"
  by (simp_all add: inode_place_def ino_ok_def same_layoutD)

lemma bitmap_numbers:
  assumes "itab_ok e" "i < unat (inodes_per_group e)" "length ws = unat (block_size e) div 4" "unat (block_size e) mod 32 = 0"
  shows "i < 32 * length ws" "unat (of_nat i :: u32) = i" "i < 32768"
proof -
  show i: "i < 32768" using assms(2) itab_okD(2) [OF assms(1)] by linarith
  have "i < 8 * unat (block_size e)" using assms(2) itab_okD(3) [OF assms(1)] by linarith
  then show "i < 32 * length ws" using bits_of_words [OF assms(4)] assms(3) by simp
  show "unat (of_nat i :: u32) = i" using i by (simp add: unat_of_nat_small)
qed

text \<open>The number of the inode with bit \<open>i\<close> of group \<open>g\<close>.\<close>

lemma inode_number:
  assumes t: "tables_ok e" and g: "unat g < unat (nr_groups e)" and i: "unat b < unat (inodes_per_group e)"
  shows "unat (g * inodes_per_group e + b + 1) = inode_no e (unat g) (unat b)" "inode_no e (unat g) (unat b) \<le> unat (inodes_count e)"
    "ino_ok e (g * inodes_per_group e + b + 1)"
proof -
  note T = tables_okD [OF t]
  have "(unat g + 1) * unat (inodes_per_group e) \<le> unat (nr_groups e) * unat (inodes_per_group e)" using g by (intro mult_le_mono1) simp
  then show le: "inode_no e (unat g) (unat b) \<le> unat (inodes_count e)" using i T(7) by (simp add: inode_no_def)
  have lt: "unat g * unat (inodes_per_group e) + unat b + 1 < 2 ^ 32" using le_less_trans [OF le unat_less_2_32] by (simp add: inode_no_def)
  then have "unat (g * inodes_per_group e) = unat g * unat (inodes_per_group e)" by (intro unat_mult_no_wrap) simp
  then show u: "unat (g * inodes_per_group e + b + 1) = inode_no e (unat g) (unat b)"
    using lt by (simp add: unat_add_no_wrap inode_no_def)
  then have "0 < unat (g * inodes_per_group e + b + 1)" by (simp add: inode_no_def)
  then show "ino_ok e (g * inodes_per_group e + b + 1)" using u le by (auto simp: ino_ok_def word_le_nat_alt unat_gt_0)
qed

text \<open>What changing one bit of the maps does to the set and the counts of free inodes.\<close>

lemma ifree_change:
  assumes c: "icounts_ok blk e" and sl: "same_layout e e'" and g: "g < unat (nr_groups e)"
    and A: "\<And>h. h < unat (nr_groups e) \<Longrightarrow> ifree blk e' h = (if h = g then A else ifree blk e h)"
    and d: "\<And>h. bg_free_inodes_count (group_desc e' h) = (if h = g then k else bg_free_inodes_count (group_desc e h))"
    and k: "unat k = card A" and n: "unat (free_inodes_count e') + card (ifree blk e g) = unat (free_inodes_count e) + card A"
  shows "icounts_ok blk e'"
proof -
  let ?n = "unat (nr_groups e)"
  have S: "nr_groups e' = nr_groups e" by (rule same_layoutD(5) [OF sl])
  have rest: "(\<Sum>h \<in> {..<?n} - {g}. card (ifree blk e' h)) = (\<Sum>h \<in> {..<?n} - {g}. card (ifree blk e h))"
    by (rule sum.cong) (auto simp: A)
  have "(\<Sum>h < ?n. card (ifree blk e' h)) = card A + (\<Sum>h \<in> {..<?n} - {g}. card (ifree blk e' h))"
    using g by (simp add: sum.remove [of "{..<?n}" g] A)
  moreover have "(\<Sum>h < ?n. card (ifree blk e h)) = card (ifree blk e g) + (\<Sum>h \<in> {..<?n} - {g}. card (ifree blk e h))"
    using g by (simp add: sum.remove [of "{..<?n}" g])
  ultimately have "unat (free_inodes_count e') = (\<Sum>h < ?n. card (ifree blk e' h))" using n c rest by (simp add: icounts_ok_def)
  then show ?thesis using c d k A unfolding icounts_ok_def S by auto
qed

lemma ifree_set_change:
  assumes sl: "same_layout e e'" and g: "g < unat (nr_groups e)" and i: "i < unat (inodes_per_group e)"
    and A: "\<And>h. h < unat (nr_groups e) \<Longrightarrow> ifree blk e' h = (if h = g then A else ifree blk e h)"
  shows "A = ifree blk e g - {i} \<Longrightarrow> ifree_set blk e' = ifree_set blk e - {inode_no e g i}"
    "A = insert i (ifree blk e g) \<Longrightarrow> ifree_set blk e' = insert (inode_no e g i) (ifree_set blk e)"
proof -
  have S: "nr_groups e' = nr_groups e" "inode_no e' = inode_no e" using same_layoutD [OF sl] by (auto simp: inode_no_def fun_eq_iff)
  have mem: "x \<in> ifree_set blk e' \<longleftrightarrow> (\<exists>h < unat (nr_groups e). \<exists>j \<in> (if h = g then A else ifree blk e h). x = inode_no e h j)" for x
  proof -
    have "x \<in> ifree_set blk e' \<longleftrightarrow> (\<exists>h < unat (nr_groups e). \<exists>j \<in> ifree blk e' h. x = inode_no e h j)" unfolding ifree_set_def S by auto
    then show ?thesis by (simp add: A cong: conj_cong)
  qed
  show "ifree_set blk e' = ifree_set blk e - {inode_no e g i}" if "A = ifree blk e g - {i}"
  proof (rule set_eqI)
    fix x
    have "x \<in> ifree_set blk e' \<longleftrightarrow> (\<exists>h < unat (nr_groups e). \<exists>j \<in> ifree blk e h. x = inode_no e h j \<and> \<not> (h = g \<and> j = i))"
      unfolding mem that by (auto split: if_splits)
    also have "\<dots> \<longleftrightarrow> x \<in> ifree_set blk e - {inode_no e g i}"
      using i inode_no_inj [of _ e i _ g] by (auto simp: ifree_set_def dest: ifree_less)
    finally show "x \<in> ifree_set blk e' \<longleftrightarrow> x \<in> ifree_set blk e - {inode_no e g i}" .
  qed
  show "ifree_set blk e' = insert (inode_no e g i) (ifree_set blk e)" if "A = insert i (ifree blk e g)"
  proof (rule set_eqI)
    fix x
    have "x \<in> ifree_set blk e' \<longleftrightarrow> x = inode_no e g i \<or> (\<exists>h < unat (nr_groups e). \<exists>j \<in> ifree blk e h. x = inode_no e h j)"
      unfolding mem that using g by (auto split: if_splits)
    then show "x \<in> ifree_set blk e' \<longleftrightarrow> x \<in> insert (inode_no e g i) (ifree_set blk e)" by (auto simp: ifree_set_def)
  qed
qed

section \<open>Writing inodes and descriptors\<close>

text \<open>A new inode: all bytes are zero but those of the mode.\<close>

definition fresh_raw :: "u16 \<Rightarrow> ext2_raw" where
  "fresh_raw mode = \<lparr>raw_mode = mode, raw_uid = 0, raw_size = 0, raw_atime = 0, raw_ctime = 0, raw_mtime = 0, raw_dtime = 0, raw_gid = 0,
     raw_links_count = 0, raw_blocks = 0, raw_flags = 0, raw_osd1 = 0, raw_block = replicate 15 0, raw_generation = 0,
     raw_file_acl = 0, raw_dir_acl = 0, raw_faddr = 0\<rparr>"

lemma le_word_zero [simp]: "le_word (replicate n 0) = 0"
  by (induction n) simp_all

lemma raw_of_fresh: "raw_of (le_bytes 2 mode @ replicate 114 0) = fresh_raw mode"
proof -
  have "bytes_words (replicate 60 0) = replicate 15 0" using bytes_words_zero [of 15] by simp
  then show ?thesis by (simp add: raw_of_def fresh_raw_def Let_def)
qed

lemma write_mode_over_zero:
  assumes "off + isz \<le> length buf" "RAW_SIZE \<le> isz"
  shows "take RAW_SIZE (drop off (copy_at off (le_bytes 2 mode) (copy_at off (replicate isz 0) buf))) = le_bytes 2 mode @ replicate 114 0"
proof -
  obtain k where k: "isz = 116 + k" using assms(2) by (metis le_add_diff_inverse)
  have "replicate isz (0::u8) = replicate 2 0 @ replicate 114 0 @ replicate k 0" unfolding k by (simp flip: replicate_add)
  then have "copy_at off (le_bytes 2 mode) (copy_at off (replicate isz 0) buf) =
      take off buf @ le_bytes 2 mode @ replicate 114 0 @ replicate k 0 @ drop (off + isz) buf"
    using assms(1) k by (simp add: copy_at_def)
  then show ?thesis using assms(1) by simp
qed

context block_store
begin

text \<open>New counts of free inodes in a descriptor and in the super block.\<close>

lemma desc_step:
  fixes k :: u16
  assumes v: "vol_ok vinv blk e" and g: "g < nr_groups e"
  obtains e' where "ext2_write_group_desc devs True g
      (e\<lparr>group_desc := (group_desc e)(unat g := (group_desc e (unat g))\<lparr>bg_free_inodes_count := k\<rparr>), free_inodes_count := m, e_dirty := True\<rparr>) = (Inr (), e')"
    "vol_ok vinv blk e'" "changed blk e e' {}" "free_set blk e' = free_set blk e"
    "group_desc e' = (group_desc e)(unat g := (group_desc e (unat g))\<lparr>bg_free_inodes_count := k\<rparr>)" "free_inodes_count e' = m"
proof -
  note V = vol_okD [OF v]
  let ?gd = "(group_desc e)(unat g := (group_desc e (unat g))\<lparr>bg_free_inodes_count := k\<rparr>)"
  let ?e = "e\<lparr>group_desc := ?gd, free_inodes_count := m, e_dirty := True\<rparr>"
  have eq: "?e = e\<lparr>group_desc := ?gd, free_blocks_count := free_blocks_count e, e_dirty := True\<rparr>\<lparr>free_inodes_count := m\<rparr>" by simp
  have tab: "same_tables ?gd (group_desc e)" by (simp add: same_tables_def)
  have sl: "same_layout e ?e"
    by (rule same_layoutI2 [where n = "free_blocks_count e" and m = m and d = True and w = "e_disk e", OF _ tab]) simp
  note S = same_layoutD [OF sl]
  have "vinv ?e" unfolding eq inodes_inv counters_inv by (rule V(1))
  moreover have blk: "blk ?e = blk e" unfolding eq inodes_blk counters_blk ..
  ultimately obtain w where w: "ext2_write_group_desc devs True g ?e = (Inr (), ?e\<lparr>e_disk := w, e_dirty := True\<rparr>)" "vinv (?e\<lparr>e_disk := w, e_dirty := True\<rparr>)"
    "\<And>h. h < unat (nr_groups ?e) \<Longrightarrow> blk (?e\<lparr>e_disk := w, e_dirty := True\<rparr>) (bitmap_at ?e h) = blk ?e (bitmap_at ?e h)"
    "\<And>b. b < blocks_count ?e \<Longrightarrow> \<not> meta ?e b \<Longrightarrow> blk (?e\<lparr>e_disk := w, e_dirty := True\<rparr>) b = blk ?e b"
    using write_desc_ok [of ?e g] V(2) g S(5,11) by metis
  let ?e' = "?e\<lparr>e_disk := w, e_dirty := True\<rparr>"
  have sl': "same_layout e ?e'"
    by (rule same_layoutI2 [where n = "free_blocks_count e" and m = m and d = True and w = w, OF _ tab]) simp
  have "blk ?e' (bitmap_at e h) = blk e (bitmap_at e h)" if "h < unat (nr_groups e)" for h
    using w(3) [of h] that by (simp only: S blk)
  note vs = vol_ok_same [OF v w(2) sl' _ _ this]
  have "blk ?e' b = blk e b" if "b < blocks_count e" "\<not> meta e b" for b using w(4) [of b] that unfolding S(6) blk same_layout_meta [OF sl] by blast
  then have "changed blk e ?e' {}" using sl' vs(2) by (simp add: changed_def)
  then show thesis using that [OF w(1)] vs by simp
qed

lemma location_ok:
  assumes t: "tables_ok e" and i: "ino_ok e ino"
  shows "ext2_inode_location e ino = Inr (inode_place e ((ino - 1) div inodes_per_group e) ino)"
  using i inode_place_ok(2) [OF t i] by (auto simp: ext2_inode_location_def ino_ok_def Let_def not_le not_less)

text \<open>Clearing an inode and setting its mode: one block is written twice.\<close>

lemma fresh_inode_ok:
  assumes v: "vol_ok vinv blk e" and t: "itab_ok e" and i: "ino_ok e ino"
  obtains b off e1 e2 where "inode_place e ((ino - 1) div inodes_per_group e) ino = (b, off)" "in_table e (igroup e ino) (unat b)"
    "ext2_zero_inode devs True e ino = Some (Inr (), e1)" "ext2_set_inode_mode devs True e1 ino mode = (Inr (), e2)"
    "vol_ok vinv blk e2" "changed blk e e2 {b}" "free_set blk e2 = free_set blk e" "group_desc e2 = group_desc e"
    "free_inodes_count e2 = free_inodes_count e"
    "\<And>j. ino_ok e j \<Longrightarrow> raw_at blk e2 j = (if j = ino then fresh_raw mode else raw_at blk e j)"
proof -
  note I = itab_okD [OF t] and T = tables_okD [OF itab_okD(1) [OF t]]
  note P = inode_place_ok [OF I(1) i]
  obtain b off where p: "inode_place e ((ino - 1) div inodes_per_group e) ino = (b, off)" "b < blocks_count e"
    "unat b = table_at e (igroup e ino) + ibyte e ino div unat (block_size e)" "ibyte e ino div unat (block_size e) < table_blocks e"
    "unat off + unat (inode_size e) \<le> unat (block_size e)" using P(3) by blast
  have gn: "igroup e ino < unat (nr_groups e)" using P(1,2) by (simp add: word_less_nat_alt)
  have it: "in_table e (igroup e ino) (unat b)" using p(3,4) by (simp add: in_table_def)
  have nm: "\<not> meta e b" by (rule I(8) [OF gn it])
  have len: "length (blk e b) = unat (block_size e)" by (rule block_length [OF vol_okD(1) [OF v] p(2)])
  let ?z = "copy_at (unat off) (replicate (unat (inode_size e)) 0) (blk e b)"
  have lz: "length ?z = unat (block_size e)" using p(5) len by (simp add: copy_simps)
  obtain e1 where e1: "ext2_write_block devs b ?z e = (Inr (), e1)" "vol_ok vinv blk e1" "changed blk e e1 {b}" "free_set blk e1 = free_set blk e"
    "blk e1 b = ?z" "group_desc e1 = group_desc e" "free_inodes_count e1 = free_inodes_count e" by (rule put_ok [OF v p(2) nm lz])
  have S1: "same_layout e e1" by (rule changedD(1) [OF e1(3)])
  note S = same_layoutD [OF S1]
  have "unat (block_size e - off) = unat (block_size e) - unat off" using p(5) by (simp add: unat_sub_if' word_le_nat_alt)
  then have chunk: "min (inode_size e) (block_size e - off) = inode_size e" using p(5) by (intro min_absorb1) (simp add: word_le_nat_alt)
  have "inode_size e \<noteq> 0" using T(1) by auto
  then have "zero_loop devs (inode_size e) b off e = Some (Inr (), e1)"
    using e1(1) read_block [OF vol_okD(1) [OF v] p(2)] chunk
    by (subst zero_loop.simps) (simp add: Let_def zero_loop.simps [of devs 0])
  then have z: "ext2_zero_inode devs True e ino = Some (Inr (), e1)" using location_ok [OF I(1) i] p(1) by (simp add: ext2_zero_inode_def)
  let ?m = "copy_at (unat off) (le_bytes 2 mode) ?z"
  have lm: "length ?m = unat (block_size e1)" using lz p(5) T(1) S(7) by (simp add: copy_simps)
  have b1: "b < blocks_count e1" "\<not> meta e1 b" using p(2) nm S by (simp_all add: same_layout_meta [OF S1])
  obtain e2 where e2: "ext2_write_block devs b ?m e1 = (Inr (), e2)" "vol_ok vinv blk e2" "changed blk e1 e2 {b}" "free_set blk e2 = free_set blk e1"
    "blk e2 b = ?m" "group_desc e2 = group_desc e1" "free_inodes_count e2 = free_inodes_count e1" by (rule put_ok [OF e1(2) b1 lm])
  have t1: "tables_ok e1" "ino_ok e1 ino" using same_layout_itab [OF S1] t i same_layout_inode_place(2) [OF S1] by (auto dest: itab_okD(1))
  have m: "ext2_set_inode_mode devs True e1 ino mode = (Inr (), e2)"
    using location_ok [OF t1] p(1) e2(1) read_block [OF vol_okD(1) [OF e1(2)] b1(1)] e1(5)
    by (simp add: ext2_set_inode_mode_def same_layout_inode_place [OF S1] S)
  have ch: "changed blk e e2 {b}" using changed_trans [OF e1(3) e2(3)] by simp
  note S2 = changedD(1) [OF ch]
  have raw: "raw_at blk e2 j = (if j = ino then fresh_raw mode else raw_at blk e j)" if j: "ino_ok e j" for j
  proof -
    obtain b' off' where q: "inode_place e ((j - 1) div inodes_per_group e) j = (b', off')" "b' < blocks_count e"
      "unat off' + unat (inode_size e) \<le> unat (block_size e)" "in_table e (igroup e j) (unat b')"
      using inode_place_ok(3) [OF I(1) j] by (auto simp: in_table_def)
    have gj: "igroup e j < unat (nr_groups e)" using inode_place_ok(1,2) [OF I(1) j] by (simp add: word_less_nat_alt)
    have "raw_at blk e2 ino = fresh_raw mode"
      using p(1) e2(5) write_mode_over_zero [of "unat off" "unat (inode_size e)" "blk e b" mode] p(5) len T(1)
      by (simp add: raw_at_def same_layout_inode_place [OF S2] same_layoutD [OF S2] raw_of_fresh)
    moreover have "raw_at blk e2 j = raw_at blk e j" if ne: "j \<noteq> ino"
    proof (cases "b' = b")
      case True
      have ap: "unat off + unat (inode_size e) \<le> unat off' \<or> unat off' + unat (inode_size e) \<le> unat off"
        by (rule inode_places_apart [OF I(1) i j]) (use ne p(1) q(1) True in auto)
      then have "take RAW_SIZE (drop (unat off') ?m) = take RAW_SIZE (drop (unat off') ?z)"
        using lz q(3) p(5) T(1) by (intro copy_at_apart) auto
      also have "\<dots> = take RAW_SIZE (drop (unat off') (blk e b))"
        using ap len q(3) p(5) T(1) by (intro copy_at_apart) auto
      finally show ?thesis using q(1) True e2(5) by (simp add: raw_at_def same_layout_inode_place [OF S2] same_layoutD [OF S2])
    next
      case False
      then have "blk e2 b' = blk e b'" using changedD(3) [OF ch q(2) I(8) [OF gj q(4)]] e2(4) e1(4) by simp
      then show ?thesis using q(1) by (simp add: raw_at_def same_layout_inode_place [OF S2] same_layoutD [OF S2])
    qed
    ultimately show ?thesis by simp
  qed
  show thesis
    by (rule that [OF p(1) it z m e2(2) ch]) (use e1 e2 raw in simp_all)
qed

end

section \<open>Allocating and freeing inodes\<close>

definition ivol_ok :: "('w ext2 \<Rightarrow> bool) \<Rightarrow> ('w ext2 \<Rightarrow> u32 \<Rightarrow> u8 list) \<Rightarrow> 'w ext2 \<Rightarrow> bool" where
  "ivol_ok vinv blk e \<longleftrightarrow> vol_ok vinv blk e \<and> itab_ok e \<and> icounts_ok blk e"

lemma ifree_same:
  assumes ch: "changed blk e e' M" and fs: "free_set blk e' = free_set blk e" and t: "itab_ok e" and h: "h < unat (nr_groups e)" "ibm e h \<notin> M"
  shows "blk e' (ibm e h) = blk e (ibm e h)" "ibm e' h = ibm e h" "ifree blk e' h = ifree blk e h"
proof -
  note S = same_layoutD [OF changedD(1) [OF ch]]
  show a: "blk e' (ibm e h) = blk e (ibm e h)" by (rule changedD(3) [OF ch]) (use itab_okD(4,5) [OF t h(1)] h(2) fs in auto)
  show b: "ibm e' h = ibm e h" by (simp add: ibm_def S)
  show "ifree blk e' h = ifree blk e h" by (simp add: ifree_def a b S)
qed

lemma raw_at_same:
  assumes ch: "changed blk e e' M" and fs: "free_set blk e' = free_set blk e" and t: "itab_ok e" and j: "ino_ok e j"
    and M: "\<And>b h. b \<in> M \<Longrightarrow> h < unat (nr_groups e) \<Longrightarrow> \<not> in_table e h (unat b)"
  shows "raw_at blk e' j = raw_at blk e j"
proof -
  note P = inode_place_ok [OF itab_okD(1) [OF t] j] and S = changedD(1) [OF ch]
  obtain b off where p: "inode_place e ((j - 1) div inodes_per_group e) j = (b, off)" "b < blocks_count e" "in_table e (igroup e j) (unat b)"
    using P(3) by (auto simp: in_table_def)
  have g: "igroup e j < unat (nr_groups e)" using P(1,2) by (simp add: word_less_nat_alt)
  have "blk e' b = blk e b" by (rule changedD(3) [OF ch p(2) itab_okD(8) [OF t g p(3)]]) (use M p(3) g fs in auto)
  then show ?thesis using p(1) by (simp add: raw_at_def same_layout_inode_place [OF S] same_layoutD [OF S])
qed

context block_store
begin

lemma inode_bits:
  assumes v: "vol_ok vinv blk e" and t: "itab_ok e" and g: "g < unat (nr_groups e)"
  shows "length (bytes_words (blk e (ibm e g))) = perb e" "4 * perb e = unat (block_size e)" "unat (block_size e) mod 32 = 0"
    "ext2_read_block devs (ibm e g) buf e = Inr (blk e (ibm e g))"
proof -
  note V = vol_okD [OF v] and I = itab_okD [OF t]
  show "length (bytes_words (blk e (ibm e g))) = perb e" using block_length [OF V(1) I(4) [OF g]] by simp
  show m: "unat (block_size e) mod 32 = 0" by (rule layout_okD(2) [OF V(2)])
  then show "4 * perb e = unat (block_size e)" by presburger
  show "ext2_read_block devs (ibm e g) buf e = Inr (blk e (ibm e g))" by (rule read_block [OF V(1) I(4) [OF g]])
qed

lemma take_inode_ok:
  assumes iv: "ivol_ok vinv blk e" and g: "g < nr_groups e" and i: "i \<in> ifree blk e (unat g)"
  obtains e' where "take_inode devs (\<lambda>_. True) mode g (bytes_words (blk e (ibm e (unat g)))) (of_nat i) e = Some (Inr (of_nat (inode_no e (unat g) i)), e')"
    "ivol_ok vinv blk e'" "same_layout e e'" "free_set blk e' = free_set blk e" "ifree_set blk e' = ifree_set blk e - {inode_no e (unat g) i}"
    "\<And>j. ino_ok e j \<Longrightarrow> raw_at blk e' j = (if j = of_nat (inode_no e (unat g) i) then fresh_raw mode else raw_at blk e j)"
proof -
  have v: "vol_ok vinv blk e" and t: "itab_ok e" and c: "icounts_ok blk e" using iv by (simp_all add: ivol_ok_def)
  note I = itab_okD [OF t]
  let ?g = "unat g" and ?ws = "bytes_words (blk e (ibm e (unat g)))" and ?per = "unat (inodes_per_group e)"
  have gn: "?g < unat (nr_groups e)" using g by (simp add: word_less_nat_alt)
  note B = inode_bits [OF v t gn] and ip = ifree_less [OF i]
  note N = bitmap_numbers [OF t ip B(1,3)]
  define b :: u32 where "b = of_nat i"
  have ub: "unat b = i" by (simp add: b_def N(2))
  define ino where "ino = g * inodes_per_group e + b + 1"
  have "unat b < ?per" using ip ub by simp
  note IN = inode_number [OF I(1) gn this]
  have ino: "ino = of_nat (inode_no e ?g i)" "ino_ok e ino"
    using IN ub le_less_trans [OF IN(2) unat_less_2_32] by (simp_all add: ino_def word_unat_eq_iff unat_of_nat_small)
  let ?A = "ifree blk e ?g - {i}"
  have A: "?A = free_bits (set_bit i ?ws) ?per" using N(1) by (simp add: ifree_def free_bits_set)
  have cA: "card (ifree blk e ?g) = Suc (card ?A)" by (rule card.remove [OF finite_ifree i])
  obtain e1 where e1: "ext2_write_block devs (ibm e ?g) (words_bytes (set_bit i ?ws)) e = (Inr (), e1)" "vol_ok vinv blk e1" "changed blk e e1 {ibm e ?g}"
    "free_set blk e1 = free_set blk e" "blk e1 (ibm e ?g) = words_bytes (set_bit i ?ws)" "group_desc e1 = group_desc e" "free_inodes_count e1 = free_inodes_count e"
    by (rule put_ok [OF v I(4,5) [OF gn], where buf = "words_bytes (set_bit i ?ws)"]) (use B(1,2) in \<open>simp_all add: set_bit_def\<close>)
  have sl1: "same_layout e e1" by (rule changedD(1) [OF e1(3)])
  note S1 = same_layoutD [OF sl1]
  have t1: "itab_ok e1" "ino_ok e1 ino" using t ino(2) same_layout_itab [OF sl1] same_layout_inode_place(2) [OF sl1] by simp_all
  obtain tb off e2 e3 where p: "inode_place e1 ((ino - 1) div inodes_per_group e1) ino = (tb, off)" "in_table e1 (igroup e1 ino) (unat tb)"
    and z: "ext2_zero_inode devs True e1 ino = Some (Inr (), e2)" "ext2_set_inode_mode devs True e2 ino mode = (Inr (), e3)"
    and e3: "vol_ok vinv blk e3" "changed blk e1 e3 {tb}" "free_set blk e3 = free_set blk e1" "group_desc e3 = group_desc e1" "free_inodes_count e3 = free_inodes_count e1"
    and raw3: "\<And>j. ino_ok e1 j \<Longrightarrow> raw_at blk e3 j = (if j = ino then fresh_raw mode else raw_at blk e1 j)"
    by (rule fresh_inode_ok [OF e1(2) t1, where mode = mode]) blast
  have ch3: "changed blk e e3 {ibm e ?g, tb}" using changed_trans [OF e1(3) e3(2)] by (simp add: insert_commute)
  have sl3: "same_layout e e3" by (rule changedD(1) [OF ch3])
  let ?k = "bg_free_inodes_count (group_desc e3 ?g) - 1" and ?m = "free_inodes_count e3 - 1"
  have g3: "g < nr_groups e3" using g same_layoutD(5) [OF sl3] by simp
  obtain e4 where e4: "ext2_write_group_desc devs True g (e3\<lparr>group_desc := (group_desc e3)(?g := (group_desc e3 ?g)\<lparr>bg_free_inodes_count := ?k\<rparr>),
        free_inodes_count := ?m, e_dirty := True\<rparr>) = (Inr (), e4)" "vol_ok vinv blk e4" "changed blk e3 e4 {}" "free_set blk e4 = free_set blk e3"
      "group_desc e4 = (group_desc e3)(?g := (group_desc e3 ?g)\<lparr>bg_free_inodes_count := ?k\<rparr>)" "free_inodes_count e4 = ?m"
    by (rule desc_step [OF e3(1) g3])
  have ch4: "changed blk e e4 {ibm e ?g, tb}" using changed_trans [OF ch3 e4(3)] by simp
  have sl4: "same_layout e e4" by (rule changedD(1) [OF ch4])
  have fs: "free_set blk e4 = free_set blk e" using e4(4) e3(3) e1(4) by simp
  have gi: "igroup e ino < unat (nr_groups e)" using inode_place_ok(1,2) [OF I(1) ino(2)] by (simp add: word_less_nat_alt)
  have tbt: "in_table e (igroup e ino) (unat tb)" using p(2) S1 by (simp add: in_table_def table_at_def table_blocks_def)
  have ntb: "ibm e h \<noteq> tb" if "h < unat (nr_groups e)" for h using I(7) [OF that gi] tbt by auto
  have fr: "ifree blk e4 h = (if h = ?g then ?A else ifree blk e h)" if h: "h < unat (nr_groups e)" for h
  proof (cases "h = ?g")
    case True
    have "ifree blk e3 ?g = ifree blk e1 ?g"
      by (rule ifree_same(3) [OF e3(2,3) t1(1)]) (use gn ntb [OF gn] S1 in \<open>simp_all add: ibm_def\<close>)
    moreover have "ifree blk e4 ?g = ifree blk e3 ?g"
      by (rule ifree_same(3) [OF e4(3,4)]) (use gn t same_layout_itab [OF sl3] same_layoutD(5) [OF sl3] in simp_all)
    moreover have "ifree blk e1 ?g = ?A" unfolding A using e1(5,6) by (simp add: ifree_def ibm_def S1)
    ultimately show ?thesis using True by simp
  next
    case False
    then show ?thesis using ifree_same(3) [OF ch4 fs t h] I(6) [OF gn h] ntb [OF h] by auto
  qed
  have d: "bg_free_inodes_count (group_desc e4 h) = (if h = ?g then ?k else bg_free_inodes_count (group_desc e h))" for h
    using e4(5) e3(4) e1(6) by simp
  have "unat (bg_free_inodes_count (group_desc e ?g)) = Suc (card ?A)" using c gn cA by (simp add: icounts_ok_def)
  then have k: "unat ?k = card ?A" using e3(4) e1(6) by (simp add: unat_sub_if' word_le_nat_alt)
  have "card (ifree blk e ?g) \<le> (\<Sum>h < unat (nr_groups e). card (ifree blk e h))" by (rule member_le_sum) (use gn in auto)
  then have "Suc (card ?A) \<le> unat (free_inodes_count e)" using c cA by (simp add: icounts_ok_def)
  then have n: "unat (free_inodes_count e4) + card (ifree blk e ?g) = unat (free_inodes_count e) + card ?A"
    using e4(6) e3(5) e1(7) cA by (simp add: unat_sub_if' word_le_nat_alt)
  have "icounts_ok blk e4" by (rule ifree_change [OF c sl4 gn fr d k n])
  then have iv4: "ivol_ok vinv blk e4" using e4(2) t same_layout_itab [OF sl4] by (simp add: ivol_ok_def)
  have raw: "raw_at blk e4 j = (if j = ino then fresh_raw mode else raw_at blk e j)" if j: "ino_ok e j" for j
  proof -
    have "raw_at blk e1 j = raw_at blk e j" by (rule raw_at_same [OF e1(3,4) t j]) (use I(7) gn in auto)
    moreover have "raw_at blk e4 j = raw_at blk e3 j"
      by (rule raw_at_same [OF e4(3,4)]) (use t j same_layout_itab [OF sl3] same_layout_inode_place(2) [OF sl3] in simp_all)
    ultimately show ?thesis using raw3 [of j] j same_layout_inode_place(2) [OF sl1] by simp
  qed
  have "\<not> ino > inodes_count e1" using ino(2) S1 by (auto simp: ino_ok_def)
  then have "take_inode devs (\<lambda>_. True) mode g ?ws b e = Some (Inr ino, e4)"
    using e1(1) z e4(1) unfolding take_inode_def Let_def upd_desc_def ub
    by (simp add: ibm_def [symmetric] S1 ino_def [symmetric])
  then show thesis using that iv4 sl4 fs ifree_set_change(1) [OF sl4 gn ip fr refl] raw ino(1) by (simp add: b_def)
qed

lemma inode_scan_ok:
  assumes iv: "ivol_ok vinv blk e" and gs: "\<forall>g \<in> set gs. g < nr_groups e"
  shows "if \<exists>g \<in> set gs. ifree blk e (unat g) \<noteq> {}
    then \<exists>k e'. inode_scan devs (\<lambda>_. True) mode gs e = Some (Inr (of_nat k), e') \<and> k \<in> ifree_set blk e \<and> ivol_ok vinv blk e' \<and> same_layout e e' \<and>
      free_set blk e' = free_set blk e \<and> ifree_set blk e' = ifree_set blk e - {k} \<and>
      (\<forall>j. ino_ok e j \<longrightarrow> raw_at blk e' j = (if j = of_nat k then fresh_raw mode else raw_at blk e j))
    else inode_scan devs (\<lambda>_. True) mode gs e = Some (Inl ENOSPC, e)"
  using gs
proof (induction gs)
  case (Cons g gs)
  have v: "vol_ok vinv blk e" and t: "itab_ok e" and c: "icounts_ok blk e" using iv by (simp_all add: ivol_ok_def)
  have g: "g < nr_groups e" "unat g < unat (nr_groups e)" using Cons.prems by (simp_all add: word_less_nat_alt)
  have free: "bg_free_inodes_count (group_desc e (unat g)) = 0 \<longleftrightarrow> ifree blk e (unat g) = {}"
    using c g(2) by (auto simp: icounts_ok_def unat_eq_0 [symmetric])
  show ?case
  proof (cases "ifree blk e (unat g) = {}")
    case True
    then have "inode_scan devs (\<lambda>_. True) mode (g # gs) e = inode_scan devs (\<lambda>_. True) mode gs e" using free by (simp add: Let_def)
    then show ?thesis using True Cons by auto
  next
    case False
    note B = inode_bits [OF v t g(2)] and I = itab_okD [OF t]
    let ?ws = "bytes_words (blk e (ibm e (unat g)))"
    obtain i where i: "first_zero ?ws 0 (unat (inodes_per_group e)) = Some i" "i \<in> ifree blk e (unat g)"
    proof (cases "first_zero ?ws 0 (unat (inodes_per_group e))")
      case None
      with False show thesis by (auto simp: first_zero_def find_upt_None_iff ifree_def free_bits_def)
    next
      case (Some i)
      with that show thesis by (auto simp: ifree_def free_bits_def dest: first_zero_range)
    qed
    have "i < 32768" by (rule bitmap_numbers(3) [OF t ifree_less [OF i(2)] B(1,3)])
    then have nn: "\<not> sint (of_nat i :: u32) < 0" by (subst sint_small) (simp_all add: unat_of_nat_small)
    have "unat (inodes_per_group e) \<le> 2 ^ 32 - 32" using I(2) by simp
    then have "find_first_zero_bit ?ws (inodes_per_group e) = of_nat i"
      using scan_correct [of "inodes_per_group e" ?ws] i(1) by (simp add: bit_result_def)
    then have eq: "inode_scan devs (\<lambda>_. True) mode (g # gs) e = take_inode devs (\<lambda>_. True) mode g ?ws (of_nat i) e"
      using free False B(4) nn by (simp add: Let_def ibm_def)
    have "inode_no e (unat g) i \<in> ifree_set blk e" using g(2) i(2) by (auto simp: ifree_set_def)
    moreover obtain e' where "take_inode devs (\<lambda>_. True) mode g ?ws (of_nat i) e = Some (Inr (of_nat (inode_no e (unat g) i)), e')"
      "ivol_ok vinv blk e'" "same_layout e e'" "free_set blk e' = free_set blk e" "ifree_set blk e' = ifree_set blk e - {inode_no e (unat g) i}"
      "\<And>j. ino_ok e j \<Longrightarrow> raw_at blk e' j = (if j = of_nat (inode_no e (unat g) i) then fresh_raw mode else raw_at blk e j)"
      by (rule take_inode_ok [OF iv g(1) i(2), where mode = mode]) blast
    moreover have "\<exists>h \<in> set (g # gs). ifree blk e (unat h) \<noteq> {}" using False by auto
    ultimately show ?thesis unfolding eq by (simp only: if_True) blast
  qed
qed simp

lemma alloc_inode_ok:
  assumes iv: "ivol_ok vinv blk e"
  shows "if ifree_set blk e = {} then ext2_alloc_inode devs (\<lambda>_. True) mode e = Some (Inl ENOSPC, e)
    else \<exists>k e'. ext2_alloc_inode devs (\<lambda>_. True) mode e = Some (Inr (of_nat k), e') \<and> k \<in> ifree_set blk e \<and> ivol_ok vinv blk e' \<and> same_layout e e' \<and>
      free_set blk e' = free_set blk e \<and> ifree_set blk e' = ifree_set blk e - {k} \<and>
      (\<forall>j. ino_ok e j \<longrightarrow> raw_at blk e' j = (if j = of_nat k then fresh_raw mode else raw_at blk e j))"
proof -
  have v: "vol_ok vinv blk e" and c: "icounts_ok blk e" using iv by (simp_all add: ivol_ok_def)
  let ?n = "unat (nr_groups e)" and ?gs = "map of_nat [0..<unat (nr_groups e)] :: u32 list"
  have empty: "ifree_set blk e = {} \<longleftrightarrow> (\<forall>g < ?n. ifree blk e g = {})" by (auto simp: ifree_set_def)
  have zero: "free_inodes_count e = 0 \<longleftrightarrow> ifree_set blk e = {}"
    using c unfolding empty by (auto simp: icounts_ok_def unat_eq_0 [symmetric])
  have un: "unat (of_nat g :: u32) = g" if "g < ?n" for g using that by (simp add: unat_of_nat_small less_trans [OF _ unat_less_2_32])
  have gs: "\<forall>g \<in> set ?gs. g < nr_groups e" using un by (auto simp: word_less_nat_alt)
  have ex: "(\<exists>g \<in> set ?gs. ifree blk e (unat g) \<noteq> {}) \<longleftrightarrow> ifree_set blk e \<noteq> {}" unfolding empty using un by auto
  show ?thesis
    using inode_scan_ok [OF iv gs, of mode] zero vol_okD(4) [OF v] unfolding ex ext2_alloc_inode_def by (cases "ifree_set blk e = {}") simp_all
qed

lemma free_inode_ok:
  assumes iv: "ivol_ok vinv blk e" and j: "ino_ok e ino"
  shows "if unat ino \<in> ifree_set blk e then ext2_free_inode devs (\<lambda>_. True) ino e = (Inl EIO, e)
    else \<exists>e'. ext2_free_inode devs (\<lambda>_. True) ino e = (Inr (), e') \<and> ivol_ok vinv blk e' \<and> same_layout e e' \<and>
      free_set blk e' = free_set blk e \<and> ifree_set blk e' = insert (unat ino) (ifree_set blk e) \<and>
      (\<forall>j. ino_ok e j \<longrightarrow> raw_at blk e' j = raw_at blk e j)"
proof -
  have v: "vol_ok vinv blk e" and t: "itab_ok e" and c: "icounts_ok blk e" using iv by (simp_all add: ivol_ok_def)
  note I = itab_okD [OF t] and P = inode_place_ok [OF itab_okD(1) [OF t] j]
  let ?per = "unat (inodes_per_group e)"
  define g where "g = (ino - 1) div inodes_per_group e"
  define i where "i = (unat ino - 1) mod ?per"
  have g: "g < nr_groups e" "unat g < unat (nr_groups e)" "unat g = igroup e ino" using P(1,2) by (simp_all add: g_def word_less_nat_alt)
  have i: "i < ?per" using tables_okD(4) [OF I(1)] by (simp add: i_def)
  have i0: "0 < unat ino" using j by (simp add: ino_ok_def unat_gt_0)
  have ino: "unat ino = inode_no e (unat g) i" using i0 by (simp add: inode_no_def g(3) i_def)
  have ub: "unat ((ino - 1) mod inodes_per_group e) = i" using j by (simp add: i_def unat_mod ino_ok_def unat_minus_one)
  let ?g = "unat g" and ?ws = "bytes_words (blk e (ibm e (unat g)))"
  note B = inode_bits [OF v t g(2)]
  note N = bitmap_numbers [OF t i B(1,3)]
  have mem: "unat ino \<in> ifree_set blk e \<longleftrightarrow> i \<in> ifree blk e ?g"
    using g(2) i inode_no_inj [of i e _ ?g] unfolding ino ifree_set_def by (auto dest: ifree_less)
  have bit: "test_bit i ?ws \<longleftrightarrow> i \<notin> ifree blk e ?g" using i by (simp add: ifree_def free_bits_def)
  have pre: "\<not> (readonly e \<or> ino = 0 \<or> ino > inodes_count e)" "\<not> g \<ge> nr_groups e"
    using vol_okD(4) [OF v] j g(1) by (auto simp: ino_ok_def)
  show ?thesis
  proof (cases "i \<in> ifree blk e ?g")
    case True
    then show ?thesis using mem bit pre B(4)
      by (simp add: ext2_free_inode_def Let_def g_def [symmetric] ub ibm_def test_and_clear_bit_def)
  next
    case False
    let ?A = "insert i (ifree blk e ?g)"
    have A: "?A = free_bits (clear_bit i ?ws) ?per" using N(1) i by (simp add: ifree_def free_bits_clear)
    have cA: "card ?A = Suc (card (ifree blk e ?g))" using False by simp
    have "card ?A \<le> card {..<?per}" by (rule card_mono) (use i ifree_less in auto)
    then have le: "card ?A \<le> 32768" using I(2) by simp
    obtain e1 where e1: "ext2_write_block devs (ibm e ?g) (words_bytes (clear_bit i ?ws)) e = (Inr (), e1)" "vol_ok vinv blk e1" "changed blk e e1 {ibm e ?g}"
      "free_set blk e1 = free_set blk e" "blk e1 (ibm e ?g) = words_bytes (clear_bit i ?ws)" "group_desc e1 = group_desc e" "free_inodes_count e1 = free_inodes_count e"
      by (rule put_ok [OF v I(4,5) [OF g(2)], where buf = "words_bytes (clear_bit i ?ws)"]) (use B(1,2) in \<open>simp_all add: clear_bit_def\<close>)
    have sl1: "same_layout e e1" by (rule changedD(1) [OF e1(3)])
    note S1 = same_layoutD [OF sl1]
    let ?k = "bg_free_inodes_count (group_desc e1 ?g) + 1" and ?m = "free_inodes_count e1 + 1"
    have g1: "g < nr_groups e1" using g S1 by simp
    obtain e2 where e2: "ext2_write_group_desc devs True g (e1\<lparr>group_desc := (group_desc e1)(?g := (group_desc e1 ?g)\<lparr>bg_free_inodes_count := ?k\<rparr>),
          free_inodes_count := ?m, e_dirty := True\<rparr>) = (Inr (), e2)" "vol_ok vinv blk e2" "changed blk e1 e2 {}" "free_set blk e2 = free_set blk e1"
        "group_desc e2 = (group_desc e1)(?g := (group_desc e1 ?g)\<lparr>bg_free_inodes_count := ?k\<rparr>)" "free_inodes_count e2 = ?m"
      by (rule desc_step [OF e1(2) g1])
    have ch: "changed blk e e2 {ibm e ?g}" using changed_trans [OF e1(3) e2(3)] by simp
    have sl: "same_layout e e2" by (rule changedD(1) [OF ch])
    have fs: "free_set blk e2 = free_set blk e" using e2(4) e1(4) by simp
    have fr: "ifree blk e2 h = (if h = ?g then ?A else ifree blk e h)" if h: "h < unat (nr_groups e)" for h
    proof (cases "h = ?g")
      case True
      have "ifree blk e2 ?g = ifree blk e1 ?g"
        by (rule ifree_same(3) [OF e2(3,4)]) (use g(2) t same_layout_itab [OF sl1] S1 in simp_all)
      moreover have "ifree blk e1 ?g = ?A" unfolding A using e1(5,6) by (simp add: ifree_def ibm_def S1)
      ultimately show ?thesis using True by simp
    next
      case False
      then show ?thesis using ifree_same(3) [OF ch fs t h] I(6) [OF g(2) h] by auto
    qed
    have d: "bg_free_inodes_count (group_desc e2 h) = (if h = ?g then ?k else bg_free_inodes_count (group_desc e h))" for h
      using e2(5) e1(6) by simp
    have "unat (bg_free_inodes_count (group_desc e ?g)) = card (ifree blk e ?g)" using c g(2) by (simp add: icounts_ok_def)
    then have k: "unat ?k = card ?A" using e1(6) cA le by (simp add: unat_word_ariths(1))
    have "(\<Sum>h < unat (nr_groups e). card (ifree blk e h)) < (\<Sum>h < unat (nr_groups e). ?per)"
    proof (rule sum_strict_mono_ex1)
      show "\<forall>h \<in> {..<unat (nr_groups e)}. card (ifree blk e h) \<le> ?per"
        using card_ifree by blast
      have "card (ifree blk e ?g) < ?per" using \<open>card ?A \<le> card {..<?per}\<close> cA by simp
      then show "\<exists>h \<in> {..<unat (nr_groups e)}. card (ifree blk e h) < ?per" using g(2) by blast
    qed simp
    then have "unat (free_inodes_count e) < unat (inodes_count e)" using c tables_okD(7) [OF I(1)] by (simp add: icounts_ok_def)
    then have "unat (free_inodes_count e) + 1 < 2 ^ 32" 
      using le_less_trans [OF _ unat_less_2_32, of "unat (free_inodes_count e) + 1" "inodes_count e"] by simp
    then have n: "unat (free_inodes_count e2) + card (ifree blk e ?g) = unat (free_inodes_count e) + card ?A"
      using e2(6) e1(7) cA by (simp add: unat_add_no_wrap)
    have "icounts_ok blk e2" by (rule ifree_change [OF c sl g(2) fr d k n])
    then have "ivol_ok vinv blk e2" using e2(2) t same_layout_itab [OF sl] by (simp add: ivol_ok_def)
    moreover have "raw_at blk e2 l = raw_at blk e l" if "ino_ok e l" for l
      by (rule raw_at_same [OF ch fs t that]) (use I(7) g(2) in auto)
    moreover have "ifree_set blk e2 = insert (unat ino) (ifree_set blk e)" unfolding ino by (rule ifree_set_change(2) [OF sl g(2) i fr refl])
    moreover have "ext2_free_inode devs (\<lambda>_. True) ino e = (Inr (), e2)"
      using False bit pre B(4) e1(1) e2(1) unfolding ext2_free_inode_def Let_def g_def [symmetric] ub ibm_def upd_desc_def
      by (simp add: test_and_clear_bit_def)
    ultimately show ?thesis using False mem sl fs by auto
  qed
qed

end

section \<open>Properties\<close>

lemma vol_example_inodes: "ivol_ok rd_volume rd_block vol_example" "ifree_set rd_block vol_example = {4, 5, 6, 7, 8}"
proof -
  have "bytes_words (rd_block vol_example (ibm vol_example 0)) ! 0 = 7"
    by (simp add: ibm_def rd_block_def vol_example_def bytes_words_nth mem_read_def MINOR_def del: upt_rec_numeral)
  then have "test_bit i (bytes_words (rd_block vol_example (ibm vol_example 0))) \<longleftrightarrow> bit (7 :: u32) i" if "i < 8" for i
    using that by (simp add: test_bit_def)
  moreover have "unat (inodes_per_group vol_example) = 8" by (simp add: vol_example_def)
  ultimately have "ifree rd_block vol_example 0 = {i. i < 8 \<and> \<not> bit (7 :: u32) i}" unfolding ifree_def free_bits_def by auto
  also have "\<dots> = set (filter (\<lambda>i. \<not> bit (7 :: u32) i) [0..<8])" by auto
  also have "\<dots> = {3, 4, 5, 6, 7}" by code_simp
  finally have f: "ifree rd_block vol_example 0 = {3, 4, 5, 6, 7}" .
  have n: "unat (nr_groups vol_example) = 1" by (simp add: vol_example_def)
  then show "ifree_set rd_block vol_example = {4, 5, 6, 7, 8}"
    by (simp add: ifree_set_def lessThan_Suc f) (simp add: inode_no_def)
  have "icounts_ok rd_block vol_example"
    using n by (simp add: icounts_ok_def f) (simp add: vol_example_def)
  moreover have "itab_ok vol_example"
    unfolding itab_ok_def using n vol_example_tables(1)
    by (auto simp: vol_example_def ibm_def in_table_def table_at_def table_blocks_def meta_def bitmap_at_def desc_block_def)
  ultimately show "ivol_ok rd_volume rd_block vol_example" using vol_example_vol_ok(1) by (simp add: ivol_ok_def)
qed

text \<open>C27: Allocating an inode on a ram disk takes one number out of the set of free inodes that the bit maps on disk
  describe, and fails with \<^verbatim>\<open>ENOSPC\<close> exactly when the set is empty; the inode on disk is then all zero but for
  its mode, every other inode is as it was, and the blocks of the volume stay as free or used as they were. Freeing an inode
  in use puts exactly it back and changes no inode; freeing a free inode is refused with \<^verbatim>\<open>EIO\<close>. The counts stay exact.\<close>

theorem ext2_inode_alloc_exact:
  assumes "ivol_ok rd_volume rd_block e"
  shows "(if ifree_set rd_block e = {} then ext2_alloc_inode blkdev_init (\<lambda>_. True) mode e = Some (Inl ENOSPC, e)
      else \<exists>k e'. ext2_alloc_inode blkdev_init (\<lambda>_. True) mode e = Some (Inr (of_nat k), e') \<and> k \<in> ifree_set rd_block e \<and>
        ivol_ok rd_volume rd_block e' \<and> same_layout e e' \<and> free_set rd_block e' = free_set rd_block e \<and> ifree_set rd_block e' = ifree_set rd_block e - {k} \<and>
        (\<forall>j. ino_ok e j \<longrightarrow> raw_at rd_block e' j = (if j = of_nat k then fresh_raw mode else raw_at rd_block e j))) \<and>
    (ino_ok e ino \<longrightarrow> (if unat ino \<in> ifree_set rd_block e then ext2_free_inode blkdev_init (\<lambda>_. True) ino e = (Inl EIO, e)
      else \<exists>e'. ext2_free_inode blkdev_init (\<lambda>_. True) ino e = (Inr (), e') \<and> ivol_ok rd_volume rd_block e' \<and> same_layout e e' \<and>
        free_set rd_block e' = free_set rd_block e \<and> ifree_set rd_block e' = insert (unat ino) (ifree_set rd_block e) \<and>
        (\<forall>j. ino_ok e j \<longrightarrow> raw_at rd_block e' j = raw_at rd_block e j)))"
  using rdvol.alloc_inode_ok [OF assms, of mode] rdvol.free_inode_ok [OF assms, of ino] by blast

theorem ext2_inode_alloc_exact_witness:
  "(\<exists>k e'. ext2_alloc_inode blkdev_init (\<lambda>_. True) 0x81a4 vol_example = Some (Inr (of_nat k), e') \<and> k \<in> {4, 5, 6, 7, 8}) \<and>
   (\<exists>e'. ext2_free_inode blkdev_init (\<lambda>_. True) 3 vol_example = (Inr (), e') \<and> ifree_set rd_block e' = {3, 4, 5, 6, 7, 8})"
  using ext2_inode_alloc_exact [OF vol_example_inodes(1), of "0x81a4" 3] vol_example_tables(3)
  unfolding vol_example_inodes(2) by auto

end
