(* ===== verification/Ext2_File.thy ===== *)
theory Ext2_File
  imports Ext2_Bmap
begin

text \<open>
  Files of ext2: \<^verbatim>\<open>src/src/fs/ext2/file.c\<close>. Reading a page and writing go block by block through the block map. The
  loops are partial functions that end when the bytes are done; the flags \<open>mem\<close> number the calls of \<^verbatim>\<open>kmalloc\<close>, 32 for
  each round. Calls into the page cache (\<^verbatim>\<open>filemap_update_cached_range\<close>, \<^verbatim>\<open>filemap_invalidate_pages\<close>) are recorded.
  The time is an argument. Reading may change the volume, because the block map fills in missing pointer blocks.
\<close>

section \<open>Model\<close>

abbreviation S_ISREG :: "u16 \<Rightarrow> bool" where "S_ISREG mode \<equiv> mode AND 0xf000 = 0x8000"
abbreviation S_ISDIR :: "u16 \<Rightarrow> bool" where "S_ISDIR mode \<equiv> mode AND 0xf000 = 0x4000"
abbreviation S_ISLNK :: "u16 \<Rightarrow> bool" where "S_ISLNK mode \<equiv> mode AND 0xf000 = 0xa000"

subsection \<open>Reading\<close>

partial_function (option) symlink_loop :: "'w blkdevs \<Rightarrow> (nat \<Rightarrow> bool) \<Rightarrow> u32 \<Rightarrow> u32 \<Rightarrow> u8 list \<Rightarrow> 'w ext2 \<Rightarrow> ext2_node \<Rightarrow>
    ((errno + u32) \<times> u8 list \<times> 'w ext2 \<times> ext2_node) option" where
  "symlink_loop devs mem sz copied buf e n =
     (if \<not> copied < sz then Some (Inr copied, buf, e, n)
      else
        let index = copied div block_size e; offset = copied mod block_size e; chunk = block_size e - offset
        in case ext2_bmap devs mem e n index False of
             None \<Rightarrow> None
           | Some (physical, e, n) \<Rightarrow>
               let chunk = (if chunk > sz - copied then sz - copied else chunk)
               in if physical = 0 then Some (Inl EIO, buf, e, n)
                  else if \<not> mem 31 then Some (Inl ENOMEM, buf, e, n)
                  else case ext2_read_block devs physical (replicate (unat (block_size e)) 0) e of
                         Inl x \<Rightarrow> Some (Inl x, buf, e, n)
                       | Inr b \<Rightarrow>
                           symlink_loop devs (\<lambda>k. mem (k + 32)) sz (copied + chunk)
                             (copy_at (unat copied) (take (unat chunk) (drop (unat offset) b)) buf) e n)"

text \<open>The buffer has room for the target and a zero byte.\<close>

definition ext2_read_symlink_target :: "'w blkdevs \<Rightarrow> (nat \<Rightarrow> bool) \<Rightarrow> u8 list \<Rightarrow> u32 \<Rightarrow> 'w ext2 \<Rightarrow> ext2_node \<Rightarrow>
    ((errno + u32) \<times> u8 list \<times> 'w ext2 \<times> ext2_node) option" where
  "ext2_read_symlink_target devs mem buf sz e n =
     (let sz = (if sz > n_size n then n_size n else sz)
      in if n_nr_block n = 0
         then let copied = min sz 60; buf = copy_at 0 (take (unat copied) (words_bytes (raw_block (n_raw n)))) buf
              in Some (Inr copied, buf[unat copied := 0], e, n)
         else case symlink_loop devs mem sz 0 buf e n of
                Some (Inr copied, buf, e, n) \<Rightarrow> Some (Inr copied, buf[unat copied := 0], e, n)
              | r \<Rightarrow> r)"

text \<open>The value returned and the bytes stored for the caller.\<close>

definition ext2_readlink :: "'w blkdevs \<Rightarrow> (nat \<Rightarrow> bool) \<Rightarrow> u32 \<Rightarrow> 'w ext2 \<Rightarrow> ext2_node \<Rightarrow>
    ((errno + u32) \<times> u8 list \<times> 'w ext2 \<times> ext2_node) option" where
  "ext2_readlink devs mem cnt e n =
     (if \<not> S_ISLNK (n_mode n) then Some (Inl EINVAL, [], e, n)
      else if \<not> mem 0 then Some (Inl ENOMEM, [], e, n)
      else case ext2_read_symlink_target devs (\<lambda>k. mem (k + 1)) (replicate (unat (n_size n + 1)) 0) (n_size n + 1) e n of
             Some (Inr ret, target, e, n) \<Rightarrow>
               let cnt = (if sint cnt < sint ret then cnt else ret) in Some (Inr ret, take (unat cnt) target, e, n)
           | Some (Inl x, _, e, n) \<Rightarrow> Some (Inl x, [], e, n)
           | None \<Rightarrow> None)"

partial_function (option) read_loop :: "'w blkdevs \<Rightarrow> (nat \<Rightarrow> bool) \<Rightarrow> u64 \<Rightarrow> u32 \<Rightarrow> u32 \<Rightarrow> u8 list \<Rightarrow> 'w ext2 \<Rightarrow> ext2_node \<Rightarrow>
    ((errno + u32) \<times> u8 list \<times> 'w ext2 \<times> ext2_node) option" where
  "read_loop devs mem offset valid_bytes dn page e n =
     (if \<not> dn < valid_bytes then Some (Inr dn, page, e, n)
      else
        let at = offset + ucast dn; index = ucast (at div ucast (block_size e)); block_offset = ucast (at mod ucast (block_size e));
            chunk = block_size e - block_offset
        in case ext2_bmap devs mem e n index False of
             None \<Rightarrow> None
           | Some (physical, e, n) \<Rightarrow>
               let chunk = (if chunk > valid_bytes - dn then valid_bytes - dn else chunk)
               in if \<not> mem 31 then Some (Inl ENOMEM, page, e, n)
                  else case (if physical = 0 then Inr (replicate (unat (block_size e)) 0)
                             else ext2_read_block devs physical (replicate (unat (block_size e)) 0) e) of
                         Inl x \<Rightarrow> Some (Inl x, page, e, n)
                       | Inr b \<Rightarrow>
                           read_loop devs (\<lambda>k. mem (k + 32)) offset valid_bytes (dn + chunk)
                             (copy_at (unat dn) (take (unat chunk) (drop (unat block_offset) b)) page) e n)"

definition ext2_file_read_page :: "'w blkdevs \<Rightarrow> (nat \<Rightarrow> bool) \<Rightarrow> u64 \<Rightarrow> u8 list \<Rightarrow> u32 \<Rightarrow> 'w ext2 \<Rightarrow> ext2_node \<Rightarrow>
    ((errno + u32) \<times> u8 list \<times> 'w ext2 \<times> ext2_node) option" where
  "ext2_file_read_page devs mem offset page valid_bytes e n =
     (if \<not> S_ISREG (n_mode n) then Some (Inl EINVAL, page, e, n) else read_loop devs mem offset valid_bytes 0 page e n)"

subsection \<open>Writing\<close>

text \<open>The state of a write: position and bytes done, the position of the open file, the updates of the page cache,
  the volume and the inode.\<close>

record 'w fwrite =
  w_start :: u32
  w_total :: u32
  w_pos :: u64
  w_cached :: "(u32 \<times> u8 list) list"
  w_vol :: "'w ext2"
  w_node :: ext2_node

partial_function (option) write_loop :: "'w blkdevs \<Rightarrow> (nat \<Rightarrow> bool) \<Rightarrow> u8 list \<Rightarrow> u32 \<Rightarrow> 'w fwrite \<Rightarrow> (errno option \<times> 'w fwrite) option" where
  "write_loop devs mem buf cnt s =
     (if \<not> w_total s < cnt then Some (None, s)
      else
        let bsize = block_size (w_vol s); index = w_start s div bsize; offset = w_start s mod bsize; chunk = bsize - offset;
            chunk = (if chunk > cnt - w_total s then cnt - w_total s else chunk)
        in case ext2_bmap devs mem (w_vol s) (w_node s) index True of
             None \<Rightarrow> None
           | Some (physical, e, n) \<Rightarrow>
               let s = s\<lparr>w_vol := e, w_node := n\<rparr>
               in if physical = 0 then Some (Some EIO, s)
                  else if \<not> mem 31 then Some (Some ENOMEM, s)
                  else case ext2_read_block devs physical (replicate (unat bsize) 0) e of
                         Inl x \<Rightarrow> Some (Some x, s)
                       | Inr b \<Rightarrow>
                           let bs = take (unat chunk) (drop (unat (w_total s)) buf); b = copy_at (unat offset) bs b
                           in case ext2_write_block devs physical b e of
                                (Inl x, e) \<Rightarrow> Some (Some x, s\<lparr>w_vol := e\<rparr>)
                              | (Inr _, e) \<Rightarrow>
                                  write_loop devs (\<lambda>k. mem (k + 32)) buf cnt
                                    (s\<lparr>w_cached := w_cached s @ [(w_start s, bs)], w_total := w_total s + chunk,
                                       w_start := w_start s + chunk, w_pos := ucast (w_start s + chunk), w_vol := e\<rparr>))"

definition ext2_file_write :: "'w blkdevs \<Rightarrow> (nat \<Rightarrow> bool) \<Rightarrow> u64 \<Rightarrow> bool \<Rightarrow> u64 \<Rightarrow> u8 list \<Rightarrow> u32 \<Rightarrow> 'w ext2 \<Rightarrow> ext2_node \<Rightarrow>
    ((errno + u32) \<times> u64 \<times> (u32 \<times> u8 list) list \<times> 'w ext2 \<times> ext2_node) option" where
  "ext2_file_write devs mem now app pos buf cnt e n =
     (if \<not> S_ISREG (n_mode n) then Some (Inl EINVAL, pos, [], e, n)
      else
        let start = (if app then n_size n else ucast pos)
        in case write_loop devs mem buf cnt \<lparr>w_start = start, w_total = 0, w_pos = pos, w_cached = [], w_vol = e, w_node = n\<rparr> of
             None \<Rightarrow> None
           | Some (err, s) \<Rightarrow>
               let n = w_node s;
                   n = (if w_start s > n_size n then n\<lparr>n_size := w_start s, n_raw := (n_raw n)\<lparr>raw_size := w_start s\<rparr>\<rparr> else n);
                   n = (if w_total s \<noteq> 0
                        then n\<lparr>n_mtime := now, n_ctime := now,
                               n_raw := (n_raw n)\<lparr>raw_mtime := ucast now, raw_ctime := ucast now\<rparr>, n_dirty := True\<rparr>
                        else n)
               in Some (if w_total s \<noteq> 0 then Inr (w_total s) else case err of Some x \<Rightarrow> Inl x | None \<Rightarrow> Inr 0,
                        w_pos s, w_cached s, w_vol s, n))"

section \<open>The bytes of a file\<close>

text \<open>A byte of the file is the byte of the mapped block, and zero in a hole.\<close>

definition fbyte :: "('w ext2 \<Rightarrow> u32 \<Rightarrow> u8 list) \<Rightarrow> 'w ext2 \<Rightarrow> ext2_node \<Rightarrow> nat \<Rightarrow> u8" where
  "fbyte blk e n i =
     (let r = mapped blk e n (i div unat (block_size e)) in if r = 0 then 0 else blk e r ! (i mod unat (block_size e)))"

definition max_bytes :: "'w ext2 \<Rightarrow> nat" where
  "max_bytes e = capacity (perb e) * unat (block_size e)"

definition foreign :: "('w ext2 \<Rightarrow> u32 \<Rightarrow> u8 list) \<Rightarrow> 'w ext2 \<Rightarrow> ext2_node \<Rightarrow> u32 \<Rightarrow> bool" where
  "foreign blk e n b \<longleftrightarrow> used blk e b \<and> (\<forall>\<pi>. okf (perb e) \<pi> \<longrightarrow> flook blk e n \<pi> \<noteq> b)"

lemma le_word_zero4:
  assumes "le_word [a, b, c, d] = (0 :: u32)"
  shows "a = 0 \<and> b = 0 \<and> c = 0 \<and> d = 0"
proof -
  let ?w = "le_word [a, b, c, d] :: u32"
  have "bit ?w i = bit a i" "bit ?w (i + 8) = bit b i" "bit ?w (i + 16) = bit c i" "bit ?w (i + 24) = bit d i" if "i < 8" for i
    using that by (auto simp: bit_simps dest: bit_imp_le_length)
  then have "\<not> bit a i \<and> \<not> bit b i \<and> \<not> bit c i \<and> \<not> bit d i" if "i < 8" for i
    using assms that by simp
  then show ?thesis by (auto intro!: bit_word_eqI)
qed

lemma bytes_words_zeroD:
  "bytes_words xs = replicate k 0 \<Longrightarrow> length xs = 4 * k \<Longrightarrow> xs = replicate (4 * k) 0"
proof (induction xs arbitrary: k rule: bytes_words.induct)
  case (1 a b c d r)
  then obtain j where k: "k = Suc j" by (cases k) simp_all
  with 1 have "le_word [a, b, c, d] = (0 :: u32)" "r = replicate (4 * j) 0" by (simp_all del: le_word.simps)
  with le_word_zero4 show ?case by (simp add: k numeral_eq_Suc)
qed auto

lemma unat_block_size: "layout_ok e \<Longrightarrow> unat (block_size e) = 4 * perb e"
  using layout_okD(2) [of e] by presburger

lemma perb_pos: "layout_ok e \<Longrightarrow> 0 < perb e"
  using layout_okD(1,2) [of e] by presburger

text \<open>The end of a full path is no pointer block.\<close>

lemma fpath_maximal:
  assumes "0 < per" "m < capacity per" "okf per \<pi>"
  shows "\<not> strict_prefix (fpath per m) \<pi>"
proof
  assume sp: "strict_prefix (fpath per m) \<pi>"
  obtain k \<rho> where \<pi>: "\<pi> = k # \<rho>" using assms(3) by (cases \<pi>) auto
  have ne: "fpath per m \<noteq> []" using fpath_ok(1) [OF assms(1,2)] by auto
  obtain zs where "k # \<rho> = fpath per m @ zs" using sp \<pi> by (auto simp: strict_prefix_def prefix_def)
  with ne have hd: "hd (fpath per m) = k" by (metis hd_append2 list.sel(1))
  have "length (fpath per m) < length \<pi>" using sp by (rule prefix_length_less)
  moreover have "length \<rho> \<le> k - 11" using assms(3) \<pi> by (simp add: okp_def)
  ultimately show False using fpath_ok(2) [OF assms(1,2)] hd \<pi> by simp
qed

lemma okf_prefix: "okf per \<pi> \<Longrightarrow> strict_prefix \<rho> \<pi> \<Longrightarrow> \<rho> \<noteq> [] \<Longrightarrow> okf per \<rho>"
  by (cases \<rho>; cases \<pi>) (auto dest: okp_prefix)

text \<open>Changing data keeps the map: no block on the way to a block is the end of a full path.\<close>

lemma flook_data:
  assumes f: "fmap_ok blk e n" and l: "layout_ok e" and m: "m < capacity (perb e)" and r: "mapped blk e n m \<noteq> 0"
    and ch: "changed blk e e' {mapped blk e n m}" and \<pi>: "okf (perb e) \<pi>"
  shows "flook blk e' n \<pi> = flook blk e n \<pi>"
proof (cases \<pi>)
  case (Cons k \<rho>)
  let ?r = "mapped blk e n m"
  note F = fmap_okD [OF f]
  have "look (ptrs blk e') (raw_block (n_raw n) ! k) \<rho> = look (ptrs blk e) (raw_block (n_raw n) ! k) \<rho>"
  proof (rule look_cong)
    fix \<sigma> assume \<sigma>: "strict_prefix \<sigma> \<rho>" "look (ptrs blk e) (raw_block (n_raw n) ! k) \<sigma> \<noteq> 0"
    have ok: "okf (perb e) (k # \<sigma>)" using okp_prefix [OF _ \<sigma>(1)] \<pi> Cons by auto
    have "flook blk e n (k # \<sigma>) \<noteq> ?r"
    proof
      assume "flook blk e n (k # \<sigma>) = ?r"
      then have "k # \<sigma> = fpath (perb e) m"
        using F(3) [OF fpath_ok(1) [OF perb_pos [OF l] m] _ ok] r by (simp add: mapped_def)
      moreover have "strict_prefix (k # \<sigma>) \<pi>" using \<sigma>(1) Cons by simp
      ultimately show False using fpath_maximal [OF perb_pos [OF l] m \<pi>] by metis
    qed
    moreover have "used blk e (flook blk e n (k # \<sigma>))" by (rule F(2) [OF ok]) (use \<sigma>(2) in simp)
    ultimately show "ptrs blk e' (look (ptrs blk e) (raw_block (n_raw n) ! k) \<sigma>) = ptrs blk e (look (ptrs blk e) (raw_block (n_raw n) ! k) \<sigma>)"
      using changed_used [OF ch, of "flook blk e n (k # \<sigma>)"] by simp
  qed
  then show ?thesis using Cons by simp
qed (use \<pi> in simp)

lemma foreign_mono:
  assumes "foreign blk e n b" "changed blk e e' M" "perb e' = perb e" "\<And>\<pi>. okf (perb e) \<pi> \<Longrightarrow> flook blk e' n' \<pi> = flook blk e n \<pi> \<or> unat (flook blk e' n' \<pi>) \<in> free_set blk e"
  shows "foreign blk e' n' b"
  using assms used_mono [OF assms(2)] unfolding foreign_def used_def by metis

context block_store
begin

text \<open>Mapping a block keeps every byte of the file and every block of other files.\<close>

lemma bmap_bytes:
  assumes v: "vol_ok vinv blk e" and f: "fmap_ok blk e n" and bs: "unat (block_size e) \<le> 4096" and m: "unat m < capacity (perb e)"
  shows "\<exists>r e' n'. ext2_bmap devs (\<lambda>_. True) e n m create = Some (r, e', n') \<and> vol_ok vinv blk e' \<and> fmap_ok blk e' n' \<and>
    same_layout e e' \<and> r = mapped blk e' n' (unat m) \<and> (\<not> create \<longrightarrow> r = mapped blk e n (unat m)) \<and> (create \<and> r = 0 \<longrightarrow> free_set blk e' = {}) \<and>
    free_set blk e' \<subseteq> free_set blk e \<and>
    (\<forall>i < max_bytes e. fbyte blk e' n' i = fbyte blk e n i) \<and>
    (\<forall>b. foreign blk e n b \<longrightarrow> blk e' b = blk e b \<and> foreign blk e' n' b)"
proof -
  note V = vol_okD [OF v] and F = fmap_okD [OF f]
  have per: "0 < perb e" by (rule perb_pos [OF V(2)])
  let ?p = "fpath (perb e) (unat m)"
  from bmap_ok [OF v f bs m, of create] obtain r e' n' where
    b: "ext2_bmap devs (\<lambda>_. True) e n m create = Some (r, e', n')" "vol_ok vinv blk e'" "bmapped blk create e n e' n' ?p r" by blast
  have B: "fmap_ok blk e' n'" "grown (okf (perb e)) (flook blk e n) (flook blk e' n') ?p (free_set blk e - free_set blk e')"
    "changed blk e e' ({flook blk e n \<rho> |\<rho>. strict_prefix \<rho> ?p} - {0})" "r = flook blk e' n' ?p" "\<not> create \<longrightarrow> r = flook blk e n ?p"
    "create \<and> r = 0 \<longrightarrow> free_set blk e' = {}" "flook blk e n ?p = 0 \<and> r \<noteq> 0 \<longrightarrow> ptrs blk e' r = replicate (perb e) 0"
    using b(3) unfolding bmapped_def by blast+
  note G = grownD [OF B(2)] and S = same_layoutD [OF changedD(1) [OF B(3)]] and V' = vol_okD [OF b(2)]
  have per': "perb e' = perb e" by (simp add: S)
  have path: "okf (perb e) (fpath (perb e) k)" if "k < capacity (perb e)" for k by (rule fpath_ok(1) [OF per that])
  have keep: "blk e' b = blk e b" if u: "used blk e b" and ne: "\<And>\<rho>. strict_prefix \<rho> ?p \<Longrightarrow> \<rho> \<noteq> [] \<Longrightarrow> flook blk e n \<rho> \<noteq> b" for b
  proof -
    have "b \<notin> {flook blk e n \<rho> |\<rho>. strict_prefix \<rho> ?p} - {0}"
    proof
      assume "b \<in> {flook blk e n \<rho> |\<rho>. strict_prefix \<rho> ?p} - {0}"
      then obtain \<rho> where \<rho>: "b = flook blk e n \<rho>" "strict_prefix \<rho> ?p" "b \<noteq> 0" by blast
      then have "\<rho> \<noteq> []" by auto
      with ne [OF \<rho>(2)] \<rho>(1) show False by simp
    qed
    then show ?thesis using u by (intro changedD(3) [OF B(3)]) (auto simp: used_def)
  qed
  have data: "blk e' (mapped blk e n k) = blk e (mapped blk e n k)" if k: "k < capacity (perb e)" "mapped blk e n k \<noteq> 0" for k
  proof (rule keep)
    show "used blk e (mapped blk e n k)" using F(2) [OF path [OF k(1)]] k(2) by (simp add: mapped_def)
    fix \<rho> assume \<rho>: "strict_prefix \<rho> ?p" "\<rho> \<noteq> []"
    have ok: "okf (perb e) \<rho>" by (rule okf_prefix [OF path [OF m] \<rho>])
    show "flook blk e n \<rho> \<noteq> mapped blk e n k"
      using F(3) [OF path [OF k(1)] _ ok] k(2) fpath_maximal [OF per k(1) path [OF m]] \<rho>(1) unfolding mapped_def by metis
  qed
  have "fbyte blk e' n' i = fbyte blk e n i" if i: "i < max_bytes e" for i
  proof -
    let ?k = "i div unat (block_size e)" and ?j = "i mod unat (block_size e)"
    have k: "?k < capacity (perb e)" using i by (simp add: max_bytes_def less_mult_imp_div_less)
    have j: "?j < 4 * perb e" using unat_block_size [OF V(2)] per by (metis mod_less_divisor mult_pos_pos zero_less_numeral)
    show ?thesis
    proof (cases "?k \<noteq> unat m \<or> mapped blk e n ?k \<noteq> 0")
      case True
      have "\<not> prefix (fpath (perb e) ?k) ?p \<or> flook blk e n (fpath (perb e) ?k) \<noteq> 0"
        using True fpath_prefix [OF per k m] by (auto simp: mapped_def)
      then have "mapped blk e' n' ?k = mapped blk e n ?k" using G(1) [OF path [OF k]] by (simp add: mapped_def per')
      then show ?thesis using data [OF k] by (simp add: fbyte_def S Let_def)
    next
      case False
      then have z: "fbyte blk e n i = 0" by (simp add: fbyte_def)
      have r: "mapped blk e' n' ?k = r" using False B(4) by (simp add: mapped_def per')
      show ?thesis
      proof (cases "r = 0")
        case True then show ?thesis using z r by (simp add: fbyte_def S)
      next
        case nz: False
        have "used blk e' r" using fmap_okD(2) [OF B(1), of ?p] path [OF m] B(4) nz by (simp add: per')
        then have "length (blk e' r) = 4 * perb e"
          using block_length [OF V'(1)] unat_block_size [OF V(2)] by (simp add: used_def S)
        moreover have "ptrs blk e' r = replicate (perb e) 0" using B(7) False nz by (auto simp: mapped_def)
        ultimately have "blk e' r = replicate (4 * perb e) 0" by (intro bytes_words_zeroD) (simp_all add: ptrs_def)
        then show ?thesis using z r j by (simp add: fbyte_def S)
      qed
    qed
  qed
  moreover have "blk e' b = blk e b \<and> foreign blk e' n' b" if fb: "foreign blk e n b" for b
  proof
    show "blk e' b = blk e b"
      using fb okf_prefix [OF path [OF m]] by (intro keep) (auto simp: foreign_def)
    show "foreign blk e' n' b"
    proof (rule foreign_mono [OF fb B(3) per'])
      fix \<pi> assume "okf (perb e) \<pi>"
      then show "flook blk e' n' \<pi> = flook blk e n \<pi> \<or> unat (flook blk e' n' \<pi>) \<in> free_set blk e"
        using G(1,2) [of \<pi>] by (cases "flook blk e n \<pi> = 0"; cases "flook blk e' n' \<pi> = 0") auto
    qed
  qed
  moreover have "r = mapped blk e' n' (unat m)" "\<not> create \<longrightarrow> r = mapped blk e n (unat m)"
    using B(4,5) by (simp_all add: mapped_def per')
  ultimately show ?thesis using b(1,2) B(1,6) changedD(1,2) [OF B(3)] by blast
qed

text \<open>Writing a data block changes the bytes of that block only.\<close>

lemma put_bytes:
  assumes v: "vol_ok vinv blk e" and f: "fmap_ok blk e n" and m: "m < capacity (perb e)" and r: "mapped blk e n m = r" "r \<noteq> 0"
    and len: "length buf = unat (block_size e)"
  obtains e' where "ext2_write_block devs r buf e = (Inr (), e')" "vol_ok vinv blk e'" "fmap_ok blk e' n" "same_layout e e'"
    "free_set blk e' = free_set blk e"
    "\<And>i. i < max_bytes e \<Longrightarrow> fbyte blk e' n i = (if i div unat (block_size e) = m then buf ! (i mod unat (block_size e)) else fbyte blk e n i)"
    "\<And>b. foreign blk e n b \<Longrightarrow> blk e' b = blk e b \<and> foreign blk e' n b"
proof -
  note V = vol_okD [OF v] and F = fmap_okD [OF f]
  have per: "0 < perb e" by (rule perb_pos [OF V(2)])
  have path: "okf (perb e) (fpath (perb e) k)" if "k < capacity (perb e)" for k by (rule fpath_ok(1) [OF per that])
  have u: "used blk e r" using F(2) [OF path [OF m]] r by (simp add: mapped_def)
  then have "r < blocks_count e" "\<not> meta e r" by (simp_all add: used_def)
  from put_ok [OF v this len] obtain e' where e': "ext2_write_block devs r buf e = (Inr (), e')" "vol_ok vinv blk e'" "changed blk e e' {r}"
    "free_set blk e' = free_set blk e" "blk e' r = buf" by blast
  note S = same_layoutD [OF changedD(1) [OF e'(3)]]
  have per': "perb e' = perb e" by (simp add: S)
  have look: "flook blk e' n \<pi> = flook blk e n \<pi>" if "okf (perb e) \<pi>" for \<pi>
    using flook_data [OF f V(2) m _ _ that] r e'(3) by simp
  have map: "mapped blk e' n k = mapped blk e n k" if "k < capacity (perb e)" for k
    using look [OF path [OF that]] by (simp add: mapped_def per')
  have keep: "blk e' b = blk e b" if "used blk e b" "b \<noteq> r" for b
    by (rule changedD(3) [OF e'(3)]) (use that in \<open>auto simp: used_def e'(4)\<close>)
  have f': "fmap_ok blk e' n"
    unfolding fmap_ok_def per' using F look used_mono [OF e'(3)] by metis
  show thesis
  proof (rule that [OF e'(1,2) f' changedD(1) [OF e'(3)] e'(4)])
    fix i assume i: "i < max_bytes e"
    let ?k = "i div unat (block_size e)"
    have k: "?k < capacity (perb e)" using i by (simp add: max_bytes_def less_mult_imp_div_less)
    have "blk e' (mapped blk e n ?k) = blk e (mapped blk e n ?k)" if "?k \<noteq> m" "mapped blk e n ?k \<noteq> 0"
    proof (rule keep)
      show "used blk e (mapped blk e n ?k)" using F(2) [OF path [OF k]] that(2) by (simp add: mapped_def)
      show "mapped blk e n ?k \<noteq> r"
        using F(3) [OF path [OF m] _ path [OF k]] fpath_inj [OF per, of ?k m] r that(1) by (auto simp: mapped_def)
    qed
    then show "fbyte blk e' n i = (if ?k = m then buf ! (i mod unat (block_size e)) else fbyte blk e n i)"
      using map [OF k] r e'(5) by (auto simp: fbyte_def S Let_def)
  next
    fix b assume fb: "foreign blk e n b"
    have "b \<noteq> r" using fb path [OF m] r by (auto simp: foreign_def mapped_def)
    then have "blk e' b = blk e b" using fb keep by (simp add: foreign_def)
    moreover have "foreign blk e' n b" by (rule foreign_mono [OF fb e'(3) per']) (use look in blast)
    ultimately show "blk e' b = blk e b \<and> foreign blk e' n b" by simp
  qed
qed

end

section \<open>Loops\<close>

text \<open>Mapping blocks changes of the inode only the counts of blocks, the pointers and the dirty mark.\<close>

lemma new_block_node:
  "ext2_new_block devs mem e n = (r, e', n') \<Longrightarrow> n_mode n' = n_mode n \<and> n_size n' = n_size n"
  by (auto simp: ext2_new_block_def Let_def split: prod.splits sum.splits if_splits)

lemma ensure_node:
  "ext2_ensure_indirect devs mem b e n = (r, e', n') \<Longrightarrow> n_mode n' = n_mode n \<and> n_size n' = n_size n"
  "ext2_ensure_data devs mem ps i e n = (r, ps', e', n') \<Longrightarrow> n_mode n' = n_mode n \<and> n_size n' = n_size n"
  by (auto simp: ext2_ensure_indirect_def ext2_ensure_data_def dest: new_block_node split: if_splits prod.splits sum.splits)

lemma walk_node: "bmap_walk devs mem create b is e n = (r, e', n') \<Longrightarrow> n_mode n' = n_mode n \<and> n_size n' = n_size n"
proof (induction "is" arbitrary: mem b e n r e' n' rule: induct_list012)
  case (2 i)
  show ?case
  proof (cases "ext2_load_ptrs devs (mem 5) b e")
    case (Inr ps)
    obtain x ps' e1 n1 where d: "ext2_ensure_data devs mem ps i e n = (x, ps', e1, n1)" by (metis prod.exhaust)
    show ?thesis
      using 2 Inr d ensure_node(2) [OF d] by (auto simp: Let_def split: if_splits sum.splits prod.splits)
  qed (use 2 in simp)
next
  case (3 i j "is")
  show ?case
  proof (cases "ext2_load_ptrs devs (mem 5) b e")
    case (Inr ps)
    obtain x e1 n1 where d: "ext2_ensure_indirect devs mem (ps ! i) e n = (x, e1, n1)" by (metis prod.exhaust)
    note n1 = ensure_node(1) [OF d]
    show ?thesis
    proof (cases x)
      case (Inr c)
      obtain y e2 where st: "ext2_store_ptrs devs b (ps[i := c]) e1 = (y, e2)" by fastforce
      show ?thesis
        using 3(3) \<open>ext2_load_ptrs devs (mem 5) b e = Inr ps\<close> d Inr st n1 3(2) by (cases y) auto
    qed (use 3(3) Inr d n1 in simp)
  qed (use 3(3) in simp)
qed simp

lemma slot_node: "bmap_slot devs mem create k is e n = (r, e', n') \<Longrightarrow> n_mode n' = n_mode n \<and> n_size n' = n_size n"
  by (cases "ext2_ensure_indirect devs mem (raw_block (n_raw n) ! k) e n")
    (auto simp: bmap_slot_def Let_def dest!: ensure_node(1) walk_node split: sum.splits)

lemma bmap_node: "ext2_bmap devs mem e n m create = Some (r, e', n') \<Longrightarrow> n_mode n' = n_mode n \<and> n_size n' = n_size n"
  by (cases "ext2_new_block devs mem e n")
    (auto simp: ext2_bmap_def Let_def dest!: new_block_node slot_node split: sum.splits if_splits)

lemma range_in_block:
  fixes B st c i :: nat
  assumes "0 < B" "st mod B + c \<le> B"
  shows "i div B = st div B \<and> st mod B \<le> i mod B \<and> i mod B < st mod B + c \<longleftrightarrow> st \<le> i \<and> i < st + c" (is "?L \<longleftrightarrow> ?R")
    "st \<le> i \<Longrightarrow> i < st + c \<Longrightarrow> i mod B - st mod B = i - st"
proof -
  define q where "q = st div B"
  have st: "st = q * B + st mod B" by (simp add: q_def)
  have i: "i = i div B * B + i mod B" by simp
  have q: "i div B = q" if "st \<le> i" "i < st + c"
    using that st assms by (intro div_nat_eqI) (simp_all add: algebra_simps)
  show "?L \<longleftrightarrow> ?R"
  proof
    assume L: ?L
    then have "i = q * B + i mod B" using i q_def by metis
    then show ?R using L st by linarith
  next
    assume R: ?R
    then have "i = q * B + i mod B" using i q by metis
    then show ?L using R q st q_def by linarith
  qed
  show "i mod B - st mod B = i - st" if "st \<le> i" "i < st + c"
  proof -
    have "i = q * B + i mod B" using i q [OF that] by metis
    then show ?thesis using st by linarith
  qed
qed

lemma capacity_bound: "per \<le> 1024 \<Longrightarrow> capacity per \<le> 1074791436"
proof -
  assume "per \<le> 1024"
  then have "per * per \<le> 1024 * 1024" "per * per * per \<le> 1024 * 1024 * 1024" by (intro mult_le_mono; simp)+
  with \<open>per \<le> 1024\<close> show ?thesis by (simp add: capacity_def)
qed

lemma unat_ucast64: "unat (ucast (x :: u32) :: u64) = unat x"
  using less_trans [OF unat_less_2_32 [of x], of "2 ^ 64"] by (simp add: unsigned_ucast_eq take_bit_nat_eq_self_iff)

lemma unat_ucast32: "unat (x :: u64) < 2 ^ 32 \<Longrightarrow> unat (ucast x :: u32) = unat x"
  by (simp add: unsigned_ucast_eq take_bit_nat_eq_self_iff)

lemma same_layout_bytes: "same_layout e e' \<Longrightarrow> max_bytes e' = max_bytes e \<and> block_size e' = block_size e"
  by (simp add: max_bytes_def same_layoutD)

text \<open>What a file looks like to its readers, and what the rest of the volume is to it.\<close>

definition file_bytes :: "('w ext2 \<Rightarrow> u32 \<Rightarrow> u8 list) \<Rightarrow> 'w ext2 \<Rightarrow> ext2_node \<Rightarrow> 'w ext2 \<Rightarrow> ext2_node \<Rightarrow> (nat \<Rightarrow> u8) \<Rightarrow> bool" where
  "file_bytes blk e n e' n' g \<longleftrightarrow> same_layout e e' \<and> fmap_ok blk e' n' \<and> n_mode n' = n_mode n \<and> n_size n' = n_size n \<and>
     (\<forall>i < max_bytes e. fbyte blk e' n' i = g i) \<and> (\<forall>b. foreign blk e n b \<longrightarrow> blk e' b = blk e b \<and> foreign blk e' n' b)"

lemma file_bytes_trans:
  assumes "file_bytes blk e n e' n' g" "file_bytes blk e' n' e'' n'' h"
  shows "file_bytes blk e n e'' n'' h"
  using assms same_layout_trans same_layout_bytes [of e e'] unfolding file_bytes_def by metis

lemma file_bytes_cong: "file_bytes blk e n e' n' g \<Longrightarrow> (\<And>i. i < max_bytes e \<Longrightarrow> g i = h i) \<Longrightarrow> file_bytes blk e n e' n' h"
  by (simp add: file_bytes_def)

lemma file_bytes_refl: "fmap_ok blk e n \<Longrightarrow> file_bytes blk e n e n (fbyte blk e n)"
  by (simp add: file_bytes_def same_layout_refl)

context block_store
begin

lemma bmap_file:
  assumes "vol_ok vinv blk e" "fmap_ok blk e n" "unat (block_size e) \<le> 4096" "unat m < capacity (perb e)"
  obtains r e' n' where "ext2_bmap devs (\<lambda>_. True) e n m create = Some (r, e', n')" "vol_ok vinv blk e'"
    "file_bytes blk e n e' n' (fbyte blk e n)" "r = mapped blk e' n' (unat m)" "\<not> create \<longrightarrow> r = mapped blk e n (unat m)"
    "create \<and> r = 0 \<longrightarrow> free_set blk e' = {}"
proof -
  from bmap_bytes [OF assms, of create] obtain r e' n' where b: "ext2_bmap devs (\<lambda>_. True) e n m create = Some (r, e', n')"
    "vol_ok vinv blk e'" "fmap_ok blk e' n'" "same_layout e e'" "r = mapped blk e' n' (unat m)" "\<not> create \<longrightarrow> r = mapped blk e n (unat m)"
    "create \<and> r = 0 \<longrightarrow> free_set blk e' = {}" "\<forall>i < max_bytes e. fbyte blk e' n' i = fbyte blk e n i"
    "\<forall>b. foreign blk e n b \<longrightarrow> blk e' b = blk e b \<and> foreign blk e' n' b" by blast
  show thesis
    by (rule that [OF b(1,2) _ b(5,6,7)]) (use b bmap_node [OF b(1)] in \<open>simp add: file_bytes_def\<close>)
qed

text \<open>Writing \<open>c\<close> bytes inside one mapped block.\<close>

lemma put_file:
  assumes v: "vol_ok vinv blk e" and f: "fmap_ok blk e n" and st: "st div unat (block_size e) = m" "m < capacity (perb e)"
    and r: "mapped blk e n m = r" "r \<noteq> 0" and c: "st mod unat (block_size e) + length bs \<le> unat (block_size e)"
  obtains e' where "ext2_read_block devs r z e = Inr (blk e r)"
    "ext2_write_block devs r (copy_at (st mod unat (block_size e)) bs (blk e r)) e = (Inr (), e')" "vol_ok vinv blk e'" "free_set blk e' = free_set blk e"
    "file_bytes blk e n e' n (\<lambda>i. if st \<le> i \<and> i < st + length bs then bs ! (i - st) else fbyte blk e n i)"
proof -
  let ?B = "unat (block_size e)" and ?b = "copy_at (st mod unat (block_size e)) bs (blk e r)"
  note V = vol_okD [OF v]
  have B: "0 < ?B" by (rule layout_okD(1) [OF V(2)])
  have "used blk e r" using fmap_okD(2) [OF f fpath_ok(1) [OF perb_pos [OF V(2)] st(2)]] r by (simp add: mapped_def)
  then have rb: "r < blocks_count e" by (simp add: used_def)
  have len: "length (blk e r) = ?B" by (rule block_length [OF V(1) rb])
  then have "length ?b = ?B" using c by (simp add: length_copy_at)
  from put_bytes [OF v f st(2) r this] obtain e' where e': "ext2_write_block devs r ?b e = (Inr (), e')" "vol_ok vinv blk e'" "fmap_ok blk e' n"
    "same_layout e e'" "free_set blk e' = free_set blk e"
    "\<And>i. i < max_bytes e \<Longrightarrow> fbyte blk e' n i = (if i div ?B = m then ?b ! (i mod ?B) else fbyte blk e n i)"
    "\<And>b. foreign blk e n b \<Longrightarrow> blk e' b = blk e b \<and> foreign blk e' n b" by blast
  have "fbyte blk e' n i = (if st \<le> i \<and> i < st + length bs then bs ! (i - st) else fbyte blk e n i)" if i: "i < max_bytes e" for i
  proof -
    note R = range_in_block [OF B c, of i]
    have "?b ! (i mod ?B) = (if st mod ?B \<le> i mod ?B \<and> i mod ?B < st mod ?B + length bs then bs ! (i mod ?B - st mod ?B) else blk e r ! (i mod ?B))"
      using c len B by (intro nth_copy_at) simp_all
    then show ?thesis using e'(6) [OF i] R st(1) r by (auto simp: fbyte_def)
  qed
  then show thesis
    using that [OF read_block [OF V(1) rb] e'(1,2,5)] e'(3,4,7) by (simp add: file_bytes_def)
qed

end

text \<open>What a number of rounds of the write loop have done: \<open>k\<close> bytes of the buffer are at their place in the file and in the
  page cache, and the counters have moved on.\<close>

definition wrote :: "('w ext2 \<Rightarrow> u32 \<Rightarrow> u8 list) \<Rightarrow> u8 list \<Rightarrow> 'w fwrite \<Rightarrow> 'w fwrite \<Rightarrow> nat \<Rightarrow> bool" where
  "wrote blk buf s s' k \<longleftrightarrow>
     unat (w_total s') = unat (w_total s) + k \<and> unat (w_start s') = unat (w_start s) + k \<and>
     w_pos s' = (if k = 0 then w_pos s else ucast (w_start s')) \<and>
     concat (map snd (w_cached s')) = concat (map snd (w_cached s)) @ take k (drop (unat (w_total s)) buf) \<and>
     file_bytes blk (w_vol s) (w_node s) (w_vol s') (w_node s')
       (\<lambda>i. if unat (w_start s) \<le> i \<and> i < unat (w_start s) + k then buf ! (unat (w_total s) + (i - unat (w_start s)))
            else fbyte blk (w_vol s) (w_node s) i)"

lemma wrote_none:
  assumes "file_bytes blk (w_vol s) (w_node s) e n (fbyte blk (w_vol s) (w_node s))"
  shows "wrote blk buf s (s\<lparr>w_vol := e, w_node := n\<rparr>) 0"
  unfolding wrote_def by (simp, rule file_bytes_cong [OF assms]) auto

lemma wrote_trans:
  assumes a: "wrote blk buf s s' j" and b: "wrote blk buf s' s'' k"
  shows "wrote blk buf s s'' (j + k)"
proof -
  let ?st = "unat (w_start s)" and ?g = "\<lambda>j i. if unat (w_start s) \<le> i \<and> i < unat (w_start s) + j
    then buf ! (unat (w_total s) + (i - unat (w_start s))) else fbyte blk (w_vol s) (w_node s) i"
  note A = a [unfolded wrote_def] and B = b [unfolded wrote_def]
  have fa: "file_bytes blk (w_vol s) (w_node s) (w_vol s') (w_node s') (?g j)" using A by blast
  have "file_bytes blk (w_vol s) (w_node s) (w_vol s'') (w_node s'') (?g (j + k))"
  proof (rule file_bytes_cong [OF file_bytes_trans [OF fa]])
    show "file_bytes blk (w_vol s') (w_node s') (w_vol s'') (w_node s'')
        (\<lambda>i. if unat (w_start s') \<le> i \<and> i < unat (w_start s') + k then buf ! (unat (w_total s') + (i - unat (w_start s')))
             else fbyte blk (w_vol s') (w_node s') i)" using B by blast
    fix i assume "i < max_bytes (w_vol s)"
    then have "fbyte blk (w_vol s') (w_node s') i = ?g j i" using fa by (simp add: file_bytes_def)
    then show "(if unat (w_start s') \<le> i \<and> i < unat (w_start s') + k then buf ! (unat (w_total s') + (i - unat (w_start s')))
        else fbyte blk (w_vol s') (w_node s') i) = ?g (j + k) i" using A by auto
  qed
  moreover have "w_pos s'' = (if j + k = 0 then w_pos s else ucast (w_start s''))"
  proof (cases "k = 0")
    case True
    then have "w_start s'' = w_start s'" using B by (simp add: word_unat_eq_iff)
    then show ?thesis using True A B by simp
  qed (use B in simp)
  ultimately show ?thesis using A B by (simp add: wrote_def take_add add.commute add.left_commute)
qed

context block_store
begin

text \<open>One round: it ends the loop with \<open>EIO\<close> when the volume is full, and writes at least one byte otherwise.\<close>

lemma write_round:
  assumes v: "vol_ok vinv blk (w_vol s)" and f: "fmap_ok blk (w_vol s) (w_node s)" and bs4: "unat (block_size (w_vol s)) \<le> 4096"
    and lt: "w_total s < cnt" and buf: "unat cnt \<le> length buf" and cap: "unat (w_start s) + (unat cnt - unat (w_total s)) \<le> max_bytes (w_vol s)"
    and fit: "unat (w_start s) + (unat cnt - unat (w_total s)) < 2 ^ 32"
  obtains (full) s' where "write_loop devs (\<lambda>_. True) buf cnt s = Some (Some EIO, s')" "vol_ok vinv blk (w_vol s')" "free_set blk (w_vol s') = {}" "wrote blk buf s s' 0"
  | (more) s' c where "write_loop devs (\<lambda>_. True) buf cnt s = write_loop devs (\<lambda>_. True) buf cnt s'" "vol_ok vinv blk (w_vol s')"
      "wrote blk buf s s' c" "0 < c" "c \<le> unat cnt - unat (w_total s)"
proof -
  let ?e = "w_vol s" and ?n = "w_node s" and ?st = "unat (w_start s)" and ?tt = "unat (w_total s)"
  let ?B = "unat (block_size ?e)"
  note V = vol_okD [OF v]
  have B: "0 < ?B" by (rule layout_okD(1) [OF V(2)])
  have tt: "?tt < unat cnt" using lt by (simp add: word_less_nat_alt)
  define m offset where "m = w_start s div block_size ?e" and "offset = w_start s mod block_size ?e"
  define chunk where "chunk = (if block_size ?e - offset > cnt - w_total s then cnt - w_total s else block_size ?e - offset)"
  have m: "unat m = ?st div ?B" and off: "unat offset = ?st mod ?B" by (simp_all add: m_def offset_def unat_div unat_mod)
  have "offset \<le> block_size ?e" using off B by (simp add: word_le_nat_alt less_imp_le)
  then have "unat (block_size ?e - offset) = ?B - ?st mod ?B" using off by (simp add: unat_sub)
  moreover have "unat (cnt - w_total s) = unat cnt - ?tt" using lt by (simp add: unat_sub order.strict_implies_order)
  ultimately have chunk: "unat chunk = min (?B - ?st mod ?B) (unat cnt - ?tt)" by (simp add: chunk_def word_less_nat_alt)
  define c where "c = unat chunk"
  have c: "0 < c" "c \<le> unat cnt - ?tt" "?st mod ?B + c \<le> ?B" using chunk tt B by (auto simp: c_def min_def)
  define bs where "bs = take c (drop ?tt buf)"
  have bs: "length bs = c" using c(2) buf by (simp add: bs_def)
  have "?st < max_bytes ?e" using cap tt by linarith
  then have mc: "?st div ?B < capacity (perb ?e)" by (simp add: max_bytes_def less_mult_imp_div_less)
  obtain r e1 n1 where b: "ext2_bmap devs (\<lambda>_. True) ?e ?n m True = Some (r, e1, n1)" "vol_ok vinv blk e1"
    "file_bytes blk ?e ?n e1 n1 (fbyte blk ?e ?n)" "r = mapped blk e1 n1 (unat m)" "r = 0 \<longrightarrow> free_set blk e1 = {}"
    using bmap_file [OF v f bs4, of m True] mc m by metis
  have sl: "same_layout ?e e1" and f1: "fmap_ok blk e1 n1" using b(3) by (simp_all add: file_bytes_def)
  note S = same_layout_bytes [OF sl]
  note loop = write_loop.simps [of devs "\<lambda>_. True" buf cnt s]
  show thesis
  proof (cases "r = 0")
    case True
    show thesis
    proof (rule full)
      show "write_loop devs (\<lambda>_. True) buf cnt s = Some (Some EIO, s\<lparr>w_vol := e1, w_node := n1\<rparr>)"
        using lt b(1) True by (subst loop) (simp add: Let_def m_def [symmetric])
      show "wrote blk buf s (s\<lparr>w_vol := e1, w_node := n1\<rparr>) 0" by (rule wrote_none [OF b(3)])
    qed (use b True in simp_all)
  next
    case False
    have st1: "?st div unat (block_size e1) = unat m" "unat m < capacity (perb e1)" using m mc S sl by (simp_all add: same_layoutD)
    have c1: "?st mod unat (block_size e1) + length bs \<le> unat (block_size e1)" using c(3) S bs by simp
    obtain e2 where e2: "ext2_read_block devs r (replicate ?B 0) e1 = Inr (blk e1 r)"
      "ext2_write_block devs r (copy_at (?st mod ?B) bs (blk e1 r)) e1 = (Inr (), e2)" "vol_ok vinv blk e2" "free_set blk e2 = free_set blk e1"
      "file_bytes blk e1 n1 e2 n1 (\<lambda>i. if ?st \<le> i \<and> i < ?st + length bs then bs ! (i - ?st) else fbyte blk e1 n1 i)"
      by (rule put_file [OF b(2) f1 st1 b(4) [symmetric] False c1, where z = "replicate ?B 0", unfolded conjunct2 [OF S]])
    define s2 where "s2 = s\<lparr>w_node := n1, w_cached := w_cached s @ [(w_start s, bs)], w_total := w_total s + chunk,
      w_start := w_start s + chunk, w_pos := ucast (w_start s + chunk), w_vol := e2\<rparr>"
    have fb: "file_bytes blk ?e ?n e2 n1 (\<lambda>i. if ?st \<le> i \<and> i < ?st + c then buf ! (?tt + (i - ?st)) else fbyte blk ?e ?n i)"
    proof (rule file_bytes_cong [OF file_bytes_trans [OF b(3) e2(5)]])
      fix i assume i: "i < max_bytes ?e"
      have old: "fbyte blk e1 n1 i = fbyte blk ?e ?n i" using b(3) i by (simp add: file_bytes_def)
      have "bs ! (i - ?st) = buf ! (?tt + (i - ?st))" if "i < ?st + c" "?st \<le> i"
      proof -
        have "i - ?st < c" "?tt \<le> length buf" using that tt buf by linarith+
        then show ?thesis by (simp add: bs_def)
      qed
      then show "(if ?st \<le> i \<and> i < ?st + length bs then bs ! (i - ?st) else fbyte blk e1 n1 i) =
          (if ?st \<le> i \<and> i < ?st + c then buf ! (?tt + (i - ?st)) else fbyte blk ?e ?n i)"
        by (simp add: bs old)
    qed
    show thesis
    proof (rule more)
      show "write_loop devs (\<lambda>_. True) buf cnt s = write_loop devs (\<lambda>_. True) buf cnt s2"
        using lt b(1) False e2(1,2)
        by (subst loop) (simp add: Let_def m_def [symmetric] unat_mod chunk_def [unfolded offset_def, symmetric] c_def [symmetric] bs_def [symmetric] s2_def split del: if_split)
      have "?tt + c \<le> unat cnt" using c(2) tt by simp
      from le_less_trans [OF this unat_less_2_32] have "unat (w_total s2) = ?tt + c" "unat (w_start s2) = ?st + c"
        using c(2) tt fit by (simp_all add: s2_def c_def unat_add_no_wrap)
      then show "wrote blk buf s s2 c" using fb c(1) by (simp add: wrote_def) (simp add: s2_def bs_def)
    qed (use e2(3) c in \<open>simp_all add: s2_def\<close>)
  qed
qed

text \<open>The write loop, from any round on.\<close>

lemma write_loop_ok:
  assumes "vol_ok vinv blk (w_vol s)" "fmap_ok blk (w_vol s) (w_node s)" "unat (block_size (w_vol s)) \<le> 4096"
    and "w_total s \<le> cnt" "unat cnt \<le> length buf" "unat (w_start s) + (unat cnt - unat (w_total s)) \<le> max_bytes (w_vol s)"
    and "unat (w_start s) + (unat cnt - unat (w_total s)) < 2 ^ 32"
  shows "\<exists>err s' k. write_loop devs (\<lambda>_. True) buf cnt s = Some (err, s') \<and> vol_ok vinv blk (w_vol s') \<and> k \<le> unat cnt - unat (w_total s) \<and>
    wrote blk buf s s' k \<and> (if k = unat cnt - unat (w_total s) then err = None else err = Some EIO \<and> free_set blk (w_vol s') = {})"
  using assms
proof (induction "unat cnt - unat (w_total s)" arbitrary: s rule: less_induct)
  case less
  note A = less.prems
  show ?case
  proof (cases "w_total s < cnt")
    case False
    then have "write_loop devs (\<lambda>_. True) buf cnt s = Some (None, s)" by (simp add: write_loop.simps)
    moreover have "w_total s = cnt" using False A(4) by simp
    moreover have "wrote blk buf s s 0" using wrote_none [OF file_bytes_refl [OF A(2)]] by simp
    ultimately show ?thesis using A(1) by auto
  next
    case True
    then have tt: "unat (w_total s) < unat cnt" by (simp add: word_less_nat_alt)
    show ?thesis
    proof (cases rule: write_round [OF A(1,2,3) True A(5,6,7), case_names full more])
      case (full s')
      then show ?thesis using tt by (intro exI [of _ "Some EIO"] exI [of _ s'] exI [of _ 0]) simp
    next
      case (more s2 c)
      have t2: "unat (w_total s2) = unat (w_total s) + c" "unat (w_start s2) = unat (w_start s) + c"
        and fb: "same_layout (w_vol s) (w_vol s2)" "fmap_ok blk (w_vol s2) (w_node s2)"
        using more(3) by (simp_all add: wrote_def file_bytes_def)
      note S2 = same_layout_bytes [OF fb(1)]
      have P: "unat (block_size (w_vol s2)) \<le> 4096" "w_total s2 \<le> cnt"
        "unat (w_start s2) + (unat cnt - unat (w_total s2)) \<le> max_bytes (w_vol s2)"
        "unat (w_start s2) + (unat cnt - unat (w_total s2)) < 2 ^ 32" "unat cnt - unat (w_total s2) < unat cnt - unat (w_total s)"
        using A S2 t2 more(4,5) tt by (simp_all add: word_le_nat_alt)
      from less.hyps [OF P(5) more(2) fb(2) P(1,2) A(5) P(3,4)] obtain err s' k where
        "write_loop devs (\<lambda>_. True) buf cnt s2 = Some (err, s')" "vol_ok vinv blk (w_vol s')" "k \<le> unat cnt - unat (w_total s2)"
        "wrote blk buf s2 s' k" "if k = unat cnt - unat (w_total s2) then err = None else err = Some EIO \<and> free_set blk (w_vol s') = {}" by blast
      then show ?thesis
        using more(1,5) wrote_trans [OF more(3)] t2 by (intro exI [of _ err] exI [of _ s'] exI [of _ "c + k"]) (auto split: if_splits)
    qed
  qed
qed

text \<open>One round of reading: at least one byte of the page becomes the byte of the file at its place.\<close>

lemma read_round:
  assumes v: "vol_ok vinv blk e" and f: "fmap_ok blk e n" and bs4: "unat (block_size e) \<le> 4096"
    and lt: "dn < valid" and len: "unat valid \<le> length page" and cap: "unat offset + unat valid \<le> max_bytes e"
  obtains e' n' dn' page' where "read_loop devs (\<lambda>_. True) offset valid dn page e n = read_loop devs (\<lambda>_. True) offset valid dn' page' e' n'"
    "vol_ok vinv blk e'" "file_bytes blk e n e' n' (fbyte blk e n)" "dn < dn'" "dn' \<le> valid" "length page' = length page"
    "\<forall>i < length page. page' ! i = (if unat dn \<le> i \<and> i < unat dn' then fbyte blk e n (unat offset + i) else page ! i)"
proof -
  let ?st = "unat offset + unat dn" and ?B = "unat (block_size e)"
  note V = vol_okD [OF v]
  have B: "0 < ?B" by (rule layout_okD(1) [OF V(2)])
  have tt: "unat dn < unat valid" using lt by (simp add: word_less_nat_alt)
  have "capacity (perb e) \<le> 1074791436" using bs4 by (intro capacity_bound) simp
  then have "max_bytes e \<le> 1074791436 * 4096" unfolding max_bytes_def using bs4 by (rule mult_le_mono)
  then have fit: "?st < 2 ^ 63" using cap tt by simp
  have "?st < max_bytes e" using cap tt by linarith
  then have mc: "?st div ?B < capacity (perb e)" by (simp add: max_bytes_def less_mult_imp_div_less)
  define m bo where "m = (ucast ((offset + ucast dn) div ucast (block_size e)) :: u32)"
    and "bo = (ucast ((offset + ucast dn) mod ucast (block_size e)) :: u32)"
  define chunk where "chunk = (if block_size e - bo > valid - dn then valid - dn else block_size e - bo)"
  have at: "unat (offset + ucast dn) = ?st" using fit by (simp add: unat_word_ariths unat_ucast64)
  have m: "unat m = ?st div ?B"
    using mc \<open>capacity (perb e) \<le> 1074791436\<close> by (simp add: m_def unat_ucast32 unat_div at unat_ucast64)
  have bo: "unat bo = ?st mod ?B"
    using B less_trans [OF mod_less_divisor [OF B, of ?st] unat_less_2_32] by (simp add: bo_def unat_ucast32 unat_mod at unat_ucast64)
  have "unat (block_size e - bo) = ?B - ?st mod ?B" using bo B by (simp add: unat_sub word_le_nat_alt less_imp_le)
  moreover have "unat (valid - dn) = unat valid - unat dn" using lt by (simp add: unat_sub order.strict_implies_order)
  ultimately have chunk: "unat chunk = min (?B - ?st mod ?B) (unat valid - unat dn)" by (simp add: chunk_def word_less_nat_alt)
  define c where "c = unat chunk"
  have c: "0 < c" "c \<le> unat valid - unat dn" "?st mod ?B + c \<le> ?B" using chunk tt B by (auto simp: c_def min_def)
  obtain r e1 n1 where b: "ext2_bmap devs (\<lambda>_. True) e n m False = Some (r, e1, n1)" "vol_ok vinv blk e1"
    "file_bytes blk e n e1 n1 (fbyte blk e n)" "r = mapped blk e1 n1 (unat m)"
    using bmap_file [OF v f bs4, of m False] mc m by metis
  have sl: "same_layout e e1" and f1: "fmap_ok blk e1 n1" using b(3) by (simp_all add: file_bytes_def)
  note S = same_layout_bytes [OF sl] and per1 = perb_pos [OF vol_okD(2) [OF b(2)]]
  define bl where "bl = (if r = 0 then replicate ?B 0 else blk e1 r)"
  have rb: "r < blocks_count e1" if "r \<noteq> 0"
    using fmap_okD(2) [OF f1 fpath_ok(1) [OF per1, of "unat m"]] that b(4) mc m sl by (simp add: mapped_def used_def same_layoutD)
  have len_bl: "length bl = ?B" using block_length [OF vol_okD(1) [OF b(2)] rb] S by (simp add: bl_def)
  have rd: "(if r = 0 then Inr (replicate (unat (block_size e1)) 0) else ext2_read_block devs r (replicate (unat (block_size e1)) 0) e1) = Inr bl"
    using read_block [OF vol_okD(1) [OF b(2)] rb] S by (simp add: bl_def)
  define bs where "bs = take c (drop (?st mod ?B) bl)"
  have lbs: "length bs = c" using c(3) len_bl by (simp add: bs_def)
  have bs: "bs ! j = fbyte blk e n (?st + j)" if "j < c" for j
  proof -
    have "(?st + j) div ?B = ?st div ?B" "(?st + j) mod ?B = ?st mod ?B + j"
      using range_in_block [OF B c(3), of "?st + j"] that by auto
    moreover have "?st + j < max_bytes e" using that c(2) cap tt by linarith
    then have "fbyte blk e n (?st + j) = fbyte blk e1 n1 (?st + j)" using b(3) by (simp add: file_bytes_def)
    ultimately show ?thesis using that c(3) len_bl S b(4) m by (simp add: bs_def fbyte_def bl_def)
  qed
  show thesis
  proof (rule that)
    show "read_loop devs (\<lambda>_. True) offset valid dn page e n =
        read_loop devs (\<lambda>_. True) offset valid (dn + chunk) (copy_at (unat dn) bs page) e1 n1"
      using lt b(1) rd bo [unfolded bo_def] S
      by (subst read_loop.simps) (simp add: Let_def m_def [symmetric] chunk_def [unfolded bo_def, symmetric] c_def [symmetric] bs_def [symmetric] split del: if_split)
    have "unat dn + c \<le> unat valid" using c(2) tt by simp
    from le_less_trans [OF this unat_less_2_32] have u: "unat (dn + chunk) = unat dn + c" by (simp add: c_def unat_add_no_wrap)
    show "dn < dn + chunk" "dn + chunk \<le> valid" using u c tt by (simp_all add: word_less_nat_alt word_le_nat_alt)
    show "length (copy_at (unat dn) bs page) = length page" using lbs c(2) tt len by (simp add: length_copy_at)
    show "\<forall>i < length page. copy_at (unat dn) bs page ! i =
        (if unat dn \<le> i \<and> i < unat (dn + chunk) then fbyte blk e n (unat offset + i) else page ! i)"
      using lbs c(2) tt len bs by (auto simp: nth_copy_at u add.assoc)
  qed (use b in simp_all)
qed

lemma read_loop_ok:
  assumes "vol_ok vinv blk e" "fmap_ok blk e n" "unat (block_size e) \<le> 4096"
    and "dn \<le> valid" "unat valid \<le> length page" "unat offset + unat valid \<le> max_bytes e"
  shows "\<exists>page' e' n'. read_loop devs (\<lambda>_. True) offset valid dn page e n = Some (Inr valid, page', e', n') \<and> vol_ok vinv blk e' \<and>
    file_bytes blk e n e' n' (fbyte blk e n) \<and> length page' = length page \<and>
    (\<forall>i < length page. page' ! i = (if unat dn \<le> i \<and> i < unat valid then fbyte blk e n (unat offset + i) else page ! i))"
  using assms
proof (induction "unat valid - unat dn" arbitrary: dn page e n rule: less_induct)
  case less
  note A = less.prems
  show ?case
  proof (cases "dn < valid")
    case False
    then have "dn = valid" using A(4) by simp
    then show ?thesis using A(1) file_bytes_refl [OF A(2)] by (auto simp: read_loop.simps)
  next
    case True
    obtain e1 n1 d1 p1 where
      r: "read_loop devs (\<lambda>_. True) offset valid dn page e n = read_loop devs (\<lambda>_. True) offset valid d1 p1 e1 n1"
      "vol_ok vinv blk e1" "file_bytes blk e n e1 n1 (fbyte blk e n)" "dn < d1" "d1 \<le> valid" "length p1 = length page"
      "\<forall>i < length page. p1 ! i = (if unat dn \<le> i \<and> i < unat d1 then fbyte blk e n (unat offset + i) else page ! i)"
      by (rule read_round [OF A(1,2,3) True A(5,6)])
    have sl: "same_layout e e1" "fmap_ok blk e1 n1" using r(3) by (simp_all add: file_bytes_def)
    note S = same_layout_bytes [OF sl(1)]
    have m: "unat valid - unat d1 < unat valid - unat dn" using r(4,5) True by (simp add: word_less_nat_alt word_le_nat_alt)
    have P: "unat (block_size e1) \<le> 4096" "unat valid \<le> length p1" "unat offset + unat valid \<le> max_bytes e1" using A S r(6) by simp_all
    from less.hyps [OF m r(2) sl(2) P(1) r(5) P(2,3)] obtain p2 e2 n2 where
      q: "read_loop devs (\<lambda>_. True) offset valid d1 p1 e1 n1 = Some (Inr valid, p2, e2, n2)" "vol_ok vinv blk e2"
      "file_bytes blk e1 n1 e2 n2 (fbyte blk e1 n1)" "length p2 = length p1"
      "\<forall>i < length p1. p2 ! i = (if unat d1 \<le> i \<and> i < unat valid then fbyte blk e1 n1 (unat offset + i) else p1 ! i)" by blast
    have eq: "fbyte blk e1 n1 i = fbyte blk e n i" if "i < max_bytes e" for i using r(3) that by (simp add: file_bytes_def)
    have "file_bytes blk e n e2 n2 (fbyte blk e n)" by (rule file_bytes_cong [OF file_bytes_trans [OF r(3) q(3)] eq])
    moreover have "p2 ! i = (if unat dn \<le> i \<and> i < unat valid then fbyte blk e n (unat offset + i) else page ! i)" if "i < length page" for i
    proof -
      have "unat dn < unat d1" "unat d1 \<le> unat valid" using r(4,5) by (simp_all add: word_less_nat_alt word_le_nat_alt)
      moreover have "fbyte blk e1 n1 (unat offset + i) = fbyte blk e n (unat offset + i)" if "i < unat valid" using that A(6) by (intro eq) simp
      ultimately show ?thesis using that q(5) r(6,7) by auto
    qed
    ultimately show ?thesis using r(1,6) q(1,2,4) by simp
  qed
qed

end

text \<open>The map of a file depends on the pointers of its inode only.\<close>

lemma same_ptrs:
  assumes "raw_block (n_raw n') = raw_block (n_raw n)"
  shows "fbyte blk e n' = fbyte blk e n" "fmap_ok blk e n' = fmap_ok blk e n" "foreign blk e n' = foreign blk e n"
proof -
  have "flook blk e n' \<pi> = flook blk e n \<pi>" for \<pi> using assms by (cases \<pi>) simp_all
  then have l: "flook blk e n' = flook blk e n" by blast
  show "fbyte blk e n' = fbyte blk e n" "fmap_ok blk e n' = fmap_ok blk e n" "foreign blk e n' = foreign blk e n"
    using assms by (simp_all add: fun_eq_iff fbyte_def mapped_def fmap_ok_def raw_ok_def foreign_def l)
qed

context block_store
begin

lemma file_write_ok:
  assumes "vol_ok vinv blk e" "fmap_ok blk e n" "unat (block_size e) \<le> 4096" "S_ISREG (n_mode n)"
    and st: "st = (if app then n_size n else ucast pos)"
    and "unat cnt \<le> length buf" "unat st + unat cnt \<le> max_bytes e" "unat st + unat cnt < 2 ^ 32"
  obtains k ret pos' cached e' n' where "ext2_file_write devs (\<lambda>_. True) now app pos buf cnt e n = Some (ret, pos', cached, e', n')"
    "vol_ok vinv blk e'" "fmap_ok blk e' n'" "same_layout e e'" "n_mode n' = n_mode n"
    "k \<le> unat cnt" "k < unat cnt \<longrightarrow> free_set blk e' = {}" "ret = (if k = 0 \<and> cnt \<noteq> 0 then Inl EIO else Inr (of_nat k))"
    "pos' = (if k = 0 then pos else of_nat (unat st + k))" "unat (n_size n') = max (unat (n_size n)) (unat st + k)"
    "concat (map snd cached) = take k buf" "\<forall>b. foreign blk e n b \<longrightarrow> blk e' b = blk e b \<and> foreign blk e' n' b"
    "\<forall>i < max_bytes e. fbyte blk e' n' i = (if unat st \<le> i \<and> i < unat st + k then buf ! (i - unat st) else fbyte blk e n i)"
proof -
  let ?s = "\<lparr>w_start = st, w_total = 0, w_pos = pos, w_cached = [], w_vol = e, w_node = n\<rparr>"
  have "\<exists>err s' k. write_loop devs (\<lambda>_. True) buf cnt ?s = Some (err, s') \<and> vol_ok vinv blk (w_vol s') \<and> k \<le> unat cnt - unat (w_total ?s) \<and>
      wrote blk buf ?s s' k \<and> (if k = unat cnt - unat (w_total ?s) then err = None else err = Some EIO \<and> free_set blk (w_vol s') = {})"
    by (rule write_loop_ok) (use assms in simp_all)
  then obtain err s' k where w: "write_loop devs (\<lambda>_. True) buf cnt ?s = Some (err, s')" "vol_ok vinv blk (w_vol s')" "k \<le> unat cnt"
    "wrote blk buf ?s s' k" "if k = unat cnt then err = None else err = Some EIO \<and> free_set blk (w_vol s') = {}" by auto
  have W: "unat (w_total s') = k" "unat (w_start s') = unat st + k" "w_pos s' = (if k = 0 then pos else ucast (w_start s'))"
    "concat (map snd (w_cached s')) = take k buf"
    and fb: "file_bytes blk e n (w_vol s') (w_node s') (\<lambda>i. if unat st \<le> i \<and> i < unat st + k then buf ! (i - unat st) else fbyte blk e n i)"
    using w(4) by (simp_all add: wrote_def cong: if_cong)
  define n' where "n' = (let n = w_node s';
    n = (if w_start s' > n_size n then n\<lparr>n_size := w_start s', n_raw := (n_raw n)\<lparr>raw_size := w_start s'\<rparr>\<rparr> else n)
    in if w_total s' \<noteq> 0 then n\<lparr>n_mtime := now, n_ctime := now, n_raw := (n_raw n)\<lparr>raw_mtime := ucast now, raw_ctime := ucast now\<rparr>, n_dirty := True\<rparr> else n)"
  have n': "raw_block (n_raw n') = raw_block (n_raw (w_node s'))" "n_mode n' = n_mode n" "n_size n' = max (n_size n) (w_start s')"
    using fb by (auto simp: n'_def Let_def file_bytes_def max_def)
  note P = same_ptrs [OF n'(1)]
  have tot: "w_total s' = of_nat k" and k0: "w_total s' = 0 \<longleftrightarrow> k = 0" and c0: "cnt = 0 \<longleftrightarrow> unat cnt = 0"
    using W(1) by (auto simp: unat_eq_0)
  show thesis
  proof (rule that)
    show "ext2_file_write devs (\<lambda>_. True) now app pos buf cnt e n =
        Some (if w_total s' \<noteq> 0 then Inr (w_total s') else case err of Some x \<Rightarrow> Inl x | None \<Rightarrow> Inr 0, w_pos s', w_cached s', w_vol s', n')"
      using assms(4) w(1) unfolding n'_def by (simp add: ext2_file_write_def st [symmetric] Let_def)
    show "(if w_total s' \<noteq> 0 then Inr (w_total s') else case err of Some x \<Rightarrow> Inl x | None \<Rightarrow> Inr 0) =
        (if k = 0 \<and> cnt \<noteq> 0 then Inl EIO else Inr (of_nat k))"
      using w(5) k0 tot c0 by (auto split: if_splits)
    have "ucast (w_start s') = (of_nat (unat st + k) :: u64)" using W(2) by (metis of_nat_unat)
    then show "w_pos s' = (if k = 0 then pos else of_nat (unat st + k))" using W(3) by simp
    show "unat (n_size n') = max (unat (n_size n)) (unat st + k)" using n'(3) W(2) by (simp add: max_def word_le_nat_alt)
  qed (use w W fb n'(2) in \<open>auto simp: file_bytes_def P\<close>)
qed

lemma read_page_ok:
  assumes "vol_ok vinv blk e" "fmap_ok blk e n" "unat (block_size e) \<le> 4096" "S_ISREG (n_mode n)"
    and "unat valid \<le> length page" "unat offset + unat valid \<le> max_bytes e"
  shows "\<exists>page' e' n'. ext2_file_read_page devs (\<lambda>_. True) offset page valid e n = Some (Inr valid, page', e', n') \<and>
    vol_ok vinv blk e' \<and> file_bytes blk e n e' n' (fbyte blk e n) \<and> length page' = length page \<and>
    (\<forall>i < length page. page' ! i = (if i < unat valid then fbyte blk e n (unat offset + i) else page ! i))"
  using read_loop_ok [OF assms(1,2,3) _ assms(5,6), of 0] assms(4) by (simp add: ext2_file_read_page_def)

end

section \<open>Properties\<close>

text \<open>C28: A file of ext2 is an array of bytes. \<^verbatim>\<open>ext2_file_write\<close> returns for every position and count that fit the block map. It
  replaces the \<open>k\<close> bytes from the position on (the end of the file with \<open>O_APPEND\<close>) by the first \<open>k\<close> of the buffer,
  and no other byte of the file; a block that had to be allocated reads as zero outside the range. \<open>k\<close> is the count unless
  no block is free any more; the value returned is \<open>k\<close>, or \<open>EIO\<close> when nothing of a nonempty buffer was
  written. The size becomes the greater of the old size and the end of the range, the page cache gets the same
  bytes, and no block of another file changes. A later \<^verbatim>\<open>ext2_file_read_page\<close> of any range returns, and its page
  holds the bytes of this array.\<close>

theorem ext2_file_array:
  assumes "vol_ok rd_volume rd_block e" "fmap_ok rd_block e n" "unat (block_size e) \<le> 4096" "S_ISREG (n_mode n)"
    and "st = (if app then n_size n else ucast pos)"
    and "unat cnt \<le> length buf" "unat st + unat cnt \<le> max_bytes e" "unat st + unat cnt < 2 ^ 32"
  shows "\<exists>k ret pos' cached e' n'. ext2_file_write blkdev_init (\<lambda>_. True) now app pos buf cnt e n = Some (ret, pos', cached, e', n') \<and>
    vol_ok rd_volume rd_block e' \<and> fmap_ok rd_block e' n' \<and>
    k \<le> unat cnt \<and> (k < unat cnt \<longrightarrow> free_set rd_block e' = {}) \<and>
    ret = (if k = 0 \<and> cnt \<noteq> 0 then Inl EIO else Inr (of_nat k)) \<and> pos' = (if k = 0 then pos else of_nat (unat st + k)) \<and>
    unat (n_size n') = max (unat (n_size n)) (unat st + k) \<and> concat (map snd cached) = take k buf \<and>
    (\<forall>b. foreign rd_block e n b \<longrightarrow> rd_block e' b = rd_block e b) \<and>
    (\<forall>offset page valid. unat valid \<le> length page \<and> unat offset + unat valid \<le> max_bytes e \<longrightarrow>
      (\<exists>page' e'' n''. ext2_file_read_page blkdev_init (\<lambda>_. True) offset page valid e' n' = Some (Inr valid, page', e'', n'') \<and>
        (\<forall>i < unat valid. page' ! i = (let j = unat offset + i in
           if unat st \<le> j \<and> j < unat st + k then buf ! (j - unat st) else fbyte rd_block e n j))))"
proof -
  obtain k ret pos' cached e' n' where w: "ext2_file_write blkdev_init (\<lambda>_. True) now app pos buf cnt e n = Some (ret, pos', cached, e', n')"
    "vol_ok rd_volume rd_block e'" "fmap_ok rd_block e' n'" "same_layout e e'" "n_mode n' = n_mode n"
    "k \<le> unat cnt" "k < unat cnt \<longrightarrow> free_set rd_block e' = {}" "ret = (if k = 0 \<and> cnt \<noteq> 0 then Inl EIO else Inr (of_nat k))"
    "pos' = (if k = 0 then pos else of_nat (unat st + k))" "unat (n_size n') = max (unat (n_size n)) (unat st + k)"
    "concat (map snd cached) = take k buf" "\<forall>b. foreign rd_block e n b \<longrightarrow> rd_block e' b = rd_block e b \<and> foreign rd_block e' n' b"
    "\<forall>i < max_bytes e. fbyte rd_block e' n' i = (if unat st \<le> i \<and> i < unat st + k then buf ! (i - unat st) else fbyte rd_block e n i)"
    by (rule rdvol.file_write_ok [OF assms])
  note S = same_layout_bytes [OF w(4)]
  have "\<exists>page' e'' n''. ext2_file_read_page blkdev_init (\<lambda>_. True) offset page valid e' n' = Some (Inr valid, page', e'', n'') \<and>
      (\<forall>i < unat valid. page' ! i = (let j = unat offset + i in
        if unat st \<le> j \<and> j < unat st + k then buf ! (j - unat st) else fbyte rd_block e n j))"
    if v: "unat valid \<le> length page" "unat offset + unat valid \<le> max_bytes e" for offset page valid
  proof -
    have "unat (block_size e') \<le> 4096" "S_ISREG (n_mode n')" "unat offset + unat valid \<le> max_bytes e'" using S w(5) assms(3,4) v by simp_all
    from rdvol.read_page_ok [OF w(2,3) this(1,2) v(1) this(3)] show ?thesis using w(13) v by (auto simp: Let_def)
  qed
  then show ?thesis using w by blast
qed

theorem ext2_file_array_witness:
  "\<exists>k ret pos' cached e' n' page' e'' n''.
     ext2_file_write blkdev_init (\<lambda>_. True) 5 True 0 [1, 2, 3] 3 vol_example node_example = Some (ret, pos', cached, e', n') \<and>
     ext2_file_read_page blkdev_init (\<lambda>_. True) 9 (replicate 4 0) 2 e' n' = Some (Inr 2, page', e'', n'') \<and>
     (k = 0 \<or> page' ! 1 = 1) \<and> (k < (3 :: nat) \<longrightarrow> free_set rd_block e' = {})"
proof -
  have bs: "unat (block_size vol_example) = 1024" by (simp add: vol_example_def)
  then have mb: "100 \<le> max_bytes vol_example" by (simp add: max_bytes_def capacity_def)
  have n: "n_size node_example = 10" "S_ISREG (n_mode node_example)" by (simp_all add: node_example_def)
  have "\<exists>k ret pos' cached e' n'. ext2_file_write blkdev_init (\<lambda>_. True) 5 True 0 [1, 2, 3] 3 vol_example node_example = Some (ret, pos', cached, e', n') \<and>
    (k < 3 \<longrightarrow> free_set rd_block e' = {}) \<and>
    (\<forall>offset page valid. unat valid \<le> length page \<and> unat offset + unat valid \<le> max_bytes vol_example \<longrightarrow>
      (\<exists>page' e'' n''. ext2_file_read_page blkdev_init (\<lambda>_. True) offset page valid e' n' = Some (Inr valid, page', e'', n'') \<and>
        (\<forall>i < unat valid. page' ! i = (let j = unat offset + i in
           if 10 \<le> j \<and> j < 10 + k then [1, 2, 3] ! (j - 10) else fbyte rd_block vol_example node_example j))))"
    using ext2_file_array [OF vol_example_vol_ok, of 10 True 0 3 "[1, 2, 3]" 5] bs mb n by (simp cong: if_cong) blast
  then obtain k ret pos' cached e' n' where
    w: "ext2_file_write blkdev_init (\<lambda>_. True) 5 True 0 [1, 2, 3] 3 vol_example node_example = Some (ret, pos', cached, e', n')"
    "k < 3 \<longrightarrow> free_set rd_block e' = {}" and
    r: "\<forall>offset page valid. unat valid \<le> length page \<and> unat offset + unat valid \<le> max_bytes vol_example \<longrightarrow>
      (\<exists>page' e'' n''. ext2_file_read_page blkdev_init (\<lambda>_. True) offset page valid e' n' = Some (Inr valid, page', e'', n'') \<and>
        (\<forall>i < unat valid. page' ! i = (let j = unat offset + i in
           if 10 \<le> j \<and> j < 10 + k then [1, 2, 3] ! (j - 10) else fbyte rd_block vol_example node_example j)))" by (elim exE conjE) (rule that)
  have "unat (2 :: u32) \<le> length (replicate 4 0) \<and> unat (9 :: u64) + unat (2 :: u32) \<le> max_bytes vol_example" using mb by simp
  from r [rule_format, OF this] obtain page' e'' n'' where
    p: "ext2_file_read_page blkdev_init (\<lambda>_. True) 9 (replicate 4 0) 2 e' n' = Some (Inr 2, page', e'', n'')"
    "\<forall>i < unat (2 :: u32). page' ! i = (let j = unat (9 :: u64) + i in
       if 10 \<le> j \<and> j < 10 + k then [1, 2, 3] ! (j - 10) else fbyte rd_block vol_example node_example j)" by (elim exE conjE) (rule that)
  have "k = 0 \<or> page' ! 1 = 1" using p(2) [rule_format, of 1] by (simp add: Let_def)
  with w p(1) show ?thesis by (intro exI conjI)
qed

text \<open>Writing no bytes behind the end of the file extends it, without marking the inode dirty.\<close>

lemma ext2_empty_write_extends:
  assumes "S_ISREG (n_mode n)" "unat (n_size n) < unat pos" "unat pos < 2 ^ 32"
  shows "ext2_file_write devs mem now False pos buf 0 e n =
    Some (Inr 0, pos, [], e, n\<lparr>n_size := ucast pos, n_raw := (n_raw n)\<lparr>raw_size := ucast pos\<rparr>\<rparr>)"
  using assms by (simp add: ext2_file_write_def write_loop.simps Let_def word_less_nat_alt unat_ucast32)

text \<open>\<^verbatim>\<open>readlink\<close> returns the length of the target, also when it stored fewer bytes.\<close>

lemma ext2_readlink_count:
  assumes "S_ISLNK (n_mode n)" "n_nr_block n = 0" "unat (n_size n) \<le> 60" "raw_ok (n_raw n)"
  shows "ext2_readlink devs (\<lambda>_. True) 1 e n = Some (Inr (n_size n), take (min 1 (unat (n_size n))) (words_bytes (raw_block (n_raw n))), e, n)"
proof -
  let ?z = "n_size n"
  have z: "unat (?z + 1) = unat ?z + 1" using assms(3) by (simp add: unat_add_no_wrap)
  then have gt: "?z < ?z + 1" by (simp add: word_less_nat_alt)
  have m: "min ?z 60 = ?z" using assms(3) by (simp add: min_def word_le_nat_alt)
  have l: "length (words_bytes (raw_block (n_raw n))) = 60" using assms(4) by (simp add: raw_ok_def length_words_bytes)
  have "sint ?z = int (unat ?z)" using assms(3) by (intro sint_small) simp
  moreover have "sint (1 :: u32) = 1" by simp
  ultimately have "sint (1 :: u32) < sint ?z \<longleftrightarrow> 1 < unat ?z" by linarith
  then have c: "unat (if sint (1 :: u32) < sint ?z then 1 else ?z) = min 1 (unat ?z)" by auto
  define t where "t = words_bytes (raw_block (n_raw n))"
  have "take (min 1 (unat ?z)) ((take (unat ?z) t @ drop (unat ?z) (0 # replicate (unat ?z) 0))[unat ?z := 0]) = take (min 1 (unat ?z)) t"
    using l by (cases "unat ?z") (simp_all add: t_def)
  then show ?thesis using assms(1,2,3) gt m z l c
    by (simp add: ext2_readlink_def ext2_read_symlink_target_def Let_def copy_at_def t_def)
qed

end
