(* ===== verification/Tty.thy ===== *)
theory Tty
  imports Pipe Blkdev
begin

text \<open>
  The line discipline of terminals: \<^verbatim>\<open>src/src/fs/char/tty.c\<close>. A terminal is a record that drivers
  extend with a state of their own, as \<^verbatim>\<open>struct pty_pair\<close> does by embedding \<^verbatim>\<open>struct tty_struct\<close> as its
  first member; the driver's \<^verbatim>\<open>write\<close> is an argument. A pointer to a terminal is named by its device
  number, which \<^verbatim>\<open>tty_init_struct\<close> sets for good. Signals are the list of the calls of \<^verbatim>\<open>kill_pg\<close>: the
  process group, the signal and the privilege flag. Reading and writing may sleep; what a call
  finds when it goes on is an argument of the continuation. \<^term>\<open>None\<close> is a failed assertion, a call
  of \<^verbatim>\<open>hang\<close> or an access outside a buffer.
\<close>

section \<open>Model\<close>

subsection \<open>Settings\<close>

record termios =
  c_iflag :: u32
  c_oflag :: u32
  c_cflag :: u32
  c_lflag :: u32
  c_line :: u8
  c_cc :: "u8 list"
  c_ispeed :: u32
  c_ospeed :: u32

record winsize =
  ws_row :: u16
  ws_col :: u16
  ws_xpixel :: u16
  ws_ypixel :: u16

abbreviation (input) INLCR :: u32 where "INLCR \<equiv> 0x40"
abbreviation (input) IGNCR :: u32 where "IGNCR \<equiv> 0x80"
abbreviation (input) ICRNL :: u32 where "ICRNL \<equiv> 0x100"
abbreviation (input) OPOST :: u32 where "OPOST \<equiv> 1"
abbreviation (input) ONLCR :: u32 where "ONLCR \<equiv> 4"
abbreviation (input) ISIG :: u32 where "ISIG \<equiv> 1"
abbreviation (input) ICANON :: u32 where "ICANON \<equiv> 2"
abbreviation (input) ECHO :: u32 where "ECHO \<equiv> 8"
abbreviation (input) ECHOE :: u32 where "ECHOE \<equiv> 0x10"
abbreviation (input) ECHOK :: u32 where "ECHOK \<equiv> 0x20"
abbreviation (input) TOSTOP :: u32 where "TOSTOP \<equiv> 0x100"
abbreviation (input) ECHOCTL :: u32 where "ECHOCTL \<equiv> 0x200"

abbreviation (input) VINTR :: nat where "VINTR \<equiv> 0"
abbreviation (input) VQUIT :: nat where "VQUIT \<equiv> 1"
abbreviation (input) VERASE :: nat where "VERASE \<equiv> 2"
abbreviation (input) VEOF :: nat where "VEOF \<equiv> 4"
abbreviation (input) VSUSP :: nat where "VSUSP \<equiv> 10"
abbreviation (input) VEOL :: nat where "VEOL \<equiv> 11"

abbreviation (input) SIGHUP :: nat where "SIGHUP \<equiv> 1"
abbreviation (input) SIGINT :: nat where "SIGINT \<equiv> 2"
abbreviation (input) SIGQUIT :: nat where "SIGQUIT \<equiv> 3"
abbreviation (input) SIGCONT :: nat where "SIGCONT \<equiv> 18"
abbreviation (input) SIGTSTP :: nat where "SIGTSTP \<equiv> 20"
abbreviation (input) SIGTTIN :: nat where "SIGTTIN \<equiv> 21"
abbreviation (input) SIGTTOU :: nat where "SIGTTOU \<equiv> 22"
abbreviation (input) SIGWINCH :: nat where "SIGWINCH \<equiv> 28"

abbreviation (input) CR :: u8 where "CR \<equiv> 13"
abbreviation (input) NL :: u8 where "NL \<equiv> 10"
abbreviation (input) TAB :: u8 where "TAB \<equiv> 9"

abbreviation has :: "u32 \<Rightarrow> u32 \<Rightarrow> bool" where "has w f \<equiv> w AND f \<noteq> 0"

definition default_termios :: termios where
  "default_termios =
     \<lparr>c_iflag = ICRNL, c_oflag = OPOST OR ONLCR, c_cflag = 0,
      c_lflag = ISIG OR ICANON OR ECHO OR ECHOE OR ECHOK OR ECHOCTL, c_line = 0,
      c_cc = [3, 0x1c, 0x7f, 0x15, 4, 0, 0, 0, 0x11, 0x13, 0x1a, 0] @ replicate 20 0,
      c_ispeed = 0, c_ospeed = 0\<rparr>"

subsection \<open>Terminals and tasks\<close>

record tty =
  tty_dev :: dev_t
  tty_session :: int
  tty_pgrp :: int
  tty_termios :: termios
  tty_winsize :: winsize
  read_buf :: ring_buffer
  tty_count :: int
  tty_initialized :: bool
  hung_up :: bool

type_synonym 'a driver = "u8 list \<Rightarrow> 'a tty_scheme \<Rightarrow> (errno + u32) \<times> 'a tty_scheme"

record task =
  t_pid :: int
  t_leader :: bool
  t_session :: int
  t_pgrp :: int
  t_tty :: "dev_t option"

type_synonym kills = "(int \<times> nat \<times> bool) list"

definition tty_init_struct :: "dev_t \<Rightarrow> u8 list option \<Rightarrow> u32 \<Rightarrow> u32 \<Rightarrow> (errno + unit) \<times> tty" where
  "tty_init_struct dev page rows cols =
     (let zero = \<lparr>c_iflag = 0, c_oflag = 0, c_cflag = 0, c_lflag = 0, c_line = 0, c_cc = replicate 32 0,
                  c_ispeed = 0, c_ospeed = 0\<rparr>;
          tty = \<lparr>tty_dev = dev, tty_session = 0, tty_pgrp = 0, tty_termios = zero,
                 tty_winsize = \<lparr>ws_row = 0, ws_col = 0, ws_xpixel = 0, ws_ypixel = 0\<rparr>,
                 read_buf = \<lparr>rb_data = None, rb_size = 0, rb_head = 0, rb_tail = 0, rb_len = 0\<rparr>,
                 tty_count = 0, tty_initialized = False, hung_up = False\<rparr>
      in case ring_buffer_init page (read_buf tty) of
           (Inl e, rb) \<Rightarrow> (Inl e, tty\<lparr>read_buf := rb\<rparr>)
         | (Inr _, rb) \<Rightarrow>
             (Inr (), tty\<lparr>read_buf := rb, tty_termios := default_termios,
                          tty_winsize := (tty_winsize tty)\<lparr>ws_col := ucast cols, ws_row := ucast rows\<rparr>\<rparr>))"

subsection \<open>Output\<close>

definition tty_output_char :: "'a tty_scheme \<Rightarrow> u8 \<Rightarrow> u8 list" where
  "tty_output_char tty c =
     (let oflag = c_oflag (tty_termios tty)
      in (if has oflag OPOST \<and> c = NL \<and> has oflag ONLCR then [CR] else []) @ [c])"

definition tty_put_c :: "'a driver \<Rightarrow> u8 \<Rightarrow> 'a tty_scheme \<Rightarrow> (errno + unit) \<times> 'a tty_scheme" where
  "tty_put_c dw c tty =
     (let output = tty_output_char tty c
      in case dw output tty of
           (Inl e, tty) \<Rightarrow> (Inl e, tty)
         | (Inr written, tty) \<Rightarrow> (if written = of_nat (length output) then Inr () else Inl EAGAIN, tty))"

primrec tty_put_s :: "'a driver \<Rightarrow> u8 list \<Rightarrow> 'a tty_scheme \<Rightarrow> 'a tty_scheme" where
  "tty_put_s dw [] tty = tty"
| "tty_put_s dw (c # s) tty = (if c = 0 then tty else tty_put_s dw s (snd (tty_put_c dw c tty)))"

subsection \<open>Input from the device\<close>

text \<open>The code from the label \<^verbatim>\<open>tail_1\<close> to \<^verbatim>\<open>tail_2\<close>.\<close>

definition tty_echo :: "'a driver \<Rightarrow> u32 \<Rightarrow> u8 list \<Rightarrow> int \<Rightarrow> u8 \<Rightarrow> 'a tty_scheme \<Rightarrow> 'a tty_scheme" where
  "tty_echo dw lflag cc popped c tty =
     (if has lflag ECHO
      then if c = cc ! VERASE \<and> has lflag ECHOE
           then if popped \<noteq> -1 then tty_put_s dw [8, 32, 8] tty else tty
           else if has lflag ECHOCTL \<and> c \<le> 31 \<and> c \<noteq> TAB \<and> c \<noteq> NL \<and> c \<noteq> CR
           then snd (tty_put_c dw (c + 0x40) (snd (tty_put_c dw 0x5e tty)))
           else if has lflag ECHOCTL \<and> c = 127 then tty_put_s dw [0x5e, 0x3f] tty
           else snd (tty_put_c dw c tty)
      else tty)"

text \<open>The value is whether readers are woken.\<close>

definition tty_receive_c :: "'a driver \<Rightarrow> u8 \<Rightarrow> 'a tty_scheme \<Rightarrow> ((errno + bool) \<times> kills \<times> 'a tty_scheme) option" where
  "tty_receive_c dw c tty =
     (if tty_count tty = 0 then Some (Inl EIO, [], tty)
      else
        let iflag = c_iflag (tty_termios tty); lflag = c_lflag (tty_termios tty); cc = c_cc (tty_termios tty);
            interrupt = (\<lambda>sig. Some (Inr False, [(tty_pgrp tty, sig, False)], tty_echo dw lflag cc (-1) c tty))
        in if has lflag ISIG \<and> c = cc ! VINTR then interrupt SIGINT
           else if has lflag ISIG \<and> c = cc ! VQUIT then interrupt SIGQUIT
           else if has lflag ISIG \<and> c = cc ! VSUSP then interrupt SIGTSTP
           else if c = CR \<and> has iflag IGNCR then Some (Inr False, [], tty)
           else
             let c = (if c = CR then if has iflag ICRNL then NL else c
                      else if c = NL \<and> has iflag INLCR then CR else c)
             in if has lflag ICANON \<and> c = cc ! VERASE
                then case ring_buffer_pop (read_buf tty) of
                       None \<Rightarrow> None
                     | Some (rb, popped) \<Rightarrow> Some (Inr False, [], tty_echo dw lflag cc popped c (tty\<lparr>read_buf := rb\<rparr>))
                else
                  let wake = (if has lflag ICANON then c = cc ! VEOF \<or> c = NL \<or> c = CR \<or> c = cc ! VEOL else True)
                  in if ring_buffer_full (read_buf tty) then Some (Inl EAGAIN, [], tty)
                     else Some (Inr wake, [],
                            tty_echo dw lflag cc (-1) c (tty\<lparr>read_buf := fst (ring_buffer_write (read_buf tty) [c] 1)\<rparr>)))"

primrec receive_loop :: "'a driver \<Rightarrow> u8 list \<Rightarrow> 'a tty_scheme \<Rightarrow> (kills \<times> 'a tty_scheme) option" where
  "receive_loop dw [] tty = Some ([], tty)"
| "receive_loop dw (c # s) tty =
     (if c = 0 then Some ([], tty)
      else case tty_receive_c dw c tty of
             None \<Rightarrow> None
           | Some (_, ks, tty) \<Rightarrow> map_option (apfst ((@) ks)) (receive_loop dw s tty))"

definition tty_receive_s :: "'a driver \<Rightarrow> u8 list \<Rightarrow> 'a tty_scheme \<Rightarrow> (kills \<times> 'a tty_scheme) option" where
  "tty_receive_s dw s tty = (if tty_count tty = 0 then Some ([], tty) else receive_loop dw s tty)"

text \<open>The out parameters and the two rings; \<^verbatim>\<open>signal\<close> and \<^verbatim>\<open>signal_pgrp\<close> are 0 where there is none.\<close>

record 'a received =
  r_result :: "errno + unit"
  output_full :: bool
  wake_read :: bool
  signal_pgrp :: int
  signal_no :: nat
  r_output :: ring_buffer
  r_tty :: "'a tty_scheme"

definition tty_receive_c_atomic :: "u8 \<Rightarrow> ring_buffer \<Rightarrow> 'a tty_scheme \<Rightarrow> 'a received option" where
  "tty_receive_c_atomic c output tty =
     (let failed = (\<lambda>e full tty. Some \<lparr>r_result = Inl e, output_full = full, wake_read = False, signal_pgrp = 0,
                                       signal_no = 0, r_output = output, r_tty = tty\<rparr>)
      in if tty_count tty = 0 \<or> hung_up tty then failed EIO False tty
         else
           let iflag = c_iflag (tty_termios tty); lflag = c_lflag (tty_termios tty); oflag = c_oflag (tty_termios tty);
               cc = c_cc (tty_termios tty);
               sig = (if has lflag ISIG
                      then if c = cc ! VINTR then SIGINT else if c = cc ! VQUIT then SIGQUIT
                           else if c = cc ! VSUSP then SIGTSTP else 0
                      else 0);
               push = (sig = 0 \<and> \<not> (c = CR \<and> has iflag IGNCR));
               lflag = (if sig = 0 \<and> c = CR \<and> has iflag IGNCR then lflag AND NOT ECHO else lflag);
               c = (if sig \<noteq> 0 then c
                    else if c = CR then if \<not> has iflag IGNCR \<and> has iflag ICRNL then NL else c
                    else if c = NL \<and> has iflag INLCR then CR else c);
               erase = (push \<and> has lflag ICANON \<and> c = cc ! VERASE);
               wake = (push \<and> \<not> erase \<and>
                       (has lflag ICANON \<longrightarrow> c = cc ! VEOF \<or> c = NL \<or> c = CR \<or> c = cc ! VEOL))
           in case (if erase \<and> \<not> ring_buffer_empty (read_buf tty) then ring_buffer_pop (read_buf tty)
                    else Some (read_buf tty, -1)) of
                None \<Rightarrow> None
              | Some (rb, popped) \<Rightarrow>
                  let tty = tty\<lparr>read_buf := rb\<rparr>; push = (push \<and> \<not> erase)
                  in if push \<and> ring_buffer_full (read_buf tty) then failed EAGAIN False tty
                     else
                       let echo = (if has lflag ECHO
                                   then if c = cc ! VERASE \<and> has lflag ECHOE
                                        then if popped \<noteq> -1 then [8, 32, 8] else []
                                        else if has lflag ECHOCTL \<and> (c \<le> 31 \<and> c \<noteq> TAB \<and> c \<noteq> NL \<and> c \<noteq> CR \<or> c = 127)
                                        then [0x5e, if c = 127 then 0x3f else c + 0x40]
                                        else [c]
                                   else []);
                           processed = concat (map (\<lambda>x. (if has oflag OPOST \<and> x = NL \<and> has oflag ONLCR then [CR] else []) @ [x]) echo)
                       in if ring_buffer_space output < of_nat (length processed)
                          then failed EAGAIN True
                                 (if popped \<noteq> -1
                                  then tty\<lparr>read_buf := fst (ring_buffer_write (read_buf tty) [word_of_int popped] 1)\<rparr>
                                  else tty)
                          else Some
                            \<lparr>r_result = Inr (), output_full = False, wake_read = wake,
                             signal_pgrp = (if sig \<noteq> 0 then tty_pgrp tty else 0), signal_no = sig,
                             r_output = (if processed \<noteq> []
                                         then fst (ring_buffer_write output processed (of_nat (length processed)))
                                         else output),
                             r_tty = (if push then tty\<lparr>read_buf := fst (ring_buffer_write (read_buf tty) [c] 1)\<rparr> else tty)\<rparr>)"

subsection \<open>Devices and sessions\<close>

record tty_driver =
  d_major :: u16
  d_minor :: u16
  d_n :: u16
  d_lookup :: "(u32 \<Rightarrow> nat) option"

text \<open>The newest driver is first; a terminal is named by its driver and its index there.\<close>

definition register_tty_driver :: "tty_driver \<Rightarrow> tty_driver list \<Rightarrow> tty_driver list" where
  "register_tty_driver d ds = d # ds"

primrec get_tty :: "tty_driver list \<Rightarrow> dev_t \<Rightarrow> errno + nat \<times> nat" where
  "get_tty [] dev = Inl EINVAL"
| "get_tty (p # ps) dev =
     (let major = MAJOR dev; minor = MINOR dev
      in if ucast (d_major p) = major \<and> ucast (d_minor p) \<le> minor \<and> minor < ucast (d_minor p) + ucast (d_n p)
         then Inr (length ps, case d_lookup p of Some look \<Rightarrow> look minor | None \<Rightarrow> unat (minor - ucast (d_minor p)))
         else get_tty ps dev)"

definition tty_set_controlling :: "task \<Rightarrow> 'a tty_scheme \<Rightarrow> (errno + unit) \<times> task \<times> 'a tty_scheme" where
  "tty_set_controlling cur tty =
     (if \<not> t_leader cur then (Inl EPERM, cur, tty)
      else if t_tty cur \<noteq> None \<and> t_tty cur \<noteq> Some (tty_dev tty) then (Inl EPERM, cur, tty)
      else if tty_session tty \<noteq> 0 \<and> tty_session tty \<noteq> t_session cur then (Inl EPERM, cur, tty)
      else (Inr (), cur\<lparr>t_tty := Some (tty_dev tty)\<rparr>, tty\<lparr>tty_session := t_session cur, tty_pgrp := t_pgrp cur\<rparr>))"

definition tty_try_set_controlling :: "bool \<Rightarrow> task \<Rightarrow> 'a tty_scheme \<Rightarrow> task \<times> 'a tty_scheme" where
  "tty_try_set_controlling noctty cur tty =
     (if \<not> noctty \<and> t_leader cur \<and> t_tty cur = None \<and> tty_session tty = 0
      then snd (tty_set_controlling cur tty) else (cur, tty))"

definition tty_detach_session :: "int \<Rightarrow> task list \<Rightarrow> 'a tty_scheme \<Rightarrow> kills \<times> task list \<times> 'a tty_scheme" where
  "tty_detach_session session tasks tty =
     (if tty_session tty \<noteq> session then ([], tasks, tty)
      else
        let pgrp = tty_pgrp tty;
            tasks = map (\<lambda>t. if t_session t = session \<and> t_tty t = Some (tty_dev tty) then t\<lparr>t_tty := None\<rparr> else t) tasks
        in (if pgrp > 0 then [(pgrp, SIGHUP, True), (pgrp, SIGCONT, True)] else [], tasks,
            tty\<lparr>tty_session := 0, tty_pgrp := 0\<rparr>))"

text \<open>Binding a file to a terminal whose driver has no method \<^verbatim>\<open>bind\<close> of its own.\<close>

definition tty_bind_file :: "'a tty_scheme \<Rightarrow> errno + 'a tty_scheme" where
  "tty_bind_file tty = (if \<not> tty_initialized tty then Inl EINVAL else Inr (tty\<lparr>tty_count := tty_count tty + 1\<rparr>))"

text \<open>The terminal that opening a device file means, and whether it may become the controlling one; \<open>fg\<close> is
  the device of the foreground console.\<close>

definition tty_open_dev :: "task \<Rightarrow> dev_t \<Rightarrow> bool \<Rightarrow> dev_t \<Rightarrow> errno + dev_t \<times> bool" where
  "tty_open_dev cur fg noctty dev =
     (let minor = MINOR dev
      in if minor = 128 then (case t_tty cur of None \<Rightarrow> Inl ENXIO | Some dev \<Rightarrow> Inr (dev, noctty))
         else if minor = 0 then Inr (fg, noctty)
         else if minor = 129 then Inr (0x201, True)
         else Inr (dev, noctty))"

definition tty_open :: "tty_driver list \<Rightarrow> (nat \<Rightarrow> (bool \<Rightarrow> task \<Rightarrow> 'a tty_scheme \<Rightarrow> (errno + unit) \<times> task \<times> 'a tty_scheme) option) \<Rightarrow>
    dev_t \<Rightarrow> bool \<Rightarrow> dev_t \<Rightarrow> task \<Rightarrow> (nat \<times> nat \<Rightarrow> 'a tty_scheme) \<Rightarrow> (errno + nat \<times> nat) \<times> task \<times> (nat \<times> nat \<Rightarrow> 'a tty_scheme)" where
  "tty_open ds bind fg noctty dev cur ttys =
     (case tty_open_dev cur fg noctty dev of
        Inl e \<Rightarrow> (Inl e, cur, ttys)
      | Inr (dev, noctty') \<Rightarrow>
          (case get_tty ds dev of
             Inl e \<Rightarrow> (Inl e, cur, ttys)
           | Inr k \<Rightarrow>
               (case (case bind (fst k) of
                        Some b \<Rightarrow> b noctty cur (ttys k)
                      | None \<Rightarrow> (case tty_bind_file (ttys k) of
                                  Inl e \<Rightarrow> (Inl e, cur, ttys k) | Inr tty \<Rightarrow> (Inr (), cur, tty))) of
                  (Inl e, cur, tty) \<Rightarrow> (Inl e, cur, ttys(k := tty))
                | (Inr _, cur, tty) \<Rightarrow>
                    let (cur, tty) = tty_try_set_controlling noctty' cur tty
                    in (Inr k, cur, ttys(k := tty)))))"

subsection \<open>Reading\<close>

partial_function (option) canon_loop :: "ring_buffer \<Rightarrow> u8 list \<Rightarrow> u32 \<Rightarrow> u32 \<Rightarrow> u32 option" where
  "canon_loop rb cc p n =
     (if p = rb_head rb then Some 0
      else case rb_data rb of
             None \<Rightarrow> None
           | Some data \<Rightarrow>
               if unat p \<ge> length data then None
               else
                 let ch = data ! unat p; p = (p + 1) AND (rb_size rb - 1); n = n + 1
                 in if ch = NL \<or> ch = cc ! VEOF \<or> ch = cc ! VEOL then Some n else canon_loop rb cc p n)"

definition get_n_canon_read :: "ring_buffer \<Rightarrow> u8 list \<Rightarrow> u32 option" where
  "get_n_canon_read rb cc =
     (if ring_buffer_full rb then Some (ring_buffer_avail rb) else canon_loop rb cc (rb_tail rb) 0)"

definition get_n_read :: "'a tty_scheme \<Rightarrow> u32 option" where
  "get_n_read tty =
     (if has (c_lflag (tty_termios tty)) ICANON then get_n_canon_read (read_buf tty) (c_cc (tty_termios tty))
      else Some (ring_buffer_avail (read_buf tty)))"

text \<open>The code from the label \<^verbatim>\<open>try\<close> on; a call that sleeps goes on here.\<close>

definition tty_read_try :: "bool \<Rightarrow> bool \<Rightarrow> u32 \<Rightarrow> 'a tty_scheme \<Rightarrow> ((errno + u8 list) attempt \<times> 'a tty_scheme) option" where
  "tty_read_try signal nonblock cnt tty =
     (if signal then Some (Ret (Inl ERESTARTSYS), tty)
      else case get_n_read tty of
             None \<Rightarrow> None
           | Some n \<Rightarrow>
               if n = 0
               then Some (if hung_up tty then Ret (Inr []) else if nonblock then Ret (Inl EAGAIN) else Sleep, tty)
               else
                 let n = min n cnt
                 in case ring_buffer_read (read_buf tty) n of
                      (rb, buf, m) \<Rightarrow>
                        if n \<noteq> m \<or> n = 0 then None
                        else Some (Ret (Inr (if buf ! (unat n - 1) = c_cc (tty_termios tty) ! VEOF
                                             then take (unat n - 1) buf else buf)), tty\<lparr>read_buf := rb\<rparr>))"

definition tty_read :: "bool \<Rightarrow> bool \<Rightarrow> u32 \<Rightarrow> task \<Rightarrow> 'a tty_scheme \<Rightarrow> (((errno + u8 list) attempt \<times> 'a tty_scheme) option) \<times> kills" where
  "tty_read signal nonblock cnt cur tty =
     (if t_tty cur = Some (tty_dev tty) \<and> t_pgrp cur \<noteq> tty_pgrp tty
      then (Some (Ret (Inl ERESTARTSYS), tty), [(t_pgrp cur, SIGTTIN, True)])
      else (tty_read_try signal nonblock cnt tty, []))"

subsection \<open>Writing\<close>

definition tty_check :: "task \<Rightarrow> 'a tty_scheme \<Rightarrow> errno option \<times> kills" where
  "tty_check cur tty =
     (if hung_up tty then (Some EIO, [])
      else if t_tty cur = Some (tty_dev tty) \<and> has (c_lflag (tty_termios tty)) TOSTOP \<and> t_pgrp cur \<noteq> tty_pgrp tty
      then (Some ERESTARTSYS, [(t_pgrp cur, SIGTTOU, True)])
      else (None, []))"

text \<open>A write returns, or sleeps with the number of bytes already written, the output of the current one, how
  much of that the driver has taken, and the bytes after it.\<close>

datatype write_outcome = Wret "errno + nat" | Wsleep nat "u8 list" nat "u8 list"

text \<open>The body of the inner loop: the current byte is complete (\<^term>\<open>None\<close>), or the call returns or sleeps.\<close>

definition write_out :: "'a driver \<Rightarrow> bool \<Rightarrow> bool \<Rightarrow> nat \<Rightarrow> u8 list \<Rightarrow> nat \<Rightarrow> u8 list \<Rightarrow> 'a tty_scheme \<Rightarrow>
    (write_outcome option \<times> 'a tty_scheme) option" where
  "write_out dw nonblock signal i output dn rest tty =
     (let ret = (\<lambda>e. Wret (if i \<noteq> 0 then Inr i else Inl e))
      in case dw (drop dn output) tty of
           (Inl e, tty) \<Rightarrow> Some (Some (ret e), tty)
         | (Inr n, tty) \<Rightarrow>
             if unat n > length output - dn then None
             else
               let dn = dn + unat n
               in if dn = length output then Some (None, tty)
                  else if nonblock then Some (Some (ret EAGAIN), tty)
                  else if dn = 0 \<and> signal then Some (Some (ret ERESTARTSYS), tty)
                  else Some (Some (Wsleep i output dn rest), tty))"

primrec write_rest :: "'a driver \<Rightarrow> bool \<Rightarrow> bool \<Rightarrow> u8 list \<Rightarrow> nat \<Rightarrow> 'a tty_scheme \<Rightarrow> (write_outcome \<times> 'a tty_scheme) option" where
  "write_rest dw nonblock signal [] i tty = Some (Wret (Inr i), tty)"
| "write_rest dw nonblock signal (c # rest) i tty =
     (case write_out dw nonblock signal i (tty_output_char tty c) 0 rest tty of
        None \<Rightarrow> None
      | Some (Some r, tty) \<Rightarrow> Some (r, tty)
      | Some (None, tty) \<Rightarrow> write_rest dw nonblock signal rest (i + 1) tty)"

text \<open>A write that slept goes on with the rest of the output of the current byte.\<close>

definition write_resume :: "'a driver \<Rightarrow> bool \<Rightarrow> bool \<Rightarrow> nat \<Rightarrow> u8 list \<Rightarrow> nat \<Rightarrow> u8 list \<Rightarrow> 'a tty_scheme \<Rightarrow>
    (write_outcome \<times> 'a tty_scheme) option" where
  "write_resume dw nonblock signal i output dn rest tty =
     (case write_out dw nonblock signal i output dn rest tty of
        None \<Rightarrow> None
      | Some (Some r, tty) \<Rightarrow> Some (r, tty)
      | Some (None, tty) \<Rightarrow> write_rest dw nonblock signal rest (i + 1) tty)"

definition tty_write :: "'a driver \<Rightarrow> bool \<Rightarrow> bool \<Rightarrow> u8 list \<Rightarrow> task \<Rightarrow> 'a tty_scheme \<Rightarrow> (write_outcome \<times> 'a tty_scheme) option \<times> kills" where
  "tty_write dw nonblock signal buf cur tty =
     (case tty_check cur tty of
        (Some e, ks) \<Rightarrow> (Some (Wret (Inl e), tty), ks)
      | (None, ks) \<Rightarrow> (write_rest dw nonblock signal buf 0 tty, ks))"

subsection \<open>Control\<close>

text \<open>A command with what it reads from the caller's memory, and what it stores there; \<open>va\<close> is the result of
  \<^verbatim>\<open>verify_area\<close> on that memory.\<close>

datatype tty_cmd =
    TCGETS | TCSETS termios | TCSETSW termios | TCSETSF termios | TIOCGWINSZ | TIOCSWINSZ winsize | TIOCSTI u8
  | TIOCSCTTY | TIOCNOTTY | TIOCGPGRP | TIOCSPGRP int | TIOCGSID | TCFLSH u32 | TIOCGPTN | TIOCSPTLCK int | Other_cmd

datatype tty_reply = Stored_nothing | Stored_termios termios | Stored_winsize winsize | Stored_int int

definition set_termios :: "errno option \<Rightarrow> termios \<Rightarrow> 'a tty_scheme \<Rightarrow> (errno + tty_reply) \<times> 'a tty_scheme" where
  "set_termios va tmp tty =
     (case va of Some e \<Rightarrow> (Inl e, tty) | None \<Rightarrow> (Inr Stored_nothing, tty\<lparr>tty_termios := tmp\<rparr>))"

text \<open>The loop stops at the first task of the group; the tasks are in the order of \<^verbatim>\<open>next_task\<close>.\<close>

primrec session_scan :: "int \<Rightarrow> int \<Rightarrow> task list \<Rightarrow> int" where
  "session_scan fallback pgrp [] = fallback"
| "session_scan fallback pgrp (p # ps) =
     (if t_session p \<le> 0 then session_scan fallback pgrp ps
      else if t_pgrp p = pgrp then t_session p
      else session_scan (if t_pid p = pgrp then t_session p else fallback) pgrp ps)"

definition session_of_pgrp :: "int \<Rightarrow> task list \<Rightarrow> int" where
  "session_of_pgrp pgrp tasks = session_scan (-1) pgrp tasks"

definition tty_ioctl_tty :: "'a driver \<Rightarrow> errno option \<Rightarrow> tty_cmd \<Rightarrow> nat \<Rightarrow> task list \<Rightarrow> 'a tty_scheme \<Rightarrow>
    ((errno + tty_reply) \<times> kills \<times> task list \<times> 'a tty_scheme) option" where
  "tty_ioctl_tty dw va cmd me tasks tty =
     (let cur = tasks ! me; mine = (t_tty cur = Some (tty_dev tty));
          ret = (\<lambda>r. Some (r, [], tasks, tty));
          store = (\<lambda>x. ret (case va of Some e \<Rightarrow> Inl e | None \<Rightarrow> Inr x))
      in if mine \<and> (case cmd of TIOCSPGRP _ \<Rightarrow> False | _ \<Rightarrow> True) \<and> t_pgrp cur \<noteq> tty_pgrp tty
         then Some (Inl ERESTARTSYS, [(t_pgrp cur, SIGTTOU, True)], tasks, tty)
         else case cmd of
           TCGETS \<Rightarrow> store (Stored_termios (tty_termios tty))
         | TCSETS t \<Rightarrow> (case set_termios va t tty of (r, tty) \<Rightarrow> Some (r, [], tasks, tty))
         | TCSETSW t \<Rightarrow> (case set_termios va t tty of (r, tty) \<Rightarrow> Some (r, [], tasks, tty))
         | TCSETSF t \<Rightarrow> (case set_termios va t tty of (r, tty) \<Rightarrow> Some (r, [], tasks, tty))
         | TIOCGWINSZ \<Rightarrow> store (Stored_winsize (tty_winsize tty))
         | TIOCSWINSZ ws \<Rightarrow>
             (case va of
                Some e \<Rightarrow> ret (Inl e)
              | None \<Rightarrow>
                  if ws \<noteq> tty_winsize tty
                  then Some (Inr Stored_nothing, if tty_pgrp tty > 0 then [(tty_pgrp tty, SIGWINCH, True)] else [], tasks,
                             tty\<lparr>tty_winsize := ws\<rparr>)
                  else ret (Inr Stored_nothing))
         | TIOCSTI ch \<Rightarrow>
             if \<not> mine then ret (Inl EPERM)
             else (case va of
                     Some e \<Rightarrow> ret (Inl e)
                   | None \<Rightarrow> map_option (\<lambda>(_, ks, tty). (Inr Stored_nothing, ks, tasks, tty)) (tty_receive_c dw ch tty))
         | TIOCSCTTY \<Rightarrow>
             (case tty_set_controlling cur tty of (r, cur, tty) \<Rightarrow> Some (map_sum id (\<lambda>_. Stored_nothing) r, [], tasks[me := cur], tty))
         | TIOCNOTTY \<Rightarrow>
             if \<not> mine then ret (Inl ENOTTY)
             else (case tty_detach_session (t_session cur) tasks tty of (ks, tasks, tty) \<Rightarrow> Some (Inr Stored_nothing, ks, tasks, tty))
         | TIOCGPGRP \<Rightarrow> if \<not> mine then ret (Inl ENOTTY) else store (Stored_int (tty_pgrp tty))
         | TIOCSPGRP pgrp \<Rightarrow>
             if \<not> mine then ret (Inl ENOTTY)
             else (case va of
                     Some e \<Rightarrow> ret (Inl e)
                   | None \<Rightarrow>
                       if tty_session tty \<noteq> t_session cur then ret (Inl ENOTTY)
                       else if pgrp < 0 then ret (Inl EINVAL)
                       else if session_of_pgrp pgrp tasks \<noteq> tty_session tty then ret (Inl EPERM)
                       else Some (Inr Stored_nothing, [], tasks, tty\<lparr>tty_pgrp := pgrp\<rparr>))
         | TIOCGSID \<Rightarrow> if \<not> mine then ret (Inl ENOTTY) else store (Stored_int (tty_session tty))
         | TCFLSH arg \<Rightarrow>
             if arg = 1 then ret (Inr Stored_nothing)
             else if arg = 0 \<or> arg = 2
             then Some (Inr Stored_nothing, [], tasks, tty\<lparr>read_buf := ring_buffer_clear (read_buf tty)\<rparr>)
             else ret (Inl EINVAL)
         | _ \<Rightarrow> ret (Inl EINVAL))"

definition tty_release :: "'a tty_scheme \<Rightarrow> 'a tty_scheme option" where
  "tty_release tty =
     (if tty_count tty > 0
      then let tty = tty\<lparr>tty_count := tty_count tty - 1\<rparr>
           in Some (if tty_count tty = 0 then tty\<lparr>read_buf := ring_buffer_clear (read_buf tty)\<rparr> else tty)
      else None)"

abbreviation (input) POLLERR :: u32 where "POLLERR \<equiv> 8"

definition tty_poll :: "'a tty_scheme \<Rightarrow> u32 option" where
  "tty_poll tty =
     (if tty_count tty < 1 then Some POLLHUP
      else if hung_up tty then Some (POLLIN OR POLLHUP)
      else case get_n_read tty of
             None \<Rightarrow> None
           | Some n \<Rightarrow> Some (if n > 0 then POLLOUT OR POLLIN else POLLOUT))"

section \<open>Lines of input\<close>

text \<open>The bytes that end a line for a reader, and the length of the first line, or 0 when none is complete.\<close>

definition ends_line :: "u8 list \<Rightarrow> u8 \<Rightarrow> bool" where
  "ends_line cc ch \<longleftrightarrow> ch = NL \<or> ch = cc ! VEOF \<or> ch = cc ! VEOL"

primrec line_len :: "u8 list \<Rightarrow> u8 list \<Rightarrow> nat" where
  "line_len cc [] = 0"
| "line_len cc (x # xs) = (if ends_line cc x then 1 else if line_len cc xs = 0 then 0 else Suc (line_len cc xs))"

lemma line_len_le: "line_len cc xs \<le> length xs"
  by (induction xs) auto

text \<open>The loop counts from the \<open>k\<close>-th byte of the ring on.\<close>

lemma canon_loop_eq:
  assumes inv: "rb_inv rb" and part: "unat (rb_len rb) < unat (rb_size rb)" and k: "k \<le> unat (rb_len rb)"
    and p: "unat p = (unat (rb_tail rb) + k) mod unat (rb_size rb)" and n: "unat n = k"
  shows "\<exists>m. canon_loop rb cc p n = Some m \<and>
    unat m = (let l = line_len cc (drop k (rb_list rb)) in if l = 0 then 0 else k + l)"
  using k p n
proof (induction "unat (rb_len rb) - k" arbitrary: k p n)
  case 0
  then have "k = unat (rb_len rb)" by simp
  with 0 inv have "p = rb_head rb" by (simp add: rb_inv_def word_unat_eq_iff)
  then show ?case
    using inv \<open>k = _\<close> by (subst canon_loop.simps) simp
next
  case (Suc j)
  obtain d where d: "rb_data rb = Some d" "length d = unat (rb_size rb)" "pow2 (rb_size rb)" "0 < length d"
    "length d \<le> 2 ^ 31" "unat (rb_tail rb) < length d" "unat (rb_head rb) = (unat (rb_tail rb) + unat (rb_len rb)) mod length d"
    using inv by (auto elim!: rb_invE)
  from Suc have k: "k < unat (rb_len rb)" by simp
  then have ne: "p \<noteq> rb_head rb"
    using Suc d part ring_distance_add [of "unat (rb_tail rb)" "length d" k]
      ring_distance_add [of "unat (rb_tail rb)" "length d" "unat (rb_len rb)"] by auto
  have pl: "unat p < length d" using Suc d by simp
  have drp: "drop k (rb_list rb) = d ! unat p # drop (Suc k) (rb_list rb)"
    using k d Suc inv by (subst Cons_nth_drop_Suc [symmetric]) (simp_all add: rb_list_def)
  have p1: "unat ((p + 1) AND (rb_size rb - 1)) = (unat (rb_tail rb) + Suc k) mod unat (rb_size rb)"
  proof -
    have "unat (p + 1) = unat p + 1"
      using pl d by (intro trans [OF unat_add_no_wrap]) simp_all
    with d Suc show ?thesis by (simp add: nat_word mod_Suc_eq)
  qed
  have n1: "unat (n + 1) = Suc k"
    using Suc k d part by (simp add: unat_add_no_wrap)
  have "j = unat (rb_len rb) - Suc k" "Suc k \<le> unat (rb_len rb)" using Suc.hyps(2) k by simp_all
  from Suc.hyps(1) [OF this p1 n1] obtain m where m: "canon_loop rb cc ((p + 1) AND (rb_size rb - 1)) (n + 1) = Some m"
    "unat m = (let l = line_len cc (drop (Suc k) (rb_list rb)) in if l = 0 then 0 else Suc k + l)"
    by blast
  show ?case
    using d ne pl m n1 by (subst canon_loop.simps) (auto simp: drp ends_line_def Let_def)
qed

text \<open>What a reader finds: the number of bytes it may take.\<close>

definition readable :: "'a tty_scheme \<Rightarrow> nat" where
  "readable tty =
     (let xs = rb_list (read_buf tty)
      in if has (c_lflag (tty_termios tty)) ICANON \<and> length xs < unat (rb_size (read_buf tty))
         then line_len (c_cc (tty_termios tty)) xs else length xs)"

lemma readable_le: "readable tty \<le> length (rb_list (read_buf tty))"
  by (simp add: readable_def Let_def line_len_le)

lemma get_n_read_eq:
  assumes inv: "rb_inv (read_buf tty)"
  shows "\<exists>n. get_n_read tty = Some n \<and> unat n = readable tty"
proof (cases "has (c_lflag (tty_termios tty)) ICANON \<and> \<not> ring_buffer_full (read_buf tty)")
  case True
  let ?rb = "read_buf tty"
  have len: "unat (rb_len ?rb) < unat (rb_size ?rb)"
    using True inv by (auto simp: rb_inv_def ring_buffer_full_def word_le_nat_alt word_unat_eq_iff)
  have "unat (rb_tail ?rb) = (unat (rb_tail ?rb) + 0) mod unat (rb_size ?rb)"
    using inv by (auto simp: rb_inv_def word_less_nat_alt)
  from canon_loop_eq [OF inv len _ this, of 0 "c_cc (tty_termios tty)"]
  show ?thesis
    using True inv len by (auto simp: get_n_read_def get_n_canon_read_def readable_def Let_def)
next
  case False
  then show ?thesis
    using inv by (auto simp: get_n_read_def get_n_canon_read_def readable_def rb_defs Let_def)
qed

text \<open>Reading takes what is readable, up to the size of the caller's buffer, and drops a final end-of-file
  character.\<close>

definition strip_eof :: "u8 list \<Rightarrow> u8 list \<Rightarrow> u8 list" where
  "strip_eof cc xs = (if last xs = cc ! VEOF then butlast xs else xs)"

lemma tty_read_try_law:
  assumes inv: "rb_inv (read_buf tty)" and cnt: "cnt \<noteq> 0"
  shows "readable tty = 0 \<Longrightarrow>
      tty_read_try False nonblock cnt tty =
        Some (if hung_up tty then Ret (Inr []) else if nonblock then Ret (Inl EAGAIN) else Sleep, tty)"
    "readable tty > 0 \<Longrightarrow>
      \<exists>rb. tty_read_try False nonblock cnt tty =
        Some (Ret (Inr (strip_eof (c_cc (tty_termios tty)) (take (min (readable tty) (unat cnt)) (rb_list (read_buf tty))))),
              tty\<lparr>read_buf := rb\<rparr>) \<and> rb_inv rb \<and> rb_size rb = rb_size (read_buf tty) \<and>
        rb_list rb = drop (min (readable tty) (unat cnt)) (rb_list (read_buf tty))"
proof -
  obtain n where n: "get_n_read tty = Some n" "unat n = readable tty"
    using get_n_read_eq [OF inv] by blast
  show "tty_read_try False nonblock cnt tty =
        Some (if hung_up tty then Ret (Inr []) else if nonblock then Ret (Inl EAGAIN) else Sleep, tty)" if "readable tty = 0"
    using n that by (simp add: tty_read_try_def unat_eq_0)
  assume r: "readable tty > 0"
  define k where "k = min n cnt"
  have k: "unat k = min (readable tty) (unat cnt)" using n by (simp add: k_def unat_min)
  have k0: "k \<noteq> 0" using k r cnt by (auto simp: min_def unat_eq_0 split: if_splits)
  have nn: "n \<noteq> 0" using n r by auto
  obtain rb buf m where rd: "ring_buffer_read (read_buf tty) k = (rb, buf, m)" by (metis prod.exhaust)
  note law = ring_buffer_read_law [OF inv rd]
  have m: "m = k" using law(3) k readable_le [of tty] by (simp add: word_unat_eq_iff)
  have len: "length buf = unat k" using law(3,4) m by simp
  then have "buf \<noteq> []" using k0 by (auto simp: unat_eq_0)
  then have "buf ! (unat k - 1) = last buf" "take (unat k - 1) buf = butlast buf"
    using len by (simp_all add: last_conv_nth butlast_conv_take)
  with n nn rd m k0 law k show "\<exists>rb. tty_read_try False nonblock cnt tty =
        Some (Ret (Inr (strip_eof (c_cc (tty_termios tty)) (take (min (readable tty) (unat cnt)) (rb_list (read_buf tty))))),
              tty\<lparr>read_buf := rb\<rparr>) \<and> rb_inv rb \<and> rb_size rb = rb_size (read_buf tty) \<and>
        rb_list rb = drop (min (readable tty) (unat cnt)) (rb_list (read_buf tty))"
    by (intro exI [of _ rb]) (simp add: tty_read_try_def k_def [symmetric] strip_eof_def)
qed

section \<open>What a typed character does\<close>

definition typed_sig :: "termios \<Rightarrow> u8 \<Rightarrow> nat" where
  "typed_sig t c =
     (if has (c_lflag t) ISIG
      then if c = c_cc t ! VINTR then SIGINT else if c = c_cc t ! VQUIT then SIGQUIT
           else if c = c_cc t ! VSUSP then SIGTSTP else 0
      else 0)"

definition dropped :: "termios \<Rightarrow> u8 \<Rightarrow> bool" where
  "dropped t c \<longleftrightarrow> typed_sig t c = 0 \<and> c = CR \<and> has (c_iflag t) IGNCR"

definition typed_char :: "termios \<Rightarrow> u8 \<Rightarrow> u8" where
  "typed_char t c =
     (if typed_sig t c \<noteq> 0 then c
      else if c = CR then if has (c_iflag t) ICRNL then NL else c
      else if c = NL \<and> has (c_iflag t) INLCR then CR else c)"

definition erases :: "termios \<Rightarrow> u8 \<Rightarrow> bool" where
  "erases t c \<longleftrightarrow> typed_sig t c = 0 \<and> \<not> dropped t c \<and> has (c_lflag t) ICANON \<and> typed_char t c = c_cc t ! VERASE"

definition pushes :: "termios \<Rightarrow> u8 \<Rightarrow> bool" where
  "pushes t c \<longleftrightarrow> typed_sig t c = 0 \<and> \<not> dropped t c \<and> \<not> erases t c"

definition wakes :: "termios \<Rightarrow> u8 \<Rightarrow> bool" where
  "wakes t c \<longleftrightarrow> pushes t c \<and> (has (c_lflag t) ICANON \<longrightarrow> ends_line (c_cc t) (typed_char t c) \<or> typed_char t c = CR)"

definition edited :: "termios \<Rightarrow> u8 \<Rightarrow> u8 list \<Rightarrow> u8 list" where
  "edited t c xs = (if erases t c then butlast xs else if pushes t c then xs @ [typed_char t c] else xs)"

definition out_char :: "termios \<Rightarrow> u8 \<Rightarrow> u8 list" where
  "out_char t x = (if has (c_oflag t) OPOST \<and> x = NL \<and> has (c_oflag t) ONLCR then [CR] else []) @ [x]"

definition outs :: "termios \<Rightarrow> u8 list \<Rightarrow> u8 list" where
  "outs t xs = concat (map (out_char t) xs)"

definition echo_chars :: "termios \<Rightarrow> bool \<Rightarrow> u8 \<Rightarrow> u8 list" where
  "echo_chars t popped c =
     (if has (c_lflag t) ECHO
      then if c = c_cc t ! VERASE \<and> has (c_lflag t) ECHOE then if popped then [8, 32, 8] else []
           else if has (c_lflag t) ECHOCTL \<and> (c \<le> 31 \<and> c \<noteq> TAB \<and> c \<noteq> NL \<and> c \<noteq> CR \<or> c = 127)
           then [0x5e, if c = 127 then 0x3f else c + 0x40]
           else [c]
      else [])"

definition echoed :: "termios \<Rightarrow> u8 \<Rightarrow> u8 list \<Rightarrow> u8 list" where
  "echoed t c xs = (if dropped t c then [] else outs t (echo_chars t (erases t c \<and> xs \<noteq> []) (typed_char t c)))"

lemmas typed_defs = typed_sig_def dropped_def typed_char_def erases_def pushes_def

lemma outs_simps [simp]: "outs t [] = []" "outs t (x # xs) = out_char t x @ outs t xs"
  by (simp_all add: outs_def)

lemma tty_output_char_eq: "tty_output_char tty c = out_char (tty_termios tty) c"
  by (auto simp: tty_output_char_def out_char_def Let_def)

lemma length_outs: "length (outs t xs) \<le> 2 * length xs"
  by (induction xs) (auto simp: out_char_def)

lemma length_echoed: "length (echoed t c xs) \<le> 6"
proof -
  have "length (echo_chars t b x) \<le> 3" for b x by (simp add: echo_chars_def)
  then show ?thesis
    using length_outs [of t] by (auto simp: echoed_def intro: order_trans [OF length_outs])
qed

text \<open>The ring after the character.\<close>

definition ring_edit :: "termios \<Rightarrow> u8 \<Rightarrow> ring_buffer \<Rightarrow> ring_buffer" where
  "ring_edit t c rb =
     (if erases t c then case ring_buffer_pop rb of Some (rb, _) \<Rightarrow> rb | None \<Rightarrow> rb
      else if pushes t c then fst (ring_buffer_write rb [typed_char t c] 1) else rb)"

definition popped_of :: "termios \<Rightarrow> u8 \<Rightarrow> u8 list \<Rightarrow> int" where
  "popped_of t c xs = (if erases t c \<and> xs \<noteq> [] then uint (last xs) else -1)"

lemma popped_of_iff: "popped_of t c xs \<noteq> -1 \<longleftrightarrow> erases t c \<and> xs \<noteq> []"
proof -
  have "0 \<le> uint (last xs)" by simp
  then have "uint (last xs) \<noteq> -1" by linarith
  then show ?thesis by (simp add: popped_of_def)
qed

lemma pop_eq:
  assumes inv: "rb_inv rb" and e: "erases t c"
  shows "ring_buffer_pop rb = Some (ring_edit t c rb, popped_of t c (rb_list rb))"
proof (cases "rb_list rb = []")
  case True
  then show ?thesis
    using ring_buffer_empty_iff [OF inv] e by (simp add: ring_buffer_pop_def ring_edit_def popped_of_def)
next
  case False
  then show ?thesis
    using ring_buffer_pop_law [OF inv False] e by (auto simp: ring_edit_def popped_of_def)
qed

lemma ring_edit_law:
  assumes inv: "rb_inv rb" and fits: "pushes t c \<Longrightarrow> length (rb_list rb) < unat (rb_size rb)"
  shows "rb_inv (ring_edit t c rb)" "rb_size (ring_edit t c rb) = rb_size rb"
    "rb_list (ring_edit t c rb) = edited t c (rb_list rb)"
proof -
  have "rb_inv (ring_edit t c rb) \<and> rb_size (ring_edit t c rb) = rb_size rb \<and>
      rb_list (ring_edit t c rb) = edited t c (rb_list rb)"
  proof (cases "erases t c")
    case True
    show ?thesis
    proof (cases "rb_list rb = []")
      case empty: True
      then show ?thesis
        using ring_buffer_empty_iff [OF inv] inv True by (simp add: ring_buffer_pop_def ring_edit_def edited_def)
    next
      case False
      then show ?thesis
        using ring_buffer_pop_law [OF inv False] True by (auto simp: ring_edit_def edited_def)
    qed
  next
    case False
    obtain rb' n where w: "ring_buffer_write rb [typed_char t c] 1 = (rb', n)" by fastforce
    show ?thesis
      using ring_buffer_write_law [OF inv _ w] fits inv False by (auto simp: ring_edit_def edited_def w)
  qed
  then show "rb_inv (ring_edit t c rb)" "rb_size (ring_edit t c rb) = rb_size rb"
    "rb_list (ring_edit t c rb) = edited t c (rb_list rb)" by simp_all
qed

lemma ring_edit_same [simp]: "\<not> erases t c \<Longrightarrow> \<not> pushes t c \<Longrightarrow> ring_edit t c rb = rb"
  by (simp add: ring_edit_def)

definition typed_kills :: "termios \<Rightarrow> int \<Rightarrow> u8 \<Rightarrow> kills" where
  "typed_kills t pgrp c = (if typed_sig t c \<noteq> 0 then [(pgrp, typed_sig t c, False)] else [])"

lemma receive_c_eq:
  assumes "tty_count tty \<noteq> 0" and inv: "rb_inv (read_buf tty)" and T: "tty_termios tty = T"
    and xs: "rb_list (read_buf tty) = xs"
  shows "tty_receive_c dw c tty =
    (if pushes T c \<and> ring_buffer_full (read_buf tty) then Some (Inl EAGAIN, [], tty)
     else Some (Inr (wakes T c), typed_kills T (tty_pgrp tty) c,
       if dropped T c then tty
       else tty_echo dw (c_lflag T) (c_cc T) (popped_of T c xs) (typed_char T c)
              (tty\<lparr>read_buf := ring_edit T c (read_buf tty)\<rparr>)))"
proof -
  let ?f = "c_lflag T" and ?cc = "c_cc T" and ?i = "c_iflag T"
  have count: "\<not> tty_count tty = 0" by fact
  show ?thesis
  proof (cases "typed_sig T c = 0")
    case False
    then have no: "\<not> dropped T c" "\<not> erases T c" "\<not> pushes T c" "\<not> wakes T c" "typed_char T c = c"
      by (simp_all add: typed_defs wakes_def)
    with False show ?thesis
      using count T by (auto simp: tty_receive_c_def typed_kills_def popped_of_def typed_sig_def Let_def split: if_splits)
  next
    case sig: True
    then have s: "\<not> (has ?f ISIG \<and> c = ?cc ! VINTR)" "\<not> (has ?f ISIG \<and> c = ?cc ! VQUIT)" "\<not> (has ?f ISIG \<and> c = ?cc ! VSUSP)"
      by (auto simp: typed_sig_def split: if_splits)
    have ch: "(if c = CR then if has ?i ICRNL then NL else c else if c = NL \<and> has ?i INLCR then CR else c) = typed_char T c"
      using sig by (simp add: typed_char_def)
    note step = tty_receive_c_def Let_def T ch if_not_P [OF count] if_not_P [OF s(1)] if_not_P [OF s(2)] if_not_P [OF s(3)]
    show ?thesis
    proof (cases "dropped T c")
      case True
      then have cr: "c = CR \<and> has ?i IGNCR" and no: "\<not> pushes T c" "\<not> wakes T c"
        by (auto simp: dropped_def pushes_def wakes_def)
      show ?thesis
        by (simp only: step if_P [OF cr]) (simp add: typed_kills_def no True sig)
    next
      case False
      then have nd: "\<not> (c = CR \<and> has ?i IGNCR)" using sig by (simp add: dropped_def)
      show ?thesis
      proof (cases "erases T c")
        case True
        then have "has ?f ICANON \<and> typed_char T c = ?cc ! VERASE" "\<not> pushes T c" "\<not> wakes T c"
          by (auto simp: erases_def pushes_def wakes_def)
        then show ?thesis
          using False sig pop_eq [OF inv True] xs by (simp only: step if_not_P [OF nd] if_P) (simp add: typed_kills_def)
      next
        case e: False
        then have ne: "\<not> (has ?f ICANON \<and> typed_char T c = ?cc ! VERASE)" and p: "pushes T c"
          using False sig by (auto simp: erases_def pushes_def)
        have wk: "(if has ?f ICANON then typed_char T c = ?cc ! VEOF \<or> typed_char T c = NL \<or> typed_char T c = CR \<or>
            typed_char T c = ?cc ! VEOL else True) = wakes T c"
          using p by (auto simp: wakes_def ends_line_def)
        show ?thesis
          using False sig e p by (simp only: step if_not_P [OF nd] if_not_P [OF ne] wk)
            (simp add: typed_kills_def ring_edit_def popped_of_def)
      qed
    qed
  qed
qed

definition not_received :: "errno \<Rightarrow> bool \<Rightarrow> ring_buffer \<Rightarrow> 'a tty_scheme \<Rightarrow> 'a received" where
  "not_received e full output tty =
     \<lparr>r_result = Inl e, output_full = full, wake_read = False, signal_pgrp = 0, signal_no = 0, r_output = output, r_tty = tty\<rparr>"

lemma receive_atomic_eq:
  assumes "tty_count tty \<noteq> 0" and "\<not> hung_up tty" and inv: "rb_inv (read_buf tty)" and T: "tty_termios tty = T"
    and xs: "rb_list (read_buf tty) = xs"
  shows "tty_receive_c_atomic c output tty =
    (if pushes T c \<and> ring_buffer_full (read_buf tty) then Some (not_received EAGAIN False output tty)
     else if ring_buffer_space output < of_nat (length (echoed T c xs))
     then Some (not_received EAGAIN True output
            (if erases T c \<and> xs \<noteq> []
             then tty\<lparr>read_buf := fst (ring_buffer_write (ring_edit T c (read_buf tty)) [last xs] 1)\<rparr> else tty))
     else Some \<lparr>r_result = Inr (), output_full = False, wake_read = wakes T c,
            signal_pgrp = (if typed_sig T c \<noteq> 0 then tty_pgrp tty else 0), signal_no = typed_sig T c,
            r_output = (if echoed T c xs \<noteq> []
                        then fst (ring_buffer_write output (echoed T c xs) (of_nat (length (echoed T c xs)))) else output),
            r_tty = tty\<lparr>read_buf := ring_edit T c (read_buf tty)\<rparr>\<rparr>)"
proof -
  let ?f = "c_lflag T" and ?cc = "c_cc T" and ?i = "c_iflag T" and ?rb = "read_buf tty"
  have go: "\<not> (tty_count tty = 0 \<or> hung_up tty)" using assms by simp
  have sg: "(if has ?f ISIG then if c = ?cc ! VINTR then SIGINT else if c = ?cc ! VQUIT then SIGQUIT
      else if c = ?cc ! VSUSP then SIGTSTP else 0 else 0) = typed_sig T c"
    by (simp add: typed_sig_def)
  note step = tty_receive_c_atomic_def Let_def T if_not_P [OF go] sg
  show ?thesis
  proof (cases "dropped T c")
    case True
    then have d: "typed_sig T c = 0" "c = CR" "has ?i IGNCR" "\<not> pushes T c" "\<not> erases T c" "\<not> wakes T c" "echoed T c xs = []"
      by (auto simp: dropped_def pushes_def erases_def wakes_def echoed_def)
    have e: "(typed_sig T c = 0 \<and> \<not> (c = CR \<and> has ?i IGNCR)) = False"
      "(if typed_sig T c = 0 \<and> c = CR \<and> has ?i IGNCR then ?f AND NOT ECHO else ?f) = ?f AND NOT ECHO"
      using d(1-3) by simp_all
    have off: "has (?f AND NOT ECHO) ECHO = False" by (simp add: and.assoc)
    show ?thesis
      by (simp only: step e off if_False simp_thms option.case prod.case list.map concat.simps d(4-)) (simp add: d(1,4,5))
  next
    case False
    have e1: "(typed_sig T c = 0 \<and> \<not> (c = CR \<and> has ?i IGNCR)) = (typed_sig T c = 0)"
      "(if typed_sig T c = 0 \<and> c = CR \<and> has ?i IGNCR then ?f AND NOT ECHO else ?f) = ?f"
      "(if typed_sig T c \<noteq> 0 then c else if c = CR then if \<not> has ?i IGNCR \<and> has ?i ICRNL then NL else c
        else if c = NL \<and> has ?i INLCR then CR else c) = typed_char T c"
      using False by (auto simp: dropped_def typed_char_def)
    have e2: "(typed_sig T c = 0 \<and> has ?f ICANON \<and> typed_char T c = ?cc ! VERASE) = erases T c"
      using False by (auto simp: erases_def)
    have e3: "(typed_sig T c = 0 \<and> \<not> erases T c) = pushes T c"
      "(typed_sig T c = 0 \<and> \<not> erases T c \<and> (has ?f ICANON \<longrightarrow>
         typed_char T c = ?cc ! VEOF \<or> typed_char T c = NL \<or> typed_char T c = CR \<or> typed_char T c = ?cc ! VEOL)) = wakes T c"
      using False by (auto simp: pushes_def wakes_def ends_line_def)
    have e4: "(if erases T c \<and> \<not> ring_buffer_empty ?rb then ring_buffer_pop ?rb else Some (?rb, -1)) =
        Some (if erases T c then ring_edit T c ?rb else ?rb, popped_of T c xs)"
      using ring_buffer_empty_iff [OF inv] pop_eq [OF inv] xs
      by (auto simp: popped_of_def ring_edit_def ring_buffer_pop_def)
    have e5: "concat (map (\<lambda>x. (if has (c_oflag T) OPOST \<and> x = NL \<and> has (c_oflag T) ONLCR then [CR] else []) @ [x])
        (if has ?f ECHO
         then if typed_char T c = ?cc ! VERASE \<and> has ?f ECHOE
              then if popped_of T c xs \<noteq> -1 then [8, 32, 8] else []
              else if has ?f ECHOCTL \<and>
                (typed_char T c \<le> 31 \<and> typed_char T c \<noteq> TAB \<and> typed_char T c \<noteq> NL \<and> typed_char T c \<noteq> CR \<or> typed_char T c = 127)
              then [0x5e, if typed_char T c = 127 then 0x3f else typed_char T c + 0x40]
              else [typed_char T c]
         else [])) = echoed T c xs"
      using False unfolding echoed_def outs_def out_char_def echo_chars_def popped_of_iff by (simp only: if_False)
    have e6: "\<not> (erases T c \<and> pushes T c)" by (simp add: pushes_def)
    have e7: "popped_of T c xs \<noteq> -1 \<longleftrightarrow> erases T c \<and> xs \<noteq> []" "erases T c \<Longrightarrow> xs \<noteq> [] \<Longrightarrow> word_of_int (popped_of T c xs) = last xs"
      by (rule popped_of_iff) (simp add: popped_of_def)
    have e8: "erases T c \<Longrightarrow> xs = [] \<Longrightarrow> ring_edit T c ?rb = ?rb"
      "pushes T c \<Longrightarrow> ring_edit T c ?rb = fst (ring_buffer_write ?rb [typed_char T c] 1)"
      using ring_buffer_empty_iff [OF inv] xs by (auto simp: ring_edit_def ring_buffer_pop_def pushes_def)
    show ?thesis
      by (simp only: step e1 e2 e3 e4 e5 option.case prod.case)
        (use e6 e7 e8 in \<open>cases "erases T c"; auto simp: not_received_def\<close>)
  qed
qed

section \<open>Drivers\<close>

text \<open>What the line discipline relies on: a driver takes as many bytes as it has room for, appends them to what it
  has sent, and changes nothing else.\<close>

locale tty_device =
  fixes dw :: "'a driver" and ok :: "'a tty_scheme \<Rightarrow> bool" and sent :: "'a tty_scheme \<Rightarrow> u8 list"
    and room :: "'a tty_scheme \<Rightarrow> nat" and others :: "'a tty_scheme \<Rightarrow> 'r"
  assumes takes: "ok t \<Longrightarrow> length bs < 2 ^ 32 \<Longrightarrow> dw bs t = (r, t') \<Longrightarrow>
      \<exists>n. r = Inr n \<and> unat n = min (length bs) (room t) \<and> ok t' \<and> sent t' = sent t @ take (unat n) bs \<and>
        room t' = room t - unat n \<and> others t' = others t \<and> read_buf t' = read_buf t \<and> tty_termios t' = tty_termios t"
    and frame [simp]: "ok (t\<lparr>read_buf := rb\<rparr>) = ok t" "sent (t\<lparr>read_buf := rb\<rparr>) = sent t"
      "room (t\<lparr>read_buf := rb\<rparr>) = room t" "others (t\<lparr>read_buf := rb\<rparr>) = others t"
begin

definition emits :: "'a tty_scheme \<Rightarrow> u8 list \<Rightarrow> 'a tty_scheme \<Rightarrow> bool" where
  "emits t bs t' \<longleftrightarrow> ok t' \<and> sent t' = sent t @ bs \<and> room t' = room t - length bs \<and> others t' = others t \<and>
     read_buf t' = read_buf t \<and> tty_termios t' = tty_termios t"

lemma emits_trans: "emits t bs t' \<Longrightarrow> emits t' cs t'' \<Longrightarrow> emits t (bs @ cs) t''"
  by (simp add: emits_def)

lemma emits_Nil [simp]: "ok t \<Longrightarrow> emits t [] t"
  by (simp add: emits_def)

lemma put_c_emits:
  assumes "ok t" "length (out_char (tty_termios t) c) \<le> room t"
  shows "emits t (out_char (tty_termios t) c) (snd (tty_put_c dw c t))"
proof -
  let ?bs = "out_char (tty_termios t) c"
  obtain r t' where w: "dw ?bs t = (r, t')" by fastforce
  have "length ?bs < 2 ^ 32" by (simp add: out_char_def)
  from takes [OF assms(1) this w] assms(2) show ?thesis
    by (auto simp: tty_put_c_def tty_output_char_eq w emits_def min_def Let_def)
qed

lemma put_s_emits:
  assumes "ok t" "length (outs (tty_termios t) s) \<le> room t" "0 \<notin> set s"
  shows "emits t (outs (tty_termios t) s) (tty_put_s dw s t)"
  using assms
proof (induction s arbitrary: t)
  case (Cons c s)
  define u where "u = snd (tty_put_c dw c t)"
  have c: "emits t (out_char (tty_termios t) c) u"
    using Cons.prems put_c_emits [of t c] by (simp add: u_def)
  then have "emits u (outs (tty_termios u) s) (tty_put_s dw s u)"
    using Cons by (intro Cons.IH) (auto simp: emits_def)
  with c show ?case
    using Cons.prems emits_trans [OF c] by (auto simp: u_def [symmetric] emits_def)
qed simp

lemma echo_emits:
  assumes "ok t" and T: "tty_termios t = T" and "length (outs T (echo_chars T (popped \<noteq> -1) c)) \<le> room t"
  shows "emits t (outs T (echo_chars T (popped \<noteq> -1) c)) (tty_echo dw (c_lflag T) (c_cc T) popped c t)"
proof -
  have two: "emits t (outs T [a, b]) (snd (tty_put_c dw b (snd (tty_put_c dw a t))))"
    if "length (outs T [a, b]) \<le> room t" for a b
  proof -
    have a: "emits t (out_char T a) (snd (tty_put_c dw a t))"
      using put_c_emits [of t a] assms(1) T that by simp
    then have "emits (snd (tty_put_c dw a t)) (out_char T b) (snd (tty_put_c dw b (snd (tty_put_c dw a t))))"
      using put_c_emits [of "snd (tty_put_c dw a t)" b] T that by (simp add: emits_def)
    with emits_trans [OF a] show ?thesis by simp
  qed
  have one: "emits t (outs T [a]) (snd (tty_put_c dw a t))" if "length (outs T [a]) \<le> room t" for a
    using put_c_emits [of t a] assms(1) T that by simp
  have str: "emits t (outs T s) (tty_put_s dw s t)" if "length (outs T s) \<le> room t" "0 \<notin> set s" for s
    using put_s_emits [of t s] assms(1) T that by simp
  let ?f = "c_lflag T" and ?cc = "c_cc T"
  let ?ctl = "has ?f ECHOCTL \<and> c \<le> 31 \<and> c \<noteq> TAB \<and> c \<noteq> NL \<and> c \<noteq> CR"
  consider "\<not> has ?f ECHO" | (erase) "has ?f ECHO" "c = ?cc ! VERASE \<and> has ?f ECHOE"
    | (ctl) "has ?f ECHO" "\<not> (c = ?cc ! VERASE \<and> has ?f ECHOE)" "?ctl" "c \<noteq> 127"
    | (del) "has ?f ECHO" "\<not> (c = ?cc ! VERASE \<and> has ?f ECHOE)" "has ?f ECHOCTL" "c = 127"
    | (plain) "has ?f ECHO" "\<not> (c = ?cc ! VERASE \<and> has ?f ECHOE)" "\<not> ?ctl" "\<not> (has ?f ECHOCTL \<and> c = 127)"
    by (cases "c = 127") auto
  then show ?thesis
  proof cases
    case erase
    then show ?thesis
      using str [where s = "[8, 32, 8]"] assms
      by (cases "popped = -1") (simp_all add: tty_echo_def echo_chars_def del: outs_simps(2) tty_put_s.simps)
  next
    case ctl
    then have "echo_chars T (popped \<noteq> -1) c = [0x5e, c + 0x40]"
      "tty_echo dw ?f ?cc popped c t = snd (tty_put_c dw (c + 0x40) (snd (tty_put_c dw 0x5e t)))"
      by (auto simp: echo_chars_def tty_echo_def)
    then show ?thesis
      using two [where a = "0x5e" and b = "c + 0x40"] assms by (simp del: outs_simps(2))
  next
    case del
    then have "echo_chars T (popped \<noteq> -1) c = [0x5e, 0x3f]" "tty_echo dw ?f ?cc popped c t = tty_put_s dw [0x5e, 0x3f] t"
      by (auto simp: echo_chars_def tty_echo_def)
    then show ?thesis
      using str [where s = "[0x5e, 0x3f]"] assms by (simp del: outs_simps(2) tty_put_s.simps)
  next
    case plain
    then have "echo_chars T (popped \<noteq> -1) c = [c]" "tty_echo dw ?f ?cc popped c t = snd (tty_put_c dw c t)"
      by (auto simp: echo_chars_def tty_echo_def)
    then show ?thesis
      using one [where a = c] assms by (simp del: outs_simps(2))
  qed (use assms in \<open>simp add: tty_echo_def echo_chars_def\<close>)
qed

end

end
