(* ===== verification/Pty.thy ===== *)
theory Pty
  imports Tty
begin

text \<open>
  Pseudo terminals: \<^verbatim>\<open>src/src/fs/char/pty.c\<close>. A pair extends the record of a terminal, so the line discipline
  of the slave works on the pair itself and \<^verbatim>\<open>tty_to_pty\<close> is the identity. The table \<^verbatim>\<open>ptys\<close> is a list; an open
  file is the flag \<^verbatim>\<open>FMODE_PTY_MASTER\<close> with the index of its pair. Each operation is the code between taking
  and releasing the locks of a pair; a call that sleeps goes on with the operation for the rest of its
  bytes. \<^term>\<open>None\<close> is a failed assertion or a call of \<^verbatim>\<open>hang\<close>.
\<close>

section \<open>Model\<close>

datatype pty_state = PTY_FREE | PTY_ALLOCATED

record pty_pair = tty +
  p_output :: ring_buffer
  p_state :: pty_state
  p_number :: nat
  master_open :: int
  slave_open :: int
  slave_locked :: bool

type_synonym pty_file = "bool \<times> nat"

abbreviation (input) NR_PTYS :: nat where "NR_PTYS \<equiv> 32"
abbreviation (input) PTMX_MINOR :: u32 where "PTMX_MINOR \<equiv> 255"

definition pty_lookup :: "u32 \<Rightarrow> nat" where
  "pty_lookup minor = unat minor"

definition pty_driver :: tty_driver where
  "pty_driver = \<lparr>d_major = 4, d_minor = 0, d_n = 32, d_lookup = Some pty_lookup\<rparr>"

definition pty_write :: "u8 list \<Rightarrow> pty_pair \<Rightarrow> (errno + u32) \<times> pty_pair" where
  "pty_write buf pty =
     (if master_open pty = 0 then (Inl EIO, pty)
      else case ring_buffer_write (p_output pty) buf (of_nat (length buf)) of (rb, n) \<Rightarrow> (Inr n, pty\<lparr>p_output := rb\<rparr>))"

definition pty_bind_slave :: "bool \<Rightarrow> task \<Rightarrow> pty_pair \<Rightarrow> (errno + unit) \<times> task \<times> pty_pair" where
  "pty_bind_slave noctty cur pty =
     (if p_state pty \<noteq> PTY_ALLOCATED \<or> master_open pty = 0 \<or> slave_locked pty then (Inl EIO, cur, pty)
      else (Inr (), tty_try_set_controlling noctty cur (pty\<lparr>slave_open := slave_open pty + 1, tty_count := tty_count pty + 1\<rparr>)))"

definition pty_dup_open :: "bool \<Rightarrow> pty_pair \<Rightarrow> errno + pty_pair" where
  "pty_dup_open master pty =
     (if master
      then if p_state pty \<noteq> PTY_ALLOCATED \<or> master_open pty = 0 then Inl EIO else Inr (pty\<lparr>master_open := master_open pty + 1\<rparr>)
      else if p_state pty \<noteq> PTY_ALLOCATED then Inl EIO
      else Inr (pty\<lparr>slave_open := slave_open pty + 1, tty_count := tty_count pty + 1\<rparr>))"

text \<open>A pair that is handed out starts as new.\<close>

definition fresh_pair :: "pty_pair \<Rightarrow> pty_pair" where
  "fresh_pair pty =
     pty\<lparr>p_state := PTY_ALLOCATED, master_open := 1, slave_open := 0, slave_locked := True,
         p_output := ring_buffer_clear (p_output pty), read_buf := ring_buffer_clear (read_buf pty),
         tty_termios := default_termios, tty_session := 0, tty_pgrp := 0, tty_count := 1, hung_up := False\<rparr>"

definition pty_master_open :: "pty_pair list \<Rightarrow> (errno + nat) \<times> pty_pair list" where
  "pty_master_open ptys =
     (case find (\<lambda>i. p_state (ptys ! i) = PTY_FREE) [0..<NR_PTYS] of
        None \<Rightarrow> (Inl ENOSPC, ptys)
      | Some i \<Rightarrow> (Inr i, ptys[i := fresh_pair (ptys ! i)]))"

text \<open>The open file is returned; a file that is already bound is a duplicate of an open one.\<close>

definition pty_open :: "tty_driver list \<Rightarrow> pty_file option \<Rightarrow> dev_t \<Rightarrow> bool \<Rightarrow> task \<Rightarrow> pty_pair list \<Rightarrow>
    (errno + pty_file) \<times> task \<times> pty_pair list" where
  "pty_open ds f dev noctty cur ptys =
     (let minor = MINOR dev
      in case f of
           Some (master, i) \<Rightarrow>
             (case pty_dup_open master (ptys ! i) of
                Inl e \<Rightarrow> (Inl e, cur, ptys)
              | Inr pty \<Rightarrow> (Inr (master, i), cur, ptys[i := pty]))
         | None \<Rightarrow>
             if minor = PTMX_MINOR
             then (case pty_master_open ptys of
                     (Inl e, ptys) \<Rightarrow> (Inl e, cur, ptys)
                   | (Inr i, ptys) \<Rightarrow> (Inr (True, i), cur, ptys))
             else if minor \<ge> of_nat NR_PTYS then (Inl ENXIO, cur, ptys)
             else (case get_tty ds dev of
                     Inl e \<Rightarrow> (Inl ENXIO, cur, ptys)
                   | Inr (_, i) \<Rightarrow>
                       (case pty_bind_slave noctty cur (ptys ! i) of
                          (Inl e, cur, pty) \<Rightarrow> (Inl e, cur, ptys[i := pty])
                        | (Inr _, cur, pty) \<Rightarrow> (Inr (False, i), cur, ptys[i := pty]))))"

definition pty_master_read :: "bool \<Rightarrow> bool \<Rightarrow> u32 \<Rightarrow> pty_pair \<Rightarrow> (errno + u8 list) attempt \<times> pty_pair" where
  "pty_master_read signal nonblock cnt pty =
     (if \<not> ring_buffer_empty (p_output pty)
      then case ring_buffer_read (p_output pty) cnt of (rb, bs, n) \<Rightarrow> (Ret (Inr bs), pty\<lparr>p_output := rb\<rparr>)
      else (if slave_open pty = 0 then Ret (Inl EIO)
            else if nonblock then Ret (Inl EAGAIN)
            else if signal then Ret (Inl ERESTARTSYS)
            else Sleep, pty))"

text \<open>From byte \<open>i\<close> on; with the calls of \<^verbatim>\<open>kill_pg\<close>.\<close>

primrec pty_master_write :: "bool \<Rightarrow> bool \<Rightarrow> u8 list \<Rightarrow> nat \<Rightarrow> pty_pair \<Rightarrow> (write_outcome \<times> kills \<times> pty_pair) option" where
  "pty_master_write signal nonblock [] i pty = Some (Wret (Inr i), [], pty)"
| "pty_master_write signal nonblock (c # rest) i pty =
     (let ret = (\<lambda>e. Wret (if i \<noteq> 0 then Inr i else Inl e))
      in if slave_open pty = 0 then Some (ret EIO, [], pty)
         else case tty_receive_c_atomic c (p_output pty) pty of
                None \<Rightarrow> None
              | Some r \<Rightarrow>
                  let pty = (r_tty r)\<lparr>p_output := r_output r\<rparr>
                  in case r_result r of
                       Inr _ \<Rightarrow>
                         map_option (\<lambda>(w, ks, pty). (w, (if signal_no r \<noteq> 0 then [(signal_pgrp r, signal_no r, False)] else []) @ ks, pty))
                           (pty_master_write signal nonblock rest (i + 1) pty)
                     | Inl e \<Rightarrow>
                         Some (if e \<noteq> EAGAIN then ret e
                               else if nonblock then ret EAGAIN
                               else if signal then ret ERESTARTSYS
                               else Wsleep i [] 0 (c # rest), [], pty))"

definition pty_master_ioctl :: "errno option \<Rightarrow> tty_cmd \<Rightarrow> nat \<Rightarrow> task list \<Rightarrow> pty_pair \<Rightarrow>
    ((errno + tty_reply) \<times> kills \<times> task list \<times> pty_pair) option" where
  "pty_master_ioctl va cmd me tasks pty =
     (case cmd of
        TIOCGPTN \<Rightarrow> Some (case va of Some e \<Rightarrow> Inl e | None \<Rightarrow> Inr (Stored_int (int (p_number pty))), [], tasks, pty)
      | TIOCSPTLCK locked \<Rightarrow>
          (case va of
             Some e \<Rightarrow> Some (Inl e, [], tasks, pty)
           | None \<Rightarrow> Some (Inr Stored_nothing, [], tasks, pty\<lparr>slave_locked := (locked \<noteq> 0)\<rparr>))
      | TIOCGWINSZ \<Rightarrow> tty_ioctl_tty pty_write va cmd me tasks pty
      | TIOCSWINSZ _ \<Rightarrow> tty_ioctl_tty pty_write va cmd me tasks pty
      | _ \<Rightarrow> Some (Inl ENOTTY, [], tasks, pty))"

definition pty_master_poll :: "pty_pair \<Rightarrow> u32" where
  "pty_master_poll pty =
     (if \<not> ring_buffer_empty (p_output pty) then POLLIN else if slave_open pty = 0 then POLLERR OR POLLHUP else 0) OR
     (if slave_open pty \<noteq> 0 \<and> \<not> hung_up pty \<and> \<not> ring_buffer_full (read_buf pty) \<and> ring_buffer_space (p_output pty) \<ge> 3
      then POLLOUT else 0)"

definition pty_read :: "bool \<Rightarrow> bool \<Rightarrow> bool \<Rightarrow> u32 \<Rightarrow> task \<Rightarrow> pty_pair \<Rightarrow> ((errno + u8 list) attempt \<times> pty_pair) option \<times> kills" where
  "pty_read master signal nonblock cnt cur pty =
     (if master then (Some (pty_master_read signal nonblock cnt pty), []) else tty_read signal nonblock cnt cur pty)"

definition pty_write_file :: "bool \<Rightarrow> bool \<Rightarrow> bool \<Rightarrow> u8 list \<Rightarrow> task \<Rightarrow> pty_pair \<Rightarrow> (write_outcome \<times> kills \<times> pty_pair) option" where
  "pty_write_file master signal nonblock buf cur pty =
     (if master then pty_master_write signal nonblock buf 0 pty
      else case tty_write pty_write nonblock signal buf cur pty of
             (r, ks) \<Rightarrow> map_option (\<lambda>(w, pty). (w, ks, pty)) r)"

definition pty_ioctl :: "bool \<Rightarrow> errno option \<Rightarrow> tty_cmd \<Rightarrow> nat \<Rightarrow> task list \<Rightarrow> pty_pair \<Rightarrow>
    ((errno + tty_reply) \<times> kills \<times> task list \<times> pty_pair) option" where
  "pty_ioctl master va cmd me tasks pty =
     (if master then pty_master_ioctl va cmd me tasks pty else tty_ioctl_tty pty_write va cmd me tasks pty)"

definition pty_poll :: "bool \<Rightarrow> pty_pair \<Rightarrow> u32 option" where
  "pty_poll master pty = (if master then Some (pty_master_poll pty) else tty_poll pty)"

definition pty_release :: "bool \<Rightarrow> pty_pair \<Rightarrow> (kills \<times> pty_pair) option" where
  "pty_release master pty =
     (let free = (\<lambda>pty. if master_open pty = 0 \<and> slave_open pty = 0 then pty\<lparr>p_state := PTY_FREE\<rparr> else pty)
      in if master
         then if \<not> master_open pty > 0 then None
              else
                let pty = pty\<lparr>master_open := master_open pty - 1\<rparr>
                in if master_open pty \<noteq> 0 then Some ([], pty)
                   else if \<not> tty_count pty > 0 then None
                   else
                     let pgrp = tty_pgrp pty;
                         pty = pty\<lparr>tty_count := tty_count pty - 1, hung_up := True, read_buf := ring_buffer_clear (read_buf pty)\<rparr>
                     in Some (if pgrp > 0 then [(pgrp, SIGHUP, True), (pgrp, SIGCONT, True)] else [], free pty)
         else if \<not> slave_open pty > 0 \<or> \<not> tty_count pty > 0 then None
         else Some ([], free (pty\<lparr>slave_open := slave_open pty - 1, tty_count := tty_count pty - 1\<rparr>)))"

text \<open>The pages of the two rings of each pair are an argument.\<close>

definition pty_init_one :: "u8 list option \<Rightarrow> u8 list option \<Rightarrow> nat \<Rightarrow> pty_pair option" where
  "pty_init_one pg1 pg2 i =
     (case ring_buffer_init pg1 \<lparr>rb_data = None, rb_size = 0, rb_head = 0, rb_tail = 0, rb_len = 0\<rparr> of
        (Inl e, out) \<Rightarrow> None
      | (Inr _, out) \<Rightarrow>
          (case tty_init_struct (0x400 + of_nat i) pg2 24 80 of
             (Inl e, t) \<Rightarrow> None
           | (Inr _, t) \<Rightarrow>
               Some (tty.extend (t\<lparr>tty_initialized := True\<rparr>) (pty_pair.fields out PTY_FREE i 0 0 False))))"

primrec pty_inits :: "(nat \<Rightarrow> u8 list option) \<Rightarrow> nat list \<Rightarrow> pty_pair list option" where
  "pty_inits page [] = Some []"
| "pty_inits page (i # js) =
     (case pty_init_one (page (2 * i)) (page (2 * i + 1)) i of
        None \<Rightarrow> None
      | Some pty \<Rightarrow> map_option ((#) pty) (pty_inits page js))"

definition pty_init :: "(nat \<Rightarrow> u8 list option) \<Rightarrow> tty_driver list \<Rightarrow> (pty_pair list \<times> tty_driver list) option" where
  "pty_init page ds = map_option (\<lambda>ptys. (ptys, register_tty_driver pty_driver ds)) (pty_inits page [0..<NR_PTYS])"

section \<open>The pair as a device\<close>

definition empty_ring :: ring_buffer where
  "empty_ring = \<lparr>rb_data = None, rb_size = 0, rb_head = 0, rb_tail = 0, rb_len = 0\<rparr>"

text \<open>Everything but the two rings.\<close>

definition pty_others :: "pty_pair \<Rightarrow> pty_pair" where
  "pty_others p = p\<lparr>read_buf := empty_ring, p_output := empty_ring\<rparr>"

definition pty_room :: "pty_pair \<Rightarrow> nat" where
  "pty_room p = unat (rb_size (p_output p)) - length (rb_list (p_output p))"

lemma pty_others_upd [simp]:
  "pty_others (p\<lparr>read_buf := rb\<rparr>) = pty_others p" "pty_others (p\<lparr>p_output := rb\<rparr>) = pty_others p"
  by (cases p, simp add: pty_others_def)+

lemma pty_othersD:
  assumes "pty_others p = pty_others q"
  shows "tty_termios p = tty_termios q" "tty_pgrp p = tty_pgrp q" "tty_session p = tty_session q" "tty_count p = tty_count q"
    "hung_up p = hung_up q" "p_state p = p_state q" "master_open p = master_open q" "slave_open p = slave_open q"
    "tty_dev p = tty_dev q" "p_number p = p_number q"
  using assms by (cases p; cases q; simp add: pty_others_def)+

interpretation pt: tty_device pty_write "\<lambda>p. rb_inv (p_output p) \<and> master_open p \<noteq> 0" "\<lambda>p. rb_list (p_output p)" pty_room pty_others
proof
  fix t t' :: pty_pair and bs r
  assume ok: "rb_inv (p_output t) \<and> master_open t \<noteq> 0" and len: "length bs < 2 ^ 32" and w: "pty_write bs t = (r, t')"
  obtain rb n where rw: "ring_buffer_write (p_output t) bs (of_nat (length bs)) = (rb, n)" by fastforce
  have cnt: "unat (of_nat (length bs) :: u32) = length bs" using len by (simp add: unat_of_nat_small)
  note law = ring_buffer_write_law [OF conjunct1 [OF ok] _ rw, unfolded cnt, OF order.refl]
  have t': "r = Inr n" "t' = t\<lparr>p_output := rb\<rparr>" using w ok rw by (simp_all add: pty_write_def)
  show "\<exists>n. r = Inr n \<and> unat n = min (length bs) (pty_room t) \<and> (rb_inv (p_output t') \<and> master_open t' \<noteq> 0) \<and>
      rb_list (p_output t') = rb_list (p_output t) @ take (unat n) bs \<and> pty_room t' = pty_room t - unat n \<and>
      pty_others t' = pty_others t \<and> read_buf t' = read_buf t \<and> tty_termios t' = tty_termios t"
    using law ok by (auto simp: t' pty_room_def)
qed (simp_all add: pty_room_def)

text \<open>The line discipline on a pair: both ways of receiving a character.\<close>

definition pair_ok :: "pty_pair \<Rightarrow> bool" where
  "pair_ok p \<longleftrightarrow> rb_inv (read_buf p) \<and> rb_inv (p_output p)"

lemma space_room: "rb_inv (p_output p) \<Longrightarrow> n < 2 ^ 32 \<Longrightarrow> ring_buffer_space (p_output p) < of_nat n \<longleftrightarrow> pty_room p < n"
  by (auto simp: word_less_nat_alt ring_buffer_space_def pty_room_def unat_of_nat_small unat_sub rb_inv_def)

lemma receive_law:
  assumes ok: "pair_ok p" and live: "tty_count p \<noteq> 0" "master_open p \<noteq> 0" and T: "tty_termios p = T"
    and xs: "rb_list (read_buf p) = xs" and room: "length (echoed T c xs) \<le> pty_room p"
    and fits: "\<not> (pushes T c \<and> ring_buffer_full (read_buf p))"
  shows "\<exists>p'. tty_receive_c pty_write c p = Some (Inr (wakes T c), typed_kills T (tty_pgrp p) c, p') \<and> pair_ok p' \<and>
    rb_list (read_buf p') = edited T c xs \<and> rb_size (read_buf p') = rb_size (read_buf p) \<and>
    rb_list (p_output p') = rb_list (p_output p) @ echoed T c xs \<and> pty_others p' = pty_others p"
proof -
  have inv: "rb_inv (read_buf p)" "rb_inv (p_output p)" using ok by (simp_all add: pair_ok_def)
  let ?rb = "ring_edit T c (read_buf p)"
  have part: "length (rb_list (read_buf p)) < unat (rb_size (read_buf p))" if "pushes T c"
    using that fits inv(1) ring_buffer_full_iff [OF inv(1)] by (auto simp: rb_inv_def word_le_nat_alt)
  note edit = ring_edit_law [OF inv(1), where t = T and c = c, OF part]
  note eq = receive_c_eq [OF live(1) inv(1) T xs, where dw = pty_write and c = c, unfolded if_not_P [OF fits]]
  show ?thesis
  proof (cases "dropped T c")
    case True
    then have "edited T c xs = xs" "echoed T c xs = []" by (simp_all add: edited_def erases_def pushes_def echoed_def)
    then show ?thesis using True ok xs by (simp add: eq)
  next
    case False
    then have e: "echoed T c xs = outs T (echo_chars T (popped_of T c xs \<noteq> -1) (typed_char T c))"
      by (simp add: echoed_def popped_of_iff)
    have "pt.emits (p\<lparr>read_buf := ?rb\<rparr>) (echoed T c xs)
        (tty_echo pty_write (c_lflag T) (c_cc T) (popped_of T c xs) (typed_char T c) (p\<lparr>read_buf := ?rb\<rparr>))"
      unfolding e using inv live room T by (intro pt.echo_emits) (simp_all add: e [symmetric] pty_room_def)
    then show ?thesis
      using False edit xs by (simp add: eq pt.emits_def pair_ok_def)
  qed
qed

lemma atomic_law:
  assumes ok: "pair_ok p" and live: "tty_count p \<noteq> 0" "\<not> hung_up p" and T: "tty_termios p = T"
    and xs: "rb_list (read_buf p) = xs"
    and r: "tty_receive_c_atomic c (p_output p) p = Some r"
  shows "pushes T c \<and> ring_buffer_full (read_buf p) \<Longrightarrow> r = not_received EAGAIN False (p_output p) p"
    "\<not> (pushes T c \<and> ring_buffer_full (read_buf p)) \<Longrightarrow> pty_room p < length (echoed T c xs) \<Longrightarrow>
      \<exists>rb. r = not_received EAGAIN True (p_output p) (p\<lparr>read_buf := rb\<rparr>) \<and> rb_inv rb \<and> rb_size rb = rb_size (read_buf p) \<and>
        rb_list rb = xs"
    "\<not> (pushes T c \<and> ring_buffer_full (read_buf p)) \<Longrightarrow> length (echoed T c xs) \<le> pty_room p \<Longrightarrow>
      r_result r = Inr () \<and> \<not> output_full r \<and> wake_read r = wakes T c \<and>
      (if signal_no r \<noteq> 0 then [(signal_pgrp r, signal_no r, False)] else []) = typed_kills T (tty_pgrp p) c \<and>
      r_tty r = p\<lparr>read_buf := ring_edit T c (read_buf p)\<rparr> \<and> rb_inv (r_output r) \<and> rb_size (r_output r) = rb_size (p_output p) \<and>
      rb_list (r_output r) = rb_list (p_output p) @ echoed T c xs"
proof -
  have inv: "rb_inv (read_buf p)" "rb_inv (p_output p)" using ok by (simp_all add: pair_ok_def)
  have small: "length (echoed T c xs) < 2 ^ 32" using length_echoed [of T c xs] by simp
  note sp = space_room [OF inv(2) small]
  note eq = receive_atomic_eq [OF live inv(1) T xs, of c "p_output p"]
  show "r = not_received EAGAIN False (p_output p) p" if "pushes T c \<and> ring_buffer_full (read_buf p)"
    using r eq that by simp
  assume fits: "\<not> (pushes T c \<and> ring_buffer_full (read_buf p))"
  have part: "length (rb_list (read_buf p)) < unat (rb_size (read_buf p))" if "pushes T c"
    using that fits inv(1) ring_buffer_full_iff [OF inv(1)] by (auto simp: rb_inv_def word_le_nat_alt)
  note edit = ring_edit_law [OF inv(1), where t = T and c = c, OF part]
  note eq2 = eq [unfolded if_not_P [OF fits] sp]
  show "\<exists>rb. r = not_received EAGAIN True (p_output p) (p\<lparr>read_buf := rb\<rparr>) \<and> rb_inv rb \<and> rb_size rb = rb_size (read_buf p) \<and>
        rb_list rb = xs" if less: "pty_room p < length (echoed T c xs)"
  proof (cases "erases T c \<and> xs \<noteq> []")
    case True
    obtain rb n where w: "ring_buffer_write (ring_edit T c (read_buf p)) [last xs] 1 = (rb, n)" by fastforce
    have "length xs = unat (rb_len (read_buf p))" "unat (rb_len (read_buf p)) \<le> unat (rb_size (read_buf p))"
      using xs inv(1) by (auto simp: rb_inv_def word_le_nat_alt)
    moreover have "0 < length xs" using True by simp
    ultimately have "length (rb_list (ring_edit T c (read_buf p))) < unat (rb_size (read_buf p))"
      using True edit(3) xs by (simp add: edited_def)
    with ring_buffer_write_law [OF edit(1) _ w] edit True xs have "rb_inv rb" "rb_size rb = rb_size (read_buf p)" "rb_list rb = xs"
      by (auto simp: edited_def)
    then show ?thesis
      using r eq2 less True w by (intro exI [of _ rb]) simp
  next
    case False
    then show ?thesis
      using r eq2 less inv xs by (intro exI [of _ "read_buf p"]) (simp split: if_splits)
  qed
  assume "length (echoed T c xs) \<le> pty_room p"
  then have ge: "\<not> pty_room p < length (echoed T c xs)" by simp
  obtain rb n where w: "ring_buffer_write (p_output p) (echoed T c xs) (of_nat (length (echoed T c xs))) = (rb, n)" by fastforce
  have cnt: "unat (of_nat (length (echoed T c xs)) :: u32) = length (echoed T c xs)" using small by (simp add: unat_of_nat_small)
  note law = ring_buffer_write_law [OF inv(2) _ w, unfolded cnt, OF order.refl]
  show "r_result r = Inr () \<and> \<not> output_full r \<and> wake_read r = wakes T c \<and>
      (if signal_no r \<noteq> 0 then [(signal_pgrp r, signal_no r, False)] else []) = typed_kills T (tty_pgrp p) c \<and>
      r_tty r = p\<lparr>read_buf := ring_edit T c (read_buf p)\<rparr> \<and> rb_inv (r_output r) \<and> rb_size (r_output r) = rb_size (p_output p) \<and>
      rb_list (r_output r) = rb_list (p_output p) @ echoed T c xs"
    using r [unfolded eq2 if_not_P [OF ge]] law inv ge w by (auto simp: typed_kills_def pty_room_def min_absorb1)
qed

section \<open>Cooked input\<close>

text \<open>What a user of a terminal in the default mode sees: the pending input, the echo on the screen and the signals
  after one more key.\<close>

fun cook :: "u8 list \<times> u8 list \<times> nat list \<Rightarrow> u8 \<Rightarrow> u8 list \<times> u8 list \<times> nat list" where
  "cook (xs, scr, sigs) c =
     (if c = 3 then (xs, scr @ [0x5e, 0x43], sigs @ [SIGINT])
      else if c = 0x1c then (xs, scr @ [0x5e, 0x5c], sigs @ [SIGQUIT])
      else if c = 0x1a then (xs, scr @ [0x5e, 0x5a], sigs @ [SIGTSTP])
      else if c = 0x7f then (butlast xs, if xs = [] then scr else scr @ [8, 32, 8], sigs)
      else if c = CR \<or> c = NL then (xs @ [NL], scr @ [CR, NL], sigs)
      else if c < 32 \<and> c \<noteq> TAB then (xs @ [c], scr @ [0x5e, c + 0x40], sigs)
      else (xs @ [c], scr @ [c], sigs))"

lemma default_cc [simp]:
  "c_cc default_termios ! 0 = 3" "c_cc default_termios ! Suc 0 = 0x1c" "c_cc default_termios ! 2 = 0x7f"
  "c_cc default_termios ! 4 = 4" "c_cc default_termios ! 10 = 0x1a" "c_cc default_termios ! 11 = 0"
  by (simp_all add: default_termios_def)

lemma default_flags [simp]:
  "c_iflag default_termios = 0x100" "c_oflag default_termios = 5" "c_lflag default_termios = 0x23b"
  by (simp_all add: default_termios_def)

lemma default_typed:
  "typed_sig default_termios c = (if c = 3 then SIGINT else if c = 0x1c then SIGQUIT else if c = 0x1a then SIGTSTP else 0)"
  "\<not> dropped default_termios c"
  "typed_char default_termios c = (if c = CR then NL else c)"
  "erases default_termios c \<longleftrightarrow> c = 0x7f"
  "pushes default_termios c \<longleftrightarrow> c \<noteq> 3 \<and> c \<noteq> 0x1c \<and> c \<noteq> 0x1a \<and> c \<noteq> 0x7f"
  by (auto simp: typed_defs)

lemma word8_le_31: "c \<le> 31 \<longleftrightarrow> c < 32" for c :: u8
  by (simp add: word_le_nat_alt word_less_nat_alt) linarith

lemma default_echoed:
  "echoed default_termios c xs =
     (if c = 0x7f then if xs = [] then [] else [8, 32, 8]
      else if c = CR \<or> c = NL then [CR, NL]
      else if c < 32 \<and> c \<noteq> TAB then [0x5e, c + 0x40] else [c])"
proof -
  have "c + 0x40 \<noteq> NL" if "c < 32"
  proof
    assume "c + 0x40 = NL"
    then have "c + 0x40 - 0x40 = NL - 0x40" by (rule arg_cong)
    then have "c = NL - 0x40" by (simp only: add_diff_cancel_right')
    with that show False by simp
  qed
  then show ?thesis
    by (auto simp: echoed_def default_typed echo_chars_def out_char_def word8_le_31)
qed

lemma cook_step:
  "cook (xs, scr, sigs) c =
     (edited default_termios c xs, scr @ echoed default_termios c xs,
      sigs @ (if typed_sig default_termios c \<noteq> 0 then [typed_sig default_termios c] else []))"
  by (simp add: edited_def default_typed default_echoed)

lemma cook_prefix: "foldl cook (xs, scr @ scr', sigs @ sigs') bs =
    (case foldl cook (xs, scr', sigs') bs of (ys, s, k) \<Rightarrow> (ys, scr @ s, sigs @ k))"
proof (induction bs arbitrary: xs scr' sigs')
  case (Cons c bs)
  show ?case
    unfolding foldl_Cons cook_step append_assoc by (rule Cons.IH)
qed simp

lemma echoed_default_le: "length (echoed default_termios c xs) \<le> 3"
  by (simp add: default_echoed)

lemma edited_le: "length (edited t c xs) \<le> Suc (length xs)"
  by (auto simp: edited_def intro: le_SucI order_trans [OF diff_le_self])

lemma cook_length: "length (fst (foldl cook (xs, scr, sigs) bs)) \<le> length xs + length bs"
proof (induction bs arbitrary: xs scr sigs)
  case (Cons c bs)
  then show ?case
    unfolding foldl_Cons cook_step using edited_le [of default_termios c xs] by (fastforce intro: le_trans)
qed simp

text \<open>The first line of the pending input, up to a new line, an end-of-file character or a zero byte.\<close>

definition typed_line :: "u8 list \<Rightarrow> u8 list" where
  "typed_line ys = takeWhile (\<lambda>x. x \<notin> {NL, 4, 0}) ys"

lemma line_len_default: "line_len (c_cc default_termios) ys = (if typed_line ys = ys then 0 else length (typed_line ys) + 1)"
  by (induction ys) (auto simp: ends_line_def typed_line_def)

lemma read_line:
  assumes inv: "rb_inv (read_buf p)" and T: "tty_termios p = default_termios" and "\<not> hung_up p"
    and size: "rb_size (read_buf p) = 4096" and ys: "rb_list (read_buf p) = ys" and len: "length ys < 4096"
  shows "if typed_line ys = ys then tty_read_try False nonblock 4096 p = Some (if nonblock then Ret (Inl EAGAIN) else Sleep, p)
     else \<exists>q. tty_read_try False nonblock 4096 p =
            Some (Ret (Inr (if ys ! length (typed_line ys) = 4 then typed_line ys
                            else typed_line ys @ [ys ! length (typed_line ys)])), q) \<and>
          rb_list (read_buf q) = drop (length (typed_line ys) + 1) ys"
proof -
  let ?l = "typed_line ys"
  have r: "readable p = (if ?l = ys then 0 else length ?l + 1)"
    using line_len_default [of ys] len size ys T by (simp add: readable_def Let_def)
  note law = tty_read_try_law [OF inv, of 4096 nonblock]
  show ?thesis
  proof (cases "?l = ys")
    case True
    then show ?thesis using law(1) r assms by simp
  next
    case False
    have "length ?l \<le> length ys" "take (length ?l) ys = ?l"
      by (simp_all add: typed_line_def length_takeWhile_le takeWhile_eq_take [symmetric])
    moreover from this have "length ?l < length ys" using False by (metis nless_le take_all_iff)
    ultimately have "take (length ?l + 1) ys = ?l @ [ys ! length ?l]" "min (length ?l + 1) 4096 = length ?l + 1"
      using len by (simp_all add: take_Suc_conv_app_nth)
    then show ?thesis
      using law(2) r False ys T by (auto simp: strip_eof_def)
  qed
qed

text \<open>The master types, character by character.\<close>

lemma master_write_cooked:
  assumes "pair_ok p" "tty_count p \<noteq> 0" "slave_open p \<noteq> 0" "\<not> hung_up p" "tty_termios p = default_termios"
    and "length (rb_list (read_buf p)) + length bs \<le> unat (rb_size (read_buf p))" "3 * length bs \<le> pty_room p"
    and "foldl cook (rb_list (read_buf p), [], []) bs = (ys, scr, sigs)"
  shows "\<exists>p'. pty_master_write signal nonblock bs i p =
      Some (Wret (Inr (i + length bs)), map (\<lambda>s. (tty_pgrp p, s, False)) sigs, p') \<and> pair_ok p' \<and>
    rb_list (read_buf p') = ys \<and> rb_size (read_buf p') = rb_size (read_buf p) \<and>
    rb_list (p_output p') = rb_list (p_output p) @ scr \<and> rb_size (p_output p') = rb_size (p_output p) \<and>
    pty_others p' = pty_others p"
  using assms
proof (induction bs arbitrary: p i ys scr sigs)
  case (Cons c bs)
  let ?T = default_termios and ?xs = "rb_list (read_buf p)"
  have inv: "rb_inv (read_buf p)" "rb_inv (p_output p)" using Cons.prems(1) by (simp_all add: pair_ok_def)
  have fits: "\<not> (pushes ?T c \<and> ring_buffer_full (read_buf p))"
    using Cons.prems(6) ring_buffer_full_iff [OF inv(1)] by simp
  have room: "length (echoed ?T c ?xs) \<le> pty_room p"
    using Cons.prems(7) echoed_default_le [of c ?xs] by simp
  obtain r where r: "tty_receive_c_atomic c (p_output p) p = Some r"
    using receive_atomic_eq [OF Cons.prems(2,4) inv(1) Cons.prems(5) refl, of c "p_output p"] by (auto split: if_splits)
  note law = atomic_law(3) [OF Cons.prems(1,2,4,5) refl r fits room]
  define q where "q = (r_tty r)\<lparr>p_output := r_output r\<rparr>"
  have part: "length ?xs < unat (rb_size (read_buf p))" if "pushes ?T c" using Cons.prems(6) by simp
  note edit = ring_edit_law [OF inv(1), where t = ?T and c = c, OF part]
  have q: "pair_ok q" "rb_list (read_buf q) = edited ?T c ?xs" "rb_size (read_buf q) = rb_size (read_buf p)"
    "rb_list (p_output q) = rb_list (p_output p) @ echoed ?T c ?xs" "pty_others q = pty_others p"
    "rb_size (p_output q) = rb_size (p_output p)"
    using law edit by (simp_all add: q_def pair_ok_def)
  note same = pty_othersD [OF q(5)]
  obtain ys' scr' sigs' where f: "foldl cook (edited ?T c ?xs, [], []) bs = (ys', scr', sigs')" by (metis prod.exhaust)
  have res: "ys = ys'" "scr = echoed ?T c ?xs @ scr'"
    "sigs = (if typed_sig ?T c \<noteq> 0 then [typed_sig ?T c] else []) @ sigs'"
    using Cons.prems(8) cook_prefix [of "edited ?T c ?xs" "echoed ?T c ?xs" "[]"
        "if typed_sig ?T c \<noteq> 0 then [typed_sig ?T c] else []" "[]" bs] f
    unfolding foldl_Cons cook_step by simp_all
  have "length (rb_list (read_buf q)) + length bs \<le> unat (rb_size (read_buf q))"
    using Cons.prems(6) edited_le [of ?T c ?xs] q by simp
  moreover have "3 * length bs \<le> pty_room q"
    using Cons.prems(7) echoed_default_le [of c ?xs] q by (simp add: pty_room_def)
  ultimately obtain p' where p': "pty_master_write signal nonblock bs (i + 1) q =
      Some (Wret (Inr (i + 1 + length bs)), map (\<lambda>s. (tty_pgrp q, s, False)) sigs', p')" "pair_ok p'"
    "rb_list (read_buf p') = ys'" "rb_size (read_buf p') = rb_size (read_buf q)"
    "rb_list (p_output p') = rb_list (p_output q) @ scr'" "rb_size (p_output p') = rb_size (p_output q)"
    "pty_others p' = pty_others q"
    using Cons.IH [of q ys' scr' sigs' "i + 1"] q same Cons.prems(2-5) f by auto
  have "r_result r = Inr ()" "(if signal_no r \<noteq> 0 then [(signal_pgrp r, signal_no r, False)] else []) =
      map (\<lambda>s. (tty_pgrp p, s, False)) (if typed_sig ?T c \<noteq> 0 then [typed_sig ?T c] else [])"
    using law by (auto simp: typed_kills_def)
  then have "pty_master_write signal nonblock (c # bs) i p =
      Some (Wret (Inr (i + length (c # bs))), map (\<lambda>s. (tty_pgrp p, s, False)) sigs, p')"
    using p'(1) r Cons.prems(3) same(2) by (simp add: q_def [symmetric] res Let_def)
  then show ?case
    using p' q res by simp
qed simp

section \<open>Calls keep a pair well formed\<close>

definition pair_wf :: "pty_pair \<Rightarrow> bool" where
  "pair_wf p \<longleftrightarrow> rb_inv (read_buf p) \<and> rb_inv (p_output p) \<and> rb_size (read_buf p) = 4096 \<and> rb_size (p_output p) = 4096 \<and>
     length (c_cc (tty_termios p)) = 32"

text \<open>A call that transfers or controls keeps the form of the rings and every count.\<close>

definition keeps :: "pty_pair \<Rightarrow> pty_pair \<Rightarrow> bool" where
  "keeps p q \<longleftrightarrow> pair_wf q \<and> master_open q = master_open p \<and> slave_open q = slave_open p \<and> p_state q = p_state p \<and>
     tty_count q = tty_count p \<and> hung_up q = hung_up p"

lemma keeps_refl [simp]: "pair_wf p \<Longrightarrow> keeps p p"
  by (simp add: keeps_def)

lemma keeps_trans: "keeps p q \<Longrightarrow> keeps q r \<Longrightarrow> keeps p r"
  by (simp add: keeps_def)

lemma keepsD: "keeps p q \<Longrightarrow> pair_wf q"
  by (simp add: keeps_def)

lemma keeps_read_buf:
  "pair_wf p \<Longrightarrow> rb_inv rb \<Longrightarrow> rb_size rb = rb_size (read_buf p) \<Longrightarrow> keeps p (p\<lparr>read_buf := rb\<rparr>)"
  by (simp add: keeps_def pair_wf_def)

lemma keeps_output:
  "pair_wf p \<Longrightarrow> rb_inv rb \<Longrightarrow> rb_size rb = rb_size (p_output p) \<Longrightarrow> keeps p (p\<lparr>p_output := rb\<rparr>)"
  by (simp add: keeps_def pair_wf_def)

lemma pair_wf_ok: "pair_wf p \<Longrightarrow> pair_ok p"
  by (simp add: pair_wf_def pair_ok_def)

lemma pty_write_keeps:
  assumes "pair_wf p" "pty_write bs p = (r, q)"
  shows "keeps p q" "r = Inr n \<Longrightarrow> unat n \<le> length bs"
proof -
  obtain rb m where w: "ring_buffer_write (p_output p) bs (of_nat (length bs)) = (rb, m)" by fastforce
  have "rb_inv (p_output p)" using assms(1) by (simp add: pair_wf_def)
  moreover have le: "unat (of_nat (length bs) :: u32) \<le> length bs" by (simp add: unat_of_nat)
  ultimately have law: "rb_inv rb" "rb_size rb = rb_size (p_output p)" "unat m \<le> length bs"
    using ring_buffer_write_law [OF _ _ w] by auto
  then show "keeps p q" "r = Inr n \<Longrightarrow> unat n \<le> length bs"
    using assms w keeps_output by (auto simp: pty_write_def split: if_splits)
qed

lemma put_c_keeps: "pair_wf p \<Longrightarrow> keeps p (snd (tty_put_c pty_write c p))"
  using pty_write_keeps(1) [of p "tty_output_char p c"]
  by (auto simp: tty_put_c_def Let_def split: prod.splits sum.splits)

lemma put_s_keeps: "pair_wf p \<Longrightarrow> keeps p (tty_put_s pty_write s p)"
proof (induction s arbitrary: p)
  case (Cons c s)
  then show ?case
    using put_c_keeps [OF Cons.prems, of c] keeps_trans keepsD by (auto simp del: keeps_refl) (meson keeps_refl)
qed simp

lemma echo_keeps:
  assumes "pair_wf p"
  shows "keeps p (tty_echo pty_write f cc k c p)"
proof -
  have "keeps p (snd (tty_put_c pty_write b (snd (tty_put_c pty_write a p))))" for a b
    using put_c_keeps [OF assms, of a] put_c_keeps [OF keepsD] keeps_trans by blast
  then show ?thesis
    using assms put_c_keeps put_s_keeps by (simp add: tty_echo_def del: tty_put_s.simps)
qed

text \<open>Every call returns, and keeps the pair.\<close>

lemma receive_keeps:
  assumes wf: "pair_wf p"
  shows "\<exists>r ks q. tty_receive_c pty_write c p = Some (r, ks, q) \<and> keeps p q"
proof (cases "tty_count p = 0")
  case True
  then show ?thesis using wf by (simp add: tty_receive_c_def)
next
  case False
  let ?T = "tty_termios p"
  have inv: "rb_inv (read_buf p)" using wf by (simp add: pair_wf_def)
  note eq = receive_c_eq [OF False inv refl refl, of pty_write c]
  show ?thesis
  proof (cases "pushes ?T c \<and> ring_buffer_full (read_buf p)")
    case True
    then show ?thesis using eq wf by simp
  next
    case no: False
    then have "length (rb_list (read_buf p)) < unat (rb_size (read_buf p))" if "pushes ?T c"
      using that inv ring_buffer_full_iff [OF inv] by (auto simp: rb_inv_def word_le_nat_alt)
    then have k: "keeps p (p\<lparr>read_buf := ring_edit ?T c (read_buf p)\<rparr>)"
      using ring_edit_law [OF inv] wf by (intro keeps_read_buf) auto
    show ?thesis
      unfolding eq if_not_P [OF no] using k echo_keeps [OF keepsD [OF k]] keeps_trans wf by auto
  qed
qed

lemma atomic_keeps:
  assumes wf: "pair_wf p"
  shows "\<exists>r. tty_receive_c_atomic c (p_output p) p = Some r \<and> keeps p ((r_tty r)\<lparr>p_output := r_output r\<rparr>)"
proof (cases "tty_count p = 0 \<or> hung_up p")
  case True
  then show ?thesis using wf by (simp add: tty_receive_c_atomic_def)
next
  case False
  let ?T = "tty_termios p" and ?xs = "rb_list (read_buf p)"
  have inv: "rb_inv (read_buf p)" using wf by (simp add: pair_wf_def)
  from False have live: "tty_count p \<noteq> 0" "\<not> hung_up p" by simp_all
  obtain r where r: "tty_receive_c_atomic c (p_output p) p = Some r"
    using receive_atomic_eq [OF live inv refl refl, of c "p_output p"] by (auto split: if_splits)
  note law = atomic_law [OF pair_wf_ok [OF wf] live refl refl r]
  have "keeps p ((r_tty r)\<lparr>p_output := r_output r\<rparr>)"
  proof (cases "pushes ?T c \<and> ring_buffer_full (read_buf p)")
    case True
    then show ?thesis using law(1) wf by (simp add: not_received_def)
  next
    case no: False
    then have "length ?xs < unat (rb_size (read_buf p))" if "pushes ?T c"
      using that inv ring_buffer_full_iff [OF inv] by (auto simp: rb_inv_def word_le_nat_alt)
    then have k: "keeps p (p\<lparr>read_buf := ring_edit ?T c (read_buf p)\<rparr>)"
      using ring_edit_law [OF inv] wf by (intro keeps_read_buf) auto
    show ?thesis
    proof (cases "pty_room p < length (echoed ?T c ?xs)")
      case True
      then obtain rb where rb: "r = not_received EAGAIN True (p_output p) (p\<lparr>read_buf := rb\<rparr>)" "rb_inv rb"
        "rb_size rb = rb_size (read_buf p)"
        using law(2) [OF no] by blast
      then show ?thesis using keeps_read_buf [OF wf rb(2,3)] by (simp add: not_received_def)
    next
      case False
      then show ?thesis
        using law(3) [OF no] k keeps_output [OF keepsD [OF k], of "r_output r"] keeps_trans [OF k] by simp
    qed
  qed
  with r show ?thesis by blast
qed

lemma read_keeps:
  assumes wf: "pair_wf p" and cnt: "cnt \<noteq> 0"
  shows "\<exists>r q. tty_read_try signal nonblock cnt p = Some (r, q) \<and> keeps p q"
proof -
  have inv: "rb_inv (read_buf p)" using wf by (simp add: pair_wf_def)
  show ?thesis
  proof (cases signal)
    case True
    then show ?thesis using wf by (simp add: tty_read_try_def)
  next
    case False
    then show ?thesis
      using tty_read_try_law [OF inv cnt, of nonblock] wf keeps_read_buf [OF wf] by (cases "readable p = 0") auto
  qed
qed

lemma master_read_keeps:
  assumes wf: "pair_wf p"
  shows "keeps p (snd (pty_master_read signal nonblock cnt p))"
proof -
  obtain rb bs n where rd: "ring_buffer_read (p_output p) cnt = (rb, bs, n)" by (metis prod.exhaust)
  have "rb_inv (p_output p)" using wf by (simp add: pair_wf_def)
  from ring_buffer_read_law [OF this rd] show ?thesis
    using wf keeps_output [OF wf, of rb] by (simp add: pty_master_read_def rd)
qed

lemma write_out_keeps:
  assumes wf: "pair_wf p"
  shows "\<exists>w q. write_out pty_write nonblock signal i out dn rest p = Some (w, q) \<and> keeps p q"
proof -
  obtain r q where w: "pty_write (drop dn out) p = (r, q)" by fastforce
  from pty_write_keeps [OF wf w] show ?thesis
    by (cases r) (auto simp: write_out_def w Let_def not_less [symmetric])
qed

lemma write_rest_keeps: "pair_wf p \<Longrightarrow> \<exists>w q. write_rest pty_write nonblock signal buf i p = Some (w, q) \<and> keeps p q"
proof (induction buf arbitrary: i p)
  case (Cons c buf)
  obtain w q where o: "write_out pty_write nonblock signal i (tty_output_char p c) 0 buf p = Some (w, q)" "keeps p q"
    using write_out_keeps [OF Cons.prems] by blast
  then show ?case
    using Cons.IH [OF keepsD [OF o(2)], of "i + 1"] keeps_trans [OF o(2)] by (cases w) auto
qed simp

lemma write_resume_keeps:
  assumes "pair_wf p"
  shows "\<exists>w q. write_resume pty_write nonblock signal i out dn rest p = Some (w, q) \<and> keeps p q"
proof -
  obtain w q where o: "write_out pty_write nonblock signal i out dn rest p = Some (w, q)" "keeps p q"
    using write_out_keeps [OF assms] by blast
  then show ?thesis
    using write_rest_keeps [OF keepsD [OF o(2)], of nonblock signal rest "i + 1"] keeps_trans [OF o(2)]
    by (cases w) (auto simp: write_resume_def)
qed

lemma master_write_keeps:
  "pair_wf p \<Longrightarrow> \<exists>w ks q. pty_master_write signal nonblock buf i p = Some (w, ks, q) \<and> keeps p q"
proof (induction buf arbitrary: i p)
  case (Cons c buf)
  obtain r where r: "tty_receive_c_atomic c (p_output p) p = Some r" "keeps p ((r_tty r)\<lparr>p_output := r_output r\<rparr>)"
    using atomic_keeps [OF Cons.prems] by blast
  show ?case
    using r Cons.prems Cons.IH [OF keepsD [OF r(2)], of "i + 1"] keeps_trans [OF r(2)]
    by (cases "r_result r") (auto simp: Let_def)
qed simp

text \<open>A command carries a whole array of control characters.\<close>

fun cmd_ok :: "tty_cmd \<Rightarrow> bool" where
  "cmd_ok (TCSETS t) \<longleftrightarrow> length (c_cc t) = 32"
| "cmd_ok (TCSETSW t) \<longleftrightarrow> length (c_cc t) = 32"
| "cmd_ok (TCSETSF t) \<longleftrightarrow> length (c_cc t) = 32"
| "cmd_ok _ \<longleftrightarrow> True"

lemma set_controlling_keeps:
  assumes "pair_wf p" "tty_set_controlling cur p = (r, cur', q)"
  shows "keeps p q"
  using assms by (auto simp: tty_set_controlling_def keeps_def pair_wf_def split: if_splits)

lemma try_set_controlling_keeps:
  "pair_wf p \<Longrightarrow> tty_try_set_controlling noctty cur p = (cur', q) \<Longrightarrow> keeps p q"
  using set_controlling_keeps [of p cur]
  by (cases "tty_set_controlling cur p") (auto simp: tty_try_set_controlling_def split: if_splits)

lemma ioctl_keeps:
  assumes wf: "pair_wf p" and cmd: "cmd_ok cmd"
  shows "\<exists>r ks ts q. tty_ioctl_tty pty_write va cmd me tasks p = Some (r, ks, ts, q) \<and> keeps p q"
proof (cases cmd)
  case (TIOCSTI ch)
  then show ?thesis
    using receive_keeps [OF wf, of ch] wf by (auto simp: tty_ioctl_tty_def Let_def split: option.splits)
next
  case TIOCSCTTY
  then show ?thesis
    using set_controlling_keeps [OF wf, of "tasks ! me"] wf
    by (cases "tty_set_controlling (tasks ! me) p") (auto simp: tty_ioctl_tty_def Let_def)
next
  case (TCFLSH arg)
  then show ?thesis
    using wf ring_buffer_clear_inv [of "read_buf p"] keeps_read_buf [OF wf, of "ring_buffer_clear (read_buf p)"]
    by (auto simp: tty_ioctl_tty_def Let_def pair_wf_def ring_buffer_clear_def)
qed (use wf cmd in \<open>auto simp: tty_ioctl_tty_def Let_def set_termios_def tty_detach_session_def keeps_def pair_wf_def
       split: option.splits\<close>)

lemma master_ioctl_keeps:
  assumes wf: "pair_wf p" and cmd: "cmd_ok cmd"
  shows "\<exists>r ks ts q. pty_master_ioctl va cmd me tasks p = Some (r, ks, ts, q) \<and> keeps p q"
  using ioctl_keeps [OF assms, of va me tasks] wf
  by (cases cmd) (auto simp: pty_master_ioctl_def keeps_def pair_wf_def split: option.splits)

section \<open>The table of pairs\<close>

text \<open>A system of pairs and the files open on them: what processes may do. Opening \<^verbatim>\<open>/dev/tty\<close> binds a slave and then
  tries once more to make it the controlling terminal.\<close>

inductive pty_step :: "pty_pair list \<times> pty_file list \<Rightarrow> pty_pair list \<times> pty_file list \<Rightarrow> bool" where
  opened: "MAJOR dev = 4 \<Longrightarrow> pty_open (pty_driver # ds) None dev noctty cur P = (Inr f, cur', P') \<Longrightarrow> pty_step (P, fs) (P', f # fs)"
| refused: "MAJOR dev = 4 \<Longrightarrow> pty_open (pty_driver # ds) None dev noctty cur P = (Inl e, cur', P') \<Longrightarrow> pty_step (P, fs) (P', fs)"
| dup: "f \<in> set fs \<Longrightarrow> pty_open ds (Some f) dev noctty cur P = (Inr f', cur', P') \<Longrightarrow> pty_step (P, fs) (P', f' # fs)"
| bound: "i < NR_PTYS \<Longrightarrow> pty_bind_slave noctty cur (P ! i) = (Inr (), cur', q) \<Longrightarrow> pty_step (P, fs) (P[i := q], (False, i) # fs)"
| control: "i < NR_PTYS \<Longrightarrow> tty_try_set_controlling noctty cur (P ! i) = (cur', q) \<Longrightarrow> pty_step (P, fs) (P[i := q], fs)"
| closed: "(m, i) \<in> set fs \<Longrightarrow> pty_release m (P ! i) = Some (ks, q) \<Longrightarrow> pty_step (P, fs) (P[i := q], remove1 (m, i) fs)"
| reads: "(m, i) \<in> set fs \<Longrightarrow> cnt \<noteq> 0 \<Longrightarrow> pty_read m signal nonblock cnt cur (P ! i) = (Some (r, q), ks) \<Longrightarrow> pty_step (P, fs) (P[i := q], fs)"
| reads_on: "(False, i) \<in> set fs \<Longrightarrow> cnt \<noteq> 0 \<Longrightarrow> tty_read_try signal nonblock cnt (P ! i) = Some (r, q) \<Longrightarrow> pty_step (P, fs) (P[i := q], fs)"
| writes: "(m, i) \<in> set fs \<Longrightarrow> pty_write_file m signal nonblock buf cur (P ! i) = Some (w, ks, q) \<Longrightarrow> pty_step (P, fs) (P[i := q], fs)"
| writes_on: "(True, i) \<in> set fs \<Longrightarrow> pty_master_write signal nonblock buf k (P ! i) = Some (w, ks, q) \<Longrightarrow> pty_step (P, fs) (P[i := q], fs)"
| slave_writes_on: "(False, i) \<in> set fs \<Longrightarrow> write_resume pty_write nonblock signal k out dn rest (P ! i) = Some (w, q) \<Longrightarrow>
    pty_step (P, fs) (P[i := q], fs)"
| ioctl: "(m, i) \<in> set fs \<Longrightarrow> cmd_ok cmd \<Longrightarrow> pty_ioctl m va cmd me tasks (P ! i) = Some (r, ks, ts, q) \<Longrightarrow> pty_step (P, fs) (P[i := q], fs)"

text \<open>The counts of a pair with \<open>M\<close> open master files and \<open>S\<close> open slave files.\<close>

definition pair_inv :: "nat \<Rightarrow> nat \<Rightarrow> pty_pair \<Rightarrow> bool" where
  "pair_inv M S p \<longleftrightarrow> pair_wf p \<and> master_open p = int M \<and> slave_open p = int S \<and>
     (p_state p = PTY_FREE \<longleftrightarrow> M = 0 \<and> S = 0) \<and> tty_count p = (if M = 0 then 0 else 1) + int S \<and>
     (p_state p = PTY_ALLOCATED \<longrightarrow> (hung_up p \<longleftrightarrow> M = 0))"

definition pty_inv :: "pty_pair list \<times> pty_file list \<Rightarrow> bool" where
  "pty_inv s \<longleftrightarrow> (case s of (P, fs) \<Rightarrow>
     length P = NR_PTYS \<and> (\<forall>i<NR_PTYS. pair_inv (count_list fs (True, i)) (count_list fs (False, i)) (P ! i)) \<and>
     (\<forall>f \<in> set fs. snd f < NR_PTYS))"

lemma pty_invD: "pty_inv (P, fs) \<Longrightarrow> i < NR_PTYS \<Longrightarrow> pair_inv (count_list fs (True, i)) (count_list fs (False, i)) (P ! i)"
  by (simp add: pty_inv_def)

lemma pty_inv_handle: "pty_inv (P, fs) \<Longrightarrow> (m, i) \<in> set fs \<Longrightarrow> i < NR_PTYS"
  by (auto simp: pty_inv_def)

text \<open>One pair changes, and the files that are open on it.\<close>

lemma pty_inv_upd:
  assumes inv: "pty_inv (P, fs)" and i: "i < NR_PTYS"
    and q: "pair_inv (count_list fs' (True, i)) (count_list fs' (False, i)) q"
    and same: "\<And>m j. j \<noteq> i \<Longrightarrow> count_list fs' (m, j) = count_list fs (m, j)"
    and new: "\<And>f. f \<in> set fs' \<Longrightarrow> f \<in> set fs \<or> snd f = i"
  shows "pty_inv (P[i := q], fs')"
proof -
  have "snd f < NR_PTYS" if "f \<in> set fs'" for f
    using new [OF that] inv i by (auto simp: pty_inv_def)
  moreover have "pair_inv (count_list fs' (True, j)) (count_list fs' (False, j)) (P[i := q] ! j)" if "j < NR_PTYS" for j
    using pty_invD [OF inv that] inv q same [of j] i by (cases "j = i") (simp_all add: pty_inv_def)
  ultimately show ?thesis
    using inv by (simp add: pty_inv_def)
qed

lemma pair_inv_keeps: "pair_inv M S p \<Longrightarrow> keeps p q \<Longrightarrow> pair_inv M S q"
  by (simp add: pair_inv_def keeps_def)

lemma pty_inv_keeps:
  assumes "pty_inv (P, fs)" "i < NR_PTYS" "keeps (P ! i) q"
  shows "pty_inv (P[i := q], fs)"
  using assms pty_invD pair_inv_keeps by (intro pty_inv_upd) blast+

lemma fresh_pair_inv:
  assumes "pair_wf p"
  shows "pair_inv 1 0 (fresh_pair p)"
  using assms ring_buffer_clear_inv
  by (auto simp: pair_inv_def fresh_pair_def pair_wf_def ring_buffer_clear_def default_termios_def)

lemma bind_inv:
  assumes inv: "pair_inv M S p" and b: "pty_bind_slave noctty cur p = (Inr (), cur', q)"
  shows "pair_inv M (Suc S) q"
proof -
  define p' where "p' = p\<lparr>slave_open := slave_open p + 1, tty_count := tty_count p + 1\<rparr>"
  have c: "p_state p = PTY_ALLOCATED" "master_open p \<noteq> 0" "tty_try_set_controlling noctty cur p' = (cur', q)"
    using b by (auto simp: pty_bind_slave_def p'_def split: if_splits)
  have p': "pair_inv M (Suc S) p'"
    using inv c by (auto simp: pair_inv_def p'_def pair_wf_def)
  then have "pair_wf p'" by (simp add: pair_inv_def)
  from pair_inv_keeps [OF p' try_set_controlling_keeps [OF this c(3)]] show ?thesis .
qed

lemma dup_inv:
  assumes "pair_inv M S p" "pty_dup_open m p = Inr q" "(if m then M else S) > 0"
  shows "pair_inv (if m then Suc M else M) (if m then S else Suc S) q"
  using assms by (auto simp: pty_dup_open_def pair_inv_def pair_wf_def split: if_splits)

lemma release_inv:
  assumes inv: "pair_inv M S p" and pos: "(if m then M else S) > 0"
  shows "\<exists>ks q. pty_release m p = Some (ks, q) \<and> pair_inv (if m then M - 1 else M) (if m then S else S - 1) q"
proof -
  have rb: "rb_inv (ring_buffer_clear (read_buf p))" "rb_size (ring_buffer_clear (read_buf p)) = rb_size (read_buf p)"
    using inv ring_buffer_clear_inv by (auto simp: pair_inv_def pair_wf_def ring_buffer_clear_def)
  have st: "p_state p = PTY_ALLOCATED"
    using inv pos by (cases "p_state p") (auto simp: pair_inv_def split: if_splits)
  show ?thesis
    using inv pos rb st by (cases m) (auto simp: pty_release_def pair_inv_def pair_wf_def Let_def)
qed

lemma find_free:
  assumes "find (\<lambda>i. p_state (P ! i) = PTY_FREE) [0..<NR_PTYS] = Some i"
  shows "i < NR_PTYS" "p_state (P ! i) = PTY_FREE"
  using assms by (auto simp: find_Some_iff)

lemma get_pty:
  assumes "MAJOR dev = 4" "MINOR dev < 32" "get_tty (pty_driver # ds) dev = Inr (k, i)"
  shows "i < NR_PTYS"
  using assms by (auto simp: pty_driver_def pty_lookup_def word_less_nat_alt Let_def)

lemma pty_inv_add:
  assumes inv: "pty_inv (P, fs)" and i: "i < NR_PTYS"
    and q: "pair_inv (count_list ((m, i) # fs) (True, i)) (count_list ((m, i) # fs) (False, i)) q"
  shows "pty_inv (P[i := q], (m, i) # fs)"
  by (rule pty_inv_upd [OF inv i q]) auto

lemma open_inv:
  assumes inv: "pty_inv (P, fs)" and dev: "MAJOR dev = 4"
    and o: "pty_open (pty_driver # ds) None dev noctty cur P = (r, cur', P')"
  shows "case r of Inl e \<Rightarrow> pty_inv (P', fs) | Inr f \<Rightarrow> pty_inv (P', f # fs)"
proof (cases "MINOR dev = PTMX_MINOR")
  case True
  show ?thesis
  proof (cases "find (\<lambda>i. p_state (P ! i) = PTY_FREE) [0..<NR_PTYS]")
    case None
    then show ?thesis using o True inv by (auto simp: pty_open_def pty_master_open_def)
  next
    case (Some i)
    note free = find_free [OF Some]
    from pty_invD [OF inv free(1)] free(2)
    have z: "count_list fs (True, i) = 0" "count_list fs (False, i) = 0" "pair_wf (P ! i)" by (simp_all add: pair_inv_def)
    have "pty_inv (P[i := fresh_pair (P ! i)], (True, i) # fs)"
      using fresh_pair_inv [OF z(3)] z by (intro pty_inv_add [OF inv free(1)]) simp
    then show ?thesis using o True Some by (auto simp: pty_open_def pty_master_open_def)
  qed
next
  case minor: False
  show ?thesis
  proof (cases "MINOR dev < 32 \<and> (\<exists>k i. get_tty (pty_driver # ds) dev = Inr (k, i))")
    case True
    then obtain k i where g: "MINOR dev < 32" "get_tty (pty_driver # ds) dev = Inr (k, i)" by blast
    note i = get_pty [OF dev g]
    have P: "P[i := P ! i] = P" by simp
    obtain rr c q where b: "pty_bind_slave noctty cur (P ! i) = (rr, c, q)" by (metis prod.exhaust)
    show ?thesis
    proof (cases rr)
      case (Inl e)
      then have "q = P ! i" using b by (auto simp: pty_bind_slave_def split: if_splits)
      then show ?thesis
        using o minor g b Inl inv by (auto simp: pty_open_def not_le [symmetric] simp del: get_tty.simps)
    next
      case (Inr u)
      have "pair_inv (count_list fs (True, i)) (Suc (count_list fs (False, i))) q"
        using bind_inv [OF pty_invD [OF inv i]] b Inr by simp
      then have "pty_inv (P[i := q], (False, i) # fs)"
        by (intro pty_inv_add [OF inv i]) simp
      then show ?thesis
        using o minor g b Inr by (auto simp: pty_open_def not_le [symmetric] simp del: get_tty.simps)
    qed
  next
    case False
    then show ?thesis
      using o minor inv
      by (cases "get_tty (pty_driver # ds) dev") (auto simp: pty_open_def not_le simp del: get_tty.simps split: if_splits)
  qed
qed

text \<open>A call on an open file.\<close>

lemma pty_inv_call:
  assumes "pty_inv (P, fs)" "(m, i) \<in> set fs" "pair_wf (P ! i) \<Longrightarrow> keeps (P ! i) q"
  shows "pty_inv (P[i := q], fs)"
  using assms pty_inv_handle [OF assms(1,2)] pty_invD [OF assms(1)] by (intro pty_inv_keeps) (auto simp: pair_inv_def)

lemma handle_count: "(m, i) \<in> set fs \<Longrightarrow> (if m then count_list fs (True, i) else count_list fs (False, i)) > 0"
  by (cases m) (auto simp: neq0_conv [symmetric] count_list_0_iff simp del: neq0_conv)

lemma count_list_remove1: "count_list (remove1 x fs) y = (if x = y then count_list fs y - 1 else count_list fs y)"
  by (induction fs) (auto simp: gr0_conv_Suc dest: handle_count)

lemma pty_read_keeps:
  assumes wf: "pair_wf p" and "cnt \<noteq> 0"
  shows "\<exists>r q ks. pty_read m signal nonblock cnt cur p = (Some (r, q), ks) \<and> keeps p q"
  using read_keeps [OF assms, of signal nonblock] master_read_keeps [OF wf, of signal nonblock cnt] wf
  by (cases "pty_master_read signal nonblock cnt p") (auto simp: pty_read_def tty_read_def)

lemma pty_write_file_keeps:
  assumes wf: "pair_wf p"
  shows "\<exists>w ks q. pty_write_file m signal nonblock buf cur p = Some (w, ks, q) \<and> keeps p q"
  using master_write_keeps [OF wf, of signal nonblock buf 0] write_rest_keeps [OF wf, of nonblock signal buf 0] wf
  by (auto simp: pty_write_file_def tty_write_def split: prod.splits option.splits)

lemma pty_ioctl_keeps:
  assumes "pair_wf p" "cmd_ok cmd"
  shows "\<exists>r ks ts q. pty_ioctl m va cmd me tasks p = Some (r, ks, ts, q) \<and> keeps p q"
  using ioctl_keeps [OF assms, of va me tasks] master_ioctl_keeps [OF assms, of va me tasks] by (simp add: pty_ioctl_def)

lemma pty_step_inv: "pty_step s t \<Longrightarrow> pty_inv s \<Longrightarrow> pty_inv t"
proof (induction rule: pty_step.induct)
  case (opened dev ds noctty cur P f cur' P' fs)
  then show ?case using open_inv [OF opened.prems opened.hyps] by simp
next
  case (refused dev ds noctty cur P e cur' P' fs)
  then show ?case using open_inv [OF refused.prems refused.hyps] by simp
next
  case (dup f fs ds dev noctty cur P f' cur' P')
  obtain m i where f: "f = (m, i)" by fastforce
  have i: "i < NR_PTYS" using pty_inv_handle [OF dup.prems] dup.hyps(1) f by simp
  obtain q where q: "pty_dup_open m (P ! i) = Inr q" "P' = P[i := q]" "f' = (m, i)"
    using dup.hyps(2) f by (auto simp: pty_open_def split: sum.splits)
  from dup_inv [OF pty_invD [OF dup.prems i] q(1) handle_count] dup.hyps(1) f show ?case
    unfolding q(2,3) by (intro pty_inv_add [OF dup.prems i]) (auto split: if_splits)
next
  case (bound i noctty cur P cur' q fs)
  from bind_inv [OF pty_invD [OF bound.prems bound.hyps(1)] bound.hyps(2)] show ?case
    by (intro pty_inv_add [OF bound.prems bound.hyps(1)]) simp
next
  case (control i noctty cur P cur' q fs)
  have "pair_wf (P ! i)" using pty_invD [OF control.prems control.hyps(1)] by (simp add: pair_inv_def)
  from try_set_controlling_keeps [OF this control.hyps(2)] show ?case
    by (rule pty_inv_keeps [OF control.prems control.hyps(1)])
next
  case (closed m i fs P ks q)
  have i: "i < NR_PTYS" using pty_inv_handle [OF closed.prems closed.hyps(1)] .
  from release_inv [OF pty_invD [OF closed.prems i] handle_count [OF closed.hyps(1)]] closed.hyps(2) show ?case
    by (intro pty_inv_upd [OF closed.prems i]) (auto simp: count_list_remove1 split: if_splits dest: set_remove1_subset [THEN subsetD])
next
  case (reads m i fs cnt signal nonblock cur P r q ks)
  show ?case
    using pty_read_keeps [OF _ reads.hyps(2), of "P ! i" m signal nonblock cur] reads.hyps(3)
    by (intro pty_inv_call [OF reads.prems reads.hyps(1)]) auto
next
  case (reads_on i fs cnt signal nonblock P r q)
  show ?case
    using read_keeps [OF _ reads_on.hyps(2), of "P ! i" signal nonblock] reads_on.hyps(3)
    by (intro pty_inv_call [OF reads_on.prems reads_on.hyps(1)]) auto
next
  case (writes m i fs signal nonblock buf cur P w ks q)
  show ?case
    using pty_write_file_keeps [of "P ! i" m signal nonblock buf cur] writes.hyps(2)
    by (intro pty_inv_call [OF writes.prems writes.hyps(1)]) auto
next
  case (writes_on i fs signal nonblock buf k P w ks q)
  show ?case
    using master_write_keeps [of "P ! i" signal nonblock buf k] writes_on.hyps(2)
    by (intro pty_inv_call [OF writes_on.prems writes_on.hyps(1)]) auto
next
  case (slave_writes_on i fs nonblock signal k out dn rest P w q)
  show ?case
    using write_resume_keeps [of "P ! i" nonblock signal k out dn rest] slave_writes_on.hyps(2)
    by (intro pty_inv_call [OF slave_writes_on.prems slave_writes_on.hyps(1)]) auto
next
  case (ioctl m i fs cmd va me tasks P r ks ts q)
  show ?case
    using pty_ioctl_keeps [OF _ ioctl.hyps(2), of "P ! i" m va me tasks] ioctl.hyps(3)
    by (intro pty_inv_call [OF ioctl.prems ioctl.hyps(1)]) auto
qed

lemma pty_reach_inv: "pty_step\<^sup>*\<^sup>* s t \<Longrightarrow> pty_inv s \<Longrightarrow> pty_inv t"
  by (induction rule: rtranclp_induct) (auto intro: pty_step_inv)

text \<open>The table after start-up.\<close>

lemma pty_init_one_inv:
  assumes "length pg1 = 4096" "length pg2 = 4096"
  shows "\<exists>p. pty_init_one (Some pg1) (Some pg2) i = Some p \<and> pair_inv 0 0 p"
proof -
  let ?z = "\<lparr>rb_data = None, rb_size = 0, rb_head = 0, rb_tail = 0, rb_len = 0\<rparr>"
  obtain o1 where o1: "ring_buffer_init (Some pg1) ?z = (Inr (), o1)" "rb_inv o1" "rb_size o1 = 4096"
    using ring_buffer_init_inv [OF assms(1), of ?z] by (metis prod.exhaust)
  obtain o2 where o2: "ring_buffer_init (Some pg2) ?z = (Inr (), o2)" "rb_inv o2" "rb_size o2 = 4096"
    using ring_buffer_init_inv [OF assms(2), of ?z] by (metis prod.exhaust)
  show ?thesis
    by (simp add: pty_init_one_def o1 o2 tty_init_struct_def Let_def tty.defs pty_pair.defs pair_inv_def pair_wf_def
        default_termios_def)
qed

lemma pty_inits_inv:
  assumes "\<And>k. \<exists>pg. page k = Some pg \<and> length pg = 4096"
  shows "\<exists>P. pty_inits page js = Some P \<and> length P = length js \<and> (\<forall>p \<in> set P. pair_inv 0 0 p)"
proof (induction js)
  case (Cons i js)
  obtain pg1 pg2 where pg: "page (2 * i) = Some pg1" "length pg1 = 4096" "page (2 * i + 1) = Some pg2" "length pg2 = 4096"
    using assms by blast
  from pty_init_one_inv [OF pg(2,4), of i] Cons show ?case
    using pg by auto
qed simp

lemma pty_init_inv:
  assumes "\<And>k. \<exists>pg. page k = Some pg \<and> length pg = 4096"
  shows "\<exists>P. pty_init page ds = Some (P, pty_driver # ds) \<and> pty_inv (P, [])"
  using pty_inits_inv [OF assms, where js = "[0..<NR_PTYS]"]
  by (fastforce simp: pty_init_def register_tty_driver_def pty_inv_def)

section \<open>Properties\<close>

text \<open>The two ways a terminal receives a character agree. On a pair in use, \<^verbatim>\<open>tty_receive_c_atomic\<close> always
  returns; when it fails, nothing has changed and no signal or wake-up is due; and unless it finds the
  output ring too full for the echo, \<^verbatim>\<open>tty_receive_c\<close> with the driver of the pair has the same result, sends the same
  signal, wakes readers in the same cases and leaves the same input, the same output and the same settings.\<close>

theorem pty_receive_agree:
  assumes ok: "pair_ok p" and live: "tty_count p \<noteq> 0" "master_open p \<noteq> 0" "\<not> hung_up p"
  shows "\<exists>r. tty_receive_c_atomic c (p_output p) p = Some r \<and>
    (\<forall>e. r_result r = Inl e \<longrightarrow> e = EAGAIN \<and> rb_list (read_buf (r_tty r)) = rb_list (read_buf p) \<and> r_output r = p_output p \<and>
       pty_others (r_tty r) = pty_others p \<and> signal_no r = 0 \<and> \<not> wake_read r) \<and>
    (\<not> output_full r \<longrightarrow>
       (\<exists>p'. tty_receive_c pty_write c p =
          Some (map_sum id (\<lambda>_. wake_read r) (r_result r),
                if signal_no r \<noteq> 0 then [(signal_pgrp r, signal_no r, False)] else [], p') \<and>
        rb_list (read_buf p') = rb_list (read_buf (r_tty r)) \<and> rb_list (p_output p') = rb_list (r_output r) \<and>
        pty_others p' = pty_others (r_tty r)))"
proof -
  let ?T = "tty_termios p" and ?xs = "rb_list (read_buf p)"
  have inv: "rb_inv (read_buf p)" using ok by (simp add: pair_ok_def)
  obtain r where r: "tty_receive_c_atomic c (p_output p) p = Some r"
    using receive_atomic_eq [OF live(1,3) inv refl refl, of c "p_output p"] by (auto split: if_splits)
  note law = atomic_law [OF ok live(1,3) refl refl r]
  show ?thesis
  proof (cases "pushes ?T c \<and> ring_buffer_full (read_buf p)")
    case True
    then have "tty_receive_c pty_write c p = Some (Inl EAGAIN, [], p)"
      using receive_c_eq [OF live(1) inv refl refl, of pty_write c] by simp
    then show ?thesis using law(1) [OF True] r by (simp add: not_received_def)
  next
    case no: False
    show ?thesis
    proof (cases "pty_room p < length (echoed ?T c ?xs)")
      case True
      then show ?thesis using law(2) [OF no True] r by (auto simp: not_received_def)
    next
      case False
      then have room: "length (echoed ?T c ?xs) \<le> pty_room p" by simp
      have part: "length ?xs < unat (rb_size (read_buf p))" if "pushes ?T c"
        using that no inv ring_buffer_full_iff [OF inv] by (auto simp: rb_inv_def word_le_nat_alt)
      show ?thesis
        using law(3) [OF no room] receive_law [OF ok live(1,2) refl refl room no] r ring_edit_law(3) [OF inv part] by auto
    qed
  qed
qed

text \<open>C39: Typing at a terminal in its default mode. When the input fits, the master's write takes every byte; the pending
  input, the screen and the signals sent to the foreground group are those of the reference editor \<^const>\<open>cook\<close>, which
  erases with DEL, turns a return into a new line and makes signals of the three interrupt keys; the
  master reads the screen back; and a read of the slave returns exactly the first line, with its new line but
  without an end-of-file character, and keeps what follows, or waits when no line is complete.\<close>

theorem pty_typed_input:
  assumes ok: "pair_ok p" and live: "tty_count p \<noteq> 0" "slave_open p \<noteq> 0" "\<not> hung_up p"
    and T: "tty_termios p = default_termios" and sizes: "rb_size (read_buf p) = 4096" "rb_size (p_output p) = 4096"
    and fits: "length (rb_list (read_buf p)) + length bs < 4096" "rb_list (p_output p) = []" "3 * length bs \<le> 4096"
    and typed: "foldl cook (rb_list (read_buf p), [], []) bs = (ys, scr, sigs)"
  shows "\<exists>p'. pty_master_write signal nonblock bs 0 p =
      Some (Wret (Inr (length bs)), map (\<lambda>s. (tty_pgrp p, s, False)) sigs, p') \<and>
    (scr \<noteq> [] \<longrightarrow> fst (pty_master_read signal nonblock 4096 p') = Ret (Inr scr)) \<and>
    (if typed_line ys = ys then tty_read_try False nonblock 4096 p' = Some (if nonblock then Ret (Inl EAGAIN) else Sleep, p')
     else \<exists>q. tty_read_try False nonblock 4096 p' =
            Some (Ret (Inr (if ys ! length (typed_line ys) = 4 then typed_line ys
                            else typed_line ys @ [ys ! length (typed_line ys)])), q) \<and>
          rb_list (read_buf q) = drop (length (typed_line ys) + 1) ys)"
proof -
  have "length (rb_list (read_buf p)) + length bs \<le> unat (rb_size (read_buf p))" "3 * length bs \<le> pty_room p"
    using fits sizes by (simp_all add: pty_room_def)
  from master_write_cooked [OF ok live T this typed, of signal nonblock 0] obtain p' where
    p': "pty_master_write signal nonblock bs 0 p = Some (Wret (Inr (length bs)), map (\<lambda>s. (tty_pgrp p, s, False)) sigs, p')"
    "pair_ok p'" "rb_list (read_buf p') = ys" "rb_size (read_buf p') = 4096" "rb_list (p_output p') = scr" "pty_others p' = pty_others p"
    and sz: "rb_size (p_output p') = 4096"
    using sizes fits by auto
  note same = pty_othersD [OF p'(6)]
  have inv: "rb_inv (read_buf p')" "rb_inv (p_output p')" using p'(2) by (simp_all add: pair_ok_def)
  have len: "length ys < 4096" using cook_length [of "rb_list (read_buf p)" "[]" "[]" bs] typed fits(1) by simp
  obtain rb out n where rd: "ring_buffer_read (p_output p') 4096 = (rb, out, n)" by (metis prod.exhaust)
  have "length scr \<le> 4096"
    using length_rb_list [OF inv(2)] inv(2) p'(5) sz by (auto simp: rb_inv_def word_le_nat_alt)
  then have "fst (pty_master_read signal nonblock 4096 p') = Ret (Inr scr)" if "scr \<noteq> []"
    using that ring_buffer_read_law(4) [OF inv(2) rd] rd ring_buffer_empty_iff [OF inv(2)] p'(5)
    by (simp add: pty_master_read_def)
  with p'(1) read_line [OF inv(1) _ _ p'(4,3) len, of nonblock] same T live(3) show ?thesis
    by (intro exI [of _ p'] conjI) simp_all
qed

text \<open>C40: Whatever processes do with pseudo terminals after start-up (open the master or a slave, duplicate and close
  files, read, write, also after sleeping, control them, make them controlling terminals), the table stays well formed: of
  each pair the rings are well formed and of one page, the numbers of open masters and slaves are the numbers of
  such files, the count of the terminal is the number of slaves and one more while a master is open, the
  pair is free exactly when no file is open on it, and a pair in use is hung up exactly when no master is open.
  So no call on an open file fails an assertion.\<close>

theorem pty_table_well_formed:
  assumes pages: "\<And>k. \<exists>pg. page k = Some pg \<and> length pg = 4096"
    and init: "pty_init page ds = Some (P\<^sub>0, ds')" and reach: "pty_step\<^sup>*\<^sup>* (P\<^sub>0, []) (P, fs)"
  shows "length P = 32 \<and>
    (\<forall>i<32. pair_wf (P ! i) \<and> master_open (P ! i) = int (count_list fs (True, i)) \<and>
       slave_open (P ! i) = int (count_list fs (False, i)) \<and>
       tty_count (P ! i) = (if (True, i) \<in> set fs then 1 else 0) + int (count_list fs (False, i)) \<and>
       (p_state (P ! i) = PTY_FREE \<longleftrightarrow> (True, i) \<notin> set fs \<and> (False, i) \<notin> set fs) \<and>
       (p_state (P ! i) = PTY_ALLOCATED \<longrightarrow> (hung_up (P ! i) \<longleftrightarrow> (True, i) \<notin> set fs))) \<and>
    (\<forall>(m, i) \<in> set fs. pty_release m (P ! i) \<noteq> None \<and>
       (\<forall>signal nonblock cnt cur. cnt \<noteq> 0 \<longrightarrow> fst (pty_read m signal nonblock cnt cur (P ! i)) \<noteq> None) \<and>
       (\<forall>signal nonblock buf cur. pty_write_file m signal nonblock buf cur (P ! i) \<noteq> None) \<and>
       (\<forall>va cmd me tasks. cmd_ok cmd \<longrightarrow> pty_ioctl m va cmd me tasks (P ! i) \<noteq> None))"
proof -
  have inv: "pty_inv (P, fs)"
    using pty_init_inv [where page = page and ds = ds, OF pages] init by (intro pty_reach_inv [OF reach]) auto
  have pairs: "\<forall>i<32. pair_inv (count_list fs (True, i)) (count_list fs (False, i)) (P ! i)"
    using pty_invD [OF inv] by blast
  have "pty_release m (P ! i) \<noteq> None \<and>
       (\<forall>signal nonblock cnt cur. cnt \<noteq> 0 \<longrightarrow> fst (pty_read m signal nonblock cnt cur (P ! i)) \<noteq> None) \<and>
       (\<forall>signal nonblock buf cur. pty_write_file m signal nonblock buf cur (P ! i) \<noteq> None) \<and>
       (\<forall>va cmd me tasks. cmd_ok cmd \<longrightarrow> pty_ioctl m va cmd me tasks (P ! i) \<noteq> None)" if f: "(m, i) \<in> set fs" for m i
  proof -
    have i: "pair_inv (count_list fs (True, i)) (count_list fs (False, i)) (P ! i)"
      using pairs pty_inv_handle [OF inv f] by blast
    then have wf: "pair_wf (P ! i)" by (simp add: pair_inv_def)
    show ?thesis
      using release_inv [OF i handle_count [OF f]] pty_read_keeps [OF wf] pty_write_file_keeps [OF wf] pty_ioctl_keeps [OF wf]
      by (metis fst_conv option.distinct(1))
  qed
  moreover have "length P = 32" using inv by (simp add: pty_inv_def)
  ultimately show ?thesis
    using pairs by (auto simp: pair_inv_def count_list_0_iff)
qed

section \<open>Examples\<close>

text \<open>The first pair after start-up, with the master and one slave open.\<close>

definition zero_page :: "u8 list" where
  "zero_page = replicate 4096 0"

definition pty_example :: pty_pair where
  "pty_example = (fresh_pair (the (pty_init_one (Some zero_page) (Some zero_page) 0)))\<lparr>slave_open := 1, tty_count := 2\<rparr>"

lemma pty_example_facts:
  "pair_ok pty_example" "rb_size (read_buf pty_example) = 4096" "rb_size (p_output pty_example) = 4096"
  "rb_list (read_buf pty_example) = []" "rb_list (p_output pty_example) = []" "tty_count pty_example = 2"
  "master_open pty_example = 1" "slave_open pty_example = 1" "\<not> hung_up pty_example" "tty_termios pty_example = default_termios"
proof -
  have page: "length zero_page = 4096" by (simp add: zero_page_def)
  obtain p where p: "pty_init_one (Some zero_page) (Some zero_page) 0 = Some p" "pair_inv 0 0 p"
    using pty_init_one_inv [OF page page] by blast
  then have wf: "rb_inv (read_buf p)" "rb_inv (p_output p)" "rb_size (read_buf p) = 4096" "rb_size (p_output p) = 4096"
    by (simp_all add: pair_inv_def pair_wf_def)
  then show "pair_ok pty_example" "rb_list (read_buf pty_example) = []" "rb_list (p_output pty_example) = []"
    using ring_buffer_clear_inv by (simp_all add: pty_example_def p fresh_pair_def pair_ok_def)
  show "rb_size (read_buf pty_example) = 4096" "rb_size (p_output pty_example) = 4096"
    using wf by (simp_all add: pty_example_def p fresh_pair_def ring_buffer_clear_def)
  show "tty_count pty_example = 2" "master_open pty_example = 1" "slave_open pty_example = 1" "\<not> hung_up pty_example"
    "tty_termios pty_example = default_termios"
    by (simp_all add: pty_example_def fresh_pair_def)
qed

theorem pty_receive_agree_witness:
  "\<exists>r p'. tty_receive_c_atomic 0x61 (p_output pty_example) pty_example = Some r \<and> r_result r = Inr () \<and>
     tty_receive_c pty_write 0x61 pty_example = Some (Inr (wake_read r), [], p') \<and> rb_list (p_output p') = [0x61]"
proof -
  note ex = pty_example_facts
  have n: "tty_count pty_example \<noteq> 0" "master_open pty_example \<noteq> 0" using ex by simp_all
  from pty_receive_agree [OF ex(1) n ex(9), where c = "0x61"] obtain r where r: "tty_receive_c_atomic 0x61 (p_output pty_example) pty_example = Some r"
    and same: "\<not> output_full r \<longrightarrow> (\<exists>p'. tty_receive_c pty_write 0x61 pty_example =
          Some (map_sum id (\<lambda>_. wake_read r) (r_result r),
                if signal_no r \<noteq> 0 then [(signal_pgrp r, signal_no r, False)] else [], p') \<and>
        rb_list (read_buf p') = rb_list (read_buf (r_tty r)) \<and> rb_list (p_output p') = rb_list (r_output r) \<and>
        pty_others p' = pty_others (r_tty r))"
    by blast
  have "\<not> (pushes default_termios 0x61 \<and> ring_buffer_full (read_buf pty_example))"
    using ex ring_buffer_full_iff [of "read_buf pty_example"] by (simp add: pair_ok_def)
  moreover have "length (echoed default_termios 0x61 []) \<le> pty_room pty_example"
    using ex by (simp add: pty_room_def default_echoed)
  ultimately have law: "r_result r = Inr ()" "\<not> output_full r" "rb_list (r_output r) = [0x61]"
      "(if signal_no r \<noteq> 0 then [(signal_pgrp r, signal_no r, False)] else []) = typed_kills default_termios (tty_pgrp pty_example) 0x61"
    using atomic_law(3) [OF ex(1) n(1) ex(9,10,4) r] ex(5) by (simp_all add: default_echoed)
  have "typed_kills default_termios (tty_pgrp pty_example) 0x61 = []" by (simp add: typed_kills_def default_typed)
  with law same r show ?thesis by auto
qed

theorem pty_typed_input_witness:
  "\<exists>p' q. pty_master_write False False [0x68, 0x6a, 0x7f, 0x69, 0x0d, 3, 0x78] 0 pty_example =
       Some (Wret (Inr 7), [(tty_pgrp pty_example, SIGINT, False)], p') \<and>
     tty_read_try False False 4096 p' = Some (Ret (Inr [0x68, 0x69, NL]), q) \<and> rb_list (read_buf q) = [0x78]"
proof -
  note ex = pty_example_facts
  let ?bs = "[0x68, 0x6a, 0x7f, 0x69, 0x0d, 3, 0x78] :: u8 list"
  have n: "tty_count pty_example \<noteq> 0" "slave_open pty_example \<noteq> 0" using ex by simp_all
  have l: "length (rb_list (read_buf pty_example)) + length ?bs < 4096" "3 * length ?bs \<le> 4096" using ex by simp_all
  have f: "foldl cook (rb_list (read_buf pty_example), [], []) ?bs =
      ([0x68, 0x69, NL, 0x78], [0x68, 0x6a, 8, 32, 8, 0x69, CR, NL, 0x5e, 0x43, 0x78], [SIGINT])"
    unfolding ex(4) by code_simp
  have t: "typed_line [0x68, 0x69, NL, 0x78] = [0x68, 0x69]" by (simp add: typed_line_def)
  have "length ?bs = 7" by simp
  from pty_typed_input [OF ex(1) n ex(9,10,2,3) l(1) ex(5) l(2) f, of False False, unfolded t this] show ?thesis
    by (auto simp del: pty_master_write.simps)
qed

theorem pty_table_well_formed_witness:
  "\<exists>P\<^sub>0 P. pty_init (\<lambda>_. Some zero_page) [] = Some (P\<^sub>0, [pty_driver]) \<and> pty_step\<^sup>*\<^sup>* (P\<^sub>0, []) (P, [(True, 0)]) \<and>
     master_open (P ! 0) = 1 \<and> pty_release True (P ! 0) \<noteq> None"
proof -
  have pages: "\<exists>pg. (\<lambda>_. Some zero_page) k = Some pg \<and> length pg = 4096" for k :: nat by (simp add: zero_page_def)
  obtain P0 where P0: "pty_init (\<lambda>_. Some zero_page) [] = Some (P0, [pty_driver])" "pty_inv (P0, [])"
    using pty_init_inv [where page = "\<lambda>_. Some zero_page" and ds = "[]", OF pages] by blast
  have "p_state (P0 ! 0) = PTY_FREE" using pty_invD [OF P0(2), of 0] by (simp add: pair_inv_def)
  then have "find (\<lambda>i. p_state (P0 ! i) = PTY_FREE) [0..<NR_PTYS] = Some 0" by (simp add: upt_conv_Cons)
  moreover have "MAJOR 0x4ff = 4" "MINOR 0x4ff = PTMX_MINOR" by code_simp+
  ultimately have "pty_open [pty_driver] None 0x4ff False \<lparr>t_pid = 1, t_leader = True, t_session = 1, t_pgrp = 1, t_tty = None\<rparr> P0 =
      (Inr (True, 0), \<lparr>t_pid = 1, t_leader = True, t_session = 1, t_pgrp = 1, t_tty = None\<rparr>, P0[0 := fresh_pair (P0 ! 0)])"
    by (simp add: pty_open_def pty_master_open_def)
  moreover define Q where "Q = P0[0 := fresh_pair (P0 ! 0)]"
  ultimately have step: "pty_step\<^sup>*\<^sup>* (P0, []) (Q, [(True, 0)])"
    using \<open>MAJOR 0x4ff = 4\<close> by (blast intro: pty_step.opened)
  from pty_table_well_formed [OF pages P0(1) step] have "master_open (Q ! 0) = 1" "pty_release True (Q ! 0) \<noteq> None"
    by auto
  with P0(1) step show ?thesis by blast
qed

text \<open>Erasing does not stop at the end of a line: the key takes the new line off a line that a reader could
  already have.\<close>

lemma erase_reopens_line:
  "foldl cook ([], [], []) [0x61, NL] = ([0x61, NL], [0x61, CR, NL], [])"
  "foldl cook ([], [], []) [0x61, NL, 0x7f] = ([0x61], [0x61, CR, NL, 8, 32, 8], [])"
  by code_simp+

text \<open>The end-of-file character is dropped from the end of what a read returns in every mode.\<close>

lemma raw_read_drops_eof:
  assumes "rb_inv (read_buf tty)" "\<not> has (c_lflag (tty_termios tty)) ICANON" "c_cc (tty_termios tty) ! VEOF = 4"
    "rb_list (read_buf tty) = [0x61, 4]"
  shows "\<exists>q. tty_read_try False nonblock 16 tty = Some (Ret (Inr [0x61]), q)"
  using tty_read_try_law(2) [OF assms(1), of 16 nonblock] assms by (auto simp: readable_def strip_eof_def)

text \<open>A write that may not block and finds room for one byte reports that nothing was written, but has sent the return
  that goes before a new line; the caller's next attempt sends it again.\<close>

lemma nonblocking_write_repeats_return:
  assumes "rb_inv (p_output p) \<and> master_open p \<noteq> 0" "pty_room p = 1" "tty_termios p = default_termios" "\<not> hung_up p" "t_tty cur = None"
  shows "\<exists>q. tty_write pty_write True False [NL] cur p = (Some (Wret (Inl EAGAIN), q), []) \<and>
    rb_list (p_output q) = rb_list (p_output p) @ [CR]"
proof -
  have o: "tty_output_char p NL = [CR, NL]" using assms by (simp add: tty_output_char_def)
  obtain r q where w: "pty_write [CR, NL] p = (r, q)" by fastforce
  from pt.takes [OF assms(1) _ w] assms(2) obtain n where "r = Inr n" "unat n = 1" "rb_list (p_output q) = rb_list (p_output p) @ [CR]"
    by auto
  then show ?thesis
    using assms w by (simp add: tty_write_def tty_check_def o write_out_def Let_def)
qed

end
