(* ===== verification/List_Head.thy ===== *)
theory List_Head
  imports Prelude
begin

text \<open>
  Linked lists: \<^verbatim>\<open>src/src/include/lib/list.h\<close>. A list is a ring of nodes through a head, kept in the fields
  \<^verbatim>\<open>next\<close> and \<^verbatim>\<open>prev\<close> of every node. Nodes are addresses and the fields are two maps, so nodes that alias or carry
  copied links behave as in memory. The second part relates a ring to the list of its nodes: the operations are
  insertion, removal and search on that list.
\<close>

section \<open>Model\<close>

type_synonym addr = u32

abbreviation (input) NULL :: addr where "NULL \<equiv> 0"

record links =
  l_next :: "addr \<Rightarrow> addr"
  l_prev :: "addr \<Rightarrow> addr"

definition INIT_LIST_HEAD :: "addr \<Rightarrow> links \<Rightarrow> links" where
  "INIT_LIST_HEAD ptr s = s\<lparr>l_next := (l_next s)(ptr := ptr), l_prev := (l_prev s)(ptr := ptr)\<rparr>"

text \<open>The four assignments in the order of the code.\<close>

definition list_link :: "addr \<Rightarrow> addr \<Rightarrow> addr \<Rightarrow> links \<Rightarrow> links" where
  "list_link new prev nxt s =
     (let s = s\<lparr>l_prev := (l_prev s)(nxt := new)\<rparr>;
          s = s\<lparr>l_next := (l_next s)(new := nxt)\<rparr>;
          s = s\<lparr>l_prev := (l_prev s)(new := prev)\<rparr>
      in s\<lparr>l_next := (l_next s)(prev := new)\<rparr>)"

definition list_add :: "addr \<Rightarrow> addr \<Rightarrow> links \<Rightarrow> links" where
  "list_add new head s = list_link new head (l_next s head) s"

definition list_add_tail :: "addr \<Rightarrow> addr \<Rightarrow> links \<Rightarrow> links" where
  "list_add_tail new head s = list_link new (l_prev s head) head s"

definition list_unlink :: "addr \<Rightarrow> addr \<Rightarrow> links \<Rightarrow> links" where
  "list_unlink prev nxt s = (let s = s\<lparr>l_prev := (l_prev s)(nxt := prev)\<rparr> in s\<lparr>l_next := (l_next s)(prev := nxt)\<rparr>)"

definition list_del :: "addr \<Rightarrow> links \<Rightarrow> links" where
  "list_del entry s = list_unlink (l_prev s entry) (l_next s entry) s"

definition list_del_init :: "addr \<Rightarrow> links \<Rightarrow> links" where
  "list_del_init entry s = INIT_LIST_HEAD entry (list_unlink (l_prev s entry) (l_next s entry) s)"

definition list_empty :: "addr \<Rightarrow> links \<Rightarrow> bool" where
  "list_empty head s \<longleftrightarrow> l_next s head = head"

definition list_splice :: "addr \<Rightarrow> addr \<Rightarrow> links \<Rightarrow> links" where
  "list_splice lst head s =
     (let first = l_next s lst
      in if first \<noteq> lst
         then let last = l_prev s lst; at = l_next s head;
                  s = s\<lparr>l_prev := (l_prev s)(first := head)\<rparr>;
                  s = s\<lparr>l_next := (l_next s)(head := first)\<rparr>;
                  s = s\<lparr>l_next := (l_next s)(last := at)\<rparr>
              in s\<lparr>l_prev := (l_prev s)(at := last)\<rparr>
         else s)"

text \<open>The loop \<^verbatim>\<open>list_for_each\<close> that is left at the first node with a property: the position it ends at, the head when it
  runs to the end.\<close>

partial_function (option) scan_from :: "(addr \<Rightarrow> bool) \<Rightarrow> addr \<Rightarrow> addr \<Rightarrow> links \<Rightarrow> addr option" where
  "scan_from stop head pos s =
     (if pos = head then Some pos else if stop pos then Some pos else scan_from stop head (l_next s pos) s)"

definition list_scan :: "(addr \<Rightarrow> bool) \<Rightarrow> addr \<Rightarrow> links \<Rightarrow> addr option" where
  "list_scan stop head s = scan_from stop head (l_next s head) s"

section \<open>Rings as lists\<close>

fun linked :: "links \<Rightarrow> addr list \<Rightarrow> bool" where
  "linked s (a # b # r) \<longleftrightarrow> l_next s a = b \<and> l_prev s b = a \<and> linked s (b # r)"
| "linked s _ \<longleftrightarrow> True"

definition ring :: "links \<Rightarrow> addr \<Rightarrow> addr list \<Rightarrow> bool" where
  "ring s h xs \<longleftrightarrow> distinct (h # xs) \<and> NULL \<notin> set (h # xs) \<and> linked s (h # xs @ [h])"

lemma linked_append: "linked s (xs @ a # ys) \<longleftrightarrow> linked s (xs @ [a]) \<and> linked s (a # ys)"
  by (induction xs rule: induct_list012) auto

lemma linked_cong:
  assumes "\<forall>x \<in> set (butlast xs). l_next s' x = l_next s x" "\<forall>x \<in> set (tl xs). l_prev s' x = l_prev s x"
  shows "linked s' xs \<longleftrightarrow> linked s xs"
  using assms by (induction xs rule: induct_list012) auto

text \<open>A place in a ring: the node before it and the node at it.\<close>

lemma ring_place:
  assumes "ring s h (xs @ ys)"
  obtains ps a b qs where "h # xs = ps @ [a]" "ys @ [h] = b # qs" "linked s (ps @ [a])" "l_next s a = b" "l_prev s b = a" "linked s (b # qs)"
    "distinct (ps @ [a])" "a \<notin> set ps" "b \<notin> set (tl (ps @ [a]))" "distinct (b # qs)" "a \<notin> set (butlast (b # qs))"
proof -
  obtain ps a where p: "h # xs = ps @ [a]" by (metis list.discI rev_exhaust)
  obtain b qs where q: "ys @ [h] = b # qs" by (cases ys) auto
  have eq: "h # (xs @ ys) @ [h] = ps @ a # b # qs" using arg_cong2 [OF p q, of append] by simp
  have l: "linked s (ps @ a # b # qs)" "distinct (h # xs @ ys)" using assms unfolding ring_def eq by auto
  have d: "distinct (ps @ [a])" "distinct (b # qs)" unfolding p [symmetric] q [symmetric] using l(2) by auto
  have "b \<notin> set (tl (ps @ [a]))" "a \<notin> set (butlast (b # qs))"
  proof -
    have "b \<in> set (ys @ [h])" "a \<in> set (h # xs)" unfolding p q by simp_all
    then show "b \<notin> set (tl (ps @ [a]))" "a \<notin> set (butlast (b # qs))" unfolding p [symmetric] q [symmetric] using l(2) by auto
  qed
  then show thesis using that [of ps a b qs] p q l d linked_append [of s ps a "b # qs"] by auto
qed

lemma linked_join:
  assumes "linked s' (ps @ [a])" "linked s' (b # qs)" "l_next s' a = b" "l_prev s' b = a"
  shows "linked s' (ps @ a # b # qs)"
  using assms linked_append [of s' ps a "b # qs"] by simp

lemma list_add_tail_ring:
  assumes r: "ring s h (xs @ ys)" and n: "n \<notin> set (h # xs @ ys)" "n \<noteq> NULL"
  shows "ring (list_add_tail n (hd (ys @ [h])) s) h (xs @ n # ys)"
proof -
  obtain ps a b qs where p: "h # xs = ps @ [a]" "ys @ [h] = b # qs" "linked s (ps @ [a])" "l_next s a = b" "l_prev s b = a" "linked s (b # qs)"
    "distinct (ps @ [a])" "a \<notin> set ps" "b \<notin> set (tl (ps @ [a]))" "distinct (b # qs)" "a \<notin> set (butlast (b # qs))"
    by (rule ring_place [OF r])
  let ?s = "list_add_tail n b s"
  have sets: "set (ps @ [a]) = set (h # xs)" "set (b # qs) = set (ys @ [h])" unfolding p(1,2) by simp_all
  have n': "n \<notin> set (ps @ [a])" "n \<notin> set (b # qs)" unfolding sets using n(1) by auto
  have nx: "l_next ?s = (l_next s)(n := b, a := n)" and pv: "l_prev ?s = (l_prev s)(b := n, n := a)"
    by (simp_all add: list_add_tail_def list_link_def Let_def p(5))
  have ab: "n \<noteq> a" "n \<noteq> b" using n' by auto
  have "n \<notin> set (tl (ps @ [a]))" using n'(1) by (cases ps) auto
  then have "linked ?s (ps @ [a])"
    by (intro linked_cong [THEN iffD2, OF _ _ p(3)]) (use n'(1) p(8,9) in \<open>auto simp: nx pv\<close>)
  moreover have "linked ?s (b # qs)"
    by (intro linked_cong [THEN iffD2, OF _ _ p(6)]) (use n'(2) p(10,11) in \<open>auto simp: nx pv dest: in_set_butlastD\<close>)
  ultimately have "linked ?s (ps @ a # n # b # qs)" using ab linked_append [of ?s ps a "n # b # qs"] by (simp add: nx pv)
  moreover have "ps @ a # n # b # qs = h # (xs @ n # ys) @ [h]" using p(1,2) by (metis append.assoc append_Cons append_Nil)
  moreover have "hd (ys @ [h]) = b" using p(2) by simp
  ultimately show ?thesis using r n by (auto simp: ring_def)
qed

lemma list_del_ring:
  assumes r: "ring s h (xs @ n # ys)"
  shows "ring (list_del n s) h (xs @ ys)"
    "l_next (list_del n s) n = l_next s n" "x \<notin> set (h # xs @ ys) \<Longrightarrow> l_next (list_del n s) x = l_next s x \<and> l_prev (list_del n s) x = l_prev s x"
proof -
  obtain ps a where p: "h # xs = ps @ [a]" by (metis list.discI rev_exhaust)
  obtain b qs where q: "ys @ [h] = b # qs" by (cases ys) auto
  have eq: "h # (xs @ n # ys) @ [h] = ps @ a # n # b # qs" using arg_cong2 [OF p arg_cong [OF q, of "(#) n"], of append] by simp
  have l: "linked s (ps @ a # n # b # qs)" and d: "distinct (h # xs @ n # ys)" using r unfolding ring_def eq by auto
  have P: "linked s (ps @ [a])" "l_next s a = n" "l_prev s n = a" "l_next s n = b" "l_prev s b = n" "linked s (b # qs)"
    using l linked_append [of s ps a "n # b # qs"] by auto
  have sets: "set (ps @ [a]) = insert h (set xs)" "set (b # qs) = insert h (set ys)" "set (tl (ps @ [a])) = set xs" "butlast (b # qs) = ys"
    unfolding p [symmetric] q [symmetric] by simp_all
  have nx: "l_next (list_del n s) = (l_next s)(a := b)" and pv: "l_prev (list_del n s) = (l_prev s)(b := a)"
    by (simp_all add: list_del_def list_unlink_def Let_def P)
  have a: "a \<in> insert h (set xs)" "b \<in> insert h (set ys)" using sets(1,2) by auto
  have da: "a \<notin> set ps" "distinct (b # qs)"
  proof -
    have "distinct (ps @ [a])" unfolding p [symmetric] using d by auto
    then show "a \<notin> set ps" by simp
    show "distinct (b # qs)" unfolding q [symmetric] using d by auto
  qed
  have "linked (list_del n s) (ps @ [a])"
  proof -
    have "b \<notin> set xs" "a \<notin> set ps" using a(2) d da by auto
    then show ?thesis by (intro linked_cong [THEN iffD2, OF _ _ P(1)]) (use sets(3) in \<open>auto simp: nx pv\<close>)
  qed
  moreover have "linked (list_del n s) (b # qs)"
  proof -
    have "a \<notin> set ys" using a(1) d by auto
    then show ?thesis by (intro linked_cong [THEN iffD2, OF _ _ P(6)]) (use sets(4) da(2) in \<open>auto simp: nx pv simp del: butlast.simps\<close>)
  qed
  ultimately have "linked (list_del n s) (ps @ a # b # qs)" by (rule linked_join) (simp_all add: nx pv)
  moreover have "ps @ a # b # qs = h # (xs @ ys) @ [h]" using p q by (metis append.assoc append_Cons append_Nil)
  ultimately show "ring (list_del n s) h (xs @ ys)" using r by (auto simp: ring_def)
  have "n \<noteq> a" using a(1) d by auto
  then show "l_next (list_del n s) n = l_next s n" by (simp add: nx)
  show "x \<notin> set (h # xs @ ys) \<Longrightarrow> l_next (list_del n s) x = l_next s x \<and> l_prev (list_del n s) x = l_prev s x" using a by (auto simp: nx pv)
qed

lemma ring_frame:
  assumes "ring s h xs" "\<forall>x \<in> set (h # xs). l_next s' x = l_next s x \<and> l_prev s' x = l_prev s x"
  shows "ring s' h xs"
proof -
  have "linked s' (h # xs @ [h]) \<longleftrightarrow> linked s (h # xs @ [h])"
    using assms(2) by (intro linked_cong) (auto dest: in_set_butlastD)
  then show ?thesis using assms(1) by (simp add: ring_def)
qed

lemma ring_empty: "ring s h xs \<Longrightarrow> list_empty h s \<longleftrightarrow> xs = []"
  by (cases xs) (auto simp: ring_def list_empty_def)

lemma ring_next: "ring s h xs \<Longrightarrow> l_next s h = hd (xs @ [h])"
  by (cases xs) (auto simp: ring_def)

lemma ring_next_nonnull: "ring s h xs \<Longrightarrow> x \<in> set (h # xs) \<Longrightarrow> l_next s x \<noteq> NULL"
proof -
  assume r: "ring s h xs" and x: "x \<in> set (h # xs)"
  obtain ys zs where y: "h # xs = ys @ x # zs" using split_list [OF x] by blast
  then have "linked s (ys @ x # zs @ [h])" using r by (simp add: ring_def flip: append_Cons append_assoc)
  then have "l_next s x = hd (zs @ [h])" using linked_append [of s ys x "zs @ [h]"] by (cases zs) auto
  moreover have "hd (zs @ [h]) \<in> set (h # xs)" unfolding y by (cases zs; cases ys) (use y in auto)
  ultimately show ?thesis using r by (metis ring_def)
qed

text \<open>Adding before a node changes the links of the new node and its neighbours only.\<close>

lemma list_add_tail_frame:
  assumes "ring s h (xs @ ys)" "x \<notin> set (h # xs @ ys)" "x \<noteq> n"
  shows "l_next (list_add_tail n (hd (ys @ [h])) s) x = l_next s x"
proof -
  obtain ps a b qs where p: "h # xs = ps @ [a]" "ys @ [h] = b # qs" "l_prev s b = a" by (rule ring_place [OF assms(1)])
  have "a \<in> set (h # xs)" unfolding p(1) by simp
  then have "x \<noteq> a" using assms(2) by auto
  then show ?thesis using p(2,3) assms(3) by (simp add: list_add_tail_def list_link_def Let_def)
qed

text \<open>The scan stops at the first node with the property.\<close>

lemma scan_from_ring:
  "linked s (xs @ [h]) \<Longrightarrow> h \<notin> set xs \<Longrightarrow> scan_from stop h (hd (xs @ [h])) s = Some (hd (dropWhile (\<lambda>x. \<not> stop x) xs @ [h]))"
proof (induction xs)
  case Nil
  show ?case by (simp add: scan_from.simps)
next
  case (Cons x xs)
  have "linked s (xs @ [h])" "l_next s x = hd (xs @ [h])" using Cons.prems(1) by (cases xs; auto)+
  then show ?case using Cons by (subst scan_from.simps) auto
qed

lemma list_scan_ring:
  assumes "ring s h xs"
  shows "list_scan stop h s = Some (hd (dropWhile (\<lambda>x. \<not> stop x) xs @ [h]))"
proof -
  have "linked s (xs @ [h])" "h \<notin> set xs" using assms by (cases xs; auto simp: ring_def)+
  then show ?thesis using scan_from_ring ring_next [OF assms] by (simp add: list_scan_def)
qed

text \<open>Removing a node that only carries copies of the links of a member removes the member.\<close>

lemma list_del_copy:
  assumes "l_next s c = l_next s n" "l_prev s c = l_prev s n"
  shows "list_del c s = list_del n s"
  using assms by (simp add: list_del_def)

end
