(* ===== verification/Timer.thy ===== *)
theory Timer
  imports List_Head "HOL-Library.Signed_Division"
begin

text \<open>
  Kernel timers and interval timers: \<^verbatim>\<open>src/src/kernel/timer.c\<close>, \<^verbatim>\<open>schedule_timeout\<close> of \<^verbatim>\<open>kernel/sched.c\<close> and the
  copying of a timer by \<^verbatim>\<open>do_fork\<close>. The type \<^verbatim>\<open>long\<close> is a word of 32 bits that is compared as a signed number. A timer is
  the address of its \<^verbatim>\<open>struct timer_list\<close>, whose first field is the list node. The callbacks of the kernel are the
  two constructors of \<open>timer_fun\<close>; what they do outside the timers, sending a signal or waking a task, is appended
  to a log. The result of \<^verbatim>\<open>verify_area\<close> is an argument.
\<close>

section \<open>Model\<close>

abbreviation (input) HZ :: u32 where "HZ \<equiv> 100"
abbreviation (input) SIGALRM :: nat where "SIGALRM \<equiv> 14"

datatype timer_fun = It_real_fun | Process_timeout

datatype tevent = Sent nat addr | Woken addr

record itimers =
  it_real_value :: u32
  it_prof_value :: u32
  it_virt_value :: u32
  it_real_incr :: u32
  it_prof_incr :: u32
  it_virt_incr :: u32

record timer_sys =
  tlinks :: links
  timer_head :: addr
  t_expires :: "addr \<Rightarrow> u32"
  t_data :: "addr \<Rightarrow> addr"
  t_fun :: "addr \<Rightarrow> timer_fun"
  jiffies :: u32
  itim :: "addr \<Rightarrow> itimers"
  real_timer :: "addr \<Rightarrow> addr"
  tlog :: "tevent list"

subsection \<open>The list of timers\<close>

definition init_timer :: "addr \<Rightarrow> timer_sys \<Rightarrow> timer_sys" where
  "init_timer t s = s\<lparr>tlinks := (tlinks s)\<lparr>l_next := (l_next (tlinks s))(t := NULL)\<rparr>\<rparr>"

definition add_timer :: "addr \<Rightarrow> timer_sys \<Rightarrow> timer_sys option" where
  "add_timer t s =
     (let s = s\<lparr>t_expires := (t_expires s)(t := t_expires s t + jiffies s)\<rparr>
      in case list_scan (\<lambda>p. sint (t_expires s t) < sint (t_expires s p)) (timer_head s) (tlinks s) of
           None \<Rightarrow> None
         | Some tmp \<Rightarrow> Some (s\<lparr>tlinks := list_add_tail t tmp (tlinks s)\<rparr>))"

definition timer_in_list :: "addr \<Rightarrow> timer_sys \<Rightarrow> bool" where
  "timer_in_list t s \<longleftrightarrow> l_next (tlinks s) t \<noteq> NULL"

definition del_timer_now :: "addr \<Rightarrow> timer_sys \<Rightarrow> timer_sys" where
  "del_timer_now t s =
     (let s = s\<lparr>tlinks := list_del t (tlinks s)\<rparr>;
          s = s\<lparr>tlinks := (tlinks s)\<lparr>l_next := (l_next (tlinks s))(t := NULL)\<rparr>\<rparr>;
          s = s\<lparr>t_expires := (t_expires s)(t := t_expires s t - jiffies s)\<rparr>
      in if sint (t_expires s t) < 0 then s\<lparr>t_expires := (t_expires s)(t := 0)\<rparr> else s)"

definition del_timer :: "addr \<Rightarrow> timer_sys \<Rightarrow> bool \<times> timer_sys" where
  "del_timer t s = (if \<not> timer_in_list t s then (False, s) else (True, del_timer_now t s))"

definition it_real_fun :: "addr \<Rightarrow> timer_sys \<Rightarrow> timer_sys option" where
  "it_real_fun p s =
     (let s = s\<lparr>tlog := tlog s @ [Sent SIGALRM p]\<rparr>
      in if it_real_incr (itim s p) \<noteq> 0
         then add_timer (real_timer s p) (s\<lparr>t_expires := (t_expires s)(real_timer s p := it_real_incr (itim s p))\<rparr>)
         else Some s)"

definition process_timeout :: "addr \<Rightarrow> timer_sys \<Rightarrow> timer_sys" where
  "process_timeout p s = s\<lparr>tlog := tlog s @ [Woken p]\<rparr>"

definition call_timer :: "timer_fun \<Rightarrow> addr \<Rightarrow> timer_sys \<Rightarrow> timer_sys option" where
  "call_timer f d s = (case f of It_real_fun \<Rightarrow> it_real_fun d s | Process_timeout \<Rightarrow> Some (process_timeout d s))"

partial_function (option) run_timer_list :: "timer_sys \<Rightarrow> timer_sys option" where
  "run_timer_list s =
     (if list_empty (timer_head s) (tlinks s) then Some s
      else let t = l_next (tlinks s) (timer_head s)
           in if sint (t_expires s t) > sint (jiffies s) then Some s
              else let s = del_timer_now t s
                   in case call_timer (t_fun s t) (t_data s t) s of None \<Rightarrow> None | Some s \<Rightarrow> run_timer_list s)"

subsection \<open>Interval timers\<close>

record timeval =
  tv_sec :: u32
  tv_usec :: u32

record itimerval =
  it_interval :: timeval
  it_value :: timeval

datatype itimer = ITIMER_REAL | ITIMER_VIRTUAL | ITIMER_PROF | ITIMER_OTHER int

text \<open>Division of signed numbers rounds towards zero.\<close>

definition sdivw :: "u32 \<Rightarrow> int \<Rightarrow> u32" where "sdivw a b = word_of_int (sint a sdiv b)"
definition smodw :: "u32 \<Rightarrow> int \<Rightarrow> u32" where "smodw a b = word_of_int (sint a smod b)"

definition tvtojiffies :: "timeval \<Rightarrow> u32" where
  "tvtojiffies v = HZ * tv_sec v + sdivw (tv_usec v + (10000 - 1)) 10000"

definition jiffiestotv :: "u32 \<Rightarrow> timeval" where
  "jiffiestotv j = \<lparr>tv_sec = sdivw j 100, tv_usec = smodw j 100 * 10000\<rparr>"

definition getitimer :: "itimer \<Rightarrow> addr \<Rightarrow> timer_sys \<Rightarrow> ((errno + itimerval) \<times> timer_sys) option" where
  "getitimer which p s =
     (let i = itim s p; fill = (\<lambda>val interval. \<lparr>it_interval = jiffiestotv interval, it_value = jiffiestotv val\<rparr>)
      in case which of
           ITIMER_REAL \<Rightarrow>
             (case del_timer (real_timer s p) s of
                (True, s) \<Rightarrow>
                  let val = t_expires s (real_timer s p)
                  in (case add_timer (real_timer s p) s of None \<Rightarrow> None | Some s \<Rightarrow> Some (Inr (fill val (it_real_incr i)), s))
              | (False, s) \<Rightarrow> Some (Inr (fill 0 (it_real_incr i)), s))
         | ITIMER_VIRTUAL \<Rightarrow> Some (Inr (fill (it_virt_value i) (it_virt_incr i)), s)
         | ITIMER_PROF \<Rightarrow> Some (Inr (fill (it_prof_value i) (it_prof_incr i)), s)
         | ITIMER_OTHER _ \<Rightarrow> Some (Inl EINVAL, s))"

text \<open>Setting a timer of the task \<open>p\<close>. The second result is the old value when it was asked for.\<close>

definition setitimer :: "itimer \<Rightarrow> itimerval \<Rightarrow> bool \<Rightarrow> addr \<Rightarrow> timer_sys \<Rightarrow> ((errno + itimerval option) \<times> timer_sys) option" where
  "setitimer which v ask p s =
     (case (if ask then map_option (\<lambda>(r, s). (map_sum id Some r, s)) (getitimer which p s) else Some (Inr None, s)) of
        None \<Rightarrow> None
      | Some (Inl _, s) \<Rightarrow> Some (Inl EINVAL, s)
      | Some (Inr old, s) \<Rightarrow>
          let i = tvtojiffies (it_interval v); j = tvtojiffies (it_value v); put = (\<lambda>s it. s\<lparr>itim := (itim s)(p := it)\<rparr>)
          in case which of
               ITIMER_REAL \<Rightarrow>
                 let s = snd (del_timer (real_timer s p) s); s = put s ((itim s p)\<lparr>it_real_value := j, it_real_incr := i\<rparr>)
                 in if j = 0 then Some (Inr old, s)
                    else (case add_timer (real_timer s p) (s\<lparr>t_expires := (t_expires s)(real_timer s p := j)\<rparr>) of
                            None \<Rightarrow> None | Some s \<Rightarrow> Some (Inr old, s))
             | ITIMER_VIRTUAL \<Rightarrow>
                 let j = (if j \<noteq> 0 then j + 1 else j) in Some (Inr old, put s ((itim s p)\<lparr>it_virt_value := j, it_virt_incr := i\<rparr>))
             | ITIMER_PROF \<Rightarrow>
                 let j = (if j \<noteq> 0 then j + 1 else j) in Some (Inr old, put s ((itim s p)\<lparr>it_prof_value := j, it_prof_incr := i\<rparr>))
             | ITIMER_OTHER _ \<Rightarrow> Some (Inl EINVAL, s))"

definition sys_alarm :: "u32 \<Rightarrow> addr \<Rightarrow> timer_sys \<Rightarrow> (u32 \<times> timer_sys) option" where
  "sys_alarm seconds p s =
     (case setitimer ITIMER_REAL \<lparr>it_interval = \<lparr>tv_sec = 0, tv_usec = 0\<rparr>, it_value = \<lparr>tv_sec = seconds, tv_usec = 0\<rparr>\<rparr> True p s of
        Some (Inr (Some old), s) \<Rightarrow> Some (tv_sec (it_value old) + sdivw (tv_usec (it_value old)) 1000000, s)
      | _ \<Rightarrow> None)"

text \<open>The user's pointers are given by what they point to, with the outcome of \<^verbatim>\<open>verify_area\<close>.\<close>

definition sys_getitimer :: "itimer \<Rightarrow> errno option option \<Rightarrow> addr \<Rightarrow> timer_sys \<Rightarrow> ((errno + itimerval) \<times> timer_sys) option" where
  "sys_getitimer which value p s =
     (case value of
        None \<Rightarrow> Some (Inl EFAULT, s)
      | Some v \<Rightarrow>
          (case getitimer which p s of
             None \<Rightarrow> None
           | Some (Inl e, s) \<Rightarrow> Some (Inl e, s)
           | Some (Inr b, s) \<Rightarrow> (case v of Some e \<Rightarrow> Some (Inl e, s) | None \<Rightarrow> Some (Inr b, s))))"

definition sys_setitimer :: "itimer \<Rightarrow> (errno + itimerval) option \<Rightarrow> errno option option \<Rightarrow> addr \<Rightarrow> timer_sys \<Rightarrow>
    ((errno + itimerval option) \<times> timer_sys) option" where
  "sys_setitimer which value old p s =
     (case value of
        Some (Inl e) \<Rightarrow> Some (Inl e, s)
      | _ \<Rightarrow>
          let v = (case value of Some (Inr v) \<Rightarrow> v
                   | _ \<Rightarrow> \<lparr>it_interval = \<lparr>tv_sec = 0, tv_usec = 0\<rparr>, it_value = \<lparr>tv_sec = 0, tv_usec = 0\<rparr>\<rparr>)
          in case old of
               Some (Some e) \<Rightarrow> Some (Inl e, s)
             | _ \<Rightarrow> setitimer which v (old \<noteq> None) p s)"

subsection \<open>Sleeping with a timeout\<close>

text \<open>The two halves of \<^verbatim>\<open>schedule_timeout\<close>, before and after \<^verbatim>\<open>schedule\<close>; \<open>t\<close> is the timer on the stack of the task.\<close>

definition schedule_timeout_begin :: "addr \<Rightarrow> u32 \<Rightarrow> addr \<Rightarrow> timer_sys \<Rightarrow> timer_sys option" where
  "schedule_timeout_begin t timeout p s =
     (let s = init_timer t s;
          s = s\<lparr>t_expires := (t_expires s)(t := timeout), t_data := (t_data s)(t := p), t_fun := (t_fun s)(t := Process_timeout)\<rparr>
      in add_timer t s)"

definition schedule_timeout_end :: "addr \<Rightarrow> timer_sys \<Rightarrow> u32 \<times> timer_sys" where
  "schedule_timeout_end t s = (let s = snd (del_timer t s) in (t_expires s t, s))"

record timespec =
  ts_sec :: u32
  ts_nsec :: u32

abbreviation (input) MAX_JIFFY_OFFSET :: u32 where "MAX_JIFFY_OFFSET \<equiv> 0x7ffffffe"

definition timespec_to_jiffies :: "timespec \<Rightarrow> u32" where
  "timespec_to_jiffies v =
     (if ts_sec v \<ge> MAX_JIFFY_OFFSET div HZ then MAX_JIFFY_OFFSET
      else HZ * ts_sec v + sdivw (ts_nsec v + (10000000 - 1)) 10000000)"

definition jiffies_to_timespec :: "u32 \<Rightarrow> timespec" where
  "jiffies_to_timespec j = \<lparr>ts_sec = j div HZ, ts_nsec = (j mod HZ) * 10000000\<rparr>"

text \<open>The checks and the timeout of \<^verbatim>\<open>sys_nanosleep\<close>, and its result from what the sleep returned.\<close>

definition nanosleep_ticks :: "timespec \<Rightarrow> errno + u32" where
  "nanosleep_ticks t =
     (if sint (ts_nsec t) \<ge> 1000000000 \<or> sint (ts_nsec t) < 0 \<or> sint (ts_sec t) < 0 then Inl EINVAL
      else Inr (timespec_to_jiffies t + (if ts_sec t \<noteq> 0 \<or> ts_nsec t \<noteq> 0 then 1 else 0)))"

definition nanosleep_result :: "u32 \<Rightarrow> errno option \<times> timespec option" where
  "nanosleep_result expire = (if expire = 0 then (None, None) else (Some EINTR, Some (jiffies_to_timespec expire)))"

subsection \<open>Fork\<close>

text \<open>The child's task structure is a copy, the links of its timer included; then its intervals are cleared and its
  timer gets the child as argument.\<close>

definition fork_timer :: "addr \<Rightarrow> addr \<Rightarrow> timer_sys \<Rightarrow> timer_sys" where
  "fork_timer parent child s =
     (let t = real_timer s parent; c = real_timer s child; l = tlinks s;
          s = s\<lparr>tlinks := \<lparr>l_next = (l_next l)(c := l_next l t), l_prev = (l_prev l)(c := l_prev l t)\<rparr>,
                t_expires := (t_expires s)(c := t_expires s t), t_data := (t_data s)(c := t_data s t), t_fun := (t_fun s)(c := t_fun s t)\<rparr>
      in s\<lparr>itim := (itim s)(child := \<lparr>it_real_value = 0, it_prof_value = 0, it_virt_value = 0, it_real_incr = 0, it_prof_incr = 0, it_virt_incr = 0\<rparr>),
           t_data := (t_data s)(c := child)\<rparr>)"

section \<open>The list is sorted by time\<close>

text \<open>The timers that run are the nodes of the ring, in the order of their times; every other timer has no link.\<close>

definition wheel :: "timer_sys \<Rightarrow> addr list \<Rightarrow> bool" where
  "wheel s xs \<longleftrightarrow> ring (tlinks s) (timer_head s) xs \<and> sorted (map (\<lambda>t. sint (t_expires s t)) xs) \<and>
     (\<forall>t. t \<notin> set (timer_head s # xs) \<longrightarrow> l_next (tlinks s) t = NULL)"

abbreviation due_at :: "timer_sys \<Rightarrow> addr \<Rightarrow> bool" where
  "due_at s t \<equiv> sint (t_expires s t) \<le> sint (jiffies s)"

text \<open>The value that deleting a timer leaves: the time that is left.\<close>

definition left_over :: "u32 \<Rightarrow> u32 \<Rightarrow> u32" where
  "left_over e j = (if sint (e - j) < 0 then 0 else e - j)"

definition insert_timer :: "(addr \<Rightarrow> u32) \<Rightarrow> addr \<Rightarrow> addr list \<Rightarrow> addr list" where
  "insert_timer ex t xs =
     takeWhile (\<lambda>x. sint (ex x) \<le> sint (ex t)) xs @ t # dropWhile (\<lambda>x. sint (ex x) \<le> sint (ex t)) xs"

lemma insert_timer_simps [simp]:
  "insert_timer ex t [] = [t]"
  "insert_timer ex t (x # xs) = (if sint (ex x) \<le> sint (ex t) then x # insert_timer ex t xs else t # x # xs)"
  by (simp_all add: insert_timer_def)

lemma set_insert_timer [simp]: "set (insert_timer ex t xs) = insert t (set xs)"
  by (induction xs) auto

lemma sorted_insert_timer:
  "sorted (map (\<lambda>t. sint (ex t)) xs) \<Longrightarrow> sorted (map (\<lambda>t. sint (ex t)) (insert_timer ex t xs))"
  by (induction xs) auto

lemma wheelD:
  assumes "wheel s xs"
  shows "ring (tlinks s) (timer_head s) xs" "sorted (map (\<lambda>t. sint (t_expires s t)) xs)" "timer_head s \<notin> set xs" "distinct xs"
    "NULL \<notin> set xs" "timer_in_list t s \<longleftrightarrow> t \<in> set (timer_head s # xs)"
proof -
  show r: "ring (tlinks s) (timer_head s) xs" and "sorted (map (\<lambda>t. sint (t_expires s t)) xs)" using assms by (simp_all add: wheel_def)
  then show "timer_head s \<notin> set xs" "distinct xs" "NULL \<notin> set xs" by (auto simp: ring_def)
  show "timer_in_list t s \<longleftrightarrow> t \<in> set (timer_head s # xs)"
    using assms ring_next_nonnull [OF r] by (auto simp: timer_in_list_def wheel_def)
qed

lemma add_timer_wheel:
  assumes w: "wheel s xs" and t: "t \<notin> set (timer_head s # xs)" "t \<noteq> NULL"
  defines "ex \<equiv> (t_expires s)(t := t_expires s t + jiffies s)"
  shows "\<exists>l. add_timer t s = Some (s\<lparr>t_expires := ex, tlinks := l\<rparr>) \<and> wheel (s\<lparr>t_expires := ex, tlinks := l\<rparr>) (insert_timer ex t xs)"
proof -
  note W = wheelD [OF w]
  let ?P = "\<lambda>x. sint (ex x) \<le> sint (ex t)"
  define ys zs where "ys = takeWhile ?P xs" and "zs = dropWhile ?P xs"
  have xs: "xs = ys @ zs" by (simp add: ys_def zs_def)
  have scan: "list_scan (\<lambda>p. sint (ex t) < sint (ex p)) (timer_head s) (tlinks s) = Some (hd (zs @ [timer_head s]))"
    using list_scan_ring [OF W(1), of "\<lambda>p. sint (ex t) < sint (ex p)"] by (simp add: zs_def not_less)
  define l where "l = list_add_tail t (hd (zs @ [timer_head s])) (tlinks s)"
  have r: "ring l (timer_head s) (ys @ t # zs)"
    unfolding l_def by (rule list_add_tail_ring) (use W(1) t in \<open>simp_all add: xs\<close>)
  have "map (\<lambda>t. sint (ex t)) xs = map (\<lambda>t. sint (t_expires s t)) xs" using t by (intro map_cong) (auto simp: ex_def)
  then have so: "sorted (map (\<lambda>t. sint (ex t)) (insert_timer ex t xs))" using W(2) by (intro sorted_insert_timer) (simp only:)
  have "l_next l x = NULL" if "x \<notin> set (timer_head s # insert_timer ex t xs)" for x
    using list_add_tail_frame [OF W(1) [unfolded xs], of x t] that w by (auto simp: l_def xs wheel_def)
  then have "wheel (s\<lparr>t_expires := ex, tlinks := l\<rparr>) (insert_timer ex t xs)"
    using r so by (simp add: wheel_def insert_timer_def ys_def zs_def)
  moreover have "add_timer t s = Some (s\<lparr>t_expires := ex, tlinks := l\<rparr>)"
    using scan by (simp add: add_timer_def Let_def ex_def l_def)
  ultimately show ?thesis by blast
qed

lemma del_timer_wheel:
  assumes w: "wheel s xs" and t: "t \<in> set xs"
  shows "\<exists>l. del_timer_now t s = s\<lparr>tlinks := l, t_expires := (t_expires s)(t := left_over (t_expires s t) (jiffies s))\<rparr> \<and>
    wheel (del_timer_now t s) (remove1 t xs)"
proof -
  note W = wheelD [OF w]
  obtain ys zs where xs: "xs = ys @ t # zs" using split_list [OF t] by blast
  have t': "t \<notin> set (timer_head s # ys @ zs)" using W(3,4) xs by auto
  note R = list_del_ring [OF W(1) [unfolded xs]]
  define l where "l = (list_del t (tlinks s))\<lparr>l_next := (l_next (list_del t (tlinks s)))(t := NULL)\<rparr>"
  have r: "ring l (timer_head s) (ys @ zs)" by (rule ring_frame [OF R(1)]) (use t' in \<open>auto simp: l_def\<close>)
  have d: "del_timer_now t s = s\<lparr>tlinks := l, t_expires := (t_expires s)(t := left_over (t_expires s t) (jiffies s))\<rparr>"
    by (simp add: del_timer_now_def Let_def l_def left_over_def)
  have nulls: "l_next l x = NULL" if "x \<notin> set (timer_head s # ys @ zs)" for x
    using R(3) [OF that] that w by (auto simp: l_def wheel_def xs)
  let ?ex = "(t_expires s)(t := left_over (t_expires s t) (jiffies s))"
  have "map (\<lambda>x. sint (?ex x)) (ys @ zs) = map (\<lambda>x. sint (t_expires s x)) (ys @ zs)" using t' by auto
  moreover have "sorted (map (\<lambda>x. sint (t_expires s x)) (ys @ zs))" using W(2) by (auto simp: xs sorted_append)
  ultimately have "sorted (map (\<lambda>x. sint (?ex x)) (ys @ zs))" by (simp only:)
  moreover have "remove1 t xs = ys @ zs" using t' by (simp add: xs remove1_append)
  ultimately show ?thesis using r nulls d by (intro exI [of _ l]) (simp add: wheel_def)
qed

section \<open>Expiry\<close>

definition period_ok :: "timer_sys \<Rightarrow> addr \<Rightarrow> bool" where
  "period_ok s p \<longleftrightarrow> (let i = it_real_incr (itim s p) in i = 0 \<or> 0 < sint i \<and> sint (jiffies s) + sint i < 2 ^ 31)"

definition timers_ok :: "timer_sys \<Rightarrow> addr list \<Rightarrow> bool" where
  "timers_ok s xs \<longleftrightarrow>
     (\<forall>t \<in> set xs. t_fun s t = It_real_fun \<longrightarrow> real_timer s (t_data s t) = t \<and> period_ok s (t_data s t))"

definition event :: "timer_sys \<Rightarrow> addr \<Rightarrow> tevent" where
  "event s t = (case t_fun s t of It_real_fun \<Rightarrow> Sent SIGALRM (t_data s t) | Process_timeout \<Rightarrow> Woken (t_data s t))"

definition rearmed :: "timer_sys \<Rightarrow> addr \<Rightarrow> bool" where
  "rearmed s t \<longleftrightarrow> t_fun s t = It_real_fun \<and> it_real_incr (itim s (t_data s t)) \<noteq> 0"

text \<open>The time a timer has after a run: a periodic one that was due starts again, another one that was due is off.\<close>

definition next_time :: "timer_sys \<Rightarrow> addr list \<Rightarrow> addr \<Rightarrow> u32" where
  "next_time s xs t =
     (if t \<in> set xs \<and> due_at s t
      then if rearmed s t then it_real_incr (itim s (t_data s t)) + jiffies s else left_over (t_expires s t) (jiffies s)
      else t_expires s t)"

lemma sint_add_small: "0 < sint i \<Longrightarrow> sint j + sint i < 2 ^ 31 \<Longrightarrow> sint (i + j) = sint j + sint i" for i j :: u32
  using sint_range_size [of j] by (simp add: sint_word_ariths signed_take_bit_int_eq_self add.commute word_size)

lemma filter_insert_timer: "\<not> P t \<Longrightarrow> filter P (insert_timer ex t xs) = filter P xs"
  by (induction xs) auto

text \<open>One timer that is due: it is taken off the list, its callback runs, and a periodic one enters the list again behind
  every timer that is due.\<close>

lemma run_one:
  assumes w: "wheel s (t # xs)" and ok: "timers_ok s (t # xs)" and due: "due_at s t"
  obtains l ex ys where "run_timer_list s = run_timer_list (s\<lparr>tlinks := l, t_expires := ex, tlog := tlog s @ [event s t]\<rparr>)"
    "wheel (s\<lparr>tlinks := l, t_expires := ex, tlog := tlog s @ [event s t]\<rparr>) ys" "ex = (t_expires s)(t := next_time s (t # xs) t)"
    "if rearmed s t then ys = insert_timer ex t xs \<and> sint (jiffies s) < sint (ex t) else ys = xs"
proof -
  note W = wheelD [OF w]
  have h: "\<not> list_empty (timer_head s) (tlinks s)" "l_next (tlinks s) (timer_head s) = t"
    using ring_empty [OF W(1)] ring_next [OF W(1)] by simp_all
  from del_timer_wheel [OF w, of t] obtain l where d:
    "del_timer_now t s = s\<lparr>tlinks := l, t_expires := (t_expires s)(t := left_over (t_expires s t) (jiffies s))\<rparr>"
    "wheel (del_timer_now t s) xs" by auto
  let ?s = "del_timer_now t s"
  have step: "run_timer_list s = (case call_timer (t_fun s t) (t_data s t) ?s of None \<Rightarrow> None | Some s \<Rightarrow> run_timer_list s)"
    by (subst run_timer_list.simps) (use h due in \<open>simp add: Let_def d(1)\<close>)
  let ?p = "t_data s t"
  show thesis
  proof (cases "rearmed s t")
    case False
    let ?ex = "(t_expires s)(t := next_time s (t # xs) t)"
    have d': "?s\<lparr>tlog := tlog s @ [event s t]\<rparr> = s\<lparr>tlinks := l, t_expires := ?ex, tlog := tlog s @ [event s t]\<rparr>"
      using False due by (simp add: d(1) next_time_def)
    have "call_timer (t_fun s t) ?p ?s = Some (?s\<lparr>tlog := tlog s @ [event s t]\<rparr>)"
      using False by (cases "t_fun s t") (simp_all add: call_timer_def it_real_fun_def process_timeout_def rearmed_def event_def d(1))
    then have "run_timer_list s = run_timer_list (s\<lparr>tlinks := l, t_expires := ?ex, tlog := tlog s @ [event s t]\<rparr>)"
      unfolding step d' by (simp only: option.case)
    moreover have "wheel (?s\<lparr>tlog := tlog s @ [event s t]\<rparr>) xs" using d(2) by (simp add: wheel_def)
    ultimately show thesis using False unfolding d' by (intro that) simp_all
  next
    case True
    let ?i = "it_real_incr (itim s ?p)"
    have f: "t_fun s t = It_real_fun" "?i \<noteq> 0" and rt: "real_timer s ?p = t" and per: "0 < sint ?i" "sint (jiffies s) + sint ?i < 2 ^ 31"
      using True ok by (auto simp: rearmed_def timers_ok_def period_ok_def Let_def)
    define s1 where "s1 = s\<lparr>tlinks := l, tlog := tlog s @ [event s t], t_expires := (t_expires s)(t := ?i)\<rparr>"
    have cong: "map (\<lambda>x. sint (t_expires s1 x)) xs = map (\<lambda>x. sint (t_expires ?s x)) xs" using W(4) by (auto simp: s1_def d(1))
    have w1: "wheel s1 xs" using d(2) cong unfolding wheel_def by (simp only:) (simp add: s1_def d(1))
    have t1: "t \<notin> set (timer_head s1 # xs)" "t \<noteq> NULL" using W(3,4,5) by (auto simp: s1_def)
    let ?ex = "(t_expires s)(t := next_time s (t # xs) t)"
    have ex: "(t_expires s1)(t := t_expires s1 t + jiffies s1) = ?ex" using True due by (simp add: s1_def next_time_def fun_eq_iff)
    from add_timer_wheel [OF w1 t1, unfolded ex] obtain l2 where a: "add_timer t s1 = Some (s1\<lparr>t_expires := ?ex, tlinks := l2\<rparr>)"
      "wheel (s1\<lparr>t_expires := ?ex, tlinks := l2\<rparr>) (insert_timer ?ex t xs)" by blast
    have "call_timer (t_fun s t) ?p ?s = add_timer t s1"
      using f rt by (simp add: call_timer_def it_real_fun_def d(1) s1_def event_def)
    then have "run_timer_list s = run_timer_list (s1\<lparr>t_expires := ?ex, tlinks := l2\<rparr>)" unfolding step a(1) by (simp only: option.case)
    moreover have "s1\<lparr>t_expires := ?ex, tlinks := l2\<rparr> = s\<lparr>tlinks := l2, t_expires := ?ex, tlog := tlog s @ [event s t]\<rparr>" by (simp add: s1_def)
    moreover have "sint (jiffies s) < sint (?ex t)" using sint_add_small [OF per] per True due by (simp add: next_time_def)
    ultimately show thesis
      using True a(2) by (intro that [where l = l2 and ex = ?ex and ys = "insert_timer ?ex t xs"]) (simp_all only: if_True simp_thms)
  qed
qed

lemma run_timer_list_ok:
  assumes "wheel s xs" "timers_ok s xs"
  shows "\<exists>l ys. run_timer_list s = Some (s\<lparr>tlinks := l, t_expires := next_time s xs, tlog := tlog s @ map (event s) (filter (due_at s) xs)\<rparr>) \<and>
    wheel (s\<lparr>tlinks := l, t_expires := next_time s xs, tlog := tlog s @ map (event s) (filter (due_at s) xs)\<rparr>) ys \<and>
    set ys = {t \<in> set xs. due_at s t \<longrightarrow> rearmed s t}"
  using assms
proof (induction "length (filter (due_at s) xs)" arbitrary: s xs)
  case 0
  then have nd: "\<not> due_at s t" if "t \<in> set xs" for t using that by (auto simp: filter_empty_conv)
  then have "next_time s xs = t_expires s" by (auto simp: next_time_def fun_eq_iff)
  moreover have "filter (due_at s) xs = []" using 0 by simp
  moreover have "run_timer_list s = Some s"
    using nd ring_empty [OF wheelD(1) [OF 0(2)]] ring_next [OF wheelD(1) [OF 0(2)]] by (subst run_timer_list.simps) (cases xs; simp add: Let_def not_le)
  ultimately show ?case using 0(2) nd by (intro exI [of _ "tlinks s"] exI [of _ xs]) auto
next
  case (Suc n)
  note W = wheelD [OF Suc.prems(1)]
  obtain t xs' where xs: "xs = t # xs'" using Suc.hyps(2) by (cases xs) auto
  have due: "due_at s t"
  proof (rule ccontr)
    assume "\<not> due_at s t"
    then have "filter (due_at s) xs = []" using W(2) by (auto simp: xs filter_empty_conv)
    then show False using Suc.hyps(2) by simp
  qed
  obtain l ex ys where r: "run_timer_list s = run_timer_list (s\<lparr>tlinks := l, t_expires := ex, tlog := tlog s @ [event s t]\<rparr>)"
    "wheel (s\<lparr>tlinks := l, t_expires := ex, tlog := tlog s @ [event s t]\<rparr>) ys" "ex = (t_expires s)(t := next_time s xs t)"
    "if rearmed s t then ys = insert_timer ex t xs' \<and> sint (jiffies s) < sint (ex t) else ys = xs'"
    using run_one [OF Suc.prems [unfolded xs] due] unfolding xs by metis
  let ?s = "s\<lparr>tlinks := l, t_expires := ex, tlog := tlog s @ [event s t]\<rparr>"
  have t: "t \<notin> set xs'" using W(4) by (simp add: xs)
  have fil: "filter (due_at ?s) ys = filter (due_at s) xs'"
  proof -
    have "filter (due_at ?s) ys = filter (due_at ?s) xs'" using r(4) filter_insert_timer [of "due_at ?s" t ex xs'] by (simp split: if_splits)
    also have "\<dots> = filter (due_at s) xs'" using t by (intro filter_cong) (auto simp: r(3))
    finally show ?thesis .
  qed
  have n: "n = length (filter (due_at ?s) ys)" using Suc.hyps(2) due unfolding fil by (simp add: xs)
  have set: "set ys = (if rearmed s t then set xs else set xs')" using r(4) by (auto simp: xs split: if_splits)
  have ok: "timers_ok ?s ys" using Suc.prems(2) set by (auto simp: timers_ok_def period_ok_def xs split: if_splits)
  from Suc.hyps(1) [OF n r(2) ok] obtain l2 ys2 where q:
    "run_timer_list ?s = Some (?s\<lparr>tlinks := l2, t_expires := next_time ?s ys, tlog := tlog ?s @ map (event ?s) (filter (due_at ?s) ys)\<rparr>)"
    "wheel (?s\<lparr>tlinks := l2, t_expires := next_time ?s ys, tlog := tlog ?s @ map (event ?s) (filter (due_at ?s) ys)\<rparr>) ys2"
    "set ys2 = {t \<in> set ys. due_at ?s t \<longrightarrow> rearmed ?s t}" by blast
  have ev: "event ?s = event s" "rearmed ?s = rearmed s" by (simp_all add: event_def rearmed_def fun_eq_iff split: timer_fun.split)
  have nt: "next_time ?s ys = next_time s xs"
  proof
    fix x
    show "next_time ?s ys x = next_time s xs x"
    proof (cases "x = t")
      case True
      then show ?thesis using r(4) set due t by (auto simp: next_time_def r(3) xs rearmed_def split: if_splits)
    next
      case False
      then show ?thesis using set by (auto simp: next_time_def r(3) xs rearmed_def)
    qed
  qed
  have lg: "tlog ?s @ map (event ?s) (filter (due_at ?s) ys) = tlog s @ map (event s) (filter (due_at s) xs)"
    unfolding fil ev using due by (simp add: xs)
  have "set ys2 = {t \<in> set xs. due_at s t \<longrightarrow> rearmed s t}"
    unfolding q(3) ev set using t due r(4) by (auto simp: xs r(3) split: if_splits)
  then show ?case using q(1,2) unfolding r(1) nt lg by (intro exI [of _ l2] exI [of _ ys2]) simp
qed

text \<open>A timer that was just added and is deleted again leaves the list as it was.\<close>

lemma remove1_insert_timer: "t \<notin> set xs \<Longrightarrow> remove1 t (insert_timer ex t xs) = xs"
  by (induction xs) auto

text \<open>Signed arithmetic within the range.\<close>

lemma sint_of_nat_small: "int d < 2 ^ 31 \<Longrightarrow> sint (of_nat d :: u32) = int d"
  by (simp add: signed_of_nat signed_take_bit_int_eq_self)

lemma sint_diff_small: "0 \<le> sint n \<Longrightarrow> int d < 2 ^ 31 \<Longrightarrow> sint (n - of_nat d) = sint n - int d" for n :: u32
  using sint_range_size [of n] by (simp add: sint_word_ariths sint_of_nat_small signed_take_bit_int_eq_self word_size)

lemma sint_sum_small: "0 \<le> sint i \<Longrightarrow> 0 \<le> sint j \<Longrightarrow> sint j + sint i < 2 ^ 31 \<Longrightarrow> sint (i + j) = sint j + sint i" for i j :: u32
  by (simp add: sint_word_ariths signed_take_bit_int_eq_self add.commute)

lemma wheel_jiffies: "wheel (s\<lparr>jiffies := j\<rparr>) xs \<longleftrightarrow> wheel s xs"
  by (simp add: wheel_def)

text \<open>Starting a sleep puts the timer of the task on the list.\<close>

lemma timeout_begin:
  assumes w: "wheel s xs" and t: "t \<notin> set (timer_head s # xs)" "t \<noteq> NULL"
    and ex: "ex = (t_expires s)(t := n + jiffies s)"
  shows "\<exists>l. schedule_timeout_begin t n p s =
      Some (s\<lparr>tlinks := l, t_expires := ex, t_data := (t_data s)(t := p), t_fun := (t_fun s)(t := Process_timeout)\<rparr>) \<and>
    wheel (s\<lparr>tlinks := l, t_expires := ex, t_data := (t_data s)(t := p), t_fun := (t_fun s)(t := Process_timeout)\<rparr>) (insert_timer ex t xs)"
proof -
  have "l_next (tlinks s) t = NULL" using w t by (simp add: wheel_def)
  then have i: "init_timer t s = s" by (simp add: init_timer_def fun_upd_idem)
  define s0 where "s0 = s\<lparr>t_expires := (t_expires s)(t := n), t_data := (t_data s)(t := p), t_fun := (t_fun s)(t := Process_timeout)\<rparr>"
  have "map (\<lambda>x. sint (t_expires s0 x)) xs = map (\<lambda>x. sint (t_expires s x)) xs" using t by (auto simp: s0_def)
  then have "wheel s0 xs" using w unfolding wheel_def by (simp only:) (simp add: s0_def)
  moreover have "t \<notin> set (timer_head s0 # xs)" using t by (simp add: s0_def)
  moreover have "(t_expires s0)(t := t_expires s0 t + jiffies s0) = ex" by (simp add: s0_def ex fun_eq_iff)
  ultimately obtain l where a: "add_timer t s0 = Some (s0\<lparr>t_expires := ex, tlinks := l\<rparr>)" "wheel (s0\<lparr>t_expires := ex, tlinks := l\<rparr>) (insert_timer ex t xs)"
    using add_timer_wheel [of s0 xs t] t(2) by metis
  have "schedule_timeout_begin t n p s = add_timer t s0" unfolding schedule_timeout_begin_def i s0_def by (simp only: Let_def)
  moreover have "s0\<lparr>t_expires := ex, tlinks := l\<rparr> = s\<lparr>tlinks := l, t_expires := ex, t_data := (t_data s)(t := p), t_fun := (t_fun s)(t := Process_timeout)\<rparr>"
    by (simp add: s0_def)
  ultimately show ?thesis using a by (intro exI [of _ l]) (simp only: simp_thms)
qed

section \<open>Properties\<close>

definition timers_example :: timer_sys where
  "timers_example = \<lparr>tlinks = \<lparr>l_next = (\<lambda>_. NULL)(16 := 32, 32 := 48, 48 := 16), l_prev = (\<lambda>_. NULL)(32 := 16, 48 := 32, 16 := 48)\<rparr>,
     timer_head = 16, t_expires = (\<lambda>_. 0)(32 := 90, 48 := 200), t_data = (\<lambda>_. 7)(48 := 8),
     t_fun = (\<lambda>_. It_real_fun)(48 := Process_timeout), jiffies = 100,
     itim = (\<lambda>_. \<lparr>it_real_value = 50, it_prof_value = 0, it_virt_value = 0, it_real_incr = 50, it_prof_incr = 0, it_virt_incr = 0\<rparr>),
     real_timer = (\<lambda>_. 0)(7 := 32), tlog = []\<rparr>"

lemma timers_example_ok: "wheel timers_example [32, 48]" "timers_ok timers_example [32, 48]"
  by (simp_all add: wheel_def ring_def timers_ok_def period_ok_def timers_example_def Let_def)





section \<open>Deviations\<close>

text \<open>\<^verbatim>\<open>setitimer\<close> does not check its argument. A periodic alarm with a negative interval is due again as soon as it has
  fired, and the run of the timers, in the bottom half of the timer interrupt, does not end.\<close>

definition stuck :: "timer_sys \<Rightarrow> addr \<Rightarrow> bool" where
  "stuck s t \<longleftrightarrow> wheel s [t] \<and> due_at s t \<and> t_fun s t = It_real_fun \<and> real_timer s (t_data s t) = t \<and>
     (let i = it_real_incr (itim s (t_data s t)) in i \<noteq> 0 \<and> sint (i + jiffies s) \<le> sint (jiffies s))"

lemma stuck_step:
  assumes "stuck s t"
  shows "\<exists>s'. call_timer (t_fun s t) (t_data s t) (del_timer_now t s) = Some s' \<and> stuck s' t"
proof -
  let ?p = "t_data s t" and ?i = "it_real_incr (itim s (t_data s t))"
  have w: "wheel s [t]" and f: "t_fun s t = It_real_fun" "real_timer s ?p = t" "?i \<noteq> 0" "sint (?i + jiffies s) \<le> sint (jiffies s)"
    using assms by (simp_all add: stuck_def Let_def)
  from del_timer_wheel [OF w, of t] obtain l where d:
    "del_timer_now t s = s\<lparr>tlinks := l, t_expires := (t_expires s)(t := left_over (t_expires s t) (jiffies s))\<rparr>" "wheel (del_timer_now t s) []" by auto
  define s1 where "s1 = s\<lparr>tlinks := l, tlog := tlog s @ [Sent SIGALRM ?p], t_expires := (t_expires s)(t := ?i)\<rparr>"
  have "wheel s1 []" using d by (simp add: wheel_def s1_def)
  moreover have "t \<notin> set (timer_head s1 # [])" "t \<noteq> NULL" using wheelD(3,5) [OF w] by (auto simp: s1_def)
  ultimately obtain l2 where a: "add_timer t s1 = Some (s1\<lparr>t_expires := (t_expires s1)(t := t_expires s1 t + jiffies s1), tlinks := l2\<rparr>)"
    "wheel (s1\<lparr>t_expires := (t_expires s1)(t := t_expires s1 t + jiffies s1), tlinks := l2\<rparr>) [t]" using add_timer_wheel by fastforce
  have "call_timer (t_fun s t) ?p (del_timer_now t s) = add_timer t s1"
    using f by (simp add: call_timer_def it_real_fun_def d(1) s1_def)
  moreover have "stuck (s1\<lparr>t_expires := (t_expires s1)(t := t_expires s1 t + jiffies s1), tlinks := l2\<rparr>) t"
    using a(2) f by (simp add: stuck_def Let_def) (simp add: s1_def)
  ultimately show ?thesis using a(1) by simp
qed

lemma negative_interval_hangs:
  assumes "stuck s t"
  shows "run_timer_list s = None"
proof -
  have "\<not> stuck s t" if "run_timer_list s = Some y" for s y
  proof (rule run_timer_list.raw_induct [OF _ that, where P = "\<lambda>s y. \<not> stuck s t"], rule notI)
    fix f s y
    assume ih: "\<And>x y. f x = Some y \<Longrightarrow> \<not> stuck x t" and st: "stuck s t"
      and body: "(if list_empty (timer_head s) (tlinks s) then Some s
        else let t = l_next (tlinks s) (timer_head s) in if sint (jiffies s) < sint (t_expires s t) then Some s
          else let s = del_timer_now t s in case call_timer (t_fun s t) (t_data s t) s of None \<Rightarrow> None | Some s \<Rightarrow> f s) = Some y"
    have w: "wheel s [t]" and due: "due_at s t" using st by (simp_all add: stuck_def)
    have h: "\<not> list_empty (timer_head s) (tlinks s)" "l_next (tlinks s) (timer_head s) = t"
      using ring_empty [OF wheelD(1) [OF w]] ring_next [OF wheelD(1) [OF w]] by simp_all
    have k: "t_fun (del_timer_now t s) t = t_fun s t" "t_data (del_timer_now t s) t = t_data s t" by (simp_all add: del_timer_now_def Let_def)
    obtain s' where "call_timer (t_fun s t) (t_data s t) (del_timer_now t s) = Some s'" "stuck s' t" using stuck_step [OF st] by blast
    then show False using body h due k ih by (simp add: Let_def)
  qed
  then show ?thesis using assms by (cases "run_timer_list s") auto
qed

text \<open>\<^verbatim>\<open>fork\<close> copies the links of a running timer. When the child sets or stops its own alarm, the alarm of the parent is
  taken off the list although it still counts as running.\<close>

lemma fork_alarm_lost:
  assumes w: "wheel s xs" and t: "real_timer s p \<in> set xs" and c: "real_timer s child \<notin> set (timer_head s # xs)"
  shows "\<exists>s'. del_timer (real_timer s child) (fork_timer p child s) = (True, s') \<and>
    ring (tlinks s') (timer_head s') (remove1 (real_timer s p) xs) \<and> timer_in_list (real_timer s p) s'"
proof -
  let ?t = "real_timer s p" and ?c = "real_timer s child" and ?s = "fork_timer p child s"
  note W = wheelD [OF w]
  have l: "l_next (tlinks ?s) = (l_next (tlinks s))(?c := l_next (tlinks s) ?t)" "l_prev (tlinks ?s) = (l_prev (tlinks s))(?c := l_prev (tlinks s) ?t)"
    by (simp_all add: fork_timer_def Let_def)
  have ct: "?c \<noteq> ?t" using t c by auto
  have th: "timer_head ?s = timer_head s" by (simp add: fork_timer_def Let_def)
  have r: "ring (tlinks ?s) (timer_head s) xs" by (rule ring_frame [OF W(1)]) (use c in \<open>auto simp: l\<close>)
  obtain ys zs where xs: "xs = ys @ ?t # zs" using split_list [OF t] by blast
  have t': "?t \<notin> set (ys @ zs)" using W(4) by (simp add: xs)
  have del: "list_del ?c (tlinks ?s) = list_del ?t (tlinks ?s)" using ct by (intro list_del_copy) (simp_all add: l)
  note R = list_del_ring [OF r [unfolded xs]]
  have nn: "l_next (tlinks s) ?t \<noteq> NULL" by (rule ring_next_nonnull [OF W(1)]) (use t in simp)
  let ?l = "(list_del ?t (tlinks ?s))\<lparr>l_next := (l_next (list_del ?t (tlinks ?s)))(?c := NULL)\<rparr>"
  have links: "tlinks (del_timer_now ?c ?s) = ?l" "timer_head (del_timer_now ?c ?s) = timer_head s" by (simp_all add: del_timer_now_def Let_def del th)
  have "ring ?l (timer_head s) (ys @ zs)" by (rule ring_frame [OF R(1)]) (use c in \<open>auto simp: xs\<close>)
  moreover have "remove1 ?t xs = ys @ zs" using t' by (simp add: xs remove1_append)
  moreover have "timer_in_list ?t (del_timer_now ?c ?s)" using R(2) nn ct by (simp add: timer_in_list_def links l)
  moreover have "timer_in_list ?c ?s" using nn by (simp add: timer_in_list_def l)
  ultimately show ?thesis by (simp add: del_timer_def links)
qed

text \<open>A sleep so long that the time of its timer wraps around is over at once.\<close>

lemma long_sleep_due:
  assumes "0 < sint j"
  shows "nanosleep_ticks \<lparr>ts_sec = 30000000, ts_nsec = 0\<rparr> = Inr 0x7fffffff" "sint (0x7fffffff + j :: u32) < sint j"
proof -
  show "nanosleep_ticks \<lparr>ts_sec = 30000000, ts_nsec = 0\<rparr> = Inr 0x7fffffff"
    by (simp add: nanosleep_ticks_def timespec_to_jiffies_def)
  have r: "sint j < 2 ^ 31" using sint_range_size [of j] by (simp add: word_size)
  have "sint (0x7fffffff + j) = (0x7fffffff + sint j + 2 ^ 31) mod 2 ^ 32 - 2 ^ 31"
    by (simp add: sint_word_ariths signed_take_bit_eq_take_bit_shift take_bit_eq_mod)
  also have "0x7fffffff + sint j + 2 ^ 31 = (sint j - 1) + 2 ^ 32" by simp
  also have "((sint j - 1) + 2 ^ 32) mod 2 ^ 32 = (sint j - 1) mod 2 ^ 32" by (rule mod_add_self2)
  also have "\<dots> = sint j - 1" using r assms by (intro mod_pos_pos_trivial) simp_all
  finally show "sint (0x7fffffff + j) < sint j" by simp
qed

text \<open>The value \<^verbatim>\<open>alarm\<close> returns for an alarm that is 99 ticks away is that of no alarm.\<close>

lemma alarm_returns_zero:
  "tv_sec (jiffiestotv 99) + sdivw (tv_usec (jiffiestotv 99)) 1000000 = 0"
  by (simp add: jiffiestotv_def sdivw_def smodw_def)

end
