(* ===== verification/Sched.thy ===== *)
theory Sched
  imports List_Head
begin

text \<open>
  Scheduler: \<^verbatim>\<open>src/src/kernel/sched.c\<close>, with \<^verbatim>\<open>send_sig\<close> of \<^verbatim>\<open>kernel/exit.c\<close> and the tick of
  \<^verbatim>\<open>kernel/time.c\<close>. A task is the address of its structure, run queues are lists of tasks, and every processor has the task it
  runs. A task is on a run queue when the link fields of its structure are not null, which the model reads off the queues. The code
  between taking and releasing \<^verbatim>\<open>scheduler_lock\<close> is one step, with one exception: signals, which are sent under the
  lock of the task only, may arrive in the middle of \<^verbatim>\<open>schedule\<close>, so it has two halves. Interrupts sent to other
  processors and notices to parents are logged. A failed assertion is \<^term>\<open>None\<close>.
\<close>

section \<open>Model\<close>

datatype tstate = TASK_RUNNING | TASK_INTERRUPTIBLE | TASK_UNINTERRUPTIBLE | TASK_ZOMBIE | TASK_STOPPED

definition state_flag :: "tstate \<Rightarrow> u32" where
  "state_flag st = (case st of TASK_RUNNING \<Rightarrow> 0 | TASK_INTERRUPTIBLE \<Rightarrow> 1 | TASK_UNINTERRUPTIBLE \<Rightarrow> 2 | TASK_ZOMBIE \<Rightarrow> 4 | TASK_STOPPED \<Rightarrow> 8)"

datatype sighandler = SIG_DFL | SIG_IGN | Handler u32

record sigaction =
  sa_handler :: sighandler
  sa_flags :: u32
  sa_restorer :: u32
  sa_mask :: u32

record ktask =
  kt_state :: tstate
  counter :: int
  signal :: u32
  blocked :: u32
  need_resched :: bool
  exit_code :: int
  kt_pid :: int
  kt_cpu :: nat
  cpus_allowed :: u32
  parked :: bool
  sigact :: "nat \<Rightarrow> sigaction"

datatype sevent = Reschedule_ipi nat | Notify_parent addr

record sched_sys =
  ktasks :: "addr \<Rightarrow> ktask"
  tlist :: "addr list"
  runq :: "nat \<Rightarrow> addr list"
  curr :: "nat \<Rightarrow> addr"
  idle_task :: "nat \<Rightarrow> addr"
  ncpus :: nat
  slog :: "sevent list"

abbreviation (input) NR_CPUS :: nat where "NR_CPUS \<equiv> 8"
abbreviation (input) DEF_COUNTER :: int where "DEF_COUNTER \<equiv> 10"

abbreviation (input) SIGKILL :: nat where "SIGKILL \<equiv> 9"
abbreviation (input) SIGCHLD :: nat where "SIGCHLD \<equiv> 17"
abbreviation (input) SIGCONT :: nat where "SIGCONT \<equiv> 18"
abbreviation (input) SIGSTOP :: nat where "SIGSTOP \<equiv> 19"
abbreviation (input) SIGTSTP :: nat where "SIGTSTP \<equiv> 20"
abbreviation (input) SIGTTIN :: nat where "SIGTTIN \<equiv> 21"
abbreviation (input) SIGTTOU :: nat where "SIGTTOU \<equiv> 22"
abbreviation (input) SIGWINCH :: nat where "SIGWINCH \<equiv> 28"

definition sigbit :: "nat \<Rightarrow> u32" where "sigbit sig = push_bit (sig - 1) 1"

definition upd_task :: "addr \<Rightarrow> (ktask \<Rightarrow> ktask) \<Rightarrow> sched_sys \<Rightarrow> sched_sys" where
  "upd_task p f s = s\<lparr>ktasks := (ktasks s)(p := f (ktasks s p))\<rparr>"

abbreviation stof :: "sched_sys \<Rightarrow> addr \<Rightarrow> tstate" where "stof s p \<equiv> kt_state (ktasks s p)"

definition signal_pending :: "ktask \<Rightarrow> bool" where
  "signal_pending t \<longleftrightarrow> signal t AND NOT (blocked t) \<noteq> 0"

definition task_on_runqueue :: "addr \<Rightarrow> sched_sys \<Rightarrow> bool" where
  "task_on_runqueue p s \<longleftrightarrow> list_ex (\<lambda>c. p \<in> set (runq s c)) [0..<NR_CPUS]"

definition enqueue_task :: "nat \<Rightarrow> addr \<Rightarrow> sched_sys \<Rightarrow> sched_sys" where
  "enqueue_task c p s = s\<lparr>runq := (runq s)(c := runq s c @ [p])\<rparr>"

definition dequeue_task :: "addr \<Rightarrow> sched_sys \<Rightarrow> sched_sys" where
  "dequeue_task p s = s\<lparr>runq := \<lambda>c. remove1 p (runq s c)\<rparr>"

subsection \<open>Signals\<close>

text \<open>What \<open>SIGKILL\<close>, \<open>SIGCONT\<close> and the stop signals do when they are sent.\<close>

definition sig_continue :: "addr \<Rightarrow> sched_sys \<Rightarrow> sched_sys" where
  "sig_continue p s =
     (let s = (if stof s p = TASK_STOPPED then upd_task p (\<lambda>t. t\<lparr>kt_state := TASK_RUNNING\<rparr>) s else s)
      in upd_task p (\<lambda>t. t\<lparr>exit_code := 0,
           signal := signal t AND NOT (sigbit SIGSTOP OR sigbit SIGTSTP OR sigbit SIGTTIN OR sigbit SIGTTOU)\<rparr>) s)"

definition send_sig :: "nat \<Rightarrow> addr \<Rightarrow> sched_sys \<Rightarrow> errno option \<times> sched_sys" where
  "send_sig sig p s =
     (if p = NULL \<or> sig > 32 then (Some EINVAL, s)
      else if sig = 0 then (None, s)
      else if stof s p = TASK_ZOMBIE then (None, s)
      else
        let s = (if sig = SIGKILL \<or> sig = SIGCONT then sig_continue p s else s);
            s = (if sig \<ge> SIGSTOP \<and> sig \<le> SIGTTOU then upd_task p (\<lambda>t. t\<lparr>signal := signal t AND NOT (sigbit SIGCONT)\<rparr>) s else s);
            h = sa_handler (sigact (ktasks s p) (sig - 1))
        in if h = SIG_IGN \<and> sig \<noteq> SIGCHLD then (None, s)
           else if h = SIG_DFL \<and> (sig = SIGCONT \<or> sig = SIGCHLD \<or> sig = SIGWINCH) then (None, s)
           else (None, upd_task p (\<lambda>t. t\<lparr>signal := signal t OR sigbit sig\<rparr>) s))"

subsection \<open>Choosing a processor and waking\<close>

definition online_cpu_mask :: "sched_sys \<Rightarrow> u32" where
  "online_cpu_mask s = (if ncpus s \<noteq> 0 then push_bit (ncpus s) 1 - 1 else 1)"

fun select_loop :: "u32 \<Rightarrow> sched_sys \<Rightarrow> nat list \<Rightarrow> nat option \<Rightarrow> nat \<Rightarrow> nat option" where
  "select_loop allowed s [] best best_len = best"
| "select_loop allowed s (c # cs) best best_len =
     (if \<not> bit allowed c then select_loop allowed s cs best best_len
      else if length (runq s c) < best_len then select_loop allowed s cs (Some c) (length (runq s c))
      else select_loop allowed s cs best best_len)"

definition select_task_cpu :: "addr \<Rightarrow> sched_sys \<Rightarrow> nat" where
  "select_task_cpu p s =
     (let allowed = cpus_allowed (ktasks s p) AND online_cpu_mask s; allowed = (if allowed = 0 then 1 else allowed)
      in case select_loop allowed s [0..<ncpus s] None (NR_CPUS + 1) of None \<Rightarrow> kt_cpu (ktasks s p) | Some c \<Rightarrow> c)"

text \<open>\<open>self\<close> is the processor of the caller.\<close>

definition wake_up_process :: "nat \<Rightarrow> addr \<Rightarrow> sched_sys \<Rightarrow> sched_sys" where
  "wake_up_process self p s =
     (if p = NULL then s
      else
        let c = kt_cpu (ktasks s p); queued = task_on_runqueue p s;
            s = upd_task p (\<lambda>t. t\<lparr>kt_state := TASK_RUNNING\<rparr>) s
        in if queued then s
           else let s = enqueue_task c p s
                in if c \<noteq> self then s\<lparr>slog := slog s @ [Reschedule_ipi c]\<rparr>
                   else upd_task (curr s self) (\<lambda>t. t\<lparr>need_resched := True\<rparr>) s)"

subsection \<open>Switching tasks\<close>

text \<open>\<^verbatim>\<open>schedule\<close> on processor \<open>c\<close> reads the number \<open>cpu\<close> of its queue and its idle task from the structure
  of the current task. Its first half resolves the state of the task that leaves.\<close>

definition schedule_out :: "nat \<Rightarrow> nat \<Rightarrow> sched_sys \<Rightarrow> sched_sys" where
  "schedule_out c cpu s =
     (let cur = curr s c
      in if stof s cur \<noteq> TASK_RUNNING \<and> cur \<noteq> idle_task s cpu
         then if stof s cur = TASK_INTERRUPTIBLE \<and> signal_pending (ktasks s cur)
              then upd_task cur (\<lambda>t. t\<lparr>kt_state := TASK_RUNNING\<rparr>) s
              else if task_on_runqueue cur s then dequeue_task cur s else s
         else s)"

text \<open>The loop over all tasks wakes the sleepers that have a signal.\<close>

definition wake_signalled :: "nat \<Rightarrow> nat \<Rightarrow> addr \<Rightarrow> sched_sys \<Rightarrow> sched_sys" where
  "wake_signalled c cpu p s =
     (if p = curr s c \<or> stof s p \<noteq> TASK_INTERRUPTIBLE \<or> \<not> signal_pending (ktasks s p) then s
      else
        let s = upd_task p (\<lambda>t. t\<lparr>kt_state := TASK_RUNNING\<rparr>) s
        in if task_on_runqueue p s then s
           else let target = select_task_cpu p s;
                    s = enqueue_task target p (upd_task p (\<lambda>t. t\<lparr>kt_cpu := target\<rparr>) s)
                in if target \<noteq> cpu then s\<lparr>slog := slog s @ [Reschedule_ipi target]\<rparr> else s)"

definition recheck_current :: "nat \<Rightarrow> nat \<Rightarrow> sched_sys \<Rightarrow> sched_sys" where
  "recheck_current c cpu s =
     (let cur = curr s c
      in if stof s cur = TASK_INTERRUPTIBLE \<and> signal_pending (ktasks s cur)
         then let s = upd_task cur (\<lambda>t. t\<lparr>kt_state := TASK_RUNNING\<rparr>) s
              in if \<not> task_on_runqueue cur s then enqueue_task cpu cur s else s
         else s)"

fun pick_loop :: "sched_sys \<Rightarrow> addr list \<Rightarrow> int \<Rightarrow> addr \<Rightarrow> int \<times> addr" where
  "pick_loop s [] c nxt = (c, nxt)"
| "pick_loop s (p # ps) c nxt = (if counter (ktasks s p) > c then pick_loop s ps (counter (ktasks s p)) p else pick_loop s ps c nxt)"

definition refill :: "sched_sys \<Rightarrow> sched_sys" where
  "refill s = s\<lparr>ktasks := \<lambda>p. if p \<in> set (tlist s) then (ktasks s p)\<lparr>counter := DEF_COUNTER\<rparr> else ktasks s p\<rparr>"

text \<open>The new task becomes the one of the processor its structure names; the assertion is that this is the processor that
  switches. A task that has exited is marked as parked and its parent is told.\<close>

definition switch_to :: "nat \<Rightarrow> addr \<Rightarrow> sched_sys \<Rightarrow> sched_sys option" where
  "switch_to c n s =
     (let p = curr s c; s = s\<lparr>curr := (curr s)(kt_cpu (ktasks s n) := n)\<rparr>
      in if curr s c \<noteq> n then None
         else if stof s p = TASK_ZOMBIE then Some (upd_task p (\<lambda>t. t\<lparr>parked := True\<rparr>) (s\<lparr>slog := slog s @ [Notify_parent p]\<rparr>))
         else Some s)"

definition schedule_pick :: "nat \<Rightarrow> nat \<Rightarrow> sched_sys \<Rightarrow> sched_sys option" where
  "schedule_pick c cpu s =
     (let s = fold (wake_signalled c cpu) (tlist s) s;
          s = recheck_current c cpu s;
          (best, nxt) = pick_loop s (runq s cpu) (- 100) (idle_task s cpu);
          s = (if best = 0 then refill s else s);
          s = upd_task (curr s c) (\<lambda>t. t\<lparr>need_resched := False\<rparr>) s
      in if nxt \<noteq> curr s c then switch_to c nxt s else Some s)"

definition schedule :: "nat \<Rightarrow> sched_sys \<Rightarrow> sched_sys option" where
  "schedule c s = (let cpu = kt_cpu (ktasks s (curr s c)) in schedule_pick c cpu (schedule_out c cpu s))"

text \<open>What \<^verbatim>\<open>sys_exit_group\<close> does to every other thread of the group that has not exited.\<close>

definition exit_group_kill :: "nat \<Rightarrow> addr \<Rightarrow> sched_sys \<Rightarrow> sched_sys" where
  "exit_group_kill self p s =
     (if stof s p \<noteq> TASK_ZOMBIE
      then let s = snd (send_sig SIGKILL p s) in if stof s p \<noteq> TASK_RUNNING then wake_up_process self p s else s
      else s)"

subsection \<open>Affinity, ticks and the life of a task\<close>

definition sched_set_cpus_allowed :: "nat \<Rightarrow> addr \<Rightarrow> u32 \<Rightarrow> sched_sys \<Rightarrow> errno option \<times> sched_sys" where
  "sched_set_cpus_allowed self p msk s =
     (let allowed = msk AND online_cpu_mask s; cp = kt_cpu (ktasks s p)
      in if allowed = 0 then (Some EINVAL, s)
         else if p = curr s self \<and> \<not> bit allowed cp then (Some EINVAL, s)
         else
           let s = upd_task p (\<lambda>t. t\<lparr>cpus_allowed := allowed\<rparr>) s
           in if \<not> bit allowed cp \<and> stof s p \<noteq> TASK_RUNNING
              then case find (\<lambda>c. bit allowed c) [0..<ncpus s] of
                     None \<Rightarrow> (None, s) | Some c \<Rightarrow> (None, upd_task p (\<lambda>t. t\<lparr>kt_cpu := c\<rparr>) s)
              else (None, s))"

text \<open>The part of the timer interrupt that counts the time slice.\<close>

definition tick :: "nat \<Rightarrow> sched_sys \<Rightarrow> sched_sys" where
  "tick c s =
     (let cur = curr s c; n = counter (ktasks s cur)
      in if cur = idle_task s 0 then upd_task cur (\<lambda>t. t\<lparr>need_resched := True\<rparr>) s
         else if n > 0 then upd_task cur (\<lambda>t. t\<lparr>counter := n - 1, need_resched := (n - 1 = 0 \<or> need_resched t)\<rparr>) s
         else s)"

text \<open>Making a child: a copy of the current task that does not run yet.\<close>

definition new_task :: "nat \<Rightarrow> addr \<Rightarrow> int \<Rightarrow> sched_sys \<Rightarrow> sched_sys" where
  "new_task c p pid s =
     (let cur = ktasks s (curr s c);
          s = s\<lparr>ktasks := (ktasks s)(p := cur\<lparr>kt_state := TASK_UNINTERRUPTIBLE, kt_pid := pid, parked := False, kt_cpu := kt_cpu cur,
                 cpus_allowed := online_cpu_mask s, counter := (counter cur + 1) div 2, signal := 0\<rparr>)\<rparr>;
          s = upd_task (curr s c) (\<lambda>t. t\<lparr>counter := counter t div 2, need_resched := (counter t div 2 = 0 \<or> need_resched t)\<rparr>) s
      in s\<lparr>tlist := tlist s @ [p]\<rparr>)"

definition fork_task :: "nat \<Rightarrow> addr \<Rightarrow> int \<Rightarrow> sched_sys \<Rightarrow> sched_sys" where
  "fork_task c p pid s = wake_up_process c p (new_task c p pid s)"

definition reap :: "addr \<Rightarrow> sched_sys \<Rightarrow> sched_sys" where
  "reap p s = s\<lparr>tlist := remove1 p (tlist s)\<rparr>"

section \<open>Steps\<close>

text \<open>What the processors do. A task changes its own state, and the idle task does not sleep. Affinity is changed of tasks that are
  not on a run queue: the code asks only whether the state is \<^verbatim>\<open>TASK_RUNNING\<close>, and \<open>affinity_race\<close> below shows what it does
  to a task that is about to sleep. A task is reaped when it has exited and its processor has left it: \<^verbatim>\<open>sys_waitpid\<close>
  asks only whether it has exited. A signal may be sent while another processor is between the two halves of
  \<^verbatim>\<open>schedule\<close>.\<close>

inductive sent :: "sched_sys \<Rightarrow> sched_sys \<Rightarrow> bool" where
  none: "sent s s"
| more: "sent s s' \<Longrightarrow> p \<in> set (tlist s) \<Longrightarrow> sent s (snd (send_sig sig p s'))"

inductive sched_step :: "sched_sys \<Rightarrow> sched_sys \<Rightarrow> bool" where
  Set_state: "c < ncpus s \<Longrightarrow> curr s c \<noteq> idle_task s c \<Longrightarrow> sched_step s (upd_task (curr s c) (\<lambda>t. t\<lparr>kt_state := st\<rparr>) s)"
| Wake: "c < ncpus s \<Longrightarrow> p \<in> set (tlist s) \<Longrightarrow> sched_step s (wake_up_process c p s)"
| Signal: "p \<in> set (tlist s) \<Longrightarrow> sched_step s (snd (send_sig sig p s))"
| Schedule: "c < ncpus s \<Longrightarrow> cpu = kt_cpu (ktasks s (curr s c)) \<Longrightarrow> sent (schedule_out c cpu s) s' \<Longrightarrow> schedule_pick c cpu s' = Some s'' \<Longrightarrow> sched_step s s''"
| Affinity: "c < ncpus s \<Longrightarrow> p \<in> set (tlist s) \<Longrightarrow> \<not> task_on_runqueue p s \<Longrightarrow> sched_step s (snd (sched_set_cpus_allowed c p m s))"
| Tick: "c < ncpus s \<Longrightarrow> sched_step s (tick c s)"
| New: "c < ncpus s \<Longrightarrow> p \<notin> set (tlist s) \<Longrightarrow> p \<noteq> NULL \<Longrightarrow> \<forall>d < ncpus s. p \<noteq> idle_task s d \<Longrightarrow> sched_step s (new_task c p pid s)"
| Reap: "p \<in> set (tlist s) \<Longrightarrow> stof s p = TASK_ZOMBIE \<Longrightarrow> parked (ktasks s p) \<Longrightarrow> \<not> task_on_runqueue p s \<Longrightarrow> sched_step s (reap p s)"

definition sched_boot :: "sched_sys \<Rightarrow> bool" where
  "sched_boot s \<longleftrightarrow> 0 < ncpus s \<and> ncpus s \<le> NR_CPUS \<and> tlist s = [] \<and> (\<forall>c. runq s c = []) \<and> (\<forall>c < ncpus s. curr s c = idle_task s c) \<and>
     (\<forall>c < ncpus s. kt_cpu (ktasks s (idle_task s c)) = c \<and> stof s (idle_task s c) = TASK_RUNNING \<and> 0 \<le> counter (ktasks s (idle_task s c)))"

inductive sched_reach :: "sched_sys \<Rightarrow> bool" where
  boot: "sched_boot s \<Longrightarrow> sched_reach s"
| step: "sched_reach s \<Longrightarrow> sched_step s s' \<Longrightarrow> sched_reach s'"

section \<open>Invariant\<close>

text \<open>Run queues have no repetition, a queued task is queued on the processor its structure names, and the task of a processor is
  idle or on its queue. Processors in \<open>X\<close> are in the middle of \<^verbatim>\<open>schedule\<close>: their task may be off the queue.\<close>

definition sched_inv :: "nat set \<Rightarrow> sched_sys \<Rightarrow> bool" where
  "sched_inv X s \<longleftrightarrow> 0 < ncpus s \<and> ncpus s \<le> NR_CPUS \<and> NULL \<notin> set (tlist s) \<and> distinct (tlist s) \<and>
     (\<forall>p \<in> set (tlist s). kt_cpu (ktasks s p) < ncpus s) \<and>
     (\<forall>c < ncpus s. kt_cpu (ktasks s (idle_task s c)) = c \<and> stof s (idle_task s c) = TASK_RUNNING \<and> idle_task s c \<notin> set (tlist s)) \<and>
     (\<forall>c. distinct (runq s c) \<and> (\<forall>p \<in> set (runq s c). c < ncpus s \<and> p \<in> set (tlist s) \<and> kt_cpu (ktasks s p) = c)) \<and>
     (\<forall>c < ncpus s. curr s c = idle_task s c \<or>
        curr s c \<in> set (tlist s) \<and> kt_cpu (ktasks s (curr s c)) = c \<and> (c \<in> X \<or> curr s c \<in> set (runq s c)))"

lemma sched_invD:
  assumes "sched_inv X s"
  shows "0 < ncpus s" "ncpus s \<le> NR_CPUS" "NULL \<notin> set (tlist s)" "distinct (tlist s)"
    "p \<in> set (tlist s) \<Longrightarrow> kt_cpu (ktasks s p) < ncpus s"
    "c < ncpus s \<Longrightarrow> kt_cpu (ktasks s (idle_task s c)) = c" "c < ncpus s \<Longrightarrow> stof s (idle_task s c) = TASK_RUNNING"
    "c < ncpus s \<Longrightarrow> idle_task s c \<notin> set (tlist s)"
    "distinct (runq s c)" "p \<in> set (runq s c) \<Longrightarrow> c < ncpus s \<and> p \<in> set (tlist s) \<and> kt_cpu (ktasks s p) = c"
    "c < ncpus s \<Longrightarrow> curr s c = idle_task s c \<or> curr s c \<in> set (tlist s) \<and> kt_cpu (ktasks s (curr s c)) = c \<and> (c \<in> X \<or> curr s c \<in> set (runq s c))"
  using assms unfolding sched_inv_def by blast+

lemma curr_cpu: "sched_inv X s \<Longrightarrow> c < ncpus s \<Longrightarrow> kt_cpu (ktasks s (curr s c)) = c"
  using sched_invD(6,11) [of X s c] by metis

lemma on_runqueue:
  assumes "sched_inv X s"
  shows "task_on_runqueue p s \<longleftrightarrow> (\<exists>c. p \<in> set (runq s c))" "task_on_runqueue p s \<longleftrightarrow> p \<in> set (runq s (kt_cpu (ktasks s p)))"
proof -
  have "c < NR_CPUS \<and> c = kt_cpu (ktasks s p)" if "p \<in> set (runq s c)" for c
    using sched_invD(10) [OF assms that] less_le_trans [OF _ sched_invD(2) [OF assms], of c] by simp
  moreover have "task_on_runqueue p s \<longleftrightarrow> (\<exists>c < NR_CPUS. p \<in> set (runq s c))"
    unfolding task_on_runqueue_def list_ex_iff set_upt by (simp add: Bex_def)
  ultimately show "task_on_runqueue p s \<longleftrightarrow> (\<exists>c. p \<in> set (runq s c))" "task_on_runqueue p s \<longleftrightarrow> p \<in> set (runq s (kt_cpu (ktasks s p)))"
    by metis+
qed

text \<open>Changes of a task that keep its processor, and of an idle task its state, keep the invariant.\<close>

lemma inv_upd:
  assumes v: "sched_inv X s" and k: "kt_cpu (f (ktasks s p)) = kt_cpu (ktasks s p)"
    and r: "p \<in> set (tlist s) \<or> kt_state (f (ktasks s p)) = kt_state (ktasks s p) \<or> kt_state (f (ktasks s p)) = TASK_RUNNING"
  shows "sched_inv X (upd_task p f s)"
proof -
  have k': "kt_cpu (ktasks (upd_task p f s) q) = kt_cpu (ktasks s q)" for q using k by (simp add: upd_task_def)
  have st: "stof (upd_task p f s) (idle_task s c) = TASK_RUNNING" if "c < ncpus s" for c
    using r sched_invD(7,8) [OF v that] by (cases "p = idle_task s c") (auto simp: upd_task_def)
  show ?thesis using v st unfolding sched_inv_def k' by (simp add: upd_task_def)
qed

lemma inv_slog [simp]: "sched_inv X (s\<lparr>slog := l\<rparr>) \<longleftrightarrow> sched_inv X s"
  by (simp add: sched_inv_def)

lemma inv_mono: "sched_inv X s \<Longrightarrow> X \<subseteq> Y \<Longrightarrow> sched_inv Y s"
  unfolding sched_inv_def by blast

lemma inv_enqueue:
  assumes v: "sched_inv X s" and p: "p \<in> set (tlist s)" "kt_cpu (ktasks s p) = c" "\<not> task_on_runqueue p s"
  shows "sched_inv X (enqueue_task c p s)"
proof -
  have "c < ncpus s" using sched_invD(5) [OF v p(1)] p(2) by simp
  moreover have "p \<notin> set (runq s c)" using p(3) on_runqueue(1) [OF v] by blast
  ultimately show ?thesis using v p(1,2) unfolding sched_inv_def by (simp add: enqueue_task_def) blast
qed

lemma inv_dequeue:
  assumes v: "sched_inv X s" and c: "c < ncpus s" "curr s c = p"
  shows "sched_inv (insert c X) (dequeue_task p s)"
proof -
  have "curr s d \<in> set (remove1 p (runq s d))" if "d \<noteq> c" "curr s d \<in> set (runq s d)" for d
  proof -
    have "curr s d \<noteq> p"
    proof
      assume e: "curr s d = p"
      have "d < ncpus s \<and> p \<in> set (tlist s) \<and> kt_cpu (ktasks s p) = d" using sched_invD(10) [OF v that(2)] e by simp
      then show False using sched_invD(8,11) [OF v c(1)] c(2) that(1) by metis
    qed
    then show ?thesis using that(2) by (simp add: in_set_remove1)
  qed
  moreover have "distinct (remove1 p (runq s d)) \<and> (\<forall>q \<in> set (remove1 p (runq s d)). d < ncpus s \<and> q \<in> set (tlist s) \<and> kt_cpu (ktasks s q) = d)" for d
    using sched_invD(9,10) [OF v] notin_set_remove1 [of _ _ p] by (metis distinct_remove1)
  ultimately show ?thesis using v unfolding sched_inv_def dequeue_task_def by simp blast
qed

text \<open>A task that no processor runs and no queue holds may get another processor.\<close>

lemma inv_move:
  assumes v: "sched_inv X s" and p: "p \<in> set (tlist s)" "\<not> task_on_runqueue p s" "\<forall>d < ncpus s. curr s d \<noteq> p" and t: "t < ncpus s"
  shows "sched_inv X (upd_task p (\<lambda>k. k\<lparr>kt_cpu := t\<rparr>) s)"
proof -
  have "p \<notin> set (runq s c)" for c using p(2) on_runqueue(1) [OF v] by blast
  then have q: "\<forall>c. \<forall>q \<in> set (runq s c). q \<noteq> p" by blast
  have i: "\<forall>c < ncpus s. idle_task s c \<noteq> p" using sched_invD(8) [OF v] p(1) by blast
  show ?thesis using v q i p(3) t unfolding sched_inv_def upd_task_def by simp
qed

text \<open>A step that touches one task, keeps its processor, and its state but that a stopped task may run again.\<close>

definition touches :: "addr \<Rightarrow> sched_sys \<Rightarrow> sched_sys \<Rightarrow> bool" where
  "touches p s s' \<longleftrightarrow> s' = upd_task p (\<lambda>_. ktasks s' p) s \<and> kt_cpu (ktasks s' p) = kt_cpu (ktasks s p) \<and>
     (stof s' p = stof s p \<or> stof s p = TASK_STOPPED \<and> stof s' p = TASK_RUNNING)"

lemma touches_refl: "touches p s s"
  by (simp add: touches_def upd_task_def)

lemma touches_upd:
  assumes "touches p s s'" "\<And>t. kt_cpu (f t) = kt_cpu t" "\<And>t. kt_state (f t) = kt_state t"
  shows "touches p s (upd_task p f s')"
proof -
  have "upd_task p f s' = upd_task p f (upd_task p (\<lambda>_. ktasks s' p) s)" using assms(1) by (simp add: touches_def)
  then have "upd_task p f s' = upd_task p (\<lambda>_. ktasks (upd_task p f s') p) s" by (simp add: upd_task_def)
  then show ?thesis using assms by (simp add: touches_def upd_task_def)
qed

lemma touches_send: "touches p s (snd (send_sig sig p s))"
proof -
  define s1 where "s1 = (if sig = SIGKILL \<or> sig = SIGCONT then sig_continue p s else s)"
  define s2 where "s2 = (if sig \<ge> SIGSTOP \<and> sig \<le> SIGTTOU then upd_task p (\<lambda>t. t\<lparr>signal := signal t AND NOT (sigbit SIGCONT)\<rparr>) s1 else s1)"
  have "touches p s (if stof s p = TASK_STOPPED then upd_task p (\<lambda>t. t\<lparr>kt_state := TASK_RUNNING\<rparr>) s else s)"
    by (simp add: touches_def upd_task_def)
  then have "touches p s (sig_continue p s)" unfolding sig_continue_def Let_def by (rule touches_upd) simp_all
  then have "touches p s s1" by (simp add: s1_def touches_refl)
  then have "touches p s s2" using touches_upd [of p s s1] by (simp add: s2_def)
  moreover have "snd (send_sig sig p s) \<in> {s, s2, upd_task p (\<lambda>t. t\<lparr>signal := signal t OR sigbit sig\<rparr>) s2}"
    unfolding send_sig_def Let_def s1_def [symmetric] s2_def [symmetric] by simp
  ultimately show ?thesis using touches_refl [of p s] touches_upd [of p s s2 "\<lambda>t. t\<lparr>signal := signal t OR sigbit sig\<rparr>"] by auto
qed

definition same_queues :: "sched_sys \<Rightarrow> sched_sys \<Rightarrow> bool" where
  "same_queues s s' \<longleftrightarrow> tlist s' = tlist s \<and> ncpus s' = ncpus s \<and> idle_task s' = idle_task s \<and> curr s' = curr s"

lemma touches_queues: "touches p s s' \<Longrightarrow> same_queues s s' \<and> runq s' = runq s \<and> (\<forall>q. q \<noteq> p \<longrightarrow> ktasks s' q = ktasks s q)"
  unfolding touches_def same_queues_def upd_task_def
  by (elim conjE) (erule ssubst, simp)

lemma touches_inv: "touches p s s' \<Longrightarrow> sched_inv X s \<Longrightarrow> p \<in> set (tlist s) \<Longrightarrow> sched_inv X s'"
  using inv_upd [of X s "\<lambda>_. ktasks s' p" p] unfolding touches_def by metis

lemma same_queues_refl: "same_queues s s"
  by (simp add: same_queues_def)

lemma same_queues_trans: "same_queues s s' \<Longrightarrow> same_queues s' s'' \<Longrightarrow> same_queues s s''"
  by (simp add: same_queues_def)

lemma same_queues_ops [simp]:
  "same_queues s (upd_task p f s') \<longleftrightarrow> same_queues s s'" "same_queues s (enqueue_task c p s') \<longleftrightarrow> same_queues s s'"
  "same_queues s (s'\<lparr>slog := l\<rparr>) \<longleftrightarrow> same_queues s s'"
  by (simp_all add: same_queues_def upd_task_def enqueue_task_def)

lemma sent_inv:
  assumes "sent s s'" "sched_inv X s"
  shows "sched_inv X s' \<and> same_queues s s' \<and> runq s' = runq s"
  using assms
proof (induction rule: sent.induct)
  case (more s s' p sig)
  then have i: "sched_inv X s'" "same_queues s s'" "runq s' = runq s" by auto
  note t = touches_send [of p s' sig]
  have "p \<in> set (tlist s')" using more.hyps i(2) by (simp add: same_queues_def)
  then show ?case using touches_inv [OF t i(1)] touches_queues [OF t] same_queues_trans [OF i(2)] i(3) by simp
qed (simp add: same_queues_refl)

lemma wake_up_process_inv:
  assumes v: "sched_inv X s" and p: "p \<in> set (tlist s)"
  shows "sched_inv X (wake_up_process c p s)"
proof -
  let ?s = "upd_task p (\<lambda>t. t\<lparr>kt_state := TASK_RUNNING\<rparr>) s" and ?d = "kt_cpu (ktasks s p)"
  have i: "sched_inv X ?s" by (rule inv_upd [OF v]) simp_all
  have e: "sched_inv X (enqueue_task ?d p ?s)" if "\<not> task_on_runqueue p s"
    by (rule inv_enqueue [OF i]) (use p that in \<open>simp_all add: upd_task_def task_on_runqueue_def\<close>)
  have "sched_inv X (upd_task q (\<lambda>t. t\<lparr>need_resched := True\<rparr>) (enqueue_task ?d p ?s))" if "\<not> task_on_runqueue p s" for q
    by (rule inv_upd [OF e [OF that]]) simp_all
  then show ?thesis using v i e by (auto simp: wake_up_process_def Let_def)
qed

lemma select_loop_in: "select_loop a s cs b n = Some c \<Longrightarrow> c \<in> set cs \<or> b = Some c"
  by (induction cs arbitrary: b n) (auto split: if_splits)

lemma select_task_cpu_less:
  assumes "sched_inv X s" "p \<in> set (tlist s)"
  shows "select_task_cpu p s < ncpus s"
  using select_loop_in [of _ s "[0..<ncpus s]" None] sched_invD(5) [OF assms]
  by (fastforce simp: select_task_cpu_def Let_def split: option.split)

lemma curr_queued:
  assumes "sched_inv {c} s" "p \<in> set (tlist s)" "p \<noteq> curr s c" "\<not> task_on_runqueue p s"
  shows "\<forall>d < ncpus s. curr s d \<noteq> p"
proof (intro allI impI notI)
  fix d assume d: "d < ncpus s" "curr s d = p"
  then have "p \<noteq> idle_task s d" using sched_invD(8) [OF assms(1) d(1)] assms(2) by auto
  then have "d = c \<or> p \<in> set (runq s d)" using sched_invD(11) [OF assms(1) d(1)] d(2) by auto
  then show False using assms(3,4) d(2) on_runqueue(1) [OF assms(1)] by auto
qed

lemma wake_signalled_inv:
  assumes v: "sched_inv {c} s" and p: "p \<in> set (tlist s)"
  shows "sched_inv {c} (wake_signalled c c p s)" "same_queues s (wake_signalled c c p s)"
proof -
  let ?s = "upd_task p (\<lambda>t. t\<lparr>kt_state := TASK_RUNNING\<rparr>) s"
  let ?t = "select_task_cpu p ?s"
  have i: "sched_inv {c} ?s" by (rule inv_upd [OF v]) simp_all
  have e: "sched_inv {c} (enqueue_task ?t p (upd_task p (\<lambda>t. t\<lparr>kt_cpu := ?t\<rparr>) ?s))" if "p \<noteq> curr s c" "\<not> task_on_runqueue p ?s"
  proof (rule inv_enqueue)
    show "sched_inv {c} (upd_task p (\<lambda>t. t\<lparr>kt_cpu := ?t\<rparr>) ?s)"
    proof (rule inv_move [OF i])
      show "?t < ncpus ?s" by (rule select_task_cpu_less [OF i]) (use p in \<open>simp add: upd_task_def\<close>)
      show "\<forall>d < ncpus ?s. curr ?s d \<noteq> p" by (rule curr_queued [OF i]) (use p that in \<open>simp_all add: upd_task_def\<close>)
    qed (use p that in \<open>simp_all add: upd_task_def\<close>)
  qed (use p that in \<open>simp_all add: upd_task_def task_on_runqueue_def\<close>)
  show "sched_inv {c} (wake_signalled c c p s)" using v i e by (auto simp: wake_signalled_def Let_def)
  show "same_queues s (wake_signalled c c p s)" by (simp add: wake_signalled_def Let_def same_queues_refl)
qed

lemma wake_all_inv:
  assumes "sched_inv {c} s" "set ps \<subseteq> set (tlist s)"
  shows "sched_inv {c} (fold (wake_signalled c c) ps s) \<and> same_queues s (fold (wake_signalled c c) ps s)"
  using assms
proof (induction ps arbitrary: s)
  case (Cons p ps)
  have p: "p \<in> set (tlist s)" using Cons.prems(2) by simp
  note w = wake_signalled_inv [OF Cons.prems(1) p]
  have "set ps \<subseteq> set (tlist (wake_signalled c c p s))" using Cons.prems(2) w(2) by (simp add: same_queues_def)
  from Cons.IH [OF w(1) this] show ?case using same_queues_trans [OF w(2)] by simp
qed (simp add: same_queues_refl)

lemma recheck_inv:
  assumes v: "sched_inv {c} s" and c: "c < ncpus s"
  shows "sched_inv {c} (recheck_current c c s)" "same_queues s (recheck_current c c s)"
proof -
  let ?p = "curr s c"
  let ?s = "upd_task ?p (\<lambda>t. t\<lparr>kt_state := TASK_RUNNING\<rparr>) s"
  have i: "sched_inv {c} ?s" by (rule inv_upd [OF v]) simp_all
  have "sched_inv {c} (enqueue_task c ?p ?s)" if "stof s ?p = TASK_INTERRUPTIBLE" "\<not> task_on_runqueue ?p ?s"
  proof (rule inv_enqueue [OF i])
    have "?p \<noteq> idle_task s c" using that(1) sched_invD(7) [OF v c] by auto
    then show "?p \<in> set (tlist ?s)" "kt_cpu (ktasks ?s ?p) = c" using sched_invD(11) [OF v c] by (simp_all add: upd_task_def)
  qed (use that in simp)
  then show "sched_inv {c} (recheck_current c c s)" using v i by (simp add: recheck_current_def Let_def)
  show "same_queues s (recheck_current c c s)" by (simp add: recheck_current_def Let_def same_queues_refl)
qed

text \<open>The choice: the first task with the greatest time slice that is left.\<close>

lemma pick_loop_max:
  assumes "pick_loop s ps c n = (b, x)"
  shows "(b, x) = (c, n) \<and> (\<forall>p \<in> set ps. counter (ktasks s p) \<le> c) \<or>
    (\<exists>us vs. ps = us @ x # vs \<and> b = counter (ktasks s x) \<and> c < b \<and> (\<forall>p \<in> set us. counter (ktasks s p) < b) \<and> (\<forall>p \<in> set vs. counter (ktasks s p) \<le> b))"
  using assms
proof (induction ps arbitrary: c n)
  case (Cons p ps)
  show ?case
  proof (cases "counter (ktasks s p) > c")
    case True
    from Cons.IH [of "counter (ktasks s p)" p] Cons.prems True consider
      "(b, x) = (counter (ktasks s p), p)" "\<forall>q \<in> set ps. counter (ktasks s q) \<le> b" |
      us vs where "ps = us @ x # vs" "b = counter (ktasks s x)" "counter (ktasks s p) < b" "\<forall>q \<in> set us. counter (ktasks s q) < b" "\<forall>q \<in> set vs. counter (ktasks s q) \<le> b"
      by auto
    then show ?thesis
    proof cases
      case 1
      then show ?thesis using True by (intro disjI2 exI [of _ "[]"] exI [of _ ps]) auto
    next
      case 2
      then show ?thesis using True by (intro disjI2 exI [of _ "p # us"] exI [of _ vs]) auto
    qed
  next
    case False
    from Cons.IH [of c n] Cons.prems False consider
      "(b, x) = (c, n)" "\<forall>q \<in> set ps. counter (ktasks s q) \<le> c" |
      us vs where "ps = us @ x # vs" "b = counter (ktasks s x)" "c < b" "\<forall>q \<in> set us. counter (ktasks s q) < b" "\<forall>q \<in> set vs. counter (ktasks s q) \<le> b"
      by auto
    then show ?thesis
    proof cases
      case 1
      then show ?thesis using False by auto
    next
      case 2
      then show ?thesis using False by (intro disjI2 exI [of _ "p # us"] exI [of _ vs]) auto
    qed
  qed
qed simp

lemma pick_loop_in: "pick_loop s ps c n = (b, x) \<Longrightarrow> x = n \<or> x \<in> set ps"
  by (drule pick_loop_max) auto

lemma schedule_out_inv:
  assumes v: "sched_inv {} s" and c: "c < ncpus s"
  shows "sched_inv {c} (schedule_out c c s)" "same_queues s (schedule_out c c s)"
proof -
  have w: "sched_inv {c} s" by (rule inv_mono [OF v]) simp
  have "sched_inv {c} (upd_task (curr s c) (\<lambda>t. t\<lparr>kt_state := TASK_RUNNING\<rparr>) s)" by (rule inv_upd [OF w]) simp_all
  moreover have "sched_inv {c} (dequeue_task (curr s c) s)" by (rule inv_dequeue [OF v c refl])
  ultimately show "sched_inv {c} (schedule_out c c s)" using w by (simp add: schedule_out_def Let_def)
  show "same_queues s (schedule_out c c s)" by (simp add: schedule_out_def Let_def same_queues_refl) (simp add: same_queues_def dequeue_task_def)
qed

lemma inv_close:
  assumes "sched_inv {c} s" "curr s c = idle_task s c \<or> curr s c \<in> set (runq s c)"
  shows "sched_inv {} s"
  using assms unfolding sched_inv_def by auto

lemma inv_switch:
  assumes "sched_inv {c} s" "c < ncpus s" "x = idle_task s c \<or> x \<in> set (runq s c)"
  shows "sched_inv {} (s\<lparr>curr := (curr s)(c := x)\<rparr>)"
  using assms unfolding sched_inv_def by auto

lemma refill_inv: "sched_inv X (refill s) \<longleftrightarrow> sched_inv X s"
proof -
  have "kt_cpu (ktasks (refill s) p) = kt_cpu (ktasks s p)" "stof (refill s) p = stof s p" for p by (simp_all add: refill_def)
  then show ?thesis by (simp add: sched_inv_def) (simp add: refill_def)
qed

text \<open>The state in which \<^verbatim>\<open>schedule\<close> chooses, and the task it chooses.\<close>

definition choosing :: "nat \<Rightarrow> sched_sys \<Rightarrow> sched_sys" where
  "choosing c s = recheck_current c c (fold (wake_signalled c c) (tlist s) s)"

lemma choosing_inv:
  assumes "sched_inv {c} s" "c < ncpus s"
  shows "sched_inv {c} (choosing c s)" "same_queues s (choosing c s)"
proof -
  note w = wake_all_inv [OF assms(1) subset_refl]
  have "c < ncpus (fold (wake_signalled c c) (tlist s) s)" using w assms(2) by (simp add: same_queues_def)
  then show "sched_inv {c} (choosing c s)" "same_queues s (choosing c s)"
    using recheck_inv [OF conjunct1 [OF w]] same_queues_trans [OF conjunct2 [OF w]] by (simp_all add: choosing_def)
qed

lemma schedule_pick_ok:
  assumes v: "sched_inv {c} s" and c: "c < ncpus s" and x: "pick_loop (choosing c s) (runq (choosing c s) c) (- 100) (idle_task s c) = (b, x)"
  shows "\<exists>s'. schedule_pick c c s = Some s' \<and> sched_inv {} s' \<and> curr s' = (curr s)(c := x) \<and> tlist s' = tlist s \<and> runq s' = runq (choosing c s) \<and>
    ncpus s' = ncpus s \<and> idle_task s' = idle_task s \<and> (\<forall>p. stof s' p = stof (choosing c s) p) \<and>
    (\<forall>p. counter (ktasks s' p) = (if b = 0 \<and> p \<in> set (tlist s) then DEF_COUNTER else counter (ktasks (choosing c s) p)))"
proof -
  let ?s = "choosing c s"
  note I = choosing_inv [OF v c]
  have q: "tlist ?s = tlist s" "ncpus ?s = ncpus s" "idle_task ?s = idle_task s" "curr ?s = curr s" using I(2) by (simp_all add: same_queues_def)
  define s3 where "s3 = (if b = 0 then refill ?s else ?s)"
  define s4 where "s4 = upd_task (curr s c) (\<lambda>t. t\<lparr>need_resched := False\<rparr>) s3"
  have f3: "runq s3 = runq ?s" "curr s3 = curr s" "tlist s3 = tlist s" "ncpus s3 = ncpus s" "idle_task s3 = idle_task s" "\<And>p. stof s3 p = stof ?s p"
    "\<And>p. counter (ktasks s3 p) = (if b = 0 \<and> p \<in> set (tlist s) then DEF_COUNTER else counter (ktasks ?s p))"
    using q by (simp_all add: s3_def refill_def)
  have f4: "runq s4 = runq ?s" "curr s4 = curr s" "tlist s4 = tlist s" "ncpus s4 = ncpus s" "idle_task s4 = idle_task s" "\<And>p. stof s4 p = stof ?s p"
    "\<And>p. counter (ktasks s4 p) = (if b = 0 \<and> p \<in> set (tlist s) then DEF_COUNTER else counter (ktasks ?s p))"
    using f3 by (simp_all add: s4_def upd_task_def)
  have i3: "sched_inv {c} s3" using I(1) by (simp add: s3_def refill_inv)
  have i4: "sched_inv {c} s4" unfolding s4_def by (rule inv_upd [OF i3]) simp_all
  have xin: "x = idle_task s4 c \<or> x \<in> set (runq s4 c)" using pick_loop_in [OF x] by (simp add: f4)
  have pick: "schedule_pick c c s = (if x \<noteq> curr s c then switch_to c x s4 else Some s4)"
    unfolding schedule_pick_def Let_def choosing_def [symmetric] q(3) x prod.case s3_def [symmetric] f3(2) s4_def [symmetric] f4(2) ..
  show ?thesis
  proof (cases "x = curr s c")
    case True
    then have "sched_inv {} s4" using inv_close [OF i4] xin f4(2) by simp
    then show ?thesis using pick True f4 by (intro exI [of _ s4]) auto
  next
    case False
    let ?s5 = "s4\<lparr>curr := (curr s)(c := x)\<rparr>"
    have i5: "sched_inv {} ?s5" using inv_switch [OF i4 _ xin] c by (simp add: f4)
    have "kt_cpu (ktasks s4 x) = c" using xin sched_invD(6,10) [OF i4] c by (auto simp: f4(4))
    then have sw: "switch_to c x s4 = Some (if stof s4 (curr s c) = TASK_ZOMBIE
        then upd_task (curr s c) (\<lambda>t. t\<lparr>parked := True\<rparr>) (?s5\<lparr>slog := slog s4 @ [Notify_parent (curr s c)]\<rparr>) else ?s5)"
      by (simp add: switch_to_def Let_def f4(2))
    have "sched_inv {} (upd_task (curr s c) (\<lambda>t. t\<lparr>parked := True\<rparr>) (?s5\<lparr>slog := slog s4 @ [Notify_parent (curr s c)]\<rparr>))"
      by (rule inv_upd) (use i5 in simp_all)
    then show ?thesis using pick False sw i5 f4 by (auto simp: upd_task_def)
  qed
qed

lemma schedule_pick_inv:
  assumes "sched_inv {c} s" "c < ncpus s"
  shows "\<exists>s'. schedule_pick c c s = Some s' \<and> sched_inv {} s'"
  using schedule_pick_ok [OF assms] by (cases "pick_loop (choosing c s) (runq (choosing c s) c) (- 100) (idle_task s c)") blast

lemma inv_fresh:
  assumes v: "sched_inv {} s" and p: "p \<notin> set (tlist s)" "\<forall>d < ncpus s. p \<noteq> idle_task s d"
  shows "sched_inv {} (s\<lparr>ktasks := (ktasks s)(p := t)\<rparr>)"
proof -
  have "q \<noteq> p" if "q \<in> set (tlist s) \<or> (\<exists>d < ncpus s. q = idle_task s d \<or> q = curr s d) \<or> (\<exists>c. q \<in> set (runq s c))" for q
    using that p sched_invD(10,11) [OF v] by metis
  then have "ktasks (s\<lparr>ktasks := (ktasks s)(p := t)\<rparr>) q = ktasks s q"
    if "q \<in> set (tlist s) \<or> (\<exists>d < ncpus s. q = idle_task s d \<or> q = curr s d) \<or> (\<exists>c. q \<in> set (runq s c))" for q using that by simp
  then show ?thesis using v unfolding sched_inv_def by (simp del: fun_upd_apply) metis
qed

lemma inv_append:
  assumes "sched_inv {} s" "p \<notin> set (tlist s)" "\<forall>d < ncpus s. p \<noteq> idle_task s d" "p \<noteq> NULL" "kt_cpu (ktasks s p) < ncpus s"
  shows "sched_inv {} (s\<lparr>tlist := tlist s @ [p]\<rparr>)"
  using assms unfolding sched_inv_def by simp blast

lemma sched_step_inv:
  assumes "sched_step s s'" "sched_inv {} s"
  shows "sched_inv {} s'"
  using assms
proof cases
  case (Set_state c st)
  then have "curr s c \<in> set (tlist s)" using sched_invD(11) [OF assms(2)] by auto
  then show ?thesis unfolding Set_state(1) by (intro inv_upd [OF assms(2)]) simp_all
next
  case (Wake c p)
  then show ?thesis using wake_up_process_inv [OF assms(2)] by simp
next
  case (Signal p sig)
  then show ?thesis using touches_inv [OF touches_send assms(2)] by simp
next
  case (Schedule c cpu s1)
  have e: "cpu = c" using curr_cpu [OF assms(2) Schedule(1)] Schedule(2) by simp
  note o = schedule_out_inv [OF assms(2) Schedule(1)]
  from sent_inv [OF Schedule(3) [unfolded e] o(1)] have "sched_inv {c} s1" "c < ncpus s1" using o(2) Schedule(1) by (simp_all add: same_queues_def)
  then show ?thesis using schedule_pick_inv Schedule(4) e by fastforce
next
  case (Affinity c p m)
  have p: "\<forall>d < ncpus s. curr s d \<noteq> p"
  proof (intro allI impI notI)
    fix d assume "d < ncpus s" "curr s d = p"
    then show False using sched_invD(8,11) [OF assms(2)] Affinity(3,4) on_runqueue(1) [OF assms(2)] by (metis empty_iff)
  qed
  let ?a = "m AND online_cpu_mask s"
  let ?s = "upd_task p (\<lambda>t. t\<lparr>cpus_allowed := ?a\<rparr>) s"
  have i: "sched_inv {} ?s" by (rule inv_upd [OF assms(2)]) simp_all
  have "sched_inv {} (upd_task p (\<lambda>t. t\<lparr>kt_cpu := d\<rparr>) ?s)" if "find (\<lambda>c. bit ?a c) [0..<ncpus s] = Some d" for d
  proof (rule inv_move [OF i])
    show "d < ncpus ?s" using that by (auto simp: find_Some_iff upd_task_def)
  qed (use Affinity(3,4) p in \<open>simp_all add: upd_task_def task_on_runqueue_def\<close>)
  then show ?thesis using assms(2) i unfolding Affinity(1) sched_set_cpus_allowed_def Let_def
    by (simp add: upd_task_def split: option.split)
next
  case (Tick c)
  have "sched_inv {} (upd_task p (\<lambda>t. t\<lparr>need_resched := True\<rparr>) s)" "sched_inv {} (upd_task p (\<lambda>t. t\<lparr>counter := n, need_resched := b t\<rparr>) s)" for p n b
    by (rule inv_upd [OF assms(2)]; simp)+
  then show ?thesis using assms(2) by (simp add: Tick(1) tick_def Let_def)
next
  case (New c p pid)
  have ne: "curr s c \<noteq> p" using sched_invD(11) [OF assms(2) New(2)] New by auto
  have k: "kt_cpu (ktasks s (curr s c)) = c" by (rule curr_cpu [OF assms(2) New(2)])
  define s1 where "s1 = s\<lparr>ktasks := (ktasks s)(p := (ktasks s (curr s c))\<lparr>kt_state := TASK_UNINTERRUPTIBLE, kt_pid := pid, parked := False,
    kt_cpu := kt_cpu (ktasks s (curr s c)), cpus_allowed := online_cpu_mask s, counter := (counter (ktasks s (curr s c)) + 1) div 2, signal := 0\<rparr>)\<rparr>"
  have "sched_inv {} s1" unfolding s1_def by (rule inv_fresh [OF assms(2) New(3,5)])
  then have "sched_inv {} (upd_task (curr s c) (\<lambda>t. t\<lparr>counter := counter t div 2, need_resched := (counter t div 2 = 0 \<or> need_resched t)\<rparr>) s1)" (is "sched_inv {} ?s2")
    by (rule inv_upd) simp_all
  then have "sched_inv {} (?s2\<lparr>tlist := tlist ?s2 @ [p]\<rparr>)"
    using New ne k by (intro inv_append) (simp_all add: s1_def upd_task_def)
  moreover have "new_task c p pid s = ?s2\<lparr>tlist := tlist ?s2 @ [p]\<rparr>" by (simp add: new_task_def Let_def s1_def ne upd_task_def)
  ultimately show ?thesis by (simp add: New(1))
next
  case (Reap p)
  have "p \<notin> set (runq s d)" for d using Reap(5) on_runqueue(1) [OF assms(2)] by blast
  then have r: "\<forall>c. \<forall>q \<in> set (runq s c). q \<in> set (remove1 p (tlist s))" using sched_invD(10) [OF assms(2)] by (metis in_set_remove1)
  have "\<forall>c < ncpus s. curr s c = idle_task s c \<or> curr s c \<in> set (remove1 p (tlist s))"
    using sched_invD(11) [OF assms(2)] r by blast
  then show ?thesis using assms(2) r notin_set_remove1 unfolding Reap(1) sched_inv_def reap_def by (simp add: sched_inv_def) blast
qed

lemma sched_reach_inv: "sched_reach s \<Longrightarrow> sched_inv {} s"
proof (induction rule: sched_reach.induct)
  case (boot s)
  then show ?case by (simp add: sched_inv_def sched_boot_def)
qed (rule sched_step_inv)

section \<open>No runnable task is lost\<close>

definition lost :: "sched_sys \<Rightarrow> addr \<Rightarrow> bool" where
  "lost s p \<longleftrightarrow> p \<in> set (tlist s) \<and> stof s p = TASK_RUNNING \<and> (\<forall>c. p \<notin> set (runq s c))"

text \<open>A step loses no task, but for a stopped one.\<close>

definition keeps_queued :: "sched_sys \<Rightarrow> sched_sys \<Rightarrow> bool" where
  "keeps_queued s s' \<longleftrightarrow> tlist s' = tlist s \<and>
     (\<forall>p \<in> set (tlist s). (lost s' p \<longrightarrow> lost s p \<or> stof s p = TASK_STOPPED) \<and> (stof s' p = TASK_STOPPED \<longrightarrow> stof s p = TASK_STOPPED))"

lemma keeps_queued_refl: "keeps_queued s s"
  by (simp add: keeps_queued_def)

lemma keeps_queued_trans: "keeps_queued s s' \<Longrightarrow> keeps_queued s' s'' \<Longrightarrow> keeps_queued s s''"
  unfolding keeps_queued_def by metis

lemma keeps_queuedI:
  assumes "tlist s' = tlist s" "\<And>c p. p \<in> set (runq s c) \<Longrightarrow> stof s' p = TASK_RUNNING \<Longrightarrow> \<exists>d. p \<in> set (runq s' d)"
    "\<And>p. p \<in> set (tlist s) \<Longrightarrow> stof s' p = stof s p \<or> stof s' p = TASK_RUNNING \<and> (stof s p = TASK_STOPPED \<or> (\<exists>d. p \<in> set (runq s' d)))"
  shows "keeps_queued s s'"
  using assms unfolding keeps_queued_def lost_def by (metis tstate.distinct(7))

lemma touches_keeps: "touches p s s' \<Longrightarrow> keeps_queued s s'"
proof (rule keeps_queuedI)
  assume t: "touches p s s'"
  note q = touches_queues [OF t]
  show "tlist s' = tlist s" using q by (simp add: same_queues_def)
  show "\<exists>d. x \<in> set (runq s' d)" if "x \<in> set (runq s c)" for x c using q that by (intro exI [of _ c]) simp
  show "stof s' x = stof s x \<or> stof s' x = TASK_RUNNING \<and> (stof s x = TASK_STOPPED \<or> (\<exists>d. x \<in> set (runq s' d)))" for x
  proof (cases "x = p")
    case True
    then show ?thesis using t unfolding touches_def by blast
  qed (use q in simp)
qed

lemma sent_keeps: "sent s s' \<Longrightarrow> keeps_queued s s'"
  by (induction rule: sent.induct) (auto intro: keeps_queued_refl keeps_queued_trans touches_keeps [OF touches_send])

lemma wake_signalled_keeps: "keeps_queued s (wake_signalled c c p s)"
proof (rule keeps_queuedI)
  show "tlist (wake_signalled c c p s) = tlist s" by (simp add: wake_signalled_def Let_def upd_task_def enqueue_task_def)
  show "\<exists>d. q \<in> set (runq (wake_signalled c c p s) d)" if "q \<in> set (runq s e)" for e q
    using that by (intro exI [of _ e]) (auto simp: wake_signalled_def Let_def upd_task_def enqueue_task_def)
  show "stof (wake_signalled c c p s) q = stof s q \<or> stof (wake_signalled c c p s) q = TASK_RUNNING \<and>
      (stof s q = TASK_STOPPED \<or> (\<exists>d. q \<in> set (runq (wake_signalled c c p s) d)))" for q
  proof (cases "p = curr s c \<or> stof s p \<noteq> TASK_INTERRUPTIBLE \<or> \<not> signal_pending (ktasks s p) \<or> q \<noteq> p")
    case True
    then show ?thesis by (auto simp: wake_signalled_def Let_def upd_task_def enqueue_task_def)
  next
    case False
    let ?s = "upd_task p (\<lambda>t. t\<lparr>kt_state := TASK_RUNNING\<rparr>) s"
    have "\<exists>d. p \<in> set (runq (wake_signalled c c p s) d)"
    proof (cases "task_on_runqueue p ?s")
      case True
      then obtain d where "p \<in> set (runq s d)" by (auto simp: task_on_runqueue_def list_ex_iff upd_task_def)
      then show ?thesis by (intro exI [of _ d]) (auto simp: wake_signalled_def Let_def upd_task_def enqueue_task_def)
    next
      case q: False
      then show ?thesis using False
        by (intro exI [of _ "select_task_cpu p ?s"]) (simp add: wake_signalled_def Let_def, simp add: upd_task_def enqueue_task_def)
    qed
    moreover have "stof (wake_signalled c c p s) p = TASK_RUNNING" using False by (simp add: wake_signalled_def Let_def) (simp add: upd_task_def enqueue_task_def)
    ultimately show ?thesis using False by simp
  qed
qed

lemma wake_all_keeps: "keeps_queued s (fold (wake_signalled c c) ps s)"
proof (induction ps arbitrary: s)
  case (Cons p ps)
  show ?case using keeps_queued_trans [OF wake_signalled_keeps Cons.IH] by simp
qed (simp add: keeps_queued_refl)

lemma recheck_keeps: "keeps_queued s (recheck_current c c s)"
proof (rule keeps_queuedI)
  show "tlist (recheck_current c c s) = tlist s" by (simp add: recheck_current_def Let_def upd_task_def enqueue_task_def)
  show "\<exists>d. q \<in> set (runq (recheck_current c c s) d)" if "q \<in> set (runq s e)" for e q
    using that by (intro exI [of _ e]) (auto simp: recheck_current_def Let_def upd_task_def enqueue_task_def)
  show "stof (recheck_current c c s) q = stof s q \<or> stof (recheck_current c c s) q = TASK_RUNNING \<and>
      (stof s q = TASK_STOPPED \<or> (\<exists>d. q \<in> set (runq (recheck_current c c s) d)))" for q
    by (auto simp: recheck_current_def Let_def upd_task_def enqueue_task_def task_on_runqueue_def list_ex_iff)
qed

lemma schedule_out_keeps:
  assumes "sched_inv {} s" "c < ncpus s"
  shows "keeps_queued s (schedule_out c c s)"
proof (rule keeps_queuedI)
  have cur: "curr s c \<noteq> idle_task s c \<Longrightarrow> curr s c \<in> set (runq s c)" using sched_invD(11) [OF assms] by auto
  show "tlist (schedule_out c c s) = tlist s" by (simp add: schedule_out_def Let_def upd_task_def dequeue_task_def)
  show "\<exists>d. q \<in> set (runq (schedule_out c c s) d)" if "q \<in> set (runq s e)" "stof (schedule_out c c s) q = TASK_RUNNING" for e q
  proof (cases "schedule_out c c s = dequeue_task (curr s c) s")
    case True
    show ?thesis
    proof (cases "stof s (curr s c) \<noteq> TASK_RUNNING")
      case d: True
      then have "q \<noteq> curr s c" using that(2) by (auto simp: True dequeue_task_def)
      then show ?thesis using that(1) by (intro exI [of _ e]) (simp add: True dequeue_task_def in_set_remove1)
    next
      case False
      then show ?thesis using that(1) by (intro exI [of _ e]) (simp add: schedule_out_def Let_def)
    qed
  next
    case False
    then have "runq (schedule_out c c s) = runq s" by (auto simp: schedule_out_def Let_def upd_task_def split: if_split_asm)
    then show ?thesis using that(1) by auto
  qed
  show "stof (schedule_out c c s) q = stof s q \<or> stof (schedule_out c c s) q = TASK_RUNNING \<and>
      (stof s q = TASK_STOPPED \<or> (\<exists>d. q \<in> set (runq (schedule_out c c s) d)))" for q
    using cur by (auto simp: schedule_out_def Let_def upd_task_def dequeue_task_def)
qed

text \<open>\<^verbatim>\<open>wake_up_process\<close> queues the task it wakes, even one that is lost.\<close>

lemma wake_up_queues:
  assumes "p \<noteq> NULL"
  shows "\<exists>d. p \<in> set (runq (wake_up_process c p s) d)" "stof (wake_up_process c p s) p = TASK_RUNNING"
proof -
  show "\<exists>d. p \<in> set (runq (wake_up_process c p s) d)"
  proof (cases "task_on_runqueue p s")
    case True
    then obtain d where "p \<in> set (runq s d)" by (auto simp: task_on_runqueue_def list_ex_iff)
    then show ?thesis using True by (intro exI [of _ d]) (auto simp: wake_up_process_def Let_def upd_task_def enqueue_task_def)
  next
    case False
    then show ?thesis by (intro exI [of _ "kt_cpu (ktasks s p)"]) (simp add: wake_up_process_def Let_def upd_task_def enqueue_task_def assms)
  qed
  show "stof (wake_up_process c p s) p = TASK_RUNNING" using assms by (simp add: wake_up_process_def Let_def upd_task_def enqueue_task_def)
qed

lemma wake_up_process_others:
  assumes "q \<noteq> p"
  shows "q \<in> set (runq (wake_up_process c p s) d) \<longleftrightarrow> q \<in> set (runq s d)" "stof (wake_up_process c p s) q = stof s q"
    "tlist (wake_up_process c p s) = tlist s"
  using assms by (auto simp: wake_up_process_def Let_def upd_task_def enqueue_task_def)

lemma wake_up_process_lost: "p \<noteq> NULL \<Longrightarrow> lost (wake_up_process c p s) q \<Longrightarrow> q \<noteq> p \<and> lost s q"
  unfolding lost_def using wake_up_queues(1) [of p c s] wake_up_process_others [of q p c s] by metis

lemma schedule_keeps:
  assumes v: "sched_inv {} s" and c: "c < ncpus s" and t: "sent (schedule_out c c s) s1" and p: "schedule_pick c c s1 = Some s'"
  shows "keeps_queued s s'"
proof -
  note o = schedule_out_inv [OF v c]
  have i: "sched_inv {c} s1" "c < ncpus s1" using sent_inv [OF t o(1)] o(2) c by (simp_all add: same_queues_def)
  have k: "keeps_queued s (choosing c s1)" unfolding choosing_def
    using keeps_queued_trans [OF schedule_out_keeps [OF v c] sent_keeps [OF t]] keeps_queued_trans wake_all_keeps recheck_keeps by blast
  obtain b x where "pick_loop (choosing c s1) (runq (choosing c s1) c) (- 100) (idle_task s1 c) = (b, x)" by fastforce
  from schedule_pick_ok [OF i this] p have "tlist s' = tlist s1" "runq s' = runq (choosing c s1)" "\<And>q. stof s' q = stof (choosing c s1) q" by auto
  then show ?thesis using k choosing_inv(2) [OF i] unfolding keeps_queued_def lost_def same_queues_def by auto
qed

lemma sched_step_lost:
  assumes "sched_step s s'" and v: "sched_inv {} s" and l: "lost s' q"
  shows "lost s q \<or> stof s q = TASK_STOPPED"
  using assms(1)
proof cases
  case (Set_state c st)
  have "curr s c \<in> set (runq s c)" using sched_invD(11) [OF v Set_state(2)] Set_state(3) by auto
  then show ?thesis using l by (cases "q = curr s c") (auto simp: Set_state(1) lost_def upd_task_def)
next
  case (Wake c p)
  then show ?thesis using wake_up_process_lost l sched_invD(3) [OF v] by metis
next
  case (Signal p sig)
  then show ?thesis using touches_keeps [OF touches_send] l unfolding keeps_queued_def lost_def by metis
next
  case (Schedule c cpu s1)
  have e: "cpu = c" using curr_cpu [OF v Schedule(1)] Schedule(2) by simp
  from schedule_keeps [OF v Schedule(1) Schedule(3,4) [unfolded e]] show ?thesis using l unfolding keeps_queued_def lost_def by metis
next
  case (Affinity c p m)
  have "runq s' = runq s" "tlist s' = tlist s" "stof s' q = stof s q"
    by (simp_all add: Affinity(1) sched_set_cpus_allowed_def Let_def upd_task_def split: option.split)
  then show ?thesis using l by (simp add: lost_def)
next
  case (Tick c)
  have "runq s' = runq s" "tlist s' = tlist s" "stof s' q = stof s q"
    by (simp_all add: Tick(1) tick_def Let_def upd_task_def)
  then show ?thesis using l by (simp add: lost_def)
next
  case (New c p pid)
  have "curr s c \<noteq> p" using sched_invD(11) [OF v New(2)] New by auto
  then show ?thesis using l New by (auto simp: lost_def new_task_def Let_def upd_task_def split: if_splits)
next
  case (Reap p)
  then show ?thesis using l notin_set_remove1 by (fastforce simp: lost_def reap_def)
qed

section \<open>Time slices\<close>

text \<open>A time slice is never negative.\<close>

definition slices_ok :: "sched_sys \<Rightarrow> bool" where
  "slices_ok s \<longleftrightarrow> (\<forall>p \<in> set (tlist s). 0 \<le> counter (ktasks s p)) \<and> (\<forall>c < ncpus s. 0 \<le> counter (ktasks s (idle_task s c)))"

definition same_slices :: "sched_sys \<Rightarrow> sched_sys \<Rightarrow> bool" where
  "same_slices s s' \<longleftrightarrow> tlist s' = tlist s \<and> ncpus s' = ncpus s \<and> idle_task s' = idle_task s \<and> (\<forall>p. counter (ktasks s' p) = counter (ktasks s p))"

lemma same_slices_refl: "same_slices s s"
  by (simp add: same_slices_def)

lemma same_slices_trans: "same_slices s s' \<Longrightarrow> same_slices s' s'' \<Longrightarrow> same_slices s s''"
  by (simp add: same_slices_def)

lemma same_slices_ok: "same_slices s s' \<Longrightarrow> slices_ok s \<Longrightarrow> slices_ok s'"
  by (simp add: same_slices_def slices_ok_def)

lemma same_slices_upd: "(\<And>t. counter (f t) = counter t) \<Longrightarrow> same_slices s s' \<Longrightarrow> same_slices s (upd_task p f s')"
  by (simp add: same_slices_def upd_task_def)

lemma same_slices_queue [simp]:
  "same_slices s (enqueue_task c p s') \<longleftrightarrow> same_slices s s'" "same_slices s (dequeue_task p s') \<longleftrightarrow> same_slices s s'"
  "same_slices s (s'\<lparr>slog := l\<rparr>) \<longleftrightarrow> same_slices s s'"
  by (simp_all add: same_slices_def enqueue_task_def dequeue_task_def)

lemma send_sig_slices: "same_slices s (snd (send_sig sig p s))"
  by (simp add: send_sig_def sig_continue_def Let_def same_slices_refl same_slices_upd)

lemma wake_up_process_slices: "same_slices s (wake_up_process c p s)"
  by (simp add: wake_up_process_def Let_def same_slices_refl same_slices_upd)

lemma schedule_out_slices: "same_slices s (schedule_out c c s)"
  by (simp add: schedule_out_def Let_def same_slices_refl same_slices_upd)

lemma wake_all_slices: "same_slices s (fold (wake_signalled c c) ps s)"
proof (induction ps arbitrary: s)
  case (Cons p ps)
  have "same_slices s (wake_signalled c c p s)" by (simp add: wake_signalled_def Let_def same_slices_refl same_slices_upd)
  then show ?case using same_slices_trans Cons.IH by fastforce
qed (simp add: same_slices_refl)

lemma choosing_slices: "same_slices s (choosing c s)"
proof -
  have "same_slices t (recheck_current c c t)" for t by (simp add: recheck_current_def Let_def same_slices_refl same_slices_upd)
  then show ?thesis unfolding choosing_def using same_slices_trans wake_all_slices by blast
qed

lemma sent_slices: "sent s s' \<Longrightarrow> same_slices s s'"
  by (induction rule: sent.induct) (auto intro: same_slices_refl same_slices_trans send_sig_slices)

lemma schedule_pick_slices:
  assumes i: "sched_inv {c} s" "c < ncpus s" and p: "schedule_pick c c s = Some s'" and k: "slices_ok s"
  shows "slices_ok s'"
proof -
  obtain b x where "pick_loop (choosing c s) (runq (choosing c s) c) (- 100) (idle_task s c) = (b, x)" by fastforce
  from schedule_pick_ok [OF i this] p have e: "tlist s' = tlist s" "ncpus s' = ncpus s" "idle_task s' = idle_task s"
    "\<And>p. counter (ktasks s' p) = (if b = 0 \<and> p \<in> set (tlist s) then DEF_COUNTER else counter (ktasks (choosing c s) p))" by auto
  have "counter (ktasks (choosing c s) p) = counter (ktasks s p)" for p using choosing_slices by (simp add: same_slices_def)
  then show ?thesis using k by (simp add: slices_ok_def e)
qed

lemma sched_step_slices:
  assumes "sched_step s s'" and v: "sched_inv {} s" and k: "slices_ok s"
  shows "slices_ok s'"
  using assms(1)
proof cases
  case (Set_state c st)
  show ?thesis unfolding Set_state(1) by (rule same_slices_ok [OF _ k]) (simp add: same_slices_upd same_slices_refl)
next
  case (Wake c p)
  then show ?thesis using same_slices_ok [OF wake_up_process_slices k] by simp
next
  case (Signal p sig)
  then show ?thesis using same_slices_ok [OF send_sig_slices k] by simp
next
  case (Schedule c cpu s1)
  have e: "cpu = c" using curr_cpu [OF v Schedule(1)] Schedule(2) by simp
  note o = schedule_out_inv [OF v Schedule(1)]
  have i: "sched_inv {c} s1" "c < ncpus s1" using sent_inv [OF Schedule(3) [unfolded e] o(1)] o(2) Schedule(1) by (simp_all add: same_queues_def)
  have "slices_ok s1" using same_slices_ok [OF same_slices_trans [OF schedule_out_slices sent_slices [OF Schedule(3) [unfolded e]]] k] .
  then show ?thesis using schedule_pick_slices [OF i] Schedule(4) e by blast
next
  case (Affinity c p m)
  have "same_slices s s'" by (simp add: Affinity(1) sched_set_cpus_allowed_def Let_def same_slices_def upd_task_def split: option.split)
  then show ?thesis using same_slices_ok k by blast
next
  case (Tick c)
  then show ?thesis using k by (auto simp: slices_ok_def tick_def Let_def upd_task_def)
next
  case (New c p pid)
  have n: "0 \<le> counter (ktasks s (curr s c))" using sched_invD(11) [OF v New(2)] k New(2) by (auto simp: slices_ok_def)
  then show ?thesis using k New by (auto simp: slices_ok_def new_task_def Let_def upd_task_def)
next
  case (Reap p)
  then show ?thesis using k by (auto simp: slices_ok_def reap_def dest: notin_set_remove1 [rotated])
qed

lemma sched_reach_slices: "sched_reach s \<Longrightarrow> slices_ok s"
proof (induction rule: sched_reach.induct)
  case (boot s)
  then show ?case by (simp add: slices_ok_def sched_boot_def)
next
  case (step s s')
  then show ?case using sched_step_slices sched_reach_inv by blast
qed

section \<open>Properties\<close>


text \<open>C32: A task that can run is never forgotten: if after a step a task is in state \<^verbatim>\<open>TASK_RUNNING\<close> and on no run queue,
  it was so before the step, or it was stopped. In particular a sleeper that is woken, or gets a signal, at any moment while it
  goes to sleep runs again. \<open>continued_task_is_lost\<close> shows what happens to stopped tasks.\<close>

theorem runnable_stays_queued:
  assumes "sched_reach s" "sched_step s s'" "p \<in> set (tlist s')" "stof s' p = TASK_RUNNING" "\<forall>c. p \<notin> set (runq s' c)"
  shows "(p \<in> set (tlist s) \<and> stof s p = TASK_RUNNING \<and> (\<forall>c. p \<notin> set (runq s c))) \<or> stof s p = TASK_STOPPED"
  using sched_step_lost [OF assms(2) sched_reach_inv [OF assms(1)]] assms(3-5) unfolding lost_def by blast


section \<open>Stopped tasks\<close>

text \<open>A task that is on no queue and does not wait for a signal stays where it is when a processor switches.\<close>

definition off_queue :: "tstate \<Rightarrow> sched_sys \<Rightarrow> addr \<Rightarrow> bool" where
  "off_queue st s p \<longleftrightarrow> stof s p = st \<and> (\<forall>c. p \<notin> set (runq s c))"

lemma wake_signalled_off: "off_queue st s p \<Longrightarrow> st \<noteq> TASK_INTERRUPTIBLE \<Longrightarrow> off_queue st (wake_signalled c cpu q s) p"
  by (cases "p = q") (auto simp: off_queue_def wake_signalled_def Let_def upd_task_def enqueue_task_def)

lemma wake_all_off: "off_queue st s p \<Longrightarrow> st \<noteq> TASK_INTERRUPTIBLE \<Longrightarrow> off_queue st (fold (wake_signalled c cpu) ps s) p"
  by (induction ps arbitrary: s) (simp_all add: wake_signalled_off)

lemma choosing_off: "off_queue st s p \<Longrightarrow> st \<noteq> TASK_INTERRUPTIBLE \<Longrightarrow> off_queue st (choosing c s) p"
  unfolding choosing_def using wake_all_off [of st s p c c "tlist s"]
  by (auto simp: off_queue_def recheck_current_def Let_def upd_task_def enqueue_task_def)

lemma schedule_off:
  assumes v: "sched_inv {} s" and c: "c < ncpus s" and p: "off_queue st (schedule_out c c s) p" "st \<noteq> TASK_INTERRUPTIBLE" and s': "schedule c s = Some s'"
  shows "off_queue st s' p"
proof -
  note o = schedule_out_inv [OF v c]
  have c': "c < ncpus (schedule_out c c s)" using o(2) c by (simp add: same_queues_def)
  obtain b x where x: "pick_loop (choosing c (schedule_out c c s)) (runq (choosing c (schedule_out c c s)) c) (- 100) (idle_task (schedule_out c c s) c) = (b, x)" by fastforce
  from schedule_pick_ok [OF o(1) c' x] s' have "runq s' = runq (choosing c (schedule_out c c s))" "\<And>q. stof s' q = stof (choosing c (schedule_out c c s)) q"
    by (auto simp: schedule_def curr_cpu [OF v c])
  then show ?thesis using choosing_off [OF p] by (simp add: off_queue_def)
qed

text \<open>A task that stops itself leaves its processor and the queue.\<close>

lemma stopped_leaves:
  assumes v: "sched_inv {} s" and c: "c < ncpus s" and p: "stof s (curr s c) = TASK_STOPPED" and s': "schedule c s = Some s'"
  shows "off_queue TASK_STOPPED s' (curr s c)"
proof (rule schedule_off [OF v c _ _ s'])
  have n: "curr s c \<noteq> idle_task s c" using p sched_invD(7) [OF v c] by auto
  have d: "curr s c \<notin> set (remove1 (curr s c) (runq s d))" for d using sched_invD(9) [OF v] by simp
  have "\<not> task_on_runqueue (curr s c) s \<Longrightarrow> \<forall>d. curr s c \<notin> set (runq s d)" using on_runqueue(1) [OF v] by blast
  then show "off_queue TASK_STOPPED (schedule_out c c s) (curr s c)"
    using n p d by (simp add: off_queue_def schedule_out_def Let_def dequeue_task_def)
qed simp

text \<open>A signal that continues a stopped task marks it runnable and puts it on no queue, and then no processor ever finds it: not the
  sender, not \<^verbatim>\<open>schedule\<close> on any processor, and \<^verbatim>\<open>sys_exit_group\<close>, which would wake it, does not because its
  state is already \<^verbatim>\<open>TASK_RUNNING\<close>.\<close>

theorem continued_task_is_lost:
  assumes p: "p \<noteq> NULL" "p \<in> set (tlist s)" "off_queue TASK_STOPPED s p" and sig: "sig = SIGCONT \<or> sig = SIGKILL"
  shows "lost (snd (send_sig sig p s)) p \<and> lost (exit_group_kill c p s) p"
proof -
  have "lost (snd (send_sig sg p s)) p" if "sg = SIGCONT \<or> sg = SIGKILL" for sg
    using p that by (auto simp: lost_def off_queue_def send_sig_def sig_continue_def Let_def upd_task_def)
  note l = this [OF sig] this [of SIGKILL]
  then show ?thesis using p(3) by (auto simp: exit_group_kill_def off_queue_def lost_def Let_def)
qed

lemma lost_stays_lost:
  assumes v: "sched_inv {} s" and c: "c < ncpus s" and p: "lost s p" and s': "schedule c s = Some s'"
  shows "lost s' p"
proof -
  have "p \<noteq> curr s c" using sched_invD(8,11) [OF v c] p unfolding lost_def by fastforce
  then have "off_queue TASK_RUNNING (schedule_out c c s) p"
    using p notin_set_remove1 by (fastforce simp: lost_def off_queue_def schedule_out_def Let_def upd_task_def dequeue_task_def)
  from schedule_off [OF v c this _ s'] have "off_queue TASK_RUNNING s' p" by simp
  moreover have "tlist s' = tlist s" using schedule_keeps [OF v c sent.none, of s'] s' by (simp add: keeps_queued_def schedule_def curr_cpu [OF v c])
  ultimately show ?thesis using p by (simp add: lost_def off_queue_def)
qed

section \<open>Affinity\<close>

text \<open>The new processor of a task that has set its state to sleep and has not left its processor yet: its structure now names a
  processor that does not run it, and if its wake-up comes before it switches, the next switch of its processor to another task
  fails the assertion.\<close>

lemma affinity_race:
  assumes "ncpus s = 2" "curr s 1 = p" "p \<noteq> curr s 0" "kt_cpu (ktasks s p) = 1" "stof s p \<noteq> TASK_RUNNING"
  shows "fst (sched_set_cpus_allowed 0 p 1 s) = None \<and> curr (snd (sched_set_cpus_allowed 0 p 1 s)) 1 = p \<and>
    kt_cpu (ktasks (snd (sched_set_cpus_allowed 0 p 1 s)) p) = 0"
proof -
  have "(1 :: u32) AND online_cpu_mask s = 1" by (simp add: online_cpu_mask_def assms(1))
  moreover have "\<not> bit (1 :: u32) 1" "bit (1 :: u32) 0" by simp_all
  ultimately show ?thesis using assms by (simp add: sched_set_cpus_allowed_def Let_def upd_task_def upt_rec)
qed

lemma switch_wrong_cpu: "kt_cpu (ktasks s n) \<noteq> c \<Longrightarrow> n \<noteq> curr s c \<Longrightarrow> switch_to c n s = None"
  by (simp add: switch_to_def Let_def)

text \<open>When all allowed queues hold more than \<^verbatim>\<open>NR_CPUS\<close> tasks, the choice is the last processor of the task, allowed or not.\<close>

lemma select_overloaded:
  assumes "\<forall>c < ncpus s. bit (cpus_allowed (ktasks s p) AND online_cpu_mask s) c \<longrightarrow> NR_CPUS < length (runq s c)"
    "cpus_allowed (ktasks s p) AND online_cpu_mask s \<noteq> 0"
  shows "select_task_cpu p s = kt_cpu (ktasks s p)"
proof -
  have "select_loop a s cs None (NR_CPUS + 1) = None" if "\<forall>c \<in> set cs. bit a c \<longrightarrow> NR_CPUS < length (runq s c)" for a cs
    using that by (induction cs) auto
  then show ?thesis using assms by (simp add: select_task_cpu_def Let_def)
qed

lemma select_loop_allowed: "select_loop a s cs b n = Some c \<Longrightarrow> b = Some c \<or> c \<in> set cs \<and> bit a c"
  by (induction cs arbitrary: b n) (auto split: if_splits)

section \<open>Examples\<close>

text \<open>Two processors; task 4096 makes the child 12288, which then runs on processor 0.\<close>

definition boot_task :: "nat \<Rightarrow> ktask" where
  "boot_task c = \<lparr>kt_state = TASK_RUNNING, counter = 10, signal = 0, blocked = 0, need_resched = False, exit_code = 0, kt_pid = 0,
     kt_cpu = c, cpus_allowed = 3, parked = False, sigact = (\<lambda>_. \<lparr>sa_handler = SIG_DFL, sa_flags = 0, sa_restorer = 0, sa_mask = 0\<rparr>)\<rparr>"

definition boot2 :: sched_sys where
  "boot2 = \<lparr>ktasks = (\<lambda>p. boot_task (if p = 8192 then 1 else 0)), tlist = [], runq = (\<lambda>_. []), curr = (\<lambda>c. if c = 0 then 4096 else 8192),
     idle_task = (\<lambda>c. if c = 0 then 4096 else 8192), ncpus = 2, slog = []\<rparr>"

definition forked2 :: sched_sys where
  "forked2 = fork_task 0 12288 1 boot2"

lemma forked2_reach: "sched_reach forked2"
proof -
  have "sched_boot boot2" by (simp add: sched_boot_def boot2_def boot_task_def)
  moreover have "sched_step boot2 (new_task 0 12288 1 boot2)" by (rule New) (simp_all add: boot2_def)
  moreover have "sched_step (new_task 0 12288 1 boot2) forked2" unfolding forked2_def fork_task_def
    by (rule Wake) (simp_all add: new_task_def upd_task_def boot2_def Let_def)
  ultimately show ?thesis using boot step by blast
qed

lemma forked2_simps: "ncpus forked2 = 2" "tlist forked2 = [12288]" "runq forked2 = (\<lambda>_. [])(0 := [12288])" "curr forked2 0 = 4096"
  "idle_task forked2 0 = 4096" "stof forked2 12288 = TASK_RUNNING" "counter (ktasks forked2 12288) = 5"
  by (simp_all add: forked2_def fork_task_def new_task_def wake_up_process_def task_on_runqueue_def upd_task_def enqueue_task_def Let_def
    boot2_def boot_task_def upt_rec)


lemma forked2_schedule:
  "\<exists>s'. schedule 0 forked2 = Some s' \<and> curr s' 0 = 12288 \<and> runq s' = runq forked2 \<and> tlist s' = [12288] \<and> ncpus s' = 2 \<and> idle_task s' 0 = 4096"
proof -
  have c: "(0::nat) < ncpus forked2" by (simp add: forked2_simps)
  note v = sched_reach_inv [OF forked2_reach]
  have o: "schedule_out 0 0 forked2 = forked2" using forked2_simps sched_invD(7) [OF v c] by (simp add: schedule_out_def)
  have "wake_signalled 0 0 12288 forked2 = forked2" using forked2_simps by (simp add: wake_signalled_def)
  moreover have "recheck_current 0 0 forked2 = forked2" using forked2_simps sched_invD(7) [OF v c] by (simp add: recheck_current_def)
  ultimately have ch: "choosing 0 forked2 = forked2" by (simp add: choosing_def forked2_simps)
  have x: "pick_loop (choosing 0 forked2) (runq (choosing 0 forked2) 0) (- 100) (idle_task forked2 0) = (5, 12288)" by (simp add: ch forked2_simps)
  have "schedule 0 forked2 = schedule_pick 0 0 forked2" by (simp add: schedule_def curr_cpu [OF v c] o)
  then show ?thesis using schedule_pick_ok [OF inv_mono [OF v empty_subsetI] c x] by (auto simp: ch forked2_simps)
qed

lemma schedule_reach: "sched_reach s \<Longrightarrow> c < ncpus s \<Longrightarrow> schedule c s = Some s' \<Longrightarrow> sched_reach s'"
  unfolding schedule_def Let_def by (rule sched_reach.step, assumption) (rule sched_step.Schedule [OF _ refl sent.none])


text \<open>The child stops itself, the processor leaves it, and it is continued.\<close>

lemma stopped2_reach: "\<exists>s. sched_reach s \<and> off_queue TASK_STOPPED s 12288 \<and> tlist s = [12288]"
proof -
  obtain s1 where s1: "schedule 0 forked2 = Some s1" "curr s1 0 = 12288" "tlist s1 = [12288]" "ncpus s1 = 2" "idle_task s1 0 = 4096"
    using forked2_schedule by blast
  define s2 where "s2 = upd_task (curr s1 0) (\<lambda>t. t\<lparr>kt_state := TASK_STOPPED\<rparr>) s1"
  have r1: "sched_reach s1" using schedule_reach [OF forked2_reach _ s1(1)] by (simp add: forked2_simps)
  have r2: "sched_reach s2" unfolding s2_def by (rule sched_reach.step [OF r1 sched_step.Set_state]) (simp_all add: s1)
  note v2 = sched_reach_inv [OF r2]
  have c: "0 < ncpus s2" by (simp add: s2_def upd_task_def s1)
  have t: "stof s2 (curr s2 0) = TASK_STOPPED" "curr s2 0 = 12288" by (simp_all add: s2_def upd_task_def s1)
  obtain s3 where s3: "schedule 0 s2 = Some s3"
    using schedule_pick_inv [OF schedule_out_inv(1) [OF v2 c]] schedule_out_inv(2) [OF v2 c] c by (auto simp: schedule_def curr_cpu [OF v2 c] same_queues_def)
  have "tlist s3 = tlist s2" using schedule_keeps [OF v2 c sent.none, of s3] s3 by (simp add: keeps_queued_def schedule_def curr_cpu [OF v2 c])
  then have "tlist s3 = [12288]" by (simp add: s2_def upd_task_def s1)
  then show ?thesis using schedule_reach [OF r2 c s3] stopped_leaves [OF v2 c t(1) s3] t(2) by auto
qed

lemma continued2:
  "\<exists>s. sched_reach s \<and> sched_step s (snd (send_sig SIGCONT 12288 s)) \<and> off_queue TASK_STOPPED s 12288 \<and> tlist s = [12288] \<and>
     off_queue TASK_RUNNING (snd (send_sig SIGCONT 12288 s)) 12288 \<and> tlist (snd (send_sig SIGCONT 12288 s)) = [12288]"
proof -
  obtain s where s: "sched_reach s" "off_queue TASK_STOPPED s 12288" "tlist s = [12288]" using stopped2_reach by blast
  have "sched_step s (snd (send_sig SIGCONT 12288 s))" by (rule sched_step.Signal) (simp add: s)
  moreover have "off_queue TASK_RUNNING (snd (send_sig SIGCONT 12288 s)) 12288"
    using s(2) by (auto simp: off_queue_def send_sig_def sig_continue_def Let_def upd_task_def)
  moreover have "tlist (snd (send_sig SIGCONT 12288 s)) = [12288]"
    using touches_queues [OF touches_send [of 12288 s SIGCONT]] s(3) by (simp add: same_queues_def)
  ultimately show ?thesis using s by blast
qed

theorem runnable_stays_queued_witness:
  "\<exists>s. sched_reach s \<and> sched_step s (snd (send_sig SIGCONT 12288 s)) \<and> lost (snd (send_sig SIGCONT 12288 s)) 12288 \<and> stof s 12288 = TASK_STOPPED"
proof -
  obtain s where s: "sched_reach s" "sched_step s (snd (send_sig SIGCONT 12288 s))" "off_queue TASK_STOPPED s 12288"
    "off_queue TASK_RUNNING (snd (send_sig SIGCONT 12288 s)) 12288" "tlist (snd (send_sig SIGCONT 12288 s)) = [12288]"
    using continued2 by blast
  have "lost (snd (send_sig SIGCONT 12288 s)) 12288" using s(4,5) by (simp add: lost_def off_queue_def)
  moreover from this have "stof s 12288 = TASK_STOPPED" using runnable_stays_queued [OF s(1,2), of 12288] s(3) by (auto simp: lost_def off_queue_def)
  ultimately show ?thesis using s by blast
qed

end
