(* ===== verification/Semaphore.thy ===== *)
theory Semaphore
  imports Sched
begin

text \<open>
  Wait queues and semaphores: \<^verbatim>\<open>src/src/kernel/wait.c\<close>, \<^verbatim>\<open>kernel/semaphore.c\<close>, and \<^verbatim>\<open>sleep_on\<close>,
  \<^verbatim>\<open>wake_up\<close>, \<^verbatim>\<open>wake_up_1st\<close> of \<^verbatim>\<open>kernel/sched.c\<close>, on top of the scheduler. A wait queue is the list of the
  tasks whose nodes it links. \<^verbatim>\<open>down\<close> holds the lock of the semaphore until its task is in the queue, so what it does
  before \<^verbatim>\<open>schedule\<close> is one step; what it does after \<^verbatim>\<open>schedule\<close> has returned is another.
\<close>

section \<open>Model\<close>

definition in_wait_queue :: "addr \<Rightarrow> addr list \<Rightarrow> addr list" where
  "in_wait_queue p q = q @ [p]"

definition out_wait_queue :: "addr \<Rightarrow> addr list \<Rightarrow> addr list" where
  "out_wait_queue p q = (if p \<in> set q then remove1 p q else q)"

text \<open>The part of \<^verbatim>\<open>sleep_on\<close> before \<^verbatim>\<open>schedule\<close>; task 0 hangs.\<close>

definition sleep_on_begin :: "nat \<Rightarrow> tstate \<Rightarrow> addr list \<Rightarrow> sched_sys \<Rightarrow> (sched_sys \<times> addr list) option" where
  "sleep_on_begin c st q s =
     (if kt_pid (ktasks s (curr s c)) = 0 then None
      else let s = upd_task (curr s c) (\<lambda>t. t\<lparr>kt_state := st\<rparr>) s in Some (s, in_wait_queue (curr s c) q))"

definition wake_up :: "nat \<Rightarrow> u32 \<Rightarrow> addr list \<Rightarrow> sched_sys \<Rightarrow> sched_sys" where
  "wake_up c st q s = fold (\<lambda>p s. if state_flag (stof s p) AND st \<noteq> 0 then wake_up_process c p s else s) q s"

definition wake_up_1st :: "nat \<Rightarrow> addr list \<Rightarrow> sched_sys \<Rightarrow> sched_sys" where
  "wake_up_1st c q s = (case q of [] \<Rightarrow> s | p # _ \<Rightarrow> wake_up_process c p s)"

record semaphore =
  sem_count :: int
  sem_wait :: "addr list"

definition sema_init :: "int \<Rightarrow> semaphore" where "sema_init val = \<lparr>sem_count = val, sem_wait = []\<rparr>"

definition init_MUTEX :: semaphore where "init_MUTEX = sema_init 1"

text \<open>Where a task is: outside, in \<^verbatim>\<open>down\<close> before and in its call of \<^verbatim>\<open>schedule\<close>, or between \<^verbatim>\<open>down\<close> and
  \<^verbatim>\<open>up\<close>.\<close>

datatype place = Outside | Going | Parked | Holding

record sem_sys =
  sys :: sched_sys
  sem :: semaphore
  place :: "addr \<Rightarrow> place"

definition down :: "nat \<Rightarrow> sem_sys \<Rightarrow> sem_sys option" where
  "down c x =
     (let p = curr (sys x) c; n = sem_count (sem x) - 1; x = x\<lparr>sem := (sem x)\<lparr>sem_count := n\<rparr>\<rparr>
      in if n < 0
         then case sleep_on_begin c TASK_UNINTERRUPTIBLE (sem_wait (sem x)) (sys x) of None \<Rightarrow> None
              | Some (s, q) \<Rightarrow> Some (x\<lparr>sys := s, sem := (sem x)\<lparr>sem_wait := q\<rparr>, place := (place x)(p := Going)\<rparr>)
         else Some (x\<lparr>place := (place x)(p := Holding)\<rparr>))"

definition down_return :: "nat \<Rightarrow> sem_sys \<Rightarrow> sem_sys" where
  "down_return c x =
     (let p = curr (sys x) c
      in x\<lparr>sem := (sem x)\<lparr>sem_wait := out_wait_queue p (sem_wait (sem x))\<rparr>, place := (place x)(p := Holding)\<rparr>)"

definition up :: "nat \<Rightarrow> sem_sys \<Rightarrow> sem_sys" where
  "up c x =
     (let p = curr (sys x) c; n = sem_count (sem x) + 1; x = x\<lparr>sem := (sem x)\<lparr>sem_count := n\<rparr>, place := (place x)(p := Outside)\<rparr>
      in if n \<le> 0 then x\<lparr>sys := wake_up_1st c (sem_wait (sem x)) (sys x)\<rparr> else x)"

section \<open>Steps\<close>

abbreviation waiting :: "sem_sys \<Rightarrow> addr \<Rightarrow> bool" where
  "waiting x p \<equiv> place x p = Going \<or> place x p = Parked"

text \<open>Steps of the scheduler that are not those of tasks in \<^verbatim>\<open>down\<close>: such a task does not change its own state, and only
  \<^verbatim>\<open>up\<close> wakes it (\<open>killed_waiter_enters\<close> below is what happens otherwise).\<close>

inductive other_step :: "sem_sys \<Rightarrow> sched_sys \<Rightarrow> bool" for x where
  Set_state: "s = sys x \<Longrightarrow> c < ncpus s \<Longrightarrow> curr s c \<noteq> idle_task s c \<Longrightarrow> \<not> waiting x (curr s c) \<Longrightarrow>
     other_step x (upd_task (curr s c) (\<lambda>t. t\<lparr>kt_state := st\<rparr>) s)"
| Wake: "s = sys x \<Longrightarrow> c < ncpus s \<Longrightarrow> p \<in> set (tlist s) \<Longrightarrow> \<not> waiting x p \<Longrightarrow> other_step x (wake_up_process c p s)"
| Signal: "s = sys x \<Longrightarrow> p \<in> set (tlist s) \<Longrightarrow> other_step x (snd (send_sig sig p s))"
| Affinity: "s = sys x \<Longrightarrow> c < ncpus s \<Longrightarrow> p \<in> set (tlist s) \<Longrightarrow> \<not> task_on_runqueue p s \<Longrightarrow> other_step x (snd (sched_set_cpus_allowed c p m s))"
| Tick: "s = sys x \<Longrightarrow> c < ncpus s \<Longrightarrow> other_step x (tick c s)"
| New: "s = sys x \<Longrightarrow> c < ncpus s \<Longrightarrow> p \<notin> set (tlist s) \<Longrightarrow> p \<noteq> NULL \<Longrightarrow> \<forall>d < ncpus s. p \<noteq> idle_task s d \<Longrightarrow> place x p = Outside \<Longrightarrow>
     other_step x (new_task c p pid s)"
| Reap: "s = sys x \<Longrightarrow> p \<in> set (tlist s) \<Longrightarrow> stof s p = TASK_ZOMBIE \<Longrightarrow> parked (ktasks s p) \<Longrightarrow> \<not> task_on_runqueue p s \<Longrightarrow> place x p = Outside \<Longrightarrow>
     other_step x (reap p s)"

text \<open>A processor that switches tasks: a task in \<^verbatim>\<open>down\<close> that was about to call \<^verbatim>\<open>schedule\<close> is now in that call.\<close>

definition after_schedule :: "nat \<Rightarrow> sched_sys \<Rightarrow> sem_sys \<Rightarrow> sem_sys" where
  "after_schedule c s' x =
     (let p = curr (sys x) c in x\<lparr>sys := s', place := (if place x p = Going then (place x)(p := Parked) else place x)\<rparr>)"

inductive sem_step :: "sem_sys \<Rightarrow> sem_sys \<Rightarrow> bool" where
  Other: "other_step x s' \<Longrightarrow> sem_step x (x\<lparr>sys := s'\<rparr>)"
| Schedule: "c < ncpus (sys x) \<Longrightarrow> cpu = kt_cpu (ktasks (sys x) (curr (sys x) c)) \<Longrightarrow> sent (schedule_out c cpu (sys x)) s1 \<Longrightarrow>
     schedule_pick c cpu s1 = Some s' \<Longrightarrow> sem_step x (after_schedule c s' x)"
| Down: "c < ncpus (sys x) \<Longrightarrow> curr (sys x) c \<noteq> idle_task (sys x) c \<Longrightarrow>
     place x (curr (sys x) c) = Outside \<Longrightarrow> down c x = Some x' \<Longrightarrow> sem_step x x'"
| Down_return: "c < ncpus (sys x) \<Longrightarrow> place x (curr (sys x) c) = Parked \<Longrightarrow> sem_step x (down_return c x)"
| Up: "c < ncpus (sys x) \<Longrightarrow> place x (curr (sys x) c) = Holding \<Longrightarrow> sem_step x (up c x)"

inductive sem_reach :: "sem_sys \<Rightarrow> bool" where
  start: "sched_boot s \<Longrightarrow> sem_reach \<lparr>sys = s, sem = init_MUTEX, place = (\<lambda>_. Outside)\<rparr>"
| step: "sem_reach x \<Longrightarrow> sem_step x x' \<Longrightarrow> sem_reach x'"

lemma other_sched: "other_step x s' \<Longrightarrow> sched_step (sys x) s'"
  by (cases rule: other_step.cases) (auto intro: sched_step.intros)

section \<open>What the scheduler keeps\<close>

text \<open>The states that only the task itself or \<^verbatim>\<open>wake_up_process\<close> changes.\<close>

definition steady :: "sched_sys \<Rightarrow> sched_sys \<Rightarrow> bool" where
  "steady s s' \<longleftrightarrow> (\<forall>p. stof s p = TASK_UNINTERRUPTIBLE \<or> stof s p = TASK_RUNNING \<longrightarrow> stof s' p = stof s p)"

lemma steady_refl: "steady s s"
  by (simp add: steady_def)

lemma steady_trans: "steady s s' \<Longrightarrow> steady s' s'' \<Longrightarrow> steady s s''"
  by (auto simp: steady_def)

lemma touches_steady: "touches p s s' \<Longrightarrow> steady s s'"
proof -
  assume t: "touches p s s'"
  have "stof s' q = stof s q" if "stof s q = TASK_UNINTERRUPTIBLE \<or> stof s q = TASK_RUNNING" for q
    using touches_queues [OF t] t that unfolding touches_def by (cases "q = p") auto
  then show ?thesis by (simp add: steady_def)
qed

lemma sent_steady: "sent s s' \<Longrightarrow> steady s s'"
  by (induction rule: sent.induct) (auto intro: steady_refl steady_trans touches_steady [OF touches_send])

lemma schedule_out_steady: "steady s (schedule_out c cpu s)"
  by (auto simp: steady_def schedule_out_def Let_def upd_task_def dequeue_task_def)

lemma choosing_steady: "steady s (choosing c s)"
proof -
  have w: "steady t (wake_signalled c c p t)" for p t
    by (auto simp: steady_def wake_signalled_def Let_def upd_task_def enqueue_task_def)
  have "steady t (fold (wake_signalled c c) ps t)" for ps t
  proof (induction ps arbitrary: t)
    case (Cons p ps)
    show ?case using steady_trans [OF w Cons.IH] by simp
  qed (simp add: steady_refl)
  moreover have "steady t (recheck_current c c t)" for t
    by (auto simp: steady_def recheck_current_def Let_def upd_task_def enqueue_task_def)
  ultimately show ?thesis unfolding choosing_def using steady_trans by blast
qed

text \<open>A queued task is runnable, unless it is the current one and about to sleep. On processors in \<open>X\<close> that one is runnable too.\<close>

definition awake :: "nat set \<Rightarrow> sched_sys \<Rightarrow> bool" where
  "awake X s \<longleftrightarrow> (\<forall>d p. p \<in> set (runq s d) \<longrightarrow> stof s p = TASK_RUNNING \<or> d \<notin> X \<and> p = curr s d)"

lemma awake_steady: "awake X s \<Longrightarrow> steady s s' \<Longrightarrow> runq s' = runq s \<Longrightarrow> curr s' = curr s \<Longrightarrow> awake X s'"
  unfolding awake_def steady_def by metis

lemma schedule_out_awake:
  assumes v: "sched_inv {} s" and c: "c < ncpus s" and a: "awake {} s"
  shows "awake {c} (schedule_out c c s)"
proof -
  have o: "stof (schedule_out c c s) p = TASK_RUNNING" if "p \<in> set (runq (schedule_out c c s) c)" for p
  proof (cases "p = curr s c")
    case True
    have "stof s p = TASK_RUNNING \<or> p \<noteq> idle_task s c" using sched_invD(7) [OF v c] by auto
    then show ?thesis using that True sched_invD(9) [OF v] on_runqueue(1) [OF v]
      by (auto simp: schedule_out_def Let_def upd_task_def dequeue_task_def split: if_splits)
  next
    case False
    have "p \<in> set (runq s c)" using that notin_set_remove1
      by (fastforce simp: schedule_out_def Let_def upd_task_def dequeue_task_def split: if_splits)
    then have "stof s p = TASK_RUNNING" using a False by (auto simp: awake_def)
    then show ?thesis using schedule_out_steady [of s c c] by (simp add: steady_def)
  qed
  have "stof (schedule_out c c s) p = TASK_RUNNING \<or> p = curr (schedule_out c c s) d" if "p \<in> set (runq (schedule_out c c s) d)" for p d
  proof -
    have "p \<in> set (runq s d)" using that notin_set_remove1
      by (fastforce simp: schedule_out_def Let_def upd_task_def dequeue_task_def split: if_splits)
    then have "stof s p = TASK_RUNNING \<or> p = curr s d" using a by (auto simp: awake_def)
    then show ?thesis using schedule_out_steady [of s c c] schedule_out_inv(2) [OF v c] by (auto simp: steady_def same_queues_def)
  qed
  then show ?thesis using o by (auto simp: awake_def)
qed

lemma choosing_awake:
  assumes "awake {c} s"
  shows "awake {c} (choosing c s)"
proof -
  have w: "awake {c} (wake_signalled c c p t)" if "awake {c} t" for p t
    using that by (auto simp: awake_def wake_signalled_def Let_def upd_task_def enqueue_task_def split: if_splits)
  have "awake {c} (fold (wake_signalled c c) ps t)" if "awake {c} t" for ps t
    using that by (induction ps arbitrary: t) (simp_all add: w)
  moreover have "awake {c} (recheck_current c c t)" if "awake {c} t" for t
    using that by (auto simp: awake_def recheck_current_def Let_def upd_task_def enqueue_task_def split: if_splits)
  ultimately show ?thesis using assms by (simp add: choosing_def)
qed

text \<open>One switch, with the signals that arrive in the middle of it.\<close>

lemma schedule_awake:
  assumes v: "sched_inv {} s" and c: "c < ncpus s" and a: "awake {} s" and t: "sent (schedule_out c c s) s1" and p: "schedule_pick c c s1 = Some s'"
  shows "awake {} s' \<and> stof s' (curr s' c) = TASK_RUNNING \<and> steady s s' \<and> tlist s' = tlist s \<and> ncpus s' = ncpus s \<and> (\<exists>x. curr s' = (curr s)(c := x))"
proof -
  note o = schedule_out_inv [OF v c]
  note i = sent_inv [OF t o(1)]
  have q: "sched_inv {c} s1" "c < ncpus s1" "curr s1 = curr s" "tlist s1 = tlist s" "ncpus s1 = ncpus s" "idle_task s1 = idle_task s"
    using i o(2) c by (simp_all add: same_queues_def)
  have a1: "awake {c} s1" using awake_steady [OF schedule_out_awake [OF v c a] sent_steady [OF t]] i by (simp add: same_queues_def)
  note a2 = choosing_awake [OF a1]
  note i2 = choosing_inv [OF q(1,2)]
  obtain b x where x: "pick_loop (choosing c s1) (runq (choosing c s1) c) (- 100) (idle_task s1 c) = (b, x)" by fastforce
  from schedule_pick_ok [OF q(1,2) x] p have s': "curr s' = (curr s)(c := x)" "runq s' = runq (choosing c s1)" "tlist s' = tlist s"
    "ncpus s' = ncpus s" "\<And>p. stof s' p = stof (choosing c s1) p" by (auto simp: q)
  have "stof (choosing c s1) x = TASK_RUNNING"
    using pick_loop_in [OF x] a2 sched_invD(7) [OF i2(1), of c] i2(2) q by (auto simp: awake_def same_queues_def)
  moreover have "curr (choosing c s1) = curr s" using i2(2) q(3) by (simp add: same_queues_def)
  then have "awake {} s'" using a2 by (auto simp: awake_def s')
  moreover have "steady s s'"
    using steady_trans [OF schedule_out_steady steady_trans [OF sent_steady [OF t] choosing_steady [of s1 c]]] by (simp add: steady_def s')
  ultimately show ?thesis using s' by auto
qed

lemma wake_up_process_same: "curr (wake_up_process c p s) = curr s" "ncpus (wake_up_process c p s) = ncpus s" "tlist (wake_up_process c p s) = tlist s"
  by (simp_all add: wake_up_process_def Let_def upd_task_def enqueue_task_def)

lemma wake_up_process_awake: "awake {} s \<Longrightarrow> awake {} (wake_up_process c p s)"
  by (auto simp: awake_def wake_up_process_def Let_def upd_task_def enqueue_task_def split: if_splits)

lemma set_state_awake:
  assumes v: "sched_inv {} s" and c: "c < ncpus s" and a: "awake {} s"
  shows "awake {} (upd_task (curr s c) (\<lambda>t. t\<lparr>kt_state := st\<rparr>) s)"
proof -
  have "p \<noteq> curr s c \<or> p = curr s d" if "p \<in> set (runq s d)" for p d
    using sched_invD(10) [OF v that] curr_cpu [OF v c] by auto
  then show ?thesis using a by (auto simp: awake_def upd_task_def)
qed

lemma other_keeps:
  assumes o: "other_step x s'" and v: "sched_inv {} (sys x)" and a: "awake {} (sys x)"
  shows "awake {} s' \<and> curr s' = curr (sys x) \<and> ncpus s' = ncpus (sys x) \<and>
    (\<forall>p. waiting x p \<longrightarrow> p \<in> set (tlist (sys x)) \<longrightarrow> p \<in> set (tlist s') \<and>
       (stof (sys x) p = TASK_UNINTERRUPTIBLE \<or> stof (sys x) p = TASK_RUNNING \<longrightarrow> stof s' p = stof (sys x) p))"
  using o
proof cases
  case (Set_state s c st)
  then show ?thesis using set_state_awake [OF v _ a] by (auto simp: upd_task_def)
next
  case (Wake s c p)
  then have "stof s' q = stof s q" if "waiting x q" for q using that wake_up_process_others(2) [of q p] by auto
  then show ?thesis using Wake wake_up_process_awake [OF a] by (simp add: wake_up_process_same)
next
  case (Signal s p sig)
  note t = touches_queues [OF touches_send [of p s sig]] touches_steady [OF touches_send [of p s sig]]
  have "awake {} s'" using awake_steady [OF a] t Signal by (simp add: same_queues_def)
  then show ?thesis using t Signal by (simp add: same_queues_def steady_def)
next
  case (Affinity s c p m)
  have "runq s' = runq s" "tlist s' = tlist s" "\<And>q. stof s' q = stof s q" "curr s' = curr s" "ncpus s' = ncpus s"
    by (simp_all add: Affinity sched_set_cpus_allowed_def Let_def upd_task_def split: option.split)
  then show ?thesis using a Affinity(2) by (simp add: awake_def)
next
  case (Tick s c)
  have "runq s' = runq s" "tlist s' = tlist s" "\<And>q. stof s' q = stof s q" "curr s' = curr s" "ncpus s' = ncpus s"
    by (simp_all add: Tick tick_def Let_def upd_task_def)
  then show ?thesis using a Tick(2) by (simp add: awake_def)
next
  case (New s c p pid)
  have n: "curr s c \<noteq> p" using sched_invD(11) [OF v] New by auto
  have "runq s' = runq s" "tlist s' = tlist s @ [p]" "\<And>q. q \<noteq> p \<Longrightarrow> stof s' q = stof s q" "curr s' = curr s" "ncpus s' = ncpus s"
    using n by (auto simp: New(1) new_task_def Let_def upd_task_def)
  moreover have "p \<notin> set (runq s d)" for d using sched_invD(10) [OF v, of p d] New(2,4) by auto
  ultimately show ?thesis using a New(2,7) unfolding awake_def by (metis UnCI place.distinct(1,3) set_append)
next
  case (Reap s p)
  then show ?thesis using a by (auto simp: reap_def awake_def set_remove1_eq [OF sched_invD(4) [OF v]])
qed

section \<open>Mutual exclusion\<close>

text \<open>A mutex is free, or one task holds it, or none does and the first of those that wait has been woken.\<close>

definition mutex_state :: "sem_sys \<Rightarrow> bool" where
  "mutex_state x \<longleftrightarrow> (let q = sem_wait (sem x); n = sem_count (sem x); st = stof (sys x); H = {p. place x p = Holding} in
     (H = {} \<and> q = [] \<and> n = 1) \<or>
     (\<exists>h. H = {h} \<and> n = - int (length q) \<and> (\<forall>p \<in> set q. st p = TASK_UNINTERRUPTIBLE)) \<or>
     (\<exists>p r. H = {} \<and> q = p # r \<and> n = - int (length r) \<and> st p = TASK_RUNNING \<and> (\<forall>p \<in> set r. st p = TASK_UNINTERRUPTIBLE)))"

definition sem_inv :: "sem_sys \<Rightarrow> bool" where
  "sem_inv x \<longleftrightarrow> sched_inv {} (sys x) \<and> awake {} (sys x) \<and> mutex_state x \<and>
     distinct (sem_wait (sem x)) \<and> set (sem_wait (sem x)) = {p. waiting x p} \<and>
     (\<forall>p. waiting x p \<longrightarrow> p \<in> set (tlist (sys x)) \<and> \<not> lost (sys x) p) \<and>
     (\<forall>c < ncpus (sys x). place x (curr (sys x) c) = Parked \<longrightarrow> stof (sys x) (curr (sys x) c) = TASK_RUNNING)"

lemma mutex_waiters: "mutex_state x \<Longrightarrow> p \<in> set (sem_wait (sem x)) \<Longrightarrow> stof (sys x) p = TASK_UNINTERRUPTIBLE \<or> stof (sys x) p = TASK_RUNNING"
  unfolding mutex_state_def Let_def by auto

text \<open>What the scheduler does on its own keeps the invariant.\<close>

lemma sched_keeps_sem_inv:
  assumes i: "sem_inv x" and s: "sched_step (sys x) s'" and a: "awake {} s'"
    and y: "y = x\<lparr>sys := s', place := pl\<rparr>" and pl: "\<And>p. pl p = place x p \<or> place x p = Going \<and> pl p = Parked"
    and w: "\<And>p. waiting x p \<Longrightarrow> p \<in> set (tlist s') \<and> stof s' p = stof (sys x) p"
    and c: "\<forall>c < ncpus s'. pl (curr s' c) = Parked \<longrightarrow> stof s' (curr s' c) = TASK_RUNNING"
  shows "sem_inv y"
proof -
  have pw: "waiting y p \<longleftrightarrow> waiting x p" "place y p = Holding \<longleftrightarrow> place x p = Holding" for p using pl [of p] by (auto simp: y)
  have q: "set (sem_wait (sem x)) = {p. waiting x p}" "sched_inv {} (sys x)" "mutex_state x" using i by (simp_all add: sem_inv_def)
  have st: "stof s' p = stof (sys x) p" if "p \<in> set (sem_wait (sem x))" for p using w that q(1) by simp
  have "mutex_state y"
  proof -
    have "\<forall>p \<in> set (sem_wait (sem x)). stof (sys y) p = stof (sys x) p" using st by (simp add: y)
    then show ?thesis using q(3) unfolding mutex_state_def Let_def pw by (auto simp: y)
  qed
  moreover have "\<not> lost s' p" if "waiting x p" for p
    using sched_step_lost [OF s q(2), of p] mutex_waiters [OF q(3), of p] q(1) i that by (auto simp: sem_inv_def)
  moreover have "sched_inv {} s'" by (rule sched_step_inv [OF s q(2)])
  ultimately show ?thesis using i a w c unfolding sem_inv_def pw by (simp add: y)
qed

lemma sem_invD:
  assumes "sem_inv x"
  shows "sched_inv {} (sys x)" "awake {} (sys x)" "mutex_state x" "distinct (sem_wait (sem x))" "set (sem_wait (sem x)) = {p. waiting x p}"
    "waiting x p \<Longrightarrow> p \<in> set (tlist (sys x)) \<and> \<not> lost (sys x) p"
    "c < ncpus (sys x) \<Longrightarrow> place x (curr (sys x) c) = Parked \<Longrightarrow> stof (sys x) (curr (sys x) c) = TASK_RUNNING"
  using assms unfolding sem_inv_def by blast+

lemma waiting_state: "sem_inv x \<Longrightarrow> waiting x p \<Longrightarrow> stof (sys x) p = TASK_UNINTERRUPTIBLE \<or> stof (sys x) p = TASK_RUNNING"
  using mutex_waiters [OF sem_invD(3), of x p] sem_invD(5) by blast

lemma other_inv:
  assumes i: "sem_inv x" and o: "other_step x s'"
  shows "sem_inv (x\<lparr>sys := s'\<rparr>)"
proof (rule sched_keeps_sem_inv [OF i other_sched [OF o], where pl = "place x"])
  note k = other_keeps [OF o sem_invD(1,2) [OF i]]
  show "awake {} s'" using k by blast
  show w: "p \<in> set (tlist s') \<and> stof s' p = stof (sys x) p" if "waiting x p" for p
    using k that sem_invD(6) [OF i that] waiting_state [OF i that] by blast
  show "\<forall>c < ncpus s'. place x (curr s' c) = Parked \<longrightarrow> stof s' (curr s' c) = TASK_RUNNING"
    using k w sem_invD(7) [OF i] by simp
qed simp_all

lemma schedule_inv:
  assumes i: "sem_inv x" and c: "c < ncpus (sys x)" and t: "sent (schedule_out c c (sys x)) s1" and p: "schedule_pick c c s1 = Some s'"
  shows "sem_inv (after_schedule c s' x)"
proof (rule sched_keeps_sem_inv [OF i _ _ _ _ _ _, where pl = "if place x (curr (sys x) c) = Going then (place x)(curr (sys x) c := Parked) else place x"])
  note v = sem_invD(1,2) [OF i]
  note k = schedule_awake [OF v(1) c v(2) t p]
  show "sched_step (sys x) s'" by (rule sched_step.Schedule [OF c, of c, OF _ t p]) (simp add: curr_cpu [OF v(1) c])
  show "awake {} s'" using k by blast
  show w: "p \<in> set (tlist s') \<and> stof s' p = stof (sys x) p" if "waiting x p" for p
    using k sem_invD(6) [OF i that] waiting_state [OF i that] unfolding steady_def by metis
  show "\<forall>d < ncpus s'. (if place x (curr (sys x) c) = Going then (place x)(curr (sys x) c := Parked) else place x) (curr s' d) = Parked \<longrightarrow>
      stof s' (curr s' d) = TASK_RUNNING"
  proof (intro allI impI)
    fix d assume d: "d < ncpus s'" "(if place x (curr (sys x) c) = Going then (place x)(curr (sys x) c := Parked) else place x) (curr s' d) = Parked"
    show "stof s' (curr s' d) = TASK_RUNNING"
    proof (cases "d = c")
      case False
      have e: "d < ncpus (sys x)" "curr s' d = curr (sys x) d" using d(1) k False by auto
      have "curr (sys x) d \<noteq> curr (sys x) c" using curr_cpu [OF v(1) c] curr_cpu [OF v(1) e(1)] False by auto
      then have "place x (curr (sys x) d) = Parked" using d(2) e(2) by (simp split: if_splits)
      then show ?thesis using sem_invD(7) [OF i e(1)] w e(2) by simp
    qed (use k in simp)
  qed
qed (auto simp: after_schedule_def Let_def)

text \<open>Entering.\<close>

lemma down_inv:
  assumes i: "sem_inv x" and c: "c < ncpus (sys x)" and p: "curr (sys x) c \<noteq> idle_task (sys x) c" "place x (curr (sys x) c) = Outside"
    and d: "down c x = Some x'"
  shows "sem_inv x'"
proof (cases "sem_count (sem x) - 1 < 0")
  case False
  let ?p = "curr (sys x) c"
  have "sem_wait (sem x) = [] \<and> {p. place x p = Holding} = {} \<and> sem_count (sem x) = 1" using sem_invD(3) [OF i] False
    unfolding mutex_state_def Let_def by auto
  then have m: "sem_wait (sem x) = []" "\<And>q. place x q \<noteq> Holding" "sem_count (sem x) = 1" by auto
  have x': "x' = x\<lparr>sem := (sem x)\<lparr>sem_count := 0\<rparr>, place := (place x)(?p := Holding)\<rparr>" using d False m(3) by (simp add: down_def Let_def)
  have "{q. place x' q = Holding} = {?p}" using m(2) by (auto simp: x')
  then have "mutex_state x'" unfolding mutex_state_def Let_def by (simp add: x' m(1))
  moreover have "waiting x' q \<longleftrightarrow> waiting x q" for q using p(2) by (auto simp: x')
  moreover have "place x' q = Parked \<longleftrightarrow> place x q = Parked" for q using p(2) by (auto simp: x')
  ultimately show ?thesis using i unfolding sem_inv_def by (simp add: x')
next
  case True
  let ?p = "curr (sys x) c" and ?s = "upd_task (curr (sys x) c) (\<lambda>t. t\<lparr>kt_state := TASK_UNINTERRUPTIBLE\<rparr>) (sys x)"
  note v = sem_invD(1,2) [OF i]
  have x': "x' = x\<lparr>sys := ?s, sem := (sem x)\<lparr>sem_count := sem_count (sem x) - 1, sem_wait := sem_wait (sem x) @ [?p]\<rparr>, place := (place x)(?p := Going)\<rparr>"
    using d True by (simp add: down_def Let_def sleep_on_begin_def in_wait_queue_def upd_task_def split: if_splits)
  have pt: "?p \<in> set (tlist (sys x))" using sched_invD(11) [OF v(1) c] p(1) by auto
  have st: "sched_step (sys x) ?s" by (rule sched_step.Set_state [OF c p(1)])
  have nq: "?p \<notin> set (sem_wait (sem x))" using sem_invD(5) [OF i] p(2) by simp
  have w: "waiting x' q \<longleftrightarrow> waiting x q \<or> q = ?p" "place x' q = Holding \<longleftrightarrow> place x q = Holding" for q using p(2) by (auto simp: x')
  have s: "stof ?s q = (if q = ?p then TASK_UNINTERRUPTIBLE else stof (sys x) q)" for q by (simp add: upd_task_def)
  have "mutex_state x'"
  proof -
    have "\<forall>q \<in> set (sem_wait (sem x)). stof ?s q = stof (sys x) q" using nq s by auto
    moreover have "{p. place x p = Holding} \<noteq> {} \<or> sem_wait (sem x) \<noteq> []" using sem_invD(3) [OF i] True unfolding mutex_state_def Let_def by auto
    ultimately show ?thesis using sem_invD(3) [OF i] unfolding mutex_state_def Let_def w by (fastforce simp: x' s)
  qed
  moreover have "\<not> lost ?s q" if "waiting x q \<or> q = ?p" for q
  proof (cases "q = ?p")
    case False
    then show ?thesis using sched_step_lost [OF st v(1), of q] sem_invD(6) [OF i, of q] waiting_state [OF i, of q] that by auto
  qed (simp add: lost_def s)
  moreover have "stof ?s (curr (sys x) e) = TASK_RUNNING" if "e < ncpus (sys x)" "place x' (curr (sys x) e) = Parked" for e
    using that sem_invD(7) [OF i that(1)] s by (auto simp: x' split: if_splits)
  ultimately show ?thesis
    using sched_step_inv [OF st v(1)] set_state_awake [OF v(1) c v(2)] sem_invD(4,5,6) [OF i] nq pt
    unfolding sem_inv_def w by (auto simp: x' upd_task_def)
qed

text \<open>The first that waits is the only one that returns.\<close>

lemma down_return_first:
  assumes i: "sem_inv x" and c: "c < ncpus (sys x)" and p: "place x (curr (sys x) c) = Parked"
  obtains r where "sem_wait (sem x) = curr (sys x) c # r" "\<forall>q. place x q \<noteq> Holding" "sem_count (sem x) = - int (length r)"
    "\<forall>q \<in> set r. stof (sys x) q = TASK_UNINTERRUPTIBLE"
proof -
  have r: "stof (sys x) (curr (sys x) c) = TASK_RUNNING" by (rule sem_invD(7) [OF i c p])
  have "curr (sys x) c \<in> set (sem_wait (sem x))" using sem_invD(5) [OF i] p by simp
  then have "\<exists>r. {q. place x q = Holding} = {} \<and> sem_wait (sem x) = curr (sys x) c # r \<and> sem_count (sem x) = - int (length r) \<and>
    (\<forall>q \<in> set r. stof (sys x) q = TASK_UNINTERRUPTIBLE)"
    using sem_invD(3) [OF i] r unfolding mutex_state_def Let_def by auto
  then show ?thesis using that by blast
qed

lemma down_return_inv:
  assumes i: "sem_inv x" and c: "c < ncpus (sys x)" and p: "place x (curr (sys x) c) = Parked"
  shows "sem_inv (down_return c x)"
proof -
  let ?p = "curr (sys x) c" and ?x = "down_return c x"
  obtain r where r: "sem_wait (sem x) = ?p # r" "\<forall>q. place x q \<noteq> Holding" "sem_count (sem x) = - int (length r)"
    "\<forall>q \<in> set r. stof (sys x) q = TASK_UNINTERRUPTIBLE" by (rule down_return_first [OF i c p])
  have x': "?x = x\<lparr>sem := (sem x)\<lparr>sem_wait := r\<rparr>, place := (place x)(?p := Holding)\<rparr>" by (simp add: down_return_def Let_def out_wait_queue_def r(1))
  have "{q. place ?x q = Holding} = {?p}" using r(2) by (auto simp: x')
  then have "mutex_state ?x" unfolding mutex_state_def Let_def using r(3,4) by (simp add: x')
  moreover have w: "waiting ?x q \<longleftrightarrow> waiting x q \<and> q \<noteq> ?p" "place ?x q = Parked \<longleftrightarrow> place x q = Parked \<and> q \<noteq> ?p" for q by (auto simp: x')
  moreover have "set r = {q. waiting x q \<and> q \<noteq> ?p}" using sem_invD(4,5) [OF i] unfolding r(1) by auto
  ultimately show ?thesis using sem_invD [OF i] r(1) unfolding sem_inv_def w by (simp add: x')
qed

lemma up_inv:
  assumes i: "sem_inv x" and c: "c < ncpus (sys x)" and p: "place x (curr (sys x) c) = Holding"
  shows "sem_inv (up c x)"
proof -
  let ?p = "curr (sys x) c" and ?x = "up c x"
  note v = sem_invD(1,2) [OF i]
  have "\<exists>h. {q. place x q = Holding} = {h} \<and> sem_count (sem x) = - int (length (sem_wait (sem x))) \<and> (\<forall>q \<in> set (sem_wait (sem x)). stof (sys x) q = TASK_UNINTERRUPTIBLE)"
    using sem_invD(3) [OF i] p unfolding mutex_state_def Let_def by auto
  then obtain h where h: "{q. place x q = Holding} = {h}" and m: "sem_count (sem x) = - int (length (sem_wait (sem x)))"
    "\<forall>q \<in> set (sem_wait (sem x)). stof (sys x) q = TASK_UNINTERRUPTIBLE" by blast
  have "?p \<in> {q. place x q = Holding}" using p by simp
  then have u: "q = ?p" if "place x q = Holding" for q using that h by auto
  show ?thesis
  proof (cases "sem_wait (sem x)")
    case Nil
    have x': "?x = x\<lparr>sem := (sem x)\<lparr>sem_count := 1\<rparr>, place := (place x)(?p := Outside)\<rparr>" using m(1) Nil by (simp add: up_def Let_def)
    have "{q. place ?x q = Holding} = {}" using u by (auto simp: x')
    then have "mutex_state ?x" unfolding mutex_state_def Let_def by (simp add: x' Nil)
    moreover have "waiting ?x q \<longleftrightarrow> waiting x q" "place ?x q = Parked \<longleftrightarrow> place x q = Parked" for q using p by (auto simp: x')
    ultimately show ?thesis using i unfolding sem_inv_def by (simp add: x')
  next
    case (Cons f r)
    let ?s = "wake_up_process c f (sys x)"
    have wf: "waiting x f" using sem_invD(5) [OF i] Cons by auto
    have ft: "f \<in> set (tlist (sys x))" "f \<noteq> NULL" using sem_invD(6) [OF i wf] sched_invD(3) [OF v(1)] by auto
    have st: "sched_step (sys x) ?s" by (rule sched_step.Wake [OF c ft(1)])
    have x': "?x = x\<lparr>sem := (sem x)\<lparr>sem_count := - int (length r)\<rparr>, place := (place x)(?p := Outside), sys := ?s\<rparr>"
      using m(1) Cons by (simp add: up_def Let_def wake_up_1st_def)
    have s: "stof ?s q = (if q = f then TASK_RUNNING else stof (sys x) q)" for q
      using wake_up_queues(2) [OF ft(2)] wake_up_process_others(2) [of q f] by simp
    have w: "place ?x q = Going \<longleftrightarrow> place x q = Going" "place ?x q = Parked \<longleftrightarrow> place x q = Parked" for q using p by (auto simp: x')
    have "{q. place ?x q = Holding} = {}" using u by (auto simp: x')
    moreover have "f \<notin> set r" using sem_invD(4) [OF i] Cons by simp
    then have "\<forall>q \<in> set r. stof ?s q = TASK_UNINTERRUPTIBLE" using m(2) Cons s by auto
    ultimately have "mutex_state ?x" unfolding mutex_state_def Let_def by (simp add: x' Cons s)
    moreover have "\<not> lost ?s q" if "waiting x q" for q
      using sched_step_lost [OF st v(1), of q] sem_invD(6) [OF i that] waiting_state [OF i that] by auto
    ultimately show ?thesis
      using sched_step_inv [OF st v(1)] wake_up_process_awake [OF v(2)] sem_invD(4-7) [OF i]
      unfolding sem_inv_def w by (simp add: x' wake_up_process_same s)
  qed
qed

lemma sem_reach_inv: "sem_reach x \<Longrightarrow> sem_inv x"
proof (induction rule: sem_reach.induct)
  case (start s)
  have "sched_inv {} s" by (rule sched_reach_inv [OF sched_reach.boot [OF start]])
  then show ?case using start by (simp add: sem_inv_def mutex_state_def init_MUTEX_def sema_init_def awake_def sched_boot_def)
next
  case (step x x')
  from step.hyps(2) step.IH show ?case
  proof cases
    case (Schedule c cpu s1 s')
    then show ?thesis using schedule_inv [OF step.IH] curr_cpu [OF sem_invD(1) [OF step.IH]] by simp
  qed (auto intro: other_inv down_inv down_return_inv up_inv)
qed

section \<open>Properties\<close>


text \<open>C35: No wake-up is lost: whenever a task waits for a mutex, some task holds it, or the first task that waits is runnable and on
  the run queue of its processor, so that it runs, takes the mutex and wakes the next one with its \<^verbatim>\<open>up\<close>.\<close>

theorem mutex_no_lost_wakeup:
  assumes r: "sem_reach x" and w: "place x p = Going \<or> place x p = Parked"
  shows "(\<exists>h. place x h = Holding) \<or>
    (\<exists>f r. sem_wait (sem x) = f # r \<and> stof (sys x) f = TASK_RUNNING \<and> f \<in> set (runq (sys x) (kt_cpu (ktasks (sys x) f))))"
proof -
  note i = sem_reach_inv [OF r]
  have "p \<in> set (sem_wait (sem x))" using sem_invD(5) [OF i] w by simp
  then have "{h. place x h = Holding} \<noteq> {} \<or> (\<exists>f r. sem_wait (sem x) = f # r \<and> stof (sys x) f = TASK_RUNNING)"
    using sem_invD(3) [OF i] unfolding mutex_state_def Let_def by auto
  moreover have "f \<in> set (runq (sys x) (kt_cpu (ktasks (sys x) f)))" if "sem_wait (sem x) = f # r" "stof (sys x) f = TASK_RUNNING" for f r
  proof -
    have "waiting x f" using sem_invD(5) [OF i] that(1) by auto
    then have "\<exists>d. f \<in> set (runq (sys x) d)" using sem_invD(6) [OF i] that(2) by (auto simp: lost_def)
    then show ?thesis using on_runqueue [OF sem_invD(1) [OF i]] by blast
  qed
  ultimately show ?thesis by blast
qed

text \<open>\<^verbatim>\<open>wake_up\<close> makes exactly the tasks of the queue runnable whose state is in the mask, puts each of them on a run queue, and
  changes the state of no other task.\<close>

theorem wake_up_exact:
  assumes "NULL \<notin> set q" "distinct q"
  shows "stof (wake_up c st q s) p = (if p \<in> set q \<and> state_flag (stof s p) AND st \<noteq> 0 then TASK_RUNNING else stof s p) \<and>
    (p \<in> set q \<and> state_flag (stof s p) AND st \<noteq> 0 \<longrightarrow> (\<exists>d. p \<in> set (runq (wake_up c st q s) d)))"
  using assms
proof (induction q arbitrary: s)
  case (Cons f q)
  let ?t = "if state_flag (stof s f) AND st \<noteq> 0 then wake_up_process c f s else s"
  have w: "wake_up c st (f # q) s = wake_up c st q ?t" by (simp add: wake_up_def)
  have one: "x \<in> set (runq (wake_up_process c y t) d)" if "x \<in> set (runq t d)" for x y t d
    using that by (auto simp: wake_up_process_def Let_def upd_task_def enqueue_task_def)
  have keep: "x \<in> set (runq (wake_up c st r t) d)" if "x \<in> set (runq t d)" for x r t d
    using that by (induction r arbitrary: t) (simp_all add: wake_up_def one)
  have n: "f \<noteq> NULL" "f \<notin> set q" using Cons.prems by auto
  note IH = Cons.IH [of ?t] Cons.prems
  show ?case
  proof (cases "p = f")
    case True
    have "\<exists>d. f \<in> set (runq (wake_up c st q (wake_up_process c f s)) d)" using wake_up_queues(1) [OF n(1), of c s] keep by blast
    then show ?thesis using True IH n wake_up_queues(2) [OF n(1), of c s] unfolding w by auto
  next
    case False
    then have "stof ?t p = stof s p" by (simp add: wake_up_process_others)
    then show ?thesis using IH n False unfolding w by auto
  qed
qed (simp add: wake_up_def)

section \<open>Limits\<close>

text \<open>A semaphore that admits two: \<open>f\<close> and \<open>g\<close> wait, and both holders leave before \<open>f\<close> has left the queue. Both wake \<open>f\<close>, which is
  still the first; when \<open>f\<close> leaves too, the count is 1 and nobody wakes \<open>g\<close>. (All semaphores of the kernel are mutexes.)\<close>

lemma counting_semaphore_loses_wakeup:
  assumes "sem_count (sem x) = - 2" "sem_wait (sem x) = [f, g]" "f \<noteq> g"
    and y: "sem y = sem (up 1 (up 0 x))" "curr (sys y) c = f"
  shows "stof (sys (up 1 (up 0 x))) g = stof (sys x) g \<and> sem_count (sem y) = 0 \<and>
    sys (up c (down_return c y)) = sys y \<and> sem (up c (down_return c y)) = \<lparr>sem_count = 1, sem_wait = [g]\<rparr>"
proof -
  have u: "sem_count (sem (up d z)) = n + 1 \<and> sem_wait (sem (up d z)) = [f, g] \<and> stof (sys (up d z)) g = stof (sys z) g"
    if "sem_count (sem z) = n" "n < 0" "sem_wait (sem z) = [f, g]" for d z n
    using that assms(3) by (simp add: up_def Let_def wake_up_1st_def wake_up_process_others)
  note u0 = u [OF assms(1) _ assms(2), of 0]
  note u1 = u [of "up 0 x" "- 1" 1]
  have s: "sem (up 1 (up 0 x)) = \<lparr>sem_count = 0, sem_wait = [f, g]\<rparr>" using u0 u1 by simp
  have g: "stof (sys (up 1 (up 0 x))) g = stof (sys x) g" using u0 u1 by simp
  have sy: "sem y = \<lparr>sem_count = 0, sem_wait = [f, g]\<rparr>" using y(1) s by simp
  show ?thesis unfolding g using y(2) sy by (simp add: up_def down_return_def Let_def out_wait_queue_def)
qed

text \<open>\<^verbatim>\<open>sys_exit_group\<close> wakes a thread of its group that sleeps in \<^verbatim>\<open>down\<close>. The thread does not look whether it was
  \<^verbatim>\<open>up\<close> that woke it, and goes on beside the holder.\<close>

lemma killed_waiter_enters:
  assumes "p \<noteq> NULL" "stof s p = TASK_UNINTERRUPTIBLE" "curr (sys y) c = p" "place y h = Holding"
  shows "stof (exit_group_kill d p s) p = TASK_RUNNING \<and> (\<exists>e. p \<in> set (runq (exit_group_kill d p s) e)) \<and>
    place (down_return c y) p = Holding \<and> place (down_return c y) h = Holding"
proof -
  let ?s = "snd (send_sig SIGKILL p s)"
  have "stof ?s p = TASK_UNINTERRUPTIBLE" using touches_steady [OF touches_send [of p s SIGKILL]] assms(2) by (simp add: steady_def)
  then have "exit_group_kill d p s = wake_up_process d p ?s" using assms(2) by (simp add: exit_group_kill_def Let_def)
  then show ?thesis using wake_up_queues [OF assms(1)] assms(3,4) by (simp add: down_return_def Let_def)
qed

section \<open>Examples\<close>

text \<open>Task 12288 takes the mutex and sleeps with it, and task 16384 waits.\<close>

definition sx0 :: sem_sys where "sx0 = \<lparr>sys = boot2, sem = init_MUTEX, place = (\<lambda>_. Outside)\<rparr>"
definition sx1 :: sem_sys where "sx1 = sx0\<lparr>sys := new_task 0 12288 1 (sys sx0)\<rparr>"
definition sx2 :: sem_sys where "sx2 = sx1\<lparr>sys := wake_up_process 0 12288 (sys sx1)\<rparr>"
definition sx3 :: sem_sys where "sx3 = sx2\<lparr>sys := new_task 0 16384 2 (sys sx2)\<rparr>"
definition sx4 :: sem_sys where "sx4 = sx3\<lparr>sys := wake_up_process 0 16384 (sys sx3)\<rparr>"
definition sx5 :: sem_sys where "sx5 = after_schedule 0 (the (schedule 0 (sys sx4))) sx4"
definition sx6 :: sem_sys where "sx6 = the (down 0 sx5)"
definition sx7 :: sem_sys where "sx7 = sx6\<lparr>sys := upd_task (curr (sys sx6) 0) (\<lambda>t. t\<lparr>kt_state := TASK_UNINTERRUPTIBLE\<rparr>) (sys sx6)\<rparr>"
definition sx8 :: sem_sys where "sx8 = after_schedule 0 (the (schedule 0 (sys sx7))) sx7"
definition sx9 :: sem_sys where "sx9 = the (down 0 sx8)"

lemma sem_schedule:
  assumes "sem_reach x" "c < ncpus (sys x)"
  shows "sem_reach (after_schedule c (the (schedule c (sys x))) x)"
proof -
  note v = sem_invD(1) [OF sem_reach_inv [OF assms(1)]]
  note o = schedule_out_inv [OF v assms(2)]
  have "c < ncpus (schedule_out c c (sys x))" using o(2) assms(2) by (simp add: same_queues_def)
  then obtain s' where s': "schedule_pick c c (schedule_out c c (sys x)) = Some s'" using schedule_pick_inv [OF o(1)] by blast
  then have "schedule c (sys x) = Some s'" by (simp add: schedule_def curr_cpu [OF v assms(2)])
  then show ?thesis using sem_reach.step [OF assms(1) sem_step.Schedule [OF assms(2) _ sent.none s']] by (simp add: curr_cpu [OF v assms(2)])
qed

lemma sx4_reach: "sem_reach sx4"
proof -
  have "sched_boot boot2" by (simp add: sched_boot_def boot2_def boot_task_def)
  then have r0: "sem_reach sx0" unfolding sx0_def by (rule sem_reach.start)
  have r1: "sem_reach sx1" unfolding sx1_def
    by (rule sem_reach.step [OF r0 sem_step.Other [OF other_step.New [OF refl]]]) (simp_all add: sx0_def boot2_def)
  have r2: "sem_reach sx2" unfolding sx2_def
    by (rule sem_reach.step [OF r1 sem_step.Other [OF other_step.Wake [OF refl]]]) (code_simp+)
  have n: "ncpus (sys sx2) = 2 \<and> 16384 \<notin> set (tlist (sys sx2)) \<and> place sx2 16384 = Outside" by code_simp
  have "\<forall>d < ncpus (sys sx2). (16384 :: addr) \<noteq> idle_task (sys sx2) d"
    by (simp add: sx2_def sx1_def sx0_def boot2_def new_task_def wake_up_process_def enqueue_task_def upd_task_def Let_def)
  then have r3: "sem_reach sx3" unfolding sx3_def
    using n by (intro sem_reach.step [OF r2 sem_step.Other [OF other_step.New [OF refl]]]) simp_all
  show ?thesis unfolding sx4_def
    by (rule sem_reach.step [OF r3 sem_step.Other [OF other_step.Wake [OF refl]]]) (code_simp+)
qed

lemma choosing_quiet:
  assumes "\<forall>p \<in> set (tlist s). stof s p \<noteq> TASK_INTERRUPTIBLE" "stof s (curr s c) \<noteq> TASK_INTERRUPTIBLE"
  shows "choosing c s = s"
proof -
  have "fold (wake_signalled c c) ps s = s" if "\<forall>p \<in> set ps. stof s p \<noteq> TASK_INTERRUPTIBLE" for ps
    using that by (induction ps) (simp_all add: wake_signalled_def)
  then show ?thesis using assms by (simp add: choosing_def recheck_current_def Let_def)
qed

lemma sx5_facts: "curr (sys sx5) 0 = 12288 \<and> runq (sys sx5) 0 = [12288, 16384] \<and> tlist (sys sx5) = [12288, 16384] \<and> idle_task (sys sx5) 0 = 4096 \<and>
    ncpus (sys sx5) = 2 \<and> stof (sys sx5) 16384 = TASK_RUNNING \<and> counter (ktasks (sys sx5) 16384) = 3 \<and> sem_count (sem sx5) = 1 \<and>
    sem_wait (sem sx5) = [] \<and> place sx5 12288 = Outside \<and> place sx5 16384 = Outside \<and> kt_pid (ktasks (sys sx5) 16384) = 2"
  by code_simp

lemma sx7_facts: "sem_reach sx7" "curr (sys sx7) 0 = 12288" "runq (sys sx7) 0 = [12288, 16384]" "tlist (sys sx7) = [12288, 16384]"
    "idle_task (sys sx7) 0 = 4096" "ncpus (sys sx7) = 2" "stof (sys sx7) 12288 = TASK_UNINTERRUPTIBLE" "stof (sys sx7) 16384 = TASK_RUNNING"
    "counter (ktasks (sys sx7) 16384) = 3" "kt_pid (ktasks (sys sx7) 16384) = 2" "sem_count (sem sx7) = 0" "sem_wait (sem sx7) = []"
    "place sx7 12288 = Holding" "place sx7 16384 = Outside"
proof -
  note f = sx5_facts
  have r5: "sem_reach sx5" unfolding sx5_def by (rule sem_schedule [OF sx4_reach]) code_simp
  have x6: "sx6 = sx5\<lparr>sem := (sem sx5)\<lparr>sem_count := 0\<rparr>, place := (place sx5)(12288 := Holding)\<rparr>" using f by (simp add: sx6_def down_def Let_def)
  have "down 0 sx5 = Some sx6" using f x6 by (simp add: down_def Let_def)
  then have r6: "sem_reach sx6" using sem_reach.step [OF r5 sem_step.Down, of 0 sx6] f by simp
  show "sem_reach sx7" unfolding sx7_def
    by (rule sem_reach.step [OF r6 sem_step.Other [OF other_step.Set_state [OF refl]]]) (use f in \<open>simp_all add: x6\<close>)
qed (use sx5_facts in \<open>simp_all add: sx7_def sx6_def down_def Let_def upd_task_def\<close>)

lemma sx8_facts: "sem_reach sx8" "curr (sys sx8) 0 = 16384" "idle_task (sys sx8) 0 = 4096" "ncpus (sys sx8) = 2" "kt_pid (ktasks (sys sx8) 16384) = 2"
    "sem_count (sem sx8) = 0" "sem_wait (sem sx8) = []" "place sx8 = place sx7"
proof -
  note f = sx7_facts
  note v = sem_invD(1) [OF sem_reach_inv [OF f(1)]]
  have c: "0 < ncpus (sys sx7)" by (simp add: f)
  define s1 where "s1 = dequeue_task 12288 (sys sx7)"
  have "task_on_runqueue 12288 (sys sx7)" using on_runqueue(1) [OF v] f(3) by (metis list.set_intros(1))
  then have o: "schedule_out 0 0 (sys sx7) = s1" by (simp add: schedule_out_def f s1_def)
  have ch: "choosing 0 s1 = s1" by (rule choosing_quiet) (simp_all add: s1_def dequeue_task_def f)
  have x: "pick_loop (choosing 0 s1) (runq (choosing 0 s1) 0) (- 100) (idle_task s1 0) = (3, 16384)"
    unfolding ch by (simp add: s1_def dequeue_task_def f)
  have i: "sched_inv {0} s1" "0 < ncpus s1" using schedule_out_inv [OF v c] c by (simp_all add: o same_queues_def)
  have e: "schedule 0 (sys sx7) = schedule_pick 0 0 s1" by (simp add: schedule_def curr_cpu [OF v c] o)
  obtain s' where s': "schedule_pick 0 0 s1 = Some s'" "curr s' 0 = 16384" "ncpus s' = 2" "idle_task s' 0 = 4096"
    using schedule_pick_ok [OF i x] by (auto simp: s1_def dequeue_task_def f)
  have q: "curr s1 0 = 12288" "kt_pid (ktasks s1 16384) = 2" by (simp_all add: s1_def dequeue_task_def f)
  have "schedule_pick 0 0 s1 = switch_to 0 16384 (upd_task 12288 (\<lambda>t. t\<lparr>need_resched := False\<rparr>) s1)"
    using x unfolding schedule_pick_def Let_def choosing_def [symmetric] ch by (simp add: q) (simp add: upd_task_def q)
  then have "kt_pid (ktasks s' 16384) = 2" using s'(1) q by (auto simp: switch_to_def Let_def upd_task_def split: if_splits)
  then show "sem_reach sx8" "curr (sys sx8) 0 = 16384" "idle_task (sys sx8) 0 = 4096" "ncpus (sys sx8) = 2" "kt_pid (ktasks (sys sx8) 16384) = 2"
    "sem_count (sem sx8) = 0" "sem_wait (sem sx8) = []" "place sx8 = place sx7"
    using sem_schedule [OF f(1) c] s' f by (simp_all add: sx8_def e after_schedule_def Let_def)
qed

lemma sx9_facts: "sem_reach sx9" "place sx9 12288 = Holding" "place sx9 16384 = Going"
proof -
  have d: "down 0 sx8 = Some sx9" using sx8_facts by (simp add: sx9_def down_def Let_def sleep_on_begin_def)
  show "sem_reach sx9" using sem_reach.step [OF sx8_facts(1) sem_step.Down, of 0 sx9] d sx8_facts sx7_facts by simp
  show "place sx9 12288 = Holding" "place sx9 16384 = Going"
    using sx8_facts sx7_facts by (simp_all add: sx9_def down_def Let_def sleep_on_begin_def)
qed


theorem mutex_no_lost_wakeup_witness: "sem_reach sx9 \<and> place sx9 16384 = Going \<and>
    ((\<exists>h. place sx9 h = Holding) \<or>
     (\<exists>f r. sem_wait (sem sx9) = f # r \<and> stof (sys sx9) f = TASK_RUNNING \<and> f \<in> set (runq (sys sx9) (kt_cpu (ktasks (sys sx9) f)))))"
  using mutex_no_lost_wakeup [OF sx9_facts(1), of 16384] sx9_facts by blast

theorem wake_up_exact_witness: "stof (wake_up 0 3 [12288, 16384] (sys sx7)) 12288 = TASK_RUNNING"
  using wake_up_exact [of "[12288, 16384]" 0 3 "sys sx7" 12288] sx7_facts by (simp add: state_flag_def)

end
