(* ===== verification/Signal.thy ===== *)
theory Signal
  imports Sched Bitops
begin

text \<open>
  Signals in the task that gets them: \<^verbatim>\<open>src/src/kernel/signal.c\<close>. The state is the structure of the current task, the
  registers it had when it entered the kernel, and its memory as bytes. What \<^verbatim>\<open>verify_area\<close> answers is a predicate on
  ranges; user pointers are given with what they point to. A task that exits does not come back, which is the left side of a
  sum.
\<close>

section \<open>Model\<close>

abbreviation (input) SA_NOCLDSTOP :: u32 where "SA_NOCLDSTOP \<equiv> 1"
abbreviation (input) SA_SIGINFO :: u32 where "SA_SIGINFO \<equiv> 4"
abbreviation (input) SA_RESTART :: u32 where "SA_RESTART \<equiv> 0x10000000"
abbreviation (input) SA_NOMASK :: u32 where "SA_NOMASK \<equiv> 0x40000000"
abbreviation (input) SA_ONESHOT :: u32 where "SA_ONESHOT \<equiv> 0x80000000"
abbreviation (input) SIGSEGV :: u32 where "SIGSEGV \<equiv> 11"
abbreviation (input) USER_CS :: "16 word" where "USER_CS \<equiv> 0x23"
abbreviation (input) USER_DS :: "16 word" where "USER_DS \<equiv> 0x2b"

text \<open>Results of system calls as the processor sees them: \<^verbatim>\<open>-EINTR\<close> and the codes that ask for a restart.\<close>

abbreviation (input) m_EINTR :: u32 where "m_EINTR \<equiv> - 4"
abbreviation (input) m_ERESTARTSYS :: u32 where "m_ERESTARTSYS \<equiv> - 512"
abbreviation (input) m_ERESTARTNOINTR :: u32 where "m_ERESTARTNOINTR \<equiv> - 513"
abbreviation (input) m_ERESTARTNOHAND :: u32 where "m_ERESTARTNOHAND \<equiv> - 514"

definition BLOCKABLE :: u32 where "BLOCKABLE = NOT (sigbit SIGKILL OR sigbit SIGSTOP)"

subsection \<open>Masks and actions\<close>

datatype sig_how = SIG_BLOCK | SIG_UNBLOCK | SIG_SETMASK | Bad_how

text \<open>\<open>nw\<close> is the new set if its pointer is not null, with the answer of \<^verbatim>\<open>verify_area\<close>; \<open>ow\<close> is the answer for the pointer to
  the old set if that is not null. The result carries what is stored through that pointer.\<close>

definition sys_sigprocmask :: "sig_how \<Rightarrow> (bool \<times> u32) option \<Rightarrow> bool option \<Rightarrow> ktask \<Rightarrow> (errno + u32 option) \<times> ktask" where
  "sys_sigprocmask how nw ow t =
     (let bad = (case nw of None \<Rightarrow> False | Some (ok, _) \<Rightarrow> \<not> ok); new_set = (case nw of None \<Rightarrow> 0 | Some (_, w) \<Rightarrow> w AND BLOCKABLE)
      in if bad then (Inl EFAULT, t)
         else if ow = Some False then (Inl EFAULT, t)
         else
           let old_set = blocked t; stored = (case ow of None \<Rightarrow> None | Some _ \<Rightarrow> Some old_set)
           in case nw of None \<Rightarrow> (Inr stored, t)
              | Some _ \<Rightarrow>
                  (case how of
                     SIG_BLOCK \<Rightarrow> (Inr stored, t\<lparr>blocked := blocked t OR new_set\<rparr>)
                   | SIG_UNBLOCK \<Rightarrow> (Inr stored, t\<lparr>blocked := blocked t AND NOT new_set\<rparr>)
                   | SIG_SETMASK \<Rightarrow> (Inr stored, t\<lparr>blocked := new_set\<rparr>)
                   | Bad_how \<Rightarrow> (Inl EINVAL, t)))"

definition sys_sigpending :: "bool \<Rightarrow> ktask \<Rightarrow> errno + u32" where
  "sys_sigpending ok t = (if \<not> ok then Inl EFAULT else Inr (blocked t AND signal t))"

definition check_pending :: "nat \<Rightarrow> ktask \<Rightarrow> ktask" where
  "check_pending signum t =
     (let h = sa_handler (sigact t (signum - 1))
      in if h = SIG_IGN then (if signum = SIGCHLD then t else t\<lparr>signal := signal t AND NOT (sigbit signum)\<rparr>)
         else if h = SIG_DFL
         then (if signum \<noteq> SIGCONT \<and> signum \<noteq> SIGCHLD \<and> signum \<noteq> SIGWINCH then t else t\<lparr>signal := signal t AND NOT (sigbit signum)\<rparr>)
         else t)"

definition set_action :: "nat \<Rightarrow> sigaction \<Rightarrow> ktask \<Rightarrow> ktask" where
  "set_action signum sa t = t\<lparr>sigact := (sigact t)(signum - 1 := sa)\<rparr>"

text \<open>\<open>ok\<close> is the answer of \<^verbatim>\<open>verify_area\<close> for the address of the handler.\<close>

definition sys_signal :: "int \<Rightarrow> sighandler \<Rightarrow> bool \<Rightarrow> ktask \<Rightarrow> (errno + sighandler) \<times> ktask" where
  "sys_signal signum handler ok t =
     (if signum < 1 \<or> signum > 32 then (Inl EINVAL, t)
      else
        let n = nat signum
        in if n = SIGKILL \<or> n = SIGSTOP then (Inl EINVAL, t)
           else if handler \<noteq> SIG_DFL \<and> handler \<noteq> SIG_IGN \<and> \<not> ok then (Inl EFAULT, t)
           else
             let tmp = \<lparr>sa_handler = handler, sa_flags = SA_ONESHOT OR SA_NOMASK, sa_restorer = 0, sa_mask = 0\<rparr>;
                 old = sa_handler (sigact t (n - 1))
             in (Inr old, check_pending n (set_action n tmp t)))"

definition sys_sigaction :: "int \<Rightarrow> (bool \<times> sigaction) option \<Rightarrow> bool \<Rightarrow> bool option \<Rightarrow> ktask \<Rightarrow> (errno + sigaction option) \<times> ktask" where
  "sys_sigaction signum act ok oldact t =
     (if signum < 1 \<or> signum > 32 then (Inl EINVAL, t)
      else
        let n = nat signum
        in if n = SIGKILL \<or> n = SIGSTOP then (Inl EINVAL, t)
           else
             let checked = (case act of None \<Rightarrow> Inr None
                   | Some (rd, sa) \<Rightarrow>
                       (if \<not> rd then Inl EFAULT
                        else
                          let sa = (if sa_flags sa AND SA_NOMASK \<noteq> 0 then sa\<lparr>sa_mask := 0\<rparr>
                                    else sa\<lparr>sa_mask := (sa_mask sa OR sigbit n) AND BLOCKABLE\<rparr>)
                          in if sa_handler sa \<noteq> SIG_DFL \<and> sa_handler sa \<noteq> SIG_IGN \<and> \<not> ok then Inl EFAULT
                             else if sa_flags sa AND SA_SIGINFO \<noteq> 0 then Inl EINVAL
                             else Inr (Some sa)))
             in case checked of Inl e \<Rightarrow> (Inl e, t)
                | Inr new \<Rightarrow>
                    (if oldact = Some False then (Inl EFAULT, t)
                     else
                       let old = (case oldact of None \<Rightarrow> None | Some _ \<Rightarrow> Some (sigact t (n - 1)))
                       in case new of None \<Rightarrow> (Inr old, t) | Some sa \<Rightarrow> (Inr old, check_pending n (set_action n sa t))))"

subsection \<open>Registers and the user stack\<close>

record trap_frame =
  ebx :: u32
  ecx :: u32
  edx :: u32
  esi :: u32
  edi :: u32
  ebp :: u32
  eax :: u32
  ds :: "16 word"
  es :: "16 word"
  fs :: "16 word"
  gs :: "16 word"
  error_code :: u32
  eip :: u32
  cs :: "16 word"
  eflags :: u32
  esp :: u32
  ss :: "16 word"

type_synonym umem = "u32 \<Rightarrow> u8"

definition put_fs_long :: "u32 \<Rightarrow> u32 \<Rightarrow> umem \<Rightarrow> umem" where
  "put_fs_long v a m = (\<lambda>x. if unat (x - a) < 4 then le_bytes 4 v ! unat (x - a) else m x)"

definition get_fs_long :: "u32 \<Rightarrow> umem \<Rightarrow> u32" where
  "get_fs_long a m = le_word (map (\<lambda>i. m (a + of_nat i)) [0..<4])"

text \<open>The fields of the thread that go into a frame.\<close>

record thread_info =
  trap_no :: u32
  th_error_code :: u32
  cr2 :: u32

text \<open>The words of a frame, from its lowest address on.\<close>

definition frame_words :: "u32 \<Rightarrow> u32 \<Rightarrow> u32 \<Rightarrow> trap_frame \<Rightarrow> u32 \<Rightarrow> u32 \<Rightarrow> thread_info \<Rightarrow> u32 list" where
  "frame_words frame fp ip tr signr old_mask th =
     [frame + 96, signr, ucast (gs tr), ucast (fs tr), ucast (es tr), ucast (ds tr), edi tr, esi tr, ebp tr, fp, ebx tr, edx tr, ecx tr, eax tr,
      trap_no th, th_error_code th, ip, ucast (cs tr), eflags tr, esp tr, ucast (ss tr), 0, old_mask, cr2 th]"

fun put_longs :: "u32 list \<Rightarrow> u32 \<Rightarrow> umem \<Rightarrow> umem" where
  "put_longs [] a m = m"
| "put_longs (v # vs) a m = put_longs vs (a + 4) (put_fs_long v a m)"

abbreviation (input) SYS_sigreturn :: u32 where "SYS_sigreturn \<equiv> 119"

definition setup_frame :: "(u32 \<Rightarrow> nat \<Rightarrow> bool) \<Rightarrow> u32 \<Rightarrow> u32 \<Rightarrow> trap_frame \<Rightarrow> u32 \<Rightarrow> u32 \<Rightarrow> thread_info \<Rightarrow> umem \<Rightarrow> u32 + (u32 \<times> umem)" where
  "setup_frame ok fp ip tr signr old_mask th m =
     (let frame = fp - 128
      in if \<not> ok frame 120 then Inl SIGSEGV
         else
           let m = put_longs (frame_words frame fp ip tr signr old_mask th) frame m; code = frame + 96;
               m = put_fs_long 0x0000b858 code m;
               m = put_fs_long SYS_sigreturn (code + 2) m;
               m = put_fs_long 0x80cd0000 (code + 4) m
           in Inr (frame, m))"

subsection \<open>Delivery\<close>

datatype sig_event = Reap_children | Stop_notice

record sig_sys =
  sg_task :: ktask
  sg_tr :: trap_frame
  sg_mem :: umem
  sg_log :: "sig_event list"

datatype sig_result = Delivered u32 sig_sys | Exited nat sig_sys | Still_stopped sig_sys

definition take_signal :: "nat \<Rightarrow> sig_sys \<Rightarrow> sig_sys" where
  "take_signal n s = s\<lparr>sg_task := (sg_task s)\<lparr>signal := signal (sg_task s) AND NOT (push_bit n 1)\<rparr>\<rparr>"

definition interrupt_call :: "sigaction \<Rightarrow> trap_frame \<Rightarrow> trap_frame" where
  "interrupt_call sa tr =
     (if 0 \<le> sint (error_code tr) \<and> (eax tr = m_ERESTARTNOHAND \<or> eax tr = m_ERESTARTSYS \<and> sa_flags sa AND SA_RESTART = 0)
      then tr\<lparr>eax := m_EINTR\<rparr> else tr)"

lemma take_signal_less:
  assumes "bsf (signal (sg_task s) AND NOT (blocked (sg_task s))) = Some n"
  shows "unat (signal (sg_task (take_signal n s))) < unat (signal (sg_task s))"
proof -
  let ?w = "signal (sg_task s)" and ?v = "NOT (push_bit n 1) :: u32"
  have b: "n < 32" "bit ?w n" using assms by (simp_all add: bsf_Some bit_and_iff)
  have "?w AND ?v \<le> ?w" by (simp add: word_le_def uint_and)
  moreover have "bit (?w AND ?v) n \<noteq> bit ?w n" using b by (simp add: bit_simps)
  then have "?w AND ?v \<noteq> ?w" by metis
  ultimately have "?w AND ?v < ?w" by order
  then show ?thesis unfolding take_signal_def by (simp add: word_less_nat_alt)
qed

text \<open>The body of the first loop for signal \<open>n + 1\<close>. (The code also removes the mask of the handler from the signals it looks at, but
  computes these anew in every round.) \<open>stops\<close> are the signals that are pending when the task is continued, once for
  every time that it stops; with none left it stays stopped. \<open>pflags\<close> are the flags of the parent's action for \<open>SIGCHLD\<close>. The
  right side goes on with the loop.\<close>

definition one_signal :: "u32 \<Rightarrow> u32 list \<Rightarrow> u32 \<Rightarrow> nat \<Rightarrow> sig_sys \<Rightarrow> sig_result + (u32 list \<times> u32 \<times> sig_sys)" where
  "one_signal pflags stops to_handle n s =
     (let s = take_signal n s; t = sg_task s; sa = sigact t n; signr = n + 1
      in if sa_handler sa = SIG_IGN
         then if signr \<noteq> SIGCHLD then Inr (stops, to_handle, s)
              else Inr (stops, to_handle, s\<lparr>sg_log := sg_log s @ [Reap_children]\<rparr>)
         else if sa_handler sa = SIG_DFL
         then if kt_pid t = 1 then Inr (stops, to_handle, s)
              else if signr = SIGCONT \<or> signr = SIGCHLD \<or> signr = SIGWINCH then Inr (stops, to_handle, s)
              else if signr = SIGSTOP \<or> signr = SIGTSTP \<or> signr = SIGTTIN \<or> signr = SIGTTOU
              then let t = t\<lparr>kt_state := TASK_STOPPED, exit_code := int signr\<rparr>;
                       s = s\<lparr>sg_task := t, sg_log := sg_log s @ (if pflags AND SA_NOCLDSTOP = 0 then [Stop_notice] else [])\<rparr>
                   in case stops of [] \<Rightarrow> Inl (Still_stopped s)
                      | w # ws \<Rightarrow> Inr (ws, to_handle, s\<lparr>sg_task := t\<lparr>kt_state := TASK_RUNNING, exit_code := 0, signal := w\<rparr>\<rparr>)
              else Inl (Exited signr (s\<lparr>sg_task := t\<lparr>signal := signal t OR sigbit (signr mod 128)\<rparr>\<rparr>))
         else Inr (stops, to_handle OR push_bit n 1, s\<lparr>sg_tr := interrupt_call sa (sg_tr s)\<rparr>))"

lemma one_signal_less:
  assumes "bsf (signal (sg_task s) AND NOT (blocked (sg_task s))) = Some n" "one_signal pflags stops h n s = Inr (stops', h', s')"
  shows "length stops' < length stops \<or> stops' = stops \<and> unat (signal (sg_task s')) < unat (signal (sg_task s))"
  using assms(2) take_signal_less [OF assms(1)] unfolding one_signal_def Let_def
  by (auto split: if_splits list.splits)

function signal_loop :: "u32 \<Rightarrow> u32 list \<Rightarrow> u32 \<Rightarrow> sig_sys \<Rightarrow> sig_result" where
  "signal_loop pflags stops to_handle s =
     (case bsf (signal (sg_task s) AND NOT (blocked (sg_task s))) of
        None \<Rightarrow> Delivered to_handle s
      | Some n \<Rightarrow> (case one_signal pflags stops to_handle n s of
            Inl r \<Rightarrow> r
          | Inr (stops', h, s') \<Rightarrow> signal_loop pflags stops' h s'))"
  by pat_completeness auto
termination
  by (relation "measures [\<lambda>(_, stops, _, _). length stops, \<lambda>(_, _, _, s). unat (signal (sg_task s))]") (auto dest: one_signal_less)

declare signal_loop.simps [simp del]

text \<open>The second loop, over the signals from 1 to 32.\<close>

record frame_state =
  fr_frame :: u32
  fr_eip :: u32
  fr_mask :: u32
  fr_sys :: sig_sys

definition handler_address :: "sighandler \<Rightarrow> u32" where
  "handler_address h = (case h of SIG_DFL \<Rightarrow> 0 | SIG_IGN \<Rightarrow> 1 | Handler a \<Rightarrow> a)"

definition enter_handler :: "nat \<Rightarrow> u32 \<Rightarrow> umem \<Rightarrow> frame_state \<Rightarrow> frame_state" where
  "enter_handler n frame m x =
     (let s = fr_sys x; t = sg_task s; sa = sigact t n;
          ip = handler_address (sa_handler sa);
          t = (if sa_flags sa AND SA_ONESHOT \<noteq> 0 then t\<lparr>sigact := (sigact t)(n := sa\<lparr>sa_handler := SIG_DFL\<rparr>)\<rparr> else t);
          t = t\<lparr>blocked := blocked t OR sa_mask sa\<rparr>
      in \<lparr>fr_frame = frame, fr_eip = ip, fr_mask = fr_mask x OR sa_mask sa,
          fr_sys = s\<lparr>sg_task := t, sg_mem := m, sg_tr := (sg_tr s)\<lparr>cs := USER_CS, ss := USER_DS, ds := USER_DS, es := USER_DS\<rparr>\<rparr>\<rparr>)"

fun frames_loop :: "(u32 \<Rightarrow> nat \<Rightarrow> bool) \<Rightarrow> thread_info \<Rightarrow> u32 \<Rightarrow> nat list \<Rightarrow> frame_state \<Rightarrow> u32 + frame_state" where
  "frames_loop ok th to_handle [] x = Inr x"
| "frames_loop ok th to_handle (n # ns) x =
     (if push_bit n 1 > to_handle then Inr x
      else if \<not> bit to_handle n then frames_loop ok th to_handle ns x
      else case setup_frame ok (fr_frame x) (fr_eip x) (sg_tr (fr_sys x)) (of_nat (n + 1)) (fr_mask x) th (sg_mem (fr_sys x)) of
             Inl c \<Rightarrow> Inl c
           | Inr (frame, m) \<Rightarrow> frames_loop ok th to_handle ns (enter_handler n frame m x))"

definition restart_call :: "trap_frame \<Rightarrow> trap_frame" where
  "restart_call tr =
     (if 0 \<le> sint (error_code tr) \<and> (eax tr = m_ERESTARTNOHAND \<or> eax tr = m_ERESTARTSYS \<or> eax tr = m_ERESTARTNOINTR)
      then tr\<lparr>eax := error_code tr, eip := eip tr - 2\<rparr> else tr)"

text \<open>Building the frames when the first loop has ended; the flag says whether a handler is to run.\<close>

definition build_frames :: "(u32 \<Rightarrow> nat \<Rightarrow> bool) \<Rightarrow> thread_info \<Rightarrow> u32 \<Rightarrow> u32 \<Rightarrow> sig_sys \<Rightarrow> u32 + (bool \<times> sig_sys \<times> thread_info)" where
  "build_frames ok th old_mask to_handle s =
     (let s = s\<lparr>sg_tr := restart_call (sg_tr s)\<rparr>
      in if to_handle = 0 then Inr (False, s, th)
         else case frames_loop ok th to_handle [0..<32]
                     \<lparr>fr_frame = esp (sg_tr s), fr_eip = eip (sg_tr s), fr_mask = old_mask, fr_sys = s\<rparr> of
                Inl c \<Rightarrow> Inl c
              | Inr x \<Rightarrow> Inr (True, (fr_sys x)\<lparr>sg_tr := (sg_tr (fr_sys x))\<lparr>esp := fr_frame x, eip := fr_eip x\<rparr>\<rparr>,
                             th\<lparr>trap_no := 0, th_error_code := 0\<rparr>))"

datatype delivery = Exits u32 | Stopped_for_good | Returns bool sig_sys thread_info

definition do_signal :: "(u32 \<Rightarrow> nat \<Rightarrow> bool) \<Rightarrow> thread_info \<Rightarrow> u32 \<Rightarrow> u32 list \<Rightarrow> u32 \<Rightarrow> sig_sys \<Rightarrow> delivery" where
  "do_signal ok th pflags stops old_mask s =
     (case signal_loop pflags stops 0 s of
        Exited signr _ \<Rightarrow> Exits (of_nat signr)
      | Still_stopped _ \<Rightarrow> Stopped_for_good
      | Delivered to_handle s \<Rightarrow>
          (case build_frames ok th old_mask to_handle s of Inl c \<Rightarrow> Exits c | Inr (b, s, th) \<Rightarrow> Returns b s th))"

subsection \<open>Return from a handler\<close>

text \<open>\<^verbatim>\<open>struct sigcontext_struct\<close> is the part of the frame from its third word on. The result is what the system call puts into
  \<^verbatim>\<open>eax\<close>.\<close>

definition do_sigreturn :: "(u32 \<Rightarrow> nat \<Rightarrow> bool) \<Rightarrow> sig_sys \<Rightarrow> u32 + (u32 \<times> sig_sys)" where
  "do_sigreturn ok s =
     (let tr = sg_tr s; c = (\<lambda>i. get_fs_long (esp tr + 4 * of_nat i) (sg_mem s))
      in if \<not> ok (esp tr) 88 then Inl SIGSEGV
         else
           let t = (sg_task s)\<lparr>blocked := c 20 AND BLOCKABLE\<rparr>;
               tr' = tr\<lparr>ds := ucast (c 3), es := ucast (c 2), fs := ucast (c 1), gs := ucast (c 0), ss := ucast (c 18), cs := ucast (c 15),
                 eip := c 14, ecx := c 10, edx := c 9, ebx := c 8, esp := c 7, ebp := c 6, edi := c 4, esi := c 5,
                 eflags := (eflags tr AND NOT 0x40DD5) OR (c 16 AND 0x40DD5), error_code := - 1\<rparr>
           in Inr (c 11, s\<lparr>sg_task := t, sg_tr := tr'\<rparr>))"

text \<open>A handler returns to the code in its frame, which drops the argument and makes the system call: at its entry the stack pointer
  is two words above the frame, and the other registers are what the handler leaves.\<close>

definition handler_returns :: "(u32 \<Rightarrow> nat \<Rightarrow> bool) \<Rightarrow> trap_frame \<Rightarrow> sig_sys \<Rightarrow> u32 + sig_sys" where
  "handler_returns ok r s =
     (case do_sigreturn ok (s\<lparr>sg_tr := r\<lparr>esp := esp (sg_tr s) + 8\<rparr>\<rparr>) of
        Inl c \<Rightarrow> Inl c
      | Inr (v, s') \<Rightarrow> Inr (s'\<lparr>sg_tr := (sg_tr s')\<lparr>eax := v\<rparr>\<rparr>))"

fun run_handlers :: "(u32 \<Rightarrow> nat \<Rightarrow> bool) \<Rightarrow> trap_frame list \<Rightarrow> sig_sys \<Rightarrow> u32 + sig_sys" where
  "run_handlers ok [] s = Inr s"
| "run_handlers ok (r # rs) s = (case handler_returns ok r s of Inl c \<Rightarrow> Inl c | Inr s' \<Rightarrow> run_handlers ok rs s')"

text \<open>The mask that \<^verbatim>\<open>sigsuspend\<close> waits with.\<close>

definition sigsuspend_mask :: "u32 \<Rightarrow> ktask \<Rightarrow> u32 \<times> ktask" where
  "sigsuspend_mask m t = (blocked t, t\<lparr>blocked := m AND BLOCKABLE\<rparr>)"

section \<open>Signals that cannot be refused\<close>

text \<open>\<open>SIGKILL\<close> and \<open>SIGSTOP\<close> are not blocked, in no mask of a handler, and have the default action.\<close>

definition unrefusable :: "ktask \<Rightarrow> bool" where
  "unrefusable t \<longleftrightarrow> blocked t AND NOT BLOCKABLE = 0 \<and> (\<forall>n. sa_mask (sigact t n) AND NOT BLOCKABLE = 0) \<and>
     sa_handler (sigact t (SIGKILL - 1)) = SIG_DFL \<and> sa_handler (sigact t (SIGSTOP - 1)) = SIG_DFL"

lemma and_not_or: "(a OR b) AND NOT m = 0 \<longleftrightarrow> a AND NOT m = 0 \<and> b AND NOT m = (0 :: u32)"
proof -
  have "(a OR b) AND NOT m = (a AND NOT m) OR (b AND NOT m)" by (rule bit_word_eqI) (auto simp: bit_simps)
  then show ?thesis by (simp add: or_eq_0_iff)
qed

lemma and_not_and: "a AND NOT m = 0 \<Longrightarrow> (a AND b) AND NOT m = (0 :: u32)"
  by (metis and.assoc and.commute and_zero_eq)

lemma and_self_not: "(a AND m) AND NOT m = (0 :: u32)"
  by (rule bit_word_eqI) (auto simp: bit_simps)

lemma check_pending_unrefusable: "unrefusable t \<Longrightarrow> unrefusable (check_pending n t)"
  by (auto simp: unrefusable_def check_pending_def Let_def)

lemma set_action_unrefusable:
  "unrefusable t \<Longrightarrow> n \<noteq> SIGKILL \<Longrightarrow> n \<noteq> SIGSTOP \<Longrightarrow> 0 < n \<Longrightarrow> sa_mask sa AND NOT BLOCKABLE = 0 \<Longrightarrow> unrefusable (set_action n sa t)"
  by (auto simp: unrefusable_def set_action_def)

lemma calls_unrefusable:
  assumes "unrefusable t"
  shows "unrefusable (snd (sys_sigprocmask how nw ow t))" "unrefusable (snd (sys_signal k h ok t))"
    "unrefusable (snd (sys_sigaction k act ok old t))" "unrefusable (snd (sigsuspend_mask m t))"
proof -
  show "unrefusable (snd (sys_sigprocmask how nw ow t))"
    using assms by (auto simp: unrefusable_def sys_sigprocmask_def Let_def and_not_or and_not_and and_self_not split: option.split sig_how.split)
  show "unrefusable (snd (sys_signal k h ok t))"
    using assms by (auto simp: sys_signal_def Let_def intro!: check_pending_unrefusable set_action_unrefusable)
  show "unrefusable (snd (sys_sigaction k act ok old t))"
    using assms by (auto simp: sys_sigaction_def Let_def and_self_not intro!: check_pending_unrefusable set_action_unrefusable split: option.split sum.split if_splits)
  show "unrefusable (snd (sigsuspend_mask m t))"
    using assms by (simp add: unrefusable_def sigsuspend_mask_def and_self_not)
qed

text \<open>What the first loop leaves alone, and what it asks to be handled.\<close>

lemma one_signal_keeps:
  assumes "one_signal pflags stops h n s = Inr (stops', h', s')"
  shows "sigact (sg_task s') = sigact (sg_task s) \<and> blocked (sg_task s') = blocked (sg_task s) \<and> kt_pid (sg_task s') = kt_pid (sg_task s) \<and>
    sg_mem s' = sg_mem s \<and> (sg_tr s' = sg_tr s \<or> sg_tr s' = (sg_tr s)\<lparr>eax := m_EINTR\<rparr>) \<and>
    (h' = h \<or> h' = h OR push_bit n 1 \<and> (\<exists>a. sa_handler (sigact (sg_task s) n) = Handler a))"
proof -
  have t: "sigact (sg_task (take_signal n s)) = sigact (sg_task s)" "blocked (sg_task (take_signal n s)) = blocked (sg_task s)"
    "kt_pid (sg_task (take_signal n s)) = kt_pid (sg_task s)" "sg_mem (take_signal n s) = sg_mem s" "sg_tr (take_signal n s) = sg_tr s" for n
    by (simp_all add: take_signal_def)
  have i: "interrupt_call (sigact (sg_task s) n) (sg_tr s) = sg_tr s \<or> interrupt_call (sigact (sg_task s) n) (sg_tr s) = (sg_tr s)\<lparr>eax := m_EINTR\<rparr>"
    by (simp add: interrupt_call_def)
  show ?thesis using assms i unfolding one_signal_def Let_def t
    by (cases "sa_handler (sigact (sg_task s) n)") (simp_all split: if_split_asm list.split_asm, (elim conjE, hypsubst, simp add: t)+)
qed

lemma signal_loop_keeps:
  assumes "signal_loop pflags stops h s = Delivered h' s'"
  shows "sigact (sg_task s') = sigact (sg_task s) \<and> blocked (sg_task s') = blocked (sg_task s) \<and> sg_mem s' = sg_mem s \<and>
    (sg_tr s' = sg_tr s \<or> sg_tr s' = (sg_tr s)\<lparr>eax := m_EINTR\<rparr>) \<and> signal (sg_task s') AND NOT (blocked (sg_task s')) = 0 \<and>
    (\<forall>n. bit h' n \<longrightarrow> bit h n \<or> (\<exists>a. sa_handler (sigact (sg_task s) n) = Handler a))"
  using assms
proof (induction pflags stops h s rule: signal_loop.induct)
  case (1 pflags stops h s)
  show ?case
  proof (cases "bsf (signal (sg_task s) AND NOT (blocked (sg_task s)))")
    case None
    have "signal_loop pflags stops h s = Delivered h s" by (subst signal_loop.simps) (simp add: None)
    then show ?thesis using "1.prems" None by (simp add: bsf_None)
  next
    case (Some n)
    show ?thesis
    proof (cases "one_signal pflags stops h n s")
      case (Inl r)
      have "signal_loop pflags stops h s = r" by (subst signal_loop.simps) (simp add: Some Inl)
      moreover have "r \<noteq> Delivered h' s'" using Inl unfolding one_signal_def Let_def by (auto split: if_splits list.splits)
      ultimately show ?thesis using "1.prems" by simp
    next
      case (Inr y)
      obtain st k s1 where y: "y = (st, k, s1)" by (cases y)
      have "signal_loop pflags st k s1 = Delivered h' s'" using "1.prems" by (subst (asm) signal_loop.simps) (simp add: Some Inr y)
      from "1.IH" [OF Some Inr y [symmetric] refl this] one_signal_keeps [OF Inr [unfolded y]] show ?thesis
        by (fastforce simp: bit_or_iff bit_exp_iff)
    qed
  qed
qed

text \<open>A pending \<open>SIGKILL\<close> ends the task, whatever handlers and masks it has set.\<close>

lemma kill_ends:
  assumes "unrefusable (sg_task s)" "kt_pid (sg_task s) \<noteq> 1" "bit (signal (sg_task s)) (SIGKILL - 1)"
  shows "\<exists>n s'. signal_loop pflags stops h s = Exited n s' \<and> n \<le> SIGKILL"
  using assms
proof (induction pflags stops h s rule: signal_loop.induct)
  case (1 pflags stops h s)
  let ?p = "signal (sg_task s) AND NOT (blocked (sg_task s))"
  have "bit BLOCKABLE 8 = False" by (simp add: BLOCKABLE_def sigbit_def bit_simps)
  moreover have "bit (blocked (sg_task s) AND NOT BLOCKABLE) 8 = False" using "1.prems"(1) by (simp add: unrefusable_def)
  ultimately have "\<not> bit (blocked (sg_task s)) 8" by (simp add: bit_simps)
  then have k: "bit ?p 8" using "1.prems"(3) by (simp add: bit_simps)
  have "bsf ?p \<noteq> None" using k by (auto simp: bsf_None)
  then obtain n where n: "bsf ?p = Some n" by auto
  then have n8: "n \<le> 8" using k by (meson bsf_Some leI)
  show ?case
  proof (cases "one_signal pflags stops h n s")
    case (Inl r)
    have "\<exists>s'. r = Exited (n + 1) s'" using Inl n8 unfolding one_signal_def Let_def by (auto split: if_splits list.splits)
    then show ?thesis using n8 by (subst signal_loop.simps) (auto simp: n Inl)
  next
    case (Inr y)
    obtain st j s1 where y: "y = (st, j, s1)" by (cases y)
    note o = one_signal_keeps [OF Inr [unfolded y]]
    have d: "sa_handler (sigact (sg_task s) 8) = SIG_DFL" using "1.prems"(1) by (simp add: unrefusable_def)
    have "n \<noteq> 8"
    proof
      assume "n = 8"
      then show False using Inr d "1.prems"(2) unfolding one_signal_def Let_def by (auto simp: take_signal_def split: if_splits list.splits)
    qed
    then have "bit (signal (sg_task s1)) 8" using Inr n8 "1.prems"(3) unfolding y one_signal_def Let_def
      by (auto simp: take_signal_def bit_simps split: if_splits list.splits)
    moreover have "unrefusable (sg_task s1)" using "1.prems"(1) o by (simp add: unrefusable_def)
    ultimately have "\<exists>n s'. signal_loop pflags st j s1 = Exited n s' \<and> n \<le> SIGKILL"
      using "1.IH" [OF n Inr y [symmetric] refl] "1.prems"(2) o by simp
    then show ?thesis by (subst signal_loop.simps) (simp add: n Inr y)
  qed
qed

section \<open>Frames in memory\<close>

definition put_bytes :: "u8 list \<Rightarrow> u32 \<Rightarrow> umem \<Rightarrow> umem" where
  "put_bytes bs a m = (\<lambda>x. if unat (x - a) < length bs then bs ! unat (x - a) else m x)"

lemma unat_offset_diff:
  assumes "n < 2 ^ 32"
  shows "unat (x - (a + of_nat n) :: u32) = (if n \<le> unat (x - a) then unat (x - a) - n else unat (x - a) + 2 ^ 32 - n)"
proof -
  have n: "unat (of_nat n :: u32) = n" using assms by (rule unat_of_nat_small)
  have e: "x - (a + of_nat n) = x - a - of_nat n" by simp
  show ?thesis unfolding e using unat_sub_if' [of "x - a" "of_nat n"] by (simp only: n) simp
qed

lemma put_bytes_append:
  assumes "length bs + length ys \<le> 2 ^ 32" "length bs < 2 ^ 32"
  shows "put_bytes ys (a + of_nat (length bs)) (put_bytes bs a m) = put_bytes (bs @ ys) a m"
proof
  fix x
  have "unat (x - a) < 2 ^ 32" using unat_less_2_32 by simp
  then show "put_bytes ys (a + of_nat (length bs)) (put_bytes bs a m) x = put_bytes (bs @ ys) a m x"
    using assms unat_offset_diff [OF assms(2), of x a] by (auto simp: put_bytes_def nth_append)
qed

lemma put_longs_bytes:
  assumes "4 * length vs < 2 ^ 32"
  shows "put_longs vs a m = put_bytes (concat (map (le_bytes 4) vs)) a m"
  using assms
proof (induction vs arbitrary: a m)
  case (Cons v vs)
  have l: "length (concat (map (le_bytes 4) vs)) = 4 * length vs" for vs :: "u32 list"
    by (induction vs) (simp_all add: length_concat o_def)
  have "put_longs (v # vs) a m = put_bytes (concat (map (le_bytes 4) vs)) (a + of_nat (length (le_bytes 4 v))) (put_bytes (le_bytes 4 v) a m)"
    using Cons by (simp add: put_fs_long_def put_bytes_def)
  also have "\<dots> = put_bytes (le_bytes 4 v @ concat (map (le_bytes 4) vs)) a m"
    by (rule put_bytes_append) (use Cons.prems in \<open>simp_all add: l\<close>)
  finally show ?case by simp
qed (simp add: put_bytes_def)

lemma get_put_bytes:
  assumes "k + 4 \<le> length bs" "length bs < 2 ^ 32"
  shows "get_fs_long (a + of_nat k) (put_bytes bs a m) = le_word (take 4 (drop k bs))"
proof -
  have "map (\<lambda>i. put_bytes bs a m (a + of_nat k + of_nat i)) [0..<4] = take 4 (drop k bs)"
  proof (rule nth_equalityI)
    fix i assume "i < length (map (\<lambda>i. put_bytes bs a m (a + of_nat k + of_nat i)) [0..<4])"
    then have i: "i < 4" by simp
    have "unat (a + of_nat k + of_nat i - a) = k + i"
      using assms i unat_of_nat_small [of "k + i"] by (simp add: algebra_simps)
    then show "map (\<lambda>i. put_bytes bs a m (a + of_nat k + of_nat i)) [0..<4] ! i = take 4 (drop k bs) ! i"
      using assms i by (simp add: put_bytes_def)
  qed (use assms in simp)
  then show ?thesis by (simp add: get_fs_long_def)
qed

lemma take_concat_bytes: "i < length vs \<Longrightarrow> take 4 (drop (4 * i) (concat (map (le_bytes 4) vs) @ ys)) = le_bytes 4 (vs ! i)"
proof (induction vs arbitrary: i)
  case (Cons v vs)
  then show ?case by (cases i) simp_all
qed simp

text \<open>The code of a frame: \<^verbatim>\<open>popl %eax\<close>, \<^verbatim>\<open>movl $SYS_sigreturn, %eax\<close>, \<^verbatim>\<open>int $0x80\<close>.\<close>

definition return_code :: "u8 list" where
  "return_code = [0x58, 0xb8, 119, 0, 0, 0, 0xcd, 0x80]"

lemma put_return_code:
  "put_fs_long 0x80cd0000 (a + 4) (put_fs_long SYS_sigreturn (a + 2) (put_fs_long 0x0000b858 a m)) = put_bytes return_code a m"
proof
  fix x
  define k where "k = unat (x - a)"
  have "k < 2 ^ 32" using unat_less_2_32 by (simp add: k_def)
  have k2: "unat (x - (a + 2)) = (if 2 \<le> k then k - 2 else k + 2 ^ 32 - 2)" using unat_offset_diff [of 2 x a] by (simp add: k_def)
  have k4: "unat (x - (a + 4)) = (if 4 \<le> k then k - 4 else k + 2 ^ 32 - 4)" using unat_offset_diff [of 4 x a] by (simp add: k_def)
  have b: "le_bytes 4 (0x80cd0000 :: u32) = [0, 0, 0xcd, 0x80]" "le_bytes 4 (119 :: u32) = [119, 0, 0, 0]" "le_bytes 4 (0x0000b858 :: u32) = [0x58, 0xb8, 0, 0]"
    by (code_simp, code_simp, code_simp)
  consider "k = 0" | "k = 1" | "k = 2" | "k = 3" | "k = 4" | "k = 5" | "k = 6" | "k = 7" | "8 \<le> k" by linarith
  then show "put_fs_long 0x80cd0000 (a + 4) (put_fs_long SYS_sigreturn (a + 2) (put_fs_long 0x0000b858 a m)) x = put_bytes return_code a m x"
    using k2 k4 \<open>k < 2 ^ 32\<close> unfolding put_fs_long_def put_bytes_def return_code_def b k_def [symmetric]
    by cases (auto simp: nth_Cons')
qed

text \<open>A frame is laid out as the context that the return reads, with the return address, the argument and the code around it.\<close>

lemma setup_frame_ok:
  assumes "ok (fp - 128) 120"
  shows "\<exists>m'. setup_frame ok fp ip tr signr om th m = Inr (fp - 128, m') \<and>
    (\<forall>i < 24. get_fs_long (fp - 128 + 4 * of_nat i) m' = frame_words (fp - 128) fp ip tr signr om th ! i) \<and>
    (\<forall>j < 8. m' (fp - 128 + 96 + of_nat j) = return_code ! j) \<and> (\<forall>x. 104 \<le> unat (x - (fp - 128)) \<longrightarrow> m' x = m x)"
proof -
  let ?f = "fp - 128" and ?w = "frame_words (fp - 128) fp ip tr signr om th"
  let ?b = "concat (map (le_bytes 4) ?w)"
  define m' where "m' = put_bytes (?b @ return_code) ?f m"
  have lw: "length ?w = 24" by (simp add: frame_words_def)
  have lb: "length ?b = 96" by (simp add: frame_words_def)
  have lc: "length return_code = 8" by (simp add: return_code_def)
  have "put_longs ?w ?f m = put_bytes ?b ?f m" by (rule put_longs_bytes) (simp add: lw)
  moreover have "put_bytes return_code (?f + 96) (put_bytes ?b ?f m) = m'" unfolding m'_def
    using put_bytes_append [of ?b return_code ?f m] by (simp add: lb lc)
  ultimately have s: "setup_frame ok fp ip tr signr om th m = Inr (?f, m')"
    using assms put_return_code [of "?f + 96"] by (simp add: setup_frame_def Let_def)
  have g: "get_fs_long (?f + 4 * of_nat i) m' = ?w ! i" if "i < 24" for i
    unfolding m'_def using get_put_bytes [of "4 * i" "?b @ return_code" ?f m] take_concat_bytes [of i ?w return_code] that lw lb lc by simp
  have c: "m' (?f + 96 + of_nat j) = return_code ! j" if "j < 8" for j
  proof -
    have "?f + 96 + of_nat j - ?f = of_nat (96 + j)" by simp
    then have "unat (?f + 96 + of_nat j - ?f) = 96 + j" using that unat_of_nat_small [of "96 + j"] by simp
    then show ?thesis using that by (simp add: m'_def put_bytes_def lb lc nth_append)
  qed
  have "m' x = m x" if "104 \<le> unat (x - ?f)" for x using that by (simp add: m'_def put_bytes_def lb lc)
  then show ?thesis using s g c by blast
qed

section \<open>Handlers and their return\<close>

text \<open>The frames on the stack of a task, the newest first: the handler that runs, what its frame holds, and the frames above it.\<close>

inductive stacked :: "thread_info \<Rightarrow> umem \<Rightarrow> trap_frame \<Rightarrow> u32 \<Rightarrow> (nat \<times> u32) list \<Rightarrow> u32 \<Rightarrow> u32 \<Rightarrow> u32 \<Rightarrow> trap_frame \<Rightarrow> bool" for th m tr0 om0 where
  none: "stacked th m tr0 om0 [] (esp tr0) (eip tr0) om0 tr0"
| push: "stacked th m tr0 om0 R fp ip om tr \<Longrightarrow>
     (\<forall>i < 24. get_fs_long (fp - 128 + 4 * of_nat i) m = frame_words (fp - 128) fp ip tr (of_nat (n + 1)) om th ! i) \<Longrightarrow>
     (\<forall>j < 8. m (fp - 128 + 96 + of_nat j) = return_code ! j) \<Longrightarrow>
     stacked th m tr0 om0 ((n, h) # R) (fp - 128) h (om OR mk) (tr\<lparr>cs := USER_CS, ss := USER_DS, ds := USER_DS, es := USER_DS\<rparr>)"

inductive_cases stacked_ConsE: "stacked th m tr0 om0 ((n, h) # R) f ip om tr"

lemma unat_frame: "128 \<le> unat (fp :: u32) \<Longrightarrow> unat (fp - 128) = unat fp - 128"
  using unat_sub [of 128 fp] by (simp add: word_le_nat_alt)

lemma unat_in_frame:
  assumes "128 \<le> unat (fp :: u32)" "k < 128"
  shows "unat (fp - 128 + of_nat k) = unat fp - 128 + k"
proof -
  have "unat (of_nat k :: u32) = k" using assms(2) by (intro unat_of_nat_small) simp
  moreover have "unat fp - 128 + k < 4294967296" using unat_less_2_32 [of fp] assms by linarith
  ultimately show ?thesis using unat_frame [OF assms(1)] unat_add_no_wrap [of "fp - 128" "of_nat k"] by simp
qed

lemma get_fs_long_cong: "(\<And>i. i < 4 \<Longrightarrow> m' (a + of_nat i) = m (a + of_nat i)) \<Longrightarrow> get_fs_long a m' = get_fs_long a m"
  unfolding get_fs_long_def by (intro arg_cong [where f = le_word] map_cong) auto

lemma stacked_mono:
  assumes "stacked th m tr0 om0 R fp ip om tr" "unat fp + 128 * length R = unat (esp tr0)" "\<forall>x. unat fp \<le> unat x \<longrightarrow> m' x = m x"
  shows "stacked th m' tr0 om0 R fp ip om tr"
  using assms
proof (induction rule: stacked.induct)
  case (push R fp ip om tr n h mk)
  have u: "128 \<le> unat fp"
  proof (rule ccontr)
    assume n: "\<not> 128 \<le> unat fp"
    then have "unat (fp - 128) = unat fp + 4294967296 - 128" using unat_sub_if' [of fp 128] by simp
    then show False using push.prems(1) unat_less_2_32 [of "esp tr0"] by simp
  qed
  have e: "m' (fp - 128 + of_nat k) = m (fp - 128 + of_nat k)" if "k < 128" for k
    using push.prems(2) unat_in_frame [OF u that] unat_frame [OF u] by simp
  have "stacked th m' tr0 om0 R fp ip om tr"
    using push.IH push.prems unat_frame [OF u] u by simp
  moreover have "get_fs_long (fp - 128 + 4 * of_nat i) m' = get_fs_long (fp - 128 + 4 * of_nat i) m" if "i < 24" for i
  proof (rule get_fs_long_cong)
    fix j :: nat assume "j < 4"
    then show "m' (fp - 128 + 4 * of_nat i + of_nat j) = m (fp - 128 + 4 * of_nat i + of_nat j)"
      using e [of "4 * i + j"] that by (simp add: add.assoc)
  qed
  moreover have "m' (fp - 128 + 96 + of_nat j) = m (fp - 128 + 96 + of_nat j)" if "j < 8" for j
  proof -
    have "fp - 128 + 96 + of_nat j = fp - 128 + of_nat (96 + j)" by simp
    moreover have "96 + j < 128" using that by simp
    ultimately show ?thesis using e by metis
  qed
  ultimately show ?case using push.hyps(2,3) by (intro stacked.push allI impI) (assumption, metis+)
qed (rule stacked.none)

lemma stacked_flags: "stacked th m tr0 om0 R fp ip om tr \<Longrightarrow> eflags tr = eflags tr0"
  by (induction rule: stacked.induct) simp_all

text \<open>The loop builds the frames of the signals in question, the last one for the greatest number.\<close>

lemma bit_le: "bit w n \<Longrightarrow> push_bit n 1 \<le> (w :: u32)"
proof -
  assume b: "bit w n"
  have "w AND push_bit n 1 \<le> w" by (simp add: word_le_def uint_and)
  moreover have "w AND push_bit n 1 = push_bit n 1" using b by (intro bit_word_eqI) (auto simp: bit_simps)
  ultimately show ?thesis by simp
qed

lemma no_higher_bit:
  assumes "w < (push_bit n 1 :: u32)" "n \<le> k" "k < 32"
  shows "\<not> bit w k"
proof
  assume "bit w k"
  then have "push_bit k 1 < (push_bit n 1 :: u32)" using bit_le assms(1) by (metis order_le_less_trans)
  then have "unat (push_bit k 1 :: u32) < unat (push_bit n 1 :: u32)" by (simp add: word_less_nat_alt)
  then have "(2 :: nat) ^ k < 2 ^ n" using assms(2,3) by (simp add: unat_pow2)
  then show False using assms(2) by simp
qed

definition handlers_of :: "ktask \<Rightarrow> nat list \<Rightarrow> (nat \<times> u32) list" where
  "handlers_of t ns = map (\<lambda>n. (n, handler_address (sa_handler (sigact t n)))) ns"

lemma frames_loop_stacked:
  assumes "stacked th (sg_mem (fr_sys x)) tr0 om0 R (fr_frame x) (fr_eip x) (fr_mask x) (sg_tr (fr_sys x))"
    "unat (fr_frame x) + 128 * length R = unat (esp tr0)" "k \<le> 32" "ns = filter (bit h) [k..<32]" "128 * length ns \<le> unat (fr_frame x)"
    "\<And>f n. unat f + n \<le> unat (esp tr0) \<Longrightarrow> unat (esp tr0) \<le> unat f + 4096 \<Longrightarrow> ok f n"
    "length R + length ns \<le> 32" "\<forall>n \<in> set ns. sigact (sg_task (fr_sys x)) n = sigact t n"
  shows "\<exists>y. frames_loop ok th h [k..<32] x = Inr y \<and>
    stacked th (sg_mem (fr_sys y)) tr0 om0 (rev (handlers_of t ns) @ R) (fr_frame y) (fr_eip y) (fr_mask y) (sg_tr (fr_sys y)) \<and>
    unat (fr_frame y) + 128 * (length ns + length R) = unat (esp tr0)"
  using assms
proof (induction "32 - k" arbitrary: k x R ns)
  case 0
  then show ?case by (simp add: handlers_of_def)
next
  case (Suc d)
  have k: "k < 32" "[k..<32] = k # [Suc k..<32]" using Suc.hyps(2) by (simp_all add: upt_conv_Cons)
  show ?case
  proof (cases "push_bit k 1 > h")
    case True
    have "ns = []" using no_higher_bit [OF True] by (auto simp: Suc.prems(4) filter_empty_conv)
    then show ?thesis using Suc.prems(1,2) True by (simp add: k(2) handlers_of_def)
  next
    case le: False
    show ?thesis
    proof (cases "bit h k")
      case False
      have "ns = filter (bit h) [Suc k..<32]" using False by (simp add: Suc.prems(4) k(2))
      from Suc.hyps(1) [OF _ Suc.prems(1,2) _ this Suc.prems(5-8)] show ?thesis using Suc.hyps(2) k(1) le False by (simp add: k(2))
    next
      case True
      let ?s = "fr_sys x" and ?fp = "fr_frame x"
      define ms where "ms = filter (bit h) [Suc k..<32]"
      have ns: "ns = k # ms" using True by (simp add: Suc.prems(4) k(2) ms_def)
      have u: "128 \<le> unat ?fp" using Suc.prems(5) by (simp add: ns)
      have ok: "ok (?fp - 128) 120"
        by (rule Suc.prems(6)) (use Suc.prems(2,7) u in \<open>simp_all add: unat_frame ns\<close>)
      obtain m' where m': "setup_frame ok ?fp (fr_eip x) (sg_tr ?s) (of_nat (k + 1)) (fr_mask x) th (sg_mem ?s) = Inr (?fp - 128, m')"
        "\<forall>i < 24. get_fs_long (?fp - 128 + 4 * of_nat i) m' = frame_words (?fp - 128) ?fp (fr_eip x) (sg_tr ?s) (of_nat (k + 1)) (fr_mask x) th ! i"
        "\<forall>j < 8. m' (?fp - 128 + 96 + of_nat j) = return_code ! j" "\<forall>y. 104 \<le> unat (y - (?fp - 128)) \<longrightarrow> m' y = sg_mem ?s y"
        using setup_frame_ok [of ok ?fp "fr_eip x" "sg_tr ?s" "of_nat (k + 1)" "fr_mask x" th "sg_mem ?s", OF ok] by blast
      have "m' y = sg_mem ?s y" if "unat ?fp \<le> unat y" for y
      proof -
        have "unat (?fp - 128) \<le> unat y" using that u by (simp add: unat_frame)
        then have "unat (y - (?fp - 128)) = unat y - (unat ?fp - 128)" using u unat_sub [of "?fp - 128" y] by (simp add: word_le_nat_alt unat_frame)
        then show ?thesis using m'(4) that u by simp
      qed
      then have st: "stacked th m' tr0 om0 R ?fp (fr_eip x) (fr_mask x) (sg_tr ?s)" by (intro stacked_mono [OF Suc.prems(1,2)]) simp
      define y where "y = enter_handler k (?fp - 128) m' x"
      have sk: "sigact (sg_task ?s) k = sigact t k" using Suc.prems(8) ns by simp
      have y: "fr_frame y = ?fp - 128" "fr_eip y = handler_address (sa_handler (sigact t k))" "fr_mask y = fr_mask x OR sa_mask (sigact t k)"
        "sg_mem (fr_sys y) = m'" "sg_tr (fr_sys y) = (sg_tr ?s)\<lparr>cs := USER_CS, ss := USER_DS, ds := USER_DS, es := USER_DS\<rparr>"
        "\<And>n. n \<noteq> k \<Longrightarrow> sigact (sg_task (fr_sys y)) n = sigact (sg_task ?s) n"
        by (simp_all add: y_def enter_handler_def Let_def sk)
      have P1: "stacked th (sg_mem (fr_sys y)) tr0 om0 ((k, handler_address (sa_handler (sigact t k))) # R) (fr_frame y) (fr_eip y) (fr_mask y) (sg_tr (fr_sys y))"
        unfolding y by (rule stacked.push [OF st m'(2,3)])
      have P2: "unat (fr_frame y) + 128 * length ((k, handler_address (sa_handler (sigact t k))) # R) = unat (esp tr0)"
        using Suc.prems(2) u by (simp add: y unat_frame)
      have P8: "\<forall>n \<in> set ms. sigact (sg_task (fr_sys y)) n = sigact t n" using Suc.prems(8) y(6) by (auto simp: ns ms_def)
      have "\<exists>z. frames_loop ok th h [Suc k..<32] y = Inr z \<and>
        stacked th (sg_mem (fr_sys z)) tr0 om0 (rev (handlers_of t ms) @ (k, handler_address (sa_handler (sigact t k))) # R) (fr_frame z) (fr_eip z) (fr_mask z) (sg_tr (fr_sys z)) \<and>
        unat (fr_frame z) + 128 * (length ms + length ((k, handler_address (sa_handler (sigact t k))) # R)) = unat (esp tr0)"
        by (rule Suc.hyps(1) [OF _ P1 P2 _ ms_def _ Suc.prems(6) _ P8]) (use Suc.hyps(2) k(1) Suc.prems(5,7) u in \<open>simp_all add: ns y unat_frame\<close>)
      moreover have "frames_loop ok th h [k..<32] x = frames_loop ok th h [Suc k..<32] y" using le True m'(1) by (simp add: k(2) y_def)
      ultimately show ?thesis by (simp add: ns handlers_of_def)
    qed
  qed
qed

lemma flags_restored:
  assumes "r AND NOT k = v AND NOT (k :: u32)"
  shows "(r AND NOT k) OR (v AND k) = v"
  unfolding assms by (rule bit_word_eqI) (auto simp: bit_simps)

lemma ucast_up_down: "ucast (ucast (x :: 16 word) :: u32) = x"
  by (rule bit_word_eqI) (simp add: bit_simps)

text \<open>The return of the handler that runs leads to the place that its frame was built for.\<close>

lemma handler_returns_pop:
  assumes st: "stacked th (sg_mem s) tr0 om0 ((n, h) # R) (esp (sg_tr s)) ip om' tr'" and ok: "ok (esp (sg_tr s) + 8) 88"
    and r: "eflags r AND NOT 0x40DD5 = eflags tr0 AND NOT 0x40DD5"
  shows "\<exists>fp e om tr s'. handler_returns ok r s = Inr s' \<and> stacked th (sg_mem s') tr0 om0 R fp e om tr \<and> sg_mem s' = sg_mem s \<and>
    esp (sg_tr s) = fp - 128 \<and> sg_tr s' = tr\<lparr>esp := fp, eip := e, error_code := - 1\<rparr> \<and> blocked (sg_task s') = om AND BLOCKABLE"
proof -
  let ?f = "esp (sg_tr s)"
  from st obtain fp e om tr where 1: "?f = fp - 128" "stacked th (sg_mem s) tr0 om0 R fp e om tr"
    "\<forall>i < 24. get_fs_long (fp - 128 + 4 * of_nat i) (sg_mem s) = frame_words (fp - 128) fp e tr (of_nat (n + 1)) om th ! i"
    by (elim stacked_ConsE) simp
  have c: "get_fs_long (?f + 8 + 4 * of_nat i) (sg_mem s) = frame_words ?f fp e tr (of_nat (n + 1)) om th ! (i + 2)" if "i < 22" for i
  proof -
    have "?f + 8 + 4 * of_nat i = fp - 128 + 4 * of_nat (i + 2)" using 1(1) by simp
    moreover have "i + 2 < 24" using that by simp
    ultimately show ?thesis using 1(3) 1(1) by metis
  qed
  have w: "get_fs_long (?f + 8 + 4 * of_nat i) (sg_mem s) = v" if "i < 22" "frame_words ?f fp e tr (of_nat (n + 1)) om th ! (i + 2) = v" for i v
    using c that by simp
  note W = w [where i = 0] w [where i = 1] w [where i = 2] w [where i = 3] w [where i = 4] w [where i = 5] w [where i = 6] w [where i = 7] w [where i = 8]
    w [where i = 9] w [where i = 10] w [where i = 11] w [where i = 14] w [where i = 15] w [where i = 16] w [where i = 18] w [where i = 20]
  have f: "(eflags r AND NOT 0x40DD5) OR (eflags tr AND 0x40DD5) = eflags tr"
    by (rule flags_restored) (use r stacked_flags [OF 1(2)] in simp)
  let ?tr = "tr\<lparr>esp := fp, eip := e, error_code := - 1\<rparr>"
  have "\<exists>s'. handler_returns ok r s = Inr s' \<and> sg_mem s' = sg_mem s \<and> blocked (sg_task s') = om AND BLOCKABLE \<and> sg_tr s' = ?tr"
    unfolding handler_returns_def do_sigreturn_def Let_def using ok W f
    by (simp add: frame_words_def ucast_up_down)
  then show ?thesis using 1(1,2) by metis
qed

lemma same_error_code: "r\<lparr>esp := a, eip := b, error_code := error_code r\<rparr> = r\<lparr>esp := a, eip := b\<rparr>" for r :: trap_frame
  by (cases r) simp

lemma run_stacked:
  assumes "stacked th (sg_mem s) tr0 om0 R f ip om tr" "sg_tr s = tr\<lparr>esp := f, eip := ip, error_code := ec\<rparr>"
    "unat f + 128 * length R = unat (esp tr0)" "length rs \<le> length R" "length R \<le> 32"
    "\<And>f n. unat f + n \<le> unat (esp tr0) \<Longrightarrow> unat (esp tr0) \<le> unat f + 4096 \<Longrightarrow> ok f n"
    "\<forall>r \<in> set rs. eflags r AND NOT 0x40DD5 = eflags tr0 AND NOT 0x40DD5"
  shows "\<exists>x f' ip' om' tr'. run_handlers ok rs s = Inr x \<and> stacked th (sg_mem x) tr0 om0 (drop (length rs) R) f' ip' om' tr' \<and>
    sg_tr x = tr'\<lparr>esp := f', eip := ip', error_code := (if rs = [] then ec else - 1)\<rparr> \<and> (rs \<noteq> [] \<longrightarrow> blocked (sg_task x) = om' AND BLOCKABLE)"
  using assms
proof (induction rs arbitrary: s R f ip om tr ec)
  case Nil
  show ?case using Nil.prems(1,2) by (intro exI [of _ s] exI [of _ f] exI [of _ ip] exI [of _ om] exI [of _ tr]) simp
next
  case (Cons r rs)
  obtain n h R' where R: "R = (n, h) # R'" using Cons.prems(4) by (cases R) auto
  have f: "esp (sg_tr s) = f" using Cons.prems(2) by simp
  have "unat f + 128 \<le> unat (esp tr0)" using Cons.prems(3) by (simp add: R)
  then have lim: "unat f + 128 < 4294967296" "unat f + 8 < 4294967296" using unat_less_2_32 [of "esp tr0"] by linarith+
  then have u8: "unat (f + 8) = unat f + 8" using unat_add_no_wrap [of f 8] by simp
  have ok: "ok (esp (sg_tr s) + 8) 88" by (rule Cons.prems(6)) (use Cons.prems(3,5) in \<open>simp_all add: f u8 R\<close>)
  have r: "eflags r AND NOT 0x40DD5 = eflags tr0 AND NOT 0x40DD5" using Cons.prems(7) by simp
  from handler_returns_pop [where ok = ok, OF Cons.prems(1) [unfolded R f [symmetric]] ok r] obtain fp e om1 tr1 s1 where
    s1: "handler_returns ok r s = Inr s1" "stacked th (sg_mem s1) tr0 om0 R' fp e om1 tr1" "f = fp - 128"
      "sg_tr s1 = tr1\<lparr>esp := fp, eip := e, error_code := - 1\<rparr>" "blocked (sg_task s1) = om1 AND BLOCKABLE" unfolding f by blast
  have "unat f + 128 = unat fp"
  proof -
    have "fp = f + 128" using s1(3) by simp
    then show ?thesis using lim(1) unat_add_no_wrap [of f 128] by simp
  qed
  then have u: "unat fp + 128 * length R' = unat (esp tr0)" using Cons.prems(3) by (simp add: R)
  have "\<exists>x f' ip' om' tr'. run_handlers ok rs s1 = Inr x \<and> stacked th (sg_mem x) tr0 om0 (drop (length rs) R') f' ip' om' tr' \<and>
    sg_tr x = tr'\<lparr>esp := f', eip := ip', error_code := (if rs = [] then - 1 else - 1)\<rparr> \<and> (rs \<noteq> [] \<longrightarrow> blocked (sg_task x) = om' AND BLOCKABLE)"
    by (rule Cons.IH [OF s1(2,4) u _ _ Cons.prems(6)]) (use Cons.prems(4,5,7) in \<open>simp_all add: R\<close>)
  then obtain x f' ip' om' tr' where x: "run_handlers ok rs s1 = Inr x" "stacked th (sg_mem x) tr0 om0 (drop (length rs) R') f' ip' om' tr'"
    "sg_tr x = tr'\<lparr>esp := f', eip := ip', error_code := - 1\<rparr>" "rs \<noteq> [] \<longrightarrow> blocked (sg_task x) = om' AND BLOCKABLE" unfolding if_cancel by blast
  show ?case
  proof (cases rs)
    case Nil
    then show ?thesis using s1 by (intro exI [of _ s1] exI [of _ fp] exI [of _ e] exI [of _ om1] exI [of _ tr1]) (simp add: R)
  next
    case c: (Cons r1 rs1)
    then show ?thesis using s1(1) x by (intro exI [of _ x] exI [of _ f'] exI [of _ ip'] exI [of _ om'] exI [of _ tr']) (simp add: R)
  qed
qed

text \<open>What is on top of the stack.\<close>

lemma stacked_top:
  assumes "stacked th m tr0 om0 ((n, h) # R) f ip om tr"
  shows "ip = h \<and> get_fs_long f m = f + 96 \<and> get_fs_long (f + 4) m = of_nat (n + 1) \<and> map (\<lambda>j. m (f + 96 + of_nat j)) [0..<8] = return_code"
proof -
  from assms obtain fp e om1 tr1 where 1: "f = fp - 128" "ip = h"
    "\<forall>i < 24. get_fs_long (fp - 128 + 4 * of_nat i) m = frame_words (fp - 128) fp e tr1 (1 + of_nat n) om1 th ! i"
    "\<forall>j < 8. m (fp - 32 + of_nat j) = return_code ! j"
    by (elim stacked_ConsE) blast
  have "map (\<lambda>j. m (f + 96 + of_nat j)) [0..<8] = return_code"
    by (rule nth_equalityI) (use 1(1,4) in \<open>simp_all add: return_code_def\<close>)
  moreover have "get_fs_long f m = f + 96" using 1(3) [rule_format, of 0] 1(1) by (simp add: frame_words_def)
  moreover have "get_fs_long (f + 4) m = of_nat (n + 1)" using 1(3) [rule_format, of 1] 1(1) by (simp add: frame_words_def)
  ultimately show ?thesis using 1(2) by blast
qed

lemma stacked_Nil: "stacked th m tr0 om0 [] f ip om tr \<longleftrightarrow> f = esp tr0 \<and> ip = eip tr0 \<and> om = om0 \<and> tr = tr0"
  by (subst stacked.simps) auto

section \<open>Properties\<close>

text \<open>C36: When \<^verbatim>\<open>do_signal\<close> returns to the task, the handlers of all the signals it found run one after the other, the greatest number
  first, each with its own number as argument and with a return address that leads to the code \<^verbatim>\<open>popl %eax; movl
  $SYS_sigreturn, %eax; int $0x80\<close>; and after the last one has returned, every register of the interrupted program has
  its value back (with an interrupted system call restarted or returning \<^verbatim>\<open>-EINTR\<close>), and the mask of blocked signals is the
  old one. The registers that a handler leaves are arbitrary, but for the system flags.\<close>

theorem handlers_run_and_return:
  assumes l: "signal_loop pflags stops 0 s = Delivered h s1" and tr0: "tr0 = restart_call (sg_tr s1)" and ns: "ns = rev (filter (bit h) [0..<32])"
    and sp: "4096 \<le> unat (esp (sg_tr s))"
    and ok: "\<And>f n. unat f + n \<le> unat (esp (sg_tr s)) \<Longrightarrow> unat (esp (sg_tr s)) \<le> unat f + 4096 \<Longrightarrow> ok f n"
    and rs: "length rs \<le> length ns" "\<forall>r \<in> set rs. eflags r AND NOT 0x40DD5 = eflags (sg_tr s) AND NOT 0x40DD5"
  shows "\<exists>s' th' x. do_signal ok th pflags stops om s = Returns (ns \<noteq> []) s' th' \<and> run_handlers ok rs s' = Inr x \<and>
    (length rs = length ns \<longrightarrow> sg_tr x = tr0\<lparr>error_code := (if rs = [] then error_code tr0 else - 1)\<rparr> \<and>
       (rs \<noteq> [] \<longrightarrow> blocked (sg_task x) = om AND BLOCKABLE)) \<and>
    (length rs < length ns \<longrightarrow> sa_handler (sigact (sg_task s) (ns ! length rs)) = Handler (eip (sg_tr x)) \<and>
       get_fs_long (esp (sg_tr x)) (sg_mem x) = esp (sg_tr x) + 96 \<and> get_fs_long (esp (sg_tr x) + 4) (sg_mem x) = of_nat (ns ! length rs + 1) \<and>
       map (\<lambda>j. sg_mem x (esp (sg_tr x) + 96 + of_nat j)) [0..<8] = return_code)"
proof -
  let ?s = "s1\<lparr>sg_tr := tr0\<rparr>"
  note k = signal_loop_keeps [OF l]
  have e: "esp tr0 = esp (sg_tr s)" "eflags tr0 = eflags (sg_tr s)" using k by (auto simp: tr0 restart_call_def)
  have hn: "\<exists>a. sa_handler (sigact (sg_task s) n) = Handler a" if "n \<in> set ns" for n using k that by (simp add: ns)
  have ns0: "ns = [] \<longleftrightarrow> h = 0"
  proof -
    have "h = 0 \<longleftrightarrow> (\<forall>n < 32. \<not> bit h n)" by (auto simp: bit_eq_iff bit_imp_le_length dest: bit_imp_le_length [where 'a = 32])
    then show ?thesis by (auto simp: ns filter_empty_conv)
  qed
  show ?thesis
  proof (cases "ns = []")
    case True
    have "do_signal ok th pflags stops om s = Returns False ?s th" using True ns0 by (simp add: do_signal_def l build_frames_def Let_def tr0)
    then show ?thesis using True rs(1) by simp
  next
    case False
    let ?x = "\<lparr>fr_frame = esp tr0, fr_eip = eip tr0, fr_mask = om, fr_sys = ?s\<rparr>"
    let ?R = "rev (handlers_of (sg_task s) (rev ns))"
    have len: "length ns \<le> 32" unfolding ns using length_filter_le [of "bit h" "[0..<32]"] by simp
    have "\<exists>y. frames_loop ok th h [0..<32] ?x = Inr y \<and>
        stacked th (sg_mem (fr_sys y)) tr0 om (rev (handlers_of (sg_task s) (rev ns)) @ []) (fr_frame y) (fr_eip y) (fr_mask y) (sg_tr (fr_sys y)) \<and>
        unat (fr_frame y) + 128 * (length (rev ns) + length ([] :: (nat \<times> u32) list)) = unat (esp tr0)"
      by (rule frames_loop_stacked) (use sp ok len k e in \<open>simp_all add: stacked_Nil ns\<close>)
    then obtain y where y: "frames_loop ok th h [0..<32] ?x = Inr y"
      "stacked th (sg_mem (fr_sys y)) tr0 om ?R (fr_frame y) (fr_eip y) (fr_mask y) (sg_tr (fr_sys y))"
      "unat (fr_frame y) + 128 * length ?R = unat (esp tr0)" by (auto simp: handlers_of_def)
    define s' where "s' = (fr_sys y)\<lparr>sg_tr := (sg_tr (fr_sys y))\<lparr>esp := fr_frame y, eip := fr_eip y\<rparr>\<rparr>"
    have d: "do_signal ok th pflags stops om s = Returns True s' (th\<lparr>trap_no := 0, th_error_code := 0\<rparr>)"
      using False ns0 y(1) by (simp add: do_signal_def l build_frames_def Let_def tr0 [symmetric] s'_def)
    have t: "sg_tr s' = (sg_tr (fr_sys y))\<lparr>esp := fr_frame y, eip := fr_eip y, error_code := error_code (sg_tr (fr_sys y))\<rparr>"
      unfolding same_error_code by (simp add: s'_def)
    have "\<exists>x f' ip' om' tr'. run_handlers ok rs s' = Inr x \<and> stacked th (sg_mem x) tr0 om (drop (length rs) ?R) f' ip' om' tr' \<and>
      sg_tr x = tr'\<lparr>esp := f', eip := ip', error_code := (if rs = [] then error_code (sg_tr (fr_sys y)) else - 1)\<rparr> \<and>
      (rs \<noteq> [] \<longrightarrow> blocked (sg_task x) = om' AND BLOCKABLE)"
      by (rule run_stacked [OF _ t]) (use y ok rs len e in \<open>simp_all add: s'_def handlers_of_def\<close>)
    then obtain x f' ip' om' tr' where x: "run_handlers ok rs s' = Inr x" "stacked th (sg_mem x) tr0 om (drop (length rs) ?R) f' ip' om' tr'"
      "sg_tr x = tr'\<lparr>esp := f', eip := ip', error_code := (if rs = [] then error_code (sg_tr (fr_sys y)) else - 1)\<rparr>"
      "rs \<noteq> [] \<longrightarrow> blocked (sg_task x) = om' AND BLOCKABLE" by blast
    have all: "sg_tr x = tr0\<lparr>error_code := (if rs = [] then error_code tr0 else - 1)\<rparr> \<and> (rs \<noteq> [] \<longrightarrow> blocked (sg_task x) = om AND BLOCKABLE)"
      if "length rs = length ns"
    proof -
      have "drop (length rs) ?R = []" using that by (simp add: handlers_of_def)
      then have "f' = esp tr0 \<and> ip' = eip tr0 \<and> om' = om \<and> tr' = tr0" using x(2) by (simp add: stacked_Nil)
      moreover have "rs \<noteq> []" using that False by auto
      ultimately show ?thesis using x(3,4) by simp
    qed
    have some: "sa_handler (sigact (sg_task s) (ns ! length rs)) = Handler (eip (sg_tr x)) \<and>
       get_fs_long (esp (sg_tr x)) (sg_mem x) = esp (sg_tr x) + 96 \<and> get_fs_long (esp (sg_tr x) + 4) (sg_mem x) = of_nat (ns ! length rs + 1) \<and>
       map (\<lambda>j. sg_mem x (esp (sg_tr x) + 96 + of_nat j)) [0..<8] = return_code" if lt: "length rs < length ns"
    proof -
      let ?n = "ns ! length rs"
      obtain a where a: "sa_handler (sigact (sg_task s) ?n) = Handler a" using hn nth_mem [OF lt] by blast
      have "drop (length rs) ?R = (?n, a) # drop (Suc (length rs)) ?R"
        using lt a by (simp add: Cons_nth_drop_Suc [symmetric] handlers_of_def rev_map handler_address_def)
      then have "stacked th (sg_mem x) tr0 om ((?n, a) # drop (Suc (length rs)) ?R) f' ip' om' tr'" using x(2) by simp
      from stacked_top [OF this] show ?thesis using x(3) a by simp
    qed
    have b: "(ns \<noteq> []) = True" using False by simp
    show ?thesis unfolding b
      by (rule exI [of _ s'], rule exI [of _ "th\<lparr>trap_no := 0, th_error_code := 0\<rparr>"], rule exI [of _ x], rule conjI [OF d], rule conjI [OF x(1)], rule conjI; rule impI)
        (erule all, erule some)
  qed
qed

text \<open>What a task and its handlers can do to the signals of the task.\<close>

inductive sig_life :: "ktask \<Rightarrow> bool" where
  start: "blocked t = 0 \<Longrightarrow> (\<forall>n. sa_handler (sigact t n) = SIG_DFL \<and> sa_mask (sigact t n) = 0) \<Longrightarrow> sig_life t"
| arrive: "sig_life t \<Longrightarrow> sig_life (t\<lparr>signal := w\<rparr>)"
| procmask: "sig_life t \<Longrightarrow> sig_life (snd (sys_sigprocmask how nw ow t))"
| set_signal: "sig_life t \<Longrightarrow> sig_life (snd (sys_signal k hn ok t))"
| set_sigaction: "sig_life t \<Longrightarrow> sig_life (snd (sys_sigaction k act ok old t))"
| suspend: "sig_life t \<Longrightarrow> sig_life (snd (sigsuspend_mask m t))"
| deliver: "sig_life (sg_task s) \<Longrightarrow> old_mask = blocked (sg_task s) \<Longrightarrow> do_signal ok' th pflags stops old_mask s = Returns b s' th' \<Longrightarrow> sig_life (sg_task s')"
| sigreturn: "sig_life (sg_task s) \<Longrightarrow> do_sigreturn ok' s = Inr (v, s') \<Longrightarrow> sig_life (sg_task s')"

lemma enter_handler_unrefusable: "unrefusable (sg_task (fr_sys x)) \<Longrightarrow> unrefusable (sg_task (fr_sys (enter_handler n f m x)))"
  by (auto simp: enter_handler_def Let_def unrefusable_def and_not_or)

lemma frames_loop_unrefusable:
  "frames_loop ok th h ns x = Inr y \<Longrightarrow> unrefusable (sg_task (fr_sys x)) \<Longrightarrow> unrefusable (sg_task (fr_sys y))"
  by (induction ns arbitrary: x) (auto simp: enter_handler_unrefusable split: if_splits sum.splits)

lemma do_signal_unrefusable:
  assumes "do_signal ok th pflags stops om s = Returns b s' th'" "unrefusable (sg_task s)"
  shows "unrefusable (sg_task s')"
proof -
  obtain h s1 where l: "signal_loop pflags stops 0 s = Delivered h s1" using assms(1) by (auto simp: do_signal_def split: sig_result.splits)
  have u: "unrefusable (sg_task s1)" using signal_loop_keeps [OF l] assms(2) by (simp add: unrefusable_def)
  have d: "build_frames ok th om h s1 = Inr (b, s', th')" using assms(1) by (simp add: do_signal_def l split: sum.splits prod.splits)
  show ?thesis
  proof (cases "h = 0")
    case True
    then show ?thesis using d u by (auto simp: build_frames_def Let_def)
  next
    case False
    then obtain y where "frames_loop ok th h [0..<32]
        \<lparr>fr_frame = esp (restart_call (sg_tr s1)), fr_eip = eip (restart_call (sg_tr s1)), fr_mask = om, fr_sys = s1\<lparr>sg_tr := restart_call (sg_tr s1)\<rparr>\<rparr> = Inr y"
      "sg_task s' = sg_task (fr_sys y)" using d by (auto simp: build_frames_def Let_def split: sum.splits)
    then show ?thesis using frames_loop_unrefusable u by fastforce
  qed
qed

lemma sig_life_unrefusable: "sig_life t \<Longrightarrow> unrefusable t"
proof (induction rule: sig_life.induct)
  case (deliver s old_mask ok' th pflags stops b s' th')
  then show ?case using do_signal_unrefusable by blast
next
  case (sigreturn s ok' v s')
  then show ?case by (auto simp: do_sigreturn_def Let_def unrefusable_def and_self_not split: if_splits)
qed (simp_all add: calls_unrefusable, simp_all add: unrefusable_def)

text \<open>C37: Nothing a task does makes it immune to \<open>SIGKILL\<close>: after any calls that set masks, actions and handlers, and any deliveries and
  returns from handlers, a pending \<open>SIGKILL\<close> ends the task the next time signals are delivered (but for task 1).\<close>

theorem sigkill_is_final:
  assumes "sig_life (sg_task s)" "kt_pid (sg_task s) \<noteq> 1" "bit (signal (sg_task s)) (SIGKILL - 1)"
  shows "\<exists>n \<le> SIGKILL. do_signal ok th pflags stops old_mask s = Exits (of_nat n)"
proof -
  obtain n s' where "signal_loop pflags stops 0 s = Exited n s'" "n \<le> SIGKILL"
    using kill_ends [OF sig_life_unrefusable [OF assms(1)] assms(2,3)] by blast
  then show ?thesis by (auto simp: do_signal_def)
qed

section \<open>Examples\<close>

text \<open>A task with handlers for the signals 2 and 10, both pending, in an interrupted system call.\<close>

definition sig_example :: sig_sys where
  "sig_example = \<lparr>sg_task = (boot_task 0)\<lparr>kt_pid := 7, signal := 0x202,
       sigact := (\<lambda>n. \<lparr>sa_handler = (if n = 1 then Handler 0x1000 else if n = 9 then Handler 0x2000 else SIG_DFL), sa_flags = 0, sa_restorer = 0, sa_mask = 0\<rparr>)\<rparr>,
     sg_tr = \<lparr>ebx = 1, ecx = 2, edx = 3, esi = 4, edi = 5, ebp = 6, eax = - 512, ds = 0x2b, es = 0x2b, fs = 0x2b, gs = 0x33, error_code = 3, eip = 0x5000,
       cs = 0x23, eflags = 0x202, esp = 0x10000, ss = 0x2b\<rparr>,
     sg_mem = (\<lambda>_. 0), sg_log = []\<rparr>"

definition sig_thread :: thread_info where "sig_thread = \<lparr>trap_no = 0, th_error_code = 0, cr2 = 0\<rparr>"

lemma sig_example_loop:
  "\<exists>s1. signal_loop 0 [] 0 sig_example = Delivered 0x202 s1 \<and> sg_tr s1 = (sg_tr sig_example)\<lparr>eax := m_EINTR\<rparr>"
proof -
  have "case signal_loop 0 [] 0 sig_example of Delivered h s1 \<Rightarrow> h = 0x202 \<and> sg_tr s1 = (sg_tr sig_example)\<lparr>eax := m_EINTR\<rparr> | _ \<Rightarrow> False" by code_simp
  then show ?thesis by (auto split: sig_result.splits)
qed

text \<open>Both handlers run, signal 10 first, and then the system call returns \<^verbatim>\<open>-EINTR\<close>.\<close>

theorem handlers_run_and_return_witness:
  "\<exists>s' th' x. do_signal (\<lambda>_ _. True) sig_thread 0 [] 0 sig_example = Returns True s' th' \<and>
     run_handlers (\<lambda>_ _. True) [sg_tr sig_example, sg_tr sig_example] s' = Inr x \<and>
     sg_tr x = (sg_tr sig_example)\<lparr>eax := m_EINTR, error_code := - 1\<rparr> \<and> blocked (sg_task x) = 0"
proof -
  obtain s1 where s1: "signal_loop 0 [] 0 sig_example = Delivered 0x202 s1" "sg_tr s1 = (sg_tr sig_example)\<lparr>eax := m_EINTR\<rparr>"
    using sig_example_loop by blast
  have ns: "rev (filter (bit (0x202 :: u32)) [0..<32]) = [9, 1]" by code_simp
  have r: "restart_call (sg_tr s1) = (sg_tr sig_example)\<lparr>eax := m_EINTR\<rparr>" by (simp add: s1(2) restart_call_def)
  have e: "4096 \<le> unat (esp (sg_tr sig_example))" by (simp add: sig_example_def)
  show ?thesis
    using handlers_run_and_return [OF s1(1) refl refl e, of "\<lambda>_ _. True" "[sg_tr sig_example, sg_tr sig_example]" sig_thread 0]
    unfolding ns r by simp
qed

theorem sigkill_is_final_witness:
  "\<exists>n \<le> SIGKILL. do_signal (\<lambda>_ _. True) sig_thread 0 [] 0
     (sig_example\<lparr>sg_task := snd (sys_sigprocmask SIG_SETMASK (Some (True, - 1)) None ((boot_task 0)\<lparr>kt_pid := 7\<rparr>))\<lparr>signal := 0x100\<rparr>\<rparr>) = Exits (of_nat n)"
proof (rule sigkill_is_final)
  have "sig_life ((boot_task 0)\<lparr>kt_pid := 7\<rparr>)" by (rule sig_life.start) (simp_all add: boot_task_def)
  from sig_life.arrive [OF sig_life.procmask [OF this]] show "sig_life (sg_task (sig_example\<lparr>sg_task :=
      snd (sys_sigprocmask SIG_SETMASK (Some (True, - 1)) None ((boot_task 0)\<lparr>kt_pid := 7\<rparr>))\<lparr>signal := 0x100\<rparr>\<rparr>))" by simp
  show "bit (signal (sg_task (sig_example\<lparr>sg_task :=
      snd (sys_sigprocmask SIG_SETMASK (Some (True, - 1)) None ((boot_task 0)\<lparr>kt_pid := 7\<rparr>))\<lparr>signal := 0x100\<rparr>\<rparr>))) (SIGKILL - 1)" by simp
qed (simp add: sys_sigprocmask_def Let_def)

text \<open>The mask of a handler does not keep other pending signals back: signal 1 masks signal 2, and both are delivered at once.\<close>

lemma handler_mask_ignored:
  "case signal_loop 0 [] 0 (sig_example\<lparr>sg_task := (sg_task sig_example)\<lparr>signal := 3,
       sigact := (\<lambda>n. \<lparr>sa_handler = Handler 0x1000, sa_flags = 0, sa_restorer = 0, sa_mask = sigbit 2\<rparr>)\<rparr>\<rparr>) of
     Delivered h _ \<Rightarrow> h = 3 | _ \<Rightarrow> False"
  by code_simp

end
