(* ===== verification/Futex.thy ===== *)
theory Futex
  imports Semaphore
begin

text \<open>
  Futexes: \<^verbatim>\<open>src/src/kernel/futex.c\<close>, on top of the scheduler. A bucket of the hash table is the list of its waiters, each with
  its task and the address it waits for. The check of the user's word and the entry into the bucket are under
  \<^verbatim>\<open>futex_lock\<close> and one step; \<^verbatim>\<open>verify_area\<close> gives an answer that is an argument.
\<close>

section \<open>Model\<close>

record futex_waiter =
  fw_task :: addr
  fw_uaddr :: u32

type_synonym futex_queues = "nat \<Rightarrow> futex_waiter list"

definition futex_init :: futex_queues where "futex_init = (\<lambda>_. [])"

definition futex_queue :: "u32 \<Rightarrow> nat" where
  "futex_queue uaddr = unat (drop_bit 2 uaddr AND 63)"

fun wake_loop :: "nat \<Rightarrow> u32 \<Rightarrow> int \<Rightarrow> futex_waiter list \<Rightarrow> int \<Rightarrow> sched_sys \<Rightarrow> int \<times> sched_sys" where
  "wake_loop c uaddr nr [] woke s = (woke, s)"
| "wake_loop c uaddr nr (w # ws) woke s =
     (if fw_uaddr w = uaddr \<and> state_flag (stof s (fw_task w)) AND 3 \<noteq> 0
      then let s = wake_up_process c (fw_task w) s; woke = woke + 1 in if woke \<ge> nr then (woke, s) else wake_loop c uaddr nr ws woke s
      else wake_loop c uaddr nr ws woke s)"

definition wake_matching :: "nat \<Rightarrow> futex_waiter list \<Rightarrow> u32 \<Rightarrow> int \<Rightarrow> sched_sys \<Rightarrow> int \<times> sched_sys" where
  "wake_matching c q uaddr nr s = wake_loop c uaddr (if nr \<le> 0 then 0x7fffffff else nr) q 0 s"

definition futex_wake :: "nat \<Rightarrow> u32 \<Rightarrow> int \<Rightarrow> futex_queues \<Rightarrow> sched_sys \<Rightarrow> int \<times> sched_sys" where
  "futex_wake c uaddr nr_wake qs s = wake_matching c (qs (futex_queue uaddr)) uaddr nr_wake s"

datatype futex_result = Fails errno | Not_supported | Sleeps futex_queues sched_sys | Woke int sched_sys

text \<open>\<open>word\<close> is the word at the address.\<close>

definition futex_wait :: "nat \<Rightarrow> u32 \<Rightarrow> bool \<Rightarrow> u32 \<Rightarrow> u32 \<Rightarrow> bool \<Rightarrow> futex_queues \<Rightarrow> sched_sys \<Rightarrow> futex_result" where
  "futex_wait c uaddr ok word val timeout qs s =
     (if timeout then Not_supported
      else if \<not> ok then Fails EFAULT
      else if word \<noteq> val then Fails EAGAIN
      else
        let i = futex_queue uaddr; p = curr s c
        in Sleeps (qs(i := qs i @ [\<lparr>fw_task = p, fw_uaddr = uaddr\<rparr>])) (upd_task p (\<lambda>t. t\<lparr>kt_state := TASK_INTERRUPTIBLE\<rparr>) s))"

text \<open>After \<^verbatim>\<open>schedule\<close> has returned.\<close>

definition futex_wait_end :: "nat \<Rightarrow> u32 \<Rightarrow> futex_queues \<Rightarrow> sched_sys \<Rightarrow> (errno + unit) \<times> futex_queues" where
  "futex_wait_end c uaddr qs s =
     (let p = curr s c; i = futex_queue uaddr; qs = qs(i := filter (\<lambda>w. fw_task w \<noteq> p) (qs i))
      in (if signal_pending (ktasks s p) then Inl EINTR else Inr (), qs))"

datatype futex_op = FUTEX_WAIT | FUTEX_WAKE | FUTEX_REQUEUE | Other_op

definition futex_cmd :: "u32 \<Rightarrow> futex_op" where
  "futex_cmd op =
     (let cmd = op AND NOT (128 OR 256)
      in if cmd = 0 then FUTEX_WAIT else if cmd = 1 then FUTEX_WAKE else if cmd = 3 then FUTEX_REQUEUE else Other_op)"

definition sys_futex :: "nat \<Rightarrow> u32 \<Rightarrow> bool \<Rightarrow> u32 \<Rightarrow> u32 \<Rightarrow> bool \<Rightarrow> int \<Rightarrow> u32 \<Rightarrow> futex_queues \<Rightarrow> sched_sys \<Rightarrow> futex_result" where
  "sys_futex c uaddr ok op val timeout val3 word qs s =
     (if \<not> ok then Fails EFAULT
      else case futex_cmd op of
             FUTEX_WAIT \<Rightarrow> futex_wait c uaddr ok word val timeout qs s
           | FUTEX_WAKE \<Rightarrow> (case futex_wake c uaddr (sint val) qs s of (n, s) \<Rightarrow> Woke n s)
           | FUTEX_REQUEUE \<Rightarrow> (case futex_wake c uaddr val3 qs s of (n, s) \<Rightarrow> Woke n s)
           | Other_op \<Rightarrow> Not_supported)"

section \<open>Which waiters wake up\<close>

text \<open>The waiters of an address that sleep, in the order in which they came.\<close>

definition sleepers :: "u32 \<Rightarrow> sched_sys \<Rightarrow> futex_waiter list \<Rightarrow> addr list" where
  "sleepers uaddr s q = map fw_task (filter (\<lambda>w. fw_uaddr w = uaddr \<and> (stof s (fw_task w) = TASK_INTERRUPTIBLE \<or> stof s (fw_task w) = TASK_UNINTERRUPTIBLE)) q)"

lemma sleeping_flag: "state_flag st AND 3 \<noteq> 0 \<longleftrightarrow> st = TASK_INTERRUPTIBLE \<or> st = TASK_UNINTERRUPTIBLE"
  by (cases st) (simp_all add: state_flag_def)

lemma sleepers_cong: "(\<And>w. w \<in> set q \<Longrightarrow> stof s' (fw_task w) = stof s (fw_task w)) \<Longrightarrow> sleepers uaddr s' q = sleepers uaddr s q"
  by (simp add: sleepers_def cong: filter_cong)

definition woken :: "addr list \<Rightarrow> sched_sys \<Rightarrow> sched_sys \<Rightarrow> bool" where
  "woken ps s s' \<longleftrightarrow> (\<forall>p. stof s' p = (if p \<in> set ps then TASK_RUNNING else stof s p)) \<and>
     (\<forall>p \<in> set ps. \<exists>d. p \<in> set (runq s' d)) \<and> (\<forall>p d. p \<in> set (runq s d) \<longrightarrow> p \<in> set (runq s' d))"

lemma woken_none: "woken [] s s"
  by (simp add: woken_def)

lemma woken_one:
  assumes "p \<noteq> NULL"
  shows "woken [p] s (wake_up_process c p s)"
proof -
  have "x \<in> set (runq (wake_up_process c p s) d)" if "x \<in> set (runq s d)" for x d
    using that by (auto simp: wake_up_process_def Let_def upd_task_def enqueue_task_def)
  then show ?thesis using wake_up_queues [OF assms, of c s] wake_up_process_others(2) [of _ p c s] by (auto simp: woken_def)
qed

lemma woken_trans: "woken ps s s' \<Longrightarrow> woken qs s' s'' \<Longrightarrow> woken (ps @ qs) s s''"
  unfolding woken_def by (auto; metis)

lemma wake_loop_exact:
  assumes "distinct (map fw_task q)" "NULL \<notin> set (map fw_task q)" "woke < nr" "wake_loop c uaddr nr q woke s = (n, s')"
  shows "n = woke + int (length (take (nat (nr - woke)) (sleepers uaddr s q))) \<and> woken (take (nat (nr - woke)) (sleepers uaddr s q)) s s'"
  using assms
proof (induction q arbitrary: woke s)
  case Nil
  then show ?case by (simp add: sleepers_def woken_none)
next
  case (Cons w q)
  let ?p = "fw_task w"
  show ?case
  proof (cases "fw_uaddr w = uaddr \<and> state_flag (stof s ?p) AND 3 \<noteq> 0")
    case False
    then have "sleepers uaddr s (w # q) = sleepers uaddr s q" by (auto simp: sleepers_def sleeping_flag)
    then show ?thesis using Cons False by auto
  next
    case True
    let ?s = "wake_up_process c ?p s"
    have p: "?p \<noteq> NULL" "?p \<notin> fw_task ` set q" using Cons.prems by auto
    have sl: "sleepers uaddr s (w # q) = ?p # sleepers uaddr s q" using True by (auto simp: sleepers_def sleeping_flag)
    have eq: "sleepers uaddr ?s q = sleepers uaddr s q"
      by (rule sleepers_cong) (metis p(2) image_eqI wake_up_process_others(2))
    have one: "nat (nr - woke) = Suc (nat (nr - (woke + 1)))" using Cons.prems(3) by simp
    show ?thesis
    proof (cases "woke + 1 \<ge> nr")
      case True
      then have "n = woke + 1" "s' = ?s" "nat (nr - woke) = 1" using Cons.prems(3,4) \<open>fw_uaddr w = uaddr \<and> _\<close> by (auto simp: Let_def)
      then show ?thesis using woken_one [OF p(1)] by (simp add: sl)
    next
      case False
      then have "wake_loop c uaddr nr q (woke + 1) ?s = (n, s')" using Cons.prems(4) True by (simp add: Let_def)
      from Cons.IH [OF _ _ _ this] Cons.prems False
      have "n = woke + 1 + int (length (take (nat (nr - (woke + 1))) (sleepers uaddr s q)))" "woken (take (nat (nr - (woke + 1))) (sleepers uaddr s q)) ?s s'"
        by (auto simp: eq)
      then show ?thesis using woken_trans [OF woken_one [OF p(1)]] by (simp add: sl one)
    qed
  qed
qed

section \<open>Properties\<close>



text \<open>Addresses are not told apart by address space: a waiter of another process at the same address takes the wake-up.\<close>

lemma futex_wakes_other_process:
  assumes "stof s p = TASK_INTERRUPTIBLE" "stof s q = TASK_INTERRUPTIBLE" "p \<noteq> q" "p \<noteq> NULL"
    "qs (futex_queue uaddr) = [\<lparr>fw_task = p, fw_uaddr = uaddr\<rparr>, \<lparr>fw_task = q, fw_uaddr = uaddr\<rparr>]"
  shows "fst (futex_wake c uaddr 1 qs s) = 1 \<and> stof (snd (futex_wake c uaddr 1 qs s)) q = TASK_INTERRUPTIBLE"
  using assms wake_up_process_others(2) [of q p c s] by (simp add: futex_wake_def wake_matching_def sleeping_flag Let_def)

end
