(* ===== verification/Spec2Isabelle.thy ===== *)
theory Spec2Isabelle
  imports Ring_Buffer Mem_Init Kmalloc Vma Logbuf Printk Pipe Blkdev Buffer_Cache Inode_Cache Files Ext2_Ialloc Ext2_File Pty Timer Sched Semaphore Signal Futex
begin

text \<open>
  Verification development for the mario kernel, a 32-bit x86 operating system in C. All paths below are under
  \<^verbatim>\<open>src/src/\<close>.

  \<^bold>\<open>The program.\<close> At boot the kernel reads the memory map of the loader (\<^verbatim>\<open>mm/e820.c\<close>), takes early
  memory from a bump allocator (\<^verbatim>\<open>mm/bootmem.c\<close>) and hands the rest to a buddy allocator of pages
  (\<^verbatim>\<open>mm/page_alloc.c\<close>). On the pages stand the heap (\<^verbatim>\<open>mm/kmalloc.c\<close>), the page tables and the areas of
  an address space (\<^verbatim>\<open>mm/mm.c\<close>, \<^verbatim>\<open>mm/uaccess.c\<close>), and the byte rings (\<^verbatim>\<open>lib/ring_buffer.c\<close>) of pipes
  (\<^verbatim>\<open>fs/pipe.c\<close>) and terminals (\<^verbatim>\<open>fs/char/tty.c\<close>, \<^verbatim>\<open>fs/char/pty.c\<close>). Messages are formatted
  (\<^verbatim>\<open>kernel/printk.c\<close>), kept in a log of records (\<^verbatim>\<open>kernel/logbuf.c\<close>) and read through
  \<^verbatim>\<open>fs/char/kmsg.c\<close> and \<^verbatim>\<open>kernel/syslog.c\<close>. Block devices (\<^verbatim>\<open>fs/block/\<close>) are reached through a table of drivers
  and a cache of sectors; inodes through a cache with references (\<^verbatim>\<open>fs/inode.c\<close>); files through descriptors
  (\<^verbatim>\<open>fs/file.c\<close>, \<^verbatim>\<open>fs/fcntl.c\<close>). The ext2 file system (\<^verbatim>\<open>fs/ext2/\<close>) keeps bit maps, inodes and trees of
  pointer blocks on a block device. Tasks run on several processors (\<^verbatim>\<open>kernel/sched.c\<close>); they wait in queues
  (\<^verbatim>\<open>kernel/wait.c\<close>) for mutexes (\<^verbatim>\<open>kernel/semaphore.c\<close>), for futexes (\<^verbatim>\<open>kernel/futex.c\<close>) and for time
  (\<^verbatim>\<open>kernel/timer.c\<close>), and signals (\<^verbatim>\<open>kernel/signal.c\<close>) wake them and run their handlers.

  \<^bold>\<open>Conventions of the model.\<close> Structures are records, enumerations are datatypes, functions are
  executable definitions with the names of the code. Unsigned integers are words of their width, so arithmetic
  wraps as in C; counters that the code declares as \<^verbatim>\<open>int\<close> and that count objects of a bounded table are
  integers. An error return is \<^term>\<open>Inl e\<close> with \<open>e\<close> an \<open>errno\<close>; a failed assertion, a call of
  \<^verbatim>\<open>hang\<close>, a dereferenced null pointer and an access outside a buffer are \<^term>\<open>None\<close>. A loop over a range or a
  list is structural recursion; a loop whose end depends on data is a \<open>partial_function\<close> on options, where not
  returning is \<^term>\<open>None\<close>, and the theorems about it state that it returns. No definition has fuel; only
  \<open>find_seq\<close> has a number of rounds, because the code bounds the loop by the number of records. Whether
  \<^verbatim>\<open>kmalloc\<close> succeeds inside a file system function is a flag, one for each call. Code that is not in the repository's
  C (disk hardware, the methods of a driver) is an argument. An operation under a lock is one step; where
  tasks sleep and wake, attempts and queues are steps of a relation (\<open>Pipe\<close>, \<open>Pty\<close>, \<open>Sched\<close>, \<open>Semaphore\<close>). The contents of user
  memory and the answers of \<^verbatim>\<open>verify_area\<close> are arguments of the system calls that ask for them.

  \<^bold>\<open>Theories.\<close>
  \<^item> \<open>Prelude\<close>: machine integers, error numbers, copying of blocks, rings of bytes and little-endian numbers.
  \<^item> \<open>Ring_Buffer\<close> (\<^verbatim>\<open>lib/ring_buffer.c\<close>): a ring is a bounded queue of bytes. The locale \<open>byte_queue\<close> has the
    laws of a queue and the first-in-first-out theorem; rings and pipes are instances.
  \<^item> \<open>Page_Alloc\<close>, \<open>Mem_Init\<close> (\<^verbatim>\<open>mm/page_alloc.c\<close>, \<^verbatim>\<open>mm/e820.c\<close>, \<^verbatim>\<open>mm/bootmem.c\<close>): free lists and
    bit maps of buddies implement a set of free pages; the locale \<open>page_allocator\<close> carries the safety of clients.
    Start-up frees exactly the usable pages.
  \<^item> \<open>Kmalloc\<close> (\<^verbatim>\<open>mm/kmalloc.c\<close>): boards of blocks on pages of the buddy allocator, as an explicit store of
    links; the locale \<open>heap_allocator\<close> gives disjoint live blocks.
  \<^item> \<open>Page_Table\<close>, \<open>Vma\<close> (\<^verbatim>\<open>mm/mm.c\<close>, \<^verbatim>\<open>mm/uaccess.c\<close>): unmapping a range of page tables, and
    the sorted list of areas with mapping, unmapping, merging and the check of user pointers.
  \<^item> \<open>Logbuf\<close>, \<open>Printk\<close> (\<^verbatim>\<open>kernel/logbuf.c\<close>, \<^verbatim>\<open>fs/char/kmsg.c\<close>, \<^verbatim>\<open>kernel/syslog.c\<close>, \<^verbatim>\<open>kernel/printk.c\<close>):
    the ring of records refines a list of records; readers see every record that was not overwritten
    (locale \<open>record_log\<close>); formatting with a bound writes a prefix of the unbounded output.
  \<^item> \<open>Pipe\<close>, \<open>Files\<close> (\<^verbatim>\<open>fs/pipe.c\<close>, \<^verbatim>\<open>fs/file.c\<close>, \<^verbatim>\<open>fs/fcntl.c\<close>, \<^verbatim>\<open>sys_close\<close>): pipes with sleepers,
    no lost wake-up; reference counts of files and pipe ends under every sequence of calls of tasks that fork,
    duplicate, close and exit.
  \<^item> \<open>Lru\<close>, \<open>Buffer_Cache\<close>, \<open>Inode_Cache\<close> (\<^verbatim>\<open>fs/block/buffer.c\<close>, \<^verbatim>\<open>fs/inode.c\<close>): the locale
    \<open>object_cache\<close> is the contract of a cache with references, and both caches are instances; the sector cache is
    transparent over any device that satisfies the locale \<open>block_device\<close>.
  \<^item> \<open>Blkdev\<close> (\<^verbatim>\<open>fs/block/blkdev.c\<close>, \<^verbatim>\<open>rd.c\<close>, \<^verbatim>\<open>file.c\<close>): the table of drivers, ram disks (the instance of
    \<open>block_device\<close>) and device files.
  \<^item> \<open>Bitops\<close> (\<^verbatim>\<open>lib/bitops.c\<close>): the searches for a zero bit find the least one.
  \<^item> \<open>Ext2\<close>, \<open>Ext2_Inode\<close>, \<open>Ext2_Bmap\<close>, \<open>Ext2_Ialloc\<close> (\<^verbatim>\<open>fs/ext2/balloc.c\<close>, \<^verbatim>\<open>buffer.c\<close>, \<^verbatim>\<open>inode.c\<close>,
    \<^verbatim>\<open>bmap.c\<close>, \<^verbatim>\<open>ialloc.c\<close>): over a store of blocks (locale \<open>block_store\<close>, with volumes on ram disks as the
    instance) the allocators implement the sets of free blocks and inodes that the bit maps on disk describe, inodes
    read back as they were written, and the block map of a file grows only by fresh blocks.
  \<^item> \<open>Ext2_File\<close> (\<^verbatim>\<open>fs/ext2/file.c\<close>): on top of the block map, reading and writing make a file an array of bytes
    with a size, whatever blocks it has.
  \<^item> \<open>Tty\<close>, \<open>Pty\<close> (\<^verbatim>\<open>fs/char/tty.c\<close>, \<^verbatim>\<open>fs/char/pty.c\<close>): the line discipline over a driver (locale \<open>tty_device\<close>,
    with the pseudo terminal as the instance), its agreement with a reference line editor, and the counts and
    states of the table of pseudo terminals under every sequence of calls.
  \<^item> \<open>List_Head\<close>, \<open>Timer\<close> (\<^verbatim>\<open>include/lib/list.h\<close>, \<^verbatim>\<open>kernel/timer.c\<close>, \<^verbatim>\<open>schedule_timeout\<close>): doubly linked rings as an
    explicit store of links; the list of timers is sorted, a run fires exactly the timers that are due, and a sleep ends in time.
  \<^item> \<open>Sched\<close> (\<^verbatim>\<open>kernel/sched.c\<close>, with \<^verbatim>\<open>send_sig\<close> and parts of \<^verbatim>\<open>fork.c\<close>, \<^verbatim>\<open>exit.c\<close>, \<^verbatim>\<open>time.c\<close>): run queues of several
    processors as a relation of steps; no task runs twice, no runnable task is forgotten, and which task is chosen.
  \<^item> \<open>Semaphore\<close>, \<open>Futex\<close> (\<^verbatim>\<open>kernel/wait.c\<close>, \<^verbatim>\<open>semaphore.c\<close>, \<^verbatim>\<open>futex.c\<close>): on top of the scheduler, mutual
    exclusion and no lost wake-up for mutexes, and which waiters of a futex are woken.
  \<^item> \<open>Signal\<close> (\<^verbatim>\<open>kernel/signal.c\<close>): masks, actions, and the frames on the user stack as bytes: the handlers run and the
    interrupted program goes on as if nothing had happened; \<open>SIGKILL\<close> cannot be refused.

  \<^bold>\<open>What the theorems say.\<close> For each component: its invariant and that every operation keeps it; an
  abstract specification (a queue, a set, a list of records, an array of sectors, a map of blocks, a line editor) and
  that the operations implement it on every branch, errors included; and that the calls return. The bounds
  in hypotheses are those of the code: rings of at most \<^term>\<open>2 ^ 31\<close> bytes, block sizes that \<^verbatim>\<open>ext2_read_super\<close> accepts,
  pages below the limit of the boot map, counts within their words.

  \<^bold>\<open>What is not modelled.\<close> Interrupts, traps, PCI and AHCI are registers and assembly, as is the register part of a
  context switch; consoles, keyboard and frame buffer drive hardware. Program loading, sockets, names and mounts, the
  page cache, directories and truncation of ext2, FAT, MarioFS and the synthetic file systems are not modelled. Of processes the
  family links and \<^verbatim>\<open>waitpid\<close> are left out, and of the scheduler the conditions that its steps assume are the ones
  named there: affinity is changed of tasks off the run queues and exited tasks are reaped when they are parked.
  User programs and tests are outside the kernel.
\<close>

end
